(* ===== verification/Riley_Prelude.thy ===== *)
theory Riley_Prelude
  imports Main "HOL-Library.Code_Target_Nat"
begin

text \<open>
  What every component of the development shares.

  \<^item> Machine integers. The scheduler and the paged-KV module compute on \<open>usize\<close>,
    \<open>u64\<close>, \<open>u32\<close> and \<open>u16\<close> (64-bit target). They are natural numbers here, and every
    checked operation of the source (\<open>checked_add\<close>, \<open>checked_sub\<close>, \<open>checked_mul\<close>,
    \<open>try_from\<close>) is a function with the width written out that answers \<open>None\<close> where the
    Rust operation does.
  \<^item> The operations of the program. A Rust method \<open>fn f(&mut self) -> Result<T, E>\<close>
    may change \<open>self\<close> and then return an error, so a model operation is a function
    \<open>'s \<Rightarrow> ('e + 'a) \<times> 's\<close>: the outcome (\<open>Inl\<close> the error) and the state left
    behind in either case. \<open>bindM\<close> is the \<open>?\<close> operator.
  \<^item> A weakest-precondition calculus \<open>wp\<close> for such operations, with the rewrite rules of the
    collection \<open>wp_simps\<close>, and the generic facts on lists that the components use.
\<close>

named_theorems wp_simps "rewrite rules that push wp through the operation combinators"

type_synonym u16 = nat
type_synonym u32 = nat
type_synonym u64 = nat
type_synonym usize = nat

text \<open>The largest values of the Rust integer types.\<close>

abbreviation (input) u16_max :: nat where "u16_max \<equiv> 65535"
abbreviation (input) u32_max :: nat where "u32_max \<equiv> 4294967295"
abbreviation (input) u64_max :: nat where "u64_max \<equiv> 18446744073709551615"

definition checked_add :: "nat \<Rightarrow> nat \<Rightarrow> nat option" where
  "checked_add a b = (if a + b \<le> u64_max then Some (a + b) else None)"

definition checked_mul :: "nat \<Rightarrow> nat \<Rightarrow> nat option" where
  "checked_mul a b = (if a * b \<le> u64_max then Some (a * b) else None)"

definition checked_sub :: "nat \<Rightarrow> nat \<Rightarrow> nat option" where
  "checked_sub a b = (if b \<le> a then Some (a - b) else None)"

definition saturating_add :: "nat \<Rightarrow> nat \<Rightarrow> nat" where
  "saturating_add a b = min (a + b) u64_max"

text \<open>Plain \<open>+\<close> and \<open>-\<close> of the release profile wrap around.\<close>

definition wrapping_add :: "nat \<Rightarrow> nat \<Rightarrow> nat" where
  "wrapping_add a b = (a + b) mod (u64_max + 1)"

definition wrapping_sub :: "nat \<Rightarrow> nat \<Rightarrow> nat" where
  "wrapping_sub a b = (if b \<le> a then a - b else a + (u64_max + 1) - b)"

definition wrapping_add32 :: "nat \<Rightarrow> nat \<Rightarrow> nat" where
  "wrapping_add32 a b = (a + b) mod (u32_max + 1)"

definition wrapping_sub32 :: "nat \<Rightarrow> nat \<Rightarrow> nat" where
  "wrapping_sub32 a b = (if b \<le> a then a - b else a + (u32_max + 1) - b)"

definition u32_try_from :: "nat \<Rightarrow> nat option" where
  "u32_try_from n = (if n \<le> u32_max then Some n else None)"

definition u64_try_from :: "nat \<Rightarrow> nat option" where
  "u64_try_from n = (if n \<le> u64_max then Some n else None)"

definition div_ceil :: "nat \<Rightarrow> nat \<Rightarrow> nat" where
  "div_ceil a b = (if a mod b = 0 then a div b else a div b + 1)"

text \<open>
  What the program asks of its surroundings and cannot decide itself: whether a fallible host
  allocation of so many elements succeeds (\<open>try_reserve_exact\<close>), what the monotonic clock
  measured for an allocation (by its number in the pool's lifetime) and for a scheduler tick, and
  the size of a \<open>BlockSlot\<close> that the compiler chose. Every theorem holds for all answers.
\<close>

record host_env =
  he_alloc :: "string \<Rightarrow> usize \<Rightarrow> bool"
  he_alloc_elapsed_ns :: "u64 \<Rightarrow> nat"
  he_cpu_elapsed_ns :: nat
  he_block_slot_bytes :: usize

text \<open>\<open>ok_or\<close> turns a missing value into an error.\<close>

definition ok_or :: "'a option \<Rightarrow> 'e \<Rightarrow> 'e + 'a" where
  "ok_or x e = (case x of None \<Rightarrow> Inl e | Some v \<Rightarrow> Inr v)"

definition map_err :: "('e \<Rightarrow> 'f) \<Rightarrow> 'e + 'a \<Rightarrow> 'f + 'a" where
  "map_err f r = (case r of Inl e \<Rightarrow> Inl (f e) | Inr v \<Rightarrow> Inr v)"

subsection \<open>Fallible values without state\<close>

definition bindE :: "'e + 'a \<Rightarrow> ('a \<Rightarrow> 'e + 'b) \<Rightarrow> 'e + 'b" where
  "bindE r f = (case r of Inl e \<Rightarrow> Inl e | Inr x \<Rightarrow> f x)"

definition failE :: "bool \<Rightarrow> 'e \<Rightarrow> 'e + unit" where
  "failE b e = (if b then Inl e else Inr ())"

text \<open>The first failing element stops the scan, as an early return in a loop does.\<close>

fun forE :: "'b list \<Rightarrow> ('b \<Rightarrow> 'e + unit) \<Rightarrow> 'e + unit" where
  "forE [] f = Inr ()"
| "forE (x # xs) f = bindE (f x) (\<lambda>_. forE xs f)"

lemma bindE_simps [simp]:
  "bindE (Inl e) f = Inl e"
  "bindE (Inr x) f = f x"
  by (simp_all add: bindE_def)

lemma bindE_eq_Inr [simp]:
  "bindE r f = Inr y \<longleftrightarrow> (\<exists>x. r = Inr x \<and> f x = Inr y)"
  by (cases r) auto

lemma bindE_eq_Inl:
  "bindE r f = Inl e \<longleftrightarrow> r = Inl e \<or> (\<exists>x. r = Inr x \<and> f x = Inl e)"
  by (cases r) auto

lemma failE_eq [simp]:
  "failE b e = Inr u \<longleftrightarrow> \<not> b"
  "failE b e = Inl e' \<longleftrightarrow> b \<and> e' = e"
  by (auto simp: failE_def)

lemma ok_or_eq [simp]:
  "ok_or x e = Inr v \<longleftrightarrow> x = Some v"
  "ok_or x e = Inl e' \<longleftrightarrow> x = None \<and> e' = e"
  "ok_or (Some v) e = Inr v"
  "ok_or None e = Inl e"
  by (auto simp: ok_or_def split: option.splits)

lemma map_err_eq [simp]:
  "map_err f (Inl e) = Inl (f e)"
  "map_err f (Inr v) = Inr v"
  "map_err f r = Inr v \<longleftrightarrow> r = Inr v"
  "map_err f r = Inl e' \<longleftrightarrow> (\<exists>e. r = Inl e \<and> e' = f e)"
  by (auto simp: map_err_def split: sum.splits)

lemma forE_Inr: "forE xs f = Inr u \<longleftrightarrow> (\<forall>x\<in>set xs. f x = Inr ())"
  by (induction xs) auto

lemma forE_Inl: "forE xs f = Inl e \<Longrightarrow> \<exists>x\<in>set xs. f x = Inl e"
  by (induction xs) (auto simp: bindE_eq_Inl)

lemma checked_eq [simp]:
  "checked_add a b = Some c \<longleftrightarrow> c = a + b \<and> a + b \<le> u64_max"
  "checked_add a b = None \<longleftrightarrow> u64_max < a + b"
  "checked_mul a b = Some c \<longleftrightarrow> c = a * b \<and> a * b \<le> u64_max"
  "checked_mul a b = None \<longleftrightarrow> u64_max < a * b"
  "checked_sub a b = Some c \<longleftrightarrow> c = a - b \<and> b \<le> a"
  "checked_sub a b = None \<longleftrightarrow> a < b"
  by (auto simp: checked_add_def checked_mul_def checked_sub_def)

lemma try_from_eq [simp]:
  "u32_try_from n = Some m \<longleftrightarrow> m = n \<and> n \<le> u32_max"
  "u32_try_from n = None \<longleftrightarrow> u32_max < n"
  "u64_try_from n = Some m \<longleftrightarrow> m = n \<and> n \<le> u64_max"
  "u64_try_from n = None \<longleftrightarrow> u64_max < n"
  by (auto simp: u32_try_from_def u64_try_from_def)

lemma wrapping_exact [simp]:
  "a + b \<le> u64_max \<Longrightarrow> wrapping_add a b = a + b"
  "b \<le> a \<Longrightarrow> wrapping_sub a b = a - b"
  "a + b \<le> u32_max \<Longrightarrow> wrapping_add32 a b = a + b"
  "b \<le> a \<Longrightarrow> wrapping_sub32 a b = a - b"
  by (simp_all add: wrapping_add_def wrapping_sub_def wrapping_add32_def wrapping_sub32_def)

lemma div_ceil_le_iff: "0 < b \<Longrightarrow> div_ceil a b \<le> n \<longleftrightarrow> a \<le> n * b"
proof -
  assume b: "0 < b"
  show ?thesis
  proof (cases "a mod b = 0")
    case True
    then obtain k where "a = b * k" by (auto simp: mod_eq_0_iff_dvd elim: dvdE)
    with b True show ?thesis by (simp add: div_ceil_def mult.commute)
  next
    case False
    have "a div b < n \<longleftrightarrow> a < n * b"
      using b by (simp add: div_less_iff_less_mult)
    moreover have "a \<noteq> n * b" using False by auto
    ultimately show ?thesis using False by (auto simp: div_ceil_def)
  qed
qed

lemma div_ceil_mono: "0 < b \<Longrightarrow> a \<le> a' \<Longrightarrow> div_ceil a b \<le> div_ceil a' b"
proof -
  assume b: "0 < b" and "a \<le> a'"
  have "a' \<le> div_ceil a' b * b" using div_ceil_le_iff [OF b, of a' "div_ceil a' b"] by simp
  with \<open>a \<le> a'\<close> have "a \<le> div_ceil a' b * b" by (rule le_trans)
  then show ?thesis by (simp add: div_ceil_le_iff [OF b])
qed

lemma less_div_ceil_iff: "0 < b \<Longrightarrow> n < div_ceil a b \<longleftrightarrow> n * b < a"
  by (metis div_ceil_le_iff not_le)

lemma div_ceil_0 [simp]: "div_ceil 0 b = 0"
  by (simp add: div_ceil_def)

lemma div_ceil_mult [simp]: "0 < b \<Longrightarrow> div_ceil (n * b) b = n"
  by (simp add: div_ceil_def)

subsection \<open>Operations: outcome and state\<close>

type_synonym ('s, 'e, 'a) cmd = "'s \<Rightarrow> ('e + 'a) \<times> 's"

definition ret :: "'a \<Rightarrow> ('s, 'e, 'a) cmd" where
  "ret x = (\<lambda>s. (Inr x, s))"

definition throwM :: "'e \<Rightarrow> ('s, 'e, 'a) cmd" where
  "throwM e = (\<lambda>s. (Inl e, s))"

definition bindM :: "('s, 'e, 'a) cmd \<Rightarrow> ('a \<Rightarrow> ('s, 'e, 'b) cmd) \<Rightarrow> ('s, 'e, 'b) cmd" where
  "bindM m f = (\<lambda>s. case m s of (Inl e, t) \<Rightarrow> (Inl e, t) | (Inr x, t) \<Rightarrow> f x t)"

text \<open>\<open>withM\<close> reads the state, \<open>tryM\<close> raises the error of a pure result, \<open>failIf\<close> is an
  early error return and \<open>modM\<close> an assignment.\<close>

definition withM :: "('s \<Rightarrow> ('s, 'e, 'a) cmd) \<Rightarrow> ('s, 'e, 'a) cmd" where
  "withM f = (\<lambda>s. f s s)"

definition tryM :: "'e + 'a \<Rightarrow> ('s, 'e, 'a) cmd" where
  "tryM r = (\<lambda>s. (r, s))"

definition failIf :: "bool \<Rightarrow> 'e \<Rightarrow> ('s, 'e, unit) cmd" where
  "failIf b e = (\<lambda>s. (if b then Inl e else Inr (), s))"

definition modM :: "('s \<Rightarrow> 's) \<Rightarrow> ('s, 'e, unit) cmd" where
  "modM f = (\<lambda>s. (Inr (), f s))"

text \<open>\<open>catchM\<close> inspects the outcome of an operation without returning early.\<close>

definition catchM :: "('s, 'e, 'a) cmd \<Rightarrow> ('e + 'a \<Rightarrow> ('s, 'f, 'b) cmd) \<Rightarrow> ('s, 'f, 'b) cmd" where
  "catchM m f = (\<lambda>s. case m s of (r, t) \<Rightarrow> f r t)"

text \<open>An operation of a component inside the state of its owner, with its error converted.\<close>

definition zoomM ::
  "('s \<Rightarrow> 't) \<Rightarrow> ('t \<Rightarrow> 's \<Rightarrow> 's) \<Rightarrow> ('e \<Rightarrow> 'f) \<Rightarrow> ('t, 'e, 'a) cmd \<Rightarrow> ('s, 'f, 'a) cmd" where
  "zoomM rd wr conv m = (\<lambda>s. case m (rd s) of (r, t) \<Rightarrow> (map_err conv r, wr t s))"

fun forM :: "'b list \<Rightarrow> ('b \<Rightarrow> ('s, 'e, unit) cmd) \<Rightarrow> ('s, 'e, unit) cmd" where
  "forM [] f = ret ()"
| "forM (x # xs) f = bindM (f x) (\<lambda>_. forM xs f)"

definition wp :: "('s, 'e, 'a) cmd \<Rightarrow> ('a \<Rightarrow> 's \<Rightarrow> bool) \<Rightarrow> ('e \<Rightarrow> 's \<Rightarrow> bool) \<Rightarrow> 's \<Rightarrow> bool" where
  "wp m Q E s = (case m s of (Inl e, t) \<Rightarrow> E e t | (Inr x, t) \<Rightarrow> Q x t)"

lemma wp_ret [wp_simps]: "wp (ret x) Q E s = Q x s"
  by (simp add: wp_def ret_def)

lemma wp_throwM [wp_simps]: "wp (throwM e) Q E s = E e s"
  by (simp add: wp_def throwM_def)

lemma wp_bindM [wp_simps]: "wp (bindM m f) Q E s = wp m (\<lambda>x. wp (f x) Q E) E s"
  by (auto simp: wp_def bindM_def split: prod.splits sum.splits)

lemma wp_withM [wp_simps]: "wp (withM f) Q E s = wp (f s) Q E s"
  by (simp add: wp_def withM_def)

lemma wp_tryM [wp_simps]:
  "wp (tryM r) Q E s = (case r of Inl e \<Rightarrow> E e s | Inr x \<Rightarrow> Q x s)"
  by (simp add: wp_def tryM_def)

lemma wp_failIf [wp_simps]: "wp (failIf b e) Q E s = (if b then E e s else Q () s)"
  by (simp add: wp_def failIf_def)

lemma wp_modM [wp_simps]: "wp (modM f) Q E s = Q () (f s)"
  by (simp add: wp_def modM_def)

lemma wp_catchM [wp_simps]:
  "wp (catchM m f) Q E s = wp m (\<lambda>x. wp (f (Inr x)) Q E) (\<lambda>e. wp (f (Inl e)) Q E) s"
  by (auto simp: wp_def catchM_def split: prod.splits sum.splits)

lemma wp_zoomM [wp_simps]:
  "wp (zoomM rd wr conv m) Q E s =
     wp m (\<lambda>x t. Q x (wr t s)) (\<lambda>e t. E (conv e) (wr t s)) (rd s)"
  by (auto simp: wp_def zoomM_def split: prod.splits sum.splits)

lemma wp_if [wp_simps]: "wp (if b then m else n) Q E s = (if b then wp m Q E s else wp n Q E s)"
  by simp

lemma wp_case_option [wp_simps]:
  "wp (case x of None \<Rightarrow> m | Some y \<Rightarrow> f y) Q E s =
     (case x of None \<Rightarrow> wp m Q E s | Some y \<Rightarrow> wp (f y) Q E s)"
  by (simp split: option.splits)

lemma wp_case_prod [wp_simps]:
  "wp (case p of (x, y) \<Rightarrow> f x y) Q E s = (case p of (x, y) \<Rightarrow> wp (f x y) Q E s)"
  by (simp split: prod.splits)

lemma wp_weaken:
  assumes "wp m Q' E' s"
    and "\<And>x t. Q' x t \<Longrightarrow> Q x t" and "\<And>e t. E' e t \<Longrightarrow> E e t"
  shows "wp m Q E s"
  using assms by (auto simp: wp_def split: prod.splits sum.splits)

lemma wp_conj:
  "wp m Q E s \<Longrightarrow> wp m Q' E' s \<Longrightarrow> wp m (\<lambda>x t. Q x t \<and> Q' x t) (\<lambda>e t. E e t \<and> E' e t) s"
  by (auto simp: wp_def split: prod.splits sum.splits)

lemma wpD_Inr: "wp m Q E s \<Longrightarrow> m s = (Inr x, t) \<Longrightarrow> Q x t"
  by (simp add: wp_def)

lemma wpD_Inl: "wp m Q E s \<Longrightarrow> m s = (Inl e, t) \<Longrightarrow> E e t"
  by (simp add: wp_def)

lemma wpI:
  assumes "\<And>x t. m s = (Inr x, t) \<Longrightarrow> Q x t" and "\<And>e t. m s = (Inl e, t) \<Longrightarrow> E e t"
  shows "wp m Q E s"
  using assms by (auto simp: wp_def split: prod.splits sum.splits)

text \<open>Guards in front of a continuation, and a call with a known contract.\<close>

lemma wp_tryI:
  "(\<And>e. r = Inl e \<Longrightarrow> E e s) \<Longrightarrow> (\<And>x. r = Inr x \<Longrightarrow> wp (f x) Q E s) \<Longrightarrow> wp (bindM (tryM r) f) Q E s"
  by (simp add: wp_bindM wp_tryM split: sum.splits)

lemma wp_failI:
  "(b \<Longrightarrow> E e s) \<Longrightarrow> (\<not> b \<Longrightarrow> wp (f ()) Q E s) \<Longrightarrow> wp (bindM (failIf b e) f) Q E s"
  by (simp add: wp_bindM wp_failIf)

lemma wp_callI:
  assumes "wp m Q' E' s" and "\<And>e t. E' e t \<Longrightarrow> E e t" and "\<And>x t. Q' x t \<Longrightarrow> wp (f x) Q E t"
  shows "wp (bindM m f) Q E s"
  unfolding wp_bindM by (rule wp_weaken [OF assms(1)]) (use assms in auto)

lemma wp_withI: "wp (f s) Q E s \<Longrightarrow> wp (withM f) Q E s"
  by (simp add: wp_withM)

lemma wp_letI: "wp (f x) Q E s \<Longrightarrow> wp (let y = x in f y) Q E s"
  by simp

lemmas wp_guards = wp_tryI wp_failI

text \<open>The loop rule: an invariant that each iteration keeps, on success and on error.\<close>

lemma wp_forM:
  assumes "I s"
    and "\<And>x t. x \<in> set xs \<Longrightarrow> I t \<Longrightarrow> wp (f x) (\<lambda>_. I) E t"
  shows "wp (forM xs f) (\<lambda>_. I) E s"
  using assms
proof (induction xs arbitrary: s)
  case Nil
  then show ?case by (simp add: wp_ret)
next
  case (Cons x xs)
  have "wp (f x) (\<lambda>_. I) E s" using Cons.prems by simp
  then have "wp (f x) (\<lambda>_. wp (forM xs f) (\<lambda>_. I) E) E s"
    by (rule wp_weaken) (use Cons in auto)
  then show ?case by (simp add: wp_bindM)
qed

lemmas cmd_defs = ret_def throwM_def bindM_def withM_def tryM_def failIf_def modM_def catchM_def
  zoomM_def

subsection \<open>Lists\<close>

text \<open>\<open>Vec::swap_remove\<close>: the last element takes the place of the removed one.\<close>

definition swap_remove :: "nat \<Rightarrow> 'a list \<Rightarrow> 'a list" where
  "swap_remove i xs = butlast (xs[i := last xs])"

fun position :: "('a \<Rightarrow> bool) \<Rightarrow> 'a list \<Rightarrow> nat option" where
  "position p [] = None"
| "position p (x # xs) = (if p x then Some 0 else map_option Suc (position p xs))"

lemma position_SomeD:
  "position p xs = Some i \<Longrightarrow> i < length xs \<and> p (xs ! i) \<and> (\<forall>j<i. \<not> p (xs ! j))"
proof (induction xs arbitrary: i)
  case Nil
  then show ?case by simp
next
  case (Cons x xs)
  then show ?case by (auto split: if_splits simp: nth_Cons' less_Suc_eq_0_disj)
qed

lemma position_None: "position p xs = None \<longleftrightarrow> (\<forall>x\<in>set xs. \<not> p x)"
  by (induction xs) auto

lemma set_swap_remove:
  assumes "i < length xs" and "distinct xs"
  shows "set (swap_remove i xs) = set xs - {xs ! i}" and "distinct (swap_remove i xs)"
proof -
  obtain ys l where xs: "xs = ys @ [l]" using assms by (cases xs rule: rev_cases) auto
  have "set (swap_remove i xs) = set xs - {xs ! i} \<and> distinct (swap_remove i xs)"
  proof (cases "i = length ys")
    case True
    then show ?thesis using assms xs by (auto simp: swap_remove_def)
  next
    case False
    then have i: "i < length ys" using assms xs by simp
    have eq: "swap_remove i xs = ys[i := l]"
      using i xs by (simp add: swap_remove_def list_update_append)
    have d: "distinct ys" "l \<notin> set ys" using assms xs by auto
    have s: "set (ys[i := l]) = insert l (set ys - {ys ! i})"
      using d(1) i by (rule set_update_distinct)
    have "ys ! i \<in> set ys" using i by simp
    then have "l \<noteq> ys ! i" using d(2) by auto
    with s eq i xs d show ?thesis
      by (auto simp: nth_append distinct_list_update)
  qed
  then show "set (swap_remove i xs) = set xs - {xs ! i}" and "distinct (swap_remove i xs)" by auto
qed

lemma length_swap_remove [simp]: "length (swap_remove i xs) = length xs - 1"
  by (simp add: swap_remove_def)

lemma sum_list_update:
  fixes f :: "'a \<Rightarrow> nat"
  shows "i < length xs \<Longrightarrow> sum_list (map f (xs[i := y])) + f (xs ! i) = sum_list (map f xs) + f y"
proof (induction xs arbitrary: i)
  case Nil
  then show ?case by simp
next
  case (Cons x xs)
  then show ?case by (cases i) auto
qed

lemma sum_list_ge_elem:
  fixes f :: "'a \<Rightarrow> nat"
  shows "x \<in> set xs \<Longrightarrow> f x \<le> sum_list (map f xs)"
  by (induction xs) auto

lemma distinct_card_le: "distinct xs \<Longrightarrow> (\<forall>x\<in>set xs. x < n) \<Longrightarrow> length xs \<le> n"
  using card_mono [of "{..<n}" "set xs"] by (auto simp: distinct_card)

text \<open>Two numbers written with one digit below the same base.\<close>

lemma radix_inj:
  fixes i i' s r r' :: nat
  assumes "i * s + r = i' * s + r'" and "r < s" and "r' < s"
  shows "i = i' \<and> r = r'"
proof -
  have "i = (i * s + r) div s" using assms(2) by simp
  also have "\<dots> = (i' * s + r') div s" using assms(1) by simp
  also have "\<dots> = i'" using assms(3) by simp
  finally show ?thesis using assms(1) by simp
qed

subsection \<open>Transition systems\<close>

inductive reachable :: "('s \<Rightarrow> bool) \<Rightarrow> ('s \<Rightarrow> 's \<Rightarrow> bool) \<Rightarrow> 's \<Rightarrow> bool" for init step where
  start: "init s \<Longrightarrow> reachable init step s"
| move: "reachable init step s \<Longrightarrow> step s t \<Longrightarrow> reachable init step t"

text \<open>The interface of a component whose every operation keeps an invariant, on success and on
  error, and moves forward along a preorder (a version, a generation, a counter).\<close>

locale invariant_system =
  fixes init :: "'s \<Rightarrow> bool" and step :: "'s \<Rightarrow> 's \<Rightarrow> bool"
    and inv :: "'s \<Rightarrow> bool" and le :: "'s \<Rightarrow> 's \<Rightarrow> bool"
  assumes init_inv: "init s \<Longrightarrow> inv s"
    and step_inv: "inv s \<Longrightarrow> step s t \<Longrightarrow> inv t"
    and step_le: "inv s \<Longrightarrow> step s t \<Longrightarrow> le s t"
    and le_refl: "le s s"
    and le_trans: "le s t \<Longrightarrow> le t u \<Longrightarrow> le s u"
begin

lemma reachable_inv: "reachable init step s \<Longrightarrow> inv s"
  by (induction rule: reachable.induct) (auto intro: init_inv step_inv)

lemma run_inv: "step\<^sup>*\<^sup>* s t \<Longrightarrow> inv s \<Longrightarrow> inv t \<and> le s t"
proof (induction rule: rtranclp_induct)
  case base
  then show ?case by (simp add: le_refl)
next
  case (step t u)
  then show ?case using step_inv step_le le_trans by blast
qed

lemma reachable_run: "reachable init step s \<Longrightarrow> step\<^sup>*\<^sup>* s t \<Longrightarrow> reachable init step t"
  by (erule rtranclp_induct) (auto intro: reachable.intros)

end

end
