(* ===== verification/Kv_Layout.thy ===== *)
theory Kv_Layout
  imports Riley_Prelude
begin

text \<open>
  The first part of \<open>paged_kv.rs\<close>: the identities (\<open>SequenceId\<close>, \<open>BlockId\<close>), the error
  type and the checked byte layout \<open>KvLayout\<close> of the K and V allocations
  \<open>[layer, physical_block, kv_head, token, head_dim]\<close>. The lemmas show that a layout that was
  accepted never overflows again: every in-range index has a byte offset, the addressed element
  lies inside the allocation, and two different indices never share a byte.
\<close>

abbreviation (input) KV_BLOCK_SIZE :: nat where "KV_BLOCK_SIZE \<equiv> 16"
abbreviation (input) SHARED_BLOCK_OWNER :: nat where "SHARED_BLOCK_OWNER \<equiv> 0"
abbreviation (input) BLOCK_TABLE_V1_VERSION :: nat where "BLOCK_TABLE_V1_VERSION \<equiv> 1"
abbreviation (input) OPTIONAL_BLOCK_METADATA_V1_VERSION :: nat where
  "OPTIONAL_BLOCK_METADATA_V1_VERSION \<equiv> 1"
abbreviation (input) BF16_BYTES :: nat where "BF16_BYTES \<equiv> 2"
abbreviation (input) EMPTY_PHYSICAL_BLOCK_ID :: nat where "EMPTY_PHYSICAL_BLOCK_ID \<equiv> u32_max"

record sequence_id =
  sid_pool_cookie :: u64
  sid_value :: u64

record block_id =
  bid_pool_cookie :: u64
  bid_physical_index :: u32
  bid_generation :: u64

datatype paged_kv_error =
    InvalidConfiguration string string
  | ArithmeticOverflow string
  | HostAllocation string usize
  | PoolCookieExhausted
  | SequenceIdExhausted
  | GenerationExhausted u32
  | ForeignPool u64 u64
  | OutOfBlocks usize usize
  | CapacityExceeded usize usize
  | LengthRegression usize usize
  | InvalidTruncateLength usize usize
  | ReservationInProgress
  | NoReservationInProgress
  | ReservationMismatch
  | ReservationNonceExhausted
  | Poisoned
  | CorruptSequenceState string
  | InvalidLogicalBlock usize usize
  | InvalidPhysicalBlock u32 usize
  | StaleBlock u32 u64 u64
  | DoubleFree u32 u64
  | WrongOwner u32 sequence_id "sequence_id option"
  | UnsupportedMetadataVersion u16
  | NotShared u32
  | SharedPrefixNotExtendable string

text \<open>\<open>blocks_for_length\<close>, at the bottom of the module, and the checked conversions.\<close>

definition blocks_for_length :: "usize \<Rightarrow> usize" where
  "blocks_for_length logical_length = div_ceil logical_length KV_BLOCK_SIZE"

definition checked_u64 :: "usize \<Rightarrow> string \<Rightarrow> paged_kv_error + u64" where
  "checked_u64 v field = ok_or (u64_try_from v) (ArithmeticOverflow field)"

record kv_layout =
  kl_layer_count :: usize
  kl_physical_block_count :: usize
  kl_key_value_head_count :: usize
  kl_head_dimension :: usize
  kl_head_stride_bytes :: u64
  kl_block_stride_bytes :: u64
  kl_layer_stride_bytes :: u64
  kl_bytes_per_kind :: u64
  kl_bytes_per_physical_block :: u64
  kl_total_bytes :: u64

definition kv_layout_checked :: "usize \<Rightarrow> usize \<Rightarrow> usize \<Rightarrow> usize \<Rightarrow> paged_kv_error + kv_layout" where
  "kv_layout_checked layer_count physical_block_count key_value_head_count head_dimension =
     bindE (forE [(''layer_count'', layer_count), (''physical_block_count'', physical_block_count),
                  (''key_value_head_count'', key_value_head_count),
                  (''head_dimension'', head_dimension)]
        (\<lambda>(field, v). failE (v = 0) (InvalidConfiguration field ''must be non-zero''))) (\<lambda>_.
     bindE (failE (u32_max < physical_block_count)
        (InvalidConfiguration ''physical_block_count'' ''must fit the U32 physical block table'')) (\<lambda>_.
     bindE (checked_u64 layer_count ''layer_count'') (\<lambda>layers.
     bindE (checked_u64 physical_block_count ''physical_block_count'') (\<lambda>blocks.
     bindE (checked_u64 key_value_head_count ''key_value_head_count'') (\<lambda>heads.
     bindE (checked_u64 head_dimension ''head_dimension'') (\<lambda>dimension.
     bindE (checked_u64 KV_BLOCK_SIZE ''block_size'') (\<lambda>block_size.
     bindE (ok_or (Option.bind (checked_mul block_size dimension) (\<lambda>elements.
              checked_mul elements BF16_BYTES))
        (ArithmeticOverflow ''head_stride_bytes'')) (\<lambda>head_stride_bytes.
     bindE (ok_or (checked_mul heads head_stride_bytes)
        (ArithmeticOverflow ''block_stride_bytes'')) (\<lambda>block_stride_bytes.
     bindE (ok_or (checked_mul blocks block_stride_bytes)
        (ArithmeticOverflow ''layer_stride_bytes'')) (\<lambda>layer_stride_bytes.
     bindE (ok_or (checked_mul layers layer_stride_bytes)
        (ArithmeticOverflow ''bytes_per_kind'')) (\<lambda>bytes_per_kind.
     bindE (ok_or (Option.bind (checked_mul layers block_stride_bytes) (\<lambda>bytes. checked_mul bytes 2))
        (ArithmeticOverflow ''bytes_per_physical_block'')) (\<lambda>bytes_per_physical_block.
     bindE (ok_or (checked_mul bytes_per_kind 2)
        (ArithmeticOverflow ''total_bytes'')) (\<lambda>total_bytes.
     Inr \<lparr>kl_layer_count = layer_count,
          kl_physical_block_count = physical_block_count,
          kl_key_value_head_count = key_value_head_count,
          kl_head_dimension = head_dimension,
          kl_head_stride_bytes = head_stride_bytes,
          kl_block_stride_bytes = block_stride_bytes,
          kl_layer_stride_bytes = layer_stride_bytes,
          kl_bytes_per_kind = bytes_per_kind,
          kl_bytes_per_physical_block = bytes_per_physical_block,
          kl_total_bytes = total_bytes\<rparr>)))))))))))))"

definition layer_byte_offset :: "kv_layout \<Rightarrow> usize \<Rightarrow> u64 option" where
  "layer_byte_offset l layer_index =
     (if layer_index \<ge> kl_layer_count l then None
      else Option.bind (u64_try_from layer_index) (\<lambda>layer.
             checked_mul layer (kl_layer_stride_bytes l)))"

definition element_byte_offset :: "kv_layout \<Rightarrow> usize \<Rightarrow> usize \<Rightarrow> usize \<Rightarrow> usize \<Rightarrow> u64 option" where
  "element_byte_offset l layer_index physical_block_index key_value_head_index token_in_block =
     (if layer_index \<ge> kl_layer_count l
       \<or> physical_block_index \<ge> kl_physical_block_count l
       \<or> key_value_head_index \<ge> kl_key_value_head_count l
       \<or> token_in_block \<ge> KV_BLOCK_SIZE then None
      else
        Option.bind (u64_try_from layer_index) (\<lambda>layer.
        Option.bind (u64_try_from physical_block_index) (\<lambda>block.
        Option.bind (u64_try_from key_value_head_index) (\<lambda>head.
        Option.bind (u64_try_from token_in_block) (\<lambda>token.
        Option.bind (Option.bind (u64_try_from (kl_head_dimension l)) (\<lambda>d.
          checked_mul d BF16_BYTES)) (\<lambda>token_stride.
        Option.bind (checked_mul layer (kl_layer_stride_bytes l)) (\<lambda>a.
        Option.bind (checked_mul block (kl_block_stride_bytes l)) (\<lambda>b.
        Option.bind (checked_add a b) (\<lambda>ab.
        Option.bind (checked_mul head (kl_head_stride_bytes l)) (\<lambda>c.
        Option.bind (checked_add ab c) (\<lambda>abc.
        Option.bind (checked_mul token token_stride) (\<lambda>d.
        checked_add abc d))))))))))))"

subsection \<open>What an accepted layout satisfies\<close>

text \<open>The invariant of a layout value; \<open>kv_layout_checked\<close> is the only constructor.\<close>

definition layout_wf :: "kv_layout \<Rightarrow> bool" where
  "layout_wf l \<longleftrightarrow>
     0 < kl_layer_count l \<and> 0 < kl_physical_block_count l \<and> kl_physical_block_count l \<le> u32_max \<and>
     0 < kl_key_value_head_count l \<and> 0 < kl_head_dimension l \<and>
     kl_head_stride_bytes l = KV_BLOCK_SIZE * (kl_head_dimension l * BF16_BYTES) \<and>
     kl_block_stride_bytes l = kl_key_value_head_count l * kl_head_stride_bytes l \<and>
     kl_layer_stride_bytes l = kl_physical_block_count l * kl_block_stride_bytes l \<and>
     kl_bytes_per_kind l = kl_layer_count l * kl_layer_stride_bytes l \<and>
     kl_bytes_per_physical_block l = kl_layer_count l * kl_block_stride_bytes l * 2 \<and>
     kl_total_bytes l = kl_bytes_per_kind l * 2 \<and> kl_total_bytes l \<le> u64_max"

lemma layout_checked_wf:
  "kv_layout_checked a b c d = Inr l \<Longrightarrow>
     layout_wf l \<and> kl_layer_count l = a \<and> kl_physical_block_count l = b \<and>
     kl_key_value_head_count l = c \<and> kl_head_dimension l = d"
  by (auto simp: kv_layout_checked_def layout_wf_def checked_u64_def bind_eq_Some_conv not_less)

text \<open>One mixed-radix digit: the offset inside a cell of a larger cell stays in it.\<close>

lemma radix_step:
  fixes i n s r :: nat
  assumes "i < n" and "r + w \<le> s"
  shows "i * s + r + w \<le> n * s"
proof -
  have "i * s + (r + w) \<le> i * s + s" using assms(2) by simp
  also have "\<dots> = Suc i * s" by simp
  also have "\<dots> \<le> n * s" using assms(1) by (intro mult_le_mono1) simp
  finally show ?thesis by simp
qed

text \<open>The offset as one sum of products, nested the way the strides are.\<close>

definition flat_offset :: "kv_layout \<Rightarrow> nat \<Rightarrow> nat \<Rightarrow> nat \<Rightarrow> nat \<Rightarrow> nat" where
  "flat_offset l i b h t =
     i * kl_layer_stride_bytes l + (b * kl_block_stride_bytes l +
       (h * kl_head_stride_bytes l + t * (kl_head_dimension l * BF16_BYTES)))"

lemma flat_offset_bound:
  assumes wf: "layout_wf l"
    and r: "i < kl_layer_count l" "b < kl_physical_block_count l" "h < kl_key_value_head_count l"
      "t < KV_BLOCK_SIZE"
  shows "flat_offset l i b h t + kl_head_dimension l * BF16_BYTES \<le> kl_bytes_per_kind l"
proof -
  let ?w = "kl_head_dimension l * BF16_BYTES"
  have "t * ?w + 0 + ?w \<le> KV_BLOCK_SIZE * ?w" using r(4) by (rule radix_step) simp
  then have "t * ?w + ?w \<le> kl_head_stride_bytes l" using wf by (simp add: layout_wf_def)
  from radix_step [OF r(3) this]
  have "(h * kl_head_stride_bytes l + t * ?w) + ?w \<le> kl_block_stride_bytes l"
    using wf by (simp add: layout_wf_def)
  from radix_step [OF r(2) this]
  have "(b * kl_block_stride_bytes l + (h * kl_head_stride_bytes l + t * ?w)) + ?w
      \<le> kl_layer_stride_bytes l"
    using wf by (simp add: layout_wf_def)
  from radix_step [OF r(1) this] show ?thesis
    using wf by (simp add: layout_wf_def flat_offset_def)
qed

lemma element_byte_offset_eq:
  assumes wf: "layout_wf l"
    and r: "i < kl_layer_count l" "b < kl_physical_block_count l" "h < kl_key_value_head_count l"
      "t < KV_BLOCK_SIZE"
  shows "element_byte_offset l i b h t = Some (flat_offset l i b h t)"
proof -
  have "kl_total_bytes l = kl_bytes_per_kind l * 2" "kl_total_bytes l \<le> u64_max"
    using wf unfolding layout_wf_def by blast+
  then have top: "kl_bytes_per_kind l \<le> u64_max" by simp
  have bound: "flat_offset l i b h t + kl_head_dimension l * BF16_BYTES \<le> u64_max"
    using flat_offset_bound [OF wf r] top by simp
  have pos: "0 < kl_head_stride_bytes l" "0 < kl_block_stride_bytes l" "0 < kl_layer_stride_bytes l"
    using wf by (auto simp: layout_wf_def)
  have "i \<le> i * kl_layer_stride_bytes l" "b \<le> b * kl_block_stride_bytes l"
    "h \<le> h * kl_head_stride_bytes l"
    using pos by auto
  then have le: "i \<le> u64_max" "b \<le> u64_max" "h \<le> u64_max" "t \<le> u64_max"
      "kl_head_dimension l \<le> u64_max"
    using bound r(4) unfolding flat_offset_def by linarith+
  show ?thesis
    using bound le r by (auto simp: element_byte_offset_def flat_offset_def bind_eq_Some_conv)
qed

text \<open>Every in-range index of an accepted layout has a byte offset (no checked operation of
  \<open>element_byte_offset\<close> overflows) and the addressed BF16 row lies inside the allocation.\<close>

theorem element_offset_in_bounds:
  assumes "kv_layout_checked layers blocks heads dim = Inr l"
    and "i < layers" "b < blocks" "h < heads" "t < KV_BLOCK_SIZE"
  shows "\<exists>off. element_byte_offset l i b h t = Some off \<and>
    off + dim * BF16_BYTES \<le> kl_bytes_per_kind l \<and> 2 * kl_bytes_per_kind l = kl_total_bytes l"
proof -
  from layout_checked_wf [OF assms(1)] have wf: "layout_wf l"
    and dims: "kl_layer_count l = layers" "kl_physical_block_count l = blocks"
      "kl_key_value_head_count l = heads" "kl_head_dimension l = dim" by auto
  have r: "i < kl_layer_count l" "b < kl_physical_block_count l" "h < kl_key_value_head_count l"
    using assms dims by auto
  have "kl_total_bytes l = kl_bytes_per_kind l * 2" using wf by (simp add: layout_wf_def)
  then show ?thesis
    using element_byte_offset_eq [OF wf r assms(5)] flat_offset_bound [OF wf r assms(5)] dims
    by auto
qed

theorem element_offset_in_bounds_witness:
  "\<exists>l. kv_layout_checked 2 4 3 64 = Inr l \<and>
     (\<exists>off. element_byte_offset l 1 3 2 15 = Some off \<and>
        off + 64 * BF16_BYTES \<le> kl_bytes_per_kind l \<and> 2 * kl_bytes_per_kind l = kl_total_bytes l)"
proof -
  obtain l where l: "kv_layout_checked 2 4 3 64 = Inr l"
    by (simp add: kv_layout_checked_def checked_u64_def u64_try_from_def checked_mul_def failE_def)
  then show ?thesis using element_offset_in_bounds [OF l, of 1 3 2 15] by auto
qed

text \<open>C26. two elements of an accepted layout overlap in no byte unless all four indices agree.\<close>

theorem element_offsets_disjoint:
  assumes "kv_layout_checked layers blocks heads dim = Inr l"
    and "element_byte_offset l i b h t = Some off" and "element_byte_offset l i' b' h' t' = Some off'"
    and "off \<le> x" "x < off + dim * BF16_BYTES" and "off' \<le> x" "x < off' + dim * BF16_BYTES"
  shows "(i, b, h, t) = (i', b', h', t')"
proof -
  from layout_checked_wf [OF assms(1)] have wf: "layout_wf l"
    and dim: "kl_head_dimension l = dim" by auto
  have in_range: "i < kl_layer_count l" "b < kl_physical_block_count l"
      "h < kl_key_value_head_count l" "t < KV_BLOCK_SIZE"
    if "element_byte_offset l i b h t = Some off" for i b h t off
    using that by (auto simp: element_byte_offset_def split: if_splits)
  note r = in_range [OF assms(2)] and r' = in_range [OF assms(3)]
  let ?w = "kl_head_dimension l * BF16_BYTES"
  let ?hs = "kl_head_stride_bytes l" and ?bs = "kl_block_stride_bytes l"
    and ?ls = "kl_layer_stride_bytes l"
  have hs: "?hs = KV_BLOCK_SIZE * ?w" using wf unfolding layout_wf_def by blast
  have head: "t * ?w + z < ?hs" if "t < KV_BLOCK_SIZE" "z < ?w" for t z
    using radix_step [OF that(1), of 0 ?w ?w] that(2) unfolding hs by linarith
  have blk: "h * ?hs + z < ?bs" if "h < kl_key_value_head_count l" "z < ?hs" for h z
    using radix_step [OF that(1), of 0 ?hs ?hs] that(2) wf by (simp add: layout_wf_def)
  have lay: "b * ?bs + z < ?ls" if "b < kl_physical_block_count l" "z < ?bs" for b z
    using radix_step [OF that(1), of 0 ?bs ?bs] that(2) wf by (simp add: layout_wf_def)
  have off: "off = flat_offset l i b h t" "off' = flat_offset l i' b' h' t'"
    using assms(2,3) element_byte_offset_eq [OF wf r] element_byte_offset_eq [OF wf r'] by auto
  define z z' where "z = x - off" and "z' = x - off'"
  have z: "z < ?w" "z' < ?w" using assms(4-7) dim by (auto simp: z_def z'_def)
  have "i * ?ls + (b * ?bs + (h * ?hs + (t * ?w + z)))
      = i' * ?ls + (b' * ?bs + (h' * ?hs + (t' * ?w + z')))"
    using assms(4,6) off by (simp add: z_def z'_def flat_offset_def)
  from radix_inj [OF this] have i: "i = i'"
    and e1: "b * ?bs + (h * ?hs + (t * ?w + z)) = b' * ?bs + (h' * ?hs + (t' * ?w + z'))"
    using lay [OF r(2) blk [OF r(3) head [OF r(4) z(1)]]]
      lay [OF r'(2) blk [OF r'(3) head [OF r'(4) z(2)]]] by auto
  from radix_inj [OF e1] have b: "b = b'" and e2: "h * ?hs + (t * ?w + z) = h' * ?hs + (t' * ?w + z')"
    using blk [OF r(3) head [OF r(4) z(1)]] blk [OF r'(3) head [OF r'(4) z(2)]] by auto
  from radix_inj [OF e2] have h: "h = h'" and e3: "t * ?w + z = t' * ?w + z'"
    using head [OF r(4) z(1)] head [OF r'(4) z(2)] by auto
  from radix_inj [OF e3] z have "t = t'" by auto
  with i b h show ?thesis by simp
qed

theorem element_offsets_disjoint_witness:
  "\<exists>l. kv_layout_checked 1 2 1 4 = Inr l \<and> element_byte_offset l 0 1 0 2 = Some 144 \<and>
     (0::nat, 1::nat, 0::nat, 2::nat) = (0, 1, 0, 2)"
proof -
  obtain l where l: "kv_layout_checked 1 2 1 4 = Inr l" and o: "element_byte_offset l 0 1 0 2 = Some 144"
    by (simp add: kv_layout_checked_def checked_u64_def u64_try_from_def checked_mul_def failE_def
        element_byte_offset_def checked_add_def)
  then show ?thesis
    using element_offsets_disjoint [OF l o o, of 145] by auto
qed

end
