(* ===== verification/Scheduler_Config.thy ===== *)
theory Scheduler_Config
  imports Kv_Layout
begin

text \<open>
  \<open>error.rs\<close> and \<open>config.rs\<close> of the scheduler crate: the identifiers the errors mention, the
  error type, the bounds of one scheduler and the optional prefill policies with their checks.
\<close>

datatype request_id = RequestId (request_value: u64)
datatype iteration_id = IterationId (iteration_value: u64)
datatype output_slot = OutputSlot (slot_value: u32)

text \<open>The derived order of the identifiers is that of the integer inside.\<close>

instantiation request_id :: linorder
begin

definition less_eq_request_id :: "request_id \<Rightarrow> request_id \<Rightarrow> bool" where
  "less_eq_request_id a b \<longleftrightarrow> request_value a \<le> request_value b"

definition less_request_id :: "request_id \<Rightarrow> request_id \<Rightarrow> bool" where
  "less_request_id a b \<longleftrightarrow> request_value a < request_value b"

instance
  by standard (auto simp: less_eq_request_id_def less_request_id_def request_id.expand)

end

instantiation output_slot :: linorder
begin

definition less_eq_output_slot :: "output_slot \<Rightarrow> output_slot \<Rightarrow> bool" where
  "less_eq_output_slot a b \<longleftrightarrow> slot_value a \<le> slot_value b"

definition less_output_slot :: "output_slot \<Rightarrow> output_slot \<Rightarrow> bool" where
  "less_output_slot a b \<longleftrightarrow> slot_value a < slot_value b"

instance
  by standard (auto simp: less_eq_output_slot_def less_output_slot_def output_slot.expand)

end

definition request_id_new :: "u64 \<Rightarrow> request_id option" where
  "request_id_new v = (if v = 0 then None else Some (RequestId v))"

definition iteration_id_new :: "u64 \<Rightarrow> iteration_id option" where
  "iteration_id_new v = (if v = 0 then None else Some (IterationId v))"

text \<open>The first three constructors share their names with errors of the pool.\<close>

datatype scheduler_error =
    InvalidConfiguration string string
  | ArithmeticOverflow string
  | HostAllocation string usize
  | PendingCompletions usize
  | CompletionBacklogCapacity usize usize usize
  | SchedulerClosed
  | CloseDispositionRequired iteration_id
  | IdentifierExhausted string
  | ClockRegression u64 u64
  | WaitingQueueFull usize
  | WaitingTokenLimit usize usize
  | SequenceTokenLimit usize usize
  | ActiveSequenceLimit usize
  | KvCapacityExceeded usize usize
  | AdmissionTimedOut request_id u64
  | UnknownRequest request_id
  | InvalidStateTransition request_id string string
  | IterationInFlight iteration_id
  | NoIterationInFlight
  | UnexpectedIteration iteration_id iteration_id
  | UnsupportedSchemaVersion string u16 u16
  | InvalidPlan string string
  | InvalidIterationResult string string
  | InvalidMetricSample string string
  | MetricOverflow string
  | PagedKv paged_kv_error

type_synonym 'a scheduler_result = "scheduler_error + 'a"

subsection \<open>Configuration\<close>

datatype overload_policy = RejectImmediately | Wait

record prefill_burst_policy =
  pb_steady_budget :: usize
  pb_max_decode_rows :: usize
  pb_min_prompt_tokens :: usize

record prefill_coalescing_policy =
  pc_min_tokens :: usize
  pc_max_wait_ns :: u64
  pc_min_decode_rows :: usize

record prefill_plateau_policy =
  pp_boundaries :: "usize list"
  pp_max_deferred_tokens :: usize
  pp_min_decode_rows :: usize

record scheduler_config =
  max_waiting_requests :: usize
  max_waiting_prompt_tokens :: usize
  max_active_sequences :: usize
  max_sequence_tokens :: usize
  iteration_token_budget :: usize
  max_prefill_chunk_tokens :: usize
  aging_threshold_ns :: u64
  config_overload_policy :: overload_policy
  admission_timeout_ns :: "u64 option"
  max_promised_kv_blocks :: usize
  metrics_window_samples :: usize

definition validate_nonzero :: "string \<Rightarrow> usize \<Rightarrow> unit scheduler_result" where
  "validate_nonzero field v = failE (v = 0) (InvalidConfiguration field ''must be greater than zero'')"

definition burst_validate :: "prefill_burst_policy \<Rightarrow> usize \<Rightarrow> prefill_burst_policy scheduler_result" where
  "burst_validate s budget =
     bindE (validate_nonzero ''prefill_burst.steady_budget'' (pb_steady_budget s)) (\<lambda>_.
     bindE (failE (budget \<le> pb_steady_budget s)
       (InvalidConfiguration ''prefill_burst.steady_budget'' ''must be below the iteration token budget'')) (\<lambda>_.
     Inr s))"

definition coalescing_validate :: "prefill_coalescing_policy \<Rightarrow> prefill_coalescing_policy scheduler_result" where
  "coalescing_validate s =
     bindE (validate_nonzero ''prefill_coalescing.min_tokens'' (pc_min_tokens s)) (\<lambda>_.
     bindE (validate_nonzero ''prefill_coalescing.min_decode_rows'' (pc_min_decode_rows s)) (\<lambda>_.
     bindE (failE (pc_max_wait_ns s = 0)
       (InvalidConfiguration ''prefill_coalescing.max_wait_ns'' ''must be positive'')) (\<lambda>_.
     Inr s)))"

text \<open>\<open>windows(2)\<close> of the boundary list.\<close>

definition unordered_pair :: "nat list \<Rightarrow> bool" where
  "unordered_pair xs \<longleftrightarrow> list_ex (\<lambda>(a, b). b \<le> a) (zip xs (tl xs))"

definition plateau_validate :: "prefill_plateau_policy \<Rightarrow> usize \<Rightarrow> prefill_plateau_policy scheduler_result" where
  "plateau_validate s budget =
     bindE (failE (pp_boundaries s = [])
       (InvalidConfiguration ''prefill_plateau.boundaries'' ''must name at least one boundary'')) (\<lambda>_.
     bindE (failE (hd (pp_boundaries s) = 0 \<or> unordered_pair (pp_boundaries s))
       (InvalidConfiguration ''prefill_plateau.boundaries'' ''must be non-zero and strictly ascending'')) (\<lambda>_.
     bindE (failE (pp_boundaries s \<noteq> [] \<and> budget \<le> last (pp_boundaries s))
       (InvalidConfiguration ''prefill_plateau.boundaries'' ''must stay below iteration_token_budget'')) (\<lambda>_.
     bindE (validate_nonzero ''prefill_plateau.max_deferred_tokens'' (pp_max_deferred_tokens s)) (\<lambda>_.
     Inr s))))"

definition config_validate :: "scheduler_config \<Rightarrow> scheduler_config scheduler_result" where
  "config_validate s =
     bindE (validate_nonzero ''max_waiting_requests'' (max_waiting_requests s)) (\<lambda>_.
     bindE (validate_nonzero ''max_waiting_prompt_tokens'' (max_waiting_prompt_tokens s)) (\<lambda>_.
     bindE (validate_nonzero ''max_active_sequences'' (max_active_sequences s)) (\<lambda>_.
     bindE (validate_nonzero ''max_sequence_tokens'' (max_sequence_tokens s)) (\<lambda>_.
     bindE (failE (u32_max < max_sequence_tokens s)
       (InvalidConfiguration ''max_sequence_tokens'' ''must fit the paged-KV V1 u32 logical length'')) (\<lambda>_.
     bindE (validate_nonzero ''iteration_token_budget'' (iteration_token_budget s)) (\<lambda>_.
     bindE (validate_nonzero ''max_prefill_chunk_tokens'' (max_prefill_chunk_tokens s)) (\<lambda>_.
     bindE (validate_nonzero ''max_promised_kv_blocks'' (max_promised_kv_blocks s)) (\<lambda>_.
     bindE (validate_nonzero ''metrics_window_samples'' (metrics_window_samples s)) (\<lambda>_.
     bindE (failE (aging_threshold_ns s = 0)
       (InvalidConfiguration ''aging_threshold_ns'' ''must be greater than zero'')) (\<lambda>_.
     bindE (failE (iteration_token_budget s < max_prefill_chunk_tokens s)
       (InvalidConfiguration ''max_prefill_chunk_tokens'' ''must not exceed iteration_token_budget'')) (\<lambda>_.
     bindE (failE (max_sequence_tokens s < max_prefill_chunk_tokens s)
       (InvalidConfiguration ''max_prefill_chunk_tokens'' ''must not exceed max_sequence_tokens'')) (\<lambda>_.
     bindE (case (config_overload_policy s, admission_timeout_ns s) of
         (RejectImmediately, Some _) \<Rightarrow> Inl (InvalidConfiguration ''admission_timeout_ns''
           ''must be absent when overload_policy rejects immediately'')
       | (Wait, Some t) \<Rightarrow> failE (t = 0) (InvalidConfiguration ''admission_timeout_ns''
           ''must be greater than zero when present'')
       | (RejectImmediately, None) \<Rightarrow> Inr ()
       | (Wait, None) \<Rightarrow> Inr ()) (\<lambda>_.
     Inr s)))))))))))))"

definition config_default :: scheduler_config where
  "config_default = \<lparr>max_waiting_requests = 1024, max_waiting_prompt_tokens = 1048576,
     max_active_sequences = 128, max_sequence_tokens = 32768, iteration_token_budget = 2048,
     max_prefill_chunk_tokens = 512, aging_threshold_ns = 100000000, config_overload_policy = Wait,
     admission_timeout_ns = Some 30000000000, max_promised_kv_blocks = 262144,
     metrics_window_samples = 1024\<rparr>"

text \<open>What an accepted configuration promises.\<close>

definition config_ok :: "scheduler_config \<Rightarrow> bool" where
  "config_ok s \<longleftrightarrow>
     0 < max_waiting_requests s \<and> 0 < max_waiting_prompt_tokens s \<and> 0 < max_active_sequences s \<and>
     0 < max_sequence_tokens s \<and> max_sequence_tokens s \<le> u32_max \<and>
     0 < max_prefill_chunk_tokens s \<and> max_prefill_chunk_tokens s \<le> iteration_token_budget s \<and>
     max_prefill_chunk_tokens s \<le> max_sequence_tokens s \<and> 0 < max_promised_kv_blocks s \<and>
     0 < metrics_window_samples s \<and> 0 < aging_threshold_ns s \<and>
     (admission_timeout_ns s = None \<or> config_overload_policy s = Wait \<and> admission_timeout_ns s \<noteq> Some 0)"

lemma config_validate_Inr: "config_validate s = Inr t \<longleftrightarrow> t = s \<and> config_ok s"
proof -
  have policy: "(case (p, t) of (RejectImmediately, Some _) \<Rightarrow> Inl e1 | (Wait, Some t) \<Rightarrow> failE (t = 0) e2
      | (RejectImmediately, None) \<Rightarrow> Inr () | (Wait, None) \<Rightarrow> Inr ()) = Inr u
    \<longleftrightarrow> t = None \<or> p = Wait \<and> t \<noteq> Some 0" for p and t :: "nat option" and e1 e2 :: scheduler_error and u
    by (cases p; cases t) auto
  show ?thesis
    unfolding config_validate_def validate_nonzero_def bindE_eq_Inr policy failE_eq
    by (auto simp: config_ok_def)
qed

text \<open>\<open>SchedulerConfig::validate\<close> accepts exactly the configurations with the documented bounds
  and returns them unchanged, and the default configuration is one of them.\<close>

theorem config_validate_exact:
  "(config_validate s = Inr t \<longleftrightarrow> t = s \<and> config_ok s) \<and>
   config_validate config_default = Inr config_default"
  unfolding config_validate_Inr by (simp add: config_ok_def config_default_def)

lemma strictly_ascending:
  "\<not> unordered_pair xs \<longleftrightarrow> sorted_wrt (<) xs"
proof (induction xs)
  case Nil
  then show ?case by (simp add: unordered_pair_def)
next
  case (Cons x xs)
  show ?case
  proof (cases xs)
    case Nil
    then show ?thesis by (simp add: unordered_pair_def)
  next
    case (Cons y ys)
    then have "\<not> unordered_pair (x # xs) \<longleftrightarrow> x < y \<and> \<not> unordered_pair xs"
      by (simp add: unordered_pair_def not_le)
    then show ?thesis using Cons Cons.IH by (auto intro: less_trans)
  qed
qed

lemma ascending_ends:
  "xs \<noteq> [] \<Longrightarrow> sorted_wrt (<) xs \<Longrightarrow> (\<forall>b\<in>set xs. 0 < b \<and> b < budget) \<longleftrightarrow> hd xs \<noteq> 0 \<and> last xs < (budget::nat)"
proof -
  assume that: "xs \<noteq> []" "sorted_wrt (<) xs"
  then have "\<forall>b\<in>set xs. hd xs \<le> b \<and> b \<le> last xs"
    by (induction xs) (use last_in_set less_imp_le in \<open>fastforce split: if_splits\<close>)+
  moreover have "hd xs \<in> set xs" "last xs \<in> set xs" using that by simp_all
  ultimately show ?thesis by fastforce
qed

text \<open>A plateau policy is accepted exactly when its boundaries are a non-empty strictly
  ascending list of positive token counts below the iteration budget and it may put off at least
  one token.\<close>

theorem plateau_validate_exact:
  "plateau_validate s budget = Inr t \<longleftrightarrow> t = s \<and> pp_boundaries s \<noteq> [] \<and>
     sorted_wrt (<) (pp_boundaries s) \<and> (\<forall>b\<in>set (pp_boundaries s). 0 < b \<and> b < budget) \<and>
     0 < pp_max_deferred_tokens s"
  unfolding plateau_validate_def validate_nonzero_def bindE_eq_Inr failE_eq
  using ascending_ends [of "pp_boundaries s" budget]
  by (cases "pp_boundaries s \<noteq> [] \<and> sorted_wrt (<) (pp_boundaries s)") (auto simp: strictly_ascending)

theorem plateau_validate_exact_witness:
  "plateau_validate \<lparr>pp_boundaries = [64, 128], pp_max_deferred_tokens = 8, pp_min_decode_rows = 1\<rparr> 512 =
     Inr \<lparr>pp_boundaries = [64, 128], pp_max_deferred_tokens = 8, pp_min_decode_rows = 1\<rparr>"
  unfolding plateau_validate_exact by simp

end
