(* ===== verification/Kv_Pool.thy ===== *)
theory Kv_Pool
  imports Kv_Layout
begin

text \<open>
  \<open>KvBlockPool\<close> of \<open>paged_kv.rs\<close>: a fixed array of physical blocks, each with a generation, an
  owner, a holder count for shared blocks and an optional sidecar, and a LIFO free list. The
  invariant \<open>pool_inv\<close> relates the free list, the owners and the counters; every operation of the
  pool keeps it, on success and on error, and none of its counters under- or overflows.
\<close>

subsection \<open>State\<close>

record opaque_device_view =
  odv_address :: u64
  odv_byte_len :: u64

record optional_block_metadata =
  obm_version :: u16
  obm_kind :: u16
  obm_device_view :: opaque_device_view

record block_slot =
  bs_generation :: u64
  bs_owner :: "sequence_id option"
  bs_shared_references :: u32
  bs_sidecar :: "optional_block_metadata option"

record kv_block_pool_stats =
  ps_physical_block_count :: usize
  ps_allocated_block_count :: usize
  ps_free_block_count :: usize
  ps_high_water_mark :: usize
  ps_usable_kv_bytes :: u64
  ps_host_pool_metadata_bytes :: u64
  ps_sidecar_count :: usize
  ps_sidecar_device_bytes :: u64
  ps_lifetime_allocation_count :: u64
  ps_total_allocation_latency_ns :: u64
  ps_maximum_allocation_latency_ns :: u64

text \<open>The free list is the Rust vector: its last element is popped first.\<close>

record kv_block_pool =
  kp_cookie :: u64
  kp_layout :: kv_layout
  kp_slots :: "block_slot list"
  kp_free_list :: "u32 list"
  kp_allocated_block_count :: usize
  kp_high_water_mark :: usize
  kp_next_sequence_id :: u64
  kp_sidecar_count :: usize
  kp_sidecar_device_bytes :: u64
  kp_lifetime_allocation_count :: u64
  kp_total_allocation_latency_ns :: u64
  kp_maximum_allocation_latency_ns :: u64

record sequence_reclaim_token =
  srt_owner :: sequence_id
  srt_block_ids :: "block_id option list"
  srt_shared_block_count :: usize

type_synonym 'a pool_cmd = "(kv_block_pool, paged_kv_error, 'a) cmd"

abbreviation (input) shared_owner :: "u64 \<Rightarrow> sequence_id" where
  "shared_owner cookie \<equiv> \<lparr>sid_pool_cookie = cookie, sid_value = SHARED_BLOCK_OWNER\<rparr>"

subsection \<open>Operations\<close>

text \<open>The process-wide cookie counter is the state of this operation.\<close>

definition next_pool_cookie :: "(u64, paged_kv_error, u64) cmd" where
  "next_pool_cookie = withM (\<lambda>current.
     case checked_add current 1 of
       None \<Rightarrow> throwM PoolCookieExhausted
     | Some next \<Rightarrow> bindM (modM (\<lambda>_. next)) (\<lambda>_. ret current))"

definition kv_block_pool_new :: "host_env \<Rightarrow> kv_layout \<Rightarrow> (u64, paged_kv_error, kv_block_pool) cmd" where
  "kv_block_pool_new env layout =
     bindM next_pool_cookie (\<lambda>cookie.
     let block_count = kl_physical_block_count layout in
     bindM (failIf (\<not> he_alloc env ''pool_slots'' block_count)
       (HostAllocation ''pool_slots'' block_count)) (\<lambda>_.
     bindM (failIf (\<not> he_alloc env ''free_list'' block_count)
       (HostAllocation ''free_list'' block_count)) (\<lambda>_.
     bindM (tryM (forE (rev [0..<block_count]) (\<lambda>index. failE (u32_max < index)
       (InvalidConfiguration ''physical_block_count'' ''must fit the U32 physical block table'')))) (\<lambda>_.
     ret \<lparr>kp_cookie = cookie, kp_layout = layout,
          kp_slots = replicate block_count
            \<lparr>bs_generation = 0, bs_owner = None, bs_shared_references = 0, bs_sidecar = None\<rparr>,
          kp_free_list = rev [0..<block_count],
          kp_allocated_block_count = 0, kp_high_water_mark = 0, kp_next_sequence_id = 1,
          kp_sidecar_count = 0, kp_sidecar_device_bytes = 0, kp_lifetime_allocation_count = 0,
          kp_total_allocation_latency_ns = 0, kp_maximum_allocation_latency_ns = 0\<rparr>))))"

definition pool_stats :: "host_env \<Rightarrow> kv_block_pool \<Rightarrow> kv_block_pool_stats" where
  "pool_stats env p =
     \<lparr>ps_physical_block_count = length (kp_slots p),
      ps_allocated_block_count = kp_allocated_block_count p,
      ps_free_block_count = length (kp_free_list p),
      ps_high_water_mark = kp_high_water_mark p,
      ps_usable_kv_bytes = kl_total_bytes (kp_layout p),
      ps_host_pool_metadata_bytes =
        (case Option.bind (checked_add (he_block_slot_bytes env) 4) (\<lambda>bytes.
                checked_mul bytes (length (kp_slots p))) of
           None \<Rightarrow> u64_max | Some bytes \<Rightarrow> bytes),
      ps_sidecar_count = kp_sidecar_count p,
      ps_sidecar_device_bytes = kp_sidecar_device_bytes p,
      ps_lifetime_allocation_count = kp_lifetime_allocation_count p,
      ps_total_allocation_latency_ns = kp_total_allocation_latency_ns p,
      ps_maximum_allocation_latency_ns = kp_maximum_allocation_latency_ns p\<rparr>"

definition validate_block_index :: "kv_block_pool \<Rightarrow> block_id \<Rightarrow> paged_kv_error + unit" where
  "validate_block_index p block =
     (if bid_pool_cookie block \<noteq> kp_cookie p
      then Inl (ForeignPool (kp_cookie p) (bid_pool_cookie block))
      else if length (kp_slots p) \<le> bid_physical_index block
      then Inl (InvalidPhysicalBlock (bid_physical_index block) (length (kp_slots p)))
      else Inr ())"

definition validate_block :: "kv_block_pool \<Rightarrow> block_id \<Rightarrow> sequence_id \<Rightarrow> paged_kv_error + unit" where
  "validate_block p block owner =
     bindE (validate_block_index p block) (\<lambda>_.
     bindE (failE (sid_pool_cookie owner \<noteq> kp_cookie p)
       (ForeignPool (kp_cookie p) (sid_pool_cookie owner))) (\<lambda>_.
     let slot = kp_slots p ! bid_physical_index block in
     bindE (failE (bs_generation slot \<noteq> bid_generation block)
       (StaleBlock (bid_physical_index block) (bid_generation block) (bs_generation slot))) (\<lambda>_.
     case bs_owner slot of
       None \<Rightarrow> Inl (DoubleFree (bid_physical_index block) (bid_generation block))
     | Some actual \<Rightarrow>
         if actual \<noteq> owner then Inl (WrongOwner (bid_physical_index block) owner (Some actual))
         else Inr ())))"

definition shared_references :: "kv_block_pool \<Rightarrow> block_id \<Rightarrow> paged_kv_error + u32" where
  "shared_references p block =
     bindE (validate_block_index p block) (\<lambda>_.
     let slot = kp_slots p ! bid_physical_index block in
     bindE (failE (bs_generation slot \<noteq> bid_generation block)
       (StaleBlock (bid_physical_index block) (bid_generation block) (bs_generation slot))) (\<lambda>_.
     bindE (failE (bs_owner slot = None)
       (DoubleFree (bid_physical_index block) (bid_generation block))) (\<lambda>_.
     bindE (failE (bs_shared_references slot = 0) (NotShared (bid_physical_index block))) (\<lambda>_.
     Inr (bs_shared_references slot)))))"

text \<open>Dropping the sidecar of a slot, shared by \<open>release_slot\<close> and \<open>clear_sidecar\<close>.\<close>

definition take_sidecar :: "nat \<Rightarrow> kv_block_pool \<Rightarrow> kv_block_pool" where
  "take_sidecar index p =
     (case bs_sidecar (kp_slots p ! index) of
        None \<Rightarrow> p
      | Some sidecar \<Rightarrow>
          p\<lparr>kp_slots := (kp_slots p)[index := (kp_slots p ! index)\<lparr>bs_sidecar := None\<rparr>],
            kp_sidecar_count := wrapping_sub (kp_sidecar_count p) 1,
            kp_sidecar_device_bytes :=
              wrapping_sub (kp_sidecar_device_bytes p) (odv_byte_len (obm_device_view sidecar))\<rparr>)"

definition release_slot :: "nat \<Rightarrow> kv_block_pool \<Rightarrow> kv_block_pool" where
  "release_slot index p =
     (let p = take_sidecar index p in
      p\<lparr>kp_slots := (kp_slots p)[index := (kp_slots p ! index)\<lparr>bs_owner := None\<rparr>],
        kp_allocated_block_count := wrapping_sub (kp_allocated_block_count p) 1,
        kp_free_list := kp_free_list p @ [index]\<rparr>)"

definition release_block :: "block_id \<Rightarrow> sequence_id \<Rightarrow> unit pool_cmd" where
  "release_block block owner = withM (\<lambda>p.
     bindM (tryM (validate_block p block owner)) (\<lambda>_.
     modM (release_slot (bid_physical_index block))))"

definition release_shared_block :: "block_id \<Rightarrow> unit pool_cmd" where
  "release_shared_block block = withM (\<lambda>p.
     bindM (tryM (shared_references p block)) (\<lambda>references.
     let index = bid_physical_index block in
     bindM (modM (\<lambda>p. p\<lparr>kp_slots := (kp_slots p)[index :=
       (kp_slots p ! index)\<lparr>bs_shared_references := references - 1\<rparr>]\<rparr>)) (\<lambda>_.
     if references = 1 then modM (release_slot index) else ret ())))"

definition allocate_block_inner :: "sequence_id \<Rightarrow> block_id pool_cmd" where
  "allocate_block_inner owner = withM (\<lambda>p.
     if kp_free_list p = [] then throwM (OutOfBlocks 1 0)
     else
       let physical_index = last (kp_free_list p);
           slot = kp_slots p ! physical_index
       in bindM (modM (\<lambda>p. p\<lparr>kp_free_list := butlast (kp_free_list p)\<rparr>)) (\<lambda>_.
          case checked_add (bs_generation slot) 1 of
            None \<Rightarrow>
              bindM (modM (\<lambda>p. p\<lparr>kp_free_list := kp_free_list p @ [physical_index]\<rparr>)) (\<lambda>_.
              throwM (GenerationExhausted physical_index))
          | Some generation \<Rightarrow>
              bindM (modM (\<lambda>p. p\<lparr>kp_slots := (kp_slots p)[physical_index :=
                slot\<lparr>bs_generation := generation, bs_owner := Some owner\<rparr>]\<rparr>)) (\<lambda>_.
              bindM (modM (\<lambda>p. p\<lparr>kp_allocated_block_count :=
                wrapping_add (kp_allocated_block_count p) 1\<rparr>)) (\<lambda>_.
              bindM (modM (\<lambda>p. p\<lparr>kp_high_water_mark :=
                max (kp_high_water_mark p) (kp_allocated_block_count p)\<rparr>)) (\<lambda>_.
              ret \<lparr>bid_pool_cookie = kp_cookie p, bid_physical_index = physical_index,
                   bid_generation = generation\<rparr>)))))"

definition allocate_block :: "host_env \<Rightarrow> sequence_id \<Rightarrow> block_id pool_cmd" where
  "allocate_block env owner =
     bindM (allocate_block_inner owner) (\<lambda>block.
     bindM (modM (\<lambda>p.
       let elapsed = min (he_alloc_elapsed_ns env (kp_lifetime_allocation_count p)) u64_max in
       p\<lparr>kp_lifetime_allocation_count := saturating_add (kp_lifetime_allocation_count p) 1,
         kp_total_allocation_latency_ns := saturating_add (kp_total_allocation_latency_ns p) elapsed,
         kp_maximum_allocation_latency_ns := max (kp_maximum_allocation_latency_ns p) elapsed\<rparr>)) (\<lambda>_.
     ret block))"

definition pool_attach_sidecar ::
  "block_id \<Rightarrow> sequence_id \<Rightarrow> optional_block_metadata \<Rightarrow> unit pool_cmd" where
  "pool_attach_sidecar block owner metadata = withM (\<lambda>p.
     bindM (tryM (validate_block p block owner)) (\<lambda>_.
     bindM (failIf (obm_version metadata \<noteq> OPTIONAL_BLOCK_METADATA_V1_VERSION)
       (UnsupportedMetadataVersion (obm_version metadata))) (\<lambda>_.
     let index = bid_physical_index block;
         slot = kp_slots p ! index;
         prior_bytes = (case bs_sidecar slot of None \<Rightarrow> 0
                        | Some sidecar \<Rightarrow> odv_byte_len (obm_device_view sidecar));
         base = kp_sidecar_device_bytes p - prior_bytes
     in bindM (tryM (ok_or (checked_add base (odv_byte_len (obm_device_view metadata)))
          (ArithmeticOverflow ''sidecar_device_bytes''))) (\<lambda>updated.
        modM (\<lambda>p. p\<lparr>
          kp_sidecar_count := (if bs_sidecar slot = None then wrapping_add (kp_sidecar_count p) 1
                               else kp_sidecar_count p),
          kp_slots := (kp_slots p)[index := slot\<lparr>bs_sidecar := Some metadata\<rparr>],
          kp_sidecar_device_bytes := updated\<rparr>)))))"

definition pool_sidecar ::
  "kv_block_pool \<Rightarrow> block_id \<Rightarrow> sequence_id \<Rightarrow> paged_kv_error + (block_id \<times> optional_block_metadata) option" where
  "pool_sidecar p block owner =
     bindE (validate_block p block owner) (\<lambda>_.
     Inr (map_option (\<lambda>metadata. (block, metadata))
       (bs_sidecar (kp_slots p ! bid_physical_index block))))"

definition clear_sidecar :: "block_id \<Rightarrow> sequence_id \<Rightarrow> unit pool_cmd" where
  "clear_sidecar block owner = withM (\<lambda>p.
     bindM (tryM (validate_block p block owner)) (\<lambda>_.
     modM (take_sidecar (bid_physical_index block))))"

text \<open>
  \<open>reclaim_sequence\<close> first checks every shared hold of the orphan, then frees the slots the orphan
  owns from the highest index down, then drops its shared holds.
\<close>

fun reclaim_scan :: "sequence_id \<Rightarrow> nat list \<Rightarrow> usize \<Rightarrow> usize pool_cmd" where
  "reclaim_scan owner [] released = ret released"
| "reclaim_scan owner (index # rest) released = withM (\<lambda>p.
     if bs_owner (kp_slots p ! index) = Some owner
     then bindM (modM (release_slot index)) (\<lambda>_. reclaim_scan owner rest (released + 1))
     else reclaim_scan owner rest released)"

definition reclaim_sequence :: "sequence_reclaim_token \<Rightarrow> usize pool_cmd" where
  "reclaim_sequence token = withM (\<lambda>p.
     let owner = srt_owner token;
         shared = List.map_filter id (take (srt_shared_block_count token) (srt_block_ids token))
     in bindM (failIf (sid_pool_cookie owner \<noteq> kp_cookie p)
          (ForeignPool (kp_cookie p) (sid_pool_cookie owner))) (\<lambda>_.
        bindM (tryM (forE shared (\<lambda>block. bindE (shared_references p block) (\<lambda>_. Inr ())))) (\<lambda>_.
        bindM (reclaim_scan owner (rev [0..<length (kp_slots p)]) 0) (\<lambda>released.
        bindM (forM shared release_shared_block) (\<lambda>_. ret released)))))"

subsection \<open>The pool invariant\<close>

definition sidecar_bytes :: "block_slot \<Rightarrow> nat" where
  "sidecar_bytes s = (case bs_sidecar s of None \<Rightarrow> 0 | Some m \<Rightarrow> odv_byte_len (obm_device_view m))"

definition sidecar_one :: "block_slot \<Rightarrow> nat" where
  "sidecar_one s = (if bs_sidecar s = None then 0 else 1)"

text \<open>A free slot holds nothing. An owned slot names its owner; the reserved owner 0 marks the
  shared slots, which are exactly those with a positive holder count, and carries no sidecar.\<close>

definition slot_ok :: "u64 \<Rightarrow> u64 \<Rightarrow> block_slot \<Rightarrow> bool" where
  "slot_ok cookie next s \<longleftrightarrow>
     bs_generation s \<le> u64_max \<and> bs_shared_references s \<le> u32_max \<and>
     (case bs_owner s of
        None \<Rightarrow> bs_shared_references s = 0 \<and> bs_sidecar s = None
      | Some owner \<Rightarrow> sid_pool_cookie owner = cookie \<and> sid_value owner < next \<and>
          (sid_value owner = SHARED_BLOCK_OWNER \<longleftrightarrow> 0 < bs_shared_references s) \<and>
          (sid_value owner = SHARED_BLOCK_OWNER \<longrightarrow> bs_sidecar s = None))"

definition pool_inv :: "kv_block_pool \<Rightarrow> bool" where
  "pool_inv p \<longleftrightarrow>
     length (kp_slots p) = kl_physical_block_count (kp_layout p) \<and>
     length (kp_slots p) \<le> u32_max \<and> 1 \<le> kp_next_sequence_id p \<and>
     distinct (kp_free_list p) \<and>
     (\<forall>i. i \<in> set (kp_free_list p) \<longleftrightarrow> i < length (kp_slots p) \<and> bs_owner (kp_slots p ! i) = None) \<and>
     kp_allocated_block_count p + length (kp_free_list p) = length (kp_slots p) \<and>
     kp_allocated_block_count p \<le> kp_high_water_mark p \<and>
     kp_high_water_mark p \<le> length (kp_slots p) \<and>
     (\<forall>s\<in>set (kp_slots p). slot_ok (kp_cookie p) (kp_next_sequence_id p) s) \<and>
     kp_sidecar_count p = sum_list (map sidecar_one (kp_slots p)) \<and>
     kp_sidecar_device_bytes p = sum_list (map sidecar_bytes (kp_slots p)) \<and>
     kp_sidecar_device_bytes p \<le> u64_max"

text \<open>What no operation on blocks changes.\<close>

definition pool_same :: "kv_block_pool \<Rightarrow> kv_block_pool \<Rightarrow> bool" where
  "pool_same p p' \<longleftrightarrow>
     kp_cookie p' = kp_cookie p \<and> kp_layout p' = kp_layout p \<and>
     kp_next_sequence_id p' = kp_next_sequence_id p \<and> length (kp_slots p') = length (kp_slots p)"

lemma pool_same_refl [simp]: "pool_same p p"
  by (simp add: pool_same_def)

lemma pool_same_trans: "pool_same p q \<Longrightarrow> pool_same q r \<Longrightarrow> pool_same p r"
  by (simp add: pool_same_def)

definition freed :: "block_slot \<Rightarrow> block_slot" where
  "freed s = s\<lparr>bs_owner := None, bs_shared_references := 0, bs_sidecar := None\<rparr>"

lemma pool_inv_slot: "pool_inv p \<Longrightarrow> i < length (kp_slots p) \<Longrightarrow>
    slot_ok (kp_cookie p) (kp_next_sequence_id p) (kp_slots p ! i)"
  by (simp add: pool_inv_def)

text \<open>The generic step: a slot is replaced by one that is in use before and after, and the sidecar
  counters follow it.\<close>

lemma pool_inv_update_slot:
  assumes inv: "pool_inv p" and i: "i < length (kp_slots p)"
    and own: "bs_owner (kp_slots p ! i) \<noteq> None" "bs_owner s \<noteq> None"
    and ok: "slot_ok (kp_cookie p) (kp_next_sequence_id p) s"
    and p': "p' = p\<lparr>kp_slots := (kp_slots p)[i := s], kp_sidecar_count := c, kp_sidecar_device_bytes := b\<rparr>"
    and c: "c + sidecar_one (kp_slots p ! i) = kp_sidecar_count p + sidecar_one s"
    and b: "b + sidecar_bytes (kp_slots p ! i) = kp_sidecar_device_bytes p + sidecar_bytes s"
    and top: "b \<le> u64_max"
  shows "pool_inv p'"
proof -
  have free: "j \<in> set (kp_free_list p) \<longleftrightarrow> j < length (kp_slots p) \<and> bs_owner ((kp_slots p)[i := s] ! j) = None" for j
    using inv i own by (cases "j = i") (auto simp: pool_inv_def)
  have slots: "\<forall>t\<in>set ((kp_slots p)[i := s]). slot_ok (kp_cookie p) (kp_next_sequence_id p) t"
    using inv ok by (auto simp: pool_inv_def dest: set_update_subset_insert [THEN subsetD])
  have sums: "c = sum_list (map sidecar_one ((kp_slots p)[i := s]))"
      "b = sum_list (map sidecar_bytes ((kp_slots p)[i := s]))"
    using sum_list_update [OF i, of sidecar_one s] sum_list_update [OF i, of sidecar_bytes s] c b inv
    by (auto simp: pool_inv_def)
  show ?thesis using inv free slots sums top p' by (simp add: pool_inv_def)
qed

lemma allocated_pos:
  assumes inv: "pool_inv p" and i: "i < length (kp_slots p)" and own: "bs_owner (kp_slots p ! i) \<noteq> None"
  shows "0 < kp_allocated_block_count p"
proof -
  have nf: "i \<notin> set (kp_free_list p)" using inv own by (auto simp: pool_inv_def)
  have "length (kp_free_list p @ [i]) \<le> length (kp_slots p)"
    by (rule distinct_card_le) (use inv nf i in \<open>auto simp: pool_inv_def\<close>)
  then show ?thesis using inv by (auto simp: pool_inv_def)
qed

text \<open>Releasing a slot in use.\<close>

lemma pool_inv_free_slot:
  assumes inv: "pool_inv p" and i: "i < length (kp_slots p)"
    and own: "bs_owner (kp_slots p ! i) \<noteq> None"
    and p': "p' = p\<lparr>kp_slots := (kp_slots p)[i := freed (kp_slots p ! i)],
        kp_free_list := kp_free_list p @ [i],
        kp_allocated_block_count := kp_allocated_block_count p - 1,
        kp_sidecar_count := kp_sidecar_count p - sidecar_one (kp_slots p ! i),
        kp_sidecar_device_bytes := kp_sidecar_device_bytes p - sidecar_bytes (kp_slots p ! i)\<rparr>"
  shows "pool_inv p'"
proof -
  let ?s = "freed (kp_slots p ! i)"
  have nf: "i \<notin> set (kp_free_list p)" using inv own by (auto simp: pool_inv_def)
  have len: "kp_allocated_block_count p + length (kp_free_list p) = length (kp_slots p)"
    using inv by (simp add: pool_inv_def)
  have pos: "0 < kp_allocated_block_count p" by (rule allocated_pos [OF inv i own])
  have free: "j \<in> set (kp_free_list p @ [i]) \<longleftrightarrow> j < length (kp_slots p) \<and> bs_owner ((kp_slots p)[i := ?s] ! j) = None" for j
    using inv i by (cases "j = i") (auto simp: pool_inv_def freed_def)
  have slots: "\<forall>t\<in>set ((kp_slots p)[i := ?s]). slot_ok (kp_cookie p) (kp_next_sequence_id p) t"
  proof -
    have "slot_ok (kp_cookie p) (kp_next_sequence_id p) ?s"
      using pool_inv_slot [OF inv i] by (auto simp: slot_ok_def freed_def split: option.splits)
    then show ?thesis
      using inv by (auto simp: pool_inv_def dest: set_update_subset_insert [THEN subsetD])
  qed
  have z: "sidecar_one ?s = 0" "sidecar_bytes ?s = 0"
    by (simp_all add: freed_def sidecar_one_def sidecar_bytes_def)
  have sums: "kp_sidecar_count p - sidecar_one (kp_slots p ! i) = sum_list (map sidecar_one ((kp_slots p)[i := ?s]))"
      "kp_sidecar_device_bytes p - sidecar_bytes (kp_slots p ! i) = sum_list (map sidecar_bytes ((kp_slots p)[i := ?s]))"
    using sum_list_update [OF i, of sidecar_one ?s] sum_list_update [OF i, of sidecar_bytes ?s] inv z
    by (auto simp: pool_inv_def)
  have "kp_allocated_block_count p - 1 + length (kp_free_list p @ [i]) = length (kp_slots p)"
    using len pos by simp
  moreover have "kp_allocated_block_count p - 1 \<le> kp_high_water_mark p"
    using inv by (auto simp: pool_inv_def)
  moreover have "distinct (kp_free_list p @ [i])" using inv nf by (auto simp: pool_inv_def)
  moreover have "kp_sidecar_device_bytes p - sidecar_bytes (kp_slots p ! i) \<le> u64_max"
    using inv unfolding pool_inv_def by linarith
  ultimately show ?thesis
    using inv free slots sums p' unfolding pool_inv_def by simp
qed

lemma sidecar_counts:
  assumes inv: "pool_inv p" and i: "i < length (kp_slots p)"
  shows "sidecar_one (kp_slots p ! i) \<le> kp_sidecar_count p"
    and "sidecar_bytes (kp_slots p ! i) \<le> kp_sidecar_device_bytes p"
  using inv i sum_list_ge_elem [of "kp_slots p ! i" "kp_slots p"] by (auto simp: pool_inv_def)

subsection \<open>Every operation keeps the invariant\<close>

lemma no_sidecar:
  "bs_sidecar s = None \<Longrightarrow> s\<lparr>bs_sidecar := None\<rparr> = s"
  "bs_sidecar s = None \<Longrightarrow> freed s = s\<lparr>bs_shared_references := 0, bs_owner := None\<rparr>"
  by (cases s; simp add: freed_def)+

lemma take_sidecar_eq:
  assumes inv: "pool_inv p" and i: "i < length (kp_slots p)"
  shows "take_sidecar i p =
    p\<lparr>kp_slots := (kp_slots p)[i := (kp_slots p ! i)\<lparr>bs_sidecar := None\<rparr>],
      kp_sidecar_count := kp_sidecar_count p - sidecar_one (kp_slots p ! i),
      kp_sidecar_device_bytes := kp_sidecar_device_bytes p - sidecar_bytes (kp_slots p ! i)\<rparr>"
proof (cases "bs_sidecar (kp_slots p ! i)")
  case None
  then show ?thesis by (simp add: no_sidecar take_sidecar_def sidecar_one_def sidecar_bytes_def)
next
  case (Some m)
  then show ?thesis using sidecar_counts [OF inv i]
    by (simp add: take_sidecar_def sidecar_one_def sidecar_bytes_def)
qed

lemma take_sidecar_inv:
  assumes inv: "pool_inv p" and i: "i < length (kp_slots p)"
    and own: "bs_owner (kp_slots p ! i) \<noteq> None"
  shows "pool_inv (take_sidecar i p)" and "pool_same p (take_sidecar i p)"
    and "kp_slots (take_sidecar i p) = (kp_slots p)[i := (kp_slots p ! i)\<lparr>bs_sidecar := None\<rparr>]"
proof -
  let ?s = "(kp_slots p ! i)\<lparr>bs_sidecar := None\<rparr>"
  have z: "sidecar_one ?s = 0" "sidecar_bytes ?s = 0" by (simp_all add: sidecar_one_def sidecar_bytes_def)
  show "pool_inv (take_sidecar i p)"
    unfolding take_sidecar_eq [OF inv i]
  proof (rule pool_inv_update_slot [OF inv i own _ _ refl])
    show "slot_ok (kp_cookie p) (kp_next_sequence_id p) ?s"
      using pool_inv_slot [OF inv i] own by (auto simp: slot_ok_def split: option.splits)
    show "kp_sidecar_device_bytes p - sidecar_bytes (kp_slots p ! i) \<le> u64_max"
      using inv unfolding pool_inv_def by linarith
  qed (use own sidecar_counts [OF inv i] z in auto)
  show "pool_same p (take_sidecar i p)"
    and "kp_slots (take_sidecar i p) = (kp_slots p)[i := ?s]"
    by (simp_all add: take_sidecar_eq [OF inv i] pool_same_def)
qed

lemma release_slot_inv:
  assumes inv: "pool_inv p" and i: "i < length (kp_slots p)"
    and own: "bs_owner (kp_slots p ! i) \<noteq> None" and priv: "bs_shared_references (kp_slots p ! i) = 0"
  shows "pool_inv (release_slot i p)" and "pool_same p (release_slot i p)"
    and "kp_slots (release_slot i p) = (kp_slots p)[i := freed (kp_slots p ! i)]"
    and "kp_free_list (release_slot i p) = kp_free_list p @ [i]"
proof -
  let ?s = "kp_slots p ! i"
  have s: "?s\<lparr>bs_sidecar := None, bs_owner := None\<rparr> = freed ?s"
    using priv by (simp add: freed_def)
  have eq: "release_slot i p = p\<lparr>kp_slots := (kp_slots p)[i := freed ?s],
      kp_free_list := kp_free_list p @ [i],
      kp_allocated_block_count := kp_allocated_block_count p - 1,
      kp_sidecar_count := kp_sidecar_count p - sidecar_one ?s,
      kp_sidecar_device_bytes := kp_sidecar_device_bytes p - sidecar_bytes ?s\<rparr>"
    using allocated_pos [OF inv i own] i s
    by (simp add: release_slot_def take_sidecar_eq [OF inv i] Let_def)
  show "pool_inv (release_slot i p)" by (rule pool_inv_free_slot [OF inv i own eq])
  show "pool_same p (release_slot i p)"
    "kp_slots (release_slot i p) = (kp_slots p)[i := freed ?s]"
    "kp_free_list (release_slot i p) = kp_free_list p @ [i]"
    by (simp_all add: eq pool_same_def)
qed

text \<open>The two handle checks, as facts about the slot.\<close>

lemma validate_block_Inr:
  "validate_block p block owner = Inr u \<longleftrightarrow>
     bid_pool_cookie block = kp_cookie p \<and> sid_pool_cookie owner = kp_cookie p \<and>
     bid_physical_index block < length (kp_slots p) \<and>
     bs_generation (kp_slots p ! bid_physical_index block) = bid_generation block \<and>
     bs_owner (kp_slots p ! bid_physical_index block) = Some owner"
  by (auto simp: validate_block_def validate_block_index_def Let_def split: option.splits if_splits)

lemma shared_references_Inr:
  "shared_references p block = Inr n \<longleftrightarrow>
     bid_pool_cookie block = kp_cookie p \<and> bid_physical_index block < length (kp_slots p) \<and>
     bs_generation (kp_slots p ! bid_physical_index block) = bid_generation block \<and>
     bs_owner (kp_slots p ! bid_physical_index block) \<noteq> None \<and>
     n = bs_shared_references (kp_slots p ! bid_physical_index block) \<and> 0 < n"
  by (auto simp: shared_references_def validate_block_index_def Let_def split: if_splits)

lemma wp_release_block:
  assumes inv: "pool_inv p" and sid: "sid_value owner \<noteq> SHARED_BLOCK_OWNER"
  shows "wp (release_block block owner)
    (\<lambda>_ p'. validate_block p block owner = Inr () \<and> pool_inv p' \<and> pool_same p p' \<and>
       kp_slots p' = (kp_slots p)[bid_physical_index block := freed (kp_slots p ! bid_physical_index block)] \<and>
       kp_free_list p' = kp_free_list p @ [bid_physical_index block])
    (\<lambda>e p'. p' = p \<and> validate_block p block owner = Inl e) p"
proof (cases "validate_block p block owner")
  case (Inl e)
  then show ?thesis by (simp add: release_block_def wp_simps)
next
  case (Inr u)
  let ?i = "bid_physical_index block"
  from Inr have i: "?i < length (kp_slots p)" and own: "bs_owner (kp_slots p ! ?i) = Some owner"
    by (auto simp: validate_block_Inr)
  have "bs_shared_references (kp_slots p ! ?i) = 0"
    using pool_inv_slot [OF inv i] own sid by (simp add: slot_ok_def)
  then show ?thesis
    using release_slot_inv [OF inv i] own Inr by (simp add: release_block_def wp_simps)
qed

lemma wp_release_shared_block:
  assumes inv: "pool_inv p"
  shows "wp (release_shared_block block)
    (\<lambda>_ p'. \<exists>n. shared_references p block = Inr n \<and> pool_inv p' \<and> pool_same p p' \<and>
       kp_slots p' = (kp_slots p)[bid_physical_index block :=
         (if n = 1 then freed (kp_slots p ! bid_physical_index block)
          else (kp_slots p ! bid_physical_index block)\<lparr>bs_shared_references := n - 1\<rparr>)] \<and>
       kp_free_list p' = (if n = 1 then kp_free_list p @ [bid_physical_index block] else kp_free_list p))
    (\<lambda>e p'. p' = p \<and> shared_references p block = Inl e) p"
proof (cases "shared_references p block")
  case (Inl e)
  then show ?thesis by (simp add: release_shared_block_def wp_simps)
next
  case (Inr n)
  let ?i = "bid_physical_index block"
  let ?s = "kp_slots p ! ?i"
  from Inr have i: "?i < length (kp_slots p)" and own: "bs_owner ?s \<noteq> None"
    and n: "n = bs_shared_references ?s" "0 < n" by (auto simp: shared_references_Inr)
  have ok: "slot_ok (kp_cookie p) (kp_next_sequence_id p) ?s" by (rule pool_inv_slot [OF inv i])
  have side: "bs_sidecar ?s = None" using ok own n by (auto simp: slot_ok_def)
  show ?thesis
  proof (cases "n = 1")
    case True
    let ?p = "p\<lparr>kp_slots := (kp_slots p)[?i := ?s\<lparr>bs_shared_references := 0\<rparr>]\<rparr>"
    have eq: "release_slot ?i ?p = p\<lparr>kp_slots := (kp_slots p)[?i := freed ?s],
        kp_free_list := kp_free_list p @ [?i],
        kp_allocated_block_count := kp_allocated_block_count p - 1,
        kp_sidecar_count := kp_sidecar_count p - sidecar_one ?s,
        kp_sidecar_device_bytes := kp_sidecar_device_bytes p - sidecar_bytes ?s\<rparr>"
      using allocated_pos [OF inv i own] i side
      by (simp add: release_slot_def take_sidecar_def Let_def sidecar_one_def sidecar_bytes_def no_sidecar)
    have "pool_inv (release_slot ?i ?p)" by (rule pool_inv_free_slot [OF inv i own eq])
    moreover have "pool_same p (release_slot ?i ?p)" unfolding eq by (simp add: pool_same_def)
    ultimately show ?thesis using True Inr n
      by (simp add: release_shared_block_def wp_simps Let_def eq)
  next
    case False
    let ?t = "?s\<lparr>bs_shared_references := n - 1\<rparr>"
    let ?p = "p\<lparr>kp_slots := (kp_slots p)[?i := ?t]\<rparr>"
    have "pool_inv ?p"
    proof (rule pool_inv_update_slot [OF inv i own])
      show "slot_ok (kp_cookie p) (kp_next_sequence_id p) ?t"
        using ok False n own by (auto simp: slot_ok_def)
      show "kp_sidecar_device_bytes p \<le> u64_max" using inv by (simp add: pool_inv_def)
    qed (use own in \<open>auto simp: sidecar_one_def sidecar_bytes_def\<close>)
    then show ?thesis using False Inr n
      by (simp add: release_shared_block_def wp_simps Let_def pool_same_def)
  qed
qed

lemma wp_clear_sidecar:
  assumes inv: "pool_inv p"
  shows "wp (clear_sidecar block owner)
    (\<lambda>_ p'. validate_block p block owner = Inr () \<and> pool_inv p' \<and> pool_same p p' \<and>
       kp_slots p' = (kp_slots p)[bid_physical_index block :=
         (kp_slots p ! bid_physical_index block)\<lparr>bs_sidecar := None\<rparr>] \<and>
       kp_free_list p' = kp_free_list p)
    (\<lambda>e p'. p' = p \<and> validate_block p block owner = Inl e) p"
proof (cases "validate_block p block owner")
  case (Inl e)
  then show ?thesis by (simp add: clear_sidecar_def wp_simps)
next
  case (Inr u)
  let ?i = "bid_physical_index block"
  from Inr have i: "?i < length (kp_slots p)" and own: "bs_owner (kp_slots p ! ?i) \<noteq> None"
    by (auto simp: validate_block_Inr)
  show ?thesis using take_sidecar_inv [OF inv i own] Inr
    by (simp add: clear_sidecar_def wp_simps take_sidecar_eq [OF inv i])
qed

lemma wp_allocate_block:
  assumes inv: "pool_inv p" and sid: "sid_value owner \<noteq> SHARED_BLOCK_OWNER"
      "sid_pool_cookie owner = kp_cookie p" "sid_value owner < kp_next_sequence_id p"
  shows "wp (allocate_block env owner)
    (\<lambda>block p'. let i = bid_physical_index block in
       bid_pool_cookie block = kp_cookie p \<and> i < length (kp_slots p) \<and>
       kp_free_list p = kp_free_list p' @ [i] \<and> bs_owner (kp_slots p ! i) = None \<and>
       bid_generation block = bs_generation (kp_slots p ! i) + 1 \<and>
       kp_slots p' = (kp_slots p)[i := (kp_slots p ! i)
         \<lparr>bs_generation := bid_generation block, bs_owner := Some owner\<rparr>] \<and>
       pool_inv p' \<and> pool_same p p')
    (\<lambda>e p'. p' = p \<and> (kp_free_list p = [] \<and> e = OutOfBlocks 1 0 \<or>
       kp_free_list p \<noteq> [] \<and> e = GenerationExhausted (last (kp_free_list p)) \<and>
       bs_generation (kp_slots p ! last (kp_free_list p)) = u64_max)) p"
proof (cases "kp_free_list p = []")
  case True
  then show ?thesis
    by (simp add: allocate_block_def allocate_block_inner_def wp_simps)
next
  case False
  let ?i = "last (kp_free_list p)"
  let ?s = "kp_slots p ! ?i"
  have "?i \<in> set (kp_free_list p)" using False by simp
  then have i: "?i < length (kp_slots p)" and free: "bs_owner ?s = None"
    using inv by (auto simp: pool_inv_def)
  have ok: "slot_ok (kp_cookie p) (kp_next_sequence_id p) ?s" by (rule pool_inv_slot [OF inv i])
  have restore: "p\<lparr>kp_free_list := butlast (kp_free_list p) @ [?i]\<rparr> = p" using False by simp
  show ?thesis
  proof (cases "bs_generation ?s + 1 \<le> u64_max")
    case gen: False
    then have "bs_generation ?s = u64_max" using ok by (simp add: slot_ok_def)
    then show ?thesis using False gen restore
      by (simp add: allocate_block_def allocate_block_inner_def wp_simps checked_add_def Let_def)
  next
    case gen: True
    let ?t = "?s\<lparr>bs_generation := bs_generation ?s + 1, bs_owner := Some owner\<rparr>"
    let ?a = "kp_allocated_block_count p + 1"
    have cnt: "kp_allocated_block_count p + length (kp_free_list p) = length (kp_slots p)"
      and small: "length (kp_slots p) \<le> u32_max" using inv by (auto simp: pool_inv_def)
    have a: "?a + length (butlast (kp_free_list p)) = length (kp_slots p)"
    proof -
      have "0 < length (kp_free_list p)" using False by simp
      with cnt show ?thesis unfolding length_butlast by linarith
    qed
    have split: "kp_free_list p = butlast (kp_free_list p) @ [?i]" using False by simp
    have "distinct (butlast (kp_free_list p) @ [?i])" using inv False by (simp add: pool_inv_def)
    then have dist: "distinct (butlast (kp_free_list p))" "?i \<notin> set (butlast (kp_free_list p))" by auto
    have mem: "j \<in> set (butlast (kp_free_list p)) \<longleftrightarrow>
        j < length (kp_slots p) \<and> bs_owner ((kp_slots p)[?i := ?t] ! j) = None" for j
    proof -
      have "j \<in> set (kp_free_list p) \<longleftrightarrow> j \<in> set (butlast (kp_free_list p)) \<or> j = ?i"
        by (subst split) auto
      then show ?thesis using inv i dist(2) by (cases "j = ?i") (auto simp: pool_inv_def)
    qed
    have okt: "slot_ok (kp_cookie p) (kp_next_sequence_id p) ?t"
      using ok gen sid free by (simp add: slot_ok_def)
    have slots: "\<forall>t\<in>set ((kp_slots p)[?i := ?t]). slot_ok (kp_cookie p) (kp_next_sequence_id p) t"
      using inv okt by (auto simp: pool_inv_def dest: set_update_subset_insert [THEN subsetD])
    have sums: "sum_list (map sidecar_one ((kp_slots p)[?i := ?t])) = kp_sidecar_count p"
      "sum_list (map sidecar_bytes ((kp_slots p)[?i := ?t])) = kp_sidecar_device_bytes p"
      using sum_list_update [OF i, of sidecar_one ?t] sum_list_update [OF i, of sidecar_bytes ?t] inv
      by (auto simp: pool_inv_def sidecar_one_def sidecar_bytes_def)
    have "pool_inv (p\<lparr>kp_free_list := butlast (kp_free_list p), kp_slots := (kp_slots p)[?i := ?t],
        kp_allocated_block_count := ?a, kp_high_water_mark := max (kp_high_water_mark p) ?a,
        kp_lifetime_allocation_count := x, kp_total_allocation_latency_ns := y,
        kp_maximum_allocation_latency_ns := z\<rparr>)" for x y z
      using inv a mem slots sums dist unfolding pool_inv_def by (simp add: max_def)
    then show ?thesis using False gen i free a small
      by (simp add: allocate_block_def allocate_block_inner_def wp_simps checked_add_def Let_def
          pool_same_def)
  qed
qed

lemma wp_pool_attach_sidecar:
  assumes inv: "pool_inv p" and sid: "sid_value owner \<noteq> SHARED_BLOCK_OWNER"
  shows "wp (pool_attach_sidecar block owner metadata)
    (\<lambda>_ p'. validate_block p block owner = Inr () \<and> pool_inv p' \<and> pool_same p p' \<and>
       kp_slots p' = (kp_slots p)[bid_physical_index block :=
         (kp_slots p ! bid_physical_index block)\<lparr>bs_sidecar := Some metadata\<rparr>] \<and>
       kp_free_list p' = kp_free_list p)
    (\<lambda>e p'. p' = p) p"
proof (cases "validate_block p block owner")
  case (Inl e)
  then show ?thesis by (simp add: pool_attach_sidecar_def wp_simps)
next
  case (Inr u)
  let ?i = "bid_physical_index block"
  let ?s = "kp_slots p ! ?i"
  let ?t = "?s\<lparr>bs_sidecar := Some metadata\<rparr>"
  let ?c = "if bs_sidecar ?s = None then wrapping_add (kp_sidecar_count p) 1 else kp_sidecar_count p"
  let ?b = "kp_sidecar_device_bytes p - sidecar_bytes ?s + odv_byte_len (obm_device_view metadata)"
  let ?p = "p\<lparr>kp_sidecar_count := ?c, kp_slots := (kp_slots p)[?i := ?t], kp_sidecar_device_bytes := ?b\<rparr>"
  from Inr have i: "?i < length (kp_slots p)" and own: "bs_owner ?s = Some owner"
    by (auto simp: validate_block_Inr)
  have cnt: "kp_sidecar_count p \<le> length (kp_slots p)"
  proof -
    have "sum_list (map sidecar_one (kp_slots p)) \<le> sum_list (map (\<lambda>_. 1) (kp_slots p))"
      by (rule sum_list_mono) (simp add: sidecar_one_def)
    then show ?thesis using inv by (simp add: pool_inv_def sum_list_triv)
  qed
  have c: "?c + sidecar_one ?s = kp_sidecar_count p + sidecar_one ?t"
    using cnt inv by (simp add: sidecar_one_def pool_inv_def)
  have inv': "pool_inv ?p" if "?b \<le> u64_max"
  proof (rule pool_inv_update_slot [OF inv i _ _ _ _ c _ that])
    show "slot_ok (kp_cookie p) (kp_next_sequence_id p) ?t"
      using pool_inv_slot [OF inv i] own sid by (simp add: slot_ok_def)
    show "?b + sidecar_bytes ?s = kp_sidecar_device_bytes p + sidecar_bytes ?t"
      using sidecar_counts(2) [OF inv i] by (simp add: sidecar_bytes_def)
  qed (use own in auto)
  show ?thesis
  proof (cases "?b \<le> u64_max")
    case True
    then show ?thesis using inv' Inr
      by (simp add: pool_attach_sidecar_def wp_simps Let_def pool_same_def checked_add_def
          sidecar_bytes_def)
  next
    case False
    then show ?thesis using Inr
      by (simp add: pool_attach_sidecar_def wp_simps Let_def checked_add_def sidecar_bytes_def)
  qed
qed

lemma pool_new_inv:
  assumes "layout_wf layout" and "kv_block_pool_new env layout c = (Inr p, c')"
  shows "pool_inv p" and "kp_allocated_block_count p = 0"
proof -
  let ?n = "kl_physical_block_count layout"
  have p: "p = \<lparr>kp_cookie = c, kp_layout = layout,
      kp_slots = replicate ?n \<lparr>bs_generation = 0, bs_owner = None, bs_shared_references = 0, bs_sidecar = None\<rparr>,
      kp_free_list = rev [0..<?n],
      kp_allocated_block_count = 0, kp_high_water_mark = 0, kp_next_sequence_id = 1,
      kp_sidecar_count = 0, kp_sidecar_device_bytes = 0, kp_lifetime_allocation_count = 0,
      kp_total_allocation_latency_ns = 0, kp_maximum_allocation_latency_ns = 0\<rparr>"
    using assms(2)
    by (auto simp: kv_block_pool_new_def next_pool_cookie_def cmd_defs Let_def
        split: option.splits sum.splits prod.splits if_splits)
  have "?n \<le> u32_max" using assms(1) by (simp add: layout_wf_def)
  then show "pool_inv p"
    by (auto simp add: p pool_inv_def slot_ok_def sum_list_replicate sidecar_one_def sidecar_bytes_def
        map_replicate_const)
  show "kp_allocated_block_count p = 0" by (simp add: p)
qed

end
