(* ===== verification/Kv_Sequence.thy ===== *)
theory Kv_Sequence
  imports Kv_Pool
begin

text \<open>
  \<open>SequenceState\<close> of \<open>paged_kv.rs\<close>: one sequence's block table with its leading shared blocks,
  and the reservation protocol (reserve, then commit, roll back or poison). An operation of a
  sequence borrows the pool mutably as well, so its state is the pair of the two.
\<close>

subsection \<open>State\<close>

record block_table_v1 =
  bt_physical_block_ids :: "u32 list"
  bt_valid_tokens :: "u16 list"
  bt_logical_length :: u32

record pending_reservation =
  pr_nonce :: u64
  pr_previous_block_count :: usize
  pr_target_logical_length :: u32

record sequence_reservation =
  sr_pool_cookie :: u64
  sr_sequence_id :: sequence_id
  sr_nonce :: u64
  sr_previous_block_count :: usize
  sr_target_logical_length :: u32

record reservation_commit =
  rc_previous_logical_length :: u32
  rc_logical_length :: u32
  rc_allocated_block_count :: usize

record sequence_state =
  sq_pool_cookie :: u64
  sq_sequence_id :: sequence_id
  sq_maximum_logical_length :: u32
  sq_block_ids :: "block_id option list"
  sq_physical_block_ids :: "u32 list"
  sq_valid_tokens :: "u16 list"
  sq_allocated_block_count :: usize
  sq_shared_block_count :: usize
  sq_logical_length :: u32
  sq_next_reservation_nonce :: u64
  sq_pending :: "pending_reservation option"
  sq_poisoned :: bool

type_synonym 'a seq_cmd = "(sequence_state \<times> kv_block_pool, paged_kv_error, 'a) cmd"

text \<open>A pool operation, and an assignment to the sequence, inside a sequence operation.\<close>

definition on_pool :: "'a pool_cmd \<Rightarrow> 'a seq_cmd" where
  "on_pool m = zoomM snd (\<lambda>p (q, _). (q, p)) id m"

definition mod_seq :: "(sequence_state \<Rightarrow> sequence_state) \<Rightarrow> unit seq_cmd" where
  "mod_seq f = modM (\<lambda>(q, p). (f q, p))"

subsection \<open>Construction and observers\<close>

definition boxed_filled :: "host_env \<Rightarrow> usize \<Rightarrow> 'a \<Rightarrow> string \<Rightarrow> paged_kv_error + 'a list" where
  "boxed_filled env len v resource =
     (if he_alloc env resource len then Inr (replicate len v)
      else Inl (HostAllocation resource len))"

definition sequence_state_new ::
  "host_env \<Rightarrow> u64 \<Rightarrow> sequence_id \<Rightarrow> u32 \<Rightarrow> paged_kv_error + sequence_state" where
  "sequence_state_new env pool_cookie sequence_id maximum_logical_length =
     (let maximum_blocks = blocks_for_length maximum_logical_length in
      bindE (boxed_filled env maximum_blocks None ''sequence_block_handles'') (\<lambda>block_ids.
      bindE (boxed_filled env maximum_blocks EMPTY_PHYSICAL_BLOCK_ID ''sequence_physical_ids'')
        (\<lambda>physical_block_ids.
      bindE (boxed_filled env maximum_blocks 0 ''sequence_valid_tokens'') (\<lambda>valid_tokens.
      Inr \<lparr>sq_pool_cookie = pool_cookie, sq_sequence_id = sequence_id,
           sq_maximum_logical_length = maximum_logical_length,
           sq_block_ids = block_ids, sq_physical_block_ids = physical_block_ids,
           sq_valid_tokens = valid_tokens, sq_allocated_block_count = 0,
           sq_shared_block_count = 0, sq_logical_length = 0, sq_next_reservation_nonce = 1,
           sq_pending = None, sq_poisoned = False\<rparr>))))"

definition create_sequence :: "host_env \<Rightarrow> usize \<Rightarrow> sequence_state pool_cmd" where
  "create_sequence env maximum_logical_length =
     bindM (failIf (maximum_logical_length = 0)
       (InvalidConfiguration ''maximum_logical_length'' ''must be non-zero'')) (\<lambda>_.
     bindM (tryM (ok_or (u32_try_from maximum_logical_length)
       (InvalidConfiguration ''maximum_logical_length'' ''must fit the U32 block table''))) (\<lambda>maximum.
     withM (\<lambda>p.
     let sequence_value = kp_next_sequence_id p in
     bindM (tryM (ok_or (checked_add sequence_value 1) SequenceIdExhausted)) (\<lambda>next.
     bindM (tryM (sequence_state_new env (kp_cookie p)
       \<lparr>sid_pool_cookie = kp_cookie p, sid_value = sequence_value\<rparr> maximum)) (\<lambda>sequence.
     bindM (modM (\<lambda>p. p\<lparr>kp_next_sequence_id := next\<rparr>)) (\<lambda>_.
     ret sequence))))))"

definition additional_blocks_for :: "sequence_state \<Rightarrow> usize \<Rightarrow> usize" where
  "additional_blocks_for q target_logical_length =
     blocks_for_length target_logical_length - sq_allocated_block_count q"

definition host_table_capacity_bytes :: "sequence_state \<Rightarrow> u64" where
  "host_table_capacity_bytes q =
     (case Option.bind (u64_try_from (length (sq_block_ids q))) (\<lambda>blocks. checked_mul blocks 6) of
        None \<Rightarrow> u64_max | Some n \<Rightarrow> n)"

definition internal_fragmentation_tokens :: "sequence_state \<Rightarrow> usize" where
  "internal_fragmentation_tokens q =
     min (blocks_for_length (sq_logical_length q) * KV_BLOCK_SIZE) u64_max - sq_logical_length q"

definition seq_block_id :: "sequence_state \<Rightarrow> usize \<Rightarrow> block_id option" where
  "seq_block_id q logical_block_index =
     (if blocks_for_length (sq_logical_length q) \<le> logical_block_index then None
      else sq_block_ids q ! logical_block_index)"

definition ensure_pool :: "sequence_state \<Rightarrow> kv_block_pool \<Rightarrow> paged_kv_error + unit" where
  "ensure_pool q p =
     failE (kp_cookie p \<noteq> sq_pool_cookie q) (ForeignPool (sq_pool_cookie q) (kp_cookie p))"

definition ensure_mutable :: "sequence_state \<Rightarrow> kv_block_pool \<Rightarrow> paged_kv_error + unit" where
  "ensure_mutable q p =
     bindE (ensure_pool q p) (\<lambda>_. failE (sq_poisoned q) Poisoned)"

definition ensure_readable :: "sequence_state \<Rightarrow> paged_kv_error + unit" where
  "ensure_readable q =
     bindE (failE (sq_poisoned q) Poisoned) (\<lambda>_.
     failE (sq_pending q \<noteq> None) ReservationInProgress)"

definition validate_reservation :: "sequence_state \<Rightarrow> sequence_reservation \<Rightarrow> paged_kv_error + unit" where
  "validate_reservation q r =
     bindE (failE (sr_pool_cookie r \<noteq> sq_pool_cookie q \<or> sr_sequence_id r \<noteq> sq_sequence_id q)
       ReservationMismatch) (\<lambda>_.
     case sq_pending q of
       None \<Rightarrow> Inl NoReservationInProgress
     | Some pending \<Rightarrow>
         failE (pr_nonce pending \<noteq> sr_nonce r
           \<or> pr_previous_block_count pending \<noteq> sr_previous_block_count r
           \<or> pr_target_logical_length pending \<noteq> sr_target_logical_length r) ReservationMismatch)"

definition allocated_block :: "sequence_state \<Rightarrow> usize \<Rightarrow> paged_kv_error + block_id" where
  "allocated_block q index =
     ok_or (if index < length (sq_block_ids q) then sq_block_ids q ! index else None)
       (CorruptSequenceState ''allocated table prefix is missing a block handle'')"

definition committed_block :: "sequence_state \<Rightarrow> usize \<Rightarrow> paged_kv_error + block_id" where
  "committed_block q logical_block_index =
     (let block_count = blocks_for_length (sq_logical_length q) in
      if block_count \<le> logical_block_index
      then Inl (InvalidLogicalBlock logical_block_index block_count)
      else allocated_block q logical_block_index)"

definition validate_held_block :: "sequence_state \<Rightarrow> kv_block_pool \<Rightarrow> usize \<Rightarrow> paged_kv_error + unit" where
  "validate_held_block q p index =
     bindE (allocated_block q index) (\<lambda>block.
     if index < sq_shared_block_count q
     then bindE (shared_references p block) (\<lambda>_. Inr ())
     else validate_block p block (sq_sequence_id q))"

definition table_view :: "sequence_state \<Rightarrow> usize \<Rightarrow> u32 \<Rightarrow> block_table_v1" where
  "table_view q block_count logical_length =
     \<lparr>bt_physical_block_ids = take block_count (sq_physical_block_ids q),
      bt_valid_tokens = take block_count (sq_valid_tokens q),
      bt_logical_length = logical_length\<rparr>"

definition block_table :: "sequence_state \<Rightarrow> paged_kv_error + block_table_v1" where
  "block_table q =
     bindE (ensure_readable q) (\<lambda>_.
     Inr (table_view q (blocks_for_length (sq_logical_length q)) (sq_logical_length q)))"

definition reserved_block_table ::
  "sequence_state \<Rightarrow> sequence_reservation \<Rightarrow> paged_kv_error + block_table_v1" where
  "reserved_block_table q r =
     bindE (validate_reservation q r) (\<lambda>_.
     Inr (table_view q (sq_allocated_block_count q) (sr_target_logical_length r)))"

text \<open>The valid-token counts of the first \<open>block_count\<close> blocks; the rest of the allocated prefix
  is zeroed.\<close>

definition fill_valid_tokens :: "usize \<Rightarrow> usize \<Rightarrow> sequence_state \<Rightarrow> sequence_state" where
  "fill_valid_tokens logical_length block_count q =
     q\<lparr>sq_valid_tokens :=
        map (\<lambda>index.
          if index < block_count
          then min (logical_length - index * KV_BLOCK_SIZE) KV_BLOCK_SIZE
          else if index < sq_allocated_block_count q then 0
          else sq_valid_tokens q ! index)
        [0..<length (sq_valid_tokens q)]\<rparr>"

subsection \<open>Releasing blocks\<close>

text \<open>One step of the loop of \<open>release_tail\<close>, and the loop; the fuel is the number of blocks
  above the retained prefix, so it never runs out (\<open>release_tail\<close> below).\<close>

definition release_last :: "unit seq_cmd" where
  "release_last = withM (\<lambda>(q, p).
     let index = sq_allocated_block_count q - 1 in
     bindM (tryM (allocated_block q index)) (\<lambda>block.
     bindM (if index < sq_shared_block_count q
            then bindM (on_pool (release_shared_block block)) (\<lambda>_.
                 mod_seq (\<lambda>q. q\<lparr>sq_shared_block_count := index\<rparr>))
            else on_pool (release_block block (sq_sequence_id q))) (\<lambda>_.
     mod_seq (\<lambda>q. q\<lparr>
       sq_block_ids := (sq_block_ids q)[index := None],
       sq_physical_block_ids := (sq_physical_block_ids q)[index := EMPTY_PHYSICAL_BLOCK_ID],
       sq_valid_tokens := (sq_valid_tokens q)[index := 0],
       sq_allocated_block_count := index\<rparr>))))"

fun release_loop :: "nat \<Rightarrow> unit seq_cmd" where
  "release_loop 0 = ret ()"
| "release_loop (Suc n) = bindM release_last (\<lambda>_. release_loop n)"

definition release_tail :: "usize \<Rightarrow> unit seq_cmd" where
  "release_tail retained_block_count = withM (\<lambda>(q, p).
     release_loop (sq_allocated_block_count q - retained_block_count))"

definition rollback_new_blocks :: "usize \<Rightarrow> unit seq_cmd" where
  "rollback_new_blocks previous_block_count = withM (\<lambda>(q, p).
     bindM (tryM (forE [previous_block_count..<sq_allocated_block_count q] (\<lambda>index.
       bindE (allocated_block q index) (\<lambda>block. validate_block p block (sq_sequence_id q))))) (\<lambda>_.
     release_tail previous_block_count))"

definition rollback_pending :: "unit seq_cmd" where
  "rollback_pending = withM (\<lambda>(q, p).
     bindM (tryM (ok_or (sq_pending q) NoReservationInProgress)) (\<lambda>pending.
     bindM (rollback_new_blocks (pr_previous_block_count pending)) (\<lambda>_.
     bindM (mod_seq (\<lambda>q. fill_valid_tokens (sq_logical_length q)
       (blocks_for_length (sq_logical_length q)) q)) (\<lambda>_.
     mod_seq (\<lambda>q. q\<lparr>sq_pending := None\<rparr>)))))"

subsection \<open>The reservation protocol\<close>

text \<open>The allocation loop of \<open>reserve_to\<close>: as many steps as blocks are missing.\<close>

fun reserve_loop :: "host_env \<Rightarrow> usize \<Rightarrow> nat \<Rightarrow> unit seq_cmd" where
  "reserve_loop env previous_block_count 0 = ret ()"
| "reserve_loop env previous_block_count (Suc n) = withM (\<lambda>(q, p).
     catchM (on_pool (allocate_block env (sq_sequence_id q))) (\<lambda>r.
       case r of
         Inr block \<Rightarrow>
           bindM (mod_seq (\<lambda>q. let index = sq_allocated_block_count q in q\<lparr>
             sq_block_ids := (sq_block_ids q)[index := Some block],
             sq_physical_block_ids := (sq_physical_block_ids q)[index := bid_physical_index block],
             sq_valid_tokens := (sq_valid_tokens q)[index := 0],
             sq_allocated_block_count := index + 1\<rparr>)) (\<lambda>_.
           reserve_loop env previous_block_count n)
       | Inl error \<Rightarrow>
           bindM (rollback_new_blocks previous_block_count) (\<lambda>_. throwM error)))"

definition reserve_to :: "host_env \<Rightarrow> usize \<Rightarrow> sequence_reservation seq_cmd" where
  "reserve_to env target_logical_length = withM (\<lambda>(q, p).
     bindM (tryM (ensure_mutable q p)) (\<lambda>_.
     bindM (failIf (sq_pending q \<noteq> None) ReservationInProgress) (\<lambda>_.
     bindM (failIf (target_logical_length < sq_logical_length q)
       (LengthRegression (sq_logical_length q) target_logical_length)) (\<lambda>_.
     bindM (failIf (sq_maximum_logical_length q < target_logical_length)
       (CapacityExceeded target_logical_length (sq_maximum_logical_length q))) (\<lambda>_.
     bindM (tryM (ok_or (u32_try_from target_logical_length)
       (CapacityExceeded target_logical_length (sq_maximum_logical_length q)))) (\<lambda>target.
     let target_blocks = blocks_for_length target_logical_length;
         additional_blocks = target_blocks - sq_allocated_block_count q in
     bindM (failIf (length (kp_free_list p) < additional_blocks)
       (OutOfBlocks additional_blocks (length (kp_free_list p)))) (\<lambda>_.
     bindM (tryM (if sq_allocated_block_count q \<noteq> 0
                  then validate_held_block q p (sq_allocated_block_count q - 1) else Inr ())) (\<lambda>_.
     let nonce = sq_next_reservation_nonce q in
     bindM (tryM (ok_or (checked_add nonce 1) ReservationNonceExhausted)) (\<lambda>next_nonce.
     let previous_block_count = sq_allocated_block_count q in
     bindM (reserve_loop env previous_block_count (target_blocks - previous_block_count)) (\<lambda>_.
     bindM (mod_seq (fill_valid_tokens target_logical_length target_blocks)) (\<lambda>_.
     bindM (mod_seq (\<lambda>q. q\<lparr>
       sq_pending := Some \<lparr>pr_nonce = nonce, pr_previous_block_count = previous_block_count,
                           pr_target_logical_length = target\<rparr>,
       sq_next_reservation_nonce := next_nonce\<rparr>)) (\<lambda>_.
     ret \<lparr>sr_pool_cookie = sq_pool_cookie q, sr_sequence_id = sq_sequence_id q, sr_nonce = nonce,
          sr_previous_block_count = previous_block_count,
          sr_target_logical_length = target\<rparr>))))))))))))"

definition seq_commit :: "sequence_reservation \<Rightarrow> reservation_commit seq_cmd" where
  "seq_commit reservation = withM (\<lambda>(q, p).
     bindM (tryM (ensure_pool q p)) (\<lambda>_.
     bindM (tryM (validate_reservation q reservation)) (\<lambda>_.
     let previous_logical_length = sq_logical_length q;
         first_changed = (if previous_logical_length < sr_target_logical_length reservation
                          then previous_logical_length div KV_BLOCK_SIZE
                          else sq_allocated_block_count q);
         changed = [first_changed..<sq_allocated_block_count q] in
     bindM (tryM (forE changed (\<lambda>index.
       bindE (allocated_block q index) (\<lambda>block. validate_block p block (sq_sequence_id q))))) (\<lambda>_.
     bindM (forM changed (\<lambda>index.
       bindM (tryM (allocated_block q index)) (\<lambda>block.
       on_pool (clear_sidecar block (sq_sequence_id q))))) (\<lambda>_.
     bindM (mod_seq (\<lambda>q. q\<lparr>sq_pending := None,
       sq_logical_length := sr_target_logical_length reservation\<rparr>)) (\<lambda>_.
     ret \<lparr>rc_previous_logical_length = previous_logical_length,
          rc_logical_length = sr_target_logical_length reservation,
          rc_allocated_block_count = sq_allocated_block_count q\<rparr>))))))"

definition seq_rollback :: "sequence_reservation \<Rightarrow> unit seq_cmd" where
  "seq_rollback reservation = withM (\<lambda>(q, p).
     bindM (tryM (ensure_pool q p)) (\<lambda>_.
     bindM (tryM (validate_reservation q reservation)) (\<lambda>_.
     rollback_pending)))"

definition seq_poison :: "sequence_reservation \<Rightarrow> unit seq_cmd" where
  "seq_poison reservation = withM (\<lambda>(q, p).
     bindM (tryM (ensure_pool q p)) (\<lambda>_.
     bindM (tryM (validate_reservation q reservation)) (\<lambda>_.
     bindM (mod_seq (\<lambda>q. q\<lparr>sq_poisoned := True\<rparr>)) (\<lambda>_.
     bindM (tryM (forE [0..<sq_allocated_block_count q] (validate_held_block q p))) (\<lambda>_.
     bindM (forM [sq_shared_block_count q..<sq_allocated_block_count q] (\<lambda>index.
       bindM (tryM (allocated_block q index)) (\<lambda>block.
       on_pool (clear_sidecar block (sq_sequence_id q))))) (\<lambda>_.
     rollback_pending))))))"

definition rollback_abandoned_reservation :: "unit seq_cmd" where
  "rollback_abandoned_reservation = withM (\<lambda>(q, p).
     bindM (tryM (ensure_pool q p)) (\<lambda>_.
     bindM (failIf (sq_pending q = None) NoReservationInProgress) (\<lambda>_.
     bindM (mod_seq (\<lambda>q. q\<lparr>sq_poisoned := True\<rparr>)) (\<lambda>_.
     rollback_pending))))"

subsection \<open>Shrinking, closing and sharing\<close>

definition truncate_to :: "usize \<Rightarrow> unit seq_cmd" where
  "truncate_to target_logical_length = withM (\<lambda>(q, p).
     bindM (tryM (ensure_mutable q p)) (\<lambda>_.
     bindM (failIf (sq_pending q \<noteq> None) ReservationInProgress) (\<lambda>_.
     bindM (failIf (sq_logical_length q < target_logical_length)
       (InvalidTruncateLength (sq_logical_length q) target_logical_length)) (\<lambda>_.
     bindM (failIf (target_logical_length < sq_shared_block_count q * KV_BLOCK_SIZE)
       (InvalidTruncateLength (sq_logical_length q) target_logical_length)) (\<lambda>_.
     let target_blocks = blocks_for_length target_logical_length in
     bindM (tryM (forE [target_blocks..<sq_allocated_block_count q] (validate_held_block q p))) (\<lambda>_.
     bindM (tryM (if target_blocks \<noteq> 0 \<and> target_logical_length \<noteq> sq_logical_length q
                  then validate_held_block q p (target_blocks - 1) else Inr ())) (\<lambda>_.
     bindM (if sq_shared_block_count q < target_blocks \<and> target_logical_length \<noteq> sq_logical_length q
            then bindM (tryM (allocated_block q (target_blocks - 1))) (\<lambda>tail.
                 on_pool (clear_sidecar tail (sq_sequence_id q)))
            else ret ()) (\<lambda>_.
     bindM (release_tail target_blocks) (\<lambda>_.
     bindM (tryM (ok_or (u32_try_from target_logical_length)
       (CorruptSequenceState ''truncate target does not fit committed U32 length''))) (\<lambda>len.
     bindM (mod_seq (\<lambda>q. q\<lparr>sq_logical_length := len\<rparr>)) (\<lambda>_.
     mod_seq (fill_valid_tokens target_logical_length target_blocks))))))))))))"

definition seq_reset :: "unit seq_cmd" where
  "seq_reset = withM (\<lambda>(q, p).
     bindM (tryM (ensure_pool q p)) (\<lambda>_.
     bindM (if sq_pending q \<noteq> None then rollback_pending else ret ()) (\<lambda>_.
     withM (\<lambda>(q, p).
     bindM (tryM (forE [0..<sq_allocated_block_count q] (validate_held_block q p))) (\<lambda>_.
     bindM (release_tail 0) (\<lambda>_.
     mod_seq (\<lambda>q. q\<lparr>sq_logical_length := 0, sq_pending := None, sq_poisoned := False\<rparr>)))))))"

definition seq_close :: "unit seq_cmd" where
  "seq_close = seq_reset"

definition abandon_for_reclaim :: "sequence_state \<Rightarrow> sequence_reclaim_token" where
  "abandon_for_reclaim q =
     \<lparr>srt_owner = sq_sequence_id q, srt_block_ids = sq_block_ids q,
      srt_shared_block_count = sq_shared_block_count q\<rparr>"

text \<open>The cast \<open>as u32\<close> keeps the low 32 bits.\<close>

definition adopt_shared_block :: "block_id \<Rightarrow> unit seq_cmd" where
  "adopt_shared_block block = withM (\<lambda>(q, p).
     bindM (tryM (ensure_mutable q p)) (\<lambda>_.
     bindM (failIf (sq_pending q \<noteq> None) ReservationInProgress) (\<lambda>_.
     bindM (failIf (sq_allocated_block_count q \<noteq> sq_shared_block_count q)
       (SharedPrefixNotExtendable ''the sequence already holds private blocks'')) (\<lambda>_.
     let index = sq_allocated_block_count q in
     bindM (failIf (index = length (sq_block_ids q))
       (CapacityExceeded ((index + 1) * KV_BLOCK_SIZE) (sq_maximum_logical_length q))) (\<lambda>_.
     bindM (tryM (shared_references p block)) (\<lambda>references.
     bindM (tryM (ok_or (u32_try_from (references + 1))
       (ArithmeticOverflow ''shared block references''))) (\<lambda>incremented.
     bindM (on_pool (modM (\<lambda>p. p\<lparr>kp_slots := (kp_slots p)[bid_physical_index block :=
       (kp_slots p ! bid_physical_index block)\<lparr>bs_shared_references := incremented\<rparr>]\<rparr>))) (\<lambda>_.
     mod_seq (\<lambda>q. q\<lparr>
       sq_block_ids := (sq_block_ids q)[index := Some block],
       sq_physical_block_ids := (sq_physical_block_ids q)[index := bid_physical_index block],
       sq_valid_tokens := (sq_valid_tokens q)[index := KV_BLOCK_SIZE],
       sq_allocated_block_count := index + 1,
       sq_shared_block_count := index + 1,
       sq_logical_length := ((index + 1) * KV_BLOCK_SIZE) mod (u32_max + 1)\<rparr>)))))))))"

definition share_next_block :: "block_id seq_cmd" where
  "share_next_block = withM (\<lambda>(q, p).
     bindM (tryM (ensure_mutable q p)) (\<lambda>_.
     bindM (failIf (sq_pending q \<noteq> None) ReservationInProgress) (\<lambda>_.
     let index = sq_shared_block_count q in
     bindM (failIf (sq_logical_length q < (index + 1) * KV_BLOCK_SIZE)
       (SharedPrefixNotExtendable ''only a fully committed block can be shared'')) (\<lambda>_.
     bindM (tryM (allocated_block q index)) (\<lambda>block.
     bindM (tryM (validate_block p block (sq_sequence_id q))) (\<lambda>_.
     bindM (on_pool (clear_sidecar block (sq_sequence_id q))) (\<lambda>_.
     bindM (on_pool (modM (\<lambda>p. p\<lparr>kp_slots := (kp_slots p)[bid_physical_index block :=
       (kp_slots p ! bid_physical_index block)\<lparr>bs_owner := Some (shared_owner (sq_pool_cookie q)),
         bs_shared_references := 2\<rparr>]\<rparr>))) (\<lambda>_.
     bindM (mod_seq (\<lambda>q. q\<lparr>sq_shared_block_count := index + 1\<rparr>)) (\<lambda>_.
     ret block)))))))))"

definition seq_attach_sidecar :: "usize \<Rightarrow> optional_block_metadata \<Rightarrow> unit seq_cmd" where
  "seq_attach_sidecar logical_block_index metadata = withM (\<lambda>(q, p).
     bindM (tryM (ensure_readable q)) (\<lambda>_.
     bindM (tryM (ensure_pool q p)) (\<lambda>_.
     bindM (tryM (committed_block q logical_block_index)) (\<lambda>block.
     on_pool (pool_attach_sidecar block (sq_sequence_id q) metadata)))))"

definition seq_sidecar ::
  "sequence_state \<Rightarrow> kv_block_pool \<Rightarrow> usize \<Rightarrow>
     paged_kv_error + (block_id \<times> optional_block_metadata) option" where
  "seq_sidecar q p logical_block_index =
     bindE (ensure_readable q) (\<lambda>_.
     bindE (ensure_pool q p) (\<lambda>_.
     bindE (committed_block q logical_block_index) (\<lambda>block.
     pool_sidecar p block (sq_sequence_id q))))"

end
