(* ===== verification/Kv_Ownership.thy ===== *)
theory Kv_Ownership
  imports Kv_Sequence
begin

text \<open>
  Who owns which physical block. \<open>seq_core\<close> relates one sequence to the pool: its table is a
  prefix of live handles, the leading ones held through shared references and the rest owned
  exclusively, without repetition, and the pool lists no block of this sequence that its table
  lacks. \<open>kv_step\<close> says what an operation of one sequence may do to the pool: other owners'
  blocks are untouched, a shared block's holder count moves with this sequence's own hold, and
  generations only grow. Every operation of \<open>SequenceState\<close> is shown to be such a step, on success
  and on error; \<open>kv_system\<close> then lifts it to any number of sequences over one pool.
\<close>

definition block_ok :: "kv_block_pool \<Rightarrow> sequence_state \<Rightarrow> nat \<Rightarrow> bool" where
  "block_ok p q j \<longleftrightarrow> (\<exists>b. sq_block_ids q ! j = Some b \<and>
     sq_physical_block_ids q ! j = bid_physical_index b \<and> bid_pool_cookie b = kp_cookie p \<and>
     bid_physical_index b < length (kp_slots p) \<and>
     bs_generation (kp_slots p ! bid_physical_index b) = bid_generation b \<and>
     (if j < sq_shared_block_count q then 0 < bs_shared_references (kp_slots p ! bid_physical_index b)
      else bs_owner (kp_slots p ! bid_physical_index b) = Some (sq_sequence_id q)))"

text \<open>The physical blocks of the table, the shared prefix and the private rest.\<close>

definition phys :: "sequence_state \<Rightarrow> nat list" where
  "phys q = take (sq_allocated_block_count q) (sq_physical_block_ids q)"

definition shared_phys :: "sequence_state \<Rightarrow> nat list" where
  "shared_phys q = take (sq_shared_block_count q) (sq_physical_block_ids q)"

definition private_phys :: "sequence_state \<Rightarrow> nat list" where
  "private_phys q = drop (sq_shared_block_count q) (phys q)"

definition hold :: "sequence_state \<Rightarrow> nat \<Rightarrow> nat" where
  "hold q i = (if i \<in> set (shared_phys q) then 1 else 0)"

definition seq_ids :: "kv_block_pool \<Rightarrow> sequence_state \<Rightarrow> bool" where
  "seq_ids p q \<longleftrightarrow>
     sq_pool_cookie q = kp_cookie p \<and> sid_pool_cookie (sq_sequence_id q) = kp_cookie p \<and>
     0 < sid_value (sq_sequence_id q) \<and> sid_value (sq_sequence_id q) < kp_next_sequence_id p"

definition seq_shape :: "sequence_state \<Rightarrow> bool" where
  "seq_shape q \<longleftrightarrow>
     sq_maximum_logical_length q \<le> u32_max \<and>
     length (sq_block_ids q) = blocks_for_length (sq_maximum_logical_length q) \<and>
     length (sq_physical_block_ids q) = length (sq_block_ids q) \<and>
     length (sq_valid_tokens q) = length (sq_block_ids q) \<and>
     sq_allocated_block_count q \<le> length (sq_block_ids q) \<and>
     sq_shared_block_count q \<le> sq_allocated_block_count q \<and>
     (\<forall>j. sq_allocated_block_count q \<le> j \<and> j < length (sq_block_ids q) \<longrightarrow>
        sq_block_ids q ! j = None \<and> sq_physical_block_ids q ! j = EMPTY_PHYSICAL_BLOCK_ID \<and>
        sq_valid_tokens q ! j = 0)"

definition seq_core :: "kv_block_pool \<Rightarrow> sequence_state \<Rightarrow> bool" where
  "seq_core p q \<longleftrightarrow> seq_ids p q \<and> seq_shape q \<and>
     (\<forall>j<sq_allocated_block_count q. block_ok p q j) \<and> distinct (phys q) \<and>
     (\<forall>i<length (kp_slots p). bs_owner (kp_slots p ! i) = Some (sq_sequence_id q) \<longrightarrow>
        i \<in> set (private_phys q))"

text \<open>What one step of a sequence does to slot \<open>s\<close>, of which it held \<open>h\<close> references before and
  \<open>h'\<close> after.\<close>

definition slot_step :: "sequence_id \<Rightarrow> nat \<Rightarrow> nat \<Rightarrow> block_slot \<Rightarrow> block_slot \<Rightarrow> bool" where
  "slot_step sid h h' s s' \<longleftrightarrow>
     bs_generation s \<le> bs_generation s' \<and>
     (bs_owner s = None \<and> bs_owner s' \<noteq> None \<longrightarrow> bs_generation s < bs_generation s') \<and>
     (if 0 < bs_shared_references s
      then bs_shared_references s' + h = bs_shared_references s + h' \<and>
        (if 0 < bs_shared_references s' then s' = s\<lparr>bs_shared_references := bs_shared_references s'\<rparr>
         else bs_owner s' = None \<or> bs_owner s' = Some sid)
      else if bs_owner s = None \<or> bs_owner s = Some sid
      then bs_shared_references s' = 0 \<and> (bs_owner s' = None \<or> bs_owner s' = Some sid)
      else s' = s)"

definition kv_step :: "sequence_state \<times> kv_block_pool \<Rightarrow> sequence_state \<times> kv_block_pool \<Rightarrow> bool" where
  "kv_step w w' \<longleftrightarrow> (case (w, w') of ((q, p), (q', p')) \<Rightarrow>
     pool_inv p' \<and> seq_core p' q' \<and> pool_same p p' \<and>
     sq_sequence_id q' = sq_sequence_id q \<and> sq_pool_cookie q' = sq_pool_cookie q \<and>
     sq_maximum_logical_length q' = sq_maximum_logical_length q \<and>
     (\<forall>i<length (kp_slots p).
        slot_step (sq_sequence_id q) (hold q i) (hold q' i) (kp_slots p ! i) (kp_slots p' ! i)))"

definition kv_ok :: "sequence_state \<times> kv_block_pool \<Rightarrow> bool" where
  "kv_ok w \<longleftrightarrow> (case w of (q, p) \<Rightarrow> pool_inv p \<and> seq_core p q)"

subsection \<open>Basic facts\<close>

lemma length_phys: "seq_shape q \<Longrightarrow> length (phys q) = sq_allocated_block_count q"
  by (simp add: phys_def seq_shape_def)

lemma phys_split: "seq_shape q \<Longrightarrow> phys q = shared_phys q @ private_phys q"
  unfolding phys_def shared_phys_def private_phys_def seq_shape_def
  by (metis append_take_drop_id min.absorb1 take_take)

lemma set_phys: "seq_shape q \<Longrightarrow> set (phys q) = set (shared_phys q) \<union> set (private_phys q)"
  by (simp add: phys_split)

lemma nth_phys: "j < sq_allocated_block_count q \<Longrightarrow> phys q ! j = sq_physical_block_ids q ! j"
  by (simp add: phys_def)

lemma in_shared_phys:
  "seq_shape q \<Longrightarrow> i \<in> set (shared_phys q) \<longleftrightarrow>
     (\<exists>j<sq_shared_block_count q. sq_physical_block_ids q ! j = i)"
  by (auto simp: shared_phys_def in_set_conv_nth seq_shape_def intro: less_le_trans)

lemma in_private_phys:
  assumes "seq_shape q"
  shows "i \<in> set (private_phys q) \<longleftrightarrow>
     (\<exists>j. sq_shared_block_count q \<le> j \<and> j < sq_allocated_block_count q \<and> sq_physical_block_ids q ! j = i)"
proof
  assume "i \<in> set (private_phys q)"
  then obtain k where k: "k < length (private_phys q)" "private_phys q ! k = i"
    by (auto simp: in_set_conv_nth)
  then have "sq_shared_block_count q + k < sq_allocated_block_count q"
    using length_phys [OF assms] by (simp add: private_phys_def)
  moreover have "sq_physical_block_ids q ! (sq_shared_block_count q + k) = i"
    using k calculation length_phys [OF assms] nth_phys [of "sq_shared_block_count q + k" q]
    by (simp add: private_phys_def)
  ultimately show "\<exists>j. sq_shared_block_count q \<le> j \<and> j < sq_allocated_block_count q \<and> sq_physical_block_ids q ! j = i"
    by (metis le_add1)
next
  assume "\<exists>j. sq_shared_block_count q \<le> j \<and> j < sq_allocated_block_count q \<and> sq_physical_block_ids q ! j = i"
  then obtain j where j: "sq_shared_block_count q \<le> j" "j < sq_allocated_block_count q"
    "phys q ! j = i" using nth_phys by metis
  then have "private_phys q ! (j - sq_shared_block_count q) = i"
    and "j - sq_shared_block_count q < length (private_phys q)"
    using length_phys [OF assms] by (auto simp: private_phys_def)
  then show "i \<in> set (private_phys q)" by (metis nth_mem)
qed

lemma core_phys_inj:
  assumes "seq_core p q" and "j < sq_allocated_block_count q" and "k < sq_allocated_block_count q"
    and "sq_physical_block_ids q ! j = sq_physical_block_ids q ! k"
  shows "j = k"
  using assms length_phys [of q] nth_phys [of j q] nth_phys [of k q] unfolding seq_core_def
  by (metis nth_eq_iff_index_eq)

lemma core_phys_range:
  assumes "seq_core p q" and "j < sq_allocated_block_count q"
  shows "sq_physical_block_ids q ! j < length (kp_slots p)"
  using assms by (auto simp: seq_core_def block_ok_def)

text \<open>A private block's owner is this sequence and a shared block's is the reserved owner, so no
  block is both.\<close>

lemma core_shared_slot:
  assumes "seq_core p q" and "i \<in> set (shared_phys q)"
  shows "i < length (kp_slots p)" and "0 < bs_shared_references (kp_slots p ! i)"
proof -
  have sh: "seq_shape q" using assms(1) by (simp add: seq_core_def)
  from assms(2) obtain j where j: "j < sq_shared_block_count q" "sq_physical_block_ids q ! j = i"
    by (auto simp: in_shared_phys [OF sh])
  then have "j < sq_allocated_block_count q" using sh by (simp add: seq_shape_def)
  then have "block_ok p q j" using assms(1) by (simp add: seq_core_def)
  then show "i < length (kp_slots p)" "0 < bs_shared_references (kp_slots p ! i)"
    using j by (auto simp: block_ok_def)
qed

lemma core_private_slot:
  assumes "seq_core p q"
  shows "i \<in> set (private_phys q) \<longleftrightarrow>
    i < length (kp_slots p) \<and> bs_owner (kp_slots p ! i) = Some (sq_sequence_id q)"
proof
  have sh: "seq_shape q" using assms by (simp add: seq_core_def)
  assume "i \<in> set (private_phys q)"
  then obtain j where j: "sq_shared_block_count q \<le> j" "j < sq_allocated_block_count q"
    "sq_physical_block_ids q ! j = i" by (auto simp: in_private_phys [OF sh])
  then have "block_ok p q j" using assms by (simp add: seq_core_def)
  then show "i < length (kp_slots p) \<and> bs_owner (kp_slots p ! i) = Some (sq_sequence_id q)"
    using j by (auto simp: block_ok_def)
qed (use assms in \<open>simp add: seq_core_def\<close>)

lemma hold_le: "hold q i \<le> 1"
  by (simp add: hold_def)

lemma hold_slot: "seq_core p q \<Longrightarrow> hold q i \<noteq> 0 \<Longrightarrow> 0 < bs_shared_references (kp_slots p ! i)"
  using core_shared_slot [of p q i] by (simp add: hold_def split: if_splits)

lemma private_slot_refs:
  assumes "pool_inv p" and "i < length (kp_slots p)" and "bs_owner (kp_slots p ! i) = Some owner"
    and "sid_value owner \<noteq> SHARED_BLOCK_OWNER"
  shows "bs_shared_references (kp_slots p ! i) = 0"
  using pool_inv_slot [OF assms(1,2)] assms(3,4) by (simp add: slot_ok_def)

lemma shared_slot_owner:
  assumes "pool_inv p" and "i < length (kp_slots p)" and "0 < bs_shared_references (kp_slots p ! i)"
  shows "bs_owner (kp_slots p ! i) = Some (shared_owner (kp_cookie p))"
  using pool_inv_slot [OF assms(1,2)] assms(3) by (auto simp: slot_ok_def split: option.splits)

lemma not_shared_owner: "seq_ids p q \<Longrightarrow> shared_owner c \<noteq> sq_sequence_id q"
  by (metis seq_ids_def less_irrefl sequence_id.select_convs(2))

lemma slot_step_refl: "slot_step sid h h s s"
  by (simp add: slot_step_def)

lemma kv_step_refl: "kv_ok w \<Longrightarrow> kv_step w w"
  by (cases w) (simp add: kv_ok_def kv_step_def slot_step_refl)

lemma kv_step_ok: "kv_step w w' \<Longrightarrow> kv_ok w'"
  by (cases w, cases w') (simp add: kv_ok_def kv_step_def)

lemma slot_step_trans:
  assumes 1: "slot_step sid h h' s s'" and 2: "slot_step sid h' h'' s' s''"
    and h: "bs_shared_references s' = 0 \<Longrightarrow> h' = 0" "bs_shared_references s'' = 0 \<Longrightarrow> h'' = 0"
  shows "slot_step sid h h'' s s''"
proof -
  have gen: "bs_generation s \<le> bs_generation s''" using 1 2 by (auto simp: slot_step_def)
  have up: "bs_owner s = None \<and> bs_owner s'' \<noteq> None \<longrightarrow> bs_generation s < bs_generation s''"
    using 1 2 unfolding slot_step_def by (meson le_less_trans less_le_trans)
  show ?thesis
  proof (cases "0 < bs_shared_references s")
    case True
    then have r: "bs_shared_references s' + h = bs_shared_references s + h'"
      using 1 by (simp add: slot_step_def)
    show ?thesis
    proof (cases "0 < bs_shared_references s'")
      case s': True
      then have e1: "s' = s\<lparr>bs_shared_references := bs_shared_references s'\<rparr>"
        using 1 True by (simp add: slot_step_def)
      have "bs_shared_references s'' + h' = bs_shared_references s' + h''"
        using 2 s' by (simp add: slot_step_def)
      moreover have "s'' = s\<lparr>bs_shared_references := bs_shared_references s''\<rparr>" if "0 < bs_shared_references s''"
      proof -
        have "s'' = s'\<lparr>bs_shared_references := bs_shared_references s''\<rparr>"
          using 2 s' that by (simp add: slot_step_def)
        then show ?thesis by (subst (asm) e1) simp
      qed
      moreover have "bs_owner s'' = None \<or> bs_owner s'' = Some sid" if "bs_shared_references s'' = 0"
        using 2 s' that by (simp add: slot_step_def)
      ultimately show ?thesis using gen up True r by (auto simp: slot_step_def)
    next
      case s': False
      then have "bs_owner s' = None \<or> bs_owner s' = Some sid" using 1 True by (simp add: slot_step_def)
      then have "bs_shared_references s'' = 0" "bs_owner s'' = None \<or> bs_owner s'' = Some sid"
        using 2 s' by (auto simp: slot_step_def)
      then show ?thesis using gen up True r s' h by (simp add: slot_step_def)
    qed
  next
    case False
    then show ?thesis using 1 2 gen up by (auto simp: slot_step_def split: if_splits)
  qed
qed

lemma kv_step_trans:
  assumes "kv_step w w'" and "kv_step w' w''"
  shows "kv_step w w''"
proof -
  obtain q p q' p' q'' p'' where w: "w = (q, p)" "w' = (q', p')" "w'' = (q'', p'')"
    by (cases w, cases w', cases w'') auto
  have z: "hold q' i = 0" if "bs_shared_references (kp_slots p' ! i) = 0" for i
    using hold_slot [of p' q' i] assms w that by (auto simp: kv_step_def)
  have z': "hold q'' i = 0" if "bs_shared_references (kp_slots p'' ! i) = 0" for i
    using hold_slot [of p'' q'' i] assms w that by (auto simp: kv_step_def)
  have "slot_step (sq_sequence_id q) (hold q i) (hold q'' i) (kp_slots p ! i) (kp_slots p'' ! i)"
    if "i < length (kp_slots p)" for i
    by (rule slot_step_trans [where s' = "kp_slots p' ! i" and h' = "hold q' i"])
      (use assms w that z z' in \<open>auto simp: kv_step_def pool_same_def\<close>)
  then show ?thesis using assms w by (auto simp: kv_step_def pool_same_def)
qed

subsection \<open>Primitive steps\<close>

text \<open>Only slot \<open>i\<close> of the pool changes, and the table changes at most where it names \<open>i\<close>.\<close>

lemma kv_step_one_slot:
  assumes ok: "kv_ok (q, p)" and inv': "pool_inv p'" and same: "pool_same p p'"
    and i: "i < length (kp_slots p)" and slots: "kp_slots p' = (kp_slots p)[i := s']"
    and ids: "sq_sequence_id q' = sq_sequence_id q" "sq_pool_cookie q' = sq_pool_cookie q"
      "sq_maximum_logical_length q' = sq_maximum_logical_length q"
    and shape': "seq_shape q'" and dist: "distinct (phys q')"
    and others: "\<And>j. j < sq_allocated_block_count q' \<Longrightarrow> sq_physical_block_ids q' ! j \<noteq> i \<Longrightarrow>
      j < sq_allocated_block_count q \<and> sq_block_ids q' ! j = sq_block_ids q ! j \<and>
      sq_physical_block_ids q' ! j = sq_physical_block_ids q ! j \<and>
      (j < sq_shared_block_count q' \<longleftrightarrow> j < sq_shared_block_count q)"
    and at: "\<And>j. j < sq_allocated_block_count q' \<Longrightarrow> sq_physical_block_ids q' ! j = i \<Longrightarrow> block_ok p' q' j"
    and leak: "bs_owner s' = Some (sq_sequence_id q) \<Longrightarrow> i \<in> set (private_phys q')"
    and keep: "\<And>k. k \<noteq> i \<Longrightarrow> k \<in> set (private_phys q) \<Longrightarrow> k \<in> set (private_phys q')"
    and holds: "\<And>k. k \<noteq> i \<Longrightarrow> hold q' k = hold q k"
    and step: "slot_step (sq_sequence_id q) (hold q i) (hold q' i) (kp_slots p ! i) s'"
  shows "kv_step (q, p) (q', p')"
proof -
  have core: "seq_core p q" using ok by (simp add: kv_ok_def)
  have blocks: "block_ok p' q' j" if j: "j < sq_allocated_block_count q'" for j
  proof (cases "sq_physical_block_ids q' ! j = i")
    case True
    then show ?thesis using at j by blast
  next
    case False
    note o = others [OF j False]
    have "block_ok p q j" using core o by (simp add: seq_core_def)
    then show ?thesis using o False same slots ids by (auto simp: block_ok_def pool_same_def)
  qed
  have leaks: "k \<in> set (private_phys q')"
    if "k < length (kp_slots p')" "bs_owner (kp_slots p' ! k) = Some (sq_sequence_id q')" for k
  proof (cases "k = i")
    case True
    then show ?thesis using that leak slots i ids by simp
  next
    case False
    then show ?thesis using that slots core keep ids same by (auto simp: seq_core_def pool_same_def)
  qed
  have "seq_core p' q'"
    using core ids same shape' dist blocks leaks
    by (auto simp: seq_core_def seq_ids_def pool_same_def)
  moreover have "slot_step (sq_sequence_id q) (hold q k) (hold q' k) (kp_slots p ! k) (kp_slots p' ! k)"
    if "k < length (kp_slots p)" for k
    using that step holds slots i by (cases "k = i") (auto simp: slot_step_refl)
  ultimately show ?thesis using inv' same ids by (simp add: kv_step_def)
qed

text \<open>An assignment to the sequence that leaves the table itself alone.\<close>

lemma kv_step_pure:
  assumes ok: "kv_ok (q, p)"
    and eq: "sq_sequence_id q' = sq_sequence_id q" "sq_pool_cookie q' = sq_pool_cookie q"
      "sq_maximum_logical_length q' = sq_maximum_logical_length q"
      "sq_block_ids q' = sq_block_ids q" "sq_physical_block_ids q' = sq_physical_block_ids q"
      "sq_allocated_block_count q' = sq_allocated_block_count q"
      "sq_shared_block_count q' = sq_shared_block_count q"
    and valid: "length (sq_valid_tokens q') = length (sq_valid_tokens q)"
      "\<And>j. sq_allocated_block_count q \<le> j \<Longrightarrow> j < length (sq_valid_tokens q) \<Longrightarrow>
         sq_valid_tokens q' ! j = sq_valid_tokens q ! j"
  shows "kv_step (q, p) (q', p)"
proof -
  have ph: "phys q' = phys q" "shared_phys q' = shared_phys q" "private_phys q' = private_phys q"
    using eq by (simp_all add: phys_def shared_phys_def private_phys_def)
  have "block_ok p q' j = block_ok p q j" for j using eq by (simp add: block_ok_def)
  moreover have "seq_shape q'" using ok eq valid by (auto simp: kv_ok_def seq_core_def seq_shape_def)
  ultimately have "seq_core p q'" using ok eq ph
    by (simp add: kv_ok_def seq_core_def seq_ids_def)
  moreover have "hold q' = hold q" using ph by (auto simp: hold_def)
  ultimately show ?thesis using ok eq by (simp add: kv_ok_def kv_step_def slot_step_refl)
qed

text \<open>The table grows by a fresh private block.\<close>

definition append_block :: "block_id \<Rightarrow> sequence_state \<Rightarrow> sequence_state" where
  "append_block block q = (let index = sq_allocated_block_count q in q\<lparr>
     sq_block_ids := (sq_block_ids q)[index := Some block],
     sq_physical_block_ids := (sq_physical_block_ids q)[index := bid_physical_index block],
     sq_valid_tokens := (sq_valid_tokens q)[index := 0],
     sq_allocated_block_count := index + 1\<rparr>)"

lemma core_slot_owned:
  assumes "pool_inv p" and "seq_core p q" and "i \<in> set (phys q)"
  shows "bs_owner (kp_slots p ! i) \<noteq> None"
proof -
  have sh: "seq_shape q" using assms by (simp add: seq_core_def)
  from assms(3) consider "i \<in> set (shared_phys q)" | "i \<in> set (private_phys q)"
    using set_phys [OF sh] by auto
  then show ?thesis
  proof cases
    case 1
    then show ?thesis using core_shared_slot [OF assms(2) 1] shared_slot_owner [OF assms(1)] by simp
  next
    case 2
    then show ?thesis using core_private_slot [OF assms(2)] by simp
  qed
qed

lemma append_block_step:
  assumes ok: "kv_ok (q, p)" and room: "sq_allocated_block_count q < length (sq_block_ids q)"
    and blk: "bid_pool_cookie block = kp_cookie p" "i = bid_physical_index block"
      "bid_generation block = bs_generation (kp_slots p ! i) + 1"
    and i: "i < length (kp_slots p)" and free: "bs_owner (kp_slots p ! i) = None"
    and slots: "kp_slots p' = (kp_slots p)[i := (kp_slots p ! i)
      \<lparr>bs_generation := bid_generation block, bs_owner := Some (sq_sequence_id q)\<rparr>]"
    and inv': "pool_inv p'" and same: "pool_same p p'"
  shows "kv_step (q, p) (append_block block q, p')"
proof -
  let ?q = "append_block block q" and ?n = "sq_allocated_block_count q"
  have inv: "pool_inv p" and core: "seq_core p q" and sh: "seq_shape q"
    using ok by (auto simp: kv_ok_def seq_core_def)
  have new: "i \<notin> set (phys q)" using core_slot_owned [OF inv core] free by blast
  have len: "?n < length (sq_physical_block_ids q)" "?n < length (sq_valid_tokens q)"
    using room sh by (simp_all add: seq_shape_def)
  have ph: "phys ?q = phys q @ [i]"
    using len blk by (simp add: phys_def append_block_def Let_def take_Suc_conv_app_nth)
  have shp: "shared_phys ?q = shared_phys q"
    using sh by (simp add: shared_phys_def append_block_def Let_def seq_shape_def)
  have sc: "sq_shared_block_count ?q = sq_shared_block_count q" by (simp add: append_block_def Let_def)
  have "sq_shared_block_count q \<le> length (phys q)"
    using sh length_phys [OF sh] by (simp add: seq_shape_def)
  then have pr: "private_phys ?q = private_phys q @ [i]"
    unfolding private_phys_def ph sc by simp
  have zero: "bs_shared_references (kp_slots p ! i) = 0"
    using pool_inv_slot [OF inv i] free by (simp add: slot_ok_def)
  have hold0: "hold q i = 0" "hold ?q i = 0"
    using new set_phys [OF sh] shp by (auto simp: hold_def)
  show ?thesis
  proof (rule kv_step_one_slot [OF ok inv' same i slots])
    show "seq_shape ?q"
      using sh room by (auto simp: seq_shape_def append_block_def Let_def nth_list_update)
    show "distinct (phys ?q)" using ph new core by (simp add: seq_core_def)
    fix j
    assume j: "j < sq_allocated_block_count ?q"
    have old: "j = ?n \<or> j < ?n" using j by (auto simp: append_block_def Let_def)
    show "j < ?n \<and> sq_block_ids ?q ! j = sq_block_ids q ! j \<and>
        sq_physical_block_ids ?q ! j = sq_physical_block_ids q ! j \<and>
        (j < sq_shared_block_count ?q \<longleftrightarrow> j < sq_shared_block_count q)"
      if "sq_physical_block_ids ?q ! j \<noteq> i"
      using that old blk len by (auto simp: append_block_def Let_def nth_list_update)
    show "block_ok p' ?q j" if "sq_physical_block_ids ?q ! j = i"
    proof -
      have "j = ?n"
      proof (rule ccontr)
        assume "j \<noteq> ?n"
        then have "j < ?n" using old by simp
        then have "phys q ! j = i" using that blk by (simp add: nth_phys append_block_def Let_def)
        then show False using new \<open>j < ?n\<close> length_phys [OF sh] by (metis nth_mem)
      qed
      then show ?thesis using room len blk i slots same sh
        by (auto simp: block_ok_def append_block_def Let_def pool_same_def seq_shape_def)
    qed
  next
    show "slot_step (sq_sequence_id q) (hold q i) (hold ?q i) (kp_slots p ! i)
        ((kp_slots p ! i)\<lparr>bs_generation := bid_generation block, bs_owner := Some (sq_sequence_id q)\<rparr>)"
      using hold0 zero free blk by (simp add: slot_step_def)
  qed (use pr shp in \<open>auto simp: append_block_def Let_def hold_def\<close>)
qed

text \<open>The table loses its last block.\<close>

definition pop_block :: "sequence_state \<Rightarrow> sequence_state" where
  "pop_block q = (let index = sq_allocated_block_count q - 1 in q\<lparr>
     sq_shared_block_count := min (sq_shared_block_count q) index,
     sq_block_ids := (sq_block_ids q)[index := None],
     sq_physical_block_ids := (sq_physical_block_ids q)[index := EMPTY_PHYSICAL_BLOCK_ID],
     sq_valid_tokens := (sq_valid_tokens q)[index := 0],
     sq_allocated_block_count := index\<rparr>)"

lemma pop_block_phys:
  assumes sh: "seq_shape q" and pos: "0 < sq_allocated_block_count q"
  shows "phys (pop_block q) = butlast (phys q)" and "seq_shape (pop_block q)"
    and "shared_phys (pop_block q) =
      (if sq_shared_block_count q = sq_allocated_block_count q then butlast (shared_phys q) else shared_phys q)"
    and "private_phys (pop_block q) = butlast (private_phys q)"
proof -
  let ?n = "sq_allocated_block_count q - 1"
  have n: "Suc ?n = sq_allocated_block_count q" using pos by simp
  have len: "length (phys q) = sq_allocated_block_count q" by (rule length_phys [OF sh])
  show ph: "phys (pop_block q) = butlast (phys q)"
    using len by (simp add: phys_def pop_block_def Let_def butlast_take sh [unfolded seq_shape_def])
  have m: "min (sq_shared_block_count q) ?n =
      (if sq_shared_block_count q = sq_allocated_block_count q then ?n else sq_shared_block_count q)"
    using sh pos by (auto simp: seq_shape_def)
  show "seq_shape (pop_block q)"
    using sh n by (auto simp: seq_shape_def pop_block_def Let_def nth_list_update)
  show "shared_phys (pop_block q) =
      (if sq_shared_block_count q = sq_allocated_block_count q then butlast (shared_phys q) else shared_phys q)"
    using sh pos by (auto simp: shared_phys_def pop_block_def Let_def butlast_take seq_shape_def)
  show "private_phys (pop_block q) = butlast (private_phys q)"
  proof -
    have c: "sq_shared_block_count (pop_block q) = min (sq_shared_block_count q) ?n"
      by (simp add: pop_block_def Let_def)
    show ?thesis
    proof (cases "sq_shared_block_count q = sq_allocated_block_count q")
      case True
      then show ?thesis using len unfolding private_phys_def ph c m by simp
    next
      case False
      then show ?thesis unfolding private_phys_def ph c m by (simp add: drop_butlast)
    qed
  qed
qed

lemma pop_block_step:
  assumes ok: "kv_ok (q, p)" and pos: "0 < sq_allocated_block_count q"
    and i: "i = sq_physical_block_ids q ! (sq_allocated_block_count q - 1)"
    and slots: "kp_slots p' = (kp_slots p)[i := s']"
    and inv': "pool_inv p'" and same: "pool_same p p'" and owner: "bs_owner s' \<noteq> Some (sq_sequence_id q)"
    and step: "slot_step (sq_sequence_id q)
      (if sq_shared_block_count q = sq_allocated_block_count q then 1 else 0) 0 (kp_slots p ! i) s'"
  shows "kv_step (q, p) (pop_block q, p')"
proof -
  let ?q = "pop_block q" and ?n = "sq_allocated_block_count q - 1"
  have inv: "pool_inv p" and core: "seq_core p q" and sh: "seq_shape q"
    using ok by (auto simp: kv_ok_def seq_core_def)
  have len: "length (phys q) = sq_allocated_block_count q" by (rule length_phys [OF sh])
  then have ne: "phys q \<noteq> []" using pos by auto
  have n: "?n < sq_allocated_block_count q" using pos by simp
  have il: "i < length (kp_slots p)" using core_phys_range [OF core n] i by simp
  have last: "last (phys q) = i" using ne len n by (simp add: last_conv_nth nth_phys i)
  have dist: "distinct (phys q)" using core by (simp add: seq_core_def)
  have out: "i \<notin> set (butlast (phys q))"
    using dist ne last by (metis append_butlast_last_id distinct_append disjoint_insert(1) list.set(2))
  note ph = pop_block_phys [OF sh pos]
  have spl: "phys q = shared_phys q @ private_phys q" by (rule phys_split [OF sh])
  have all: "sq_shared_block_count q = sq_allocated_block_count q \<longleftrightarrow> private_phys q = []"
    using len sh by (auto simp: private_phys_def seq_shape_def)
  have h: "hold q i = (if sq_shared_block_count q = sq_allocated_block_count q then 1 else 0)" "hold ?q i = 0"
  proof -
    show "hold ?q i = 0"
      using out set_phys [OF ph(2)] by (auto simp: hold_def ph)
    show "hold q i = (if sq_shared_block_count q = sq_allocated_block_count q then 1 else 0)"
    proof (cases "private_phys q = []")
      case True
      then have "i \<in> set (shared_phys q)" using spl last ne by (metis append_Nil2 last_in_set)
      then show ?thesis using True all by (simp add: hold_def)
    next
      case False
      then have "i \<in> set (private_phys q)" using spl last by (metis last_appendR last_in_set)
      then have "i \<notin> set (shared_phys q)" using dist spl by auto
      then show ?thesis using False all by (simp add: hold_def)
    qed
  qed
  have sets: "k \<noteq> i \<Longrightarrow> k \<in> set (private_phys q) \<Longrightarrow> k \<in> set (private_phys ?q)"
    "k \<noteq> i \<Longrightarrow> k \<in> set (shared_phys q) \<longleftrightarrow> k \<in> set (shared_phys ?q)" for k
  proof -
    assume k: "k \<noteq> i"
    have rem: "k \<in> set (butlast xs)" if "k \<in> set xs" "last xs = i" for xs
      using that k by (cases xs rule: rev_cases) auto
    show "k \<in> set (private_phys ?q)" if "k \<in> set (private_phys q)"
    proof -
      have "last (private_phys q) = i" using that spl last by (metis empty_iff last_appendR list.set(1))
      then show ?thesis using rem [OF that] ph(4) by simp
    qed
    show "k \<in> set (shared_phys q) \<longleftrightarrow> k \<in> set (shared_phys ?q)"
    proof (cases "private_phys q = []")
      case True
      then have "last (shared_phys q) = i" using spl last by simp
      then show ?thesis using rem [of "shared_phys q"] ph(3) all True by (auto dest: in_set_butlastD)
    next
      case False
      then show ?thesis using ph(3) all by simp
    qed
  qed
  have neq: "sq_physical_block_ids ?q ! j \<noteq> i" if "j < sq_allocated_block_count ?q" for j
  proof -
    have "j < length (phys ?q)" using that length_phys [OF ph(2)] by simp
    then have "phys ?q ! j \<in> set (butlast (phys q))" using ph(1) by (metis nth_mem)
    then show ?thesis using out nth_phys [OF that] by auto
  qed
  show ?thesis
  proof (rule kv_step_one_slot [OF ok inv' same il slots])
    show "distinct (phys ?q)" using dist ph(1) by (simp add: distinct_butlast)
    show "slot_step (sq_sequence_id q) (hold q i) (hold ?q i) (kp_slots p ! i) s'" using step h by simp
    fix j
    assume j: "j < sq_allocated_block_count ?q"
    show "j < sq_allocated_block_count q \<and> sq_block_ids ?q ! j = sq_block_ids q ! j \<and>
        sq_physical_block_ids ?q ! j = sq_physical_block_ids q ! j \<and>
        (j < sq_shared_block_count ?q \<longleftrightarrow> j < sq_shared_block_count q)"
      using j by (auto simp: pop_block_def Let_def)
    show "block_ok p' ?q j" if "sq_physical_block_ids ?q ! j = i"
      using neq [OF j] that by simp
  qed (use ph(2) owner sets in \<open>auto simp: pop_block_def Let_def hold_def\<close>)
qed

subsection \<open>Releasing and reserving blocks\<close>

lemma wp_on_pool [wp_simps]:
  "wp (on_pool m) Q E (q, p) = wp m (\<lambda>x p'. Q x (q, p')) (\<lambda>e p'. E e (q, p')) p"
  by (simp add: on_pool_def wp_zoomM)

lemma wp_mod_seq [wp_simps]: "wp (mod_seq f) Q E (q, p) = Q () (f q, p)"
  by (simp add: mod_seq_def wp_modM)

lemma core_allocated_block:
  assumes "seq_core p q" and "j < sq_allocated_block_count q"
  obtains b where "allocated_block q j = Inr b" and "sq_block_ids q ! j = Some b"
    and "bid_physical_index b = sq_physical_block_ids q ! j"
    and "sq_shared_block_count q \<le> j \<Longrightarrow> validate_block p b (sq_sequence_id q) = Inr ()"
proof -
  from assms have ok: "block_ok p q j" and sh: "seq_shape q" and ids: "seq_ids p q"
    by (auto simp: seq_core_def)
  from ok obtain b where b: "sq_block_ids q ! j = Some b"
    "sq_physical_block_ids q ! j = bid_physical_index b" "bid_pool_cookie b = kp_cookie p"
    "bid_physical_index b < length (kp_slots p)"
    "bs_generation (kp_slots p ! bid_physical_index b) = bid_generation b"
    "if j < sq_shared_block_count q then 0 < bs_shared_references (kp_slots p ! bid_physical_index b)
     else bs_owner (kp_slots p ! bid_physical_index b) = Some (sq_sequence_id q)"
    by (auto simp: block_ok_def)
  have "allocated_block q j = Inr b"
    using assms(2) sh b by (simp add: allocated_block_def seq_shape_def)
  then show ?thesis using that b ids by (auto simp: validate_block_Inr seq_ids_def)
qed

text \<open>\<open>shared_references\<close> of a live shared handle also needs its slot to be in use, which the pool
  invariant gives.\<close>

lemma core_shared_references:
  assumes inv: "pool_inv p" and core: "seq_core p q" and j: "j < sq_shared_block_count q"
    and b: "sq_block_ids q ! j = Some b"
  shows "shared_references p b = Inr (bs_shared_references (kp_slots p ! bid_physical_index b))"
proof -
  have "j < sq_allocated_block_count q" using core j by (simp add: seq_core_def seq_shape_def)
  then have "block_ok p q j" using core by (simp add: seq_core_def)
  then have "bid_pool_cookie b = kp_cookie p" "bid_physical_index b < length (kp_slots p)"
    "bs_generation (kp_slots p ! bid_physical_index b) = bid_generation b"
    "0 < bs_shared_references (kp_slots p ! bid_physical_index b)"
    using b j by (auto simp: block_ok_def)
  then show ?thesis using shared_slot_owner [OF inv] by (simp add: shared_references_Inr)
qed

lemma wp_release_last:
  assumes ok: "kv_ok (q, p)" and pos: "0 < sq_allocated_block_count q"
  shows "wp release_last
    (\<lambda>_ (q', p'). kv_step (q, p) (q', p') \<and> q' = pop_block q \<and>
       (sq_shared_block_count q < sq_allocated_block_count q \<longrightarrow>
          kp_free_list p' = kp_free_list p @ [last (phys q)]))
    (\<lambda>_ _. False) (q, p)"
proof -
  let ?n = "sq_allocated_block_count q - 1"
  have inv: "pool_inv p" and core: "seq_core p q" and sh: "seq_shape q" and ids: "seq_ids p q"
    using ok by (auto simp: kv_ok_def seq_core_def)
  have n: "?n < sq_allocated_block_count q" using pos by simp
  obtain b where b: "allocated_block q ?n = Inr b" "sq_block_ids q ! ?n = Some b"
    "bid_physical_index b = sq_physical_block_ids q ! ?n"
    "sq_shared_block_count q \<le> ?n \<Longrightarrow> validate_block p b (sq_sequence_id q) = Inr ()"
    using core_allocated_block [OF core n] by metis
  let ?i = "bid_physical_index b"
  have i: "?i < length (kp_slots p)" using core_phys_range [OF core n] b by simp
  have last: "last (phys q) = ?i"
    using pos length_phys [OF sh] b n by (subst last_conv_nth) (auto simp: nth_phys)
  show ?thesis
  proof (cases "?n < sq_shared_block_count q")
    case True
    then have all: "sq_shared_block_count q = sq_allocated_block_count q"
      using sh pos unfolding seq_shape_def by linarith
    let ?s = "kp_slots p ! ?i"
    have refs: "shared_references p b = Inr (bs_shared_references ?s)"
      by (rule core_shared_references [OF inv core True b(2)])
    then have pos': "0 < bs_shared_references ?s" by (simp add: shared_references_Inr)
    have own: "bs_owner ?s = Some (shared_owner (kp_cookie p))"
      by (rule shared_slot_owner [OF inv i pos'])
    have pop: "pop_block q = q\<lparr>sq_shared_block_count := ?n,
        sq_block_ids := (sq_block_ids q)[?n := None],
        sq_physical_block_ids := (sq_physical_block_ids q)[?n := EMPTY_PHYSICAL_BLOCK_ID],
        sq_valid_tokens := (sq_valid_tokens q)[?n := 0], sq_allocated_block_count := ?n\<rparr>"
      using True by (simp add: pop_block_def Let_def)
    have "wp (release_shared_block b) (\<lambda>_ p'. kv_step (q, p) (pop_block q, p')) (\<lambda>_ _. False) p"
    proof (rule wp_weaken [OF wp_release_shared_block [OF inv]], goal_cases)
      case (1 x p')
      then obtain m where m: "m = bs_shared_references ?s" "pool_inv p'" "pool_same p p'"
        "kp_slots p' = (kp_slots p)[?i := (if m = 1 then freed ?s else ?s\<lparr>bs_shared_references := m - 1\<rparr>)]"
        using refs by auto
      show ?case
        by (rule pop_block_step [OF ok pos b(3) m(4,2,3)])
          (use own not_shared_owner [OF ids] all pos' m(1) in \<open>auto simp: slot_step_def freed_def\<close>)
    qed (use refs in auto)
    then show ?thesis using True b(1) all pop
      by (auto simp: release_last_def wp_simps Let_def intro: wp_weaken)
  next
    case False
    then have v: "validate_block p b (sq_sequence_id q) = Inr ()" using b(4) by simp
    then have own: "bs_owner (kp_slots p ! ?i) = Some (sq_sequence_id q)"
      by (simp add: validate_block_Inr)
    have sid: "sid_value (sq_sequence_id q) \<noteq> SHARED_BLOCK_OWNER" using ids by (simp add: seq_ids_def)
    have r0: "bs_shared_references (kp_slots p ! ?i) = 0" by (rule private_slot_refs [OF inv i own sid])
    have ne: "sq_shared_block_count q \<noteq> sq_allocated_block_count q" using False pos by simp
    have pop: "pop_block q = q\<lparr>sq_block_ids := (sq_block_ids q)[?n := None],
        sq_physical_block_ids := (sq_physical_block_ids q)[?n := EMPTY_PHYSICAL_BLOCK_ID],
        sq_valid_tokens := (sq_valid_tokens q)[?n := 0], sq_allocated_block_count := ?n\<rparr>"
      using False by (simp add: pop_block_def Let_def min_def)
    have "wp (release_block b (sq_sequence_id q))
        (\<lambda>_ p'. kv_step (q, p) (pop_block q, p') \<and> kp_free_list p' = kp_free_list p @ [last (phys q)])
        (\<lambda>_ _. False) p"
    proof (rule wp_weaken [OF wp_release_block [OF inv sid]], goal_cases)
      case (1 x p')
      then have m: "kp_slots p' = (kp_slots p)[?i := freed (kp_slots p ! ?i)]" "pool_inv p'" "pool_same p p'"
        "kp_free_list p' = kp_free_list p @ [last (phys q)]" using last by auto
      have "kv_step (q, p) (pop_block q, p')"
        by (rule pop_block_step [OF ok pos b(3) m(1-3)])
          (use own r0 ne in \<open>auto simp: slot_step_def freed_def\<close>)
      then show ?case using m(4) by simp
    qed (use v in auto)
    then show ?thesis using False b(1) pop
      by (auto simp: release_last_def wp_simps Let_def intro: wp_weaken)
  qed
qed

end
