(* ===== verification/Kv_Operations.thy ===== *)
theory Kv_Operations
  imports Kv_Ownership
begin

text \<open>
  The operations of \<open>SequenceState\<close> as steps of the ownership relation: what each leaves behind on
  success and on error, block for block. The length invariant \<open>seq_len\<close> ties the logical length,
  the reservation in progress and the valid-token counts to the table.
\<close>

subsection \<open>Validation of the blocks a sequence holds\<close>

lemma held_block_valid:
  assumes "kv_ok (q, p)" and "j < sq_allocated_block_count q"
  shows "validate_held_block q p j = Inr ()"
proof -
  have inv: "pool_inv p" and core: "seq_core p q" using assms(1) by (auto simp: kv_ok_def)
  obtain b where b: "allocated_block q j = Inr b" "sq_block_ids q ! j = Some b"
    "sq_shared_block_count q \<le> j \<Longrightarrow> validate_block p b (sq_sequence_id q) = Inr ()"
    using core_allocated_block [OF core assms(2)] by metis
  then show ?thesis using core_shared_references [OF inv core _ b(2)]
    by (simp add: validate_held_block_def)
qed

lemma held_blocks_valid:
  "kv_ok (q, p) \<Longrightarrow> forE [m..<sq_allocated_block_count q] (validate_held_block q p) = Inr ()"
  by (simp add: forE_Inr held_block_valid)

lemma private_block_valid:
  assumes "seq_core p q" and "sq_shared_block_count q \<le> j" and "j < sq_allocated_block_count q"
  shows "bindE (allocated_block q j) (\<lambda>block. validate_block p block (sq_sequence_id q)) = Inr ()"
  using core_allocated_block [OF assms(1,3)] assms(2) by auto

lemma private_blocks_valid:
  "seq_core p q \<Longrightarrow> sq_shared_block_count q \<le> m \<Longrightarrow>
     forE [m..<sq_allocated_block_count q]
       (\<lambda>j. bindE (allocated_block q j) (\<lambda>block. validate_block p block (sq_sequence_id q))) = Inr ()"
  unfolding forE_Inr using private_block_valid by fastforce

subsection \<open>The release loop\<close>

lemma pop_block_simps [simp]:
  "sq_allocated_block_count (pop_block q) = sq_allocated_block_count q - 1"
  "sq_shared_block_count (pop_block q) = min (sq_shared_block_count q) (sq_allocated_block_count q - 1)"
  "sq_logical_length (pop_block q) = sq_logical_length q"
  "sq_pending (pop_block q) = sq_pending q" "sq_poisoned (pop_block q) = sq_poisoned q"
  "sq_next_reservation_nonce (pop_block q) = sq_next_reservation_nonce q"
  "j < sq_allocated_block_count q - 1 \<Longrightarrow> sq_valid_tokens (pop_block q) ! j = sq_valid_tokens q ! j"
  by (simp_all add: pop_block_def Let_def)

lemma pop_blocks_fields:
  assumes "seq_shape q" and "n \<le> sq_allocated_block_count q"
  shows "seq_shape ((pop_block ^^ n) q) \<and> phys ((pop_block ^^ n) q) = take (sq_allocated_block_count q - n) (phys q) \<and>
    sq_allocated_block_count ((pop_block ^^ n) q) = sq_allocated_block_count q - n \<and>
    sq_shared_block_count ((pop_block ^^ n) q) = min (sq_shared_block_count q) (sq_allocated_block_count q - n) \<and>
    (\<forall>j<sq_allocated_block_count q - n. sq_valid_tokens ((pop_block ^^ n) q) ! j = sq_valid_tokens q ! j) \<and>
    sq_logical_length ((pop_block ^^ n) q) = sq_logical_length q \<and>
    sq_pending ((pop_block ^^ n) q) = sq_pending q \<and> sq_poisoned ((pop_block ^^ n) q) = sq_poisoned q \<and>
    sq_next_reservation_nonce ((pop_block ^^ n) q) = sq_next_reservation_nonce q"
  using assms(2)
proof (induction n)
  case 0
  then show ?case using assms(1) length_phys [OF assms(1)] by (simp add: seq_shape_def)
next
  case (Suc n)
  let ?q = "(pop_block ^^ n) q"
  have ih: "seq_shape ?q" "phys ?q = take (sq_allocated_block_count q - n) (phys q)"
    "sq_allocated_block_count ?q = sq_allocated_block_count q - n"
    using Suc by simp_all
  then have pos: "0 < sq_allocated_block_count ?q" using Suc.prems by simp
  have "phys (pop_block ?q) = take (sq_allocated_block_count q - Suc n) (phys q)"
    using pop_block_phys(1) [OF ih(1) pos] ih(2) length_phys [OF assms(1)] Suc.prems
    by (simp add: butlast_take)
  moreover have "seq_shape (pop_block ?q)" by (rule pop_block_phys(2) [OF ih(1) pos])
  ultimately show ?case using Suc by simp
qed

lemma wp_release_loop:
  assumes "kv_ok (q, p)" and "n \<le> sq_allocated_block_count q"
  shows "wp (release_loop n)
    (\<lambda>_ (q', p'). kv_step (q, p) (q', p') \<and> q' = (pop_block ^^ n) q \<and>
       (sq_shared_block_count q + n \<le> sq_allocated_block_count q \<longrightarrow>
          kp_free_list p' = kp_free_list p @ rev (drop (sq_allocated_block_count q - n) (phys q))))
    (\<lambda>_ _. False) (q, p)"
  using assms
proof (induction n arbitrary: q p)
  case 0
  then show ?case
    by (auto simp: wp_simps kv_step_refl kv_ok_def seq_core_def length_phys)
next
  case (Suc n)
  let ?a = "sq_allocated_block_count q"
  have pos: "0 < ?a" using Suc.prems by simp
  have sh: "seq_shape q" using Suc.prems by (simp add: kv_ok_def seq_core_def)
  have fields: "phys (pop_block q) = butlast (phys q)" "sq_allocated_block_count (pop_block q) = ?a - 1"
    "sq_shared_block_count (pop_block q) = min (sq_shared_block_count q) (?a - 1)"
    using pop_block_phys(1) [OF sh pos] by (simp_all add: pop_block_def Let_def)
  have len: "length (phys q) = ?a" by (rule length_phys [OF sh])
  have cat: "rev (drop (?a - Suc n) (phys q)) = last (phys q) # rev (drop (?a - Suc n) (butlast (phys q)))"
  proof -
    have "phys q = butlast (phys q) @ [last (phys q)]" using len pos by (metis append_butlast_last_id list.size(3) less_irrefl)
    then have "drop (?a - Suc n) (phys q) = drop (?a - Suc n) (butlast (phys q)) @ [last (phys q)]"
      using len by (metis drop_append diff_le_mono2 diff_is_0_eq drop_0 length_butlast le_add1 plus_1_eq_Suc)
    then show ?thesis by simp
  qed
  have step: "wp (release_loop n)
      (\<lambda>_ (q2, p2). kv_step (q, p) (q2, p2) \<and> q2 = (pop_block ^^ Suc n) q \<and>
         (sq_shared_block_count q + Suc n \<le> ?a \<longrightarrow>
            kp_free_list p2 = kp_free_list p @ rev (drop (?a - Suc n) (phys q))))
      (\<lambda>_ _. False) (pop_block q, p1)"
    if 1: "kv_step (q, p) (pop_block q, p1)"
      and f1: "sq_shared_block_count q < ?a \<longrightarrow> kp_free_list p1 = kp_free_list p @ [last (phys q)]" for p1
  proof -
    have "kv_ok (pop_block q, p1)" using kv_step_ok [OF 1] .
    moreover have "n \<le> sq_allocated_block_count (pop_block q)" using fields Suc.prems by simp
    ultimately show ?thesis
    proof (rule wp_weaken [OF Suc.IH], goal_cases)
      case (1 x t)
      obtain q2 p2 where t: "t = (q2, p2)" by (cases t)
      have fr: "kp_free_list p2 = kp_free_list p @ rev (drop (?a - Suc n) (phys q))"
        if "sq_shared_block_count q + Suc n \<le> ?a"
        using 1 t that fields f1 cat by auto
      have "kv_step (q, p) (q2, p2)" by (rule kv_step_trans [OF that(1)]) (use 1 t in auto)
      then show ?case using 1 t fr by (simp add: funpow_Suc_right del: funpow.simps)
    qed simp
  qed
  show ?case unfolding release_loop.simps wp_bindM
    by (rule wp_weaken [OF wp_release_last [OF Suc.prems(1) pos]]) (use step in auto)
qed

lemma wp_release_tail:
  assumes "kv_ok (q, p)"
  shows "wp (release_tail k)
    (\<lambda>_ (q', p'). kv_step (q, p) (q', p') \<and> q' = (pop_block ^^ (sq_allocated_block_count q - k)) q \<and>
       (sq_shared_block_count q \<le> k \<and> k \<le> sq_allocated_block_count q \<longrightarrow>
          kp_free_list p' = kp_free_list p @ rev (drop k (phys q))))
    (\<lambda>_ _. False) (q, p)"
proof -
  let ?n = "sq_allocated_block_count q - k"
  show ?thesis unfolding release_tail_def wp_withM prod.case
    by (rule wp_weaken [OF wp_release_loop [OF assms, of ?n]]) auto
qed

lemma wp_rollback_new_blocks:
  assumes ok: "kv_ok (q, p)" and k: "sq_shared_block_count q \<le> k" "k \<le> sq_allocated_block_count q"
  shows "wp (rollback_new_blocks k)
    (\<lambda>_ (q', p'). kv_step (q, p) (q', p') \<and> q' = (pop_block ^^ (sq_allocated_block_count q - k)) q \<and>
       kp_free_list p' = kp_free_list p @ rev (drop k (phys q)))
    (\<lambda>_ _. False) (q, p)"
proof -
  have "seq_core p q" using ok by (simp add: kv_ok_def)
  then have v: "forE [k..<sq_allocated_block_count q]
      (\<lambda>j. bindE (allocated_block q j) (\<lambda>block. validate_block p block (sq_sequence_id q))) = Inr ()"
    by (rule private_blocks_valid [OF _ k(1)])
  show ?thesis unfolding rollback_new_blocks_def wp_withM prod.case wp_bindM wp_tryM v
    using wp_weaken [OF wp_release_tail [OF ok, of k]] k by (auto intro!: wp_weaken [OF wp_release_tail [OF ok, of k]])
qed

subsection \<open>The reservation loop\<close>

lemma append_block_simps [simp]:
  "sq_allocated_block_count (append_block b q) = sq_allocated_block_count q + 1"
  "sq_shared_block_count (append_block b q) = sq_shared_block_count q"
  "sq_logical_length (append_block b q) = sq_logical_length q"
  "sq_pending (append_block b q) = sq_pending q" "sq_poisoned (append_block b q) = sq_poisoned q"
  "sq_next_reservation_nonce (append_block b q) = sq_next_reservation_nonce q"
  "sq_sequence_id (append_block b q) = sq_sequence_id q"
  "sq_pool_cookie (append_block b q) = sq_pool_cookie q"
  "sq_maximum_logical_length (append_block b q) = sq_maximum_logical_length q"
  "length (sq_block_ids (append_block b q)) = length (sq_block_ids q)"
  "length (sq_valid_tokens (append_block b q)) = length (sq_valid_tokens q)"
  "length (sq_physical_block_ids (append_block b q)) = length (sq_physical_block_ids q)"
  "j \<noteq> sq_allocated_block_count q \<Longrightarrow> sq_valid_tokens (append_block b q) ! j = sq_valid_tokens q ! j"
  by (simp_all add: append_block_def Let_def)

lemma list_update_id2: "xs ! i = y \<Longrightarrow> xs[i := y] = xs"
  by auto

lemma pop_append_block:
  assumes "seq_shape q" and "sq_allocated_block_count q < length (sq_block_ids q)"
  shows "pop_block (append_block b q) = q"
proof -
  let ?n = "sq_allocated_block_count q"
  have "sq_block_ids q ! ?n = None" "sq_physical_block_ids q ! ?n = EMPTY_PHYSICAL_BLOCK_ID"
    "sq_valid_tokens q ! ?n = 0" "sq_shared_block_count q \<le> ?n"
    using assms by (auto simp: seq_shape_def)
  then show ?thesis
    by (simp add: pop_block_def append_block_def Let_def list_update_id2 min_absorb1)
qed

lemma append_block_shape:
  assumes "seq_shape q" and "sq_allocated_block_count q < length (sq_block_ids q)"
  shows "seq_shape (append_block b q)" and "phys (append_block b q) = phys q @ [bid_physical_index b]"
  using assms by (auto simp: seq_shape_def append_block_def Let_def nth_list_update phys_def
      take_Suc_conv_app_nth)

definition append_blocks :: "block_id list \<Rightarrow> sequence_state \<Rightarrow> sequence_state" where
  "append_blocks bs q = fold append_block bs q"

lemma append_blocks_snoc [simp]:
  "append_blocks [] q = q" "append_blocks (bs @ [b]) q = append_block b (append_blocks bs q)"
  by (simp_all add: append_blocks_def)

lemma append_blocks_simps [simp]:
  "sq_allocated_block_count (append_blocks bs q) = sq_allocated_block_count q + length bs"
  "sq_shared_block_count (append_blocks bs q) = sq_shared_block_count q"
  "sq_logical_length (append_blocks bs q) = sq_logical_length q"
  "sq_pending (append_blocks bs q) = sq_pending q" "sq_poisoned (append_blocks bs q) = sq_poisoned q"
  "sq_next_reservation_nonce (append_blocks bs q) = sq_next_reservation_nonce q"
  "sq_sequence_id (append_blocks bs q) = sq_sequence_id q"
  "sq_pool_cookie (append_blocks bs q) = sq_pool_cookie q"
  "sq_maximum_logical_length (append_blocks bs q) = sq_maximum_logical_length q"
  "length (sq_block_ids (append_blocks bs q)) = length (sq_block_ids q)"
  "length (sq_valid_tokens (append_blocks bs q)) = length (sq_valid_tokens q)"
  "length (sq_physical_block_ids (append_blocks bs q)) = length (sq_physical_block_ids q)"
  by (induction bs rule: rev_induct) simp_all

lemma append_blocks_shape:
  assumes "seq_shape q" and "sq_allocated_block_count q + length bs \<le> length (sq_block_ids q)"
  shows "seq_shape (append_blocks bs q) \<and> phys (append_blocks bs q) = phys q @ map bid_physical_index bs \<and>
    (pop_block ^^ length bs) (append_blocks bs q) = q"
  using assms(2)
proof (induction bs rule: rev_induct)
  case Nil
  then show ?case using assms(1) by simp
next
  case (snoc b bs)
  let ?q = "append_blocks bs q"
  have ih: "seq_shape ?q" "phys ?q = phys q @ map bid_physical_index bs" "(pop_block ^^ length bs) ?q = q"
    using snoc by auto
  have room: "sq_allocated_block_count ?q < length (sq_block_ids ?q)" using snoc.prems by simp
  show ?case using append_block_shape [OF ih(1) room] pop_append_block [OF ih(1) room] ih
    by (simp add: funpow_Suc_right del: funpow.simps)
qed

lemma wp_reserve_loop:
  assumes ok0: "kv_ok (q0, p0)" and step: "kv_step (q0, p0) (append_blocks bs q0, p)"
    and free: "kp_free_list p0 = kp_free_list p @ rev (map bid_physical_index bs)"
    and room: "sq_allocated_block_count q0 + length bs + n \<le> length (sq_block_ids q0)"
  shows "wp (reserve_loop env (sq_allocated_block_count q0) n)
    (\<lambda>_ (q', p'). \<exists>bs'. length bs' = length bs + n \<and> q' = append_blocks bs' q0 \<and>
       kv_step (q0, p0) (q', p') \<and> kp_free_list p0 = kp_free_list p' @ rev (map bid_physical_index bs'))
    (\<lambda>_ (q', p'). q' = q0 \<and> kp_free_list p' = kp_free_list p0 \<and> kv_step (q0, p0) (q', p'))
    (append_blocks bs q0, p)"
  using step free room
proof (induction n arbitrary: bs p)
  case 0
  then show ?case by (auto simp: wp_simps)
next
  case (Suc n)
  let ?q = "append_blocks bs q0" and ?k = "sq_allocated_block_count q0"
  have ok: "kv_ok (?q, p)" by (rule kv_step_ok [OF Suc.prems(1)])
  then have inv: "pool_inv p" and ids: "seq_ids p ?q" by (auto simp: kv_ok_def seq_core_def)
  have sh0: "seq_shape q0" using ok0 by (simp add: kv_ok_def seq_core_def)
  have len: "?k + length bs \<le> length (sq_block_ids q0)" using Suc.prems(3) by simp
  note shape = append_blocks_shape [OF sh0 len]
  have sid: "sid_value (sq_sequence_id ?q) \<noteq> SHARED_BLOCK_OWNER"
    "sid_pool_cookie (sq_sequence_id ?q) = kp_cookie p"
    "sid_value (sq_sequence_id ?q) < kp_next_sequence_id p"
    using ids by (auto simp: seq_ids_def)
  have fail: "wp (rollback_new_blocks ?k)
      (\<lambda>_ (q', p'). q' = q0 \<and> kp_free_list p' = kp_free_list p0 \<and> kv_step (q0, p0) (q', p'))
      (\<lambda>_ (q', p'). q' = q0 \<and> kp_free_list p' = kp_free_list p0 \<and> kv_step (q0, p0) (q', p')) (?q, p)"
  proof (rule wp_weaken [OF wp_rollback_new_blocks [OF ok, of ?k]], goal_cases)
    case (3 x t)
    obtain q' p' where t: "t = (q', p')" by (cases t)
    have "length (phys q0) = ?k" by (rule length_phys [OF sh0])
    then have "kp_free_list p' = kp_free_list p0" "q' = q0" using 3 t shape Suc.prems(2) by auto
    moreover have "kv_step (q0, p0) (q', p')" by (rule kv_step_trans [OF Suc.prems(1)]) (use 3 t in auto)
    ultimately show ?case using t by simp
  qed (use sh0 in \<open>auto simp: seq_shape_def\<close>)
  have go: "wp (reserve_loop env ?k n)
      (\<lambda>_ (q', p'). \<exists>bs'. length bs' = length bs + Suc n \<and> q' = append_blocks bs' q0 \<and>
         kv_step (q0, p0) (q', p') \<and> kp_free_list p0 = kp_free_list p' @ rev (map bid_physical_index bs'))
      (\<lambda>_ (q', p'). q' = q0 \<and> kp_free_list p' = kp_free_list p0 \<and> kv_step (q0, p0) (q', p'))
      (append_block b ?q, p1)"
    if b: "bid_pool_cookie b = kp_cookie p" "bid_physical_index b < length (kp_slots p)"
      "kp_free_list p = kp_free_list p1 @ [bid_physical_index b]"
      "bs_owner (kp_slots p ! bid_physical_index b) = None"
      "bid_generation b = bs_generation (kp_slots p ! bid_physical_index b) + 1"
      "kp_slots p1 = (kp_slots p)[bid_physical_index b := (kp_slots p ! bid_physical_index b)
         \<lparr>bs_generation := bid_generation b, bs_owner := Some (sq_sequence_id ?q)\<rparr>]"
      "pool_inv p1" "pool_same p p1" for b p1
  proof -
    have "kv_step (?q, p) (append_block b ?q, p1)"
      by (rule append_block_step [OF ok _ b(1) refl b(5,2,4,6,7,8)]) (use Suc.prems(3) in simp)
    then have "kv_step (q0, p0) (append_blocks (bs @ [b]) q0, p1)"
      using kv_step_trans [OF Suc.prems(1)] by simp
    then show ?thesis using Suc.IH [of "bs @ [b]" p1] Suc.prems b(3) by simp
  qed
  have app: "(let index = sq_allocated_block_count q in q\<lparr>
             sq_block_ids := (sq_block_ids q)[index := Some block],
             sq_physical_block_ids := (sq_physical_block_ids q)[index := bid_physical_index block],
             sq_valid_tokens := (sq_valid_tokens q)[index := 0],
             sq_allocated_block_count := index + 1\<rparr>) = append_block block q" for q block
    by (simp add: append_block_def)
  show ?case
    unfolding reserve_loop.simps wp_withM prod.case wp_catchM wp_on_pool
  proof (rule wp_weaken [OF wp_allocate_block [OF inv sid]], goal_cases)
    case (1 b p1)
    then show ?case unfolding sum.case wp_bindM wp_mod_seq app
      by (intro go) (simp_all add: Let_def)
  next
    case (2 e t)
    then show ?case unfolding sum.case wp_bindM wp_throwM using fail by simp
  qed
qed

subsection \<open>The length invariant\<close>

definition token_counts :: "nat \<Rightarrow> sequence_state \<Rightarrow> bool" where
  "token_counts len q \<longleftrightarrow>
     (\<forall>j<sq_allocated_block_count q. sq_valid_tokens q ! j = min (len - j * KV_BLOCK_SIZE) KV_BLOCK_SIZE)"

definition seq_len :: "sequence_state \<Rightarrow> bool" where
  "seq_len q \<longleftrightarrow>
     sq_logical_length q \<le> sq_maximum_logical_length q \<and>
     sq_shared_block_count q * KV_BLOCK_SIZE \<le> sq_logical_length q \<and>
     (case sq_pending q of
        None \<Rightarrow> sq_allocated_block_count q = blocks_for_length (sq_logical_length q) \<and>
          token_counts (sq_logical_length q) q
      | Some r \<Rightarrow> pr_previous_block_count r = blocks_for_length (sq_logical_length q) \<and>
          sq_logical_length q \<le> pr_target_logical_length r \<and>
          pr_target_logical_length r \<le> sq_maximum_logical_length q \<and>
          sq_allocated_block_count q = blocks_for_length (pr_target_logical_length r) \<and>
          token_counts (pr_target_logical_length r) q)"

lemma blocks_for_length_mono: "m \<le> n \<Longrightarrow> blocks_for_length m \<le> blocks_for_length n"
  by (simp add: blocks_for_length_def div_ceil_mono)

lemma blocks_for_length_shared: "s * KV_BLOCK_SIZE \<le> n \<Longrightarrow> s \<le> blocks_for_length n"
  using blocks_for_length_mono [of "s * KV_BLOCK_SIZE" n] by (simp add: blocks_for_length_def)

lemma fill_simps [simp]:
  "sq_allocated_block_count (fill_valid_tokens l n q) = sq_allocated_block_count q"
  "sq_shared_block_count (fill_valid_tokens l n q) = sq_shared_block_count q"
  "sq_logical_length (fill_valid_tokens l n q) = sq_logical_length q"
  "sq_pending (fill_valid_tokens l n q) = sq_pending q"
  "sq_poisoned (fill_valid_tokens l n q) = sq_poisoned q"
  "sq_next_reservation_nonce (fill_valid_tokens l n q) = sq_next_reservation_nonce q"
  "sq_sequence_id (fill_valid_tokens l n q) = sq_sequence_id q"
  "sq_pool_cookie (fill_valid_tokens l n q) = sq_pool_cookie q"
  "sq_maximum_logical_length (fill_valid_tokens l n q) = sq_maximum_logical_length q"
  "sq_block_ids (fill_valid_tokens l n q) = sq_block_ids q"
  "sq_physical_block_ids (fill_valid_tokens l n q) = sq_physical_block_ids q"
  "length (sq_valid_tokens (fill_valid_tokens l n q)) = length (sq_valid_tokens q)"
  by (simp_all add: fill_valid_tokens_def)

lemma nth_fill:
  "j < length (sq_valid_tokens q) \<Longrightarrow> sq_valid_tokens (fill_valid_tokens l n q) ! j =
     (if j < n then min (l - j * KV_BLOCK_SIZE) KV_BLOCK_SIZE
      else if j < sq_allocated_block_count q then 0 else sq_valid_tokens q ! j)"
  by (simp add: fill_valid_tokens_def)

lemma fill_step:
  assumes "kv_ok (q, p)" and "n \<le> sq_allocated_block_count q"
  shows "kv_step (q, p) (fill_valid_tokens l n q, p)"
  by (rule kv_step_pure [OF assms(1)]) (use assms(2) in \<open>auto simp: nth_fill\<close>)

lemma fill_counts:
  assumes "seq_shape q" and "sq_allocated_block_count q = blocks_for_length l"
  shows "token_counts l (fill_valid_tokens l (blocks_for_length l) q)"
  using assms by (auto simp: token_counts_def nth_fill seq_shape_def)

text \<open>Refilling counts that are already right changes nothing.\<close>

lemma fill_id:
  assumes "token_counts l q" and "sq_allocated_block_count q = blocks_for_length l"
  shows "fill_valid_tokens l (blocks_for_length l) q = q"
proof -
  have "map (\<lambda>j. if j < blocks_for_length l then min (l - j * KV_BLOCK_SIZE) KV_BLOCK_SIZE
       else if j < sq_allocated_block_count q then 0 else sq_valid_tokens q ! j)
      [0..<length (sq_valid_tokens q)] = sq_valid_tokens q"
    using assms by (intro nth_equalityI) (auto simp: token_counts_def)
  then show ?thesis by (simp add: fill_valid_tokens_def)
qed

lemma seq_shape_cong:
  "sq_maximum_logical_length q' = sq_maximum_logical_length q \<Longrightarrow> sq_block_ids q' = sq_block_ids q \<Longrightarrow>
   sq_physical_block_ids q' = sq_physical_block_ids q \<Longrightarrow>
   sq_allocated_block_count q' = sq_allocated_block_count q \<Longrightarrow>
   sq_shared_block_count q' = sq_shared_block_count q \<Longrightarrow> sq_valid_tokens q' = sq_valid_tokens q \<Longrightarrow>
   seq_shape q' = seq_shape q"
  by (simp add: seq_shape_def)

subsection \<open>Reserve, commit, roll back\<close>

text \<open>The state a successful reservation leaves, from the blocks it obtained.\<close>

definition reserved_state :: "nat \<Rightarrow> block_id list \<Rightarrow> sequence_state \<Rightarrow> sequence_state" where
  "reserved_state target bs q =
     (fill_valid_tokens target (blocks_for_length target) (append_blocks bs q))\<lparr>
       sq_pending := Some \<lparr>pr_nonce = sq_next_reservation_nonce q,
         pr_previous_block_count = sq_allocated_block_count q, pr_target_logical_length = target\<rparr>,
       sq_next_reservation_nonce := sq_next_reservation_nonce q + 1\<rparr>"

definition reservation_for :: "nat \<Rightarrow> sequence_state \<Rightarrow> sequence_reservation" where
  "reservation_for target q =
     \<lparr>sr_pool_cookie = sq_pool_cookie q, sr_sequence_id = sq_sequence_id q,
      sr_nonce = sq_next_reservation_nonce q, sr_previous_block_count = sq_allocated_block_count q,
      sr_target_logical_length = target\<rparr>"

lemma reserved_state_step:
  assumes step: "kv_step (q, p) (append_blocks bs q, p')" and len: "seq_len q" and idle: "sq_pending q = None"
    and n: "length bs = blocks_for_length target - sq_allocated_block_count q"
    and target: "sq_logical_length q \<le> target" "target \<le> sq_maximum_logical_length q"
  shows "kv_step (q, p) (reserved_state target bs q, p')" and "seq_len (reserved_state target bs q)"
proof -
  let ?a = "append_blocks bs q" and ?n = "blocks_for_length target"
  let ?f = "fill_valid_tokens target ?n ?a"
  have ok: "kv_ok (?a, p')" by (rule kv_step_ok [OF step])
  then have sh: "seq_shape ?a" by (simp add: kv_ok_def seq_core_def)
  have cnt: "sq_allocated_block_count q = blocks_for_length (sq_logical_length q)"
    using len idle by (simp add: seq_len_def)
  then have an: "sq_allocated_block_count ?a = ?n"
    using n blocks_for_length_mono [OF target(1)] by simp
  have "kv_step (?a, p') (?f, p')" by (rule fill_step [OF ok]) (use an in simp)
  moreover have "kv_step (?f, p') (reserved_state target bs q, p')"
    by (rule kv_step_pure [OF kv_step_ok [OF calculation]]) (simp_all add: reserved_state_def)
  ultimately show "kv_step (q, p) (reserved_state target bs q, p')"
    using kv_step_trans [OF step] kv_step_trans by blast
  have "token_counts target ?f" using fill_counts [OF sh an] an by simp
  then show "seq_len (reserved_state target bs q)"
    using len idle target an cnt by (simp add: seq_len_def reserved_state_def token_counts_def)
qed

lemma wp_reserve_to:
  assumes ok: "kv_ok (q, p)" and len: "seq_len q"
  shows "wp (reserve_to env target)
    (\<lambda>r (q', p'). sq_pending q = None \<and> \<not> sq_poisoned q \<and> sq_logical_length q \<le> target \<and>
       target \<le> sq_maximum_logical_length q \<and> r = reservation_for target q \<and>
       (\<exists>bs. length bs = blocks_for_length target - sq_allocated_block_count q \<and>
          q' = reserved_state target bs q \<and> kv_step (q, p) (append_blocks bs q, p') \<and>
          kp_free_list p = kp_free_list p' @ rev (map bid_physical_index bs)))
    (\<lambda>e (q', p'). q' = q \<and> kp_free_list p' = kp_free_list p \<and> kv_step (q, p) (q', p')) (q, p)"
proof -
  let ?n = "blocks_for_length target - sq_allocated_block_count q"
  have here: "kv_step (q, p) (q, p)" by (rule kv_step_refl [OF ok])
  have sh: "seq_shape q" using ok by (simp add: kv_ok_def seq_core_def)
  have loop: "wp (reserve_loop env (sq_allocated_block_count q) ?n)
    (\<lambda>_ (q', p'). \<exists>bs. length bs = ?n \<and> q' = append_blocks bs q \<and> kv_step (q, p) (q', p') \<and>
       kp_free_list p = kp_free_list p' @ rev (map bid_physical_index bs))
    (\<lambda>_ (q', p'). q' = q \<and> kp_free_list p' = kp_free_list p \<and> kv_step (q, p) (q', p')) (q, p)"
    if "target \<le> sq_maximum_logical_length q"
  proof -
    have "sq_allocated_block_count q + ?n \<le> length (sq_block_ids q)"
      using blocks_for_length_mono [OF that] sh by (auto simp: seq_shape_def)
    then show ?thesis using wp_reserve_loop [OF ok, of "[]" p ?n env] here by simp
  qed
  show ?thesis
    unfolding reserve_to_def wp_withM prod.case Let_def
  proof (intro wp_guards, goal_cases)
    case g: (9 _ target' _ nonce')
    show ?case
    proof (rule wp_callI [OF loop], goal_cases)
      case (3 x t)
      then show ?case using g
        by (auto simp: wp_simps ensure_mutable_def reserved_state_def reservation_for_def)
    qed (use g in auto)
  qed (use here in auto)
qed

lemma block_ok_cong:
  assumes "block_ok p q j" and "pool_same p p'"
    and "\<And>i. i < length (kp_slots p) \<Longrightarrow> bs_generation (kp_slots p' ! i) = bs_generation (kp_slots p ! i) \<and>
      bs_owner (kp_slots p' ! i) = bs_owner (kp_slots p ! i) \<and>
      bs_shared_references (kp_slots p' ! i) = bs_shared_references (kp_slots p ! i)"
  shows "block_ok p' q j"
  using assms by (auto simp: block_ok_def pool_same_def)

lemma wp_clear_private:
  assumes ok: "kv_ok (q, p)" and j: "sq_shared_block_count q \<le> j" "j < sq_allocated_block_count q"
  shows "wp (bindM (tryM (allocated_block q j)) (\<lambda>block. on_pool (clear_sidecar block (sq_sequence_id q))))
    (\<lambda>_ (q', p'). q' = q \<and> kv_step (q, p) (q', p') \<and> kp_free_list p' = kp_free_list p)
    (\<lambda>_ _. False) (q, p)"
proof -
  have inv: "pool_inv p" and core: "seq_core p q" and sh: "seq_shape q" and ids: "seq_ids p q"
    using ok by (auto simp: kv_ok_def seq_core_def)
  obtain b where b: "allocated_block q j = Inr b" "bid_physical_index b = sq_physical_block_ids q ! j"
    "validate_block p b (sq_sequence_id q) = Inr ()"
    using core_allocated_block [OF core j(2)] j(1) by metis
  let ?i = "bid_physical_index b"
  have i: "?i < length (kp_slots p)" and own: "bs_owner (kp_slots p ! ?i) = Some (sq_sequence_id q)"
    using b(3) by (auto simp: validate_block_Inr)
  have r0: "bs_shared_references (kp_slots p ! ?i) = 0"
    by (rule private_slot_refs [OF inv i own]) (use ids in \<open>simp add: seq_ids_def\<close>)
  show ?thesis unfolding wp_bindM wp_tryM b(1) sum.case wp_on_pool
  proof (rule wp_weaken [OF wp_clear_sidecar [OF inv]], goal_cases)
    case (1 x p')
    have "kv_step (q, p) (q, p')"
    proof (rule kv_step_one_slot [OF ok _ _ i])
      show "kp_slots p' = (kp_slots p)[?i := (kp_slots p ! ?i)\<lparr>bs_sidecar := None\<rparr>]" using 1 by simp
      show "block_ok p' q k" if "k < sq_allocated_block_count q" for k
        by (rule block_ok_cong [of p]) (use core 1 i that in \<open>auto simp: seq_core_def nth_list_update\<close>)
    qed (use 1 sh core own r0 core_private_slot [OF core] i in
        \<open>auto simp: seq_core_def slot_step_def\<close>)
    then show ?case using 1 by simp
  qed (use b in auto)
qed

lemma wp_clear_range:
  assumes ok: "kv_ok (q, p)" and m: "sq_shared_block_count q \<le> m"
  shows "wp (forM [m..<sq_allocated_block_count q] (\<lambda>j. bindM (tryM (allocated_block q j))
      (\<lambda>block. on_pool (clear_sidecar block (sq_sequence_id q)))))
    (\<lambda>_ (q', p'). q' = q \<and> kv_step (q, p) (q', p') \<and> kp_free_list p' = kp_free_list p)
    (\<lambda>_ _. False) (q, p)"
proof (rule wp_forM, goal_cases)
  case 1
  show ?case using kv_step_refl [OF ok] by simp
next
  case (2 j t)
  obtain p1 where t: "t = (q, p1)" "kv_step (q, p) (q, p1)" "kp_free_list p1 = kp_free_list p"
    using 2(2) by (cases t) auto
  have "kv_ok (q, p1)" by (rule kv_step_ok [OF t(2)])
  then show ?case unfolding t(1)
    by (rule wp_weaken [OF wp_clear_private]) (use 2(1) m t kv_step_trans [OF t(2)] in auto)
qed

definition committed_state :: "nat \<Rightarrow> sequence_state \<Rightarrow> sequence_state" where
  "committed_state target q = q\<lparr>sq_pending := None, sq_logical_length := target\<rparr>"

lemma validate_reservation_Inr:
  "validate_reservation q r = Inr u \<longleftrightarrow>
     sr_pool_cookie r = sq_pool_cookie q \<and> sr_sequence_id r = sq_sequence_id q \<and>
     sq_pending q = Some \<lparr>pr_nonce = sr_nonce r, pr_previous_block_count = sr_previous_block_count r,
       pr_target_logical_length = sr_target_logical_length r\<rparr>"
  by (auto simp: validate_reservation_def split: option.splits)

lemma ok_ensure_pool: "kv_ok (q, p) \<Longrightarrow> ensure_pool q p = Inr ()"
  by (simp add: kv_ok_def seq_core_def seq_ids_def ensure_pool_def)

lemma wp_seq_commit:
  assumes ok: "kv_ok (q, p)" and len: "seq_len q"
  shows "wp (seq_commit r)
    (\<lambda>c (q', p'). validate_reservation q r = Inr () \<and> kv_step (q, p) (q', p') \<and>
       q' = committed_state (sr_target_logical_length r) q \<and> kp_free_list p' = kp_free_list p \<and>
       c = \<lparr>rc_previous_logical_length = sq_logical_length q,
            rc_logical_length = sr_target_logical_length r,
            rc_allocated_block_count = sq_allocated_block_count q\<rparr>)
    (\<lambda>e w. w = (q, p) \<and> validate_reservation q r = Inl e) (q, p)"
proof -
  let ?m = "if sq_logical_length q < sr_target_logical_length r
    then sq_logical_length q div KV_BLOCK_SIZE else sq_allocated_block_count q"
  have core: "seq_core p q" and sh: "seq_shape q" using ok by (auto simp: kv_ok_def seq_core_def)
  have "sq_shared_block_count q \<le> sq_logical_length q div KV_BLOCK_SIZE"
    using len by (simp add: seq_len_def less_eq_div_iff_mult_less_eq)
  then have m: "sq_shared_block_count q \<le> ?m" using sh by (simp add: seq_shape_def)
  note valid = private_blocks_valid [OF core m]
  show ?thesis unfolding seq_commit_def wp_withM prod.case Let_def
  proof (intro wp_guards, goal_cases)
    case g: 4
    show ?case
    proof (rule wp_callI [OF wp_clear_range [OF ok m]], goal_cases)
      case (2 x t)
      obtain p1 where t: "t = (q, p1)" "kv_step (q, p) (q, p1)" "kp_free_list p1 = kp_free_list p"
        using 2 by (cases t) auto
      have "kv_step (q, p1) (committed_state (sr_target_logical_length r) q, p1)"
        by (rule kv_step_pure [OF kv_step_ok [OF t(2)]]) (simp_all add: committed_state_def)
      then show ?case using g t kv_step_trans [OF t(2)]
        by (simp add: wp_simps committed_state_def)
    qed simp
  qed (use ok_ensure_pool [OF ok] valid in auto)
qed

lemma committed_state_len:
  "seq_len q \<Longrightarrow> validate_reservation q r = Inr () \<Longrightarrow>
     seq_len (committed_state (sr_target_logical_length r) q)"
  by (auto simp: validate_reservation_Inr seq_len_def committed_state_def token_counts_def)

text \<open>What rolling back the reservation in progress leaves.\<close>

definition rolled_back :: "nat \<Rightarrow> sequence_state \<Rightarrow> sequence_state" where
  "rolled_back previous q =
     (fill_valid_tokens (sq_logical_length q) (blocks_for_length (sq_logical_length q))
       ((pop_block ^^ (sq_allocated_block_count q - previous)) q))\<lparr>sq_pending := None\<rparr>"

lemma wp_rollback_pending:
  assumes ok: "kv_ok (q, p)" and len: "seq_len q" and pend: "sq_pending q = Some pr"
  shows "wp rollback_pending
    (\<lambda>_ (q', p'). kv_step (q, p) (q', p') \<and> q' = rolled_back (pr_previous_block_count pr) q \<and>
       seq_len q' \<and> kp_free_list p' = kp_free_list p @ rev (drop (pr_previous_block_count pr) (phys q)))
    (\<lambda>_ _. False) (q, p)"
proof -
  let ?k = "pr_previous_block_count pr"
  have sh: "seq_shape q" using ok by (simp add: kv_ok_def seq_core_def)
  have k: "?k = blocks_for_length (sq_logical_length q)" "?k \<le> sq_allocated_block_count q"
    using len pend blocks_for_length_mono by (auto simp: seq_len_def)
  then have s: "sq_shared_block_count q \<le> ?k"
    using len blocks_for_length_shared by (simp add: seq_len_def)
  note fields = pop_blocks_fields [OF sh, of "sq_allocated_block_count q - ?k"]
  show ?thesis unfolding rollback_pending_def wp_withM prod.case pend
    apply (intro wp_guards)
     apply simp
    apply (rule wp_callI [OF wp_rollback_new_blocks [OF ok]])
    using s k apply (auto)[3]
  proof goal_cases
    case (1 pr' x t)
    let ?q = "(pop_block ^^ (sq_allocated_block_count q - ?k)) q"
    obtain p1 where t: "t = (?q, p1)" "kv_step (q, p) (?q, p1)"
      "kp_free_list p1 = kp_free_list p @ rev (drop ?k (phys q))"
      using 1 by (cases t) auto
    let ?f = "fill_valid_tokens (sq_logical_length q) ?k ?q"
    have a: "sq_allocated_block_count ?q = ?k" using fields k by simp
    have f: "kv_step (?q, p1) (?f, p1)" by (rule fill_step [OF kv_step_ok [OF t(2)]]) (simp add: a)
    have "kv_step (?f, p1) (?f\<lparr>sq_pending := None\<rparr>, p1)"
      by (rule kv_step_pure [OF kv_step_ok [OF f]]) simp_all
    then have step: "kv_step (q, p) (?f\<lparr>sq_pending := None\<rparr>, p1)"
      using kv_step_trans [OF t(2)] kv_step_trans [OF f] by blast
    have "token_counts (sq_logical_length q) ?f"
      using fill_counts [of ?q "sq_logical_length q"] a k fields by simp
    then have "seq_len (?f\<lparr>sq_pending := None\<rparr>)"
      using len a k fields step by (auto simp: seq_len_def token_counts_def kv_step_def)
    then show ?case using t step k 1 fields by (simp add: wp_simps rolled_back_def)
  qed
qed

lemma wp_seq_rollback:
  assumes ok: "kv_ok (q, p)" and len: "seq_len q"
  shows "wp (seq_rollback r)
    (\<lambda>_ (q', p'). validate_reservation q r = Inr () \<and> kv_step (q, p) (q', p') \<and> seq_len q' \<and>
       q' = rolled_back (sr_previous_block_count r) q \<and>
       kp_free_list p' = kp_free_list p @ rev (drop (sr_previous_block_count r) (phys q)))
    (\<lambda>e w. w = (q, p) \<and> validate_reservation q r = Inl e) (q, p)"
  unfolding seq_rollback_def wp_withM prod.case
proof (intro wp_guards, goal_cases)
  case g: 3
  then have pend: "sq_pending q = Some \<lparr>pr_nonce = sr_nonce r,
      pr_previous_block_count = sr_previous_block_count r,
      pr_target_logical_length = sr_target_logical_length r\<rparr>"
    by (simp add: validate_reservation_Inr)
  show ?case by (rule wp_weaken [OF wp_rollback_pending [OF ok len pend]]) (use g in auto)
qed (use ok_ensure_pool [OF ok] in auto)

lemma poison_step:
  assumes "kv_ok (q, p)" and "seq_len q"
  shows "kv_step (q, p) (q\<lparr>sq_poisoned := True\<rparr>, p)" and "seq_len (q\<lparr>sq_poisoned := True\<rparr>)"
proof -
  show "kv_step (q, p) (q\<lparr>sq_poisoned := True\<rparr>, p)" by (rule kv_step_pure [OF assms(1)]) simp_all
  show "seq_len (q\<lparr>sq_poisoned := True\<rparr>)"
    using assms(2) by (simp add: seq_len_def token_counts_def split: option.splits)
qed

lemma phys_poisoned [simp]: "phys (q\<lparr>sq_poisoned := b\<rparr>) = phys q"
  by (simp add: phys_def)

lemma wp_poisoned_rollback:
  assumes ok: "kv_ok (q, p)" and len: "seq_len q" and pend: "sq_pending q = Some pr"
  shows "wp (bindM (mod_seq (\<lambda>q. q\<lparr>sq_poisoned := True\<rparr>)) (\<lambda>_. rollback_pending))
    (\<lambda>_ (q', p'). kv_step (q, p) (q', p') \<and> seq_len q' \<and> sq_pending q' = None \<and> sq_poisoned q' \<and>
       sq_logical_length q' = sq_logical_length q \<and>
       kp_free_list p' = kp_free_list p @ rev (drop (pr_previous_block_count pr) (phys q)))
    (\<lambda>_ _. False) (q, p)"
proof -
  let ?q = "q\<lparr>sq_poisoned := True\<rparr>"
  note st = poison_step [OF ok len]
  have pend': "sq_pending ?q = Some pr" using pend by simp
  have k: "sq_allocated_block_count ?q - pr_previous_block_count pr \<le> sq_allocated_block_count ?q" by simp
  have sh: "seq_shape ?q" using kv_step_ok [OF st(1)] by (simp add: kv_ok_def seq_core_def)
  show ?thesis unfolding wp_bindM wp_mod_seq
    by (rule wp_weaken [OF wp_rollback_pending [OF kv_step_ok [OF st(1)] st(2) pend']])
      (use kv_step_trans [OF st(1)] pop_blocks_fields [OF sh k] in \<open>auto simp: rolled_back_def\<close>)
qed

lemma wp_seq_poison:
  assumes ok: "kv_ok (q, p)" and len: "seq_len q"
  shows "wp (seq_poison r)
    (\<lambda>_ (q', p'). validate_reservation q r = Inr () \<and> kv_step (q, p) (q', p') \<and> seq_len q' \<and>
       sq_pending q' = None \<and> sq_poisoned q' \<and> sq_logical_length q' = sq_logical_length q \<and>
       kp_free_list p' = kp_free_list p @ rev (drop (sr_previous_block_count r) (phys q)))
    (\<lambda>e w. w = (q, p) \<and> validate_reservation q r = Inl e) (q, p)"
  unfolding seq_poison_def wp_withM prod.case
proof (intro wp_guards, goal_cases)
  case g: 3
  then have pend: "sq_pending q = Some \<lparr>pr_nonce = sr_nonce r,
      pr_previous_block_count = sr_previous_block_count r,
      pr_target_logical_length = sr_target_logical_length r\<rparr>"
    by (simp add: validate_reservation_Inr)
  let ?q = "q\<lparr>sq_poisoned := True\<rparr>"
  note st = poison_step [OF ok len]
  have ok': "kv_ok (?q, p)" by (rule kv_step_ok [OF st(1)])
  have al: "allocated_block ?q = allocated_block q" by (simp add: allocated_block_def fun_eq_iff)
  have clear: "wp (forM [sq_shared_block_count q..<sq_allocated_block_count q] (\<lambda>j.
      bindM (tryM (allocated_block q j)) (\<lambda>block. on_pool (clear_sidecar block (sq_sequence_id q)))))
    (\<lambda>_ (q', p'). q' = ?q \<and> kv_step (?q, p) (q', p') \<and> kp_free_list p' = kp_free_list p)
    (\<lambda>_ _. False) (?q, p)"
    using wp_clear_range [OF ok', of "sq_shared_block_count ?q"] al by simp
  have roll: "wp rollback_pending
    (\<lambda>_ (q', p'). kv_step (q, p) (q', p') \<and> seq_len q' \<and> sq_pending q' = None \<and> sq_poisoned q' \<and>
       sq_logical_length q' = sq_logical_length q \<and>
       kp_free_list p' = kp_free_list p @ rev (drop (sr_previous_block_count r) (phys q)))
    (\<lambda>_ _. False) (?q, p1)"
    if p1: "kv_step (?q, p) (?q, p1)" "kp_free_list p1 = kp_free_list p" for p1
  proof -
    have "kv_ok (?q, p1)" by (rule kv_step_ok [OF p1(1)])
    then have "wp (bindM (mod_seq (\<lambda>q. q\<lparr>sq_poisoned := True\<rparr>)) (\<lambda>_. rollback_pending))
      (\<lambda>_ (q', p'). kv_step (?q, p1) (q', p') \<and> seq_len q' \<and> sq_pending q' = None \<and> sq_poisoned q' \<and>
         sq_logical_length q' = sq_logical_length q \<and>
         kp_free_list p' = kp_free_list p @ rev (drop (sr_previous_block_count r) (phys q)))
      (\<lambda>_ _. False) (?q, p1)"
      by (rule wp_weaken [OF wp_poisoned_rollback [OF _ st(2)]]) (use pend p1 in auto)
    then have r: "wp rollback_pending
      (\<lambda>_ (q', p'). kv_step (?q, p1) (q', p') \<and> seq_len q' \<and> sq_pending q' = None \<and> sq_poisoned q' \<and>
         sq_logical_length q' = sq_logical_length q \<and>
         kp_free_list p' = kp_free_list p @ rev (drop (sr_previous_block_count r) (phys q)))
      (\<lambda>_ _. False) (?q, p1)"
      by (simp add: wp_simps)
    have q1: "kv_step (q, p) (?q, p1)" by (rule kv_step_trans [OF st(1) p1(1)])
    show ?thesis by (rule wp_weaken [OF r]) (auto intro: kv_step_trans [OF q1])
  qed
  have valid: "forE [0..<sq_allocated_block_count q] (validate_held_block q p) = Inr ()"
    by (rule held_blocks_valid [OF ok])
  show ?case unfolding wp_bindM wp_mod_seq wp_tryM valid sum.case
  proof (rule wp_weaken [OF clear], goal_cases)
    case (1 x t)
    then obtain p1 where t: "t = (?q, p1)" "kv_step (?q, p) (?q, p1)" "kp_free_list p1 = kp_free_list p"
      by (cases t) auto
    show ?case unfolding t(1) by (rule wp_weaken [OF roll [OF t(2,3)]]) (use g in auto)
  qed simp
qed (use ok_ensure_pool [OF ok] in auto)

lemma wp_rollback_abandoned:
  assumes ok: "kv_ok (q, p)" and len: "seq_len q"
  shows "wp rollback_abandoned_reservation
    (\<lambda>_ (q', p'). sq_pending q \<noteq> None \<and> kv_step (q, p) (q', p') \<and> seq_len q' \<and>
       sq_pending q' = None \<and> sq_poisoned q' \<and> sq_logical_length q' = sq_logical_length q)
    (\<lambda>e w. w = (q, p) \<and> sq_pending q = None \<and> e = NoReservationInProgress) (q, p)"
  unfolding rollback_abandoned_reservation_def wp_withM prod.case
proof (intro wp_guards, goal_cases)
  case 3
  then obtain pr where pend: "sq_pending q = Some pr" by blast
  show ?case by (rule wp_weaken [OF wp_poisoned_rollback [OF ok len pend]]) (use pend in auto)
qed (use ok_ensure_pool [OF ok] in auto)

subsection \<open>Truncate, reset and close\<close>

text \<open>Releasing down to a retained count, then assigning the length and refilling the counts.\<close>

lemma truncated_state:
  assumes step: "kv_step (q, p) ((pop_block ^^ (sq_allocated_block_count q - n)) q, p1)"
    and sh: "seq_shape q" and idle: "sq_pending q = None" and len: "seq_len q"
    and target: "target \<le> sq_logical_length q" "sq_shared_block_count q * KV_BLOCK_SIZE \<le> target"
    and n: "n = blocks_for_length target"
  defines "q' \<equiv> fill_valid_tokens target n
    (((pop_block ^^ (sq_allocated_block_count q - n)) q)\<lparr>sq_logical_length := target\<rparr>)"
  shows "kv_step (q, p) (q', p1)" and "seq_len q'" and "sq_logical_length q' = target"
    and "sq_pending q' = None" and "phys q' = take n (phys q)" and "sq_poisoned q' = sq_poisoned q"
proof -
  let ?q = "(pop_block ^^ (sq_allocated_block_count q - n)) q"
  have a: "sq_allocated_block_count q = blocks_for_length (sq_logical_length q)"
    using len idle by (simp add: seq_len_def)
  have na: "n \<le> sq_allocated_block_count q" using a n blocks_for_length_mono [OF target(1)] by simp
  have sn: "sq_shared_block_count q \<le> n" using n blocks_for_length_shared [OF target(2)] by simp
  note fields = pop_blocks_fields [OF sh, of "sq_allocated_block_count q - n", simplified]
  have qa: "sq_allocated_block_count ?q = n" "phys ?q = take n (phys q)"
    "sq_shared_block_count ?q = sq_shared_block_count q"
    using fields na sn by simp_all
  have l: "kv_step (?q, p1) (?q\<lparr>sq_logical_length := target\<rparr>, p1)"
    by (rule kv_step_pure [OF kv_step_ok [OF step]]) simp_all
  have f: "kv_step (?q\<lparr>sq_logical_length := target\<rparr>, p1) (q', p1)"
    unfolding q'_def by (rule fill_step [OF kv_step_ok [OF l]]) (simp add: qa)
  show "kv_step (q, p) (q', p1)" by (rule kv_step_trans [OF step kv_step_trans [OF l f]])
  have sh': "seq_shape (?q\<lparr>sq_logical_length := target\<rparr>)"
    using kv_step_ok [OF l] by (simp add: kv_ok_def seq_core_def)
  have "token_counts target q'" unfolding q'_def n
    by (rule fill_counts [OF sh' [unfolded n]]) (simp add: qa(1) [unfolded n])
  moreover have "sq_maximum_logical_length q' = sq_maximum_logical_length q"
    using \<open>kv_step (q, p) (q', p1)\<close> by (simp add: kv_step_def)
  ultimately show "seq_len q'"
    using len idle fields target qa n by (simp add: q'_def seq_len_def)
  show "phys q' = take n (phys q)" using qa by (simp add: q'_def phys_def)
qed (use idle pop_blocks_fields [OF sh, of "sq_allocated_block_count q - n"] in \<open>simp_all add: q'_def\<close>)

lemma wp_truncate_to:
  assumes ok: "kv_ok (q, p)" and len: "seq_len q"
  shows "wp (truncate_to target)
    (\<lambda>_ (q', p'). kv_step (q, p) (q', p') \<and> seq_len q' \<and> sq_logical_length q' = target \<and>
       sq_pending q = None \<and> sq_pending q' = None \<and> target \<le> sq_logical_length q \<and>
       phys q' = take (blocks_for_length target) (phys q) \<and> sq_poisoned q' = sq_poisoned q \<and>
       kp_free_list p' = kp_free_list p @ rev (drop (blocks_for_length target) (phys q)))
    (\<lambda>e w. w = (q, p)) (q, p)"
  unfolding truncate_to_def wp_withM prod.case Let_def
proof (intro wp_guards, goal_cases)
  case g: 7
  let ?n = "blocks_for_length target"
  have idle: "sq_pending q = None" and t: "target \<le> sq_logical_length q"
    "sq_shared_block_count q * KV_BLOCK_SIZE \<le> target" using g by auto
  have sh: "seq_shape q" using ok by (simp add: kv_ok_def seq_core_def)
  have a: "sq_allocated_block_count q = blocks_for_length (sq_logical_length q)"
    and max: "sq_logical_length q \<le> u32_max"
    using len idle sh by (auto simp: seq_len_def seq_shape_def)
  have na: "?n \<le> sq_allocated_block_count q" using a blocks_for_length_mono [OF t(1)] by simp
  have sn: "sq_shared_block_count q \<le> ?n" by (rule blocks_for_length_shared [OF t(2)])
  have clear: "wp (if sq_shared_block_count q < ?n \<and> target \<noteq> sq_logical_length q
            then bindM (tryM (allocated_block q (?n - 1))) (\<lambda>tail.
                 on_pool (clear_sidecar tail (sq_sequence_id q)))
            else ret ())
      (\<lambda>_ (q', p'). q' = q \<and> kv_step (q, p) (q', p') \<and> kp_free_list p' = kp_free_list p)
      (\<lambda>_ _. False) (q, p)"
  proof (cases "sq_shared_block_count q < ?n \<and> target \<noteq> sq_logical_length q")
    case True
    then have "sq_shared_block_count q \<le> ?n - 1" "?n - 1 < sq_allocated_block_count q" using na by auto
    then show ?thesis using wp_clear_private [OF ok] True by simp
  next
    case False
    then show ?thesis using kv_step_refl [OF ok] by (auto simp: wp_simps)
  qed
  show ?case
  proof (rule wp_callI [OF clear], goal_cases)
    case (2 x w)
    then obtain p1 where w: "w = (q, p1)" and s1: "kv_step (q, p) (q, p1)" "kp_free_list p1 = kp_free_list p"
      by (cases w) auto
    show ?case unfolding w
    proof (rule wp_callI [OF wp_release_tail [OF kv_step_ok [OF s1(1)], of ?n]], goal_cases)
      case (2 y v)
      obtain q2 p2 where v: "v = (q2, p2)" by (cases v)
      have s2: "kv_step (q, p) ((pop_block ^^ (sq_allocated_block_count q - ?n)) q, p2)"
        by (rule kv_step_trans [OF s1(1)]) (use 2 v in auto)
      show ?case using truncated_state [OF s2 sh idle len t refl] 2 v s1 sn na idle t max
        by (simp add: wp_simps u32_try_from_def)
    qed simp
  qed simp
qed (use held_blocks_valid [OF ok] in auto)

lemma reset_state:
  assumes ok: "kv_ok (q, p)"
  shows "wp (bindM (tryM (forE [0..<sq_allocated_block_count q] (validate_held_block q p))) (\<lambda>_.
     bindM (release_tail 0) (\<lambda>_.
     mod_seq (\<lambda>q. q\<lparr>sq_logical_length := 0, sq_pending := None, sq_poisoned := False\<rparr>))))
    (\<lambda>_ (q', p'). kv_step (q, p) (q', p') \<and> seq_len q' \<and> sq_logical_length q' = 0 \<and>
       sq_allocated_block_count q' = 0 \<and> sq_pending q' = None \<and> \<not> sq_poisoned q')
    (\<lambda>_ _. False) (q, p)"
proof -
  have sh: "seq_shape q" using ok by (simp add: kv_ok_def seq_core_def)
  let ?q = "(pop_block ^^ (sq_allocated_block_count q)) q"
  let ?r = "?q\<lparr>sq_logical_length := 0, sq_pending := None, sq_poisoned := False\<rparr>"
  note fields = pop_blocks_fields [OF sh, of "sq_allocated_block_count q"]
  have len: "seq_len ?r" using fields by (simp add: seq_len_def token_counts_def blocks_for_length_def)
  have "kv_step (q, p) (?r, p1)" if "kv_step (q, p) (?q, p1)" for p1
  proof (rule kv_step_trans [OF that])
    show "kv_step (?q, p1) (?r, p1)" by (rule kv_step_pure [OF kv_step_ok [OF that]]) simp_all
  qed
  then show ?thesis unfolding wp_bindM wp_tryM held_blocks_valid [OF ok] sum.case
    by (intro wp_weaken [OF wp_release_tail [OF ok, of 0]]) (use len fields in \<open>auto simp: wp_simps\<close>)
qed

lemma wp_seq_reset:
  assumes ok: "kv_ok (q, p)" and len: "seq_len q"
  shows "wp seq_reset
    (\<lambda>_ (q', p'). kv_step (q, p) (q', p') \<and> seq_len q' \<and> sq_logical_length q' = 0 \<and>
       sq_allocated_block_count q' = 0 \<and> sq_pending q' = None \<and> \<not> sq_poisoned q')
    (\<lambda>_ _. False) (q, p)"
  unfolding seq_reset_def wp_withM prod.case
proof (intro wp_guards, goal_cases)
  case 2
  have roll: "wp (if sq_pending q \<noteq> None then rollback_pending else ret ())
      (\<lambda>_ (q', p'). kv_step (q, p) (q', p')) (\<lambda>_ _. False) (q, p)"
  proof (cases "sq_pending q")
    case None
    then show ?thesis using kv_step_refl [OF ok] by (simp add: wp_simps)
  next
    case (Some pr)
    then show ?thesis using wp_rollback_pending [OF ok len Some] by (auto elim!: wp_weaken)
  qed
  show ?case
  proof (rule wp_callI [OF roll], goal_cases)
    case (2 x w)
    then obtain q1 p1 where w: "w = (q1, p1)" and s: "kv_step (q, p) (q1, p1)" by (cases w) auto
    show ?case unfolding w wp_withM prod.case
      by (rule wp_weaken [OF reset_state [OF kv_step_ok [OF s]]]) (auto intro: kv_step_trans [OF s])
  qed simp
qed (use ok_ensure_pool [OF ok] in auto)

end
