(* ===== verification/Kv_System.thy ===== *)
theory Kv_System
  imports Kv_Operations
begin

text \<open>
  Many sequences over one pool. The system state is the pool, the live sequences and the shared
  blocks somebody outside the sequences holds (the prefix cache). Its invariant says that every
  block has exactly the holders the pool believes it has: a private block belongs to one live
  sequence, a shared block's count is the number of tables and outside holders that list it.
\<close>

definition ext_count :: "block_id list \<Rightarrow> nat \<Rightarrow> nat" where
  "ext_count ext i = length (filter (\<lambda>b. bid_physical_index b = i) ext)"

definition ext_ok :: "kv_block_pool \<Rightarrow> block_id list \<Rightarrow> bool" where
  "ext_ok p ext \<longleftrightarrow> (\<forall>b\<in>set ext. bid_pool_cookie b = kp_cookie p \<and>
     bid_physical_index b < length (kp_slots p) \<and>
     bs_generation (kp_slots p ! bid_physical_index b) = bid_generation b)"

definition total_hold :: "sequence_state list \<Rightarrow> nat \<Rightarrow> nat" where
  "total_hold qs i = sum_list (map (\<lambda>q. hold q i) qs)"

definition refs_exact :: "kv_block_pool \<Rightarrow> sequence_state list \<Rightarrow> block_id list \<Rightarrow> bool" where
  "refs_exact p qs ext \<longleftrightarrow> (\<forall>i<length (kp_slots p).
     bs_shared_references (kp_slots p ! i) = total_hold qs i + ext_count ext i)"

definition owners_live :: "kv_block_pool \<Rightarrow> sequence_state list \<Rightarrow> bool" where
  "owners_live p qs \<longleftrightarrow> (\<forall>i<length (kp_slots p). \<forall>sid. bs_owner (kp_slots p ! i) = Some sid \<longrightarrow>
     sid_value sid \<noteq> SHARED_BLOCK_OWNER \<longrightarrow> (\<exists>q\<in>set qs. sq_sequence_id q = sid))"

definition kv_inv :: "kv_block_pool \<Rightarrow> sequence_state list \<Rightarrow> block_id list \<Rightarrow> bool" where
  "kv_inv p qs ext \<longleftrightarrow>
     pool_inv p \<and> (\<forall>q\<in>set qs. seq_core p q \<and> seq_len q) \<and> distinct (map sq_sequence_id qs) \<and>
     ext_ok p ext \<and> refs_exact p qs ext \<and> owners_live p qs"

lemma ext_count_simps [simp]:
  "ext_count [] i = 0"
  "ext_count (b # ext) i = (if bid_physical_index b = i then 1 else 0) + ext_count ext i"
  "ext_count (ext @ ext') i = ext_count ext i + ext_count ext' i"
  by (simp_all add: ext_count_def)

lemma ext_count_pos: "b \<in> set ext \<Longrightarrow> 0 < ext_count ext (bid_physical_index b)"
  by (auto simp: ext_count_def filter_empty_conv)

lemma ext_count_remove1:
  "b \<in> set ext \<Longrightarrow> ext_count (remove1 b ext) i + (if bid_physical_index b = i then 1 else 0) = ext_count ext i"
  by (induction ext) auto

lemma total_hold_update:
  "k < length qs \<Longrightarrow> total_hold (qs[k := q]) i + hold (qs ! k) i = total_hold qs i + hold q i"
  using sum_list_update [of k qs "\<lambda>q. hold q i" q] by (simp add: total_hold_def)

lemma total_hold_ge: "q \<in> set qs \<Longrightarrow> hold q i \<le> total_hold qs i"
  unfolding total_hold_def by (rule sum_list_ge_elem)

lemma in_set_update:
  assumes "r \<in> set (xs[k := y])"
  obtains "r = y" | j where "j < length xs" and "j \<noteq> k" and "xs ! j = r"
proof -
  from assms obtain j where j: "j < length xs" "xs[k := y] ! j = r" by (auto simp: in_set_conv_nth)
  then show ?thesis using that by (cases "j = k") auto
qed

lemma slot_step_shared:
  assumes "slot_step sid h h' s s'" and "0 < bs_shared_references s" and "0 < bs_shared_references s'"
  shows "bs_generation s' = bs_generation s" and "bs_owner s' = bs_owner s"
proof -
  have "s' = s\<lparr>bs_shared_references := bs_shared_references s'\<rparr>"
    using assms by (simp add: slot_step_def)
  then show "bs_generation s' = bs_generation s" and "bs_owner s' = bs_owner s"
    by (metis block_slot.simps(1,2) block_slot.surjective block_slot.update_convs(3))+
qed

lemma slot_step_owner:
  assumes "slot_step sid h h' s s'" and "bs_owner s' = Some o'"
  shows "o' = sid \<or> bs_owner s = Some o'"
proof (cases "0 < bs_shared_references s \<and> 0 < bs_shared_references s'")
  case True
  then show ?thesis using slot_step_shared(2) [OF assms(1)] assms(2) by simp
next
  case False
  then show ?thesis using assms by (auto simp: slot_step_def split: if_splits)
qed

text \<open>Two blocks of one system that share a physical slot are shared blocks.\<close>

lemma kv_inv_private:
  assumes "kv_inv p qs ext" and "q \<in> set qs" and "i \<in> set (private_phys q)"
  shows "bs_shared_references (kp_slots p ! i) = 0" and "total_hold qs i = 0" and "ext_count ext i = 0"
proof -
  have inv: "pool_inv p" and core: "seq_core p q" using assms by (auto simp: kv_inv_def)
  have i: "i < length (kp_slots p)" "bs_owner (kp_slots p ! i) = Some (sq_sequence_id q)"
    using assms(3) core_private_slot [OF core] by auto
  show z: "bs_shared_references (kp_slots p ! i) = 0"
    by (rule private_slot_refs [OF inv i]) (use core in \<open>simp add: seq_core_def seq_ids_def\<close>)
  have "bs_shared_references (kp_slots p ! i) = total_hold qs i + ext_count ext i"
    using assms(1) i by (simp add: kv_inv_def refs_exact_def)
  then show "total_hold qs i = 0" and "ext_count ext i = 0" using z by simp_all
qed

subsection \<open>A step of one sequence\<close>

text \<open>What another sequence's step leaves of a sequence's own blocks.\<close>

lemma other_core:
  assumes inv: "pool_inv p" and core: "seq_core p r" and ne: "sq_sequence_id r \<noteq> sid"
    and same: "pool_same p p'"
    and steps: "\<And>i. i < length (kp_slots p) \<Longrightarrow> slot_step sid (h i) (h' i) (kp_slots p ! i) (kp_slots p' ! i)"
    and live: "\<And>i. i < length (kp_slots p) \<Longrightarrow> 0 < hold r i \<Longrightarrow> 0 < bs_shared_references (kp_slots p' ! i)"
  shows "seq_core p' r"
proof -
  have sh: "seq_shape r" and ids: "seq_ids p r" using core by (auto simp: seq_core_def)
  have "block_ok p' r j" if j: "j < sq_allocated_block_count r" for j
  proof -
    obtain b where b: "sq_block_ids r ! j = Some b" "sq_physical_block_ids r ! j = bid_physical_index b"
      "bid_pool_cookie b = kp_cookie p" "bid_physical_index b < length (kp_slots p)"
      "bs_generation (kp_slots p ! bid_physical_index b) = bid_generation b"
      "if j < sq_shared_block_count r then 0 < bs_shared_references (kp_slots p ! bid_physical_index b)
       else bs_owner (kp_slots p ! bid_physical_index b) = Some (sq_sequence_id r)"
      using core j by (auto simp: seq_core_def block_ok_def)
    let ?i = "bid_physical_index b"
    show ?thesis
    proof (cases "j < sq_shared_block_count r")
      case True
      then have "0 < hold r ?i" using b(2) in_shared_phys [OF sh] by (auto simp: hold_def)
      then have "0 < bs_shared_references (kp_slots p' ! ?i)" using live b(4) by blast
      moreover have "bs_generation (kp_slots p' ! ?i) = bs_generation (kp_slots p ! ?i)"
        using slot_step_shared(1) [OF steps [OF b(4)]] b(6) True calculation by simp
      ultimately show ?thesis using b True same by (auto simp: block_ok_def pool_same_def)
    next
      case False
      then have o: "bs_owner (kp_slots p ! ?i) = Some (sq_sequence_id r)" using b by simp
      have "bs_shared_references (kp_slots p ! ?i) = 0"
        by (rule private_slot_refs [OF inv b(4) o]) (use ids in \<open>simp add: seq_ids_def\<close>)
      then have "kp_slots p' ! ?i = kp_slots p ! ?i" using steps [OF b(4)] o ne by (auto simp: slot_step_def)
      then show ?thesis using b False same by (auto simp: block_ok_def pool_same_def)
    qed
  qed
  moreover have "i \<in> set (private_phys r)"
    if i: "i < length (kp_slots p)" and o: "bs_owner (kp_slots p' ! i) = Some (sq_sequence_id r)" for i
  proof -
    have "bs_owner (kp_slots p ! i) = Some (sq_sequence_id r)"
      using slot_step_owner [OF steps [OF i] o] ne by simp
    then show ?thesis using core i by (simp add: seq_core_def)
  qed
  ultimately show ?thesis using core same by (auto simp: seq_core_def seq_ids_def pool_same_def)
qed

lemma kv_inv_step:
  assumes inv: "kv_inv p qs ext" and k: "k < length qs"
    and step: "kv_step (qs ! k, p) (q', p')" and len: "seq_len q'"
  shows "kv_inv p' (qs[k := q']) ext"
proof -
  let ?q = "qs ! k" and ?qs = "qs[k := q']"
  have q: "?q \<in> set qs" using k by simp
  have pinv: "pool_inv p" and qcore: "seq_core p ?q" using inv q by (auto simp: kv_inv_def)
  have st: "slot_step (sq_sequence_id ?q) (hold ?q i) (hold q' i) (kp_slots p ! i) (kp_slots p' ! i)"
    if "i < length (kp_slots p)" for i using step that by (simp add: kv_step_def)
  have new: "pool_inv p'" "seq_core p' q'" "pool_same p p'" "sq_sequence_id q' = sq_sequence_id ?q"
    using step by (auto simp: kv_step_def)
  have refs: "bs_shared_references (kp_slots p ! i) = total_hold qs i + ext_count ext i"
    if "i < length (kp_slots p)" for i using inv that by (simp add: kv_inv_def refs_exact_def)
  have refs': "bs_shared_references (kp_slots p' ! i) = total_hold ?qs i + ext_count ext i"
    if i: "i < length (kp_slots p)" for i
  proof (cases "0 < bs_shared_references (kp_slots p ! i)")
    case True
    then show ?thesis using st [OF i] refs [OF i] total_hold_update [OF k, of q' i]
      by (simp add: slot_step_def)
  next
    case False
    then have z: "total_hold qs i = 0" "ext_count ext i = 0" using refs [OF i] by simp_all
    have "bs_shared_references (kp_slots p' ! i) = 0" using st [OF i] False by (auto simp: slot_step_def split: if_splits)
    moreover have "hold q' i = 0" using calculation hold_slot [OF new(2), of i] by auto
    ultimately show ?thesis using z total_hold_update [OF k, of q' i] by simp
  qed
  have ids: "map sq_sequence_id ?qs = map sq_sequence_id qs"
    using new(4) k by (metis list_update_id map_update nth_map length_map)
  have core: "seq_core p' r \<and> seq_len r" if r: "r \<in> set ?qs" for r
  proof (cases "r = q'")
    case True
    then show ?thesis using new len by simp
  next
    case False
    then obtain j where j: "j < length qs" "j \<noteq> k" "qs ! j = r"
      using in_set_update [OF r] by metis
    have "sq_sequence_id r \<noteq> sq_sequence_id ?q"
      using inv j k by (auto simp: kv_inv_def distinct_conv_nth)
    moreover have "0 < bs_shared_references (kp_slots p' ! i)" if "i < length (kp_slots p)" "0 < hold r i" for i
      using refs' [OF that(1)] total_hold_ge [OF r, of i] that(2) by simp
    moreover have "seq_core p r" "seq_len r" using inv j by (auto simp: kv_inv_def)
    ultimately show ?thesis using other_core [OF pinv _ _ new(3) st] by blast
  qed
  have "ext_ok p' ext" unfolding ext_ok_def
  proof
    fix b assume b: "b \<in> set ext"
    let ?i = "bid_physical_index b"
    have e: "bid_pool_cookie b = kp_cookie p" "?i < length (kp_slots p)"
      "bs_generation (kp_slots p ! ?i) = bid_generation b"
      using inv b by (auto simp: kv_inv_def ext_ok_def)
    have "0 < bs_shared_references (kp_slots p ! ?i)" "0 < bs_shared_references (kp_slots p' ! ?i)"
      using refs [OF e(2)] refs' [OF e(2)] ext_count_pos [OF b] by simp_all
    then have "bs_generation (kp_slots p' ! ?i) = bs_generation (kp_slots p ! ?i)"
      by (rule slot_step_shared(1) [OF st [OF e(2)]])
    then show "bid_pool_cookie b = kp_cookie p' \<and> ?i < length (kp_slots p') \<and>
        bs_generation (kp_slots p' ! ?i) = bid_generation b"
      using e new(3) by (simp add: pool_same_def)
  qed
  moreover have "owners_live p' ?qs" unfolding owners_live_def
  proof (intro allI impI)
    fix i sid
    assume i: "i < length (kp_slots p')" and o: "bs_owner (kp_slots p' ! i) = Some sid"
      and v: "sid_value sid \<noteq> SHARED_BLOCK_OWNER"
    have i': "i < length (kp_slots p)" using i new(3) by (simp add: pool_same_def)
    have "sid = sq_sequence_id ?q \<or> bs_owner (kp_slots p ! i) = Some sid"
      by (rule slot_step_owner [OF st [OF i'] o])
    then have "sid \<in> set (map sq_sequence_id qs)"
      using inv i' v q by (fastforce simp: kv_inv_def owners_live_def)
    then show "\<exists>q\<in>set ?qs. sq_sequence_id q = sid" using ids by (metis imageE list.set_map)
  qed
  moreover have "refs_exact p' ?qs ext" using refs' new(3) by (simp add: refs_exact_def pool_same_def)
  ultimately show ?thesis using core new(1) ids inv by (simp add: kv_inv_def)
qed

subsection \<open>Sharing\<close>

text \<open>The table grows by a shared block.\<close>

definition adopted_state :: "block_id \<Rightarrow> sequence_state \<Rightarrow> sequence_state" where
  "adopted_state block q = (let index = sq_allocated_block_count q in q\<lparr>
     sq_block_ids := (sq_block_ids q)[index := Some block],
     sq_physical_block_ids := (sq_physical_block_ids q)[index := bid_physical_index block],
     sq_valid_tokens := (sq_valid_tokens q)[index := KV_BLOCK_SIZE],
     sq_allocated_block_count := index + 1,
     sq_shared_block_count := index + 1,
     sq_logical_length := (index + 1) * KV_BLOCK_SIZE\<rparr>)"

lemma adopted_phys:
  assumes sh: "seq_shape q" and room: "sq_allocated_block_count q < length (sq_block_ids q)"
    and all: "sq_shared_block_count q = sq_allocated_block_count q"
  shows "seq_shape (adopted_state b q)" and "phys (adopted_state b q) = phys q @ [bid_physical_index b]"
    and "shared_phys (adopted_state b q) = shared_phys q @ [bid_physical_index b]"
    and "private_phys (adopted_state b q) = []" and "private_phys q = []"
  using assms length_phys [OF sh]
  by (auto simp: seq_shape_def adopted_state_def Let_def nth_list_update phys_def shared_phys_def
      private_phys_def take_Suc_conv_app_nth)

lemma adopted_step:
  assumes ok: "kv_ok (q, p)" and room: "sq_allocated_block_count q < length (sq_block_ids q)"
    and all: "sq_shared_block_count q = sq_allocated_block_count q"
    and refs: "shared_references p b = Inr n" and n: "n + 1 \<le> u32_max"
    and new: "bid_physical_index b \<notin> set (phys q)"
  shows "kv_step (q, p) (adopted_state b q,
    p\<lparr>kp_slots := (kp_slots p)[bid_physical_index b :=
      (kp_slots p ! bid_physical_index b)\<lparr>bs_shared_references := n + 1\<rparr>]\<rparr>)" (is "kv_step _ (?q, ?p)")
proof -
  let ?i = "bid_physical_index b" and ?k = "sq_allocated_block_count q"
  let ?t = "(kp_slots p ! ?i)\<lparr>bs_shared_references := n + 1\<rparr>"
  have inv: "pool_inv p" and core: "seq_core p q" and sh: "seq_shape q" and ids: "seq_ids p q"
    using ok by (auto simp: kv_ok_def seq_core_def)
  have r: "bid_pool_cookie b = kp_cookie p" "?i < length (kp_slots p)"
    "bs_generation (kp_slots p ! ?i) = bid_generation b" "n = bs_shared_references (kp_slots p ! ?i)" "0 < n"
    "bs_owner (kp_slots p ! ?i) \<noteq> None"
    using refs by (auto simp: shared_references_Inr)
  have own: "bs_owner (kp_slots p ! ?i) = Some (shared_owner (kp_cookie p))"
    by (rule shared_slot_owner [OF inv r(2)]) (use r in simp)
  have inv': "pool_inv ?p"
  proof (rule pool_inv_update_slot [OF inv r(2)])
    show "slot_ok (kp_cookie p) (kp_next_sequence_id p) ?t"
      using pool_inv_slot [OF inv r(2)] r n by (auto simp: slot_ok_def split: option.splits)
    show "kp_sidecar_device_bytes p \<le> u64_max" using inv by (simp add: pool_inv_def)
  qed (use r in \<open>auto simp: sidecar_one_def sidecar_bytes_def\<close>)
  note ph = adopted_phys [OF sh room all]
  have fields: "sq_allocated_block_count ?q = ?k + 1" "sq_shared_block_count ?q = ?k + 1"
    by (simp_all add: adopted_state_def Let_def)
  have at: "j = ?k" if "j < sq_allocated_block_count ?q" "sq_physical_block_ids ?q ! j = ?i" for j
  proof (rule ccontr)
    assume "j \<noteq> ?k"
    then have "j < ?k" using that fields by simp
    then have "phys q ! j = ?i" using that by (simp add: nth_phys adopted_state_def Let_def)
    then show False using new \<open>j < ?k\<close> length_phys [OF sh] by (metis nth_mem)
  qed
  have h: "hold q ?i = 0" "hold ?q ?i = 1" using new set_phys [OF sh] by (auto simp: hold_def ph)
  show ?thesis
  proof (rule kv_step_one_slot [OF ok inv' _ r(2)])
    show "distinct (phys ?q)" using ph new core by (simp add: seq_core_def)
    show "slot_step (sq_sequence_id q) (hold q ?i) (hold ?q ?i) (kp_slots p ! ?i) ?t"
      using h r by (simp add: slot_step_def)
    fix j
    assume j: "j < sq_allocated_block_count ?q"
    show "block_ok ?p ?q j" if "sq_physical_block_ids ?q ! j = ?i"
      using at [OF j that] room sh r
      by (auto simp: block_ok_def adopted_state_def Let_def seq_shape_def)
    show "j < ?k \<and> sq_block_ids ?q ! j = sq_block_ids q ! j \<and>
        sq_physical_block_ids ?q ! j = sq_physical_block_ids q ! j \<and>
        (j < sq_shared_block_count ?q \<longleftrightarrow> j < sq_shared_block_count q)"
      if "sq_physical_block_ids ?q ! j \<noteq> ?i"
    proof -
      have "j \<noteq> ?k" using that room sh by (auto simp: adopted_state_def Let_def seq_shape_def)
      then show ?thesis using j fields all by (auto simp: adopted_state_def Let_def)
    qed
  qed (use ph own not_shared_owner [OF ids] in \<open>auto simp: hold_def adopted_state_def Let_def pool_same_def\<close>)
qed

lemma adopted_len:
  assumes sh: "seq_shape q" and len: "seq_len q" and idle: "sq_pending q = None"
    and room: "(sq_allocated_block_count q + 1) * KV_BLOCK_SIZE \<le> sq_maximum_logical_length q"
    and all: "sq_shared_block_count q = sq_allocated_block_count q"
  shows "seq_len (adopted_state b q)" and "sq_allocated_block_count q < length (sq_block_ids q)"
proof -
  let ?k = "sq_allocated_block_count q"
  have "?k + 1 \<le> blocks_for_length (sq_maximum_logical_length q)" by (rule blocks_for_length_shared [OF room])
  then show l: "?k < length (sq_block_ids q)" using sh by (simp add: seq_shape_def)
  have full: "?k * KV_BLOCK_SIZE \<le> sq_logical_length q" using len all by (simp add: seq_len_def)
  have cnt: "sq_valid_tokens q ! j = KV_BLOCK_SIZE" if "j < ?k" for j
  proof -
    have "(j + 1) * KV_BLOCK_SIZE \<le> ?k * KV_BLOCK_SIZE" using that by (intro mult_le_mono1) simp
    then have "KV_BLOCK_SIZE \<le> sq_logical_length q - j * KV_BLOCK_SIZE" using full by simp
    then show ?thesis using len idle that by (simp add: seq_len_def token_counts_def)
  qed
  have "token_counts ((?k + 1) * KV_BLOCK_SIZE) (adopted_state b q)"
    unfolding token_counts_def
  proof (intro allI impI)
    fix j assume "j < sq_allocated_block_count (adopted_state b q)"
    then have "j \<le> ?k" by (simp add: adopted_state_def Let_def)
    then have "KV_BLOCK_SIZE \<le> (?k + 1) * KV_BLOCK_SIZE - j * KV_BLOCK_SIZE" by (simp flip: diff_mult_distrib)
    then show "sq_valid_tokens (adopted_state b q) ! j = min ((?k + 1) * KV_BLOCK_SIZE - j * KV_BLOCK_SIZE) KV_BLOCK_SIZE"
      using cnt [of j] l sh \<open>j \<le> ?k\<close>
      by (cases "j = ?k") (auto simp: adopted_state_def Let_def seq_shape_def)
  qed
  then show "seq_len (adopted_state b q)"
    using room idle by (simp add: seq_len_def adopted_state_def Let_def blocks_for_length_def flip: mult_Suc)
qed

lemma wp_adopt_shared_block:
  assumes ok: "kv_ok (q, p)" and len: "seq_len q"
    and room: "(sq_allocated_block_count q + 1) * KV_BLOCK_SIZE \<le> sq_maximum_logical_length q"
    and new: "bid_physical_index b \<notin> set (phys q)"
  shows "wp (adopt_shared_block b)
    (\<lambda>_ (q', p'). kv_step (q, p) (q', p') \<and> seq_len q' \<and> q' = adopted_state b q)
    (\<lambda>e w. w = (q, p)) (q, p)"
  unfolding adopt_shared_block_def wp_withM prod.case Let_def
proof (intro wp_guards, goal_cases)
  case g: (7 _ n m)
  have sh: "seq_shape q" using ok by (simp add: kv_ok_def seq_core_def)
  have all: "sq_shared_block_count q = sq_allocated_block_count q" and idle: "sq_pending q = None"
    and refs: "shared_references p b = Inr n" and m: "m = n + 1" "n + 1 \<le> u32_max"
    using g by auto
  note len' = adopted_len [OF sh len idle room all]
  have "sq_maximum_logical_length q \<le> u32_max" using sh by (simp add: seq_shape_def)
  then have "((sq_allocated_block_count q + 1) * KV_BLOCK_SIZE) mod (u32_max + 1) =
      (sq_allocated_block_count q + 1) * KV_BLOCK_SIZE" using room by (intro mod_less) simp
  then show ?case using adopted_step [OF ok len'(2) all refs m(2) new] len'(1) m(1)
    by (simp add: wp_simps adopted_state_def Let_def)
qed auto

text \<open>A sequence hands its next private block over to the shared pool: the block now has two
  holders, the table itself and the caller.\<close>

definition shared_pool :: "block_id \<Rightarrow> kv_block_pool \<Rightarrow> kv_block_pool" where
  "shared_pool b p = (let i = bid_physical_index b; p1 = take_sidecar i p in
     p1\<lparr>kp_slots := (kp_slots p1)[i := (kp_slots p1 ! i)\<lparr>bs_owner := Some (shared_owner (kp_cookie p)),
       bs_shared_references := 2\<rparr>]\<rparr>)"

lemma wp_share_next_block:
  assumes ok: "kv_ok (q, p)"
  shows "wp share_next_block
    (\<lambda>b (q', p'). sq_pending q = None \<and> \<not> sq_poisoned q \<and>
       (sq_shared_block_count q + 1) * KV_BLOCK_SIZE \<le> sq_logical_length q \<and>
       allocated_block q (sq_shared_block_count q) = Inr b \<and>
       validate_block p b (sq_sequence_id q) = Inr () \<and> p' = shared_pool b p \<and>
       q' = q\<lparr>sq_shared_block_count := sq_shared_block_count q + 1\<rparr>)
    (\<lambda>e w. w = (q, p)) (q, p)"
  unfolding share_next_block_def wp_withM prod.case Let_def
proof (intro wp_guards, goal_cases)
  case g: (6 _ b _)
  have "sq_pool_cookie q = kp_cookie p" using ok by (simp add: kv_ok_def seq_core_def seq_ids_def)
  then show ?case using g
    by (simp add: wp_simps clear_sidecar_def shared_pool_def Let_def ensure_mutable_def)
qed auto

lemma shared_pool_inv:
  assumes inv: "pool_inv p" and v: "validate_block p b sid = Inr ()"
  shows "pool_inv (shared_pool b p)" and "pool_same p (shared_pool b p)"
    and "kp_slots (shared_pool b p) = (kp_slots p)[bid_physical_index b :=
      (kp_slots p ! bid_physical_index b)\<lparr>bs_sidecar := None,
        bs_owner := Some (shared_owner (kp_cookie p)), bs_shared_references := 2\<rparr>]"
proof -
  let ?i = "bid_physical_index b"
  have i: "?i < length (kp_slots p)" and own: "bs_owner (kp_slots p ! ?i) \<noteq> None"
    using v by (auto simp: validate_block_Inr)
  note t = take_sidecar_inv [OF inv i own]
  let ?p = "take_sidecar ?i p"
  have i': "?i < length (kp_slots ?p)" using t(2) i by (simp add: pool_same_def)
  let ?s = "(kp_slots ?p ! ?i)\<lparr>bs_owner := Some (shared_owner (kp_cookie p)), bs_shared_references := 2\<rparr>"
  have c: "kp_cookie ?p = kp_cookie p" using t(2) by (simp add: pool_same_def)
  show "pool_inv (shared_pool b p)"
  proof (rule pool_inv_update_slot [OF t(1) i', where s = ?s and c = "kp_sidecar_count ?p" and b = "kp_sidecar_device_bytes ?p"])
    show "slot_ok (kp_cookie ?p) (kp_next_sequence_id ?p) ?s"
      using pool_inv_slot [OF t(1) i'] t(1,3) i c by (auto simp: slot_ok_def pool_inv_def)
    show "kp_sidecar_device_bytes ?p \<le> u64_max" using t(1) by (simp add: pool_inv_def)
  qed (use own t(3) i in \<open>simp_all add: shared_pool_def Let_def sidecar_one_def sidecar_bytes_def\<close>)
  show "pool_same p (shared_pool b p)" using t(2) by (simp add: shared_pool_def Let_def pool_same_def)
  show "kp_slots (shared_pool b p) = (kp_slots p)[?i := (kp_slots p ! ?i)\<lparr>bs_sidecar := None,
        bs_owner := Some (shared_owner (kp_cookie p)), bs_shared_references := 2\<rparr>]"
    using t(3) i by (simp add: shared_pool_def Let_def)
qed

text \<open>Slot \<open>i\<close> changes in a way that concerns no table: every table that lists it lists it as
  shared, and it stays shared.\<close>

lemma core_slot_update:
  assumes core: "seq_core p r" and same: "pool_same p p'" and i: "i < length (kp_slots p)"
    and slots: "kp_slots p' = (kp_slots p)[i := s]"
    and priv: "i \<notin> set (private_phys r)" and own: "bs_owner s \<noteq> Some (sq_sequence_id r)"
    and shared: "i \<in> set (shared_phys r) \<Longrightarrow>
      bs_generation s = bs_generation (kp_slots p ! i) \<and> 0 < bs_shared_references s"
  shows "seq_core p' r"
proof -
  have sh: "seq_shape r" using core by (simp add: seq_core_def)
  have "block_ok p' r j" if j: "j < sq_allocated_block_count r" for j
  proof -
    have b: "block_ok p r j" using core j by (simp add: seq_core_def)
    show ?thesis
    proof (cases "sq_physical_block_ids r ! j = i")
      case True
      then have "j < sq_shared_block_count r" using priv in_private_phys [OF sh] j by force
      moreover have "i \<in> set (shared_phys r)" using True calculation in_shared_phys [OF sh] by blast
      ultimately show ?thesis using b True shared slots same i by (auto simp: block_ok_def pool_same_def)
    next
      case False
      then show ?thesis using b slots same by (auto simp: block_ok_def pool_same_def)
    qed
  qed
  moreover have "k \<in> set (private_phys r)"
    if "k < length (kp_slots p')" "bs_owner (kp_slots p' ! k) = Some (sq_sequence_id r)" for k
    using that core slots i own same by (cases "k = i") (auto simp: seq_core_def pool_same_def)
  ultimately show ?thesis using core same by (auto simp: seq_core_def seq_ids_def pool_same_def)
qed

lemma sharing_core:
  assumes core: "seq_core p q" and inv: "pool_inv p" and k: "k < sq_allocated_block_count q" "k = sq_shared_block_count q"
    and b: "sq_block_ids q ! k = Some b" and v: "validate_block p b (sq_sequence_id q) = Inr ()"
    and ph: "sq_physical_block_ids q ! k = bid_physical_index b"
  defines "q' \<equiv> q\<lparr>sq_shared_block_count := k + 1\<rparr>"
  shows "seq_core (shared_pool b p) q'" and "hold q' i = hold q i + (if i = bid_physical_index b then 1 else 0)"
proof -
  let ?i = "bid_physical_index b"
  have sh: "seq_shape q" and ids: "seq_ids p q" using core by (auto simp: seq_core_def)
  have sh': "seq_shape q'" using sh k by (auto simp: seq_shape_def q'_def)
  note sp = shared_pool_inv [OF inv v]
  have il: "?i < length (kp_slots p)" using v by (simp add: validate_block_Inr)
  have kl: "k < length (sq_physical_block_ids q)" using k sh by (simp add: seq_shape_def)
  have s: "shared_phys q' = shared_phys q @ [?i]"
    using k kl ph by (simp add: shared_phys_def q'_def take_Suc_conv_app_nth)
  have pq: "phys q' = phys q" by (simp add: phys_def q'_def)
  have pr: "private_phys q = ?i # private_phys q'"
  proof -
    have "k < length (phys q)" using k length_phys [OF sh] by simp
    moreover have "sq_shared_block_count q' = Suc k" by (simp add: q'_def)
    ultimately show ?thesis using k ph nth_phys [of k q]
      by (simp add: private_phys_def pq Cons_nth_drop_Suc [symmetric])
  qed
  have dist: "distinct (shared_phys q @ private_phys q)" using core phys_split [OF sh] by (simp add: seq_core_def)
  show "hold q' i = hold q i + (if i = ?i then 1 else 0)"
    using s pr dist by (auto simp: hold_def)
  have "block_ok (shared_pool b p) q' j" if j: "j < sq_allocated_block_count q'" for j
  proof -
    have ja: "j < sq_allocated_block_count q" using j by (simp add: q'_def)
    then have ok: "block_ok p q j" using core by (simp add: seq_core_def)
    show ?thesis
    proof (cases "j = k")
      case True
      then show ?thesis using ok b sp v il by (auto simp: block_ok_def q'_def pool_same_def)
    next
      case False
      then have "sq_physical_block_ids q ! j \<noteq> ?i"
        using core_phys_inj [OF core ja k(1)] ph by auto
      then show ?thesis using ok sp k False by (auto simp: block_ok_def q'_def pool_same_def)
    qed
  qed
  moreover have "j \<in> set (private_phys q')"
    if "j < length (kp_slots (shared_pool b p))" "bs_owner (kp_slots (shared_pool b p) ! j) = Some (sq_sequence_id q')" for j
  proof -
    have "j \<noteq> ?i" using that sp(3) il not_shared_owner [OF ids] by (auto simp: q'_def)
    then have "j \<in> set (private_phys q)"
      using that core sp by (auto simp: seq_core_def q'_def pool_same_def)
    then show ?thesis using pr \<open>j \<noteq> ?i\<close> by simp
  qed
  ultimately show "seq_core (shared_pool b p) q'"
    using ids sh' core sp(2) pq by (auto simp: seq_core_def seq_ids_def pool_same_def q'_def)
qed

lemma kv_inv_share:
  assumes inv: "kv_inv p qs ext" and k: "k < length qs" and share: "share_next_block (qs ! k, p) = (Inr b, (q', p'))"
  shows "kv_inv p' (qs[k := q']) (ext @ [b])"
proof -
  let ?q = "qs ! k" and ?i = "bid_physical_index b"
  have q: "?q \<in> set qs" using k by simp
  have pinv: "pool_inv p" and core: "seq_core p ?q" and len: "seq_len ?q" using inv q by (auto simp: kv_inv_def)
  have sh: "seq_shape ?q" using core by (simp add: seq_core_def)
  have g: "sq_pending ?q = None" "(sq_shared_block_count ?q + 1) * KV_BLOCK_SIZE \<le> sq_logical_length ?q"
    "allocated_block ?q (sq_shared_block_count ?q) = Inr b" "validate_block p b (sq_sequence_id ?q) = Inr ()"
    "p' = shared_pool b p" "q' = ?q\<lparr>sq_shared_block_count := sq_shared_block_count ?q + 1\<rparr>"
    using wpD_Inr [OF wp_share_next_block share] pinv core by (auto simp: kv_ok_def)
  have a: "sq_shared_block_count ?q < sq_allocated_block_count ?q"
    using blocks_for_length_shared [OF g(2)] len g(1) by (simp add: seq_len_def)
  obtain b' where b': "allocated_block ?q (sq_shared_block_count ?q) = Inr b'"
    "sq_block_ids ?q ! sq_shared_block_count ?q = Some b'"
    "bid_physical_index b' = sq_physical_block_ids ?q ! sq_shared_block_count ?q"
    using core_allocated_block [OF core a] by metis
  then have b: "sq_block_ids ?q ! sq_shared_block_count ?q = Some b"
    "sq_physical_block_ids ?q ! sq_shared_block_count ?q = ?i" using g(3) by auto
  note new = sharing_core [OF core pinv a refl b(1) g(4) b(2), folded g(5,6)]
  note sp = shared_pool_inv [OF pinv g(4), folded g(5)]
  have il: "?i < length (kp_slots p)" and own: "bs_owner (kp_slots p ! ?i) = Some (sq_sequence_id ?q)"
    using g(4) by (auto simp: validate_block_Inr)
  have ipriv: "?i \<in> set (private_phys ?q)" using core_private_slot [OF core] il own by simp
  note z = kv_inv_private [OF inv q ipriv]
  have ids: "map sq_sequence_id (qs[k := q']) = map sq_sequence_id qs"
    using k g(6) by (simp add: map_update list_update_id2)
  have cores: "seq_core p' r \<and> seq_len r" if r: "r \<in> set (qs[k := q'])" for r
    using r
  proof (cases rule: in_set_update)
    case 1
    then show ?thesis using new(1) len g by (simp add: seq_len_def token_counts_def)
  next
    case (2 j)
    then have rq: "r \<in> set qs" and ne: "sq_sequence_id r \<noteq> sq_sequence_id ?q"
      using inv k by (auto simp: kv_inv_def distinct_conv_nth)
    have rc: "seq_core p r" "seq_len r" using inv rq by (auto simp: kv_inv_def)
    have "?i \<notin> set (private_phys r)" using core_private_slot [OF rc(1)] own ne by auto
    moreover have "?i \<notin> set (shared_phys r)"
      using total_hold_ge [OF rq, of ?i] z(2) by (auto simp: hold_def split: if_splits)
    moreover have "shared_owner (kp_cookie p) \<noteq> sq_sequence_id r"
      using rc not_shared_owner by (auto simp: seq_core_def)
    ultimately show ?thesis using core_slot_update [OF rc(1) sp(2) il sp(3)] rc(2) by simp
  qed
  have "refs_exact p' (qs[k := q']) (ext @ [b])"
    unfolding refs_exact_def
  proof (intro allI impI)
    fix i assume "i < length (kp_slots p')"
    then have i: "i < length (kp_slots p)" using sp(2) by (simp add: pool_same_def)
    have r: "bs_shared_references (kp_slots p ! i) = total_hold qs i + ext_count ext i"
      using inv i by (simp add: kv_inv_def refs_exact_def)
    show "bs_shared_references (kp_slots p' ! i) = total_hold (qs[k := q']) i + ext_count (ext @ [b]) i"
      using r total_hold_update [OF k, of q' i] new(2) [of i] sp(3) il z(1) by (cases "i = ?i") auto
  qed
  moreover have "ext_ok p' (ext @ [b])"
  proof -
    have "?i \<noteq> bid_physical_index c" if "c \<in> set ext" for c using ext_count_pos [OF that] z(3) by auto
    then show ?thesis using inv sp il g(4)
      by (auto simp: kv_inv_def ext_ok_def pool_same_def validate_block_Inr nth_list_update)
  qed
  moreover have "owners_live p' (qs[k := q'])" unfolding owners_live_def
  proof (intro allI impI)
    fix i sid
    assume i: "i < length (kp_slots p')" "bs_owner (kp_slots p' ! i) = Some sid" "sid_value sid \<noteq> SHARED_BLOCK_OWNER"
    have "bs_owner (kp_slots p ! i) = Some sid" using i sp il by (cases "i = ?i") auto
    then have "sid \<in> set (map sq_sequence_id qs)"
      using inv i sp(2) by (fastforce simp: kv_inv_def owners_live_def pool_same_def)
    then show "\<exists>q\<in>set (qs[k := q']). sq_sequence_id q = sid" using ids by (metis imageE list.set_map)
  qed
  ultimately show ?thesis using cores sp(1) ids inv by (simp add: kv_inv_def)
qed

text \<open>An outside holder drops a block.\<close>

lemma kv_inv_evict:
  assumes inv: "kv_inv p qs ext" and b: "b \<in> set ext"
  shows "wp (release_shared_block b) (\<lambda>_ p'. kv_inv p' qs (remove1 b ext) \<and> pool_same p p') (\<lambda>_ _. False) p"
proof -
  let ?i = "bid_physical_index b" and ?s = "kp_slots p ! bid_physical_index b"
  have pinv: "pool_inv p" using inv by (simp add: kv_inv_def)
  have e: "bid_pool_cookie b = kp_cookie p" "?i < length (kp_slots p)" "bs_generation ?s = bid_generation b"
    using inv b by (auto simp: kv_inv_def ext_ok_def)
  have refs: "bs_shared_references (kp_slots p ! i) = total_hold qs i + ext_count ext i"
    if "i < length (kp_slots p)" for i using inv that by (simp add: kv_inv_def refs_exact_def)
  have pos: "0 < bs_shared_references ?s" using refs [OF e(2)] ext_count_pos [OF b] by simp
  have own: "bs_owner ?s = Some (shared_owner (kp_cookie p))" by (rule shared_slot_owner [OF pinv e(2) pos])
  have sr: "shared_references p b = Inr (bs_shared_references ?s)"
    using e pos own by (simp add: shared_references_Inr)
  show ?thesis
  proof (rule wp_weaken [OF wp_release_shared_block [OF pinv]], goal_cases)
    case (1 x p')
    let ?n = "bs_shared_references ?s"
    let ?t = "if ?n = 1 then freed ?s else ?s\<lparr>bs_shared_references := ?n - 1\<rparr>"
    from 1 sr have p': "pool_inv p'" "pool_same p p'" "kp_slots p' = (kp_slots p)[?i := ?t]" by auto
    have t: "bs_shared_references ?t = ?n - 1" "bs_generation ?t = bs_generation ?s"
      "bs_owner ?t = (if ?n = 1 then None else bs_owner ?s)" by (simp_all add: freed_def)
    have cnt: "ext_count (remove1 b ext) i + (if i = ?i then 1 else 0) = ext_count ext i" for i
      using ext_count_remove1 [OF b, of i] by auto
    have refs': "bs_shared_references (kp_slots p' ! i) = total_hold qs i + ext_count (remove1 b ext) i"
      if "i < length (kp_slots p)" for i
      using refs [OF that] cnt [of i] p'(3) e(2) t(1) by (cases "i = ?i") auto
    have "seq_core p' r" if r: "r \<in> set qs" for r
    proof (rule core_slot_update [OF _ p'(2) e(2) p'(3)])
      show rc: "seq_core p r" using inv r by (simp add: kv_inv_def)
      show "?i \<notin> set (private_phys r)" using kv_inv_private(1) [OF inv r] pos by fastforce
      show "bs_owner ?t \<noteq> Some (sq_sequence_id r)"
        using t(3) own not_shared_owner rc by (auto simp: seq_core_def)
      show "bs_generation ?t = bs_generation ?s \<and> 0 < bs_shared_references ?t" if "?i \<in> set (shared_phys r)"
        using total_hold_ge [OF r, of ?i] that refs' [OF e(2)] p'(3) e(2) t(2) by (simp add: hold_def)
    qed
    moreover have "ext_ok p' (remove1 b ext)" unfolding ext_ok_def
    proof
      fix c assume c: "c \<in> set (remove1 b ext)"
      then have "c \<in> set ext" using set_remove1_subset by fast
      then show "bid_pool_cookie c = kp_cookie p' \<and> bid_physical_index c < length (kp_slots p') \<and>
          bs_generation (kp_slots p' ! bid_physical_index c) = bid_generation c"
        using inv p' t(2) by (cases "bid_physical_index c = ?i") (auto simp: kv_inv_def ext_ok_def pool_same_def)
    qed
    moreover have "owners_live p' qs"
      using inv p' e(2) t(3) own by (auto simp: kv_inv_def owners_live_def pool_same_def nth_list_update split: if_splits)
    ultimately show ?case using refs' p' inv by (simp add: kv_inv_def refs_exact_def pool_same_def)
  qed (use sr in simp)
qed

subsection \<open>Creating, decorating and dropping a sequence\<close>

lemma wp_create_sequence:
  assumes inv: "kv_inv p qs ext"
  shows "wp (create_sequence env n)
    (\<lambda>q p'. kv_inv p' (qs @ [q]) ext \<and> sq_maximum_logical_length q = n \<and> sq_logical_length q = 0 \<and>
       sq_allocated_block_count q = 0 \<and> sq_shared_block_count q = 0 \<and> sq_pending q = None \<and>
       \<not> sq_poisoned q \<and> p' = p\<lparr>kp_next_sequence_id := kp_next_sequence_id p + 1\<rparr>)
    (\<lambda>e p'. p' = p) p"
  unfolding create_sequence_def
proof (intro wp_guards wp_withI wp_letI, goal_cases)
  case g: (5 m "next" q)
  let ?id = "kp_next_sequence_id p" and ?p = "p\<lparr>kp_next_sequence_id := kp_next_sequence_id p + 1\<rparr>"
  have pinv: "pool_inv p" using inv by (simp add: kv_inv_def)
  have m: "m = n" "n \<le> u32_max" "next = ?id + 1" using g by auto
  have q: "sq_pool_cookie q = kp_cookie p" "sq_sequence_id q = \<lparr>sid_pool_cookie = kp_cookie p, sid_value = ?id\<rparr>"
    "sq_maximum_logical_length q = n" "sq_block_ids q = replicate (blocks_for_length n) None"
    "sq_physical_block_ids q = replicate (blocks_for_length n) EMPTY_PHYSICAL_BLOCK_ID"
    "sq_valid_tokens q = replicate (blocks_for_length n) 0" "sq_allocated_block_count q = 0"
    "sq_shared_block_count q = 0" "sq_logical_length q = 0" "sq_pending q = None" "\<not> sq_poisoned q"
    using g m by (auto simp: sequence_state_new_def boxed_filled_def Let_def split: if_splits)
  have "slot_ok c (Suc n) s" if "slot_ok c n s" for c n s
    using that by (auto simp: slot_ok_def less_SucI split: option.splits)
  then have pinv': "pool_inv ?p"
    using pinv unfolding pool_inv_def by simp
  have fresh: "bs_owner (kp_slots p ! i) \<noteq> Some (sq_sequence_id q)" if "i < length (kp_slots p)" for i
    using pool_inv_slot [OF pinv that] q(2) by (auto simp: slot_ok_def)
  have one: "1 \<le> ?id" using pinv by (simp add: pool_inv_def)
  have core: "seq_core ?p q" "seq_len q" "hold q i = 0" for i
    using q m one fresh
    by (auto simp: seq_core_def seq_ids_def seq_shape_def phys_def seq_len_def token_counts_def
        blocks_for_length_def hold_def shared_phys_def)
  have "sid_value (sq_sequence_id r) < ?id" if "r \<in> set qs" for r
    using inv that by (auto simp: kv_inv_def seq_core_def seq_ids_def)
  then have new: "sq_sequence_id q \<notin> sq_sequence_id ` set qs"
    using q(2) by (metis imageE less_irrefl sequence_id.select_convs(2))
  have bk: "block_ok ?p r j = block_ok p r j" for r j by (simp add: block_ok_def)
  have "seq_core ?p r" if "r \<in> set qs" for r
    using inv that bk by (auto simp: kv_inv_def seq_core_def seq_ids_def)
  then have "kv_inv ?p (qs @ [q]) ext"
    using inv core new pinv'
    by (auto simp: kv_inv_def ext_ok_def refs_exact_def owners_live_def total_hold_def)
  then show ?case using q m by (simp add: wp_simps)
qed auto

lemma wp_seq_attach_sidecar:
  assumes ok: "kv_ok (q, p)" and len: "seq_len q"
  shows "wp (seq_attach_sidecar j m)
    (\<lambda>_ (q', p'). q' = q \<and> kv_step (q, p) (q', p') \<and> kp_free_list p' = kp_free_list p)
    (\<lambda>_ w. w = (q, p)) (q, p)"
  unfolding seq_attach_sidecar_def wp_withM prod.case
proof (intro wp_guards, goal_cases)
  case g: (4 _ _ b)
  have inv: "pool_inv p" and core: "seq_core p q" and sh: "seq_shape q" and ids: "seq_ids p q"
    using ok by (auto simp: kv_ok_def seq_core_def)
  have sid: "sid_value (sq_sequence_id q) \<noteq> SHARED_BLOCK_OWNER" using ids by (simp add: seq_ids_def)
  let ?i = "bid_physical_index b"
  show ?case unfolding wp_on_pool
  proof (rule wp_weaken [OF wp_pool_attach_sidecar [OF inv sid]], goal_cases)
    case (1 x p')
    then have i: "?i < length (kp_slots p)" and own: "bs_owner (kp_slots p ! ?i) = Some (sq_sequence_id q)"
      by (auto simp: validate_block_Inr)
    have r0: "bs_shared_references (kp_slots p ! ?i) = 0" by (rule private_slot_refs [OF inv i own sid])
    have "kv_step (q, p) (q, p')"
    proof (rule kv_step_one_slot [OF ok _ _ i])
      show "kp_slots p' = (kp_slots p)[?i := (kp_slots p ! ?i)\<lparr>bs_sidecar := Some m\<rparr>]" using 1 by simp
      show "block_ok p' q k" if "k < sq_allocated_block_count q" for k
        by (rule block_ok_cong [of p]) (use core 1 i that in \<open>auto simp: seq_core_def nth_list_update\<close>)
    qed (use 1 sh core own r0 core_private_slot [OF core] i in \<open>auto simp: seq_core_def slot_step_def\<close>)
    then show ?case using 1 by simp
  qed auto
qed auto

text \<open>\<open>reclaim_sequence\<close>: the scan frees exactly the slots of the orphan.\<close>

lemma wp_reclaim_scan:
  assumes "pool_inv p" and "sid_value sid \<noteq> SHARED_BLOCK_OWNER"
    and "\<forall>i\<in>set is. i < length (kp_slots p)" and "distinct is"
  shows "wp (reclaim_scan sid is n)
    (\<lambda>_ p'. pool_inv p' \<and> pool_same p p' \<and> (\<forall>i<length (kp_slots p). kp_slots p' ! i =
       (if i \<in> set is \<and> bs_owner (kp_slots p ! i) = Some sid then freed (kp_slots p ! i) else kp_slots p ! i)))
    (\<lambda>_ _. False) p"
  using assms
proof (induction "is" arbitrary: p n)
  case Nil
  then show ?case by (simp add: wp_simps)
next
  case (Cons i js)
  have i: "i < length (kp_slots p)" using Cons.prems by simp
  show ?case
  proof (cases "bs_owner (kp_slots p ! i) = Some sid")
    case True
    have r: "bs_shared_references (kp_slots p ! i) = 0" by (rule private_slot_refs [OF Cons.prems(1) i True Cons.prems(2)])
    note rel = release_slot_inv [OF Cons.prems(1) i _ r]
    have "wp (reclaim_scan sid js (n + 1))
      (\<lambda>_ p'. pool_inv p' \<and> pool_same (release_slot i p) p' \<and> (\<forall>k<length (kp_slots p). kp_slots p' ! k =
         (if k \<in> set js \<and> bs_owner (kp_slots (release_slot i p) ! k) = Some sid
          then freed (kp_slots (release_slot i p) ! k) else kp_slots (release_slot i p) ! k)))
      (\<lambda>_ _. False) (release_slot i p)"
      using Cons.IH [of "release_slot i p" "n + 1"] Cons.prems rel True by (simp add: pool_same_def)
    then show ?thesis unfolding reclaim_scan.simps wp_withM using True
      by (simp add: wp_simps)
        (erule wp_weaken, use rel True i Cons.prems(4) in \<open>auto simp: pool_same_def nth_list_update\<close>)
  next
    case False
    then show ?thesis unfolding reclaim_scan.simps wp_withM using Cons.prems
      by (simp, intro wp_weaken [OF Cons.IH]) auto
  qed
qed

definition shared_blocks :: "sequence_state \<Rightarrow> block_id list" where
  "shared_blocks q = List.map_filter id (take (sq_shared_block_count q) (sq_block_ids q))"

lemma shared_blocks_phys:
  assumes core: "seq_core p q"
  shows "map bid_physical_index (shared_blocks q) = shared_phys q"
    and "b \<in> set (shared_blocks q) \<Longrightarrow> \<exists>j<sq_shared_block_count q. sq_block_ids q ! j = Some b"
proof -
  let ?xs = "take (sq_shared_block_count q) (sq_block_ids q)"
  have sh: "seq_shape q" using core by (simp add: seq_core_def)
  have len: "length ?xs = sq_shared_block_count q" using sh by (simp add: seq_shape_def)
  have ok: "block_ok p q j" if "j < sq_shared_block_count q" for j
    using core that sh by (simp add: seq_core_def seq_shape_def)
  have some: "\<forall>x\<in>set ?xs. x \<noteq> None"
  proof
    fix x assume "x \<in> set ?xs"
    then obtain j where "j < sq_shared_block_count q" "?xs ! j = x" using len by (auto simp: in_set_conv_nth)
    then show "x \<noteq> None" using ok [of j] by (auto simp: block_ok_def)
  qed
  have mf: "List.map_filter id xs = map the xs" if "\<forall>x\<in>set xs. x \<noteq> None" for xs :: "block_id option list"
    using that by (induction xs) (auto simp: List.map_filter_simps)
  have eq: "shared_blocks q = map the ?xs" unfolding shared_blocks_def by (rule mf [OF some])
  show "map bid_physical_index (shared_blocks q) = shared_phys q"
    unfolding eq
  proof (rule nth_equalityI)
    show "length (map bid_physical_index (map the ?xs)) = length (shared_phys q)"
      using sh by (simp add: shared_phys_def seq_shape_def)
    fix j assume "j < length (map bid_physical_index (map the ?xs))"
    then have j: "j < sq_shared_block_count q" by simp
    then show "map bid_physical_index (map the ?xs) ! j = shared_phys q ! j"
      using ok [OF j] sh by (auto simp: block_ok_def shared_phys_def seq_shape_def)
  qed
  show "\<exists>j<sq_shared_block_count q. sq_block_ids q ! j = Some b" if b: "b \<in> set (shared_blocks q)"
  proof -
    have "b \<in> the ` set ?xs" using b eq by simp
    then obtain j where "j < sq_shared_block_count q" "the (sq_block_ids q ! j) = b"
      using len by (auto simp: in_set_conv_nth)
    then show ?thesis using ok [of j] by (auto simp: block_ok_def)
  qed
qed

lemma distinct_count: "distinct xs \<Longrightarrow> length (filter (\<lambda>x. x = i) xs) = (if i \<in> set xs then 1 else 0)"
  by (induction xs) auto

lemma shared_blocks_count:
  assumes "seq_core p q"
  shows "ext_count (shared_blocks q) i = hold q i"
proof -
  have d: "distinct (shared_phys q)"
    using assms phys_split [of q] by (auto simp: seq_core_def)
  have "ext_count (shared_blocks q) i = length (filter (\<lambda>x. x = i) (map bid_physical_index (shared_blocks q)))"
    by (simp add: ext_count_def filter_map o_def)
  also have "\<dots> = hold q i"
    unfolding shared_blocks_phys(1) [OF assms] by (simp add: distinct_count [OF d] hold_def)
  finally show ?thesis .
qed

lemma kv_inv_orphan:
  assumes inv: "kv_inv p (xs @ q # ys) ext" and p1: "pool_inv p1" "pool_same p p1"
    and slots: "\<And>i. i < length (kp_slots p) \<Longrightarrow> kp_slots p1 ! i =
      (if bs_owner (kp_slots p ! i) = Some (sq_sequence_id q) then freed (kp_slots p ! i) else kp_slots p ! i)"
  shows "kv_inv p1 (xs @ ys) (shared_blocks q @ ext)"
proof -
  have pinv: "pool_inv p" and core: "seq_core p q" using inv by (auto simp: kv_inv_def)
  have sid: "sid_value (sq_sequence_id q) \<noteq> SHARED_BLOCK_OWNER" using core by (simp add: seq_core_def seq_ids_def)
  have own0: "bs_shared_references (kp_slots p ! i) = 0"
    if "i < length (kp_slots p)" "bs_owner (kp_slots p ! i) = Some (sq_sequence_id q)" for i
    by (rule private_slot_refs [OF pinv that sid])
  have same_refs: "bs_shared_references (kp_slots p1 ! i) = bs_shared_references (kp_slots p ! i)"
    if "i < length (kp_slots p)" for i using slots [OF that] own0 [OF that] by (simp add: freed_def)
  have same_gen: "bs_generation (kp_slots p1 ! i) = bs_generation (kp_slots p ! i)"
    if "i < length (kp_slots p)" for i using slots [OF that] by (simp add: freed_def)
  have st: "slot_step (sq_sequence_id q) 0 0 (kp_slots p ! i) (kp_slots p1 ! i)"
    if "i < length (kp_slots p)" for i
    using slots [OF that] own0 [OF that] by (auto simp: slot_step_def freed_def)
  have "seq_core p1 r" if r: "r \<in> set (xs @ ys)" for r
  proof (rule other_core [OF pinv _ _ p1(2) st])
    show rc: "seq_core p r" using inv r by (auto simp: kv_inv_def)
    have "sq_sequence_id q \<notin> sq_sequence_id ` set (xs @ ys)" using inv by (auto simp: kv_inv_def)
    then show "sq_sequence_id r \<noteq> sq_sequence_id q" using r by (metis imageI)
    show "0 < bs_shared_references (kp_slots p1 ! i)" if "i < length (kp_slots p)" "0 < hold r i" for i
      using hold_slot [OF rc, of i] same_refs [OF that(1)] that(2) by simp
  qed
  moreover have "refs_exact p1 (xs @ ys) (shared_blocks q @ ext)"
    using inv p1(2) same_refs shared_blocks_count [OF core]
    by (simp add: kv_inv_def refs_exact_def pool_same_def total_hold_def)
  moreover have "ext_ok p1 (shared_blocks q @ ext)"
  proof -
    have "bid_pool_cookie b = kp_cookie p \<and> bid_physical_index b < length (kp_slots p) \<and>
        bs_generation (kp_slots p ! bid_physical_index b) = bid_generation b" if b: "b \<in> set (shared_blocks q)" for b
    proof -
      obtain j where j: "j < sq_shared_block_count q" "sq_block_ids q ! j = Some b"
        using shared_blocks_phys(2) [OF core b] by blast
      then have "shared_references p b = Inr (bs_shared_references (kp_slots p ! bid_physical_index b))"
        using core_shared_references [OF pinv core] by blast
      then show ?thesis by (simp add: shared_references_Inr)
    qed
    then show ?thesis using inv p1(2) same_gen by (auto simp: kv_inv_def ext_ok_def pool_same_def)
  qed
  moreover have "owners_live p1 (xs @ ys)"
    using inv slots p1(2) by (auto simp: kv_inv_def owners_live_def pool_same_def freed_def split: if_splits)
  ultimately show ?thesis using inv p1 by (auto simp: kv_inv_def)
qed

lemma wp_evict_all:
  assumes "kv_inv p qs (bs @ ext)"
  shows "wp (forM bs release_shared_block) (\<lambda>_ p'. kv_inv p' qs ext \<and> pool_same p p') (\<lambda>_ _. False) p"
  using assms
proof (induction bs arbitrary: p)
  case Nil
  then show ?case by (simp add: wp_simps)
next
  case (Cons b bs)
  show ?case unfolding forM.simps
    by (rule wp_callI [OF kv_inv_evict [OF Cons.prems, of b]])
      (auto intro!: wp_weaken [OF Cons.IH] intro: pool_same_trans)
qed

lemma wp_reclaim_sequence:
  assumes inv: "kv_inv p (xs @ q # ys) ext"
  shows "wp (reclaim_sequence (abandon_for_reclaim q))
    (\<lambda>_ p'. kv_inv p' (xs @ ys) ext \<and> pool_same p p') (\<lambda>_ _. False) p"
proof -
  have pinv: "pool_inv p" and core: "seq_core p q" using inv by (auto simp: kv_inv_def)
  have sid: "sid_value (sq_sequence_id q) \<noteq> SHARED_BLOCK_OWNER" "sid_pool_cookie (sq_sequence_id q) = kp_cookie p"
    using core by (simp_all add: seq_core_def seq_ids_def)
  have valid: "forE (shared_blocks q) (\<lambda>b. bindE (shared_references p b) (\<lambda>_. Inr ())) = Inr ()"
    unfolding forE_Inr
  proof
    fix b assume "b \<in> set (shared_blocks q)"
    then obtain j where "j < sq_shared_block_count q" "sq_block_ids q ! j = Some b"
      using shared_blocks_phys(2) [OF core] by blast
    then show "bindE (shared_references p b) (\<lambda>_. Inr ()) = Inr ()"
      using core_shared_references [OF pinv core] by simp
  qed
  let ?is = "rev [0..<length (kp_slots p)]"
  have scan: "wp (reclaim_scan (sq_sequence_id q) ?is 0)
      (\<lambda>_ p'. kv_inv p' (xs @ ys) (shared_blocks q @ ext) \<and> pool_same p p') (\<lambda>_ _. False) p"
    by (rule wp_weaken [OF wp_reclaim_scan [OF pinv sid(1)]]) (auto intro: kv_inv_orphan [OF inv])
  show ?thesis
    unfolding reclaim_sequence_def abandon_for_reclaim_def
    apply (simp add: Let_def wp_simps valid sid shared_blocks_def [symmetric])
    apply (rule wp_weaken [OF scan])
     apply (auto simp: wp_simps intro!: wp_weaken [OF wp_evict_all] intro: pool_same_trans)
    done
qed

end
