(* ===== verification/Kv_Machine.thy ===== *)
theory Kv_Machine
  imports Kv_System
begin

text \<open>
  The paged KV cache as a state machine: any interleaving of the operations of any number of
  sequences, of the prefix cache's holds, of sequence creation and of reclaiming an orphan. The
  invariant of \<open>Kv_System\<close> holds in every reachable state, and generations never repeat, so a
  handle of a released block is rejected for ever.
\<close>

datatype seq_op =
    OpReserve host_env usize
  | OpCommit sequence_reservation
  | OpRollback sequence_reservation
  | OpPoison sequence_reservation
  | OpRollbackAbandoned
  | OpTruncate usize
  | OpReset
  | OpAttachSidecar usize optional_block_metadata

text \<open>The state an operation leaves, whatever its outcome.\<close>

fun exec_seq_op :: "seq_op \<Rightarrow> sequence_state \<times> kv_block_pool \<Rightarrow> sequence_state \<times> kv_block_pool" where
  "exec_seq_op (OpReserve env n) w = snd (reserve_to env n w)"
| "exec_seq_op (OpCommit r) w = snd (seq_commit r w)"
| "exec_seq_op (OpRollback r) w = snd (seq_rollback r w)"
| "exec_seq_op (OpPoison r) w = snd (seq_poison r w)"
| "exec_seq_op OpRollbackAbandoned w = snd (rollback_abandoned_reservation w)"
| "exec_seq_op (OpTruncate n) w = snd (truncate_to n w)"
| "exec_seq_op OpReset w = snd (seq_reset w)"
| "exec_seq_op (OpAttachSidecar j m) w = snd (seq_attach_sidecar j m w)"

type_synonym kv_system = "kv_block_pool \<times> sequence_state list \<times> block_id list"

text \<open>The steps. Adopting a cached block is the one operation with a caller's obligation: the
  block is one the cache holds, the table does not list it yet and its tokens fit the capacity.\<close>

inductive kv_sys_step :: "kv_system \<Rightarrow> kv_system \<Rightarrow> bool" where
  create: "create_sequence env n p = (Inr q, p') \<Longrightarrow> kv_sys_step (p, qs, ext) (p', qs @ [q], ext)"
| create_fail: "create_sequence env n p = (Inl e, p') \<Longrightarrow> kv_sys_step (p, qs, ext) (p', qs, ext)"
| op: "k < length qs \<Longrightarrow> exec_seq_op f (qs ! k, p) = (q', p') \<Longrightarrow>
    kv_sys_step (p, qs, ext) (p', qs[k := q'], ext)"
| adopt: "k < length qs \<Longrightarrow> b \<in> set ext \<Longrightarrow> bid_physical_index b \<notin> set (phys (qs ! k)) \<Longrightarrow>
    (sq_allocated_block_count (qs ! k) + 1) * KV_BLOCK_SIZE \<le> sq_maximum_logical_length (qs ! k) \<Longrightarrow>
    adopt_shared_block b (qs ! k, p) = (r, (q', p')) \<Longrightarrow> kv_sys_step (p, qs, ext) (p', qs[k := q'], ext)"
| share: "k < length qs \<Longrightarrow> share_next_block (qs ! k, p) = (Inr b, (q', p')) \<Longrightarrow>
    kv_sys_step (p, qs, ext) (p', qs[k := q'], ext @ [b])"
| share_fail: "k < length qs \<Longrightarrow> share_next_block (qs ! k, p) = (Inl e, (q', p')) \<Longrightarrow>
    kv_sys_step (p, qs, ext) (p', qs[k := q'], ext)"
| evict: "b \<in> set ext \<Longrightarrow> release_shared_block b p = (r, p') \<Longrightarrow>
    kv_sys_step (p, qs, ext) (p', qs, remove1 b ext)"
| reclaim: "reclaim_sequence (abandon_for_reclaim q) p = (r, p') \<Longrightarrow>
    kv_sys_step (p, xs @ q # ys, ext) (p', xs @ ys, ext)"

inductive_cases kv_sys_stepE: "kv_sys_step s t"

definition kv_sys_inv :: "kv_system \<Rightarrow> bool" where
  "kv_sys_inv s = (case s of (p, qs, ext) \<Rightarrow> kv_inv p qs ext)"

definition kv_sys_init :: "kv_system \<Rightarrow> bool" where
  "kv_sys_init s \<longleftrightarrow> (\<exists>env layout c c' p. layout_wf layout \<and>
     kv_block_pool_new env layout c = (Inr p, c') \<and> s = (p, [], []))"

text \<open>Generations only grow, and a slot that leaves the free list has a new one.\<close>

definition gen_step :: "block_slot \<Rightarrow> block_slot \<Rightarrow> bool" where
  "gen_step s s' \<longleftrightarrow> bs_generation s \<le> bs_generation s' \<and>
     (bs_owner s = None \<and> bs_owner s' \<noteq> None \<longrightarrow> bs_generation s < bs_generation s')"

definition gen_le :: "kv_block_pool \<Rightarrow> kv_block_pool \<Rightarrow> bool" where
  "gen_le p p' \<longleftrightarrow> kp_cookie p' = kp_cookie p \<and> length (kp_slots p') = length (kp_slots p) \<and>
     (\<forall>i<length (kp_slots p). gen_step (kp_slots p ! i) (kp_slots p' ! i))"

lemma gen_step_refl: "gen_step s s"
  by (auto simp: gen_step_def)

lemma gen_step_trans: "gen_step s t \<Longrightarrow> gen_step t u \<Longrightarrow> gen_step s u"
  unfolding gen_step_def by (meson le_less_trans less_le_trans order_trans)

lemma gen_le_refl [simp]: "gen_le p p"
  by (simp add: gen_le_def gen_step_refl)

lemma gen_le_trans: "gen_le p q \<Longrightarrow> gen_le q r \<Longrightarrow> gen_le p r"
  unfolding gen_le_def by (metis gen_step_trans)

lemma gen_le_update:
  assumes "pool_same p p'" and "kp_slots p' = (kp_slots p)[i := s]"
    and "bs_generation s = bs_generation (kp_slots p ! i)" and "bs_owner (kp_slots p ! i) \<noteq> None"
  shows "gen_le p p'"
proof -
  have "gen_step (kp_slots p ! j) (kp_slots p' ! j)" if "j < length (kp_slots p)" for j
    using assms that by (cases "j = i") (auto simp: gen_step_refl, auto simp: gen_step_def)
  then show ?thesis using assms(1) by (simp add: gen_le_def pool_same_def)
qed

lemma gen_le_step: "kv_step (q, p) (q', p') \<Longrightarrow> gen_le p p'"
  by (auto simp: kv_step_def gen_le_def gen_step_def pool_same_def slot_step_def)

lemma wp_exec:
  assumes "wp m (\<lambda>_. P) (\<lambda>_. P) s"
  shows "P (snd (m s))"
  using assms by (auto simp: wp_def split: prod.splits sum.splits)

lemma exec_seq_op_step:
  assumes ok: "kv_ok (q, p)" and len: "seq_len q" and exec: "exec_seq_op f (q, p) = (q', p')"
  shows "kv_step (q, p) (q', p')" and "seq_len q'"
proof -
  let ?P = "\<lambda>w. kv_step (q, p) w \<and> seq_len (fst w)"
  have here: "?P (q, p)" using kv_step_refl [OF ok] len by simp
  have "?P (exec_seq_op f (q, p))"
  proof (cases f)
    case (OpReserve env n)
    have "wp (reserve_to env n) (\<lambda>_. ?P) (\<lambda>_. ?P) (q, p)"
      by (rule wp_weaken [OF wp_reserve_to [OF ok len]]) (use len reserved_state_step [OF _ len] in auto)
    then show ?thesis using OpReserve wp_exec by fastforce
  next
    case (OpCommit r)
    have "wp (seq_commit r) (\<lambda>_. ?P) (\<lambda>_. ?P) (q, p)"
      by (rule wp_weaken [OF wp_seq_commit [OF ok len]]) (use here committed_state_len [OF len] in auto)
    then show ?thesis using OpCommit wp_exec by fastforce
  next
    case (OpRollback r)
    have "wp (seq_rollback r) (\<lambda>_. ?P) (\<lambda>_. ?P) (q, p)"
      by (rule wp_weaken [OF wp_seq_rollback [OF ok len]]) (use here in auto)
    then show ?thesis using OpRollback wp_exec by fastforce
  next
    case (OpPoison r)
    have "wp (seq_poison r) (\<lambda>_. ?P) (\<lambda>_. ?P) (q, p)"
      by (rule wp_weaken [OF wp_seq_poison [OF ok len]]) (use here in auto)
    then show ?thesis using OpPoison wp_exec by fastforce
  next
    case OpRollbackAbandoned
    have "wp rollback_abandoned_reservation (\<lambda>_. ?P) (\<lambda>_. ?P) (q, p)"
      by (rule wp_weaken [OF wp_rollback_abandoned [OF ok len]]) (use here in auto)
    then show ?thesis using OpRollbackAbandoned wp_exec by fastforce
  next
    case (OpTruncate n)
    have "wp (truncate_to n) (\<lambda>_. ?P) (\<lambda>_. ?P) (q, p)"
      by (rule wp_weaken [OF wp_truncate_to [OF ok len]]) (use here in auto)
    then show ?thesis using OpTruncate wp_exec by fastforce
  next
    case OpReset
    have "wp seq_reset (\<lambda>_. ?P) (\<lambda>_. ?P) (q, p)"
      by (rule wp_weaken [OF wp_seq_reset [OF ok len]]) auto
    then show ?thesis using OpReset wp_exec by fastforce
  next
    case (OpAttachSidecar j m)
    have "wp (seq_attach_sidecar j m) (\<lambda>_. ?P) (\<lambda>_. ?P) (q, p)"
      by (rule wp_weaken [OF wp_seq_attach_sidecar [OF ok len]]) (use here in auto)
    then show ?thesis using OpAttachSidecar wp_exec by fastforce
  qed
  then show "kv_step (q, p) (q', p')" and "seq_len q'" using exec by simp_all
qed

lemma kv_inv_ok: "kv_inv p qs ext \<Longrightarrow> k < length qs \<Longrightarrow> kv_ok (qs ! k, p) \<and> seq_len (qs ! k)"
  by (auto simp: kv_inv_def kv_ok_def)

lemma gen_le_release_shared: "pool_inv p \<Longrightarrow> wp (release_shared_block b) (\<lambda>_. gen_le p) (\<lambda>_. gen_le p) p"
  by (rule wp_weaken [OF wp_release_shared_block])
    (auto simp: shared_references_Inr freed_def intro!: gen_le_update)

lemma gen_le_evict_all:
  assumes "kv_inv p qs (bs @ ext)"
  shows "wp (forM bs release_shared_block) (\<lambda>_. gen_le p) (\<lambda>_. gen_le p) p"
  using assms
proof (induction bs arbitrary: p)
  case Nil
  then show ?case by (simp add: wp_simps)
next
  case (Cons b bs)
  have pinv: "pool_inv p" using Cons.prems by (simp add: kv_inv_def)
  show ?case unfolding forM.simps
    by (rule wp_callI [OF wp_conj [OF kv_inv_evict [OF Cons.prems, of b] gen_le_release_shared [OF pinv]]])
      (auto intro!: wp_weaken [OF Cons.IH] intro: gen_le_trans)
qed

lemma gen_le_reclaim:
  assumes inv: "kv_inv p (xs @ q # ys) ext"
  shows "wp (reclaim_sequence (abandon_for_reclaim q)) (\<lambda>_. gen_le p) (\<lambda>_. gen_le p) p"
proof -
  have pinv: "pool_inv p" and core: "seq_core p q" using inv by (auto simp: kv_inv_def)
  have sid: "sid_value (sq_sequence_id q) \<noteq> SHARED_BLOCK_OWNER" "sid_pool_cookie (sq_sequence_id q) = kp_cookie p"
    using core by (simp_all add: seq_core_def seq_ids_def)
  have scan: "wp (reclaim_scan (sq_sequence_id q) (rev [0..<length (kp_slots p)]) 0)
      (\<lambda>_ p'. kv_inv p' (xs @ ys) (shared_blocks q @ ext) \<and> gen_le p p') (\<lambda>_ _. False) p"
  proof (rule wp_weaken [OF wp_reclaim_scan [OF pinv sid(1)]], goal_cases)
    case (3 x p')
    then have "kv_inv p' (xs @ ys) (shared_blocks q @ ext)" by (auto intro: kv_inv_orphan [OF inv])
    moreover have "gen_le p p'" using 3 by (auto simp: gen_le_def gen_step_def pool_same_def freed_def)
    ultimately show ?case by simp
  qed auto
  have go: "wp (forM (shared_blocks q) release_shared_block) (\<lambda>_. gen_le p) (\<lambda>_. gen_le p) p'"
    if "kv_inv p' (xs @ ys) (shared_blocks q @ ext)" "gen_le p p'" for p'
    by (rule wp_weaken [OF gen_le_evict_all [OF that(1)]]) (use gen_le_trans [OF that(2)] in auto)
  show ?thesis
    unfolding reclaim_sequence_def abandon_for_reclaim_def
    by (auto simp: Let_def wp_simps sid shared_blocks_def [symmetric] split: sum.splits
        intro!: wp_weaken [OF scan] wp_weaken [OF go])
qed

lemma gen_le_share:
  assumes ok: "kv_ok (q, p)"
  shows "wp share_next_block (\<lambda>_ w. gen_le p (snd w)) (\<lambda>_ w. w = (q, p)) (q, p)"
proof (rule wp_weaken [OF wp_share_next_block [OF ok]], goal_cases)
  case (1 b w)
  have pinv: "pool_inv p" using ok by (simp add: kv_ok_def)
  obtain sid where v: "validate_block p b sid = Inr ()" "snd w = shared_pool b p" using 1 by (cases w) auto
  show ?case unfolding v(2)
    by (rule gen_le_update [OF shared_pool_inv(2,3) [OF pinv v(1)]]) (use v(1) in \<open>auto simp: validate_block_Inr\<close>)
qed simp

text \<open>Every step keeps the invariant and moves generations forward.\<close>

lemma kv_sys_step_inv:
  assumes "kv_sys_step s t" and "kv_sys_inv s"
  shows "kv_sys_inv t \<and> gen_le (fst s) (fst t)"
  using assms
proof (induction rule: kv_sys_step.induct)
  case (create env n p q p' qs ext)
  then have "kv_inv p qs ext" by (simp add: kv_sys_inv_def)
  from wpD_Inr [OF wp_create_sequence [OF this] create(1)] show ?case
    by (auto simp: kv_sys_inv_def gen_le_def gen_step_refl)
next
  case (create_fail env n p e p' qs ext)
  then have "kv_inv p qs ext" by (simp add: kv_sys_inv_def)
  with wpD_Inl [OF wp_create_sequence [OF this] create_fail(1)] show ?case by (simp add: kv_sys_inv_def)
next
  case (op k qs f p q' p' ext)
  then have inv: "kv_inv p qs ext" by (simp add: kv_sys_inv_def)
  note ok = kv_inv_ok [OF inv op(1)]
  note st = exec_seq_op_step [OF ok [THEN conjunct1] ok [THEN conjunct2] op(2)]
  show ?case using kv_inv_step [OF inv op(1) st] gen_le_step [OF st(1)] by (simp add: kv_sys_inv_def)
next
  case (adopt k qs b ext p r q' p')
  then have inv: "kv_inv p qs ext" by (simp add: kv_sys_inv_def)
  note ok = kv_inv_ok [OF inv adopt(1)]
  have "wp (adopt_shared_block b)
      (\<lambda>_ w. kv_step (qs ! k, p) w \<and> seq_len (fst w)) (\<lambda>_ w. kv_step (qs ! k, p) w \<and> seq_len (fst w)) (qs ! k, p)"
    by (rule wp_weaken [OF wp_adopt_shared_block [OF ok [THEN conjunct1] ok [THEN conjunct2] adopt(4,3)]])
      (use ok kv_step_refl in auto)
  from wp_exec [OF this] adopt(5) have "kv_step (qs ! k, p) (q', p')" "seq_len q'" by simp_all
  then show ?case using kv_inv_step [OF inv adopt(1)] gen_le_step by (simp add: kv_sys_inv_def)
next
  case (share k qs p b q' p' ext)
  then have inv: "kv_inv p qs ext" by (simp add: kv_sys_inv_def)
  show ?case using kv_inv_share [OF inv share(1,2)]
      wpD_Inr [OF gen_le_share share(2)] kv_inv_ok [OF inv share(1)] by (simp add: kv_sys_inv_def)
next
  case (share_fail k qs p e q' p' ext)
  then have inv: "kv_inv p qs ext" by (simp add: kv_sys_inv_def)
  show ?case using wpD_Inl [OF gen_le_share share_fail(2)] kv_inv_ok [OF inv share_fail(1)] inv
    by (simp add: kv_sys_inv_def)
next
  case (evict b ext p r p' qs)
  then have inv: "kv_inv p qs ext" by (simp add: kv_sys_inv_def)
  then have pinv: "pool_inv p" by (simp add: kv_inv_def)
  have "wp (release_shared_block b) (\<lambda>_ p'. kv_inv p' qs (remove1 b ext) \<and> gen_le p p')
      (\<lambda>_ p'. kv_inv p' qs (remove1 b ext) \<and> gen_le p p') p"
    by (rule wp_weaken [OF wp_conj [OF kv_inv_evict [OF inv evict(1)] gen_le_release_shared [OF pinv]]]) auto
  from wp_exec [OF this] evict(2) show ?case by (simp add: kv_sys_inv_def)
next
  case (reclaim q p r p' xs ys ext)
  then have inv: "kv_inv p (xs @ q # ys) ext" by (simp add: kv_sys_inv_def)
  have "wp (reclaim_sequence (abandon_for_reclaim q)) (\<lambda>_ p'. kv_inv p' (xs @ ys) ext \<and> gen_le p p')
      (\<lambda>_ p'. kv_inv p' (xs @ ys) ext \<and> gen_le p p') p"
    by (rule wp_weaken [OF wp_conj [OF wp_reclaim_sequence [OF inv] gen_le_reclaim [OF inv]]]) auto
  from wp_exec [OF this] reclaim(1) show ?case by (simp add: kv_sys_inv_def)
qed

lemma kv_sys_init_inv: "kv_sys_init s \<Longrightarrow> kv_sys_inv s"
proof -
  assume "kv_sys_init s"
  then obtain env layout c c' p where s: "layout_wf layout" "kv_block_pool_new env layout c = (Inr p, c')"
    "s = (p, [], [])" by (auto simp: kv_sys_init_def)
  have inv: "pool_inv p" and a: "kp_allocated_block_count p = 0" using pool_new_inv [OF s(1,2)] by auto
  have none: "bs_owner (kp_slots p ! i) = None" if "i < length (kp_slots p)" for i
    using allocated_pos [OF inv that] a by (cases "bs_owner (kp_slots p ! i)") auto
  then have "bs_shared_references (kp_slots p ! i) = 0" if "i < length (kp_slots p)" for i
    using pool_inv_slot [OF inv that] that by (simp add: slot_ok_def)
  then show "kv_sys_inv s" using inv none s(3)
    by (simp add: kv_sys_inv_def kv_inv_def ext_ok_def refs_exact_def total_hold_def owners_live_def)
qed

interpretation kv: invariant_system kv_sys_init kv_sys_step kv_sys_inv "\<lambda>s t. gen_le (fst s) (fst t)"
  by unfold_locales (use kv_sys_init_inv kv_sys_step_inv gen_le_trans in auto)

subsection \<open>A small instance\<close>

text \<open>A pool of four blocks, one sequence with room for forty tokens that has reserved twenty.\<close>

definition demo_env :: host_env where
  "demo_env = \<lparr>he_alloc = (\<lambda>_ _. True), he_alloc_elapsed_ns = (\<lambda>_. 5), he_cpu_elapsed_ns = 7,
     he_block_slot_bytes = 64\<rparr>"

definition demo_layout :: kv_layout where
  "demo_layout = projr (kv_layout_checked 1 4 1 1)"

definition demo_pool0 :: kv_block_pool where
  "demo_pool0 = projr (fst (kv_block_pool_new demo_env demo_layout 1))"

definition demo_seq1 :: sequence_state where
  "demo_seq1 = projr (fst (create_sequence demo_env 40 demo_pool0))"

definition demo_pool1 :: kv_block_pool where
  "demo_pool1 = snd (create_sequence demo_env 40 demo_pool0)"

definition demo_res :: sequence_reservation where
  "demo_res = projr (fst (reserve_to demo_env 20 (demo_seq1, demo_pool1)))"

definition demo_kv2 :: "sequence_state \<times> kv_block_pool" where
  "demo_kv2 = snd (reserve_to demo_env 20 (demo_seq1, demo_pool1))"

definition demo_kv3 :: "sequence_state \<times> kv_block_pool" where
  "demo_kv3 = snd (seq_commit demo_res demo_kv2)"

lemma demo_runs:
  "kv_layout_checked 1 4 1 1 = Inr demo_layout"
  "fst (kv_block_pool_new demo_env demo_layout 1) = Inr demo_pool0"
  "create_sequence demo_env 40 demo_pool0 = (Inr demo_seq1, demo_pool1)"
  "reserve_to demo_env 20 (demo_seq1, demo_pool1) = (Inr demo_res, demo_kv2)"
  "\<not> isl (fst (seq_commit demo_res demo_kv2))"
  by code_simp+

lemma demo_reachable:
  "reachable kv_sys_init kv_sys_step (demo_pool0, [], [])"
  "reachable kv_sys_init kv_sys_step (demo_pool1, [demo_seq1], [])"
  "reachable kv_sys_init kv_sys_step (snd demo_kv2, [fst demo_kv2], [])"
  "reachable kv_sys_init kv_sys_step (snd demo_kv3, [fst demo_kv3], [])"
proof -
  have wf: "layout_wf demo_layout" using layout_checked_wf [OF demo_runs(1)] by simp
  have "kv_block_pool_new demo_env demo_layout 1 = (Inr demo_pool0, snd (kv_block_pool_new demo_env demo_layout 1))"
    using demo_runs(2) by (metis prod.collapse)
  then have "kv_sys_init (demo_pool0, [], [])" unfolding kv_sys_init_def using wf by blast
  then show 0: "reachable kv_sys_init kv_sys_step (demo_pool0, [], [])" by (rule reachable.start)
  have "kv_sys_step (demo_pool0, [], []) (demo_pool1, [] @ [demo_seq1], [])"
    by (rule kv_sys_step.create [OF demo_runs(3)])
  then show 1: "reachable kv_sys_init kv_sys_step (demo_pool1, [demo_seq1], [])"
    using reachable.move [OF 0] by simp
  have "kv_sys_step (demo_pool1, [demo_seq1], []) (snd demo_kv2, [demo_seq1][0 := fst demo_kv2], [])"
    by (rule kv_sys_step.op [where f = "OpReserve demo_env 20"]) (simp_all add: demo_runs(4))
  then show 2: "reachable kv_sys_init kv_sys_step (snd demo_kv2, [fst demo_kv2], [])"
    using reachable.move [OF 1] by simp
  have "kv_sys_step (snd demo_kv2, [fst demo_kv2], []) (snd demo_kv3, [fst demo_kv2][0 := fst demo_kv3], [])"
    by (rule kv_sys_step.op [where f = "OpCommit demo_res"]) (simp_all add: demo_kv3_def)
  then show "reachable kv_sys_init kv_sys_step (snd demo_kv3, [fst demo_kv3], [])"
    using reachable.move [OF 2] by simp
qed

text \<open>The committed sequence shares its first block, and a second sequence adopts it.\<close>

definition demo_block :: block_id where
  "demo_block = projr (fst (share_next_block demo_kv3))"

definition demo_kv4 :: "sequence_state \<times> kv_block_pool" where
  "demo_kv4 = snd (share_next_block demo_kv3)"

definition demo_seq5 :: sequence_state where
  "demo_seq5 = projr (fst (create_sequence demo_env 40 (snd demo_kv4)))"

definition demo_pool5 :: kv_block_pool where
  "demo_pool5 = snd (create_sequence demo_env 40 (snd demo_kv4))"

definition demo_kv6 :: "sequence_state \<times> kv_block_pool" where
  "demo_kv6 = snd (adopt_shared_block demo_block (demo_seq5, demo_pool5))"

lemma demo_sharing_runs:
  "share_next_block demo_kv3 = (Inr demo_block, demo_kv4)"
  "create_sequence demo_env 40 (snd demo_kv4) = (Inr demo_seq5, demo_pool5)"
  "adopt_shared_block demo_block (demo_seq5, demo_pool5) = (Inr (), demo_kv6)"
  "phys (fst demo_kv4) = [0, 1] \<and> phys (fst demo_kv6) = [0] \<and> bid_physical_index demo_block = 0"
  "phys demo_seq5 = [] \<and> sq_allocated_block_count demo_seq5 = 0 \<and> sq_maximum_logical_length demo_seq5 = 40"
  by code_simp+

lemma demo_sharing_reachable:
  "reachable kv_sys_init kv_sys_step (snd demo_kv6, [fst demo_kv4, fst demo_kv6], [demo_block])"
proof -
  have "kv_sys_step (snd demo_kv3, [fst demo_kv3], []) (snd demo_kv4, [fst demo_kv3][0 := fst demo_kv4], [] @ [demo_block])"
    by (rule kv_sys_step.share) (simp_all add: demo_sharing_runs(1))
  then have 4: "reachable kv_sys_init kv_sys_step (snd demo_kv4, [fst demo_kv4], [demo_block])"
    using reachable.move [OF demo_reachable(4)] by simp
  have "kv_sys_step (snd demo_kv4, [fst demo_kv4], [demo_block]) (demo_pool5, [fst demo_kv4] @ [demo_seq5], [demo_block])"
    by (rule kv_sys_step.create [OF demo_sharing_runs(2)])
  then have 5: "reachable kv_sys_init kv_sys_step (demo_pool5, [fst demo_kv4, demo_seq5], [demo_block])"
    using reachable.move [OF 4] by simp
  have "kv_sys_step (demo_pool5, [fst demo_kv4, demo_seq5], [demo_block])
      (snd demo_kv6, [fst demo_kv4, demo_seq5][1 := fst demo_kv6], [demo_block])"
    by (rule kv_sys_step.adopt [where b = demo_block and r = "Inr ()"])
      (use demo_sharing_runs(3,5) in \<open>simp_all\<close>)
  then show ?thesis using reachable.move [OF 5] by simp
qed

lemma demo_ok:
  "kv_ok (demo_seq1, demo_pool1)" "seq_len demo_seq1" "kv_ok demo_kv2" "seq_len (fst demo_kv2)"
  "kv_ok demo_kv3" "seq_len (fst demo_kv3)"
  using demo_reachable [THEN kv.reachable_inv] by (simp_all add: kv_sys_inv_def kv_inv_def kv_ok_def split_beta)

subsection \<open>The published block table\<close>

lemma sum_token_counts:
  "sum_list (map (\<lambda>j. min (len - j * KV_BLOCK_SIZE) KV_BLOCK_SIZE) [0..<n]) = min len (n * KV_BLOCK_SIZE)"
  by (induction n) (auto simp: min_def)

lemma token_counts_table:
  assumes sh: "seq_shape q" and c: "token_counts len q" and n: "sq_allocated_block_count q = blocks_for_length len"
  shows "take (blocks_for_length len) (sq_valid_tokens q) =
      map (\<lambda>j. min (len - j * KV_BLOCK_SIZE) KV_BLOCK_SIZE) [0..<blocks_for_length len]"
    and "sum_list (take (blocks_for_length len) (sq_valid_tokens q)) = len"
proof -
  show eq: "take (blocks_for_length len) (sq_valid_tokens q) =
      map (\<lambda>j. min (len - j * KV_BLOCK_SIZE) KV_BLOCK_SIZE) [0..<blocks_for_length len]"
    using sh c n by (intro nth_equalityI) (auto simp: token_counts_def seq_shape_def)
  have "len \<le> blocks_for_length len * KV_BLOCK_SIZE"
    using div_ceil_le_iff [of KV_BLOCK_SIZE len "blocks_for_length len"] by (simp add: blocks_for_length_def)
  then show "sum_list (take (blocks_for_length len) (sq_valid_tokens q)) = len"
    unfolding eq sum_token_counts by (simp add: min_def)
qed

lemma reserve_then_commit:
  assumes ok: "kv_ok (q, p)" and len: "seq_len q" and res: "reserve_to env target (q, p) = (Inr r, w)"
  obtains bs c p2 where "seq_commit r w = (Inr c, (committed_state target (reserved_state target bs q), p2))"
    and "kv_step (q, p) (committed_state target (reserved_state target bs q), p2)"
    and "seq_len (committed_state target (reserved_state target bs q))"
    and "length bs = blocks_for_length target - sq_allocated_block_count q"
    and "sq_allocated_block_count q \<le> blocks_for_length target" and "\<not> sq_poisoned q"
    and "rc_logical_length c = target" and "rc_previous_logical_length c = sq_logical_length q"
proof -
  obtain q1 p1 where w: "w = (q1, p1)" by (cases w)
  from wpD_Inr [OF wp_reserve_to [OF ok len] res] obtain bs where
    g: "sq_pending q = None" "\<not> sq_poisoned q" "sq_logical_length q \<le> target"
      "target \<le> sq_maximum_logical_length q" "r = reservation_for target q"
      "length bs = blocks_for_length target - sq_allocated_block_count q"
      "q1 = reserved_state target bs q" "kv_step (q, p) (append_blocks bs q, p1)"
    using w by auto
  note st = reserved_state_step [OF g(8) len g(1) g(6) g(3,4), folded g(7)]
  have v: "validate_reservation q1 r = Inr ()"
    by (simp add: validate_reservation_Inr g(5,7) reservation_for_def reserved_state_def)
  have t: "sr_target_logical_length r = target" using g(5) by (simp add: reservation_for_def)
  obtain out q2 p2 where c: "seq_commit r (q1, p1) = (out, (q2, p2))" by (cases "seq_commit r (q1, p1)") auto
  have out: "\<exists>c. out = Inr c"
    using wpD_Inl [OF wp_seq_commit [OF kv_step_ok [OF st(1)] st(2)]] c v by (cases out) auto
  then obtain c' where c': "out = Inr c'" by blast
  have post: "kv_step (q1, p1) (q2, p2)" "q2 = committed_state target q1"
    "rc_logical_length c' = target" "rc_previous_logical_length c' = sq_logical_length q1"
    using wpD_Inr [OF wp_seq_commit [OF kv_step_ok [OF st(1)] st(2)] c [unfolded c']] t by auto
  have "sq_logical_length q1 = sq_logical_length q" by (simp add: g(7) reserved_state_def)
  moreover have "sq_allocated_block_count q \<le> blocks_for_length target"
    using len g(1) blocks_for_length_mono [OF g(3)] by (simp add: seq_len_def)
  moreover have "seq_len q2" using committed_state_len [OF st(2) v] t post(2) by simp
  ultimately show ?thesis
    using that [of c' bs p2] c c' post g(2,6,7) kv_step_trans [OF st(1) post(1)] w by simp
qed

lemma committed_table:
  assumes ok: "kv_ok (q, p)" and len: "seq_len q" and idle: "sq_pending q = None" and np: "\<not> sq_poisoned q"
  shows "\<exists>t. block_table q = Inr t \<and> bt_logical_length t = sq_logical_length q \<and>
    bt_physical_block_ids t = phys q \<and> distinct (bt_physical_block_ids t) \<and>
    bt_valid_tokens t = map (\<lambda>j. min (sq_logical_length q - j * KV_BLOCK_SIZE) KV_BLOCK_SIZE)
      [0..<blocks_for_length (sq_logical_length q)] \<and>
    sum_list (bt_valid_tokens t) = sq_logical_length q"
proof -
  have a: "sq_allocated_block_count q = blocks_for_length (sq_logical_length q)"
    and tc: "token_counts (sq_logical_length q) q" using len idle by (auto simp: seq_len_def)
  have sh: "seq_shape q" and d: "distinct (phys q)" using ok by (auto simp: kv_ok_def seq_core_def)
  note tt = token_counts_table [OF sh tc a]
  show ?thesis using idle np a d tt
    by (simp add: block_table_def ensure_readable_def failE_def table_view_def phys_def)
qed

text \<open>Popping the reserved blocks of a reserved state and refilling gives the state before.\<close>

lemma pop_commute:
  "pop_block (q\<lparr>sq_valid_tokens := v, sq_pending := a, sq_next_reservation_nonce := n\<rparr>) =
     (pop_block q)\<lparr>sq_valid_tokens := v[sq_allocated_block_count q - 1 := 0], sq_pending := a,
       sq_next_reservation_nonce := n\<rparr>"
  by (simp add: pop_block_def Let_def)

lemma pop_funpow_commute:
  "\<exists>v'. (pop_block ^^ m) (q\<lparr>sq_valid_tokens := v, sq_pending := a, sq_next_reservation_nonce := n\<rparr>) =
     ((pop_block ^^ m) q)\<lparr>sq_valid_tokens := v', sq_pending := a, sq_next_reservation_nonce := n\<rparr>"
proof (induction m)
  case 0
  then show ?case by auto
next
  case (Suc m)
  then show ?case by (auto simp: pop_commute)
qed

lemma rolled_back_reserved:
  assumes len: "seq_len q" and idle: "sq_pending q = None" and sh: "seq_shape q"
    and fit: "sq_allocated_block_count q + length bs \<le> length (sq_block_ids q)"
    and sh1: "seq_shape (reserved_state target bs q)"
  shows "rolled_back (sq_allocated_block_count q) (reserved_state target bs q) =
    q\<lparr>sq_next_reservation_nonce := sq_next_reservation_nonce q + 1\<rparr>"
proof -
  let ?r = "reserved_state target bs q" and ?l = "sq_logical_length q"
  let ?n = "blocks_for_length (sq_logical_length q)"
  let ?pend = "Some \<lparr>pr_nonce = sq_next_reservation_nonce q,
    pr_previous_block_count = sq_allocated_block_count q, pr_target_logical_length = target\<rparr>"
  let ?q = "(pop_block ^^ length bs) ?r"
  have r: "?r = (append_blocks bs q)\<lparr>
      sq_valid_tokens := sq_valid_tokens (fill_valid_tokens target (blocks_for_length target) (append_blocks bs q)),
      sq_pending := ?pend, sq_next_reservation_nonce := sq_next_reservation_nonce q + 1\<rparr>"
    by (simp add: reserved_state_def fill_valid_tokens_def)
  obtain v where v: "?q = q\<lparr>sq_valid_tokens := v, sq_pending := ?pend,
      sq_next_reservation_nonce := sq_next_reservation_nonce q + 1\<rparr>"
    using pop_funpow_commute [where m = "length bs" and q = "append_blocks bs q"] append_blocks_shape [OF sh fit]
    unfolding r by metis
  have a: "sq_allocated_block_count ?r = sq_allocated_block_count q + length bs" "sq_logical_length ?r = ?l"
    by (simp_all add: reserved_state_def)
  have n: "sq_allocated_block_count q = ?n" and tc: "token_counts ?l q" using len idle by (auto simp: seq_len_def)
  have shq: "seq_shape ?q" using pop_blocks_fields [OF sh1, of "length bs"] a by simp
  have "sq_valid_tokens (fill_valid_tokens ?l ?n ?q) = sq_valid_tokens q"
  proof (rule nth_equalityI)
    show "length (sq_valid_tokens (fill_valid_tokens ?l ?n ?q)) = length (sq_valid_tokens q)"
      using shq sh v by (simp add: seq_shape_def)
    fix j assume "j < length (sq_valid_tokens (fill_valid_tokens ?l ?n ?q))"
    then have j: "j < length (sq_valid_tokens ?q)" by simp
    show "sq_valid_tokens (fill_valid_tokens ?l ?n ?q) ! j = sq_valid_tokens q ! j"
      unfolding nth_fill [OF j] using tc n sh shq j v by (auto simp: token_counts_def seq_shape_def)
  qed
  then have "fill_valid_tokens ?l ?n ?q = q\<lparr>sq_pending := ?pend,
      sq_next_reservation_nonce := sq_next_reservation_nonce q + 1\<rparr>"
    using v by (simp add: fill_valid_tokens_def)
  then show ?thesis using idle a by (simp add: rolled_back_def)
qed

subsection \<open>Properties of the paged KV cache\<close>

text \<open>C17. A reservation is all or nothing: when \<open>reserve_to\<close> fails, for whatever reason and however
  many blocks it had already taken, the sequence is exactly what it was, the free list has the same
  blocks in the same order, and the whole system is still consistent.\<close>

theorem reserve_all_or_nothing:
  assumes "kv_inv p qs ext" and "k < length qs" and "reserve_to env target (qs ! k, p) = (Inl e, (q', p'))"
  shows "q' = qs ! k \<and> kp_free_list p' = kp_free_list p \<and> kv_inv p' qs ext"
proof -
  note ok = kv_inv_ok [OF assms(1,2)]
  have post: "q' = qs ! k" "kp_free_list p' = kp_free_list p" "kv_step (qs ! k, p) (q', p')"
    using wpD_Inl [OF wp_reserve_to assms(3)] ok by auto
  show ?thesis using kv_inv_step [OF assms(1,2) post(3)] post(1,2) ok by simp
qed

theorem reserve_all_or_nothing_witness:
  "fst (reserve_to demo_env 30 demo_kv2) = Inl ReservationInProgress \<and>
     kp_free_list (snd (snd (reserve_to demo_env 30 demo_kv2))) = kp_free_list (snd demo_kv2)"
proof -
  have inv: "kv_inv (snd demo_kv2) [fst demo_kv2] []"
    using kv.reachable_inv [OF demo_reachable(3)] by (simp add: kv_sys_inv_def)
  have e: "fst (reserve_to demo_env 30 demo_kv2) = Inl ReservationInProgress" by code_simp
  show ?thesis using reserve_all_or_nothing [OF inv, of 0 demo_env 30 ReservationInProgress] e
    by (metis length_Cons list.size(3) lessI nth_Cons_0 One_nat_def prod.collapse)
qed

text \<open>C18. Reserving and rolling back is a round trip: rolling back the reservation that
  \<open>reserve_to\<close> returned succeeds and restores the block table, the valid-token counts, the length
  and the free list; only the reservation nonce has moved on.\<close>

theorem reserve_rollback_roundtrip:
  assumes "kv_ok (q, p)" and "seq_len q" and "reserve_to env target (q, p) = (Inr r, w)"
  shows "\<exists>p'. seq_rollback r w =
      (Inr (), (q\<lparr>sq_next_reservation_nonce := sq_next_reservation_nonce q + 1\<rparr>, p')) \<and>
    kp_free_list p' = kp_free_list p"
proof -
  obtain q1 p1 where w: "w = (q1, p1)" by (cases w)
  have sh: "seq_shape q" and room: "sq_allocated_block_count q \<le> length (sq_block_ids q)"
    using assms(1) by (auto simp: kv_ok_def seq_core_def seq_shape_def)
  from wpD_Inr [OF wp_reserve_to [OF assms(1,2)] assms(3)] w obtain bs where
    g: "sq_pending q = None" "sq_logical_length q \<le> target" "target \<le> sq_maximum_logical_length q"
      "r = reservation_for target q" "length bs = blocks_for_length target - sq_allocated_block_count q"
      "q1 = reserved_state target bs q" "kv_step (q, p) (append_blocks bs q, p1)"
      "kp_free_list p = kp_free_list p1 @ rev (map bid_physical_index bs)" by auto
  note st = reserved_state_step [OF g(7) assms(2) g(1,5,2,3), folded g(6)]
  have "length (sq_block_ids q) = blocks_for_length (sq_maximum_logical_length q)" using sh by (simp add: seq_shape_def)
  then have fit: "sq_allocated_block_count q + length bs \<le> length (sq_block_ids q)"
    using g(5) room blocks_for_length_mono [OF g(3)] by simp
  note app = append_blocks_shape [OF sh fit]
  have v: "validate_reservation q1 r = Inr ()"
    by (simp add: validate_reservation_Inr g(4,6) reservation_for_def reserved_state_def)
  have sh1: "seq_shape (reserved_state target bs q)"
    using kv_step_ok [OF st(1)] g(6) by (simp add: kv_ok_def seq_core_def)
  obtain out q2 p2 where c: "seq_rollback r (q1, p1) = (out, (q2, p2))" by (cases "seq_rollback r (q1, p1)") auto
  have "out = Inr ()"
    using wpD_Inl [OF wp_seq_rollback [OF kv_step_ok [OF st(1)] st(2)]] c v by (cases out) auto
  note post = wpD_Inr [OF wp_seq_rollback [OF kv_step_ok [OF st(1)] st(2)] c [unfolded this]]
  have ph: "phys q1 = phys q @ map bid_physical_index bs"
    using app by (simp add: g(6) reserved_state_def phys_def)
  have "kp_free_list p2 = kp_free_list p"
    using post ph g(4,8) length_phys [OF sh] by (simp add: reservation_for_def)
  moreover have "q2 = q\<lparr>sq_next_reservation_nonce := sq_next_reservation_nonce q + 1\<rparr>"
    using post rolled_back_reserved [OF assms(2) g(1) sh fit sh1] g(4,6) by (simp add: reservation_for_def)
  ultimately show ?thesis using c w \<open>out = Inr ()\<close> by simp
qed

theorem reserve_rollback_roundtrip_witness:
  "\<exists>p'. seq_rollback demo_res demo_kv2 =
      (Inr (), (demo_seq1\<lparr>sq_next_reservation_nonce := sq_next_reservation_nonce demo_seq1 + 1\<rparr>, p')) \<and>
    kp_free_list p' = kp_free_list demo_pool1"
  using reserve_rollback_roundtrip [OF demo_ok(1,2) demo_runs(4)] .

text \<open>Committing the reservation that \<open>reserve_to\<close> returned succeeds and publishes it: the block
  table then reads the target length, starts with the physical blocks the sequence already had,
  names no block twice, covers the target exactly, and its valid-token counts are full blocks with
  the remainder in the last one, adding up to the length.\<close>

theorem reserve_commit_publishes:
  assumes "kv_ok (q, p)" and "seq_len q" and "reserve_to env target (q, p) = (Inr r, w)"
  shows "\<exists>c q' p' t. seq_commit r w = (Inr c, (q', p')) \<and> rc_logical_length c = target \<and>
    block_table q' = Inr t \<and> bt_logical_length t = target \<and>
    length (bt_physical_block_ids t) = blocks_for_length target \<and> distinct (bt_physical_block_ids t) \<and>
    take (sq_allocated_block_count q) (bt_physical_block_ids t) = phys q \<and>
    bt_valid_tokens t = map (\<lambda>j. min (target - j * KV_BLOCK_SIZE) KV_BLOCK_SIZE) [0..<blocks_for_length target] \<and>
    sum_list (bt_valid_tokens t) = target"
proof -
  obtain bs c p2 where c: "seq_commit r w = (Inr c, (committed_state target (reserved_state target bs q), p2))"
    "kv_step (q, p) (committed_state target (reserved_state target bs q), p2)"
    "seq_len (committed_state target (reserved_state target bs q))"
    "length bs = blocks_for_length target - sq_allocated_block_count q"
    "sq_allocated_block_count q \<le> blocks_for_length target" "\<not> sq_poisoned q" "rc_logical_length c = target"
    by (rule reserve_then_commit [OF assms])
  let ?q = "committed_state target (reserved_state target bs q)"
  have sh: "seq_shape q" using assms(1) by (simp add: kv_ok_def seq_core_def)
  have sh': "seq_shape ?q" using kv_step_ok [OF c(2)] by (simp add: kv_ok_def seq_core_def)
  have fields: "sq_logical_length ?q = target" "sq_pending ?q = None" "\<not> sq_poisoned ?q"
    "phys ?q = phys (append_blocks bs q)" "sq_allocated_block_count ?q = blocks_for_length target"
    using c(4,5,6) by (simp_all add: committed_state_def reserved_state_def phys_def)
  have "length (sq_block_ids ?q) = length (sq_block_ids q)" by (simp add: committed_state_def reserved_state_def)
  then have "sq_allocated_block_count q + length bs \<le> length (sq_block_ids q)"
    using c(4,5) fields(5) sh' by (simp add: seq_shape_def)
  then have "phys ?q = phys q @ map bid_physical_index bs"
    using append_blocks_shape [OF sh] fields(4) by simp
  then show ?thesis
    using committed_table [OF kv_step_ok [OF c(2)] c(3) fields(2,3)] c(1,7) fields length_phys [OF sh] length_phys [OF sh']
    by auto
qed

theorem reserve_commit_publishes_witness:
  "\<exists>c q' p' t. seq_commit demo_res demo_kv2 = (Inr c, (q', p')) \<and> block_table q' = Inr t \<and>
     bt_logical_length t = 20 \<and> length (bt_physical_block_ids t) = 2 \<and> bt_valid_tokens t = [16, 4]"
proof -
  have e: "blocks_for_length 20 = 2" "map (\<lambda>j. min (20 - j * KV_BLOCK_SIZE) KV_BLOCK_SIZE) [0..<2] = [16, 4::nat]"
    by code_simp+
  show ?thesis using reserve_commit_publishes [OF demo_ok(1,2) demo_runs(4)] unfolding e by blast
qed

lemma common_block_shared:
  assumes inv: "kv_inv p qs ext" and ab: "a \<in> set qs" "b \<in> set qs" "sq_sequence_id a \<noteq> sq_sequence_id b"
    and i: "i \<in> set (phys a)" "i \<in> set (phys b)"
  shows "i \<in> set (shared_phys a)"
proof (rule ccontr)
  assume no: "i \<notin> set (shared_phys a)"
  have c: "seq_core p a" "seq_core p b" using inv ab by (auto simp: kv_inv_def)
  have pa: "i \<in> set (private_phys a)" using no i(1) set_phys c(1) by (auto simp: seq_core_def)
  have "hold b i = 0" using total_hold_ge [OF ab(2), of i] kv_inv_private(2) [OF inv ab(1) pa] by simp
  then have "i \<in> set (private_phys b)" using i(2) set_phys c(2) by (auto simp: seq_core_def hold_def split: if_splits)
  then show False using pa core_private_slot c ab(3) by fastforce
qed

text \<open>C14. Isolation: in every reachable state of the cache, two different sequences that list the
  same physical block both list it in their read-only shared prefix, and its holder count is at
  least two; no block one sequence may write is visible to another.\<close>

theorem reachable_isolation:
  assumes "reachable kv_sys_init kv_sys_step (p, qs, ext)"
    and "j < length qs" and "k < length qs" and "j \<noteq> k"
    and "i \<in> set (phys (qs ! j))" and "i \<in> set (phys (qs ! k))"
  shows "i \<in> set (shared_phys (qs ! j)) \<and> i \<in> set (shared_phys (qs ! k)) \<and>
    2 \<le> bs_shared_references (kp_slots p ! i)"
proof -
  have inv: "kv_inv p qs ext" using kv.reachable_inv [OF assms(1)] by (simp add: kv_sys_inv_def)
  have core: "seq_core p (qs ! j)" "seq_core p (qs ! k)" using inv assms(2,3) by (auto simp: kv_inv_def)
  have ne: "sq_sequence_id (qs ! j) \<noteq> sq_sequence_id (qs ! k)"
    using inv assms(2,3,4) by (auto simp: kv_inv_def distinct_conv_nth)
  have s: "i \<in> set (shared_phys (qs ! j))" "i \<in> set (shared_phys (qs ! k))"
    using common_block_shared [OF inv, of "qs ! j" "qs ! k"] common_block_shared [OF inv, of "qs ! k" "qs ! j"] assms ne by auto
  have i: "i < length (kp_slots p)" using core_shared_slot [OF core(1) s(1)] by simp
  let ?e = "(qs ! j)\<lparr>sq_shared_block_count := 0\<rparr>"
  have "hold (qs ! k) i \<le> total_hold (qs[j := ?e]) i"
    using assms(2-4) by (intro total_hold_ge) (metis length_list_update nth_list_update_neq nth_mem)
  then have "2 \<le> total_hold qs i"
    using total_hold_update [OF assms(2), of ?e i] s by (simp add: hold_def shared_phys_def)
  then show ?thesis using s inv i by (simp add: kv_inv_def refs_exact_def)
qed

theorem reachable_isolation_witness:
  "0 \<in> set (shared_phys (fst demo_kv4)) \<and> 0 \<in> set (shared_phys (fst demo_kv6)) \<and>
     2 \<le> bs_shared_references (kp_slots (snd demo_kv6) ! 0)"
  using reachable_isolation [OF demo_sharing_reachable, of 0 1 0] demo_sharing_runs(4) by simp

text \<open>C15. Accounting: in every reachable state the free list holds exactly the blocks without owner,
  each once, allocated and free blocks add up to the pool, the allocated count never passes the
  high-water mark, every owner is a live sequence or the shared owner, and the holder count of each
  block is the number of live tables listing it in their shared prefix plus the holds of the cache.\<close>

theorem reachable_accounting:
  assumes "reachable kv_sys_init kv_sys_step (p, qs, ext)"
  shows "distinct (kp_free_list p) \<and>
    set (kp_free_list p) = {i. i < length (kp_slots p) \<and> bs_owner (kp_slots p ! i) = None} \<and>
    kp_allocated_block_count p + length (kp_free_list p) = length (kp_slots p) \<and>
    kp_allocated_block_count p \<le> kp_high_water_mark p \<and> kp_high_water_mark p \<le> length (kp_slots p) \<and>
    (\<forall>i<length (kp_slots p). bs_owner (kp_slots p ! i) = None \<or>
      bs_owner (kp_slots p ! i) = Some (shared_owner (kp_cookie p)) \<or>
      bs_owner (kp_slots p ! i) \<in> Some ` sq_sequence_id ` set qs) \<and>
    (\<forall>i<length (kp_slots p). bs_shared_references (kp_slots p ! i) =
      length (filter (\<lambda>q. i \<in> set (shared_phys q)) qs) + length (filter (\<lambda>b. bid_physical_index b = i) ext))"
proof -
  have inv: "kv_inv p qs ext" using kv.reachable_inv [OF assms] by (simp add: kv_sys_inv_def)
  then have pinv: "pool_inv p" by (simp add: kv_inv_def)
  have lists: "distinct (kp_free_list p) \<and> set (kp_free_list p) = {i. i < length (kp_slots p) \<and> bs_owner (kp_slots p ! i) = None} \<and>
    kp_allocated_block_count p + length (kp_free_list p) = length (kp_slots p) \<and>
    kp_allocated_block_count p \<le> kp_high_water_mark p \<and> kp_high_water_mark p \<le> length (kp_slots p)"
    using pinv unfolding pool_inv_def by blast
  have owners: "\<forall>i<length (kp_slots p). bs_owner (kp_slots p ! i) = None \<or>
      bs_owner (kp_slots p ! i) = Some (shared_owner (kp_cookie p)) \<or>
      bs_owner (kp_slots p ! i) \<in> Some ` sq_sequence_id ` set qs"
  proof (intro allI impI)
    fix i assume i: "i < length (kp_slots p)"
    show "bs_owner (kp_slots p ! i) = None \<or> bs_owner (kp_slots p ! i) = Some (shared_owner (kp_cookie p)) \<or>
      bs_owner (kp_slots p ! i) \<in> Some ` sq_sequence_id ` set qs"
    proof (cases "bs_owner (kp_slots p ! i)")
      case (Some sid)
      show ?thesis
      proof (cases "sid_value sid = SHARED_BLOCK_OWNER")
        case True
        then show ?thesis using pool_inv_slot [OF pinv i] Some by (auto simp: slot_ok_def)
      next
        case False
        then show ?thesis using inv i Some by (fastforce simp: kv_inv_def owners_live_def)
      qed
    qed simp
  qed
  have "total_hold qs i = length (filter (\<lambda>q. i \<in> set (shared_phys q)) qs)" for i
    by (simp add: total_hold_def hold_def sum_list_triv flip: sum_list_map_filter')
  then have "\<forall>i<length (kp_slots p). bs_shared_references (kp_slots p ! i) =
      length (filter (\<lambda>q. i \<in> set (shared_phys q)) qs) + length (filter (\<lambda>b. bid_physical_index b = i) ext)"
    using inv by (simp add: kv_inv_def refs_exact_def ext_count_def)
  with lists owners show ?thesis by blast
qed

theorem reachable_accounting_witness:
  "set (kp_free_list (snd demo_kv6)) = {i. i < length (kp_slots (snd demo_kv6)) \<and>
      bs_owner (kp_slots (snd demo_kv6) ! i) = None} \<and>
    kp_allocated_block_count (snd demo_kv6) + length (kp_free_list (snd demo_kv6)) = length (kp_slots (snd demo_kv6))"
  using reachable_accounting [OF demo_sharing_reachable] by blast

text \<open>Stale handles: once the block of a handle is free, or its slot carries a newer generation,
  no sequence of operations makes the pool accept that handle again, neither as an owner's block
  nor as a shared one.\<close>

theorem stale_handle_rejected:
  assumes "reachable kv_sys_init kv_sys_step (p, qs, ext)"
    and "kv_sys_step\<^sup>*\<^sup>* (p, qs, ext) (p', qs', ext')"
    and "bid_physical_index b < length (kp_slots p)"
    and "bid_generation b < bs_generation (kp_slots p ! bid_physical_index b) \<or>
      bid_generation b = bs_generation (kp_slots p ! bid_physical_index b) \<and>
      bs_owner (kp_slots p ! bid_physical_index b) = None"
  shows "validate_block p' b owner \<noteq> Inr () \<and> shared_references p' b \<noteq> Inr n"
proof -
  let ?i = "bid_physical_index b"
  have "gen_le p p'" using kv.run_inv [OF assms(2) kv.reachable_inv [OF assms(1)]] by simp
  then have "gen_step (kp_slots p ! ?i) (kp_slots p' ! ?i)" using assms(3) by (simp add: gen_le_def)
  then have "bid_generation b \<noteq> bs_generation (kp_slots p' ! ?i) \<or> bs_owner (kp_slots p' ! ?i) = None"
    using assms(4) unfolding gen_step_def by (metis le_less_trans less_irrefl less_le_trans)
  then show ?thesis
    by (auto simp: validate_block_Inr shared_references_Inr)
qed

definition demo_stale :: block_id where
  "demo_stale = \<lparr>bid_pool_cookie = 1, bid_physical_index = 0, bid_generation = 0\<rparr>"

theorem stale_handle_rejected_witness:
  "validate_block (snd demo_kv2) demo_stale (sq_sequence_id demo_seq1) \<noteq> Inr ()"
proof -
  have "kv_sys_step (demo_pool1, [demo_seq1], []) (snd demo_kv2, [demo_seq1][0 := fst demo_kv2], [])"
    by (rule kv_sys_step.op [where f = "OpReserve demo_env 20"]) (simp_all add: demo_runs(4))
  then have run: "kv_sys_step\<^sup>*\<^sup>* (demo_pool1, [demo_seq1], []) (snd demo_kv2, [fst demo_kv2], [])" by simp
  have "bid_physical_index demo_stale < length (kp_slots demo_pool1) \<and>
      bid_generation demo_stale = bs_generation (kp_slots demo_pool1 ! bid_physical_index demo_stale) \<and>
      bs_owner (kp_slots demo_pool1 ! bid_physical_index demo_stale) = None" by code_simp
  then show ?thesis using stale_handle_rejected [OF demo_reachable(2) run] by blast
qed

text \<open>Closing a sequence always succeeds, whatever state it is in (idle, reserved or poisoned):
  afterwards it holds no block, no slot of the pool names it as owner, and every other sequence and
  every cached block is intact.\<close>

theorem close_releases_everything:
  assumes "kv_inv p qs ext" and "k < length qs"
  shows "\<exists>q' p'. seq_close (qs ! k, p) = (Inr (), (q', p')) \<and> phys q' = [] \<and> sq_logical_length q' = 0 \<and>
    (\<forall>i<length (kp_slots p'). bs_owner (kp_slots p' ! i) \<noteq> Some (sq_sequence_id (qs ! k))) \<and>
    kv_inv p' (qs[k := q']) ext"
proof -
  note ok = kv_inv_ok [OF assms]
  obtain out q' p' where c: "seq_close (qs ! k, p) = (out, (q', p'))" by (cases "seq_close (qs ! k, p)") auto
  have w: "wp seq_close (\<lambda>_ (q', p'). kv_step (qs ! k, p) (q', p') \<and> seq_len q' \<and> sq_logical_length q' = 0 \<and>
       sq_allocated_block_count q' = 0 \<and> sq_pending q' = None \<and> \<not> sq_poisoned q') (\<lambda>_ _. False) (qs ! k, p)"
    unfolding seq_close_def using wp_seq_reset ok by blast
  have out: "out = Inr ()" using wpD_Inl [OF w] c by (cases out) auto
  have post: "kv_step (qs ! k, p) (q', p')" "seq_len q'" "sq_logical_length q' = 0" "sq_allocated_block_count q' = 0"
    using wpD_Inr [OF w c [unfolded out]] by auto
  have core: "seq_core p' q'" "sq_sequence_id q' = sq_sequence_id (qs ! k)" using post(1) by (auto simp: kv_step_def)
  have empty: "phys q' = []" "private_phys q' = []" using post(4) by (simp_all add: phys_def private_phys_def)
  have "bs_owner (kp_slots p' ! i) \<noteq> Some (sq_sequence_id (qs ! k))" if "i < length (kp_slots p')" for i
    using core that empty(2) by (auto simp: seq_core_def)
  then show ?thesis using c out empty post(3) kv_inv_step [OF assms post(1,2)] by auto
qed

theorem close_releases_everything_witness:
  "\<exists>q' p'. seq_close demo_kv2 = (Inr (), (q', p')) \<and> phys q' = [] \<and>
     (\<forall>i<length (kp_slots p'). bs_owner (kp_slots p' ! i) \<noteq> Some (sq_sequence_id (fst demo_kv2)))"
proof -
  have "kv_inv (snd demo_kv2) [fst demo_kv2] []"
    using kv.reachable_inv [OF demo_reachable(3)] by (simp add: kv_sys_inv_def)
  from close_releases_everything [OF this, of 0] show ?thesis by auto
qed

lemma kv_inv_drained:
  assumes inv: "kv_inv p [] []"
  shows "kp_allocated_block_count p = 0 \<and> set (kp_free_list p) = {0..<length (kp_slots p)} \<and>
    kp_sidecar_count p = 0 \<and> kp_sidecar_device_bytes p = 0"
proof -
  have pinv: "pool_inv p" using inv by (simp add: kv_inv_def)
  have free: "bs_owner (kp_slots p ! i) = None \<and> bs_sidecar (kp_slots p ! i) = None" if i: "i < length (kp_slots p)" for i
  proof -
    have z: "bs_shared_references (kp_slots p ! i) = 0"
      using inv i by (simp add: kv_inv_def refs_exact_def total_hold_def)
    have o: "bs_owner (kp_slots p ! i) = None"
    proof (cases "bs_owner (kp_slots p ! i)")
      case (Some sid)
      then have "sid_value sid = SHARED_BLOCK_OWNER" using inv i by (auto simp: kv_inv_def owners_live_def)
      then show ?thesis using pool_inv_slot [OF pinv i] Some z by (simp add: slot_ok_def)
    qed
    then show ?thesis using pool_inv_slot [OF pinv i] by (simp add: slot_ok_def)
  qed
  have s: "set (kp_free_list p) = {0..<length (kp_slots p)}" using pinv free by (auto simp: pool_inv_def)
  have "distinct (kp_free_list p)" using pinv by (simp add: pool_inv_def)
  then have "length (kp_free_list p) = length (kp_slots p)" using s by (metis card_atLeastLessThan diff_zero distinct_card)
  then have a: "kp_allocated_block_count p = 0" using pinv by (simp add: pool_inv_def)
  have "sidecar_one t = 0 \<and> sidecar_bytes t = 0" if "t \<in> set (kp_slots p)" for t
    using that free by (auto simp: in_set_conv_nth sidecar_one_def sidecar_bytes_def)
  then show ?thesis using pinv s a by (simp add: pool_inv_def)
qed

text \<open>C16. No leak: in any reachable state without live sequences and cached blocks, however it was
  reached, every block of the pool is free again and no sidecar is left.\<close>

theorem no_block_leak:
  assumes "reachable kv_sys_init kv_sys_step (p, [], [])"
  shows "kp_allocated_block_count p = 0 \<and> set (kp_free_list p) = {0..<length (kp_slots p)} \<and>
    kp_sidecar_count p = 0 \<and> kp_sidecar_device_bytes p = 0"
  using kv.reachable_inv [OF assms] by (intro kv_inv_drained) (simp add: kv_sys_inv_def)

definition demo_reclaimed :: kv_block_pool where
  "demo_reclaimed = snd (reclaim_sequence (abandon_for_reclaim (fst demo_kv2)) (snd demo_kv2))"

theorem no_block_leak_witness:
  "kp_allocated_block_count demo_reclaimed = 0 \<and>
     set (kp_free_list demo_reclaimed) = {0..<length (kp_slots demo_reclaimed)}"
proof -
  have "kv_sys_step (snd demo_kv2, [] @ fst demo_kv2 # [], []) (demo_reclaimed, [] @ [], [])"
    unfolding demo_reclaimed_def by (rule kv_sys_step.reclaim) (rule prod.collapse [symmetric])
  then have "reachable kv_sys_init kv_sys_step (demo_reclaimed, [], [])"
    using reachable.move [OF demo_reachable(3)] by simp
  from no_block_leak [OF this] show ?thesis by blast
qed

end
