(* ===== verification/Iteration_Plan.thy ===== *)
theory Iteration_Plan
  imports Scheduler_Config Kv_Machine
begin

text \<open>
  \<open>plan.rs\<close>: the immutable iteration plan that the scheduler hands to the runtime and the result the
  runtime returns. Every constructor validates its arguments; the lemmas say what a constructed
  value guarantees, and that the table of a reserved sequence is always accepted.
\<close>

abbreviation (input) ITERATION_SCHEMA_VERSION :: nat where "ITERATION_SCHEMA_VERSION \<equiv> 1"

datatype work_kind = Prefill | Decode

record owned_block_table =
  obt_request_id :: request_id
  obt_schema_version :: u16
  obt_physical_block_ids :: "u32 list"
  obt_valid_tokens :: "u16 list"
  obt_logical_length :: u32

record work_item =
  wi_request_id :: request_id
  wi_kind :: work_kind
  wi_input_tokens :: "u32 list"
  wi_target_logical_length :: usize
  wi_block_table_index :: usize
  wi_output_slot :: "output_slot option"

record iteration_plan =
  ip_schema_version :: u16
  ip_iteration_id :: iteration_id
  ip_prefill_items :: "work_item list"
  ip_decode_items :: "work_item list"
  ip_total_tokens :: usize
  ip_block_tables :: "owned_block_table list"
  ip_output_slots :: "output_slot list"

record iteration_output =
  io_slot :: output_slot
  io_token_id :: u32
  io_stop :: bool

record iteration_result =
  ir_schema_version :: u16
  ir_iteration_id :: iteration_id
  ir_outputs :: "iteration_output list"
  ir_gpu_execution_ns :: u64
  ir_gpu_idle_gap_ns :: u64

definition validate_schema :: "string \<Rightarrow> u16 \<Rightarrow> unit scheduler_result" where
  "validate_schema resource actual =
     failE (actual \<noteq> ITERATION_SCHEMA_VERSION)
       (UnsupportedSchemaVersion resource ITERATION_SCHEMA_VERSION actual)"

definition reserve_host :: "host_env \<Rightarrow> string \<Rightarrow> usize \<Rightarrow> unit scheduler_result" where
  "reserve_host env resource n = failE (\<not> he_alloc env resource n) (HostAllocation resource n)"

subsection \<open>Block tables\<close>

text \<open>The loop over the entries of a table: the set of identifiers seen and the token sum.\<close>

fun table_entries ::
  "usize \<Rightarrow> u32 \<Rightarrow> usize \<Rightarrow> u32 list \<Rightarrow> usize \<Rightarrow> (u32 \<times> u16) list \<Rightarrow> usize scheduler_result" where
  "table_entries required_blocks logical_length index seen token_sum [] = Inr token_sum"
| "table_entries required_blocks logical_length index seen token_sum ((physical_id, valid) # rest) =
     bindE (failE (physical_id \<in> set seen)
       (InvalidPlan ''block_tables'' ''physical block IDs must be unique within one table'')) (\<lambda>_.
     let expected = (if index + 1 = required_blocks
                     then (let tail = logical_length mod KV_BLOCK_SIZE in
                           if tail = 0 then KV_BLOCK_SIZE else tail)
                     else KV_BLOCK_SIZE) in
     bindE (failE (valid \<noteq> expected) (InvalidPlan ''block_tables''
       ''valid-token counts must be full blocks followed by one canonical tail'')) (\<lambda>_.
     bindE (ok_or (checked_add token_sum valid) (ArithmeticOverflow ''block table valid-token sum''))
       (\<lambda>token_sum.
     table_entries required_blocks logical_length (index + 1) (physical_id # seen) token_sum rest)))"

definition owned_block_table_new ::
  "host_env \<Rightarrow> request_id \<Rightarrow> u16 \<Rightarrow> u32 list \<Rightarrow> u16 list \<Rightarrow> u32 \<Rightarrow> owned_block_table scheduler_result" where
  "owned_block_table_new env request_id schema_version physical_block_ids valid_tokens logical_length =
     bindE (failE (schema_version \<noteq> BLOCK_TABLE_V1_VERSION)
       (UnsupportedSchemaVersion ''block table'' BLOCK_TABLE_V1_VERSION schema_version)) (\<lambda>_.
     bindE (failE (length physical_block_ids \<noteq> length valid_tokens) (InvalidPlan ''block_tables''
       ''physical IDs and valid-token vectors must have equal length'')) (\<lambda>_.
     let required_blocks = div_ceil logical_length KV_BLOCK_SIZE in
     bindE (failE (length physical_block_ids \<noteq> required_blocks) (InvalidPlan ''block_tables''
       ''block count must exactly address the logical length'')) (\<lambda>_.
     bindE (reserve_host env ''block table physical ID set'' (length physical_block_ids)) (\<lambda>_.
     bindE (table_entries required_blocks logical_length 0 [] 0 (zip physical_block_ids valid_tokens))
       (\<lambda>token_sum.
     bindE (failE (token_sum \<noteq> logical_length)
       (InvalidPlan ''block_tables'' ''valid-token sum must equal logical length'')) (\<lambda>_.
     Inr \<lparr>obt_request_id = request_id, obt_schema_version = schema_version,
          obt_physical_block_ids = physical_block_ids, obt_valid_tokens = valid_tokens,
          obt_logical_length = logical_length\<rparr>))))))"

definition copy_from_v1 :: "host_env \<Rightarrow> request_id \<Rightarrow> block_table_v1 \<Rightarrow> owned_block_table scheduler_result" where
  "copy_from_v1 env request_id table =
     (let block_count = length (bt_physical_block_ids table) in
      bindE (reserve_host env ''owned block table physical IDs'' block_count) (\<lambda>_.
      bindE (reserve_host env ''owned block table valid tokens'' block_count) (\<lambda>_.
      owned_block_table_new env request_id BLOCK_TABLE_V1_VERSION (bt_physical_block_ids table)
        (bt_valid_tokens table) (bt_logical_length table))))"

subsection \<open>Work items and plans\<close>

definition work_item_new ::
  "request_id \<Rightarrow> work_kind \<Rightarrow> u32 list \<Rightarrow> usize \<Rightarrow> usize \<Rightarrow> output_slot option \<Rightarrow> work_item scheduler_result" where
  "work_item_new request_id kind input_tokens target_logical_length block_table_index output_slot =
     bindE (failE (input_tokens = [])
       (InvalidPlan ''input_tokens'' ''a work item must contain at least one input token'')) (\<lambda>_.
     bindE (failE (target_logical_length < length input_tokens)
       (InvalidPlan ''target_logical_length'' ''must be at least the input token count'')) (\<lambda>_.
     bindE (failE (kind = Decode \<and> length input_tokens \<noteq> 1)
       (InvalidPlan ''input_tokens'' ''decode work must contain exactly one token'')) (\<lambda>_.
     Inr \<lparr>wi_request_id = request_id, wi_kind = kind, wi_input_tokens = input_tokens,
          wi_target_logical_length = target_logical_length, wi_block_table_index = block_table_index,
          wi_output_slot = output_slot\<rparr>)))"

definition validate_iteration_block_tables ::
  "host_env \<Rightarrow> owned_block_table list \<Rightarrow> usize \<Rightarrow> bool list scheduler_result" where
  "validate_iteration_block_tables env block_tables item_count =
     bindE (failE (length block_tables \<noteq> item_count) (InvalidPlan ''block_tables''
       ''each work item must own exactly one referenced block table'')) (\<lambda>_.
     bindE (reserve_host env ''iteration block table reference map'' (length block_tables)) (\<lambda>_.
     Inr (replicate (length block_tables) False)))"

text \<open>What the scan over the items carries: the tables already referenced, the requests and slots
  seen, the token count.\<close>

record plan_scan =
  psc_referenced :: "bool list"
  psc_request_ids :: "request_id list"
  psc_output_slots :: "output_slot list"
  psc_total_tokens :: usize

definition plan_scan_item ::
  "work_kind \<Rightarrow> owned_block_table list \<Rightarrow> work_item \<Rightarrow> plan_scan \<Rightarrow> plan_scan scheduler_result" where
  "plan_scan_item expected_kind block_tables item st =
     bindE (failE (wi_kind item \<noteq> expected_kind)
       (InvalidPlan ''work kind'' ''item is stored in the wrong stage vector'')) (\<lambda>_.
     bindE (failE (expected_kind = Decode \<and> wi_output_slot item = None)
       (InvalidPlan ''output_slots'' ''decode work must request one sampled output'')) (\<lambda>_.
     bindE (failE (wi_request_id item \<in> set (psc_request_ids st))
       (InvalidPlan ''request_id'' ''a request may appear at most once per iteration'')) (\<lambda>_.
     let index = wi_block_table_index item in
     bindE (failE (length block_tables \<le> index)
       (InvalidPlan ''block_table_index'' ''work item references a missing block table'')) (\<lambda>_.
     let table = block_tables ! index in
     bindE (failE (psc_referenced st ! index)
       (InvalidPlan ''block_table_index'' ''each block table must be referenced exactly once'')) (\<lambda>_.
     bindE (failE (obt_request_id table \<noteq> wi_request_id item)
       (InvalidPlan ''block_table_index'' ''work item references another request's block table'')) (\<lambda>_.
     bindE (failE (obt_logical_length table \<noteq> wi_target_logical_length item)
       (InvalidPlan ''block_tables'' ''table logical length must equal the work target'')) (\<lambda>_.
     bindE (ok_or (checked_add (psc_total_tokens st) (length (wi_input_tokens item)))
       (ArithmeticOverflow ''iteration token count'')) (\<lambda>total_tokens.
     bindE (case wi_output_slot item of None \<Rightarrow> Inr (psc_output_slots st)
            | Some slot \<Rightarrow>
                bindE (failE (slot \<in> set (psc_output_slots st))
                  (InvalidPlan ''output_slots'' ''output slots must be unique within an iteration'')) (\<lambda>_.
                Inr (psc_output_slots st @ [slot]))) (\<lambda>output_slots.
     Inr \<lparr>psc_referenced = (psc_referenced st)[index := True],
          psc_request_ids = psc_request_ids st @ [wi_request_id item],
          psc_output_slots = output_slots, psc_total_tokens = total_tokens\<rparr>)))))))))"

fun plan_scan_items ::
  "work_kind \<Rightarrow> owned_block_table list \<Rightarrow> work_item list \<Rightarrow> plan_scan \<Rightarrow> plan_scan scheduler_result" where
  "plan_scan_items expected_kind block_tables [] st = Inr st"
| "plan_scan_items expected_kind block_tables (item # items) st =
     bindE (plan_scan_item expected_kind block_tables item st) (\<lambda>st.
     plan_scan_items expected_kind block_tables items st)"

fun count_entries :: "owned_block_table list \<Rightarrow> usize \<Rightarrow> usize option" where
  "count_entries [] n = Some n"
| "count_entries (table # tables) n =
     Option.bind (checked_add n (length (obt_physical_block_ids table))) (count_entries tables)"

definition first_written :: "owned_block_table list \<Rightarrow> work_item \<Rightarrow> usize" where
  "first_written block_tables item =
     min ((wi_target_logical_length item - length (wi_input_tokens item)) div KV_BLOCK_SIZE)
       (length (obt_physical_block_ids (block_tables ! wi_block_table_index item)))"

abbreviation (input) alias_error :: scheduler_error where
  "alias_error \<equiv> InvalidPlan ''block_tables''
     ''physical blocks written by a work item must not alias another table''"

fun insert_written :: "u32 list \<Rightarrow> u32 list \<Rightarrow> u32 list scheduler_result" where
  "insert_written [] written = Inr written"
| "insert_written (i # is) written =
     bindE (failE (i \<in> set written) alias_error) (\<lambda>_. insert_written is (i # written))"

fun collect_written :: "owned_block_table list \<Rightarrow> work_item list \<Rightarrow> u32 list \<Rightarrow> u32 list scheduler_result" where
  "collect_written block_tables [] written = Inr written"
| "collect_written block_tables (item # items) written =
     bindE (insert_written (drop (first_written block_tables item)
       (obt_physical_block_ids (block_tables ! wi_block_table_index item))) written) (\<lambda>written.
     collect_written block_tables items written)"

definition validate_physical_block_aliases ::
  "host_env \<Rightarrow> work_item list \<Rightarrow> owned_block_table list \<Rightarrow> unit scheduler_result" where
  "validate_physical_block_aliases env items block_tables =
     bindE (ok_or (count_entries block_tables 0)
       (ArithmeticOverflow ''iteration physical block entry count'')) (\<lambda>block_entry_count.
     bindE (reserve_host env ''iteration physical block identity set'' block_entry_count) (\<lambda>_.
     bindE (collect_written block_tables items []) (\<lambda>written.
     forE items (\<lambda>item.
       failE (list_ex (\<lambda>i. i \<in> set written) (take (first_written block_tables item)
         (obt_physical_block_ids (block_tables ! wi_block_table_index item)))) alias_error))))"

definition plan_from_version ::
  "host_env \<Rightarrow> u16 \<Rightarrow> iteration_id \<Rightarrow> work_item list \<Rightarrow> work_item list \<Rightarrow> owned_block_table list \<Rightarrow>
     iteration_plan scheduler_result" where
  "plan_from_version env schema_version iteration_id prefill_items decode_items block_tables =
     bindE (validate_schema ''iteration plan'' schema_version) (\<lambda>_.
     bindE (failE (prefill_items = [] \<and> decode_items = [])
       (InvalidPlan ''items'' ''an iteration must contain work'')) (\<lambda>_.
     bindE (ok_or (checked_add (length prefill_items) (length decode_items))
       (ArithmeticOverflow ''iteration item count'')) (\<lambda>item_count.
     bindE (validate_iteration_block_tables env block_tables item_count) (\<lambda>referenced.
     bindE (reserve_host env ''iteration request identity set'' item_count) (\<lambda>_.
     bindE (reserve_host env ''iteration output slots'' item_count) (\<lambda>_.
     bindE (reserve_host env ''iteration output slot set'' item_count) (\<lambda>_.
     bindE (plan_scan_items Prefill block_tables prefill_items
       \<lparr>psc_referenced = referenced, psc_request_ids = [], psc_output_slots = [],
        psc_total_tokens = 0\<rparr>) (\<lambda>st.
     bindE (plan_scan_items Decode block_tables decode_items st) (\<lambda>st.
     bindE (failE (list_ex Not (psc_referenced st))
       (InvalidPlan ''block_tables'' ''each block table must be referenced exactly once'')) (\<lambda>_.
     bindE (validate_physical_block_aliases env (prefill_items @ decode_items) block_tables) (\<lambda>_.
     bindE (ok_or (u32_try_from (length (psc_output_slots st)))
       (ArithmeticOverflow ''iteration output slot count'')) (\<lambda>bound.
     bindE (failE (list_ex (\<lambda>slot. bound \<le> slot_value slot) (psc_output_slots st))
       (InvalidPlan ''output_slots'' ''output slots must be dense and zero-based'')) (\<lambda>_.
     Inr \<lparr>ip_schema_version = schema_version, ip_iteration_id = iteration_id,
          ip_prefill_items = prefill_items, ip_decode_items = decode_items,
          ip_total_tokens = psc_total_tokens st, ip_block_tables = block_tables,
          ip_output_slots = sort (psc_output_slots st)\<rparr>)))))))))))))"

definition iteration_plan_new ::
  "host_env \<Rightarrow> iteration_id \<Rightarrow> work_item list \<Rightarrow> work_item list \<Rightarrow> owned_block_table list \<Rightarrow>
     iteration_plan scheduler_result" where
  "iteration_plan_new env = plan_from_version env ITERATION_SCHEMA_VERSION"

definition batch_size :: "iteration_plan \<Rightarrow> usize" where
  "batch_size plan = length (ip_prefill_items plan) + length (ip_decode_items plan)"

subsection \<open>Results\<close>

fun distinct_slots :: "iteration_output list \<Rightarrow> output_slot list \<Rightarrow> unit scheduler_result" where
  "distinct_slots [] slots = Inr ()"
| "distinct_slots (out # rest) slots =
     bindE (failE (io_slot out \<in> set slots) (InvalidIterationResult ''outputs''
       ''an output slot may occur at most once'')) (\<lambda>_. distinct_slots rest (io_slot out # slots))"

definition result_from_version ::
  "host_env \<Rightarrow> u16 \<Rightarrow> iteration_id \<Rightarrow> iteration_output list \<Rightarrow> u64 \<Rightarrow> u64 \<Rightarrow> iteration_result scheduler_result" where
  "result_from_version env schema_version iteration_id outputs gpu_execution_ns gpu_idle_gap_ns =
     bindE (validate_schema ''iteration result'' schema_version) (\<lambda>_.
     bindE (reserve_host env ''iteration result output slot set'' (length outputs)) (\<lambda>_.
     bindE (distinct_slots outputs []) (\<lambda>_.
     Inr \<lparr>ir_schema_version = schema_version, ir_iteration_id = iteration_id, ir_outputs = outputs,
          ir_gpu_execution_ns = gpu_execution_ns, ir_gpu_idle_gap_ns = gpu_idle_gap_ns\<rparr>)))"

definition iteration_result_new ::
  "host_env \<Rightarrow> iteration_id \<Rightarrow> iteration_output list \<Rightarrow> u64 \<Rightarrow> u64 \<Rightarrow> iteration_result scheduler_result" where
  "iteration_result_new env = result_from_version env ITERATION_SCHEMA_VERSION"

definition from_dense_outputs ::
  "iteration_id \<Rightarrow> iteration_output list \<Rightarrow> u64 \<Rightarrow> u64 \<Rightarrow> iteration_result" where
  "from_dense_outputs iteration_id outputs gpu_execution_ns gpu_idle_gap_ns =
     \<lparr>ir_schema_version = ITERATION_SCHEMA_VERSION, ir_iteration_id = iteration_id,
      ir_outputs = outputs, ir_gpu_execution_ns = gpu_execution_ns,
      ir_gpu_idle_gap_ns = gpu_idle_gap_ns\<rparr>"

subsection \<open>Accepted tables\<close>

definition expected_tokens :: "usize \<Rightarrow> u32 \<Rightarrow> usize \<Rightarrow> nat" where
  "expected_tokens required len index =
     (if index + 1 = required
      then (let tail = len mod KV_BLOCK_SIZE in if tail = 0 then KV_BLOCK_SIZE else tail)
      else KV_BLOCK_SIZE)"

lemma table_entries_Inr:
  assumes "s0 \<le> u64_max"
  shows "table_entries required len idx seen s0 zs = Inr s \<longleftrightarrow>
     distinct (map fst zs) \<and> set (map fst zs) \<inter> set seen = {} \<and>
     map snd zs = map (\<lambda>k. expected_tokens required len (idx + k)) [0..<length zs] \<and>
     s = s0 + sum_list (map snd zs) \<and> s \<le> u64_max"
  using assms
proof (induction zs arbitrary: idx seen s0)
  case Nil
  then show ?case by auto
next
  case (Cons z zs)
  obtain i v where z: "z = (i, v)" by (cases z)
  have shift: "map (\<lambda>k. expected_tokens required len (idx + k)) [0..<length (z # zs)] =
      expected_tokens required len idx # map (\<lambda>k. expected_tokens required len (Suc idx + k)) [0..<length zs]"
    by (simp add: upt_conv_Cons map_Suc_upt [symmetric] del: upt_Suc)
  show ?case
  proof (cases "s0 + v \<le> u64_max")
    case True
    then show ?thesis
      unfolding z shift [unfolded z] using Cons.IH [of "s0 + v" "Suc idx" "i # seen"]
      by (auto simp: expected_tokens_def [symmetric] expected_tokens_def Let_def)
  next
    case False
    then show ?thesis unfolding z by auto
  qed
qed

lemma expected_tokens_eq:
  assumes "index < div_ceil len KV_BLOCK_SIZE"
  shows "expected_tokens (div_ceil len KV_BLOCK_SIZE) len index = min (len - index * KV_BLOCK_SIZE) KV_BLOCK_SIZE"
proof (cases "index + 1 = div_ceil len KV_BLOCK_SIZE")
  case True
  have d: "len = len div KV_BLOCK_SIZE * KV_BLOCK_SIZE + len mod KV_BLOCK_SIZE" by simp
  show ?thesis
  proof (cases "len mod KV_BLOCK_SIZE = 0")
    case z: True
    then have "index + 1 = len div KV_BLOCK_SIZE" using True by (simp add: div_ceil_def)
    then have "len = (index + 1) * KV_BLOCK_SIZE" using d z by simp
    then show ?thesis using True z by (simp add: expected_tokens_def Let_def)
  next
    case nz: False
    then have "index = len div KV_BLOCK_SIZE" using True by (simp add: div_ceil_def)
    then have "len - index * KV_BLOCK_SIZE = len mod KV_BLOCK_SIZE" by (simp add: minus_div_mult_eq_mod)
    then show ?thesis using True nz by (simp add: expected_tokens_def Let_def min_def less_imp_le)
  qed
next
  case False
  then have "index + 1 < div_ceil len KV_BLOCK_SIZE" using assms by simp
  then have "(index + 1) * KV_BLOCK_SIZE < len" by (subst (asm) less_div_ceil_iff) simp_all
  then show ?thesis using False by (simp add: expected_tokens_def)
qed

lemma owned_block_table_canonical:
  assumes "he_alloc env ''block table physical ID set'' (length ids)" and "len \<le> u32_max"
  shows "owned_block_table_new env rid BLOCK_TABLE_V1_VERSION ids valid len = Inr t \<longleftrightarrow>
    t = \<lparr>obt_request_id = rid, obt_schema_version = BLOCK_TABLE_V1_VERSION, obt_physical_block_ids = ids,
         obt_valid_tokens = valid, obt_logical_length = len\<rparr> \<and>
    distinct ids \<and> length ids = blocks_for_length len \<and>
    valid = map (\<lambda>j. min (len - j * KV_BLOCK_SIZE) KV_BLOCK_SIZE) [0..<blocks_for_length len]"
proof (cases "length ids = length valid \<and> length ids = blocks_for_length len")
  case True
  let ?n = "blocks_for_length len"
  have n: "?n = div_ceil len KV_BLOCK_SIZE" by (simp add: blocks_for_length_def)
  have canon: "map (\<lambda>k. expected_tokens ?n len (0 + k)) [0..<?n] =
      map (\<lambda>j. min (len - j * KV_BLOCK_SIZE) KV_BLOCK_SIZE) [0..<?n]"
    using expected_tokens_eq n by simp
  have up: "len \<le> ?n * KV_BLOCK_SIZE"
    using div_ceil_le_iff [of KV_BLOCK_SIZE len ?n] n by simp
  have ent: "table_entries ?n len 0 [] 0 (zip ids valid) = Inr s \<longleftrightarrow>
      distinct ids \<and> valid = map (\<lambda>j. min (len - j * KV_BLOCK_SIZE) KV_BLOCK_SIZE) [0..<?n] \<and> s = len" for s
  proof -
    have "table_entries ?n len 0 [] 0 (zip ids valid) = Inr s \<longleftrightarrow>
        distinct ids \<and> valid = map (\<lambda>j. min (len - j * KV_BLOCK_SIZE) KV_BLOCK_SIZE) [0..<?n] \<and>
        s = sum_list valid \<and> s \<le> u64_max"
    proof -
      have z: "map fst (zip ids valid) = ids" "map snd (zip ids valid) = valid" "length (zip ids valid) = ?n"
        using True by simp_all
      show ?thesis unfolding table_entries_Inr [OF le0] z canon by auto
    qed
    then show ?thesis using sum_token_counts [of len ?n] up assms(2) by auto
  qed
  show ?thesis using True assms ent n
    by (auto simp: owned_block_table_new_def Let_def reserve_host_def)
next
  case False
  then show ?thesis by (auto simp: owned_block_table_new_def Let_def blocks_for_length_def)
qed

text \<open>\<open>OwnedBlockTable::new\<close>, given that its scratch set can be allocated, accepts a V1 table
  exactly when the physical identifiers are distinct, their number is the number of blocks the
  length needs, and the valid-token counts are the canonical ones; the accepted value carries the
  arguments unchanged.\<close>

theorem owned_block_table_exact:
  assumes "he_alloc env ''block table physical ID set'' (length ids)" and "len \<le> u32_max"
  shows "owned_block_table_new env rid BLOCK_TABLE_V1_VERSION ids valid len = Inr t \<longleftrightarrow>
    t = \<lparr>obt_request_id = rid, obt_schema_version = BLOCK_TABLE_V1_VERSION, obt_physical_block_ids = ids,
         obt_valid_tokens = valid, obt_logical_length = len\<rparr> \<and>
    distinct ids \<and> length ids = blocks_for_length len \<and>
    valid = map (\<lambda>j. min (len - j * KV_BLOCK_SIZE) KV_BLOCK_SIZE) [0..<blocks_for_length len]"
  by (rule owned_block_table_canonical [OF assms])

theorem owned_block_table_exact_witness:
  "owned_block_table_new demo_env (RequestId 1) BLOCK_TABLE_V1_VERSION [7, 3] [16, 4] 20 =
     Inr \<lparr>obt_request_id = RequestId 1, obt_schema_version = BLOCK_TABLE_V1_VERSION,
       obt_physical_block_ids = [7, 3], obt_valid_tokens = [16, 4], obt_logical_length = 20\<rparr>"
proof -
  have "distinct [7, 3::nat] \<and> length [7, 3::nat] = blocks_for_length 20 \<and>
    [16, 4] = map (\<lambda>j. min (20 - j * KV_BLOCK_SIZE) KV_BLOCK_SIZE) [0..<blocks_for_length 20]" by code_simp
  moreover have "he_alloc demo_env ''block table physical ID set'' (length [7, 3::nat])" by (simp add: demo_env_def)
  ultimately show ?thesis using owned_block_table_exact [of demo_env "[7, 3]" 20] by auto
qed

text \<open>C20. The scheduler's own tables always pass: while a reservation is in progress, copying the
  reserved block table of a consistent sequence into a plan succeeds whenever the host allocations
  do, and the copy names the sequence's blocks.\<close>

theorem reserved_table_accepted:
  assumes "kv_ok (q, p)" and "seq_len q" and "validate_reservation q r = Inr ()"
    and "\<forall>resource n. he_alloc env resource n"
  shows "\<exists>t table. reserved_block_table q r = Inr t \<and> copy_from_v1 env rid t = Inr table \<and>
    obt_physical_block_ids table = phys q \<and> obt_logical_length table = sr_target_logical_length r \<and>
    obt_request_id table = rid"
proof -
  let ?l = "sr_target_logical_length r"
  have sh: "seq_shape q" and d: "distinct (phys q)" using assms(1) by (auto simp: kv_ok_def seq_core_def)
  have a: "sq_allocated_block_count q = blocks_for_length ?l" and tc: "token_counts ?l q"
    and max: "?l \<le> sq_maximum_logical_length q"
    using assms(2,3) by (auto simp: seq_len_def validate_reservation_Inr)
  have u: "?l \<le> u32_max" using max sh by (simp add: seq_shape_def)
  have "reserved_block_table q r = Inr (table_view q (sq_allocated_block_count q) ?l)"
    using assms(3) by (simp add: reserved_block_table_def)
  moreover have "owned_block_table_new env rid BLOCK_TABLE_V1_VERSION (phys q) (take (blocks_for_length ?l) (sq_valid_tokens q)) ?l =
      Inr \<lparr>obt_request_id = rid, obt_schema_version = BLOCK_TABLE_V1_VERSION, obt_physical_block_ids = phys q,
         obt_valid_tokens = take (blocks_for_length ?l) (sq_valid_tokens q), obt_logical_length = ?l\<rparr>"
    using assms(4) d length_phys [OF sh] a token_counts_table(1) [OF sh tc a]
    by (subst owned_block_table_canonical [OF _ u]) simp_all
  ultimately show ?thesis using assms(4) a
    by (simp add: copy_from_v1_def table_view_def phys_def reserve_host_def failE_def Let_def)
qed

theorem reserved_table_accepted_witness:
  "\<exists>t table. reserved_block_table (fst demo_kv2) demo_res = Inr t \<and>
     copy_from_v1 demo_env (RequestId 9) t = Inr table \<and> obt_physical_block_ids table = [0, 1] \<and>
     obt_logical_length table = 20"
proof -
  have "validate_reservation (fst demo_kv2) demo_res = Inr () \<and> phys (fst demo_kv2) = [0, 1] \<and>
      sr_target_logical_length demo_res = 20" by code_simp
  moreover have "\<forall>resource n. he_alloc demo_env resource n" by (simp add: demo_env_def)
  ultimately show ?thesis
    using reserved_table_accepted [of "fst demo_kv2" "snd demo_kv2" demo_res demo_env "RequestId 9"] demo_ok(3,4) by auto
qed

subsection \<open>Accepted plans\<close>

definition item_ok :: "work_kind \<Rightarrow> owned_block_table list \<Rightarrow> work_item \<Rightarrow> bool" where
  "item_ok kind tables item \<longleftrightarrow> wi_kind item = kind \<and> (kind = Decode \<longrightarrow> wi_output_slot item \<noteq> None) \<and>
     wi_block_table_index item < length tables \<and>
     obt_request_id (tables ! wi_block_table_index item) = wi_request_id item \<and>
     obt_logical_length (tables ! wi_block_table_index item) = wi_target_logical_length item"

definition item_slots :: "work_item list \<Rightarrow> output_slot list" where
  "item_slots items = List.map_filter wi_output_slot items"

definition item_tokens :: "work_item list \<Rightarrow> nat" where
  "item_tokens items = sum_list (map (\<lambda>item. length (wi_input_tokens item)) items)"

lemma plan_scan_item_Inr:
  assumes "plan_scan_item kind tables item st = Inr st'"
  shows "item_ok kind tables item" and "wi_request_id item \<notin> set (psc_request_ids st)"
    and "\<not> psc_referenced st ! wi_block_table_index item"
    and "psc_referenced st' = (psc_referenced st)[wi_block_table_index item := True]"
    and "psc_request_ids st' = psc_request_ids st @ [wi_request_id item]"
    and "psc_output_slots st' = psc_output_slots st @ item_slots [item]"
    and "set (item_slots [item]) \<inter> set (psc_output_slots st) = {}"
    and "psc_total_tokens st' = psc_total_tokens st + length (wi_input_tokens item)"
  using assms by (auto simp: plan_scan_item_def item_ok_def item_slots_def Let_def List.map_filter_simps
      split: option.splits)

lemma plan_scan_items_Inr:
  assumes "plan_scan_items kind tables items st = Inr st'" and "length (psc_referenced st) = length tables"
    and "distinct (psc_request_ids st)" and "distinct (psc_output_slots st)"
  shows "(\<forall>item\<in>set items. item_ok kind tables item) \<and> length (psc_referenced st') = length tables \<and>
    psc_request_ids st' = psc_request_ids st @ map wi_request_id items \<and> distinct (psc_request_ids st') \<and>
    psc_output_slots st' = psc_output_slots st @ item_slots items \<and> distinct (psc_output_slots st') \<and>
    psc_total_tokens st' = psc_total_tokens st + item_tokens items \<and>
    distinct (map wi_block_table_index items) \<and>
    (\<forall>item\<in>set items. \<not> psc_referenced st ! wi_block_table_index item) \<and>
    (\<forall>j<length tables. psc_referenced st' ! j \<longleftrightarrow> psc_referenced st ! j \<or> j \<in> wi_block_table_index ` set items)"
  using assms
proof (induction items arbitrary: st)
  case Nil
  then show ?case by (simp add: item_slots_def item_tokens_def List.map_filter_simps)
next
  case (Cons item items)
  obtain st1 where 1: "plan_scan_item kind tables item st = Inr st1"
    and 2: "plan_scan_items kind tables items st1 = Inr st'" using Cons.prems(1) by auto
  note one = plan_scan_item_Inr [OF 1]
  have slots: "distinct (item_slots [item])" by (auto simp: item_slots_def List.map_filter_simps split: option.splits)
  have cat: "item_slots (item # items) = item_slots [item] @ item_slots items"
    by (auto simp: item_slots_def List.map_filter_simps split: option.splits)
  have i: "wi_block_table_index item < length tables" using one(1) by (simp add: item_ok_def)
  have ih: "(\<forall>item\<in>set items. item_ok kind tables item) \<and> length (psc_referenced st') = length tables \<and>
    psc_request_ids st' = psc_request_ids st1 @ map wi_request_id items \<and> distinct (psc_request_ids st') \<and>
    psc_output_slots st' = psc_output_slots st1 @ item_slots items \<and> distinct (psc_output_slots st') \<and>
    psc_total_tokens st' = psc_total_tokens st1 + item_tokens items \<and>
    distinct (map wi_block_table_index items) \<and>
    (\<forall>item\<in>set items. \<not> psc_referenced st1 ! wi_block_table_index item) \<and>
    (\<forall>j<length tables. psc_referenced st' ! j \<longleftrightarrow> psc_referenced st1 ! j \<or> j \<in> wi_block_table_index ` set items)"
    by (rule Cons.IH [OF 2]) (use Cons.prems one slots in auto)
  have fresh: "wi_block_table_index it \<noteq> wi_block_table_index item \<and> \<not> psc_referenced st ! wi_block_table_index it"
    if "it \<in> set items" for it
  proof -
    have "\<not> (psc_referenced st)[wi_block_table_index item := True] ! wi_block_table_index it"
      using ih that one(4) by simp
    then show ?thesis using Cons.prems(2) i by (cases "wi_block_table_index it = wi_block_table_index item") auto
  qed
  have "psc_referenced st1 ! j \<longleftrightarrow> psc_referenced st ! j \<or> j = wi_block_table_index item" if "j < length tables" for j
    using one(4) Cons.prems(2) that by (cases "j = wi_block_table_index item") auto
  then have refs: "\<forall>j<length tables. psc_referenced st' ! j \<longleftrightarrow>
      psc_referenced st ! j \<or> j \<in> wi_block_table_index ` set (item # items)" using ih by auto
  have ids: "psc_request_ids st' = psc_request_ids st @ map wi_request_id (item # items)"
    "psc_output_slots st' = psc_output_slots st @ item_slots (item # items)"
    "psc_total_tokens st' = psc_total_tokens st + item_tokens (item # items)"
    using ih one(5,6,8) cat by (simp_all add: item_tokens_def)
  have idx: "distinct (map wi_block_table_index (item # items))"
    "\<forall>it\<in>set (item # items). \<not> psc_referenced st ! wi_block_table_index it"
    using ih fresh one(3) by (auto dest: sym)
  show ?case using ih one(1) refs ids idx by (metis list.set_intros(1) set_ConsD)
qed

definition written_blocks :: "owned_block_table list \<Rightarrow> work_item \<Rightarrow> u32 list" where
  "written_blocks tables item = drop (first_written tables item)
     (obt_physical_block_ids (tables ! wi_block_table_index item))"

lemma insert_written_Inr:
  "insert_written is w = Inr w' \<longleftrightarrow> distinct is \<and> set is \<inter> set w = {} \<and> w' = rev is @ w"
  by (induction "is" arbitrary: w) auto

lemma collect_written_Inr:
  "collect_written tables items w = Inr w' \<Longrightarrow>
     set w' = set w \<union> (\<Union>item\<in>set items. set (written_blocks tables item)) \<and>
     (\<forall>item\<in>set items. set (written_blocks tables item) \<inter> set w = {}) \<and>
     sorted_wrt (\<lambda>a b. set (written_blocks tables a) \<inter> set (written_blocks tables b) = {}) items"
proof (induction items arbitrary: w)
  case Nil
  then show ?case by simp
next
  case (Cons item items)
  have "set (written_blocks tables item) \<inter> set w = {}"
    "collect_written tables items (rev (written_blocks tables item) @ w) = Inr w'"
    using Cons.prems by (auto simp: insert_written_Inr written_blocks_def)
  then show ?case using Cons.IH [of "rev (written_blocks tables item) @ w"] by auto
qed

lemma sorted_wrt_pair:
  assumes "sorted_wrt R xs" and "\<And>a b. R a b \<Longrightarrow> R b a" and "a \<in> set xs" and "b \<in> set xs" and "a \<noteq> b"
  shows "R a b"
  using assms by (induction xs) auto

lemma aliases_Inr:
  assumes "validate_physical_block_aliases env items tables = Inr u"
    and "a \<in> set items" and "b \<in> set items" and "a \<noteq> b"
  shows "set (written_blocks tables a) \<inter> set (obt_physical_block_ids (tables ! wi_block_table_index b)) = {}"
proof -
  obtain w where w: "collect_written tables items [] = Inr w"
    and r: "\<forall>item\<in>set items. \<not> list_ex (\<lambda>i. i \<in> set w) (take (first_written tables item)
      (obt_physical_block_ids (tables ! wi_block_table_index item)))"
    using assms(1) by (auto simp: validate_physical_block_aliases_def forE_Inr)
  note c = collect_written_Inr [OF w]
  have "set (written_blocks tables a) \<inter> set (written_blocks tables b) = {}"
    by (rule sorted_wrt_pair [where xs = items]) (use c assms in auto)
  moreover have "set (written_blocks tables a) \<subseteq> set w" using c assms(2) by auto
  moreover have "set (obt_physical_block_ids (tables ! wi_block_table_index b)) =
      set (take (first_written tables b) (obt_physical_block_ids (tables ! wi_block_table_index b))) \<union>
      set (written_blocks tables b)"
    unfolding written_blocks_def by (metis append_take_drop_id set_append)
  ultimately show ?thesis using r assms(3) by (auto simp: list_ex_iff)
qed

lemma dense_slots:
  assumes "distinct xs" and "\<forall>x\<in>set xs. slot_value x < length xs"
  shows "sort xs = map OutputSlot [0..<length xs]"
proof (rule sorted_distinct_set_unique)
  have d: "distinct (map slot_value xs)" using assms(1) by (simp add: distinct_map inj_on_def output_slot.expand)
  have "set (map slot_value xs) \<subseteq> {0..<length xs}" using assms(2) by auto
  moreover have "card (set (map slot_value xs)) = length xs" using distinct_card [OF d] by simp
  ultimately have "set (map slot_value xs) = {0..<length xs}" by (intro card_subset_eq) auto
  then have "OutputSlot ` set (map slot_value xs) = OutputSlot ` {0..<length xs}" by simp
  then show "set (sort xs) = set (map OutputSlot [0..<length xs])" by (simp add: image_image)
  show "sorted (map OutputSlot [0..<length xs])"
    by (simp add: sorted_wrt_map less_eq_output_slot_def)
qed (use assms in \<open>auto simp: distinct_map inj_on_def\<close>)

text \<open>What the checks of \<open>from_version\<close> add up to.\<close>

lemma plan_facts:
  assumes "plan_from_version env v iid pre dec tables = Inr plan"
  defines "items \<equiv> pre @ dec"
  shows "items \<noteq> [] \<and> distinct (map wi_request_id items) \<and>
    (\<forall>item\<in>set pre. item_ok Prefill tables item) \<and> (\<forall>item\<in>set dec. item_ok Decode tables item) \<and>
    distinct (map wi_block_table_index items) \<and> wi_block_table_index ` set items = {..<length tables} \<and>
    ip_total_tokens plan = item_tokens items \<and>
    ip_output_slots plan = map OutputSlot [0..<length (item_slots items)] \<and>
    (\<forall>a\<in>set items. \<forall>b\<in>set items. a \<noteq> b \<longrightarrow>
      set (written_blocks tables a) \<inter> set (obt_physical_block_ids (tables ! wi_block_table_index b)) = {})"
proof -
  let ?st0 = "\<lparr>psc_referenced = replicate (length tables) False, psc_request_ids = [], psc_output_slots = [],
    psc_total_tokens = 0\<rparr>"
  obtain st1 st where g: "items \<noteq> []" "length tables = length items"
    "plan_scan_items Prefill tables pre ?st0 = Inr st1" "plan_scan_items Decode tables dec st1 = Inr st"
    "\<not> list_ex Not (psc_referenced st)" "validate_physical_block_aliases env items tables = Inr ()"
    "\<not> list_ex (\<lambda>slot. length (psc_output_slots st) \<le> slot_value slot) (psc_output_slots st)"
    "ip_total_tokens plan = psc_total_tokens st" "ip_output_slots plan = sort (psc_output_slots st)"
    using assms(1) unfolding plan_from_version_def validate_iteration_block_tables_def items_def
    by (auto simp: reserve_host_def)
  note s1 = plan_scan_items_Inr [OF g(3), simplified]
  have mid: "length (psc_referenced st1) = length tables" "distinct (psc_request_ids st1)"
    "distinct (psc_output_slots st1)" using s1 by blast+
  note s2 = plan_scan_items_Inr [OF g(4) mid]
  have cat: "item_slots items = item_slots pre @ item_slots dec" "item_tokens items = item_tokens pre + item_tokens dec"
    by (simp_all add: items_def item_slots_def item_tokens_def List.map_filter_def)
  have r1: "psc_referenced st1 ! j \<longleftrightarrow> j \<in> wi_block_table_index ` set pre" if "j < length tables" for j
    using s1 that by simp
  have r2: "psc_referenced st ! j \<longleftrightarrow> j \<in> wi_block_table_index ` set items" if "j < length tables" for j
    using s1 s2 that by (auto simp: items_def)
  have "psc_request_ids st = map wi_request_id items" "distinct (psc_request_ids st)" "distinct (psc_output_slots st)"
    using s1 s2 by (simp add: items_def, blast, blast)
  then have ids: "distinct (map wi_request_id items)" by simp
  have ok: "(\<forall>item\<in>set pre. item_ok Prefill tables item) \<and> (\<forall>item\<in>set dec. item_ok Decode tables item)"
    using s1 s2 by simp
  then have lt: "\<forall>item\<in>set items. wi_block_table_index item < length tables" by (auto simp: items_def item_ok_def)
  have all: "\<forall>j<length tables. psc_referenced st ! j" using g(5) s1 s2 by (auto simp: list_ex_length)
  have "wi_block_table_index ` set items = {..<length tables}" using all r2 lt by auto
  moreover have "wi_block_table_index ` set pre \<inter> wi_block_table_index ` set dec = {}"
    using s2 r1 lt by (auto simp: items_def) (metis UnI2 imageI)
  ultimately have tables: "distinct (map wi_block_table_index items) \<and> wi_block_table_index ` set items = {..<length tables}"
    using s1 s2 by (simp add: items_def)
  have tokens: "ip_total_tokens plan = item_tokens items" using g(8) s1 s2 cat by simp
  have "psc_output_slots st = item_slots items" "distinct (psc_output_slots st)" using s1 s2 cat by (simp, blast)
  then have "ip_output_slots plan = map OutputSlot [0..<length (item_slots items)]"
    using dense_slots [of "psc_output_slots st"] g(7,9) by (auto simp: list_ex_iff not_le)
  moreover have "\<forall>a\<in>set items. \<forall>b\<in>set items. a \<noteq> b \<longrightarrow>
      set (written_blocks tables a) \<inter> set (obt_physical_block_ids (tables ! wi_block_table_index b)) = {}"
    using aliases_Inr [OF g(6)] by blast
  ultimately show ?thesis using g(1) ids ok tables tokens by blast
qed

text \<open>C19. What the runtime may rely on: an accepted plan contains work, gives each request at most
  one item and its own block table of exactly the item's target length (the references are a
  bijection), counts its tokens exactly, numbers its outputs \<open>0..n-1\<close>, and no block an item writes
  occurs in the block table of another item.\<close>

theorem plan_sound:
  assumes "plan_from_version env v iid pre dec tables = Inr plan"
  defines "items \<equiv> pre @ dec"
  shows "items \<noteq> [] \<and> distinct (map wi_request_id items) \<and>
    (\<forall>item\<in>set pre. item_ok Prefill tables item) \<and> (\<forall>item\<in>set dec. item_ok Decode tables item) \<and>
    distinct (map wi_block_table_index items) \<and> wi_block_table_index ` set items = {..<length tables} \<and>
    ip_total_tokens plan = item_tokens items \<and>
    ip_output_slots plan = map OutputSlot [0..<length (item_slots items)] \<and>
    (\<forall>a\<in>set items. \<forall>b\<in>set items. a \<noteq> b \<longrightarrow>
      set (written_blocks tables a) \<inter> set (obt_physical_block_ids (tables ! wi_block_table_index b)) = {})"
  unfolding items_def by (rule plan_facts [OF assms(1)])

text \<open>A prefill chunk of two tokens and a decode step.\<close>

definition demo_prefill :: work_item where
  "demo_prefill = \<lparr>wi_request_id = RequestId 1, wi_kind = Prefill, wi_input_tokens = [5, 6],
     wi_target_logical_length = 2, wi_block_table_index = 1, wi_output_slot = None\<rparr>"

definition demo_decode :: work_item where
  "demo_decode = \<lparr>wi_request_id = RequestId 2, wi_kind = Decode, wi_input_tokens = [9],
     wi_target_logical_length = 17, wi_block_table_index = 0, wi_output_slot = Some (OutputSlot 0)\<rparr>"

definition demo_tables :: "owned_block_table list" where
  "demo_tables =
     [\<lparr>obt_request_id = RequestId 2, obt_schema_version = 1, obt_physical_block_ids = [4, 2],
       obt_valid_tokens = [16, 1], obt_logical_length = 17\<rparr>,
      \<lparr>obt_request_id = RequestId 1, obt_schema_version = 1, obt_physical_block_ids = [3],
       obt_valid_tokens = [2], obt_logical_length = 2\<rparr>]"

definition demo_plan :: iteration_plan where
  "demo_plan = projr (plan_from_version demo_env 1 (IterationId 1) [demo_prefill] [demo_decode] demo_tables)"

theorem plan_sound_witness:
  "plan_from_version demo_env 1 (IterationId 1) [demo_prefill] [demo_decode] demo_tables = Inr demo_plan \<and>
     ip_total_tokens demo_plan = 3 \<and> ip_output_slots demo_plan = [OutputSlot 0]"
proof -
  have p: "plan_from_version demo_env 1 (IterationId 1) [demo_prefill] [demo_decode] demo_tables = Inr demo_plan"
    by code_simp
  have "ip_total_tokens demo_plan = item_tokens ([demo_prefill] @ [demo_decode]) \<and>
      ip_output_slots demo_plan = map OutputSlot [0..<length (item_slots ([demo_prefill] @ [demo_decode]))]"
    using plan_sound [OF p] by blast
  then show ?thesis using p
    by (simp add: item_tokens_def item_slots_def List.map_filter_simps demo_prefill_def demo_decode_def)
qed

end
