(* ===== verification/Scheduler_Metrics.thy ===== *)
theory Scheduler_Metrics
  imports Scheduler_Config "HOL-Library.Multiset"
begin

text \<open>
  \<open>metrics.rs\<close>: counters that refuse to wrap, gauges that are checked before they are replaced, and
  fixed-size rolling windows with a nearest-rank percentile.
\<close>

record scheduler_gauges =
  sg_waiting_requests :: usize
  sg_waiting_prompt_tokens :: usize
  sg_active_sequences :: usize
  sg_promised_kv_blocks :: usize
  sg_allocated_kv_blocks :: usize
  sg_physical_kv_blocks :: usize
  sg_prefix_cache_blocks :: usize
  sg_retained_terminal_requests :: usize
  sg_pending_completions :: usize
  sg_completion_capacity :: usize
  sg_accepting :: bool
  sg_outstanding_iterations :: usize

record iteration_metric_sample =
  ms_batch_size :: usize
  ms_prefill_tokens :: usize
  ms_decode_tokens :: usize
  ms_scheduler_cpu_ns :: u64
  ms_gpu_execution_ns :: u64
  ms_gpu_idle_gap_ns :: u64

record rolling_window =
  rw_samples :: "u64 list"
  rw_capacity :: usize
  rw_next :: usize

record metric_window_snapshot =
  mw_sample_count :: usize
  mw_capacity :: usize
  mw_p95 :: "u64 option"

record scheduler_metrics =
  sm_requests_submitted :: u64
  sm_requests_admitted :: u64
  sm_requests_finished :: u64
  sm_requests_failed :: u64
  sm_requests_rejected :: u64
  sm_requests_cancelled :: u64
  sm_admission_timeouts :: u64
  sm_iterations_completed :: u64
  sm_iterations_aborted :: u64
  sm_prefill_tokens :: u64
  sm_decode_tokens :: u64
  sm_prefix_cache_hit_tokens :: u64
  sm_prefix_cache_evicted_blocks :: u64
  sm_gauges :: scheduler_gauges
  sm_queue_wait_ns :: rolling_window
  sm_scheduler_cpu_ns :: rolling_window
  sm_gpu_execution_ns :: rolling_window
  sm_gpu_idle_gap_ns :: rolling_window
  sm_iteration_batch_size :: rolling_window
  sm_batched_tokens :: rolling_window

record scheduler_metrics_snapshot =
  ss_metrics_degraded :: bool
  ss_counters :: scheduler_metrics
  ss_queue_wait_ns :: metric_window_snapshot
  ss_scheduler_cpu_ns :: metric_window_snapshot
  ss_gpu_execution_ns :: metric_window_snapshot
  ss_gpu_idle_gap_ns :: metric_window_snapshot
  ss_iteration_batch_size :: metric_window_snapshot
  ss_batched_tokens :: metric_window_snapshot

type_synonym metrics_cmd = "(scheduler_metrics, scheduler_error, unit) cmd"

subsection \<open>Rolling windows\<close>

definition rolling_window_new :: "host_env \<Rightarrow> usize \<Rightarrow> string \<Rightarrow> rolling_window scheduler_result" where
  "rolling_window_new env capacity resource =
     bindE (failE (capacity = 0)
       (InvalidConfiguration ''metrics_window_samples'' ''must be greater than zero'')) (\<lambda>_.
     bindE (failE (\<not> he_alloc env resource capacity) (HostAllocation resource capacity)) (\<lambda>_.
     Inr \<lparr>rw_samples = [], rw_capacity = capacity, rw_next = 0\<rparr>))"

definition window_record :: "u64 \<Rightarrow> rolling_window \<Rightarrow> rolling_window" where
  "window_record v w =
     (if length (rw_samples w) < rw_capacity w then w\<lparr>rw_samples := rw_samples w @ [v]\<rparr>
      else w\<lparr>rw_samples := (rw_samples w)[rw_next w := v], rw_next := (rw_next w + 1) mod rw_capacity w\<rparr>)"

definition window_snapshot :: "host_env \<Rightarrow> rolling_window \<Rightarrow> metric_window_snapshot scheduler_result" where
  "window_snapshot env w =
     (let n = length (rw_samples w) in
      bindE (failE (\<not> he_alloc env ''metric percentile scratch'' n)
        (HostAllocation ''metric percentile scratch'' n)) (\<lambda>_.
      let sorted = sort (rw_samples w) in
      bindE (if sorted = [] then Inr None
             else bindE (ok_or (checked_mul (length sorted) 95)
                    (ArithmeticOverflow ''metric p95 nearest rank'')) (\<lambda>rank.
                  let index = div_ceil rank 100 - 1 in
                  Inr (if index < length sorted then Some (sorted ! index) else None))) (\<lambda>p95.
      Inr \<lparr>mw_sample_count = n, mw_capacity = rw_capacity w, mw_p95 = p95\<rparr>)))"

subsection \<open>The collector\<close>

definition gauges_default :: scheduler_gauges where
  "gauges_default = \<lparr>sg_waiting_requests = 0, sg_waiting_prompt_tokens = 0, sg_active_sequences = 0,
     sg_promised_kv_blocks = 0, sg_allocated_kv_blocks = 0, sg_physical_kv_blocks = 0,
     sg_prefix_cache_blocks = 0, sg_retained_terminal_requests = 0, sg_pending_completions = 0,
     sg_completion_capacity = 0, sg_accepting = False, sg_outstanding_iterations = 0\<rparr>"

definition metrics_new :: "host_env \<Rightarrow> usize \<Rightarrow> scheduler_metrics scheduler_result" where
  "metrics_new env window_samples =
     bindE (rolling_window_new env window_samples ''queue wait window'') (\<lambda>w1.
     bindE (rolling_window_new env window_samples ''scheduler CPU window'') (\<lambda>w2.
     bindE (rolling_window_new env window_samples ''GPU execution window'') (\<lambda>w3.
     bindE (rolling_window_new env window_samples ''GPU idle-gap window'') (\<lambda>w4.
     bindE (rolling_window_new env window_samples ''batch-size window'') (\<lambda>w5.
     bindE (rolling_window_new env window_samples ''batched-token window'') (\<lambda>w6.
     Inr \<lparr>sm_requests_submitted = 0, sm_requests_admitted = 0, sm_requests_finished = 0,
          sm_requests_failed = 0, sm_requests_rejected = 0, sm_requests_cancelled = 0,
          sm_admission_timeouts = 0, sm_iterations_completed = 0, sm_iterations_aborted = 0,
          sm_prefill_tokens = 0, sm_decode_tokens = 0, sm_prefix_cache_hit_tokens = 0,
          sm_prefix_cache_evicted_blocks = 0, sm_gauges = gauges_default, sm_queue_wait_ns = w1,
          sm_scheduler_cpu_ns = w2, sm_gpu_execution_ns = w3, sm_gpu_idle_gap_ns = w4,
          sm_iteration_batch_size = w5, sm_batched_tokens = w6\<rparr>))))))"

definition metrics_from_config :: "host_env \<Rightarrow> scheduler_config \<Rightarrow> scheduler_metrics scheduler_result" where
  "metrics_from_config env config = metrics_new env (metrics_window_samples config)"

definition checked_next :: "u64 \<Rightarrow> string \<Rightarrow> u64 scheduler_result" where
  "checked_next v metric = ok_or (checked_add v 1) (MetricOverflow metric)"

definition checked_increment ::
  "(scheduler_metrics \<Rightarrow> u64) \<Rightarrow> (u64 \<Rightarrow> scheduler_metrics \<Rightarrow> scheduler_metrics) \<Rightarrow> string \<Rightarrow> metrics_cmd" where
  "checked_increment rd wr metric = withM (\<lambda>m.
     bindM (tryM (checked_next (rd m) metric)) (\<lambda>next. modM (wr next)))"

definition record_submission :: metrics_cmd where
  "record_submission = checked_increment sm_requests_submitted
     (\<lambda>n m. m\<lparr>sm_requests_submitted := n\<rparr>) ''requests_submitted''"

definition record_admission :: "u64 \<Rightarrow> metrics_cmd" where
  "record_admission queue_wait = withM (\<lambda>m.
     bindM (tryM (checked_next (sm_requests_admitted m) ''requests_admitted'')) (\<lambda>next.
     modM (\<lambda>m. m\<lparr>sm_requests_admitted := next,
       sm_queue_wait_ns := window_record queue_wait (sm_queue_wait_ns m)\<rparr>)))"

definition record_finished :: metrics_cmd where
  "record_finished = checked_increment sm_requests_finished
     (\<lambda>n m. m\<lparr>sm_requests_finished := n\<rparr>) ''requests_finished''"

definition record_failed :: metrics_cmd where
  "record_failed = checked_increment sm_requests_failed
     (\<lambda>n m. m\<lparr>sm_requests_failed := n\<rparr>) ''requests_failed''"

definition record_rejection :: metrics_cmd where
  "record_rejection = checked_increment sm_requests_rejected
     (\<lambda>n m. m\<lparr>sm_requests_rejected := n\<rparr>) ''requests_rejected''"

definition record_cancellation :: metrics_cmd where
  "record_cancellation = checked_increment sm_requests_cancelled
     (\<lambda>n m. m\<lparr>sm_requests_cancelled := n\<rparr>) ''requests_cancelled''"

definition record_admission_timeout :: metrics_cmd where
  "record_admission_timeout = checked_increment sm_admission_timeouts
     (\<lambda>n m. m\<lparr>sm_admission_timeouts := n\<rparr>) ''admission_timeouts''"

definition record_prefix_cache_hit :: "usize \<Rightarrow> metrics_cmd" where
  "record_prefix_cache_hit tokens = withM (\<lambda>m.
     bindM (tryM (ok_or (checked_add (sm_prefix_cache_hit_tokens m) tokens)
       (ArithmeticOverflow ''prefix_cache_hit_tokens''))) (\<lambda>n.
     modM (\<lambda>m. m\<lparr>sm_prefix_cache_hit_tokens := n\<rparr>)))"

definition record_prefix_cache_eviction :: metrics_cmd where
  "record_prefix_cache_eviction = checked_increment sm_prefix_cache_evicted_blocks
     (\<lambda>n m. m\<lparr>sm_prefix_cache_evicted_blocks := n\<rparr>) ''prefix_cache_evicted_blocks''"

definition record_aborted_iteration :: metrics_cmd where
  "record_aborted_iteration = checked_increment sm_iterations_aborted
     (\<lambda>n m. m\<lparr>sm_iterations_aborted := n\<rparr>) ''iterations_aborted''"

definition sample_total_tokens :: "iteration_metric_sample \<Rightarrow> usize scheduler_result" where
  "sample_total_tokens s = ok_or (checked_add (ms_prefill_tokens s) (ms_decode_tokens s))
     (ArithmeticOverflow ''iteration metric token count'')"

definition record_iteration :: "iteration_metric_sample \<Rightarrow> metrics_cmd" where
  "record_iteration s = withM (\<lambda>m.
     bindM (failIf (ms_batch_size s = 0) (InvalidMetricSample ''batch_size''
       ''completed iteration batch size must be greater than zero'')) (\<lambda>_.
     bindM (tryM (sample_total_tokens s)) (\<lambda>total_tokens.
     bindM (failIf (total_tokens = 0) (InvalidMetricSample ''tokens''
       ''completed iteration must contain at least one token'')) (\<lambda>_.
     bindM (tryM (ok_or (u64_try_from (ms_prefill_tokens s))
       (ArithmeticOverflow ''prefill token metric conversion''))) (\<lambda>prefill.
     bindM (tryM (ok_or (u64_try_from (ms_decode_tokens s))
       (ArithmeticOverflow ''decode token metric conversion''))) (\<lambda>decode.
     bindM (tryM (ok_or (u64_try_from (ms_batch_size s))
       (ArithmeticOverflow ''batch-size metric conversion''))) (\<lambda>batch_size.
     bindM (tryM (ok_or (u64_try_from total_tokens)
       (ArithmeticOverflow ''batched-token metric conversion''))) (\<lambda>total_tokens_u64.
     bindM (tryM (checked_next (sm_iterations_completed m) ''iterations_completed'')) (\<lambda>next_iterations.
     bindM (tryM (ok_or (checked_add (sm_prefill_tokens m) prefill) (MetricOverflow ''prefill_tokens'')))
       (\<lambda>next_prefill.
     bindM (tryM (ok_or (checked_add (sm_decode_tokens m) decode) (MetricOverflow ''decode_tokens'')))
       (\<lambda>next_decode.
     modM (\<lambda>m. m\<lparr>sm_iterations_completed := next_iterations, sm_prefill_tokens := next_prefill,
       sm_decode_tokens := next_decode,
       sm_scheduler_cpu_ns := window_record (ms_scheduler_cpu_ns s) (sm_scheduler_cpu_ns m),
       sm_gpu_execution_ns := window_record (ms_gpu_execution_ns s) (sm_gpu_execution_ns m),
       sm_gpu_idle_gap_ns := window_record (ms_gpu_idle_gap_ns s) (sm_gpu_idle_gap_ns m),
       sm_iteration_batch_size := window_record batch_size (sm_iteration_batch_size m),
       sm_batched_tokens := window_record total_tokens_u64 (sm_batched_tokens m)\<rparr>))))))))))))"

definition set_gauges :: "scheduler_gauges \<Rightarrow> metrics_cmd" where
  "set_gauges g =
     bindM (failIf (sg_physical_kv_blocks g < sg_allocated_kv_blocks g)
       (InvalidMetricSample ''allocated_kv_blocks'' ''must not exceed physical_kv_blocks'')) (\<lambda>_.
     bindM (failIf (sg_physical_kv_blocks g < sg_promised_kv_blocks g)
       (InvalidMetricSample ''promised_kv_blocks'' ''must not exceed physical_kv_blocks'')) (\<lambda>_.
     bindM (failIf (sg_promised_kv_blocks g < sg_allocated_kv_blocks g)
       (InvalidMetricSample ''allocated_kv_blocks'' ''must not exceed promised_kv_blocks'')) (\<lambda>_.
     bindM (failIf (1 < sg_outstanding_iterations g) (InvalidMetricSample ''outstanding_iterations''
       ''the V1 scheduler permits at most one immutable plan'')) (\<lambda>_.
     bindM (failIf (sg_completion_capacity g < sg_pending_completions g)
       (InvalidMetricSample ''pending_completions'' ''must not exceed completion_capacity'')) (\<lambda>_.
     modM (\<lambda>m. m\<lparr>sm_gauges := g\<rparr>))))))"

definition metrics_snapshot :: "host_env \<Rightarrow> scheduler_metrics \<Rightarrow> scheduler_metrics_snapshot scheduler_result" where
  "metrics_snapshot env m =
     bindE (window_snapshot env (sm_queue_wait_ns m)) (\<lambda>w1.
     bindE (window_snapshot env (sm_scheduler_cpu_ns m)) (\<lambda>w2.
     bindE (window_snapshot env (sm_gpu_execution_ns m)) (\<lambda>w3.
     bindE (window_snapshot env (sm_gpu_idle_gap_ns m)) (\<lambda>w4.
     bindE (window_snapshot env (sm_iteration_batch_size m)) (\<lambda>w5.
     bindE (window_snapshot env (sm_batched_tokens m)) (\<lambda>w6.
     Inr \<lparr>ss_metrics_degraded = False, ss_counters = m, ss_queue_wait_ns = w1,
          ss_scheduler_cpu_ns = w2, ss_gpu_execution_ns = w3, ss_gpu_idle_gap_ns = w4,
          ss_iteration_batch_size = w5, ss_batched_tokens = w6\<rparr>))))))"

definition kv_utilization_basis_points :: "scheduler_metrics_snapshot \<Rightarrow> u16 option" where
  "kv_utilization_basis_points s =
     (let g = sm_gauges (ss_counters s) in
      if sg_physical_kv_blocks g = 0 then None
      else let basis_points = sg_allocated_kv_blocks g * 10000 div sg_physical_kv_blocks g in
        if basis_points \<le> u16_max then Some basis_points else None)"

definition prefill_token_ratio_basis_points :: "scheduler_metrics_snapshot \<Rightarrow> u16 option" where
  "prefill_token_ratio_basis_points s =
     Option.bind (checked_add (sm_prefill_tokens (ss_counters s)) (sm_decode_tokens (ss_counters s))) (\<lambda>total.
     if total = 0 then None
     else let basis_points = sm_prefill_tokens (ss_counters s) * 10000 div total in
       if basis_points \<le> u16_max then Some basis_points else None)"

subsection \<open>A window is the recent past\<close>

text \<open>The interface of a bounded history: recording appends and forgets the oldest entry.\<close>

locale bounded_history =
  fixes wf :: "'w \<Rightarrow> bool" and capacity :: "'w \<Rightarrow> nat" and contents :: "'w \<Rightarrow> 'a list"
    and push :: "'a \<Rightarrow> 'w \<Rightarrow> 'w"
  assumes push_wf: "wf w \<Longrightarrow> wf (push v w) \<and> capacity (push v w) = capacity w"
    and push_contents: "wf w \<Longrightarrow>
      contents (push v w) = drop (length (contents w) + 1 - capacity w) (contents w @ [v])"
    and contents_bound: "wf w \<Longrightarrow> length (contents w) \<le> capacity w"
begin

lemma push_all_wf: "wf w \<Longrightarrow> wf (fold push vs w) \<and> capacity (fold push vs w) = capacity w"
  by (induction vs arbitrary: w) (use push_wf in auto)

text \<open>After any number of recordings the history is the last \<open>capacity\<close> values.\<close>

lemma push_all_contents:
  "wf w \<Longrightarrow> contents (fold push vs w) =
     drop (length (contents w) + length vs - capacity w) (contents w @ vs)"
proof (induction vs rule: rev_induct)
  case Nil
  then show ?case using contents_bound [of w] by simp
next
  case (snoc v vs)
  let ?u = "fold push vs w" and ?xs = "contents w @ vs" and ?c = "capacity w"
  have u: "wf ?u" "capacity ?u = ?c" using push_all_wf snoc.prems by auto
  have ih: "contents ?u = drop (length ?xs - ?c) ?xs" using snoc by simp
  have "contents (push v ?u) = drop (length (contents ?u) + 1 - ?c) (contents ?u @ [v])"
    using push_contents [OF u(1)] u(2) by simp
  also have "\<dots> = drop (length (?xs @ [v]) - ?c) (?xs @ [v])"
  proof (cases "length ?xs < ?c")
    case False
    define xs where "xs = ?xs"
    have len: "?c \<le> length xs" using False by (simp add: xs_def)
    have "contents ?u @ [v] = drop (length xs - ?c) (xs @ [v])" using ih by (simp add: xs_def [symmetric])
    moreover have "length (contents ?u) = ?c" using ih len by (simp add: xs_def [symmetric])
    moreover have "1 + (length xs - ?c) = length (xs @ [v]) - ?c" using len by simp
    ultimately show ?thesis unfolding xs_def [symmetric] by (metis add_diff_cancel_left' drop_drop)
  next
    case True
    then have "contents ?u = ?xs" using ih by simp
    then show ?thesis using True by simp
  qed
  finally show ?case by (simp add: add.assoc)
qed

end

definition window_ok :: "rolling_window \<Rightarrow> bool" where
  "window_ok w \<longleftrightarrow> 0 < rw_capacity w \<and> length (rw_samples w) \<le> rw_capacity w \<and> rw_next w < rw_capacity w \<and>
     (length (rw_samples w) < rw_capacity w \<longrightarrow> rw_next w = 0)"

definition window_values :: "rolling_window \<Rightarrow> u64 list" where
  "window_values w = drop (rw_next w) (rw_samples w) @ take (rw_next w) (rw_samples w)"

lemma length_window_values [simp]: "length (window_values w) = length (rw_samples w)"
  by (auto simp: window_values_def min_def)

lemma window_record_contents:
  assumes "window_ok w"
  shows "window_values (window_record v w) =
    drop (length (window_values w) + 1 - rw_capacity w) (window_values w @ [v])"
proof (cases "length (rw_samples w) < rw_capacity w")
  case True
  then show ?thesis using assms by (simp add: window_ok_def window_values_def window_record_def)
next
  case False
  let ?xs = "rw_samples w" and ?n = "rw_next w" and ?c = "rw_capacity w"
  have len: "length ?xs = ?c" and n: "?n < ?c" using False assms by (auto simp: window_ok_def)
  have split: "drop ?n ?xs = ?xs ! ?n # drop (Suc ?n) ?xs" using len n by (simp add: Cons_nth_drop_Suc)
  have tl: "drop (length (window_values w) + 1 - ?c) (window_values w @ [v]) = tl (window_values w @ [v])"
  proof -
    have one: "length (window_values w) + 1 - ?c = Suc 0" using len by simp
    show ?thesis unfolding one drop_Suc drop_0 ..
  qed
  have "window_values (window_record v w) = tl (window_values w @ [v])"
  proof (cases "Suc ?n = ?c")
    case True
    then have "drop (Suc ?n) ?xs = []" using len by simp
    then have "window_values w = ?xs ! ?n # take ?n ?xs" using split by (simp add: window_values_def)
    moreover have "?xs[?n := v] = take ?n ?xs @ [v]"
      using len n True by (simp add: upd_conv_take_nth_drop)
    ultimately show ?thesis using False True
      by (simp add: window_values_def window_record_def)
  next
    case False2: False
    then have "(?n + 1) mod ?c = Suc ?n" using n by simp
    moreover have "take (Suc ?n) (?xs[?n := v]) = take ?n ?xs @ [v]"
      using len n by (simp add: take_Suc_conv_app_nth)
    ultimately show ?thesis using False split
      by (simp add: window_values_def window_record_def)
  qed
  then show ?thesis using tl by simp
qed

interpretation window: bounded_history window_ok rw_capacity window_values window_record
proof unfold_locales
  fix w :: rolling_window and v
  assume ok: "window_ok w"
  show "window_ok (window_record v w) \<and> rw_capacity (window_record v w) = rw_capacity w"
    using ok by (auto simp: window_ok_def window_record_def)
  show "length (window_values w) \<le> rw_capacity w" using ok by (simp add: window_ok_def)
qed (rule window_record_contents)

text \<open>C27. A rolling window is the recent past: after any sequence of recordings into a new window
  the ring buffer, read from its cursor, holds exactly the last \<open>capacity\<close> values in order.\<close>

theorem window_is_recent_past:
  assumes "rolling_window_new env capacity resource = Inr w"
  shows "window_values (fold window_record vs w) = drop (length vs - capacity) vs \<and>
    length (rw_samples (fold window_record vs w)) = min (length vs) capacity"
proof -
  have w: "window_ok w" "rw_capacity w = capacity" "window_values w = []"
    using assms by (auto simp: rolling_window_new_def window_ok_def window_values_def)
  have v: "window_values (fold window_record vs w) = drop (length vs - capacity) vs"
    using window.push_all_contents [OF w(1), of vs] w by simp
  moreover have "length (rw_samples (fold window_record vs w)) = min (length vs) capacity"
    using arg_cong [OF v, of length] by (simp add: min_def)
  ultimately show ?thesis by blast
qed

theorem window_is_recent_past_witness:
  "window_values (fold window_record [1, 2, 3, 4, 5] \<lparr>rw_samples = [], rw_capacity = 3, rw_next = 0\<rparr>) = [3, 4, 5]"
proof -
  have "rolling_window_new \<lparr>he_alloc = (\<lambda>_ _. True), he_alloc_elapsed_ns = (\<lambda>_. 0), he_cpu_elapsed_ns = 0,
      he_block_slot_bytes = 0\<rparr> 3 ''w'' = Inr \<lparr>rw_samples = [], rw_capacity = 3, rw_next = 0\<rparr>"
    by (simp add: rolling_window_new_def failE_def)
  from window_is_recent_past [OF this, of "[1, 2, 3, 4, 5]"] show ?thesis by (simp add: numeral_2_eq_2)
qed

lemma sorted_count_le:
  fixes v :: nat
  assumes "sorted xs" and "i < length xs" and "v = xs ! i"
  shows "i + 1 \<le> length (filter (\<lambda>x. x \<le> v) xs)" and "length (filter (\<lambda>x. x < v) xs) \<le> i"
proof -
  have cat: "xs = take (Suc i) xs @ drop (Suc i) xs" "xs = take i xs @ drop i xs" by simp_all
  have "\<forall>x\<in>set (take (Suc i) xs). x \<le> v"
    using sorted_nth_mono [OF assms(1) _ assms(2)] assms(2,3) by (auto simp: in_set_conv_nth less_Suc_eq_le)
  then have "filter (\<lambda>x. x \<le> v) (take (Suc i) xs) = take (Suc i) xs" by simp
  then have "length (filter (\<lambda>x. x \<le> v) xs) = Suc i + length (filter (\<lambda>x. x \<le> v) (drop (Suc i) xs))"
    using assms(2) by (subst cat(1)) (simp del: append_take_drop_id)
  then show "i + 1 \<le> length (filter (\<lambda>x. x \<le> v) xs)" by simp
  have "\<forall>x\<in>set (drop i xs). \<not> x < v"
    using sorted_nth_mono [OF assms(1), of i] assms(2,3) by (auto simp: in_set_conv_nth not_less)
  then have "filter (\<lambda>x. x < v) (drop i xs) = []" by (simp add: filter_empty_conv)
  then have "length (filter (\<lambda>x. x < v) xs) = length (filter (\<lambda>x. x < v) (take i xs))"
    by (subst cat(2)) (simp del: append_take_drop_id)
  also have "\<dots> \<le> i" using length_filter_le [of "\<lambda>x. x < v" "take i xs"] by simp
  finally show "length (filter (\<lambda>x. x < v) xs) \<le> i" .
qed

text \<open>Nearest-rank percentile: the p95 a snapshot reports is a retained sample, at least 95 % of
  the retained samples do not exceed it, and fewer than 95 % of them lie strictly below it.\<close>

theorem p95_nearest_rank:
  assumes "window_snapshot env w = Inr s" and "rw_samples w \<noteq> []"
  shows "\<exists>v. mw_p95 s = Some v \<and> v \<in> set (rw_samples w) \<and>
    95 * length (rw_samples w) \<le> 100 * length (filter (\<lambda>x. x \<le> v) (rw_samples w)) \<and>
    100 * length (filter (\<lambda>x. x < v) (rw_samples w)) < 95 * length (rw_samples w)"
proof -
  let ?xs = "sort (rw_samples w)" and ?n = "length (rw_samples w)"
  define i where "i = div_ceil (?n * 95) 100 - 1"
  have n: "0 < ?n" using assms(2) by simp
  have pos: "0 < div_ceil (?n * 95) 100" using n by (simp add: less_div_ceil_iff)
  then have c1: "div_ceil (?n * 95) 100 = i + 1" by (simp add: i_def)
  have hi: "?n * 95 \<le> (i + 1) * 100"
    using div_ceil_le_iff [of 100 "?n * 95" "i + 1"] c1 by simp
  have lo: "i * 100 < ?n * 95" using less_div_ceil_iff [of 100 i "?n * 95"] c1 by simp
  have i: "i < length ?xs" using lo by simp
  have ne: "?xs \<noteq> []" using assms(2) by (metis length_0_conv length_sort)
  have p: "mw_p95 s = Some (?xs ! i)"
    using assms i ne by (auto simp: window_snapshot_def Let_def checked_mul_def c1 split: if_splits)
  have m: "length (filter P ?xs) = length (filter P (rw_samples w))" for P
    by (metis mset_filter mset_sort size_mset)
  note c = sorted_count_le [OF sorted_sort i refl, unfolded m]
  have "?xs ! i \<in> set (rw_samples w)" using i by (metis nth_mem set_sort)
  moreover have "95 * ?n \<le> 100 * length (filter (\<lambda>x. x \<le> ?xs ! i) (rw_samples w))"
    using mult_le_mono2 [OF c(1), of 100] hi by simp
  moreover have "100 * length (filter (\<lambda>x. x < ?xs ! i) (rw_samples w)) < 95 * ?n"
    using mult_le_mono2 [OF c(2), of 100] lo by simp
  ultimately show ?thesis using p by blast
qed

theorem p95_nearest_rank_witness:
  "\<exists>s v. window_snapshot \<lparr>he_alloc = (\<lambda>_ _. True), he_alloc_elapsed_ns = (\<lambda>_. 0), he_cpu_elapsed_ns = 0,
      he_block_slot_bytes = 0\<rparr> \<lparr>rw_samples = [30, 10, 20], rw_capacity = 3, rw_next = 0\<rparr> = Inr s \<and>
     mw_p95 s = Some v \<and> v \<in> {30, 10, 20}"
proof -
  obtain s where s: "window_snapshot \<lparr>he_alloc = (\<lambda>_ _. True), he_alloc_elapsed_ns = (\<lambda>_. 0), he_cpu_elapsed_ns = 0,
      he_block_slot_bytes = 0\<rparr> \<lparr>rw_samples = [30, 10, 20], rw_capacity = 3, rw_next = 0\<rparr> = Inr s"
    by (simp add: window_snapshot_def Let_def failE_def checked_mul_def)
  then show ?thesis using p95_nearest_rank [OF s] by auto
qed

text \<open>Recording a completed iteration is atomic: it succeeds exactly for a non-empty batch with at
  least one token whose counters do not overflow, and a refused sample leaves the collector
  untouched.\<close>

theorem record_iteration_atomic:
  "(fst (record_iteration s m) = Inr () \<longleftrightarrow>
     0 < ms_batch_size s \<and> 0 < ms_prefill_tokens s + ms_decode_tokens s \<and> ms_batch_size s \<le> u64_max \<and>
     ms_prefill_tokens s + ms_decode_tokens s \<le> u64_max \<and> sm_iterations_completed m < u64_max \<and>
     sm_prefill_tokens m + ms_prefill_tokens s \<le> u64_max \<and> sm_decode_tokens m + ms_decode_tokens s \<le> u64_max) \<and>
   (fst (record_iteration s m) = Inr () \<or> snd (record_iteration s m) = m)"
    (is "(_ \<longleftrightarrow> ?g) \<and> _")
proof -
  have "wp (record_iteration s) (\<lambda>_ _. ?g) (\<lambda>_ m'. \<not> ?g \<and> m' = m) m"
    unfolding record_iteration_def sample_total_tokens_def checked_next_def wp_withM
    by (intro wp_guards) (auto simp: wp_simps)
  then show ?thesis
    by (auto simp: wp_def split: prod.splits sum.splits)
qed

end
