(* ===== verification/Prefix_Cache.thy ===== *)
theory Prefix_Cache
  imports Scheduler_Config Kv_Machine "HOL-Library.AList"
begin

text \<open>
  \<open>prefix_cache.rs\<close>: a bounded index of prompt blocks, each entry keyed by its tokens and its parent
  entry, in a doubly linked recency list threaded through the entry array. The hash map is an
  association list. The two traversals (up the parents, along the recency list) visit each entry at
  most once, so the number of entries is enough fuel; running out of it would be the error
  \<open>cache_diverged\<close>, which the contracts of \<open>Prefix_Cache_Inv\<close> exclude.
\<close>

type_synonym entry_id = u32

abbreviation (input) ROOT :: entry_id where "ROOT \<equiv> u32_max"
abbreviation (input) NO_ENTRY :: entry_id where "NO_ENTRY \<equiv> u32_max"

record cache_key =
  ck_parent :: entry_id
  ck_tokens :: "u32 list"

record cache_entry =
  ce_key :: cache_key
  ce_block :: block_id
  ce_children :: u32
  ce_older :: entry_id
  ce_newer :: entry_id

record prefix_cache =
  pc_capacity :: usize
  pc_entries :: "cache_entry option list"
  pc_free_entries :: "entry_id list"
  pc_index :: "(cache_key \<times> entry_id) list"
  pc_oldest :: entry_id
  pc_newest :: entry_id
  pc_length :: usize

type_synonym 'a cache_cmd = "(prefix_cache, scheduler_error, 'a) cmd"
type_synonym 'a cache_pool_cmd = "(prefix_cache \<times> kv_block_pool, scheduler_error, 'a) cmd"

definition on_cache :: "'a cache_cmd \<Rightarrow> 'a cache_pool_cmd" where
  "on_cache m = zoomM fst (\<lambda>c (_, p). (c, p)) id m"

definition on_cache_pool :: "'a pool_cmd \<Rightarrow> 'a cache_pool_cmd" where
  "on_cache_pool m = zoomM snd (\<lambda>p (c, _). (c, p)) PagedKv m"

abbreviation (input) cache_diverged :: scheduler_error where
  "cache_diverged \<equiv> InvalidPlan ''prefix cache'' ''traversal left the entry list''"

definition cache_key_of :: "entry_id \<Rightarrow> u32 list \<Rightarrow> cache_key scheduler_result" where
  "cache_key_of parent tokens =
     bindE (failE (length tokens \<noteq> KV_BLOCK_SIZE)
       (InvalidPlan ''prefix cache key'' ''a key covers exactly one full KV block'')) (\<lambda>_.
     Inr \<lparr>ck_parent = parent, ck_tokens = tokens\<rparr>)"

definition prefix_cache_new :: "host_env \<Rightarrow> usize \<Rightarrow> prefix_cache scheduler_result" where
  "prefix_cache_new env capacity =
     bindE (ok_or (u32_try_from capacity)
       (InvalidConfiguration ''prefix_cache.capacity'' ''must fit the U32 entry index'')) (\<lambda>top.
     bindE (failE (\<not> he_alloc env ''prefix cache entries'' capacity)
       (HostAllocation ''prefix cache entries'' capacity)) (\<lambda>_.
     bindE (failE (\<not> he_alloc env ''prefix cache free entries'' capacity)
       (HostAllocation ''prefix cache free entries'' capacity)) (\<lambda>_.
     bindE (failE (\<not> he_alloc env ''prefix cache index'' capacity)
       (HostAllocation ''prefix cache index'' capacity)) (\<lambda>_.
     Inr \<lparr>pc_capacity = capacity, pc_entries = replicate capacity None,
          pc_free_entries = rev [0..<top], pc_index = [], pc_oldest = NO_ENTRY,
          pc_newest = NO_ENTRY, pc_length = 0\<rparr>))))"

text \<open>\<open>entry\<close> and \<open>entry_mut\<close>.\<close>

definition cache_entry_at :: "prefix_cache \<Rightarrow> entry_id \<Rightarrow> cache_entry scheduler_result" where
  "cache_entry_at c i =
     ok_or (if i < length (pc_entries c) then pc_entries c ! i else None)
       (InvalidPlan ''prefix cache'' ''entry is vacant'')"

definition update_entry :: "entry_id \<Rightarrow> (cache_entry \<Rightarrow> cache_entry) \<Rightarrow> unit cache_cmd" where
  "update_entry i f = withM (\<lambda>c.
     bindM (tryM (cache_entry_at c i)) (\<lambda>entry.
     modM (\<lambda>c. c\<lparr>pc_entries := (pc_entries c)[i := Some (f entry)]\<rparr>)))"

definition cache_len :: "prefix_cache \<Rightarrow> usize" where
  "cache_len c = pc_length c"

definition cache_find ::
  "prefix_cache \<Rightarrow> entry_id \<Rightarrow> u32 list \<Rightarrow> (entry_id \<times> block_id) option scheduler_result" where
  "cache_find c parent tokens =
     bindE (cache_key_of parent tokens) (\<lambda>key.
     case map_of (pc_index c) key of
       None \<Rightarrow> Inr None
     | Some i \<Rightarrow> bindE (cache_entry_at c i) (\<lambda>entry. Inr (Some (i, ce_block entry))))"

definition unlink :: "entry_id \<Rightarrow> unit cache_cmd" where
  "unlink i = withM (\<lambda>c.
     bindM (tryM (cache_entry_at c i)) (\<lambda>entry.
     let older = ce_older entry; newer = ce_newer entry in
     bindM (if older = NO_ENTRY then modM (\<lambda>c. c\<lparr>pc_oldest := newer\<rparr>)
            else update_entry older (\<lambda>e. e\<lparr>ce_newer := newer\<rparr>)) (\<lambda>_.
     if newer = NO_ENTRY then modM (\<lambda>c. c\<lparr>pc_newest := older\<rparr>)
     else update_entry newer (\<lambda>e. e\<lparr>ce_older := older\<rparr>))))"

definition link_newest :: "entry_id \<Rightarrow> unit cache_cmd" where
  "link_newest i = withM (\<lambda>c.
     let previous = pc_newest c in
     bindM (update_entry i (\<lambda>e. e\<lparr>ce_older := previous, ce_newer := NO_ENTRY\<rparr>)) (\<lambda>_.
     bindM (if previous = NO_ENTRY then modM (\<lambda>c. c\<lparr>pc_oldest := i\<rparr>)
            else update_entry previous (\<lambda>e. e\<lparr>ce_newer := i\<rparr>)) (\<lambda>_.
     modM (\<lambda>c. c\<lparr>pc_newest := i\<rparr>))))"

definition cache_insert :: "entry_id \<Rightarrow> u32 list \<Rightarrow> block_id \<Rightarrow> entry_id cache_cmd" where
  "cache_insert parent tokens block =
     bindM (tryM (cache_key_of parent tokens)) (\<lambda>key.
     withM (\<lambda>c.
     bindM (failIf (pc_free_entries c = [])
       (InvalidPlan ''prefix cache'' ''insert without a free entry'')) (\<lambda>_.
     let i = last (pc_free_entries c) in
     bindM (modM (\<lambda>c. c\<lparr>pc_free_entries := butlast (pc_free_entries c)\<rparr>)) (\<lambda>_.
     bindM (if parent \<noteq> ROOT
            then update_entry parent (\<lambda>e. e\<lparr>ce_children := wrapping_add32 (ce_children e) 1\<rparr>)
            else ret ()) (\<lambda>_.
     bindM (modM (\<lambda>c. c\<lparr>pc_entries := (pc_entries c)[i := Some \<lparr>ce_key = key, ce_block = block,
       ce_children = 0, ce_older = NO_ENTRY, ce_newer = NO_ENTRY\<rparr>]\<rparr>)) (\<lambda>_.
     bindM (link_newest i) (\<lambda>_.
     bindM (modM (\<lambda>c. c\<lparr>pc_index := AList.update key i (pc_index c),
       pc_length := wrapping_add (pc_length c) 1\<rparr>)) (\<lambda>_.
     ret i))))))))"

definition has_room :: "prefix_cache \<Rightarrow> bool" where
  "has_room c \<longleftrightarrow> pc_length c < pc_capacity c"

fun touch_loop :: "nat \<Rightarrow> entry_id \<Rightarrow> unit cache_cmd" where
  "touch_loop 0 current = (if current \<noteq> ROOT then throwM cache_diverged else ret ())"
| "touch_loop (Suc fuel) current =
     (if current \<noteq> ROOT
      then bindM (unlink current) (\<lambda>_.
           bindM (link_newest current) (\<lambda>_.
           withM (\<lambda>c.
           bindM (tryM (cache_entry_at c current)) (\<lambda>entry.
           touch_loop fuel (ck_parent (ce_key entry))))))
      else ret ())"

definition touch_path :: "entry_id \<Rightarrow> unit cache_cmd" where
  "touch_path i = withM (\<lambda>c. touch_loop (length (pc_entries c)) i)"

definition cache_remove :: "entry_id \<Rightarrow> unit cache_pool_cmd" where
  "cache_remove i =
     bindM (on_cache (unlink i)) (\<lambda>_.
     withM (\<lambda>(c, p).
     bindM (tryM (ok_or (pc_entries c ! i)
       (InvalidPlan ''prefix cache'' ''removed entry is vacant''))) (\<lambda>entry.
     bindM (on_cache (modM (\<lambda>c. c\<lparr>pc_entries := (pc_entries c)[i := None]\<rparr>))) (\<lambda>_.
     bindM (on_cache_pool (release_shared_block (ce_block entry))) (\<lambda>_.
     bindM (on_cache (modM (\<lambda>c. c\<lparr>pc_index := AList.delete (ce_key entry) (pc_index c)\<rparr>))) (\<lambda>_.
     bindM (if ck_parent (ce_key entry) \<noteq> ROOT
            then on_cache (update_entry (ck_parent (ce_key entry))
                   (\<lambda>e. e\<lparr>ce_children := wrapping_sub32 (ce_children e) 1\<rparr>))
            else ret ()) (\<lambda>_.
     on_cache (modM (\<lambda>c. c\<lparr>pc_free_entries := pc_free_entries c @ [i],
       pc_length := wrapping_sub (pc_length c) 1\<rparr>)))))))))"

fun evict_loop :: "nat \<Rightarrow> entry_id \<Rightarrow> bool cache_pool_cmd" where
  "evict_loop 0 candidate = (if candidate \<noteq> NO_ENTRY then throwM cache_diverged else ret False)"
| "evict_loop (Suc fuel) candidate =
     (if candidate \<noteq> NO_ENTRY
      then withM (\<lambda>(c, p).
           bindM (tryM (cache_entry_at c candidate)) (\<lambda>entry.
           bindM (if ce_children entry = 0
                  then bindM (tryM (map_err PagedKv (shared_references p (ce_block entry)))) (\<lambda>n.
                       ret (n = 1))
                  else ret False) (\<lambda>evictable.
           if evictable then bindM (cache_remove candidate) (\<lambda>_. ret True)
           else evict_loop fuel (ce_newer entry))))
      else ret False)"

definition evict_one :: "bool cache_pool_cmd" where
  "evict_one = withM (\<lambda>(c, p). evict_loop (length (pc_entries c)) (pc_oldest c))"

definition cache_clear :: "unit cache_pool_cmd" where
  "cache_clear = withM (\<lambda>(c, p).
     bindM (forM [0..<length (pc_entries c)] (\<lambda>index. withM (\<lambda>(c, p).
       case pc_entries c ! index of
         None \<Rightarrow> ret ()
       | Some entry \<Rightarrow>
           bindM (on_cache (modM (\<lambda>c. c\<lparr>pc_entries := (pc_entries c)[index := None]\<rparr>))) (\<lambda>_.
           bindM (on_cache_pool (release_shared_block (ce_block entry))) (\<lambda>_.
           on_cache (modM (\<lambda>c. c\<lparr>pc_free_entries := pc_free_entries c @ [index]\<rparr>))))))) (\<lambda>_.
     on_cache (modM (\<lambda>c. c\<lparr>pc_index := [], pc_oldest := NO_ENTRY, pc_newest := NO_ENTRY,
       pc_length := 0\<rparr>))))"

end
