(* ===== verification/Scheduler_State.thy ===== *)
theory Scheduler_State
  imports Iteration_Plan Scheduler_Metrics Prefix_Cache "HOL-Library.Product_Lexorder"
begin

text \<open>
  The data of \<open>scheduler.rs\<close> and the small operations everything else is built from: the request
  state machine, identifiers and clock, completion outbox, metric observation, configuration.
\<close>

subsection \<open>Requests\<close>

record request_descriptor =
  rd_prompt_token_ids :: "u32 list"
  rd_max_new_tokens :: usize

datatype request_state = Waiting | Admitted | Prefilling | Decoding | Finished | Cancelled | Failed

datatype request_finish_reason =
    ReasonLength | ReasonStop | ReasonCancelled | ReasonAdmissionTimeout | ReasonExecutorFailure

fun state_name :: "request_state \<Rightarrow> string" where
  "state_name Waiting = ''Waiting''"
| "state_name Admitted = ''Admitted''"
| "state_name Prefilling = ''Prefilling''"
| "state_name Decoding = ''Decoding''"
| "state_name Finished = ''Finished''"
| "state_name Cancelled = ''Cancelled''"
| "state_name Failed = ''Failed''"

definition is_terminal :: "request_state \<Rightarrow> bool" where
  "is_terminal st \<longleftrightarrow> st \<in> {Finished, Cancelled, Failed}"

fun reason_state :: "request_finish_reason \<Rightarrow> request_state" where
  "reason_state ReasonLength = Finished"
| "reason_state ReasonStop = Finished"
| "reason_state ReasonCancelled = Cancelled"
| "reason_state ReasonAdmissionTimeout = Failed"
| "reason_state ReasonExecutorFailure = Failed"

fun listed_transition :: "request_state \<Rightarrow> request_state \<Rightarrow> bool" where
  "listed_transition Waiting t = (t \<in> {Admitted, Cancelled, Failed})"
| "listed_transition Admitted t = (t \<in> {Prefilling, Cancelled, Failed})"
| "listed_transition Prefilling t = (t \<in> {Decoding, Finished, Cancelled, Failed})"
| "listed_transition Decoding t = (t \<in> {Finished, Cancelled, Failed})"
| "listed_transition Cancelled t = (t = Failed)"
| "listed_transition _ t = False"

definition valid_transition :: "request_state \<Rightarrow> request_state \<Rightarrow> bool" where
  "valid_transition source target \<longleftrightarrow> source = target \<or> listed_transition source target"

record request_completion =
  rc_request_id :: request_id
  rc_reason :: request_finish_reason
  rc_generated_token_ids :: "u32 list"
  rc_cached_prompt_tokens :: usize
  rc_completed_at_ns :: u64

record token_event =
  te_request_id :: request_id
  te_token_id :: u32
  te_generated_index :: usize

record submission =
  sub_request_id :: request_id
  sub_state :: request_state

record request_snapshot =
  rs_request_id :: request_id
  rs_state :: request_state
  rs_prompt_tokens :: usize
  rs_prefetched_tokens :: usize
  rs_generated_tokens :: usize
  rs_max_new_tokens :: usize
  rs_promised_kv_blocks :: usize
  rs_logical_kv_tokens :: usize
  rs_cancellation_deferred :: bool

record planning_output =
  po_plan :: "iteration_plan option"
  po_completions :: "request_completion list"

record request_settlement_failure =
  rf_request_id :: request_id
  rf_error :: scheduler_error

record iteration_updates =
  iu_token_events :: "token_event list"
  iu_completions :: "request_completion list"
  iu_settlement_failures :: "request_settlement_failure list"
  iu_iteration_metric :: "iteration_metric_sample option"

definition updates_empty :: iteration_updates where
  "updates_empty = \<lparr>iu_token_events = [], iu_completions = [], iu_settlement_failures = [],
     iu_iteration_metric = None\<rparr>"

record scheduler_close_output =
  co_completions :: "request_completion list"
  co_settlement_failures :: "request_settlement_failure list"
  co_final_metrics :: scheduler_metrics_snapshot

datatype execution_abort = NotDispatched | DeviceQuiescedMutationUnknown

record cancellation_outcome =
  cn_request_id :: request_id
  cn_deferred_until_iteration_settles :: bool
  cn_already_terminal :: bool
  cn_completion :: "request_completion option"

record request_record =
  rq_request_id :: request_id
  rq_descriptor :: request_descriptor
  rq_state :: request_state
  rq_submitted_at_ns :: u64
  rq_ready_since_ns :: u64
  rq_prefill_cursor :: usize
  rq_generated_token_ids :: "u32 list"
  rq_promised_kv_blocks :: usize
  rq_sequence :: "sequence_state option"
  rq_cancellation_deferred :: bool
  rq_plateau_deferred :: bool
  rq_cached_prompt_tokens :: usize
  rq_prefix_tip :: entry_id
  rq_prefix_linked :: bool

text \<open>The capacity of the retained prompt vector is the allocator's and is left out.\<close>

definition record_snapshot :: "request_record \<Rightarrow> request_snapshot" where
  "record_snapshot r =
     \<lparr>rs_request_id = rq_request_id r, rs_state = rq_state r,
      rs_prompt_tokens = length (rd_prompt_token_ids (rq_descriptor r)),
      rs_prefetched_tokens = rq_prefill_cursor r,
      rs_generated_tokens = length (rq_generated_token_ids r),
      rs_max_new_tokens = rd_max_new_tokens (rq_descriptor r),
      rs_promised_kv_blocks = rq_promised_kv_blocks r,
      rs_logical_kv_tokens = (case rq_sequence r of None \<Rightarrow> 0 | Some q \<Rightarrow> sq_logical_length q),
      rs_cancellation_deferred = rq_cancellation_deferred r\<rparr>"

record terminal_tombstone =
  tt_request_id :: request_id
  tt_state :: request_state

record inflight_item =
  fi_request_id :: request_id
  fi_kind :: work_kind
  fi_target_logical_length :: usize
  fi_output_slot :: "output_slot option"
  fi_previous_state :: request_state
  fi_previous_ready_since_ns :: u64
  fi_reservation :: sequence_reservation

record inflight_plan =
  fp_iteration_id :: iteration_id
  fp_prefill_tokens :: usize
  fp_decode_tokens :: usize
  fp_prefill_count :: usize
  fp_decode_count :: usize
  fp_scheduler_cpu_ns :: u64
  fp_expected_output_slots :: "output_slot list"
  fp_items :: "inflight_item list"

record settled_inflight_item =
  si_request_id :: request_id
  si_kind :: work_kind
  si_target_logical_length :: usize
  si_output :: "iteration_output option"

record ready_request =
  rr_request_id :: request_id
  rr_ready_since_ns :: u64
  rr_remaining_tokens :: usize
  rr_plateau_deferred :: bool
  rr_started :: bool

record candidate =
  cd_request_id :: request_id
  cd_kind :: work_kind
  cd_token_count :: usize

record candidate_payload =
  cp_candidate :: candidate
  cp_input_tokens :: "u32 list"
  cp_target_logical_length :: usize
  cp_output_slot :: "output_slot option"

datatype reservation_settlement = SettleRollback | SettlePoison

subsection \<open>The scheduler\<close>

record scheduler =
  s_config :: scheduler_config
  s_pool :: kv_block_pool
  s_requests :: "request_record list"
  s_waiting :: "request_id list"
  s_terminal :: "terminal_tombstone list"
  s_terminal_capacity :: usize
  s_completion_outbox :: "request_completion list"
  s_completion_outbox_capacity :: usize
  s_active_sequences :: usize
  s_waiting_prompt_tokens :: usize
  s_promised_kv_blocks :: usize
  s_next_request_id :: u64
  s_next_iteration_id :: u64
  s_last_now_ns :: "u64 option"
  s_aging_override_last_iteration :: bool
  s_prefill_plateau :: "prefill_plateau_policy option"
  s_atomic_prefill_chunks :: bool
  s_prefill_coalescing :: "prefill_coalescing_policy option"
  s_prefill_burst :: "prefill_burst_policy option"
  s_prefix_cache :: "prefix_cache option"
  s_inflight :: "inflight_plan option"
  s_metrics :: scheduler_metrics
  s_metrics_degraded :: bool
  s_accepting :: bool

type_synonym 'a sched_cmd = "(scheduler, scheduler_error, 'a) cmd"

text \<open>Loops that in every consistent state end within their fuel, and index expressions that are in
  range there, answer this error otherwise; Rust would loop or panic.\<close>

abbreviation (input) scheduler_panic :: scheduler_error where
  "scheduler_panic \<equiv> InvalidPlan ''scheduler'' ''loop or index out of range''"

text \<open>Operations of the parts inside the scheduler.\<close>

definition on_metrics :: "metrics_cmd \<Rightarrow> unit sched_cmd" where
  "on_metrics m = zoomM s_metrics (\<lambda>x s. s\<lparr>s_metrics := x\<rparr>) id m"

definition on_spool :: "'a pool_cmd \<Rightarrow> 'a sched_cmd" where
  "on_spool m = zoomM s_pool (\<lambda>x s. s\<lparr>s_pool := x\<rparr>) PagedKv m"

definition set_request :: "nat \<Rightarrow> request_record \<Rightarrow> scheduler \<Rightarrow> scheduler" where
  "set_request index r s = s\<lparr>s_requests := (s_requests s)[index := r]\<rparr>"

definition mod_request :: "nat \<Rightarrow> (request_record \<Rightarrow> request_record) \<Rightarrow> unit sched_cmd" where
  "mod_request index f = modM (\<lambda>s. set_request index (f (s_requests s ! index)) s)"

text \<open>An operation of the sequence \<open>q\<close> of request \<open>index\<close> on the pool.\<close>

definition on_sequence :: "nat \<Rightarrow> sequence_state \<Rightarrow> 'a seq_cmd \<Rightarrow> 'a sched_cmd" where
  "on_sequence index q m = zoomM (\<lambda>s. (q, s_pool s))
     (\<lambda>(q', p') s. set_request index ((s_requests s ! index)\<lparr>rq_sequence := Some q'\<rparr>) (s\<lparr>s_pool := p'\<rparr>))
     PagedKv m"

definition on_scache :: "prefix_cache \<Rightarrow> 'a cache_pool_cmd \<Rightarrow> 'a sched_cmd" where
  "on_scache cache m = zoomM (\<lambda>s. (cache, s_pool s))
     (\<lambda>(c', p') s. s\<lparr>s_prefix_cache := Some c', s_pool := p'\<rparr>) id m"

definition observe_metric :: "metrics_cmd \<Rightarrow> unit sched_cmd" where
  "observe_metric m = catchM (on_metrics m) (\<lambda>r.
     case r of Inr _ \<Rightarrow> ret () | Inl _ \<Rightarrow> modM (\<lambda>s. s\<lparr>s_metrics_degraded := True\<rparr>))"

definition reserve :: "host_env \<Rightarrow> string \<Rightarrow> usize \<Rightarrow> unit sched_cmd" where
  "reserve env resource n = tryM (reserve_host env resource n)"

definition copy_tokens :: "host_env \<Rightarrow> string \<Rightarrow> u32 list \<Rightarrow> u32 list scheduler_result" where
  "copy_tokens env resource tokens = bindE (reserve_host env resource (length tokens)) (\<lambda>_. Inr tokens)"

definition elapsed_ns :: "host_env \<Rightarrow> u64" where
  "elapsed_ns env = min (he_cpu_elapsed_ns env) u64_max"

definition record_index :: "scheduler \<Rightarrow> request_id \<Rightarrow> nat option" where
  "record_index s request_id = position (\<lambda>r. rq_request_id r = request_id) (s_requests s)"

definition current_gauges :: "host_env \<Rightarrow> scheduler \<Rightarrow> scheduler_gauges" where
  "current_gauges env s =
     (let pool = pool_stats env (s_pool s);
          prefix_cache_blocks = (case s_prefix_cache s of None \<Rightarrow> 0 | Some c \<Rightarrow> cache_len c) in
      \<lparr>sg_waiting_requests = length (s_waiting s), sg_waiting_prompt_tokens = s_waiting_prompt_tokens s,
       sg_active_sequences = s_active_sequences s, sg_promised_kv_blocks = s_promised_kv_blocks s,
       sg_allocated_kv_blocks = ps_allocated_block_count pool - prefix_cache_blocks,
       sg_physical_kv_blocks = ps_physical_block_count pool,
       sg_prefix_cache_blocks = prefix_cache_blocks,
       sg_retained_terminal_requests = length (s_terminal s),
       sg_pending_completions = length (s_completion_outbox s),
       sg_completion_capacity = s_completion_outbox_capacity s, sg_accepting = s_accepting s,
       sg_outstanding_iterations = (if s_inflight s = None then 0 else 1)\<rparr>)"

definition refresh_metric_gauges :: "host_env \<Rightarrow> unit sched_cmd" where
  "refresh_metric_gauges env = withM (\<lambda>s. observe_metric (set_gauges (current_gauges env s)))"

definition sched_metrics_snapshot :: "host_env \<Rightarrow> scheduler \<Rightarrow> scheduler_metrics_snapshot scheduler_result" where
  "sched_metrics_snapshot env s =
     bindE (metrics_snapshot env (s_metrics s)) (\<lambda>snapshot.
     Inr (snapshot\<lparr>ss_metrics_degraded := s_metrics_degraded s,
       ss_counters := (ss_counters snapshot)\<lparr>sm_gauges := current_gauges env s\<rparr>\<rparr>))"

subsection \<open>Clock, identifiers, outbox\<close>

definition validate_now :: "scheduler \<Rightarrow> u64 \<Rightarrow> unit scheduler_result" where
  "validate_now s now_ns =
     (case s_last_now_ns s of
        None \<Rightarrow> Inr ()
      | Some previous_ns \<Rightarrow> failE (now_ns < previous_ns) (ClockRegression previous_ns now_ns))"

definition observe_now :: "u64 \<Rightarrow> unit sched_cmd" where
  "observe_now now_ns = withM (\<lambda>s.
     bindM (tryM (validate_now s now_ns)) (\<lambda>_.
     modM (\<lambda>s. s\<lparr>s_last_now_ns := Some now_ns\<rparr>)))"

definition peek_request_id :: "scheduler \<Rightarrow> request_id scheduler_result" where
  "peek_request_id s =
     bindE (ok_or (checked_add (s_next_request_id s) 1) (IdentifierExhausted ''request'')) (\<lambda>_.
     ok_or (request_id_new (s_next_request_id s)) (IdentifierExhausted ''request''))"

definition advance_request_id :: "unit sched_cmd" where
  "advance_request_id = withM (\<lambda>s.
     bindM (tryM (ok_or (checked_add (s_next_request_id s) 1) (IdentifierExhausted ''request''))) (\<lambda>n.
     modM (\<lambda>s. s\<lparr>s_next_request_id := n\<rparr>)))"

definition peek_iteration_id :: "scheduler \<Rightarrow> iteration_id scheduler_result" where
  "peek_iteration_id s =
     bindE (ok_or (checked_add (s_next_iteration_id s) 1) (IdentifierExhausted ''iteration'')) (\<lambda>_.
     ok_or (iteration_id_new (s_next_iteration_id s)) (IdentifierExhausted ''iteration''))"

definition advance_iteration_id :: "unit sched_cmd" where
  "advance_iteration_id = withM (\<lambda>s.
     bindM (tryM (ok_or (checked_add (s_next_iteration_id s) 1) (IdentifierExhausted ''iteration''))) (\<lambda>n.
     modM (\<lambda>s. s\<lparr>s_next_iteration_id := n\<rparr>)))"

definition ensure_completion_backlog_empty :: "scheduler \<Rightarrow> unit scheduler_result" where
  "ensure_completion_backlog_empty s =
     failE (s_completion_outbox s \<noteq> []) (PendingCompletions (length (s_completion_outbox s)))"

definition ensure_completion_capacity :: "scheduler \<Rightarrow> usize \<Rightarrow> unit scheduler_result" where
  "ensure_completion_capacity s needed =
     bindE (ok_or (checked_add (length (s_completion_outbox s)) needed)
       (ArithmeticOverflow ''completion backlog size'')) (\<lambda>required.
     failE (s_completion_outbox_capacity s < required)
       (CompletionBacklogCapacity (s_completion_outbox_capacity s) (length (s_completion_outbox s)) needed))"

definition drain_completion_outbox :: "request_completion list sched_cmd" where
  "drain_completion_outbox = withM (\<lambda>s.
     bindM (modM (\<lambda>s. s\<lparr>s_completion_outbox := []\<rparr>)) (\<lambda>_. ret (s_completion_outbox s)))"

definition pop_pending_completion :: "request_completion option sched_cmd" where
  "pop_pending_completion = withM (\<lambda>s.
     case s_completion_outbox s of
       [] \<Rightarrow> ret None
     | completion # rest \<Rightarrow>
         bindM (modM (\<lambda>s. s\<lparr>s_completion_outbox := rest\<rparr>)) (\<lambda>_. ret (Some completion)))"

definition remember_terminal :: "request_id \<Rightarrow> request_state \<Rightarrow> unit sched_cmd" where
  "remember_terminal request_id st = modM (\<lambda>s.
     let kept = (if length (s_terminal s) = s_terminal_capacity s then tl (s_terminal s)
                 else s_terminal s) in
     s\<lparr>s_terminal := kept @ [\<lparr>tt_request_id = request_id, tt_state = st\<rparr>]\<rparr>)"

definition transition :: "request_record \<Rightarrow> request_state \<Rightarrow> request_record scheduler_result" where
  "transition r target =
     bindE (failE (\<not> valid_transition (rq_state r) target)
       (InvalidStateTransition (rq_request_id r) (state_name (rq_state r)) (state_name target))) (\<lambda>_.
     Inr (r\<lparr>rq_state := target\<rparr>))"

definition request_snapshot_of :: "scheduler \<Rightarrow> request_id \<Rightarrow> request_snapshot option" where
  "request_snapshot_of s request_id =
     map_option record_snapshot (find (\<lambda>r. rq_request_id r = request_id) (s_requests s))"

definition request_state_of :: "scheduler \<Rightarrow> request_id \<Rightarrow> request_state option" where
  "request_state_of s request_id =
     (case find (\<lambda>r. rq_request_id r = request_id) (s_requests s) of
        Some r \<Rightarrow> Some (rq_state r)
      | None \<Rightarrow> map_option tt_state (find (\<lambda>t. tt_request_id t = request_id) (s_terminal s)))"

subsection \<open>Construction and configuration\<close>

definition scheduler_new :: "host_env \<Rightarrow> scheduler_config \<Rightarrow> kv_layout \<Rightarrow> (u64, scheduler_error, scheduler) cmd" where
  "scheduler_new env config layout =
     bindM (tryM (config_validate config)) (\<lambda>config.
     bindM (failIf (kl_physical_block_count layout < max_promised_kv_blocks config)
       (InvalidConfiguration ''max_promised_kv_blocks'' ''must not exceed the physical KV pool block count'')) (\<lambda>_.
     bindM (tryM (ok_or (checked_add (max_waiting_requests config) (max_active_sequences config))
       (ArithmeticOverflow ''live request capacity''))) (\<lambda>request_capacity.
     bindM (tryM (reserve_host env ''live requests'' request_capacity)) (\<lambda>_.
     bindM (tryM (reserve_host env ''waiting request queue'' (max_waiting_requests config))) (\<lambda>_.
     bindM (tryM (reserve_host env ''terminal tombstones'' request_capacity)) (\<lambda>_.
     bindM (tryM (reserve_host env ''completion outbox'' request_capacity)) (\<lambda>_.
     bindM (tryM (metrics_new env (metrics_window_samples config))) (\<lambda>metrics.
     bindM (zoomM id (\<lambda>c _. c) PagedKv (kv_block_pool_new env layout)) (\<lambda>pool.
     let s = \<lparr>s_config = config, s_pool = pool, s_requests = [], s_waiting = [], s_terminal = [],
       s_terminal_capacity = request_capacity, s_completion_outbox = [],
       s_completion_outbox_capacity = request_capacity, s_active_sequences = 0,
       s_waiting_prompt_tokens = 0, s_promised_kv_blocks = 0, s_next_request_id = 1,
       s_next_iteration_id = 1, s_last_now_ns = None, s_aging_override_last_iteration = False,
       s_prefill_plateau = None, s_atomic_prefill_chunks = False, s_prefill_coalescing = None,
       s_prefill_burst = None, s_prefix_cache = None, s_inflight = None, s_metrics = metrics,
       s_metrics_degraded = False, s_accepting = True\<rparr> in
     ret (snd (refresh_metric_gauges env s)))))))))))"

definition set_atomic_prefill_chunks :: "bool \<Rightarrow> unit sched_cmd" where
  "set_atomic_prefill_chunks enabled = withM (\<lambda>s.
     bindM (failIf (enabled \<and> s_prefill_plateau s \<noteq> None) (InvalidConfiguration ''atomic_prefill_chunks''
       ''cannot combine with a token-trimming plateau policy'')) (\<lambda>_.
     modM (\<lambda>s. s\<lparr>s_atomic_prefill_chunks := enabled\<rparr>)))"

definition transposeE :: "('a \<Rightarrow> 'e + 'b) \<Rightarrow> 'a option \<Rightarrow> 'e + 'b option" where
  "transposeE f x = (case x of None \<Rightarrow> Inr None | Some a \<Rightarrow> bindE (f a) (\<lambda>b. Inr (Some b)))"

definition set_prefill_plateau_policy :: "prefill_plateau_policy option \<Rightarrow> unit sched_cmd" where
  "set_prefill_plateau_policy policy = withM (\<lambda>s.
     bindM (failIf (s_atomic_prefill_chunks s \<and> policy \<noteq> None)
       (InvalidConfiguration ''prefill_plateau'' ''atomic prefill chunks cannot be trimmed'')) (\<lambda>_.
     bindM (tryM (transposeE (\<lambda>p. plateau_validate p (iteration_token_budget (s_config s))) policy)) (\<lambda>p.
     modM (\<lambda>s. s\<lparr>s_prefill_plateau := p\<rparr>))))"

definition set_prefill_coalescing_policy :: "prefill_coalescing_policy option \<Rightarrow> unit sched_cmd" where
  "set_prefill_coalescing_policy policy =
     bindM (tryM (transposeE coalescing_validate policy)) (\<lambda>p.
     modM (\<lambda>s. s\<lparr>s_prefill_coalescing := p\<rparr>))"

definition set_prefill_burst_policy :: "prefill_burst_policy option \<Rightarrow> unit sched_cmd" where
  "set_prefill_burst_policy policy = withM (\<lambda>s.
     bindM (tryM (transposeE (\<lambda>p. burst_validate p (iteration_token_budget (s_config s))) policy)) (\<lambda>p.
     modM (\<lambda>s. s\<lparr>s_prefill_burst := p\<rparr>)))"

definition enable_prefix_cache :: "host_env \<Rightarrow> usize \<Rightarrow> unit sched_cmd" where
  "enable_prefix_cache env max_blocks = withM (\<lambda>s.
     bindM (failIf (max_blocks = 0 \<or> kl_physical_block_count (kp_layout (s_pool s)) < max_blocks)
       (InvalidConfiguration ''prefix_cache.max_blocks'' ''must be positive and within the physical KV pool'')) (\<lambda>_.
     bindM (failIf (s_atomic_prefill_chunks s)
       (InvalidConfiguration ''prefix_cache'' ''atomic prefill chunks need the whole prompt executed'')) (\<lambda>_.
     bindM (failIf (s_requests s \<noteq> [])
       (InvalidConfiguration ''prefix_cache'' ''must be enabled before the first request'')) (\<lambda>_.
     bindM (tryM (prefix_cache_new env max_blocks)) (\<lambda>cache.
     modM (\<lambda>s. s\<lparr>s_prefix_cache := Some cache\<rparr>))))))"

definition begin_shutdown :: "scheduler \<Rightarrow> scheduler" where
  "begin_shutdown s = s\<lparr>s_accepting := False\<rparr>"

definition maximum_logical_length :: "request_descriptor \<Rightarrow> usize scheduler_result" where
  "maximum_logical_length d =
     ok_or (checked_add (length (rd_prompt_token_ids d)) (rd_max_new_tokens d - 1))
       (ArithmeticOverflow ''request maximum logical length'')"

definition validate_descriptor :: "scheduler_config \<Rightarrow> request_descriptor \<Rightarrow> usize scheduler_result" where
  "validate_descriptor config d =
     bindE (failE (rd_prompt_token_ids d = [])
       (InvalidConfiguration ''prompt_token_ids'' ''must contain at least one token'')) (\<lambda>_.
     bindE (failE (rd_max_new_tokens d = 0)
       (InvalidConfiguration ''max_new_tokens'' ''must be greater than zero'')) (\<lambda>_.
     bindE (maximum_logical_length d) (\<lambda>maximum.
     bindE (failE (max_sequence_tokens config < maximum)
       (SequenceTokenLimit (max_sequence_tokens config) maximum)) (\<lambda>_.
     Inr maximum))))"

definition can_admit :: "scheduler \<Rightarrow> usize \<Rightarrow> bool" where
  "can_admit s requested_blocks \<longleftrightarrow>
     s_active_sequences s < max_active_sequences (s_config s) \<and>
     (case checked_add (s_promised_kv_blocks s) requested_blocks of
        None \<Rightarrow> False
      | Some sum_blocks \<Rightarrow> sum_blocks \<le> max_promised_kv_blocks (s_config s))"

definition immediate_overload_error :: "scheduler \<Rightarrow> usize \<Rightarrow> scheduler_error" where
  "immediate_overload_error s requested_blocks =
     (if max_active_sequences (s_config s) \<le> s_active_sequences s
      then ActiveSequenceLimit (max_active_sequences (s_config s))
      else KvCapacityExceeded requested_blocks
        (max_promised_kv_blocks (s_config s) - s_promised_kv_blocks s))"

end
