(* ===== verification/Scheduler_Select.thy ===== *)
theory Scheduler_Select
  imports Scheduler_State
begin

text \<open>
  The choice of the work of one iteration: \<open>select_candidates\<close> and \<open>defer_past_plateau\<close> of
  \<open>scheduler.rs\<close>. Both only read the scheduler. The lemmas bound what is selected, say in which
  order, and that ready work is never starved by the optional policies.
\<close>

subsection \<open>Ready requests\<close>

definition ready_prefill :: "request_record \<Rightarrow> ready_request option" where
  "ready_prefill r =
     (let remaining = length (rd_prompt_token_ids (rq_descriptor r)) - rq_prefill_cursor r in
      if rq_state r \<in> {Admitted, Prefilling} \<and> remaining \<noteq> 0
      then Some \<lparr>rr_request_id = rq_request_id r, rr_ready_since_ns = rq_ready_since_ns r,
                 rr_remaining_tokens = remaining, rr_plateau_deferred = rq_plateau_deferred r,
                 rr_started = (rq_state r = Prefilling)\<rparr>
      else None)"

definition ready_decode :: "request_record \<Rightarrow> ready_request option" where
  "ready_decode r =
     (if rq_state r = Decoding
      then Some \<lparr>rr_request_id = rq_request_id r, rr_ready_since_ns = rq_ready_since_ns r,
                 rr_remaining_tokens = 1, rr_plateau_deferred = False, rr_started = True\<rparr>
      else None)"

definition ready_key :: "ready_request \<Rightarrow> u64 \<times> request_id" where
  "ready_key r = (rr_ready_since_ns r, rr_request_id r)"

definition prefill_ready :: "scheduler \<Rightarrow> ready_request list" where
  "prefill_ready s = sort_key ready_key (List.map_filter ready_prefill (s_requests s))"

definition decode_ready :: "scheduler \<Rightarrow> ready_request list" where
  "decode_ready s = sort_key ready_key (List.map_filter ready_decode (s_requests s))"

subsection \<open>Budget, aging and coalescing\<close>

definition initial_budget :: "scheduler \<Rightarrow> usize" where
  "initial_budget s =
     (case s_prefill_burst s of
        None \<Rightarrow> iteration_token_budget (s_config s)
      | Some policy \<Rightarrow>
          if pb_max_decode_rows policy < length (decode_ready s) \<or>
             (0 < pb_min_prompt_tokens policy \<and>
              \<not> list_ex (\<lambda>item. pb_min_prompt_tokens policy \<le> rr_remaining_tokens item) (prefill_ready s))
          then pb_steady_budget policy
          else iteration_token_budget (s_config s))"

definition find_aged :: "scheduler \<Rightarrow> u64 \<Rightarrow> ready_request option" where
  "find_aged s now_ns =
     (if decode_ready s \<noteq> [] \<and> \<not> s_aging_override_last_iteration s
      then find (\<lambda>item. aging_threshold_ns (s_config s) \<le> now_ns - rr_ready_since_ns item) (prefill_ready s)
      else None)"

definition aged_candidate :: "scheduler \<Rightarrow> usize \<Rightarrow> ready_request \<Rightarrow> candidate" where
  "aged_candidate s budget item =
     (let reserved_for_decode = (if 1 < budget then 1 else 0);
          usable = (if s_atomic_prefill_chunks s then budget else max (budget - reserved_for_decode) 1) in
      \<lparr>cd_request_id = rr_request_id item, cd_kind = Prefill,
       cd_token_count = min (min (rr_remaining_tokens item) (max_prefill_chunk_tokens (s_config s))) usable\<rparr>)"

fun fold_waiting :: "u64 \<Rightarrow> ready_request list \<Rightarrow> usize \<Rightarrow> u64 \<Rightarrow> usize \<times> u64" where
  "fold_waiting now_ns [] ready_tokens longest_wait_ns = (ready_tokens, longest_wait_ns)"
| "fold_waiting now_ns (item # rest) ready_tokens longest_wait_ns =
     (if rr_started item then fold_waiting now_ns rest ready_tokens longest_wait_ns
      else fold_waiting now_ns rest (saturating_add ready_tokens (rr_remaining_tokens item))
             (max longest_wait_ns (now_ns - rr_ready_since_ns item)))"

definition hold_new_prompts :: "scheduler \<Rightarrow> u64 \<Rightarrow> bool \<Rightarrow> bool" where
  "hold_new_prompts s now_ns aged =
     (case s_prefill_coalescing s of
        None \<Rightarrow> False
      | Some policy \<Rightarrow>
          \<not> aged \<and> pc_min_decode_rows policy \<le> length (decode_ready s) \<and>
          (case fold_waiting now_ns (prefill_ready s) 0 0 of (ready_tokens, longest_wait_ns) \<Rightarrow>
             ready_tokens < pc_min_tokens policy \<and> longest_wait_ns < pc_max_wait_ns policy))"

subsection \<open>Filling the iteration\<close>

fun pick_decode :: "ready_request list \<Rightarrow> usize \<Rightarrow> candidate list \<Rightarrow> candidate list \<times> usize" where
  "pick_decode [] budget selected = (selected, budget)"
| "pick_decode (item # rest) budget selected =
     (if budget = 0 then (selected, budget)
      else pick_decode rest (budget - 1)
             (selected @ [\<lparr>cd_request_id = rr_request_id item, cd_kind = Decode, cd_token_count = 1\<rparr>]))"

fun pick_prefill ::
  "usize \<Rightarrow> bool \<Rightarrow> request_id option \<Rightarrow> bool \<Rightarrow> ready_request list \<Rightarrow> usize \<Rightarrow> candidate list \<Rightarrow> candidate list" where
  "pick_prefill chunk atomic aged holding [] budget selected = selected"
| "pick_prefill chunk atomic aged holding (item # rest) budget selected =
     (if budget = 0 then selected
      else if aged = Some (rr_request_id item) then pick_prefill chunk atomic aged holding rest budget selected
      else if holding \<and> \<not> rr_started item then pick_prefill chunk atomic aged holding rest budget selected
      else let desired = min (rr_remaining_tokens item) chunk in
        if atomic \<and> budget < desired then pick_prefill chunk atomic aged holding rest budget selected
        else let token_count = min desired budget in
          pick_prefill chunk atomic aged holding rest (budget - token_count)
            (selected @ [\<lparr>cd_request_id = rr_request_id item, cd_kind = Prefill,
                          cd_token_count = token_count\<rparr>]))"

subsection \<open>Plateaus\<close>

text \<open>\<open>iter().map(..).sum()\<close> of the release profile.\<close>

definition token_sum :: "candidate list \<Rightarrow> usize" where
  "token_sum cs = foldl (\<lambda>n c. wrapping_add n (cd_token_count c)) 0 cs"

text \<open>The first pass over the tail, on the reversed selection: how many candidates would lose tokens,
  or \<open>None\<close> when one of them was deferred before. Running out of candidates would be an index
  underflow.\<close>

fun trim_allowed ::
  "ready_request list \<Rightarrow> candidate list \<Rightarrow> usize \<Rightarrow> usize \<Rightarrow> usize option scheduler_result" where
  "trim_allowed prefill items remaining trimmed =
     (if remaining = 0 then Inr (Some trimmed)
      else case items of
             [] \<Rightarrow> Inl scheduler_panic
           | item # rest \<Rightarrow>
               if (case find (\<lambda>ready. rr_request_id ready = cd_request_id item) prefill of
                     None \<Rightarrow> True | Some ready \<Rightarrow> rr_plateau_deferred ready)
               then Inr None
               else trim_allowed prefill rest (remaining - min (cd_token_count item) remaining)
                      (trimmed + 1))"

text \<open>The second pass, on the reversed selection as well.\<close>

function trim_tail ::
  "candidate list \<Rightarrow> usize \<Rightarrow> request_id list \<Rightarrow> (candidate list \<times> request_id list) scheduler_result" where
  "trim_tail items remaining deferred =
     (if remaining = 0 then Inr (items, deferred)
      else case items of
             [] \<Rightarrow> Inl scheduler_panic
           | item # rest \<Rightarrow>
               let trimmed = min (cd_token_count item) remaining;
                   item' = item\<lparr>cd_token_count := cd_token_count item - trimmed\<rparr> in
               trim_tail (if cd_token_count item' = 0 then rest else item' # rest)
                 (remaining - trimmed) (deferred @ [cd_request_id item]))"
  by pat_completeness auto
termination
  by (relation "measure (\<lambda>(items, remaining, _). remaining + length items)") (auto split: if_splits)

declare trim_allowed.simps [simp del]
declare trim_tail.simps [simp del]

definition defer_past_plateau ::
  "host_env \<Rightarrow> scheduler \<Rightarrow> ready_request list \<Rightarrow> usize \<Rightarrow> usize \<Rightarrow> candidate list \<Rightarrow>
     (candidate list \<times> request_id list) scheduler_result" where
  "defer_past_plateau env s prefill decode_rows prefill_start selected =
     (case s_prefill_plateau s of
        None \<Rightarrow> Inr (selected, [])
      | Some policy \<Rightarrow>
          if decode_rows < pp_min_decode_rows policy then Inr (selected, [])
          else
            let sum_tokens = token_sum selected;
                prefill_tokens = token_sum (drop prefill_start selected) in
            (case find (\<lambda>boundary. boundary < sum_tokens) (rev (pp_boundaries policy)) of
               None \<Rightarrow> Inr (selected, [])
             | Some boundary \<Rightarrow>
                 let overflow = sum_tokens - boundary in
                 if pp_max_deferred_tokens policy < overflow \<or> prefill_tokens < overflow
                 then Inr (selected, [])
                 else
                   bindE (trim_allowed prefill (rev selected) overflow 0) (\<lambda>allowed.
                   case allowed of
                     None \<Rightarrow> Inr (selected, [])
                   | Some n \<Rightarrow>
                       bindE (reserve_host env ''plateau deferred requests'' n) (\<lambda>_.
                       bindE (trim_tail (rev selected) overflow []) (\<lambda>(kept, deferred).
                       Inr (rev kept, deferred))))))"

definition select_candidates ::
  "host_env \<Rightarrow> scheduler \<Rightarrow> u64 \<Rightarrow> (candidate list \<times> bool \<times> request_id list) scheduler_result" where
  "select_candidates env s now_ns =
     bindE (reserve_host env ''prefill candidates'' (s_active_sequences s)) (\<lambda>_.
     bindE (reserve_host env ''decode candidates'' (s_active_sequences s)) (\<lambda>_.
     let prefill = prefill_ready s; decode = decode_ready s in
     bindE (reserve_host env ''iteration candidates'' (s_active_sequences s)) (\<lambda>_.
     let budget = initial_budget s;
         aged_request = map_option rr_request_id (find_aged s now_ns) in
     bindE (case aged_request of
              None \<Rightarrow> Inr ([], budget)
            | Some request_id \<Rightarrow>
                bindE (ok_or (find (\<lambda>item. rr_request_id item = request_id) prefill)
                  (InvalidPlan ''aging candidate'' ''selected prefill request disappeared'')) (\<lambda>item.
                let c = aged_candidate s budget item in
                Inr ([c], budget - cd_token_count c))) (\<lambda>(selected, budget).
     let (selected, budget) = pick_decode decode budget selected;
         prefill_start = length selected;
         holding = hold_new_prompts s now_ns (aged_request \<noteq> None);
         selected = pick_prefill (max_prefill_chunk_tokens (s_config s)) (s_atomic_prefill_chunks s)
           aged_request holding prefill budget selected in
     bindE (if aged_request = None
            then defer_past_plateau env s prefill (length decode) prefill_start selected
            else Inr (selected, [])) (\<lambda>(selected, plateau_deferred).
     Inr (selected, aged_request \<noteq> None, plateau_deferred))))))"

subsection \<open>What the two filling loops select\<close>

definition decode_candidate :: "ready_request \<Rightarrow> candidate" where
  "decode_candidate item = \<lparr>cd_request_id = rr_request_id item, cd_kind = Decode, cd_token_count = 1\<rparr>"

definition tokens_of :: "candidate list \<Rightarrow> nat" where
  "tokens_of cs = sum_list (map cd_token_count cs)"

lemma tokens_of_simps [simp]:
  "tokens_of [] = 0"
  "tokens_of (c # cs) = cd_token_count c + tokens_of cs"
  "tokens_of (cs @ ds) = tokens_of cs + tokens_of ds"
  "tokens_of (rev cs) = tokens_of cs"
  by (simp_all add: tokens_of_def rev_map [symmetric])

lemma tokens_of_decode [simp]: "tokens_of (map decode_candidate ds) = length ds"
  by (induction ds) (simp_all add: decode_candidate_def)

lemma token_sum_exact:
  assumes "tokens_of cs \<le> u64_max"
  shows "token_sum cs = tokens_of cs"
proof -
  have "foldl (\<lambda>n c. wrapping_add n (cd_token_count c)) n cs = n + tokens_of cs"
    if "n + tokens_of cs \<le> u64_max" for n
    using that by (induction cs arbitrary: n) simp_all
  from this [of 0] show ?thesis using assms by (simp add: token_sum_def)
qed

lemma pick_decode_eq:
  "pick_decode ds budget selected =
     (selected @ map decode_candidate (take budget ds), budget - length ds)"
proof (induction ds arbitrary: budget selected)
  case (Cons d ds)
  then show ?case by (cases budget) (simp_all add: decode_candidate_def)
qed simp

text \<open>The prefill loop appends \<open>cs\<close>: each from a different ready prompt that is not the aged one, within
  the budget.\<close>

definition prefill_pick :: "usize \<Rightarrow> request_id option \<Rightarrow> ready_request list \<Rightarrow> candidate list \<Rightarrow> bool" where
  "prefill_pick chunk aged items cs \<longleftrightarrow>
     distinct (map cd_request_id cs) \<and>
     (\<forall>c\<in>set cs. cd_kind c = Prefill \<and> aged \<noteq> Some (cd_request_id c) \<and> 0 < cd_token_count c \<and>
        (\<exists>item\<in>set items. rr_request_id item = cd_request_id c \<and>
           cd_token_count c \<le> min (rr_remaining_tokens item) chunk))"

definition prefill_skips :: "usize \<Rightarrow> bool \<Rightarrow> request_id option \<Rightarrow> bool \<Rightarrow> ready_request \<Rightarrow> usize \<Rightarrow> bool" where
  "prefill_skips chunk atomic aged holding item budget \<longleftrightarrow>
     aged = Some (rr_request_id item) \<or> holding \<and> \<not> rr_started item \<or>
     atomic \<and> budget < min (rr_remaining_tokens item) chunk"

definition prefill_candidate :: "usize \<Rightarrow> ready_request \<Rightarrow> usize \<Rightarrow> candidate" where
  "prefill_candidate chunk item budget = \<lparr>cd_request_id = rr_request_id item, cd_kind = Prefill,
     cd_token_count = min (min (rr_remaining_tokens item) chunk) budget\<rparr>"

lemma pick_prefill_Cons:
  "pick_prefill chunk atomic aged holding (item # rest) budget selected =
     (if budget = 0 then selected
      else if prefill_skips chunk atomic aged holding item budget
      then pick_prefill chunk atomic aged holding rest budget selected
      else let c = prefill_candidate chunk item budget in
        pick_prefill chunk atomic aged holding rest (budget - cd_token_count c) (selected @ [c]))"
  by (auto simp: prefill_skips_def prefill_candidate_def Let_def)

lemma pick_prefill_split:
  assumes "distinct (map rr_request_id items)" and "\<forall>item\<in>set items. 0 < rr_remaining_tokens item" and "0 < chunk"
  shows "\<exists>cs. pick_prefill chunk atomic aged holding items budget selected = selected @ cs \<and>
     prefill_pick chunk aged items cs \<and> tokens_of cs \<le> budget"
  using assms(1,2)
proof (induction items arbitrary: budget selected)
  case Nil
  then show ?case by (intro exI [of _ "[]"]) (simp add: prefill_pick_def)
next
  case (Cons item items)
  show ?case
  proof (cases "budget = 0 \<or> prefill_skips chunk atomic aged holding item budget")
    case True
    have "\<exists>cs. pick_prefill chunk atomic aged holding items budget selected = selected @ cs \<and>
        prefill_pick chunk aged (item # items) cs \<and> tokens_of cs \<le> budget"
      using Cons.IH [of budget selected] Cons.prems by (fastforce simp: prefill_pick_def)
    moreover have "prefill_pick chunk aged (item # items) []" by (simp add: prefill_pick_def)
    ultimately show ?thesis using True by (auto simp: pick_prefill_Cons simp del: pick_prefill.simps)
  next
    case False
    define c where "c = prefill_candidate chunk item budget"
    obtain cs where cs: "pick_prefill chunk atomic aged holding items (budget - cd_token_count c) (selected @ [c]) = (selected @ [c]) @ cs"
      "prefill_pick chunk aged items cs" "tokens_of cs \<le> budget - cd_token_count c"
      using Cons.IH [of "budget - cd_token_count c" "selected @ [c]"] Cons.prems by auto
    have "cd_request_id ` set cs \<subseteq> rr_request_id ` set items" using cs(2) by (force simp: prefill_pick_def)
    then have new: "rr_request_id item \<notin> cd_request_id ` set cs" using Cons.prems(1) by auto
    have "pick_prefill chunk atomic aged holding (item # items) budget selected = selected @ c # cs"
      using cs(1) False by (simp add: pick_prefill_Cons Let_def c_def del: pick_prefill.simps)
    moreover have "prefill_pick chunk aged (item # items) (c # cs)"
      using cs(2) new False Cons.prems(2) assms(3)
      by (auto simp: prefill_pick_def c_def prefill_candidate_def prefill_skips_def)
    moreover have "tokens_of (c # cs) \<le> budget" using cs(3) by (auto simp: c_def prefill_candidate_def)
    ultimately show ?thesis by blast
  qed
qed

text \<open>Without atomic chunks the loop takes the first prompt it is allowed to take.\<close>

lemma pick_prefill_takes:
  assumes "item \<in> set items" and "\<not> (holding \<and> \<not> rr_started item)" and "aged = None" and "0 < budget"
    and "\<forall>item\<in>set items. 0 < rr_remaining_tokens item" and "0 < chunk"
  shows "pick_prefill chunk False aged holding items budget [] \<noteq> []"
proof -
  have grows: "pick_prefill chunk False aged holding is b (c # sel) \<noteq> []" for "is" b c sel
    by (induction "is" arbitrary: b sel) (auto simp: pick_prefill_Cons Let_def simp del: pick_prefill.simps(2))
  show ?thesis using assms(1,5)
  proof (induction items)
    case (Cons x xs)
    then show ?case using assms(2-4) grows [of xs _ _ "[]"]
      by (auto simp: pick_prefill_Cons Let_def prefill_skips_def simp del: pick_prefill.simps(2))
  qed simp
qed

subsection \<open>Trimming to a plateau\<close>

text \<open>How many candidates from the end lose tokens.\<close>

fun trim_count :: "candidate list \<Rightarrow> nat \<Rightarrow> nat" where
  "trim_count [] remaining = 0"
| "trim_count (c # cs) remaining =
     (if remaining = 0 then 0 else Suc (trim_count cs (remaining - cd_token_count c)))"

definition trimmable :: "ready_request list \<Rightarrow> candidate \<Rightarrow> bool" where
  "trimmable prefill c \<longleftrightarrow>
     (case find (\<lambda>ready. rr_request_id ready = cd_request_id c) prefill of
        None \<Rightarrow> False | Some ready \<Rightarrow> \<not> rr_plateau_deferred ready)"

lemma trimmable_find:
  assumes "trimmable prefill c"
  shows "\<exists>ready\<in>set prefill. rr_request_id ready = cd_request_id c \<and> \<not> rr_plateau_deferred ready"
  using assms by (auto simp: trimmable_def find_Some_iff split: option.splits)

lemma minus_min: "(n::nat) - min k n = n - k"
  by simp

lemma trim_allowed_eq:
  assumes "remaining \<le> tokens_of items"
  shows "trim_allowed prefill items remaining n =
     Inr (if \<forall>c\<in>set (take (trim_count items remaining) items). trimmable prefill c
          then Some (n + trim_count items remaining) else None)"
  using assms
proof (induction items arbitrary: remaining n)
  case Nil
  then show ?case by (simp add: trim_allowed.simps)
next
  case (Cons c cs)
  have "remaining - cd_token_count c \<le> tokens_of cs" using Cons.prems by simp
  note IH = Cons.IH [OF this]
  show ?case
    by (subst trim_allowed.simps) (auto simp: IH minus_min trimmable_def split: option.splits)
qed

lemma trim_tail_eq:
  assumes "remaining \<le> tokens_of items" and "\<forall>c\<in>set items. 0 < cd_token_count c"
  shows "\<exists>kept. trim_tail items remaining deferred =
       Inr (kept, deferred @ map cd_request_id (take (trim_count items remaining) items)) \<and>
     tokens_of kept + remaining = tokens_of items \<and>
     (\<forall>c\<in>set kept. 0 < cd_token_count c \<and> (\<exists>d\<in>set items. cd_request_id c = cd_request_id d \<and>
        cd_kind c = cd_kind d \<and> cd_token_count c \<le> cd_token_count d)) \<and>
     (\<exists>cut. map cd_request_id items = cut @ map cd_request_id kept)"
  using assms
proof (induction items arbitrary: remaining deferred)
  case Nil
  then show ?case by (simp add: trim_tail.simps)
next
  case (Cons c cs)
  let ?c = "c\<lparr>cd_token_count := cd_token_count c - remaining\<rparr>"
  consider "remaining = 0" | "0 < remaining" "remaining < cd_token_count c" | "cd_token_count c \<le> remaining" "0 < remaining"
    by linarith
  then show ?case
  proof cases
    case 1
    then show ?thesis using Cons.prems(2)
      by (subst trim_tail.simps) (auto intro!: exI [of _ "c # cs"])
  next
    case 2
    have "trim_tail (c # cs) remaining deferred = trim_tail (?c # cs) 0 (deferred @ [cd_request_id c])"
      using 2 by (subst trim_tail.simps) (simp add: Let_def)
    also have "\<dots> = Inr (?c # cs, deferred @ [cd_request_id c])" by (simp add: trim_tail.simps)
    finally show ?thesis using 2 Cons.prems(2)
      by (cases cs) (auto intro!: exI [of _ "?c # cs"])
  next
    case 3
    let ?r = "remaining - cd_token_count c"
    have "?r \<le> tokens_of cs" "\<forall>c\<in>set cs. 0 < cd_token_count c" using Cons.prems by auto
    from Cons.IH [OF this, of "deferred @ [cd_request_id c]"] obtain kept where
      kept: "trim_tail cs ?r (deferred @ [cd_request_id c]) =
          Inr (kept, deferred @ map cd_request_id (take (trim_count (c # cs) remaining) (c # cs)))"
        "tokens_of kept + ?r = tokens_of cs"
        "\<forall>c\<in>set kept. 0 < cd_token_count c \<and> (\<exists>d\<in>set cs. cd_request_id c = cd_request_id d \<and>
          cd_kind c = cd_kind d \<and> cd_token_count c \<le> cd_token_count d)"
        "\<exists>cut. map cd_request_id cs = cut @ map cd_request_id kept"
      using 3 by auto
    have "trim_tail (c # cs) remaining deferred = trim_tail cs ?r (deferred @ [cd_request_id c])"
      using 3 by (subst trim_tail.simps) (simp add: Let_def min_def)
    then have "trim_tail (c # cs) remaining deferred =
        Inr (kept, deferred @ map cd_request_id (take (trim_count (c # cs) remaining) (c # cs)))"
      using kept(1) by simp
    moreover have "\<exists>cut. map cd_request_id (c # cs) = cut @ map cd_request_id kept"
      using kept(4) by (metis append_Cons list.simps(9))
    moreover have "tokens_of kept + remaining = tokens_of (c # cs)" using kept(2) 3 by simp
    ultimately show ?thesis using kept(3) by (intro exI [of _ kept]) (meson list.set_intros(2))
  qed
qed

text \<open>Candidates in front of the trimmed tail are left as they are.\<close>

lemma trim_tail_append:
  assumes "remaining \<le> tokens_of xs"
  shows "trim_tail (xs @ ys) remaining deferred =
     bindE (trim_tail xs remaining deferred) (\<lambda>(kept, d). Inr (kept @ ys, d))"
  using assms
proof (induction xs remaining deferred rule: trim_tail.induct)
  case (1 xs remaining deferred)
  show ?case
  proof (cases "remaining = 0 \<or> xs = []")
    case True
    then have "remaining = 0" using "1.prems" by auto
    then show ?thesis by (simp add: trim_tail.simps)
  next
    case False
    then obtain c cs where xs: "xs = c # cs" by (cases xs) auto
    let ?t = "min (cd_token_count c) remaining"
    let ?c = "c\<lparr>cd_token_count := cd_token_count c - ?t\<rparr>"
    let ?xs = "if cd_token_count ?c = 0 then cs else ?c # cs"
    have "remaining - ?t \<le> tokens_of ?xs" using "1.prems" xs by auto
    then have "trim_tail (?xs @ ys) (remaining - ?t) (deferred @ [cd_request_id c]) =
        bindE (trim_tail ?xs (remaining - ?t) (deferred @ [cd_request_id c])) (\<lambda>(kept, d). Inr (kept @ ys, d))"
      using "1.IH" False xs by blast
    moreover have "?xs @ ys = (if cd_token_count ?c = 0 then cs @ ys else ?c # cs @ ys)" by simp
    ultimately show ?thesis using False xs
      by (subst (1 2) trim_tail.simps) (simp add: Let_def)
  qed
qed

text \<open>What the plateau step may do to a selection: nothing, or cut it back to one of the boundaries,
  taking tokens only from prompts that were never cut before.\<close>

definition plateau_cut ::
  "prefill_plateau_policy \<Rightarrow> ready_request list \<Rightarrow> candidate list \<Rightarrow> candidate list \<Rightarrow> request_id list \<Rightarrow> bool" where
  "plateau_cut policy prefill selected kept deferred \<longleftrightarrow>
     tokens_of kept \<in> set (pp_boundaries policy) \<and> tokens_of kept < tokens_of selected \<and>
     tokens_of selected \<le> tokens_of kept + pp_max_deferred_tokens policy \<and>
     (\<forall>c\<in>set kept. 0 < cd_token_count c \<and> (\<exists>d\<in>set selected. cd_request_id c = cd_request_id d \<and>
        cd_kind c = cd_kind d \<and> cd_token_count c \<le> cd_token_count d)) \<and>
     (\<exists>cut. map cd_request_id selected = map cd_request_id kept @ cut) \<and>
     deferred \<noteq> [] \<and> set deferred \<subseteq> cd_request_id ` set selected \<and> distinct deferred \<and>
     (\<forall>i\<in>set deferred. \<exists>ready\<in>set prefill. rr_request_id ready = i \<and> \<not> rr_plateau_deferred ready)"

lemma defer_past_plateau_cases:
  assumes "defer_past_plateau env s prefill rows start selected = Inr (kept, deferred)"
    and pos: "\<forall>c\<in>set selected. 0 < cd_token_count c" and small: "tokens_of selected \<le> u64_max"
    and d: "distinct (map cd_request_id selected)"
  shows "kept = selected \<and> deferred = [] \<or>
    (\<exists>policy. s_prefill_plateau s = Some policy \<and> plateau_cut policy prefill selected kept deferred)"
proof (cases "kept = selected \<and> deferred = []")
  case False
  note sum = token_sum_exact [OF small]
  obtain policy boundary where pol: "s_prefill_plateau s = Some policy"
    and b: "find (\<lambda>b. b < tokens_of selected) (rev (pp_boundaries policy)) = Some boundary"
    and lim: "tokens_of selected - boundary \<le> pp_max_deferred_tokens policy"
    using assms(1) False
    by (auto simp: defer_past_plateau_def sum Let_def split: option.splits if_splits)
  let ?o = "tokens_of selected - boundary" and ?n = "trim_count (rev selected) (tokens_of selected - boundary)"
  have b': "boundary \<in> set (pp_boundaries policy)" "boundary < tokens_of selected"
    using b unfolding find_Some_iff by (metis nth_mem set_rev, metis)
  have le: "?o \<le> tokens_of (rev selected)" and pos': "\<forall>c\<in>set (rev selected). 0 < cd_token_count c"
    using pos by auto
  obtain r where r: "trim_tail (rev selected) ?o [] =
       Inr (r, [] @ map cd_request_id (take ?n (rev selected)))"
     "tokens_of r + ?o = tokens_of (rev selected)"
     "\<forall>c\<in>set r. 0 < cd_token_count c \<and> (\<exists>d\<in>set (rev selected). cd_request_id c = cd_request_id d \<and>
        cd_kind c = cd_kind d \<and> cd_token_count c \<le> cd_token_count d)"
     "\<exists>cut. map cd_request_id (rev selected) = cut @ map cd_request_id r"
    using trim_tail_eq [OF le pos', of "[]"] by blast
  have res: "kept = rev r" "deferred = map cd_request_id (take ?n (rev selected))"
    "\<forall>c\<in>set (take ?n (rev selected)). trimmable prefill c"
    using assms(1) False r(1)
    by (auto simp: defer_past_plateau_def sum Let_def pol b trim_allowed_eq [OF le] split: if_splits)
  have cut: "\<exists>cut. map cd_request_id selected = map cd_request_id kept @ cut"
    using r(4) res(1) by (metis rev_append rev_map rev_rev_ident)
  have "0 < ?o" using b' by simp
  then have n: "0 < ?n" using le by (cases "rev selected") auto
  then have ne: "deferred \<noteq> []" using res(2) b'(2) by (cases selected rule: rev_cases) auto
  have sub: "set deferred \<subseteq> cd_request_id ` set selected"
    using res(2) set_take_subset [of ?n "rev selected"] by auto
  have dd: "distinct deferred"
    unfolding res(2) take_map [symmetric] rev_map using d by (intro distinct_take) (simp add: distinct_map)
  have "\<forall>i\<in>set deferred. \<exists>ready\<in>set prefill. rr_request_id ready = i \<and> \<not> rr_plateau_deferred ready"
    unfolding res(2) using trimmable_find res(3) by fastforce
  moreover have "tokens_of kept = boundary" using r(2) res(1) b' by simp
  ultimately have "plateau_cut policy prefill selected kept deferred"
    using b' lim r(3) res(1) cut ne sub dd by (simp add: plateau_cut_def)
  then show ?thesis using pol by blast
qed simp

lemma defer_past_plateau_prefix:
  assumes "defer_past_plateau env s prefill rows start selected = Inr (kept, deferred)"
    and pos: "\<forall>c\<in>set selected. 0 < cd_token_count c" and small: "tokens_of selected \<le> u64_max"
  shows "\<exists>x. kept = take start selected @ x \<and> (\<forall>c\<in>set x. \<exists>d\<in>set (drop start selected). cd_kind c = cd_kind d)"
proof (cases "kept = selected")
  case True
  then show ?thesis by (metis append_take_drop_id)
next
  case False
  let ?r = "rev (drop start selected)" and ?f = "rev (take start selected)"
  have split: "rev selected = ?r @ ?f" by (metis append_take_drop_id rev_append)
  have "tokens_of (drop start selected) \<le> tokens_of selected"
    by (metis append_take_drop_id le_add2 tokens_of_simps(3))
  then have sums: "token_sum selected = tokens_of selected" "token_sum (drop start selected) = tokens_of (drop start selected)"
    using small by (simp_all add: token_sum_exact)
  obtain over where over: "over \<le> tokens_of ?r" "trim_tail (rev selected) over [] = Inr (rev kept, deferred)"
    using assms(1) False
    by (auto simp: defer_past_plateau_def sums Let_def not_less split: option.splits if_splits)
  have "\<forall>c\<in>set ?r. 0 < cd_token_count c" using pos by (auto dest: in_set_dropD)
  from trim_tail_eq [OF over(1) this, of "[]"] obtain k d where k: "trim_tail ?r over [] = Inr (k, d)"
    "\<forall>c\<in>set k. \<exists>d\<in>set ?r. cd_kind c = cd_kind d" by blast
  have "rev kept = k @ ?f" using over(2) k(1) unfolding split trim_tail_append [OF over(1)] by simp
  then have "kept = take start selected @ rev k" by (metis rev_append rev_rev_ident)
  then show ?thesis using k(2) by auto
qed

subsection \<open>The selection as a whole\<close>

text \<open>The configuration the setters leave behind; budgets are \<open>usize\<close> values.\<close>

definition policies_ok :: "scheduler \<Rightarrow> bool" where
  "policies_ok s \<longleftrightarrow> config_ok (s_config s) \<and> iteration_token_budget (s_config s) \<le> u64_max \<and>
     (\<forall>p. s_prefill_burst s = Some p \<longrightarrow>
        0 < pb_steady_budget p \<and> pb_steady_budget p < iteration_token_budget (s_config s)) \<and>
     (\<forall>p. s_prefill_coalescing s = Some p \<longrightarrow> 0 < pc_min_decode_rows p) \<and>
     (\<forall>p. s_prefill_plateau s = Some p \<longrightarrow> (\<forall>b\<in>set (pp_boundaries p). 0 < b))"

definition unique_ids :: "scheduler \<Rightarrow> bool" where
  "unique_ids s \<longleftrightarrow> distinct (map rq_request_id (s_requests s))"

text \<open>A candidate that can be planned for the request it names.\<close>

definition candidate_ok :: "scheduler \<Rightarrow> candidate \<Rightarrow> bool" where
  "candidate_ok s c \<longleftrightarrow> 0 < cd_token_count c \<and>
     (\<exists>r\<in>set (s_requests s). rq_request_id r = cd_request_id c \<and>
        (case cd_kind c of
           Prefill \<Rightarrow> rq_state r \<in> {Admitted, Prefilling} \<and>
             cd_token_count c \<le> max_prefill_chunk_tokens (s_config s) \<and>
             rq_prefill_cursor r + cd_token_count c \<le> length (rd_prompt_token_ids (rq_descriptor r))
         | Decode \<Rightarrow> rq_state r = Decoding \<and> cd_token_count c = 1))"

lemma set_map_filter_eq: "set (List.map_filter f xs) = {y. \<exists>x\<in>set xs. f x = Some y}"
  by (induction xs) (auto split: option.splits)

lemma distinct_map_filter:
  assumes "distinct (map g xs)" and "\<And>x y. f x = Some y \<Longrightarrow> h y = g x"
  shows "distinct (map h (List.map_filter f xs))"
  using assms(1)
proof (induction xs)
  case (Cons x xs)
  then show ?case using assms(2)
    by (force simp: set_map_filter_eq split: option.splits)
qed simp

lemma distinct_sort_map: "distinct (map h (sort_key k xs)) \<longleftrightarrow> distinct (map h xs)"
  by (simp add: distinct_map)

lemma prefill_ready_iff:
  "item \<in> set (prefill_ready s) \<longleftrightarrow> (\<exists>r\<in>set (s_requests s). ready_prefill r = Some item)"
  by (simp add: prefill_ready_def set_map_filter_eq)

lemma decode_ready_iff:
  "item \<in> set (decode_ready s) \<longleftrightarrow> (\<exists>r\<in>set (s_requests s). ready_decode r = Some item)"
  by (simp add: decode_ready_def set_map_filter_eq)

lemma ready_ids:
  assumes "unique_ids s"
  shows "distinct (map rr_request_id (prefill_ready s))" and "distinct (map rr_request_id (decode_ready s))"
    and "rr_request_id ` set (prefill_ready s) \<inter> rr_request_id ` set (decode_ready s) = {}"
proof -
  have p: "ready_prefill r = Some i \<Longrightarrow> rr_request_id i = rq_request_id r" for r i
    by (auto simp: ready_prefill_def Let_def split: if_splits)
  have d: "ready_decode r = Some i \<Longrightarrow> rr_request_id i = rq_request_id r" for r i
    by (auto simp: ready_decode_def split: if_splits)
  show "distinct (map rr_request_id (prefill_ready s))" "distinct (map rr_request_id (decode_ready s))"
    using assms p d unfolding prefill_ready_def decode_ready_def distinct_sort_map unique_ids_def
    by (blast intro: distinct_map_filter)+
  have one: "r = r'" if "r \<in> set (s_requests s)" "r' \<in> set (s_requests s)" "rq_request_id r = rq_request_id r'" for r r'
    using assms that by (auto simp: unique_ids_def distinct_map inj_on_def)
  have "rr_request_id i \<noteq> rr_request_id j" if i: "i \<in> set (prefill_ready s)" and j: "j \<in> set (decode_ready s)" for i j
  proof -
    obtain r r' where r: "r \<in> set (s_requests s)" "ready_prefill r = Some i"
      and r': "r' \<in> set (s_requests s)" "ready_decode r' = Some j"
      using i j unfolding prefill_ready_iff decode_ready_iff by blast
    have "rq_state r \<noteq> Decoding" "rq_state r' = Decoding"
      using r(2) r'(2) by (auto simp: ready_prefill_def ready_decode_def Let_def split: if_splits)
    then show ?thesis using one [OF r(1) r'(1)] p [OF r(2)] d [OF r'(2)] by auto
  qed
  then show "rr_request_id ` set (prefill_ready s) \<inter> rr_request_id ` set (decode_ready s) = {}" by auto
qed

lemma ready_remaining: "item \<in> set (prefill_ready s) \<Longrightarrow> 0 < rr_remaining_tokens item"
  by (auto simp: prefill_ready_iff ready_prefill_def Let_def split: if_splits)

lemma prefill_candidate_ok:
  assumes "item \<in> set (prefill_ready s)" and "cd_request_id c = rr_request_id item" and "cd_kind c = Prefill"
    and "0 < cd_token_count c" and "cd_token_count c \<le> min (rr_remaining_tokens item) (max_prefill_chunk_tokens (s_config s))"
  shows "candidate_ok s c"
proof -
  obtain r where r: "r \<in> set (s_requests s)" "ready_prefill r = Some item"
    using assms(1) by (auto simp: prefill_ready_iff)
  then have "rq_request_id r = rr_request_id item" "rq_state r \<in> {Admitted, Prefilling}"
    "rr_remaining_tokens item = length (rd_prompt_token_ids (rq_descriptor r)) - rq_prefill_cursor r"
    "0 < rr_remaining_tokens item"
    by (auto simp: ready_prefill_def Let_def split: if_splits)
  then have "rq_prefill_cursor r + cd_token_count c \<le> length (rd_prompt_token_ids (rq_descriptor r))"
    using assms(5) by linarith
  then show ?thesis
    using assms(2-5) r(1) \<open>rq_request_id r = _\<close> \<open>rq_state r \<in> _\<close> unfolding candidate_ok_def
    by (intro conjI bexI [of _ r]) auto
qed

lemma decode_candidate_ok: "item \<in> set (decode_ready s) \<Longrightarrow> candidate_ok s (decode_candidate item)"
  by (force simp: decode_ready_iff ready_decode_def candidate_ok_def decode_candidate_def split: if_splits)

lemma initial_budget_bounds:
  assumes "policies_ok s"
  shows "0 < initial_budget s" and "initial_budget s \<le> iteration_token_budget (s_config s)"
  using assms by (auto simp: policies_ok_def config_ok_def initial_budget_def split: option.splits)

text \<open>The selection before the plateau step.\<close>

definition head_part :: "scheduler \<Rightarrow> u64 \<Rightarrow> candidate list" where
  "head_part s now_ns = (case find_aged s now_ns of None \<Rightarrow> [] | Some item \<Rightarrow> [aged_candidate s (initial_budget s) item])"

definition decode_part :: "scheduler \<Rightarrow> u64 \<Rightarrow> candidate list" where
  "decode_part s now_ns =
     map decode_candidate (take (initial_budget s - tokens_of (head_part s now_ns)) (decode_ready s))"

definition base_selection :: "scheduler \<Rightarrow> u64 \<Rightarrow> candidate list" where
  "base_selection s now_ns =
     pick_prefill (max_prefill_chunk_tokens (s_config s)) (s_atomic_prefill_chunks s)
       (map_option rr_request_id (find_aged s now_ns))
       (hold_new_prompts s now_ns (find_aged s now_ns \<noteq> None)) (prefill_ready s)
       (initial_budget s - tokens_of (head_part s now_ns) - length (decode_ready s))
       (head_part s now_ns @ decode_part s now_ns)"

lemma find_in_set: "find P xs = Some x \<Longrightarrow> x \<in> set xs \<and> P x"
  by (auto simp: find_Some_iff)

lemma find_unique:
  assumes "distinct (map f xs)" and "x \<in> set xs"
  shows "find (\<lambda>y. f y = f x) xs = Some x"
  using assms by (induction xs) (auto simp: image_iff)

lemma find_aged_ready: "find_aged s now_ns = Some item \<Longrightarrow> item \<in> set (prefill_ready s) \<and> decode_ready s \<noteq> []"
  using find_in_set by (fastforce simp: find_aged_def split: if_splits)

lemma select_candidates_eq:
  assumes "unique_ids s"
  shows "select_candidates env s now_ns =
     bindE (reserve_host env ''prefill candidates'' (s_active_sequences s)) (\<lambda>_.
     bindE (reserve_host env ''decode candidates'' (s_active_sequences s)) (\<lambda>_.
     bindE (reserve_host env ''iteration candidates'' (s_active_sequences s)) (\<lambda>_.
     bindE (if find_aged s now_ns = None
            then defer_past_plateau env s (prefill_ready s) (length (decode_ready s))
                   (length (head_part s now_ns @ decode_part s now_ns)) (base_selection s now_ns)
            else Inr (base_selection s now_ns, [])) (\<lambda>(selected, plateau_deferred).
     Inr (selected, find_aged s now_ns \<noteq> None, plateau_deferred)))))"
proof (cases "find_aged s now_ns")
  case None
  then show ?thesis
    by (simp add: select_candidates_def base_selection_def decode_part_def head_part_def pick_decode_eq Let_def)
next
  case (Some item)
  then have "find (\<lambda>i. rr_request_id i = rr_request_id item) (prefill_ready s) = Some item"
    using ready_ids(1) [OF assms] find_aged_ready by (metis find_unique)
  then show ?thesis using Some
    by (simp add: select_candidates_def base_selection_def decode_part_def head_part_def pick_decode_eq Let_def)
qed

lemma aged_candidate_facts:
  assumes "0 < budget" and "item \<in> set (prefill_ready s)" and "config_ok (s_config s)"
  shows "candidate_ok s (aged_candidate s budget item)" and "cd_token_count (aged_candidate s budget item) \<le> budget"
    and "\<not> s_atomic_prefill_chunks s \<Longrightarrow> 1 < budget \<Longrightarrow> cd_token_count (aged_candidate s budget item) < budget"
proof -
  have "0 < rr_remaining_tokens item" "0 < max_prefill_chunk_tokens (s_config s)"
    using ready_remaining [OF assms(2)] assms(3) by (auto simp: config_ok_def)
  then show "candidate_ok s (aged_candidate s budget item)"
    using assms(1) by (intro prefill_candidate_ok [OF assms(2)]) (auto simp: aged_candidate_def Let_def)
  show "cd_token_count (aged_candidate s budget item) \<le> budget"
    and "\<not> s_atomic_prefill_chunks s \<Longrightarrow> 1 < budget \<Longrightarrow> cd_token_count (aged_candidate s budget item) < budget"
    using assms(1) by (auto simp: aged_candidate_def Let_def)
qed

lemma base_selection_facts:
  assumes "policies_ok s" and "unique_ids s"
  obtains cs where "base_selection s now_ns = head_part s now_ns @ decode_part s now_ns @ cs"
    and "tokens_of (base_selection s now_ns) \<le> initial_budget s"
    and "\<forall>c\<in>set (base_selection s now_ns). candidate_ok s c"
    and "distinct (map cd_request_id (base_selection s now_ns))"
    and "\<forall>c\<in>set cs. cd_kind c = Prefill"
proof -
  let ?aged = "map_option rr_request_id (find_aged s now_ns)" and ?h = "head_part s now_ns"
  let ?d = "decode_part s now_ns" and ?chunk = "max_prefill_chunk_tokens (s_config s)"
  let ?b = "initial_budget s - tokens_of ?h - length (decode_ready s)"
  note ids = ready_ids [OF assms(2)] and b = initial_budget_bounds [OF assms(1)]
  have cfg: "config_ok (s_config s)" and chunk: "0 < ?chunk" using assms(1) by (auto simp: policies_ok_def config_ok_def)
  obtain cs where cs: "base_selection s now_ns = (?h @ ?d) @ cs" "prefill_pick ?chunk ?aged (prefill_ready s) cs"
    "tokens_of cs \<le> ?b"
    using pick_prefill_split [OF ids(1) _ chunk] ready_remaining unfolding base_selection_def by blast
  have h: "tokens_of ?h \<le> initial_budget s \<and> (\<forall>c\<in>set ?h. candidate_ok s c) \<and>
      map cd_request_id ?h = (case ?aged of None \<Rightarrow> [] | Some i \<Rightarrow> [i]) \<and>
      cd_request_id ` set ?h \<subseteq> rr_request_id ` set (prefill_ready s)"
  proof (cases "find_aged s now_ns")
    case (Some item)
    then have "item \<in> set (prefill_ready s)" using find_aged_ready by blast
    then show ?thesis using Some aged_candidate_facts [OF b(1) _ cfg]
      by (auto simp: head_part_def aged_candidate_def Let_def)
  qed (simp add: head_part_def)
  have dm: "map cd_request_id ?d = take (initial_budget s - tokens_of ?h) (map rr_request_id (decode_ready s))"
    by (simp add: decode_part_def decode_candidate_def comp_def take_map)
  have "set (map cd_request_id ?d) \<subseteq> set (map rr_request_id (decode_ready s))"
    unfolding dm by (rule set_take_subset)
  moreover have "distinct (map cd_request_id ?d)" unfolding dm using ids(2) by (rule distinct_take)
  moreover have "\<forall>c\<in>set ?d. candidate_ok s c"
    using decode_candidate_ok by (auto simp: decode_part_def dest!: in_set_takeD)
  ultimately have d: "cd_request_id ` set ?d \<subseteq> rr_request_id ` set (decode_ready s)" "distinct (map cd_request_id ?d)"
    "\<forall>c\<in>set ?d. candidate_ok s c" by auto
  have c: "cd_request_id ` set cs \<subseteq> rr_request_id ` set (prefill_ready s)" "distinct (map cd_request_id cs)"
    "\<forall>c\<in>set cs. ?aged \<noteq> Some (cd_request_id c)" "\<forall>c\<in>set cs. candidate_ok s c" "\<forall>c\<in>set cs. cd_kind c = Prefill"
    using cs(2) prefill_candidate_ok by (force simp: prefill_pick_def)+
  have "cd_request_id ` set ?d \<inter> cd_request_id ` set cs = {}" "cd_request_id ` set ?h \<inter> cd_request_id ` set ?d = {}"
    using h d(1) c(1) ids(3) by blast+
  moreover have "cd_request_id ` set ?h \<inter> cd_request_id ` set cs = {}" "distinct (map cd_request_id ?h)"
    using h c(3) by (cases "find_aged s now_ns"; force)+
  ultimately have "distinct (map cd_request_id (?h @ ?d @ cs))"
    using d(2) c(2) by auto
  moreover have "tokens_of (?h @ ?d @ cs) \<le> initial_budget s"
    using cs(3) conjunct1 [OF h] by (simp add: decode_part_def)
  ultimately show ?thesis using that [of cs] cs(1) h d(3) c(4,5) by auto
qed

lemma select_result:
  assumes "policies_ok s" and "unique_ids s" and "select_candidates env s now_ns = Inr (cs, aged, deferred)"
  shows "aged = (find_aged s now_ns \<noteq> None)"
    and "cs = base_selection s now_ns \<and> deferred = [] \<or>
      find_aged s now_ns = None \<and> (\<exists>policy. s_prefill_plateau s = Some policy \<and>
        plateau_cut policy (prefill_ready s) (base_selection s now_ns) cs deferred)"
proof -
  obtain xs where x: "tokens_of (base_selection s now_ns) \<le> initial_budget s"
    "\<forall>c\<in>set (base_selection s now_ns). candidate_ok s c" "distinct (map cd_request_id (base_selection s now_ns))"
    using base_selection_facts [OF assms(1,2)] by metis
  have small: "tokens_of (base_selection s now_ns) \<le> u64_max"
    using x(1) initial_budget_bounds(2) [OF assms(1)] assms(1) by (simp add: policies_ok_def)
  have pos: "\<forall>c\<in>set (base_selection s now_ns). 0 < cd_token_count c" using x(2) by (simp add: candidate_ok_def)
  show "aged = (find_aged s now_ns \<noteq> None)"
    using assms(3) unfolding select_candidates_eq [OF assms(2)] by auto
  show "cs = base_selection s now_ns \<and> deferred = [] \<or>
      find_aged s now_ns = None \<and> (\<exists>policy. s_prefill_plateau s = Some policy \<and>
        plateau_cut policy (prefill_ready s) (base_selection s now_ns) cs deferred)"
  proof (cases "find_aged s now_ns")
    case None
    then have "defer_past_plateau env s (prefill_ready s) (length (decode_ready s))
        (length (head_part s now_ns @ decode_part s now_ns)) (base_selection s now_ns) = Inr (cs, deferred)"
      using assms(3) unfolding select_candidates_eq [OF assms(2)] by auto
    from defer_past_plateau_cases [OF this pos small x(3)] None show ?thesis by blast
  next
    case (Some item)
    then show ?thesis using assms(3) unfolding select_candidates_eq [OF assms(2)] by auto
  qed
qed

lemma candidate_ok_less:
  assumes "candidate_ok s d" and "cd_request_id c = cd_request_id d" and "cd_kind c = cd_kind d"
    and "0 < cd_token_count c" and "cd_token_count c \<le> cd_token_count d"
  shows "candidate_ok s c"
  using assms by (cases "cd_kind d") (force simp: candidate_ok_def)+

subsection \<open>Properties\<close>

text \<open>A scheduler with one prompt waiting to start and one request decoding.\<close>

definition demo_config :: scheduler_config where
  "demo_config = \<lparr>max_waiting_requests = 4, max_waiting_prompt_tokens = 64, max_active_sequences = 2,
     max_sequence_tokens = 64, iteration_token_budget = 8, max_prefill_chunk_tokens = 4,
     aging_threshold_ns = 50, config_overload_policy = Wait, admission_timeout_ns = Some 1000,
     max_promised_kv_blocks = 4, metrics_window_samples = 4\<rparr>"

definition demo_record :: "u64 \<Rightarrow> u32 list \<Rightarrow> request_state \<Rightarrow> u64 \<Rightarrow> request_record" where
  "demo_record i prompt st since =
     \<lparr>rq_request_id = RequestId i, rq_descriptor = \<lparr>rd_prompt_token_ids = prompt, rd_max_new_tokens = 4\<rparr>,
      rq_state = st, rq_submitted_at_ns = 0, rq_ready_since_ns = since, rq_prefill_cursor = 0,
      rq_generated_token_ids = [], rq_promised_kv_blocks = 1, rq_sequence = None,
      rq_cancellation_deferred = False, rq_plateau_deferred = False, rq_cached_prompt_tokens = 0,
      rq_prefix_tip = ROOT, rq_prefix_linked = True\<rparr>"

definition demo_ready :: scheduler where
  "demo_ready = (projr (fst (scheduler_new demo_env demo_config demo_layout 1)))
     \<lparr>s_requests := [demo_record 1 [7, 8, 9, 10, 11, 12, 13] Admitted 5, demo_record 2 [3] Decoding 6],
      s_prefill_plateau := Some \<lparr>pp_boundaries = [4], pp_max_deferred_tokens = 2, pp_min_decode_rows = 1\<rparr>\<rparr>"

lemma demo_ready_ok: "policies_ok demo_ready" "unique_ids demo_ready"
proof -
  have "s_config demo_ready = demo_config" "s_prefill_burst demo_ready = None" "s_prefill_coalescing demo_ready = None"
    "s_prefill_plateau demo_ready = Some \<lparr>pp_boundaries = [4], pp_max_deferred_tokens = 2, pp_min_decode_rows = 1\<rparr>"
    by code_simp+
  then show "policies_ok demo_ready" by (simp add: policies_ok_def config_ok_def demo_config_def)
  show "unique_ids demo_ready" by code_simp
qed

lemma demo_ready_select:
  "select_candidates demo_env demo_ready 20 =
     Inr ([\<lparr>cd_request_id = RequestId 2, cd_kind = Decode, cd_token_count = 1\<rparr>,
           \<lparr>cd_request_id = RequestId 1, cd_kind = Prefill, cd_token_count = 3\<rparr>], False, [RequestId 1])"
  by code_simp

lemma select_facts:
  assumes "policies_ok s" and "unique_ids s" and "select_candidates env s now_ns = Inr (cs, aged, deferred)"
  shows "distinct (map cd_request_id cs) \<and> (\<forall>c\<in>set cs. candidate_ok s c) \<and>
    sum_list (map cd_token_count cs) \<le> iteration_token_budget (s_config s)"
proof -
  obtain x where x: "tokens_of (base_selection s now_ns) \<le> initial_budget s"
    "\<forall>c\<in>set (base_selection s now_ns). candidate_ok s c" "distinct (map cd_request_id (base_selection s now_ns))"
    using base_selection_facts [OF assms(1,2)] by metis
  have b: "initial_budget s \<le> iteration_token_budget (s_config s)" by (rule initial_budget_bounds(2) [OF assms(1)])
  consider "cs = base_selection s now_ns" | policy where "plateau_cut policy (prefill_ready s) (base_selection s now_ns) cs deferred"
    using select_result(2) [OF assms] by blast
  then show ?thesis
  proof cases
    case 1
    then show ?thesis using x b by (simp add: tokens_of_def)
  next
    case 2
    then obtain cut where "map cd_request_id (base_selection s now_ns) = map cd_request_id cs @ cut"
      by (auto simp: plateau_cut_def)
    then have "distinct (map cd_request_id cs)" using x(3) by simp
    moreover have "\<forall>c\<in>set cs. candidate_ok s c"
      using 2 x(2) candidate_ok_less unfolding plateau_cut_def by metis
    moreover have "tokens_of cs \<le> iteration_token_budget (s_config s)" using 2 x(1) b by (simp add: plateau_cut_def)
    ultimately show ?thesis by (simp add: tokens_of_def)
  qed
qed

text \<open>C21. Whatever policies are installed, a selection names each request at most once, fits the
  iteration's token budget, and every candidate is plannable: a decode step of one token for a
  decoding request, or between one and \<open>max_prefill_chunk_tokens\<close> tokens that the prompt still has.\<close>

theorem select_sound:
  assumes "policies_ok s" and "unique_ids s" and "select_candidates env s now_ns = Inr (cs, aged, deferred)"
  shows "distinct (map cd_request_id cs) \<and> (\<forall>c\<in>set cs. candidate_ok s c) \<and>
    sum_list (map cd_token_count cs) \<le> iteration_token_budget (s_config s)"
  by (rule select_facts [OF assms])

theorem select_sound_witness:
  "candidate_ok demo_ready \<lparr>cd_request_id = RequestId 2, cd_kind = Decode, cd_token_count = 1\<rparr> \<and>
   candidate_ok demo_ready \<lparr>cd_request_id = RequestId 1, cd_kind = Prefill, cd_token_count = 3\<rparr>"
  using select_sound [OF demo_ready_ok demo_ready_select] by simp

text \<open>C22. Ready work is never left waiting by the policies: with chunks that may be split and memory
  for the candidate lists, if any request is ready, the selection is not empty, whatever burst,
  coalescing, plateau and aging do.\<close>

theorem select_progress:
  assumes "policies_ok s" and "unique_ids s" and "\<not> s_atomic_prefill_chunks s"
    and "\<And>resource n. he_alloc env resource n" and "prefill_ready s \<noteq> [] \<or> decode_ready s \<noteq> []"
  shows "\<exists>cs aged deferred. select_candidates env s now_ns = Inr (cs, aged, deferred) \<and> cs \<noteq> []"
proof -
  let ?base = "base_selection s now_ns"
  note b = initial_budget_bounds [OF assms(1)]
  obtain x where x: "?base = head_part s now_ns @ decode_part s now_ns @ x" "tokens_of ?base \<le> initial_budget s"
    "\<forall>c\<in>set ?base. candidate_ok s c"
    using base_selection_facts [OF assms(1,2)] by metis
  have ne: "?base \<noteq> []"
  proof (cases "decode_ready s = []")
    case True
    then have n: "find_aged s now_ns = None" "decode_part s now_ns = []" by (simp_all add: find_aged_def decode_part_def)
    have "\<not> hold_new_prompts s now_ns False"
      using True assms(1) by (auto simp: hold_new_prompts_def policies_ok_def split: option.splits)
    moreover obtain item where "item \<in> set (prefill_ready s)" using True assms(5) by (cases "prefill_ready s") auto
    moreover have "0 < max_prefill_chunk_tokens (s_config s)" using assms(1) by (simp add: policies_ok_def config_ok_def)
    ultimately have "pick_prefill (max_prefill_chunk_tokens (s_config s)) False None
        (hold_new_prompts s now_ns False) (prefill_ready s) (initial_budget s) [] \<noteq> []"
      using b(1) ready_remaining by (intro pick_prefill_takes) blast+
    then show ?thesis using assms(3) True n by (simp add: base_selection_def head_part_def)
  next
    case False
    have "head_part s now_ns \<noteq> [] \<or> decode_part s now_ns \<noteq> []"
      using False b(1) by (cases "find_aged s now_ns") (auto simp: head_part_def decode_part_def)
    then show ?thesis using x(1) by auto
  qed
  have all: "reserve_host env resource n = Inr ()" for resource n by (simp add: reserve_host_def assms(4))
  have small: "tokens_of ?base \<le> u64_max" using x(2) b(2) assms(1) by (simp add: policies_ok_def)
  have pos: "\<forall>c\<in>set (rev ?base). 0 < cd_token_count c" using x(3) by (simp add: candidate_ok_def)
  have "\<exists>kept d. defer_past_plateau env s (prefill_ready s) rows start ?base = Inr (kept, d)" for rows start
  proof -
    have le: "tokens_of ?base - bd \<le> tokens_of (rev ?base)" for bd by simp
    show ?thesis
      using trim_tail_eq [OF le pos, of _ "[]"]
      by (fastforce simp: defer_past_plateau_def token_sum_exact [OF small] Let_def trim_allowed_eq [OF le] all
          split: option.splits)
  qed
  then obtain cs aged d where sel: "select_candidates env s now_ns = Inr (cs, aged, d)"
    unfolding select_candidates_eq [OF assms(2)] all by (cases "find_aged s now_ns") fastforce+
  have "cs \<noteq> []"
    using select_result(2) [OF assms(1,2) sel] ne assms(1)
    by (auto simp: plateau_cut_def policies_ok_def)
  then show ?thesis using sel by blast
qed

theorem select_progress_witness:
  "\<exists>cs aged deferred. select_candidates demo_env demo_ready 20 = Inr (cs, aged, deferred) \<and> cs \<noteq> []"
proof -
  have "\<not> s_atomic_prefill_chunks demo_ready" "decode_ready demo_ready \<noteq> []" by code_simp+
  moreover have "he_alloc demo_env resource n" for resource n by (simp add: demo_env_def)
  ultimately show ?thesis by (intro select_progress [OF demo_ready_ok]) simp_all
qed

text \<open>Decoding comes first: without an aging override the selection starts with the longest-waiting
  decoding requests, as many as the budget allows, in order of readiness, and only prompt chunks
  follow; the plateau step never takes a decoding request's turn away.\<close>

theorem decode_first:
  assumes "policies_ok s" and "unique_ids s" and "select_candidates env s now_ns = Inr (cs, False, deferred)"
  shows "\<exists>prompts. cs = map decode_candidate (take (initial_budget s) (decode_ready s)) @ prompts \<and>
    (\<forall>c\<in>set prompts. cd_kind c = Prefill) \<and>
    sorted (map (\<lambda>item. (rr_ready_since_ns item, rr_request_id item)) (decode_ready s))"
proof -
  let ?base = "base_selection s now_ns" and ?d = "decode_part s now_ns"
  have na: "find_aged s now_ns = None" using select_result(1) [OF assms] by simp
  obtain x where x: "?base = head_part s now_ns @ ?d @ x" "tokens_of ?base \<le> initial_budget s"
    "\<forall>c\<in>set ?base. candidate_ok s c" "\<forall>c\<in>set x. cd_kind c = Prefill"
    using base_selection_facts [OF assms(1,2)] by metis
  have base: "?base = ?d @ x" using x(1) na by (simp add: head_part_def)
  have small: "tokens_of ?base \<le> u64_max"
    using x(2) initial_budget_bounds(2) [OF assms(1)] assms(1) by (simp add: policies_ok_def)
  have pos: "\<forall>c\<in>set ?base. 0 < cd_token_count c" using x(3) by (simp add: candidate_ok_def)
  have "defer_past_plateau env s (prefill_ready s) (length (decode_ready s)) (length ?d) ?base = Inr (cs, deferred)"
    using assms(3) na unfolding select_candidates_eq [OF assms(2)] by (auto simp: head_part_def)
  from defer_past_plateau_prefix [OF this pos small] obtain y where
    y: "cs = ?d @ y" "\<forall>c\<in>set y. \<exists>d\<in>set x. cd_kind c = cd_kind d"
    unfolding base by auto
  have d: "?d = map decode_candidate (take (initial_budget s) (decode_ready s))"
    using na by (simp add: decode_part_def head_part_def)
  have "sorted (map ready_key (decode_ready s))" by (simp add: decode_ready_def)
  then show ?thesis using y x(4) d by (auto simp: ready_key_def [abs_def])
qed

theorem decode_first_witness:
  "\<exists>prompts. [\<lparr>cd_request_id = RequestId 2, cd_kind = Decode, cd_token_count = 1\<rparr>,
       \<lparr>cd_request_id = RequestId 1, cd_kind = Prefill, cd_token_count = 3\<rparr>] =
     map decode_candidate (take (initial_budget demo_ready) (decode_ready demo_ready)) @ prompts"
  using decode_first [OF demo_ready_ok demo_ready_select] by blast

text \<open>Aging bounds the wait of a prompt: an override happens only when some request is decoding and
  the previous iteration had none, it puts the longest-waiting prompt past the threshold first, and
  with chunks that may be split and a budget above one it still leaves a token for decoding.\<close>

theorem aging_override:
  assumes "policies_ok s" and "unique_ids s" and "select_candidates env s now_ns = Inr (cs, True, deferred)"
  shows "\<not> s_aging_override_last_iteration s \<and> deferred = [] \<and>
    (\<exists>item rest. find (\<lambda>i. aging_threshold_ns (s_config s) \<le> now_ns - rr_ready_since_ns i) (prefill_ready s) = Some item \<and>
       cs = aged_candidate s (initial_budget s) item # rest \<and> cd_request_id (hd cs) = rr_request_id item \<and>
       0 < cd_token_count (hd cs) \<and>
       (s_atomic_prefill_chunks s \<or> initial_budget s = 1 \<or> (\<exists>c\<in>set rest. cd_kind c = Decode)))"
proof -
  obtain item where item: "find_aged s now_ns = Some item" using select_result(1) [OF assms] by auto
  have cs: "cs = base_selection s now_ns" "deferred = []" using select_result(2) [OF assms] item by auto
  obtain x where x: "cs = head_part s now_ns @ decode_part s now_ns @ x"
    using base_selection_facts [OF assms(1,2)] cs(1) by metis
  have it: "item \<in> set (prefill_ready s)" "decode_ready s \<noteq> []" using find_aged_ready [OF item] by auto
  have cfg: "config_ok (s_config s)" using assms(1) by (simp add: policies_ok_def)
  note ag = aged_candidate_facts [OF initial_budget_bounds(1) [OF assms(1)] it(1) cfg]
  have h: "head_part s now_ns = [aged_candidate s (initial_budget s) item]" using item by (simp add: head_part_def)
  have "\<exists>c\<in>set (decode_part s now_ns). cd_kind c = Decode" if "\<not> s_atomic_prefill_chunks s" "initial_budget s \<noteq> 1"
  proof -
    have "0 < initial_budget s - tokens_of (head_part s now_ns)"
      using ag(3) that initial_budget_bounds(1) [OF assms(1)] h by simp
    then show ?thesis using it(2)
      by (cases "decode_ready s"; cases "initial_budget s - tokens_of (head_part s now_ns)")
        (auto simp: decode_part_def decode_candidate_def)
  qed
  moreover have "\<not> s_aging_override_last_iteration s"
    "find (\<lambda>i. aging_threshold_ns (s_config s) \<le> now_ns - rr_ready_since_ns i) (prefill_ready s) = Some item"
    using item by (auto simp: find_aged_def split: if_splits)
  moreover have "cd_request_id (aged_candidate s (initial_budget s) item) = rr_request_id item"
    by (simp add: aged_candidate_def Let_def)
  moreover have "0 < cd_token_count (aged_candidate s (initial_budget s) item)"
    using ag(1) by (simp add: candidate_ok_def)
  ultimately show ?thesis using x h cs(2) by auto
qed

theorem aging_override_witness:
  "\<exists>rest. select_candidates demo_env demo_ready 100 =
     Inr (\<lparr>cd_request_id = RequestId 1, cd_kind = Prefill, cd_token_count = 4\<rparr> # rest, True, [])"
proof -
  have e: "select_candidates demo_env demo_ready 100 =
     Inr ([\<lparr>cd_request_id = RequestId 1, cd_kind = Prefill, cd_token_count = 4\<rparr>,
           \<lparr>cd_request_id = RequestId 2, cd_kind = Decode, cd_token_count = 1\<rparr>], True, [])"
    by code_simp
  show ?thesis using aging_override [OF demo_ready_ok e] e by simp
qed

text \<open>A plateau cut ends exactly on one of the policy's boundaries, puts off at least one and at most
  \<open>max_deferred_tokens\<close> tokens, and only of requests that no earlier iteration cut: a request is
  deferred at most once.\<close>

theorem plateau_defers_once:
  assumes "policies_ok s" and "unique_ids s" and "select_candidates env s now_ns = Inr (cs, aged, deferred)"
    and "deferred \<noteq> []"
  shows "\<exists>policy. s_prefill_plateau s = Some policy \<and>
    sum_list (map cd_token_count cs) \<in> set (pp_boundaries policy) \<and>
    sum_list (map cd_token_count cs) < tokens_of (base_selection s now_ns) \<and>
    tokens_of (base_selection s now_ns) \<le> sum_list (map cd_token_count cs) + pp_max_deferred_tokens policy \<and>
    (\<forall>i\<in>set deferred. \<exists>r\<in>set (s_requests s). rq_request_id r = i \<and> \<not> rq_plateau_deferred r)"
proof -
  obtain policy where p: "s_prefill_plateau s = Some policy"
    "plateau_cut policy (prefill_ready s) (base_selection s now_ns) cs deferred"
    using select_result(2) [OF assms(1-3)] assms(4) by blast
  have "\<exists>r\<in>set (s_requests s). rq_request_id r = i \<and> \<not> rq_plateau_deferred r"
    if i: "i \<in> set deferred" for i
  proof -
    obtain ready where "ready \<in> set (prefill_ready s)" "rr_request_id ready = i" "\<not> rr_plateau_deferred ready"
      using p(2) i by (auto simp: plateau_cut_def)
    then show ?thesis by (force simp: prefill_ready_iff ready_prefill_def Let_def split: if_splits)
  qed
  then show ?thesis using p by (auto simp: plateau_cut_def tokens_of_def)
qed

theorem plateau_defers_once_witness:
  "\<exists>policy. s_prefill_plateau demo_ready = Some policy \<and> 4 \<in> set (pp_boundaries policy) \<and>
     tokens_of (base_selection demo_ready 20) \<le> 4 + pp_max_deferred_tokens policy"
  using plateau_defers_once [OF demo_ready_ok demo_ready_select] by fastforce

end
