(* ===== verification/Scheduler_Lifecycle.thy ===== *)
theory Scheduler_Lifecycle
  imports Scheduler_Select
begin

text \<open>
  How a request enters and leaves the scheduler: submission and admission control, the bounded FCFS
  queue with its timeout, normal termination, and the forced reclaim of a request whose sequence no
  longer settles (\<open>scheduler.rs\<close>).
\<close>

subsection \<open>Leaving\<close>

text \<open>The common tail of \<open>finish_live_request\<close> and \<open>force_reclaim_live_request\<close>: the record leaves the
  table, its completion enters the outbox and a tombstone remains.\<close>

definition retire_record :: "nat \<Rightarrow> request_finish_reason \<Rightarrow> u64 \<Rightarrow> request_state \<Rightarrow> unit sched_cmd" where
  "retire_record index reason completed_at_ns terminal_state = withM (\<lambda>s.
     let r = s_requests s ! index in
     bindM (modM (\<lambda>s. s\<lparr>s_requests := swap_remove index (s_requests s),
       s_completion_outbox := s_completion_outbox s @
         [\<lparr>rc_request_id = rq_request_id r, rc_reason = reason,
           rc_generated_token_ids = rq_generated_token_ids r,
           rc_cached_prompt_tokens = rq_cached_prompt_tokens r,
           rc_completed_at_ns = completed_at_ns\<rparr>]\<rparr>)) (\<lambda>_.
     remember_terminal (rq_request_id r) terminal_state))"

definition force_reclaim_live_request :: "request_id \<Rightarrow> u64 \<Rightarrow> unit sched_cmd" where
  "force_reclaim_live_request request_id completed_at_ns = withM (\<lambda>s.
     bindM (tryM (ensure_completion_capacity s 1)) (\<lambda>_.
     bindM (tryM (ok_or (record_index s request_id) (UnknownRequest request_id))) (\<lambda>index.
     let r = s_requests s ! index in
     bindM (tryM (ok_or (checked_sub (s_active_sequences s) 1)
       (ArithmeticOverflow ''forced active sequence decrement''))) (\<lambda>active_sequences.
     bindM (tryM (ok_or (checked_sub (s_promised_kv_blocks s) (rq_promised_kv_blocks r))
       (ArithmeticOverflow ''forced promised KV block decrement''))) (\<lambda>promised_kv_blocks.
     bindM (tryM (ok_or (rq_sequence r)
       (InvalidPlan ''sequence'' ''forced reclaim request has no KV sequence''))) (\<lambda>q.
     bindM (mod_request index (\<lambda>r. r\<lparr>rq_sequence := None\<rparr>)) (\<lambda>_.
     bindM (on_spool (reclaim_sequence (abandon_for_reclaim q))) (\<lambda>_.
     bindM (modM (\<lambda>s. s\<lparr>s_active_sequences := active_sequences,
       s_promised_kv_blocks := promised_kv_blocks\<rparr>)) (\<lambda>_.
     bindM (retire_record index ReasonExecutorFailure completed_at_ns Failed) (\<lambda>_.
     observe_metric record_failed))))))))))"

definition contain_live_request_failure :: "request_id \<Rightarrow> u64 \<Rightarrow> scheduler_error \<Rightarrow> scheduler_error sched_cmd" where
  "contain_live_request_failure request_id now_ns original = withM (\<lambda>s.
     if record_index s request_id = None then ret original
     else catchM (force_reclaim_live_request request_id now_ns) (\<lambda>r.
       ret (case r of Inl error \<Rightarrow> error | Inr _ \<Rightarrow> original)))"

text \<open>Taking a waiting request out of the queue, and closing the sequence of an active one.\<close>

definition leave_queue :: "request_id \<Rightarrow> request_record \<Rightarrow> unit sched_cmd" where
  "leave_queue request_id r = withM (\<lambda>s.
     bindM (tryM (ok_or (position (\<lambda>c. c = request_id) (s_waiting s))
       (InvalidPlan ''waiting queue'' ''waiting request is absent from the FCFS queue''))) (\<lambda>queue_index.
     bindM (tryM (ok_or (checked_sub (s_waiting_prompt_tokens s)
         (length (rd_prompt_token_ids (rq_descriptor r))))
       (ArithmeticOverflow ''waiting prompt token decrement''))) (\<lambda>waiting_prompt_tokens.
     modM (\<lambda>s. s\<lparr>s_waiting := take queue_index (s_waiting s) @ drop (queue_index + 1) (s_waiting s),
       s_waiting_prompt_tokens := waiting_prompt_tokens\<rparr>))))"

definition close_active :: "request_id \<Rightarrow> nat \<Rightarrow> u64 \<Rightarrow> unit sched_cmd" where
  "close_active request_id index now_ns = withM (\<lambda>s.
     let r = s_requests s ! index in
     bindM (tryM (ok_or (checked_sub (s_active_sequences s) 1)
       (ArithmeticOverflow ''active sequence decrement''))) (\<lambda>active_sequences.
     bindM (tryM (ok_or (checked_sub (s_promised_kv_blocks s) (rq_promised_kv_blocks r))
       (ArithmeticOverflow ''promised KV block decrement''))) (\<lambda>promised_kv_blocks.
     bindM (tryM (ok_or (rq_sequence r)
       (InvalidPlan ''sequence'' ''active request has no KV sequence''))) (\<lambda>q.
     catchM (on_sequence index q seq_close) (\<lambda>close_result.
       case close_result of
         Inl original \<Rightarrow>
           bindM (force_reclaim_live_request request_id now_ns) (\<lambda>_. throwM original)
       | Inr _ \<Rightarrow> modM (\<lambda>s. s\<lparr>s_active_sequences := active_sequences,
           s_promised_kv_blocks := promised_kv_blocks\<rparr>))))))"

fun finish_metric :: "request_finish_reason \<Rightarrow> unit sched_cmd" where
  "finish_metric ReasonLength = observe_metric record_finished"
| "finish_metric ReasonStop = observe_metric record_finished"
| "finish_metric ReasonAdmissionTimeout = observe_metric record_failed"
| "finish_metric ReasonExecutorFailure = observe_metric record_failed"
| "finish_metric ReasonCancelled = ret ()"

definition finish_live_request :: "request_id \<Rightarrow> request_finish_reason \<Rightarrow> u64 \<Rightarrow> unit sched_cmd" where
  "finish_live_request request_id reason now_ns = withM (\<lambda>s.
     bindM (tryM (ensure_completion_capacity s 1)) (\<lambda>_.
     bindM (tryM (ok_or (record_index s request_id) (UnknownRequest request_id))) (\<lambda>index.
     let r = s_requests s ! index; previous_state = rq_state r; terminal_state = reason_state reason in
     bindM (failIf (\<not> valid_transition previous_state terminal_state)
       (InvalidStateTransition request_id (state_name previous_state) (state_name terminal_state))) (\<lambda>_.
     bindM (if previous_state = Waiting then leave_queue request_id r
            else close_active request_id index now_ns) (\<lambda>_.
     bindM (retire_record index reason now_ns terminal_state) (\<lambda>_.
     finish_metric reason))))))"

subsection \<open>Entering\<close>

definition admit_record :: "host_env \<Rightarrow> request_record \<Rightarrow> usize \<Rightarrow> u64 \<Rightarrow> request_record sched_cmd" where
  "admit_record env r maximum now_ns =
     bindM (on_spool (create_sequence env maximum)) (\<lambda>q.
     bindM (tryM (transition r Admitted)) (\<lambda>r.
     let r = r\<lparr>rq_sequence := Some q, rq_ready_since_ns := now_ns\<rparr> in
     withM (\<lambda>s.
     bindM (tryM (ok_or (checked_add (s_active_sequences s) 1)
       (ArithmeticOverflow ''active sequence count''))) (\<lambda>active_sequences.
     bindM (modM (\<lambda>s. s\<lparr>s_active_sequences := active_sequences\<rparr>)) (\<lambda>_.
     bindM (tryM (ok_or (checked_add (s_promised_kv_blocks s) (rq_promised_kv_blocks r))
       (ArithmeticOverflow ''promised KV blocks''))) (\<lambda>promised_kv_blocks.
     bindM (modM (\<lambda>s. s\<lparr>s_promised_kv_blocks := promised_kv_blocks\<rparr>)) (\<lambda>_.
     bindM (observe_metric (record_admission 0)) (\<lambda>_.
     ret r))))))))"

definition reject :: "scheduler_error \<Rightarrow> 'a sched_cmd" where
  "reject error = bindM (observe_metric record_rejection) (\<lambda>_. throwM error)"

definition validate_waiting_capacity :: "usize \<Rightarrow> unit sched_cmd" where
  "validate_waiting_capacity prompt_tokens = withM (\<lambda>s.
     if max_waiting_requests (s_config s) \<le> length (s_waiting s)
     then reject (WaitingQueueFull (max_waiting_requests (s_config s)))
     else bindM (tryM (ok_or (checked_add (s_waiting_prompt_tokens s) prompt_tokens)
       (ArithmeticOverflow ''waiting prompt token admission''))) (\<lambda>requested.
     if max_waiting_prompt_tokens (s_config s) < requested
     then reject (WaitingTokenLimit (max_waiting_prompt_tokens (s_config s)) requested)
     else ret ()))"

text \<open>The record of a request as \<open>submit\<close> builds it.\<close>

definition fresh_record :: "request_id \<Rightarrow> request_descriptor \<Rightarrow> u64 \<Rightarrow> usize \<Rightarrow> request_record" where
  "fresh_record request_id d now_ns promised =
     \<lparr>rq_request_id = request_id, rq_descriptor = d, rq_state = Waiting, rq_submitted_at_ns = now_ns,
      rq_ready_since_ns = now_ns, rq_prefill_cursor = 0, rq_generated_token_ids = [],
      rq_promised_kv_blocks = promised, rq_sequence = None, rq_cancellation_deferred = False,
      rq_plateau_deferred = False, rq_cached_prompt_tokens = 0, rq_prefix_tip = ROOT,
      rq_prefix_linked = True\<rparr>"

definition enqueue_waiting :: "request_record \<Rightarrow> request_record sched_cmd" where
  "enqueue_waiting r = withM (\<lambda>s.
     bindM (tryM (ok_or (checked_add (s_waiting_prompt_tokens s)
         (length (rd_prompt_token_ids (rq_descriptor r))))
       (ArithmeticOverflow ''waiting prompt tokens''))) (\<lambda>waiting_prompt_tokens.
     bindM (modM (\<lambda>s. s\<lparr>s_waiting_prompt_tokens := waiting_prompt_tokens,
       s_waiting := s_waiting s @ [rq_request_id r]\<rparr>)) (\<lambda>_.
     ret r)))"

definition submit :: "host_env \<Rightarrow> request_descriptor \<Rightarrow> u64 \<Rightarrow> submission sched_cmd" where
  "submit env descriptor now_ns = withM (\<lambda>s.
     bindM (tryM (ensure_completion_backlog_empty s)) (\<lambda>_.
     bindM (failIf (\<not> s_accepting s) SchedulerClosed) (\<lambda>_.
     bindM (observe_now now_ns) (\<lambda>_.
     bindM (tryM (validate_descriptor (s_config s) descriptor)) (\<lambda>maximum.
     let promised_kv_blocks = div_ceil maximum KV_BLOCK_SIZE in
     if max_promised_kv_blocks (s_config s) < promised_kv_blocks
     then reject (KvCapacityExceeded promised_kv_blocks (max_promised_kv_blocks (s_config s)))
     else let admit = (s_waiting s = [] \<and> can_admit s promised_kv_blocks) in
     if \<not> admit \<and> config_overload_policy (s_config s) = RejectImmediately
     then reject (immediate_overload_error s promised_kv_blocks)
     else
     bindM (if admit then ret ()
            else validate_waiting_capacity (length (rd_prompt_token_ids descriptor))) (\<lambda>_.
     bindM (tryM (copy_tokens env ''scheduler-owned prompt tokens'' (rd_prompt_token_ids descriptor)))
       (\<lambda>prompt.
     let descriptor = \<lparr>rd_prompt_token_ids = prompt,
                       rd_max_new_tokens = rd_max_new_tokens descriptor\<rparr> in
     bindM (tryM (peek_request_id s)) (\<lambda>request_id.
     bindM (reserve env ''request generated tokens'' (rd_max_new_tokens descriptor)) (\<lambda>_.
     let r = fresh_record request_id descriptor now_ns promised_kv_blocks in
     bindM (if admit then admit_record env r maximum now_ns else enqueue_waiting r) (\<lambda>r.
     bindM (modM (\<lambda>s. s\<lparr>s_requests := s_requests s @ [r]\<rparr>)) (\<lambda>_.
     bindM advance_request_id (\<lambda>_.
     bindM (observe_metric record_submission) (\<lambda>_.
     bindM (refresh_metric_gauges env) (\<lambda>_.
     ret \<lparr>sub_request_id = request_id,
          sub_state = (if admit then Admitted else Waiting)\<rparr>))))))))))))))"

subsection \<open>The waiting queue\<close>

text \<open>Every round of the two loops below shortens the queue, so its length is enough fuel.\<close>

fun expire_loop :: "nat \<Rightarrow> u64 \<Rightarrow> u64 \<Rightarrow> unit sched_cmd" where
  "expire_loop fuel timeout_ns now_ns = withM (\<lambda>s.
     case s_waiting s of
       [] \<Rightarrow> ret ()
     | request_id # _ \<Rightarrow>
         bindM (tryM (ok_or (record_index s request_id) (UnknownRequest request_id))) (\<lambda>index.
         if now_ns - rq_submitted_at_ns (s_requests s ! index) < timeout_ns then ret ()
         else case fuel of
           0 \<Rightarrow> throwM scheduler_panic
         | Suc fuel' \<Rightarrow>
             bindM (finish_live_request request_id ReasonAdmissionTimeout now_ns) (\<lambda>_.
             bindM (observe_metric record_admission_timeout) (\<lambda>_.
             expire_loop fuel' timeout_ns now_ns))))"

definition expire_waiting :: "u64 \<Rightarrow> unit sched_cmd" where
  "expire_waiting now_ns = withM (\<lambda>s.
     case admission_timeout_ns (s_config s) of
       None \<Rightarrow> ret ()
     | Some timeout_ns \<Rightarrow> expire_loop (length (s_waiting s)) timeout_ns now_ns)"

text \<open>One admission from the front of the queue.\<close>

definition admit_front :: "host_env \<Rightarrow> nat \<Rightarrow> u64 \<Rightarrow> unit sched_cmd" where
  "admit_front env index now_ns = withM (\<lambda>s.
     let r = s_requests s ! index; promised = rq_promised_kv_blocks r in
     bindM (tryM (maximum_logical_length (rq_descriptor r))) (\<lambda>maximum.
     bindM (on_spool (create_sequence env maximum)) (\<lambda>q.
     bindM (modM (\<lambda>s. s\<lparr>s_waiting := tl (s_waiting s)\<rparr>)) (\<lambda>_.
     bindM (tryM (ok_or (checked_sub (s_waiting_prompt_tokens s)
         (length (rd_prompt_token_ids (rq_descriptor r))))
       (ArithmeticOverflow ''waiting prompt token decrement''))) (\<lambda>waiting_prompt_tokens.
     bindM (modM (\<lambda>s. s\<lparr>s_waiting_prompt_tokens := waiting_prompt_tokens\<rparr>)) (\<lambda>_.
     bindM (tryM (ok_or (checked_add (s_active_sequences s) 1)
       (ArithmeticOverflow ''active sequence count''))) (\<lambda>active_sequences.
     bindM (modM (\<lambda>s. s\<lparr>s_active_sequences := active_sequences\<rparr>)) (\<lambda>_.
     bindM (tryM (ok_or (checked_add (s_promised_kv_blocks s) promised)
       (ArithmeticOverflow ''promised KV blocks''))) (\<lambda>promised_kv_blocks.
     bindM (modM (\<lambda>s. s\<lparr>s_promised_kv_blocks := promised_kv_blocks\<rparr>)) (\<lambda>_.
     bindM (tryM (transition r Admitted)) (\<lambda>r'.
     bindM (mod_request index (\<lambda>_. r'\<lparr>rq_sequence := Some q, rq_ready_since_ns := now_ns\<rparr>)) (\<lambda>_.
     observe_metric (record_admission (now_ns - rq_submitted_at_ns r))))))))))))))"

fun admit_loop :: "host_env \<Rightarrow> nat \<Rightarrow> u64 \<Rightarrow> unit sched_cmd" where
  "admit_loop env fuel now_ns = withM (\<lambda>s.
     case s_waiting s of
       [] \<Rightarrow> ret ()
     | request_id # _ \<Rightarrow>
         bindM (tryM (ok_or (record_index s request_id) (UnknownRequest request_id))) (\<lambda>index.
         if \<not> can_admit s (rq_promised_kv_blocks (s_requests s ! index)) then ret ()
         else case fuel of
           0 \<Rightarrow> throwM scheduler_panic
         | Suc fuel' \<Rightarrow>
             bindM (admit_front env index now_ns) (\<lambda>_. admit_loop env fuel' now_ns)))"

definition admit_waiting :: "host_env \<Rightarrow> u64 \<Rightarrow> unit sched_cmd" where
  "admit_waiting env now_ns = withM (\<lambda>s. admit_loop env (length (s_waiting s)) now_ns)"

declare expire_loop.simps [simp del]
declare admit_loop.simps [simp del]

subsection \<open>Cancellation and shutdown\<close>

definition cancellation :: "request_id \<Rightarrow> bool \<Rightarrow> bool \<Rightarrow> request_completion option \<Rightarrow> cancellation_outcome" where
  "cancellation request_id deferred already completion =
     \<lparr>cn_request_id = request_id, cn_deferred_until_iteration_settles = deferred,
      cn_already_terminal = already, cn_completion = completion\<rparr>"

definition is_inflight :: "scheduler \<Rightarrow> request_id \<Rightarrow> bool" where
  "is_inflight s request_id \<longleftrightarrow>
     (case s_inflight s of
        None \<Rightarrow> False
      | Some plan \<Rightarrow> list_ex (\<lambda>item. fi_request_id item = request_id) (fp_items plan))"

definition cancel :: "host_env \<Rightarrow> request_id \<Rightarrow> u64 \<Rightarrow> cancellation_outcome sched_cmd" where
  "cancel env request_id now_ns = withM (\<lambda>s.
     bindM (tryM (ensure_completion_backlog_empty s)) (\<lambda>_.
     bindM (observe_now now_ns) (\<lambda>_.
     if list_ex (\<lambda>entry. tt_request_id entry = request_id) (s_terminal s)
     then ret (cancellation request_id False True None)
     else
     bindM (tryM (ok_or (record_index s request_id) (UnknownRequest request_id))) (\<lambda>index.
     if rq_cancellation_deferred (s_requests s ! index)
     then ret (cancellation request_id True False None)
     else if is_inflight s request_id
     then bindM (mod_request index (\<lambda>r. r\<lparr>rq_cancellation_deferred := True\<rparr>)) (\<lambda>_.
          bindM (observe_metric record_cancellation) (\<lambda>_.
          bindM (refresh_metric_gauges env) (\<lambda>_.
          ret (cancellation request_id True False None))))
     else
     bindM (tryM (ensure_completion_capacity s 1)) (\<lambda>_.
     bindM (finish_live_request request_id ReasonCancelled now_ns) (\<lambda>_.
     bindM pop_pending_completion (\<lambda>popped.
     bindM (tryM (ok_or popped (InvalidPlan ''completion outbox''
       ''immediate cancellation did not enqueue its terminal payload''))) (\<lambda>completion.
     bindM (observe_metric record_cancellation) (\<lambda>_.
     bindM (refresh_metric_gauges env) (\<lambda>_.
     ret (cancellation request_id False False (Some completion))))))))))))"

end
