(* ===== verification/Scheduler_Iteration.thy ===== *)
theory Scheduler_Iteration
  imports Scheduler_Lifecycle
begin

text \<open>
  One iteration of the scheduler (\<open>scheduler.rs\<close>): cached prefixes are adopted, the selected work is
  reserved in the pool and handed out as an immutable plan, and the plan is settled exactly once, by
  its result or by an abort. The last section is the end of a scheduler's life.
\<close>

subsection \<open>The prefix cache in the scheduler\<close>

text \<open>A slice \<open>tokens[start..start + KV_BLOCK_SIZE]\<close>; out of range it panics.\<close>

definition block_slice :: "u32 list \<Rightarrow> usize \<Rightarrow> u32 list scheduler_result" where
  "block_slice tokens start =
     bindE (failE (length tokens < start + KV_BLOCK_SIZE) scheduler_panic) (\<lambda>_.
     Inr (take KV_BLOCK_SIZE (drop start tokens)))"

text \<open>Every round adopts one more block of the prompt, so the number of its tokens is enough fuel.\<close>

fun adopt_loop :: "nat \<Rightarrow> prefix_cache \<Rightarrow> usize \<Rightarrow> nat \<Rightarrow> unit sched_cmd" where
  "adopt_loop fuel cache reusable index = withM (\<lambda>s.
     let r = s_requests s ! index; start = rq_prefill_cursor r in
     if reusable \<le> start then ret ()
     else case (fuel, rq_sequence r) of
       (Suc fuel', Some q) \<Rightarrow>
         bindM (tryM (block_slice (rd_prompt_token_ids (rq_descriptor r)) start)) (\<lambda>tokens.
         bindM (tryM (cache_find cache (rq_prefix_tip r) tokens)) (\<lambda>found.
         case found of
           None \<Rightarrow> ret ()
         | Some (entry, block) \<Rightarrow>
             bindM (on_sequence index q (adopt_shared_block block)) (\<lambda>_.
             bindM (mod_request index (\<lambda>r. r\<lparr>rq_prefix_tip := entry,
               rq_prefill_cursor := start + KV_BLOCK_SIZE\<rparr>)) (\<lambda>_.
             adopt_loop fuel' cache reusable index))))
     | _ \<Rightarrow> throwM scheduler_panic)"

definition adopt_cached_prefix :: "nat \<Rightarrow> unit sched_cmd" where
  "adopt_cached_prefix index = withM (\<lambda>s.
     let r = s_requests s ! index in
     case (s_prefix_cache s, rq_sequence r) of
       (Some cache, Some _) \<Rightarrow>
         if rq_state r \<noteq> Admitted \<or> \<not> rq_prefix_linked r then ret ()
         else
           let prompt = rd_prompt_token_ids (rq_descriptor r);
               reusable = (length prompt - 1) div KV_BLOCK_SIZE * KV_BLOCK_SIZE;
               adopted_from = rq_prefill_cursor r in
           bindM (adopt_loop (length prompt) cache reusable index) (\<lambda>_.
           withM (\<lambda>s.
           let adopted = rq_prefill_cursor (s_requests s ! index) - adopted_from in
           if adopted = 0 then ret ()
           else
             bindM (mod_request index (\<lambda>r. r\<lparr>rq_cached_prompt_tokens :=
               wrapping_add (rq_cached_prompt_tokens r) adopted\<rparr>)) (\<lambda>_.
             bindM (on_scache cache (on_cache (touch_path (rq_prefix_tip (s_requests s ! index))))) (\<lambda>_.
             observe_metric (record_prefix_cache_hit adopted)))))
     | _ \<Rightarrow> ret ())"

definition adopt_cached_prefixes :: "unit sched_cmd" where
  "adopt_cached_prefixes = withM (\<lambda>s. forM [0..<length (s_requests s)] adopt_cached_prefix)"

text \<open>One more prompt block of request \<open>index\<close> is listed, or the request stops listing (\<open>False\<close>).\<close>

definition publish_block :: "nat \<Rightarrow> usize \<Rightarrow> bool sched_cmd" where
  "publish_block index block_index = withM (\<lambda>s.
     let r = s_requests s ! index;
         unlink_request = mod_request index (\<lambda>r. r\<lparr>rq_prefix_linked := False\<rparr>) in
     case (s_prefix_cache s, rq_sequence r) of
       (Some cache, Some q) \<Rightarrow>
         bindM (tryM (block_slice (rd_prompt_token_ids (rq_descriptor r)) (block_index * KV_BLOCK_SIZE)))
           (\<lambda>tokens.
         bindM (tryM (cache_find cache (rq_prefix_tip r) tokens)) (\<lambda>found.
         if found \<noteq> None then bindM unlink_request (\<lambda>_. ret False)
         else
         bindM (if has_room cache then ret True
                else bindM (on_scache cache evict_one) (\<lambda>evicted.
                     if evicted
                     then bindM (observe_metric record_prefix_cache_eviction) (\<lambda>_. ret True)
                     else bindM unlink_request (\<lambda>_. ret False))) (\<lambda>room.
         if \<not> room then ret False
         else
         bindM (on_sequence index q share_next_block) (\<lambda>block.
         withM (\<lambda>s. case s_prefix_cache s of
           None \<Rightarrow> throwM scheduler_panic
         | Some cache \<Rightarrow>
             bindM (on_scache cache (on_cache (cache_insert (rq_prefix_tip r) tokens block))) (\<lambda>entry.
             bindM (mod_request index (\<lambda>r. r\<lparr>rq_prefix_tip := entry\<rparr>)) (\<lambda>_.
             ret True)))))))
     | _ \<Rightarrow> throwM scheduler_panic)"

fun publish_loop :: "nat \<Rightarrow> nat \<Rightarrow> usize \<Rightarrow> usize \<Rightarrow> usize sched_cmd" where
  "publish_loop fuel index full_blocks next_block = withM (\<lambda>s.
     if rq_prefix_linked (s_requests s ! index) \<and> next_block < full_blocks
     then case fuel of
            0 \<Rightarrow> throwM scheduler_panic
          | Suc fuel' \<Rightarrow>
              bindM (publish_block index next_block) (\<lambda>listed.
              if listed then publish_loop fuel' index full_blocks (next_block + 1) else ret next_block)
     else ret next_block)"

definition publish_prompt_blocks :: "nat \<Rightarrow> unit sched_cmd" where
  "publish_prompt_blocks index = withM (\<lambda>s.
     let r = s_requests s ! index in
     case (s_prefix_cache s, rq_sequence r) of
       (Some _, Some q) \<Rightarrow>
         let full_blocks = rq_prefill_cursor r div KV_BLOCK_SIZE; first = sq_shared_block_count q in
         bindM (publish_loop (full_blocks - first) index full_blocks first) (\<lambda>next_block.
         if next_block = first then ret ()
         else withM (\<lambda>s. case s_prefix_cache s of
                None \<Rightarrow> throwM scheduler_panic
              | Some cache \<Rightarrow>
                  on_scache cache (on_cache (touch_path (rq_prefix_tip (s_requests s ! index))))))
     | _ \<Rightarrow> ret ())"

definition drop_prefix_cache_entries :: "unit sched_cmd" where
  "drop_prefix_cache_entries = withM (\<lambda>s.
     case s_prefix_cache s of
       None \<Rightarrow> ret ()
     | Some cache \<Rightarrow>
         bindM (on_scache cache cache_clear) (\<lambda>_.
         modM (\<lambda>s. s\<lparr>s_requests := map (\<lambda>r. r\<lparr>rq_prefix_linked := False\<rparr>) (s_requests s)\<rparr>)))"

declare adopt_loop.simps [simp del]
declare publish_loop.simps [simp del]

subsection \<open>Settling one reservation\<close>

definition settle_reservation ::
  "request_id \<Rightarrow> sequence_reservation \<Rightarrow> reservation_settlement \<Rightarrow> unit sched_cmd" where
  "settle_reservation request_id reservation settlement = withM (\<lambda>s.
     bindM (tryM (ok_or (record_index s request_id) (UnknownRequest request_id))) (\<lambda>index.
     bindM (tryM (ok_or (rq_sequence (s_requests s ! index))
       (InvalidPlan ''sequence'' ''reservation owner has no KV sequence''))) (\<lambda>q.
     catchM (on_sequence index q
       (case settlement of SettleRollback \<Rightarrow> seq_rollback reservation
                         | SettlePoison \<Rightarrow> seq_poison reservation)) (\<lambda>r.
       case r of
         Inr _ \<Rightarrow> ret ()
       | Inl original \<Rightarrow>
           bindM (force_reclaim_live_request request_id
             (case s_last_now_ns s of None \<Rightarrow> 0 | Some now_ns \<Rightarrow> now_ns)) (\<lambda>_.
           throwM original)))))"

definition restore_request :: "inflight_item \<Rightarrow> nat \<Rightarrow> unit sched_cmd" where
  "restore_request item index = mod_request index (\<lambda>r. r\<lparr>rq_state := fi_previous_state item,
     rq_ready_since_ns := fi_previous_ready_since_ns item\<rparr>)"

fun rollback_items :: "inflight_item list \<Rightarrow> scheduler_error option \<Rightarrow> scheduler_error option sched_cmd" where
  "rollback_items [] cleanup_error = ret cleanup_error"
| "rollback_items (item # rest) cleanup_error =
     catchM (settle_reservation (fi_request_id item) (fi_reservation item) SettleRollback) (\<lambda>r.
       case r of
         Inl error \<Rightarrow>
           rollback_items rest (case cleanup_error of None \<Rightarrow> Some error | Some first \<Rightarrow> Some first)
       | Inr _ \<Rightarrow>
           bindM (withM (\<lambda>s. case record_index s (fi_request_id item) of
                    None \<Rightarrow> ret () | Some index \<Rightarrow> restore_request item index)) (\<lambda>_.
           rollback_items rest cleanup_error))"

definition rollback_prepared_plan :: "inflight_item list \<Rightarrow> scheduler_error \<Rightarrow> 'a sched_cmd" where
  "rollback_prepared_plan items original =
     bindM (rollback_items (rev items) None) (\<lambda>cleanup_error.
     throwM (case cleanup_error of None \<Rightarrow> original | Some error \<Rightarrow> error))"

subsection \<open>Preparing a plan\<close>

text \<open>The input tokens, the target length and whether an output is sampled.\<close>

definition candidate_input ::
  "host_env \<Rightarrow> request_record \<Rightarrow> candidate \<Rightarrow> (u32 list \<times> usize \<times> bool) scheduler_result" where
  "candidate_input env r c =
     (let prompt = rd_prompt_token_ids (rq_descriptor r) in
      case cd_kind c of
        Prefill \<Rightarrow>
          bindE (ok_or (checked_add (rq_prefill_cursor r) (cd_token_count c))
            (ArithmeticOverflow ''prefill cursor'')) (\<lambda>end_pos.
          bindE (failE (length prompt < end_pos)
            (InvalidPlan ''prefill range'' ''candidate exceeds the retained prompt'')) (\<lambda>_.
          bindE (copy_tokens env ''prefill input tokens''
            (take (end_pos - rq_prefill_cursor r) (drop (rq_prefill_cursor r) prompt))) (\<lambda>input.
          Inr (input, end_pos, end_pos = length prompt))))
      | Decode \<Rightarrow>
          bindE (ok_or (if rq_generated_token_ids r = [] then None else Some (last (rq_generated_token_ids r)))
            (InvalidPlan ''decode token'' ''decoding request has no prior generated token'')) (\<lambda>token.
          bindE (ok_or (rq_sequence r)
            (InvalidPlan ''sequence'' ''decode candidate has no KV sequence'')) (\<lambda>q.
          bindE (ok_or (checked_add (sq_logical_length q) 1)
            (ArithmeticOverflow ''decode target logical length'')) (\<lambda>target.
          bindE (copy_tokens env ''decode input token'' [token]) (\<lambda>input.
          Inr (input, target, True))))))"

fun build_payloads ::
  "host_env \<Rightarrow> scheduler \<Rightarrow> candidate list \<Rightarrow> output_slot list \<Rightarrow> candidate_payload list \<Rightarrow>
     (candidate_payload list \<times> output_slot list) scheduler_result" where
  "build_payloads env s [] output_slots payloads = Inr (payloads, output_slots)"
| "build_payloads env s (c # cs) output_slots payloads =
     bindE (ok_or (record_index s (cd_request_id c)) (UnknownRequest (cd_request_id c))) (\<lambda>index.
     bindE (candidate_input env (s_requests s ! index) c) (\<lambda>(input_tokens, target, needs_output).
     bindE (if needs_output
            then bindE (ok_or (u32_try_from (length output_slots))
                   (ArithmeticOverflow ''iteration output slot'')) (\<lambda>raw. Inr (Some (OutputSlot raw)))
            else Inr None) (\<lambda>slot.
     build_payloads env s cs
       (case slot of None \<Rightarrow> output_slots | Some v \<Rightarrow> output_slots @ [v])
       (payloads @ [\<lparr>cp_candidate = c, cp_input_tokens = input_tokens,
                     cp_target_logical_length = target, cp_output_slot = slot\<rparr>]))))"

text \<open>The eviction loop: each successful round removes a cache entry, so one more round than there
  are entries is enough fuel.\<close>

fun evict_until :: "host_env \<Rightarrow> nat \<Rightarrow> usize \<Rightarrow> unit sched_cmd" where
  "evict_until env fuel needed_blocks = withM (\<lambda>s.
     case s_prefix_cache s of
       None \<Rightarrow> ret ()
     | Some cache \<Rightarrow>
         if needed_blocks \<le> ps_free_block_count (pool_stats env (s_pool s)) then ret ()
         else (case fuel of
           0 \<Rightarrow> throwM scheduler_panic
         | Suc fuel' \<Rightarrow>
             bindM (on_scache cache evict_one) (\<lambda>evicted.
             if evicted
             then bindM (observe_metric record_prefix_cache_eviction) (\<lambda>_.
                  evict_until env fuel' needed_blocks)
             else ret ())))"

declare evict_until.simps [simp del]

record prepared_work =
  pw_items :: "inflight_item list"
  pw_tables :: "owned_block_table list"
  pw_prefill :: "work_item list"
  pw_decode :: "work_item list"

definition make_item :: "candidate_payload \<Rightarrow> request_record \<Rightarrow> sequence_reservation \<Rightarrow> inflight_item" where
  "make_item payload r reservation =
     \<lparr>fi_request_id = cd_request_id (cp_candidate payload), fi_kind = cd_kind (cp_candidate payload),
      fi_target_logical_length = cp_target_logical_length payload,
      fi_output_slot = cp_output_slot payload, fi_previous_state = rq_state r,
      fi_previous_ready_since_ns = rq_ready_since_ns r, fi_reservation = reservation\<rparr>"

text \<open>The block table and work item of a payload whose reservation was just made.\<close>

definition reserved_work ::
  "host_env \<Rightarrow> candidate_payload \<Rightarrow> sequence_state option \<Rightarrow> sequence_reservation \<Rightarrow> usize \<Rightarrow>
     (owned_block_table \<times> work_item) scheduler_result" where
  "reserved_work env payload sequence reservation table_index =
     bindE (case sequence of
              None \<Rightarrow> Inl (InvalidPlan ''sequence'' ''reserved candidate has no KV sequence'')
            | Some q \<Rightarrow>
                bindE (map_err PagedKv (reserved_block_table q reservation))
                  (copy_from_v1 env (cd_request_id (cp_candidate payload)))) (\<lambda>table.
     bindE (work_item_new (cd_request_id (cp_candidate payload)) (cd_kind (cp_candidate payload))
       (cp_input_tokens payload) (cp_target_logical_length payload) table_index
       (cp_output_slot payload)) (\<lambda>item.
     Inr (table, item)))"

definition add_work :: "work_kind \<Rightarrow> owned_block_table \<Rightarrow> work_item \<Rightarrow> prepared_work \<Rightarrow> prepared_work" where
  "add_work kind table item w =
     (case kind of
        Prefill \<Rightarrow> w\<lparr>pw_tables := pw_tables w @ [table], pw_prefill := pw_prefill w @ [item]\<rparr>
      | Decode \<Rightarrow> w\<lparr>pw_tables := pw_tables w @ [table], pw_decode := pw_decode w @ [item]\<rparr>)"

definition reserve_payload :: "host_env \<Rightarrow> candidate_payload \<Rightarrow> prepared_work \<Rightarrow> prepared_work sched_cmd" where
  "reserve_payload env payload w = withM (\<lambda>s.
     let request_id = cd_request_id (cp_candidate payload); target = cp_target_logical_length payload in
     case record_index s request_id of
       None \<Rightarrow> rollback_prepared_plan (pw_items w) (UnknownRequest request_id)
     | Some index \<Rightarrow>
         (let r = s_requests s ! index in
          case rq_sequence r of
            None \<Rightarrow> rollback_prepared_plan (pw_items w)
              (InvalidPlan ''sequence'' ''active candidate has no KV sequence'')
          | Some q \<Rightarrow>
              catchM (evict_until env
                (Suc (case s_prefix_cache s of None \<Rightarrow> 0 | Some cache \<Rightarrow> cache_len cache))
                (additional_blocks_for q target)) (\<lambda>evicted.
              case evicted of
                Inl error \<Rightarrow> rollback_prepared_plan (pw_items w) error
              | Inr _ \<Rightarrow>
                  catchM (on_sequence index q (reserve_to env target)) (\<lambda>reserved.
                  case reserved of
                    Inl error \<Rightarrow> rollback_prepared_plan (pw_items w) error
                  | Inr reservation \<Rightarrow>
                      let w = w\<lparr>pw_items := pw_items w @ [make_item payload r reservation]\<rparr> in
                      withM (\<lambda>s.
                      case reserved_work env payload (rq_sequence (s_requests s ! index)) reservation
                             (length (pw_tables w)) of
                        Inl error \<Rightarrow> rollback_prepared_plan (pw_items w) error
                      | Inr (table, item) \<Rightarrow>
                          ret (add_work (cd_kind (cp_candidate payload)) table item w))))))"

fun reserve_payloads :: "host_env \<Rightarrow> candidate_payload list \<Rightarrow> prepared_work \<Rightarrow> prepared_work sched_cmd" where
  "reserve_payloads env [] w = ret w"
| "reserve_payloads env (payload # rest) w =
     bindM (reserve_payload env payload w) (\<lambda>w. reserve_payloads env rest w)"

fun work_state :: "work_kind \<Rightarrow> request_state" where
  "work_state Prefill = Prefilling"
| "work_state Decode = Decoding"

fun transition_indices :: "scheduler \<Rightarrow> inflight_item list \<Rightarrow> nat list \<Rightarrow> nat list scheduler_result" where
  "transition_indices s [] indices = Inr indices"
| "transition_indices s (item # rest) indices =
     bindE (ok_or (record_index s (fi_request_id item)) (UnknownRequest (fi_request_id item))) (\<lambda>index.
     let source = rq_state (s_requests s ! index); target = work_state (fi_kind item) in
     bindE (failE (\<not> valid_transition source target)
       (InvalidStateTransition (fi_request_id item) (state_name source) (state_name target))) (\<lambda>_.
     transition_indices s rest (indices @ [index])))"

fun count_tokens :: "work_item list \<Rightarrow> usize \<Rightarrow> usize option" where
  "count_tokens [] n = Some n"
| "count_tokens (item # rest) n =
     Option.bind (checked_add n (length (wi_input_tokens item))) (count_tokens rest)"

definition start_request :: "u64 \<Rightarrow> inflight_item \<times> nat \<Rightarrow> unit sched_cmd" where
  "start_request now_ns = (\<lambda>(item, index). mod_request index (\<lambda>r. r\<lparr>rq_state := work_state (fi_kind item),
     rq_ready_since_ns := now_ns\<rparr>))"

text \<open>What is checked between the last reservation and the first state change.\<close>

definition assemble_plan ::
  "host_env \<Rightarrow> scheduler \<Rightarrow> iteration_id \<Rightarrow> prepared_work \<Rightarrow>
     (iteration_plan \<times> usize \<times> usize \<times> nat list) scheduler_result" where
  "assemble_plan env s iteration_id w =
     bindE (iteration_plan_new env iteration_id (pw_prefill w) (pw_decode w) (pw_tables w)) (\<lambda>plan.
     bindE (ok_or (count_tokens (ip_prefill_items plan) 0)
       (ArithmeticOverflow ''prefill plan token count'')) (\<lambda>prefill_tokens.
     bindE (ok_or (count_tokens (ip_decode_items plan) 0)
       (ArithmeticOverflow ''decode plan token count'')) (\<lambda>decode_tokens.
     bindE (transition_indices s (pw_items w) []) (\<lambda>indices.
     Inr (plan, prefill_tokens, decode_tokens, indices)))))"

definition prepare_plan ::
  "host_env \<Rightarrow> iteration_id \<Rightarrow> candidate list \<Rightarrow> u64 \<Rightarrow> iteration_plan sched_cmd" where
  "prepare_plan env iteration_id candidates now_ns =
     bindM (tryM (forE [''prefill plan items'', ''decode plan items'', ''iteration block tables'',
         ''in-flight reservations'', ''expected output slots'', ''candidate payloads'',
         ''request transition indices''] (\<lambda>resource.
         reserve_host env resource (length candidates)))) (\<lambda>_.
     withM (\<lambda>s.
     bindM (tryM (build_payloads env s candidates [] [])) (\<lambda>(payloads, output_slots).
     bindM (reserve_payloads env payloads
       \<lparr>pw_items = [], pw_tables = [], pw_prefill = [], pw_decode = []\<rparr>) (\<lambda>w.
     withM (\<lambda>s.
     case assemble_plan env s iteration_id w of
       Inl error \<Rightarrow> rollback_prepared_plan (pw_items w) error
     | Inr (plan, prefill_tokens, decode_tokens, indices) \<Rightarrow>
         bindM (forM (zip (pw_items w) indices) (start_request now_ns)) (\<lambda>_.
         bindM (modM (\<lambda>s. s\<lparr>s_inflight := Some
           \<lparr>fp_iteration_id = iteration_id, fp_prefill_tokens = prefill_tokens,
            fp_decode_tokens = decode_tokens, fp_prefill_count = length (ip_prefill_items plan),
            fp_decode_count = length (ip_decode_items plan), fp_scheduler_cpu_ns = 0,
            fp_expected_output_slots = output_slots, fp_items = pw_items w\<rparr>\<rparr>)) (\<lambda>_.
         ret plan)))))))"

definition plan_iteration :: "host_env \<Rightarrow> u64 \<Rightarrow> planning_output sched_cmd" where
  "plan_iteration env now_ns = withM (\<lambda>s.
     bindM (tryM (ensure_completion_backlog_empty s)) (\<lambda>_.
     bindM (observe_now now_ns) (\<lambda>_.
     bindM (case s_inflight s of None \<Rightarrow> ret ()
            | Some inflight \<Rightarrow> throwM (IterationInFlight (fp_iteration_id inflight))) (\<lambda>_.
     bindM (tryM (ensure_completion_capacity s (length (s_waiting s)))) (\<lambda>_.
     bindM (reserve env ''admission timeout completions'' (length (s_waiting s))) (\<lambda>_.
     bindM (expire_waiting now_ns) (\<lambda>_.
     bindM (admit_waiting env now_ns) (\<lambda>_.
     bindM adopt_cached_prefixes (\<lambda>_.
     withM (\<lambda>s.
     bindM (tryM (select_candidates env s now_ns)) (\<lambda>(candidates, used_aging_override, plateau_deferred).
     if candidates = []
     then bindM (modM (\<lambda>s. s\<lparr>s_aging_override_last_iteration := False\<rparr>)) (\<lambda>_.
          bindM drain_completion_outbox (\<lambda>completions.
          bindM (refresh_metric_gauges env) (\<lambda>_.
          ret \<lparr>po_plan = None, po_completions = completions\<rparr>)))
     else
     bindM (tryM (peek_iteration_id s)) (\<lambda>iteration_id.
     bindM (prepare_plan env iteration_id candidates now_ns) (\<lambda>plan.
     bindM advance_iteration_id (\<lambda>_.
     bindM (modM (\<lambda>s. s\<lparr>s_aging_override_last_iteration := used_aging_override,
       s_requests := map (\<lambda>r. if rq_request_id r \<in> set plateau_deferred
                              then r\<lparr>rq_plateau_deferred := True\<rparr> else r) (s_requests s),
       s_inflight := map_option (\<lambda>i. i\<lparr>fp_scheduler_cpu_ns := elapsed_ns env\<rparr>) (s_inflight s)\<rparr>)) (\<lambda>_.
     bindM drain_completion_outbox (\<lambda>completions.
     bindM (refresh_metric_gauges env) (\<lambda>_.
     ret \<lparr>po_plan = Some plan, po_completions = completions\<rparr>)))))))))))))))))"

subsection \<open>Completing an iteration\<close>

definition validate_iteration_result :: "scheduler \<Rightarrow> iteration_result \<Rightarrow> unit scheduler_result" where
  "validate_iteration_result s result =
     bindE (ok_or (s_inflight s) NoIterationInFlight) (\<lambda>inflight.
     bindE (failE (ir_iteration_id result \<noteq> fp_iteration_id inflight)
       (UnexpectedIteration (fp_iteration_id inflight) (ir_iteration_id result))) (\<lambda>_.
     bindE (failE (length (ir_outputs result) \<noteq> length (fp_expected_output_slots inflight))
       (InvalidIterationResult ''outputs'' ''runtime must return exactly every planned output slot'')) (\<lambda>_.
     bindE (forE (fp_expected_output_slots inflight) (\<lambda>expected.
       failE (\<not> list_ex (\<lambda>out. io_slot out = expected) (ir_outputs result))
         (InvalidIterationResult ''outputs'' ''runtime omitted a planned output slot''))) (\<lambda>_.
     forE (ir_outputs result) (\<lambda>out.
       failE (io_slot out \<notin> set (fp_expected_output_slots inflight))
         (InvalidIterationResult ''outputs'' ''runtime returned an unplanned output slot''))))))"

definition validate_inflight_reservations :: "scheduler \<Rightarrow> unit scheduler_result" where
  "validate_inflight_reservations s =
     bindE (ok_or (s_inflight s) NoIterationInFlight) (\<lambda>inflight.
     forE (fp_items inflight) (\<lambda>item.
       bindE (ok_or (record_index s (fi_request_id item)) (UnknownRequest (fi_request_id item))) (\<lambda>index.
       bindE (ok_or (rq_sequence (s_requests s ! index))
         (InvalidPlan ''sequence'' ''in-flight reservation owner has no KV sequence'')) (\<lambda>q.
       bindE (map_err PagedKv (reserved_block_table q (fi_reservation item))) (\<lambda>table.
       failE (bt_logical_length table \<noteq> fi_target_logical_length item)
         (InvalidPlan ''target_logical_length''
           ''reserved KV table differs from the in-flight work target''))))))"

text \<open>The state a settled item would move its request to.\<close>

definition settled_target :: "request_record \<Rightarrow> iteration_output option \<Rightarrow> request_state scheduler_result" where
  "settled_target r out =
     (if rq_cancellation_deferred r then Inr Cancelled
      else case out of
        None \<Rightarrow> Inr Prefilling
      | Some v \<Rightarrow>
          bindE (ok_or (checked_add (length (rq_generated_token_ids r)) 1)
            (ArithmeticOverflow ''generated token count'')) (\<lambda>generated_tokens.
          bindE (failE (rd_max_new_tokens (rq_descriptor r) < generated_tokens)
            (InvalidPlan ''generated token count'' ''runtime output exceeds the request generation bound''))
            (\<lambda>_.
          Inr (if io_stop v \<or> generated_tokens = rd_max_new_tokens (rq_descriptor r)
               then Finished else Decoding))))"

definition prevalidate_item ::
  "scheduler \<Rightarrow> iteration_result \<Rightarrow> inflight_item \<Rightarrow> settled_inflight_item scheduler_result" where
  "prevalidate_item s result item =
     bindE (failE (sr_target_logical_length (fi_reservation item) \<noteq> fi_target_logical_length item)
       (InvalidPlan ''target_logical_length''
         ''reservation target differs from the in-flight work target'')) (\<lambda>_.
     bindE (ok_or (record_index s (fi_request_id item)) (UnknownRequest (fi_request_id item))) (\<lambda>index.
     let r = s_requests s ! index in
     bindE (ok_or (rq_sequence r)
       (InvalidPlan ''sequence'' ''in-flight request has no KV sequence'')) (\<lambda>q.
     bindE (map_err PagedKv (reserved_block_table q (fi_reservation item))) (\<lambda>table.
     bindE (failE (bt_logical_length table \<noteq> fi_target_logical_length item)
       (InvalidPlan ''target_logical_length''
         ''reserved KV table differs from the in-flight work target'')) (\<lambda>_.
     bindE (case fi_output_slot item of
              None \<Rightarrow> Inr None
            | Some slot \<Rightarrow>
                bindE (ok_or (find (\<lambda>out. io_slot out = slot) (ir_outputs result))
                  (InvalidIterationResult ''outputs'' ''validated output slot disappeared'')) (\<lambda>out.
                Inr (Some out))) (\<lambda>out.
     bindE (settled_target r out) (\<lambda>target_state.
     bindE (failE (\<not> valid_transition (rq_state r) target_state)
       (InvalidStateTransition (fi_request_id item) (state_name (rq_state r)) (state_name target_state)))
       (\<lambda>_.
     Inr \<lparr>si_request_id = fi_request_id item, si_kind = fi_kind item,
          si_target_logical_length = fi_target_logical_length item, si_output = out\<rparr>))))))))"

fun mapE :: "('a \<Rightarrow> 'e + 'b) \<Rightarrow> 'a list \<Rightarrow> 'e + 'b list" where
  "mapE f [] = Inr []"
| "mapE f (x # xs) = bindE (f x) (\<lambda>y. bindE (mapE f xs) (\<lambda>ys. Inr (y # ys)))"

definition prevalidate_completion_publication ::
  "host_env \<Rightarrow> scheduler \<Rightarrow> iteration_result \<Rightarrow> settled_inflight_item list scheduler_result" where
  "prevalidate_completion_publication env s result =
     bindE (ok_or (s_inflight s) NoIterationInFlight) (\<lambda>inflight.
     bindE (reserve_host env ''settled iteration metadata'' (length (fp_items inflight))) (\<lambda>_.
     mapE (prevalidate_item s result) (fp_items inflight)))"

definition commit_reservation :: "inflight_item \<Rightarrow> unit sched_cmd" where
  "commit_reservation item = withM (\<lambda>s.
     bindM (tryM (ok_or (record_index s (fi_request_id item)) (UnknownRequest (fi_request_id item)))) (\<lambda>index.
     bindM (tryM (ok_or (rq_sequence (s_requests s ! index))
       (InvalidPlan ''sequence'' ''in-flight request has no KV sequence''))) (\<lambda>q.
     bindM (on_sequence index q (seq_commit (fi_reservation item))) (\<lambda>commit.
     failIf (rc_logical_length commit \<noteq> fi_target_logical_length item)
       (InvalidPlan ''target_logical_length''
         ''paged-KV commit published a different logical length'')))))"

text \<open>\<open>publish_committed_item\<close> appends to the caller's updates, and what it appended stays there when
  it fails later: the updates are part of the state.\<close>

type_synonym 'a publish_cmd = "(scheduler \<times> iteration_updates, scheduler_error, 'a) cmd"

definition on_sched :: "'a sched_cmd \<Rightarrow> 'a publish_cmd" where
  "on_sched m = zoomM fst (\<lambda>s (_, u). (s, u)) id m"

definition push_token :: "token_event \<Rightarrow> unit publish_cmd" where
  "push_token event = modM (\<lambda>(s, u). (s, u\<lparr>iu_token_events := iu_token_events u @ [event]\<rparr>))"

definition publish_output :: "request_id \<Rightarrow> nat \<Rightarrow> iteration_output \<Rightarrow> u64 \<Rightarrow> unit publish_cmd" where
  "publish_output request_id index out now_ns = withM (\<lambda>(s, u).
     let generated_index = length (rq_generated_token_ids (s_requests s ! index)) in
     bindM (on_sched (mod_request index (\<lambda>r. r\<lparr>rq_generated_token_ids :=
       rq_generated_token_ids r @ [io_token_id out]\<rparr>))) (\<lambda>_.
     bindM (push_token \<lparr>te_request_id = request_id, te_token_id = io_token_id out,
       te_generated_index = generated_index\<rparr>) (\<lambda>_.
     withM (\<lambda>(s, u).
     let r = s_requests s ! index;
         reached_length = (length (rq_generated_token_ids r) = rd_max_new_tokens (rq_descriptor r)) in
     if io_stop out \<or> reached_length
     then on_sched (finish_live_request request_id
            (if io_stop out then ReasonStop else ReasonLength) now_ns)
     else on_sched (mod_request index (\<lambda>r. r\<lparr>rq_state := Decoding, rq_ready_since_ns := now_ns\<rparr>))))))"

definition publish_committed_item :: "settled_inflight_item \<Rightarrow> u64 \<Rightarrow> unit publish_cmd" where
  "publish_committed_item item now_ns = withM (\<lambda>(s, u).
     bindM (tryM (ok_or (record_index s (si_request_id item)) (UnknownRequest (si_request_id item)))) (\<lambda>index.
     if rq_cancellation_deferred (s_requests s ! index)
     then on_sched (finish_live_request (si_request_id item) ReasonCancelled now_ns)
     else
     bindM (if si_kind item = Prefill
            then bindM (on_sched (mod_request index
                   (\<lambda>r. r\<lparr>rq_prefill_cursor := si_target_logical_length item\<rparr>))) (\<lambda>_.
                 on_sched (publish_prompt_blocks index))
            else ret ()) (\<lambda>_.
     case si_output item of
       None \<Rightarrow> on_sched (mod_request index
         (\<lambda>r. r\<lparr>rq_state := Prefilling, rq_ready_since_ns := now_ns\<rparr>))
     | Some out \<Rightarrow> publish_output (si_request_id item) index out now_ns)))"

definition settlement_failure :: "request_id \<Rightarrow> scheduler_error \<Rightarrow> request_settlement_failure" where
  "settlement_failure request_id error = \<lparr>rf_request_id = request_id, rf_error = error\<rparr>"

fun commit_items ::
  "(inflight_item \<times> settled_inflight_item) list \<Rightarrow> u64 \<Rightarrow> settled_inflight_item list \<Rightarrow>
     request_settlement_failure list \<Rightarrow> (settled_inflight_item list \<times> request_settlement_failure list) sched_cmd" where
  "commit_items [] now_ns committed failures = ret (committed, failures)"
| "commit_items ((item, settled) # rest) now_ns committed failures =
     catchM (commit_reservation item) (\<lambda>r.
       case r of
         Inr _ \<Rightarrow> commit_items rest now_ns (committed @ [settled]) failures
       | Inl error \<Rightarrow>
           catchM (force_reclaim_live_request (fi_request_id item) now_ns) (\<lambda>reclaimed.
           commit_items rest now_ns committed (failures @ [settlement_failure (fi_request_id item)
             (case reclaimed of Inl inner \<Rightarrow> inner | Inr _ \<Rightarrow> error)])))"

definition push_failure :: "request_settlement_failure \<Rightarrow> unit publish_cmd" where
  "push_failure f = modM (\<lambda>(s, u). (s, u\<lparr>iu_settlement_failures := iu_settlement_failures u @ [f]\<rparr>))"

text \<open>An operation on a request whose failure is contained and reported.\<close>

definition containing :: "request_id \<Rightarrow> u64 \<Rightarrow> unit publish_cmd \<Rightarrow> unit publish_cmd" where
  "containing request_id now_ns m =
     catchM m (\<lambda>r.
       case r of
         Inr _ \<Rightarrow> ret ()
       | Inl error \<Rightarrow>
           bindM (on_sched (contain_live_request_failure request_id now_ns error)) (\<lambda>error.
           push_failure (settlement_failure request_id error)))"

definition drain_into_updates :: "unit publish_cmd" where
  "drain_into_updates =
     bindM (on_sched drain_completion_outbox) (\<lambda>completions.
     modM (\<lambda>(s, u). (s, u\<lparr>iu_completions := iu_completions u @ completions\<rparr>)))"

definition finish_aborted :: "host_env \<Rightarrow> unit publish_cmd" where
  "finish_aborted env =
     bindM (on_sched (observe_metric record_aborted_iteration)) (\<lambda>_.
     on_sched (refresh_metric_gauges env))"

text \<open>What follows the taking of the in-flight plan.\<close>

definition settle_completed ::
  "host_env \<Rightarrow> iteration_result \<Rightarrow> inflight_plan \<Rightarrow> usize \<Rightarrow> settled_inflight_item list \<Rightarrow> u64 \<Rightarrow> unit publish_cmd" where
  "settle_completed env result inflight batch settled_items now_ns =
     bindM (on_sched (commit_items (zip (fp_items inflight) settled_items) now_ns [] [])) (\<lambda>(committed, failures).
     bindM (modM (\<lambda>(s, u). (s, u\<lparr>iu_settlement_failures := failures\<rparr>))) (\<lambda>_.
     if failures \<noteq> []
     then bindM (forM committed (\<lambda>item. containing (si_request_id item) now_ns
              (on_sched (finish_live_request (si_request_id item) ReasonExecutorFailure now_ns)))) (\<lambda>_.
          bindM drain_into_updates (\<lambda>_.
          finish_aborted env))
     else
     bindM (forM committed (\<lambda>item. containing (si_request_id item) now_ns
              (publish_committed_item item now_ns))) (\<lambda>_.
     bindM drain_into_updates (\<lambda>_.
     withM (\<lambda>(s, u).
     if iu_settlement_failures u \<noteq> [] then finish_aborted env
     else
       let sample = \<lparr>ms_batch_size = batch, ms_prefill_tokens = fp_prefill_tokens inflight,
             ms_decode_tokens = fp_decode_tokens inflight,
             ms_scheduler_cpu_ns = saturating_add (fp_scheduler_cpu_ns inflight) (elapsed_ns env),
             ms_gpu_execution_ns = ir_gpu_execution_ns result,
             ms_gpu_idle_gap_ns = ir_gpu_idle_gap_ns result\<rparr> in
       bindM (on_sched (observe_metric (record_iteration sample))) (\<lambda>_.
       bindM (modM (\<lambda>(s, u). (s, u\<lparr>iu_iteration_metric := Some sample\<rparr>))) (\<lambda>_.
       on_sched (refresh_metric_gauges env))))))))"

text \<open>Runs a command on fresh updates and returns them.\<close>

definition with_updates :: "unit publish_cmd \<Rightarrow> iteration_updates sched_cmd" where
  "with_updates m = (\<lambda>s. case m (s, updates_empty) of
     (Inl error, (t, _)) \<Rightarrow> (Inl error, t)
   | (Inr _, (t, u)) \<Rightarrow> (Inr u, t))"

definition complete_iteration :: "host_env \<Rightarrow> iteration_result \<Rightarrow> u64 \<Rightarrow> iteration_updates sched_cmd" where
  "complete_iteration env result now_ns = withM (\<lambda>s.
     bindM (tryM (ensure_completion_backlog_empty s)) (\<lambda>_.
     bindM (tryM (validate_now s now_ns)) (\<lambda>_.
     bindM (tryM (validate_iteration_result s result)) (\<lambda>_.
     bindM (tryM (ok_or (s_inflight s) NoIterationInFlight)) (\<lambda>inflight.
     bindM (tryM (ok_or (checked_add (fp_prefill_count inflight) (fp_decode_count inflight))
       (ArithmeticOverflow ''completed iteration batch size''))) (\<lambda>batch.
     let completion_capacity = length (fp_items inflight) in
     bindM (reserve env ''iteration token events'' (length (fp_expected_output_slots inflight))) (\<lambda>_.
     bindM (reserve env ''iteration completions'' completion_capacity) (\<lambda>_.
     bindM (reserve env ''iteration settlement failures'' completion_capacity) (\<lambda>_.
     bindM (tryM (ensure_completion_capacity s completion_capacity)) (\<lambda>_.
     bindM (tryM (prevalidate_completion_publication env s result)) (\<lambda>settled_items.
     bindM (reserve env ''committed iteration items'' completion_capacity) (\<lambda>_.
     bindM (modM (\<lambda>s. s\<lparr>s_last_now_ns := Some now_ns, s_inflight := None\<rparr>)) (\<lambda>_.
     with_updates (settle_completed env result inflight batch settled_items now_ns))))))))))))))"

subsection \<open>Aborting an iteration\<close>

definition abort_item :: "execution_abort \<Rightarrow> u64 \<Rightarrow> inflight_item \<Rightarrow> unit publish_cmd" where
  "abort_item abort now_ns item =
     (let request_id = fi_request_id item in
      catchM (on_sched (settle_reservation request_id (fi_reservation item)
        (case abort of NotDispatched \<Rightarrow> SettleRollback
                     | DeviceQuiescedMutationUnknown \<Rightarrow> SettlePoison))) (\<lambda>r.
        case r of
          Inl error \<Rightarrow> push_failure (settlement_failure request_id error)
        | Inr _ \<Rightarrow> withM (\<lambda>(s, u).
            case record_index s request_id of
              None \<Rightarrow> push_failure (settlement_failure request_id (UnknownRequest request_id))
            | Some index \<Rightarrow>
                containing request_id now_ns
                  (case abort of
                     NotDispatched \<Rightarrow>
                       if rq_cancellation_deferred (s_requests s ! index)
                       then on_sched (finish_live_request request_id ReasonCancelled now_ns)
                       else on_sched (restore_request item index)
                   | DeviceQuiescedMutationUnknown \<Rightarrow>
                       on_sched (finish_live_request request_id ReasonExecutorFailure now_ns)))))"

definition abort_iteration :: "host_env \<Rightarrow> iteration_id \<Rightarrow> execution_abort \<Rightarrow> u64 \<Rightarrow> iteration_updates sched_cmd" where
  "abort_iteration env iteration_id abort now_ns = withM (\<lambda>s.
     bindM (tryM (ensure_completion_backlog_empty s)) (\<lambda>_.
     bindM (tryM (validate_now s now_ns)) (\<lambda>_.
     bindM (tryM (ok_or (s_inflight s) NoIterationInFlight)) (\<lambda>inflight.
     bindM (failIf (iteration_id \<noteq> fp_iteration_id inflight)
       (UnexpectedIteration (fp_iteration_id inflight) iteration_id)) (\<lambda>_.
     let completion_capacity = length (fp_items inflight) in
     bindM (tryM (validate_inflight_reservations s)) (\<lambda>_.
     bindM (reserve env ''aborted iteration completions'' completion_capacity) (\<lambda>_.
     bindM (reserve env ''aborted iteration settlement failures'' completion_capacity) (\<lambda>_.
     bindM (tryM (ensure_completion_capacity s completion_capacity)) (\<lambda>_.
     bindM (modM (\<lambda>s. s\<lparr>s_last_now_ns := Some now_ns, s_inflight := None\<rparr>)) (\<lambda>_.
     bindM (if abort = DeviceQuiescedMutationUnknown then drop_prefix_cache_entries else ret ()) (\<lambda>_.
     with_updates
       (bindM (forM (fp_items inflight) (abort_item abort now_ns)) (\<lambda>_.
        bindM drain_into_updates (\<lambda>_.
        finish_aborted env))))))))))))))"

subsection \<open>Shutdown and close\<close>

text \<open>Every round of the loop removes the last request.\<close>

fun shutdown_loop :: "nat \<Rightarrow> u64 \<Rightarrow> unit sched_cmd" where
  "shutdown_loop fuel now_ns = withM (\<lambda>s.
     if s_requests s = [] then ret ()
     else case fuel of
       0 \<Rightarrow> throwM scheduler_panic
     | Suc fuel' \<Rightarrow>
         bindM (finish_live_request (rq_request_id (last (s_requests s))) ReasonCancelled now_ns) (\<lambda>_.
         bindM (observe_metric record_cancellation) (\<lambda>_.
         shutdown_loop fuel' now_ns)))"

declare shutdown_loop.simps [simp del]

definition shutdown :: "host_env \<Rightarrow> u64 \<Rightarrow> request_completion list sched_cmd" where
  "shutdown env now_ns =
     bindM (modM begin_shutdown) (\<lambda>_.
     withM (\<lambda>s.
     bindM (tryM (ensure_completion_backlog_empty s)) (\<lambda>_.
     bindM (observe_now now_ns) (\<lambda>_.
     bindM (case s_inflight s of None \<Rightarrow> ret ()
            | Some inflight \<Rightarrow> throwM (IterationInFlight (fp_iteration_id inflight))) (\<lambda>_.
     bindM (reserve env ''shutdown completions'' (length (s_requests s))) (\<lambda>_.
     bindM (tryM (ensure_completion_capacity s (length (s_requests s)))) (\<lambda>_.
     bindM (shutdown_loop (length (s_requests s)) now_ns) (\<lambda>_.
     bindM drop_prefix_cache_entries (\<lambda>_.
     bindM drain_completion_outbox (\<lambda>completions.
     bindM (refresh_metric_gauges env) (\<lambda>_.
     ret completions)))))))))))"

text \<open>\<open>close\<close> consumes the scheduler; a failure hands it back with the completions that were taken out
  pushed in front again. The error carries the settlement failures.\<close>

type_synonym 'a close_cmd = "(scheduler, scheduler_error \<times> request_settlement_failure list, 'a) cmd"

definition close_failure ::
  "scheduler_error \<Rightarrow> request_completion list \<Rightarrow> request_settlement_failure list \<Rightarrow> 'a close_cmd" where
  "close_failure error recovered settlement_failures =
     bindM (modM (\<lambda>s. s\<lparr>s_completion_outbox := recovered @ s_completion_outbox s\<rparr>)) (\<lambda>_.
     throwM (error, settlement_failures))"

definition orClose :: "'a sched_cmd \<Rightarrow> (scheduler_error \<Rightarrow> 'b close_cmd) \<Rightarrow> ('a \<Rightarrow> 'b close_cmd) \<Rightarrow> 'b close_cmd" where
  "orClose m fail f = catchM m (\<lambda>r. case r of Inl error \<Rightarrow> fail error | Inr x \<Rightarrow> f x)"

definition settle_inflight ::
  "host_env \<Rightarrow> u64 \<Rightarrow> execution_abort option \<Rightarrow> request_completion list \<Rightarrow>
     (request_completion list \<times> request_settlement_failure list) close_cmd" where
  "settle_inflight env now_ns inflight_abort completions = withM (\<lambda>s.
     case s_inflight s of
       None \<Rightarrow> ret (completions, [])
     | Some inflight \<Rightarrow>
         (case inflight_abort of
            None \<Rightarrow> close_failure (CloseDispositionRequired (fp_iteration_id inflight)) completions []
          | Some abort \<Rightarrow>
              orClose (abort_iteration env (fp_iteration_id inflight) abort now_ns)
                (\<lambda>error. close_failure error completions [])
                (\<lambda>updates. ret (completions @ iu_completions updates, iu_settlement_failures updates))))"

definition quiescent :: "scheduler \<Rightarrow> bool" where
  "quiescent s \<longleftrightarrow>
     kp_allocated_block_count (s_pool s) = 0 \<and> s_active_sequences s = 0 \<and> s_promised_kv_blocks s = 0 \<and>
     s_waiting_prompt_tokens s = 0 \<and> s_requests s = [] \<and> s_waiting s = [] \<and>
     s_completion_outbox s = [] \<and> s_inflight s = None"

definition close :: "host_env \<Rightarrow> u64 \<Rightarrow> execution_abort option \<Rightarrow> scheduler_close_output close_cmd" where
  "close env now_ns inflight_abort =
     bindM (modM begin_shutdown) (\<lambda>_.
     withM (\<lambda>s.
     orClose (tryM (validate_now s now_ns)) (\<lambda>error. throwM (error, [])) (\<lambda>_.
     orClose (tryM (ok_or (checked_add (length (s_completion_outbox s)) (length (s_requests s)))
         (ArithmeticOverflow ''close completion capacity'')))
       (\<lambda>error. throwM (error, [])) (\<lambda>completion_capacity.
     orClose (reserve env ''close completions'' completion_capacity) (\<lambda>error. throwM (error, [])) (\<lambda>_.
     orClose drain_completion_outbox (\<lambda>error. throwM (error, [])) (\<lambda>completions.
     bindM (modM (\<lambda>s. s\<lparr>s_last_now_ns := Some now_ns\<rparr>)) (\<lambda>_.
     bindM (settle_inflight env now_ns inflight_abort completions) (\<lambda>(completions, settlement_failures).
     orClose (shutdown env now_ns)
       (\<lambda>error. close_failure error completions settlement_failures) (\<lambda>remaining.
     let completions = completions @ remaining in
     withM (\<lambda>s.
     if \<not> quiescent s
     then close_failure (InvalidPlan ''close cleanup''
            ''successful shutdown left live ownership or pending notifications'')
            completions settlement_failures
     else orClose (tryM (sched_metrics_snapshot env s))
       (\<lambda>error. close_failure error completions settlement_failures) (\<lambda>final_metrics.
     ret \<lparr>co_completions = completions, co_settlement_failures = settlement_failures,
          co_final_metrics = final_metrics\<rparr>)))))))))))"

end
