(* ===== verification/Prefix_Cache_Inv.thy ===== *)
theory Prefix_Cache_Inv
  imports Prefix_Cache "HOL-Library.Multiset"
begin

text \<open>
  The invariant of the prefix cache and the contract of each of its operations. The recency links
  are abstracted to a list of entry identifiers, oldest first; the parent links to the path from an
  entry to a root. With the invariant no traversal runs out of fuel and no operation meets a vacant
  entry, so the only errors left are those of the arguments.
\<close>

subsection \<open>Doubly linked lists in the entry array\<close>

definition entry_map :: "prefix_cache \<Rightarrow> entry_id \<Rightarrow> cache_entry option" where
  "entry_map c i = (if i < length (pc_entries c) then pc_entries c ! i else None)"

abbreviation hd_or :: "'a list \<Rightarrow> 'a \<Rightarrow> 'a" where
  "hd_or xs d \<equiv> (case xs of [] \<Rightarrow> d | x # _ \<Rightarrow> x)"

abbreviation last_or :: "'a list \<Rightarrow> 'a \<Rightarrow> 'a" where
  "last_or xs d \<equiv> (if xs = [] then d else last xs)"

text \<open>\<open>dll E p xs n\<close>: the entries \<open>xs\<close> are linked in this order, the first one back to \<open>p\<close> and the
  last one on to \<open>n\<close>.\<close>

fun dll :: "(entry_id \<Rightarrow> cache_entry option) \<Rightarrow> entry_id \<Rightarrow> entry_id list \<Rightarrow> entry_id \<Rightarrow> bool" where
  "dll E p [] n = True"
| "dll E p (x # xs) n =
     ((\<exists>e. E x = Some e \<and> ce_older e = p \<and> ce_newer e = hd_or xs n) \<and> dll E x xs n)"

lemma dll_append:
  "dll E p (xs @ ys) n \<longleftrightarrow> dll E p xs (hd_or ys n) \<and> dll E (last_or xs p) ys n"
proof (induction xs arbitrary: p)
  case (Cons x xs)
  then show ?case by (cases xs) auto
qed simp

lemma dll_frame [simp]: "i \<notin> set xs \<Longrightarrow> dll (E(i := v)) p xs n = dll E p xs n"
  by (induction xs arbitrary: p) auto

lemma dll_live: "dll E p xs n \<Longrightarrow> x \<in> set xs \<Longrightarrow> \<exists>e. E x = Some e"
  by (induction xs arbitrary: p) auto

lemma dll_set_newer:
  assumes "dll E p (xs @ [x]) n" and "E x = Some e" and "x \<notin> set xs"
  shows "dll (E(x := Some (e\<lparr>ce_newer := m\<rparr>))) p (xs @ [x]) m"
  using assms by (simp add: dll_append)

lemma dll_set_older:
  assumes "dll E p (x # xs) n" and "E x = Some e" and "x \<notin> set xs"
  shows "dll (E(x := Some (e\<lparr>ce_older := q\<rparr>))) q (x # xs) n"
  using assms by auto

definition links :: "prefix_cache \<Rightarrow> entry_id list \<Rightarrow> bool" where
  "links c xs \<longleftrightarrow> dll (entry_map c) NO_ENTRY xs NO_ENTRY \<and> distinct xs \<and>
     NO_ENTRY \<notin> set xs \<and> pc_oldest c = hd_or xs NO_ENTRY \<and> pc_newest c = last_or xs NO_ENTRY"

text \<open>What relinking leaves alone: everything but the links.\<close>

definition body :: "cache_entry \<Rightarrow> cache_key \<times> block_id \<times> u32" where
  "body e = (ce_key e, ce_block e, ce_children e)"

definition relinked :: "prefix_cache \<Rightarrow> prefix_cache \<Rightarrow> bool" where
  "relinked c c' \<longleftrightarrow> (\<forall>i. map_option body (entry_map c' i) = map_option body (entry_map c i)) \<and>
     length (pc_entries c') = length (pc_entries c) \<and> pc_capacity c' = pc_capacity c \<and>
     pc_free_entries c' = pc_free_entries c \<and> pc_index c' = pc_index c \<and> pc_length c' = pc_length c"

lemma relinked_refl [simp]: "relinked c c"
  by (simp add: relinked_def)

lemma relinked_trans: "relinked c d \<Longrightarrow> relinked d e \<Longrightarrow> relinked c e"
  by (simp add: relinked_def)

lemma relinked_entry:
  assumes "relinked c c'" and "entry_map c i = Some e"
  obtains e' where "entry_map c' i = Some e'" and "body e' = body e"
proof -
  have "map_option body (entry_map c' i) = Some (body e)" using assms by (simp add: relinked_def)
  then show ?thesis using that by (cases "entry_map c' i") auto
qed

lemma relinked_sym: "relinked c c' \<Longrightarrow> relinked c' c"
  by (simp add: relinked_def)

definition set_entry :: "entry_id \<Rightarrow> cache_entry option \<Rightarrow> prefix_cache \<Rightarrow> prefix_cache" where
  "set_entry i v c = c\<lparr>pc_entries := (pc_entries c)[i := v]\<rparr>"

lemma entry_map_set [simp]:
  "i < length (pc_entries c) \<Longrightarrow> entry_map (set_entry i v c) = (entry_map c)(i := v)"
  by (rule ext) (auto simp: entry_map_def set_entry_def)

lemma set_entry_fields [simp]:
  "length (pc_entries (set_entry i v c)) = length (pc_entries c)"
  "pc_capacity (set_entry i v c) = pc_capacity c" "pc_free_entries (set_entry i v c) = pc_free_entries c"
  "pc_index (set_entry i v c) = pc_index c" "pc_length (set_entry i v c) = pc_length c"
  "pc_oldest (set_entry i v c) = pc_oldest c" "pc_newest (set_entry i v c) = pc_newest c"
  by (simp_all add: set_entry_def)

lemma entry_map_other_fields [simp]:
  "entry_map (c\<lparr>pc_oldest := a\<rparr>) = entry_map c" "entry_map (c\<lparr>pc_newest := a\<rparr>) = entry_map c"
  "entry_map (c\<lparr>pc_free_entries := fs\<rparr>) = entry_map c" "entry_map (c\<lparr>pc_index := m\<rparr>) = entry_map c"
  "entry_map (c\<lparr>pc_length := n\<rparr>) = entry_map c" "entry_map (c\<lparr>pc_capacity := n\<rparr>) = entry_map c"
  by (rule ext; simp add: entry_map_def)+

lemma entry_in_range: "entry_map c i = Some e \<Longrightarrow> i < length (pc_entries c)"
  by (simp add: entry_map_def split: if_splits)

lemma cache_entry_at_eq: "cache_entry_at c i = ok_or (entry_map c i) (InvalidPlan ''prefix cache'' ''entry is vacant'')"
  by (simp add: cache_entry_at_def entry_map_def)

lemma update_entry_eq:
  "entry_map c i = Some e \<Longrightarrow> update_entry i f c = (Inr (), set_entry i (Some (f e)) c)"
  by (simp add: update_entry_def cmd_defs cache_entry_at_eq set_entry_def)

lemma relinked_set:
  "entry_map c i = Some e \<Longrightarrow> body e' = body e \<Longrightarrow> relinked c (set_entry i (Some e') c)"
  by (auto simp: relinked_def entry_in_range)

subsection \<open>Relinking\<close>

text \<open>The two halves of \<open>unlink\<close>: the older neighbour, or the head, learns the new successor, and the
  newer neighbour, or the tail, the new predecessor.\<close>

definition set_successor :: "entry_id \<Rightarrow> entry_id \<Rightarrow> unit cache_cmd" where
  "set_successor older newer =
     (if older = NO_ENTRY then modM (\<lambda>c. c\<lparr>pc_oldest := newer\<rparr>)
      else update_entry older (\<lambda>e. e\<lparr>ce_newer := newer\<rparr>))"

definition set_predecessor :: "entry_id \<Rightarrow> entry_id \<Rightarrow> unit cache_cmd" where
  "set_predecessor newer older =
     (if newer = NO_ENTRY then modM (\<lambda>c. c\<lparr>pc_newest := older\<rparr>)
      else update_entry newer (\<lambda>e. e\<lparr>ce_older := older\<rparr>))"

lemma unlink_alt:
  "unlink i = withM (\<lambda>c.
     bindM (tryM (cache_entry_at c i)) (\<lambda>entry.
     bindM (set_successor (ce_older entry) (ce_newer entry)) (\<lambda>_.
     set_predecessor (ce_newer entry) (ce_older entry))))"
  by (simp add: unlink_def set_successor_def set_predecessor_def Let_def)

lemma wp_set_successor:
  assumes "dll (entry_map c) NO_ENTRY xs old" and "distinct xs" and "NO_ENTRY \<notin> set xs"
    and "pc_oldest c = hd_or xs old"
  shows "wp (set_successor (last_or xs NO_ENTRY) n)
     (\<lambda>_ c'. dll (entry_map c') NO_ENTRY xs n \<and> pc_oldest c' = hd_or xs n \<and> pc_newest c' = pc_newest c \<and>
        (\<forall>j. j \<notin> set xs \<longrightarrow> entry_map c' j = entry_map c j) \<and> relinked c c') (\<lambda>_ _. False) c"
proof (cases xs rule: rev_cases)
  case Nil
  then show ?thesis by (auto simp: set_successor_def wp_simps relinked_def)
next
  case (snoc zs z)
  then obtain e where e: "entry_map c z = Some e" using dll_live [OF assms(1), of z] by auto
  have z: "z \<noteq> NO_ENTRY" "z \<notin> set zs" using assms snoc by auto
  have "dll ((entry_map c)(z := Some (e\<lparr>ce_newer := n\<rparr>))) NO_ENTRY (zs @ [z]) n"
    using assms(1) snoc e z by (intro dll_set_newer) auto
  moreover have "relinked c (set_entry z (Some (e\<lparr>ce_newer := n\<rparr>)) c)"
    using e by (rule relinked_set) (simp add: body_def)
  ultimately show ?thesis using snoc e z assms(4)
    by (auto simp: set_successor_def wp_def update_entry_eq entry_in_range split: list.splits)
qed

lemma wp_set_predecessor:
  assumes "dll (entry_map c) old ys NO_ENTRY" and "distinct ys" and "NO_ENTRY \<notin> set ys"
    and "pc_newest c = last_or ys old"
  shows "wp (set_predecessor (hd_or ys NO_ENTRY) p)
     (\<lambda>_ c'. dll (entry_map c') p ys NO_ENTRY \<and> pc_newest c' = last_or ys p \<and> pc_oldest c' = pc_oldest c \<and>
        (\<forall>j. j \<notin> set ys \<longrightarrow> entry_map c' j = entry_map c j) \<and> relinked c c') (\<lambda>_ _. False) c"
proof (cases ys)
  case Nil
  then show ?thesis by (auto simp: set_predecessor_def wp_simps relinked_def)
next
  case (Cons z zs)
  then obtain e where e: "entry_map c z = Some e" using dll_live [OF assms(1), of z] by auto
  have z: "z \<noteq> NO_ENTRY" "z \<notin> set zs" using assms Cons by auto
  have "dll ((entry_map c)(z := Some (e\<lparr>ce_older := p\<rparr>))) p (z # zs) NO_ENTRY"
    using assms(1) Cons e z by (intro dll_set_older) auto
  moreover have "relinked c (set_entry z (Some (e\<lparr>ce_older := p\<rparr>)) c)"
    using e by (rule relinked_set) (simp add: body_def)
  ultimately show ?thesis using Cons e z assms(4)
    by (auto simp: set_predecessor_def wp_def update_entry_eq entry_in_range)
qed

lemma dll_cong: "(\<And>x. x \<in> set xs \<Longrightarrow> E x = E' x) \<Longrightarrow> dll E p xs n = dll E' p xs n"
  by (induction xs arbitrary: p) auto

lemma wp_unlink:
  assumes "links c (xs @ i # ys)"
  shows "wp (unlink i) (\<lambda>_ c'. links c' (xs @ ys) \<and> relinked c c') (\<lambda>_ _. False) c"
proof -
  have l: "dll (entry_map c) NO_ENTRY xs i" "dll (entry_map c) i ys NO_ENTRY"
    and d: "distinct (xs @ i # ys)" "NO_ENTRY \<notin> set (xs @ i # ys)"
    and ends: "pc_oldest c = hd_or xs i" "pc_newest c = last_or ys i"
    using assms by (auto simp: links_def dll_append split: list.splits)
  obtain e where e: "entry_map c i = Some e" "ce_older e = last_or xs NO_ENTRY" "ce_newer e = hd_or ys NO_ENTRY"
    using assms by (auto simp: links_def dll_append)
  have at: "cache_entry_at c i = Inr e" using e(1) by (simp add: cache_entry_at_eq)
  have one: "wp (set_successor (ce_older e) (ce_newer e))
     (\<lambda>_ c'. dll (entry_map c') NO_ENTRY xs (hd_or ys NO_ENTRY) \<and> pc_oldest c' = hd_or xs (hd_or ys NO_ENTRY) \<and>
        dll (entry_map c') i ys NO_ENTRY \<and> pc_newest c' = last_or ys i \<and> relinked c c') (\<lambda>_ _. False) c"
    unfolding e(2,3)
  proof (rule wp_weaken [OF wp_set_successor [OF l(1)]], goal_cases)
    case (4 _ c')
    then have "dll (entry_map c') i ys NO_ENTRY = dll (entry_map c) i ys NO_ENTRY"
      using d by (intro dll_cong) auto
    then show ?case using 4 l(2) ends by simp
  qed (use d ends in auto)
  show ?thesis unfolding unlink_alt wp_withM wp_bindM wp_tryM at sum.case
  proof (rule wp_weaken [OF one], goal_cases)
    case (1 _ c')
    show ?case
    proof (subst e(2), subst e(3), rule wp_weaken [OF wp_set_predecessor [of c' i]], goal_cases)
      case (5 _ c'')
      then have "dll (entry_map c'') NO_ENTRY xs (hd_or ys NO_ENTRY)"
        using d 1 dll_cong [of xs "entry_map c''" "entry_map c'"] by auto
      then have "links c'' (xs @ ys)"
        using 5 1 d by (auto simp: links_def dll_append split: list.splits)
      then show ?case using 5 1 relinked_trans by blast
    qed (use d 1 in auto)
  qed auto
qed

lemma wp_link_newest:
  assumes "links c xs" and "entry_map c i = Some e" and "i \<notin> set xs" and "i \<noteq> NO_ENTRY"
  shows "wp (link_newest i) (\<lambda>_ c'. links c' (xs @ [i]) \<and> relinked c c') (\<lambda>_ _. False) c"
proof -
  let ?c = "set_entry i (Some (e\<lparr>ce_older := pc_newest c, ce_newer := NO_ENTRY\<rparr>)) c"
  have r: "relinked c ?c" using assms(2) by (rule relinked_set) (simp add: body_def)
  have i: "i < length (pc_entries c)" by (rule entry_in_range [OF assms(2)])
  have l: "dll (entry_map ?c) NO_ENTRY xs NO_ENTRY" using assms i by (simp add: links_def)
  have x: "distinct xs" "NO_ENTRY \<notin> set xs" "pc_oldest ?c = hd_or xs NO_ENTRY" "pc_newest c = last_or xs NO_ENTRY"
    using assms(1) by (auto simp: links_def)
  have alt: "link_newest i = withM (\<lambda>c. bindM (update_entry i (\<lambda>e. e\<lparr>ce_older := pc_newest c, ce_newer := NO_ENTRY\<rparr>)) (\<lambda>_.
     bindM (set_successor (pc_newest c) i) (\<lambda>_. modM (\<lambda>c. c\<lparr>pc_newest := i\<rparr>))))"
    by (simp add: link_newest_def set_successor_def Let_def)
  have up: "wp (update_entry i (\<lambda>e. e\<lparr>ce_older := pc_newest c, ce_newer := NO_ENTRY\<rparr>)) Q E c = Q () ?c" for Q E
    using assms(2) by (simp add: wp_def update_entry_eq)
  show ?thesis unfolding alt wp_withM wp_bindM up wp_modM
  proof (rule wp_weaken [OF wp_set_successor [OF l x(1-3), folded x(4)]], goal_cases)
    case (1 _ c')
    have "entry_map c' i = entry_map ?c i" using 1 assms(3) by blast
    then have "links (c'\<lparr>pc_newest := i\<rparr>) (xs @ [i])"
      using 1 x i assms(3,4) by (auto simp: links_def dll_append split: list.splits)
    moreover have "relinked c' (c'\<lparr>pc_newest := i\<rparr>)" by (simp add: relinked_def)
    ultimately show ?case using r 1 relinked_trans by blast
  qed auto
qed

subsection \<open>The invariant\<close>

definition key_at :: "prefix_cache \<Rightarrow> entry_id \<Rightarrow> cache_key option" where
  "key_at c i = map_option ce_key (entry_map c i)"

definition block_at :: "prefix_cache \<Rightarrow> entry_id \<Rightarrow> block_id option" where
  "block_at c i = map_option ce_block (entry_map c i)"

definition kids_at :: "prefix_cache \<Rightarrow> entry_id \<Rightarrow> u32 option" where
  "kids_at c i = map_option ce_children (entry_map c i)"

definition children :: "(entry_id \<Rightarrow> cache_key option) \<Rightarrow> entry_id \<Rightarrow> entry_id set" where
  "children K i = {j. \<exists>k. K j = Some k \<and> ck_parent k = i}"

text \<open>Parents are listed, and following them ends.\<close>

definition forest :: "(entry_id \<Rightarrow> cache_key option) \<Rightarrow> bool" where
  "forest K \<longleftrightarrow> (\<forall>i k. K i = Some k \<longrightarrow> ck_parent k = ROOT \<or> K (ck_parent k) \<noteq> None) \<and>
     (\<exists>rank :: entry_id \<Rightarrow> nat. \<forall>i k. K i = Some k \<longrightarrow> ck_parent k \<noteq> ROOT \<longrightarrow> rank (ck_parent k) < rank i)"

definition cache_shape :: "prefix_cache \<Rightarrow> bool" where
  "cache_shape c \<longleftrightarrow>
     length (pc_entries c) = pc_capacity c \<and> pc_capacity c \<le> u32_max \<and>
     distinct (pc_free_entries c) \<and> set (pc_free_entries c) = {i. i < pc_capacity c \<and> key_at c i = None} \<and>
     (\<forall>k i. map_of (pc_index c) k = Some i \<longleftrightarrow> key_at c i = Some k) \<and>
     (\<forall>i k. key_at c i = Some k \<longrightarrow> length (ck_tokens k) = KV_BLOCK_SIZE) \<and>
     (\<forall>i n. kids_at c i = Some n \<longrightarrow> n = card (children (key_at c) i)) \<and>
     forest (key_at c) \<and> pc_length c = card (dom (key_at c))"

definition cache_inv :: "prefix_cache \<Rightarrow> entry_id list \<Rightarrow> bool" where
  "cache_inv c xs \<longleftrightarrow> links c xs \<and> set xs = dom (key_at c) \<and> cache_shape c"

lemma at_body:
  "key_at c i = map_option fst (map_option body (entry_map c i))"
  "block_at c i = map_option (fst \<circ> snd) (map_option body (entry_map c i))"
  "kids_at c i = map_option (snd \<circ> snd) (map_option body (entry_map c i))"
  by (simp_all add: key_at_def block_at_def kids_at_def option.map_comp comp_def body_def)

lemma relinked_at:
  assumes "relinked c c'"
  shows "key_at c' = key_at c" and "block_at c' = block_at c" and "kids_at c' = kids_at c"
proof -
  have "map_option body (entry_map c' i) = map_option body (entry_map c i)" for i
    using assms by (simp add: relinked_def)
  then show "key_at c' = key_at c" "block_at c' = block_at c" "kids_at c' = kids_at c"
    unfolding fun_eq_iff at_body by simp_all
qed

lemma cache_inv_relinked:
  "cache_inv c xs \<Longrightarrow> relinked c c' \<Longrightarrow> links c' ys \<Longrightarrow> set ys = set xs \<Longrightarrow> cache_inv c' ys"
  using relinked_at [of c c'] by (simp add: cache_inv_def cache_shape_def relinked_def)

lemma key_at_range: "key_at c i = Some k \<Longrightarrow> i < length (pc_entries c)"
  by (auto simp: key_at_def dest: entry_in_range)

lemma key_at_entry: "key_at c i = Some k \<longleftrightarrow> (\<exists>e. entry_map c i = Some e \<and> ce_key e = k)"
  by (auto simp: key_at_def)

lemma finite_live: "finite (dom (key_at c))"
  by (rule finite_subset [of _ "{..<length (pc_entries c)}"]) (auto dest: key_at_range)

lemma cache_inv_new:
  assumes "prefix_cache_new env capacity = Inr c"
  shows "cache_inv c []"
proof -
  have c: "c = \<lparr>pc_capacity = capacity, pc_entries = replicate capacity None, pc_free_entries = rev [0..<capacity],
      pc_index = [], pc_oldest = NO_ENTRY, pc_newest = NO_ENTRY, pc_length = 0\<rparr>" "capacity \<le> u32_max"
    using assms by (auto simp: prefix_cache_new_def)
  have "entry_map c = (\<lambda>_. None)" by (rule ext) (simp add: c entry_map_def)
  then have "key_at c = (\<lambda>_. None)" "kids_at c = (\<lambda>_. None)" by (auto simp: key_at_def kids_at_def)
  then show ?thesis using c by (auto simp: cache_inv_def links_def cache_shape_def forest_def)
qed

subsection \<open>Paths\<close>

text \<open>\<open>up_path K i xs\<close>: \<open>xs\<close> are the entries from \<open>i\<close> up to a root.\<close>

fun up_path :: "(entry_id \<Rightarrow> cache_key option) \<Rightarrow> entry_id \<Rightarrow> entry_id list \<Rightarrow> bool" where
  "up_path K i [] = (i = ROOT)"
| "up_path K i (x # xs) = (i = x \<and> x \<noteq> ROOT \<and> (\<exists>k. K x = Some k \<and> up_path K (ck_parent k) xs))"

lemma up_path_live: "up_path K i xs \<Longrightarrow> x \<in> set xs \<Longrightarrow> x \<in> dom K \<and> x \<noteq> ROOT"
  by (induction xs arbitrary: i) auto

lemma up_path_unique: "up_path K i xs \<Longrightarrow> up_path K i ys \<Longrightarrow> xs = ys"
proof (induction xs arbitrary: i ys)
  case Nil
  then show ?case by (cases ys) auto
next
  case (Cons x xs)
  then show ?case by (cases ys) auto
qed

lemma up_path_mono: "up_path K i xs \<Longrightarrow> (\<And>x. x \<in> set xs \<Longrightarrow> K' x = K x) \<Longrightarrow> up_path K' i xs"
  by (induction xs arbitrary: i) auto

lemma up_path_distinct:
  assumes "forest K" and "up_path K i xs"
  shows "distinct xs"
proof -
  obtain rank :: "entry_id \<Rightarrow> nat" where r: "\<And>i k. K i = Some k \<Longrightarrow> ck_parent k \<noteq> ROOT \<Longrightarrow> rank (ck_parent k) < rank i"
    using assms(1) by (auto simp: forest_def)
  have "distinct xs \<and> (\<forall>x\<in>set xs. rank x \<le> rank i)" using assms(2)
  proof (induction xs arbitrary: i)
    case (Cons x xs)
    then obtain k where k: "i = x" "K x = Some k" "up_path K (ck_parent k) xs" by auto
    show ?case
    proof (cases xs)
      case Nil
      then show ?thesis using k by simp
    next
      case (Cons y ys)
      then have "ck_parent k \<noteq> ROOT" using k(3) by auto
      then have "rank (ck_parent k) < rank i" using r k by blast
      then show ?thesis using Cons.IH [OF k(3)] k(1) by (fastforce dest: le_less_trans)
    qed
  qed simp
  then show ?thesis by blast
qed

lemma up_path_exists:
  assumes "forest K" and "i = ROOT \<or> K i \<noteq> None" and root: "K ROOT = None"
  shows "\<exists>xs. up_path K i xs"
proof -
  obtain rank :: "entry_id \<Rightarrow> nat" where r: "\<And>i k. K i = Some k \<Longrightarrow> ck_parent k \<noteq> ROOT \<Longrightarrow> rank (ck_parent k) < rank i"
    and p: "\<And>i k. K i = Some k \<Longrightarrow> ck_parent k = ROOT \<or> K (ck_parent k) \<noteq> None"
    using assms(1) by (auto simp: forest_def)
  have "K i \<noteq> None \<Longrightarrow> \<exists>xs. up_path K i xs" for i
  proof (induction "rank i" arbitrary: i rule: less_induct)
    case less
    then obtain k where k: "K i = Some k" by auto
    have "\<exists>xs. up_path K (ck_parent k) xs"
    proof (cases "ck_parent k = ROOT")
      case True
      then show ?thesis by (intro exI [of _ "[]"]) simp
    next
      case False
      then show ?thesis using less.hyps [OF r [OF k False]] p [OF k] by blast
    qed
    then obtain xs where "up_path K (ck_parent k) xs" by blast
    then have "up_path K i (i # xs)" using k root by auto
    then show ?case by blast
  qed
  then show ?thesis using assms(2) by (metis up_path.simps(1))
qed

lemma cache_ids:
  assumes "cache_inv c xs"
  shows "key_at c ROOT = None" and "key_at c i = Some k \<Longrightarrow> i \<noteq> ROOT \<and> i < pc_capacity c"
    and "forest (key_at c)" and "length (pc_entries c) = pc_capacity c" and "pc_capacity c \<le> u32_max"
  using assms key_at_range [of c ROOT] key_at_range [of c i k]
  by (auto simp: cache_inv_def cache_shape_def)

lemma wp_touch_loop:
  assumes "links c xs" and "set xs = dom (key_at c)" and "up_path (key_at c) i path" and "distinct path"
    and "length path \<le> fuel"
  shows "wp (touch_loop fuel i) (\<lambda>_ c'. links c' (filter (\<lambda>x. x \<notin> set path) xs @ path) \<and> relinked c c')
    (\<lambda>_ _. False) c"
  using assms
proof (induction path arbitrary: fuel i c xs)
  case Nil
  then show ?case by (cases fuel) (auto simp: wp_simps)
next
  case (Cons x path)
  obtain fuel' where fuel: "fuel = Suc fuel'" using Cons.prems(5) by (cases fuel) auto
  obtain k where k: "i = x" "x \<noteq> ROOT" "key_at c x = Some k" "up_path (key_at c) (ck_parent k) path"
    using Cons.prems(3) by auto
  obtain as bs where xs: "xs = as @ x # bs" using k(3) Cons.prems(2) by (metis domI split_list)
  have l: "links c (as @ x # bs)" and x: "x \<notin> set (as @ bs)"
    using Cons.prems(1) xs by (auto simp: links_def)
  have loop: "touch_loop fuel i = bindM (unlink x) (\<lambda>_. bindM (link_newest x) (\<lambda>_. withM (\<lambda>c.
      bindM (tryM (cache_entry_at c x)) (\<lambda>entry. touch_loop fuel' (ck_parent (ce_key entry))))))"
    using k fuel by simp
  show ?case unfolding loop
  proof (rule wp_callI [OF wp_unlink [OF l]])
    fix u c1
    assume 1: "links c1 (as @ bs) \<and> relinked c c1"
    then obtain e where e: "entry_map c1 x = Some e" using k(3) by (metis relinked_at(1) key_at_entry)
    show "wp (bindM (link_newest x) (\<lambda>_. withM (\<lambda>c. bindM (tryM (cache_entry_at c x))
        (\<lambda>entry. touch_loop fuel' (ck_parent (ce_key entry))))))
        (\<lambda>_ c'. links c' (filter (\<lambda>y. y \<notin> set (x # path)) xs @ x # path) \<and> relinked c c') (\<lambda>_ _. False) c1"
    proof (rule wp_callI [OF wp_link_newest [OF _ e x k(2)]])
      fix v c2
      assume 2: "links c2 ((as @ bs) @ [x]) \<and> relinked c1 c2"
      then have r: "relinked c c2" using 1 relinked_trans by blast
      then have K: "key_at c2 = key_at c" by (rule relinked_at)
      then obtain e2 where e2: "entry_map c2 x = Some e2" "ce_key e2 = k" using k(3) by (metis key_at_entry)
      have "wp (touch_loop fuel' (ck_parent k))
          (\<lambda>_ c'. links c' (filter (\<lambda>y. y \<notin> set path) (as @ bs @ [x]) @ path) \<and> relinked c2 c') (\<lambda>_ _. False) c2"
        using Cons.prems 2 k(4) fuel xs by (intro Cons.IH) (auto simp: K)
      then have "wp (touch_loop fuel' (ck_parent k))
          (\<lambda>_ c'. links c' (filter (\<lambda>y. y \<notin> set (x # path)) xs @ x # path) \<and> relinked c c') (\<lambda>_ _. False) c2"
      proof (rule wp_weaken)
        fix w c'
        assume 3: "links c' (filter (\<lambda>y. y \<notin> set path) (as @ bs @ [x]) @ path) \<and> relinked c2 c'"
        have "filter (\<lambda>y. y \<notin> set path) zs = filter (\<lambda>y. y \<notin> set (x # path)) zs" if "x \<notin> set zs" for zs
          using that by (induction zs) auto
        from this [of as] this [of bs]
        have "filter (\<lambda>y. y \<notin> set path) (as @ bs @ [x]) @ path = filter (\<lambda>y. y \<notin> set (x # path)) xs @ x # path"
          using x Cons.prems(4) xs by simp
        then show "links c' (filter (\<lambda>y. y \<notin> set (x # path)) xs @ x # path) \<and> relinked c c'"
          using 3 relinked_trans [OF r] by auto
      qed
      then show "wp (withM (\<lambda>c. bindM (tryM (cache_entry_at c x)) (\<lambda>entry. touch_loop fuel' (ck_parent (ce_key entry)))))
          (\<lambda>_ c'. links c' (filter (\<lambda>y. y \<notin> set (x # path)) xs @ x # path) \<and> relinked c c') (\<lambda>_ _. False) c2"
        using e2 by (simp add: wp_simps cache_entry_at_eq)
    qed (use 1 in auto)
  qed auto
qed

text \<open>Touching an entry makes it and its ancestors the newest, each parent newer than its child.\<close>

lemma wp_touch_path:
  assumes "cache_inv c xs" and "up_path (key_at c) i path"
  shows "wp (touch_path i) (\<lambda>_ c'. cache_inv c' (filter (\<lambda>x. x \<notin> set path) xs @ path) \<and> relinked c c')
    (\<lambda>_ _. False) c"
proof -
  note ids = cache_ids [OF assms(1)]
  have d: "distinct path" by (rule up_path_distinct [OF ids(3) assms(2)])
  have live: "set path \<subseteq> dom (key_at c)" using up_path_live [OF assms(2)] by blast
  have "\<forall>x\<in>set path. x < length (pc_entries c)" using live key_at_range by fastforce
  then have n: "length path \<le> length (pc_entries c)" by (rule distinct_card_le [OF d])
  have l: "links c xs" "set xs = dom (key_at c)" using assms(1) by (auto simp: cache_inv_def)
  show ?thesis unfolding touch_path_def wp_withM
  proof (rule wp_weaken [OF wp_touch_loop [OF l assms(2) d n]], goal_cases)
    case (1 _ c')
    moreover have "set (filter (\<lambda>x. x \<notin> set path) xs @ path) = set xs" using live l(2) by auto
    ultimately show ?case using cache_inv_relinked [OF assms(1)] by blast
  qed
qed

subsection \<open>Lookup and insertion\<close>

lemma cache_find_eq:
  assumes "cache_inv c xs" and "length tokens = KV_BLOCK_SIZE"
  shows "cache_find c parent tokens = Inr
     (case map_of (pc_index c) \<lparr>ck_parent = parent, ck_tokens = tokens\<rparr> of
        None \<Rightarrow> None | Some i \<Rightarrow> Some (i, the (block_at c i)))"
    and "cache_find c parent tokens = Inr (Some (i, b)) \<longleftrightarrow>
      key_at c i = Some \<lparr>ck_parent = parent, ck_tokens = tokens\<rparr> \<and> block_at c i = Some b"
    and "cache_find c parent tokens = Inr None \<longleftrightarrow>
      (\<forall>i. key_at c i \<noteq> Some \<lparr>ck_parent = parent, ck_tokens = tokens\<rparr>)"
proof -
  let ?k = "\<lparr>ck_parent = parent, ck_tokens = tokens\<rparr>"
  have idx: "map_of (pc_index c) ?k = Some i \<longleftrightarrow> key_at c i = Some ?k" for i
    using assms(1) by (simp add: cache_inv_def cache_shape_def)
  show eq: "cache_find c parent tokens = Inr
     (case map_of (pc_index c) ?k of None \<Rightarrow> None | Some i \<Rightarrow> Some (i, the (block_at c i)))"
  proof (cases "map_of (pc_index c) ?k")
    case (Some i)
    then obtain e where "entry_map c i = Some e" using idx by (auto simp: key_at_entry)
    then show ?thesis using Some assms(2)
      by (simp add: cache_find_def cache_key_of_def failE_def cache_entry_at_eq block_at_def)
  qed (use assms(2) in \<open>simp add: cache_find_def cache_key_of_def failE_def\<close>)
  show "cache_find c parent tokens = Inr (Some (i, b)) \<longleftrightarrow> key_at c i = Some ?k \<and> block_at c i = Some b"
  proof (cases "map_of (pc_index c) ?k")
    case None
    then show ?thesis unfolding eq using idx [of i] by simp
  next
    case (Some j)
    have "key_at c i = Some ?k \<longleftrightarrow> i = j" using idx [of i] Some by auto
    moreover have "block_at c j \<noteq> None" using idx [of j] Some by (auto simp: block_at_def key_at_entry)
    ultimately show ?thesis unfolding eq using Some by auto
  qed
  show "cache_find c parent tokens = Inr None \<longleftrightarrow> (\<forall>i. key_at c i \<noteq> Some ?k)"
    unfolding eq using idx by (auto split: option.splits)
qed

lemma children_insert:
  "K i = None \<Longrightarrow> children (K(i \<mapsto> k)) j = children K j \<union> (if ck_parent k = j then {i} else {})"
  by (auto simp: children_def)

lemma children_delete: "children (K(i := None)) j = children K j - {i}"
  by (auto simp: children_def)

lemma children_live: "children K j \<subseteq> dom K"
  by (auto simp: children_def)

lemma forest_insert:
  assumes "forest K" and "K i = None" and "i \<noteq> ROOT" and "ck_parent k = ROOT \<or> K (ck_parent k) \<noteq> None"
  shows "forest (K(i \<mapsto> k))" and "children (K(i \<mapsto> k)) i = {}"
proof -
  obtain rank :: "entry_id \<Rightarrow> nat" where
    r: "\<And>i k. K i = Some k \<Longrightarrow> ck_parent k \<noteq> ROOT \<Longrightarrow> rank (ck_parent k) < rank i"
    and p: "\<And>i k. K i = Some k \<Longrightarrow> ck_parent k = ROOT \<or> K (ck_parent k) \<noteq> None"
    using assms(1) by (auto simp: forest_def)
  have np: "ck_parent k \<noteq> i" using assms by auto
  have nq: "ck_parent k' \<noteq> i" if "K j = Some k'" for j k' using p [OF that] assms(2,3) by auto
  let ?rank = "rank(i := Suc (rank (ck_parent k)))"
  have "?rank (ck_parent k') < ?rank j" if "(K(i \<mapsto> k)) j = Some k'" "ck_parent k' \<noteq> ROOT" for j k'
    using that np nq r by (auto split: if_splits)
  moreover have "ck_parent k' = ROOT \<or> (K(i \<mapsto> k)) (ck_parent k') \<noteq> None" if "(K(i \<mapsto> k)) j = Some k'" for j k'
    using that assms(4) p by (auto split: if_splits)
  ultimately show "forest (K(i \<mapsto> k))" unfolding forest_def by blast
  show "children (K(i \<mapsto> k)) i = {}" using np nq by (auto simp: children_def)
qed

lemma forest_delete:
  assumes "forest K" and "children K i = {}"
  shows "forest (K(i := None))"
proof -
  have "ck_parent k \<noteq> i" if "K j = Some k" for j k using assms(2) that by (auto simp: children_def)
  moreover obtain rank :: "entry_id \<Rightarrow> nat" where
    "\<forall>i k. K i = Some k \<longrightarrow> ck_parent k \<noteq> ROOT \<longrightarrow> rank (ck_parent k) < rank i"
    using assms(1) unfolding forest_def by blast
  ultimately show ?thesis using assms(1) unfolding forest_def
    by (intro conjI exI [of _ rank]) (auto split: if_splits)
qed

definition link_at :: "prefix_cache \<Rightarrow> entry_id \<Rightarrow> (entry_id \<times> entry_id) option" where
  "link_at c i = map_option (\<lambda>e. (ce_older e, ce_newer e)) (entry_map c i)"

lemma dll_link_cong:
  assumes "\<And>x. x \<in> set xs \<Longrightarrow> map_option (\<lambda>e. (ce_older e, ce_newer e)) (E' x) = map_option (\<lambda>e. (ce_older e, ce_newer e)) (E x)"
    and "dll E p xs n"
  shows "dll E' p xs n"
  using assms
proof (induction xs arbitrary: p)
  case (Cons x xs)
  then obtain e where e: "E x = Some e" "ce_older e = p" "ce_newer e = hd_or xs n" by auto
  have "map_option (\<lambda>e. (ce_older e, ce_newer e)) (E' x) = Some (p, hd_or xs n)" using Cons.prems(1) [of x] e by simp
  then obtain e' where "E' x = Some e'" "ce_older e' = p" "ce_newer e' = hd_or xs n" by auto
  moreover have "dll E' x xs n" using Cons.prems by (intro Cons.IH) auto
  ultimately show ?case by simp
qed simp

lemma links_cong:
  assumes "links c xs" and "\<And>x. x \<in> set xs \<Longrightarrow> link_at c' x = link_at c x"
    and "pc_oldest c' = pc_oldest c" and "pc_newest c' = pc_newest c"
  shows "links c' xs"
  using assms dll_link_cong [of xs "entry_map c'" "entry_map c"] by (simp add: links_def link_at_def)

text \<open>Writing one entry.\<close>

lemma set_entry_at:
  assumes "i < length (pc_entries c)"
  shows "key_at (set_entry i v c) = (key_at c)(i := map_option ce_key v)"
    and "block_at (set_entry i v c) = (block_at c)(i := map_option ce_block v)"
    and "kids_at (set_entry i v c) = (kids_at c)(i := map_option ce_children v)"
    and "link_at (set_entry i v c) = (link_at c)(i := map_option (\<lambda>e. (ce_older e, ce_newer e)) v)"
  using assms by (auto simp: key_at_def block_at_def kids_at_def link_at_def fun_eq_iff)

lemma at_other_fields [simp]:
  "key_at (c\<lparr>pc_free_entries := fs\<rparr>) = key_at c" "key_at (c\<lparr>pc_index := m\<rparr>) = key_at c"
  "key_at (c\<lparr>pc_length := n\<rparr>) = key_at c"
  "block_at (c\<lparr>pc_free_entries := fs\<rparr>) = block_at c" "block_at (c\<lparr>pc_index := m\<rparr>) = block_at c"
  "block_at (c\<lparr>pc_length := n\<rparr>) = block_at c"
  "kids_at (c\<lparr>pc_free_entries := fs\<rparr>) = kids_at c" "kids_at (c\<lparr>pc_index := m\<rparr>) = kids_at c"
  "kids_at (c\<lparr>pc_length := n\<rparr>) = kids_at c"
  "link_at (c\<lparr>pc_free_entries := fs\<rparr>) = link_at c" "link_at (c\<lparr>pc_index := m\<rparr>) = link_at c"
  by (simp_all add: fun_eq_iff key_at_def block_at_def kids_at_def link_at_def)

lemma links_other_fields [simp]:
  "links (c\<lparr>pc_free_entries := fs\<rparr>) xs = links c xs" "links (c\<lparr>pc_index := m\<rparr>) xs = links c xs"
  "links (c\<lparr>pc_length := n\<rparr>) xs = links c xs"
  by (simp_all add: links_def)

text \<open>The child counter of a parent, if there is one.\<close>

definition bump :: "(u32 \<Rightarrow> u32) \<Rightarrow> entry_id \<Rightarrow> unit cache_cmd" where
  "bump f parent = (if parent \<noteq> ROOT then update_entry parent (\<lambda>e. e\<lparr>ce_children := f (ce_children e)\<rparr>) else ret ())"

lemma wp_bump:
  assumes "parent = ROOT \<or> key_at c parent \<noteq> None"
  shows "wp (bump f parent) (\<lambda>_ c'. key_at c' = key_at c \<and> block_at c' = block_at c \<and> link_at c' = link_at c \<and>
     kids_at c' = (if parent = ROOT then kids_at c else (kids_at c)(parent := map_option f (kids_at c parent))) \<and>
     length (pc_entries c') = length (pc_entries c) \<and> pc_capacity c' = pc_capacity c \<and>
     pc_free_entries c' = pc_free_entries c \<and> pc_index c' = pc_index c \<and> pc_length c' = pc_length c \<and>
     pc_oldest c' = pc_oldest c \<and> pc_newest c' = pc_newest c) (\<lambda>_ _. False) c"
proof (cases "parent = ROOT")
  case True
  then show ?thesis by (simp add: bump_def wp_simps)
next
  case False
  then obtain e where e: "entry_map c parent = Some e" using assms by (auto simp: key_at_def)
  have "(key_at c)(parent \<mapsto> ce_key e) = key_at c" "(block_at c)(parent \<mapsto> ce_block e) = block_at c"
    "(link_at c)(parent \<mapsto> (ce_older e, ce_newer e)) = link_at c" "kids_at c parent = Some (ce_children e)"
    using e by (auto simp: key_at_def block_at_def link_at_def kids_at_def)
  then show ?thesis using False e
    by (simp add: bump_def wp_def update_entry_eq set_entry_at [OF entry_in_range [OF e]])
qed

lemma cache_insert_alt:
  "cache_insert parent tokens block =
     bindM (tryM (cache_key_of parent tokens)) (\<lambda>key.
     withM (\<lambda>c.
     bindM (failIf (pc_free_entries c = [])
       (InvalidPlan ''prefix cache'' ''insert without a free entry'')) (\<lambda>_.
     bindM (modM (\<lambda>c. c\<lparr>pc_free_entries := butlast (pc_free_entries c)\<rparr>)) (\<lambda>_.
     bindM (bump (\<lambda>n. wrapping_add32 n 1) parent) (\<lambda>_.
     bindM (modM (set_entry (last (pc_free_entries c)) (Some \<lparr>ce_key = key, ce_block = block,
       ce_children = 0, ce_older = NO_ENTRY, ce_newer = NO_ENTRY\<rparr>))) (\<lambda>_.
     bindM (link_newest (last (pc_free_entries c))) (\<lambda>_.
     bindM (modM (\<lambda>d. d\<lparr>pc_index := AList.update key (last (pc_free_entries c)) (pc_index d),
       pc_length := wrapping_add (pc_length d) 1\<rparr>)) (\<lambda>_.
     ret (last (pc_free_entries c))))))))))"
  by (simp add: cache_insert_def bump_def set_entry_def [abs_def] Let_def)

text \<open>The state after an insertion, whatever the links.\<close>

lemma shape_insert:
  assumes inv: "cache_inv c xs" and i: "i < pc_capacity c" "key_at c i = None"
    and k: "length (ck_tokens k) = KV_BLOCK_SIZE" "ck_parent k = ROOT \<or> key_at c (ck_parent k) \<noteq> None"
      "\<And>j. key_at c j \<noteq> Some k"
    and c': "length (pc_entries c') = pc_capacity c'" "pc_capacity c' = pc_capacity c"
      "key_at c' = (key_at c)(i \<mapsto> k)"
      "kids_at c' = ((if ck_parent k = ROOT then kids_at c
         else (kids_at c)(ck_parent k := map_option (\<lambda>n. wrapping_add32 n 1) (kids_at c (ck_parent k)))))(i \<mapsto> 0)"
      "distinct (pc_free_entries c')" "set (pc_free_entries c') = set (pc_free_entries c) - {i}"
      "map_of (pc_index c') = (map_of (pc_index c))(k \<mapsto> i)" "pc_length c' = wrapping_add (pc_length c) 1"
  shows "cache_shape c'"
proof -
  let ?K = "key_at c" and ?K' = "key_at c'"
  have sh: "cache_shape c" using inv by (simp add: cache_inv_def)
  note ids = cache_ids [OF inv]
  have iR: "i \<noteq> ROOT" using i(1) ids(5) by auto
  have live: "dom ?K' = insert i (dom ?K)" "finite (dom ?K)" "i \<notin> dom ?K" using c'(3) i finite_live by auto
  have "dom ?K' \<subseteq> {..<pc_capacity c}" using key_at_range [of c'] c'(1,2) by fastforce
  then have small: "card (dom ?K') \<le> pc_capacity c" using card_mono [of "{..<pc_capacity c}"] by fastforce
  then have room: "card (dom ?K) + 1 \<le> u32_max" using live ids(5) by simp
  have len: "pc_length c' = card (dom ?K')"
    using sh c'(8) live room by (simp add: cache_shape_def)
  have fo: "forest ?K'" "children ?K' i = {}"
    using forest_insert [OF ids(3) i(2) iR k(2)] by (simp_all add: c'(3))
  have kids: "n = card (children ?K' j)" if kn: "kids_at c' j = Some n" for j n
  proof (cases "j = i")
    case True
    then show ?thesis using kn c'(4) fo(2) by simp
  next
    case ji: False
    have ch: "children ?K' j = children ?K j \<union> (if ck_parent k = j then {i} else {})"
      unfolding c'(3) by (rule children_insert [of "key_at c" i, OF i(2)])
    have fin: "finite (children ?K j)" "i \<notin> children ?K j"
      using finite_subset [OF children_live live(2)] children_live [of ?K j] i(2) by auto
    have old: "m = card (children ?K j)" if "kids_at c j = Some m" for m using sh that by (simp add: cache_shape_def)
    have le: "card (children ?K j) \<le> card (dom ?K)" by (rule card_mono [OF live(2) children_live])
    show ?thesis
    proof (cases "ck_parent k = j \<and> j \<noteq> ROOT")
      case True
      then obtain m where m: "kids_at c j = Some m" "n = wrapping_add32 m 1" using kn c'(4) ji by (auto split: if_splits)
      then show ?thesis using True ch fin old [OF m(1)] le room by simp
    next
      case False
      then have "kids_at c j = Some n" using kn c'(4) ji by (auto split: if_splits)
      moreover have "ck_parent k \<noteq> j"
        using False calculation ids(1) by (auto simp: kids_at_def key_at_def)
      ultimately show ?thesis using ch old by simp
    qed
  qed
  have idx: "map_of (pc_index c') k' = Some j \<longleftrightarrow> ?K' j = Some k'" for k' j
    using sh i(2) k(3) by (auto simp: cache_shape_def c'(3,7))
  show ?thesis unfolding cache_shape_def
    using sh c'(1,2,5,6) fo(1) len kids idx k(1) i by (auto simp: cache_shape_def c'(3))
qed

lemma butlast_facts: "xs \<noteq> [] \<Longrightarrow> distinct xs \<Longrightarrow> distinct (butlast xs) \<and> set (butlast xs) = set xs - {last xs}"
  by (cases xs rule: rev_cases) auto

lemma wp_cache_insert:
  assumes inv: "cache_inv c xs" and tokens: "length tokens = KV_BLOCK_SIZE"
    and parent: "parent = ROOT \<or> key_at c parent \<noteq> None"
    and new: "\<And>j. key_at c j \<noteq> Some \<lparr>ck_parent = parent, ck_tokens = tokens\<rparr>"
    and room: "has_room c"
  shows "wp (cache_insert parent tokens block)
     (\<lambda>i c'. key_at c i = None \<and> i < pc_capacity c \<and> cache_inv c' (xs @ [i]) \<and>
        key_at c' = (key_at c)(i \<mapsto> \<lparr>ck_parent = parent, ck_tokens = tokens\<rparr>) \<and>
        block_at c' = (block_at c)(i \<mapsto> block) \<and> pc_capacity c' = pc_capacity c) (\<lambda>_ _. False) c"
proof -
  let ?k = "\<lparr>ck_parent = parent, ck_tokens = tokens\<rparr>" and ?fs = "pc_free_entries c" and ?i = "last (pc_free_entries c)"
  let ?e = "\<lparr>ce_key = ?k, ce_block = block, ce_children = 0, ce_older = NO_ENTRY, ce_newer = NO_ENTRY\<rparr>"
  note ids = cache_ids [OF inv]
  have sh: "cache_shape c" and ln: "links c xs" and xs: "set xs = dom (key_at c)" using inv by (auto simp: cache_inv_def)
  have fs: "distinct ?fs" "set ?fs = {i. i < pc_capacity c \<and> key_at c i = None}" using sh by (auto simp: cache_shape_def)
  have ne: "?fs \<noteq> []"
  proof
    assume "?fs = []"
    then have "{..<pc_capacity c} \<subseteq> dom (key_at c)" using fs(2) by auto
    from card_mono [OF finite_live this] have "pc_capacity c \<le> card (dom (key_at c))" by simp
    then show False using room sh by (simp add: has_room_def cache_shape_def)
  qed
  then have i: "?i < pc_capacity c" "key_at c ?i = None" using fs last_in_set by blast+
  have bl: "distinct (butlast ?fs)" "set (butlast ?fs) = set ?fs - {?i}"
    using butlast_facts [OF ne fs(1)] by blast+
  have key: "cache_key_of parent tokens = Inr ?k" using tokens by (simp add: cache_key_of_def failE_def)
  have iR: "?i \<noteq> ROOT" using i(1) ids(5) by auto
  show ?thesis unfolding cache_insert_alt key wp_bindM wp_tryM sum.case wp_withM wp_failIf wp_modM
  proof (simp only: ne if_False, rule wp_weaken [OF wp_bump], goal_cases)
    case (2 _ c2)
    let ?c3 = "set_entry ?i (Some ?e) c2"
    have r: "?i < length (pc_entries c2)" using 2 i(1) ids(4) by simp
    note at3 = set_entry_at [OF r, of "Some ?e"]
    have l3: "links ?c3 xs"
    proof (rule links_cong [OF ln])
      fix x assume "x \<in> set xs"
      then have "x \<noteq> ?i" using xs i(2) by auto
      then show "link_at ?c3 x = link_at c x" using 2 at3(4) by simp
    qed (use 2 in simp_all)
    have e3: "entry_map ?c3 ?i = Some ?e" using r by simp
    have nx: "?i \<notin> set xs" using xs i(2) by auto
    show ?case
    proof (rule wp_weaken [OF wp_link_newest [OF l3 e3 nx iR]], goal_cases)
      case (1 _ c4)
      then have r4: "relinked ?c3 c4" by blast
      let ?c5 = "c4\<lparr>pc_index := AList.update ?k ?i (pc_index c4), pc_length := wrapping_add (pc_length c4) 1\<rparr>"
      note r5 = relinked_at [OF r4]
      have K: "key_at ?c5 = (key_at c)(?i \<mapsto> ?k)" "block_at ?c5 = (block_at c)(?i \<mapsto> block)"
        using 2 r5 at3 by simp_all
      have f4: "length (pc_entries c4) = length (pc_entries c)" "pc_capacity c4 = pc_capacity c"
        "pc_free_entries c4 = butlast ?fs" "pc_index c4 = pc_index c" "pc_length c4 = pc_length c"
        using r4 2 by (simp_all add: relinked_def)
      have kd: "kids_at ?c5 = ((if parent = ROOT then kids_at c
         else (kids_at c)(parent := map_option (\<lambda>n. wrapping_add32 n 1) (kids_at c parent))))(?i \<mapsto> 0)"
        using 2 r5(3) at3(3) by simp
      have "cache_shape ?c5"
        by (rule shape_insert [OF inv i, of ?k])
          (use tokens parent new K(1) kd f4 bl ids(4) in \<open>simp_all add: AList.update_conv'\<close>)
      moreover have "links ?c5 (xs @ [?i])" using 1 by simp
      ultimately show ?case using K i f4(2) xs by (simp add: wp_simps cache_inv_def)
    qed simp
  qed (use parent in \<open>simp_all\<close>)
qed

subsection \<open>The blocks the cache holds\<close>

definition cache_blocks :: "prefix_cache \<Rightarrow> block_id list" where
  "cache_blocks c = List.map_filter (block_at c) [0..<length (pc_entries c)]"

lemma map_filter_upt_update:
  assumes "i < n" and "f i = None"
  shows "mset (List.map_filter (f(i \<mapsto> v)) [0..<n]) = add_mset v (mset (List.map_filter f [0..<n]))"
proof -
  have split: "[0..<n] = [0..<i] @ i # [Suc i..<n]"
    using assms(1) upt_add_eq_append [of 0 i "n - i"] upt_conv_Cons [of i n] by simp
  have same: "List.map_filter (f(i \<mapsto> v)) ys = List.map_filter f ys" if "i \<notin> set ys" for ys
    using that by (induction ys) (auto split: option.splits)
  show ?thesis unfolding split using assms(2) same
    by (simp add: List.map_filter_def)
qed

lemma block_in_cache: "block_at c i = Some b \<Longrightarrow> b \<in> set (cache_blocks c)"
proof -
  assume b: "block_at c i = Some b"
  then have "i < length (pc_entries c)" by (auto simp: block_at_def dest: entry_in_range)
  then show ?thesis using b by (force simp: cache_blocks_def List.map_filter_def)
qed

lemma cache_blocks_iff: "b \<in> set (cache_blocks c) \<longleftrightarrow> (\<exists>i. block_at c i = Some b)"
  using block_in_cache by (auto simp: cache_blocks_def List.map_filter_def)

lemma cache_blocks_relinked: "relinked c c' \<Longrightarrow> cache_blocks c' = cache_blocks c"
  by (simp only: cache_blocks_def relinked_at(2)) (simp add: relinked_def)

lemma cache_blocks_insert:
  assumes "block_at c' = (block_at c)(i \<mapsto> b)" and "block_at c i = None" and "i < length (pc_entries c)"
    and "length (pc_entries c') = length (pc_entries c)"
  shows "mset (cache_blocks c') = add_mset b (mset (cache_blocks c))"
  using assms map_filter_upt_update [of i _ "block_at c" b] by (simp add: cache_blocks_def)

lemma cache_blocks_delete:
  assumes "block_at c' = (block_at c)(i := None)" and "block_at c i = Some b"
    and "length (pc_entries c') = length (pc_entries c)"
  shows "mset (cache_blocks c') = mset (remove1 b (cache_blocks c))"
proof -
  have "block_at c = (block_at c')(i \<mapsto> b)" using assms(1,2) by (auto simp: fun_eq_iff)
  moreover have "i < length (pc_entries c)" using assms(2) by (auto simp: block_at_def dest: entry_in_range)
  ultimately have "mset (cache_blocks c) = add_mset b (mset (cache_blocks c'))"
    using assms by (intro cache_blocks_insert) auto
  then show ?thesis by simp
qed

lemma kv_inv_mset_ext:
  assumes "mset ext = mset ext'" and "kv_inv p qs ext"
  shows "kv_inv p qs ext'"
proof -
  have "ext_count ext i = ext_count ext' i" for i
    unfolding ext_count_def using assms(1) by (metis mset_filter size_mset)
  moreover have "set ext = set ext'" using assms(1) by (rule mset_eq_setD)
  ultimately show ?thesis using assms(2) by (simp add: kv_inv_def refs_exact_def ext_ok_def)
qed

subsection \<open>Removal and eviction\<close>

lemma leaf_no_children:
  assumes "cache_shape c" and "kids_at c i = Some 0"
  shows "children (key_at c) i = {}"
proof -
  have "card (children (key_at c) i) = 0" using assms by (simp add: cache_shape_def)
  then show ?thesis using finite_subset [OF children_live finite_live] by simp
qed

lemma shape_delete:
  assumes inv: "cache_inv c xs" and i: "key_at c i = Some k" "kids_at c i = Some 0"
    and c': "length (pc_entries c') = pc_capacity c'" "pc_capacity c' = pc_capacity c"
      "key_at c' = (key_at c)(i := None)"
      "kids_at c' = (if ck_parent k = ROOT then (kids_at c)(i := None)
         else ((kids_at c)(i := None))(ck_parent k := map_option (\<lambda>n. wrapping_sub32 n 1) (((kids_at c)(i := None)) (ck_parent k))))"
      "pc_free_entries c' = pc_free_entries c @ [i]"
      "map_of (pc_index c') = (map_of (pc_index c))(k := None)" "pc_length c' = wrapping_sub (pc_length c) 1"
  shows "cache_shape c'"
proof -
  let ?K = "key_at c" and ?K' = "key_at c'"
  have sh: "cache_shape c" using inv by (simp add: cache_inv_def)
  note ids = cache_ids [OF inv]
  have fin: "finite (children ?K j)" for j using finite_subset [OF children_live finite_live] .
  have none: "children ?K i = {}" by (rule leaf_no_children [OF sh i(2)])
  have pi: "ck_parent k \<noteq> i" using none i(1) by (auto simp: children_def)
  have live: "dom ?K' = dom ?K - {i}" "i \<in> dom ?K" using c'(3) i(1) by auto
  have len: "pc_length c' = card (dom ?K')"
    using sh c'(7) live finite_live [of c] card_gt_0_iff [of "dom ?K"] by (auto simp: cache_shape_def card_Diff_singleton)
  have kids: "n = card (children ?K' j)" if kn: "kids_at c' j = Some n" for j n
  proof -
    have ji: "j \<noteq> i" using kn c'(4) pi by (auto split: if_splits)
    have ch: "children ?K' j = children ?K j - {i}" unfolding c'(3) by (rule children_delete)
    have old: "m = card (children ?K j)" if "kids_at c j = Some m" for m using sh that by (simp add: cache_shape_def)
    show ?thesis
    proof (cases "ck_parent k = j \<and> j \<noteq> ROOT")
      case True
      then obtain m where m: "kids_at c j = Some m" "n = wrapping_sub32 m 1" using kn c'(4) ji by (auto split: if_splits)
      have "i \<in> children ?K j" using True i(1) by (auto simp: children_def)
      then have "card (children ?K j - {i}) = m - 1" "1 \<le> m"
        using old [OF m(1)] fin card_gt_0_iff [of "children ?K j"] by (auto simp: Suc_le_eq)
      then show ?thesis using m(2) ch by simp
    next
      case False
      then have kj: "kids_at c j = Some n" using kn c'(4) ji by (auto split: if_splits)
      then have "ck_parent k \<noteq> j" using False ids(1) by (auto simp: kids_at_def key_at_def)
      then have "i \<notin> children ?K j" using i(1) by (auto simp: children_def)
      then show ?thesis using ch old [OF kj] by simp
    qed
  qed
  have idx: "map_of (pc_index c') k' = Some j \<longleftrightarrow> ?K' j = Some k'" for k' j
  proof -
    have o: "map_of (pc_index c) k' = Some j \<longleftrightarrow> ?K j = Some k'" for k' j using sh by (simp add: cache_shape_def)
    have u: "?K j = Some k \<Longrightarrow> j = i" using o [of k j] o [of k i] i(1) by simp
    show ?thesis
    proof (cases "k' = k")
      case True then show ?thesis using u by (auto simp: c'(3,6))
    next
      case False then show ?thesis using o [of k' j] i(1) by (simp add: c'(3,6))
    qed
  qed
  have "forest ?K'" unfolding c'(3) by (rule forest_delete [OF ids(3) none])
  moreover have "set (pc_free_entries c') = {j. j < pc_capacity c \<and> ?K' j = None}" "distinct (pc_free_entries c')"
    using sh i(1) ids(2) [OF i(1)] unfolding c'(3,5) by (auto simp: cache_shape_def)
  ultimately show ?thesis unfolding cache_shape_def
    using sh c'(1,2) len kids idx by (auto simp: cache_shape_def c'(3))
qed

lemma cache_remove_alt:
  "cache_remove i =
     bindM (on_cache (unlink i)) (\<lambda>_.
     withM (\<lambda>(c, p).
     bindM (tryM (ok_or (pc_entries c ! i)
       (InvalidPlan ''prefix cache'' ''removed entry is vacant''))) (\<lambda>entry.
     bindM (on_cache (modM (set_entry i None))) (\<lambda>_.
     bindM (on_cache_pool (release_shared_block (ce_block entry))) (\<lambda>_.
     bindM (on_cache (modM (\<lambda>c. c\<lparr>pc_index := AList.delete (ce_key entry) (pc_index c)\<rparr>))) (\<lambda>_.
     bindM (on_cache (bump (\<lambda>n. wrapping_sub32 n 1) (ck_parent (ce_key entry)))) (\<lambda>_.
     on_cache (modM (\<lambda>c. c\<lparr>pc_free_entries := pc_free_entries c @ [i],
       pc_length := wrapping_sub (pc_length c) 1\<rparr>)))))))))"
proof -
  have skip: "on_cache (ret ()) = ret ()"
    by (rule ext) (simp add: on_cache_def zoomM_def ret_def split: prod.splits)
  have step: "on_cache (bump f x) = (if x \<noteq> ROOT
     then on_cache (update_entry x (\<lambda>e. e\<lparr>ce_children := f (ce_children e)\<rparr>)) else ret ())" for f x
    by (simp add: bump_def skip)
  show ?thesis unfolding step by (simp add: cache_remove_def set_entry_def [abs_def])
qed

lemma wp_on_cache: "wp (on_cache m) Q E (c, p) = wp m (\<lambda>x c'. Q x (c', p)) (\<lambda>e c'. E e (c', p)) c"
  by (simp add: on_cache_def wp_zoomM)

lemma wp_on_cache_pool:
  "wp (on_cache_pool m) Q E (c, p) = wp m (\<lambda>x p'. Q x (c, p')) (\<lambda>e p'. E (PagedKv e) (c, p')) p"
  by (simp add: on_cache_pool_def wp_zoomM)

lemma wp_cache_remove:
  assumes inv: "cache_inv c (as @ i # bs)" and kv: "kv_inv p qs (cache_blocks c)"
    and i: "key_at c i = Some k" "kids_at c i = Some 0" and b: "block_at c i = Some b"
  shows "wp (cache_remove i)
     (\<lambda>_ (c', p'). cache_inv c' (as @ bs) \<and> kv_inv p' qs (cache_blocks c') \<and> pool_same p p' \<and>
        key_at c' = (key_at c)(i := None) \<and> block_at c' = (block_at c)(i := None) \<and>
        pc_capacity c' = pc_capacity c) (\<lambda>_ _. False) (c, p)"
proof -
  note ids = cache_ids [OF inv]
  have ln: "links c (as @ i # bs)" and xs: "set (as @ i # bs) = dom (key_at c)" using inv by (auto simp: cache_inv_def)
  have d: "i \<notin> set (as @ bs)" using ln by (auto simp: links_def)
  show ?thesis unfolding cache_remove_alt
  proof (rule wp_callI [of _ "\<lambda>_ (c1, p1). links c1 (as @ bs) \<and> relinked c c1 \<and> p1 = p" "\<lambda>_ _. False"], goal_cases)
    case 1
    show ?case unfolding wp_on_cache by (rule wp_weaken [OF wp_unlink [OF ln]]) auto
  next
    case (3 _ t)
    then obtain c1 where t: "t = (c1, p)" and l1: "links c1 (as @ bs)" and r1: "relinked c c1" by (cases t) auto
    note K1 = relinked_at [OF r1]
    have "key_at c1 i = Some k" "block_at c1 i = Some b" using i(1) b K1 by simp_all
    then obtain e where e: "entry_map c1 i = Some e" "ce_key e = k" "ce_block e = b"
      by (auto simp: key_at_def block_at_def)
    have r: "i < length (pc_entries c1)" by (rule entry_in_range [OF e(1)])
    have at: "pc_entries c1 ! i = Some e" using e(1) r by (simp add: entry_map_def)
    let ?c2 = "set_entry i None c1" and ?c3 = "(set_entry i None c1)\<lparr>pc_index := AList.delete k (pc_index c1)\<rparr>"
    note at2 = set_entry_at [OF r, of None]
    have parent: "ck_parent k = ROOT \<or> key_at ?c3 (ck_parent k) \<noteq> None"
    proof -
      have "children (key_at c) i = {}"
        using leaf_no_children [OF _ i(2)] inv by (simp add: cache_inv_def)
      then have "ck_parent k \<noteq> i" using i(1) by (auto simp: children_def)
      then show ?thesis using ids(3) i(1) at2(1) K1(1) by (simp add: forest_def)
    qed
    have l2: "links ?c2 (as @ bs)"
      by (rule links_cong [OF l1]) (use d at2(4) in auto)
    show ?case unfolding t wp_withM prod.case at ok_or_eq wp_bindM wp_tryM sum.case wp_on_cache wp_on_cache_pool wp_modM e(2,3)
    proof (rule wp_weaken [OF kv_inv_evict [OF kv block_in_cache [OF b]]], goal_cases)
      case (1 _ p2)
      show ?case
      proof (simp only: set_entry_fields, rule wp_weaken [OF wp_bump [OF parent]], goal_cases)
        case (1 _ c4)
        let ?c5 = "c4\<lparr>pc_free_entries := pc_free_entries c4 @ [i], pc_length := wrapping_sub (pc_length c4) 1\<rparr>"
        have f4: "length (pc_entries c4) = length (pc_entries c)" "pc_capacity c4 = pc_capacity c"
          "pc_free_entries c4 = pc_free_entries c" "pc_index c4 = AList.delete k (pc_index c)" "pc_length c4 = pc_length c"
          using r1 1 by (simp_all add: relinked_def)
        have K: "key_at ?c5 = (key_at c)(i := None)" "block_at ?c5 = (block_at c)(i := None)"
          "kids_at ?c5 = (if ck_parent k = ROOT then (kids_at c)(i := None)
             else ((kids_at c)(i := None))(ck_parent k := map_option (\<lambda>n. wrapping_sub32 n 1) (((kids_at c)(i := None)) (ck_parent k))))"
          using 1 K1 at2 by auto
        have "cache_shape ?c5"
          by (rule shape_delete [OF inv i]) (use K f4 ids(4) in \<open>simp_all add: AList.delete_conv'\<close>)
        moreover have "links ?c5 (as @ bs)"
          using links_cong [OF l2, of c4] 1 by simp
        moreover have "mset (cache_blocks ?c5) = mset (remove1 b (cache_blocks c))"
          by (rule cache_blocks_delete [OF K(2) b]) (simp add: f4)
        ultimately show ?case using K f4(2) xs d kv_inv_mset_ext [of "remove1 b (cache_blocks c)"]
            \<open>kv_inv p2 qs (remove1 b (cache_blocks c)) \<and> pool_same p p2\<close>
          by (auto simp: cache_inv_def)
      qed simp
    qed simp
  qed auto
qed


text \<open>What eviction looks for: an entry without children whose block nobody else holds.\<close>

definition evictable :: "prefix_cache \<Rightarrow> kv_block_pool \<Rightarrow> entry_id \<Rightarrow> bool" where
  "evictable c p i = (case entry_map c i of None \<Rightarrow> False
     | Some e \<Rightarrow> ce_children e = 0 \<and> shared_references p (ce_block e) = Inr 1)"

lemma shared_references_held:
  assumes inv: "kv_inv p qs ext" and b: "b \<in> set ext"
  shows "shared_references p b = Inr (bs_shared_references (kp_slots p ! bid_physical_index b))"
proof -
  let ?i = "bid_physical_index b" and ?s = "kp_slots p ! bid_physical_index b"
  have pinv: "pool_inv p" using inv by (simp add: kv_inv_def)
  have e: "bid_pool_cookie b = kp_cookie p" "?i < length (kp_slots p)" "bs_generation ?s = bid_generation b"
    using inv b by (auto simp: kv_inv_def ext_ok_def)
  have "bs_shared_references ?s = total_hold qs ?i + ext_count ext ?i"
    using inv e(2) by (simp add: kv_inv_def refs_exact_def)
  then have "0 < bs_shared_references ?s" using ext_count_pos [OF b] by simp
  with e shared_slot_owner [OF pinv e(2)] show ?thesis by (simp add: shared_references_Inr)
qed

lemma find_skip: "find P xs = None \<Longrightarrow> find P (xs @ ys) = find P ys"
  by (induction xs) (auto split: if_splits)

lemma wp_evict_loop:
  assumes inv: "cache_inv c (as @ bs)" and kv: "kv_inv p qs (cache_blocks c)"
    and as: "\<forall>i\<in>set as. \<not> evictable c p i" and fuel: "length bs \<le> fuel"
  shows "wp (evict_loop fuel (hd_or bs NO_ENTRY))
     (\<lambda>r (c', p'). case find (evictable c p) (as @ bs) of
        None \<Rightarrow> \<not> r \<and> c' = c \<and> p' = p
      | Some i \<Rightarrow> r \<and> cache_inv c' (remove1 i (as @ bs)) \<and> kv_inv p' qs (cache_blocks c') \<and> pool_same p p' \<and>
          key_at c' = (key_at c)(i := None) \<and> block_at c' = (block_at c)(i := None) \<and>
          pc_capacity c' = pc_capacity c) (\<lambda>_ _. False) (c, p)"
  using inv as fuel
proof (induction fuel arbitrary: as bs)
  case 0
  then have "find (evictable c p) as = None" by (simp add: find_None_iff)
  then show ?case using 0 by (simp add: wp_simps)
next
  case (Suc fuel)
  show ?case
  proof (cases bs)
    case Nil
    moreover have "find (evictable c p) as = None" using Suc.prems by (simp add: find_None_iff)
    ultimately show ?thesis by (simp add: wp_simps)
  next
    case (Cons i cs)
    have ln: "links c (as @ i # cs)" and xs: "set (as @ i # cs) = dom (key_at c)"
      using Suc.prems(1) Cons by (auto simp: cache_inv_def)
    have i: "i \<notin> set as" "i \<noteq> NO_ENTRY" using ln by (auto simp: links_def)
    have "dll (entry_map c) (last_or as NO_ENTRY) (i # cs) NO_ENTRY"
      using ln by (simp only: links_def dll_append)
    then obtain e where e: "entry_map c i = Some e" "ce_newer e = hd_or cs NO_ENTRY" by auto
    have b: "block_at c i = Some (ce_block e)" "key_at c i = Some (ce_key e)" "kids_at c i = Some (ce_children e)"
      using e(1) by (simp_all add: block_at_def key_at_def kids_at_def)
    note sr = shared_references_held [OF kv block_in_cache [OF b(1)]]
    have inv': "cache_inv c ((as @ [i]) @ cs)" using Suc.prems(1) Cons by simp
    have none: "find (evictable c p) as = None" using Suc.prems(2) by (simp add: find_None_iff)
    have rest: "\<not> evictable c p i \<Longrightarrow> \<forall>j\<in>set (as @ [i]). \<not> evictable c p j" using Suc.prems(2) by auto
    note IH = Suc.IH [OF inv' rest]
    have fnd: "find (evictable c p) (as @ i # cs) =
        (if evictable c p i then Some i else find (evictable c p) (as @ [i] @ cs))"
      using none by (simp add: find_skip)
    show ?thesis
    proof (cases "evictable c p i")
      case True
      then have k0: "kids_at c i = Some 0" and n1: "bs_shared_references (kp_slots p ! bid_physical_index (ce_block e)) = 1"
        using e(1) b(3) sr by (simp_all add: evictable_def)
      have r: "remove1 i (as @ i # cs) = as @ cs" using i(1) by (simp add: remove1_append)
      have "find (evictable c p) (as @ bs) = Some i" using fnd True Cons by simp
      moreover have "wp (evict_loop (Suc fuel) i) Q E (c, p) = wp (cache_remove i) (\<lambda>_. Q True) E (c, p)" for Q E
        using e(1) i(2) k0 b(3) n1 by (simp add: wp_simps wp_ret [abs_def] cache_entry_at_eq sr)
      ultimately show ?thesis unfolding Cons list.case option.case r
        using wp_cache_remove [OF Suc.prems(1) [unfolded Cons] kv b(2) k0 b(1)]
        by (simp only: list.case option.case r simp_thms)
    next
      case False
      have "wp (evict_loop (Suc fuel) i) Q E (c, p) = wp (evict_loop fuel (ce_newer e)) Q E (c, p)" for Q E
        using False e(1) i(2)
        by (cases "ce_children e = 0") (simp_all add: wp_simps cache_entry_at_eq sr evictable_def)
      moreover have "length cs \<le> fuel" and split: "as @ bs = (as @ [i]) @ cs" using Suc.prems(3) Cons by simp_all
      ultimately show ?thesis unfolding split unfolding Cons list.case using IH [OF False] e(2) by simp
    qed
  qed
qed

lemma wp_evict_one:
  assumes inv: "cache_inv c xs" and kv: "kv_inv p qs (cache_blocks c)"
  shows "wp evict_one
     (\<lambda>r (c', p'). case find (evictable c p) xs of
        None \<Rightarrow> \<not> r \<and> c' = c \<and> p' = p
      | Some i \<Rightarrow> r \<and> cache_inv c' (remove1 i xs) \<and> kv_inv p' qs (cache_blocks c') \<and> pool_same p p' \<and>
          key_at c' = (key_at c)(i := None) \<and> block_at c' = (block_at c)(i := None) \<and>
          pc_capacity c' = pc_capacity c) (\<lambda>_ _. False) (c, p)"
proof -
  have ln: "links c xs" "set xs = dom (key_at c)" using inv by (auto simp: cache_inv_def)
  have "\<forall>x\<in>set xs. x < length (pc_entries c)" using ln(2) key_at_range by fastforce
  then have "length xs \<le> length (pc_entries c)" using ln(1) by (intro distinct_card_le) (auto simp: links_def)
  with wp_evict_loop [of c "[]" xs p qs "length (pc_entries c)", unfolded append_Nil] inv kv ln(1)
  show ?thesis by (simp add: evict_one_def wp_simps links_def)
qed


lemma wp_clear_loop:
  assumes kv: "kv_inv p qs (cache_blocks c)" and ks: "distinct ks" "\<forall>i\<in>set ks. i < length (pc_entries c)"
  shows "wp (forM ks (\<lambda>index. withM (\<lambda>(c, p).
       case pc_entries c ! index of
         None \<Rightarrow> ret ()
       | Some entry \<Rightarrow>
           bindM (on_cache (modM (\<lambda>c. c\<lparr>pc_entries := (pc_entries c)[index := None]\<rparr>))) (\<lambda>_.
           bindM (on_cache_pool (release_shared_block (ce_block entry))) (\<lambda>_.
           on_cache (modM (\<lambda>c. c\<lparr>pc_free_entries := pc_free_entries c @ [index]\<rparr>)))))))
     (\<lambda>_ (c', p'). kv_inv p' qs (cache_blocks c') \<and> pool_same p p' \<and>
        entry_map c' = (\<lambda>i. if i \<in> set ks then None else entry_map c i) \<and>
        pc_free_entries c' = pc_free_entries c @ filter (\<lambda>i. entry_map c i \<noteq> None) ks \<and>
        length (pc_entries c') = length (pc_entries c) \<and> pc_capacity c' = pc_capacity c)
     (\<lambda>_ _. False) (c, p)"
  using assms
proof (induction ks arbitrary: c p)
  case Nil
  then show ?case by (simp add: wp_simps)
next
  case (Cons i js)
  have i: "i < length (pc_entries c)" "i \<notin> set js" using Cons.prems by auto
  show ?case
  proof (cases "entry_map c i")
    case None
    then have "pc_entries c ! i = None" using i by (simp add: entry_map_def)
    then show ?thesis using Cons.IH [OF Cons.prems(1)] Cons.prems(2,3) None
      by (auto simp: wp_simps fun_eq_iff elim!: wp_weaken)
  next
    case (Some e)
    let ?c = "(set_entry i None c)\<lparr>pc_free_entries := pc_free_entries c @ [i]\<rparr>"
    have at: "pc_entries c ! i = Some e" using Some i by (simp add: entry_map_def)
    have b: "block_at c i = Some (ce_block e)" using Some by (simp add: block_at_def)
    have "block_at ?c = (block_at c)(i := None)" using set_entry_at(2) [OF i(1)] by simp
    then have mb: "mset (remove1 (ce_block e) (cache_blocks c)) = mset (cache_blocks ?c)"
      using cache_blocks_delete [OF _ b, of ?c] by simp
    show ?thesis unfolding forM.simps wp_bindM wp_withM prod.case at option.case wp_on_cache wp_modM wp_on_cache_pool
    proof (rule wp_weaken [OF kv_inv_evict [OF Cons.prems(1) block_in_cache [OF b]]], goal_cases)
      case (1 _ p')
      then have kv': "kv_inv p' qs (cache_blocks ?c)" and ps: "pool_same p p'" using kv_inv_mset_ext [OF mb] by auto
      have flt: "filter (\<lambda>j. entry_map ?c j \<noteq> None) js = filter (\<lambda>j. entry_map c j \<noteq> None) js"
        using i by (intro filter_cong) auto
      have st: "c\<lparr>pc_entries := (pc_entries c)[i := None],
          pc_free_entries := pc_free_entries (c\<lparr>pc_entries := (pc_entries c)[i := None]\<rparr>) @ [i]\<rparr> = ?c"
        by (simp add: set_entry_def)
      show ?case unfolding st
        by (rule wp_weaken [OF Cons.IH [OF kv', unfolded flt]])
          (use Cons.prems(2,3) ps i Some in \<open>auto simp: fun_eq_iff pool_same_def\<close>)
    qed simp
  qed
qed

lemma wp_cache_clear:
  assumes inv: "cache_inv c xs" and kv: "kv_inv p qs (cache_blocks c)"
  shows "wp cache_clear (\<lambda>_ (c', p'). cache_inv c' [] \<and> key_at c' = Map.empty \<and> kv_inv p' qs [] \<and>
     pool_same p p' \<and> pc_capacity c' = pc_capacity c) (\<lambda>_ _. False) (c, p)"
proof -
  let ?n = "length (pc_entries c)"
  have fs: "distinct (pc_free_entries c)" "set (pc_free_entries c) = {i. i < ?n \<and> entry_map c i = None}"
    and n: "?n = pc_capacity c" "pc_capacity c \<le> u32_max"
    using inv by (auto simp: cache_inv_def cache_shape_def key_at_def)
  show ?thesis unfolding cache_clear_def wp_withM prod.case wp_bindM
  proof (rule wp_weaken [OF wp_clear_loop [OF kv]], goal_cases)
    case (3 _ t)
    then obtain c1 p1 where t: "t = (c1, p1)" by (cases t)
    let ?c2 = "c1\<lparr>pc_index := [], pc_oldest := NO_ENTRY, pc_newest := NO_ENTRY, pc_length := 0\<rparr>"
    have n1: "length (pc_entries c1) = ?n" and f1: "pc_free_entries c1 = pc_free_entries c @ filter (\<lambda>i. entry_map c i \<noteq> None) [0..<?n]"
      and cap: "pc_capacity c1 = pc_capacity c" and kv1: "kv_inv p1 qs (cache_blocks c1)" "pool_same p p1"
      and e1: "entry_map c1 = (\<lambda>i. if i < ?n then None else entry_map c i)" using 3 t by simp_all
    have e: "entry_map c1 = (\<lambda>_. None)" unfolding e1 by (rule ext) (simp add: entry_map_def)
    have k: "key_at ?c2 = Map.empty" "block_at c1 = Map.empty" "kids_at ?c2 = Map.empty"
      by (simp_all add: key_at_def block_at_def kids_at_def e fun_eq_iff)
    have "cache_blocks c1 = []" using k(2) by (simp add: cache_blocks_def List.map_filter_def)
    moreover have "distinct (pc_free_entries c1)"
      unfolding f1 distinct_append fs(2) by (intro conjI fs(1)) auto
    moreover have "set (pc_free_entries c1) = {i. i < ?n}" unfolding f1 set_append fs(2) by auto
    ultimately have blocks: "cache_blocks c1 = []" and "cache_shape ?c2"
      unfolding cache_shape_def k(1,3) using n n1 cap by (simp_all add: forest_def)
    then have "cache_inv ?c2 []" using k(1) by (simp add: cache_inv_def links_def)
    then show ?case unfolding t using kv1 cap k(1) blocks by (simp add: wp_on_cache wp_simps)
  qed auto
qed

end
