(* ===== verification/Prefix_Cache_Props.thy ===== *)
theory Prefix_Cache_Props
  imports Prefix_Cache_Inv
begin

text \<open>
  What the prefix cache promises its caller, over the contracts of \<open>Prefix_Cache_Inv\<close>: lookup after
  insertion, recency after a touch, which entry eviction takes, and what clearing gives back.
\<close>

lemma wp_total: "wp m Q (\<lambda>_ _. False) s \<Longrightarrow> \<exists>x t. m s = (Inr x, t) \<and> Q x t"
  by (auto simp: wp_def split: prod.splits sum.splits)

subsection \<open>A small cache\<close>

definition demo_tokens :: "u32 \<Rightarrow> u32 list" where
  "demo_tokens t = replicate KV_BLOCK_SIZE t"

definition demo_cache0 :: prefix_cache where
  "demo_cache0 = projr (prefix_cache_new demo_env 3)"

definition demo_cache1 :: prefix_cache where
  "demo_cache1 = snd (cache_insert ROOT (demo_tokens 7) demo_block demo_cache0)"

definition demo_cache2 :: prefix_cache where
  "demo_cache2 = snd (cache_insert 0 (demo_tokens 8) demo_block demo_cache1)"

lemma demo_cache_runs:
  "prefix_cache_new demo_env 3 = Inr demo_cache0"
  "fst (cache_insert ROOT (demo_tokens 7) demo_block demo_cache0) = Inr 0"
  "fst (cache_insert 0 (demo_tokens 8) demo_block demo_cache1) = Inr 1"
  "pc_entries demo_cache0 = [None, None, None]" "pc_length demo_cache0 = 0" "pc_capacity demo_cache0 = 3"
  by code_simp+

lemma demo_cache_inv: "cache_inv demo_cache0 []" "cache_inv demo_cache1 [0]"
proof -
  show 0: "cache_inv demo_cache0 []" by (rule cache_inv_new [OF demo_cache_runs(1)])
  have "key_at demo_cache0 j = None" for j
    using demo_cache_runs(4) by (simp add: key_at_def entry_map_def nth_Cons split: nat.split)
  then have "wp (cache_insert ROOT (demo_tokens 7) demo_block) (\<lambda>i c'. cache_inv c' ([] @ [i])) (\<lambda>_ _. False) demo_cache0"
    by (intro wp_weaken [OF wp_cache_insert [OF 0]])
      (auto simp: demo_tokens_def has_room_def demo_cache_runs)
  from wp_total [OF this] demo_cache_runs(2) show "cache_inv demo_cache1 [0]"
    by (auto simp: demo_cache1_def)
qed


text \<open>The sequence that published the cached block resets, so only the cache holds it.\<close>

definition demo_kv7 :: "sequence_state \<times> kv_block_pool" where
  "demo_kv7 = snd (seq_reset demo_kv4)"

lemma demo_cached: "kv_inv (snd demo_kv7) [fst demo_kv7] (cache_blocks demo_cache1)"
proof -
  have "kv_sys_step (snd demo_kv3, [fst demo_kv3], []) (snd demo_kv4, [fst demo_kv3][0 := fst demo_kv4], [] @ [demo_block])"
    by (rule kv_sys_step.share) (simp_all add: demo_sharing_runs(1))
  then have 4: "reachable kv_sys_init kv_sys_step (snd demo_kv4, [fst demo_kv4], [demo_block])"
    using reachable.move [OF demo_reachable(4)] by simp
  have "kv_sys_step (snd demo_kv4, [fst demo_kv4], [demo_block]) (snd demo_kv7, [fst demo_kv4][0 := fst demo_kv7], [demo_block])"
    by (rule kv_sys_step.op [where f = OpReset]) (simp_all add: demo_kv7_def)
  then have "reachable kv_sys_init kv_sys_step (snd demo_kv7, [fst demo_kv7], [demo_block])"
    using reachable.move [OF 4] by simp
  then have "kv_inv (snd demo_kv7) [fst demo_kv7] [demo_block]"
    using kv.reachable_inv by (fastforce simp: kv_sys_inv_def)
  moreover have "cache_blocks demo_cache1 = [demo_block]" by code_simp
  ultimately show ?thesis by simp
qed

subsection \<open>Properties\<close>

text \<open>C23. Insertion and lookup: inserting a full block below a present parent (or the root) under a
  key the cache does not hold succeeds while there is room, leaves the new entry as the most recent
  one, and afterwards a lookup of any full-block key finds the new entry under its key and otherwise
  what it found before.\<close>

theorem cache_insert_find:
  assumes "cache_inv c xs" and "length tokens = KV_BLOCK_SIZE" and "parent = ROOT \<or> parent \<in> set xs"
    and "cache_find c parent tokens = Inr None" and "has_room c"
  shows "\<exists>i c'. cache_insert parent tokens block c = (Inr i, c') \<and> i \<notin> set xs \<and> cache_inv c' (xs @ [i]) \<and>
    (\<forall>parent' tokens'. length tokens' = KV_BLOCK_SIZE \<longrightarrow> cache_find c' parent' tokens' =
       (if (parent', tokens') = (parent, tokens) then Inr (Some (i, block)) else cache_find c parent' tokens'))"
proof -
  have live: "set xs = dom (key_at c)" using assms(1) by (simp add: cache_inv_def)
  have p: "parent = ROOT \<or> key_at c parent \<noteq> None" using assms(3) live by auto
  have new: "key_at c j \<noteq> Some \<lparr>ck_parent = parent, ck_tokens = tokens\<rparr>" for j
    using cache_find_eq(3) [OF assms(1,2)] assms(4) by simp
  obtain i c' where run: "cache_insert parent tokens block c = (Inr i, c')" and i: "key_at c i = None"
    and inv': "cache_inv c' (xs @ [i])"
    and K: "key_at c' = (key_at c)(i \<mapsto> \<lparr>ck_parent = parent, ck_tokens = tokens\<rparr>)" "block_at c' = (block_at c)(i \<mapsto> block)"
    using wp_total [OF wp_cache_insert [OF assms(1,2) p new assms(5), where block = block]] by blast
  have "cache_find c' parent' tokens' =
      (if (parent', tokens') = (parent, tokens) then Inr (Some (i, block)) else cache_find c parent' tokens')"
    if len: "length tokens' = KV_BLOCK_SIZE" for parent' tokens'
  proof (cases "(parent', tokens') = (parent, tokens)")
    case True
    then show ?thesis using cache_find_eq(2) [OF inv' assms(2)] K by simp
  next
    case False
    note f = cache_find_eq [OF assms(1) len] and f' = cache_find_eq [OF inv' len]
    show ?thesis
    proof (cases "cache_find c parent' tokens'")
      case (Inl e)
      then show ?thesis using f(1) [of parent'] by simp
    next
      case (Inr r)
      show ?thesis
      proof (cases r)
        case None
        then show ?thesis using Inr False f(3) [of parent'] f'(3) [of parent'] K(1) by auto
      next
        case (Some jb)
        then obtain j b where jb: "key_at c j = Some \<lparr>ck_parent = parent', ck_tokens = tokens'\<rparr>" "block_at c j = Some b"
          "cache_find c parent' tokens' = Inr (Some (j, b))" using Inr f(2) by (cases jb) auto
        then have "j \<noteq> i" using i by auto
        then show ?thesis using jb False f'(2) [of parent' j b] K by simp
      qed
    qed
  qed
  then show ?thesis using run i live inv' by auto
qed

theorem cache_insert_find_witness:
  "\<exists>i c'. cache_insert 0 (demo_tokens 8) demo_block demo_cache1 = (Inr i, c') \<and>
     cache_find c' 0 (demo_tokens 8) = Inr (Some (i, demo_block)) \<and>
     cache_find c' ROOT (demo_tokens 7) = Inr (Some (0, demo_block))"
proof -
  have e: "cache_find demo_cache1 0 (demo_tokens 8) = Inr None" "has_room demo_cache1"
    "cache_find demo_cache1 ROOT (demo_tokens 7) = Inr (Some (0, demo_block))"
    "demo_tokens 7 \<noteq> demo_tokens 8" "length (demo_tokens 7) = KV_BLOCK_SIZE" "length (demo_tokens 8) = KV_BLOCK_SIZE"
    by code_simp+
  from cache_insert_find [OF demo_cache_inv(2) e(6) _ e(1,2), of demo_block] e(3-6) show ?thesis by fastforce
qed

text \<open>C24. Touching an entry terminates within as many steps as there are entries and makes the entry and
  its ancestors the most recent ones, parents more recent than children; everybody else keeps the
  order, and nothing but the recency links changes.\<close>

theorem touch_path_recency:
  assumes "cache_inv c xs" and "i \<in> set xs"
  shows "\<exists>path c'. up_path (key_at c) i path \<and> touch_path i c = (Inr (), c') \<and>
    cache_inv c' (filter (\<lambda>x. x \<notin> set path) xs @ path) \<and> relinked c c'"
proof -
  have "i \<in> dom (key_at c)" using assms by (auto simp: cache_inv_def)
  then obtain path where path: "up_path (key_at c) i path"
    using up_path_exists cache_ids(1,3) [OF assms(1)] by blast
  from wp_total [OF wp_touch_path [OF assms(1) path]] path show ?thesis by auto
qed

theorem touch_path_recency_witness:
  "\<exists>c'. touch_path 0 demo_cache1 = (Inr (), c') \<and> relinked demo_cache1 c'"
  using touch_path_recency [OF demo_cache_inv(2), of 0] by auto

text \<open>C25. Eviction always terminates without an error and takes the least recently used entry that has no
  children and whose block nobody but the cache holds; if there is none it reports so and changes
  nothing. The block's reference returns to the pool and the sequences keep theirs.\<close>

theorem evict_takes_oldest:
  assumes "cache_inv c xs" and "kv_inv p qs (cache_blocks c)"
  shows "case find (evictable c p) xs of
      None \<Rightarrow> evict_one (c, p) = (Inr False, (c, p))
    | Some i \<Rightarrow> (\<exists>c' p'. evict_one (c, p) = (Inr True, (c', p')) \<and> cache_inv c' (remove1 i xs) \<and>
        key_at c' = (key_at c)(i := None) \<and> kv_inv p' qs (cache_blocks c'))"
proof -
  obtain r c' p' where "evict_one (c, p) = (Inr r, (c', p'))"
    and "case find (evictable c p) xs of None \<Rightarrow> \<not> r \<and> c' = c \<and> p' = p
      | Some i \<Rightarrow> r \<and> cache_inv c' (remove1 i xs) \<and> kv_inv p' qs (cache_blocks c') \<and> pool_same p p' \<and>
          key_at c' = (key_at c)(i := None) \<and> block_at c' = (block_at c)(i := None) \<and> pc_capacity c' = pc_capacity c"
    using wp_total [OF wp_evict_one [OF assms]] by auto
  then show ?thesis by (cases "find (evictable c p) xs") auto
qed

theorem evict_takes_oldest_witness:
  "\<exists>c' p'. evict_one (demo_cache1, snd demo_kv7) = (Inr True, (c', p')) \<and> cache_inv c' []"
proof -
  have "find (evictable demo_cache1 (snd demo_kv7)) [0] = Some 0" by code_simp
  with evict_takes_oldest [OF demo_cache_inv(2) demo_cached] show ?thesis by auto
qed

text \<open>Clearing the cache never fails: it ends empty, and the pool holds no block for the cache any
  more while every live sequence keeps its own.\<close>

theorem cache_clear_releases:
  assumes "cache_inv c xs" and "kv_inv p qs (cache_blocks c)"
  shows "\<exists>c' p'. cache_clear (c, p) = (Inr (), (c', p')) \<and> cache_inv c' [] \<and> cache_len c' = 0 \<and> kv_inv p' qs []"
proof -
  from wp_total [OF wp_cache_clear [OF assms]] obtain c' p' where
    "cache_clear (c, p) = (Inr (), (c', p'))" "cache_inv c' []" "key_at c' = Map.empty" "kv_inv p' qs []" by auto
  then show ?thesis by (auto simp: cache_len_def cache_inv_def cache_shape_def)
qed

theorem cache_clear_releases_witness:
  "\<exists>c' p'. cache_clear (demo_cache1, snd demo_kv7) = (Inr (), (c', p')) \<and> kv_inv p' [fst demo_kv7] []"
  using cache_clear_releases [OF demo_cache_inv(2) demo_cached] by blast

end
