(* ===== verification/Scheduler_Inv.thy ===== *)
theory Scheduler_Inv
  imports Scheduler_Iteration Prefix_Cache_Props
begin

text \<open>
  The consistency of the scheduler's own books. \<open>core_inv\<close> relates the request table to everything
  derived from it: the FCFS queue, the counters, the admission limits, the outbox, the sequences in the
  pool and, for a request that is linked to the prefix cache, the path of cached blocks it shares.
  This theory shows what every small operation does to it; \<open>Scheduler_Life\<close> and \<open>Scheduler_Plan\<close> build
  the contracts of the big ones.
\<close>

subsection \<open>Lists\<close>

lemma mset_swap_remove:
  assumes "i < length xs"
  shows "add_mset (xs ! i) (mset (swap_remove i xs)) = mset xs"
proof -
  obtain ys l where xs: "xs = ys @ [l]" using assms by (cases xs rule: rev_cases) auto
  show ?thesis
  proof (cases "i = length ys")
    case True
    then show ?thesis using xs by (simp add: swap_remove_def)
  next
    case False
    then have i: "i < length ys" using assms xs by simp
    then have "swap_remove i xs = ys[i := l]" using xs by (simp add: swap_remove_def list_update_append)
    then show ?thesis using i xs by (simp add: mset_update nth_append)
  qed
qed

lemma swap_remove_update [simp]: "swap_remove i (xs[i := y]) = swap_remove i xs"
proof (cases "xs = []")
  case False
  then obtain ys l where xs: "xs = ys @ [l]" by (cases xs rule: rev_cases) auto
  then show ?thesis by (cases "i < length ys") (auto simp: swap_remove_def list_update_append not_less le_eq_less_or_eq split: nat.splits)
qed (simp add: swap_remove_def)

lemma swap_remove_sum:
  fixes f :: "'a \<Rightarrow> nat"
  assumes "i < length xs"
  shows "sum_list (map f (swap_remove i xs)) + f (xs ! i) = sum_list (map f xs)"
  using arg_cong [OF mset_swap_remove [OF assms], of "\<lambda>m. sum_mset (image_mset f m)"]
  by (simp flip: sum_mset_sum_list)

lemma swap_remove_set:
  assumes "i < length xs"
  shows "set xs = insert (xs ! i) (set (swap_remove i xs))"
  using arg_cong [OF mset_swap_remove [OF assms], of set_mset] by simp

lemma swap_remove_distinct_map:
  assumes "i < length xs" and "distinct (map f xs)"
  shows "distinct (map f (swap_remove i xs))" and "f (xs ! i) \<notin> f ` set (swap_remove i xs)"
proof -
  have "mset (f (xs ! i) # map f (swap_remove i xs)) = mset (map f xs)"
    using arg_cong [OF mset_swap_remove [OF assms(1)], of "image_mset f"] by simp
  then have "distinct (f (xs ! i) # map f (swap_remove i xs))" using assms(2) by (metis mset_eq_imp_distinct_iff)
  then show "distinct (map f (swap_remove i xs))" "f (xs ! i) \<notin> f ` set (swap_remove i xs)" by simp_all
qed

subsection \<open>The live sequences\<close>

definition seqs :: "request_record list \<Rightarrow> sequence_state list" where
  "seqs rs = List.map_filter rq_sequence rs"

lemma seqs_simps [simp]:
  "seqs [] = []" "seqs (r # rs) = (case rq_sequence r of None \<Rightarrow> seqs rs | Some q \<Rightarrow> q # seqs rs)"
  "seqs (rs @ rs') = seqs rs @ seqs rs'"
  by (simp_all add: seqs_def List.map_filter_def split: option.splits)

lemma seqs_cong: "map rq_sequence rs = map rq_sequence rs' \<Longrightarrow> seqs rs = seqs rs'"
proof -
  have "seqs rs = List.map_filter (\<lambda>x. x) (map rq_sequence rs)" for rs
    by (induction rs) (auto split: option.splits)
  then show "map rq_sequence rs = map rq_sequence rs' \<Longrightarrow> seqs rs = seqs rs'" by simp
qed

lemma seqs_perm: "mset rs = mset rs' \<Longrightarrow> mset (seqs rs) = mset (seqs rs')"
proof -
  have "mset (seqs rs) = image_mset the (filter_mset (\<lambda>x. x \<noteq> None) (image_mset rq_sequence (mset rs)))" for rs
    by (induction rs) (auto split: option.splits)
  then show "mset rs = mset rs' \<Longrightarrow> mset (seqs rs) = mset (seqs rs')" by simp
qed

text \<open>Request \<open>i\<close> of the table has the sequence number \<open>seq_pos i\<close>.\<close>

definition seq_pos :: "request_record list \<Rightarrow> nat \<Rightarrow> nat" where
  "seq_pos rs i = length (seqs (take i rs))"

lemma seqs_at:
  assumes "i < length rs" and "rq_sequence (rs ! i) = Some q"
  shows "seq_pos rs i < length (seqs rs)" and "seqs rs ! seq_pos rs i = q"
    and "rq_sequence r = Some q' \<Longrightarrow> seqs (rs[i := r]) = (seqs rs)[seq_pos rs i := q']"
    and "seqs rs = seqs (take i rs) @ q # seqs (drop (Suc i) rs)"
proof -
  have rs: "rs = take i rs @ rs ! i # drop (Suc i) rs" using assms(1) by (rule id_take_nth_drop)
  show split: "seqs rs = seqs (take i rs) @ q # seqs (drop (Suc i) rs)"
    using assms(2) by (subst rs) (simp del: append_take_drop_id)
  show "seq_pos rs i < length (seqs rs)" "seqs rs ! seq_pos rs i = q"
    unfolding split seq_pos_def by (simp_all add: nth_append)
  show "seqs (rs[i := r]) = (seqs rs)[seq_pos rs i := q']" if "rq_sequence r = Some q'"
    unfolding split upd_conv_take_nth_drop [OF assms(1)] seq_pos_def using that by simp
qed

lemma seqs_in: "q \<in> set (seqs rs) \<longleftrightarrow> (\<exists>r\<in>set rs. rq_sequence r = Some q)"
  by (induction rs) (auto split: option.splits)

text \<open>\<open>kv_inv\<close> does not depend on the order of the sequences, and a sequence that holds nothing can go.\<close>

lemma kv_inv_mset_seqs:
  assumes "mset qs = mset qs'" and "kv_inv p qs ext"
  shows "kv_inv p qs' ext"
proof -
  have "total_hold qs i = total_hold qs' i" for i
    unfolding total_hold_def using assms(1) by (metis mset_map sum_mset_sum_list)
  moreover have "set qs = set qs'" using assms(1) by (rule mset_eq_setD)
  moreover have "distinct (map sq_sequence_id qs) = distinct (map sq_sequence_id qs')"
    using assms(1) by (metis mset_eq_imp_distinct_iff mset_map)
  ultimately show ?thesis using assms(2) by (simp add: kv_inv_def refs_exact_def owners_live_def)
qed

lemma kv_inv_drop_empty:
  assumes "kv_inv p (xs @ q # ys) ext" and "sq_allocated_block_count q = 0"
  shows "kv_inv p (xs @ ys) ext"
proof -
  have core: "seq_core p q" using assms(1) by (simp add: kv_inv_def)
  then have sh: "sq_shared_block_count q = 0" using assms(2) by (simp add: seq_core_def seq_shape_def)
  have none: "bs_owner (kp_slots p ! i) \<noteq> Some (sq_sequence_id q)" if "i < length (kp_slots p)" for i
    using core that assms(2) by (auto simp: seq_core_def private_phys_def phys_def)
  have "hold q i = 0" for i using sh by (simp add: hold_def shared_phys_def)
  then have "total_hold (xs @ q # ys) i = total_hold (xs @ ys) i" for i by (simp add: total_hold_def)
  moreover have "owners_live p (xs @ ys)"
    unfolding owners_live_def
  proof (intro allI impI)
    fix i sid assume i: "i < length (kp_slots p)" "bs_owner (kp_slots p ! i) = Some sid" "sid_value sid \<noteq> SHARED_BLOCK_OWNER"
    then have "\<exists>q'\<in>set (xs @ q # ys). sq_sequence_id q' = sid"
      using assms(1) unfolding kv_inv_def owners_live_def by blast
    then show "\<exists>q\<in>set (xs @ ys). sq_sequence_id q = sid" using none [OF i(1)] i(2) by auto
  qed
  ultimately show ?thesis using assms(1) by (simp add: kv_inv_def refs_exact_def)
qed

lemma kv_step_same: "kv_step (q, p) (q', p') \<Longrightarrow> pool_same p p'"
  and kv_step_max: "kv_step (q, p) (q', p') \<Longrightarrow> sq_maximum_logical_length q' = sq_maximum_logical_length q"
  by (simp_all add: kv_step_def)

subsection \<open>The invariant\<close>

abbreviation prompt :: "request_record \<Rightarrow> u32 list" where
  "prompt r \<equiv> rd_prompt_token_ids (rq_descriptor r)"

abbreviation max_new :: "request_record \<Rightarrow> nat" where
  "max_new r \<equiv> rd_max_new_tokens (rq_descriptor r)"

abbreviation is_waiting :: "request_record \<Rightarrow> bool" where
  "is_waiting r \<equiv> rq_state r = Waiting"

text \<open>The tokens a request may ever hold in the cache: the last generated one is never written.\<close>

definition req_max :: "request_record \<Rightarrow> nat" where
  "req_max r = length (prompt r) + (max_new r - 1)"

lemma req_max_frame [simp]:
  "req_max (r\<lparr>rq_state := st\<rparr>) = req_max r" "req_max (r\<lparr>rq_sequence := q\<rparr>) = req_max r"
  "req_max (r\<lparr>rq_ready_since_ns := t\<rparr>) = req_max r" "req_max (r\<lparr>rq_prefill_cursor := n\<rparr>) = req_max r"
  "req_max (r\<lparr>rq_generated_token_ids := g\<rparr>) = req_max r" "req_max (r\<lparr>rq_prefix_tip := i\<rparr>) = req_max r"
  "req_max (r\<lparr>rq_prefix_linked := b\<rparr>) = req_max r" "req_max (r\<lparr>rq_cached_prompt_tokens := n\<rparr>) = req_max r"
  "req_max (r\<lparr>rq_cancellation_deferred := b\<rparr>) = req_max r" "req_max (r\<lparr>rq_plateau_deferred := b\<rparr>) = req_max r"
  by (simp_all add: req_max_def)

text \<open>A linked request shares exactly the cached blocks on the path to its tip, and their keys spell
  the beginning of its own prompt.\<close>

definition link_ok :: "prefix_cache \<Rightarrow> request_record \<Rightarrow> sequence_state \<Rightarrow> bool" where
  "link_ok c r q \<longleftrightarrow> (\<exists>path. up_path (key_at c) (rq_prefix_tip r) path \<and>
     take (sq_shared_block_count q) (sq_block_ids q) = map (block_at c) (rev path) \<and>
     concat (map (\<lambda>i. ck_tokens (the (key_at c i))) (rev path)) =
       take (sq_shared_block_count q * KV_BLOCK_SIZE) (prompt r))"

definition linked_ok :: "prefix_cache option \<Rightarrow> request_record \<Rightarrow> bool" where
  "linked_ok cache r \<longleftrightarrow> (rq_prefix_linked r \<longrightarrow> (case cache of None \<Rightarrow> True
     | Some c \<Rightarrow> (case rq_sequence r of None \<Rightarrow> rq_prefix_tip r = ROOT | Some q \<Rightarrow> link_ok c r q)))"

definition ext_of :: "prefix_cache option \<Rightarrow> block_id list" where
  "ext_of cache = (case cache of None \<Rightarrow> [] | Some c \<Rightarrow> cache_blocks c)"

definition cache_ok :: "prefix_cache option \<Rightarrow> bool" where
  "cache_ok cache \<longleftrightarrow> (case cache of None \<Rightarrow> True
     | Some c \<Rightarrow> (\<exists>xs. cache_inv c xs) \<and> distinct (map bid_physical_index (cache_blocks c)))"

definition rec_ok :: "scheduler_config \<Rightarrow> request_record \<Rightarrow> bool" where
  "rec_ok cfg r \<longleftrightarrow> prompt r \<noteq> [] \<and> 0 < max_new r \<and> req_max r \<le> max_sequence_tokens cfg \<and>
     req_max r \<le> u64_max \<and> rq_promised_kv_blocks r = div_ceil (req_max r) KV_BLOCK_SIZE \<and>
     rq_state r \<in> {Waiting, Admitted, Prefilling, Decoding} \<and>
     (rq_sequence r = None \<longleftrightarrow> is_waiting r) \<and>
     (is_waiting r \<longrightarrow> rq_prefill_cursor r = 0 \<and> rq_generated_token_ids r = [] \<and>
        rq_prefix_tip r = ROOT \<and> \<not> rq_cancellation_deferred r) \<and>
     (\<forall>q. rq_sequence r = Some q \<longrightarrow> sq_maximum_logical_length q = req_max r)"

definition ids_ok :: "u64 \<Rightarrow> request_record list \<Rightarrow> request_completion list \<Rightarrow> bool" where
  "ids_ok next_id rs out \<longleftrightarrow> distinct (map rq_request_id rs @ map rc_request_id out) \<and>
     (\<forall>x\<in>set (map rq_request_id rs @ map rc_request_id out). request_value x < next_id)"

definition queue_ok :: "request_record list \<Rightarrow> request_id list \<Rightarrow> bool" where
  "queue_ok rs w \<longleftrightarrow> sorted_wrt (<) w \<and> set w = rq_request_id ` {r \<in> set rs. is_waiting r}"

abbreviation waiting_tokens :: "request_record list \<Rightarrow> nat" where
  "waiting_tokens rs \<equiv> sum_list (map (\<lambda>r. if is_waiting r then length (prompt r) else 0) rs)"

abbreviation active_count :: "request_record list \<Rightarrow> nat" where
  "active_count rs \<equiv> sum_list (map (\<lambda>r. if is_waiting r then 0 else 1) rs)"

abbreviation promised_blocks :: "request_record list \<Rightarrow> nat" where
  "promised_blocks rs \<equiv> sum_list (map (\<lambda>r. if is_waiting r then 0 else rq_promised_kv_blocks r) rs)"

definition kv_part :: "kv_block_pool \<Rightarrow> request_record list \<Rightarrow> prefix_cache option \<Rightarrow> bool" where
  "kv_part p rs cache \<longleftrightarrow> kv_inv p (seqs rs) (ext_of cache) \<and> cache_ok cache \<and> (\<forall>r\<in>set rs. linked_ok cache r)"

definition core_inv :: "scheduler \<Rightarrow> bool" where
  "core_inv s \<longleftrightarrow>
     (\<forall>r\<in>set (s_requests s). rec_ok (s_config s) r) \<and>
     ids_ok (s_next_request_id s) (s_requests s) (s_completion_outbox s) \<and>
     queue_ok (s_requests s) (s_waiting s) \<and>
     s_waiting_prompt_tokens s = waiting_tokens (s_requests s) \<and>
     s_active_sequences s = active_count (s_requests s) \<and>
     s_promised_kv_blocks s = promised_blocks (s_requests s) \<and>
     length (s_waiting s) \<le> max_waiting_requests (s_config s) \<and>
     s_waiting_prompt_tokens s \<le> max_waiting_prompt_tokens (s_config s) \<and>
     s_active_sequences s \<le> max_active_sequences (s_config s) \<and>
     s_promised_kv_blocks s \<le> max_promised_kv_blocks (s_config s) \<and>
     length (s_requests s) + length (s_completion_outbox s) \<le> s_completion_outbox_capacity s \<and>
     s_completion_outbox_capacity s = max_waiting_requests (s_config s) + max_active_sequences (s_config s) \<and>
     s_completion_outbox_capacity s \<le> u64_max \<and>
     kv_part (s_pool s) (s_requests s) (s_prefix_cache s)"

text \<open>The fields of the state the invariant does not read.\<close>

lemma core_inv_frame [simp]:
  "core_inv (s\<lparr>s_metrics := m\<rparr>) = core_inv s" "core_inv (s\<lparr>s_metrics_degraded := b\<rparr>) = core_inv s"
  "core_inv (s\<lparr>s_last_now_ns := t\<rparr>) = core_inv s" "core_inv (s\<lparr>s_accepting := b\<rparr>) = core_inv s"
  "core_inv (s\<lparr>s_inflight := i\<rparr>) = core_inv s" "core_inv (s\<lparr>s_terminal := tt\<rparr>) = core_inv s"
  "core_inv (s\<lparr>s_next_iteration_id := n\<rparr>) = core_inv s"
  "core_inv (s\<lparr>s_aging_override_last_iteration := b\<rparr>) = core_inv s"
  "core_inv (s\<lparr>s_prefill_plateau := pp\<rparr>) = core_inv s" "core_inv (s\<lparr>s_prefill_burst := pb\<rparr>) = core_inv s"
  "core_inv (s\<lparr>s_prefill_coalescing := pc\<rparr>) = core_inv s" "core_inv (s\<lparr>s_atomic_prefill_chunks := b\<rparr>) = core_inv s"
  by (simp_all add: core_inv_def)

subsection \<open>Rules for the small commands\<close>

definition metric_only :: "scheduler \<Rightarrow> scheduler \<Rightarrow> bool" where
  "metric_only s t \<longleftrightarrow> (\<exists>m b. t = s\<lparr>s_metrics := m, s_metrics_degraded := b\<rparr>)"

lemma metric_only_iff: "metric_only s t \<longleftrightarrow> t = s\<lparr>s_metrics := s_metrics t, s_metrics_degraded := s_metrics_degraded t\<rparr>"
proof
  assume "metric_only s t"
  then obtain m b where "t = s\<lparr>s_metrics := m, s_metrics_degraded := b\<rparr>" unfolding metric_only_def by blast
  then show "t = s\<lparr>s_metrics := s_metrics t, s_metrics_degraded := s_metrics_degraded t\<rparr>" by simp
qed (auto simp: metric_only_def)

lemma metric_only_refl [simp]: "metric_only s s"
  unfolding metric_only_def by (rule exI [of _ "s_metrics s"], rule exI [of _ "s_metrics_degraded s"]) simp

lemma metric_only_trans: "metric_only s t \<Longrightarrow> metric_only t u \<Longrightarrow> metric_only s u"
  unfolding metric_only_def by clarsimp blast

lemma metric_only_core: "metric_only s t \<Longrightarrow> core_inv t = core_inv s"
  by (auto simp: metric_only_def)

lemma wp_observe_metric:
  "(\<And>t. metric_only s t \<Longrightarrow> Q () t) \<Longrightarrow> wp (observe_metric m) Q E s"
proof -
  assume Q: "\<And>t. metric_only s t \<Longrightarrow> Q () t"
  obtain r m' where r: "m (s_metrics s) = (r, m')" by (cases "m (s_metrics s)")
  have "s\<lparr>s_metrics := m'\<rparr> = s\<lparr>s_metrics := m', s_metrics_degraded := s_metrics_degraded s\<rparr>" by simp
  then have "metric_only s (s\<lparr>s_metrics := m'\<rparr>)" "metric_only s (s\<lparr>s_metrics := m', s_metrics_degraded := True\<rparr>)"
    unfolding metric_only_def by blast+
  then show ?thesis using Q r
    by (cases r) (auto simp: observe_metric_def on_metrics_def wp_def cmd_defs map_err_def)
qed

lemma wp_refresh_metric_gauges:
  "(\<And>t. metric_only s t \<Longrightarrow> Q () t) \<Longrightarrow> wp (refresh_metric_gauges env) Q E s"
  by (simp add: refresh_metric_gauges_def wp_withM wp_observe_metric)

text \<open>The observed clock never runs backwards.\<close>

definition clock_le :: "u64 option \<Rightarrow> u64 option \<Rightarrow> bool" where
  "clock_le a b \<longleftrightarrow> (\<forall>x. a = Some x \<longrightarrow> (\<exists>y. b = Some y \<and> x \<le> y))"

lemma clock_le_refl [simp]: "clock_le a a"
  by (simp add: clock_le_def)

lemma clock_le_trans: "clock_le a b \<Longrightarrow> clock_le b c \<Longrightarrow> clock_le a c"
  unfolding clock_le_def by (blast intro: order_trans)

lemma clock_checked: "validate_now s now_ns = Inr () \<Longrightarrow> clock_le (s_last_now_ns s) (Some now_ns)"
  by (auto simp: validate_now_def clock_le_def split: option.splits)

text \<open>Nothing but metrics and the clock.\<close>

definition quiet :: "scheduler \<Rightarrow> scheduler \<Rightarrow> bool" where
  "quiet s t \<longleftrightarrow> (\<exists>n. clock_le (s_last_now_ns s) n \<and> metric_only (s\<lparr>s_last_now_ns := n\<rparr>) t)"

lemma quiet_refl [simp]: "quiet s s"
  unfolding quiet_def by (rule exI [of _ "s_last_now_ns s"]) simp

lemma quiet_metric: "quiet s t \<Longrightarrow> metric_only t u \<Longrightarrow> quiet s u"
  unfolding quiet_def using metric_only_trans by blast

lemma quiet_clock: "clock_le (s_last_now_ns s) n \<Longrightarrow> quiet s (s\<lparr>s_last_now_ns := n\<rparr>)"
  unfolding quiet_def using metric_only_refl by blast

lemma quiet_core: "quiet s t \<Longrightarrow> core_inv t = core_inv s"
  by (auto simp: quiet_def metric_only_core)

lemma wp_observe_now [wp_simps]:
  "wp (observe_now n) Q E s = (case validate_now s n of Inl e \<Rightarrow> E e s | Inr _ \<Rightarrow> Q () (s\<lparr>s_last_now_ns := Some n\<rparr>))"
  by (simp add: observe_now_def wp_simps split: sum.splits)

lemma wp_reserve [wp_simps]:
  "wp (reserve env resource n) Q E s = (case reserve_host env resource n of Inl e \<Rightarrow> E e s | Inr _ \<Rightarrow> Q () s)"
  by (simp add: reserve_def wp_simps split: sum.splits)

lemma wp_mod_request [wp_simps]:
  "wp (mod_request i f) Q E s = Q () (s\<lparr>s_requests := (s_requests s)[i := f (s_requests s ! i)]\<rparr>)"
  by (simp add: mod_request_def wp_modM set_request_def)

lemma wp_on_sequence:
  "wp (on_sequence i q m) Q E s =
     wp m (\<lambda>x (q', p'). Q x (s\<lparr>s_pool := p', s_requests := (s_requests s)[i := (s_requests s ! i)\<lparr>rq_sequence := Some q'\<rparr>]\<rparr>))
       (\<lambda>e (q', p'). E (PagedKv e) (s\<lparr>s_pool := p', s_requests := (s_requests s)[i := (s_requests s ! i)\<lparr>rq_sequence := Some q'\<rparr>]\<rparr>))
       (q, s_pool s)"
  by (simp add: on_sequence_def wp_zoomM set_request_def case_prod_unfold)

lemma wp_on_spool:
  "wp (on_spool m) Q E s =
     wp m (\<lambda>x p'. Q x (s\<lparr>s_pool := p'\<rparr>)) (\<lambda>e p'. E (PagedKv e) (s\<lparr>s_pool := p'\<rparr>)) (s_pool s)"
  by (simp add: on_spool_def wp_zoomM)

lemma wp_on_scache:
  "wp (on_scache c m) Q E s =
     wp m (\<lambda>x (c', p'). Q x (s\<lparr>s_prefix_cache := Some c', s_pool := p'\<rparr>))
       (\<lambda>e (c', p'). E e (s\<lparr>s_prefix_cache := Some c', s_pool := p'\<rparr>)) (c, s_pool s)"
  by (simp add: on_scache_def wp_zoomM case_prod_unfold)

lemma record_indexD:
  "record_index s x = Some i \<Longrightarrow> i < length (s_requests s) \<and> rq_request_id (s_requests s ! i) = x"
  by (auto simp: record_index_def dest: position_SomeD)

lemma record_index_of:
  assumes "distinct (map rq_request_id (s_requests s))" and "i < length (s_requests s)"
  shows "record_index s (rq_request_id (s_requests s ! i)) = Some i"
proof -
  let ?x = "rq_request_id (s_requests s ! i)"
  have "record_index s ?x \<noteq> None" using assms(2) by (auto simp: record_index_def position_None)
  then obtain j where j: "record_index s ?x = Some j" by auto
  from record_indexD [OF this] have "j < length (s_requests s)" "rq_request_id (s_requests s ! j) = ?x" by auto
  then show ?thesis using j assms by (metis length_map nth_eq_iff_index_eq nth_map)
qed

lemma core_ids: "core_inv s \<Longrightarrow> distinct (map rq_request_id (s_requests s))"
  by (simp add: core_inv_def ids_ok_def)

lemma core_nth: "core_inv s \<Longrightarrow> i < length (s_requests s) \<Longrightarrow> rec_ok (s_config s) (s_requests s ! i)"
  by (simp add: core_inv_def)

subsection \<open>A request leaves\<close>

lemma remove_at_mset:
  assumes "i < length xs"
  shows "mset (take i xs @ drop (Suc i) xs) = mset (swap_remove i xs)"
proof -
  have "mset xs = add_mset (xs ! i) (mset (take i xs @ drop (Suc i) xs))"
    by (subst id_take_nth_drop [OF assms]) simp
  then show ?thesis using mset_swap_remove [OF assms] by (metis add_mset_add_mset_same_iff)
qed

lemma kv_part_drop:
  assumes "kv_inv p' (seqs (take i rs) @ seqs (drop (Suc i) rs)) (ext_of cache)" and "kv_part p rs cache" and "i < length rs"
  shows "kv_part p' (swap_remove i rs) cache"
proof -
  have "mset (seqs (take i rs @ drop (Suc i) rs)) = mset (seqs (swap_remove i rs))"
    by (rule seqs_perm [OF remove_at_mset [OF assms(3)]])
  then have "kv_inv p' (seqs (swap_remove i rs)) (ext_of cache)"
    using kv_inv_mset_seqs [OF _ assms(1)] by simp
  then show ?thesis using assms(2) swap_remove_set [OF assms(3)] by (auto simp: kv_part_def)
qed

lemma queue_drop:
  assumes q: "queue_ok rs w" and i: "i < length rs" and d: "distinct (map rq_request_id rs)"
  shows "queue_ok (swap_remove i rs) (if is_waiting (rs ! i) then remove1 (rq_request_id (rs ! i)) w else w)"
proof -
  let ?x = "rq_request_id (rs ! i)" and ?ss = "swap_remove i rs"
  have st: "set rs = insert (rs ! i) (set ?ss)" by (rule swap_remove_set [OF i])
  have new: "?x \<notin> rq_request_id ` set ?ss" by (rule swap_remove_distinct_map(2) [OF i d])
  have srt: "sorted_wrt (<) w" "distinct w" using q by (auto simp: queue_ok_def strict_sorted_iff)
  have s1: "sorted_wrt (<) (remove1 ?x w)" using srt by (simp add: strict_sorted_iff sorted_remove1)
  have w: "set w = rq_request_id ` {r \<in> set rs. is_waiting r}" using q by (simp add: queue_ok_def)
  show ?thesis
  proof (cases "is_waiting (rs ! i)")
    case True
    then have "set w = insert ?x (rq_request_id ` {r \<in> set ?ss. is_waiting r})" unfolding w st by auto
    moreover have "?x \<notin> rq_request_id ` {r \<in> set ?ss. is_waiting r}" using new by auto
    ultimately show ?thesis using True s1 srt(2) by (auto simp: queue_ok_def)
  next
    case False
    then have "{r \<in> set rs. is_waiting r} = {r \<in> set ?ss. is_waiting r}" unfolding st by auto
    then show ?thesis using False srt w by (simp add: queue_ok_def)
  qed
qed

text \<open>The state a request's departure leaves.\<close>

definition departed :: "nat \<Rightarrow> kv_block_pool \<Rightarrow> request_completion \<Rightarrow> scheduler \<Rightarrow> scheduler" where
  "departed i p' c s = (let r = s_requests s ! i in s\<lparr>s_pool := p', s_requests := swap_remove i (s_requests s),
     s_waiting := (if is_waiting r then remove1 (rq_request_id r) (s_waiting s) else s_waiting s),
     s_waiting_prompt_tokens := s_waiting_prompt_tokens s - (if is_waiting r then length (prompt r) else 0),
     s_active_sequences := s_active_sequences s - (if is_waiting r then 0 else 1),
     s_promised_kv_blocks := s_promised_kv_blocks s - (if is_waiting r then 0 else rq_promised_kv_blocks r),
     s_completion_outbox := s_completion_outbox s @ [c]\<rparr>)"

lemma core_departed:
  assumes inv: "core_inv s" and i: "i < length (s_requests s)"
    and kv: "kv_part p' (swap_remove i (s_requests s)) (s_prefix_cache s)"
    and c: "rc_request_id c = rq_request_id (s_requests s ! i)"
  shows "core_inv (departed i p' c s)"
proof -
  let ?rs = "s_requests s" and ?ss = "swap_remove i (s_requests s)"
  have d: "distinct (map rq_request_id ?rs)" by (rule core_ids [OF inv])
  have st: "set ?rs = insert (?rs ! i) (set ?ss)" by (rule swap_remove_set [OF i])
  note sm = swap_remove_sum [OF i]
  have perm: "mset (map rq_request_id ?ss @ map rc_request_id (s_completion_outbox s @ [c])) =
      mset (map rq_request_id ?rs @ map rc_request_id (s_completion_outbox s))"
    using arg_cong [OF mset_swap_remove [OF i], of "image_mset rq_request_id"] c by simp
  have ids: "ids_ok (s_next_request_id s) ?ss (s_completion_outbox s @ [c])"
    using inv unfolding core_inv_def ids_ok_def mset_eq_setD [OF perm] mset_eq_imp_distinct_iff [OF perm] by simp
  have q: "queue_ok ?ss (if is_waiting (?rs ! i) then remove1 (rq_request_id (?rs ! i)) (s_waiting s) else s_waiting s)"
    using queue_drop [OF _ i d] inv by (simp add: core_inv_def)
  have len: "length ?ss + length (s_completion_outbox s @ [c]) = length ?rs + length (s_completion_outbox s)"
    using i by simp
  have w: "length (remove1 x (s_waiting s)) \<le> length (s_waiting s)" for x by (simp add: length_remove1)
  have rec: "\<forall>r\<in>set ?ss. rec_ok (s_config s) r" using inv st by (simp add: core_inv_def)
  note sums = sm [of "\<lambda>r. if is_waiting r then length (prompt r) else 0"]
    sm [of "\<lambda>r. if is_waiting r then 0 else 1"] sm [of "\<lambda>r. if is_waiting r then 0 else rq_promised_kv_blocks r"]
  have act: "s_waiting_prompt_tokens s = waiting_tokens ?rs" "s_active_sequences s = active_count ?rs"
    "s_promised_kv_blocks s = promised_blocks ?rs" using inv by (simp_all add: core_inv_def)
  have lim: "length (s_waiting s) \<le> max_waiting_requests (s_config s)"
     "s_waiting_prompt_tokens s \<le> max_waiting_prompt_tokens (s_config s)"
     "s_active_sequences s \<le> max_active_sequences (s_config s)"
     "s_promised_kv_blocks s \<le> max_promised_kv_blocks (s_config s)"
     "length ?rs + length (s_completion_outbox s) \<le> s_completion_outbox_capacity s"
     "s_completion_outbox_capacity s = max_waiting_requests (s_config s) + max_active_sequences (s_config s)"
     "s_completion_outbox_capacity s \<le> u64_max" using inv by (simp_all add: core_inv_def)
  have sub: "s_waiting_prompt_tokens s - (if is_waiting (?rs ! i) then length (prompt (?rs ! i)) else 0) = waiting_tokens ?ss"
     "s_active_sequences s - (if is_waiting (?rs ! i) then 0 else 1) = active_count ?ss"
     "s_promised_kv_blocks s - (if is_waiting (?rs ! i) then 0 else rq_promised_kv_blocks (?rs ! i)) = promised_blocks ?ss"
    unfolding act sums [symmetric] by (simp_all only: add_diff_cancel_right')
  have le: "waiting_tokens ?ss \<le> s_waiting_prompt_tokens s" "active_count ?ss \<le> s_active_sequences s"
    "promised_blocks ?ss \<le> s_promised_kv_blocks s" unfolding sub [symmetric] by simp_all
  show ?thesis unfolding core_inv_def departed_def Let_def
    using rec ids q kv sub le [THEN order_trans] lim(2-7) w [THEN order_trans, OF lim(1)] lim(1) len
    by (simp del: length_append length_swap_remove)
qed

end
