(* ===== verification/Scheduler_Life.thy ===== *)
theory Scheduler_Life
  imports Scheduler_Inv
begin

text \<open>
  The contracts of the request lifecycle over the invariant of \<open>Scheduler_Inv\<close>: leaving by
  \<open>finish_live_request\<close> or forced reclaim, entering by \<open>submit\<close>, the timeout and admission loops and
  \<open>cancel\<close>. Under the invariant none of the arithmetic guards and none of the clean-up paths of the
  source can fail.
\<close>

subsection \<open>Leaving\<close>

definition completion_of :: "request_record \<Rightarrow> request_finish_reason \<Rightarrow> u64 \<Rightarrow> request_completion" where
  "completion_of r reason now_ns = \<lparr>rc_request_id = rq_request_id r, rc_reason = reason,
     rc_generated_token_ids = rq_generated_token_ids r, rc_cached_prompt_tokens = rq_cached_prompt_tokens r,
     rc_completed_at_ns = now_ns\<rparr>"

lemma completion_of_simps [simp]:
  "rc_request_id (completion_of r reason now_ns) = rq_request_id r"
  "completion_of (r\<lparr>rq_sequence := q\<rparr>) reason now_ns = completion_of r reason now_ns"
  by (simp_all add: completion_of_def)

definition remembered ::
  "terminal_tombstone list \<Rightarrow> nat \<Rightarrow> request_id \<Rightarrow> request_state \<Rightarrow> terminal_tombstone list" where
  "remembered ts capacity x st = (if length ts = capacity then tl ts else ts) @ [\<lparr>tt_request_id = x, tt_state = st\<rparr>]"

text \<open>The whole effect of a departure.\<close>

definition left :: "nat \<Rightarrow> request_finish_reason \<Rightarrow> u64 \<Rightarrow> scheduler \<Rightarrow> scheduler \<Rightarrow> bool" where
  "left i reason now_ns s t \<longleftrightarrow> (\<exists>p'. pool_same (s_pool s) p' \<and>
     metric_only ((departed i p' (completion_of (s_requests s ! i) reason now_ns) s)\<lparr>s_terminal :=
       remembered (s_terminal s) (s_terminal_capacity s) (rq_request_id (s_requests s ! i)) (reason_state reason)\<rparr>) t)"

lemma wp_retire_record [wp_simps]:
  "wp (retire_record i reason now_ns st) Q E s = Q () (s\<lparr>s_requests := swap_remove i (s_requests s),
     s_completion_outbox := s_completion_outbox s @ [completion_of (s_requests s ! i) reason now_ns],
     s_terminal := remembered (s_terminal s) (s_terminal_capacity s) (rq_request_id (s_requests s ! i)) st\<rparr>)"
  by (simp add: retire_record_def remember_terminal_def wp_simps completion_of_def remembered_def Let_def)

lemma core_capacity:
  assumes "core_inv s" and "n \<le> length (s_requests s)"
  shows "ensure_completion_capacity s n = Inr ()"
  using assms by (simp add: core_inv_def ensure_completion_capacity_def checked_add_def failE_def)

lemma remove1_position:
  assumes "position (\<lambda>c. c = x) w = Some k"
  shows "take k w @ drop (k + 1) w = remove1 x w"
  using assms
proof (induction w arbitrary: k)
  case (Cons y w)
  then show ?case by (cases "y = x") auto
qed simp

lemma core_waiting_queue:
  assumes inv: "core_inv s" and i: "i < length (s_requests s)" and w: "is_waiting (s_requests s ! i)"
  shows "\<exists>k. position (\<lambda>c. c = rq_request_id (s_requests s ! i)) (s_waiting s) = Some k"
    and "length (prompt (s_requests s ! i)) \<le> s_waiting_prompt_tokens s"
proof -
  have "rq_request_id (s_requests s ! i) \<in> set (s_waiting s)"
    using inv i w by (auto simp: core_inv_def queue_ok_def)
  then have "position (\<lambda>c. c = rq_request_id (s_requests s ! i)) (s_waiting s) \<noteq> None" by (auto simp: position_None)
  then show "\<exists>k. position (\<lambda>c. c = rq_request_id (s_requests s ! i)) (s_waiting s) = Some k" by auto
  show "length (prompt (s_requests s ! i)) \<le> s_waiting_prompt_tokens s"
    using inv i w sum_list_ge_elem [of "s_requests s ! i" "s_requests s" "\<lambda>r. if is_waiting r then length (prompt r) else 0"]
    by (simp add: core_inv_def)
qed

lemma core_active:
  assumes inv: "core_inv s" and i: "i < length (s_requests s)" and w: "\<not> is_waiting (s_requests s ! i)"
  shows "1 \<le> s_active_sequences s" and "rq_promised_kv_blocks (s_requests s ! i) \<le> s_promised_kv_blocks s"
    and "\<exists>q. rq_sequence (s_requests s ! i) = Some q"
proof -
  have r: "s_requests s ! i \<in> set (s_requests s)" using i by simp
  show "1 \<le> s_active_sequences s" "rq_promised_kv_blocks (s_requests s ! i) \<le> s_promised_kv_blocks s"
    using inv w sum_list_ge_elem [OF r, of "\<lambda>r. if is_waiting r then 0 else 1"]
      sum_list_ge_elem [OF r, of "\<lambda>r. if is_waiting r then 0 else rq_promised_kv_blocks r"]
    by (simp_all add: core_inv_def)
  show "\<exists>q. rq_sequence (s_requests s ! i) = Some q" using core_nth [OF inv i] w by (auto simp: rec_ok_def)
qed

text \<open>The sequence of an active request, as part of the pool.\<close>

lemma core_kv:
  assumes "core_inv s" and "i < length (s_requests s)" and "rq_sequence (s_requests s ! i) = Some q"
  shows "kv_ok (q, s_pool s)" and "seq_len q" and "kv_inv (s_pool s) (seqs (s_requests s)) (ext_of (s_prefix_cache s))"
proof -
  show inv: "kv_inv (s_pool s) (seqs (s_requests s)) (ext_of (s_prefix_cache s))"
    using assms(1) by (simp add: core_inv_def kv_part_def)
  show "kv_ok (q, s_pool s)" "seq_len q"
    using kv_inv_ok [OF inv seqs_at(1) [OF assms(2,3)]] seqs_at(2) [OF assms(2,3)] by simp_all
qed

lemma kv_drop_reset:
  assumes inv: "core_inv s" and i: "i < length (s_requests s)" and q: "rq_sequence (s_requests s ! i) = Some q"
    and step: "kv_step (q, s_pool s) (q', p')" "seq_len q'" "sq_allocated_block_count q' = 0"
  shows "kv_part p' (swap_remove i (s_requests s)) (s_prefix_cache s)"
proof (rule kv_part_drop)
  let ?rs = "s_requests s"
  note at = seqs_at [OF i q]
  have "kv_inv p' ((seqs ?rs)[seq_pos ?rs i := q']) (ext_of (s_prefix_cache s))"
    using kv_inv_step [OF core_kv(3) [OF inv i q] at(1)] at(2) step by simp
  moreover have "(seqs ?rs)[seq_pos ?rs i := q'] = seqs (take i ?rs) @ q' # seqs (drop (Suc i) ?rs)"
    unfolding at(4) seq_pos_def by simp
  ultimately show "kv_inv p' (seqs (take i ?rs) @ seqs (drop (Suc i) ?rs)) (ext_of (s_prefix_cache s))"
    using kv_inv_drop_empty step(3) by simp
qed (use inv i in \<open>auto simp: core_inv_def\<close>)

lemma wp_finish_live_request:
  assumes inv: "core_inv s" and x: "record_index s x = Some i"
    and valid: "valid_transition (rq_state (s_requests s ! i)) (reason_state reason)"
  shows "wp (finish_live_request x reason now_ns) (\<lambda>_ t. core_inv t \<and> left i reason now_ns s t) (\<lambda>_ _. False) s"
proof -
  let ?r = "s_requests s ! i" and ?c = "completion_of (s_requests s ! i) reason now_ns"
  let ?tt = "remembered (s_terminal s) (s_terminal_capacity s) x (reason_state reason)"
  have i: "i < length (s_requests s)" and id: "rq_request_id ?r = x" using record_indexD [OF x] by auto
  have cap: "ensure_completion_capacity s (Suc 0) = Inr ()" by (rule core_capacity [OF inv]) (use i in simp)
  have metric: "wp (finish_metric reason) (\<lambda>_. metric_only u) (\<lambda>_ _. False) u" for u
    by (cases reason) (auto simp: wp_simps intro!: wp_observe_metric)
  have fin: "wp (finish_metric reason) (\<lambda>_ t. core_inv t \<and> left i reason now_ns s t) (\<lambda>_ _. False)
      ((departed i p' ?c s)\<lparr>s_terminal := remembered (s_terminal s) (s_terminal_capacity s) x (reason_state reason)\<rparr>)"
    if kv: "kv_part p' (swap_remove i (s_requests s)) (s_prefix_cache s)" and same: "pool_same (s_pool s) p'" for p'
  proof (rule wp_weaken [OF metric], goal_cases)
    case (1 _ t)
    then show ?case using core_departed [OF inv i kv, of ?c] same id by (auto simp: metric_only_core left_def)
  qed simp
  show ?thesis
  proof (cases "is_waiting ?r")
    case True
    obtain k where k: "position (\<lambda>c. c = x) (s_waiting s) = Some k" using core_waiting_queue(1) [OF inv i True] id by auto
    have none: "rq_sequence ?r = None" using core_nth [OF inv i] True by (simp add: rec_ok_def)
    have kv: "kv_part (s_pool s) (swap_remove i (s_requests s)) (s_prefix_cache s)"
    proof (rule kv_part_drop)
      have "seqs (take i (s_requests s)) @ seqs (drop (Suc i) (s_requests s)) = seqs (s_requests s)"
        using none by (subst (3) id_take_nth_drop [OF i]) simp
      then show "kv_inv (s_pool s) (seqs (take i (s_requests s)) @ seqs (drop (Suc i) (s_requests s))) (ext_of (s_prefix_cache s))"
        using inv by (simp add: core_inv_def kv_part_def)
    qed (use inv i in \<open>auto simp: core_inv_def\<close>)
    have st: "(departed i (s_pool s) ?c s)\<lparr>s_terminal := ?tt\<rparr> = s\<lparr>s_waiting := remove1 x (s_waiting s),
        s_waiting_prompt_tokens := s_waiting_prompt_tokens s - length (prompt ?r),
        s_requests := swap_remove i (s_requests s), s_completion_outbox := s_completion_outbox s @ [?c], s_terminal := ?tt\<rparr>"
      using True id by (simp add: departed_def Let_def)
    show ?thesis
      using fin [OF kv] True core_waiting_queue(2) [OF inv i True] valid x k id remove1_position [OF k] unfolding st
      by (simp add: finish_live_request_def leave_queue_def wp_simps cap checked_sub_def Let_def)
  next
    case False
    note act = core_active [OF inv i False]
    obtain q where q: "rq_sequence ?r = Some q" using act(3) by blast
    have st: "(departed i p' ?c s)\<lparr>s_terminal := ?tt\<rparr> = s\<lparr>s_pool := p',
        s_active_sequences := s_active_sequences s - 1, s_promised_kv_blocks := s_promised_kv_blocks s - rq_promised_kv_blocks ?r,
        s_requests := swap_remove i (s_requests s), s_completion_outbox := s_completion_outbox s @ [?c], s_terminal := ?tt\<rparr>" for p'
      using False by (simp add: departed_def Let_def)
    have reset: "wp seq_close (\<lambda>_ (q', p'). kv_part p' (swap_remove i (s_requests s)) (s_prefix_cache s) \<and>
        pool_same (s_pool s) p') (\<lambda>_ _. False) (q, s_pool s)"
      unfolding seq_close_def
      by (rule wp_weaken [OF wp_seq_reset [OF core_kv(1,2) [OF inv i q]]])
        (auto intro: kv_drop_reset [OF inv i q] kv_step_same)
    have close: "wp (close_active x i now_ns) (\<lambda>_ t. \<exists>q' p'. t = s\<lparr>s_pool := p', s_requests := (s_requests s)[i := ?r\<lparr>rq_sequence := Some q'\<rparr>],
        s_active_sequences := s_active_sequences s - 1, s_promised_kv_blocks := s_promised_kv_blocks s - rq_promised_kv_blocks ?r\<rparr> \<and>
        kv_part p' (swap_remove i (s_requests s)) (s_prefix_cache s) \<and> pool_same (s_pool s) p') (\<lambda>_ _. False) s"
      unfolding close_active_def wp_withM Let_def q ok_or_eq using act(1,2)
      by (simp add: wp_simps checked_sub_def wp_on_sequence) (rule wp_weaken [OF reset]; auto intro!: exI)
    have "wp (close_active x i now_ns) (\<lambda>_. wp (bindM (retire_record i reason now_ns (reason_state reason))
        (\<lambda>_. finish_metric reason)) (\<lambda>_ t. core_inv t \<and> left i reason now_ns s t) (\<lambda>_ _. False)) (\<lambda>_ _. False) s"
    proof (rule wp_weaken [OF close], goal_cases)
      case (1 _ t)
      then obtain q' p' where t: "t = s\<lparr>s_pool := p', s_requests := (s_requests s)[i := ?r\<lparr>rq_sequence := Some q'\<rparr>],
        s_active_sequences := s_active_sequences s - 1, s_promised_kv_blocks := s_promised_kv_blocks s - rq_promised_kv_blocks ?r\<rparr>"
        and kv: "kv_part p' (swap_remove i (s_requests s)) (s_prefix_cache s)" "pool_same (s_pool s) p'" by blast
      show ?case unfolding t wp_bindM wp_retire_record using fin [OF kv] i id by (simp add: st)
    qed
    then show ?thesis using valid False x by (simp add: finish_live_request_def wp_simps cap Let_def)
  qed
qed

text \<open>What a departure leaves alone.\<close>

lemma left_fields:
  assumes "left i reason now_ns s t"
  shows "s_requests t = swap_remove i (s_requests s)"
    and "s_completion_outbox t = s_completion_outbox s @ [completion_of (s_requests s ! i) reason now_ns]"
    and "s_terminal t = remembered (s_terminal s) (s_terminal_capacity s) (rq_request_id (s_requests s ! i)) (reason_state reason)"
    and "s_waiting t = (if is_waiting (s_requests s ! i) then remove1 (rq_request_id (s_requests s ! i)) (s_waiting s) else s_waiting s)"
    and "s_config t = s_config s" "s_inflight t = s_inflight s" "s_prefix_cache t = s_prefix_cache s"
      "s_last_now_ns t = s_last_now_ns s" "s_accepting t = s_accepting s" "s_next_request_id t = s_next_request_id s"
      "s_completion_outbox_capacity t = s_completion_outbox_capacity s" "s_terminal_capacity t = s_terminal_capacity s"
      "s_next_iteration_id t = s_next_iteration_id s"
    and "pool_same (s_pool s) (s_pool t)"
  using assms by (auto simp: left_def metric_only_def departed_def Let_def)

lemma wp_force_reclaim:
  assumes inv: "core_inv s" and x: "record_index s x = Some i" and act: "\<not> is_waiting (s_requests s ! i)"
  shows "wp (force_reclaim_live_request x now_ns)
    (\<lambda>_ t. core_inv t \<and> left i ReasonExecutorFailure now_ns s t) (\<lambda>_ _. False) s"
proof -
  let ?r = "s_requests s ! i" and ?c = "completion_of (s_requests s ! i) ReasonExecutorFailure now_ns"
  let ?tt = "remembered (s_terminal s) (s_terminal_capacity s) x Failed"
  have i: "i < length (s_requests s)" and id: "rq_request_id ?r = x" using record_indexD [OF x] by auto
  have cap: "ensure_completion_capacity s (Suc 0) = Inr ()" by (rule core_capacity [OF inv]) (use i in simp)
  note counts = core_active [OF inv i act]
  obtain q where q: "rq_sequence ?r = Some q" using counts(3) by blast
  note kv = core_kv(3) [OF inv i q, unfolded seqs_at(4) [OF i q]]
  have st: "(departed i p' ?c s)\<lparr>s_terminal := ?tt\<rparr> = s\<lparr>s_pool := p',
      s_active_sequences := s_active_sequences s - 1, s_promised_kv_blocks := s_promised_kv_blocks s - rq_promised_kv_blocks ?r,
      s_requests := swap_remove i (s_requests s), s_completion_outbox := s_completion_outbox s @ [?c], s_terminal := ?tt\<rparr>" for p'
    using act by (simp add: departed_def Let_def)
  have fin: "wp (observe_metric record_failed) (\<lambda>_ t. core_inv t \<and> left i ReasonExecutorFailure now_ns s t) (\<lambda>_ _. False)
      ((departed i p' ?c s)\<lparr>s_terminal := ?tt\<rparr>)"
    if "kv_part p' (swap_remove i (s_requests s)) (s_prefix_cache s)" "pool_same (s_pool s) p'" for p'
    using core_departed [OF inv i that(1), of ?c] that(2) id
    by (intro wp_observe_metric) (auto simp: metric_only_core left_def)
  have "wp (reclaim_sequence (abandon_for_reclaim q)) (\<lambda>_ p'. kv_part p' (swap_remove i (s_requests s)) (s_prefix_cache s) \<and>
      pool_same (s_pool s) p') (\<lambda>_ _. False) (s_pool s)"
    by (rule wp_weaken [OF wp_reclaim_sequence [OF kv]])
      (use inv i in \<open>auto simp: core_inv_def intro: kv_part_drop\<close>)
  then have reclaim: "wp (reclaim_sequence (abandon_for_reclaim q)) (\<lambda>_ p'. wp (observe_metric record_failed)
      (\<lambda>_ t. core_inv t \<and> left i ReasonExecutorFailure now_ns s t) (\<lambda>_ _. False)
      (s\<lparr>s_pool := p', s_active_sequences := s_active_sequences s - 1,
        s_promised_kv_blocks := s_promised_kv_blocks s - rq_promised_kv_blocks ?r,
        s_requests := swap_remove i (s_requests s), s_completion_outbox := s_completion_outbox s @ [?c], s_terminal := ?tt\<rparr>))
      (\<lambda>_ _. False) (s_pool s)"
    by (rule wp_weaken) (use fin in \<open>simp_all add: st\<close>)
  show ?thesis
    unfolding force_reclaim_live_request_def wp_withM One_nat_def cap x ok_or_eq wp_bindM wp_tryM sum.case Let_def q wp_mod_request wp_on_spool wp_modM wp_retire_record
    using counts(1,2) i id by (simp add: checked_sub_def) (rule wp_weaken [OF reclaim]; simp)
qed

subsection \<open>Entering\<close>

lemma queue_length:
  assumes "queue_ok rs w" and "distinct (map rq_request_id rs)"
  shows "length rs = length w + active_count rs"
proof -
  have d: "distinct w" using assms(1) by (simp add: queue_ok_def strict_sorted_iff)
  have inj: "inj_on rq_request_id (set rs)" using assms(2) by (simp add: distinct_map)
  have "length w = card (set w)" using d by (simp add: distinct_card)
  also have "\<dots> = card {r \<in> set rs. is_waiting r}"
    using assms(1) inj by (simp add: queue_ok_def card_image inj_on_def)
  also have "\<dots> = length (filter is_waiting rs)"
    using assms(2) by (metis distinct_card distinct_filter distinct_map set_filter)
  finally have "length w = length (filter is_waiting rs)" .
  moreover have "length rs = length (filter is_waiting rs) + active_count rs" by (induction rs) auto
  ultimately show ?thesis by simp
qed

lemma core_length: "core_inv s \<Longrightarrow> length (s_requests s) = length (s_waiting s) + s_active_sequences s"
  using queue_length [of "s_requests s" "s_waiting s"] by (simp add: core_inv_def ids_ok_def)

lemma seqs_snoc: "seqs (rs @ [r]) = seqs rs @ (case rq_sequence r of None \<Rightarrow> [] | Some q \<Rightarrow> [q])"
  by (simp split: option.splits)

text \<open>A new record joins the table, waiting or active.\<close>

definition arrived :: "kv_block_pool \<Rightarrow> request_record \<Rightarrow> scheduler \<Rightarrow> scheduler" where
  "arrived p' r s = s\<lparr>s_pool := p', s_requests := s_requests s @ [r],
     s_waiting := (if is_waiting r then s_waiting s @ [rq_request_id r] else s_waiting s),
     s_waiting_prompt_tokens := s_waiting_prompt_tokens s + (if is_waiting r then length (prompt r) else 0),
     s_active_sequences := s_active_sequences s + (if is_waiting r then 0 else 1),
     s_promised_kv_blocks := s_promised_kv_blocks s + (if is_waiting r then 0 else rq_promised_kv_blocks r),
     s_next_request_id := s_next_request_id s + 1\<rparr>"

lemma core_arrived:
  assumes inv: "core_inv s" and idle: "s_completion_outbox s = []"
    and id: "rq_request_id r = RequestId (s_next_request_id s)" and r: "rec_ok (s_config s) r"
    and kv: "kv_part p' (s_requests s @ [r]) (s_prefix_cache s)"
    and wait: "is_waiting r \<Longrightarrow> length (s_waiting s) < max_waiting_requests (s_config s) \<and>
      s_waiting_prompt_tokens s + length (prompt r) \<le> max_waiting_prompt_tokens (s_config s)"
    and run: "\<not> is_waiting r \<Longrightarrow> s_active_sequences s < max_active_sequences (s_config s) \<and>
      s_promised_kv_blocks s + rq_promised_kv_blocks r \<le> max_promised_kv_blocks (s_config s)"
  shows "core_inv (arrived p' r s)"
proof -
  let ?rs = "s_requests s"
  have old: "\<forall>x\<in>set ?rs. request_value (rq_request_id x) < s_next_request_id s"
    using inv by (auto simp: core_inv_def ids_ok_def)
  have ids: "ids_ok (s_next_request_id s + 1) (?rs @ [r]) (s_completion_outbox s)"
  proof -
    have new: "rq_request_id r \<noteq> rq_request_id x" if "x \<in> set ?rs" for x
      using bspec [OF old that] id by (metis less_irrefl request_id.sel)
    have "distinct (map rq_request_id ?rs)" by (rule core_ids [OF inv])
    then show ?thesis using new old id idle by (auto simp: ids_ok_def less_Suc_eq)
  qed
  have q: "queue_ok (?rs @ [r]) (if is_waiting r then s_waiting s @ [rq_request_id r] else s_waiting s)"
  proof -
    have "\<forall>x\<in>set (s_waiting s). x < rq_request_id r"
      using inv old id by (auto simp: core_inv_def queue_ok_def less_request_id_def)
    then show ?thesis using inv by (auto simp: core_inv_def queue_ok_def sorted_wrt_append)
  qed
  have n: "length ?rs + 1 \<le> s_completion_outbox_capacity s"
    using core_length [OF inv] inv wait run by (cases "is_waiting r") (auto simp: core_inv_def)
  show ?thesis unfolding core_inv_def arrived_def
    using inv ids q kv r n idle wait run by (cases "is_waiting r") (auto simp: core_inv_def)
qed

text \<open>A fresh sequence at the end, and a fresh linked record around it.\<close>

lemma kv_part_fresh:
  assumes kv: "kv_part p rs cache" and inv: "kv_inv p' (seqs rs @ [q]) (ext_of cache)"
    and r: "rq_sequence r = Some q" "sq_shared_block_count q = 0" "rq_prefix_tip r = ROOT"
  shows "kv_part p' (rs @ [r]) cache"
proof -
  have "linked_ok cache r" using r by (auto simp: linked_ok_def link_ok_def intro!: exI [of _ "[]"] split: option.splits)
  then show ?thesis using kv inv r(1) by (simp add: kv_part_def)
qed

lemma kv_part_waiting:
  assumes "kv_part p rs cache" and "rq_sequence r = None" and "rq_prefix_tip r = ROOT"
  shows "kv_part p (rs @ [r]) cache"
  using assms by (auto simp: kv_part_def linked_ok_def split: option.splits)

lemma fresh_record_ok:
  assumes "validate_descriptor cfg d = Inr n" and "n \<le> u64_max"
  shows "rec_ok cfg (fresh_record x d t (div_ceil n KV_BLOCK_SIZE))" and "n = req_max (fresh_record x d t m)"
  using assms
  by (auto simp: validate_descriptor_def maximum_logical_length_def rec_ok_def fresh_record_def req_max_def checked_add_def
      split: if_splits)

lemma wp_reject: "wp (reject e) Q (\<lambda>_. quiet s) t" if "quiet s t" for t
  unfolding reject_def wp_bindM by (rule wp_observe_metric) (simp add: wp_simps quiet_metric [OF that])

lemma wp_advance_request_id [wp_simps]:
  "s_next_request_id s + 1 \<le> u64_max \<Longrightarrow> wp advance_request_id Q E s = Q () (s\<lparr>s_next_request_id := s_next_request_id s + 1\<rparr>)"
  by (simp add: advance_request_id_def wp_simps checked_add_def)

lemma peek_request_id_Inr:
  "peek_request_id s = Inr x \<longleftrightarrow> s_next_request_id s + 1 \<le> u64_max \<and> s_next_request_id s \<noteq> 0 \<and> x = RequestId (s_next_request_id s)"
  by (auto simp: peek_request_id_def checked_add_def request_id_new_def)

text \<open>What \<open>submit\<close> adds: the fresh record, waiting or, with a fresh sequence, admitted.\<close>

definition submitted :: "request_descriptor \<Rightarrow> u64 \<Rightarrow> scheduler \<Rightarrow> scheduler \<Rightarrow> request_record \<Rightarrow> bool" where
  "submitted d now_ns s t r \<longleftrightarrow>
     (let fresh = fresh_record (RequestId (s_next_request_id s)) d now_ns
        (div_ceil (length (rd_prompt_token_ids d) + (rd_max_new_tokens d - 1)) KV_BLOCK_SIZE) in
      (r = fresh \<or> (\<exists>q. r = fresh\<lparr>rq_state := Admitted, rq_sequence := Some q\<rparr> \<and> s_waiting s = [] \<and>
         sq_logical_length q = 0 \<and> sq_pending q = None \<and> \<not> sq_poisoned q \<and> sq_shared_block_count q = 0)) \<and>
      (\<exists>n. quiet (arrived ((s_pool s)\<lparr>kp_next_sequence_id := n\<rparr>) r s) t))"

lemma wp_admit_record:
  assumes inv: "core_inv s" and fresh: "r = fresh_record x d now_ns m" and ok: "rec_ok (s_config s) r"
    and max: "n = req_max r" and can: "can_admit s m"
  shows "wp (admit_record env r n now_ns)
    (\<lambda>r' t. \<exists>q k. r' = r\<lparr>rq_state := Admitted, rq_sequence := Some q\<rparr> \<and>
       kv_inv ((s_pool s)\<lparr>kp_next_sequence_id := k\<rparr>) (seqs (s_requests s) @ [q]) (ext_of (s_prefix_cache s)) \<and>
       sq_maximum_logical_length q = n \<and> sq_logical_length q = 0 \<and> sq_pending q = None \<and> \<not> sq_poisoned q \<and>
       sq_shared_block_count q = 0 \<and>
       metric_only (s\<lparr>s_pool := (s_pool s)\<lparr>kp_next_sequence_id := k\<rparr>, s_active_sequences := s_active_sequences s + 1,
         s_promised_kv_blocks := s_promised_kv_blocks s + rq_promised_kv_blocks r\<rparr>) t)
    (\<lambda>_ t. t = s) s"
proof -
  have kv: "kv_inv (s_pool s) (seqs (s_requests s)) (ext_of (s_prefix_cache s))"
    using inv by (simp add: core_inv_def kv_part_def)
  have lim: "s_active_sequences s + 1 \<le> u64_max" "s_promised_kv_blocks s + m \<le> u64_max"
    using inv can by (auto simp: core_inv_def can_admit_def checked_add_def split: if_splits)
  have m: "rq_promised_kv_blocks r = m" and tr: "transition r Admitted = Inr (r\<lparr>rq_state := Admitted\<rparr>)"
    and ready: "rq_ready_since_ns r = now_ns"
    by (simp_all add: fresh fresh_record_def transition_def valid_transition_def)
  show ?thesis unfolding admit_record_def wp_bindM wp_on_spool
  proof (rule wp_weaken [OF wp_create_sequence [OF kv]], goal_cases)
    case (1 q p')
    have "r\<lparr>rq_state := Admitted, rq_sequence := Some q, rq_ready_since_ns := now_ns\<rparr> =
        r\<lparr>rq_state := Admitted, rq_sequence := Some q\<rparr>" using ready by simp
    then show ?case using 1 lim m tr
      by (auto simp: wp_simps Let_def checked_add_def intro!: wp_observe_metric exI)
  qed simp
qed

lemma validate_waiting_capacity_wp:
  assumes "quiet s t"
  shows "wp (validate_waiting_capacity n) (\<lambda>_ u. u = t \<and> length (s_waiting s) < max_waiting_requests (s_config s) \<and>
     s_waiting_prompt_tokens s + n \<le> max_waiting_prompt_tokens (s_config s) \<and> s_waiting_prompt_tokens s + n \<le> u64_max) (\<lambda>_. quiet s) t"
proof -
  have eq: "s_waiting t = s_waiting s" "s_waiting_prompt_tokens t = s_waiting_prompt_tokens s" "s_config t = s_config s"
    using assms by (auto simp: quiet_def metric_only_def)
  show ?thesis unfolding validate_waiting_capacity_def wp_withM
    using wp_reject [OF assms] assms by (auto simp: wp_simps eq checked_add_def)
qed

lemma copy_tokens_Inr: "copy_tokens env resource tokens = Inr tokens' \<Longrightarrow> tokens' = tokens"
  by (auto simp: copy_tokens_def)

text \<open>The second half of \<open>submit\<close>, once the request may enter.\<close>

lemma submit_enter:
  assumes inv: "core_inv s" and idle: "s_completion_outbox s = []"
    and d: "validate_descriptor (s_config s) d = Inr n" and id: "peek_request_id s = Inr x"
    and admit: "admit \<Longrightarrow> can_admit s (div_ceil n KV_BLOCK_SIZE) \<and> s_waiting s = []"
    and wait: "\<not> admit \<Longrightarrow> length (s_waiting s) < max_waiting_requests (s_config s) \<and>
      s_waiting_prompt_tokens s + length (rd_prompt_token_ids d) \<le> max_waiting_prompt_tokens (s_config s) \<and>
      s_waiting_prompt_tokens s + length (rd_prompt_token_ids d) \<le> u64_max"
    and r_def: "r = fresh_record x d now_ns (div_ceil n KV_BLOCK_SIZE)" and clock: "clock_le (s_last_now_ns s) (Some now_ns)"
  shows "wp (bindM (if admit then admit_record env r n now_ns else enqueue_waiting r) (\<lambda>r.
     bindM (modM (\<lambda>s. s\<lparr>s_requests := s_requests s @ [r]\<rparr>)) (\<lambda>_.
     bindM advance_request_id (\<lambda>_.
     bindM (observe_metric record_submission) (\<lambda>_.
     bindM (refresh_metric_gauges env) (\<lambda>_.
     ret sub))))))
    (\<lambda>y t. y = sub \<and> core_inv t \<and> (\<exists>r'. submitted d now_ns s t r' \<and> rq_state r' = (if admit then Admitted else Waiting)))
    (\<lambda>_. quiet s) (s\<lparr>s_last_now_ns := Some now_ns\<rparr>)"
proof -
  let ?s = "s\<lparr>s_last_now_ns := Some now_ns\<rparr>"
  have x: "x = RequestId (s_next_request_id s)" "s_next_request_id s + 1 \<le> u64_max" using id by (auto simp: peek_request_id_Inr)
  have n: "n = length (rd_prompt_token_ids d) + (rd_max_new_tokens d - 1)" "n \<le> u64_max"
    using d by (auto simp: validate_descriptor_def maximum_logical_length_def checked_add_def split: if_splits)
  note ok = fresh_record_ok [OF d n(2), of x now_ns]
  have r: "rq_request_id r = x" "is_waiting r" "prompt r = rd_prompt_token_ids d" "rq_sequence r = None" "rq_prefix_tip r = ROOT"
    "rq_promised_kv_blocks r = div_ceil n KV_BLOCK_SIZE" "rec_ok (s_config s) r" "n = req_max r"
    using ok by (simp_all add: r_def fresh_record_def)
  have kv: "kv_part (s_pool s) (s_requests s) (s_prefix_cache s)" using inv by (simp add: core_inv_def)
  have tail: "wp (bindM (modM (\<lambda>s. s\<lparr>s_requests := s_requests s @ [r']\<rparr>)) (\<lambda>_.
     bindM advance_request_id (\<lambda>_.
     bindM (observe_metric record_submission) (\<lambda>_.
     bindM (refresh_metric_gauges env) (\<lambda>_.
     ret sub)))))
    (\<lambda>y t. y = sub \<and> core_inv t \<and> submitted d now_ns s t r') (\<lambda>_. quiet s) t"
    if core: "core_inv (arrived p' r' s)" and p': "p' = (s_pool s)\<lparr>kp_next_sequence_id := k\<rparr>"
      and t: "metric_only (u\<lparr>s_last_now_ns := Some now_ns\<rparr>) t"
      and u: "u\<lparr>s_requests := s_requests s @ [r'], s_next_request_id := s_next_request_id s + 1\<rparr> = arrived p' r' s"
      and r': "r' = r \<or> (\<exists>q. r' = r\<lparr>rq_state := Admitted, rq_sequence := Some q\<rparr> \<and> s_waiting s = [] \<and>
         sq_logical_length q = 0 \<and> sq_pending q = None \<and> \<not> sq_poisoned q \<and> sq_shared_block_count q = 0)"
      and same: "s_requests u = s_requests s" "s_next_request_id u = s_next_request_id s" for r' p' k u t
  proof -
    have t': "s_requests t = s_requests s" "s_next_request_id t = s_next_request_id s"
      using t same by (auto simp: metric_only_def)
    have "metric_only ((arrived p' r' s)\<lparr>s_last_now_ns := Some now_ns\<rparr>)
        (t\<lparr>s_requests := s_requests s @ [r'], s_next_request_id := s_next_request_id s + 1\<rparr>)"
    proof -
      obtain m b where "t = u\<lparr>s_last_now_ns := Some now_ns, s_metrics := m, s_metrics_degraded := b\<rparr>"
        using t unfolding metric_only_def by blast
      then show ?thesis unfolding u [symmetric] by (simp add: metric_only_iff)
    qed
    then have "quiet (arrived p' r' s) (t\<lparr>s_requests := s_requests s @ [r'], s_next_request_id := s_next_request_id s + 1\<rparr>)"
      unfolding quiet_def using clock by (auto simp: arrived_def)
    then have fin: "core_inv v \<and> submitted d now_ns s v r'"
      if "metric_only (t\<lparr>s_requests := s_requests s @ [r'], s_next_request_id := s_next_request_id s + 1\<rparr>) v" for v
      using quiet_metric [OF _ that] core r' p' x(1)
      unfolding submitted_def Let_def r_def n(1) [symmetric] by (metis quiet_core)
    have adv: "wp advance_request_id Q E (t\<lparr>s_requests := X\<rparr>) =
        Q () (t\<lparr>s_requests := X, s_next_request_id := s_next_request_id s + 1\<rparr>)" for X Q and E :: "scheduler_error \<Rightarrow> scheduler \<Rightarrow> bool"
      using wp_advance_request_id [of "t\<lparr>s_requests := X\<rparr>" Q E] x(2) t'(2) by simp
    show ?thesis
      unfolding wp_bindM wp_modM t' adv
      by (intro wp_observe_metric wp_refresh_metric_gauges) (simp only: wp_ret simp_thms, rule fin, erule (1) metric_only_trans)
  qed
  show ?thesis
  proof (cases admit)
    case True
    have inv': "core_inv ?s" and can: "can_admit ?s (div_ceil n KV_BLOCK_SIZE)" using inv admit True by (simp_all add: can_admit_def cong: option.case_cong)
    have rok: "rec_ok (s_config ?s) r" using r(7) by simp
    show ?thesis unfolding if_P [OF True]
    proof (rule wp_callI [OF wp_admit_record [OF inv' r_def rok r(8) can]], goal_cases)
      case (2 r' t)
      then obtain q k where r': "r' = r\<lparr>rq_state := Admitted, rq_sequence := Some q\<rparr>"
        and kvi: "kv_inv ((s_pool s)\<lparr>kp_next_sequence_id := k\<rparr>) (seqs (s_requests s) @ [q]) (ext_of (s_prefix_cache s))"
        and q: "sq_maximum_logical_length q = n" "sq_logical_length q = 0" "sq_pending q = None" "\<not> sq_poisoned q" "sq_shared_block_count q = 0"
        and t: "metric_only (?s\<lparr>s_pool := (s_pool s)\<lparr>kp_next_sequence_id := k\<rparr>, s_active_sequences := s_active_sequences s + 1,
         s_promised_kv_blocks := s_promised_kv_blocks s + rq_promised_kv_blocks r\<rparr>) t" by auto
      let ?p = "(s_pool s)\<lparr>kp_next_sequence_id := k\<rparr>"
      let ?u = "s\<lparr>s_pool := ?p, s_active_sequences := s_active_sequences s + 1,
         s_promised_kv_blocks := s_promised_kv_blocks s + rq_promised_kv_blocks r\<rparr>"
      have ok': "rec_ok (s_config s) r'" using r q(1) by (simp add: r' rec_ok_def)
      have "kv_part ?p (s_requests s @ [r']) (s_prefix_cache s)"
        by (rule kv_part_fresh [OF kv kvi]) (use r r' q in simp_all)
      then have core: "core_inv (arrived ?p r' s)"
        using r r' x ok' admit True inv
        by (intro core_arrived [OF inv idle]) (auto simp: can_admit_def checked_add_def split: if_splits)
      have eq: "?s\<lparr>s_pool := ?p, s_active_sequences := s_active_sequences s + 1,
         s_promised_kv_blocks := s_promised_kv_blocks s + rq_promised_kv_blocks r\<rparr> = ?u\<lparr>s_last_now_ns := Some now_ns\<rparr>" by simp
      have t': "metric_only (?u\<lparr>s_last_now_ns := Some now_ns\<rparr>) t" using t unfolding eq .
      show ?case
        by (rule wp_weaken [OF tail [OF core refl t']]) (use r' q admit True in \<open>auto simp: arrived_def\<close>)
    qed (simp add: quiet_clock clock)
  next
    case False
    have ok: "s_waiting_prompt_tokens s + length (prompt r) \<le> u64_max" using wait False r(3) by simp
    have core: "core_inv (arrived (s_pool s) r s)"
      by (rule core_arrived [OF inv idle]) (use r x wait False kv in \<open>auto intro: kv_part_waiting\<close>)
    let ?u = "s\<lparr>s_waiting_prompt_tokens := s_waiting_prompt_tokens s + length (prompt r), s_waiting := s_waiting s @ [rq_request_id r]\<rparr>"
    have p: "s_pool s = (s_pool s)\<lparr>kp_next_sequence_id := kp_next_sequence_id (s_pool s)\<rparr>" by simp
    have enq: "wp (enqueue_waiting r) (\<lambda>r' t. r' = r \<and> t = ?u\<lparr>s_last_now_ns := Some now_ns\<rparr>) (\<lambda>_ _. False) ?s"
      using ok by (simp add: enqueue_waiting_def wp_simps checked_add_def)
    show ?thesis unfolding if_not_P [OF False]
      by (rule wp_callI [OF enq], simp, elim conjE, simp only:, rule wp_weaken [OF tail [OF core p, of ?u]])
        (use r(2) False in \<open>auto simp: arrived_def\<close>)
  qed
qed

lemma wp_submit:
  assumes inv: "core_inv s"
  shows "wp (submit env d now_ns)
    (\<lambda>sub t. core_inv t \<and> s_completion_outbox s = [] \<and> s_accepting s \<and> sub_request_id sub = RequestId (s_next_request_id s) \<and>
       (\<exists>r'. submitted d now_ns s t r' \<and> sub_state sub = rq_state r')) (\<lambda>_. quiet s) s"
proof -
  let ?s = "s\<lparr>s_last_now_ns := Some now_ns\<rparr>"
  have sel: "\<lparr>rd_prompt_token_ids = rd_prompt_token_ids d, rd_max_new_tokens = rd_max_new_tokens d\<rparr> = d" by simp
  show ?thesis unfolding submit_def wp_withM
  proof (intro wp_guards, goal_cases)
    case a: (3 u)
    then have idle: "s_completion_outbox s = []" by (simp add: ensure_completion_backlog_empty_def failE_def split: if_splits)
    have "wp (observe_now now_ns) (\<lambda>_ t. t = ?s \<and> clock_le (s_last_now_ns s) (Some now_ns)) (\<lambda>_. quiet s) s"
      by (auto simp: wp_simps clock_checked split: sum.splits)
    then show ?case
    proof (rule wp_callI, goal_cases)
      case (2 _ t)
      then have tt: "t = ?s" and clock: "clock_le (s_last_now_ns s) (Some now_ns)" by auto
      have q: "quiet s ?s" by (rule quiet_clock [OF clock])
      show ?case unfolding tt Let_def
      proof (intro wp_guards, goal_cases)
        case d: (2 n)
        show ?case
        proof (cases "max_promised_kv_blocks (s_config s) < div_ceil n KV_BLOCK_SIZE")
          case True
          then show ?thesis using wp_reject [OF q] by simp
        next
          case False
          note fits = this
          let ?admit = "s_waiting s = [] \<and> can_admit s (div_ceil n KV_BLOCK_SIZE)"
          show ?thesis
          proof (cases "\<not> ?admit \<and> config_overload_policy (s_config s) = RejectImmediately")
            case True
            then show ?thesis using fits wp_reject [OF q] by simp
          next
            case False
            have cap: "wp (if ?admit then ret () else validate_waiting_capacity (length (rd_prompt_token_ids d)))
              (\<lambda>_ t. t = ?s \<and> (\<not> ?admit \<longrightarrow> length (s_waiting s) < max_waiting_requests (s_config s) \<and>
                s_waiting_prompt_tokens s + length (rd_prompt_token_ids d) \<le> max_waiting_prompt_tokens (s_config s) \<and>
                s_waiting_prompt_tokens s + length (rd_prompt_token_ids d) \<le> u64_max)) (\<lambda>_. quiet s) ?s"
              using validate_waiting_capacity_wp [OF q] by (auto simp: wp_ret elim!: wp_weaken)
            show ?thesis unfolding if_not_P [OF fits] if_not_P [OF False]
            proof (rule wp_callI [OF cap], goal_cases)
              case c: (2 _ t)
              show ?case unfolding conjunct1 [OF c]
              proof (intro wp_guards, goal_cases)
                case k: (3 tokens x)
                then have tk: "tokens = rd_prompt_token_ids d" using copy_tokens_Inr by blast
                have x: "x = RequestId (s_next_request_id s)" using k(2) by (simp add: peek_request_id_Inr)
                have enter: "wp (bindM (if ?admit then admit_record env r n now_ns else enqueue_waiting r) (\<lambda>r.
                    bindM (modM (\<lambda>s. s\<lparr>s_requests := s_requests s @ [r]\<rparr>)) (\<lambda>_.
                    bindM advance_request_id (\<lambda>_.
                    bindM (observe_metric record_submission) (\<lambda>_.
                    bindM (refresh_metric_gauges env) (\<lambda>_.
                    ret \<lparr>sub_request_id = x, sub_state = (if ?admit then Admitted else Waiting)\<rparr>))))))
                  (\<lambda>sub t. core_inv t \<and> s_completion_outbox s = [] \<and> s_accepting s \<and> sub_request_id sub = RequestId (s_next_request_id s) \<and>
                     (\<exists>r'. submitted d now_ns s t r' \<and> sub_state sub = rq_state r')) (\<lambda>_. quiet s) ?s"
                  if "r = fresh_record x d now_ns (div_ceil n KV_BLOCK_SIZE)" for r
                  by (rule wp_weaken [OF submit_enter [OF inv idle d k(2) _ _ that clock]]) (use c idle a x in auto)
                show ?case unfolding wp_bindM [of "reserve _ _ _"] wp_reserve tk sel request_descriptor.simps
                  using enter [OF refl] q by (auto simp del: wp_bindM split: sum.splits)
              qed (use q in auto)
            qed simp
          qed
        qed
      qed (use q in auto)
    qed simp
  qed simp_all
qed

subsection \<open>The waiting queue\<close>

definition same_frame :: "scheduler \<Rightarrow> scheduler \<Rightarrow> bool" where
  "same_frame s t \<longleftrightarrow> s_config t = s_config s \<and> s_inflight t = s_inflight s \<and> s_prefix_cache t = s_prefix_cache s \<and>
     s_last_now_ns t = s_last_now_ns s \<and> s_accepting t = s_accepting s \<and> s_next_request_id t = s_next_request_id s \<and>
     s_next_iteration_id t = s_next_iteration_id s \<and> s_completion_outbox_capacity t = s_completion_outbox_capacity s \<and>
     s_terminal_capacity t = s_terminal_capacity s \<and> s_prefill_plateau t = s_prefill_plateau s \<and>
     s_atomic_prefill_chunks t = s_atomic_prefill_chunks s \<and> s_prefill_coalescing t = s_prefill_coalescing s \<and>
     s_prefill_burst t = s_prefill_burst s \<and> s_aging_override_last_iteration t = s_aging_override_last_iteration s"

lemma same_frame_refl [simp]: "same_frame s s"
  by (simp add: same_frame_def)

lemma same_frame_trans: "same_frame s t \<Longrightarrow> same_frame t u \<Longrightarrow> same_frame s u"
  by (simp add: same_frame_def)

lemma same_frame_metric: "metric_only s t \<Longrightarrow> same_frame s t"
  by (auto simp: metric_only_def same_frame_def)

lemma left_frame: "left i reason now_ns s t \<Longrightarrow> same_frame s t"
  by (auto simp: left_def metric_only_def departed_def Let_def same_frame_def)

text \<open>Only waiting requests went.\<close>

definition thinned :: "scheduler \<Rightarrow> scheduler \<Rightarrow> bool" where
  "thinned s t \<longleftrightarrow> same_frame s t \<and> set (s_requests t) \<subseteq> set (s_requests s) \<and>
     (\<forall>r\<in>set (s_requests s). \<not> is_waiting r \<longrightarrow> r \<in> set (s_requests t)) \<and>
     (\<exists>new. s_completion_outbox t = s_completion_outbox s @ new)"

lemma thinned_refl [simp]: "thinned s s"
  by (simp add: thinned_def)

lemma thinned_trans: "thinned s t \<Longrightarrow> thinned t u \<Longrightarrow> thinned s u"
  by (fastforce simp: thinned_def intro: same_frame_trans)

lemma left_thinned:
  assumes "left i reason now_ns s t" and "i < length (s_requests s)" and "is_waiting (s_requests s ! i)"
  shows "thinned s t"
proof -
  have eq: "set (s_requests s) = insert (s_requests s ! i) (set (s_requests t))"
    using left_fields(1) [OF assms(1)] swap_remove_set [OF assms(2)] by simp
  show ?thesis unfolding thinned_def eq
    using left_frame [OF assms(1)] left_fields(2) [OF assms(1)] assms(3) by auto
qed

lemma metric_thinned: "metric_only s t \<Longrightarrow> thinned s t"
  by (auto simp: thinned_def same_frame_metric) (auto simp: metric_only_def)

lemma core_queue_head:
  assumes inv: "core_inv s" and w: "s_waiting s = x # w"
  obtains i where "record_index s x = Some i" and "i < length (s_requests s)" and "is_waiting (s_requests s ! i)"
    and "rq_request_id (s_requests s ! i) = x"
proof -
  have "x \<in> rq_request_id ` {r \<in> set (s_requests s). is_waiting r}"
    using inv w unfolding core_inv_def queue_ok_def by (metis list.set_intros(1))
  then obtain j where j: "j < length (s_requests s)" "is_waiting (s_requests s ! j)" "rq_request_id (s_requests s ! j) = x"
    by (auto simp: in_set_conv_nth)
  then show ?thesis using that record_index_of [OF core_ids [OF inv] j(1)] by simp
qed

lemma wp_expire_loop:
  assumes "core_inv s" and "length (s_waiting s) \<le> fuel"
  shows "wp (expire_loop fuel timeout_ns now_ns) (\<lambda>_ t. core_inv t \<and> thinned s t) (\<lambda>_ _. False) s"
  using assms
proof (induction fuel arbitrary: s)
  case 0
  then show ?case by (simp add: expire_loop.simps wp_simps)
next
  case (Suc fuel)
  show ?case
  proof (cases "s_waiting s")
    case Nil
    then show ?thesis using Suc.prems by (simp add: expire_loop.simps [of "Suc fuel"] wp_simps)
  next
    case (Cons x w)
    obtain i where i: "record_index s x = Some i" "i < length (s_requests s)" "is_waiting (s_requests s ! i)"
      "rq_request_id (s_requests s ! i) = x" by (rule core_queue_head [OF Suc.prems(1) Cons])
    have valid: "valid_transition (rq_state (s_requests s ! i)) (reason_state ReasonAdmissionTimeout)"
      using i(3) by (simp add: valid_transition_def)
    have "wp (bindM (finish_live_request x ReasonAdmissionTimeout now_ns) (\<lambda>_.
        bindM (observe_metric record_admission_timeout) (\<lambda>_. expire_loop fuel timeout_ns now_ns)))
      (\<lambda>_ t. core_inv t \<and> thinned s t) (\<lambda>_ _. False) s"
    proof (rule wp_callI [OF wp_finish_live_request [OF Suc.prems(1) i(1) valid]], goal_cases)
      case (2 _ t)
      then have t: "core_inv t" "left i ReasonAdmissionTimeout now_ns s t" by auto
      have th: "thinned s t" by (rule left_thinned [OF t(2) i(2,3)])
      have wt: "s_waiting t = w" using left_fields(4) [OF t(2)] i(3,4) Cons by simp
      show ?case unfolding wp_bindM
      proof (rule wp_observe_metric)
        fix u assume u: "metric_only t u"
        then have "core_inv u" "length (s_waiting u) \<le> fuel" "thinned s u"
          using t(1) wt Cons Suc.prems(2) thinned_trans [OF th metric_thinned [OF u]] by (auto simp: metric_only_core metric_only_def)
        then show "wp (expire_loop fuel timeout_ns now_ns) (\<lambda>_ t. core_inv t \<and> thinned s t) (\<lambda>_ _. False) u"
          by (intro wp_weaken [OF Suc.IH]) (auto intro: thinned_trans)
      qed
    qed simp
    then show ?thesis using Cons i(1) Suc.prems(1)
      by (simp add: expire_loop.simps [of "Suc fuel"] wp_withM wp_tryM wp_if wp_ret wp_bindM [of "tryM _"])
  qed
qed

lemma wp_expire_waiting:
  assumes "core_inv s"
  shows "wp (expire_waiting now_ns) (\<lambda>_ t. core_inv t \<and> thinned s t) (\<lambda>_ _. False) s"
  unfolding expire_waiting_def wp_withM
  using wp_expire_loop [OF assms order_refl] assms by (simp add: wp_simps split: option.splits)

text \<open>A request moves from the front of the queue to the active set.\<close>

definition admitted :: "u64 \<Rightarrow> request_record \<Rightarrow> request_record \<Rightarrow> bool" where
  "admitted now_ns r r' \<longleftrightarrow> is_waiting r \<and> (\<exists>q. r' = r\<lparr>rq_state := Admitted, rq_sequence := Some q, rq_ready_since_ns := now_ns\<rparr> \<and>
     sq_maximum_logical_length q = req_max r \<and> sq_logical_length q = 0 \<and> sq_pending q = None \<and> \<not> sq_poisoned q \<and>
     sq_shared_block_count q = 0)"

lemma queue_pop:
  assumes q: "queue_ok rs (x # w)" and i: "i < length rs" "rq_request_id (rs ! i) = x" and d: "distinct (map rq_request_id rs)"
    and r': "rq_request_id r' = x" "\<not> is_waiting r'"
  shows "queue_ok (rs[i := r']) w"
proof -
  have srt: "sorted_wrt (<) (x # w)" using q by (simp add: queue_ok_def)
  then have xw: "x \<notin> set w" by auto
  have "set w = rq_request_id ` {r \<in> set (rs[i := r']). is_waiting r}"
  proof (intro set_eqI iffI)
    fix y assume y: "y \<in> set w"
    then have "y \<in> rq_request_id ` {r \<in> set rs. is_waiting r}" using q unfolding queue_ok_def by auto
    then obtain j where j: "j < length rs" "is_waiting (rs ! j)" "rq_request_id (rs ! j) = y" by (auto simp: in_set_conv_nth)
    then have "j \<noteq> i" using y xw i(2) by auto
    moreover have "rs[i := r'] ! j \<in> set (rs[i := r'])" by (rule nth_mem) (use j(1) in simp)
    ultimately have "rs ! j \<in> set (rs[i := r'])" by simp
    then show "y \<in> rq_request_id ` {r \<in> set (rs[i := r']). is_waiting r}" using j by force
  next
    fix y assume "y \<in> rq_request_id ` {r \<in> set (rs[i := r']). is_waiting r}"
    then obtain j where j: "j < length rs" "is_waiting (rs[i := r'] ! j)" "rq_request_id (rs[i := r'] ! j) = y"
      by (auto simp: in_set_conv_nth)
    then have "j \<noteq> i" using r'(2) by auto
    then have jj: "is_waiting (rs ! j)" "rq_request_id (rs ! j) = y" using j by simp_all
    then have "y \<in> set (x # w)" using q j(1) unfolding queue_ok_def by force
    moreover have "y \<noteq> x" using d i j(1) jj(2) \<open>j \<noteq> i\<close> by (metis distinct_conv_nth length_map nth_map)
    ultimately show "y \<in> set w" by simp
  qed
  then show ?thesis using srt by (simp add: queue_ok_def)
qed

lemma core_admitted:
  assumes inv: "core_inv s" and w: "s_waiting s = x # w" and i: "i < length (s_requests s)" "rq_request_id (s_requests s ! i) = x"
    and ad: "admitted now_ns (s_requests s ! i) r'" and can: "can_admit s (rq_promised_kv_blocks (s_requests s ! i))"
    and kv: "kv_inv p' (seqs ((s_requests s)[i := r'])) (ext_of (s_prefix_cache s))"
  shows "core_inv (s\<lparr>s_pool := p', s_waiting := w,
     s_waiting_prompt_tokens := s_waiting_prompt_tokens s - length (prompt (s_requests s ! i)),
     s_active_sequences := s_active_sequences s + 1,
     s_promised_kv_blocks := s_promised_kv_blocks s + rq_promised_kv_blocks (s_requests s ! i),
     s_requests := (s_requests s)[i := r']\<rparr>)"
proof -
  let ?rs = "s_requests s" and ?r = "s_requests s ! i" and ?ss = "(s_requests s)[i := r']"
  have wait: "is_waiting ?r" and r': "rq_request_id r' = x" "\<not> is_waiting r'" "prompt r' = prompt ?r"
    "rq_promised_kv_blocks r' = rq_promised_kv_blocks ?r" using ad i(2) by (auto simp: admitted_def)
  have ok: "rec_ok (s_config s) ?r" by (rule core_nth [OF inv i(1)])
  have ok': "rec_ok (s_config s) r'" using ok ad by (auto simp: rec_ok_def admitted_def)
  have recs: "\<forall>r\<in>set ?ss. rec_ok (s_config s) r"
    using inv ok' set_update_subset_insert [of ?rs i r'] by (auto simp: core_inv_def)
  have d: "distinct (map rq_request_id ?rs)" by (rule core_ids [OF inv])
  have "map rq_request_id ?ss = map rq_request_id ?rs"
    using i r'(1) by (simp add: map_update list_update_id2)
  then have ids: "ids_ok (s_next_request_id s) ?ss (s_completion_outbox s)"
    using inv unfolding core_inv_def ids_ok_def by simp
  have q: "queue_ok ?ss w" using queue_pop [OF _ i d r'(1,2)] inv w by (simp add: core_inv_def)
  have link: "linked_ok (s_prefix_cache s) r'"
    using ad ok by (auto simp: linked_ok_def link_ok_def admitted_def rec_ok_def intro!: exI [of _ "[]"] split: option.splits)
  have kvp: "kv_part p' ?ss (s_prefix_cache s)"
    using inv kv link set_update_subset_insert [of ?rs i r'] by (auto simp: core_inv_def kv_part_def)
  note su = sum_list_update [OF i(1), where y = r']
  have sums: "waiting_tokens ?ss + length (prompt ?r) = waiting_tokens ?rs" "active_count ?ss = active_count ?rs + 1"
    "promised_blocks ?ss = promised_blocks ?rs + rq_promised_kv_blocks ?r"
    using su [of "\<lambda>r. if is_waiting r then length (prompt r) else 0"] su [of "\<lambda>r. if is_waiting r then 0 else 1"]
      su [of "\<lambda>r. if is_waiting r then 0 else rq_promised_kv_blocks r"] wait r' by simp_all
  then have "waiting_tokens ?ss = s_waiting_prompt_tokens s - length (prompt ?r)" "s_waiting_prompt_tokens s = waiting_tokens ?rs"
    using inv by (simp_all add: core_inv_def)
  with sums show ?thesis using inv recs ids q kvp can w unfolding core_inv_def
    by (auto simp: can_admit_def checked_add_def split: if_splits)
qed

text \<open>Records that were admitted, the rest unchanged.\<close>

definition promoted :: "u64 \<Rightarrow> scheduler \<Rightarrow> scheduler \<Rightarrow> bool" where
  "promoted now_ns s t \<longleftrightarrow> same_frame s t \<and> s_completion_outbox t = s_completion_outbox s \<and>
     list_all2 (\<lambda>r r'. r' = r \<or> admitted now_ns r r') (s_requests s) (s_requests t)"

lemma promoted_refl [simp]: "promoted now_ns s s"
  by (simp add: promoted_def list_all2_refl)

lemma promoted_trans: "promoted n s t \<Longrightarrow> promoted n t u \<Longrightarrow> promoted n s u"
proof -
  assume st: "promoted n s t" and tu: "promoted n t u"
  let ?R = "\<lambda>r r'. r' = r \<or> admitted n r r'"
  have "list_all2 ?R (s_requests s) (s_requests u)"
    by (rule list_all2_trans [of ?R ?R, OF _ _ _]) (use st tu in \<open>auto simp: promoted_def admitted_def\<close>)
  then show ?thesis using st tu by (auto simp: promoted_def intro: same_frame_trans)
qed

lemma promoted_metric: "metric_only s t \<Longrightarrow> promoted n s t"
  by (auto simp: promoted_def same_frame_metric) (auto simp: metric_only_def list_all2_refl)

lemma seqs_insert_perm:
  assumes "i < length rs" and "rq_sequence (rs ! i) = None" and "rq_sequence r' = Some q"
  shows "mset (seqs (rs[i := r'])) = mset (seqs rs @ [q])"
proof -
  have "seqs rs = seqs (take i rs) @ seqs (drop (Suc i) rs)"
    using assms(2) by (subst id_take_nth_drop [OF assms(1)]) simp
  then show ?thesis using assms(3) by (simp add: upd_conv_take_nth_drop [OF assms(1)])
qed

lemma wp_admit_front:
  assumes inv: "core_inv s" and w: "s_waiting s = x # w" and i: "i < length (s_requests s)" "rq_request_id (s_requests s ! i) = x"
    and wait: "is_waiting (s_requests s ! i)" and can: "can_admit s (rq_promised_kv_blocks (s_requests s ! i))"
  shows "wp (admit_front env i now_ns) (\<lambda>_ t. core_inv t \<and> promoted now_ns s t \<and> s_waiting t = w) (\<lambda>_ t. t = s) s"
proof -
  let ?r = "s_requests s ! i"
  have ok: "rec_ok (s_config s) ?r" by (rule core_nth [OF inv i(1)])
  have max: "maximum_logical_length (rq_descriptor ?r) = Inr (req_max ?r)"
    using ok unfolding maximum_logical_length_def req_max_def [symmetric] checked_add_def by (simp add: rec_ok_def flip: req_max_def)
  have kv: "kv_inv (s_pool s) (seqs (s_requests s)) (ext_of (s_prefix_cache s))"
    using inv by (simp add: core_inv_def kv_part_def)
  have lim: "s_active_sequences s + 1 \<le> u64_max" "s_promised_kv_blocks s + rq_promised_kv_blocks ?r \<le> u64_max"
    using inv can by (auto simp: core_inv_def can_admit_def checked_add_def split: if_splits)
  have tokens: "length (prompt ?r) \<le> s_waiting_prompt_tokens s" by (rule core_waiting_queue(2) [OF inv i(1) wait])
  have tr: "transition ?r Admitted = Inr (?r\<lparr>rq_state := Admitted\<rparr>)"
    using wait by (simp add: transition_def valid_transition_def)
  show ?thesis unfolding admit_front_def wp_withM Let_def max wp_bindM [of "tryM _"] wp_tryM sum.case wp_bindM [of "on_spool _"] wp_on_spool
  proof (rule wp_weaken [OF wp_create_sequence [OF kv]], goal_cases)
    case (1 q p')
    let ?r' = "?r\<lparr>rq_state := Admitted, rq_sequence := Some q, rq_ready_since_ns := now_ns\<rparr>"
    let ?t = "s\<lparr>s_pool := p', s_waiting := w,
       s_waiting_prompt_tokens := s_waiting_prompt_tokens s - length (prompt ?r), s_active_sequences := s_active_sequences s + 1,
       s_promised_kv_blocks := s_promised_kv_blocks s + rq_promised_kv_blocks ?r, s_requests := (s_requests s)[i := ?r']\<rparr>"
    have ad: "admitted now_ns ?r ?r'" using 1 wait by (auto simp: admitted_def)
    have "rq_sequence ?r = None" using ok wait by (simp add: rec_ok_def)
    then have "kv_inv p' (seqs ((s_requests s)[i := ?r'])) (ext_of (s_prefix_cache s))"
      using 1 by (intro kv_inv_mset_seqs [OF seqs_insert_perm [OF i(1), symmetric]]) auto
    then have core: "core_inv ?t" by (rule core_admitted [OF inv w i ad can])
    have prom: "promoted now_ns s ?t"
      using ad i(1) by (auto simp: promoted_def same_frame_def list_all2_conv_all_nth nth_list_update)
    show ?case using lim tokens tr w
      apply (simp add: wp_simps checked_add_def checked_sub_def)
      apply (rule wp_observe_metric)
      using core prom promoted_trans [OF prom promoted_metric] by (auto simp: metric_only_core) (auto simp: metric_only_def)
  qed simp
qed

lemma wp_admit_loop:
  assumes "core_inv s" and "length (s_waiting s) \<le> fuel"
  shows "wp (admit_loop env fuel now_ns) (\<lambda>_ t. core_inv t \<and> promoted now_ns s t) (\<lambda>_ t. core_inv t \<and> promoted now_ns s t) s"
  using assms
proof (induction fuel arbitrary: s)
  case 0
  then show ?case by (simp add: admit_loop.simps wp_simps)
next
  case (Suc fuel)
  show ?case
  proof (cases "s_waiting s")
    case Nil
    then show ?thesis using Suc.prems by (simp add: admit_loop.simps [of _ "Suc fuel"] wp_simps)
  next
    case (Cons x w)
    obtain i where i: "record_index s x = Some i" "i < length (s_requests s)" "is_waiting (s_requests s ! i)"
      "rq_request_id (s_requests s ! i) = x" by (rule core_queue_head [OF Suc.prems(1) Cons])
    have "wp (bindM (admit_front env i now_ns) (\<lambda>_. admit_loop env fuel now_ns))
      (\<lambda>_ t. core_inv t \<and> promoted now_ns s t) (\<lambda>_ t. core_inv t \<and> promoted now_ns s t) s"
      if can: "can_admit s (rq_promised_kv_blocks (s_requests s ! i))"
    proof (rule wp_callI [OF wp_admit_front [OF Suc.prems(1) Cons i(2,4,3) can]], goal_cases)
      case (2 _ t)
      then have "core_inv t" "length (s_waiting t) \<le> fuel" using Cons Suc.prems(2) by auto
      then show ?case by (rule wp_weaken [OF Suc.IH]) (use 2 in \<open>auto intro: promoted_trans\<close>)
    qed (use Suc.prems in auto)
    then show ?thesis using Cons i(1) Suc.prems(1)
      by (simp add: admit_loop.simps [of _ "Suc fuel"] wp_withM wp_tryM wp_if wp_ret wp_bindM [of "tryM _"])
  qed
qed

lemma wp_admit_waiting:
  "core_inv s \<Longrightarrow> wp (admit_waiting env now_ns) (\<lambda>_ t. core_inv t \<and> promoted now_ns s t) (\<lambda>_ t. core_inv t \<and> promoted now_ns s t) s"
  unfolding admit_waiting_def wp_withM using wp_admit_loop by blast

end
