(* ===== verification/Scheduler_Flight.thy ===== *)
theory Scheduler_Flight
  imports Scheduler_Life
begin

text \<open>
  The full invariant of the scheduler: on top of \<open>core_inv\<close>, how far each request has come (prompt
  cursor, generated tokens, committed length of its sequence) and which reservation of the iteration
  in flight belongs to it. The second half lifts the contracts of the sequence operations to requests.
\<close>

subsection \<open>Shared prefixes under sequence operations\<close>

abbreviation shared_ids :: "sequence_state \<Rightarrow> block_id option list" where
  "shared_ids q \<equiv> take (sq_shared_block_count q) (sq_block_ids q)"

lemma append_blocks_prefix:
  "m \<le> sq_allocated_block_count q \<Longrightarrow> take m (sq_block_ids (append_blocks bs q)) = take m (sq_block_ids q)"
  by (induction bs rule: rev_induct) (simp_all add: append_block_def Let_def)

lemma pop_block_ids: "sq_block_ids (pop_block q) = (sq_block_ids q)[sq_allocated_block_count q - 1 := None]"
  by (simp add: pop_block_def Let_def)

lemma pop_blocks_prefix:
  "m + n \<le> sq_allocated_block_count q \<Longrightarrow> seq_shape q \<Longrightarrow> take m (sq_block_ids ((pop_block ^^ n) q)) = take m (sq_block_ids q)"
proof (induction n)
  case (Suc n)
  then have "sq_allocated_block_count ((pop_block ^^ n) q) = sq_allocated_block_count q - n"
    using pop_blocks_fields [of q n] by simp
  then show ?case using Suc by (simp add: pop_block_ids)
qed simp

lemma reserved_fields:
  assumes "sq_shared_block_count q \<le> sq_allocated_block_count q"
  shows "shared_ids (reserved_state target bs q) = shared_ids q"
    and "sq_shared_block_count (reserved_state target bs q) = sq_shared_block_count q"
    and "sq_logical_length (reserved_state target bs q) = sq_logical_length q"
    and "sq_poisoned (reserved_state target bs q) = sq_poisoned q"
    and "validate_reservation (reserved_state target bs q) (reservation_for target q) = Inr ()"
  using append_blocks_prefix [OF assms] assms
  by (simp_all add: reserved_state_def reservation_for_def validate_reservation_Inr)

lemma committed_fields:
  "sq_block_ids (committed_state n q) = sq_block_ids q"
  "sq_shared_block_count (committed_state n q) = sq_shared_block_count q"
  "sq_logical_length (committed_state n q) = n" "sq_poisoned (committed_state n q) = sq_poisoned q"
  "sq_pending (committed_state n q) = None"
  by (simp_all add: committed_state_def)

lemma rolled_back_fields:
  assumes sh: "seq_shape q" and len: "seq_len q" and v: "validate_reservation q res = Inr ()"
  defines "q' \<equiv> rolled_back (sr_previous_block_count res) q"
  shows "shared_ids q' = shared_ids q" and "sq_shared_block_count q' = sq_shared_block_count q"
    and "sq_logical_length q' = sq_logical_length q" and "sq_poisoned q' = sq_poisoned q" and "sq_pending q' = None"
proof -
  let ?k = "sr_previous_block_count res"
  have k: "?k = blocks_for_length (sq_logical_length q)" "?k \<le> sq_allocated_block_count q"
    using len v blocks_for_length_mono by (auto simp: seq_len_def validate_reservation_Inr)
  then have s: "sq_shared_block_count q \<le> ?k"
    using len blocks_for_length_shared by (simp add: seq_len_def)
  note f = pop_blocks_fields [OF sh, of "sq_allocated_block_count q - ?k"]
  show "sq_shared_block_count q' = sq_shared_block_count q" "sq_logical_length q' = sq_logical_length q"
    "sq_poisoned q' = sq_poisoned q" "sq_pending q' = None"
    using f k s by (simp_all add: q'_def rolled_back_def)
  show "shared_ids q' = shared_ids q"
    using f k s pop_blocks_prefix [of "sq_shared_block_count q" "sq_allocated_block_count q - ?k" q] sh
    by (simp add: q'_def rolled_back_def)
qed

lemma link_ok_cong:
  "shared_ids q' = shared_ids q \<Longrightarrow> sq_shared_block_count q' = sq_shared_block_count q \<Longrightarrow>
   rq_prefix_tip r' = rq_prefix_tip r \<Longrightarrow> prompt r' = prompt r \<Longrightarrow> link_ok c r q \<Longrightarrow> link_ok c r' q'"
  by (simp add: link_ok_def)

subsection \<open>Progress of a request\<close>

definition phase_ok :: "request_record \<Rightarrow> sequence_state \<Rightarrow> bool" where
  "phase_ok r q \<longleftrightarrow> \<not> sq_poisoned q \<and>
     (case rq_state r of
        Admitted \<Rightarrow> rq_generated_token_ids r = [] \<and> rq_prefill_cursor r < length (prompt r) \<and>
          sq_logical_length q = rq_prefill_cursor r \<and> rq_prefill_cursor r = sq_shared_block_count q * KV_BLOCK_SIZE
      | Prefilling \<Rightarrow> rq_generated_token_ids r = [] \<and> rq_prefill_cursor r < length (prompt r) \<and>
          sq_logical_length q = rq_prefill_cursor r
      | Decoding \<Rightarrow> rq_prefill_cursor r = length (prompt r) \<and> rq_generated_token_ids r \<noteq> [] \<and>
          length (rq_generated_token_ids r) < max_new r \<and>
          sq_logical_length q = length (prompt r) + length (rq_generated_token_ids r) - 1
      | _ \<Rightarrow> False)"

text \<open>The work item in flight for a request: its reservation is the pending one, and undoing it leads
  back to a consistent state.\<close>

definition flight_ok :: "request_record \<Rightarrow> sequence_state \<Rightarrow> inflight_item \<Rightarrow> bool" where
  "flight_ok r q item \<longleftrightarrow>
     validate_reservation q (fi_reservation item) = Inr () \<and>
     sr_target_logical_length (fi_reservation item) = fi_target_logical_length item \<and>
     (case fi_kind item of
        Prefill \<Rightarrow> rq_state r \<in> {Admitted, Prefilling} \<and> rq_prefill_cursor r < fi_target_logical_length item \<and>
          fi_target_logical_length item \<le> length (prompt r) \<and>
          (fi_output_slot item \<noteq> None \<longleftrightarrow> fi_target_logical_length item = length (prompt r)) \<and>
          fi_previous_state item \<in> {Admitted, Prefilling} \<and>
          (fi_previous_state item = Admitted \<longrightarrow> rq_prefill_cursor r = sq_shared_block_count q * KV_BLOCK_SIZE)
      | Decode \<Rightarrow> rq_state r = Decoding \<and> fi_target_logical_length item = sq_logical_length q + 1 \<and>
          fi_output_slot item \<noteq> None \<and> fi_previous_state item = Decoding)"

definition flow_ok :: "inflight_item list \<Rightarrow> request_record \<Rightarrow> bool" where
  "flow_ok fl r \<longleftrightarrow> (\<forall>q. rq_sequence r = Some q \<longrightarrow> phase_ok r q \<and>
     (\<forall>item\<in>set fl. fi_request_id item = rq_request_id r \<longrightarrow> flight_ok r q item) \<and>
     (rq_request_id r \<notin> fi_request_id ` set fl \<longrightarrow> sq_pending q = None \<and> \<not> rq_cancellation_deferred r))"

lemma phase_frame [simp]:
  "phase_ok (r\<lparr>rq_cached_prompt_tokens := n\<rparr>) q = phase_ok r q" "phase_ok (r\<lparr>rq_plateau_deferred := b\<rparr>) q = phase_ok r q"
  "phase_ok (r\<lparr>rq_ready_since_ns := n\<rparr>) q = phase_ok r q" "phase_ok (r\<lparr>rq_prefix_linked := b\<rparr>) q = phase_ok r q"
  "phase_ok (r\<lparr>rq_prefix_tip := x\<rparr>) q = phase_ok r q" "phase_ok (r\<lparr>rq_sequence := z\<rparr>) q = phase_ok r q"
  "phase_ok (r\<lparr>rq_cancellation_deferred := b\<rparr>) q = phase_ok r q"
  by (simp_all add: phase_ok_def split: request_state.split)

lemma flight_frame [simp]:
  "flight_ok (r\<lparr>rq_cached_prompt_tokens := n\<rparr>) q it = flight_ok r q it" "flight_ok (r\<lparr>rq_plateau_deferred := b\<rparr>) q it = flight_ok r q it"
  "flight_ok (r\<lparr>rq_ready_since_ns := n\<rparr>) q it = flight_ok r q it" "flight_ok (r\<lparr>rq_prefix_linked := b\<rparr>) q it = flight_ok r q it"
  "flight_ok (r\<lparr>rq_prefix_tip := x\<rparr>) q it = flight_ok r q it" "flight_ok (r\<lparr>rq_sequence := z\<rparr>) q it = flight_ok r q it"
  "flight_ok (r\<lparr>rq_cancellation_deferred := b\<rparr>) q it = flight_ok r q it"
  by (simp_all add: flight_ok_def split: work_kind.split)

lemma flow_frame [simp]:
  "flow_ok fl (r\<lparr>rq_cached_prompt_tokens := n\<rparr>) = flow_ok fl r" "flow_ok fl (r\<lparr>rq_plateau_deferred := b\<rparr>) = flow_ok fl r"
  "flow_ok fl (r\<lparr>rq_ready_since_ns := n\<rparr>) = flow_ok fl r" "flow_ok fl (r\<lparr>rq_prefix_linked := b\<rparr>) = flow_ok fl r"
  "flow_ok fl (r\<lparr>rq_prefix_tip := x\<rparr>) = flow_ok fl r"
  by (simp_all add: flow_ok_def)

lemma linked_frame [simp]:
  "linked_ok c (r\<lparr>rq_cached_prompt_tokens := n\<rparr>) = linked_ok c r" "linked_ok c (r\<lparr>rq_plateau_deferred := b\<rparr>) = linked_ok c r"
  "linked_ok c (r\<lparr>rq_ready_since_ns := n\<rparr>) = linked_ok c r" "linked_ok c (r\<lparr>rq_prefill_cursor := k\<rparr>) = linked_ok c r"
  "linked_ok c (r\<lparr>rq_state := st\<rparr>) = linked_ok c r" "linked_ok c (r\<lparr>rq_generated_token_ids := g\<rparr>) = linked_ok c r"
  "linked_ok c (r\<lparr>rq_cancellation_deferred := b\<rparr>) = linked_ok c r"
  by (simp_all add: linked_ok_def link_ok_def split: option.split)

definition active_ids :: "request_record list \<Rightarrow> request_id set" where
  "active_ids rs = rq_request_id ` {r \<in> set rs. \<not> is_waiting r}"

definition flow_inv :: "inflight_item list \<Rightarrow> scheduler \<Rightarrow> bool" where
  "flow_inv fl s \<longleftrightarrow> distinct (map fi_request_id fl) \<and>
     fi_request_id ` set fl \<subseteq> active_ids (s_requests s) \<and>
     (\<forall>r\<in>set (s_requests s). flow_ok fl r)"

definition items_of :: "scheduler \<Rightarrow> inflight_item list" where
  "items_of s = (case s_inflight s of None \<Rightarrow> [] | Some plan \<Rightarrow> fp_items plan)"

definition plan_ok :: "scheduler \<Rightarrow> bool" where
  "plan_ok s \<longleftrightarrow> (\<forall>plan. s_inflight s = Some plan \<longrightarrow>
     fp_expected_output_slots plan = List.map_filter fi_output_slot (fp_items plan) \<and>
     distinct (fp_expected_output_slots plan) \<and> (\<forall>item\<in>set (fp_items plan). fi_kind item = Prefill \<longrightarrow>
       (\<exists>r\<in>set (s_requests s). rq_request_id r = fi_request_id item \<and> rq_state r = Prefilling)))"

definition sched_inv :: "scheduler \<Rightarrow> bool" where
  "sched_inv s \<longleftrightarrow> core_inv s \<and> flow_inv (items_of s) s \<and> plan_ok s \<and> policies_ok s"

lemma flow_inv_perm: "mset fl = mset fl' \<Longrightarrow> flow_inv fl s = flow_inv fl' s"
proof -
  assume m: "mset fl = mset fl'"
  have "mset (map fi_request_id fl) = mset (map fi_request_id fl')" using m by simp
  then have "distinct (map fi_request_id fl) = distinct (map fi_request_id fl')" by (rule mset_eq_imp_distinct_iff)
  then show ?thesis using mset_eq_setD [OF m] by (simp add: flow_inv_def flow_ok_def)
qed

lemma flow_inv_frame:
  "s_requests t = s_requests s \<Longrightarrow> flow_inv fl t = flow_inv fl s"
  by (simp add: flow_inv_def)

subsection \<open>Changing one active request\<close>

text \<open>A record may change in everything but its identity and its place in the books.\<close>

definition same_books :: "request_record \<Rightarrow> request_record \<Rightarrow> bool" where
  "same_books r r' \<longleftrightarrow> rq_request_id r' = rq_request_id r \<and> rq_descriptor r' = rq_descriptor r \<and>
     rq_promised_kv_blocks r' = rq_promised_kv_blocks r \<and> (is_waiting r' \<longleftrightarrow> is_waiting r)"

lemma same_books_req_max: "same_books r r' \<Longrightarrow> req_max r' = req_max r"
  by (simp add: same_books_def req_max_def)

lemma same_books_map:
  assumes "i < length rs" and "same_books (rs ! i) r'" and "\<And>r r'. same_books r r' \<Longrightarrow> f r' = f r"
  shows "map f (rs[i := r']) = map f rs"
  using assms by (simp add: map_update list_update_id2)

lemma same_books_ids:
  assumes "i < length rs" and "same_books (rs ! i) r'"
  shows "rq_request_id ` {r \<in> set (rs[i := r']). is_waiting r} = rq_request_id ` {r \<in> set rs. is_waiting r}"
    and "active_ids (rs[i := r']) = active_ids rs"
proof -
  let ?f = "\<lambda>r. (rq_request_id r, is_waiting r)"
  have eq: "set (map ?f (rs[i := r'])) = set (map ?f rs)"
    by (rule arg_cong [where f = set], rule same_books_map [OF assms]) (simp add: same_books_def)
  have w: "rq_request_id ` {r \<in> set xs. is_waiting r} = {x. (x, True) \<in> set (map ?f xs)}"
    and a: "active_ids xs = {x. (x, False) \<in> set (map ?f xs)}" for xs
    by (force simp: active_ids_def)+
  show "rq_request_id ` {r \<in> set (rs[i := r']). is_waiting r} = rq_request_id ` {r \<in> set rs. is_waiting r}"
    "active_ids (rs[i := r']) = active_ids rs" unfolding w a eq by simp_all
qed

lemma core_update:
  assumes inv: "core_inv s" and i: "i < length (s_requests s)" and b: "same_books (s_requests s ! i) r'"
    and ok: "rec_ok (s_config s) r'" and kv: "kv_part p' ((s_requests s)[i := r']) cache'"
  shows "core_inv (s\<lparr>s_pool := p', s_requests := (s_requests s)[i := r'], s_prefix_cache := cache'\<rparr>)"
proof -
  let ?rs = "s_requests s" and ?ss = "(s_requests s)[i := r']"
  have recs: "\<forall>r\<in>set ?ss. rec_ok (s_config s) r"
    using inv ok set_update_subset_insert [of ?rs i r'] by (auto simp: core_inv_def)
  have "map rq_request_id ?ss = map rq_request_id ?rs"
    using i b by (simp add: map_update list_update_id2 same_books_def)
  then have ids: "ids_ok (s_next_request_id s) ?ss (s_completion_outbox s)"
    using inv unfolding core_inv_def ids_ok_def by simp
  have "rq_request_id ` {r \<in> set ?ss. is_waiting r} = rq_request_id ` {r \<in> set ?rs. is_waiting r}"
    by (rule same_books_ids(1) [OF i b])
  then have q: "queue_ok ?ss (s_waiting s)" using inv by (simp add: core_inv_def queue_ok_def)
  note same = same_books_map [OF i b]
  have sums: "waiting_tokens ?ss = waiting_tokens ?rs" "active_count ?ss = active_count ?rs" "promised_blocks ?ss = promised_blocks ?rs"
    by (rule arg_cong [where f = sum_list], rule same, simp add: same_books_def)+
  show ?thesis using inv recs ids q sums kv by (simp add: core_inv_def)
qed

lemma kv_part_step:
  assumes kv: "kv_part p rs cache" and i: "i < length rs" and q: "rq_sequence (rs ! i) = Some q"
    and step: "kv_step (q, p) (q', p')" "seq_len q'" and r': "rq_sequence r' = Some q'" "linked_ok cache r'"
  shows "kv_part p' (rs[i := r']) cache"
proof -
  have "kv_inv p' ((seqs rs)[seq_pos rs i := q']) (ext_of cache)"
    using kv kv_inv_step [of p "seqs rs" "ext_of cache" "seq_pos rs i"] seqs_at(1,2) [OF i q] step by (simp add: kv_part_def)
  then show ?thesis using kv r'(2) set_update_subset_insert [of rs i r'] seqs_at(3) [OF i q r'(1)]
    by (auto simp: kv_part_def)
qed

lemma kv_part_same_seqs:
  assumes kv: "kv_part p rs cache" and i: "i < length rs" and r': "rq_sequence r' = rq_sequence (rs ! i)" "linked_ok cache r'"
  shows "kv_part p (rs[i := r']) cache"
proof -
  have "seqs (rs[i := r']) = seqs rs" by (rule seqs_cong) (use i r'(1) in \<open>simp add: map_update list_update_id2\<close>)
  then show ?thesis using kv r'(2) set_update_subset_insert [of rs i r'] by (auto simp: kv_part_def)
qed

lemma flow_update:
  assumes inv: "flow_inv fl s" and i: "i < length (s_requests s)" and b: "same_books (s_requests s ! i) r'"
    and flow: "flow_ok fl r'"
  shows "flow_inv fl (s\<lparr>s_requests := (s_requests s)[i := r']\<rparr>)"
  using inv flow set_update_subset_insert [of "s_requests s" i r'] same_books_ids(2) [OF i b] by (auto simp: flow_inv_def)

subsection \<open>Sequence operations on a request\<close>

abbreviation with_seq :: "nat \<Rightarrow> sequence_state \<Rightarrow> kv_block_pool \<Rightarrow> scheduler \<Rightarrow> scheduler" where
  "with_seq i q' p' s \<equiv> s\<lparr>s_pool := p', s_requests := (s_requests s)[i := (s_requests s ! i)\<lparr>rq_sequence := Some q'\<rparr>]\<rparr>"

lemma with_seq_same: "rq_sequence (s_requests s ! i) = Some q \<Longrightarrow> with_seq i q p' s = s\<lparr>s_pool := p'\<rparr>"
proof -
  assume "rq_sequence (s_requests s ! i) = Some q"
  then have "(s_requests s ! i)\<lparr>rq_sequence := Some q\<rparr> = s_requests s ! i" by simp
  then show ?thesis by simp
qed

lemma rec_ok_seq:
  "rec_ok cfg r \<Longrightarrow> rq_sequence r = Some q \<Longrightarrow> sq_maximum_logical_length q' = sq_maximum_logical_length q \<Longrightarrow>
   rec_ok cfg (r\<lparr>rq_sequence := Some q'\<rparr>)"
  by (auto simp: rec_ok_def)

text \<open>The part of a sequence the links to the prefix cache look at.\<close>

definition same_share :: "sequence_state \<Rightarrow> sequence_state \<Rightarrow> bool" where
  "same_share q q' \<longleftrightarrow> shared_ids q' = shared_ids q \<and> sq_shared_block_count q' = sq_shared_block_count q"

lemma linked_seq:
  "linked_ok cache r \<Longrightarrow> rq_sequence r = Some q \<Longrightarrow> same_share q q' \<Longrightarrow> linked_ok cache (r\<lparr>rq_sequence := Some q'\<rparr>)"
  by (auto simp: linked_ok_def same_share_def link_ok_def split: option.splits)

lemma core_linked: "core_inv s \<Longrightarrow> i < length (s_requests s) \<Longrightarrow> linked_ok (s_prefix_cache s) (s_requests s ! i)"
  by (simp add: core_inv_def kv_part_def)

lemma core_with_seq:
  assumes inv: "core_inv s" and i: "i < length (s_requests s)" and q: "rq_sequence (s_requests s ! i) = Some q"
    and step: "kv_step (q, s_pool s) (q', p')" "seq_len q'"
    and link: "linked_ok (s_prefix_cache s) ((s_requests s ! i)\<lparr>rq_sequence := Some q'\<rparr>)"
  shows "core_inv (with_seq i q' p' s)"
proof -
  let ?r = "(s_requests s ! i)\<lparr>rq_sequence := Some q'\<rparr>"
  have "kv_part p' ((s_requests s)[i := ?r]) (s_prefix_cache s)"
    by (rule kv_part_step [OF _ i q step]) (use inv link in \<open>simp_all add: core_inv_def\<close>)
  moreover have "rec_ok (s_config s) ?r" by (rule rec_ok_seq [OF core_nth [OF inv i] q kv_step_max [OF step(1)]])
  ultimately show ?thesis using core_update [OF inv i, of ?r p' "s_prefix_cache s"] by (simp add: same_books_def)
qed

lemma wp_seq_op:
  assumes inv: "core_inv s" and i: "i < length (s_requests s)" and q: "rq_sequence (s_requests s ! i) = Some q"
    and op: "wp m (\<lambda>x (q', p'). kv_step (q, s_pool s) (q', p') \<and> seq_len q' \<and> same_share q q' \<and> Q x q' p')
      (\<lambda>e (q', p'). q' = q \<and> kv_step (q, s_pool s) (q', p') \<and> E e) (q, s_pool s)"
  shows "wp (on_sequence i q m)
    (\<lambda>x t. core_inv t \<and> (\<exists>q' p'. t = with_seq i q' p' s \<and> pool_same (s_pool s) p' \<and> same_share q q' \<and> Q x q' p'))
    (\<lambda>e t. core_inv t \<and> (\<exists>e' p'. e = PagedKv e' \<and> E e' \<and> t = s\<lparr>s_pool := p'\<rparr> \<and> pool_same (s_pool s) p')) s"
  unfolding wp_on_sequence
proof (rule wp_weaken [OF op], goal_cases)
  case (1 x w)
  obtain q' p' where w: "w = (q', p')" by (cases w)
  have st: "kv_step (q, s_pool s) (q', p')" "seq_len q'" "same_share q q'" "Q x q' p'" using 1 w by auto
  have "core_inv (with_seq i q' p' s)"
    by (rule core_with_seq [OF inv i q st(1,2) linked_seq [OF core_linked [OF inv i] q st(3)]])
  then show ?case using w st kv_step_same [OF st(1)] by auto
next
  case (2 e w)
  obtain p' where w: "w = (q, p')" and st: "kv_step (q, s_pool s) (q, p')" and e: "E e" using 2 by (cases w) auto
  have "core_inv (with_seq i q p' s)"
    by (rule core_with_seq [OF inv i q st core_kv(2) [OF inv i q] linked_seq [OF core_linked [OF inv i] q]]) (simp add: same_share_def)
  then have "core_inv (s\<lparr>s_pool := p'\<rparr>)" unfolding with_seq_same [OF q] .
  then show ?case unfolding w prod.case with_seq_same [OF q] using e kv_step_same [OF st] by auto
qed

lemma core_shape: "core_inv s \<Longrightarrow> i < length (s_requests s) \<Longrightarrow> rq_sequence (s_requests s ! i) = Some q \<Longrightarrow> seq_shape q"
  using core_kv(1) by (auto simp: kv_ok_def seq_core_def)

lemma wp_request_reserve:
  assumes inv: "core_inv s" and i: "i < length (s_requests s)" and q: "rq_sequence (s_requests s ! i) = Some q"
  shows "wp (on_sequence i q (reserve_to env target))
    (\<lambda>res t. core_inv t \<and> (\<exists>q' p'. t = with_seq i q' p' s \<and> pool_same (s_pool s) p' \<and> same_share q q' \<and>
       sq_pending q = None \<and> sq_logical_length q' = sq_logical_length q \<and> sq_poisoned q' = sq_poisoned q \<and>
       validate_reservation q' res = Inr () \<and> sr_target_logical_length res = target))
    (\<lambda>e t. core_inv t \<and> (\<exists>e' p'. e = PagedKv e' \<and> t = s\<lparr>s_pool := p'\<rparr> \<and> pool_same (s_pool s) p')) s"
proof -
  note kv = core_kv [OF inv i q]
  have le: "sq_shared_block_count q \<le> sq_allocated_block_count q" using core_shape [OF inv i q] by (simp add: seq_shape_def)
  have "wp (reserve_to env target) (\<lambda>res (q', p'). kv_step (q, s_pool s) (q', p') \<and> seq_len q' \<and> same_share q q' \<and>
      (sq_pending q = None \<and> sq_logical_length q' = sq_logical_length q \<and> sq_poisoned q' = sq_poisoned q \<and>
       validate_reservation q' res = Inr () \<and> sr_target_logical_length res = target))
      (\<lambda>e (q', p'). q' = q \<and> kv_step (q, s_pool s) (q', p') \<and> True) (q, s_pool s)"
    by (rule wp_weaken [OF wp_reserve_to [OF kv(1,2)]])
      (use reserved_fields [OF le] reserved_state_step [OF _ kv(2)] in \<open>auto simp: same_share_def reservation_for_def\<close>)
  from wp_seq_op [OF inv i q this] show ?thesis by (rule wp_weaken) auto
qed

lemma wp_request_commit:
  assumes inv: "core_inv s" and i: "i < length (s_requests s)" and q: "rq_sequence (s_requests s ! i) = Some q"
    and v: "validate_reservation q res = Inr ()"
  shows "wp (on_sequence i q (seq_commit res))
    (\<lambda>c t. core_inv t \<and> (\<exists>q' p'. t = with_seq i q' p' s \<and> pool_same (s_pool s) p' \<and> same_share q q' \<and>
       sq_pending q' = None \<and> sq_poisoned q' = sq_poisoned q \<and> sq_logical_length q' = sr_target_logical_length res \<and>
       rc_logical_length c = sr_target_logical_length res)) (\<lambda>_ _. False) s"
proof -
  note kv = core_kv [OF inv i q]
  have "wp (seq_commit res) (\<lambda>c (q', p'). kv_step (q, s_pool s) (q', p') \<and> seq_len q' \<and> same_share q q' \<and>
      (sq_pending q' = None \<and> sq_poisoned q' = sq_poisoned q \<and> sq_logical_length q' = sr_target_logical_length res \<and>
       rc_logical_length c = sr_target_logical_length res))
      (\<lambda>e (q', p'). q' = q \<and> kv_step (q, s_pool s) (q', p') \<and> False) (q, s_pool s)"
    by (rule wp_weaken [OF wp_seq_commit [OF kv(1,2)]])
      (use v committed_state_len [OF kv(2) v] in \<open>auto simp: same_share_def committed_fields\<close>)
  from wp_seq_op [OF inv i q this] show ?thesis by (rule wp_weaken) auto
qed

lemma wp_request_rollback:
  assumes inv: "core_inv s" and i: "i < length (s_requests s)" and q: "rq_sequence (s_requests s ! i) = Some q"
    and v: "validate_reservation q res = Inr ()"
  shows "wp (on_sequence i q (seq_rollback res))
    (\<lambda>_ t. core_inv t \<and> (\<exists>q' p'. t = with_seq i q' p' s \<and> pool_same (s_pool s) p' \<and> same_share q q' \<and>
       sq_pending q' = None \<and> sq_poisoned q' = sq_poisoned q \<and> sq_logical_length q' = sq_logical_length q)) (\<lambda>_ _. False) s"
proof -
  note kv = core_kv [OF inv i q]
  have "wp (seq_rollback res) (\<lambda>_ (q', p'). kv_step (q, s_pool s) (q', p') \<and> seq_len q' \<and> same_share q q' \<and>
      (sq_pending q' = None \<and> sq_poisoned q' = sq_poisoned q \<and> sq_logical_length q' = sq_logical_length q))
      (\<lambda>e (q', p'). q' = q \<and> kv_step (q, s_pool s) (q', p') \<and> False) (q, s_pool s)"
    by (rule wp_weaken [OF wp_seq_rollback [OF kv(1,2)]])
      (use v rolled_back_fields [OF core_shape [OF inv i q] kv(2) v] in \<open>auto simp: same_share_def\<close>)
  from wp_seq_op [OF inv i q this] show ?thesis by (rule wp_weaken) auto
qed

lemma wp_request_poison:
  assumes inv: "core_inv s" and i: "i < length (s_requests s)" and q: "rq_sequence (s_requests s ! i) = Some q"
    and v: "validate_reservation q res = Inr ()" and free: "\<And>q'. linked_ok (s_prefix_cache s) ((s_requests s ! i)\<lparr>rq_sequence := Some q'\<rparr>)"
  shows "wp (on_sequence i q (seq_poison res))
    (\<lambda>_ t. core_inv t \<and> (\<exists>q' p'. t = with_seq i q' p' s \<and> pool_same (s_pool s) p')) (\<lambda>_ _. False) s"
  unfolding wp_on_sequence
proof (rule wp_weaken [OF wp_seq_poison [OF core_kv(1,2) [OF inv i q]]], goal_cases)
  case (1 x w)
  obtain q' p' where w: "w = (q', p')" by (cases w)
  have st: "kv_step (q, s_pool s) (q', p')" "seq_len q'" using 1 w by auto
  show ?case using core_with_seq [OF inv i q st free] kv_step_same [OF st(1)] w by auto
qed (use v in auto)

subsection \<open>Undoing reservations\<close>

text \<open>A record without the inside of its sequence, and the changes that show only there.\<close>

definition strip :: "request_record \<Rightarrow> request_record" where
  "strip r = r\<lparr>rq_sequence := None\<rparr>"

definition inside :: "scheduler \<Rightarrow> scheduler \<Rightarrow> bool" where
  "inside s t \<longleftrightarrow> same_frame s t \<and> s_completion_outbox t = s_completion_outbox s \<and> s_waiting t = s_waiting s \<and>
     s_terminal t = s_terminal s \<and> map strip (s_requests t) = map strip (s_requests s) \<and> pool_same (s_pool s) (s_pool t)"

lemma inside_refl [simp]: "inside s s"
  by (simp add: inside_def)

lemma inside_trans: "inside s t \<Longrightarrow> inside t u \<Longrightarrow> inside s u"
  by (auto simp: inside_def intro: same_frame_trans pool_same_trans)

lemma strip_fields:
  assumes "strip r' = strip r"
  shows "rq_request_id r' = rq_request_id r" "rq_state r' = rq_state r" "rq_descriptor r' = rq_descriptor r"
    "rq_prefill_cursor r' = rq_prefill_cursor r" "rq_generated_token_ids r' = rq_generated_token_ids r"
    "rq_ready_since_ns r' = rq_ready_since_ns r" "rq_cancellation_deferred r' = rq_cancellation_deferred r"
    "rq_prefix_linked r' = rq_prefix_linked r" "rq_prefix_tip r' = rq_prefix_tip r"
    "rq_promised_kv_blocks r' = rq_promised_kv_blocks r"
  using assms by (cases r; cases r'; simp add: strip_def)+

lemma with_seq_inside: "i < length (s_requests s) \<Longrightarrow> pool_same (s_pool s) p' \<Longrightarrow> inside s (with_seq i q' p' s)"
  by (simp add: inside_def same_frame_def map_update list_update_id2 strip_def)

lemma inside_index:
  assumes "inside s t"
  shows "length (s_requests t) = length (s_requests s)" and "record_index t x = record_index s x"
    and "i < length (s_requests s) \<Longrightarrow> strip (s_requests t ! i) = strip (s_requests s ! i)"
proof -
  have m: "map strip (s_requests t) = map strip (s_requests s)" using assms by (simp add: inside_def)
  then show len: "length (s_requests t) = length (s_requests s)" by (metis length_map)
  show nth: "strip (s_requests t ! i) = strip (s_requests s ! i)" if "i < length (s_requests s)" for i
    using m len that by (metis nth_map)
  have "position (\<lambda>r. rq_request_id r = x) rs = position (\<lambda>r. rq_request_id r = x) (map strip rs)" for rs
    by (induction rs) (auto simp: strip_def)
  then show "record_index t x = record_index s x" unfolding record_index_def by (metis m)
qed

text \<open>Items whose request has not changed since the reservation was made.\<close>

definition fresh_items :: "inflight_item list \<Rightarrow> scheduler \<Rightarrow> bool" where
  "fresh_items fl s \<longleftrightarrow> (\<forall>item\<in>set fl. \<forall>r\<in>set (s_requests s). fi_request_id item = rq_request_id r \<longrightarrow>
     fi_previous_state item = rq_state r \<and> fi_previous_ready_since_ns item = rq_ready_since_ns r \<and>
     \<not> rq_cancellation_deferred r)"

lemma flow_item:
  assumes inv: "core_inv s" and flow: "flow_inv fl s" and item: "item \<in> set fl"
  obtains i q where "record_index s (fi_request_id item) = Some i" and "i < length (s_requests s)"
    and "rq_request_id (s_requests s ! i) = fi_request_id item" and "rq_sequence (s_requests s ! i) = Some q"
    and "\<not> is_waiting (s_requests s ! i)" and "phase_ok (s_requests s ! i) q" and "flight_ok (s_requests s ! i) q item"
proof -
  have "fi_request_id item \<in> active_ids (s_requests s)" using flow item by (auto simp: flow_inv_def)
  then obtain i where i: "i < length (s_requests s)" "\<not> is_waiting (s_requests s ! i)"
    "rq_request_id (s_requests s ! i) = fi_request_id item" by (auto simp: active_ids_def in_set_conv_nth)
  obtain q where q: "rq_sequence (s_requests s ! i) = Some q" using core_active(3) [OF inv i(1,2)] by blast
  have "flow_ok fl (s_requests s ! i)" using flow i(1) by (simp add: flow_inv_def)
  then have "phase_ok (s_requests s ! i) q" "flight_ok (s_requests s ! i) q item" using q item i(3) by (auto simp: flow_ok_def)
  then show ?thesis using that record_index_of [OF core_ids [OF inv] i(1)] i q by simp
qed

text \<open>Taking the item of request \<open>i\<close> off the list.\<close>

lemma flow_drop_item:
  assumes inv: "core_inv s" and flow: "flow_inv (item # fl) s" and i: "i < length (s_requests s)"
    "rq_request_id (s_requests s ! i) = fi_request_id item"
    and b: "same_books (s_requests s ! i) r'" and r': "flow_ok fl r'"
  shows "flow_inv fl (s\<lparr>s_requests := (s_requests s)[i := r']\<rparr>)"
proof -
  let ?rs = "s_requests s"
  have d: "distinct (map rq_request_id ?rs)" by (rule core_ids [OF inv])
  have other: "flow_ok fl r" if r: "r \<in> set (?rs[i := r'])" for r
  proof (cases "r = r'")
    case False
    then obtain j where j: "j < length ?rs" "r = ?rs ! j" "j \<noteq> i" using r i(1) by (auto simp: in_set_conv_nth nth_list_update split: if_splits)
    then have "rq_request_id r \<noteq> fi_request_id item" using d i by (metis distinct_conv_nth length_map nth_map)
    moreover have "flow_ok (item # fl) r" using flow j by (simp add: flow_inv_def)
    ultimately show ?thesis by (auto simp: flow_ok_def)
  qed (use r' in simp)
  show ?thesis unfolding flow_inv_def using flow other same_books_ids(2) [OF i(1) b] by (simp add: flow_inv_def)
qed

lemma wp_settle_rollback:
  assumes inv: "core_inv s" and flow: "flow_inv (item # fl) s"
  shows "wp (settle_reservation (fi_request_id item) (fi_reservation item) SettleRollback)
    (\<lambda>_ t. core_inv t \<and> inside s t \<and> (\<exists>i q q' p'. record_index s (fi_request_id item) = Some i \<and> i < length (s_requests s) \<and>
       rq_sequence (s_requests s ! i) = Some q \<and> t = with_seq i q' p' s \<and> same_share q q' \<and> sq_pending q' = None \<and>
       sq_poisoned q' = sq_poisoned q \<and> sq_logical_length q' = sq_logical_length q \<and>
       phase_ok (s_requests s ! i) q \<and> flight_ok (s_requests s ! i) q item))
    (\<lambda>_ _. False) s"
proof -
  obtain i q where i: "record_index s (fi_request_id item) = Some i" "i < length (s_requests s)"
    and q: "rq_sequence (s_requests s ! i) = Some q" and ok: "phase_ok (s_requests s ! i) q" "flight_ok (s_requests s ! i) q item"
    by (rule flow_item [OF inv flow]) auto
  have v: "validate_reservation q (fi_reservation item) = Inr ()" using ok(2) by (simp add: flight_ok_def)
  have op: "wp (on_sequence i q (seq_rollback (fi_reservation item)))
    (\<lambda>_ t. core_inv t \<and> inside s t \<and> (\<exists>q' p'. t = with_seq i q' p' s \<and> same_share q q' \<and> sq_pending q' = None \<and>
       sq_poisoned q' = sq_poisoned q \<and> sq_logical_length q' = sq_logical_length q)) (\<lambda>_ _. False) s"
    by (rule wp_weaken [OF wp_request_rollback [OF inv i(2) q v]]) (use with_seq_inside [OF i(2)] in auto)
  show ?thesis unfolding settle_reservation_def wp_withM i(1) ok_or_eq wp_bindM [of "tryM _"] wp_tryM sum.case q reservation_settlement.case wp_catchM
    by (rule wp_weaken [OF op]) (use i q ok in \<open>auto simp: wp_simps intro!: exI\<close>)
qed

lemma flow_ok_rolled_back:
  assumes ph: "phase_ok r q" and fl: "flight_ok r q item" and q': "same_share q q'" "sq_pending q' = None"
    "sq_poisoned q' = sq_poisoned q" "sq_logical_length q' = sq_logical_length q"
    and out: "rq_request_id r \<notin> fi_request_id ` set fl" and nc: "\<not> rq_cancellation_deferred r"
  shows "flow_ok fl (r\<lparr>rq_sequence := Some q', rq_state := fi_previous_state item, rq_ready_since_ns := t\<rparr>)"
proof -
  have "phase_ok (r\<lparr>rq_sequence := Some q', rq_state := fi_previous_state item, rq_ready_since_ns := t\<rparr>) q'"
    using ph fl q' by (auto simp: phase_ok_def flight_ok_def same_share_def split: work_kind.splits request_state.splits)
  moreover have "\<forall>it\<in>set fl. fi_request_id it \<noteq> rq_request_id r" using out by force
  ultimately show ?thesis using q' nc by (auto simp: flow_ok_def)
qed

lemma wp_rollback_items:
  assumes "core_inv s" and "flow_inv items s" and "fresh_items items s"
  shows "wp (rollback_items items err) (\<lambda>r t. r = err \<and> core_inv t \<and> flow_inv [] t \<and> inside s t) (\<lambda>_ _. False) s"
  using assms
proof (induction items arbitrary: s)
  case Nil
  then show ?case by (simp add: wp_simps)
next
  case (Cons item fl)
  note inv = Cons.prems(1) and flow = Cons.prems(2) and fresh = Cons.prems(3)
  have "wp (settle_reservation (fi_request_id item) (fi_reservation item) SettleRollback)
    (\<lambda>_ t. wp (bindM (withM (\<lambda>s. case record_index s (fi_request_id item) of
                    None \<Rightarrow> ret () | Some index \<Rightarrow> restore_request item index)) (\<lambda>_. rollback_items fl err))
      (\<lambda>r t. r = err \<and> core_inv t \<and> flow_inv [] t \<and> inside s t) (\<lambda>_ _. False) t) (\<lambda>_ _. False) s"
  proof (rule wp_weaken [OF wp_settle_rollback [OF inv flow]], goal_cases)
    case (1 _ t)
    then obtain i q q' p' where t: "core_inv t" "inside s t" "t = with_seq i q' p' s"
      and i: "record_index s (fi_request_id item) = Some i" "i < length (s_requests s)"
      and q: "rq_sequence (s_requests s ! i) = Some q" and q': "same_share q q'" "sq_pending q' = None"
        "sq_poisoned q' = sq_poisoned q" "sq_logical_length q' = sq_logical_length q"
      and ok: "phase_ok (s_requests s ! i) q" "flight_ok (s_requests s ! i) q item" by blast
    let ?r = "s_requests s ! i"
    let ?r' = "?r\<lparr>rq_sequence := Some q', rq_state := fi_previous_state item, rq_ready_since_ns := fi_previous_ready_since_ns item\<rparr>"
    have id: "rq_request_id ?r = fi_request_id item" using record_indexD [OF i(1)] by simp
    have prev: "fi_previous_state item = rq_state ?r" "fi_previous_ready_since_ns item = rq_ready_since_ns ?r"
      "\<not> rq_cancellation_deferred ?r" using fresh i(2) id by (auto simp: fresh_items_def)
    then have same: "?r' = ?r\<lparr>rq_sequence := Some q'\<rparr>" by simp
    have out: "rq_request_id ?r \<notin> fi_request_id ` set fl" using flow id by (auto simp: flow_inv_def)
    have "flow_ok fl ?r'" by (rule flow_ok_rolled_back [OF ok q' out prev(3)])
    then have "flow_inv fl (s\<lparr>s_requests := (s_requests s)[i := ?r']\<rparr>)"
      by (intro flow_drop_item [OF inv flow i(2) id]) (simp_all add: same_books_def prev(1))
    then have ft: "flow_inv fl t" unfolding t(3) same by (simp add: flow_inv_def)
    have fr: "fresh_items fl t" unfolding fresh_items_def
    proof (intro ballI impI)
      fix it r assume a: "it \<in> set fl" "r \<in> set (s_requests t)" "fi_request_id it = rq_request_id r"
      then obtain j where j: "j < length (s_requests s)" "r = s_requests t ! j"
        using inside_index(1) [OF t(2)] by (auto simp: in_set_conv_nth)
      note sf = strip_fields [OF inside_index(3) [OF t(2) j(1)], folded j(2)]
      have "s_requests s ! j \<in> set (s_requests s)" using j(1) by simp
      then show "fi_previous_state it = rq_state r \<and> fi_previous_ready_since_ns it = rq_ready_since_ns r \<and> \<not> rq_cancellation_deferred r"
        using fresh a sf unfolding fresh_items_def by (metis list.set_intros(2))
    qed
    have idx: "record_index t (fi_request_id item) = Some i" using inside_index(2) [OF t(2)] i(1) by simp
    have rest: "t\<lparr>s_requests := (s_requests t)[i := (s_requests t ! i)\<lparr>rq_state := fi_previous_state item,
        rq_ready_since_ns := fi_previous_ready_since_ns item\<rparr>]\<rparr> = t"
      using i(2) prev by (simp add: t(3))
    show ?case unfolding wp_bindM wp_withM idx option.case restore_request_def wp_mod_request rest
      by (rule wp_weaken [OF Cons.IH [OF t(1) ft fr]]) (use t(2) in \<open>auto intro: inside_trans\<close>)
  qed simp
  then show ?case unfolding rollback_items.simps wp_catchM sum.case by (rule wp_weaken) simp_all
qed

lemma wp_rollback_prepared_plan:
  assumes inv: "core_inv s" and flow: "flow_inv items s" and fresh: "fresh_items items s"
  shows "wp (rollback_prepared_plan items original) Q
    (\<lambda>e t. e = original \<and> core_inv t \<and> flow_inv [] t \<and> inside s t) s"
proof -
  have fl: "flow_inv (rev items) s" using flow flow_inv_perm [of "rev items" items s] by simp
  have fr: "fresh_items (rev items) s" using fresh by (simp add: fresh_items_def)
  show ?thesis unfolding rollback_prepared_plan_def
    by (rule wp_callI [OF wp_rollback_items [OF inv fl fr]]) (auto simp: wp_simps)
qed

end
