(* ===== verification/Scheduler_Plan.thy ===== *)
theory Scheduler_Plan
  imports Scheduler_Flight
begin

text \<open>
  The prefix cache under the invariant: adopting cached prefixes before a plan is made, and evicting
  cached blocks when a reservation needs room. Neither breaks the links of other requests.
\<close>

subsection \<open>Adopting cached prefixes\<close>

lemma cache_phys_inj:
  assumes d: "distinct (map bid_physical_index (cache_blocks c))"
    and b: "block_at c i = Some b" "block_at c j = Some b'" "bid_physical_index b = bid_physical_index b'"
  shows "i = j"
proof (rule ccontr)
  assume ne: "i \<noteq> j"
  let ?f = "\<lambda>k. map_option bid_physical_index (block_at c k)" and ?n = "length (pc_entries c)"
  have eq: "map bid_physical_index (cache_blocks c) = List.map_filter ?f [0..<?n]"
    unfolding cache_blocks_def List.map_filter_def by (auto intro!: map_cong filter_cong)
  have r: "i \<in> set [0..<?n]" "j \<in> set [0..<?n]" using b by (auto simp: block_at_def dest: entry_in_range)
  have "\<not> distinct (List.map_filter ?f ks)" if "i \<in> set ks" "j \<in> set ks" for ks
    using that
  proof (induction ks)
    case (Cons k ks)
    have in_fi: "bid_physical_index b \<in> set (List.map_filter ?f ks)" if "l \<in> set ks" "l = i \<or> l = j" for l
      using that b by (force simp: List.map_filter_def)
    show ?case
    proof (cases "k = i \<or> k = j")
      case True
      then have "?f k = Some (bid_physical_index b)" using b by auto
      moreover have "bid_physical_index b \<in> set (List.map_filter ?f ks)" using Cons.prems True ne in_fi by auto
      ultimately show ?thesis by auto
    next
      case False
      then have "\<not> distinct (List.map_filter ?f ks)" using Cons by auto
      then show ?thesis by (cases "?f k") auto
    qed
  qed simp
  then show False using d r unfolding eq by blast
qed

lemma link_path_blocks:
  assumes core: "seq_core p q" and all: "sq_allocated_block_count q = sq_shared_block_count q"
    and ids: "shared_ids q = map (block_at c) (rev path)" and x: "x \<in> set (phys q)"
  obtains j b where "j \<in> set path" and "block_at c j = Some b" and "bid_physical_index b = x"
proof -
  obtain k where k: "k < sq_allocated_block_count q" "phys q ! k = x"
    using x core by (metis in_set_conv_nth length_phys seq_core_def)
  have "block_ok p q k" using core k(1) by (simp add: seq_core_def)
  then obtain b where b: "sq_block_ids q ! k = Some b" "bid_physical_index b = x"
    using k nth_phys [OF k(1)] by (auto simp: block_ok_def)
  have "k < length (sq_block_ids q)" using core k(1) by (auto simp: seq_core_def seq_shape_def)
  then have "Some b \<in> set (shared_ids q)" using k(1) all b(1) by (auto simp: in_set_conv_nth intro!: exI [of _ k])
  then have "Some b \<in> block_at c ` set path" unfolding ids by simp
  then obtain j where "j \<in> set path" "block_at c j = Some b" by (metis imageE)
  then show ?thesis using that b(2) by blast
qed

text \<open>The state of one round of the loop.\<close>

definition adopting :: "nat \<Rightarrow> scheduler \<Rightarrow> scheduler \<Rightarrow> bool" where
  "adopting i s t \<longleftrightarrow> (\<exists>p' q' tip cursor. pool_same (s_pool s) p' \<and> t = s\<lparr>s_pool := p', s_requests := (s_requests s)[i :=
     (s_requests s ! i)\<lparr>rq_sequence := Some q', rq_prefix_tip := tip, rq_prefill_cursor := cursor\<rparr>]\<rparr>)"

lemma adopt_one:
  assumes inv: "core_inv s" and flow: "flow_inv [] s" and i: "i < length (s_requests s)"
    and cache: "s_prefix_cache s = Some c" and r: "rq_state (s_requests s ! i) = Admitted" "rq_prefix_linked (s_requests s ! i)"
    and q: "rq_sequence (s_requests s ! i) = Some q"
    and tokens: "tokens = take KV_BLOCK_SIZE (drop (rq_prefill_cursor (s_requests s ! i)) (prompt (s_requests s ! i)))"
    and room: "rq_prefill_cursor (s_requests s ! i) + KV_BLOCK_SIZE < length (prompt (s_requests s ! i))"
    and found: "cache_find c (rq_prefix_tip (s_requests s ! i)) tokens = Inr (Some (entry, block))"
  defines "r' q' \<equiv> (s_requests s ! i)\<lparr>rq_sequence := Some q', rq_prefix_tip := entry,
     rq_prefill_cursor := rq_prefill_cursor (s_requests s ! i) + KV_BLOCK_SIZE\<rparr>"
  shows "wp (on_sequence i q (adopt_shared_block block))
    (\<lambda>_ t. \<exists>q' p'. t = with_seq i q' p' s \<and> pool_same (s_pool s) p' \<and>
       core_inv (s\<lparr>s_pool := p', s_requests := (s_requests s)[i := r' q']\<rparr>) \<and>
       flow_inv [] (s\<lparr>s_pool := p', s_requests := (s_requests s)[i := r' q']\<rparr>))
    (\<lambda>_ t. t = s) s"
proof -
  let ?r = "s_requests s ! i" and ?n = "sq_shared_block_count q"
  have ph: "phase_ok ?r q" "sq_pending q = None" "\<not> rq_cancellation_deferred ?r"
    using flow i q by (auto simp: flow_inv_def flow_ok_def)
  then have cur: "rq_prefill_cursor ?r = ?n * KV_BLOCK_SIZE" "sq_logical_length q = rq_prefill_cursor ?r"
    "rq_generated_token_ids ?r = []" "\<not> sq_poisoned q" using r(1) by (auto simp: phase_ok_def)
  note kv = core_kv [OF inv i q]
  have core: "seq_core (s_pool s) q" using kv(1) by (simp add: kv_ok_def)
  have all: "sq_allocated_block_count q = ?n"
    using kv(2) ph(2) cur by (simp add: seq_len_def blocks_for_length_def)
  have link: "link_ok c ?r q" using core_linked [OF inv i] cache r(2) q by (simp add: linked_ok_def)
  obtain path where path: "up_path (key_at c) (rq_prefix_tip ?r) path" "shared_ids q = map (block_at c) (rev path)"
    "concat (map (\<lambda>i. ck_tokens (the (key_at c i))) (rev path)) = take (?n * KV_BLOCK_SIZE) (prompt ?r)"
    using link by (auto simp: link_ok_def)
  obtain xs where xs: "cache_inv c xs" and dist: "distinct (map bid_physical_index (cache_blocks c))"
    using inv cache by (auto simp: core_inv_def kv_part_def cache_ok_def)
  have len: "length tokens = KV_BLOCK_SIZE" using tokens room by simp
  have hit: "key_at c entry = Some \<lparr>ck_parent = rq_prefix_tip ?r, ck_tokens = tokens\<rparr>" "block_at c entry = Some block"
    using cache_find_eq(2) [OF xs len] found by auto
  have up: "up_path (key_at c) entry (entry # path)" using path(1) hit(1) cache_ids(2) [OF xs hit(1)] by auto
  then have out: "entry \<notin> set path" using up_path_distinct [OF cache_ids(3) [OF xs]] by fastforce
  have new: "bid_physical_index block \<notin> set (phys q)"
  proof
    assume "bid_physical_index block \<in> set (phys q)"
    then obtain j b where j: "j \<in> set path" "block_at c j = Some b" "bid_physical_index b = bid_physical_index block"
      by (rule link_path_blocks [OF core all path(2)])
    then have "j = entry" using cache_phys_inj [OF dist j(2) hit(2)] by simp
    then show False using j(1) out by simp
  qed
  have max: "sq_maximum_logical_length q = req_max ?r" using core_nth [OF inv i] q by (simp add: rec_ok_def)
  have fits: "(sq_allocated_block_count q + 1) * KV_BLOCK_SIZE \<le> sq_maximum_logical_length q"
    using room max all cur by (simp add: req_max_def)
  have "block \<in> set (ext_of (s_prefix_cache s))" using hit(2) cache block_in_cache by (simp add: ext_of_def)
  show ?thesis unfolding wp_on_sequence
  proof (rule wp_weaken [OF wp_adopt_shared_block [OF kv(1,2) fits new]], goal_cases)
    case (1 _ w)
    obtain q' p' where w: "w = (q', p')" by (cases w)
    have st: "kv_step (q, s_pool s) (q', p')" "seq_len q'" and q': "q' = adopted_state block q" using 1 w by auto
    have room': "?n < length (sq_block_ids q)"
      using adopted_len(2) [OF _ kv(2) ph(2) fits] core all by (simp add: seq_core_def)
    have f: "sq_shared_block_count q' = ?n + 1" "shared_ids q' = shared_ids q @ [Some block]"
      "sq_logical_length q' = (?n + 1) * KV_BLOCK_SIZE" "sq_pending q' = None" "\<not> sq_poisoned q'"
      using all room' ph(2) cur(4) by (simp_all add: q' adopted_state_def Let_def take_Suc_conv_app_nth)
    have tk: "take ((?n + 1) * KV_BLOCK_SIZE) (prompt ?r) = take (?n * KV_BLOCK_SIZE) (prompt ?r) @ tokens"
      unfolding tokens cur(1) using take_add [of "?n * KV_BLOCK_SIZE" KV_BLOCK_SIZE "prompt ?r"] by (simp add: algebra_simps)
    have "link_ok c (r' q') q'"
      unfolding link_ok_def using up f(1,2) path(2,3) hit tk
      by (intro exI [of _ "entry # path"]) (simp add: r'_def)
    then have lk: "linked_ok (s_prefix_cache s) (r' q')" using cache by (simp add: linked_ok_def r'_def)
    have rec: "rec_ok (s_config s) (r' q')"
      using core_nth [OF inv i] q r(1) kv_step_max [OF st(1)] by (simp add: rec_ok_def r'_def)
    have "kv_part p' ((s_requests s)[i := r' q']) (s_prefix_cache s)"
      by (rule kv_part_step [OF _ i q st]) (use inv lk in \<open>auto simp: core_inv_def r'_def\<close>)
    then have c': "core_inv (s\<lparr>s_pool := p', s_requests := (s_requests s)[i := r' q']\<rparr>)"
      using core_update [OF inv i _ rec, of p' "s_prefix_cache s"] by (simp add: same_books_def r'_def)
    have "flow_ok [] (r' q')"
      using f ph(3) cur r(1) room by (simp add: flow_ok_def phase_ok_def r'_def algebra_simps)
    then have "flow_inv [] (s\<lparr>s_requests := (s_requests s)[i := r' q']\<rparr>)"
      by (intro flow_update [OF flow i]) (simp_all add: same_books_def r'_def)
    then show ?case using c' kv_step_same [OF st(1)] unfolding w by (auto simp: flow_inv_def)
  qed (use with_seq_same [OF q] in \<open>auto\<close>)
qed

lemma adopting_refl: "i < length (s_requests s) \<Longrightarrow> rq_sequence (s_requests s ! i) = Some q \<Longrightarrow> adopting i s s"
proof -
  assume "rq_sequence (s_requests s ! i) = Some q"
  then have "(s_requests s ! i)\<lparr>rq_sequence := Some q, rq_prefix_tip := rq_prefix_tip (s_requests s ! i),
      rq_prefill_cursor := rq_prefill_cursor (s_requests s ! i)\<rparr> = s_requests s ! i" by simp
  then show ?thesis unfolding adopting_def
    by (intro exI [of _ "s_pool s"] exI [of _ q] exI [of _ "rq_prefix_tip (s_requests s ! i)"]
        exI [of _ "rq_prefill_cursor (s_requests s ! i)"]) simp
qed

lemma adopting_trans:
  assumes "adopting i s t" and "adopting i t u" and "i < length (s_requests s)"
  shows "adopting i s u"
proof -
  from assms(1) obtain p q tip cur where t: "pool_same (s_pool s) p" "t = s\<lparr>s_pool := p, s_requests := (s_requests s)[i :=
     (s_requests s ! i)\<lparr>rq_sequence := Some q, rq_prefix_tip := tip, rq_prefill_cursor := cur\<rparr>]\<rparr>" unfolding adopting_def by blast
  from assms(2) obtain p' q' tip' cur' where u: "pool_same (s_pool t) p'" "u = t\<lparr>s_pool := p', s_requests := (s_requests t)[i :=
     (s_requests t ! i)\<lparr>rq_sequence := Some q', rq_prefix_tip := tip', rq_prefill_cursor := cur'\<rparr>]\<rparr>" unfolding adopting_def by blast
  have "u = s\<lparr>s_pool := p', s_requests := (s_requests s)[i :=
     (s_requests s ! i)\<lparr>rq_sequence := Some q', rq_prefix_tip := tip', rq_prefill_cursor := cur'\<rparr>]\<rparr>"
    using u(2) t(2) assms(3) by simp
  moreover have "pool_same (s_pool s) p'" using pool_same_trans [OF t(1)] u(1) t(2) by simp
  ultimately show ?thesis unfolding adopting_def by blast
qed

lemma adopting_fields:
  assumes "adopting i s t" and "i < length (s_requests s)"
  shows "length (s_requests t) = length (s_requests s)" and "s_prefix_cache t = s_prefix_cache s"
    and "rq_state (s_requests t ! i) = rq_state (s_requests s ! i)" and "prompt (s_requests t ! i) = prompt (s_requests s ! i)"
    and "rq_prefix_linked (s_requests t ! i) = rq_prefix_linked (s_requests s ! i)"
    and "\<exists>q. rq_sequence (s_requests t ! i) = Some q" and "same_frame s t" and "pool_same (s_pool s) (s_pool t)"
    and "s_completion_outbox t = s_completion_outbox s" and "s_waiting t = s_waiting s"
    and "s_requests t = (s_requests s)[i := s_requests t ! i]"
  using assms by (auto simp: adopting_def same_frame_def)

lemma wp_adopt_loop:
  assumes "core_inv s" and "flow_inv [] s" and "i < length (s_requests s)"
    and "s_prefix_cache s = Some c" and "rq_state (s_requests s ! i) = Admitted" "rq_prefix_linked (s_requests s ! i)"
    and "rq_sequence (s_requests s ! i) = Some q"
    and "reusable = (length (prompt (s_requests s ! i)) - 1) div KV_BLOCK_SIZE * KV_BLOCK_SIZE"
    and "reusable \<le> rq_prefill_cursor (s_requests s ! i) + fuel * KV_BLOCK_SIZE"
  shows "wp (adopt_loop fuel c reusable i)
    (\<lambda>_ t. core_inv t \<and> flow_inv [] t \<and> adopting i s t) (\<lambda>_ t. core_inv t \<and> flow_inv [] t \<and> adopting i s t) s"
  using assms
proof (induction fuel arbitrary: s q)
  case 0
  then show ?case by (simp add: adopt_loop.simps wp_simps Let_def adopting_refl)
next
  case (Suc fuel)
  note inv = Suc.prems(1) and flow = Suc.prems(2) and i = Suc.prems(3) and cache = Suc.prems(4)
    and st = Suc.prems(5,6) and q = Suc.prems(7) and re = Suc.prems(8)
  let ?r = "s_requests s ! i" and ?start = "rq_prefill_cursor (s_requests s ! i)"
  have here: "core_inv s \<and> flow_inv [] s \<and> adopting i s s" using inv flow adopting_refl [OF i q] by simp
  show ?case
  proof (cases "reusable \<le> ?start")
    case True
    then show ?thesis using here by (simp add: adopt_loop.simps wp_simps Let_def)
  next
    case False
    have "phase_ok ?r q" using flow i q by (simp add: flow_inv_def flow_ok_def)
    then have cur: "?start = sq_shared_block_count q * KV_BLOCK_SIZE" using st by (simp add: phase_ok_def)
    have "sq_shared_block_count q < (length (prompt ?r) - 1) div KV_BLOCK_SIZE" using False re cur by simp
    then have "(sq_shared_block_count q + 1) * KV_BLOCK_SIZE \<le> (length (prompt ?r) - 1) div KV_BLOCK_SIZE * KV_BLOCK_SIZE"
      by (intro mult_le_mono1) simp
    also have "\<dots> \<le> length (prompt ?r) - 1" by simp
    finally have room: "?start + KV_BLOCK_SIZE < length (prompt ?r)" using cur by (cases "prompt ?r") auto
    let ?tokens = "take KV_BLOCK_SIZE (drop ?start (prompt ?r))"
    have sl: "block_slice (prompt ?r) ?start = Inr ?tokens" using room by (simp add: block_slice_def failE_def)
    obtain xs where xs: "cache_inv c xs" using inv cache by (auto simp: core_inv_def kv_part_def cache_ok_def)
    have len: "length ?tokens = KV_BLOCK_SIZE" using room by simp
    show ?thesis
    proof (cases "cache_find c (rq_prefix_tip ?r) ?tokens")
      case (Inl e)
      then show ?thesis using cache_find_eq(1) [OF xs len] by simp
    next
      case (Inr found)
      show ?thesis
      proof (cases found)
        case None
        then show ?thesis using False here q sl Inr by (subst adopt_loop.simps) (simp add: wp_simps Let_def)
      next
        case (Some eb)
        then obtain entry block where f: "cache_find c (rq_prefix_tip ?r) ?tokens = Inr (Some (entry, block))" using Inr by (cases eb) auto
        let ?r' = "\<lambda>q'. ?r\<lparr>rq_sequence := Some q', rq_prefix_tip := entry, rq_prefill_cursor := ?start + KV_BLOCK_SIZE\<rparr>"
        have body: "wp (bindM (on_sequence i q (adopt_shared_block block)) (\<lambda>_.
             bindM (mod_request i (\<lambda>r. r\<lparr>rq_prefix_tip := entry, rq_prefill_cursor := ?start + KV_BLOCK_SIZE\<rparr>)) (\<lambda>_.
             adopt_loop fuel c reusable i)))
          (\<lambda>_ t. core_inv t \<and> flow_inv [] t \<and> adopting i s t) (\<lambda>_ t. core_inv t \<and> flow_inv [] t \<and> adopting i s t) s"
        proof (rule wp_callI [OF adopt_one [OF inv flow i cache st q refl room f]], goal_cases)
          case (2 _ t)
          then obtain q' p' where t: "t = with_seq i q' p' s" "pool_same (s_pool s) p'"
            and c: "core_inv (s\<lparr>s_pool := p', s_requests := (s_requests s)[i := ?r' q']\<rparr>)"
              "flow_inv [] (s\<lparr>s_pool := p', s_requests := (s_requests s)[i := ?r' q']\<rparr>)" by blast
          let ?u = "s\<lparr>s_pool := p', s_requests := (s_requests s)[i := ?r' q']\<rparr>"
          have u: "t\<lparr>s_requests := (s_requests t)[i := (s_requests t ! i)\<lparr>rq_prefix_tip := entry,
              rq_prefill_cursor := ?start + KV_BLOCK_SIZE\<rparr>]\<rparr> = ?u" using t i by simp
          have ad: "adopting i s ?u" unfolding adopting_def using t(2) by blast
          show ?case unfolding wp_bindM wp_mod_request u
            by (rule wp_weaken [OF Suc.IH [of ?u q']])
              (use c cache st i re Suc.prems(9) adopting_trans [OF ad _ i] in \<open>auto\<close>)
        qed (use here in auto)
        then show ?thesis using False q sl f by (subst adopt_loop.simps) (simp add: wp_withM Let_def wp_bindM [of "tryM _"] wp_tryM)
      qed
    qed
  qed
qed

text \<open>Everything a planning step leaves alone: all but the pool, the cache, the records and metrics.\<close>

definition near :: "scheduler \<Rightarrow> scheduler \<Rightarrow> bool" where
  "near s t \<longleftrightarrow> s_config t = s_config s \<and> s_inflight t = s_inflight s \<and>
     s_last_now_ns t = s_last_now_ns s \<and> s_accepting t = s_accepting s \<and> s_next_request_id t = s_next_request_id s \<and>
     s_next_iteration_id t = s_next_iteration_id s \<and> s_completion_outbox_capacity t = s_completion_outbox_capacity s \<and>
     s_terminal_capacity t = s_terminal_capacity s \<and> s_prefill_plateau t = s_prefill_plateau s \<and>
     s_atomic_prefill_chunks t = s_atomic_prefill_chunks s \<and> s_prefill_coalescing t = s_prefill_coalescing s \<and>
     s_prefill_burst t = s_prefill_burst s \<and> s_aging_override_last_iteration t = s_aging_override_last_iteration s \<and>
     s_completion_outbox t = s_completion_outbox s \<and> s_waiting t = s_waiting s \<and>
     map rq_request_id (s_requests t) = map rq_request_id (s_requests s)"

lemma near_refl [simp]: "near s s"
  by (simp add: near_def)

lemma near_trans: "near s t \<Longrightarrow> near t u \<Longrightarrow> near s u"
  by (simp add: near_def)

lemma near_metric: "metric_only s t \<Longrightarrow> near s t"
  by (auto simp: metric_only_def near_def)

lemma near_length: "near s t \<Longrightarrow> length (s_requests t) = length (s_requests s)"
  unfolding near_def by (metis length_map)

lemma near_index: "near s t \<Longrightarrow> record_index t x = record_index s x"
proof -
  assume "near s t"
  then have m: "map rq_request_id (s_requests t) = map rq_request_id (s_requests s)" by (simp add: near_def)
  have "position (\<lambda>r. rq_request_id r = x) rs = position (\<lambda>y. y = x) (map rq_request_id rs)" for rs
    by (induction rs) auto
  then show ?thesis unfolding record_index_def by (metis m)
qed

lemma inside_near: "inside s t \<Longrightarrow> near s t"
proof -
  assume i: "inside s t"
  have "map rq_request_id (s_requests t) = map rq_request_id (s_requests s)"
  proof (rule nth_equalityI)
    show "length (map rq_request_id (s_requests t)) = length (map rq_request_id (s_requests s))" using inside_index(1) [OF i] by simp
    fix k assume "k < length (map rq_request_id (s_requests t))"
    then have k: "k < length (s_requests s)" using inside_index(1) [OF i] by simp
    then show "map rq_request_id (s_requests t) ! k = map rq_request_id (s_requests s) ! k"
      using strip_fields(1) [OF inside_index(3) [OF i k]] inside_index(1) [OF i] by simp
  qed
  then show ?thesis using i by (simp add: inside_def near_def same_frame_def)
qed

lemma adopting_near: "adopting i s t \<Longrightarrow> i < length (s_requests s) \<Longrightarrow> near s t"
  by (auto simp: adopting_def near_def map_update list_update_id2)

lemma core_relinked:
  assumes inv: "core_inv s" and c: "s_prefix_cache s = Some c" and rel: "relinked c c'" and c': "cache_inv c' ys"
  shows "core_inv (s\<lparr>s_prefix_cache := Some c'\<rparr>)"
proof -
  note at = relinked_at [OF rel] and blocks = cache_blocks_relinked [OF rel]
  have "linked_ok (Some c') r = linked_ok (Some c) r" for r
    by (simp add: linked_ok_def link_ok_def at cong: option.case_cong)
  moreover have "cache_ok (Some c')" using inv c c' blocks by (auto simp: core_inv_def kv_part_def cache_ok_def)
  ultimately have "kv_part (s_pool s) (s_requests s) (Some c')"
    using inv c blocks by (simp add: core_inv_def kv_part_def ext_of_def)
  then show ?thesis using inv by (simp add: core_inv_def)
qed

lemma wp_touch_tip:
  assumes inv: "core_inv s" and c: "s_prefix_cache s = Some c" and path: "up_path (key_at c) tip path"
  shows "wp (on_scache c (on_cache (touch_path tip)))
    (\<lambda>_ t. core_inv t \<and> (\<exists>c'. t = s\<lparr>s_prefix_cache := Some c'\<rparr>)) (\<lambda>_ _. False) s"
proof -
  obtain xs where xs: "cache_inv c xs" using inv c by (auto simp: core_inv_def kv_part_def cache_ok_def)
  show ?thesis unfolding wp_on_scache wp_on_cache
  proof (rule wp_weaken [OF wp_touch_path [OF xs path]], goal_cases)
    case (1 _ c')
    then show ?case using core_relinked [OF inv c] by auto
  qed simp
qed

lemma linked_tip:
  assumes "core_inv s" and "s_prefix_cache s = Some c" and "i < length (s_requests s)"
    and "rq_prefix_linked (s_requests s ! i)" "rq_sequence (s_requests s ! i) = Some q"
  obtains path where "up_path (key_at c) (rq_prefix_tip (s_requests s ! i)) path"
  using core_linked [OF assms(1,3)] assms by (auto simp: linked_ok_def link_ok_def)

lemma wp_touch_linked:
  assumes inv: "core_inv s" and c: "s_prefix_cache s = Some c" and i: "i < length (s_requests s)"
    and r: "rq_prefix_linked (s_requests s ! i)" "rq_sequence (s_requests s ! i) = Some q"
  shows "wp (on_scache c (on_cache (touch_path (rq_prefix_tip (s_requests s ! i)))))
    (\<lambda>_ t. core_inv t \<and> (\<exists>c'. t = s\<lparr>s_prefix_cache := Some c'\<rparr>)) (\<lambda>_ _. False) s"
  by (rule linked_tip [OF assms]) (rule wp_touch_tip [OF inv c])

lemma wp_adopt_cached_prefix:
  assumes inv: "core_inv s" and flow: "flow_inv [] s" and i: "i < length (s_requests s)"
  shows "wp (adopt_cached_prefix i) (\<lambda>_ t. core_inv t \<and> flow_inv [] t \<and> near s t) (\<lambda>_ t. core_inv t \<and> flow_inv [] t \<and> near s t) s"
proof (cases "s_prefix_cache s = None \<or> rq_sequence (s_requests s ! i) = None \<or> rq_state (s_requests s ! i) \<noteq> Admitted \<or>
    \<not> rq_prefix_linked (s_requests s ! i)")
  case True
  then show ?thesis using inv flow
    by (auto simp: adopt_cached_prefix_def wp_simps Let_def split: option.splits)
next
  case False
  then obtain c q where c: "s_prefix_cache s = Some c" and q: "rq_sequence (s_requests s ! i) = Some q"
    and st: "rq_state (s_requests s ! i) = Admitted" "rq_prefix_linked (s_requests s ! i)" by auto
  let ?r = "s_requests s ! i" and ?re = "(length (prompt (s_requests s ! i)) - 1) div KV_BLOCK_SIZE * KV_BLOCK_SIZE"
  have fuel: "?re \<le> rq_prefill_cursor ?r + length (prompt ?r) * KV_BLOCK_SIZE"
  proof -
    have "(length (prompt ?r) - 1) div KV_BLOCK_SIZE \<le> length (prompt ?r)" by (meson diff_le_self div_le_dividend le_trans)
    then show ?thesis by simp
  qed
  have tail: "wp (if rq_prefill_cursor (s_requests t ! i) - rq_prefill_cursor ?r = 0 then ret ()
           else
             bindM (mod_request i (\<lambda>r. r\<lparr>rq_cached_prompt_tokens :=
               wrapping_add (rq_cached_prompt_tokens r) (rq_prefill_cursor (s_requests t ! i) - rq_prefill_cursor ?r)\<rparr>)) (\<lambda>_.
             bindM (on_scache c (on_cache (touch_path (rq_prefix_tip (s_requests t ! i))))) (\<lambda>_.
             observe_metric (record_prefix_cache_hit (rq_prefill_cursor (s_requests t ! i) - rq_prefill_cursor ?r)))))
      (\<lambda>_ t. core_inv t \<and> flow_inv [] t \<and> near s t) (\<lambda>_ t. core_inv t \<and> flow_inv [] t \<and> near s t) t"
    if t: "core_inv t" "flow_inv [] t" and ad: "adopting i s t" for t
  proof -
    note f = adopting_fields [OF ad i]
    have it: "i < length (s_requests t)" using f(1) i by simp
    obtain q' where q': "rq_sequence (s_requests t ! i) = Some q'" using f(6) by blast
    have nr: "near s t" by (rule adopting_near [OF ad i])
    let ?u = "\<lambda>n. t\<lparr>s_requests := (s_requests t)[i := (s_requests t ! i)\<lparr>rq_cached_prompt_tokens := n\<rparr>]\<rparr>"
    have u: "core_inv (?u n)" "flow_inv [] (?u n)" "near s (?u n)" for n
    proof -
      let ?r' = "(s_requests t ! i)\<lparr>rq_cached_prompt_tokens := n\<rparr>"
      have "kv_part (s_pool t) ((s_requests t)[i := ?r']) (s_prefix_cache t)"
        by (rule kv_part_same_seqs [OF _ it]) (use t(1) core_linked [OF t(1) it] in \<open>auto simp: core_inv_def\<close>)
      then show "core_inv (?u n)"
        using core_update [OF t(1) it, of ?r' "s_pool t" "s_prefix_cache t"] core_nth [OF t(1) it]
        by (simp add: same_books_def rec_ok_def)
      have "flow_ok [] ?r'" using t(2) it by (simp add: flow_inv_def)
      then show "flow_inv [] (?u n)" by (intro flow_update [OF t(2) it]) (simp_all add: same_books_def)
      have "near t (?u n)" using it by (simp add: near_def map_update list_update_id2)
      then show "near s (?u n)" by (rule near_trans [OF nr])
    qed
    have touch: "wp (on_scache c (on_cache (touch_path (rq_prefix_tip (s_requests t ! i)))))
        (\<lambda>_ v. core_inv v \<and> flow_inv [] v \<and> near s v) (\<lambda>_ _. False) (?u n)" for n
    proof -
      have "wp (on_scache c (on_cache (touch_path (rq_prefix_tip (s_requests (?u n) ! i)))))
          (\<lambda>_ v. core_inv v \<and> (\<exists>c'. v = (?u n)\<lparr>s_prefix_cache := Some c'\<rparr>)) (\<lambda>_ _. False) (?u n)"
        by (rule wp_touch_linked [OF u(1) [of n]]) (use f(2,5) c it st q' in simp_all)
      then have "wp (on_scache c (on_cache (touch_path (rq_prefix_tip (s_requests t ! i)))))
          (\<lambda>_ v. core_inv v \<and> (\<exists>c'. v = (?u n)\<lparr>s_prefix_cache := Some c'\<rparr>)) (\<lambda>_ _. False) (?u n)"
        using it by simp
      then show ?thesis
      proof (rule wp_weaken, goal_cases)
        case (1 _ v)
        then obtain c' where v: "core_inv v" "v = (?u n)\<lparr>s_prefix_cache := Some c'\<rparr>" by blast
        have "near (?u n) v" unfolding v(2) by (simp add: near_def)
        moreover have "flow_inv [] v" using u(2) [of n] unfolding v(2) by (simp add: flow_inv_def)
        ultimately show ?case using v(1) near_trans [OF u(3)] by blast
      qed
    qed
    have "wp (bindM (on_scache c (on_cache (touch_path (rq_prefix_tip (s_requests t ! i))))) (\<lambda>_. observe_metric m))
        (\<lambda>_ t. core_inv t \<and> flow_inv [] t \<and> near s t) (\<lambda>_ t. core_inv t \<and> flow_inv [] t \<and> near s t) (?u n)" for n m
    proof (rule wp_callI [OF touch], simp, rule wp_observe_metric, goal_cases)
      case (1 _ v w)
      then have "near v w" "flow_inv [] w = flow_inv [] v" "core_inv w = core_inv v"
        by (auto simp: near_metric metric_only_core metric_only_def flow_inv_def)
      then show ?case using 1 near_trans by blast
    qed
    then show ?thesis using t nr by (simp add: wp_ret wp_bindM [of "mod_request _ _"] wp_mod_request)
  qed
  have cond: "\<not> (rq_state ?r \<noteq> Admitted \<or> \<not> rq_prefix_linked ?r)" using st by simp
  show ?thesis unfolding adopt_cached_prefix_def wp_withM Let_def c q prod.case option.case if_not_P [OF cond]
    by (rule wp_callI [OF wp_adopt_loop [OF inv flow i c st q refl fuel]])
      (use tail adopting_near [OF _ i] in \<open>auto simp only: wp_withM\<close>)
qed

lemma wp_adopt_cached_prefixes:
  assumes inv: "core_inv s" and flow: "flow_inv [] s"
  shows "wp adopt_cached_prefixes (\<lambda>_ t. core_inv t \<and> flow_inv [] t \<and> near s t) (\<lambda>_ t. core_inv t \<and> flow_inv [] t \<and> near s t) s"
  unfolding adopt_cached_prefixes_def wp_withM
proof (rule wp_forM [where I = "\<lambda>t. core_inv t \<and> flow_inv [] t \<and> near s t"], goal_cases)
  case (2 i t)
  then have i: "i < length (s_requests t)" using near_length [of s t] by simp
  show ?case by (rule wp_weaken [OF wp_adopt_cached_prefix [OF _ _ i]]) (use 2 near_trans in auto)
qed (use inv flow in simp)

subsection \<open>Evicting cached blocks\<close>

text \<open>A block on the path of a live link is held by its sequence too, so eviction passes it by.\<close>

lemma linked_not_evictable:
  assumes kv: "kv_inv p qs (cache_blocks c)" and q: "q \<in> set qs"
    and ids: "shared_ids q = map (block_at c) (rev path)" and j: "j \<in> set path"
  shows "\<not> evictable c p j"
proof
  assume ev: "evictable c p j"
  have core: "seq_core p q" using kv q by (simp add: kv_inv_def)
  then have sh: "seq_shape q" by (simp add: seq_core_def)
  have "block_at c j \<in> set (shared_ids q)" using j by (simp add: ids)
  then obtain k where k: "k < sq_shared_block_count q" "sq_block_ids q ! k = block_at c j"
    using sh by (auto simp: in_set_conv_nth seq_shape_def)
  have "block_ok p q k" using core k(1) sh by (simp add: seq_core_def seq_shape_def)
  then obtain b where b: "block_at c j = Some b" "sq_physical_block_ids q ! k = bid_physical_index b"
      "bid_physical_index b < length (kp_slots p)" using k(2) by (auto simp: block_ok_def)
  let ?x = "bid_physical_index b"
  have "?x \<in> set (shared_phys q)"
    using k(1) b(2) sh by (auto simp: shared_phys_def in_set_conv_nth seq_shape_def intro!: exI [of _ k])
  then have "1 \<le> total_hold qs ?x" using total_hold_ge [OF q, of ?x] by (simp add: hold_def)
  moreover have "0 < ext_count (cache_blocks c) ?x" by (rule ext_count_pos [OF block_in_cache [OF b(1)]])
  moreover have "bs_shared_references (kp_slots p ! ?x) = total_hold qs ?x + ext_count (cache_blocks c) ?x"
    using kv b(3) by (simp add: kv_inv_def refs_exact_def)
  ultimately have "bs_shared_references (kp_slots p ! ?x) \<noteq> 1" by linarith
  moreover have "shared_references p b = Inr (bs_shared_references (kp_slots p ! ?x))"
    by (rule shared_references_held [OF kv block_in_cache [OF b(1)]])
  ultimately show False using ev b(1) by (auto simp: evictable_def block_at_def split: option.splits)
qed

lemma link_ok_evict:
  assumes ok: "link_ok c r q" and kv: "kv_inv p qs (cache_blocks c)" "q \<in> set qs" and ev: "evictable c p i"
    and c': "key_at c' = (key_at c)(i := None)" "block_at c' = (block_at c)(i := None)"
  shows "link_ok c' r q"
proof -
  obtain path where path: "up_path (key_at c) (rq_prefix_tip r) path" "shared_ids q = map (block_at c) (rev path)"
    "concat (map (\<lambda>i. ck_tokens (the (key_at c i))) (rev path)) = take (sq_shared_block_count q * KV_BLOCK_SIZE) (prompt r)"
    using ok by (auto simp: link_ok_def)
  have i: "i \<notin> set path" using linked_not_evictable [OF kv path(2)] ev by blast
  have "up_path (key_at c') (rq_prefix_tip r) path" by (rule up_path_mono [OF path(1)]) (use i in \<open>auto simp: c'(1)\<close>)
  moreover have "map (block_at c') (rev path) = map (block_at c) (rev path)" using i by (auto simp: c'(2))
  moreover have "map (\<lambda>i. ck_tokens (the (key_at c' i))) (rev path) = map (\<lambda>i. ck_tokens (the (key_at c i))) (rev path)"
    using i by (auto simp: c'(1))
  ultimately show ?thesis unfolding link_ok_def using path(2,3) by (intro exI [of _ path]) (simp only:)
qed

abbreviation with_cache :: "prefix_cache \<Rightarrow> kv_block_pool \<Rightarrow> scheduler \<Rightarrow> scheduler" where
  "with_cache c' p' s \<equiv> s\<lparr>s_prefix_cache := Some c', s_pool := p'\<rparr>"

lemma wp_evict_cached:
  assumes inv: "core_inv s" and c: "s_prefix_cache s = Some c"
  shows "wp (on_scache c evict_one)
    (\<lambda>b t. core_inv t \<and> (\<exists>c' p'. t = with_cache c' p' s \<and> pool_same (s_pool s) p' \<and>
       (if b then cache_len c' < cache_len c else cache_len c' = cache_len c) \<and> pc_capacity c' = pc_capacity c \<and>
       (\<forall>i k. key_at c' i = Some k \<longrightarrow> key_at c i = Some k))) (\<lambda>_ _. False) s"
proof -
  obtain xs where xs: "cache_inv c xs" and dist: "distinct (map bid_physical_index (cache_blocks c))"
    and kv: "kv_inv (s_pool s) (seqs (s_requests s)) (cache_blocks c)"
    and link: "\<forall>r\<in>set (s_requests s). linked_ok (Some c) r"
    using inv c by (auto simp: core_inv_def kv_part_def cache_ok_def ext_of_def)
  show ?thesis unfolding wp_on_scache
  proof (rule wp_weaken [OF wp_evict_one [OF xs kv]], goal_cases)
    case (1 b w)
    obtain c' p' where w: "w = (c', p')" by (cases w)
    show ?case
    proof (cases "find (evictable c (s_pool s)) xs")
      case None
      then have "\<not> b" "c' = c" "p' = s_pool s" using 1 w by auto
      moreover have "with_cache c (s_pool s) s = s" using c by simp
      ultimately show ?thesis unfolding w prod.case using inv
        by (intro conjI exI [of _ c] exI [of _ "s_pool s"]) simp_all
    next
      case (Some i)
      then have c': "b" "cache_inv c' (remove1 i xs)" "kv_inv p' (seqs (s_requests s)) (cache_blocks c')" "pool_same (s_pool s) p'"
        "key_at c' = (key_at c)(i := None)" "block_at c' = (block_at c)(i := None)" "pc_capacity c' = pc_capacity c"
        using 1 w by auto
      have ev: "evictable c (s_pool s) i" and ix: "i \<in> set xs" using Some by (auto simp: find_Some_iff)
      have "key_at c i \<noteq> None" using xs ix by (auto simp: cache_inv_def)
      then obtain blk where blk: "block_at c i = Some blk" by (auto simp: key_at_def block_at_def)
      have ln: "length (pc_entries c') = length (pc_entries c)" using cache_ids(4) [OF xs] cache_ids(4) [OF c'(2)] c'(7) by simp
      have m: "mset (cache_blocks c') = mset (remove1 blk (cache_blocks c))" by (rule cache_blocks_delete [OF c'(6) blk ln])
      have "distinct (map bid_physical_index (remove1 blk (cache_blocks c)))"
        using dist by (metis distinct_map distinct_remove1 inj_on_subset set_remove1_subset)
      then have d': "distinct (map bid_physical_index (cache_blocks c'))"
        using m by (metis mset_eq_imp_distinct_iff mset_map)
      have "linked_ok (Some c') r" if r: "r \<in> set (s_requests s)" for r
        using link r link_ok_evict [OF _ kv _ ev c'(5,6), of r] seqs_in by (auto simp: linked_ok_def split: option.splits)
      then have "kv_part p' (s_requests s) (Some c')" using c'(2,3) d' by (auto simp: kv_part_def cache_ok_def ext_of_def)
      then have "core_inv (with_cache c' p' s)" using inv by (simp add: core_inv_def)
      moreover have "cache_len c' < cache_len c"
      proof -
        have "cache_len c = card (dom (key_at c))" "cache_len c' = card (dom (key_at c) - {i})"
          using xs c'(2,5) by (simp_all add: cache_len_def cache_inv_def cache_shape_def)
        moreover have "i \<in> dom (key_at c)" using \<open>key_at c i \<noteq> None\<close> by auto
        ultimately show ?thesis using finite_live [of c] by (metis card_Diff1_less)
      qed
      ultimately show ?thesis unfolding w prod.case using c'(1,4,5,7)
        by (intro conjI exI [of _ c'] exI [of _ p']) (auto split: if_splits)
    qed
  qed simp
qed

text \<open>What eviction may change: the pool, the cache and the metrics.\<close>

definition evicting :: "scheduler \<Rightarrow> scheduler \<Rightarrow> bool" where
  "evicting s t \<longleftrightarrow> core_inv t \<and> near s t \<and> s_requests t = s_requests s \<and> (s_prefix_cache t = None \<longleftrightarrow> s_prefix_cache s = None)"

lemma evicting_trans: "evicting s t \<Longrightarrow> evicting t u \<Longrightarrow> evicting s u"
  by (auto simp: evicting_def intro: near_trans)

lemma evicting_metric: "core_inv s \<Longrightarrow> metric_only s t \<Longrightarrow> evicting s t"
  by (auto simp: evicting_def metric_only_core near_metric) (auto simp: metric_only_def)

lemma wp_evict_until:
  assumes "core_inv s" and "\<And>c. s_prefix_cache s = Some c \<Longrightarrow> cache_len c < fuel"
  shows "wp (evict_until env fuel needed) (\<lambda>_ t. evicting s t) (\<lambda>_ _. False) s"
  using assms
proof (induction fuel arbitrary: s)
  case 0
  then have "s_prefix_cache s = None" by (cases "s_prefix_cache s") auto
  then show ?case using 0 by (simp add: evict_until.simps wp_simps evicting_def)
next
  case (Suc fuel)
  note inv = Suc.prems(1)
  have here: "evicting s s" using inv by (simp add: evicting_def)
  show ?case
  proof (cases "s_prefix_cache s = None \<or> needed \<le> ps_free_block_count (pool_stats env (s_pool s))")
    case True
    then show ?thesis using here by (auto simp: evict_until.simps wp_simps split: option.split)
  next
    case False
    then obtain c where c: "s_prefix_cache s = Some c" by auto
    have "wp (bindM (on_scache c evict_one) (\<lambda>evicted.
             if evicted then bindM (observe_metric record_prefix_cache_eviction) (\<lambda>_. evict_until env fuel needed)
             else ret ())) (\<lambda>_ t. evicting s t) (\<lambda>_ _. False) s"
    proof (rule wp_callI [OF wp_evict_cached [OF inv c]], goal_cases)
      case (2 b t)
      then obtain c' p' where t: "core_inv t" "t = with_cache c' p' s" "pool_same (s_pool s) p'"
        "if b then cache_len c' < cache_len c else cache_len c' = cache_len c" by blast
      have st: "evicting s t" using t(1,3) c unfolding t(2) by (simp add: evicting_def near_def)
      have "wp (bindM (observe_metric record_prefix_cache_eviction) (\<lambda>_. evict_until env fuel needed))
        (\<lambda>_ t. evicting s t) (\<lambda>_ _. False) t" if b
        unfolding wp_bindM
      proof (rule wp_observe_metric)
        fix u assume u: "metric_only t u"
        have c2: "core_inv u" using u t(1) by (simp add: metric_only_core)
        have "s_prefix_cache u = Some c'" using u t(2) by (auto simp: metric_only_def)
        then have f: "\<And>d. s_prefix_cache u = Some d \<Longrightarrow> cache_len d < fuel" using t(4) \<open>b\<close> Suc.prems(2) [OF c] by simp
        show "wp (evict_until env fuel needed) (\<lambda>_ t. evicting s t) (\<lambda>_ _. False) u"
          by (rule wp_weaken [OF Suc.IH [OF c2 f]])
            (use evicting_trans [OF st] evicting_trans [OF evicting_metric [OF t(1) u]] in auto)
      qed
      then show ?case using st by (simp add: wp_ret)
    qed simp
    then show ?thesis using False c by (subst evict_until.simps) (simp add: wp_withM)
  qed
qed

end
