(* ===== verification/Scheduler_Prepare.thy ===== *)
theory Scheduler_Prepare
  imports Scheduler_Plan
begin

text \<open>
  Planning under the invariant: the selected candidates become payloads, every payload reserves its
  blocks, and the assembled plan is put in flight. A failure at any point leaves a consistent
  scheduler without an iteration in flight.
\<close>

subsection \<open>Payloads\<close>

text \<open>What a payload may ask of the request it names; it does not look inside the sequence.\<close>

definition payload_for :: "candidate_payload \<Rightarrow> request_record \<Rightarrow> bool" where
  "payload_for p r \<longleftrightarrow> rq_request_id r = cd_request_id (cp_candidate p) \<and>
     (case cd_kind (cp_candidate p) of
        Prefill \<Rightarrow> rq_state r \<in> {Admitted, Prefilling} \<and> rq_prefill_cursor r < cp_target_logical_length p \<and>
          cp_target_logical_length p \<le> length (prompt r) \<and>
          (cp_output_slot p \<noteq> None \<longleftrightarrow> cp_target_logical_length p = length (prompt r))
      | Decode \<Rightarrow> rq_state r = Decoding \<and> cp_output_slot p \<noteq> None \<and>
          cp_target_logical_length p = length (prompt r) + length (rq_generated_token_ids r))"

definition payload_ok :: "request_record list \<Rightarrow> candidate_payload \<Rightarrow> bool" where
  "payload_ok rs p \<longleftrightarrow> (\<exists>r\<in>set rs. payload_for p r)"

lemma payload_for_strip: "strip r' = strip r \<Longrightarrow> payload_for p r' = payload_for p r"
  using strip_fields [of r' r] by (simp add: payload_for_def split: work_kind.split)

lemma payload_ok_strip:
  assumes m: "map strip rs' = map strip rs" and p: "payload_ok rs p"
  shows "payload_ok rs' p"
proof -
  obtain i where i: "i < length rs" "payload_for p (rs ! i)" using p by (auto simp: payload_ok_def in_set_conv_nth)
  have len: "length rs' = length rs" using m by (metis length_map)
  have "map strip rs' ! i = map strip rs ! i" by (simp only: m)
  then have "strip (rs' ! i) = strip (rs ! i)" using i(1) len by simp
  from payload_for_strip [OF this] have "payload_for p (rs' ! i)" using i(2) by simp
  then show ?thesis unfolding payload_ok_def using i(1) len by (metis nth_mem)
qed

lemma candidate_input_ok:
  assumes inp: "candidate_input env r c = Inr (tokens, target, out)" and id: "rq_request_id r = cd_request_id c"
    and pos: "0 < cd_token_count c"
    and st: "case cd_kind c of Prefill \<Rightarrow> rq_state r \<in> {Admitted, Prefilling} | Decode \<Rightarrow> rq_state r = Decoding"
    and ph: "\<And>q. rq_sequence r = Some q \<Longrightarrow> phase_ok r q" and slot: "slot \<noteq> None \<longleftrightarrow> out"
  shows "payload_for \<lparr>cp_candidate = c, cp_input_tokens = tokens, cp_target_logical_length = target, cp_output_slot = slot\<rparr> r"
proof (cases "cd_kind c")
  case Prefill
  then show ?thesis using inp id pos st slot by (auto simp: candidate_input_def payload_for_def checked_add_def Let_def split: if_splits)
next
  case Decode
  then obtain q where "rq_sequence r = Some q" "target = sq_logical_length q + 1" "out"
    using inp by (auto simp: candidate_input_def checked_add_def Let_def split: if_splits)
  moreover from ph [OF this(1)] have "sq_logical_length q = length (prompt r) + length (rq_generated_token_ids r) - 1" "rq_generated_token_ids r \<noteq> []"
    using st Decode by (auto simp: phase_ok_def)
  ultimately show ?thesis using Decode id st slot by (cases "rq_generated_token_ids r") (auto simp: payload_for_def)
qed

definition slots_upto :: "nat \<Rightarrow> output_slot list" where
  "slots_upto n = map OutputSlot [0..<n]"

lemma slots_upto_Suc: "slots_upto (Suc n) = slots_upto n @ [OutputSlot n]"
  by (simp add: slots_upto_def)

lemma distinct_slots [simp]: "distinct (slots_upto n)"
  by (simp add: slots_upto_def distinct_map inj_on_def)

lemma length_slots [simp]: "length (slots_upto n) = n"
  by (simp add: slots_upto_def)

lemma build_payloads_ok:
  assumes "build_payloads env s cs (slots_upto n) ps = Inr (ps', slots')" and "core_inv s" and "flow_inv [] s"
    and "\<forall>c\<in>set cs. candidate_ok s c"
  obtains new m where "ps' = ps @ new" and "\<forall>p\<in>set new. payload_ok (s_requests s) p"
    and "slots' = slots_upto n @ List.map_filter cp_output_slot new" and "slots' = slots_upto m"
  using assms
proof (induction cs arbitrary: n ps thesis)
  case Nil
  show ?case by (rule Nil.prems(1) [of "[]" n]) (use Nil.prems(2) in \<open>simp_all add: List.map_filter_def\<close>)
next
  case (Cons c cs)
  obtain i tokens target out slot where i: "record_index s (cd_request_id c) = Some i"
    and inp: "candidate_input env (s_requests s ! i) c = Inr (tokens, target, out)"
    and slot: "slot = (if out then Some (OutputSlot n) else None)"
    and rest: "build_payloads env s cs (case slot of None \<Rightarrow> slots_upto n | Some v \<Rightarrow> slots_upto n @ [v])
       (ps @ [\<lparr>cp_candidate = c, cp_input_tokens = tokens, cp_target_logical_length = target, cp_output_slot = slot\<rparr>]) = Inr (ps', slots')"
    using Cons.prems(2) by (auto simp: u32_try_from_def split: if_splits)
  let ?p = "\<lparr>cp_candidate = c, cp_input_tokens = tokens, cp_target_logical_length = target, cp_output_slot = slot\<rparr>"
    and ?r = "s_requests s ! i"
  note ir = record_indexD [OF i]
  obtain r where r: "r \<in> set (s_requests s)" "rq_request_id r = cd_request_id c" "0 < cd_token_count c"
    "case cd_kind c of Prefill \<Rightarrow> rq_state r \<in> {Admitted, Prefilling} | Decode \<Rightarrow> rq_state r = Decoding"
    using Cons.prems(5) by (cases "cd_kind c") (auto simp: candidate_ok_def)
  obtain j where j: "j < length (s_requests s)" "r = s_requests s ! j" using r(1) by (auto simp: in_set_conv_nth)
  have "j = i" using record_index_of [OF core_ids [OF Cons.prems(3)] j(1)] r(2) j(2) i by simp
  then have "r = ?r" using j by simp
  then have p: "payload_for ?p ?r"
    using candidate_input_ok [OF inp] r Cons.prems(4) ir slot by (auto simp: flow_inv_def flow_ok_def)
  then have ok: "payload_ok (s_requests s) ?p" using ir by (auto simp: payload_ok_def)
  have next_slots: "(case slot of None \<Rightarrow> slots_upto n | Some v \<Rightarrow> slots_upto n @ [v]) = slots_upto (if out then Suc n else n)"
    using slot by (simp add: slots_upto_Suc)
  obtain new m where new: "ps' = (ps @ [?p]) @ new" "\<forall>p\<in>set new. payload_ok (s_requests s) p"
    "slots' = slots_upto (if out then Suc n else n) @ List.map_filter cp_output_slot new" "slots' = slots_upto m"
    using Cons.IH [OF _ rest [unfolded next_slots] Cons.prems(3,4)] Cons.prems(5) by auto
  show ?case
  proof (rule Cons.prems(1) [of "?p # new" m])
    show "slots' = slots_upto n @ List.map_filter cp_output_slot (?p # new)"
      using new(3) slot by (auto simp: slots_upto_Suc List.map_filter_def)
  qed (use new ok in auto)
qed

subsection \<open>Reserving the payloads\<close>

definition preparing :: "scheduler \<Rightarrow> prepared_work \<Rightarrow> scheduler \<Rightarrow> bool" where
  "preparing s w t \<longleftrightarrow> core_inv t \<and> flow_inv (pw_items w) t \<and> fresh_items (pw_items w) t \<and> near s t \<and>
     map strip (s_requests t) = map strip (s_requests s)"

abbreviation calm :: "scheduler \<Rightarrow> scheduler \<Rightarrow> bool" where
  "calm s t \<equiv> core_inv t \<and> flow_inv [] t \<and> near s t"

lemma wp_undo:
  assumes "preparing s w t"
  shows "wp (rollback_prepared_plan (pw_items w) e) Q (\<lambda>e' u. e' = e \<and> calm s u) t"
  by (rule wp_weaken [OF wp_rollback_prepared_plan])
    (use assms inside_near near_trans in \<open>auto simp: preparing_def\<close>)

lemma flow_add_item:
  assumes inv: "core_inv t" and flow: "flow_inv fl t" and i: "i < length (s_requests t)" and q: "rq_sequence (s_requests t ! i) = Some q"
    and pend: "sq_pending q = None" and b: "same_books (s_requests t ! i) r'"
    and item: "fi_request_id item = rq_request_id (s_requests t ! i)" and r': "rq_sequence r' = Some q'" "phase_ok r' q'" "flight_ok r' q' item"
  shows "flow_inv (fl @ [item]) (t\<lparr>s_requests := (s_requests t)[i := r']\<rparr>)" and "fi_request_id item \<notin> fi_request_id ` set fl"
proof -
  let ?r = "s_requests t ! i"
  have d: "distinct (map rq_request_id (s_requests t))" by (rule core_ids [OF inv])
  have fi: "flow_ok fl ?r" using flow i by (simp add: flow_inv_def)
  show new: "fi_request_id item \<notin> fi_request_id ` set fl"
  proof
    assume "fi_request_id item \<in> fi_request_id ` set fl"
    then obtain it where "it \<in> set fl" "fi_request_id it = rq_request_id ?r" using item by auto
    then have "flight_ok ?r q it" using fi q by (auto simp: flow_ok_def)
    then show False using pend by (auto simp: flight_ok_def validate_reservation_Inr)
  qed
  have id: "rq_request_id r' = rq_request_id ?r" using b by (simp add: same_books_def)
  have "flow_ok (fl @ [item]) r" if "r \<in> set ((s_requests t)[i := r'])" for r
  proof -
    from that obtain j where j: "j < length (s_requests t)" "r = (s_requests t)[i := r'] ! j" by (auto simp: in_set_conv_nth)
    show ?thesis
    proof (cases "j = i")
      case True
      then have "r = r'" using j by simp
      moreover have "\<forall>it\<in>set fl. fi_request_id it \<noteq> rq_request_id r'" using new item id by force
      ultimately show ?thesis using r' id item by (auto simp: flow_ok_def)
    next
      case False
      then have r: "r = s_requests t ! j" using j by simp
      then have "rq_request_id r \<noteq> fi_request_id item" using d i j(1) False item by (metis distinct_conv_nth length_map nth_map)
      moreover have "flow_ok fl r" using flow r j(1) by (simp add: flow_inv_def)
      ultimately show ?thesis by (auto simp: flow_ok_def)
    qed
  qed
  moreover have "fi_request_id item \<in> active_ids (s_requests t)"
    using core_nth [OF inv i] q item i by (auto simp: rec_ok_def active_ids_def)
  ultimately show "flow_inv (fl @ [item]) (t\<lparr>s_requests := (s_requests t)[i := r']\<rparr>)"
    using flow new same_books_ids(2) [OF i b] by (simp add: flow_inv_def)
qed

lemma phase_same:
  "phase_ok r q \<Longrightarrow> same_share q q' \<Longrightarrow> sq_logical_length q' = sq_logical_length q \<Longrightarrow> sq_poisoned q' = sq_poisoned q \<Longrightarrow>
   phase_ok r q'"
  by (cases "rq_state r") (simp_all add: phase_ok_def same_share_def)

lemma preparing_item:
  fixes p' :: kv_block_pool
  assumes prep: "core_inv t" "flow_inv fl t" "fresh_items fl t" and i: "i < length (s_requests t)"
    and q: "rq_sequence (s_requests t ! i) = Some q" and pend: "sq_pending q = None"
    and pay: "payload_for p (s_requests t ! i)"
    and q': "same_share q q'" "sq_logical_length q' = sq_logical_length q" "sq_poisoned q' = sq_poisoned q"
      "validate_reservation q' res = Inr ()" "sr_target_logical_length res = cp_target_logical_length p"
  defines "u \<equiv> with_seq i q' p' t" and "item \<equiv> make_item p (s_requests t ! i) res"
  shows "flow_inv (fl @ [item]) u" and "fresh_items (fl @ [item]) u"
proof -
  let ?r = "s_requests t ! i" and ?r' = "(s_requests t ! i)\<lparr>rq_sequence := Some q'\<rparr>"
  have fo: "flow_ok fl ?r" using prep(2) i by (simp add: flow_inv_def)
  then have ph: "phase_ok ?r q" using q by (simp add: flow_ok_def)
  then have ph': "phase_ok ?r' q'" using phase_same [OF ph q'(1-3)] by simp
  have fl: "flight_ok ?r' q' item"
    using pay q' ph by (cases "cd_kind (cp_candidate p)")
      (auto simp: flight_ok_def item_def make_item_def payload_for_def phase_ok_def same_share_def)
  have id: "fi_request_id item = rq_request_id ?r" using pay by (simp add: item_def make_item_def payload_for_def)
  have sb: "same_books ?r ?r'" by (simp add: same_books_def)
  note add = flow_add_item [OF prep(1,2) i q pend sb id _ ph' fl, simplified]
  show "flow_inv (fl @ [item]) u" using add(1) by (simp add: u_def flow_inv_def)
  have "rq_request_id ?r \<notin> fi_request_id ` set fl" using add(2) id by simp
  then have nc: "\<not> rq_cancellation_deferred ?r" using fo q by (simp add: flow_ok_def)
  have d: "distinct (map rq_request_id (s_requests t))" by (rule core_ids [OF prep(1)])
  show "fresh_items (fl @ [item]) u" unfolding fresh_items_def
  proof (intro ballI impI)
    fix it r assume a: "it \<in> set (fl @ [item])" "r \<in> set (s_requests u)" "fi_request_id it = rq_request_id r"
    then obtain j where j: "j < length (s_requests t)" "r = s_requests u ! j" by (auto simp: u_def in_set_conv_nth)
    have st: "strip r = strip (s_requests t ! j)" using j i by (cases "j = i") (simp_all add: u_def strip_def)
    note sf = strip_fields [OF st]
    show "fi_previous_state it = rq_state r \<and> fi_previous_ready_since_ns it = rq_ready_since_ns r \<and> \<not> rq_cancellation_deferred r"
    proof (cases "it = item")
      case True
      then have "rq_request_id (s_requests t ! j) = rq_request_id ?r" using a(3) id sf by simp
      then have "j = i" using d i j(1) by (metis length_map nth_eq_iff_index_eq nth_map)
      then show ?thesis using True sf nc by (simp add: item_def make_item_def)
    next
      case False
      then have "it \<in> set fl" using a(1) by simp
      moreover have "s_requests t ! j \<in> set (s_requests t)" using j(1) by simp
      ultimately show ?thesis using prep(3) a(3) sf unfolding fresh_items_def by metis
    qed
  qed
qed

lemma preparing_frame:
  assumes "preparing s w t" and "evicting t u"
  shows "preparing s w u"
  using assms near_trans by (auto simp: preparing_def evicting_def flow_inv_def fresh_items_def)

lemma wp_reserve_payload:
  assumes prep: "preparing s w t" and pay: "payload_ok (s_requests s) p"
  shows "wp (reserve_payload env p w)
    (\<lambda>w' u. preparing s w' u \<and> (\<exists>item. pw_items w' = pw_items w @ [item] \<and> fi_output_slot item = cp_output_slot p))
    (\<lambda>_ u. calm s u) t"
proof -
  have inv: "core_inv t" and flow: "flow_inv (pw_items w) t" and fresh: "fresh_items (pw_items w) t"
    and nr: "near s t" and sm: "map strip (s_requests t) = map strip (s_requests s)"
    using prep by (auto simp: preparing_def)
  have "payload_ok (s_requests t) p" by (rule payload_ok_strip [OF sm pay])
  then obtain i where i: "i < length (s_requests t)" "payload_for p (s_requests t ! i)"
    by (auto simp: payload_ok_def in_set_conv_nth)
  let ?r = "s_requests t ! i" and ?id = "cd_request_id (cp_candidate p)" and ?target = "cp_target_logical_length p"
  have idx: "record_index t ?id = Some i"
    using record_index_of [OF core_ids [OF inv] i(1)] i(2) by (simp add: payload_for_def)
  have "\<not> is_waiting ?r" using i(2) by (auto simp: payload_for_def split: work_kind.splits)
  then obtain q where q: "rq_sequence ?r = Some q" using core_active(3) [OF inv i(1)] by blast
  have undo: "wp (rollback_prepared_plan (pw_items v) e) Q (\<lambda>_ u. calm s u) u" if "preparing s v u" for v e Q u
    by (rule wp_weaken [OF wp_undo [OF that]]) auto
  have reserve: "wp (catchM (on_sequence i q (reserve_to env ?target)) (\<lambda>reserved.
        case reserved of Inl error \<Rightarrow> rollback_prepared_plan (pw_items w) error
        | Inr reservation \<Rightarrow>
            let w = w\<lparr>pw_items := pw_items w @ [make_item p ?r reservation]\<rparr> in
            withM (\<lambda>s.
            case reserved_work env p (rq_sequence (s_requests s ! i)) reservation (length (pw_tables w)) of
              Inl error \<Rightarrow> rollback_prepared_plan (pw_items w) error
            | Inr (table, item) \<Rightarrow> ret (add_work (cd_kind (cp_candidate p)) table item w))))
      (\<lambda>w' u. preparing s w' u \<and> (\<exists>item. pw_items w' = pw_items w @ [item] \<and> fi_output_slot item = cp_output_slot p))
      (\<lambda>_ u. calm s u) u" if u: "evicting t u" for u
  proof -
    have pu: "preparing s w u" by (rule preparing_frame [OF prep u])
    have iu: "core_inv u" "s_requests u = s_requests t" "near t u" using u by (simp_all add: evicting_def)
    have fu: "flow_inv (pw_items w) u" "fresh_items (pw_items w) u" using pu by (simp_all add: preparing_def)
    have i': "i < length (s_requests u)" "rq_sequence (s_requests u ! i) = Some q" "payload_for p (s_requests u ! i)"
      using i q iu(2) by simp_all
    show ?thesis unfolding wp_catchM
    proof (rule wp_weaken [OF wp_request_reserve [OF iu(1) i'(1,2)]], goal_cases)
      case (1 res v)
      then obtain q' p' where v: "core_inv v" "v = with_seq i q' p' u" "pool_same (s_pool u) p'"
        and q': "same_share q q'" "sq_logical_length q' = sq_logical_length q" "sq_poisoned q' = sq_poisoned q"
          "validate_reservation q' res = Inr ()" "sr_target_logical_length res = ?target" and pend: "sq_pending q = None" by blast
      let ?item = "make_item p ?r res"
      let ?w = "w\<lparr>pw_items := pw_items w @ [?item]\<rparr>"
      have ri: "s_requests u ! i = ?r" using iu(2) by simp
      have "flow_inv (pw_items w @ [?item]) v" "fresh_items (pw_items w @ [?item]) v"
        unfolding v(2) using preparing_item [OF iu(1) fu i'(1,2) pend i'(3) q', where p' = p'] ri by simp_all
      moreover have ins: "inside u v" unfolding v(2) by (rule with_seq_inside [OF i'(1) v(3)])
      moreover have "near s v" by (rule near_trans [OF nr near_trans [OF iu(3) inside_near [OF ins]]])
      moreover have "map strip (s_requests v) = map strip (s_requests s)" using ins iu(2) sm by (simp add: inside_def)
      ultimately have pv: "preparing s ?w v" using v(1) by (simp add: preparing_def)
      have add: "pw_items (add_work k tb it ?w) = pw_items w @ [?item]" for k tb it by (simp add: add_work_def split: work_kind.split)
      have "preparing s (add_work k tb it ?w) v" for k tb it using pv by (simp add: preparing_def add)
      moreover have "fi_output_slot ?item = cp_output_slot p" by (simp add: make_item_def)
      ultimately show ?case using undo [OF pv] unfolding Let_def sum.case wp_withM
        by (auto simp: wp_ret add split: sum.split)
    next
      case (2 e v)
      then obtain p' where v: "core_inv v" "v = u\<lparr>s_pool := p'\<rparr>" "pool_same (s_pool u) p'" by blast
      have "near u v" unfolding v(2) by (simp add: near_def)
      then have "near s v" using near_trans [OF nr near_trans [OF iu(3)]] by simp
      then have "preparing s w v" using v(1,2) fu iu(2) sm by (simp add: preparing_def flow_inv_def fresh_items_def)
      then show ?case using undo by simp
    qed
  qed
  have fuel: "\<And>c. s_prefix_cache t = Some c \<Longrightarrow> cache_len c < Suc (case s_prefix_cache t of None \<Rightarrow> 0 | Some c \<Rightarrow> cache_len c)" by simp
  show ?thesis unfolding reserve_payload_def wp_withM Let_def idx option.case q wp_catchM [of "evict_until _ _ _"]
    by (rule wp_weaken [OF wp_evict_until [OF inv fuel]]) (use reserve [unfolded Let_def] in auto)
qed

lemma wp_reserve_payloads:
  assumes "preparing s w t" and "\<forall>p\<in>set ps. payload_ok (s_requests s) p"
  shows "wp (reserve_payloads env ps w)
    (\<lambda>w' u. preparing s w' u \<and> List.map_filter fi_output_slot (pw_items w') =
       List.map_filter fi_output_slot (pw_items w) @ List.map_filter cp_output_slot ps)
    (\<lambda>_ u. calm s u) t"
  using assms
proof (induction ps arbitrary: w t)
  case Nil
  then show ?case by (simp add: wp_simps List.map_filter_def)
next
  case (Cons p ps)
  have p: "payload_ok (s_requests s) p" using Cons.prems(2) by simp
  show ?case unfolding reserve_payloads.simps
  proof (rule wp_callI [OF wp_reserve_payload [OF Cons.prems(1) p]], goal_cases)
    case (2 w' u)
    then obtain item where w': "preparing s w' u" "pw_items w' = pw_items w @ [item]" "fi_output_slot item = cp_output_slot p" by blast
    show ?case by (rule wp_weaken [OF Cons.IH [OF w'(1)]])
      (use Cons.prems(2) w' in \<open>auto simp: List.map_filter_def\<close>)
  qed
qed

subsection \<open>Putting the plan in flight\<close>

lemma transition_indices_Inr:
  assumes "transition_indices s items acc = Inr indices"
  obtains new where "indices = acc @ new" and "list_all2 (\<lambda>item i. record_index s (fi_request_id item) = Some i) items new"
  using assms
proof (induction items arbitrary: acc thesis)
  case Nil
  show ?case by (rule Nil.prems(1) [of "[]"]) (use Nil.prems(2) in simp_all)
next
  case (Cons item items)
  obtain i where i: "record_index s (fi_request_id item) = Some i" and rest: "transition_indices s items (acc @ [i]) = Inr indices"
    using Cons.prems(2) by (auto simp: Let_def)
  obtain new where new: "indices = (acc @ [i]) @ new" "list_all2 (\<lambda>item i. record_index s (fi_request_id item) = Some i) items new"
    by (rule Cons.IH [OF _ rest])
  show ?case by (rule Cons.prems(1) [of "i # new"]) (use i new in simp_all)
qed

definition started :: "u64 \<Rightarrow> inflight_item \<Rightarrow> request_record \<Rightarrow> request_record" where
  "started now_ns item r = r\<lparr>rq_state := work_state (fi_kind item), rq_ready_since_ns := now_ns\<rparr>"

lemma core_started:
  fixes now_ns :: u64
  assumes inv: "core_inv s" and flow: "flow_inv fl s" and item: "item \<in> set fl" and i: "record_index s (fi_request_id item) = Some i"
  defines "t \<equiv> s\<lparr>s_requests := (s_requests s)[i := started now_ns item (s_requests s ! i)]\<rparr>"
  shows "core_inv t" and "flow_inv fl t" and "near s t"
proof -
  let ?r = "s_requests s ! i" and ?r' = "started now_ns item (s_requests s ! i)"
  obtain j q where j: "record_index s (fi_request_id item) = Some j" "j < length (s_requests s)" "rq_request_id (s_requests s ! j) = fi_request_id item"
    "rq_sequence (s_requests s ! j) = Some q" "\<not> is_waiting (s_requests s ! j)" "phase_ok (s_requests s ! j) q" "flight_ok (s_requests s ! j) q item"
    by (rule flow_item [OF inv flow item])
  have "j = i" using i j(1) by simp
  note r = j(2-7) [unfolded this]
  have sb: "same_books ?r ?r'" using r(4) by (cases "fi_kind item") (auto simp: same_books_def started_def)
  have "kv_part (s_pool s) ((s_requests s)[i := ?r']) (s_prefix_cache s)"
    by (rule kv_part_same_seqs [OF _ r(1)]) (use inv core_linked [OF inv r(1)] in \<open>auto simp: core_inv_def started_def\<close>)
  moreover have "rec_ok (s_config s) ?r'" using core_nth [OF inv r(1)] r(3,4) by (cases "fi_kind item") (auto simp: rec_ok_def started_def)
  ultimately show "core_inv t" using core_update [OF inv r(1) sb, of "s_pool s" "s_prefix_cache s"] by (simp add: t_def)
  have inj: "it = item" if "it \<in> set fl" "fi_request_id it = rq_request_id ?r" for it
    using flow that item r(2) by (auto simp: flow_inv_def distinct_map dest: inj_onD)
  have "phase_ok ?r' q" "flight_ok ?r' q item"
    using r(5,6) by (auto simp: phase_ok_def flight_ok_def started_def split: work_kind.splits)
  moreover have "fi_request_id item \<in> fi_request_id ` set fl" using item by simp
  ultimately have "flow_ok fl ?r'" using r(2,3) inj by (auto simp: flow_ok_def started_def)
  then show "flow_inv fl t" unfolding t_def by (rule flow_update [OF flow r(1) sb])
  show "near s t" using r(1) by (simp add: t_def near_def map_update list_update_id2 started_def)
qed

lemma wp_start_requests:
  assumes "core_inv s" and "flow_inv fl s" and "set items \<subseteq> set fl" and "distinct (map fi_request_id items)"
    and "list_all2 (\<lambda>item i. record_index s (fi_request_id item) = Some i) items indices"
  shows "wp (forM (zip items indices) (start_request now_ns))
    (\<lambda>_ t. core_inv t \<and> flow_inv fl t \<and> near s t \<and>
       (\<forall>j<length (s_requests s). rq_request_id (s_requests s ! j) \<notin> fi_request_id ` set items \<longrightarrow> s_requests t ! j = s_requests s ! j) \<and>
       (\<forall>item\<in>set items. \<exists>r\<in>set (s_requests t). rq_request_id r = fi_request_id item \<and> rq_state r = work_state (fi_kind item)))
    (\<lambda>_ _. False) s"
  using assms
proof (induction items arbitrary: s indices)
  case Nil
  then show ?case by (simp add: wp_ret)
next
  case (Cons item items)
  obtain i indices' where i: "record_index s (fi_request_id item) = Some i" and ind: "indices = i # indices'"
    and rest: "list_all2 (\<lambda>item i. record_index s (fi_request_id item) = Some i) items indices'"
    using Cons.prems(5) by (auto simp: list_all2_Cons1)
  let ?u = "s\<lparr>s_requests := (s_requests s)[i := started now_ns item (s_requests s ! i)]\<rparr>"
  note ir = record_indexD [OF i]
  have u: "core_inv ?u" "flow_inv fl ?u" "near s ?u" using core_started [OF Cons.prems(1,2) _ i] Cons.prems(3) by simp_all
  have idx: "list_all2 (\<lambda>item i. record_index ?u (fi_request_id item) = Some i) items indices'"
    using rest unfolding near_index [OF u(3)] .
  have new: "fi_request_id item \<notin> fi_request_id ` set items" using Cons.prems(4) by simp
  have "wp (forM (zip items indices') (start_request now_ns))
      (\<lambda>_ t. core_inv t \<and> flow_inv fl t \<and> near s t \<and>
       (\<forall>j<length (s_requests s). rq_request_id (s_requests s ! j) \<notin> fi_request_id ` set (item # items) \<longrightarrow> s_requests t ! j = s_requests s ! j) \<and>
       (\<forall>it\<in>set (item # items). \<exists>r\<in>set (s_requests t). rq_request_id r = fi_request_id it \<and> rq_state r = work_state (fi_kind it)))
      (\<lambda>_ _. False) ?u"
  proof (rule wp_weaken [OF Cons.IH [OF u(1,2) _ _ idx]], goal_cases)
    case (3 _ t)
    have same: "s_requests t ! j = s_requests ?u ! j"
      if "j < length (s_requests s)" "rq_request_id (s_requests ?u ! j) \<notin> fi_request_id ` set items" for j using 3 that by simp
    have ti: "s_requests t ! i = started now_ns item (s_requests s ! i)"
      using same [of i] ir new by (simp add: started_def)
    have len: "length (s_requests t) = length (s_requests s)" using 3 near_length [of ?u t] by simp
    have "s_requests t ! i \<in> set (s_requests t)" using ir len by simp
    moreover have "rq_request_id (s_requests t ! i) = fi_request_id item" "rq_state (s_requests t ! i) = work_state (fi_kind item)"
      using ti ir by (simp_all add: started_def)
    ultimately have "\<exists>r\<in>set (s_requests t). rq_request_id r = fi_request_id item \<and> rq_state r = work_state (fi_kind item)" by blast
    moreover have "s_requests t ! j = s_requests s ! j"
      if "j < length (s_requests s)" "rq_request_id (s_requests s ! j) \<notin> fi_request_id ` set (item # items)" for j
    proof -
      have "j \<noteq> i" using that(2) ir by auto
      then show ?thesis using same [OF that(1)] that(2) by simp
    qed
    ultimately show ?case using 3 near_trans [OF u(3)] by simp
  qed (use Cons.prems in auto)
  then show ?case unfolding ind zip_Cons_Cons forM.simps start_request_def prod.case wp_bindM wp_mod_request started_def .
qed

lemma wp_prepare_plan:
  assumes inv: "core_inv s" and flow: "flow_inv [] s" and cs: "\<forall>c\<in>set cs. candidate_ok s c"
  shows "wp (prepare_plan env iteration_id cs now_ns)
    (\<lambda>_ t. \<exists>ip u. t = u\<lparr>s_inflight := Some ip\<rparr> \<and> near s u \<and> core_inv u \<and> flow_inv (fp_items ip) u \<and> plan_ok t \<and>
       fp_iteration_id ip = iteration_id)
    (\<lambda>_ t. calm s t) s"
proof -
  let ?w0 = "\<lparr>pw_items = [], pw_tables = [], pw_prefill = [], pw_decode = []\<rparr>"
  have prep: "preparing s ?w0 s" using inv flow by (simp add: preparing_def fresh_items_def)
  show ?thesis unfolding prepare_plan_def wp_withM
  proof (intro wp_tryI wp_withI, goal_cases)
    case (3 _ pair)
    obtain ps slots where pair: "pair = (ps, slots)" by (cases pair)
    have b: "build_payloads env s cs (slots_upto 0) [] = Inr (ps, slots)" using 3(2) pair by (simp add: slots_upto_def)
    obtain m where ps: "\<forall>p\<in>set ps. payload_ok (s_requests s) p" and slots: "slots = List.map_filter cp_output_slot ps" "slots = slots_upto m"
      using build_payloads_ok [OF b inv flow cs] by (metis append_Nil length_0_conv length_slots)
    show ?case unfolding pair prod.case
    proof (rule wp_callI [OF wp_reserve_payloads [OF prep ps]], goal_cases)
      case (2 w t)
      then have pt: "preparing s w t" and sl: "List.map_filter fi_output_slot (pw_items w) = slots"
        using slots(1) by (simp_all add: List.map_filter_def)
      have inv': "core_inv t" "flow_inv (pw_items w) t" "near s t" using pt by (simp_all add: preparing_def)
      have dist: "distinct (map fi_request_id (pw_items w))" using inv'(2) by (simp add: flow_inv_def)
      show ?case unfolding wp_withM
      proof (cases "assemble_plan env t iteration_id w", goal_cases)
        case (1 e)
        then show ?case using wp_weaken [OF wp_undo [OF pt]] by auto
      next
        case (2 x)
        obtain plan pt' dt indices where x: "x = (plan, pt', dt, indices)" by (cases x)
        have "transition_indices t (pw_items w) [] = Inr indices" using 2 x by (auto simp: assemble_plan_def)
        then have ind: "list_all2 (\<lambda>item i. record_index t (fi_request_id item) = Some i) (pw_items w) indices"
          by (rule transition_indices_Inr) simp
        show ?case unfolding 2 x sum.case prod.case
        proof (rule wp_callI [OF wp_start_requests [OF inv'(1,2) order_refl dist ind]], goal_cases)
          case (2 _ u)
          let ?ip = "\<lparr>fp_iteration_id = iteration_id, fp_prefill_tokens = pt', fp_decode_tokens = dt,
              fp_prefill_count = length (ip_prefill_items plan), fp_decode_count = length (ip_decode_items plan),
              fp_scheduler_cpu_ns = 0, fp_expected_output_slots = slots, fp_items = pw_items w\<rparr>"
          have "plan_ok (u\<lparr>s_inflight := Some ?ip\<rparr>)" unfolding plan_ok_def using 2 sl slots(2) by force
          then show ?case using 2 near_trans [OF inv'(3)]
            by (simp add: wp_simps) (intro exI [of _ ?ip] exI [of _ u], simp)
        qed simp
      qed
    qed auto
  qed (use inv flow in auto)
qed

subsection \<open>What only grows\<close>

text \<open>Identifiers are never handed out twice, the observed clock never runs backwards, and a scheduler
  that stopped accepting does not start again.\<close>

definition sched_le :: "scheduler \<Rightarrow> scheduler \<Rightarrow> bool" where
  "sched_le s t \<longleftrightarrow> s_config t = s_config s \<and> s_next_request_id s \<le> s_next_request_id t \<and>
     s_next_iteration_id s \<le> s_next_iteration_id t \<and> clock_le (s_last_now_ns s) (s_last_now_ns t) \<and>
     (s_accepting t \<longrightarrow> s_accepting s)"

lemma sched_le_refl [simp]: "sched_le s s"
  by (simp add: sched_le_def)

lemma sched_le_trans: "sched_le s t \<Longrightarrow> sched_le t u \<Longrightarrow> sched_le s u"
  unfolding sched_le_def by (elim conjE, intro conjI) (simp, erule (1) order_trans, erule (1) order_trans, erule (1) clock_le_trans, blast)

lemma same_frame_le: "same_frame s t \<Longrightarrow> sched_le s t"
  by (simp add: same_frame_def sched_le_def clock_le_def)

lemma near_le: "near s t \<Longrightarrow> sched_le s t"
  by (simp add: near_def sched_le_def clock_le_def)

lemma metric_le: "metric_only s t \<Longrightarrow> sched_le s t"
  by (auto simp: metric_only_def sched_le_def clock_le_def)

lemma le_frame: "sched_le s t \<Longrightarrow> same_frame t u \<Longrightarrow> sched_le s u"
  using sched_le_trans same_frame_le by blast

lemma le_near: "sched_le s t \<Longrightarrow> near t u \<Longrightarrow> sched_le s u"
  using sched_le_trans near_le by blast

lemma le_metric: "sched_le s t \<Longrightarrow> metric_only t u \<Longrightarrow> sched_le s u"
  using sched_le_trans metric_le by blast

lemma clock_advances: "validate_now s now_ns = Inr () \<Longrightarrow> sched_le s (s\<lparr>s_last_now_ns := Some now_ns\<rparr>)"
  by (auto simp: validate_now_def sched_le_def clock_le_def split: option.splits)

subsection \<open>A planning step\<close>

definition resting :: "scheduler \<Rightarrow> bool" where
  "resting s \<longleftrightarrow> core_inv s \<and> flow_inv [] s \<and> policies_ok s \<and> s_inflight s = None"

lemma resting_iff: "resting s \<longleftrightarrow> sched_inv s \<and> s_inflight s = None"
  by (auto simp: resting_def sched_inv_def items_of_def plan_ok_def)

lemma sched_clock [simp]: "sched_inv (s\<lparr>s_last_now_ns := n\<rparr>) = sched_inv s"
  by (simp add: sched_inv_def flow_inv_def items_of_def plan_ok_def policies_ok_def)

lemma sched_metric: "metric_only s t \<Longrightarrow> sched_inv t = sched_inv s"
  unfolding metric_only_def by clarify (simp add: sched_inv_def flow_inv_def items_of_def plan_ok_def policies_ok_def)

lemma resting_metric: "metric_only s t \<Longrightarrow> resting t = resting s"
  by (auto simp: metric_only_def resting_def flow_inv_def policies_ok_def)

lemma policies_frame: "same_frame s t \<Longrightarrow> policies_ok t = policies_ok s"
  by (simp add: same_frame_def policies_ok_def)

lemma policies_near: "near s t \<Longrightarrow> policies_ok t = policies_ok s"
  by (simp add: near_def policies_ok_def)

lemma resting_near: "calm s t \<Longrightarrow> resting s \<Longrightarrow> resting t"
  by (auto simp: resting_def policies_near) (simp add: near_def)

lemma resting_clock [simp]: "resting (s\<lparr>s_last_now_ns := n\<rparr>) = resting s"
  by (simp add: resting_def flow_inv_def policies_ok_def)

lemma resting_thinned: "resting s \<Longrightarrow> thinned s t \<Longrightarrow> core_inv t \<Longrightarrow> resting t"
  by (auto simp: resting_def thinned_def policies_frame flow_inv_def) (auto simp: same_frame_def)

lemma admitted_flow: "rec_ok cfg r \<Longrightarrow> admitted n r r' \<Longrightarrow> flow_ok [] r'"
  by (auto simp: admitted_def flow_ok_def phase_ok_def rec_ok_def)

lemma resting_promoted:
  assumes "resting s" and "promoted n s t" and "core_inv t"
  shows "resting t"
proof -
  have "flow_ok [] r'" if r': "r' \<in> set (s_requests t)" for r'
  proof -
    obtain i where i: "i < length (s_requests t)" "r' = s_requests t ! i" using r' by (auto simp: in_set_conv_nth)
    then have len: "i < length (s_requests s)" and r: "r' = s_requests s ! i \<or> admitted n (s_requests s ! i) r'"
      using assms(2) by (auto simp: promoted_def list_all2_conv_all_nth)
    have "rec_ok (s_config s) (s_requests s ! i)" "flow_ok [] (s_requests s ! i)"
      using assms(1) len by (auto simp: resting_def flow_inv_def core_nth)
    then show ?thesis using r admitted_flow by blast
  qed
  then show ?thesis using assms policies_frame [of s t] by (auto simp: resting_def promoted_def flow_inv_def same_frame_def)
qed

lemma core_drained: "core_inv s \<Longrightarrow> core_inv (s\<lparr>s_completion_outbox := []\<rparr>)"
  by (auto simp: core_inv_def ids_ok_def)

text \<open>The marks of the plateau policy are outside the invariant.\<close>

definition marked :: "request_id set \<Rightarrow> request_record \<Rightarrow> request_record" where
  "marked X r = (if rq_request_id r \<in> X then r\<lparr>rq_plateau_deferred := True\<rparr> else r)"

lemma marked_fields [simp]:
  "rq_request_id (marked X r) = rq_request_id r" "rq_state (marked X r) = rq_state r" "prompt (marked X r) = prompt r"
  "rq_promised_kv_blocks (marked X r) = rq_promised_kv_blocks r" "rq_sequence (marked X r) = rq_sequence r"
  "rec_ok cfg (marked X r) = rec_ok cfg r" "flow_ok fl (marked X r) = flow_ok fl r" "linked_ok c (marked X r) = linked_ok c r"
  by (simp_all add: marked_def rec_ok_def)

lemma same_books_image:
  assumes "\<And>r. same_books r (g r)"
  shows "rq_request_id ` {r \<in> set (map g rs). P (is_waiting r)} = rq_request_id ` {r \<in> set rs. P (is_waiting r)}"
proof -
  have "{r \<in> set (map g rs). P (is_waiting r)} = g ` {r \<in> set rs. P (is_waiting r)}" using assms by (auto simp: same_books_def)
  then show ?thesis using assms by (simp add: image_image same_books_def)
qed

text \<open>Changing every record, in nothing the books depend on.\<close>

lemma core_map:
  assumes inv: "core_inv s" and g: "\<And>r. same_books r (g r)" and rec: "\<forall>r\<in>set (s_requests s). rec_ok (s_config s) (g r)"
    and kv: "kv_part p' (map g (s_requests s)) cache'"
  shows "core_inv (s\<lparr>s_pool := p', s_requests := map g (s_requests s), s_prefix_cache := cache'\<rparr>)"
proof -
  let ?rs = "map g (s_requests s)"
  have f: "rq_request_id (g r) = rq_request_id r" "rq_descriptor (g r) = rq_descriptor r"
    "rq_promised_kv_blocks (g r) = rq_promised_kv_blocks r" "is_waiting (g r) \<longleftrightarrow> is_waiting r" for r
    using g [of r] by (simp_all add: same_books_def)
  have q: "queue_ok ?rs (s_waiting s)" using inv same_books_image [OF g, of "s_requests s" "\<lambda>b. b"] by (simp add: core_inv_def queue_ok_def)
  have "ids_ok (s_next_request_id s) ?rs (s_completion_outbox s)" using inv by (simp add: core_inv_def ids_ok_def comp_def f)
  then show ?thesis using inv q kv rec by (simp add: core_inv_def comp_def f cong: if_cong)
qed

lemma core_marked:
  assumes inv: "core_inv s"
  shows "core_inv (s\<lparr>s_requests := map (marked X) (s_requests s)\<rparr>)"
proof -
  have "seqs (map (marked X) (s_requests s)) = seqs (s_requests s)" by (rule seqs_cong) simp
  then have kv: "kv_part (s_pool s) (map (marked X) (s_requests s)) (s_prefix_cache s)" using inv by (simp add: core_inv_def kv_part_def)
  have sb: "same_books r (marked X r)" for r by (simp add: same_books_def marked_def)
  show ?thesis using core_map [OF inv sb _ kv] inv by (simp add: core_inv_def)
qed

lemma flow_marked: "flow_inv fl (s\<lparr>s_requests := map (marked X) (s_requests s)\<rparr>) = flow_inv fl s"
proof -
  have sb: "same_books r (marked X r)" for r by (simp add: same_books_def marked_def)
  show ?thesis using same_books_image [OF sb, of "s_requests s" Not] by (simp add: flow_inv_def active_ids_def)
qed

lemma wp_bind_drain:
  "wp (bindM drain_completion_outbox f) Q E s = wp (f (s_completion_outbox s)) Q E (s\<lparr>s_completion_outbox := []\<rparr>)"
  by (simp add: drain_completion_outbox_def wp_simps)

lemma wp_bind_mod: "wp (bindM (modM g) f) Q E s = wp (f ()) Q E (g s)"
  by (simp add: wp_simps)

lemma wp_bind_advance:
  "checked_add (s_next_iteration_id s) 1 = Some n \<Longrightarrow>
   wp (bindM advance_iteration_id f) Q E s = wp (f ()) Q E (s\<lparr>s_next_iteration_id := n\<rparr>)"
  by (simp only: advance_iteration_id_def wp_bindM wp_withM wp_tryM ok_or_eq sum.case wp_modM)

lemma wp_plan_rest:
  assumes rest: "resting s"
  shows "wp (bindM (tryM (select_candidates env s now_ns)) (\<lambda>(candidates, used_aging_override, plateau_deferred).
     if candidates = []
     then bindM (modM (\<lambda>s. s\<lparr>s_aging_override_last_iteration := False\<rparr>)) (\<lambda>_.
          bindM drain_completion_outbox (\<lambda>completions.
          bindM (refresh_metric_gauges env) (\<lambda>_.
          ret \<lparr>po_plan = None, po_completions = completions\<rparr>)))
     else
     bindM (tryM (peek_iteration_id s)) (\<lambda>iteration_id.
     bindM (prepare_plan env iteration_id candidates now_ns) (\<lambda>plan.
     bindM advance_iteration_id (\<lambda>_.
     bindM (modM (\<lambda>s. s\<lparr>s_aging_override_last_iteration := used_aging_override,
       s_requests := map (\<lambda>r. if rq_request_id r \<in> set plateau_deferred
                              then r\<lparr>rq_plateau_deferred := True\<rparr> else r) (s_requests s),
       s_inflight := map_option (\<lambda>i. i\<lparr>fp_scheduler_cpu_ns := elapsed_ns env\<rparr>) (s_inflight s)\<rparr>)) (\<lambda>_.
     bindM drain_completion_outbox (\<lambda>completions.
     bindM (refresh_metric_gauges env) (\<lambda>_.
     ret \<lparr>po_plan = Some plan, po_completions = completions\<rparr>))))))))
    (\<lambda>out t. sched_inv t \<and> (po_plan out = None \<longleftrightarrow> s_inflight t = None) \<and> s_completion_outbox t = [] \<and> sched_le s t)
    (\<lambda>_ t. resting t \<and> sched_le s t) s"
proof -
  have inv: "core_inv s" "flow_inv [] s" "policies_ok s" "s_inflight s = None" using rest by (simp_all add: resting_def)
  have finish: "wp (bindM (refresh_metric_gauges env) (\<lambda>_. ret out)) (\<lambda>out t. sched_inv t \<and>
      (po_plan out = None \<longleftrightarrow> s_inflight t = None) \<and> s_completion_outbox t = [] \<and> sched_le s t) E t"
    if "sched_inv t" "po_plan out = None \<longleftrightarrow> s_inflight t = None" "s_completion_outbox t = []" "sched_le s t" for out t E
    unfolding wp_bindM
  proof (rule wp_refresh_metric_gauges)
    fix u assume u: "metric_only t u"
    then have "s_inflight u = s_inflight t" "s_completion_outbox u = s_completion_outbox t" by (auto simp: metric_only_def)
    then show "wp (ret out) (\<lambda>out t. sched_inv t \<and> (po_plan out = None \<longleftrightarrow> s_inflight t = None) \<and> s_completion_outbox t = [] \<and> sched_le s t) E u"
      using that sched_metric [OF u] le_metric [OF that(4) u] by (simp add: wp_ret)
  qed
  show ?thesis
  proof (rule wp_tryI, goal_cases)
    case (2 x)
    obtain cs aged deferred where x: "x = (cs, aged, deferred)" by (cases x)
    have ok: "\<forall>c\<in>set cs. candidate_ok s c"
      using select_facts [OF inv(3), of env now_ns cs aged deferred] 2 x core_ids [OF inv(1)] by (simp add: unique_ids_def)
    show ?case unfolding x prod.case
    proof (cases "cs = []", goal_cases)
      case 1
      let ?t = "s\<lparr>s_aging_override_last_iteration := False, s_completion_outbox := []\<rparr>"
      have "resting ?t" using rest core_drained [of "s\<lparr>s_aging_override_last_iteration := False\<rparr>"]
        by (simp add: resting_def flow_inv_def policies_ok_def)
      then have "sched_inv ?t" "s_inflight ?t = None" "sched_le s ?t" by (simp_all add: resting_iff sched_le_def clock_le_def)
      then show ?case using 1 finish [of ?t "\<lparr>po_plan = None, po_completions = s_completion_outbox s\<rparr>"]
        by (simp add: wp_bind_mod wp_bind_drain)
    next
      case 2
      have "wp (bindM (tryM (peek_iteration_id s)) (\<lambda>iteration_id.
         bindM (prepare_plan env iteration_id cs now_ns) (\<lambda>plan.
         bindM advance_iteration_id (\<lambda>_.
         bindM (modM (\<lambda>s. s\<lparr>s_aging_override_last_iteration := aged,
           s_requests := map (marked (set deferred)) (s_requests s),
           s_inflight := map_option (\<lambda>i. i\<lparr>fp_scheduler_cpu_ns := elapsed_ns env\<rparr>) (s_inflight s)\<rparr>)) (\<lambda>_.
         bindM drain_completion_outbox (\<lambda>completions.
         bindM (refresh_metric_gauges env) (\<lambda>_.
         ret \<lparr>po_plan = Some plan, po_completions = completions\<rparr>)))))))
        (\<lambda>out t. sched_inv t \<and> (po_plan out = None \<longleftrightarrow> s_inflight t = None) \<and> s_completion_outbox t = [] \<and> sched_le s t)
        (\<lambda>_ t. resting t \<and> sched_le s t) s"
      proof (rule wp_tryI, goal_cases)
        case (2 iteration_id)
        have nx: "checked_add (s_next_iteration_id s) 1 = Some (s_next_iteration_id s + 1)"
          using 2 by (auto simp: peek_iteration_id_def checked_add_def split: if_splits)
        show ?case
        proof (rule wp_callI [OF wp_prepare_plan [OF inv(1,2) ok]], goal_cases)
          case (1 e t)
          then show ?case using resting_near rest near_le by blast
        next
          case (2 plan t)
          then obtain ip u where t: "t = u\<lparr>s_inflight := Some ip\<rparr>" "near s u" "core_inv u" "flow_inv (fp_items ip) u" "plan_ok t" by blast
          let ?ip = "ip\<lparr>fp_scheduler_cpu_ns := elapsed_ns env\<rparr>"
          let ?v = "u\<lparr>s_next_iteration_id := s_next_iteration_id s + 1, s_aging_override_last_iteration := aged,
            s_requests := map (marked (set deferred)) (s_requests u), s_inflight := Some ?ip, s_completion_outbox := []\<rparr>"
          have nu: "s_next_iteration_id u = s_next_iteration_id s" using t(2) by (simp add: near_def)
          have eq: "?v = (u\<lparr>s_requests := map (marked (set deferred)) (s_requests u), s_completion_outbox := []\<rparr>)
            \<lparr>s_next_iteration_id := s_next_iteration_id s + 1, s_aging_override_last_iteration := aged, s_inflight := Some ?ip\<rparr>" by simp
          have "core_inv ?v" unfolding eq core_inv_frame by (rule core_drained [OF core_marked [OF t(3)]])
          moreover have "flow_inv (items_of ?v) ?v" using t(4) flow_marked [of "fp_items ip" "set deferred" u] by (simp add: items_of_def flow_inv_def)
          moreover have "plan_ok ?v" using t(5) unfolding t(1) plan_ok_def by force
          moreover have "policies_ok ?v" using policies_near [OF t(2)] inv(3) by (simp add: policies_ok_def)
          ultimately have "sched_inv ?v" by (simp add: sched_inv_def)
          moreover have "sched_le s ?v" using near_le [OF t(2)] by (simp add: sched_le_def)
          ultimately show ?case using finish [of ?v "\<lparr>po_plan = Some plan, po_completions = s_completion_outbox u\<rparr>"] nx nu
            by (simp add: wp_bind_mod wp_bind_drain wp_bind_advance t(1))
        qed
      qed (use rest in simp)
      then show ?case using 2 by (simp only: if_False marked_def [abs_def])
    qed
  qed (use rest in simp)
qed

lemma wp_observe_clock:
  "wp (observe_now now_ns) (\<lambda>_ t. t = s\<lparr>s_last_now_ns := Some now_ns\<rparr> \<and> sched_le s t) (\<lambda>_ t. t = s) s"
  using clock_advances [of s now_ns] by (auto simp: wp_observe_now split: sum.splits)

lemma wp_plan_iteration:
  assumes inv: "sched_inv s"
  shows "wp (plan_iteration env now_ns)
    (\<lambda>out t. s_inflight s = None \<and> sched_inv t \<and> (po_plan out = None \<longleftrightarrow> s_inflight t = None) \<and> s_completion_outbox t = [] \<and> sched_le s t)
    (\<lambda>_ t. sched_inv t \<and> s_inflight t = s_inflight s \<and> sched_le s t) s"
proof -
  let ?s = "s\<lparr>s_last_now_ns := Some now_ns\<rparr>"
  have clock: "sched_inv ?s" using inv by simp
  have home: "sched_inv t \<and> s_inflight t = s_inflight s" if "resting t" "s_inflight s = None" for t
    using that by (simp add: resting_iff)
  show ?thesis unfolding plan_iteration_def wp_withM
  proof (rule wp_tryI, use inv in simp, rule wp_callI [OF wp_observe_clock], use inv in simp, goal_cases)
    case (1 _ _ t)
    then have t: "t = ?s" and le: "sched_le s ?s" by auto
    show ?case
    proof (cases "s_inflight s")
      case (Some plan)
      then show ?thesis using clock t le by (simp add: wp_simps)
    next
      case None
      then have rest: "resting ?s" using clock by (simp add: resting_iff)
      show ?thesis unfolding None option.case t
      proof (subst wp_bindM, subst wp_ret, intro wp_tryI, goal_cases)
        case (2 _)
        show ?case
        proof (subst wp_bindM, subst wp_reserve, cases "reserve_host env ''admission timeout completions'' (length (s_waiting s))", goal_cases)
          case (2 _)
          have ci: "core_inv ?s" using rest by (simp add: resting_def)
          show ?case unfolding 2 sum.case
          proof (rule wp_callI [OF wp_expire_waiting [OF ci]], simp, goal_cases)
            case (1 _ t1)
            then have r1: "core_inv t1" "resting t1" "sched_le s t1"
              using resting_thinned [OF rest] le_frame [OF le] by (auto simp: thinned_def)
            show ?case
            proof (rule wp_callI [OF wp_admit_waiting [OF r1(1)]], goal_cases)
              case (2 _ t2)
              then have r2: "resting t2" "sched_le s t2"
                using resting_promoted [OF r1(2)] le_frame [OF r1(3)] by (auto simp: promoted_def)
              then have i2: "core_inv t2" "flow_inv [] t2" by (simp_all add: resting_def)
              show ?case
              proof (rule wp_callI [OF wp_adopt_cached_prefixes [OF i2]], goal_cases)
                case (2 _ t3)
                then have r3: "resting t3" "sched_le s t3" using resting_near [OF _ r2(1)] le_near [OF r2(2)] by auto
                show ?case unfolding wp_withM
                  by (rule wp_weaken [OF wp_plan_rest [OF r3(1)]]) (use None home in \<open>auto intro: sched_le_trans [OF r3(2)]\<close>)
              qed (use resting_near [OF _ r2(1)] home None le_near [OF r2(2)] in auto)
            qed (use resting_promoted [OF r1(2)] home None le_frame [OF r1(3)] in \<open>auto simp: promoted_def\<close>)
          qed
        qed (use rest home None le in auto)
      qed (use rest home None le in auto)
    qed
  qed
qed

end
