(* ===== verification/Scheduler_Publish.thy ===== *)
theory Scheduler_Publish
  imports Scheduler_Prepare
begin

text \<open>
  Listing the finished prompt blocks of a request in the prefix cache (\<open>publish_prompt_blocks\<close>): every
  listed block passes from private to shared ownership, and the request's link follows it.
\<close>

subsection \<open>Sharing one block\<close>

lemma share_next_block_runs:
  assumes ok: "kv_ok (q, p)" and len: "seq_len q" and q: "sq_pending q = None" "\<not> sq_poisoned q"
    and full: "(sq_shared_block_count q + 1) * KV_BLOCK_SIZE \<le> sq_logical_length q"
  obtains b where "share_next_block (q, p) = (Inr b, (q\<lparr>sq_shared_block_count := sq_shared_block_count q + 1\<rparr>, shared_pool b p))"
    and "sq_block_ids q ! sq_shared_block_count q = Some b" and "validate_block p b (sq_sequence_id q) = Inr ()"
proof -
  let ?n = "sq_shared_block_count q"
  have core: "seq_core p q" using ok by (simp add: kv_ok_def)
  have a: "?n < sq_allocated_block_count q"
    using blocks_for_length_shared [OF full] len q(1) by (simp add: seq_len_def)
  obtain b where b: "allocated_block q ?n = Inr b" "sq_block_ids q ! ?n = Some b" "validate_block p b (sq_sequence_id q) = Inr ()"
    by (rule core_allocated_block [OF core a]) simp
  have cookie: "sq_pool_cookie q = kp_cookie p" using core by (simp add: seq_core_def seq_ids_def)
  have "wp share_next_block (\<lambda>x w. x = b \<and> w = (q\<lparr>sq_shared_block_count := ?n + 1\<rparr>, shared_pool b p)) (\<lambda>_ _. False) (q, p)"
    unfolding share_next_block_def using q full b cookie
    by (simp add: wp_simps ensure_mutable_def ensure_pool_def failE_def Let_def clear_sidecar_def shared_pool_def)
  then have "share_next_block (q, p) = (Inr b, (q\<lparr>sq_shared_block_count := ?n + 1\<rparr>, shared_pool b p))"
    by (auto simp: wp_def split: prod.splits sum.splits)
  then show ?thesis using that b by blast
qed

text \<open>The shared block has exactly two holders, so the cache cannot list it already.\<close>

lemma shared_block_new:
  assumes kv: "kv_inv (shared_pool b p) qs (ext @ [b])" and q: "q \<in> set qs" and h: "hold q (bid_physical_index b) = 1"
    and b: "validate_block p b sid = Inr ()" and p: "pool_inv p"
  shows "bid_physical_index b \<notin> bid_physical_index ` set ext"
proof
  let ?i = "bid_physical_index b"
  assume "?i \<in> bid_physical_index ` set ext"
  then obtain b' where b': "b' \<in> set ext" "bid_physical_index b' = ?i" by auto
  have i: "?i < length (kp_slots p)" using b by (simp add: validate_block_Inr)
  have sp: "kp_slots (shared_pool b p) ! ?i = (kp_slots (take_sidecar ?i p) ! ?i)\<lparr>bs_owner := Some (shared_owner (kp_cookie p)), bs_shared_references := 2\<rparr>"
    and len: "length (kp_slots (shared_pool b p)) = length (kp_slots p)"
    using i by (auto simp: shared_pool_def Let_def take_sidecar_def split: option.split)
  have "0 < ext_count ext ?i" using ext_count_pos [OF b'(1)] b'(2) by simp
  then have "2 \<le> ext_count (ext @ [b]) ?i" by simp
  moreover have "1 \<le> total_hold qs ?i" using total_hold_ge [OF q, of ?i] h by simp
  moreover have "bs_shared_references (kp_slots (shared_pool b p) ! ?i) = total_hold qs ?i + ext_count (ext @ [b]) ?i"
    using kv i len by (simp add: kv_inv_def refs_exact_def)
  ultimately show False using sp by simp
qed

lemma link_ok_insert:
  assumes ok: "link_ok c r q" and e: "key_at c e = None"
    and c': "key_at c' = (key_at c)(e \<mapsto> k)" "block_at c' = (block_at c)(e \<mapsto> b)"
  shows "link_ok c' r q"
proof -
  obtain path where path: "up_path (key_at c) (rq_prefix_tip r) path" "shared_ids q = map (block_at c) (rev path)"
    "concat (map (\<lambda>i. ck_tokens (the (key_at c i))) (rev path)) = take (sq_shared_block_count q * KV_BLOCK_SIZE) (prompt r)"
    using ok by (auto simp: link_ok_def)
  have i: "e \<notin> set path" using up_path_live [OF path(1)] e by auto
  have "up_path (key_at c') (rq_prefix_tip r) path" by (rule up_path_mono [OF path(1)]) (use i in \<open>auto simp: c'(1)\<close>)
  moreover have "map (block_at c') (rev path) = map (block_at c) (rev path)" using i by (auto simp: c'(2))
  moreover have "map (\<lambda>i. ck_tokens (the (key_at c' i))) (rev path) = map (\<lambda>i. ck_tokens (the (key_at c i))) (rev path)"
    using i by (auto simp: c'(1))
  ultimately show ?thesis unfolding link_ok_def using path(2,3) by (intro exI [of _ path]) (simp only:)
qed

lemma link_ok_extend:
  assumes ok: "link_ok c r q" and e: "key_at c e = None" "e \<noteq> ROOT"
    and c': "key_at c' = (key_at c)(e \<mapsto> \<lparr>ck_parent = rq_prefix_tip r, ck_tokens = tokens\<rparr>)" "block_at c' = (block_at c)(e \<mapsto> b)"
    and b: "sq_block_ids q ! sq_shared_block_count q = Some b" "sq_shared_block_count q < length (sq_block_ids q)"
    and tokens: "tokens = take KV_BLOCK_SIZE (drop (sq_shared_block_count q * KV_BLOCK_SIZE) (prompt r))"
  shows "link_ok c' (r\<lparr>rq_sequence := z, rq_prefix_tip := e\<rparr>) (q\<lparr>sq_shared_block_count := sq_shared_block_count q + 1\<rparr>)"
proof -
  let ?n = "sq_shared_block_count q"
  obtain path where path: "up_path (key_at c) (rq_prefix_tip r) path" "shared_ids q = map (block_at c) (rev path)"
    "concat (map (\<lambda>i. ck_tokens (the (key_at c i))) (rev path)) = take (?n * KV_BLOCK_SIZE) (prompt r)"
    using ok by (auto simp: link_ok_def)
  have i: "e \<notin> set path" using up_path_live [OF path(1)] e by auto
  have up: "up_path (key_at c') (rq_prefix_tip r) path" by (rule up_path_mono [OF path(1)]) (use i in \<open>auto simp: c'(1)\<close>)
  have bl: "map (block_at c') (rev path) = map (block_at c) (rev path)" using i by (auto simp: c'(2))
  have tk: "map (\<lambda>i. ck_tokens (the (key_at c' i))) (rev path) = map (\<lambda>i. ck_tokens (the (key_at c i))) (rev path)"
    using i by (auto simp: c'(1))
  have "take ((?n + 1) * KV_BLOCK_SIZE) (prompt r) = take (?n * KV_BLOCK_SIZE) (prompt r) @ tokens"
    unfolding tokens using take_add [of "?n * KV_BLOCK_SIZE" KV_BLOCK_SIZE "prompt r"] by (simp add: algebra_simps)
  moreover have "take (?n + 1) (sq_block_ids q) = shared_ids q @ [Some b]" using b by (simp add: take_Suc_conv_app_nth)
  moreover have "up_path (key_at c') e (e # path)" using up e by (simp add: c'(1))
  moreover have "key_at c' e = Some \<lparr>ck_parent = rq_prefix_tip r, ck_tokens = tokens\<rparr>" "block_at c' e = Some b" by (simp_all add: c')
  ultimately show ?thesis unfolding link_ok_def
    by (intro exI [of _ "e # path"]) (simp add: bl tk path(2,3) del: up_path.simps)
qed

lemma core_shared:
  assumes inv: "core_inv s" and c: "s_prefix_cache s = Some c" and i: "i < length (s_requests s)"
    and q: "rq_sequence (s_requests s ! i) = Some q" "sq_pending q = None" "\<not> sq_poisoned q"
    and linked: "rq_prefix_linked (s_requests s ! i)"
    and full: "(sq_shared_block_count q + 1) * KV_BLOCK_SIZE \<le> sq_logical_length q"
    and tokens: "tokens = take KV_BLOCK_SIZE (drop (sq_shared_block_count q * KV_BLOCK_SIZE) (prompt (s_requests s ! i)))"
    and run: "share_next_block (q, s_pool s) = (Inr b, (q', p'))" and b: "sq_block_ids q ! sq_shared_block_count q = Some b"
      "validate_block (s_pool s) b (sq_sequence_id q) = Inr ()"
    and q': "q' = q\<lparr>sq_shared_block_count := sq_shared_block_count q + 1\<rparr>" and p': "p' = shared_pool b (s_pool s)"
    and c': "key_at c e = None" "cache_inv c' ys" "pc_capacity c' = pc_capacity c"
      "key_at c' = (key_at c)(e \<mapsto> \<lparr>ck_parent = rq_prefix_tip (s_requests s ! i), ck_tokens = tokens\<rparr>)"
      "block_at c' = (block_at c)(e \<mapsto> b)"
  shows "core_inv (s\<lparr>s_pool := p', s_requests := (s_requests s)[i := (s_requests s ! i)\<lparr>rq_sequence := Some q', rq_prefix_tip := e\<rparr>],
    s_prefix_cache := Some c'\<rparr>)"
proof -
  let ?rs = "s_requests s" and ?r = "s_requests s ! i" and ?n = "sq_shared_block_count q"
  let ?r' = "(s_requests s ! i)\<lparr>rq_sequence := Some q', rq_prefix_tip := e\<rparr>"
  let ?ss = "(s_requests s)[i := ?r']"
  obtain xs where xs: "cache_inv c xs" and dist: "distinct (map bid_physical_index (cache_blocks c))"
    and kv: "kv_inv (s_pool s) (seqs ?rs) (cache_blocks c)" and link: "\<forall>r\<in>set ?rs. linked_ok (Some c) r"
    using inv c by (auto simp: core_inv_def kv_part_def cache_ok_def ext_of_def)
  note at = seqs_at [OF i q(1)]
  have core: "seq_core (s_pool s) q" using core_kv(1) [OF inv i q(1)] by (simp add: kv_ok_def)
  have shp: "seq_shape q" using core by (simp add: seq_core_def)
  have kv1: "kv_inv p' (seqs ?ss) (cache_blocks c @ [b])"
    using kv_inv_share [OF kv at(1)] run at(2) at(3) [of ?r' q'] by simp
  have a: "?n < sq_allocated_block_count q"
    using blocks_for_length_shared [OF full] core_kv(2) [OF inv i q(1)] q(2) by (simp add: seq_len_def)
  then have bn: "?n < length (sq_block_ids q)" using shp by (simp add: seq_shape_def)
  have "bid_physical_index b = sq_physical_block_ids q ! ?n"
    using core_allocated_block [OF core a] b(1) by (metis option.inject)
  then have hold: "hold q' (bid_physical_index b) = 1"
    using bn shp by (auto simp: hold_def shared_phys_def q' in_set_conv_nth seq_shape_def intro!: exI [of _ ?n])
  have qin: "q' \<in> set (seqs ?ss)" using at(1) at(3) [of ?r' q'] set_update_memI by fastforce
  have new: "bid_physical_index b \<notin> bid_physical_index ` set (cache_blocks c)"
    by (rule shared_block_new [OF kv1 [unfolded p'] qin hold b(2)]) (use kv in \<open>simp add: kv_inv_def\<close>)
  have e: "e < length (pc_entries c)" "e \<noteq> ROOT"
    using cache_ids(2) [OF c'(2), of e] cache_ids(4) [OF xs] c'(3,4) by auto
  have "block_at c e = None" using c'(1) by (simp add: key_at_def block_at_def)
  moreover have "length (pc_entries c') = length (pc_entries c)" using cache_ids(4) [OF xs] cache_ids(4) [OF c'(2)] c'(3) by simp
  ultimately have m: "mset (cache_blocks c') = add_mset b (mset (cache_blocks c))" using cache_blocks_insert [OF c'(5) _ e(1)] by simp
  then have m': "mset (cache_blocks c @ [b]) = mset (cache_blocks c')" by simp
  have kv2: "kv_inv p' (seqs ?ss) (cache_blocks c')" by (rule kv_inv_mset_ext [OF m' kv1])
  have "mset (map bid_physical_index (cache_blocks c')) = mset (map bid_physical_index (b # cache_blocks c))" using m by simp
  then have d': "distinct (map bid_physical_index (cache_blocks c'))" using dist new by (metis mset_eq_imp_distinct_iff distinct.simps(2) list.simps(9) list.set_map)
  have lk: "link_ok c ?r q" using core_linked [OF inv i] c linked q(1) by (simp add: linked_ok_def)
  have "linked_ok (Some c') r" if r: "r \<in> set ?ss" for r
  proof (cases "r = ?r'")
    case True
    have "link_ok c' ?r' q'" unfolding q' by (rule link_ok_extend [OF lk c'(1) e(2) c'(4,5) b(1) bn tokens])
    then show ?thesis using True by (simp add: linked_ok_def)
  next
    case False
    then have "r \<in> set ?rs" using r set_update_subset_insert [of ?rs i ?r'] by auto
    then show ?thesis using link link_ok_insert [OF _ c'(1,4,5), of r] by (auto simp: linked_ok_def split: option.splits)
  qed
  then have "kv_part p' ?ss (Some c')" using kv2 d' c'(2) by (auto simp: kv_part_def cache_ok_def ext_of_def)
  moreover have "rec_ok (s_config s) ?r'" using core_nth [OF inv i] q(1) by (auto simp: rec_ok_def q')
  ultimately show ?thesis by (intro core_update [OF inv i]) (simp_all add: same_books_def)
qed

subsection \<open>The publication loop\<close>

text \<open>What publication changes: the pool, the cache, the metrics, and of request \<open>i\<close> the sharing and the
  link.\<close>

definition same_progress :: "sequence_state \<Rightarrow> sequence_state \<Rightarrow> bool" where
  "same_progress q q' \<longleftrightarrow> sq_logical_length q' = sq_logical_length q \<and> sq_pending q' = sq_pending q \<and> sq_poisoned q' = sq_poisoned q"

definition publishing :: "nat \<Rightarrow> scheduler \<Rightarrow> scheduler \<Rightarrow> bool" where
  "publishing i s t \<longleftrightarrow> (\<exists>p c m d q q' tip lk. t = s\<lparr>s_pool := p, s_prefix_cache := Some c, s_metrics := m, s_metrics_degraded := d,
     s_requests := (s_requests s)[i := (s_requests s ! i)\<lparr>rq_sequence := Some q', rq_prefix_tip := tip, rq_prefix_linked := lk\<rparr>]\<rparr> \<and>
     rq_sequence (s_requests s ! i) = Some q \<and> same_progress q q')"

lemma publishing_refl:
  assumes "rq_sequence (s_requests s ! i) = Some q" and "s_prefix_cache s = Some c"
  shows "publishing i s s"
proof -
  have r: "(s_requests s ! i)\<lparr>rq_sequence := Some q, rq_prefix_tip := rq_prefix_tip (s_requests s ! i),
      rq_prefix_linked := rq_prefix_linked (s_requests s ! i)\<rparr> = s_requests s ! i" using assms(1) by simp
  have "s = s\<lparr>s_pool := s_pool s, s_prefix_cache := Some c, s_metrics := s_metrics s, s_metrics_degraded := s_metrics_degraded s,
     s_requests := (s_requests s)[i := (s_requests s ! i)\<lparr>rq_sequence := Some q, rq_prefix_tip := rq_prefix_tip (s_requests s ! i),
      rq_prefix_linked := rq_prefix_linked (s_requests s ! i)\<rparr>]\<rparr>" unfolding r list_update_id assms(2) [symmetric] by simp
  then show ?thesis unfolding publishing_def same_progress_def using assms(1) by blast
qed

lemma publishing_trans:
  assumes "publishing i s t" and "publishing i t u" and i: "i < length (s_requests s)"
  shows "publishing i s u"
proof -
  from assms(1) obtain p c m d q q' tip lk where t: "t = s\<lparr>s_pool := p, s_prefix_cache := Some c, s_metrics := m, s_metrics_degraded := d,
     s_requests := (s_requests s)[i := (s_requests s ! i)\<lparr>rq_sequence := Some q', rq_prefix_tip := tip, rq_prefix_linked := lk\<rparr>]\<rparr>"
     "rq_sequence (s_requests s ! i) = Some q" "same_progress q q'" unfolding publishing_def by blast
  from assms(2) obtain p1 c1 m1 d1 q1 q1' tip1 lk1 where u: "u = t\<lparr>s_pool := p1, s_prefix_cache := Some c1, s_metrics := m1, s_metrics_degraded := d1,
     s_requests := (s_requests t)[i := (s_requests t ! i)\<lparr>rq_sequence := Some q1', rq_prefix_tip := tip1, rq_prefix_linked := lk1\<rparr>]\<rparr>"
     "rq_sequence (s_requests t ! i) = Some q1" "same_progress q1 q1'" unfolding publishing_def by blast
  have "q1 = q'" using u(2) t(1) i by simp
  then have "same_progress q q1'" using t(3) u(3) by (simp add: same_progress_def)
  moreover have "u = s\<lparr>s_pool := p1, s_prefix_cache := Some c1, s_metrics := m1, s_metrics_degraded := d1,
     s_requests := (s_requests s)[i := (s_requests s ! i)\<lparr>rq_sequence := Some q1', rq_prefix_tip := tip1, rq_prefix_linked := lk1\<rparr>]\<rparr>"
    using u(1) t(1) i by simp
  ultimately show ?thesis unfolding publishing_def using t(2) by blast
qed

lemma publishing_length: "publishing i s t \<Longrightarrow> length (s_requests t) = length (s_requests s)"
  by (auto simp: publishing_def)

lemma publishing_fields:
  assumes "publishing i s t" and "i < length (s_requests s)"
  obtains c q q' where "length (s_requests t) = length (s_requests s)" and "s_prefix_cache t = Some c"
    and "rq_sequence (s_requests s ! i) = Some q" and "rq_sequence (s_requests t ! i) = Some q'" and "same_progress q q'"
    and "prompt (s_requests t ! i) = prompt (s_requests s ! i)" and "rq_prefill_cursor (s_requests t ! i) = rq_prefill_cursor (s_requests s ! i)"
  using assms by (auto simp: publishing_def)

lemma cache_len_le: "cache_inv c xs \<Longrightarrow> cache_len c \<le> pc_capacity c"
proof -
  assume inv: "cache_inv c xs"
  have "dom (key_at c) \<subseteq> {..<pc_capacity c}" using cache_ids(2) [OF inv] by auto
  then have "card (dom (key_at c)) \<le> pc_capacity c" using card_mono [of "{..<pc_capacity c}"] by fastforce
  then show ?thesis using inv by (simp add: cache_len_def cache_inv_def cache_shape_def)
qed

lemma core_unlinked:
  assumes inv: "core_inv s" and i: "i < length (s_requests s)"
  shows "core_inv (s\<lparr>s_requests := (s_requests s)[i := (s_requests s ! i)\<lparr>rq_prefix_linked := False\<rparr>]\<rparr>)"
proof -
  let ?r' = "(s_requests s ! i)\<lparr>rq_prefix_linked := False\<rparr>"
  have "kv_part (s_pool s) ((s_requests s)[i := ?r']) (s_prefix_cache s)"
    by (rule kv_part_same_seqs [OF _ i]) (use inv in \<open>simp_all add: core_inv_def linked_ok_def\<close>)
  then show ?thesis
    using core_update [OF inv i, of ?r' "s_pool s" "s_prefix_cache s"] core_nth [OF inv i] by (simp add: same_books_def rec_ok_def)
qed

lemma link_tip:
  "link_ok c r q \<Longrightarrow> rq_prefix_tip r = ROOT \<or> key_at c (rq_prefix_tip r) \<noteq> None"
proof -
  assume "link_ok c r q"
  then obtain path where "up_path (key_at c) (rq_prefix_tip r) path" by (auto simp: link_ok_def)
  then show ?thesis by (cases path) auto
qed

text \<open>Insertion of a block whose key is not listed and for which there is room.\<close>

lemma wp_publish_insert:
  assumes inv: "core_inv s" and c: "s_prefix_cache s = Some c" and i: "i < length (s_requests s)"
    and q: "rq_sequence (s_requests s ! i) = Some q" "sq_pending q = None" "\<not> sq_poisoned q"
    and linked: "rq_prefix_linked (s_requests s ! i)"
    and full: "(sq_shared_block_count q + 1) * KV_BLOCK_SIZE \<le> sq_logical_length q"
    and tokens: "tokens = take KV_BLOCK_SIZE (drop (sq_shared_block_count q * KV_BLOCK_SIZE) (prompt (s_requests s ! i)))"
      "length tokens = KV_BLOCK_SIZE"
    and new: "\<And>j. key_at c j \<noteq> Some \<lparr>ck_parent = rq_prefix_tip (s_requests s ! i), ck_tokens = tokens\<rparr>"
    and room: "has_room c"
  shows "wp (bindM (on_sequence i q share_next_block) (\<lambda>block.
         withM (\<lambda>u. case s_prefix_cache u of
           None \<Rightarrow> throwM scheduler_panic
         | Some cache \<Rightarrow>
             bindM (on_scache cache (on_cache (cache_insert (rq_prefix_tip (s_requests s ! i)) tokens block))) (\<lambda>entry.
             bindM (mod_request i (\<lambda>r. r\<lparr>rq_prefix_tip := entry\<rparr>)) (\<lambda>_.
             ret True)))))
    (\<lambda>b t. b \<and> core_inv t \<and> publishing i s t \<and> rq_prefix_linked (s_requests t ! i) \<and>
       map_option sq_shared_block_count (rq_sequence (s_requests t ! i)) = Some (sq_shared_block_count q + 1))
    (\<lambda>_ _. False) s"
proof -
  let ?r = "s_requests s ! i" and ?q' = "q\<lparr>sq_shared_block_count := sq_shared_block_count q + 1\<rparr>"
  obtain b where run: "share_next_block (q, s_pool s) = (Inr b, (?q', shared_pool b (s_pool s)))"
    and b: "sq_block_ids q ! sq_shared_block_count q = Some b" "validate_block (s_pool s) b (sq_sequence_id q) = Inr ()"
    by (rule share_next_block_runs [OF core_kv(1,2) [OF inv i q(1)] q(2,3) full])
  obtain xs where xs: "cache_inv c xs" using inv c by (auto simp: core_inv_def kv_part_def cache_ok_def)
  have lk: "link_ok c ?r q" using core_linked [OF inv i] c linked q(1) by (simp add: linked_ok_def)
  let ?t = "with_seq i ?q' (shared_pool b (s_pool s)) s"
  have share: "wp (on_sequence i q share_next_block) (\<lambda>x t. x = b \<and> t = ?t) (\<lambda>_ _. False) s"
    by (subst wp_on_sequence) (simp add: wp_def run)
  have ins: "wp (on_scache c (on_cache (cache_insert (rq_prefix_tip ?r) tokens b)))
      (\<lambda>e u. \<exists>c' ys. u = ?t\<lparr>s_prefix_cache := Some c'\<rparr> \<and> key_at c e = None \<and> cache_inv c' ys \<and> pc_capacity c' = pc_capacity c \<and>
        key_at c' = (key_at c)(e \<mapsto> \<lparr>ck_parent = rq_prefix_tip ?r, ck_tokens = tokens\<rparr>) \<and> block_at c' = (block_at c)(e \<mapsto> b))
      (\<lambda>_ _. False) ?t"
    unfolding wp_on_scache wp_on_cache
  proof (rule wp_weaken [OF wp_cache_insert [OF xs tokens(2) link_tip [OF lk] new room]], goal_cases)
    case (1 e c')
    have eq: "with_cache c' (s_pool ?t) ?t = ?t\<lparr>s_prefix_cache := Some c'\<rparr>" by simp
    show ?case unfolding prod.case eq using 1 by blast
  qed simp
  show ?thesis
  proof (rule wp_callI [OF share], simp, goal_cases)
    case (1 x t)
    then have t: "x = b" "t = ?t" by auto
    have ct: "s_prefix_cache ?t = Some c" using c by simp
    show ?case unfolding t wp_withM ct option.case
    proof (rule wp_callI [OF ins], simp, goal_cases)
      case (1 e u)
      then obtain c' ys where u: "u = ?t\<lparr>s_prefix_cache := Some c'\<rparr>" and c': "key_at c e = None" "cache_inv c' ys" "pc_capacity c' = pc_capacity c"
        "key_at c' = (key_at c)(e \<mapsto> \<lparr>ck_parent = rq_prefix_tip ?r, ck_tokens = tokens\<rparr>)" "block_at c' = (block_at c)(e \<mapsto> b)" by blast
      let ?v = "s\<lparr>s_pool := shared_pool b (s_pool s), s_requests := (s_requests s)[i := ?r\<lparr>rq_sequence := Some ?q', rq_prefix_tip := e\<rparr>],
          s_prefix_cache := Some c'\<rparr>"
      have eq: "u\<lparr>s_requests := (s_requests u)[i := (s_requests u ! i)\<lparr>rq_prefix_tip := e\<rparr>]\<rparr> = ?v" using i by (simp add: u)
      have inv': "core_inv ?v" by (rule core_shared [OF inv c i q linked full tokens(1) run b refl refl c'])
      have eq2: "?v = s\<lparr>s_pool := shared_pool b (s_pool s), s_prefix_cache := Some c', s_metrics := s_metrics s, s_metrics_degraded := s_metrics_degraded s,
         s_requests := (s_requests s)[i := ?r\<lparr>rq_sequence := Some ?q', rq_prefix_tip := e, rq_prefix_linked := rq_prefix_linked ?r\<rparr>]\<rparr>"
        by simp
      have "publishing i s ?v" unfolding publishing_def eq2
        by (intro exI conjI, rule refl, rule q(1)) (simp add: same_progress_def)
      then show ?case unfolding wp_bindM wp_mod_request wp_ret eq using inv' i linked by simp
    qed
  qed
qed

lemma publishing_unlink:
  assumes "publishing i s t" and "i < length (s_requests s)"
  shows "publishing i s (t\<lparr>s_requests := (s_requests t)[i := (s_requests t ! i)\<lparr>rq_prefix_linked := False\<rparr>]\<rparr>)"
proof -
  from assms(1) obtain p c m d q q' tip lk where t: "t = s\<lparr>s_pool := p, s_prefix_cache := Some c, s_metrics := m, s_metrics_degraded := d,
     s_requests := (s_requests s)[i := (s_requests s ! i)\<lparr>rq_sequence := Some q', rq_prefix_tip := tip, rq_prefix_linked := lk\<rparr>]\<rparr>"
     "rq_sequence (s_requests s ! i) = Some q" "same_progress q q'" unfolding publishing_def by blast
  have "t\<lparr>s_requests := (s_requests t)[i := (s_requests t ! i)\<lparr>rq_prefix_linked := False\<rparr>]\<rparr> =
      s\<lparr>s_pool := p, s_prefix_cache := Some c, s_metrics := m, s_metrics_degraded := d,
     s_requests := (s_requests s)[i := (s_requests s ! i)\<lparr>rq_sequence := Some q', rq_prefix_tip := tip, rq_prefix_linked := False\<rparr>]\<rparr>"
    using assms(2) by (simp add: t(1))
  then show ?thesis unfolding publishing_def using t(2,3) by blast
qed

lemma publishing_cache:
  assumes q: "rq_sequence (s_requests s ! i) = Some q" and m: "metric_only (with_cache c' p' s) u"
  shows "publishing i s u"
proof -
  obtain m d where u: "u = with_cache c' p' s\<lparr>s_metrics := m, s_metrics_degraded := d\<rparr>" using m by (auto simp: metric_only_def)
  have r: "(s_requests s ! i)\<lparr>rq_sequence := Some q, rq_prefix_tip := rq_prefix_tip (s_requests s ! i),
      rq_prefix_linked := rq_prefix_linked (s_requests s ! i)\<rparr> = s_requests s ! i" using q by simp
  have "u = s\<lparr>s_pool := p', s_prefix_cache := Some c', s_metrics := m, s_metrics_degraded := d,
     s_requests := (s_requests s)[i := (s_requests s ! i)\<lparr>rq_sequence := Some q, rq_prefix_tip := rq_prefix_tip (s_requests s ! i),
      rq_prefix_linked := rq_prefix_linked (s_requests s ! i)\<rparr>]\<rparr>" unfolding r list_update_id u by simp
  then show ?thesis unfolding publishing_def same_progress_def using q by blast
qed

text \<open>The tip of request \<open>i\<close> is listed, whether the request is still linked or not.\<close>

definition tip_ok :: "nat \<Rightarrow> scheduler \<Rightarrow> bool" where
  "tip_ok i s \<longleftrightarrow> (\<exists>c path. s_prefix_cache s = Some c \<and> up_path (key_at c) (rq_prefix_tip (s_requests s ! i)) path)"

lemma linked_tip_ok:
  assumes "core_inv s" and "s_prefix_cache s = Some c" and "i < length (s_requests s)"
    and "rq_prefix_linked (s_requests s ! i)" "rq_sequence (s_requests s ! i) = Some q"
  shows "tip_ok i s"
  using linked_tip [OF assms] assms(2) by (auto simp: tip_ok_def)

definition published :: "nat \<Rightarrow> nat \<Rightarrow> scheduler \<Rightarrow> bool \<Rightarrow> scheduler \<Rightarrow> bool" where
  "published i n s b t \<longleftrightarrow> core_inv t \<and> publishing i s t \<and> tip_ok i t \<and> (b \<longrightarrow> rq_prefix_linked (s_requests t ! i) \<and>
     map_option sq_shared_block_count (rq_sequence (s_requests t ! i)) = Some (n + 1))"

lemma wp_publish_block:
  assumes inv: "core_inv s" and c: "s_prefix_cache s = Some c" and i: "i < length (s_requests s)"
    and q: "rq_sequence (s_requests s ! i) = Some q" "sq_pending q = None" "\<not> sq_poisoned q"
    and linked: "rq_prefix_linked (s_requests s ! i)"
    and full: "(sq_shared_block_count q + 1) * KV_BLOCK_SIZE \<le> sq_logical_length q"
      "sq_logical_length q \<le> length (prompt (s_requests s ! i))"
  shows "wp (publish_block i (sq_shared_block_count q)) (published i (sq_shared_block_count q) s) (\<lambda>_ _. False) s"
proof -
  let ?r = "s_requests s ! i" and ?n = "sq_shared_block_count q"
  let ?tokens = "take KV_BLOCK_SIZE (drop (?n * KV_BLOCK_SIZE) (prompt ?r))"
  obtain xs where xs: "cache_inv c xs" using inv c by (auto simp: core_inv_def kv_part_def cache_ok_def)
  have fit: "?n * KV_BLOCK_SIZE + KV_BLOCK_SIZE \<le> length (prompt ?r)" using full by simp
  then have sl: "block_slice (prompt ?r) (?n * KV_BLOCK_SIZE) = Inr ?tokens" by (simp add: block_slice_def failE_def)
  have len: "length ?tokens = KV_BLOCK_SIZE" using fit by simp
  obtain found where fd: "cache_find c (rq_prefix_tip ?r) ?tokens = Inr found" using cache_find_eq(1) [OF xs len] by blast
  have unlink: "wp (bindM (mod_request i (\<lambda>r. r\<lparr>rq_prefix_linked := False\<rparr>)) (\<lambda>_. ret False)) (published i ?n s) (\<lambda>_ _. False) t"
    if "core_inv t" "publishing i s t" "tip_ok i t" for t
  proof -
    have it: "i < length (s_requests t)" using publishing_length [OF that(2)] i by simp
    from core_unlinked [OF that(1) it] publishing_unlink [OF that(2) i] that(3)
    show ?thesis unfolding wp_bindM wp_mod_request wp_ret using it by (simp add: published_def tip_ok_def)
  qed
  have here: "publishing i s s" by (rule publishing_refl [OF q(1) c])
  let ?insert = "bindM (on_sequence i q share_next_block) (\<lambda>block.
         withM (\<lambda>u. case s_prefix_cache u of
           None \<Rightarrow> throwM scheduler_panic
         | Some cache \<Rightarrow>
             bindM (on_scache cache (on_cache (cache_insert (rq_prefix_tip ?r) ?tokens block))) (\<lambda>entry.
             bindM (mod_request i (\<lambda>r. r\<lparr>rq_prefix_tip := entry\<rparr>)) (\<lambda>_.
             ret True))))"
  show ?thesis
  proof (cases found)
    case (Some eb)
    then show ?thesis using unlink [OF inv here linked_tip_ok [OF inv c i linked q(1)]]
      by (simp add: publish_block_def wp_withM Let_def c q(1) sl fd wp_bindM [of "tryM _"] wp_tryM)
  next
    case None
    then have new: "\<And>j. key_at c j \<noteq> Some \<lparr>ck_parent = rq_prefix_tip ?r, ck_tokens = ?tokens\<rparr>"
      using fd cache_find_eq(3) [OF xs len] by blast
    have ins: "wp ?insert (published i ?n s) (\<lambda>_ _. False) u"
      if u: "core_inv u" "s_prefix_cache u = Some c'" "s_requests u = s_requests s" "publishing i s u"
        "\<forall>j k. key_at c' j = Some k \<longrightarrow> key_at c j = Some k" "has_room c'" for u c'
    proof -
      have new': "\<And>j. key_at c' j \<noteq> Some \<lparr>ck_parent = rq_prefix_tip (s_requests u ! i), ck_tokens = ?tokens\<rparr>"
        using new u(3,5) by metis
      show ?thesis
        using wp_publish_insert [OF u(1,2), of i q ?tokens, unfolded u(3), OF i q linked full(1) refl len new' [unfolded u(3)] u(6)]
      proof (rule wp_weaken, goal_cases)
        case (1 b t)
        then have t: "publishing i s t" using publishing_trans [OF u(4) _ i] by blast
        obtain c1 q1 where "s_prefix_cache t = Some c1" "rq_sequence (s_requests t ! i) = Some q1" "i < length (s_requests t)"
          by (rule publishing_fields [OF t i]) (use i in simp)
        then have "tip_ok i t" using 1 linked_tip_ok by blast
        then show ?case using 1 t by (simp add: published_def)
      qed
    qed
    have room: "wp (bindM (on_scache c evict_one) (\<lambda>evicted.
                     if evicted then bindM (observe_metric record_prefix_cache_eviction) (\<lambda>_. ret True)
                     else bindM (mod_request i (\<lambda>r. r\<lparr>rq_prefix_linked := False\<rparr>)) (\<lambda>_. ret False)))
        (\<lambda>b. wp (if \<not> b then ret False else ?insert) (published i ?n s) (\<lambda>_ _. False)) (\<lambda>_ _. False) s"
    proof (rule wp_callI [OF wp_evict_cached [OF inv c]], simp, goal_cases)
      case (1 b t)
      then obtain c' p' where t: "core_inv t" "t = with_cache c' p' s"
        "if b then cache_len c' < cache_len c else cache_len c' = cache_len c" "pc_capacity c' = pc_capacity c"
        "\<forall>j k. key_at c' j = Some k \<longrightarrow> key_at c j = Some k" by blast
      show ?case
      proof (cases b)
        case True
        have "has_room c'" using t(3,4) True cache_len_le [OF xs] by (simp add: has_room_def cache_len_def)
        moreover have "core_inv u \<and> s_prefix_cache u = Some c' \<and> s_requests u = s_requests s \<and> publishing i s u" if u: "metric_only t u" for u
          using metric_only_core [OF u] t(1) publishing_cache [OF q(1), of p' c' u] u unfolding t(2) by (auto simp: metric_only_def)
        ultimately show ?thesis using True ins t(5) by (simp add: wp_bindM [of "observe_metric _"] wp_ret wp_observe_metric)
      next
        case False
        have "publishing i s t" using publishing_cache [OF q(1), of p' c' t] t(2) by simp
        moreover have "tip_ok i t" by (rule linked_tip_ok [OF t(1)]) (use t(2) i linked q(1) in simp_all)
        ultimately show ?thesis using False unlink [OF t(1)] by (simp add: wp_bindM wp_ret wp_mod_request)
      qed
    qed
    have "wp (bindM (if has_room c then ret True
                else bindM (on_scache c evict_one) (\<lambda>evicted.
                     if evicted then bindM (observe_metric record_prefix_cache_eviction) (\<lambda>_. ret True)
                     else bindM (mod_request i (\<lambda>r. r\<lparr>rq_prefix_linked := False\<rparr>)) (\<lambda>_. ret False)))
        (\<lambda>b. if \<not> b then ret False else ?insert)) (published i ?n s) (\<lambda>_ _. False) s"
      using room ins [OF inv c refl here] by (cases "has_room c") (simp_all add: wp_bindM [of "ret _"] wp_ret wp_bindM [of "bindM _ _"])
    then show ?thesis
      by (simp add: publish_block_def wp_withM Let_def c q(1) sl fd None wp_bindM [of "tryM _"] wp_tryM)
  qed
qed

lemma wp_publish_loop:
  assumes "core_inv s" and "s_prefix_cache s = Some c" and "i < length (s_requests s)"
    and "rq_sequence (s_requests s ! i) = Some q" "sq_pending q = None" "\<not> sq_poisoned q"
    and "n = sq_shared_block_count q" and "full_blocks * KV_BLOCK_SIZE \<le> sq_logical_length q"
    and "sq_logical_length q \<le> length (prompt (s_requests s ! i))" and "full_blocks \<le> n + fuel"
  shows "wp (publish_loop fuel i full_blocks n)
    (\<lambda>n' t. core_inv t \<and> publishing i s t \<and> n \<le> n' \<and> (n' \<noteq> n \<or> tip_ok i s \<longrightarrow> tip_ok i t)) (\<lambda>_ _. False) s"
  using assms
proof (induction fuel arbitrary: s c q n)
  case 0
  then show ?case using publishing_refl [of s i q c] by (subst publish_loop.simps) (simp add: wp_simps)
next
  case (Suc fuel)
  note inv = Suc.prems(1) and c = Suc.prems(2) and i = Suc.prems(3) and q = Suc.prems(4-6) and n = Suc.prems(7)
    and full = Suc.prems(8,9) and fuel = Suc.prems(10)
  have here: "publishing i s s" by (rule publishing_refl [OF q(1) c])
  show ?case
  proof (cases "rq_prefix_linked (s_requests s ! i) \<and> n < full_blocks")
    case False
    then show ?thesis using inv here by (subst publish_loop.simps) (auto simp: wp_withM wp_ret)
  next
    case True
    have "(n + 1) * KV_BLOCK_SIZE \<le> full_blocks * KV_BLOCK_SIZE" by (rule mult_le_mono1) (use True in simp)
    then have f: "(sq_shared_block_count q + 1) * KV_BLOCK_SIZE \<le> sq_logical_length q"
      unfolding n by (rule order_trans [OF _ full(1)])
    have one: "wp (publish_block i n) (published i n s) (\<lambda>_ _. False) s"
      using wp_publish_block [OF inv c i q _ f full(2)] True n by simp
    have "wp (bindM (publish_block i n) (\<lambda>listed. if listed then publish_loop fuel i full_blocks (n + 1) else ret n))
      (\<lambda>n' t. core_inv t \<and> publishing i s t \<and> n \<le> n' \<and> (n' \<noteq> n \<or> tip_ok i s \<longrightarrow> tip_ok i t)) (\<lambda>_ _. False) s"
    proof (rule wp_callI [OF one], simp, goal_cases)
      case (1 b t)
      then have t: "core_inv t" "publishing i s t" "tip_ok i t" and bt: "b \<Longrightarrow> rq_prefix_linked (s_requests t ! i) \<and>
        map_option sq_shared_block_count (rq_sequence (s_requests t ! i)) = Some (n + 1)" by (auto simp: published_def)
      obtain c1 q0 q1 where t1: "length (s_requests t) = length (s_requests s)" "s_prefix_cache t = Some c1"
        "rq_sequence (s_requests s ! i) = Some q0" "rq_sequence (s_requests t ! i) = Some q1" "same_progress q0 q1"
        "prompt (s_requests t ! i) = prompt (s_requests s ! i)" by (rule publishing_fields [OF t(2) i])
      have q1: "sq_pending q1 = None" "\<not> sq_poisoned q1" "sq_logical_length q1 = sq_logical_length q"
        using t1(3,5) q by (auto simp: same_progress_def)
      have "wp (publish_loop fuel i full_blocks (n + 1))
        (\<lambda>n' t. core_inv t \<and> publishing i s t \<and> n \<le> n' \<and> (n' \<noteq> n \<or> tip_ok i s \<longrightarrow> tip_ok i t)) (\<lambda>_ _. False) t" if b
      proof (rule wp_weaken [OF Suc.IH [of t c1 q1 "n + 1"]], goal_cases)
        case (11 n' u)
        then show ?case using t(3) publishing_trans [OF t(2) _ i] by auto
      qed (use t(1) t1 i q1 bt that full fuel in auto)
      then show ?case using t by (simp add: wp_ret)
    qed
    then show ?thesis using True by (subst publish_loop.simps) (simp add: wp_withM)
  qed
qed

lemma publishing_touch:
  assumes "publishing i s t"
  shows "publishing i s (t\<lparr>s_prefix_cache := Some c'\<rparr>)"
proof -
  from assms(1) obtain p c m d q q' tip lk where t: "t = s\<lparr>s_pool := p, s_prefix_cache := Some c, s_metrics := m, s_metrics_degraded := d,
     s_requests := (s_requests s)[i := (s_requests s ! i)\<lparr>rq_sequence := Some q', rq_prefix_tip := tip, rq_prefix_linked := lk\<rparr>]\<rparr>"
     "rq_sequence (s_requests s ! i) = Some q" "same_progress q q'" unfolding publishing_def by blast
  have "t\<lparr>s_prefix_cache := Some c'\<rparr> = s\<lparr>s_pool := p, s_prefix_cache := Some c', s_metrics := m, s_metrics_degraded := d,
     s_requests := (s_requests s)[i := (s_requests s ! i)\<lparr>rq_sequence := Some q', rq_prefix_tip := tip, rq_prefix_linked := lk\<rparr>]\<rparr>"
    by (simp add: t(1))
  then show ?thesis unfolding publishing_def using t(2,3) by blast
qed

lemma wp_publish_prompt_blocks:
  assumes inv: "core_inv s" and i: "i < length (s_requests s)"
    and q: "rq_sequence (s_requests s ! i) = Some q" "sq_pending q = None" "\<not> sq_poisoned q"
    and len: "sq_logical_length q = rq_prefill_cursor (s_requests s ! i)" "rq_prefill_cursor (s_requests s ! i) \<le> length (prompt (s_requests s ! i))"
  shows "wp (publish_prompt_blocks i) (\<lambda>_ t. core_inv t \<and> (t = s \<or> s_prefix_cache s \<noteq> None \<and> publishing i s t)) (\<lambda>_ _. False) s"
proof (cases "s_prefix_cache s")
  case None
  then show ?thesis using inv by (simp add: publish_prompt_blocks_def wp_simps Let_def)
next
  case (Some c)
  let ?n = "sq_shared_block_count q" and ?full = "rq_prefill_cursor (s_requests s ! i) div KV_BLOCK_SIZE"
  have f: "?full * KV_BLOCK_SIZE \<le> sq_logical_length q" using len(1) by simp
  have l: "sq_logical_length q \<le> length (prompt (s_requests s ! i))" using len by simp
  have fu: "?full \<le> ?n + (?full - ?n)" by simp
  have "wp (bindM (publish_loop (?full - ?n) i ?full ?n) (\<lambda>next_block.
         if next_block = ?n then ret ()
         else withM (\<lambda>s. case s_prefix_cache s of
                None \<Rightarrow> throwM scheduler_panic
              | Some cache \<Rightarrow>
                  on_scache cache (on_cache (touch_path (rq_prefix_tip (s_requests s ! i)))))))
      (\<lambda>_ t. core_inv t \<and> (t = s \<or> s_prefix_cache s \<noteq> None \<and> publishing i s t)) (\<lambda>_ _. False) s"
  proof (rule wp_callI [OF wp_publish_loop [OF inv Some i q refl f l fu]], simp, goal_cases)
    case (1 n' t)
    show ?case
    proof (cases "n' = ?n")
      case True
      then show ?thesis using 1 Some by (simp add: wp_ret)
    next
      case False
      then obtain c1 path where c1: "s_prefix_cache t = Some c1" "up_path (key_at c1) (rq_prefix_tip (s_requests t ! i)) path"
        using 1 by (auto simp: tip_ok_def)
      have "core_inv t" "publishing i s t" using 1 by simp_all
      then show ?thesis using False c1(1)
        by (simp add: wp_withM) (rule wp_weaken [OF wp_touch_tip [OF _ c1]], auto simp: publishing_touch Some)
    qed
  qed
  then show ?thesis by (simp add: publish_prompt_blocks_def wp_withM Let_def Some q(1))
qed

end
