(* ===== verification/Scheduler_Settle.thy ===== *)
theory Scheduler_Settle
  imports Scheduler_Publish
begin

text \<open>
  Settling an iteration under the invariant: all reservations are committed first, then every
  committed item is published. Between the two, \<open>mid_inv\<close> says what holds of the requests whose
  reservation is still pending and of those that are committed but not yet published. Neither step can
  fail, so a validated result is applied completely.
\<close>

subsection \<open>Between commit and publication\<close>

definition committed_ok :: "request_record \<Rightarrow> sequence_state \<Rightarrow> settled_inflight_item \<Rightarrow> bool" where
  "committed_ok r q item \<longleftrightarrow> \<not> sq_poisoned q \<and> sq_pending q = None \<and> sq_logical_length q = si_target_logical_length item \<and>
     (case si_kind item of
        Prefill \<Rightarrow> rq_state r = Prefilling \<and> rq_generated_token_ids r = [] \<and> si_target_logical_length item \<le> length (prompt r) \<and>
          (si_output item \<noteq> None \<longleftrightarrow> si_target_logical_length item = length (prompt r))
      | Decode \<Rightarrow> rq_state r = Decoding \<and> rq_prefill_cursor r = length (prompt r) \<and> rq_generated_token_ids r \<noteq> [] \<and>
          length (rq_generated_token_ids r) < max_new r \<and> si_output item \<noteq> None \<and>
          si_target_logical_length item = length (prompt r) + length (rq_generated_token_ids r))"

definition mid_ok :: "inflight_item list \<Rightarrow> settled_inflight_item list \<Rightarrow> request_record \<Rightarrow> bool" where
  "mid_ok fl cm r \<longleftrightarrow> (if rq_request_id r \<in> si_request_id ` set cm
     then \<forall>q. rq_sequence r = Some q \<longrightarrow> (\<forall>item\<in>set cm. si_request_id item = rq_request_id r \<longrightarrow> committed_ok r q item)
     else flow_ok fl r)"

definition mid_inv :: "inflight_item list \<Rightarrow> settled_inflight_item list \<Rightarrow> scheduler \<Rightarrow> bool" where
  "mid_inv fl cm s \<longleftrightarrow> core_inv s \<and> distinct (map fi_request_id fl @ map si_request_id cm) \<and>
     fi_request_id ` set fl \<union> si_request_id ` set cm \<subseteq> active_ids (s_requests s) \<and>
     (\<forall>r\<in>set (s_requests s). mid_ok fl cm r)"

lemma mid_inv_start: "core_inv s \<Longrightarrow> flow_inv fl s \<Longrightarrow> mid_inv fl [] s"
  by (simp add: mid_inv_def flow_inv_def mid_ok_def)

lemma mid_inv_end: "mid_inv [] [] s \<Longrightarrow> core_inv s \<and> flow_inv [] s"
  by (simp add: mid_inv_def flow_inv_def mid_ok_def)

lemma active_ids_frame:
  assumes "inside s t"
  shows "active_ids (s_requests t) = active_ids (s_requests s)"
proof -
  have "active_ids (map strip rs) = active_ids rs" for rs
    by (simp add: active_ids_def Compr_image_eq image_image strip_def)
  then show ?thesis using assms unfolding inside_def by metis
qed

text \<open>What the validation of the result establishes for each item.\<close>

definition settles :: "scheduler \<Rightarrow> inflight_item \<Rightarrow> settled_inflight_item \<Rightarrow> bool" where
  "settles s item st \<longleftrightarrow> si_request_id st = fi_request_id item \<and> si_kind st = fi_kind item \<and>
     si_target_logical_length st = fi_target_logical_length item \<and> (si_output st \<noteq> None \<longleftrightarrow> fi_output_slot item \<noteq> None) \<and>
     (fi_kind item = Prefill \<longrightarrow> (\<exists>r\<in>set (s_requests s). rq_request_id r = fi_request_id item \<and> rq_state r = Prefilling))"

lemma prevalidate_item_settles:
  assumes "prevalidate_item s result item = Inr st"
    and "fi_kind item = Prefill \<Longrightarrow> \<exists>r\<in>set (s_requests s). rq_request_id r = fi_request_id item \<and> rq_state r = Prefilling"
  shows "settles s item st"
  using assms by (auto simp: prevalidate_item_def settles_def Let_def split: option.splits)

lemma flow_committed:
  assumes ph: "phase_ok r q" and fl: "flight_ok r q item" and pre: "fi_kind item = Prefill \<Longrightarrow> rq_state r = Prefilling"
    and st: "si_kind st = fi_kind item" "si_target_logical_length st = fi_target_logical_length item" "si_output st \<noteq> None \<longleftrightarrow> fi_output_slot item \<noteq> None"
    and q': "sq_pending q' = None" "sq_poisoned q' = sq_poisoned q" "sq_logical_length q' = fi_target_logical_length item"
  shows "committed_ok (r\<lparr>rq_sequence := z\<rparr>) q' st"
proof (cases "fi_kind item")
  case Prefill
  then show ?thesis using ph fl pre st q' by (auto simp: committed_ok_def phase_ok_def flight_ok_def)
next
  case Decode
  then have r: "rq_state r = Decoding" "fi_target_logical_length item = sq_logical_length q + 1" "fi_output_slot item \<noteq> None"
    using fl by (auto simp: flight_ok_def)
  then have p: "\<not> sq_poisoned q" "rq_prefill_cursor r = length (prompt r)" "rq_generated_token_ids r \<noteq> []"
    "length (rq_generated_token_ids r) < max_new r" "sq_logical_length q = length (prompt r) + length (rq_generated_token_ids r) - 1"
    using ph by (auto simp: phase_ok_def)
  then have "fi_target_logical_length item = length (prompt r) + length (rq_generated_token_ids r)"
    using r(2) by (cases "rq_generated_token_ids r") auto
  then show ?thesis using Decode r p st q' by (simp add: committed_ok_def)
qed

lemma mid_item:
  assumes inv: "mid_inv (item # fl) cm s"
  obtains i q where "record_index s (fi_request_id item) = Some i" and "i < length (s_requests s)"
    and "rq_request_id (s_requests s ! i) = fi_request_id item" and "rq_sequence (s_requests s ! i) = Some q"
    and "phase_ok (s_requests s ! i) q" and "flight_ok (s_requests s ! i) q item"
proof -
  have core: "core_inv s" and "fi_request_id item \<in> active_ids (s_requests s)" using inv by (auto simp: mid_inv_def)
  then obtain i where i: "i < length (s_requests s)" "\<not> is_waiting (s_requests s ! i)"
    "rq_request_id (s_requests s ! i) = fi_request_id item" by (auto simp: active_ids_def in_set_conv_nth)
  obtain q where q: "rq_sequence (s_requests s ! i) = Some q" using core_active(3) [OF core i(1,2)] by blast
  have "fi_request_id item \<notin> si_request_id ` set cm" using inv by (auto simp: mid_inv_def)
  then have "flow_ok (item # fl) (s_requests s ! i)" using inv i by (auto simp: mid_inv_def mid_ok_def split: if_splits)
  then have "phase_ok (s_requests s ! i) q" "flight_ok (s_requests s ! i) q item" using q i(3) by (auto simp: flow_ok_def)
  then show ?thesis using that record_index_of [OF core_ids [OF core] i(1)] i q by simp
qed

lemma mid_commit:
  assumes inv: "mid_inv (item # fl) cm s" and i: "i < length (s_requests s)" "rq_request_id (s_requests s ! i) = fi_request_id item"
    and t: "core_inv t" "t = with_seq i q' p' s" and st: "si_request_id st = fi_request_id item"
    and ok: "committed_ok ((s_requests s ! i)\<lparr>rq_sequence := Some q'\<rparr>) q' st"
  shows "mid_inv fl (cm @ [st]) t"
proof -
  have core: "core_inv s" using inv by (simp add: mid_inv_def)
  have d: "distinct (map rq_request_id (s_requests s))" by (rule core_ids [OF core])
  have new: "fi_request_id item \<notin> fi_request_id ` set fl" "fi_request_id item \<notin> si_request_id ` set cm" using inv by (auto simp: mid_inv_def)
  have "mid_ok fl (cm @ [st]) r" if r: "r \<in> set (s_requests t)" for r
  proof -
    obtain j where j: "j < length (s_requests s)" "r = s_requests t ! j" using r t(2) by (auto simp: in_set_conv_nth)
    show ?thesis
    proof (cases "j = i")
      case True
      then have r: "r = (s_requests s ! i)\<lparr>rq_sequence := Some q'\<rparr>" using j t(2) i by simp
      have "\<forall>it\<in>set cm. si_request_id it \<noteq> rq_request_id r" using new(2) i(2) r by force
      then show ?thesis using r ok st i(2) by (auto simp: mid_ok_def)
    next
      case False
      then have r: "r = s_requests s ! j" using j t(2) by simp
      have ne: "rq_request_id r \<noteq> fi_request_id item" using d i j(1) False r by (metis distinct_conv_nth length_map nth_map)
      have "mid_ok (item # fl) cm r" using inv j(1) r by (simp add: mid_inv_def)
      then show ?thesis using ne st by (auto simp: mid_ok_def flow_ok_def split: if_splits)
    qed
  qed
  moreover have "active_ids (s_requests t) = active_ids (s_requests s)" unfolding t(2)
    using same_books_ids(2) [OF i(1), of "(s_requests s ! i)\<lparr>rq_sequence := Some q'\<rparr>"] by (simp add: same_books_def)
  moreover have "distinct (map fi_request_id fl @ map si_request_id (cm @ [st]))"
    "fi_request_id ` set fl \<union> si_request_id ` set (cm @ [st]) \<subseteq> active_ids (s_requests s)"
    using inv new st by (auto simp: mid_inv_def)
  ultimately show ?thesis unfolding mid_inv_def using t(1) by simp
qed

lemma settles_strip:
  assumes "inside s t" and "settles s item st"
  shows "settles t item st"
proof -
  have "\<exists>r\<in>set (s_requests t). rq_request_id r = fi_request_id item \<and> rq_state r = Prefilling"
    if "r \<in> set (s_requests s)" "rq_request_id r = fi_request_id item" "rq_state r = Prefilling" for r
  proof -
    obtain j where j: "j < length (s_requests s)" "r = s_requests s ! j" using \<open>r \<in> set (s_requests s)\<close> by (auto simp: in_set_conv_nth)
    have "s_requests t ! j \<in> set (s_requests t)" using inside_index(1) [OF assms(1)] j(1) by simp
    then show ?thesis using strip_fields(1,2) [OF inside_index(3) [OF assms(1) j(1)]] that j(2) by metis
  qed
  then show ?thesis using assms(2) unfolding settles_def by blast
qed

lemma wp_commit_reservation:
  assumes inv: "mid_inv (item # fl) cm s" and st: "settles s item st"
  shows "wp (commit_reservation item) (\<lambda>_ t. mid_inv fl (cm @ [st]) t \<and> inside s t) (\<lambda>_ _. False) s"
proof -
  have core: "core_inv s" using inv by (simp add: mid_inv_def)
  obtain i q where i: "record_index s (fi_request_id item) = Some i" "i < length (s_requests s)"
    "rq_request_id (s_requests s ! i) = fi_request_id item" and q: "rq_sequence (s_requests s ! i) = Some q"
    and ok: "phase_ok (s_requests s ! i) q" "flight_ok (s_requests s ! i) q item" by (rule mid_item [OF inv])
  have v: "validate_reservation q (fi_reservation item) = Inr ()" "sr_target_logical_length (fi_reservation item) = fi_target_logical_length item"
    using ok(2) by (auto simp: flight_ok_def)
  have pre: "rq_state (s_requests s ! i) = Prefilling" if k: "fi_kind item = Prefill"
  proof -
    obtain j where j: "j < length (s_requests s)" "rq_request_id (s_requests s ! j) = fi_request_id item" "rq_state (s_requests s ! j) = Prefilling"
      using st k by (auto simp: settles_def in_set_conv_nth)
    then have "j = i" using record_index_of [OF core_ids [OF core] j(1)] i(1) by simp
    then show ?thesis using j by simp
  qed
  show ?thesis unfolding commit_reservation_def wp_withM i(1) ok_or_eq wp_bindM [of "tryM _"] wp_tryM sum.case q
  proof (rule wp_callI [OF wp_request_commit [OF core i(2) q v(1)]], simp, goal_cases)
    case (1 c t)
    then obtain q' p' where t: "core_inv t" "t = with_seq i q' p' s" "pool_same (s_pool s) p'"
      and q': "sq_pending q' = None" "sq_poisoned q' = sq_poisoned q" "sq_logical_length q' = fi_target_logical_length item"
        "rc_logical_length c = fi_target_logical_length item" using v(2) by auto
    have "committed_ok ((s_requests s ! i)\<lparr>rq_sequence := Some q'\<rparr>) q' st"
      by (rule flow_committed [OF ok pre]) (use st q' in \<open>auto simp: settles_def\<close>)
    then have "mid_inv fl (cm @ [st]) t" using mid_commit [OF inv i(2,3) t(1,2)] st by (simp add: settles_def)
    moreover have "inside s t" unfolding t(2) by (rule with_seq_inside [OF i(2) t(3)])
    ultimately show ?case using q'(4) by (simp add: wp_failIf)
  qed
qed

lemma wp_commit_items:
  assumes "mid_inv fl cm s" and "list_all2 (settles s) fl sts"
  shows "wp (commit_items (zip fl sts) now_ns cm []) (\<lambda>r t. r = (cm @ sts, []) \<and> mid_inv [] (cm @ sts) t \<and> inside s t) (\<lambda>_ _. False) s"
  using assms
proof (induction fl arbitrary: cm sts s)
  case Nil
  then show ?case by (simp add: wp_ret)
next
  case (Cons item fl)
  obtain st sts' where sts: "sts = st # sts'" and st: "settles s item st" and rest: "list_all2 (settles s) fl sts'"
    using Cons.prems(2) by (auto simp: list_all2_Cons1)
  show ?case unfolding sts zip_Cons_Cons commit_items.simps wp_catchM
  proof (rule wp_weaken [OF wp_commit_reservation [OF Cons.prems(1) st]], goal_cases)
    case (1 _ t)
    have "list_all2 (settles t) fl sts'" by (rule list_all2_mono [OF rest]) (use 1 settles_strip in blast)
    with Cons.IH [of "cm @ [st]" t sts'] 1 show ?case unfolding sum.case
      by (auto elim!: wp_weaken intro: inside_trans)
  qed simp
qed

subsection \<open>Publication\<close>

text \<open>Every request is live or has its completion in the outbox, and no operation below loses or
  duplicates one.\<close>

definition known_ids :: "scheduler \<Rightarrow> request_id multiset" where
  "known_ids s = mset (map rq_request_id (s_requests s)) + mset (map rc_request_id (s_completion_outbox s))"

definition kept :: "scheduler \<Rightarrow> scheduler \<Rightarrow> bool" where
  "kept s t \<longleftrightarrow> s_config t = s_config s \<and> s_inflight t = s_inflight s \<and>
     s_last_now_ns t = s_last_now_ns s \<and> s_accepting t = s_accepting s \<and> s_next_request_id t = s_next_request_id s \<and>
     s_next_iteration_id t = s_next_iteration_id s \<and> s_completion_outbox_capacity t = s_completion_outbox_capacity s \<and>
     s_terminal_capacity t = s_terminal_capacity s \<and> s_prefill_plateau t = s_prefill_plateau s \<and>
     s_atomic_prefill_chunks t = s_atomic_prefill_chunks s \<and> s_prefill_coalescing t = s_prefill_coalescing s \<and>
     s_prefill_burst t = s_prefill_burst s \<and> s_aging_override_last_iteration t = s_aging_override_last_iteration s \<and>
     (s_prefix_cache t = None \<longleftrightarrow> s_prefix_cache s = None) \<and> known_ids t = known_ids s"

lemma kept_refl [simp]: "kept s s"
  by (simp add: kept_def)

lemma kept_trans: "kept s t \<Longrightarrow> kept t u \<Longrightarrow> kept s u"
  by (simp add: kept_def)

lemma same_frame_kept: "same_frame s t \<Longrightarrow> known_ids t = known_ids s \<Longrightarrow> kept s t"
  by (simp add: same_frame_def kept_def)

lemma inside_kept:
  assumes "inside s t"
  shows "kept s t"
proof (rule same_frame_kept)
  show "same_frame s t" using assms by (simp add: inside_def)
  show "known_ids t = known_ids s"
    using inside_near [OF assms] by (simp add: known_ids_def near_def flip: mset_map)
qed

lemma left_known:
  assumes "left i reason now_ns s t" and "i < length (s_requests s)"
  shows "known_ids t = known_ids s"
proof -
  have "add_mset (rq_request_id (s_requests s ! i)) (mset (map rq_request_id (swap_remove i (s_requests s)))) = mset (map rq_request_id (s_requests s))"
    using arg_cong [OF mset_swap_remove [OF assms(2)], of "image_mset rq_request_id"] by simp
  then show ?thesis using left_fields(1,2) [OF assms(1)] by (simp add: known_ids_def)
qed

lemma left_kept: "left i reason now_ns s t \<Longrightarrow> i < length (s_requests s) \<Longrightarrow> kept s t"
  by (rule same_frame_kept [OF left_frame left_known])

lemma metric_kept: "metric_only s t \<Longrightarrow> kept s t"
  by (auto simp: metric_only_def kept_def known_ids_def)

lemma kept_update [simp]:
  "i < length (s_requests s) \<Longrightarrow> rq_request_id r' = rq_request_id (s_requests s ! i) \<Longrightarrow> kept s (s\<lparr>s_requests := (s_requests s)[i := r']\<rparr>)"
  by (simp add: kept_def known_ids_def map_update list_update_id2 flip: mset_map)

lemma publishing_kept: "publishing i s t \<Longrightarrow> s_prefix_cache s \<noteq> None \<Longrightarrow> i < length (s_requests s) \<Longrightarrow> kept s t"
  by (auto simp: publishing_def kept_def known_ids_def map_update list_update_id2 simp flip: mset_map)

lemma kept_le: "kept s t \<Longrightarrow> sched_le s t"
  by (simp add: kept_def sched_le_def clock_le_def)

lemma policies_kept: "kept s t \<Longrightarrow> policies_ok t = policies_ok s"
  by (simp add: kept_def policies_ok_def)

lemma core_mod:
  assumes inv: "core_inv s" and i: "i < length (s_requests s)" and sb: "same_books (s_requests s ! i) r'"
    and r': "rq_sequence r' = rq_sequence (s_requests s ! i)" "linked_ok (s_prefix_cache s) r'" "rec_ok (s_config s) r'"
  shows "core_inv (s\<lparr>s_requests := (s_requests s)[i := r']\<rparr>)"
proof -
  have "kv_part (s_pool s) ((s_requests s)[i := r']) (s_prefix_cache s)"
    by (rule kv_part_same_seqs [OF _ i r'(1,2)]) (use inv in \<open>simp add: core_inv_def\<close>)
  then show ?thesis using core_update [OF inv i sb r'(3), of "s_pool s" "s_prefix_cache s"] by simp
qed

lemma mid_head:
  assumes inv: "mid_inv [] (st # cm) s"
  obtains i q where "record_index s (si_request_id st) = Some i" and "i < length (s_requests s)"
    and "rq_request_id (s_requests s ! i) = si_request_id st" and "rq_sequence (s_requests s ! i) = Some q"
    and "committed_ok (s_requests s ! i) q st"
proof -
  have core: "core_inv s" and "si_request_id st \<in> active_ids (s_requests s)" using inv by (auto simp: mid_inv_def)
  then obtain i where i: "i < length (s_requests s)" "\<not> is_waiting (s_requests s ! i)"
    "rq_request_id (s_requests s ! i) = si_request_id st" by (auto simp: active_ids_def in_set_conv_nth)
  obtain q where q: "rq_sequence (s_requests s ! i) = Some q" using core_active(3) [OF core i(1,2)] by blast
  have "mid_ok [] (st # cm) (s_requests s ! i)" using inv i(1) by (simp add: mid_inv_def)
  then have "committed_ok (s_requests s ! i) q st" using q i(3) by (auto simp: mid_ok_def)
  then show ?thesis using that record_index_of [OF core_ids [OF core] i(1)] i q by simp
qed

lemma mid_other:
  "mid_ok [] (st # cm) r \<Longrightarrow> rq_request_id r \<noteq> si_request_id st \<Longrightarrow> mid_ok [] cm r"
  by (auto simp: mid_ok_def split: if_splits)

lemma mid_departed:
  assumes inv: "mid_inv [] (st # cm) s" and i: "i < length (s_requests s)" "rq_request_id (s_requests s ! i) = si_request_id st"
    and t: "core_inv t" "s_requests t = swap_remove i ((s_requests s)[i := r'])"
  shows "mid_inv [] cm t"
proof -
  have core: "core_inv s" using inv by (simp add: mid_inv_def)
  have st: "set (s_requests s) = insert (s_requests s ! i) (set (s_requests t))"
    using swap_remove_set [OF i(1)] t(2) by simp
  have other: "rq_request_id r \<noteq> si_request_id st" if "r \<in> set (s_requests t)" for r
  proof -
    have "rq_request_id r \<in> rq_request_id ` set (swap_remove i (s_requests s))" using that t(2) by simp
    then show ?thesis using swap_remove_distinct_map(2) [OF i(1) core_ids [OF core]] i(2) by metis
  qed
  have "si_request_id ` set cm \<subseteq> active_ids (s_requests t)"
  proof
    fix x assume x: "x \<in> si_request_id ` set cm"
    have "si_request_id st \<notin> si_request_id ` set cm" "si_request_id ` set cm \<subseteq> active_ids (s_requests s)"
      using inv by (simp_all add: mid_inv_def)
    then have "x \<in> active_ids (s_requests s)" "x \<noteq> si_request_id st" using x by blast+
    then obtain r where r: "r \<in> set (s_requests s)" "\<not> is_waiting r" "rq_request_id r = x" "r \<noteq> s_requests s ! i"
      using i(2) by (auto simp: active_ids_def)
    then have "r \<in> set (s_requests t)" unfolding st by simp
    then show "x \<in> active_ids (s_requests t)" unfolding active_ids_def using r(2,3) by blast
  qed
  moreover have "mid_ok [] cm r" if "r \<in> set (s_requests t)" for r
  proof (rule mid_other [OF _ other [OF that]])
    have "r \<in> set (s_requests s)" using that unfolding st by simp
    then show "mid_ok [] (st # cm) r" using inv by (simp add: mid_inv_def)
  qed
  ultimately show ?thesis using inv t(1) by (simp add: mid_inv_def)
qed

lemma mid_settled:
  assumes inv: "mid_inv [] (st # cm) s" and i: "i < length (s_requests s)" "rq_request_id (s_requests s ! i) = si_request_id st"
    and t: "core_inv t" "s_requests t = (s_requests s)[i := r']" and r': "same_books (s_requests s ! i) r'" "flow_ok [] r'"
  shows "mid_inv [] cm t"
proof -
  have core: "core_inv s" using inv by (simp add: mid_inv_def)
  have new: "si_request_id st \<notin> si_request_id ` set cm" using inv by (auto simp: mid_inv_def)
  have "mid_ok [] cm r" if r: "r \<in> set (s_requests t)" for r
  proof (cases "r = r'")
    case True
    then have "rq_request_id r = si_request_id st" using i(2) r'(1) by (simp add: same_books_def)
    then show ?thesis using True new r'(2) by (simp add: mid_ok_def)
  next
    case False
    then obtain j where j: "j < length (s_requests s)" "r = s_requests s ! j" "j \<noteq> i"
      using r i(1) unfolding t(2) by (auto simp: in_set_conv_nth nth_list_update split: if_splits)
    then have "rq_request_id r \<noteq> si_request_id st" using core_ids [OF core] i by (metis distinct_conv_nth length_map nth_map)
    moreover have "mid_ok [] (st # cm) r" using inv j by (simp add: mid_inv_def)
    ultimately show ?thesis by (rule mid_other [rotated])
  qed
  then show ?thesis using inv t same_books_ids(2) [OF i(1) r'(1)] by (simp add: mid_inv_def)
qed

lemma wp_on_sched: "wp (on_sched m) Q E (s, u) = wp m (\<lambda>x t. Q x (t, u)) (\<lambda>e t. E e (t, u)) s"
  by (simp add: on_sched_def wp_zoomM)

lemma wp_push_token [wp_simps]: "wp (push_token e) Q E (s, u) = Q () (s, u\<lparr>iu_token_events := iu_token_events u @ [e]\<rparr>)"
  by (simp add: push_token_def wp_modM)

text \<open>Item \<open>st\<close> is settled, and nothing but tokens was added to the updates.\<close>

definition settled_to :: "settled_inflight_item list \<Rightarrow> scheduler \<Rightarrow> iteration_updates \<Rightarrow> scheduler \<times> iteration_updates \<Rightarrow> bool" where
  "settled_to cm s u w \<longleftrightarrow> mid_inv [] cm (fst w) \<and> kept s (fst w) \<and>
     iu_settlement_failures (snd w) = iu_settlement_failures u \<and> iu_completions (snd w) = iu_completions u"

lemma wp_settle_finish:
  assumes inv: "mid_inv [] (st # cm) s" and i: "i < length (s_requests s)" "rq_request_id (s_requests s ! i) = si_request_id st"
    and t: "core_inv t" "kept s t" "s_requests t = (s_requests s)[i := r']"
    and r': "rq_request_id r' = si_request_id st" "valid_transition (rq_state r') (reason_state reason)"
  shows "wp (on_sched (finish_live_request (si_request_id st) reason now_ns)) (\<lambda>_. settled_to cm s u) (\<lambda>_ _. False) (t, u)"
proof -
  have it: "i < length (s_requests t)" "s_requests t ! i = r'" using i t(3) by simp_all
  then have idx: "record_index t (si_request_id st) = Some i" using record_index_of [OF core_ids [OF t(1)] it(1)] r'(1) by simp
  show ?thesis unfolding wp_on_sched
  proof (rule wp_weaken [OF wp_finish_live_request [OF t(1) idx]], goal_cases)
    case (2 _ v)
    then have v: "core_inv v" "s_requests v = swap_remove i ((s_requests s)[i := r'])" "kept s v"
      using left_fields(1) t(3) kept_trans [OF t(2) left_kept] it(1) by auto
    then show ?case using mid_departed [OF inv i v(1,2)] by (simp add: settled_to_def)
  qed (use it r' in simp_all)
qed

lemma wp_publish_output:
  assumes inv: "mid_inv [] (st # cm) s" and i: "i < length (s_requests s)" "rq_request_id (s_requests s ! i) = si_request_id st"
    and t: "core_inv t" "kept s t" "s_requests t = (s_requests s)[i := r]" and sb: "same_books (s_requests s ! i) r"
    and q: "rq_sequence r = Some q" and ok: "committed_ok r q st" "si_kind st = Prefill \<Longrightarrow> rq_prefill_cursor r = si_target_logical_length st"
      "\<not> rq_cancellation_deferred r" and out: "si_output st = Some out"
  shows "wp (publish_output (si_request_id st) i out now_ns) (\<lambda>_. settled_to cm s u) (\<lambda>_ _. False) (t, u)"
proof -
  let ?g = "rq_generated_token_ids r @ [io_token_id out]"
  let ?r1 = "r\<lparr>rq_generated_token_ids := ?g\<rparr>" and ?r2 = "r\<lparr>rq_generated_token_ids := ?g, rq_state := Decoding, rq_ready_since_ns := now_ns\<rparr>"
  have it: "i < length (s_requests t)" "s_requests t ! i = r" using i t(3) by simp_all
  have id: "rq_request_id r = si_request_id st" using sb i(2) by (simp add: same_books_def)
  have st: "rq_state r \<in> {Prefilling, Decoding}" using ok(1) by (cases "si_kind st") (auto simp: committed_ok_def)
  have rec: "rec_ok (s_config t) r" and lk: "linked_ok (s_prefix_cache t) r" using core_nth [OF t(1) it(1)] core_linked [OF t(1) it(1)] it(2) by simp_all
  have c1: "core_inv (t\<lparr>s_requests := (s_requests t)[i := ?r1]\<rparr>)" and c2: "core_inv (t\<lparr>s_requests := (s_requests t)[i := ?r2]\<rparr>)"
    using rec lk st q by (intro core_mod [OF t(1) it(1)]; auto simp: it(2) same_books_def rec_ok_def)+
  have g: "length ?g \<le> max_new r"
    using ok(1) rec by (cases "si_kind st") (auto simp: committed_ok_def rec_ok_def)
  have flow: "flow_ok [] ?r2" if "length ?g \<noteq> max_new r"
    using ok q out that g by (cases "si_kind st") (auto simp: flow_ok_def phase_ok_def committed_ok_def)
  have u1: "s_requests (t\<lparr>s_requests := (s_requests t)[i := ?r1]\<rparr>) = (s_requests s)[i := ?r1]" using t(3) by simp
  have fin: "wp (on_sched (finish_live_request (si_request_id st) reason now_ns)) (\<lambda>_. settled_to cm s v) (\<lambda>_ _. False)
      (t\<lparr>s_requests := (s_requests t)[i := ?r1]\<rparr>, v)" if "reason \<in> {ReasonStop, ReasonLength}" for reason v
    by (rule wp_settle_finish [OF inv i c1 _ u1]) (use it t(2) id st that kept_trans [OF t(2) kept_update] in \<open>auto simp: valid_transition_def\<close>)
  have dec: "settled_to cm s v (t\<lparr>s_requests := (s_requests t)[i := ?r2]\<rparr>, v)" if "length ?g \<noteq> max_new r" for v
  proof -
    have "kept s (t\<lparr>s_requests := (s_requests t)[i := ?r2]\<rparr>)" by (rule kept_trans [OF t(2) kept_update]) (use it in simp_all)
    moreover have "mid_inv [] cm (t\<lparr>s_requests := (s_requests t)[i := ?r2]\<rparr>)"
      by (rule mid_settled [OF inv i c2 _ _ flow [OF that]]) (use t(3) sb st in \<open>auto simp: same_books_def\<close>)
    ultimately show ?thesis by (simp add: settled_to_def)
  qed
  let ?e = "\<lparr>te_request_id = si_request_id st, te_token_id = io_token_id out, te_generated_index = length (rq_generated_token_ids r)\<rparr>"
  let ?u = "u\<lparr>iu_token_events := iu_token_events u @ [?e]\<rparr>"
  have same: "settled_to cm s ?u w = settled_to cm s u w" for w by (simp add: settled_to_def)
  have upd: "t\<lparr>s_requests := (s_requests t)[i := ?r1, i := ((s_requests t)[i := ?r1] ! i)\<lparr>rq_state := Decoding, rq_ready_since_ns := now_ns\<rparr>]\<rparr> =
      t\<lparr>s_requests := (s_requests t)[i := ?r2]\<rparr>" using it(1) by simp
  show ?thesis
    using fin [of ReasonStop ?u] fin [of ReasonLength ?u] dec [of ?u] it
    by (simp add: publish_output_def wp_withM wp_bindM wp_on_sched wp_mod_request wp_push_token same Let_def)
qed

text \<open>The record of an item whose cursor has advanced and whose blocks are listed.\<close>

definition advanced :: "nat \<Rightarrow> settled_inflight_item \<Rightarrow> scheduler \<Rightarrow> scheduler \<Rightarrow> bool" where
  "advanced i st s t \<longleftrightarrow> core_inv t \<and> kept s t \<and> (\<exists>r q. s_requests t = (s_requests s)[i := r] \<and> same_books (s_requests s ! i) r \<and>
     rq_sequence r = Some q \<and> committed_ok r q st \<and> (si_kind st = Prefill \<longrightarrow> rq_prefill_cursor r = si_target_logical_length st) \<and>
     \<not> rq_cancellation_deferred r)"

lemma wp_advance:
  assumes core: "core_inv s" and i: "i < length (s_requests s)" and q: "rq_sequence (s_requests s ! i) = Some q"
    and ok: "committed_ok (s_requests s ! i) q st" and nc: "\<not> rq_cancellation_deferred (s_requests s ! i)"
  shows "wp (if si_kind st = Prefill
            then bindM (on_sched (mod_request i (\<lambda>r. r\<lparr>rq_prefill_cursor := si_target_logical_length st\<rparr>))) (\<lambda>_.
                 on_sched (publish_prompt_blocks i))
            else ret ()) (\<lambda>_ w. snd w = u \<and> advanced i st s (fst w)) (\<lambda>_ _. False) (s, u)"
proof (cases "si_kind st")
  case Decode
  have "advanced i st s s" unfolding advanced_def using core q ok nc Decode
    by (intro conjI exI [of _ "s_requests s ! i"] exI [of _ q]) (simp_all add: same_books_def)
  then show ?thesis using Decode by (simp add: wp_ret)
next
  case Prefill
  let ?r1 = "(s_requests s ! i)\<lparr>rq_prefill_cursor := si_target_logical_length st\<rparr>"
  let ?s1 = "s\<lparr>s_requests := (s_requests s)[i := ?r1]\<rparr>"
  have st: "rq_state (s_requests s ! i) = Prefilling" "sq_logical_length q = si_target_logical_length st" "sq_pending q = None"
    "\<not> sq_poisoned q" "si_target_logical_length st \<le> length (prompt (s_requests s ! i))"
    using ok Prefill by (auto simp: committed_ok_def)
  have c1: "core_inv ?s1"
    by (rule core_mod [OF core i]) (use core_nth [OF core i] core_linked [OF core i] st(1) in \<open>auto simp: same_books_def rec_ok_def\<close>)
  have ok1: "committed_ok ?r1 q' st" if "same_progress q q'" for q'
    using ok Prefill that by (simp add: committed_ok_def same_progress_def)
  have adv: "advanced i st s t" if t: "core_inv t" "t = ?s1 \<or> s_prefix_cache ?s1 \<noteq> None \<and> publishing i ?s1 t" for t
  proof (cases "t = ?s1")
    case True
    show ?thesis unfolding advanced_def
      by (intro conjI exI [of _ ?r1] exI [of _ q]) (use True t(1) i nc q ok1 [of q] in \<open>simp_all add: same_books_def same_progress_def\<close>)
  next
    case False
    then obtain p c m d q0 q' tip lk where tt: "t = ?s1\<lparr>s_pool := p, s_prefix_cache := Some c, s_metrics := m, s_metrics_degraded := d,
       s_requests := (s_requests ?s1)[i := (s_requests ?s1 ! i)\<lparr>rq_sequence := Some q', rq_prefix_tip := tip, rq_prefix_linked := lk\<rparr>]\<rparr>"
       "rq_sequence (s_requests ?s1 ! i) = Some q0" "same_progress q0 q'" using t(2) unfolding publishing_def by blast
    have pq: "same_progress q q'" using tt(2,3) q i by simp
    let ?r = "?r1\<lparr>rq_sequence := Some q', rq_prefix_tip := tip, rq_prefix_linked := lk\<rparr>"
    have "committed_ok ?r q' st" using ok1 [OF pq] Prefill by (simp add: committed_ok_def)
    moreover have "s_requests t = (s_requests s)[i := ?r]" using tt(1) i by simp
    moreover have "kept s t"
      using publishing_kept [of i ?s1 t] t(2) False kept_trans [of s ?s1 t] i by simp
    ultimately show ?thesis unfolding advanced_def using t(1) nc
      by (intro conjI exI [of _ ?r] exI [of _ q']) (simp_all add: same_books_def)
  qed
  have "wp (publish_prompt_blocks i) (\<lambda>_ t. core_inv t \<and> (t = ?s1 \<or> s_prefix_cache ?s1 \<noteq> None \<and> publishing i ?s1 t)) (\<lambda>_ _. False) ?s1"
    by (rule wp_publish_prompt_blocks [OF c1]) (use i q st in simp_all)
  then show ?thesis using Prefill adv
    by (auto simp: wp_bindM wp_on_sched wp_mod_request elim!: wp_weaken)
qed

lemma wp_publish_committed_item:
  assumes inv: "mid_inv [] (st # cm) s"
  shows "wp (publish_committed_item st now_ns) (\<lambda>_. settled_to cm s u) (\<lambda>_ _. False) (s, u)"
proof -
  have core: "core_inv s" using inv by (simp add: mid_inv_def)
  obtain i q where i: "record_index s (si_request_id st) = Some i" "i < length (s_requests s)" "rq_request_id (s_requests s ! i) = si_request_id st"
    and q: "rq_sequence (s_requests s ! i) = Some q" and ok: "committed_ok (s_requests s ! i) q st" by (rule mid_head [OF inv])
  have st: "rq_state (s_requests s ! i) \<in> {Prefilling, Decoding}" using ok by (cases "si_kind st") (auto simp: committed_ok_def)
  show ?thesis
  proof (cases "rq_cancellation_deferred (s_requests s ! i)")
    case True
    have "wp (on_sched (finish_live_request (si_request_id st) ReasonCancelled now_ns)) (\<lambda>_. settled_to cm s u) (\<lambda>_ _. False) (s, u)"
      by (rule wp_settle_finish [OF inv i(2,3) core, of "s_requests s ! i"]) (use st i(3) in \<open>auto simp: valid_transition_def\<close>)
    then show ?thesis using True i(1) by (simp add: publish_committed_item_def wp_withM wp_bindM wp_tryM)
  next
    case False
    have "wp (bindM (if si_kind st = Prefill
            then bindM (on_sched (mod_request i (\<lambda>r. r\<lparr>rq_prefill_cursor := si_target_logical_length st\<rparr>))) (\<lambda>_.
                 on_sched (publish_prompt_blocks i))
            else ret ()) (\<lambda>_. case si_output st of
             None \<Rightarrow> on_sched (mod_request i (\<lambda>r. r\<lparr>rq_state := Prefilling, rq_ready_since_ns := now_ns\<rparr>))
           | Some out \<Rightarrow> publish_output (si_request_id st) i out now_ns)) (\<lambda>_. settled_to cm s u) (\<lambda>_ _. False) (s, u)"
    proof (rule wp_callI [OF wp_advance [OF core i(2) q ok False]], simp, goal_cases)
      case (1 _ w)
      then obtain t where w: "w = (t, u)" and ad: "advanced i st s t" by (cases w) auto
      then obtain r q' where t: "core_inv t" "kept s t" "s_requests t = (s_requests s)[i := r]" and sb: "same_books (s_requests s ! i) r"
        and r: "rq_sequence r = Some q'" "committed_ok r q' st" "si_kind st = Prefill \<Longrightarrow> rq_prefill_cursor r = si_target_logical_length st"
          "\<not> rq_cancellation_deferred r" unfolding advanced_def by blast
      show ?case
      proof (cases "si_output st")
        case (Some out)
        then show ?thesis using wp_publish_output [OF inv i(2,3) t sb r Some] w by simp
      next
        case None
        let ?r2 = "r\<lparr>rq_state := Prefilling, rq_ready_since_ns := now_ns\<rparr>"
        let ?t2 = "t\<lparr>s_requests := (s_requests t)[i := ?r2]\<rparr>"
        have it: "i < length (s_requests t)" "s_requests t ! i = r" using i t(3) by simp_all
        have k: "si_kind st = Prefill" "rq_state r = Prefilling" using r(2) None by (cases "si_kind st"; auto simp: committed_ok_def)+
        have c2: "core_inv ?t2"
          by (rule core_mod [OF t(1) it(1)]) (use core_nth [OF t(1) it(1)] core_linked [OF t(1) it(1)] it(2) k in \<open>auto simp: same_books_def rec_ok_def\<close>)
        have fl: "flow_ok [] ?r2" using r k None by (auto simp: flow_ok_def phase_ok_def committed_ok_def)
        have "mid_inv [] cm ?t2"
          by (rule mid_settled [OF inv i(2,3) c2 _ _ fl]) (use t(3) sb k in \<open>auto simp: same_books_def\<close>)
        then have "settled_to cm s u (?t2, u)" using kept_trans [OF t(2) kept_update] it by (simp add: settled_to_def)
        then show ?thesis using None w it by (simp add: wp_on_sched wp_mod_request)
      qed
    qed
    then show ?thesis using False i(1) by (simp add: publish_committed_item_def wp_withM wp_bindM [of "tryM _"] wp_tryM)
  qed
qed

lemma wp_containing:
  assumes "wp m Q (\<lambda>_ _. False) w"
  shows "wp (containing x now_ns m) Q E w"
  unfolding containing_def wp_catchM by (rule wp_weaken [OF assms]) (simp_all add: wp_ret)

lemma wp_publish_all:
  assumes "mid_inv [] cm s"
  shows "wp (forM cm (\<lambda>item. containing (si_request_id item) now_ns (publish_committed_item item now_ns)))
    (\<lambda>_. settled_to [] s u) (\<lambda>_ _. False) (s, u)"
  using assms
proof (induction cm arbitrary: s u)
  case Nil
  then show ?case by (simp add: wp_ret settled_to_def)
next
  case (Cons st cm)
  show ?case unfolding forM.simps
  proof (rule wp_callI [OF wp_containing [OF wp_publish_committed_item [OF Cons.prems]]], goal_cases)
    case (2 _ w)
    then have w: "mid_inv [] cm (fst w)" "kept s (fst w)" "iu_settlement_failures (snd w) = iu_settlement_failures u"
      "iu_completions (snd w) = iu_completions u" by (simp_all add: settled_to_def)
    show ?case using Cons.IH [OF w(1), of "snd w"] unfolding prod.collapse
      by (rule wp_weaken) (use w kept_trans in \<open>auto simp: settled_to_def\<close>)
  qed simp
qed

lemma wp_bind_updates: "wp (bindM (modM f) g) Q E w = wp (g ()) Q E (f w)"
  by (simp add: wp_simps)

lemma wp_drain_updates:
  "wp (bindM drain_into_updates f) Q E (s, u) =
   wp (f ()) Q E (s\<lparr>s_completion_outbox := []\<rparr>, u\<lparr>iu_completions := iu_completions u @ s_completion_outbox s\<rparr>)"
  by (simp add: drain_into_updates_def wp_bindM wp_on_sched drain_completion_outbox_def wp_simps)

lemma resting_kept: "core_inv t \<Longrightarrow> flow_inv [] t \<Longrightarrow> kept s t \<Longrightarrow> policies_ok s \<Longrightarrow> s_inflight s = None \<Longrightarrow> resting t"
  using policies_kept [of s t] by (auto simp: resting_def kept_def)

lemma resting_drained: "resting s \<Longrightarrow> resting (s\<lparr>s_completion_outbox := []\<rparr>)"
  by (simp add: resting_def core_drained flow_inv_def policies_ok_def)

text \<open>A validated result is applied without a failure, and the scheduler is at rest again.\<close>

definition rested :: "scheduler \<Rightarrow> scheduler \<times> iteration_updates \<Rightarrow> bool" where
  "rested s w \<longleftrightarrow> resting (fst w) \<and> s_completion_outbox (fst w) = [] \<and> iu_settlement_failures (snd w) = [] \<and>
     core_inv ((fst w)\<lparr>s_completion_outbox := iu_completions (snd w)\<rparr>) \<and> kept s ((fst w)\<lparr>s_completion_outbox := iu_completions (snd w)\<rparr>)"

lemma wp_rested_metric:
  assumes "rested s (t, u)"
  shows "wp (on_sched (observe_metric m)) (\<lambda>_ w. rested s w \<and> snd w = u) E (t, u)"
    and "wp (on_sched (refresh_metric_gauges env)) (\<lambda>_ w. rested s w \<and> snd w = u) E (t, u)"
proof -
  have "rested s (v, u)" if v: "metric_only t v" for v
  proof -
    have "s_completion_outbox v = s_completion_outbox t" using v by (auto simp: metric_only_def)
    moreover have m: "metric_only (t\<lparr>s_completion_outbox := z\<rparr>) (v\<lparr>s_completion_outbox := z\<rparr>)" for z
    proof -
      obtain m d where "v = t\<lparr>s_metrics := m, s_metrics_degraded := d\<rparr>" using v by (auto simp: metric_only_def)
      then have "v\<lparr>s_completion_outbox := z\<rparr> = (t\<lparr>s_completion_outbox := z\<rparr>)\<lparr>s_metrics := m, s_metrics_degraded := d\<rparr>" by simp
      then show ?thesis unfolding metric_only_def by blast
    qed
    ultimately show ?thesis using assms resting_metric [OF v] metric_only_core [OF m] kept_trans [OF _ metric_kept [OF m], of s]
      by (simp add: rested_def)
  qed
  then show "wp (on_sched (observe_metric m)) (\<lambda>_ w. rested s w \<and> snd w = u) E (t, u)"
    "wp (on_sched (refresh_metric_gauges env)) (\<lambda>_ w. rested s w \<and> snd w = u) E (t, u)"
    by (auto simp: wp_on_sched intro!: wp_observe_metric wp_refresh_metric_gauges)
qed

lemma wp_settle_completed:
  assumes inv: "core_inv s" "flow_inv (fp_items inflight) s" "policies_ok s" "s_inflight s = None"
    and st: "list_all2 (settles s) (fp_items inflight) sts"
  shows "wp (settle_completed env result inflight batch sts now_ns) (\<lambda>_. rested s) (\<lambda>_ _. False) (s, updates_empty)"
proof -
  have commit: "wp (on_sched (commit_items (zip (fp_items inflight) sts) now_ns [] []))
      (\<lambda>r w. r = (sts, []) \<and> mid_inv [] sts (fst w) \<and> kept s (fst w) \<and> snd w = updates_empty) (\<lambda>_ _. False) (s, updates_empty)"
    unfolding wp_on_sched by (rule wp_weaken [OF wp_commit_items [OF mid_inv_start [OF inv(1,2)] st]]) (auto simp: inside_kept)
  show ?thesis unfolding settle_completed_def
  proof (rule wp_callI [OF commit], simp, goal_cases)
    case (1 r w)
    then obtain t where w: "w = (t, updates_empty)" and r: "r = (sts, [])" and t: "mid_inv [] sts t" "kept s t" by (cases w) auto
    let ?u = "updates_empty\<lparr>iu_settlement_failures := []\<rparr>"
    show ?case unfolding r w prod.case wp_bind_updates
    proof (simp only: simp_thms if_False, rule wp_callI [OF wp_publish_all [OF t(1)]], simp, goal_cases)
      case (1 _ w)
      obtain v x where w: "w = (v, x)" by (cases w)
      have v: "mid_inv [] [] v" "kept s v" "iu_settlement_failures x = []" "iu_completions x = []"
        using 1 w t(2) kept_trans by (auto simp: settled_to_def updates_empty_def)
      let ?v = "v\<lparr>s_completion_outbox := []\<rparr>"
      let ?x = "x\<lparr>iu_completions := iu_completions x @ s_completion_outbox v\<rparr>"
      have "resting v" by (rule resting_kept [OF _ _ v(2) inv(3,4)]) (use mid_inv_end [OF v(1)] in simp_all)
      then have rest: "rested s (?v, ?x)" using resting_drained [of v] v(2-4) by (simp add: rested_def resting_def)
      have fin: "wp (on_sched (refresh_metric_gauges env)) (\<lambda>_. rested s) (\<lambda>_ _. False) w" if "rested s w" for w
        by (rule wp_weaken [OF wp_rested_metric(2) [of s "fst w" "snd w", unfolded prod.collapse]]) (use that in auto)
      have tail: "wp (bindM (on_sched (observe_metric (record_iteration sample))) (\<lambda>_.
           bindM (modM (\<lambda>(s, u). (s, u\<lparr>iu_iteration_metric := Some sample\<rparr>))) (\<lambda>_.
           on_sched (refresh_metric_gauges env)))) (\<lambda>_. rested s) (\<lambda>_ _. False) (?v, ?x)" for sample
      proof (rule wp_callI [OF wp_rested_metric(1) [OF rest]], simp, goal_cases)
        case (1 _ y)
        then show ?case unfolding wp_bind_updates by (intro fin) (cases y, simp add: rested_def)
      qed
      show ?case unfolding w wp_drain_updates wp_withM prod.case Let_def using v(3) tail by simp
    qed
  qed
qed

lemma wp_with_updates:
  "wp (with_updates m) Q E s = wp m (\<lambda>_ w. Q (snd w) (fst w)) (\<lambda>e w. E e (fst w)) (s, updates_empty)"
  by (auto simp: with_updates_def wp_def split: prod.splits sum.splits)

lemma mapE_list_all2: "mapE f xs = Inr ys \<Longrightarrow> list_all2 (\<lambda>x y. f x = Inr y) xs ys"
  by (induction xs arbitrary: ys) auto

lemma prevalidated_settles:
  assumes "plan_ok s" and "s_inflight s = Some inflight" and "prevalidate_completion_publication env s result = Inr sts"
  shows "list_all2 (settles s) (fp_items inflight) sts"
proof -
  have "list_all2 (\<lambda>x y. prevalidate_item s result x = Inr y) (fp_items inflight) sts"
    using assms(2,3) by (auto simp: prevalidate_completion_publication_def intro: mapE_list_all2)
  then show ?thesis
  proof (rule list.rel_mono_strong)
    fix item st assume "item \<in> set (fp_items inflight)" and v: "prevalidate_item s result item = Inr st"
    then show "settles s item st" using assms(1,2) by (intro prevalidate_item_settles [OF v]) (auto simp: plan_ok_def)
  qed
qed

lemma wp_complete_iteration:
  assumes inv: "sched_inv s"
  shows "wp (complete_iteration env result now_ns)
    (\<lambda>u t. s_inflight s \<noteq> None \<and> validate_now s now_ns = Inr () \<and> rested (s\<lparr>s_last_now_ns := Some now_ns, s_inflight := None\<rparr>) (t, u))
    (\<lambda>_ t. t = s) s"
proof -
  have core: "core_inv s" "flow_inv (items_of s) s" "plan_ok s" "policies_ok s" using inv by (simp_all add: sched_inv_def)
  have res: "wp (bindM (reserve env x n) f) Q (\<lambda>_ t. t = s) s" if "wp (f ()) Q (\<lambda>_ t. t = s) s" for x n and f :: "unit \<Rightarrow> iteration_updates sched_cmd" and Q
    unfolding wp_bindM wp_reserve using that by (simp split: sum.split)
  show ?thesis unfolding complete_iteration_def wp_withM Let_def
  proof (intro wp_tryI res, goal_cases)
    case g: (8 _ _ _ inflight _ _ sts)
    then have fl: "s_inflight s = Some inflight" by simp
    let ?s = "s\<lparr>s_last_now_ns := Some now_ns, s_inflight := None\<rparr>"
    have "list_all2 (settles s) (fp_items inflight) sts" using prevalidated_settles [OF core(3) fl] g by blast
    then have st: "list_all2 (settles ?s) (fp_items inflight) sts" by (simp add: settles_def [abs_def])
    have c: "core_inv ?s" "flow_inv (fp_items inflight) ?s" "policies_ok ?s" "s_inflight ?s = None"
      using core fl by (simp_all add: flow_inv_def items_of_def policies_ok_def)
    show ?case unfolding wp_bind_mod wp_with_updates
      by (rule wp_weaken [OF wp_settle_completed [OF c st]]) (use fl g in auto)
  qed auto
qed

end
