(* ===== verification/Scheduler_End.thy ===== *)
theory Scheduler_End
  imports Scheduler_Settle
begin

text \<open>
  The other ways an iteration or a request ends, under the invariant: aborting the plan in flight,
  cancelling a request, shutting down and closing. An abort never leaves a reservation behind, and a
  scheduler that closes has given every block back.
\<close>

subsection \<open>Dropping the cache\<close>

abbreviation unlink_record :: "request_record \<Rightarrow> request_record" where
  "unlink_record r \<equiv> r\<lparr>rq_prefix_linked := False\<rparr>"

definition unlinked :: "scheduler \<Rightarrow> bool" where
  "unlinked s \<longleftrightarrow> s_prefix_cache s = None \<or> (\<forall>r\<in>set (s_requests s). \<not> rq_prefix_linked r)"

definition dropped :: "scheduler \<Rightarrow> scheduler \<Rightarrow> bool" where
  "dropped s t \<longleftrightarrow> core_inv t \<and> kept s t \<and> unlinked t \<and> ext_of (s_prefix_cache t) = [] \<and>
     s_completion_outbox t = s_completion_outbox s \<and> s_waiting t = s_waiting s \<and>
     (s_requests t = s_requests s \<or> s_requests t = map unlink_record (s_requests s))"

lemma empty_cache_blocks: "key_at c = Map.empty \<Longrightarrow> cache_blocks c = []"
proof -
  assume "key_at c = Map.empty"
  then have "block_at c = Map.empty" by (auto simp: key_at_def block_at_def fun_eq_iff)
  then show ?thesis by (simp add: cache_blocks_def List.map_filter_def)
qed

lemma wp_drop_prefix_cache_entries:
  assumes inv: "core_inv s"
  shows "wp drop_prefix_cache_entries (\<lambda>_. dropped s) (\<lambda>_ _. False) s"
proof (cases "s_prefix_cache s")
  case None
  then show ?thesis using inv by (simp add: drop_prefix_cache_entries_def wp_simps dropped_def unlinked_def ext_of_def)
next
  case (Some c)
  obtain xs where xs: "cache_inv c xs" and kv: "kv_inv (s_pool s) (seqs (s_requests s)) (cache_blocks c)"
    using inv Some by (auto simp: core_inv_def kv_part_def cache_ok_def ext_of_def)
  have clear: "wp (on_scache c cache_clear) (\<lambda>_ t. \<exists>c' p'. t = with_cache c' p' s \<and> cache_inv c' [] \<and> cache_blocks c' = [] \<and>
      kv_inv p' (seqs (s_requests s)) []) (\<lambda>_ _. False) s"
    unfolding wp_on_scache
    by (rule wp_weaken [OF wp_cache_clear [OF xs kv]]) (use empty_cache_blocks in auto)
  have "wp (bindM (on_scache c cache_clear) (\<lambda>_.
         modM (\<lambda>s. s\<lparr>s_requests := map unlink_record (s_requests s)\<rparr>))) (\<lambda>_. dropped s) (\<lambda>_ _. False) s"
  proof (rule wp_callI [OF clear], simp, goal_cases)
    case (1 _ t)
    then obtain c' p' where t: "t = with_cache c' p' s" and c': "cache_inv c' []" "cache_blocks c' = []" "kv_inv p' (seqs (s_requests s)) []" by blast
    let ?rs = "map unlink_record (s_requests s)"
    have "seqs ?rs = seqs (s_requests s)" by (rule seqs_cong) simp
    then have kv': "kv_part p' ?rs (Some c')"
      using c' by (auto simp: kv_part_def cache_ok_def ext_of_def linked_ok_def)
    have "core_inv (s\<lparr>s_pool := p', s_requests := ?rs, s_prefix_cache := Some c'\<rparr>)"
      by (rule core_map [OF inv _ _ kv']) (use inv in \<open>auto simp: same_books_def core_inv_def rec_ok_def\<close>)
    moreover have "t\<lparr>s_requests := map unlink_record (s_requests t)\<rparr> = s\<lparr>s_pool := p', s_requests := ?rs, s_prefix_cache := Some c'\<rparr>"
      by (simp add: t)
    ultimately show ?case using c'(2) Some by (simp add: wp_modM dropped_def unlinked_def kept_def known_ids_def comp_def ext_of_def)
  qed
  then show ?thesis using Some by (simp add: drop_prefix_cache_entries_def wp_withM)
qed

lemma droppedD: "dropped s t \<Longrightarrow> core_inv t \<and> kept s t \<and> unlinked t"
  by (simp add: dropped_def)

lemma flow_dropped: "dropped s t \<Longrightarrow> flow_inv fl t = flow_inv fl s"
proof -
  assume d: "dropped s t"
  have sb: "same_books r (unlink_record r)" for r by (simp add: same_books_def)
  have a: "active_ids (map unlink_record (s_requests s)) = active_ids (s_requests s)"
    using same_books_image [OF sb, of "s_requests s" Not] by (simp add: active_ids_def)
  have "s_requests t = s_requests s \<or> s_requests t = map unlink_record (s_requests s)" using d by (simp add: dropped_def)
  then show ?thesis by (elim disjE) (simp_all add: flow_inv_def a)
qed

subsection \<open>Aborting an iteration\<close>

lemma flow_departed:
  assumes inv: "core_inv s" and flow: "flow_inv (item # fl) s" and i: "i < length (s_requests s)" "rq_request_id (s_requests s ! i) = fi_request_id item"
    and t: "s_requests t = swap_remove i ((s_requests s)[i := r'])"
  shows "flow_inv fl t"
proof -
  have st: "set (s_requests s) = insert (s_requests s ! i) (set (s_requests t))"
    using swap_remove_set [OF i(1)] t by simp
  have other: "rq_request_id r \<noteq> fi_request_id item" if "r \<in> set (s_requests t)" for r
  proof -
    have "rq_request_id r \<in> rq_request_id ` set (swap_remove i (s_requests s))" using that t by simp
    then show ?thesis using swap_remove_distinct_map(2) [OF i(1) core_ids [OF inv]] i(2) by metis
  qed
  have new: "fi_request_id item \<notin> fi_request_id ` set fl" "fi_request_id ` set fl \<subseteq> active_ids (s_requests s)"
    using flow by (simp_all add: flow_inv_def)
  have "fi_request_id ` set fl \<subseteq> active_ids (s_requests t)"
  proof
    fix x assume x: "x \<in> fi_request_id ` set fl"
    then have "x \<in> active_ids (s_requests s)" "x \<noteq> fi_request_id item" using new by blast+
    then obtain r where r: "r \<in> set (s_requests s)" "\<not> is_waiting r" "rq_request_id r = x" "r \<noteq> s_requests s ! i"
      using i(2) by (auto simp: active_ids_def)
    then have "r \<in> set (s_requests t)" unfolding st by simp
    then show "x \<in> active_ids (s_requests t)" unfolding active_ids_def using r(2,3) by blast
  qed
  moreover have "flow_ok fl r" if r: "r \<in> set (s_requests t)" for r
  proof -
    have "r \<in> set (s_requests s)" using r unfolding st by simp
    then have "flow_ok (item # fl) r" using flow by (simp add: flow_inv_def)
    then show ?thesis using other [OF r] by (auto simp: flow_ok_def)
  qed
  ultimately show ?thesis using flow by (simp add: flow_inv_def)
qed

text \<open>An item is aborted: its reservation is gone, and nothing is reported as a failure.\<close>

definition aborted_to :: "inflight_item list \<Rightarrow> scheduler \<Rightarrow> iteration_updates \<Rightarrow> scheduler \<times> iteration_updates \<Rightarrow> bool" where
  "aborted_to fl s u w \<longleftrightarrow> core_inv (fst w) \<and> flow_inv fl (fst w) \<and> kept s (fst w) \<and> (unlinked s \<longrightarrow> unlinked (fst w)) \<and> snd w = u"

lemma with_seq_kept: "i < length (s_requests s) \<Longrightarrow> kept s (with_seq i q' p' s)"
  by (simp add: kept_def known_ids_def map_update list_update_id2 flip: mset_map)

lemma wp_abort_finish:
  assumes inv: "core_inv s" and flow: "flow_inv (item # fl) s" and i: "i < length (s_requests s)" "rq_request_id (s_requests s ! i) = fi_request_id item"
    and t: "core_inv t" "t = with_seq i q' p' s" "kept s t" and v: "valid_transition (rq_state (s_requests s ! i)) (reason_state reason)"
  shows "wp (on_sched (finish_live_request (fi_request_id item) reason now_ns)) (\<lambda>_. aborted_to fl s u) (\<lambda>_ _. False) (t, u)"
proof -
  have it: "i < length (s_requests t)" "rq_state (s_requests t ! i) = rq_state (s_requests s ! i)" "rq_request_id (s_requests t ! i) = fi_request_id item"
    using i by (simp_all add: t(2))
  have idx: "record_index t (fi_request_id item) = Some i" using record_index_of [OF core_ids [OF t(1)] it(1)] it(3) by simp
  show ?thesis unfolding wp_on_sched
  proof (rule wp_weaken [OF wp_finish_live_request [OF t(1) idx]], goal_cases)
    case (2 _ w)
    then have w: "core_inv w" "left i reason now_ns t w" by simp_all
    note f = left_fields [OF w(2)]
    have rs: "s_requests w = swap_remove i ((s_requests s)[i := (s_requests s ! i)\<lparr>rq_sequence := Some q'\<rparr>])" using f(1) t(2) by simp
    have fl: "flow_inv fl w" by (rule flow_departed [OF inv flow i rs])
    have "kept s w" by (rule kept_trans [OF t(3) left_kept [OF w(2) it(1)]])
    moreover have "unlinked w" if "unlinked s"
    proof -
      have "set (s_requests w) \<subseteq> set (s_requests s)"
        unfolding rs swap_remove_update by (subst swap_remove_set [OF i(1)]) blast
      then show ?thesis using that f(7) t(2) by (auto simp: unlinked_def)
    qed
    ultimately show ?case using w(1) fl by (simp add: aborted_to_def)
  qed (use it v in simp_all)
qed

lemma wp_settle_poison:
  assumes inv: "core_inv s" and flow: "flow_inv (item # fl) s" and un: "unlinked s"
  shows "wp (settle_reservation (fi_request_id item) (fi_reservation item) SettlePoison)
    (\<lambda>_ t. core_inv t \<and> (\<exists>i q' p'. record_index s (fi_request_id item) = Some i \<and> t = with_seq i q' p' s)) (\<lambda>_ _. False) s"
proof -
  obtain i q where i: "record_index s (fi_request_id item) = Some i" "i < length (s_requests s)"
    and q: "rq_sequence (s_requests s ! i) = Some q" and ok: "flight_ok (s_requests s ! i) q item"
    by (rule flow_item [OF inv flow]) auto
  have v: "validate_reservation q (fi_reservation item) = Inr ()" using ok by (simp add: flight_ok_def)
  have free: "linked_ok (s_prefix_cache s) ((s_requests s ! i)\<lparr>rq_sequence := Some q'\<rparr>)" for q'
  proof (cases "s_prefix_cache s")
    case (Some c)
    then have "\<not> rq_prefix_linked (s_requests s ! i)" using un i(2) by (simp add: unlinked_def)
    then show ?thesis by (simp add: linked_ok_def)
  qed (simp add: linked_ok_def)
  show ?thesis unfolding settle_reservation_def wp_withM i(1) ok_or_eq wp_bindM [of "tryM _"] wp_tryM sum.case q reservation_settlement.case wp_catchM
    by (rule wp_weaken [OF wp_request_poison [OF inv i(2) q v free]]) (use i in \<open>auto simp: wp_ret\<close>)
qed

lemma flight_state:
  "flight_ok r q item \<Longrightarrow> rq_state r \<in> {Admitted, Prefilling, Decoding} \<and> fi_previous_state item \<in> {Admitted, Prefilling, Decoding}"
  by (auto simp: flight_ok_def split: work_kind.splits)

lemma wp_abort_rollback:
  assumes inv: "core_inv s" and flow: "flow_inv (item # fl) s"
  shows "wp (abort_item NotDispatched now_ns item) (\<lambda>_. aborted_to fl s u) (\<lambda>_ _. False) (s, u)"
proof -
  let ?id = "fi_request_id item"
  have settle: "wp (on_sched (settle_reservation ?id (fi_reservation item) SettleRollback))
    (\<lambda>_ w. snd w = u \<and> core_inv (fst w) \<and> (\<exists>i q q' p'. record_index s ?id = Some i \<and>
       rq_sequence (s_requests s ! i) = Some q \<and> fst w = with_seq i q' p' s \<and> same_share q q' \<and> sq_pending q' = None \<and>
       sq_poisoned q' = sq_poisoned q \<and> sq_logical_length q' = sq_logical_length q \<and>
       phase_ok (s_requests s ! i) q \<and> flight_ok (s_requests s ! i) q item)) (\<lambda>_ _. False) (s, u)"
    unfolding wp_on_sched by (rule wp_weaken [OF wp_settle_rollback [OF inv flow]]) auto
  show ?thesis unfolding abort_item_def Let_def execution_abort.case wp_catchM
  proof (rule wp_weaken [OF settle], goal_cases)
    case (1 _ w)
    then obtain i q q' p' where w: "w = (with_seq i q' p' s, u)" and c: "core_inv (with_seq i q' p' s)" and ix: "record_index s ?id = Some i"
      and q: "rq_sequence (s_requests s ! i) = Some q" and q': "same_share q q'" "sq_pending q' = None" "sq_poisoned q' = sq_poisoned q"
        "sq_logical_length q' = sq_logical_length q" and ok: "phase_ok (s_requests s ! i) q" "flight_ok (s_requests s ! i) q item" by (cases w) auto
    let ?t = "with_seq i q' p' s" and ?r = "s_requests s ! i"
    note i = record_indexD [OF ix]
    have idx: "record_index ?t ?id = Some i" using record_index_of [OF core_ids [OF c], of i] i by simp
    note st = flight_state [OF ok(2)]
    have act: "wp (if rq_cancellation_deferred (s_requests ?t ! i) then on_sched (finish_live_request ?id ReasonCancelled now_ns)
               else on_sched (restore_request item i)) (\<lambda>_. aborted_to fl s u) (\<lambda>_ _. False) (?t, u)"
    proof (cases "rq_cancellation_deferred ?r")
      case True
      have "wp (on_sched (finish_live_request ?id ReasonCancelled now_ns)) (\<lambda>_. aborted_to fl s u) (\<lambda>_ _. False) (?t, u)"
        by (rule wp_abort_finish [OF inv flow _ _ c refl with_seq_kept]) (use i st in \<open>auto simp: valid_transition_def\<close>)
      then show ?thesis using True i by simp
    next
      case False
      let ?r' = "?r\<lparr>rq_sequence := Some q', rq_state := fi_previous_state item, rq_ready_since_ns := fi_previous_ready_since_ns item\<rparr>"
      let ?u = "s\<lparr>s_pool := p', s_requests := (s_requests s)[i := ?r']\<rparr>"
      have out: "rq_request_id ?r \<notin> fi_request_id ` set fl" using flow i by (auto simp: flow_inv_def)
      have sb: "same_books ?r ?r'" using st by (auto simp: same_books_def)
      have fl: "flow_inv fl ?u"
        using flow_drop_item [OF inv flow _ _ sb flow_ok_rolled_back [OF ok q' out False]] i by (simp add: flow_inv_def)
      have eq: "?t\<lparr>s_requests := (s_requests ?t)[i := (s_requests ?t ! i)\<lparr>rq_state := fi_previous_state item,
          rq_ready_since_ns := fi_previous_ready_since_ns item\<rparr>]\<rparr> = ?u" using i by simp
      have it: "i < length (s_requests ?t)" using i by simp
      have "core_inv ?u" unfolding eq [symmetric]
        by (rule core_mod [OF c it])
          (use core_nth [OF c it] core_linked [OF c it] st i in \<open>auto simp: same_books_def rec_ok_def\<close>)
      then have "aborted_to fl s u (?u, u)" using fl i
        by (auto simp: aborted_to_def kept_def known_ids_def map_update list_update_id2 unlinked_def simp flip: mset_map dest!: set_update_subset_insert [THEN subsetD])
      then show ?thesis using False i eq by (simp add: restore_request_def wp_on_sched wp_mod_request)
    qed
    show ?case unfolding w sum.case wp_withM prod.case idx option.case by (rule wp_containing [OF act])
  qed simp
qed

lemma wp_abort_poison:
  assumes inv: "core_inv s" and flow: "flow_inv (item # fl) s" and un: "unlinked s"
  shows "wp (abort_item DeviceQuiescedMutationUnknown now_ns item) (\<lambda>_. aborted_to fl s u) (\<lambda>_ _. False) (s, u)"
proof -
  let ?id = "fi_request_id item"
  obtain j q where j: "record_index s ?id = Some j" and ok: "flight_ok (s_requests s ! j) q item"
    by (rule flow_item [OF inv flow]) auto
  have settle: "wp (on_sched (settle_reservation ?id (fi_reservation item) SettlePoison))
    (\<lambda>_ w. snd w = u \<and> core_inv (fst w) \<and> (\<exists>i q' p'. record_index s ?id = Some i \<and> fst w = with_seq i q' p' s)) (\<lambda>_ _. False) (s, u)"
    unfolding wp_on_sched by (rule wp_weaken [OF wp_settle_poison [OF assms]]) auto
  show ?thesis unfolding abort_item_def Let_def execution_abort.case wp_catchM
  proof (rule wp_weaken [OF settle], goal_cases)
    case (1 _ w)
    then obtain i q' p' where w: "w = (with_seq i q' p' s, u)" and c: "core_inv (with_seq i q' p' s)" and ix: "record_index s ?id = Some i"
      by (cases w) auto
    let ?t = "with_seq i q' p' s"
    note i = record_indexD [OF ix]
    have idx: "record_index ?t ?id = Some i" using record_index_of [OF core_ids [OF c], of i] i by simp
    have "rq_state (s_requests s ! i) \<in> {Admitted, Prefilling, Decoding}" using flight_state [OF ok] j ix by simp
    then have "wp (on_sched (finish_live_request ?id ReasonExecutorFailure now_ns)) (\<lambda>_. aborted_to fl s u) (\<lambda>_ _. False) (?t, u)"
      by (intro wp_abort_finish [OF inv flow _ _ c refl with_seq_kept]) (use i in \<open>auto simp: valid_transition_def\<close>)
    then show ?case unfolding w sum.case wp_withM prod.case idx option.case by (rule wp_containing)
  qed simp
qed

lemma wp_abort_items:
  assumes "core_inv s" and "flow_inv fl s" and "abort = DeviceQuiescedMutationUnknown \<longrightarrow> unlinked s"
  shows "wp (forM fl (abort_item abort now_ns)) (\<lambda>_. aborted_to [] s u) (\<lambda>_ _. False) (s, u)"
  using assms
proof (induction fl arbitrary: s)
  case Nil
  then show ?case by (simp add: wp_ret aborted_to_def)
next
  case (Cons item fl)
  have one: "wp (abort_item abort now_ns item) (\<lambda>_. aborted_to fl s u) (\<lambda>_ _. False) (s, u)"
    using Cons.prems wp_abort_rollback wp_abort_poison by (cases abort) auto
  show ?case unfolding forM.simps
  proof (rule wp_callI [OF one], simp, goal_cases)
    case (1 _ w)
    then obtain t where w: "w = (t, u)" and t: "core_inv t" "flow_inv fl t" "kept s t" "unlinked s \<longrightarrow> unlinked t"
      by (cases w) (auto simp: aborted_to_def)
    show ?case unfolding w
      by (rule wp_weaken [OF Cons.IH [OF t(1,2)]]) (use t Cons.prems(3) kept_trans in \<open>auto simp: aborted_to_def\<close>)
  qed
qed

lemma wp_finish_aborted:
  assumes "rested s (t, u)"
  shows "wp (finish_aborted env) (\<lambda>_. rested s) (\<lambda>_ _. False) (t, u)"
  unfolding finish_aborted_def
proof (rule wp_callI [OF wp_rested_metric(1) [OF assms]], simp, goal_cases)
  case (1 _ w)
  then show ?case by (cases w) (auto intro!: wp_weaken [OF wp_rested_metric(2)])
qed

lemma wp_abort_iteration:
  assumes inv: "sched_inv s"
  shows "wp (abort_iteration env iteration_id abort now_ns)
    (\<lambda>u t. s_inflight s \<noteq> None \<and> validate_now s now_ns = Inr () \<and> rested (s\<lparr>s_last_now_ns := Some now_ns, s_inflight := None\<rparr>) (t, u))
    (\<lambda>_ t. t = s) s"
proof -
  let ?s = "s\<lparr>s_last_now_ns := Some now_ns, s_inflight := None\<rparr>"
  have core: "core_inv s" "flow_inv (items_of s) s" "policies_ok s" using inv by (simp_all add: sched_inv_def)
  have res: "wp (bindM (reserve env x n) f) Q (\<lambda>_ t. t = s) s" if "wp (f ()) Q (\<lambda>_ t. t = s) s" for x n and f :: "unit \<Rightarrow> iteration_updates sched_cmd" and Q
    unfolding wp_bindM wp_reserve using that by (simp split: sum.split)
  show ?thesis unfolding abort_iteration_def wp_withM Let_def
  proof (intro wp_tryI wp_failI res, goal_cases)
    case g: (7 _ _ inflight)
    then have fl: "s_inflight s = Some inflight" by simp
    have c: "core_inv ?s" "flow_inv (fp_items inflight) ?s" "policies_ok ?s" "s_inflight ?s = None"
      using core fl by (simp_all add: flow_inv_def items_of_def policies_ok_def)
    have drop: "wp (if abort = DeviceQuiescedMutationUnknown then drop_prefix_cache_entries else ret ())
        (\<lambda>_ t. core_inv t \<and> flow_inv (fp_items inflight) t \<and> kept ?s t \<and> (abort = DeviceQuiescedMutationUnknown \<longrightarrow> unlinked t)) (\<lambda>_ _. False) ?s"
    proof (cases "abort = DeviceQuiescedMutationUnknown")
      case True
      have "wp drop_prefix_cache_entries (\<lambda>_ t. core_inv t \<and> flow_inv (fp_items inflight) t \<and> kept ?s t \<and> unlinked t) (\<lambda>_ _. False) ?s"
      proof (rule wp_weaken [OF wp_drop_prefix_cache_entries [OF c(1)]], goal_cases)
        case (1 _ t)
        then show ?case using flow_dropped [OF 1] c(2) droppedD [OF 1] by simp
      qed simp
      then show ?thesis using True by simp
    qed (use c in \<open>simp add: wp_ret\<close>)
    show ?case unfolding wp_bind_mod
    proof (rule wp_callI [OF drop], simp, goal_cases)
      case (1 _ t)
      then have t: "core_inv t" "flow_inv (fp_items inflight) t" "kept ?s t" "abort = DeviceQuiescedMutationUnknown \<longrightarrow> unlinked t" by simp_all
      show ?case unfolding wp_with_updates
      proof (rule wp_callI [OF wp_abort_items [OF t(1,2,4)]], simp, goal_cases)
        case (1 _ w)
        then obtain v where w: "w = (v, updates_empty)" and v: "core_inv v" "flow_inv [] v" "kept t v" by (cases w) (auto simp: aborted_to_def)
        have kv: "kept ?s v" by (rule kept_trans [OF t(3) v(3)])
        have "resting v" by (rule resting_kept [OF v(1,2) kv c(3,4)])
        then have rest: "rested ?s (v\<lparr>s_completion_outbox := []\<rparr>, updates_empty\<lparr>iu_completions := iu_completions updates_empty @ s_completion_outbox v\<rparr>)"
          using resting_drained [of v] kv by (simp add: rested_def resting_def updates_empty_def)
        show ?case unfolding w wp_drain_updates
          by (rule wp_weaken [OF wp_finish_aborted [OF rest]]) (use fl g in auto)
      qed
    qed
  qed auto
qed

subsection \<open>Cancellation\<close>

lemma live_cancellable: "rec_ok cfg r \<Longrightarrow> valid_transition (rq_state r) Cancelled"
  by (auto simp: rec_ok_def valid_transition_def)

lemma is_inflight_iff: "is_inflight s x \<longleftrightarrow> x \<in> fi_request_id ` set (items_of s)"
  by (auto simp: is_inflight_def items_of_def list_ex_iff split: option.splits)

text \<open>A request that is not in flight leaves; the plan in flight does not notice.\<close>

lemma sched_left:
  assumes inv: "sched_inv s" and i: "i < length (s_requests s)" and out: "rq_request_id (s_requests s ! i) \<notin> fi_request_id ` set (items_of s)"
    and t: "core_inv t" "left i reason now_ns s t"
  shows "sched_inv t"
proof -
  note f = left_fields [OF t(2)]
  have core: "core_inv s" and flow: "flow_inv (items_of s) s" and plan: "plan_ok s" using inv by (simp_all add: sched_inv_def)
  have st: "set (s_requests s) = insert (s_requests s ! i) (set (s_requests t))" using swap_remove_set [OF i] f(1) by simp
  have it: "items_of t = items_of s" by (simp add: items_of_def f)
  have keep: "r \<in> set (s_requests t)" if "r \<in> set (s_requests s)" "rq_request_id r \<in> fi_request_id ` set (items_of s)" for r
    using that out unfolding st by auto
  have "fi_request_id ` set (items_of s) \<subseteq> active_ids (s_requests t)"
  proof
    fix x assume x: "x \<in> fi_request_id ` set (items_of s)"
    then have "x \<in> active_ids (s_requests s)" using flow unfolding flow_inv_def by blast
    then obtain r where r: "r \<in> set (s_requests s)" "\<not> is_waiting r" "rq_request_id r = x" by (auto simp: active_ids_def)
    then show "x \<in> active_ids (s_requests t)" using keep [OF r(1)] x by (auto simp: active_ids_def)
  qed
  moreover have "\<forall>r\<in>set (s_requests t). flow_ok (items_of s) r" using flow st by (simp add: flow_inv_def)
  ultimately have "flow_inv (items_of t) t" using flow it by (simp add: flow_inv_def)
  moreover have "plan_ok t" unfolding plan_ok_def f(6)
  proof (intro allI impI conjI ballI)
    fix plan assume p: "s_inflight s = Some plan"
    note pp = plan [unfolded plan_ok_def, rule_format, OF p]
    show "fp_expected_output_slots plan = List.map_filter fi_output_slot (fp_items plan)" "distinct (fp_expected_output_slots plan)"
      using pp by auto
    fix item assume item: "item \<in> set (fp_items plan)" "fi_kind item = Prefill"
    then obtain r where r: "r \<in> set (s_requests s)" "rq_request_id r = fi_request_id item" "rq_state r = Prefilling" using pp by blast
    have "rq_request_id r \<in> fi_request_id ` set (items_of s)" using item(1) r(2) p by (simp add: items_of_def)
    then show "\<exists>r\<in>set (s_requests t). rq_request_id r = fi_request_id item \<and> rq_state r = Prefilling" using keep [OF r(1)] r by blast
  qed
  moreover have "policies_ok t" using policies_frame [OF left_frame [OF t(2)]] inv by (simp add: sched_inv_def)
  ultimately show ?thesis using t(1) by (simp add: sched_inv_def)
qed

lemma wp_metrics_tail:
  assumes "\<And>u. metric_only t u \<Longrightarrow> Q x u"
  shows "wp (bindM (observe_metric m) (\<lambda>_. bindM (refresh_metric_gauges env) (\<lambda>_. ret x))) Q E t"
  unfolding wp_bindM using assms
  by (auto intro!: wp_observe_metric wp_refresh_metric_gauges simp: wp_ret dest: metric_only_trans)

lemma sched_deferred:
  assumes inv: "sched_inv s" and i: "i < length (s_requests s)" and fl: "rq_request_id (s_requests s ! i) \<in> fi_request_id ` set (items_of s)"
  shows "sched_inv (s\<lparr>s_requests := (s_requests s)[i := (s_requests s ! i)\<lparr>rq_cancellation_deferred := True\<rparr>]\<rparr>)"
proof -
  let ?r = "s_requests s ! i" and ?r' = "(s_requests s ! i)\<lparr>rq_cancellation_deferred := True\<rparr>"
  let ?t = "s\<lparr>s_requests := (s_requests s)[i := ?r']\<rparr>"
  have core: "core_inv s" and flow: "flow_inv (items_of s) s" and plan: "plan_ok s" using inv by (simp_all add: sched_inv_def)
  have "rq_request_id ?r \<in> active_ids (s_requests s)" using flow fl unfolding flow_inv_def by blast
  then obtain j where "j < length (s_requests s)" "rq_request_id (s_requests s ! j) = rq_request_id ?r" "\<not> is_waiting (s_requests s ! j)"
    by (auto simp: active_ids_def in_set_conv_nth)
  then have act: "\<not> is_waiting ?r" using core_ids [OF core] i by (metis length_map nth_eq_iff_index_eq nth_map)
  have sb: "same_books ?r ?r'" by (simp add: same_books_def)
  have "core_inv ?t" by (rule core_mod [OF core i sb]) (use core_nth [OF core i] core_linked [OF core i] act in \<open>auto simp: rec_ok_def\<close>)
  moreover have "flow_ok (items_of s) ?r" using flow i by (simp add: flow_inv_def)
  then have "flow_ok (items_of s) ?r'" using fl by (simp add: flow_ok_def)
  then have "flow_inv (items_of s) ?t" by (rule flow_update [OF flow i sb])
  moreover have "plan_ok ?t" unfolding plan_ok_def
  proof (intro allI impI conjI ballI)
    fix plan assume p: "s_inflight ?t = Some plan"
    then have ps: "s_inflight s = Some plan" by simp
    note pp = plan [unfolded plan_ok_def, rule_format, OF ps]
    show "fp_expected_output_slots plan = List.map_filter fi_output_slot (fp_items plan)" "distinct (fp_expected_output_slots plan)"
      using pp by auto
    fix item assume item: "item \<in> set (fp_items plan)" "fi_kind item = Prefill"
    then obtain r where r: "r \<in> set (s_requests s)" "rq_request_id r = fi_request_id item" "rq_state r = Prefilling" using pp by blast
    then obtain k where k: "k < length (s_requests s)" "rq_request_id (s_requests s ! k) = fi_request_id item" "rq_state (s_requests s ! k) = Prefilling"
      by (metis in_set_conv_nth)
    have "s_requests ?t ! k \<in> set (s_requests ?t)" using k(1) by simp
    moreover have "rq_request_id (s_requests ?t ! k) = fi_request_id item" "rq_state (s_requests ?t ! k) = Prefilling"
      using k i by (auto simp: nth_list_update)
    ultimately show "\<exists>r\<in>set (s_requests ?t). rq_request_id r = fi_request_id item \<and> rq_state r = Prefilling" by blast
  qed
  ultimately show ?thesis using inv by (simp add: sched_inv_def items_of_def policies_ok_def)
qed

lemma sched_same:
  assumes inv: "sched_inv s" and t: "core_inv t" "s_requests t = s_requests s" "s_inflight t = s_inflight s" "policies_ok t"
  shows "sched_inv t"
proof -
  have "flow_inv (items_of t) t = flow_inv (items_of s) s" by (simp add: flow_inv_def items_of_def t)
  moreover have "plan_ok t = plan_ok s" by (simp add: plan_ok_def t)
  ultimately show ?thesis using inv t(1,4) by (simp add: sched_inv_def)
qed

lemma sched_outbox:
  assumes inv: "sched_inv s" and c: "s_completion_outbox s = out @ rest"
  shows "sched_inv (s\<lparr>s_completion_outbox := rest\<rparr>)"
proof -
  have "core_inv (s\<lparr>s_completion_outbox := rest\<rparr>)" using inv c by (auto simp: sched_inv_def core_inv_def ids_ok_def)
  then show ?thesis by (rule sched_same [OF inv]) (use inv in \<open>simp_all add: sched_inv_def policies_ok_def\<close>)
qed

lemma wp_cancel:
  assumes inv: "sched_inv s"
  shows "wp (cancel env x now_ns)
    (\<lambda>out t. sched_inv t \<and> s_completion_outbox t = [] \<and> s_inflight t = s_inflight s \<and> sched_le s t \<and>
       (cn_already_terminal out \<or> cn_deferred_until_iteration_settles out \<or> x \<notin> rq_request_id ` set (s_requests t)) \<and>
       (cn_deferred_until_iteration_settles out \<longrightarrow> is_inflight s x))
    (\<lambda>_ t. sched_inv t \<and> sched_le s t \<and> (t = s \<or> t = s\<lparr>s_last_now_ns := Some now_ns\<rparr>)) s"
proof -
  let ?s = "s\<lparr>s_last_now_ns := Some now_ns\<rparr>"
  have invs: "sched_inv ?s" using inv by simp
  have core: "core_inv ?s" "flow_inv (items_of s) s" using invs inv by (simp_all add: sched_inv_def)
  show ?thesis unfolding cancel_def wp_withM
  proof (rule wp_tryI, use inv in simp, rule wp_callI [OF wp_observe_clock], use inv in simp, goal_cases)
    case (1 _ _ t)
    have tt: "t = ?s" and le: "sched_le s ?s" using 1(2) by auto
    have empty: "s_completion_outbox s = []" using 1(1) by (simp add: ensure_completion_backlog_empty_def)
    show ?case unfolding tt
    proof (cases "list_ex (\<lambda>entry. tt_request_id entry = x) (s_terminal s)", goal_cases)
      case 1
      then show ?case using invs empty le by (simp add: wp_ret cancellation_def)
    next
      case 2
      show ?case unfolding if_not_P [OF 2]
      proof (rule wp_tryI, use invs le in simp, goal_cases)
        case (1 i)
        then have ix: "record_index s x = Some i" by simp
        note i = record_indexD [OF ix]
        have flow: "flow_ok (items_of s) (s_requests s ! i)" using core(2) i by (simp add: flow_inv_def)
        show ?case
        proof (cases "rq_cancellation_deferred (s_requests s ! i)")
          case True
          have "x \<in> fi_request_id ` set (items_of s)"
          proof (rule ccontr)
            assume "x \<notin> fi_request_id ` set (items_of s)"
            then have "rq_sequence (s_requests s ! i) = None" using flow True i by (auto simp: flow_ok_def)
            then show False using core_nth [OF core(1), of i] i True by (auto simp: rec_ok_def)
          qed
          then show ?thesis using True invs empty le by (simp add: wp_ret cancellation_def is_inflight_iff)
        next
          case False
          show ?thesis unfolding if_not_P [OF False]
          proof (cases "is_inflight s x", goal_cases)
            case 1
            let ?t = "?s\<lparr>s_requests := (s_requests ?s)[i := (s_requests ?s ! i)\<lparr>rq_cancellation_deferred := True\<rparr>]\<rparr>"
            have "sched_inv ?t" by (rule sched_deferred [OF invs]) (use i 1 in \<open>simp_all add: is_inflight_iff items_of_def\<close>)
            then have "wp (bindM (observe_metric record_cancellation) (\<lambda>_. bindM (refresh_metric_gauges env) (\<lambda>_. ret (cancellation x True False None))))
              (\<lambda>out t. sched_inv t \<and> s_completion_outbox t = [] \<and> s_inflight t = s_inflight s \<and> sched_le s t \<and>
                (cn_already_terminal out \<or> cn_deferred_until_iteration_settles out \<or> x \<notin> rq_request_id ` set (s_requests t)) \<and>
                (cn_deferred_until_iteration_settles out \<longrightarrow> is_inflight s x)) E ?t" for E
              by (intro wp_metrics_tail) (use 1 empty sched_metric le in \<open>auto simp: cancellation_def metric_only_def sched_le_def\<close>)
            then show ?case using 1 by (simp add: wp_bindM [of "mod_request _ _"] wp_mod_request)
          next
            case 2
            then have out: "rq_request_id (s_requests ?s ! i) \<notin> fi_request_id ` set (items_of ?s)" using i by (simp add: is_inflight_iff items_of_def)
            have ixs: "record_index ?s x = Some i" using ix by (simp add: record_index_def)
            have cap: "ensure_completion_capacity s 1 = Inr ()"
            proof -
              have "1 \<le> length (s_requests ?s)" using i by simp
              then show ?thesis using core_capacity [OF core(1), of 1] by (simp add: ensure_completion_capacity_def)
            qed
            have vt: "valid_transition (rq_state (s_requests ?s ! i)) (reason_state ReasonCancelled)"
              using live_cancellable [OF core_nth [OF core(1), of i]] i by simp
            have "wp (bindM (finish_live_request x ReasonCancelled now_ns) (\<lambda>_.
                 bindM pop_pending_completion (\<lambda>popped.
                 bindM (tryM (ok_or popped (InvalidPlan ''completion outbox''
                   ''immediate cancellation did not enqueue its terminal payload''))) (\<lambda>completion.
                 bindM (observe_metric record_cancellation) (\<lambda>_.
                 bindM (refresh_metric_gauges env) (\<lambda>_.
                 ret (cancellation x False False (Some completion))))))))
              (\<lambda>out t. sched_inv t \<and> s_completion_outbox t = [] \<and> s_inflight t = s_inflight s \<and> sched_le s t \<and>
                (cn_already_terminal out \<or> cn_deferred_until_iteration_settles out \<or> x \<notin> rq_request_id ` set (s_requests t)) \<and>
                (cn_deferred_until_iteration_settles out \<longrightarrow> is_inflight s x)) E ?s" for E
            proof (rule wp_callI [OF wp_finish_live_request [OF core(1) ixs vt]], simp, goal_cases)
              case (1 _ t)
              then have t: "core_inv t" "left i ReasonCancelled now_ns ?s t" by simp_all
              note f = left_fields [OF t(2)]
              have ib: "i < length (s_requests ?s)" using i by simp
              have st: "sched_inv t" by (rule sched_left [OF invs ib out t])
              have ob: "s_completion_outbox t = [completion_of (s_requests s ! i) ReasonCancelled now_ns]" using f(2) empty by simp
              have gone: "x \<notin> rq_request_id ` set (s_requests t)"
                using swap_remove_distinct_map(2) [OF ib core_ids [OF core(1)]] i f(1) by simp
              let ?u = "t\<lparr>s_completion_outbox := []\<rparr>"
              have "sched_inv ?u" using sched_outbox [OF st, of _ "[]"] by simp
              then have "wp (bindM (observe_metric record_cancellation) (\<lambda>_. bindM (refresh_metric_gauges env) (\<lambda>_. ret (cancellation x False False (Some c)))))
                (\<lambda>out t. sched_inv t \<and> s_completion_outbox t = [] \<and> s_inflight t = s_inflight s \<and> sched_le s t \<and>
                  (cn_already_terminal out \<or> cn_deferred_until_iteration_settles out \<or> x \<notin> rq_request_id ` set (s_requests t)) \<and>
                  (cn_deferred_until_iteration_settles out \<longrightarrow> is_inflight s x)) E ?u" for c E
                by (intro wp_metrics_tail) (use gone f(6) sched_metric le le_frame [OF le left_frame [OF t(2)]] in \<open>auto simp: cancellation_def metric_only_def sched_le_def\<close>)
              then show ?case using ob
                by (simp add: pop_pending_completion_def wp_bindM [of "withM _"] wp_withM wp_bindM [of "modM _"] wp_modM wp_ret wp_bindM [of "tryM _"] wp_tryM)
            qed
            then show ?case using 2 cap by (simp add: wp_bindM [of "tryM _"] wp_tryM)
          qed
        qed
      qed
    qed
  qed
qed

end
