(* ===== verification/Scheduler_Close.thy ===== *)
theory Scheduler_Close
  imports Scheduler_End
begin

text \<open>
  The end of a scheduler's life, under the invariant: \<open>shutdown\<close> cancels every live request, empties
  the prefix cache and leaves nothing allocated; \<open>close\<close> settles a plan in flight first, and a failure
  hands the scheduler back with every completion still to be delivered.
\<close>

subsection \<open>Shutdown\<close>

definition at_ease :: "scheduler \<Rightarrow> bool" where
  "at_ease s \<longleftrightarrow> resting s \<and> s_requests s = [] \<and> s_completion_outbox s = [] \<and> ext_of (s_prefix_cache s) = []"

lemma resting_left:
  assumes "resting s" and "i < length (s_requests s)" and "core_inv t" "left i reason now_ns s t"
  shows "resting t" and "kept s t" and "length (s_requests t) = length (s_requests s) - 1"
proof -
  have s: "sched_inv s" "s_inflight s = None" using assms(1) by (simp_all add: resting_iff)
  have "sched_inv t" by (rule sched_left [OF s(1) assms(2) _ assms(3,4)]) (simp add: items_of_def s(2))
  then show "resting t" using left_fields(6) [OF assms(4)] s(2) by (simp add: resting_iff)
  show "kept s t" by (rule left_kept [OF assms(4,2)])
  show "length (s_requests t) = length (s_requests s) - 1"
    using left_fields(1) [OF assms(4)] arg_cong [OF mset_swap_remove [OF assms(2)], of size] by simp
qed

lemma wp_shutdown_loop:
  assumes "resting s" and "length (s_requests s) \<le> fuel"
  shows "wp (shutdown_loop fuel now_ns) (\<lambda>_ t. resting t \<and> kept s t \<and> s_requests t = []) (\<lambda>_ _. False) s"
  using assms
proof (induction fuel arbitrary: s)
  case 0
  then show ?case by (simp add: shutdown_loop.simps wp_simps)
next
  case (Suc fuel)
  show ?case
  proof (cases "s_requests s = []")
    case True
    then show ?thesis using Suc.prems by (simp add: shutdown_loop.simps wp_simps)
  next
    case False
    let ?i = "length (s_requests s) - 1"
    have i: "?i < length (s_requests s)" and l: "last (s_requests s) = s_requests s ! ?i" using False by (simp_all add: last_conv_nth)
    have core: "core_inv s" using Suc.prems(1) by (simp add: resting_def)
    have idx: "record_index s (rq_request_id (last (s_requests s))) = Some ?i"
      unfolding l by (rule record_index_of [OF core_ids [OF core] i])
    have can: "valid_transition (rq_state (s_requests s ! ?i)) (reason_state ReasonCancelled)"
      using live_cancellable [OF core_nth [OF core i]] by simp
    have "wp (bindM (finish_live_request (rq_request_id (last (s_requests s))) ReasonCancelled now_ns) (\<lambda>_.
         bindM (observe_metric record_cancellation) (\<lambda>_. shutdown_loop fuel now_ns)))
        (\<lambda>_ t. resting t \<and> kept s t \<and> s_requests t = []) (\<lambda>_ _. False) s"
    proof (rule wp_callI [OF wp_finish_live_request [OF core idx can]], simp, goal_cases)
      case (1 _ t)
      note t = resting_left [OF Suc.prems(1) i conjunct1 [OF 1] conjunct2 [OF 1]]
      show ?case unfolding wp_bindM
      proof (rule wp_observe_metric)
        fix u assume u: "metric_only t u"
        have ru: "resting u" using resting_metric [OF u] t(1) by simp
        have "length (s_requests u) \<le> fuel" using u t(3) Suc.prems(2) by (auto simp: metric_only_def)
        from Suc.IH [OF ru this] show "wp (shutdown_loop fuel now_ns) (\<lambda>_ t. resting t \<and> kept s t \<and> s_requests t = []) (\<lambda>_ _. False) u"
          by (rule wp_weaken) (use kept_trans [OF kept_trans [OF t(2) metric_kept [OF u]]] in auto)
      qed
    qed
    then show ?thesis using False by (simp add: shutdown_loop.simps wp_withM)
  qed
qed

text \<open>Nothing left means that every counter of the scheduler is zero and every block is free.\<close>

lemma at_ease_quiescent:
  assumes "at_ease s"
  shows "quiescent s" and "set (kp_free_list (s_pool s)) = {0..<length (kp_slots (s_pool s))}"
proof -
  have core: "core_inv s" and e: "s_requests s = []" "s_completion_outbox s = []" "ext_of (s_prefix_cache s) = []" "s_inflight s = None"
    using assms by (simp_all add: at_ease_def resting_def)
  have "kv_inv (s_pool s) [] []" using core e by (simp add: core_inv_def kv_part_def seqs_def List.map_filter_simps)
  note free = kv_inv_drained [OF this]
  show "set (kp_free_list (s_pool s)) = {0..<length (kp_slots (s_pool s))}" using free by simp
  show "quiescent s" using core e free by (auto simp: quiescent_def core_inv_def queue_ok_def)
qed

lemma sched_begin_shutdown [simp]: "sched_inv (begin_shutdown s) = sched_inv s"
  by (simp add: begin_shutdown_def sched_inv_def flow_inv_def items_of_def plan_ok_def policies_ok_def)

lemma le_begin_shutdown: "sched_le s (begin_shutdown s)"
  by (simp add: begin_shutdown_def sched_le_def)

lemma wp_shutdown:
  assumes inv: "sched_inv s"
  shows "wp (shutdown env now_ns)
    (\<lambda>cs t. at_ease t \<and> \<not> s_accepting t \<and> sched_le s t \<and> mset (map rc_request_id cs) = known_ids s \<and> s_completion_outbox s = [] \<and>
       s_completion_outbox_capacity t = s_completion_outbox_capacity s \<and> s_next_request_id t = s_next_request_id s)
    (\<lambda>_ t. sched_inv t \<and> \<not> s_accepting t \<and> sched_le s t \<and> s_requests t = s_requests s \<and>
       s_completion_outbox t = s_completion_outbox s \<and> s_inflight t = s_inflight s \<and>
       s_completion_outbox_capacity t = s_completion_outbox_capacity s \<and> s_next_request_id t = s_next_request_id s) s"
proof -
  let ?b = "begin_shutdown s" and ?c = "(begin_shutdown s)\<lparr>s_last_now_ns := Some now_ns\<rparr>"
  have b: "sched_inv ?b" "sched_inv ?c" using inv by simp_all
  have bf: "\<not> s_accepting ?b" "s_requests ?b = s_requests s" "s_completion_outbox ?b = s_completion_outbox s" "s_inflight ?b = s_inflight s"
    "s_completion_outbox_capacity ?b = s_completion_outbox_capacity s" "s_next_request_id ?b = s_next_request_id s"
    by (simp_all add: begin_shutdown_def)
  show ?thesis unfolding shutdown_def wp_bind_mod wp_withM
  proof (rule wp_tryI, use b bf le_begin_shutdown in simp, rule wp_callI [OF wp_observe_clock], use b bf le_begin_shutdown in simp, goal_cases)
    case (1 _ _ t)
    then have t: "t = ?c" and le: "sched_le s ?c" using sched_le_trans [OF le_begin_shutdown] by auto
    have idle: "s_completion_outbox s = []" using 1(1) by (simp add: ensure_completion_backlog_empty_def bf)
    show ?case
    proof (cases "s_inflight s")
      case (Some plan)
      then show ?thesis using b bf t le by (simp add: wp_simps)
    next
      case None
      have rest: "resting ?c" using b bf None by (simp add: resting_iff)
      have core: "core_inv ?b" using b by (simp add: sched_inv_def)
      have finish: "wp (bindM (shutdown_loop (length (s_requests ?b)) now_ns) (\<lambda>_.
          bindM drop_prefix_cache_entries (\<lambda>_. bindM drain_completion_outbox (\<lambda>completions.
          bindM (refresh_metric_gauges env) (\<lambda>_. ret completions)))))
        (\<lambda>cs t. at_ease t \<and> \<not> s_accepting t \<and> sched_le s t \<and> mset (map rc_request_id cs) = known_ids s \<and> s_completion_outbox s = [] \<and>
           s_completion_outbox_capacity t = s_completion_outbox_capacity s \<and> s_next_request_id t = s_next_request_id s) E ?c" for E
      proof (rule wp_callI [OF wp_shutdown_loop [OF rest]], simp add: bf, simp, goal_cases)
        case (1 _ t1)
        have c1: "core_inv t1" using 1 by (simp add: resting_def)
        show ?case
        proof (rule wp_callI [OF wp_drop_prefix_cache_entries [OF c1]], simp, goal_cases)
          case (1 _ t2)
          note d = 1
          have r1: "resting t1" "kept ?c t1" "s_requests t1 = []" using \<open>resting t1 \<and> kept ?c t1 \<and> s_requests t1 = []\<close> by auto
          have k: "kept ?c t2" "kept t1 t2" "core_inv t2" using kept_trans [OF r1(2)] droppedD [OF d] by auto
          have empty: "s_requests t2 = []" using d r1(3) by (auto simp: dropped_def)
          have p2: "policies_ok t1" "s_inflight t1 = None" using r1(1) by (simp_all add: resting_def)
          have rt2: "resting t2"
            by (rule resting_kept [OF k(3) _ k(2) p2]) (use flow_dropped [OF d] r1(1) in \<open>simp add: resting_def\<close>)
          let ?t = "t2\<lparr>s_completion_outbox := []\<rparr>"
          have "at_ease ?t" using resting_drained [OF rt2] empty d by (simp add: at_ease_def dropped_def)
          moreover have "\<not> s_accepting ?t" using k(1) bf(1) by (simp add: kept_def)
          moreover have "sched_le s ?t" using sched_le_trans [OF le kept_le [OF k(1)]] by (simp add: sched_le_def)
          moreover have "mset (map rc_request_id (s_completion_outbox t2)) = known_ids s"
            using k(1) empty bf by (simp add: kept_def known_ids_def)
          moreover have "s_completion_outbox_capacity ?t = s_completion_outbox_capacity s" "s_next_request_id ?t = s_next_request_id s"
            using k(1) bf by (simp_all add: kept_def)
          ultimately have fin: "at_ease u \<and> \<not> s_accepting u \<and> sched_le s u \<and> mset (map rc_request_id (s_completion_outbox t2)) = known_ids s \<and>
              s_completion_outbox s = [] \<and> s_completion_outbox_capacity u = s_completion_outbox_capacity s \<and> s_next_request_id u = s_next_request_id s"
            if "metric_only ?t u" for u
            using that idle resting_metric [OF that] le_metric [OF _ that] by (auto simp: at_ease_def metric_only_def)
          show ?case unfolding wp_bind_drain unfolding wp_bindM [of "refresh_metric_gauges _"]
            by (rule wp_refresh_metric_gauges) (unfold wp_ret, erule fin)
        qed
      qed
      have cap: "ensure_completion_capacity ?b (length (s_requests ?b)) = Inr ()" by (rule core_capacity [OF core]) simp
      show ?thesis unfolding t
        using finish b bf None le cap by (simp add: wp_bindM [of "ret _"] wp_ret wp_bindM [of "reserve _ _ _"] wp_reserve wp_bindM [of "tryM _"] wp_tryM split: sum.split)
    qed
  qed
qed

subsection \<open>Close\<close>

text \<open>Completions that were taken out can be put back.\<close>

lemma core_restored:
  assumes s: "core_inv s" and t: "core_inv t" and same: "s_next_request_id t = s_next_request_id s"
      "s_completion_outbox_capacity t = s_completion_outbox_capacity s"
    and ids: "mset (map rq_request_id (s_requests t)) + mset (map rc_request_id out) = known_ids s"
  shows "core_inv (t\<lparr>s_completion_outbox := out\<rparr>)"
proof -
  let ?old = "map rq_request_id (s_requests s) @ map rc_request_id (s_completion_outbox s)"
  let ?new = "map rq_request_id (s_requests t) @ map rc_request_id out"
  have m: "mset ?new = mset ?old" using ids by (simp add: known_ids_def)
  have "ids_ok (s_next_request_id s) (s_requests t) out"
    using s mset_eq_imp_distinct_iff [OF m] mset_eq_setD [OF m] by (simp add: core_inv_def ids_ok_def)
  moreover have "length ?new = length ?old" using m by (rule mset_eq_length)
  ultimately show ?thesis using s t same by (simp add: core_inv_def)
qed

definition handed_back :: "scheduler \<Rightarrow> scheduler \<Rightarrow> bool" where
  "handed_back s t \<longleftrightarrow> sched_inv t \<and> \<not> s_accepting t \<and> sched_le s t \<and> known_ids t = known_ids s"

lemma wp_close_failure:
  "wp (close_failure e cs fs) Q E t = E (e, fs) (t\<lparr>s_completion_outbox := cs @ s_completion_outbox t\<rparr>)"
  by (simp add: close_failure_def wp_simps)

lemma wp_orClose:
  "wp (orClose m fail f) Q E s = wp m (\<lambda>x. wp (f x) Q E) (\<lambda>e. wp (fail e) Q E) s"
  by (simp add: orClose_def wp_catchM)

text \<open>The scheduler while \<open>close\<close> holds the completions \<open>cs\<close>.\<close>

definition closing :: "scheduler \<Rightarrow> request_completion list \<Rightarrow> scheduler \<Rightarrow> bool" where
  "closing s cs t \<longleftrightarrow> sched_inv t \<and> \<not> s_accepting t \<and> sched_le s t \<and> s_completion_outbox t = [] \<and>
     s_next_request_id t = s_next_request_id s \<and> s_completion_outbox_capacity t = s_completion_outbox_capacity s \<and>
     mset (map rq_request_id (s_requests t)) + mset (map rc_request_id cs) = known_ids s"

lemma closing_back:
  assumes s: "sched_inv s" and c: "closing s cs t"
  shows "handed_back s (t\<lparr>s_completion_outbox := cs\<rparr>)"
proof -
  have "core_inv (t\<lparr>s_completion_outbox := cs\<rparr>)"
    by (rule core_restored [of s]) (use s c in \<open>simp_all add: sched_inv_def closing_def\<close>)
  then have "sched_inv (t\<lparr>s_completion_outbox := cs\<rparr>)"
  proof (rule sched_same [rotated])
    show "sched_inv t" using c by (simp add: closing_def)
    then have "policies_ok t" by (simp add: sched_inv_def)
    then show "policies_ok (t\<lparr>s_completion_outbox := cs\<rparr>)" by (simp add: policies_ok_def)
  qed simp_all
  then show ?thesis using c by (simp add: handed_back_def closing_def known_ids_def sched_le_def)
qed

lemma wp_settle_inflight:
  assumes s: "sched_inv s" and c: "closing s cs t"
  shows "wp (settle_inflight env now_ns abort cs)
    (\<lambda>(cs', fs) u. closing s cs' u \<and> fs = [] \<and> s_inflight u = None) (\<lambda>(e, fs) u. handed_back s u \<and> fs = []) t"
proof (cases "s_inflight t")
  case None
  then show ?thesis using c by (simp add: settle_inflight_def wp_simps)
next
  case (Some plan)
  have empty: "s_completion_outbox t = []" and inv: "sched_inv t" using c by (simp_all add: closing_def)
  show ?thesis
  proof (cases abort)
    case None
    then show ?thesis using closing_back [OF s c] Some empty by (simp add: settle_inflight_def wp_withM wp_close_failure)
  next
    case a: (Some ab)
    let ?t = "t\<lparr>s_last_now_ns := Some now_ns, s_inflight := None\<rparr>"
    have done_ok: "closing s (cs @ iu_completions u) v \<and> iu_settlement_failures u = [] \<and> s_inflight v = None"
      if "validate_now t now_ns = Inr ()" and r: "rested ?t (v, u)" for u v
    proof -
      have le: "sched_le t ?t" using clock_advances [OF that(1)] by (simp add: sched_le_def)
      have k: "kept ?t (v\<lparr>s_completion_outbox := iu_completions u\<rparr>)" and rv: "resting v" "s_completion_outbox v = []" "iu_settlement_failures u = []"
        using r by (simp_all add: rested_def)
      have "sched_le s ?t" using sched_le_trans [OF _ le] c by (simp add: closing_def)
      moreover have "sched_le ?t v" using kept_le [OF k] by (simp add: sched_le_def)
      ultimately have "sched_le s v" by (rule sched_le_trans)
      moreover have "mset (map rq_request_id (s_requests v)) + mset (map rc_request_id (cs @ iu_completions u)) = known_ids s"
      proof -
        let ?T = "mset (map rq_request_id (s_requests t))" and ?V = "mset (map rq_request_id (s_requests v))"
        have "?V + mset (map rc_request_id (iu_completions u)) = ?T" using k empty by (simp add: kept_def known_ids_def)
        moreover have "?T + mset (map rc_request_id cs) = known_ids s" using c by (simp add: closing_def)
        ultimately show ?thesis by (simp add: ac_simps flip: \<open>_ = known_ids s\<close> \<open>_ = ?T\<close>)
      qed
      ultimately show ?thesis using rv k c by (simp add: closing_def kept_def resting_iff)
    qed
    show ?thesis unfolding settle_inflight_def wp_withM Some a option.case wp_orClose
      by (rule wp_weaken [OF wp_abort_iteration [OF inv]])
        (use done_ok closing_back [OF s c] empty in \<open>auto simp: wp_ret wp_close_failure\<close>)
  qed
qed

lemma wp_close:
  assumes s: "sched_inv s"
  shows "wp (close env now_ns abort)
    (\<lambda>out t. at_ease t \<and> \<not> s_accepting t \<and> mset (map rc_request_id (co_completions out)) = known_ids s \<and> co_settlement_failures out = [])
    (\<lambda>(e, fs) t. handed_back s t \<and> fs = []) s"
proof -
  let ?b = "begin_shutdown s" and ?c = "(begin_shutdown s)\<lparr>s_completion_outbox := [], s_last_now_ns := Some now_ns\<rparr>"
  have f: "\<not> s_accepting ?b" "s_requests ?b = s_requests s" "s_completion_outbox ?b = s_completion_outbox s"
    "s_completion_outbox_capacity ?b = s_completion_outbox_capacity s" "s_next_request_id ?b = s_next_request_id s"
    by (simp_all add: begin_shutdown_def)
  have b: "sched_inv ?b" "handed_back s ?b" using s le_begin_shutdown [of s] f by (simp_all add: handed_back_def known_ids_def)
  have start: "closing s (s_completion_outbox s) ?c" if v: "validate_now ?b now_ns = Inr ()"
  proof -
    have "sched_inv (?b\<lparr>s_completion_outbox := []\<rparr>)" by (rule sched_outbox [OF b(1), of "s_completion_outbox s"]) (simp add: f)
    then have "sched_inv ?c" by simp
    moreover have "sched_le s (?b\<lparr>s_last_now_ns := Some now_ns\<rparr>)" using sched_le_trans [OF le_begin_shutdown clock_advances [OF v]] .
    then have "sched_le s ?c" by (simp add: sched_le_def)
    ultimately show ?thesis by (simp add: closing_def f known_ids_def)
  qed
  have settle: "wp (bindM (settle_inflight env now_ns abort (s_completion_outbox s)) (\<lambda>(completions, settlement_failures).
     orClose (shutdown env now_ns)
       (\<lambda>error. close_failure error completions settlement_failures) (\<lambda>remaining.
     let completions = completions @ remaining in
     withM (\<lambda>s.
     if \<not> quiescent s
     then close_failure (InvalidPlan ''close cleanup''
            ''successful shutdown left live ownership or pending notifications'')
            completions settlement_failures
     else orClose (tryM (sched_metrics_snapshot env s))
       (\<lambda>error. close_failure error completions settlement_failures) (\<lambda>final_metrics.
     ret \<lparr>co_completions = completions, co_settlement_failures = settlement_failures,
          co_final_metrics = final_metrics\<rparr>)))))
    (\<lambda>out t. at_ease t \<and> \<not> s_accepting t \<and> mset (map rc_request_id (co_completions out)) = known_ids s \<and> co_settlement_failures out = [])
    (\<lambda>(e, fs) t. handed_back s t \<and> fs = []) ?c" if v: "validate_now ?b now_ns = Inr ()"
  proof (rule wp_callI [OF wp_settle_inflight [OF s start [OF v]]], simp, goal_cases)
    case (1 y t)
    obtain cs fs where y: "y = (cs, fs)" by (cases y)
    have c: "closing s cs t" "fs = []" using 1 y by auto
    have inv: "sched_inv t" and ct: "s_completion_outbox t = []" "\<not> s_accepting t" using c by (simp_all add: closing_def)
    show ?case unfolding y prod.case wp_orClose Let_def wp_withM
    proof (rule wp_weaken [OF wp_shutdown [OF inv]], goal_cases)
      case (1 rem u)
      have q: "quiescent u" using at_ease_quiescent(1) 1 by blast
      have e: "at_ease u" "\<not> s_accepting u" "sched_le t u" and ids: "mset (map rc_request_id (cs @ rem)) = known_ids s"
        using 1 c ct by (simp_all add: closing_def known_ids_def) (simp add: union_commute)
      have "closing s (cs @ rem) u"
        using e ids c 1 sched_le_trans [of s t u] by (simp add: closing_def at_ease_def resting_iff)
      moreover have "s_completion_outbox u = []" using e by (simp add: at_ease_def)
      ultimately show ?case using q e ids c(2) closing_back [OF s, of "cs @ rem" u]
        by (simp add: wp_orClose wp_tryM wp_close_failure wp_ret split: sum.split)
    next
      case (2 e u)
      have "closing s cs u" using 2 c sched_le_trans [of s t u] by (simp add: closing_def)
      then show ?case using closing_back [OF s] c(2) 2 ct by (simp add: wp_close_failure)
    qed
  qed
  show ?thesis unfolding close_def wp_bind_mod wp_withM wp_orClose wp_tryM wp_throwM wp_reserve
    using settle b f by (simp add: drain_completion_outbox_def wp_simps split: sum.split)
qed

end
