(* ===== verification/Scheduler_Machine.thy ===== *)
theory Scheduler_Machine
  imports Scheduler_Close
begin

text \<open>
  The scheduler as a state machine: every public operation that changes it is a step, whatever its
  arguments, clock value and allocator behaviour, and whether it succeeds or fails. Every reachable
  scheduler satisfies \<open>sched_inv\<close>, and what only grows only grows.
\<close>

subsection \<open>Submission\<close>

lemma quiet_sched:
  assumes "sched_inv s" and "quiet s t"
  shows "sched_inv t" and "sched_le s t" and "known_ids t = known_ids s"
proof -
  obtain n where n: "clock_le (s_last_now_ns s) n" "metric_only (s\<lparr>s_last_now_ns := n\<rparr>) t" using assms(2) by (auto simp: quiet_def)
  show "sched_inv t" using sched_metric [OF n(2)] assms(1) by simp
  have "sched_le s (s\<lparr>s_last_now_ns := n\<rparr>)" using n(1) by (simp add: sched_le_def)
  then show "sched_le s t" using n(2) by (rule le_metric)
  show "known_ids t = known_ids s" using metric_kept [OF n(2)] by (simp add: kept_def known_ids_def)
qed

lemma submitted_fields:
  assumes "submitted d now_ns s t r"
  shows "s_requests t = s_requests s @ [r]" "s_inflight t = s_inflight s" "s_config t = s_config s" "s_completion_outbox t = s_completion_outbox s"
    "s_next_request_id t = s_next_request_id s + 1" "sched_le s t" "policies_ok t = policies_ok s"
    "rq_request_id r = RequestId (s_next_request_id s)" "prompt r \<noteq> [] \<Longrightarrow> flow_ok [] r" "rq_descriptor r = d"
proof -
  obtain p' u where u: "quiet (arrived p' r s) t" using assms by (auto simp: submitted_def Let_def)
  obtain n where n: "clock_le (s_last_now_ns s) n" "metric_only ((arrived p' r s)\<lparr>s_last_now_ns := n\<rparr>) t"
    using u by (auto simp: quiet_def arrived_def)
  show f: "s_requests t = s_requests s @ [r]" "s_inflight t = s_inflight s" "s_config t = s_config s" "s_completion_outbox t = s_completion_outbox s"
    "s_next_request_id t = s_next_request_id s + 1" "policies_ok t = policies_ok s"
    using n(2) by (auto simp: metric_only_def arrived_def policies_ok_def)
  have "s_next_iteration_id t = s_next_iteration_id s" "s_last_now_ns t = n" "s_accepting t = s_accepting s"
    using n(2) by (auto simp: metric_only_def arrived_def)
  then show "sched_le s t" using f n(1) by (simp add: sched_le_def)
  show "rq_request_id r = RequestId (s_next_request_id s)" "rq_descriptor r = d"
    using assms by (auto simp: submitted_def Let_def fresh_record_def)
  show "prompt r \<noteq> [] \<Longrightarrow> flow_ok [] r"
    using assms by (auto simp: submitted_def Let_def fresh_record_def flow_ok_def phase_ok_def)
qed

lemma sched_submitted:
  assumes inv: "sched_inv s" and t: "core_inv t" "submitted d now_ns s t r"
  shows "sched_inv t"
proof -
  note f = submitted_fields [OF t(2)]
  have core: "core_inv s" "flow_inv (items_of s) s" "plan_ok s" "policies_ok s" using inv by (simp_all add: sched_inv_def)
  have it: "items_of t = items_of s" by (simp add: items_of_def f)
  have sub: "active_ids (s_requests s) \<subseteq> active_ids (s_requests t)" by (auto simp: active_ids_def f)
  have "prompt r \<noteq> []" using t(1) f(1) by (auto simp: core_inv_def rec_ok_def)
  then have new: "flow_ok [] r" by (rule f(9))
  have "rq_request_id r \<notin> fi_request_id ` set (items_of s)"
  proof
    assume "rq_request_id r \<in> fi_request_id ` set (items_of s)"
    then have "rq_request_id r \<in> active_ids (s_requests s)" using core(2) by (auto simp: flow_inv_def)
    then obtain x where "x \<in> set (s_requests s)" "rq_request_id x = rq_request_id r" by (auto simp: active_ids_def)
    moreover have "\<forall>y\<in>set (s_requests s). request_value (rq_request_id y) < s_next_request_id s"
      using core(1) by (auto simp: core_inv_def ids_ok_def)
    ultimately show False using f(8) by force
  qed
  then have "flow_ok (items_of s) r" using new by (auto simp: flow_ok_def image_iff)
  then have "flow_inv (items_of t) t" using core(2) sub by (auto simp: flow_inv_def it f)
  moreover have "plan_ok t" using core(3) unfolding plan_ok_def f(1,2) by fastforce
  ultimately show ?thesis using t(1) core(4) by (simp add: sched_inv_def f)
qed

lemma wp_submit_inv:
  assumes inv: "sched_inv s"
  shows "wp (submit env d now_ns)
    (\<lambda>sub t. sched_inv t \<and> sched_le s t \<and> s_accepting s \<and> sub_request_id sub = RequestId (s_next_request_id s) \<and>
       known_ids t = add_mset (sub_request_id sub) (known_ids s))
    (\<lambda>_ t. sched_inv t \<and> sched_le s t \<and> known_ids t = known_ids s) s"
proof -
  have core: "core_inv s" using inv by (simp add: sched_inv_def)
  show ?thesis
  proof (rule wp_weaken [OF wp_submit [OF core]], goal_cases)
    case (1 sub t)
    then obtain r where r: "submitted d now_ns s t r" by blast
    show ?case using 1 sched_submitted [OF inv _ r] submitted_fields [OF r] by (auto simp: known_ids_def)
  next
    case (2 e t)
    then show ?case using quiet_sched [OF inv] by blast
  qed
qed

subsection \<open>Configuration\<close>

lemma wp_setters:
  assumes inv: "sched_inv s"
  shows "wp (set_atomic_prefill_chunks b) (\<lambda>_ t. sched_inv t \<and> sched_le s t) (\<lambda>_ t. t = s) s"
    and "wp (set_prefill_plateau_policy a) (\<lambda>_ t. sched_inv t \<and> sched_le s t) (\<lambda>_ t. t = s) s"
    and "wp (set_prefill_coalescing_policy c) (\<lambda>_ t. sched_inv t \<and> sched_le s t) (\<lambda>_ t. t = s) s"
    and "wp (set_prefill_burst_policy e) (\<lambda>_ t. sched_inv t \<and> sched_le s t) (\<lambda>_ t. t = s) s"
proof -
  have pol: "policies_ok s" using inv by (simp add: sched_inv_def)
  have set: "sched_inv t" "sched_le s t" if "core_inv t" "s_requests t = s_requests s" "s_inflight t = s_inflight s" "policies_ok t"
      "s_config t = s_config s" "s_next_request_id t = s_next_request_id s" "s_next_iteration_id t = s_next_iteration_id s"
      "s_last_now_ns t = s_last_now_ns s" "s_accepting t = s_accepting s" for t
    using sched_same [OF inv that(1-4)] that by (simp_all add: sched_le_def)
  have core: "core_inv s" using inv by (simp add: sched_inv_def)
  show "wp (set_atomic_prefill_chunks b) (\<lambda>_ t. sched_inv t \<and> sched_le s t) (\<lambda>_ t. t = s) s"
    using core pol by (auto simp: set_atomic_prefill_chunks_def wp_simps policies_ok_def intro!: set)
  show "wp (set_prefill_plateau_policy a) (\<lambda>_ t. sched_inv t \<and> sched_le s t) (\<lambda>_ t. t = s) s"
    using core pol by (auto simp: set_prefill_plateau_policy_def transposeE_def wp_simps policies_ok_def plateau_validate_exact
      split: sum.split option.splits intro!: set)
  show "wp (set_prefill_coalescing_policy c) (\<lambda>_ t. sched_inv t \<and> sched_le s t) (\<lambda>_ t. t = s) s"
    using core pol by (auto simp: set_prefill_coalescing_policy_def transposeE_def wp_simps policies_ok_def coalescing_validate_def validate_nonzero_def failE_eq
      split: sum.split option.splits intro!: set)
  show "wp (set_prefill_burst_policy e) (\<lambda>_ t. sched_inv t \<and> sched_le s t) (\<lambda>_ t. t = s) s"
    using core pol by (auto simp: set_prefill_burst_policy_def transposeE_def wp_simps policies_ok_def burst_validate_def validate_nonzero_def failE_eq
      split: sum.split option.splits intro!: set)
qed

lemma wp_enable_prefix_cache:
  assumes inv: "sched_inv s" and fresh: "ext_of (s_prefix_cache s) = []"
  shows "wp (enable_prefix_cache env n) (\<lambda>_ t. sched_inv t \<and> sched_le s t) (\<lambda>_ t. t = s) s"
proof -
  have "sched_inv (s\<lparr>s_prefix_cache := Some c\<rparr>)" if n: "prefix_cache_new env n = Inr c" and none: "s_requests s = []" for c
  proof (rule sched_same [OF inv])
    have c: "cache_inv c []" by (rule cache_inv_new [OF n])
    have "key_at c = Map.empty" using n by (auto simp: prefix_cache_new_def key_at_def entry_map_def fun_eq_iff)
    then have "cache_blocks c = []" by (rule empty_cache_blocks)
    then show "core_inv (s\<lparr>s_prefix_cache := Some c\<rparr>)" using inv c none fresh
      by (auto simp: sched_inv_def core_inv_def kv_part_def cache_ok_def ext_of_def)
    show "policies_ok (s\<lparr>s_prefix_cache := Some c\<rparr>)" using inv by (simp add: sched_inv_def policies_ok_def)
  qed simp_all
  then show ?thesis by (auto simp: enable_prefix_cache_def wp_simps sched_le_def split: sum.split)
qed

lemma wp_pop:
  assumes inv: "sched_inv s"
  shows "wp pop_pending_completion (\<lambda>_ t. sched_inv t \<and> sched_le s t) (\<lambda>_ _. False) s"
  using inv sched_outbox [OF inv, of "[hd (s_completion_outbox s)]" "tl (s_completion_outbox s)"]
  by (cases "s_completion_outbox s") (auto simp: pop_pending_completion_def wp_simps sched_le_def)

subsection \<open>Construction\<close>

lemma wp_pool_new:
  assumes "layout_wf layout"
  shows "wp (kv_block_pool_new env layout) (\<lambda>p _. kv_inv p [] []) (\<lambda>_ _. True) c"
proof (rule wpI)
  fix p c' assume "kv_block_pool_new env layout c = (Inr p, c')"
  then have "kv_sys_init (p, [], [])" using assms by (auto simp: kv_sys_init_def)
  from kv_sys_init_inv [OF this] show "kv_inv p [] []" by (simp add: kv_sys_inv_def)
qed simp

lemma refreshed [simp]:
  "at_ease (snd (refresh_metric_gauges env s)) = at_ease s" "s_config (snd (refresh_metric_gauges env s)) = s_config s"
  "s_accepting (snd (refresh_metric_gauges env s)) = s_accepting s"
proof -
  have "metric_only s (snd (refresh_metric_gauges env s))"
    using wp_refresh_metric_gauges [of s "\<lambda>_. metric_only s" env "\<lambda>_. metric_only s"]
    by (auto simp: wp_def split: prod.splits sum.splits)
  then show "at_ease (snd (refresh_metric_gauges env s)) = at_ease s" "s_config (snd (refresh_metric_gauges env s)) = s_config s"
    "s_accepting (snd (refresh_metric_gauges env s)) = s_accepting s"
    using resting_metric by (auto simp: at_ease_def metric_only_def)
qed

lemma wp_scheduler_new:
  assumes wf: "layout_wf layout" and usize: "iteration_token_budget config \<le> u64_max"
  shows "wp (scheduler_new env config layout) (\<lambda>s _. at_ease s \<and> s_config s = config \<and> s_accepting s) (\<lambda>_ _. True) c"
  unfolding scheduler_new_def
proof (intro wp_guards, goal_cases)
  case (9 cfg cap _ _ _ _ metrics)
  have cfg: "cfg = config" "config_ok config" using 9(1) by (simp_all add: config_validate_Inr)
  have cap: "cap = max_waiting_requests config + max_active_sequences config" "cap \<le> u64_max"
    using 9(3) by (auto simp: cfg checked_add_def split: if_splits)
  show ?case unfolding wp_bindM wp_zoomM id_def
  proof (rule wp_weaken [OF wp_pool_new [OF wf]], goal_cases)
    case (1 p c')
    show ?case unfolding Let_def wp_ret cfg refreshed
      using 1 cfg(2) cap usize
      by (simp add: at_ease_def resting_def core_inv_def flow_inv_def policies_ok_def ids_ok_def queue_ok_def kv_part_def cache_ok_def ext_of_def
        seqs_def List.map_filter_simps active_ids_def)
  qed simp
qed simp_all

subsection \<open>Steps\<close>

text \<open>The prefix cache is enabled while no cached block is held, which the server does once, right after
  construction; what happens otherwise is \<open>enable_prefix_cache_leaks\<close> below.\<close>

inductive sched_step :: "scheduler \<Rightarrow> scheduler \<Rightarrow> bool" where
  submit: "submit env d now_ns s = (r, t) \<Longrightarrow> sched_step s t"
| plan: "plan_iteration env now_ns s = (r', t) \<Longrightarrow> sched_step s t"
| complete: "complete_iteration env result now_ns s = (r'', t) \<Longrightarrow> sched_step s t"
| abort: "abort_iteration env iteration_id ab now_ns s = (r'', t) \<Longrightarrow> sched_step s t"
| cancel: "cancel env x now_ns s = (rc, t) \<Longrightarrow> sched_step s t"
| stop: "sched_step s (begin_shutdown s)"
| shutdown: "shutdown env now_ns s = (rs, t) \<Longrightarrow> sched_step s t"
| close_failed: "close env now_ns disposition s = (Inl e, t) \<Longrightarrow> sched_step s t"
| pop: "pop_pending_completion s = (ro, t) \<Longrightarrow> sched_step s t"
| atomic: "set_atomic_prefill_chunks b s = (ru, t) \<Longrightarrow> sched_step s t"
| plateau: "set_prefill_plateau_policy pp s = (ru, t) \<Longrightarrow> sched_step s t"
| coalescing: "set_prefill_coalescing_policy pc s = (ru, t) \<Longrightarrow> sched_step s t"
| burst: "set_prefill_burst_policy pb s = (ru, t) \<Longrightarrow> sched_step s t"
| cache: "ext_of (s_prefix_cache s) = [] \<Longrightarrow> enable_prefix_cache env n s = (ru, t) \<Longrightarrow> sched_step s t"

definition sched_init :: "scheduler \<Rightarrow> bool" where
  "sched_init s \<longleftrightarrow> (\<exists>env config layout c c'. layout_wf layout \<and> iteration_token_budget config \<le> u64_max \<and>
     scheduler_new env config layout c = (Inr s, c'))"

lemma sched_init_inv: "sched_init s \<Longrightarrow> sched_inv s"
  using wp_scheduler_new by (fastforce simp: sched_init_def at_ease_def resting_iff dest: wpD_Inr)

text \<open>Both outcomes of an operation at once.\<close>

lemma wp_outcome:
  assumes "wp m Q E s" and "\<And>x t. Q x t \<Longrightarrow> P t" and "\<And>e t. E e t \<Longrightarrow> P t" and "m s = (r, t)"
  shows "P t"
  using assms by (auto simp: wp_def split: sum.splits)

lemma rested_le:
  assumes "validate_now s now_ns = Inr ()" and "rested (s\<lparr>s_last_now_ns := Some now_ns, s_inflight := None\<rparr>) (t, u)"
  shows "sched_inv t" and "sched_le s t"
proof -
  show "sched_inv t" using assms(2) by (simp add: rested_def resting_iff)
  have "sched_le s (s\<lparr>s_last_now_ns := Some now_ns, s_inflight := None\<rparr>)" using clock_advances [OF assms(1)] by (simp add: sched_le_def)
  moreover have "sched_le (s\<lparr>s_last_now_ns := Some now_ns, s_inflight := None\<rparr>) t"
    using kept_le assms(2) by (fastforce simp: rested_def sched_le_def)
  ultimately show "sched_le s t" by (rule sched_le_trans)
qed

lemma sched_step_inv:
  assumes "sched_step s t" and inv: "sched_inv s"
  shows "sched_inv t \<and> sched_le s t"
  using assms(1)
proof cases
  case (submit env d now_ns r)
  show ?thesis by (rule wp_outcome [OF wp_submit_inv [OF inv] _ _ submit]) auto
next
  case (plan env now_ns r)
  show ?thesis by (rule wp_outcome [OF wp_plan_iteration [OF inv] _ _ plan]) auto
next
  case (complete env result now_ns r)
  show ?thesis by (rule wp_outcome [OF wp_complete_iteration [OF inv] _ _ complete]) (use rested_le inv in auto)
next
  case (abort env iteration_id ab now_ns r)
  show ?thesis by (rule wp_outcome [OF wp_abort_iteration [OF inv] _ _ abort]) (use rested_le inv in auto)
next
  case (cancel env x now_ns r)
  show ?thesis by (rule wp_outcome [OF wp_cancel [OF inv] _ _ cancel]) auto
next
  case stop
  then show ?thesis using inv le_begin_shutdown by simp
next
  case (shutdown env now_ns r)
  show ?thesis by (rule wp_outcome [OF wp_shutdown [OF inv] _ _ shutdown]) (auto simp: at_ease_def resting_iff)
next
  case (close_failed env now_ns disposition e)
  show ?thesis using wpD_Inl [OF wp_close [OF inv] close_failed] by (auto simp: handed_back_def split: prod.splits)
next
  case (pop r)
  show ?thesis by (rule wp_outcome [OF wp_pop [OF inv] _ _ pop]) auto
next
  case (atomic b r)
  show ?thesis by (rule wp_outcome [OF wp_setters(1) [OF inv] _ _ atomic]) (use inv in auto)
next
  case (plateau pp r)
  show ?thesis by (rule wp_outcome [OF wp_setters(2) [OF inv] _ _ plateau]) (use inv in auto)
next
  case (coalescing pc r)
  show ?thesis by (rule wp_outcome [OF wp_setters(3) [OF inv] _ _ coalescing]) (use inv in auto)
next
  case (burst pb r)
  show ?thesis by (rule wp_outcome [OF wp_setters(4) [OF inv] _ _ burst]) (use inv in auto)
next
  case (cache env n r)
  show ?thesis by (rule wp_outcome [OF wp_enable_prefix_cache [OF inv cache(1)] _ _ cache(2)]) (use inv in auto)
qed

interpretation sched: invariant_system sched_init sched_step sched_inv sched_le
  by unfold_locales (use sched_init_inv sched_step_inv sched_le_trans in auto)

end
