(* ===== verification/Scheduler_Outcomes.thy ===== *)
theory Scheduler_Outcomes
  imports Scheduler_Machine
begin

text \<open>
  What becomes of each request: the exact outcome of a cancellation, and the exact effect of a completed
  iteration on every request of its plan, on the requests outside it, and on the updates that are returned.
  The lemmas add the effect to the contracts of the invariant by \<open>wp_conj\<close>.
\<close>

subsection \<open>Cancellation\<close>

lemma update_by_key:
  assumes "distinct (map f xs)" and "i < length xs" and "f (xs ! i) = x"
  shows "xs[i := g (xs ! i)] = map (\<lambda>r. if f r = x then g r else r) xs"
proof (rule nth_equalityI)
  fix j
  assume "j < length (xs[i := g (xs ! i)])"
  then have j: "j < length xs" by simp
  have "f (xs ! j) = x \<longleftrightarrow> j = i" using assms j by (metis length_map nth_eq_iff_index_eq nth_map)
  then show "xs[i := g (xs ! i)] ! j = map (\<lambda>r. if f r = x then g r else r) xs ! j" using j by (auto simp: nth_list_update)
qed simp

definition has_tombstone :: "scheduler \<Rightarrow> request_id \<Rightarrow> bool" where
  "has_tombstone s x \<longleftrightarrow> x \<in> tt_request_id ` set (s_terminal s)"

definition cancelled_to :: "request_id \<Rightarrow> u64 \<Rightarrow> scheduler \<Rightarrow> cancellation_outcome \<Rightarrow> scheduler \<Rightarrow> bool" where
  "cancelled_to x now_ns s out t \<longleftrightarrow> s_inflight t = s_inflight s \<and>
     (if has_tombstone s x then out = cancellation x False True None \<and> t = s\<lparr>s_last_now_ns := Some now_ns\<rparr>
      else \<exists>r\<in>set (s_requests s). rq_request_id r = x \<and>
        (if is_inflight s x
         then out = cancellation x True False None \<and> s_terminal t = s_terminal s \<and>
           s_requests t = map (\<lambda>r. if rq_request_id r = x then r\<lparr>rq_cancellation_deferred := True\<rparr> else r) (s_requests s)
         else out = cancellation x False False (Some (completion_of r ReasonCancelled now_ns)) \<and> has_tombstone t x \<and>
           x \<notin> rq_request_id ` set (s_requests t) \<and> add_mset r (mset (s_requests t)) = mset (s_requests s)))"

text \<open>When a cancellation is refused.\<close>

definition cancel_refused :: "request_id \<Rightarrow> u64 \<Rightarrow> scheduler \<Rightarrow> bool" where
  "cancel_refused x now_ns s \<longleftrightarrow> s_completion_outbox s \<noteq> [] \<or> validate_now s now_ns \<noteq> Inr () \<or>
     \<not> has_tombstone s x \<and> x \<notin> rq_request_id ` set (s_requests s)"

lemma record_index_None: "record_index s x = None \<longleftrightarrow> x \<notin> rq_request_id ` set (s_requests s)"
  by (auto simp: record_index_def position_None)

lemma deferred_in_flight:
  assumes "sched_inv s" and "i < length (s_requests s)" and "rq_cancellation_deferred (s_requests s ! i)"
  shows "is_inflight s (rq_request_id (s_requests s ! i))"
proof (rule ccontr)
  assume "\<not> is_inflight s (rq_request_id (s_requests s ! i))"
  then have "rq_request_id (s_requests s ! i) \<notin> fi_request_id ` set (items_of s)" by (simp add: is_inflight_iff)
  moreover have "flow_ok (items_of s) (s_requests s ! i)" using assms by (simp add: sched_inv_def flow_inv_def)
  ultimately have "rq_sequence (s_requests s ! i) = None" using assms(3) by (auto simp: flow_ok_def)
  moreover have "rec_ok (s_config s) (s_requests s ! i)" using assms by (simp add: sched_inv_def core_inv_def)
  ultimately show False using assms(3) by (auto simp: rec_ok_def)
qed

text \<open>The last step of an immediate cancellation, after the request has left.\<close>

lemma wp_cancel_now:
  assumes inv: "sched_inv s" and i: "record_index s x = Some i" and ob: "s_completion_outbox s = []"
  shows "wp (bindM (finish_live_request x ReasonCancelled now_ns) (\<lambda>_.
       bindM pop_pending_completion (\<lambda>popped.
       bindM (tryM (ok_or popped (InvalidPlan ''completion outbox''
         ''immediate cancellation did not enqueue its terminal payload''))) (\<lambda>completion.
       bindM (observe_metric record_cancellation) (\<lambda>_.
       bindM (refresh_metric_gauges env) (\<lambda>_.
       ret (cancellation x False False (Some completion))))))))
    (\<lambda>out t. out = cancellation x False False (Some (completion_of (s_requests s ! i) ReasonCancelled now_ns)) \<and>
       has_tombstone t x \<and> s_requests t = swap_remove i (s_requests s) \<and> s_inflight t = s_inflight s) (\<lambda>_ _. False) s"
proof -
  have core: "core_inv s" using inv by (simp add: sched_inv_def)
  note ix = record_indexD [OF i]
  have vt: "valid_transition (rq_state (s_requests s ! i)) (reason_state ReasonCancelled)"
    using live_cancellable [OF core_nth [OF core, of i]] ix by simp
  show ?thesis
  proof (rule wp_callI [OF wp_finish_live_request [OF core i vt]], simp, goal_cases)
    case (1 _ t)
    then have "left i ReasonCancelled now_ns s t" by simp
    note f = left_fields [OF this]
    have tail: "wp (bindM (observe_metric record_cancellation) (\<lambda>_. bindM (refresh_metric_gauges env) (\<lambda>_. ret c)))
        (\<lambda>out t. out = c \<and> has_tombstone t x \<and> s_requests t = swap_remove i (s_requests s) \<and> s_inflight t = s_inflight s)
        (\<lambda>_ _. False) (t\<lparr>s_completion_outbox := []\<rparr>)" for c
      by (rule wp_metrics_tail) (use f(1,3,6) ix in \<open>auto simp: metric_only_def has_tombstone_def remembered_def\<close>)
    show ?case using f(2) ob tail
      by (simp add: pop_pending_completion_def wp_bindM [of "withM _"] wp_withM wp_bindM [of "modM _"] wp_modM wp_ret
          wp_bindM [of "tryM _"] wp_tryM)
  qed
qed

lemma wp_cancel_exact:
  assumes inv: "sched_inv s"
  shows "wp (cancel env x now_ns) (\<lambda>out t. \<not> cancel_refused x now_ns s \<and> cancelled_to x now_ns s out t)
    (\<lambda>_ t. cancel_refused x now_ns s \<and> (t = s \<or> t = s\<lparr>s_last_now_ns := Some now_ns\<rparr>)) s"
proof -
  let ?s = "s\<lparr>s_last_now_ns := Some now_ns\<rparr>"
  have invs: "sched_inv ?s" using inv by simp
  have core: "core_inv s" using inv by (simp add: sched_inv_def)
  have tomb: "list_ex (\<lambda>entry. tt_request_id entry = x) (s_terminal s) \<longleftrightarrow> has_tombstone s x"
    by (auto simp: list_ex_iff has_tombstone_def)
  show ?thesis unfolding cancel_def wp_withM
  proof (rule wp_tryI, simp add: cancel_refused_def ensure_completion_backlog_empty_def split: if_splits, goal_cases)
    case (1 _)
    then have empty: "s_completion_outbox s = []" by (simp add: ensure_completion_backlog_empty_def)
    show ?case
    proof (cases "validate_now s now_ns")
      case (Inl e)
      then show ?thesis by (simp add: wp_bindM [of "observe_now _"] wp_observe_now cancel_refused_def)
    next
      case (Inr u)
      show ?thesis
      proof (cases "has_tombstone s x")
        case True
        then show ?thesis using Inr empty tomb
          by (simp add: wp_bindM [of "observe_now _"] wp_observe_now wp_ret cancelled_to_def cancel_refused_def)
      next
        case False
        show ?thesis
        proof (cases "record_index s x")
          case None
          then show ?thesis using Inr False tomb record_index_None [of s x]
            by (simp add: wp_bindM [of "observe_now _"] wp_observe_now wp_bindM [of "tryM _"] wp_tryM cancel_refused_def)
        next
          case (Some i)
          note ix = record_indexD [OF Some]
          have ixs: "record_index ?s x = Some i" using Some by (simp add: record_index_def)
          have ok: "\<not> cancel_refused x now_ns s" using Inr empty ix by (auto simp: cancel_refused_def)
          have mem: "s_requests s ! i \<in> set (s_requests s)" using ix by simp
          have upd: "map (\<lambda>r. if rq_request_id r = x then r\<lparr>rq_cancellation_deferred := True\<rparr> else r) (s_requests s) =
              (s_requests s)[i := (s_requests s ! i)\<lparr>rq_cancellation_deferred := True\<rparr>]"
            using update_by_key [OF core_ids [OF core], of i x "\<lambda>r. r\<lparr>rq_cancellation_deferred := True\<rparr>"] ix by simp
          show ?thesis
          proof (cases "rq_cancellation_deferred (s_requests s ! i)")
            case True
            have fl: "is_inflight s x" using deferred_in_flight [OF inv _ True] ix by simp
            have "(s_requests s ! i)\<lparr>rq_cancellation_deferred := True\<rparr> = s_requests s ! i" using True by simp
            then have "cancelled_to x now_ns s (cancellation x True False None) ?s"
              using False fl mem ix upd by (auto simp: cancelled_to_def)
            then show ?thesis using Inr False True tomb Some ok
              by (simp add: wp_bindM [of "observe_now _"] wp_observe_now wp_bindM [of "tryM _"] wp_tryM wp_ret)
          next
            case nd: False
            show ?thesis
            proof (cases "is_inflight s x")
              case True
              let ?t = "?s\<lparr>s_requests := (s_requests ?s)[i := (s_requests ?s ! i)\<lparr>rq_cancellation_deferred := True\<rparr>]\<rparr>"
              have "wp (bindM (observe_metric record_cancellation) (\<lambda>_. bindM (refresh_metric_gauges env) (\<lambda>_. ret (cancellation x True False None))))
                  (\<lambda>out t. \<not> cancel_refused x now_ns s \<and> cancelled_to x now_ns s out t) E ?t" for E
                by (rule wp_metrics_tail) (use False True mem ix ok in \<open>auto simp: cancelled_to_def upd metric_only_def\<close>)
              then show ?thesis using Inr False nd True tomb Some
                by (simp add: wp_bindM [of "observe_now _"] wp_observe_now wp_bindM [of "tryM _"] wp_tryM
                    wp_bindM [of "mod_request _ _"] wp_mod_request)
            next
              case out: False
              have "1 \<le> length (s_requests s)" using ix by (cases "s_requests s") simp_all
              then have "ensure_completion_capacity s 1 = Inr ()" by (rule core_capacity [OF core])
              moreover have "wp (bindM (finish_live_request x ReasonCancelled now_ns) (\<lambda>_.
                   bindM pop_pending_completion (\<lambda>popped.
                   bindM (tryM (ok_or popped (InvalidPlan ''completion outbox''
                     ''immediate cancellation did not enqueue its terminal payload''))) (\<lambda>completion.
                   bindM (observe_metric record_cancellation) (\<lambda>_.
                   bindM (refresh_metric_gauges env) (\<lambda>_.
                   ret (cancellation x False False (Some completion))))))))
                 (\<lambda>out t. \<not> cancel_refused x now_ns s \<and> cancelled_to x now_ns s out t) E ?s" for E
              proof (rule wp_weaken [OF wp_cancel_now [OF invs ixs]], goal_cases)
                case (2 c t)
                have ib: "i < length (s_requests s)" using ix by simp
                have "x \<notin> rq_request_id ` set (swap_remove i (s_requests s))"
                  using swap_remove_distinct_map(2) [OF ib core_ids [OF core]] ix by simp
                then show ?case using 2 ok False out mem ix mset_swap_remove [OF ib]
                  by (auto simp: cancelled_to_def)
              qed (use empty in simp_all)
              ultimately show ?thesis using Inr False nd out tomb Some
                by (simp add: wp_bindM [of "observe_now _"] wp_observe_now wp_bindM [of "tryM _"] wp_tryM)
            qed
          qed
        qed
      qed
    qed
  qed
qed

subsection \<open>What an item does to its request\<close>

text \<open>The record of a request after an iteration processed its prompt chunk or its decoding step, or the
  completion it ends with. The sequence and the prefix links are left to \<open>bare\<close>, which forgets them.\<close>

definition moved :: "work_kind \<Rightarrow> usize \<Rightarrow> request_record \<Rightarrow> request_record" where
  "moved kind target r = (if kind = Prefill then r\<lparr>rq_prefill_cursor := target\<rparr> else r)"

definition with_token :: "iteration_output \<Rightarrow> request_record \<Rightarrow> request_record" where
  "with_token out r = r\<lparr>rq_generated_token_ids := rq_generated_token_ids r @ [io_token_id out]\<rparr>"

definition item_outcome ::
  "work_kind \<Rightarrow> usize \<Rightarrow> iteration_output option \<Rightarrow> u64 \<Rightarrow> request_record \<Rightarrow> request_completion + request_record" where
  "item_outcome kind target output now_ns r =
     (if rq_cancellation_deferred r then Inl (completion_of r ReasonCancelled now_ns)
      else case output of
        None \<Rightarrow> Inr ((moved kind target r)\<lparr>rq_state := Prefilling, rq_ready_since_ns := now_ns\<rparr>)
      | Some out \<Rightarrow>
          if io_stop out \<or> length (rq_generated_token_ids r) + 1 = max_new r
          then Inl (completion_of (with_token out r) (if io_stop out then ReasonStop else ReasonLength) now_ns)
          else Inr ((with_token out (moved kind target r))\<lparr>rq_state := Decoding, rq_ready_since_ns := now_ns\<rparr>))"

definition bare :: "request_record \<Rightarrow> request_record" where
  "bare r = r\<lparr>rq_sequence := None, rq_prefix_tip := 0, rq_prefix_linked := False\<rparr>"

text \<open>The token an item publishes.\<close>

definition published_tokens :: "request_record list \<Rightarrow> request_id \<Rightarrow> iteration_output option \<Rightarrow> token_event list" where
  "published_tokens rs x output =
     (case (find (\<lambda>r. rq_request_id r = x) rs, output) of
        (Some r, Some out) \<Rightarrow>
          if rq_cancellation_deferred r then []
          else [\<lparr>te_request_id = x, te_token_id = io_token_id out, te_generated_index = length (rq_generated_token_ids r)\<rparr>]
      | _ \<Rightarrow> [])"

text \<open>Request \<open>r\<close> has become what the outcome says: a delivered completion, or a live record whose sequence
  is committed up to the target of the item.\<close>

definition became :: "usize \<Rightarrow> request_completion + request_record \<Rightarrow> request_record list \<Rightarrow> request_completion list \<Rightarrow> bool" where
  "became target outcome rs cs \<longleftrightarrow>
     (case outcome of
        Inl c \<Rightarrow> c \<in> set cs
      | Inr r1 \<Rightarrow> \<exists>r'\<in>set rs. bare r' = bare r1 \<and> (\<exists>q. rq_sequence r' = Some q \<and> sq_logical_length q = target))"

lemma bare_fields:
  assumes "bare r' = bare r"
  shows "rq_request_id r' = rq_request_id r" "rq_descriptor r' = rq_descriptor r" "rq_generated_token_ids r' = rq_generated_token_ids r"
    "rq_cancellation_deferred r' = rq_cancellation_deferred r" "rq_cached_prompt_tokens r' = rq_cached_prompt_tokens r"
    "completion_of r' reason n = completion_of r reason n" "completion_of (with_token out r') reason n = completion_of (with_token out r) reason n"
  using assms by (cases r; cases r'; simp add: bare_def completion_of_def with_token_def)+

lemma bare_after:
  assumes "bare r' = bare r"
  shows "bare ((moved kind target r')\<lparr>rq_state := st, rq_ready_since_ns := n\<rparr>) = bare ((moved kind target r)\<lparr>rq_state := st, rq_ready_since_ns := n\<rparr>)"
    and "bare ((with_token out (moved kind target r'))\<lparr>rq_state := st, rq_ready_since_ns := n\<rparr>) =
      bare ((with_token out (moved kind target r))\<lparr>rq_state := st, rq_ready_since_ns := n\<rparr>)"
  using assms by (cases r; cases r'; simp add: bare_def moved_def with_token_def)+

lemma outcome_bare:
  assumes "bare r' = bare r"
  shows "became target (item_outcome kind target output n r') rs cs = became target (item_outcome kind target output n r) rs cs"
  by (simp add: became_def item_outcome_def bare_fields [OF assms] bare_after [OF assms] split: option.split)

lemma strip_bare: "strip r' = strip r \<Longrightarrow> bare r' = bare r"
  by (cases r; cases r'; simp add: strip_def bare_def)

lemma find_by_id:
  "distinct (map rq_request_id rs) \<Longrightarrow> r \<in> set rs \<Longrightarrow> rq_request_id r = x \<Longrightarrow> find (\<lambda>r. rq_request_id r = x) rs = Some r"
  by (induction rs) (auto simp: image_iff)

lemma became_persists:
  assumes "became target outcome rs cs" and "set cs \<subseteq> set cs'"
    and "\<And>r1 r. outcome = Inr r1 \<Longrightarrow> r \<in> set rs \<Longrightarrow> rq_request_id r = rq_request_id r1 \<Longrightarrow> r \<in> set rs'"
  shows "became target outcome rs' cs'"
proof (cases outcome)
  case (Inl c)
  then show ?thesis using assms(1,2) by (auto simp: became_def)
next
  case (Inr r1)
  then obtain r' where r': "r' \<in> set rs" "bare r' = bare r1" "\<exists>q. rq_sequence r' = Some q \<and> sq_logical_length q = target"
    using assms(1) by (auto simp: became_def)
  then have "r' \<in> set rs'" using assms(3) [OF Inr] bare_fields(1) by blast
  then show ?thesis using r'(2,3) Inr by (auto simp: became_def)
qed

lemma outcome_id: "item_outcome kind target output n r = Inr r1 \<Longrightarrow> rq_request_id r1 = rq_request_id r"
  by (auto simp: item_outcome_def moved_def with_token_def split: if_splits option.splits)

subsection \<open>Publishing one item\<close>

definition effect :: "settled_inflight_item \<Rightarrow> u64 \<Rightarrow> scheduler \<Rightarrow> iteration_updates \<Rightarrow> scheduler \<times> iteration_updates \<Rightarrow> bool" where
  "effect st now_ns s u w \<longleftrightarrow>
     (\<forall>r\<in>set (s_requests s). if rq_request_id r = si_request_id st
        then became (si_target_logical_length st) (item_outcome (si_kind st) (si_target_logical_length st) (si_output st) now_ns r)
          (s_requests (fst w)) (s_completion_outbox (fst w))
        else r \<in> set (s_requests (fst w))) \<and>
     set (s_completion_outbox s) \<subseteq> set (s_completion_outbox (fst w)) \<and>
     iu_token_events (snd w) = iu_token_events u @ published_tokens (s_requests s) (si_request_id st) (si_output st)"

lemma effectI:
  assumes d: "distinct (map rq_request_id (s_requests s))" and i: "i < length (s_requests s)" "rq_request_id (s_requests s ! i) = si_request_id st"
    and self: "became (si_target_logical_length st) (item_outcome (si_kind st) (si_target_logical_length st) (si_output st) now_ns (s_requests s ! i))
      (s_requests t) (s_completion_outbox t)"
    and others: "\<And>r. r \<in> set (s_requests s) \<Longrightarrow> rq_request_id r \<noteq> si_request_id st \<Longrightarrow> r \<in> set (s_requests t)"
    and out: "set (s_completion_outbox s) \<subseteq> set (s_completion_outbox t)"
    and toks: "iu_token_events v = iu_token_events u @ published_tokens (s_requests s) (si_request_id st) (si_output st)"
  shows "effect st now_ns s u (t, v)"
proof -
  have "r = s_requests s ! i" if "r \<in> set (s_requests s)" "rq_request_id r = si_request_id st" for r
    using that d i by (metis distinct_conv_nth in_set_conv_nth length_map nth_map)
  then show ?thesis using assms(4-) by (auto simp: effect_def)
qed

lemma in_updated:
  "r \<in> set xs \<Longrightarrow> r \<noteq> xs ! i \<Longrightarrow> r \<in> set (xs[i := y])"
  by (metis in_set_conv_nth length_list_update nth_list_update_neq)

text \<open>A request that finishes while its item is published.\<close>

lemma wp_finish_effect:
  assumes core: "core_inv s" and i: "i < length (s_requests s)" "rq_request_id (s_requests s ! i) = si_request_id st"
    and t: "core_inv t" "s_requests t = (s_requests s)[i := r']" "s_completion_outbox t = s_completion_outbox s"
    and r': "rq_request_id r' = si_request_id st" "valid_transition (rq_state r') (reason_state reason)"
    and eq: "item_outcome (si_kind st) (si_target_logical_length st) (si_output st) now_ns (s_requests s ! i) = Inl (completion_of r' reason now_ns)"
    and toks: "iu_token_events v = iu_token_events u @ published_tokens (s_requests s) (si_request_id st) (si_output st)"
  shows "wp (on_sched (finish_live_request (si_request_id st) reason now_ns)) (\<lambda>_. effect st now_ns s u) (\<lambda>_ _. False) (t, v)"
proof -
  have it: "i < length (s_requests t)" "s_requests t ! i = r'" using i t(2) by simp_all
  have idx: "record_index t (si_request_id st) = Some i" using record_index_of [OF core_ids [OF t(1)] it(1)] it(2) r'(1) by simp
  show ?thesis unfolding wp_on_sched
  proof (rule wp_weaken [OF wp_finish_live_request [OF t(1) idx]], goal_cases)
    case (2 _ w)
    then have "left i reason now_ns t w" by simp
    note f = left_fields [OF this]
    have st: "set (s_requests t) = insert r' (set (s_requests w))" using swap_remove_set [OF it(1)] f(1) it(2) by simp
    show ?case
    proof (rule effectI [OF core_ids [OF core] i])
      show "became (si_target_logical_length st) (item_outcome (si_kind st) (si_target_logical_length st) (si_output st) now_ns (s_requests s ! i))
          (s_requests w) (s_completion_outbox w)" using f(2) it(2) eq by (simp add: became_def)
      show "set (s_completion_outbox s) \<subseteq> set (s_completion_outbox w)" using f(2) t(3) by auto
      fix r
      assume r: "r \<in> set (s_requests s)" "rq_request_id r \<noteq> si_request_id st"
      then have "r \<in> set (s_requests t)" using in_updated [of r "s_requests s" i r'] i(2) t(2) by auto
      then show "r \<in> set (s_requests w)" using st r(2) r'(1) by auto
    qed (rule toks)
  qed (use it r' in simp_all)
qed

text \<open>A request that goes on.\<close>

lemma going_on:
  assumes core: "core_inv s" and i: "i < length (s_requests s)" "rq_request_id (s_requests s ! i) = si_request_id st"
    and t: "s_requests t = (s_requests s)[i := r']" "s_completion_outbox t = s_completion_outbox s"
    and eq: "item_outcome (si_kind st) (si_target_logical_length st) (si_output st) now_ns (s_requests s ! i) = Inr r1" "bare r' = bare r1"
    and q: "rq_sequence r' = Some q" "sq_logical_length q = si_target_logical_length st"
    and toks: "iu_token_events v = iu_token_events u @ published_tokens (s_requests s) (si_request_id st) (si_output st)"
  shows "effect st now_ns s u (t, v)"
proof (rule effectI [OF core_ids [OF core] i])
  have "r' \<in> set (s_requests t)" using t(1) i(1) by (simp add: set_update_memI)
  then show "became (si_target_logical_length st) (item_outcome (si_kind st) (si_target_logical_length st) (si_output st) now_ns (s_requests s ! i))
      (s_requests t) (s_completion_outbox t)" using eq q by (auto simp: became_def)
  fix r
  assume "r \<in> set (s_requests s)" "rq_request_id r \<noteq> si_request_id st"
  then show "r \<in> set (s_requests t)" using in_updated [of r "s_requests s" i r'] i(2) t(1) by auto
qed (use t(2) toks in simp_all)

text \<open>The cursor moves and the prompt blocks are listed; the record keeps everything else.\<close>

lemma wp_advance_exact:
  assumes core: "core_inv s" and i: "i < length (s_requests s)" and q: "rq_sequence (s_requests s ! i) = Some q"
    and ok: "committed_ok (s_requests s ! i) q st"
  shows "wp (if si_kind st = Prefill
            then bindM (on_sched (mod_request i (\<lambda>r. r\<lparr>rq_prefill_cursor := si_target_logical_length st\<rparr>))) (\<lambda>_.
                 on_sched (publish_prompt_blocks i))
            else ret ())
    (\<lambda>_ w. snd w = u \<and> s_completion_outbox (fst w) = s_completion_outbox s \<and>
       bare (s_requests (fst w) ! i) = bare (moved (si_kind st) (si_target_logical_length st) (s_requests s ! i))) (\<lambda>_ _. False) (s, u)"
proof (cases "si_kind st")
  case Decode
  then show ?thesis by (simp add: wp_ret moved_def)
next
  case Prefill
  let ?r1 = "(s_requests s ! i)\<lparr>rq_prefill_cursor := si_target_logical_length st\<rparr>"
  let ?s1 = "s\<lparr>s_requests := (s_requests s)[i := ?r1]\<rparr>"
  have st: "rq_state (s_requests s ! i) = Prefilling" "sq_logical_length q = si_target_logical_length st" "sq_pending q = None"
    "\<not> sq_poisoned q" "si_target_logical_length st \<le> length (prompt (s_requests s ! i))"
    using ok Prefill by (auto simp: committed_ok_def)
  have c1: "core_inv ?s1"
    by (rule core_mod [OF core i]) (use core_nth [OF core i] core_linked [OF core i] st(1) in \<open>auto simp: same_books_def rec_ok_def\<close>)
  have "s_completion_outbox t = s_completion_outbox s \<and> bare (s_requests t ! i) = bare ?r1"
    if "t = ?s1 \<or> s_prefix_cache ?s1 \<noteq> None \<and> publishing i ?s1 t" for t
    using that i by (auto simp: publishing_def bare_def)
  moreover have "wp (publish_prompt_blocks i) (\<lambda>_ t. core_inv t \<and> (t = ?s1 \<or> s_prefix_cache ?s1 \<noteq> None \<and> publishing i ?s1 t)) (\<lambda>_ _. False) ?s1"
    by (rule wp_publish_prompt_blocks [OF c1]) (use i q st in simp_all)
  ultimately show ?thesis using Prefill
    by (simp add: wp_bindM wp_on_sched wp_mod_request moved_def) (erule wp_weaken, blast+)
qed

lemma wp_output_effect:
  assumes core: "core_inv s" and i: "i < length (s_requests s)" "rq_request_id (s_requests s ! i) = si_request_id st"
    and t: "core_inv t" "s_requests t = (s_requests s)[i := r]" "s_completion_outbox t = s_completion_outbox s"
    and b: "bare r = bare (moved (si_kind st) (si_target_logical_length st) (s_requests s ! i))" and nc: "\<not> rq_cancellation_deferred (s_requests s ! i)"
    and q: "rq_sequence r = Some q" and ok: "committed_ok r q st" and out: "si_output st = Some out"
  shows "wp (publish_output (si_request_id st) i out now_ns) (\<lambda>_. effect st now_ns s u) (\<lambda>_ _. False) (t, u)"
proof -
  let ?r0 = "s_requests s ! i" and ?r1 = "with_token out r"
  let ?r2 = "?r1\<lparr>rq_state := Decoding, rq_ready_since_ns := now_ns\<rparr>" and ?t1 = "t\<lparr>s_requests := (s_requests t)[i := with_token out r]\<rparr>"
  have it: "i < length (s_requests t)" "s_requests t ! i = r" using i t(2) by simp_all
  have mv: "rq_generated_token_ids r = rq_generated_token_ids ?r0" "rq_descriptor r = rq_descriptor ?r0" "rq_request_id r = si_request_id st"
    "completion_of (with_token out r) reason now_ns = completion_of (with_token out ?r0) reason now_ns" for reason
    using bare_fields [OF b] i(2) by (simp_all add: moved_def with_token_def completion_of_def split: if_splits)
  have st: "rq_state r \<in> {Prefilling, Decoding}" using ok by (cases "si_kind st") (auto simp: committed_ok_def)
  have rec: "rec_ok (s_config t) r" and lk: "linked_ok (s_prefix_cache t) r" using core_nth [OF t(1) it(1)] core_linked [OF t(1) it(1)] it(2) by simp_all
  have c1: "core_inv ?t1"
    using rec lk st q by (intro core_mod [OF t(1) it(1)]) (auto simp: it(2) same_books_def rec_ok_def with_token_def)
  define v where "v = u\<lparr>iu_token_events := iu_token_events u @ [\<lparr>te_request_id = si_request_id st, te_token_id = io_token_id out,
    te_generated_index = length (rq_generated_token_ids r)\<rparr>]\<rparr>"
  have "find (\<lambda>r. rq_request_id r = si_request_id st) (s_requests s) = Some ?r0"
    by (rule find_by_id [OF core_ids [OF core]]) (use i in simp_all)
  then have toks: "iu_token_events v = iu_token_events u @ published_tokens (s_requests s) (si_request_id st) (si_output st)"
    using nc mv(1) out by (simp add: published_tokens_def v_def)
  have u1: "s_requests ?t1 = (s_requests s)[i := ?r1]" "s_completion_outbox ?t1 = s_completion_outbox s" using t(2,3) by simp_all
  have fin: "wp (on_sched (finish_live_request (si_request_id st) reason now_ns)) (\<lambda>_. effect st now_ns s u) (\<lambda>_ _. False) (?t1, v)"
    if "io_stop out \<or> length (rq_generated_token_ids r) + 1 = max_new r" "reason = (if io_stop out then ReasonStop else ReasonLength)" for reason
    by (rule wp_finish_effect [OF core i c1 u1 _ _ _ toks])
      (use that mv nc out st in \<open>auto simp: item_outcome_def with_token_def valid_transition_def\<close>)
  have dec: "effect st now_ns s u (t\<lparr>s_requests := (s_requests t)[i := ?r2]\<rparr>, v)"
    if "\<not> io_stop out" "length (rq_generated_token_ids r) + 1 \<noteq> max_new r"
  proof (rule going_on [OF core i _ _ _ _ _ _ toks])
    show "item_outcome (si_kind st) (si_target_logical_length st) (si_output st) now_ns ?r0 =
        Inr ((with_token out (moved (si_kind st) (si_target_logical_length st) ?r0))\<lparr>rq_state := Decoding, rq_ready_since_ns := now_ns\<rparr>)"
      using that mv nc out by (simp add: item_outcome_def)
    show "bare ?r2 = bare ((with_token out (moved (si_kind st) (si_target_logical_length st) ?r0))\<lparr>rq_state := Decoding, rq_ready_since_ns := now_ns\<rparr>)"
      using bare_after(2) [OF b, where kind = Decode] by (simp add: moved_def)
    show "rq_sequence ?r2 = Some q" "sq_logical_length q = si_target_logical_length st"
      using q ok by (simp_all add: with_token_def committed_ok_def)
  qed (use t in simp_all)
  have len: "length (rq_generated_token_ids ?r1) = length (rq_generated_token_ids r) + 1" "rq_descriptor ?r1 = rq_descriptor r"
    by (simp_all add: with_token_def)
  show ?thesis
    using fin [of ReasonStop] fin [of ReasonLength] dec it len
    by (simp add: publish_output_def wp_withM wp_bindM wp_on_sched wp_mod_request wp_push_token Let_def v_def
        with_token_def [symmetric])
qed

lemma wp_item_effect:
  assumes inv: "mid_inv [] (st # cm) s"
  shows "wp (publish_committed_item st now_ns) (\<lambda>_. effect st now_ns s u) (\<lambda>_ _. False) (s, u)"
proof -
  have core: "core_inv s" using inv by (simp add: mid_inv_def)
  obtain i q where i: "record_index s (si_request_id st) = Some i" "i < length (s_requests s)" "rq_request_id (s_requests s ! i) = si_request_id st"
    and q: "rq_sequence (s_requests s ! i) = Some q" and ok: "committed_ok (s_requests s ! i) q st" by (rule mid_head [OF inv])
  have st: "rq_state (s_requests s ! i) \<in> {Prefilling, Decoding}" using ok by (cases "si_kind st") (auto simp: committed_ok_def)
  have find: "find (\<lambda>r. rq_request_id r = si_request_id st) (s_requests s) = Some (s_requests s ! i)"
    by (rule find_by_id [OF core_ids [OF core]]) (use i in simp_all)
  show ?thesis
  proof (cases "rq_cancellation_deferred (s_requests s ! i)")
    case True
    have "wp (on_sched (finish_live_request (si_request_id st) ReasonCancelled now_ns)) (\<lambda>_. effect st now_ns s u) (\<lambda>_ _. False) (s, u)"
      by (rule wp_finish_effect [OF core i(2,3) core, of "s_requests s ! i"])
        (use True find st i(3) in \<open>auto simp: valid_transition_def item_outcome_def published_tokens_def split: option.split\<close>)
    then show ?thesis using True i(1) by (simp add: publish_committed_item_def wp_withM wp_bindM wp_tryM)
  next
    case False
    have "wp (bindM (if si_kind st = Prefill
            then bindM (on_sched (mod_request i (\<lambda>r. r\<lparr>rq_prefill_cursor := si_target_logical_length st\<rparr>))) (\<lambda>_.
                 on_sched (publish_prompt_blocks i))
            else ret ()) (\<lambda>_. case si_output st of
             None \<Rightarrow> on_sched (mod_request i (\<lambda>r. r\<lparr>rq_state := Prefilling, rq_ready_since_ns := now_ns\<rparr>))
           | Some out \<Rightarrow> publish_output (si_request_id st) i out now_ns)) (\<lambda>_. effect st now_ns s u) (\<lambda>_ _. False) (s, u)"
    proof (rule wp_callI [OF wp_conj [OF wp_advance [OF core i(2) q ok False, of u] wp_advance_exact [OF core i(2) q ok, of u]]], simp, goal_cases)
      case (1 _ w)
      then obtain t where w: "w = (t, u)" and ad: "advanced i st s t" and ob: "s_completion_outbox t = s_completion_outbox s"
        and b: "bare (s_requests t ! i) = bare (moved (si_kind st) (si_target_logical_length st) (s_requests s ! i))" by (cases w) auto
      then obtain r q' where t: "core_inv t" "s_requests t = (s_requests s)[i := r]"
        and r: "rq_sequence r = Some q'" "committed_ok r q' st" unfolding advanced_def by blast
      have br: "bare r = bare (moved (si_kind st) (si_target_logical_length st) (s_requests s ! i))" using b t(2) i(2) by simp
      show ?case
      proof (cases "si_output st")
        case (Some out)
        then show ?thesis using wp_output_effect [OF core i(2,3) t ob br False r Some] w by simp
      next
        case None
        let ?r2 = "r\<lparr>rq_state := Prefilling, rq_ready_since_ns := now_ns\<rparr>"
        let ?m = "(moved (si_kind st) (si_target_logical_length st) (s_requests s ! i))\<lparr>rq_state := Prefilling, rq_ready_since_ns := now_ns\<rparr>"
        have "effect st now_ns s u (t\<lparr>s_requests := (s_requests t)[i := ?r2]\<rparr>, u)"
        proof (rule going_on [OF core i(2,3)])
          show "item_outcome (si_kind st) (si_target_logical_length st) (si_output st) now_ns (s_requests s ! i) = Inr ?m"
            using False None by (simp add: item_outcome_def)
          show "bare ?r2 = bare ?m" using bare_after(1) [OF br, where kind = Decode] by (simp add: moved_def)
          show "rq_sequence ?r2 = Some q'" "sq_logical_length q' = si_target_logical_length st" using r by (simp_all add: committed_ok_def)
          show "iu_token_events u = iu_token_events u @ published_tokens (s_requests s) (si_request_id st) (si_output st)"
            using None find by (simp add: published_tokens_def)
        qed (use t ob in simp_all)
        then show ?thesis using None w t(2) i(2) by (simp add: wp_on_sched wp_mod_request)
      qed
    qed
    then show ?thesis using False i(1) by (simp add: publish_committed_item_def wp_withM wp_bindM [of "tryM _"] wp_tryM)
  qed
qed

subsection \<open>Publishing all items\<close>

definition effects :: "settled_inflight_item list \<Rightarrow> u64 \<Rightarrow> scheduler \<Rightarrow> iteration_updates \<Rightarrow> scheduler \<times> iteration_updates \<Rightarrow> bool" where
  "effects cm now_ns s u w \<longleftrightarrow>
     (\<forall>st\<in>set cm. \<exists>r\<in>set (s_requests s). rq_request_id r = si_request_id st \<and>
        became (si_target_logical_length st) (item_outcome (si_kind st) (si_target_logical_length st) (si_output st) now_ns r)
          (s_requests (fst w)) (s_completion_outbox (fst w))) \<and>
     (\<forall>r\<in>set (s_requests s). rq_request_id r \<notin> si_request_id ` set cm \<longrightarrow> r \<in> set (s_requests (fst w))) \<and>
     set (s_completion_outbox s) \<subseteq> set (s_completion_outbox (fst w)) \<and>
     iu_token_events (snd w) = iu_token_events u @ concat (map (\<lambda>st. published_tokens (s_requests s) (si_request_id st) (si_output st)) cm)"

lemma effects_Cons:
  assumes inv: "mid_inv [] (st # cm) s" and t: "mid_inv [] cm t" and e: "effect st now_ns s u (t, v)" and es: "effects cm now_ns t v w"
  shows "effects (st # cm) now_ns s u w"
proof -
  have core: "core_inv s" and coret: "core_inv t" using inv t by (simp_all add: mid_inv_def)
  have new: "si_request_id st \<notin> si_request_id ` set cm" using inv by (auto simp: mid_inv_def)
  have live: "\<exists>r\<in>set (s_requests s). rq_request_id r = si_request_id x" if "x \<in> set (st # cm)" for x
    using inv that by (fastforce simp: mid_inv_def active_ids_def)
  have keep: "r \<in> set (s_requests t)" if "r \<in> set (s_requests s)" "rq_request_id r \<noteq> si_request_id st" for r
    using e that by (auto simp: effect_def split: if_splits)
  have find: "find (\<lambda>r. rq_request_id r = si_request_id x) (s_requests t) = find (\<lambda>r. rq_request_id r = si_request_id x) (s_requests s)"
    if x: "x \<in> set cm" for x
  proof -
    obtain r where r: "r \<in> set (s_requests s)" "rq_request_id r = si_request_id x" using live x by auto
    moreover have "si_request_id x \<noteq> si_request_id st" using new x by (metis image_eqI)
    ultimately have "r \<in> set (s_requests t)" using keep by simp
    then show ?thesis using find_by_id [OF core_ids [OF core] r] find_by_id [OF core_ids [OF coret] _ r(2)] by simp
  qed
  have toks: "map (\<lambda>st. published_tokens (s_requests t) (si_request_id st) (si_output st)) cm =
      map (\<lambda>st. published_tokens (s_requests s) (si_request_id st) (si_output st)) cm"
    by (rule map_cong [OF refl]) (simp add: published_tokens_def find)
  have "\<exists>r\<in>set (s_requests s). rq_request_id r = si_request_id x \<and>
        became (si_target_logical_length x) (item_outcome (si_kind x) (si_target_logical_length x) (si_output x) now_ns r)
          (s_requests (fst w)) (s_completion_outbox (fst w))" if x: "x \<in> set (st # cm)" for x
  proof (cases "x \<in> set cm")
    case True
    then obtain r where r: "r \<in> set (s_requests t)" "rq_request_id r = si_request_id x"
        "became (si_target_logical_length x) (item_outcome (si_kind x) (si_target_logical_length x) (si_output x) now_ns r)
          (s_requests (fst w)) (s_completion_outbox (fst w))" using es by (auto simp: effects_def)
    obtain r' where r': "r' \<in> set (s_requests s)" "rq_request_id r' = si_request_id x" using live x by auto
    have "si_request_id x \<noteq> si_request_id st" using new True by (metis image_eqI)
    then have "r' \<in> set (s_requests t)" using keep r' by simp
    then have "r' = r" using find_by_id [OF core_ids [OF coret] _ r'(2)] find_by_id [OF core_ids [OF coret] r(1,2)] by simp
    then show ?thesis using r r' by blast
  next
    case False
    then have x: "x = st" using that by simp
    obtain r where r: "r \<in> set (s_requests s)" "rq_request_id r = si_request_id st" using live [of st] by auto
    let ?o = "item_outcome (si_kind st) (si_target_logical_length st) (si_output st) now_ns r"
    have b: "became (si_target_logical_length st) ?o (s_requests t) (s_completion_outbox t)"
      using e r by (auto simp: effect_def split: if_splits)
    have "became (si_target_logical_length st) ?o (s_requests (fst w)) (s_completion_outbox (fst w))"
    proof (rule became_persists [OF b])
      show "set (s_completion_outbox t) \<subseteq> set (s_completion_outbox (fst w))" using es by (simp add: effects_def)
      fix r1 r'
      assume "?o = Inr r1" "r' \<in> set (s_requests t)" "rq_request_id r' = rq_request_id r1"
      moreover from this have "rq_request_id r' = si_request_id st" using outcome_id r(2) by metis
      ultimately show "r' \<in> set (s_requests (fst w))" using es new by (simp add: effects_def)
    qed
    then show ?thesis using x r by auto
  qed
  moreover have "r \<in> set (s_requests (fst w))" if "r \<in> set (s_requests s)" "rq_request_id r \<notin> si_request_id ` set (st # cm)" for r
    using that keep [of r] es by (auto simp: effects_def)
  moreover have "set (s_completion_outbox s) \<subseteq> set (s_completion_outbox (fst w))"
    using e es by (auto simp: effects_def effect_def)
  moreover have "iu_token_events (snd w) = iu_token_events u @ concat (map (\<lambda>st. published_tokens (s_requests s) (si_request_id st) (si_output st)) (st # cm))"
    using e es toks by (simp add: effects_def effect_def)
  ultimately show ?thesis by (auto simp: effects_def)
qed

lemma wp_publish_effects:
  assumes "mid_inv [] cm s"
  shows "wp (forM cm (\<lambda>item. containing (si_request_id item) now_ns (publish_committed_item item now_ns)))
    (\<lambda>_. effects cm now_ns s u) (\<lambda>_ _. False) (s, u)"
  using assms
proof (induction cm arbitrary: s u)
  case Nil
  then show ?case by (simp add: wp_ret effects_def)
next
  case (Cons st cm)
  have one: "wp (publish_committed_item st now_ns) (\<lambda>x w. settled_to cm s u w \<and> effect st now_ns s u w) (\<lambda>_ _. False) (s, u)"
    by (rule wp_weaken [OF wp_conj [OF wp_publish_committed_item [OF Cons.prems, of now_ns u] wp_item_effect [OF Cons.prems, of now_ns u]]]) auto
  show ?case unfolding forM.simps
  proof (rule wp_callI [OF wp_containing [OF one]], goal_cases)
    case (2 _ w)
    obtain t v where w: "w = (t, v)" by (cases w)
    then have t: "mid_inv [] cm t" "effect st now_ns s u (t, v)" using 2 by (simp_all add: settled_to_def)
    show ?case unfolding w
      by (rule wp_weaken [OF Cons.IH [OF t(1)]]) (use effects_Cons [OF Cons.prems t] in auto)
  qed simp
qed

subsection \<open>Committing all items\<close>

text \<open>Commits change no record but for its sequence, and no request outside the plan at all.\<close>

definition only_sequences :: "request_id set \<Rightarrow> scheduler \<Rightarrow> scheduler \<Rightarrow> bool" where
  "only_sequences xs s t \<longleftrightarrow> (\<forall>r\<in>set (s_requests s). rq_request_id r \<notin> xs \<longrightarrow> r \<in> set (s_requests t))"

lemma wp_commit_only:
  assumes inv: "mid_inv (item # fl) cm s"
  shows "wp (commit_reservation item) (\<lambda>_ t. only_sequences {fi_request_id item} s t) (\<lambda>_ _. True) s"
proof -
  have core: "core_inv s" using inv by (simp add: mid_inv_def)
  obtain i q where i: "record_index s (fi_request_id item) = Some i" "i < length (s_requests s)"
    "rq_request_id (s_requests s ! i) = fi_request_id item" and q: "rq_sequence (s_requests s ! i) = Some q"
    and ok: "phase_ok (s_requests s ! i) q" "flight_ok (s_requests s ! i) q item" by (rule mid_item [OF inv])
  have v: "validate_reservation q (fi_reservation item) = Inr ()" using ok(2) by (simp add: flight_ok_def)
  have one: "only_sequences {fi_request_id item} s (with_seq i q' p' s)" for q' p'
    using i(3) by (auto simp: only_sequences_def intro!: in_updated)
  show ?thesis unfolding commit_reservation_def wp_withM i(1) ok_or_eq wp_bindM [of "tryM _"] wp_tryM sum.case q
    by (rule wp_callI [OF wp_request_commit [OF core i(2) q v]]) (use one in \<open>auto simp: wp_failIf\<close>)
qed

lemma wp_commit_all_only:
  assumes "mid_inv fl cm s" and "list_all2 (settles s) fl sts"
  shows "wp (commit_items (zip fl sts) now_ns cm []) (\<lambda>_ t. only_sequences (fi_request_id ` set fl) s t) (\<lambda>_ _. False) s"
  using assms
proof (induction fl arbitrary: cm sts s)
  case Nil
  then show ?case by (simp add: wp_ret only_sequences_def)
next
  case (Cons item fl)
  obtain st sts' where sts: "sts = st # sts'" and st: "settles s item st" and rest: "list_all2 (settles s) fl sts'"
    using Cons.prems(2) by (auto simp: list_all2_Cons1)
  show ?case unfolding sts zip_Cons_Cons commit_items.simps wp_catchM
  proof (rule wp_weaken [OF wp_conj [OF wp_commit_reservation [OF Cons.prems(1) st] wp_commit_only [OF Cons.prems(1)]]], goal_cases)
    case (1 _ t)
    have "list_all2 (settles t) fl sts'" by (rule list_all2_mono [OF rest]) (use 1 settles_strip in blast)
    with Cons.IH [of "cm @ [st]" t sts'] 1 show ?case unfolding sum.case
      by (auto elim!: wp_weaken simp: only_sequences_def)
  qed simp
qed

subsection \<open>A completed iteration\<close>

definition applied :: "settled_inflight_item list \<Rightarrow> u64 \<Rightarrow> scheduler \<Rightarrow> scheduler \<times> iteration_updates \<Rightarrow> bool" where
  "applied sts now_ns s w \<longleftrightarrow>
     (\<forall>st\<in>set sts. \<exists>r\<in>set (s_requests s). rq_request_id r = si_request_id st \<and>
        became (si_target_logical_length st) (item_outcome (si_kind st) (si_target_logical_length st) (si_output st) now_ns r)
          (s_requests (fst w)) (iu_completions (snd w))) \<and>
     (\<forall>r\<in>set (s_requests s). rq_request_id r \<notin> si_request_id ` set sts \<longrightarrow> r \<in> set (s_requests (fst w))) \<and>
     iu_token_events (snd w) = concat (map (\<lambda>st. published_tokens (s_requests s) (si_request_id st) (si_output st)) sts)"

lemma published_tokens_strip: "map strip rs' = map strip rs \<Longrightarrow> published_tokens rs' x output = published_tokens rs x output"
proof (induction rs arbitrary: rs')
  case (Cons r rs)
  then obtain r' ys where r': "rs' = r' # ys" "strip r' = strip r" "map strip ys = map strip rs" by (cases rs') auto
  with Cons.IH [of ys] strip_fields [OF r'(2)] show ?case by (auto simp: published_tokens_def split: option.splits)
qed simp

lemma applied_after_commit:
  assumes m: "map strip (s_requests t) = map strip (s_requests s)"
    and kept_out: "only_sequences (si_request_id ` set sts) s t"
    and e: "effects sts now_ns t u w" and u: "iu_token_events u = []" "iu_completions (snd w) = []"
  shows "applied sts now_ns s ((fst w)\<lparr>s_completion_outbox := []\<rparr>, (snd w)\<lparr>iu_completions := s_completion_outbox (fst w)\<rparr>)"
proof -
  have origin: "\<exists>r\<in>set (s_requests s). bare r' = bare r" if "r' \<in> set (s_requests t)" for r'
  proof -
    have "strip r' \<in> set (map strip (s_requests t))" using that by simp
    then have "strip r' \<in> strip ` set (s_requests s)" unfolding m by simp
    then obtain r where "r \<in> set (s_requests s)" "strip r' = strip r" by (rule imageE)
    then show ?thesis using strip_bare by blast
  qed
  have "\<exists>r\<in>set (s_requests s). rq_request_id r = si_request_id st \<and>
      became (si_target_logical_length st) (item_outcome (si_kind st) (si_target_logical_length st) (si_output st) now_ns r)
        (s_requests (fst w)) (s_completion_outbox (fst w))" if st: "st \<in> set sts" for st
  proof -
    obtain r' where r': "r' \<in> set (s_requests t)" "rq_request_id r' = si_request_id st"
      "became (si_target_logical_length st) (item_outcome (si_kind st) (si_target_logical_length st) (si_output st) now_ns r')
        (s_requests (fst w)) (s_completion_outbox (fst w))" using e st by (auto simp: effects_def)
    obtain r where r: "r \<in> set (s_requests s)" "bare r' = bare r" using origin r'(1) by blast
    show ?thesis using r r'(2,3) bare_fields(1) [OF r(2)] outcome_bare [OF r(2)] by auto
  qed
  moreover have "r \<in> set (s_requests (fst w))" if "r \<in> set (s_requests s)" "rq_request_id r \<notin> si_request_id ` set sts" for r
    using that kept_out e by (auto simp: only_sequences_def effects_def)
  moreover have "iu_token_events (snd w) = concat (map (\<lambda>st. published_tokens (s_requests s) (si_request_id st) (si_output st)) sts)"
    using e u(1) published_tokens_strip [OF m] by (simp add: effects_def)
  ultimately show ?thesis by (simp add: applied_def)
qed

lemma applied_metric: "applied sts now_ns s (v, x) \<Longrightarrow> metric_only v v' \<Longrightarrow> applied sts now_ns s (v', x\<lparr>iu_iteration_metric := m\<rparr>)"
  by (auto simp: applied_def metric_only_def)

lemma wp_sample_tail:
  assumes "applied sts now_ns s (v, x)"
  shows "wp (bindM (on_sched (observe_metric (record_iteration sample))) (\<lambda>_.
       bindM (modM (\<lambda>(s, u). (s, u\<lparr>iu_iteration_metric := Some sample\<rparr>))) (\<lambda>_.
       on_sched (refresh_metric_gauges env)))) (\<lambda>_. applied sts now_ns s) E (v, x)"
  unfolding wp_bindM wp_on_sched wp_modM
  by (rule wp_observe_metric) (auto simp: wp_on_sched intro!: wp_refresh_metric_gauges applied_metric [OF assms] dest: metric_only_trans)

lemma settled_ids: "list_all2 (settles s) fl sts \<Longrightarrow> si_request_id ` set sts = fi_request_id ` set fl"
  by (induction rule: list_all2_induct) (auto simp: settles_def)

lemma wp_settle_exact:
  assumes inv: "core_inv s" "flow_inv (fp_items inflight) s" and st: "list_all2 (settles s) (fp_items inflight) sts"
  shows "wp (settle_completed env result inflight batch sts now_ns) (\<lambda>_. applied sts now_ns s) (\<lambda>_ _. False) (s, updates_empty)"
proof -
  note start = mid_inv_start [OF inv]
  have commit: "wp (on_sched (commit_items (zip (fp_items inflight) sts) now_ns [] []))
      (\<lambda>r w. r = (sts, []) \<and> mid_inv [] sts (fst w) \<and> map strip (s_requests (fst w)) = map strip (s_requests s) \<and>
         only_sequences (si_request_id ` set sts) s (fst w) \<and> snd w = updates_empty) (\<lambda>_ _. False) (s, updates_empty)"
    unfolding wp_on_sched settled_ids [OF st]
    by (rule wp_weaken [OF wp_conj [OF wp_commit_items [OF start st] wp_commit_all_only [OF start st]]]) (auto simp: inside_def)
  show ?thesis unfolding settle_completed_def
  proof (rule wp_callI [OF commit], simp, goal_cases)
    case (1 r w)
    then obtain t where w: "w = (t, updates_empty)" and r: "r = (sts, [])" and t: "mid_inv [] sts t"
      "map strip (s_requests t) = map strip (s_requests s)" "only_sequences (si_request_id ` set sts) s t" by (cases w) auto
    let ?u = "updates_empty\<lparr>iu_settlement_failures := []\<rparr>"
    show ?case unfolding r w prod.case wp_bind_updates
    proof (simp only: simp_thms if_False, rule wp_callI [OF wp_conj [OF wp_publish_all [OF t(1)] wp_publish_effects [OF t(1)]]], simp, goal_cases)
      case (1 _ w)
      obtain v x where w: "w = (v, x)" by (cases w)
      have v: "effects sts now_ns t ?u (v, x)" "iu_settlement_failures x = []" "iu_completions x = []"
        using 1 w by (auto simp: settled_to_def updates_empty_def)
      have "applied sts now_ns s (v\<lparr>s_completion_outbox := []\<rparr>, x\<lparr>iu_completions := iu_completions x @ s_completion_outbox v\<rparr>)"
        using applied_after_commit [OF t(2,3) v(1)] v(3) by (simp add: updates_empty_def)
      from wp_sample_tail [OF this] show ?case unfolding w wp_drain_updates wp_withM prod.case Let_def using v(2) by simp
    qed
  qed
qed

text \<open>The output of the result for the slot of an item.\<close>

definition item_output :: "iteration_result \<Rightarrow> inflight_item \<Rightarrow> iteration_output option" where
  "item_output result item =
     (case fi_output_slot item of None \<Rightarrow> None | Some slot \<Rightarrow> find (\<lambda>out. io_slot out = slot) (ir_outputs result))"

definition iteration_applied ::
  "inflight_plan \<Rightarrow> iteration_result \<Rightarrow> u64 \<Rightarrow> scheduler \<Rightarrow> scheduler \<Rightarrow> iteration_updates \<Rightarrow> bool" where
  "iteration_applied plan result now_ns s t u \<longleftrightarrow>
     (\<forall>item\<in>set (fp_items plan). \<exists>r\<in>set (s_requests s). rq_request_id r = fi_request_id item \<and>
        became (fi_target_logical_length item)
          (item_outcome (fi_kind item) (fi_target_logical_length item) (item_output result item) now_ns r)
          (s_requests t) (iu_completions u)) \<and>
     (\<forall>r\<in>set (s_requests s). rq_request_id r \<notin> fi_request_id ` set (fp_items plan) \<longrightarrow> r \<in> set (s_requests t)) \<and>
     iu_token_events u = concat (map (\<lambda>item. published_tokens (s_requests s) (fi_request_id item) (item_output result item)) (fp_items plan))"

definition settled_as :: "iteration_result \<Rightarrow> inflight_item \<Rightarrow> settled_inflight_item \<Rightarrow> bool" where
  "settled_as result item st \<longleftrightarrow> si_request_id st = fi_request_id item \<and> si_kind st = fi_kind item \<and>
     si_target_logical_length st = fi_target_logical_length item \<and> si_output st = item_output result item"

lemma prevalidated_as: "prevalidate_item s result item = Inr st \<Longrightarrow> settled_as result item st"
  by (auto simp: prevalidate_item_def settled_as_def item_output_def Let_def split: option.splits)

lemma applied_items:
  assumes "list_all2 (settled_as result) (fp_items plan) sts" and "applied sts now_ns s (t, u)"
  shows "iteration_applied plan result now_ns s t u"
proof -
  have ids: "si_request_id ` set sts = fi_request_id ` set (fp_items plan)"
    using assms(1) by (induction rule: list_all2_induct) (auto simp: settled_as_def)
  have toks: "map (\<lambda>st. published_tokens (s_requests s) (si_request_id st) (si_output st)) sts =
      map (\<lambda>item. published_tokens (s_requests s) (fi_request_id item) (item_output result item)) (fp_items plan)"
    using assms(1) by (induction rule: list_all2_induct) (auto simp: settled_as_def)
  have each: "\<exists>st\<in>set sts. settled_as result item st" if "item \<in> set (fp_items plan)" for item
    using assms(1) that by (metis in_set_conv_nth list_all2_conv_all_nth)
  show ?thesis unfolding iteration_applied_def
  proof (intro conjI ballI impI)
    fix item
    assume "item \<in> set (fp_items plan)"
    then obtain st where st: "st \<in> set sts" "settled_as result item st" using each by blast
    then have f: "si_request_id st = fi_request_id item" "si_kind st = fi_kind item"
      "si_target_logical_length st = fi_target_logical_length item" "si_output st = item_output result item"
      by (simp_all add: settled_as_def)
    show "\<exists>r\<in>set (s_requests s). rq_request_id r = fi_request_id item \<and>
        became (fi_target_logical_length item)
          (item_outcome (fi_kind item) (fi_target_logical_length item) (item_output result item) now_ns r)
          (s_requests t) (iu_completions u)"
      using bspec [OF conjunct1 [OF assms(2) [unfolded applied_def]] st(1)] unfolding f by simp
  next
    fix r
    assume "r \<in> set (s_requests s)" "rq_request_id r \<notin> fi_request_id ` set (fp_items plan)"
    then show "r \<in> set (s_requests t)" using assms(2) ids by (simp add: applied_def)
  next
    show "iu_token_events u = concat (map (\<lambda>item. published_tokens (s_requests s) (fi_request_id item) (item_output result item)) (fp_items plan))"
      using assms(2) toks by (simp add: applied_def)
  qed
qed

subsection \<open>When a result is refused\<close>

text \<open>The last case is the overflow check of the batch size.\<close>

definition completion_refused :: "host_env \<Rightarrow> iteration_result \<Rightarrow> u64 \<Rightarrow> scheduler \<Rightarrow> bool" where
  "completion_refused env result now_ns s \<longleftrightarrow>
     s_completion_outbox s \<noteq> [] \<or> validate_now s now_ns \<noteq> Inr () \<or> validate_iteration_result s result \<noteq> Inr () \<or>
     (\<exists>resource n. \<not> he_alloc env resource n) \<or>
     (\<exists>plan. s_inflight s = Some plan \<and> u64_max < fp_prefill_count plan + fp_decode_count plan)"

lemma in_map_filter: "x \<in> set (List.map_filter f xs) \<longleftrightarrow> (\<exists>y\<in>set xs. f y = Some x)"
  by (induction xs) (auto simp: List.map_filter_simps split: option.splits)

lemma settled_target_valid:
  assumes "rq_state r \<in> {Prefilling, Decoding}" and "out = None \<Longrightarrow> rq_state r = Prefilling"
    and "length (rq_generated_token_ids r) + 1 \<le> max_new r" "max_new r \<le> u64_max"
  shows "\<exists>target. settled_target r out = Inr target \<and> valid_transition (rq_state r) target"
proof (cases "rq_cancellation_deferred r")
  case True
  then show ?thesis using assms(1) by (intro exI [of _ Cancelled]) (auto simp: settled_target_def valid_transition_def)
next
  case False
  show ?thesis
  proof (cases out)
    case None
    then show ?thesis using False assms(2) by (intro exI [of _ Prefilling]) (simp add: settled_target_def valid_transition_def)
  next
    case (Some v)
    let ?n = "length (rq_generated_token_ids r) + 1"
    let ?target = "if io_stop v \<or> ?n = max_new r then Finished else Decoding"
    have "checked_add (length (rq_generated_token_ids r)) 1 = Some ?n"
      using le_trans [OF assms(3,4)] by (simp add: checked_add_def)
    then have "settled_target r out = Inr ?target"
      using Some False assms(3) by (simp add: settled_target_def not_less [symmetric])
    moreover have "valid_transition (rq_state r) ?target" using assms(1) by (auto simp: valid_transition_def)
    ultimately show ?thesis by blast
  qed
qed

lemma planned_slot_answered:
  assumes "plan_ok s" and "s_inflight s = Some plan" and "validate_iteration_result s result = Inr ()"
    and "item \<in> set (fp_items plan)" and "fi_output_slot item = Some slot"
  shows "\<exists>out. find (\<lambda>out. io_slot out = slot) (ir_outputs result) = Some out"
proof -
  have "slot \<in> set (fp_expected_output_slots plan)"
    using assms(1,2,4,5) in_map_filter [of slot fi_output_slot "fp_items plan"] by (auto simp: plan_ok_def)
  then have "\<exists>out\<in>set (ir_outputs result). io_slot out = slot"
    using assms(2,3) by (auto simp: validate_iteration_result_def forE_Inr list_ex_iff)
  then have "find (\<lambda>out. io_slot out = slot) (ir_outputs result) \<noteq> None" by (auto simp: find_None_iff)
  then show ?thesis by blast
qed

lemma item_prevalidates:
  assumes inv: "sched_inv s" and fl: "s_inflight s = Some plan" and v: "validate_iteration_result s result = Inr ()"
    and item: "item \<in> set (fp_items plan)"
  shows "\<exists>st. prevalidate_item s result item = Inr st"
proof -
  have core: "core_inv s" "flow_inv (fp_items plan) s" "plan_ok s" using inv fl by (simp_all add: sched_inv_def items_of_def)
  obtain i q where i: "record_index s (fi_request_id item) = Some i" "i < length (s_requests s)"
    "rq_request_id (s_requests s ! i) = fi_request_id item" and q: "rq_sequence (s_requests s ! i) = Some q"
    and ph: "phase_ok (s_requests s ! i) q" and fo: "flight_ok (s_requests s ! i) q item" by (rule flow_item [OF core(1,2) item])
  let ?r = "s_requests s ! i"
  have rec: "rec_ok (s_config s) ?r" by (rule core_nth [OF core(1) i(2)])
  have pre: "rq_state ?r = Prefilling" if k: "fi_kind item = Prefill"
  proof -
    obtain j where j: "j < length (s_requests s)" "rq_request_id (s_requests s ! j) = fi_request_id item" "rq_state (s_requests s ! j) = Prefilling"
      using core(3) fl item k by (fastforce simp: plan_ok_def in_set_conv_nth)
    then have "j = i" using record_index_of [OF core_ids [OF core(1)] j(1)] i(1) by simp
    then show ?thesis using j by simp
  qed
  have table: "sr_target_logical_length (fi_reservation item) = fi_target_logical_length item"
    "reserved_block_table q (fi_reservation item) = Inr (table_view q (sq_allocated_block_count q) (fi_target_logical_length item))"
    using fo by (simp_all add: flight_ok_def reserved_block_table_def)
  have small: "length (rq_generated_token_ids ?r) + 1 \<le> max_new ?r" "max_new ?r \<le> u64_max"
    using ph rec by (auto simp: phase_ok_def rec_ok_def req_max_def Suc_le_eq split: request_state.splits) (cases "prompt ?r", auto)
  obtain out where out: "(case fi_output_slot item of None \<Rightarrow> Inr None | Some slot \<Rightarrow>
      bindE (ok_or (find (\<lambda>out. io_slot out = slot) (ir_outputs result))
        (InvalidIterationResult ''outputs'' ''validated output slot disappeared'')) (\<lambda>out. Inr (Some out))) = Inr out"
      "out = None \<longleftrightarrow> fi_output_slot item = None"
    using planned_slot_answered [OF core(3) fl v item] by (cases "fi_output_slot item") fastforce+
  have st: "rq_state ?r \<in> {Prefilling, Decoding}" "out = None \<Longrightarrow> rq_state ?r = Prefilling"
    using pre fo out(2) by (cases "fi_kind item"; auto simp: flight_ok_def)+
  obtain target where target: "settled_target ?r out = Inr target" "valid_transition (rq_state ?r) target"
    using settled_target_valid [OF st small] by blast
  show ?thesis unfolding prevalidate_item_def
    using i(1) q table out(1) target by (simp add: Let_def table_view_def failE_def)
qed

lemma mapE_total: "\<forall>x\<in>set xs. \<exists>y. f x = Inr y \<Longrightarrow> \<exists>ys. mapE f xs = Inr ys"
  by (induction xs) auto

lemma items_fit: "sched_inv s \<Longrightarrow> s_inflight s = Some plan \<Longrightarrow> ensure_completion_capacity s (length (fp_items plan)) = Inr ()"
proof -
  assume inv: "sched_inv s" and fl: "s_inflight s = Some plan"
  then have core: "core_inv s" "flow_inv (fp_items plan) s" by (simp_all add: sched_inv_def items_of_def)
  have "length (fp_items plan) = card (fi_request_id ` set (fp_items plan))"
    using core(2) distinct_card [of "map fi_request_id (fp_items plan)"] by (simp add: flow_inv_def)
  also have "\<dots> \<le> card (rq_request_id ` set (s_requests s))"
    using core(2) by (intro card_mono) (auto simp: flow_inv_def active_ids_def)
  also have "\<dots> \<le> length (s_requests s)" using card_length [of "map rq_request_id (s_requests s)"] by simp
  finally show ?thesis by (rule core_capacity [OF core(1)])
qed

lemma wp_complete_exact:
  assumes inv: "sched_inv s"
  shows "wp (complete_iteration env result now_ns)
    (\<lambda>u t. \<exists>plan. s_inflight s = Some plan \<and> ir_iteration_id result = fp_iteration_id plan \<and>
       iteration_applied plan result now_ns s t u)
    (\<lambda>_ _. completion_refused env result now_ns s) s"
proof -
  have core: "core_inv s" "flow_inv (items_of s) s" "plan_ok s" using inv by (simp_all add: sched_inv_def)
  have res: "wp (bindM (reserve env x n) f) Q (\<lambda>_ _. completion_refused env result now_ns s) s"
    if "wp (f ()) Q (\<lambda>_ _. completion_refused env result now_ns s) s" for x n and f :: "unit \<Rightarrow> iteration_updates sched_cmd" and Q
    unfolding wp_bindM wp_reserve reserve_host_def using that by (auto simp: failE_def completion_refused_def)
  show ?thesis unfolding complete_iteration_def wp_withM Let_def
  proof (intro wp_tryI res, goal_cases)
    case g: (5 _ _ _ inflight)
    then show ?case by (auto simp: completion_refused_def checked_add_def ok_or_def split: if_splits option.splits)
  next
    case g: (6 _ _ _ inflight)
    then show ?case using items_fit [OF inv] by simp
  next
    case g: (7 _ _ _ inflight)
    then have fl: "s_inflight s = Some inflight" and v: "validate_iteration_result s result = Inr ()" by simp_all
    have "\<exists>sts. mapE (prevalidate_item s result) (fp_items inflight) = Inr sts"
      by (rule mapE_total) (use item_prevalidates [OF inv fl v] in blast)
    then show ?case using g fl by (auto simp: prevalidate_completion_publication_def reserve_host_def failE_def completion_refused_def split: if_splits)
  next
    case g: (8 _ _ _ inflight _ _ sts)
    then have fl: "s_inflight s = Some inflight" by simp
    let ?s = "s\<lparr>s_last_now_ns := Some now_ns, s_inflight := None\<rparr>"
    have "list_all2 (settles s) (fp_items inflight) sts" using prevalidated_settles [OF core(3) fl] g by blast
    then have st: "list_all2 (settles ?s) (fp_items inflight) sts" by (simp add: settles_def [abs_def])
    have "list_all2 (\<lambda>x y. prevalidate_item s result x = Inr y) (fp_items inflight) sts"
      using g fl by (auto simp: prevalidate_completion_publication_def intro: mapE_list_all2)
    then have sa: "list_all2 (settled_as result) (fp_items inflight) sts" by (rule list_all2_mono) (rule prevalidated_as)
    have c: "core_inv ?s" "flow_inv (fp_items inflight) ?s" using core fl by (simp_all add: flow_inv_def items_of_def)
    have iid: "ir_iteration_id result = fp_iteration_id inflight"
      using g fl by (auto simp: validate_iteration_result_def)
    have ap: "iteration_applied inflight result now_ns s t u" if "applied sts now_ns ?s (t, u)" for t u
      by (rule applied_items [OF sa]) (use that in \<open>simp add: applied_def\<close>)
    show ?case unfolding wp_bind_mod wp_with_updates
      by (rule wp_weaken [OF wp_settle_exact [OF c st]]) (use ap fl iid in auto)
  qed (auto simp: completion_refused_def ensure_completion_backlog_empty_def failE_def validate_iteration_result_def split: if_splits)
qed

end
