(* ===== verification/Scheduler_Props.thy ===== *)
theory Scheduler_Props
  imports Scheduler_Outcomes
begin

text \<open>
  What every reachable scheduler guarantees, over the model's own definitions: limits and queue order,
  who may share a block, what settling and aborting an iteration do, and that nothing is lost on the way
  to a closed scheduler. A small run of the machine serves as the instance.
\<close>

subsection \<open>A run\<close>

text \<open>A request of seventeen prompt tokens runs through its prefill, its full block is cached, and a second
  request with the same prompt adopts the block.\<close>

definition demo_rt_config :: scheduler_config where
  "demo_rt_config = \<lparr>max_waiting_requests = 4, max_waiting_prompt_tokens = 64, max_active_sequences = 2,
     max_sequence_tokens = 64, iteration_token_budget = 32, max_prefill_chunk_tokens = 32,
     aging_threshold_ns = 50, config_overload_policy = Wait, admission_timeout_ns = Some 1000,
     max_promised_kv_blocks = 4, metrics_window_samples = 4\<rparr>"

definition demo_job :: request_descriptor where
  "demo_job = \<lparr>rd_prompt_token_ids = replicate 17 7, rd_max_new_tokens = 2\<rparr>"

definition demo_result :: iteration_result where
  "demo_result = \<lparr>ir_schema_version = 1, ir_iteration_id = IterationId 1,
     ir_outputs = [\<lparr>io_slot = OutputSlot 0, io_token_id = 9, io_stop = False\<rparr>],
     ir_gpu_execution_ns = 3, ir_gpu_idle_gap_ns = 1\<rparr>"

definition run_new :: scheduler where "run_new = projr (fst (scheduler_new demo_env demo_rt_config demo_layout 1))"
definition run_cached :: scheduler where "run_cached = snd (enable_prefix_cache demo_env 2 run_new)"
definition run_submitted :: scheduler where "run_submitted = snd (submit demo_env demo_job 10 run_cached)"
definition run_planned :: scheduler where "run_planned = snd (plan_iteration demo_env 11 run_submitted)"
definition run_completed :: scheduler where "run_completed = snd (complete_iteration demo_env demo_result 12 run_planned)"
definition run_second :: scheduler where "run_second = snd (submit demo_env demo_job 13 run_completed)"
definition run_shared :: scheduler where "run_shared = snd (plan_iteration demo_env 14 run_second)"

lemma demo_layout_facts: "layout_wf demo_layout" "fst (scheduler_new demo_env demo_rt_config demo_layout 1) = Inr run_new"
    "s_prefix_cache run_new = None"
proof -
  show "layout_wf demo_layout" using layout_checked_wf [OF demo_runs(1)] by simp
  have "\<not> isl (fst (scheduler_new demo_env demo_rt_config demo_layout 1))" by code_simp
  then show "fst (scheduler_new demo_env demo_rt_config demo_layout 1) = Inr run_new" by (auto simp: run_new_def)
  show "s_prefix_cache run_new = None" by code_simp
qed

lemma run_reachable:
  "reachable sched_init sched_step run_new" "reachable sched_init sched_step run_cached"
  "reachable sched_init sched_step run_submitted" "reachable sched_init sched_step run_planned"
  "reachable sched_init sched_step run_completed" "reachable sched_init sched_step run_second"
  "reachable sched_init sched_step run_shared"
proof -
  have "sched_init run_new" unfolding sched_init_def using demo_layout_facts
    by (intro exI [of _ demo_env] exI [of _ demo_rt_config] exI [of _ demo_layout] exI [of _ 1]
      exI [of _ "snd (scheduler_new demo_env demo_rt_config demo_layout 1)"]) (simp add: prod_eq_iff demo_rt_config_def)
  then show new: "reachable sched_init sched_step run_new" by (rule reachable.start)
  have "sched_step run_new run_cached" unfolding run_cached_def
    by (rule sched_step.cache [OF _ prod.collapse [symmetric]]) (simp add: demo_layout_facts ext_of_def)
  with new show cached: "reachable sched_init sched_step run_cached" by (rule reachable.move)
  have "sched_step run_cached run_submitted" unfolding run_submitted_def by (rule sched_step.submit [OF prod.collapse [symmetric]])
  with cached show submitted: "reachable sched_init sched_step run_submitted" by (rule reachable.move)
  have "sched_step run_submitted run_planned" unfolding run_planned_def by (rule sched_step.plan [OF prod.collapse [symmetric]])
  with submitted show planned: "reachable sched_init sched_step run_planned" by (rule reachable.move)
  have "sched_step run_planned run_completed" unfolding run_completed_def by (rule sched_step.complete [OF prod.collapse [symmetric]])
  with planned show completed: "reachable sched_init sched_step run_completed" by (rule reachable.move)
  have "sched_step run_completed run_second" unfolding run_second_def by (rule sched_step.submit [OF prod.collapse [symmetric]])
  with completed show second: "reachable sched_init sched_step run_second" by (rule reachable.move)
  have "sched_step run_second run_shared" unfolding run_shared_def by (rule sched_step.plan [OF prod.collapse [symmetric]])
  with second show "reachable sched_init sched_step run_shared" by (rule reachable.move)
qed

lemma run_planned_facts:
  "fst (complete_iteration demo_env demo_result 12 run_planned) \<noteq> Inl NoIterationInFlight \<and>
   \<not> isl (fst (complete_iteration demo_env demo_result 12 run_planned))"
  by code_simp

lemma run_shared_facts:
  "map (\<lambda>r. (map_option phys (rq_sequence r), map_option sq_shared_block_count (rq_sequence r), rq_prefix_linked r)) (s_requests run_shared) =
     [(Some [0, 1], Some 1, True), (Some [0, 2], Some 1, True)] \<and> s_prefix_cache run_shared \<noteq> None"
  by code_simp

subsection \<open>Limits and order\<close>

text \<open>C6. In every reachable scheduler the admission limits hold and the books are exact: the waiting
  queue is in strict submission order and lists exactly the waiting requests, queue length, waiting prompt
  tokens, active requests and promised blocks stay within the configured maxima, the promised blocks cover
  the largest length every active request can reach, and live requests and undelivered completions have
  distinct identifiers.\<close>

theorem reachable_limits:
  assumes "reachable sched_init sched_step s"
  shows "sorted_wrt (<) (s_waiting s) \<and> set (s_waiting s) = rq_request_id ` {r \<in> set (s_requests s). is_waiting r} \<and>
    length (s_waiting s) \<le> max_waiting_requests (s_config s) \<and>
    sum_list (map (\<lambda>r. if is_waiting r then length (prompt r) else 0) (s_requests s)) \<le> max_waiting_prompt_tokens (s_config s) \<and>
    length (filter (\<lambda>r. \<not> is_waiting r) (s_requests s)) \<le> max_active_sequences (s_config s) \<and>
    sum_list (map (\<lambda>r. if is_waiting r then 0 else div_ceil (req_max r) KV_BLOCK_SIZE) (s_requests s)) \<le> max_promised_kv_blocks (s_config s) \<and>
    distinct (map rq_request_id (s_requests s) @ map rc_request_id (s_completion_outbox s))"
proof -
  have inv: "core_inv s" using sched.reachable_inv [OF assms] by (simp add: sched_inv_def)
  have recs: "\<forall>r\<in>set (s_requests s). rec_ok (s_config s) r" using inv by (simp add: core_inv_def)
  have active: "sum_list (map (\<lambda>r. if P r then 0 else 1) rs) = length (filter (\<lambda>r. \<not> P r) rs)" for P and rs :: "request_record list"
    by (induction rs) auto
  have "promised_blocks (s_requests s) = sum_list (map (\<lambda>r. if is_waiting r then 0 else div_ceil (req_max r) KV_BLOCK_SIZE) (s_requests s))"
    by (rule arg_cong [where f = sum_list]) (use recs in \<open>auto simp: rec_ok_def\<close>)
  then show ?thesis using inv by (simp add: core_inv_def queue_ok_def ids_ok_def active)
qed

theorem reachable_limits_witness:
  "length (filter (\<lambda>r. \<not> is_waiting r) (s_requests run_shared)) \<le> max_active_sequences (s_config run_shared) \<and>
   sorted_wrt (<) (s_waiting run_shared)"
  using reachable_limits [OF run_reachable(7)] by simp

subsection \<open>Who may share a block\<close>

lemma map_filter_apart:
  "distinct (map f (List.map_filter g xs)) \<Longrightarrow> distinct xs \<Longrightarrow> x \<in> set xs \<Longrightarrow> y \<in> set xs \<Longrightarrow>
     g x = Some b \<Longrightarrow> g y = Some b' \<Longrightarrow> f b = f b' \<Longrightarrow> x = y"
proof (induction xs)
  case (Cons z zs)
  have mem: "f c \<in> f ` set (List.map_filter g zs)" if "w \<in> set zs" "g w = Some c" for w c
    using that in_map_filter [of c g zs] by blast
  show ?case
    using Cons.prems Cons.IH mem [of y b'] mem [of x b] by (auto simp: List.map_filter_simps split: option.splits)
qed simp

lemma up_path_from: "up_path K i (xs @ y # ys) \<Longrightarrow> up_path K y (y # ys)"
  by (induction xs arbitrary: i) auto

lemma concat_take_blocks:
  assumes "\<forall>x\<in>set xs. length x = n" and "k \<le> length xs"
  shows "take (k * n) (concat xs) = concat (take k xs)"
  using assms
proof (induction xs arbitrary: k)
  case (Cons x xs)
  then show ?case by (cases k) auto
qed simp

lemma path_upto:
  assumes "up_path K tip path" and "k < length path"
  shows "up_path K (rev path ! k) (rev (take (Suc k) (rev path)))"
proof -
  let ?m = "length path - Suc k"
  have y: "rev path ! k = path ! ?m" using assms(2) by (simp add: rev_nth)
  have "path = take ?m path @ path ! ?m # drop (Suc ?m) path" using assms(2) by (simp add: id_take_nth_drop)
  then have "up_path K (path ! ?m) (path ! ?m # drop (Suc ?m) path)" using assms(1) up_path_from by metis
  moreover have "path ! ?m # drop (Suc ?m) path = drop ?m path" using assms(2) by (simp add: Cons_nth_drop_Suc)
  moreover have "rev (take (Suc k) (rev path)) = drop ?m path" using assms(2) by (simp add: take_rev)
  ultimately show ?thesis by (simp add: y)
qed

text \<open>What a linked request's shared prefix looks like from one of its blocks.\<close>

lemma linked_block:
  assumes core: "core_inv s" and c: "s_prefix_cache s = Some c" and r: "r \<in> set (s_requests s)" "rq_prefix_linked r" "rq_sequence r = Some q"
    and k: "k < sq_shared_block_count q"
  shows "\<exists>e b es. block_at c e = Some b \<and> bid_physical_index b = phys q ! k \<and> e < length (pc_entries c) \<and>
    up_path (key_at c) e (rev es) \<and> length es = Suc k \<and>
    take (Suc k * KV_BLOCK_SIZE) (prompt r) = concat (map (\<lambda>i. ck_tokens (the (key_at c i))) es)"
proof -
  have kv: "kv_part (s_pool s) (s_requests s) (Some c)" using core c by (simp add: core_inv_def)
  then have "link_ok c r q" using r by (fastforce simp: kv_part_def linked_ok_def)
  then obtain path where path: "up_path (key_at c) (rq_prefix_tip r) path"
    "take (sq_shared_block_count q) (sq_block_ids q) = map (block_at c) (rev path)"
    "concat (map (\<lambda>i. ck_tokens (the (key_at c i))) (rev path)) = take (sq_shared_block_count q * KV_BLOCK_SIZE) (prompt r)"
    by (auto simp: link_ok_def)
  obtain xs where cinv: "cache_inv c xs" using kv by (auto simp: kv_part_def cache_ok_def)
  have "q \<in> set (seqs (s_requests s))" using r by (auto simp: seqs_def in_map_filter)
  then have sc: "seq_core (s_pool s) q" using kv by (auto simp: kv_part_def kv_inv_def)
  then have shape: "seq_shape q" and bk: "block_ok (s_pool s) q k" using k by (auto simp: seq_core_def seq_shape_def)
  have n: "length path = sq_shared_block_count q" using arg_cong [OF path(2), of length] shape by (simp add: seq_shape_def)
  let ?e = "rev path ! k" and ?es = "take (Suc k) (rev path)"
  obtain b where b: "sq_block_ids q ! k = Some b" "sq_physical_block_ids q ! k = bid_physical_index b" using bk by (auto simp: block_ok_def)
  have "map (block_at c) (rev path) ! k = Some b" using b(1) k shape unfolding path(2) [symmetric] by (simp add: seq_shape_def)
  then have be: "block_at c ?e = Some b" using k n by simp
  have ph: "bid_physical_index b = phys q ! k" using b(2) k shape by (simp add: phys_def seq_shape_def)
  have "?e < length (pc_entries c)" using be by (auto simp: block_at_def entry_map_def split: if_splits)
  moreover have "up_path (key_at c) ?e (rev ?es)" by (rule path_upto [OF path(1)]) (use k n in simp)
  moreover have len: "\<forall>x\<in>set (map (\<lambda>i. ck_tokens (the (key_at c i))) (rev path)). length x = KV_BLOCK_SIZE"
  proof -
    have "\<forall>i k. key_at c i = Some k \<longrightarrow> length (ck_tokens k) = KV_BLOCK_SIZE" using cinv by (simp add: cache_inv_def cache_shape_def)
    then show ?thesis using up_path_live [OF path(1)] by force
  qed
  have "take (Suc k * KV_BLOCK_SIZE) (prompt r) = take (Suc k * KV_BLOCK_SIZE) (take (sq_shared_block_count q * KV_BLOCK_SIZE) (prompt r))"
  proof -
    have "Suc k * KV_BLOCK_SIZE \<le> sq_shared_block_count q * KV_BLOCK_SIZE" by (rule mult_le_mono1) (use k in simp)
    then show ?thesis unfolding take_take by (simp only: min.absorb1)
  qed
  then have "take (Suc k * KV_BLOCK_SIZE) (prompt r) = concat (map (\<lambda>i. ck_tokens (the (key_at c i))) ?es)"
    using concat_take_blocks [OF len, of "Suc k"] k n by (simp add: path(3) take_map)
  moreover have "length ?es = Suc k" using k n by simp
  ultimately show ?thesis using be ph by blast
qed

lemma seqs_apart:
  assumes "distinct (map sq_sequence_id (seqs rs))" and "r \<in> set rs" "r' \<in> set rs" "r \<noteq> r'" "rq_sequence r = Some q" "rq_sequence r' = Some q'"
  shows "sq_sequence_id q \<noteq> sq_sequence_id q'"
proof -
  obtain xs ys where rs: "rs = xs @ r # ys" using assms(2) by (meson split_list)
  then have "r' \<in> set xs \<or> r' \<in> set ys" using assms(3,4) by auto
  then have "q' \<in> set (seqs xs) \<or> q' \<in> set (seqs ys)" using assms(6) by (auto simp: seqs_def in_map_filter)
  then show ?thesis using assms(1,5) by (auto simp: rs)
qed

text \<open>C1. Two live requests that list the same physical block (in a reachable scheduler, both still linked to
  the prefix cache) list it at the same position of their shared prefixes, and their prompts agree on
  every token up to the end of that block: no request ever reads keys and values computed for another
  context, and no private block is visible to two requests.\<close>

theorem shared_block_same_prefix:
  assumes "reachable sched_init sched_step s" and "s_prefix_cache s = Some c"
    and "r \<in> set (s_requests s)" "r' \<in> set (s_requests s)" "r \<noteq> r'" "rq_prefix_linked r" "rq_prefix_linked r'"
    and "rq_sequence r = Some q" "rq_sequence r' = Some q'"
    and "k < length (phys q)" "k' < length (phys q')" "phys q ! k = phys q' ! k'"
  shows "k < sq_shared_block_count q \<and> k = k' \<and>
    take (Suc k * KV_BLOCK_SIZE) (prompt r) = take (Suc k * KV_BLOCK_SIZE) (prompt r')"
proof -
  have core: "core_inv s" using sched.reachable_inv [OF assms(1)] by (simp add: sched_inv_def)
  have kv: "kv_inv (s_pool s) (seqs (s_requests s)) (cache_blocks c)" and dist: "distinct (map bid_physical_index (cache_blocks c))"
    using core assms(2) by (auto simp: core_inv_def kv_part_def ext_of_def cache_ok_def)
  have mem: "q \<in> set (seqs (s_requests s))" "q' \<in> set (seqs (s_requests s))" using assms by (auto simp: seqs_def in_map_filter)
  have "sq_sequence_id q \<noteq> sq_sequence_id q'" using seqs_apart [OF _ assms(3,4,5,8,9)] kv by (simp add: kv_inv_def)
  then have sh: "phys q ! k \<in> set (shared_phys q)" "phys q' ! k' \<in> set (shared_phys q')"
    using common_block_shared [OF kv mem, of "phys q ! k"] common_block_shared [OF kv mem(2,1), of "phys q ! k"] assms(10-12)
    by (metis nth_mem)+
  have inside: "m < sq_shared_block_count a" if a: "seq_core (s_pool s) a" "m < length (phys a)" "phys a ! m \<in> set (shared_phys a)" for a m
  proof -
    have s: "shared_phys a = take (sq_shared_block_count a) (phys a)" using a(1) by (auto simp: shared_phys_def phys_def seq_core_def seq_shape_def min_def)
    obtain j where "j < sq_shared_block_count a" "j < length (phys a)" "phys a ! j = phys a ! m"
      using a(3) unfolding s by (auto simp: in_set_conv_nth)
    moreover have "distinct (phys a)" using a(1) by (simp add: seq_core_def)
    ultimately show ?thesis using a(2) by (metis nth_eq_iff_index_eq)
  qed
  have cores: "seq_core (s_pool s) q" "seq_core (s_pool s) q'" using kv mem by (auto simp: kv_inv_def)
  have k: "k < sq_shared_block_count q" "k' < sq_shared_block_count q'" using inside cores sh assms(10,11) by blast+
  obtain e b es where e: "block_at c e = Some b" "bid_physical_index b = phys q ! k" "e < length (pc_entries c)" "up_path (key_at c) e (rev es)"
    "length es = Suc k" "take (Suc k * KV_BLOCK_SIZE) (prompt r) = concat (map (\<lambda>i. ck_tokens (the (key_at c i))) es)"
    using linked_block [OF core assms(2,3,6,8) k(1)] by blast
  obtain e' b' es' where e': "block_at c e' = Some b'" "bid_physical_index b' = phys q' ! k'" "e' < length (pc_entries c)" "up_path (key_at c) e' (rev es')"
    "length es' = Suc k'" "take (Suc k' * KV_BLOCK_SIZE) (prompt r') = concat (map (\<lambda>i. ck_tokens (the (key_at c i))) es')"
    using linked_block [OF core assms(2,4,7,9) k(2)] by blast
  have "e = e'" using map_filter_apart [of bid_physical_index "block_at c" "[0..<length (pc_entries c)]" e e' b b'] dist e e' assms(12)
    by (simp add: cache_blocks_def)
  then have "es = es'" using up_path_unique [OF e(4)] e'(4) by (metis rev_rev_ident)
  then show ?thesis using k(1) e e' by auto
qed

theorem shared_block_same_prefix_witness:
  "\<exists>r r'. r \<in> set (s_requests run_shared) \<and> r' \<in> set (s_requests run_shared) \<and> r \<noteq> r' \<and>
     take (Suc 0 * KV_BLOCK_SIZE) (prompt r) = take (Suc 0 * KV_BLOCK_SIZE) (prompt r')"
proof -
  obtain r r' where rs: "s_requests run_shared = [r, r']" using run_shared_facts by (auto simp: map_eq_Cons_conv)
  then obtain q q' c where q: "rq_sequence r = Some q" "rq_sequence r' = Some q'" "phys q = [0, 1]" "phys q' = [0, 2]"
    "rq_prefix_linked r" "rq_prefix_linked r'" "s_prefix_cache run_shared = Some c"
    using run_shared_facts by auto
  then have "r \<noteq> r'" by auto
  then show ?thesis using shared_block_same_prefix [OF run_reachable(7) q(7), of r r' q q' 0 0] q rs by auto
qed

subsection \<open>Planning and settling\<close>

text \<open>A sequence at rest.\<close>

definition settled :: "scheduler \<Rightarrow> bool" where
  "settled s \<longleftrightarrow> s_inflight s = None \<and>
     (\<forall>r\<in>set (s_requests s). \<forall>q. rq_sequence r = Some q \<longrightarrow> sq_pending q = None \<and> \<not> sq_poisoned q)"

lemma resting_settled: "resting s \<Longrightarrow> settled s"
  by (auto simp: resting_def settled_def flow_inv_def flow_ok_def phase_ok_def)

lemma rested_settled:
  assumes "rested (s\<lparr>s_last_now_ns := n, s_inflight := None\<rparr>) (t, u)"
  shows "settled t" "iu_settlement_failures u = []"
    "mset (map rq_request_id (s_requests t) @ map rc_request_id (iu_completions u)) = known_ids s"
  using assms resting_settled by (auto simp: rested_def kept_def known_ids_def)

text \<open>C4. Planning, in a reachable scheduler. A failure leaves the iteration in flight (if any) as it was,
  and without one no reservation and no poisoned sequence remains. A success happens only with nothing in flight;
  it returns a plan exactly if one is now in flight, and then every pending reservation belongs to the one item
  of its request.\<close>

theorem planning_is_clean:
  assumes "reachable sched_init sched_step s"
  shows "case plan_iteration env now_ns s of
      (Inl _, t) \<Rightarrow> s_inflight t = s_inflight s \<and> (s_inflight s = None \<longrightarrow> settled t)
    | (Inr out, t) \<Rightarrow> s_inflight s = None \<and> (po_plan out = None \<longleftrightarrow> s_inflight t = None) \<and>
        (\<forall>r\<in>set (s_requests t). \<forall>q. rq_sequence r = Some q \<and> sq_pending q \<noteq> None \<longrightarrow>
           (\<exists>item\<in>set (items_of t). fi_request_id item = rq_request_id r \<and>
              validate_reservation q (fi_reservation item) = Inr ())) \<and>
        distinct (map fi_request_id (items_of t))"
proof (cases "plan_iteration env now_ns s")
  case (Pair r t)
  have inv: "sched_inv s" by (rule sched.reachable_inv [OF assms])
  note plan = wp_plan_iteration [OF inv, of env now_ns]
  show ?thesis
  proof (cases r)
    case (Inl e)
    then have p: "plan_iteration env now_ns s = (Inl e, t)" by (simp add: Pair)
    have "sched_inv t" "s_inflight t = s_inflight s" using wpD_Inl [OF plan p] by simp_all
    then show ?thesis unfolding Pair Inl using resting_settled [of t] by (simp add: resting_iff)
  next
    case (Inr out)
    then have p: "plan_iteration env now_ns s = (Inr out, t)" by (simp add: Pair)
    have t: "s_inflight s = None" "sched_inv t" "po_plan out = None \<longleftrightarrow> s_inflight t = None" using wpD_Inr [OF plan p] by simp_all
    then have flow: "flow_inv (items_of t) t" by (simp add: sched_inv_def)
    have "\<exists>item\<in>set (items_of t). fi_request_id item = rq_request_id r \<and> validate_reservation q (fi_reservation item) = Inr ()"
      if r: "r \<in> set (s_requests t)" "rq_sequence r = Some q" "sq_pending q \<noteq> None" for r q
    proof -
      have ok: "flow_ok (items_of t) r" using flow r(1) by (simp add: flow_inv_def)
      then have "rq_request_id r \<in> fi_request_id ` set (items_of t)" using r(2,3) by (auto simp: flow_ok_def)
      then obtain item where "item \<in> set (items_of t)" "fi_request_id item = rq_request_id r" by auto
      then show ?thesis using ok r(2) by (auto simp: flow_ok_def flight_ok_def)
    qed
    then show ?thesis unfolding Pair Inr using t flow by (auto simp: flow_inv_def)
  qed
qed

theorem planning_is_clean_witness:
  "case plan_iteration demo_env 14 run_second of (Inl _, t) \<Rightarrow> s_inflight t = s_inflight run_second \<and> (s_inflight run_second = None \<longrightarrow> settled t)
    | (Inr out, t) \<Rightarrow> s_inflight run_second = None \<and> distinct (map fi_request_id (items_of t))"
  using planning_is_clean [OF run_reachable(6), of demo_env 14] by (auto split: prod.splits sum.splits)

lemma run_planned_tokens:
  "concat (map (\<lambda>item. published_tokens (s_requests run_planned) (fi_request_id item) (item_output demo_result item)) (items_of run_planned)) =
     [\<lparr>te_request_id = RequestId 1, te_token_id = 9, te_generated_index = 0\<rparr>]"
  by code_simp

text \<open>C2. A result is applied completely or not at all. \<open>complete_iteration\<close> on a reachable scheduler fails only
  for a reason of \<open>completion_refused\<close> (undelivered completions, a clock that runs backwards, a result that is not the
  one of the plan in flight, a refused host allocation, an overflowing batch size) and then changes nothing. Otherwise
  every item of the plan is committed: its request is live again with a sequence committed up to the target length, the
  cursor of a prompt chunk at the target, the runtime's token appended and the state that follows, or its completion is
  delivered with the reason and all its tokens (\<open>item_outcome\<close>, \<open>became\<close>). The token events are exactly the tokens of the
  items, in plan order, requests outside the plan are as before, no reservation is left pending, there is no
  settlement failure, and every request is either live or completed, none lost, none twice.\<close>

theorem completion_all_or_nothing:
  assumes "reachable sched_init sched_step s"
  shows "case complete_iteration env result now_ns s of
      (Inl _, t) \<Rightarrow> t = s \<and> completion_refused env result now_ns s
    | (Inr u, t) \<Rightarrow> \<exists>plan. s_inflight s = Some plan \<and> ir_iteration_id result = fp_iteration_id plan \<and>
        (\<forall>item\<in>set (fp_items plan). \<exists>r\<in>set (s_requests s). rq_request_id r = fi_request_id item \<and>
           became (fi_target_logical_length item)
             (item_outcome (fi_kind item) (fi_target_logical_length item) (item_output result item) now_ns r)
             (s_requests t) (iu_completions u)) \<and>
        iu_token_events u =
          concat (map (\<lambda>item. published_tokens (s_requests s) (fi_request_id item) (item_output result item)) (fp_items plan)) \<and>
        (\<forall>r\<in>set (s_requests s). rq_request_id r \<notin> fi_request_id ` set (fp_items plan) \<longrightarrow> r \<in> set (s_requests t)) \<and>
        settled t \<and> iu_settlement_failures u = [] \<and>
        mset (map rq_request_id (s_requests t) @ map rc_request_id (iu_completions u)) =
        mset (map rq_request_id (s_requests s) @ map rc_request_id (s_completion_outbox s))"
proof -
  have inv: "sched_inv s" by (rule sched.reachable_inv [OF assms])
  show ?thesis
    using wp_complete_iteration [OF inv, of env result now_ns] wp_complete_exact [OF inv, of env result now_ns] rested_settled [where s = s]
    by (auto simp: wp_def known_ids_def iteration_applied_def split: prod.splits sum.splits)
qed

theorem completion_all_or_nothing_witness:
  "\<exists>u. fst (complete_iteration demo_env demo_result 12 run_planned) = Inr u \<and> settled run_completed \<and>
     iu_token_events u = [\<lparr>te_request_id = RequestId 1, te_token_id = 9, te_generated_index = 0\<rparr>] \<and> iu_settlement_failures u = []"
proof -
  obtain u where u: "complete_iteration demo_env demo_result 12 run_planned = (Inr u, run_completed)"
    using run_planned_facts by (auto simp: run_completed_def isl_def prod_eq_iff) (metis sum.exhaust)
  note done_all = completion_all_or_nothing [OF run_reachable(4), of demo_env demo_result 12, unfolded u prod.case sum.case]
  then obtain plan where "s_inflight run_planned = Some plan" "iu_token_events u =
      concat (map (\<lambda>item. published_tokens (s_requests run_planned) (fi_request_id item) (item_output demo_result item)) (fp_items plan))"
    by blast
  with run_planned_tokens have "iu_token_events u = [\<lparr>te_request_id = RequestId 1, te_token_id = 9, te_generated_index = 0\<rparr>]"
    by (simp add: items_of_def)
  with done_all u show ?thesis by auto
qed

text \<open>C3. The same for an abort, whether the work was never dispatched (every reservation is rolled back and the
  requests return to their queues) or the device state is unknown (the requests fail).\<close>

theorem abort_all_or_nothing:
  assumes "reachable sched_init sched_step s"
  shows "case abort_iteration env iteration_id ab now_ns s of
      (Inl _, t) \<Rightarrow> t = s
    | (Inr u, t) \<Rightarrow> s_inflight s \<noteq> None \<and> settled t \<and> iu_settlement_failures u = [] \<and>
        mset (map rq_request_id (s_requests t) @ map rc_request_id (iu_completions u)) =
        mset (map rq_request_id (s_requests s) @ map rc_request_id (s_completion_outbox s))"
  using wp_abort_iteration [OF sched.reachable_inv [OF assms], of env iteration_id ab now_ns] rested_settled [where s = s]
  by (auto simp: wp_def known_ids_def split: prod.splits sum.splits)

definition run_aborted :: scheduler where
  "run_aborted = snd (abort_iteration demo_env (IterationId 1) DeviceQuiescedMutationUnknown 12 run_planned)"

lemma run_aborted_facts: "\<not> isl (fst (abort_iteration demo_env (IterationId 1) DeviceQuiescedMutationUnknown 12 run_planned))"
  by code_simp

theorem abort_all_or_nothing_witness:
  "\<exists>u. fst (abort_iteration demo_env (IterationId 1) DeviceQuiescedMutationUnknown 12 run_planned) = Inr u \<and>
     settled run_aborted \<and> iu_settlement_failures u = []"
  using abort_all_or_nothing [OF run_reachable(4), of demo_env "IterationId 1" DeviceQuiescedMutationUnknown 12] run_aborted_facts
  by (auto simp: run_aborted_def isl_def split: prod.splits sum.splits)

subsection \<open>Identifiers and the clock\<close>

text \<open>C28. A request identifier is never given out twice, however much happens between two submissions; and the
  clock of the scheduler never runs backwards.\<close>

theorem identifiers_never_reused:
  assumes "reachable sched_init sched_step s" and "submit env d now_ns s = (Inr sub, t)"
    and "sched_step\<^sup>*\<^sup>* t u" and "submit env' d' now_ns' u = (Inr sub', v)"
  shows "request_value (sub_request_id sub) < request_value (sub_request_id sub') \<and>
    clock_le (s_last_now_ns t) (s_last_now_ns u)"
proof -
  have inv: "sched_inv s" by (rule sched.reachable_inv [OF assms(1)])
  have s: "sched_inv t" "sub_request_id sub = RequestId (s_next_request_id s)"
    using wpD_Inr [OF wp_submit_inv [OF inv] assms(2)] by simp_all
  have core: "core_inv s" using inv by (simp add: sched_inv_def)
  obtain r where "submitted d now_ns s t r" using wpD_Inr [OF wp_submit [OF core] assms(2)] by blast
  then have nt: "s_next_request_id t = s_next_request_id s + 1" by (rule submitted_fields(5))
  have u: "sched_inv u" "sched_le t u" using sched.run_inv [OF assms(3) s(1)] by simp_all
  have "sub_request_id sub' = RequestId (s_next_request_id u)" using wpD_Inr [OF wp_submit_inv [OF u(1)] assms(4)] by simp
  then show ?thesis using s nt u(2) by (simp add: sched_le_def)
qed

lemma run_submissions:
  "\<not> isl (fst (submit demo_env demo_job 10 run_cached)) \<and> \<not> isl (fst (submit demo_env demo_job 13 run_completed))"
  by code_simp

theorem identifiers_never_reused_witness:
  "\<exists>sub sub'. fst (submit demo_env demo_job 10 run_cached) = Inr sub \<and> fst (submit demo_env demo_job 13 run_completed) = Inr sub' \<and>
     request_value (sub_request_id sub) < request_value (sub_request_id sub')"
proof -
  obtain sub sub' where s: "submit demo_env demo_job 10 run_cached = (Inr sub, run_submitted)"
    "submit demo_env demo_job 13 run_completed = (Inr sub', run_second)"
    using run_submissions by (auto simp: isl_def run_submitted_def run_second_def prod_eq_iff) (metis sum.exhaust)
  have "sched_step run_submitted run_planned" unfolding run_planned_def by (rule sched_step.plan [OF prod.collapse [symmetric]])
  moreover have "sched_step run_planned run_completed" unfolding run_completed_def by (rule sched_step.complete [OF prod.collapse [symmetric]])
  ultimately have "sched_step\<^sup>*\<^sup>* run_submitted run_completed" by (meson rtranclp.rtrancl_refl rtranclp.rtrancl_into_rtrancl)
  from identifiers_never_reused [OF run_reachable(2) s(1) this s(2)] show ?thesis using s by auto
qed

subsection \<open>The end\<close>

text \<open>C5. Closing a reachable scheduler either succeeds, leaving no request, reservation, queue entry or block
  behind (every block is on the free list), with exactly one completion for every request that was live or
  undelivered and no settlement failure; or it hands the scheduler back, no longer accepting, with every such
  request still live or undelivered.\<close>

theorem close_loses_nothing:
  assumes "reachable sched_init sched_step s"
  shows "case close env now_ns disposition s of
      (Inl (_, failures), t) \<Rightarrow> failures = [] \<and> \<not> s_accepting t \<and>
        mset (map rq_request_id (s_requests t) @ map rc_request_id (s_completion_outbox t)) =
        mset (map rq_request_id (s_requests s) @ map rc_request_id (s_completion_outbox s))
    | (Inr out, t) \<Rightarrow> quiescent t \<and> set (kp_free_list (s_pool t)) = {0..<length (kp_slots (s_pool t))} \<and>
        co_settlement_failures out = [] \<and>
        mset (map rc_request_id (co_completions out)) =
        mset (map rq_request_id (s_requests s) @ map rc_request_id (s_completion_outbox s))"
  using wp_close [OF sched.reachable_inv [OF assms], of env now_ns disposition] at_ease_quiescent
  by (auto simp: wp_def handed_back_def known_ids_def split: prod.splits sum.splits)

lemma run_closes: "\<not> isl (fst (close demo_env 15 (Some NotDispatched) run_shared))"
  by code_simp

theorem close_loses_nothing_witness:
  "\<exists>out. fst (close demo_env 15 (Some NotDispatched) run_shared) = Inr out \<and> co_settlement_failures out = [] \<and>
     quiescent (snd (close demo_env 15 (Some NotDispatched) run_shared))"
  using close_loses_nothing [OF run_reachable(7), of demo_env 15 "Some NotDispatched"] run_closes
  by (auto simp: isl_def split: prod.splits sum.splits)

text \<open>C29. What a cancellation does to a request of a reachable scheduler. It is refused, changing nothing but the
  clock, only while completions are undelivered, if the clock runs backwards, or for a request that is neither live
  nor remembered as ended. Otherwise it reports the request as already terminal exactly if its tombstone is kept, and changes
  nothing else then; it is deferred exactly if a live request is in flight, and marks that request and no other; and in
  every other case the live request leaves at once, with its completion as cancelled in the outcome and a
  tombstone behind, and no other request is touched.\<close>

theorem cancel_ends_request:
  assumes "reachable sched_init sched_step s"
  shows "case cancel env x now_ns s of
      (Inl _, t) \<Rightarrow> cancel_refused x now_ns s \<and> (t = s \<or> t = s\<lparr>s_last_now_ns := Some now_ns\<rparr>)
    | (Inr out, t) \<Rightarrow> \<not> cancel_refused x now_ns s \<and> s_inflight t = s_inflight s \<and>
        (if has_tombstone s x then out = cancellation x False True None \<and> t = s\<lparr>s_last_now_ns := Some now_ns\<rparr>
         else \<exists>r\<in>set (s_requests s). rq_request_id r = x \<and>
           (if is_inflight s x
            then out = cancellation x True False None \<and> s_terminal t = s_terminal s \<and>
              s_requests t = map (\<lambda>r. if rq_request_id r = x then r\<lparr>rq_cancellation_deferred := True\<rparr> else r) (s_requests s)
            else out = cancellation x False False (Some (completion_of r ReasonCancelled now_ns)) \<and> has_tombstone t x \<and>
              x \<notin> rq_request_id ` set (s_requests t) \<and> add_mset r (mset (s_requests t)) = mset (s_requests s)))"
  using wp_cancel_exact [OF sched.reachable_inv [OF assms], of env x now_ns]
  by (simp add: wp_def cancelled_to_def split: prod.splits sum.splits)

definition run_cancelled :: scheduler where "run_cancelled = snd (cancel demo_env (RequestId 1) 13 run_completed)"

lemma run_cancels:
  "\<not> isl (fst (cancel demo_env (RequestId 1) 12 run_planned))" "\<not> has_tombstone run_planned (RequestId 1)" "is_inflight run_planned (RequestId 1)"
  "\<not> isl (fst (cancel demo_env (RequestId 1) 13 run_completed))" "\<not> has_tombstone run_completed (RequestId 1)" "\<not> is_inflight run_completed (RequestId 1)"
  "\<not> isl (fst (cancel demo_env (RequestId 1) 14 run_cancelled))" "has_tombstone run_cancelled (RequestId 1)"
  by code_simp+

lemma run_cancelled_reachable: "reachable sched_init sched_step run_cancelled"
  unfolding run_cancelled_def by (rule reachable.move [OF run_reachable(5) sched_step.cancel [OF prod.collapse [symmetric]]])

theorem cancel_ends_request_witness:
  "fst (cancel demo_env (RequestId 1) 12 run_planned) = Inr (cancellation (RequestId 1) True False None) \<and>
   (\<exists>c. fst (cancel demo_env (RequestId 1) 13 run_completed) = Inr (cancellation (RequestId 1) False False (Some c)) \<and>
      RequestId 1 \<notin> rq_request_id ` set (s_requests run_cancelled)) \<and>
   fst (cancel demo_env (RequestId 1) 14 run_cancelled) = Inr (cancellation (RequestId 1) False True None)"
  using cancel_ends_request [OF run_reachable(4), where env = demo_env and x = "RequestId 1" and now_ns = 12]
    cancel_ends_request [OF run_reachable(5), where env = demo_env and x = "RequestId 1" and now_ns = 13]
    cancel_ends_request [OF run_cancelled_reachable, where env = demo_env and x = "RequestId 1" and now_ns = 14] run_cancels
  by (auto simp: run_cancelled_def isl_def split: prod.splits sum.splits)

subsection \<open>Enabling the cache twice\<close>

text \<open>The guard of \<open>enable_prefix_cache\<close> only asks for an empty request table. Once a request has run and left,
  the cache still holds its blocks; enabling it again replaces the cache, nobody drops the old references, and
  the scheduler can never be closed.\<close>

definition run_replaced :: scheduler where
  "run_replaced = snd (enable_prefix_cache demo_env 2 (snd (cancel demo_env (RequestId 1) 13 run_completed)))"

theorem enable_prefix_cache_leaks:
  "fst (enable_prefix_cache demo_env 2 (snd (cancel demo_env (RequestId 1) 13 run_completed))) = Inr () \<and>
   s_requests run_replaced = [] \<and> ext_of (s_prefix_cache run_replaced) = [] \<and>
   kp_allocated_block_count (s_pool run_replaced) = 1 \<and> isl (fst (close demo_env 15 None run_replaced))"
  by code_simp

end
