(* ===== verification/Rng.thy ===== *)
theory Rng
  imports Complex_Main Riley_Prelude "HOL-Library.Word"
begin

unbundle bit_operations_syntax

text \<open>
  The portable request-local random number generator of \<open>riley-runtime/src/rng.rs\<close>: Philox4x32-10 over
  32-bit machine words, the derivation of a stream from a seed, its position, and the textual snapshots
  from which a position is restored. SHA-256 is the third-party crate's: a parameter \<open>sha\<close>, of which the
  code uses that a digest has 32 bytes. A Rust string is the list of its bytes.
\<close>

subsection \<open>Bytes and words\<close>

type_synonym byte = "8 word"

definition as_bytes :: "string \<Rightarrow> byte list" where
  "as_bytes s = map of_char s"

definition u32_to_le_bytes :: "32 word \<Rightarrow> byte list" where
  "u32_to_le_bytes w = map (\<lambda>i. ucast (drop_bit (8 * i) w)) [0, 1, 2, 3]"

definition u64_to_le_bytes :: "64 word \<Rightarrow> byte list" where
  "u64_to_le_bytes w = map (\<lambda>i. ucast (drop_bit (8 * i) w)) [0, 1, 2, 3, 4, 5, 6, 7]"

definition u32_from_le_bytes :: "byte \<Rightarrow> byte \<Rightarrow> byte \<Rightarrow> byte \<Rightarrow> 32 word" where
  "u32_from_le_bytes b0 b1 b2 b3 =
     ucast b0 OR push_bit 8 (ucast b1) OR push_bit 16 (ucast b2) OR push_bit 24 (ucast b3)"

subsection \<open>The block function\<close>

type_synonym counter = "32 word \<times> 32 word \<times> 32 word \<times> 32 word"

definition M0 :: "32 word" where "M0 = 0xd2511f53"
definition M1 :: "32 word" where "M1 = 0xcd9e8d57"
definition W0 :: "32 word" where "W0 = 0x9e3779b9"
definition W1 :: "32 word" where "W1 = 0xbb67ae85"
definition ROUNDS :: nat where "ROUNDS = 10"

definition mul_hi_lo :: "32 word \<Rightarrow> 32 word \<Rightarrow> 32 word \<times> 32 word" where
  "mul_hi_lo lhs rhs =
     (let bytes = u64_to_le_bytes (ucast lhs * ucast rhs) in
      (u32_from_le_bytes (bytes ! 4) (bytes ! 5) (bytes ! 6) (bytes ! 7),
       u32_from_le_bytes (bytes ! 0) (bytes ! 1) (bytes ! 2) (bytes ! 3)))"

definition block_counter :: "64 word \<Rightarrow> 32 word \<times> 32 word \<Rightarrow> counter" where
  "block_counter block nonce =
     (let bytes = u64_to_le_bytes block in
      (u32_from_le_bytes (bytes ! 0) (bytes ! 1) (bytes ! 2) (bytes ! 3),
       u32_from_le_bytes (bytes ! 4) (bytes ! 5) (bytes ! 6) (bytes ! 7), fst nonce, snd nonce))"

text \<open>The body of the loop over counter and key, and the loop.\<close>

type_synonym key = "32 word \<times> 32 word"

fun philox_round :: "counter \<times> key \<Rightarrow> counter \<times> key" where
  "philox_round ((c0, c1, c2, c3), (k0, k1)) =
     (let (hi0, lo0) = mul_hi_lo M0 c0; (hi1, lo1) = mul_hi_lo M1 c2 in
      ((hi1 XOR c1 XOR k0, lo1, hi0 XOR c3 XOR k1, lo0), (k0 + W0, k1 + W1)))"

definition philox4x32_10 :: "counter \<Rightarrow> key \<Rightarrow> counter" where
  "philox4x32_10 counter key = fst ((philox_round ^^ ROUNDS) (counter, key))"

definition counter_words :: "counter \<Rightarrow> 32 word list" where
  "counter_words c = (case c of (a, b, x, y) \<Rightarrow> [a, b, x, y])"

subsection \<open>State, errors and snapshots\<close>

datatype rng_input = Stream | Domain | ForkLabel

datatype rng_error =
    InputTooLong rng_input nat
  | Exhausted
  | UnsupportedAlgorithmId string
  | InvalidDerivationDigestHex
  | InvalidBlockDecimal string
  | WordOffsetOutOfRange byte
  | InconsistentExhaustedState "64 word" byte

record rng_snapshot =
  sn_algorithm_id :: string
  sn_derivation_digest_hex :: string
  sn_block :: string
  sn_word_offset :: byte
  sn_exhausted :: bool

record philox_rng =
  rg_derivation_digest :: "byte list"
  rg_key :: key
  rg_nonce :: "32 word \<times> 32 word"
  rg_block :: "64 word"
  rg_word_offset :: byte
  rg_exhausted :: bool

definition PHILOX4X32_10_ALGORITHM_ID :: string where
  "PHILOX4X32_10_ALGORITHM_ID = ''riley.philox4x32-10.v1''"

definition DERIVATION_DIGEST_BYTES :: nat where "DERIVATION_DIGEST_BYTES = 32"
definition DERIVATION_DIGEST_HEX_BYTES :: nat where "DERIVATION_DIGEST_HEX_BYTES = DERIVATION_DIGEST_BYTES * 2"

subsection \<open>Derivation\<close>

definition NUL :: byte where "NUL = 0"
definition SEED_TAG :: "byte list" where "SEED_TAG = as_bytes ''riley.philox4x32-10.v1/seed'' @ [NUL]"
definition STREAM_TAG :: "byte list" where "STREAM_TAG = as_bytes ''riley.philox4x32-10.v1/stream'' @ [NUL]"
definition DOMAIN_TAG :: "byte list" where "DOMAIN_TAG = as_bytes ''riley.philox4x32-10.v1/domain'' @ [NUL]"
definition FORK_TAG :: "byte list" where "FORK_TAG = as_bytes ''riley.philox4x32-10.v1/fork'' @ [NUL]"

type_synonym hash = "byte list \<Rightarrow> byte list"

definition derive_seed :: "hash \<Rightarrow> 64 word \<Rightarrow> byte list" where
  "derive_seed sha master_seed = sha (SEED_TAG @ u64_to_le_bytes master_seed)"

definition derive_child :: "hash \<Rightarrow> byte list \<Rightarrow> byte list \<Rightarrow> byte list \<Rightarrow> rng_input \<Rightarrow> rng_error + byte list" where
  "derive_child sha tag parent_digest value input =
     (if 2 ^ 32 \<le> length value then Inl (InputTooLong input (length value))
      else Inr (sha (tag @ parent_digest @ u32_to_le_bytes (of_nat (length value)) @ value)))"

definition digest_word :: "byte list \<Rightarrow> nat \<Rightarrow> 32 word" where
  "digest_word digest start =
     u32_from_le_bytes (digest ! start) (digest ! (start + 1)) (digest ! (start + 2)) (digest ! (start + 3))"

definition from_validated_state :: "byte list \<Rightarrow> 64 word \<Rightarrow> byte \<Rightarrow> bool \<Rightarrow> philox_rng" where
  "from_validated_state derivation_digest block word_offset exhausted =
     \<lparr>rg_derivation_digest = derivation_digest,
      rg_key = (digest_word derivation_digest 0, digest_word derivation_digest 4),
      rg_nonce = (digest_word derivation_digest 8, digest_word derivation_digest 12),
      rg_block = block, rg_word_offset = word_offset, rg_exhausted = exhausted\<rparr>"

definition rng_new :: "hash \<Rightarrow> 64 word \<Rightarrow> byte list \<Rightarrow> byte list \<Rightarrow> rng_error + philox_rng" where
  "rng_new sha master_seed stream domain =
     bindE (derive_child sha STREAM_TAG (derive_seed sha master_seed) stream Stream) (\<lambda>stream_digest.
     bindE (derive_child sha DOMAIN_TAG stream_digest domain Domain) (\<lambda>derivation_digest.
     Inr (from_validated_state derivation_digest 0 0 False)))"

definition from_text :: "hash \<Rightarrow> 64 word \<Rightarrow> string \<Rightarrow> string \<Rightarrow> rng_error + philox_rng" where
  "from_text sha master_seed stream domain = rng_new sha master_seed (as_bytes stream) (as_bytes domain)"

definition fork :: "hash \<Rightarrow> philox_rng \<Rightarrow> byte list \<Rightarrow> rng_error + philox_rng" where
  "fork sha rng label =
     bindE (derive_child sha FORK_TAG (rg_derivation_digest rng) label ForkLabel) (\<lambda>child_digest.
     Inr (from_validated_state child_digest 0 0 False))"

definition fork_text :: "hash \<Rightarrow> philox_rng \<Rightarrow> string \<Rightarrow> rng_error + philox_rng" where
  "fork_text sha rng label = fork sha rng (as_bytes label)"

subsection \<open>Drawing\<close>

type_synonym 'a rng_cmd = "(philox_rng, rng_error, 'a) cmd"

definition next_u32 :: "32 word rng_cmd" where
  "next_u32 = withM (\<lambda>rng.
     bindM (failIf (rg_exhausted rng) Exhausted) (\<lambda>_.
     let counter = block_counter (rg_block rng) (rg_nonce rng);
         words = philox4x32_10 counter (rg_key rng);
         word = counter_words words ! unat (rg_word_offset rng) in
     bindM (modM (\<lambda>rng.
       if rg_word_offset rng < 3 then rng\<lparr>rg_word_offset := rg_word_offset rng + 1\<rparr>
       else if rg_block rng = - 1 then rng\<lparr>rg_exhausted := True\<rparr>
       else rng\<lparr>rg_block := rg_block rng + 1, rg_word_offset := 0\<rparr>)) (\<lambda>_.
     ret word)))"

text \<open>Both operations are exact in binary64: the numerator has 33 significant bits.\<close>

definition TWO_NEGATIVE_32 :: rat where "TWO_NEGATIVE_32 = 1 / 4294967296"

definition uniform_f64_open01 :: "32 word \<Rightarrow> rat" where
  "uniform_f64_open01 word = (of_nat (unat word) + 1 / 2) * TWO_NEGATIVE_32"

definition next_f64_open01 :: "rat rng_cmd" where
  "next_f64_open01 = bindM next_u32 (\<lambda>word. ret (uniform_f64_open01 word))"

definition WORDS_PER_BLOCK :: nat where "WORDS_PER_BLOCK = 4"

text \<open>A \<open>u128\<close>, which \<open>2 ^ 66\<close> does not overflow.\<close>

definition draws :: "philox_rng \<Rightarrow> nat" where
  "draws rng = (if rg_exhausted rng then (unat (- 1 :: 64 word) + 1) * WORDS_PER_BLOCK
     else unat (rg_block rng) * WORDS_PER_BLOCK + unat (rg_word_offset rng))"

subsection \<open>Text\<close>

definition LOWER_HEX :: string where "LOWER_HEX = ''0123456789abcdef''"

definition digest_hex :: "byte list \<Rightarrow> string" where
  "digest_hex digest =
     concat (map (\<lambda>byte. [LOWER_HEX ! unat (drop_bit 4 byte), LOWER_HEX ! unat (byte AND 0x0f)]) digest)"

definition ascii_digit :: "byte \<Rightarrow> bool" where
  "ascii_digit b \<longleftrightarrow> 48 \<le> b \<and> b \<le> 57"

definition lower_hex_byte :: "byte \<Rightarrow> bool" where
  "lower_hex_byte b \<longleftrightarrow> ascii_digit b \<or> 97 \<le> b \<and> b \<le> 102"

text \<open>The validation before it excludes the \<open>unreachable!\<close> arm.\<close>

definition hex_nibble :: "byte \<Rightarrow> byte" where
  "hex_nibble b = (if ascii_digit b then b - 48 else b - 97 + 10)"

fun hex_pairs :: "byte list \<Rightarrow> byte list" where
  "hex_pairs (a # b # rest) = (push_bit 4 (hex_nibble a) OR hex_nibble b) # hex_pairs rest"
| "hex_pairs _ = []"

definition parse_digest_hex :: "string \<Rightarrow> rng_error + byte list" where
  "parse_digest_hex value =
     (let bytes = as_bytes value in
      if length bytes \<noteq> DERIVATION_DIGEST_HEX_BYTES \<or> \<not> list_all lower_hex_byte bytes
      then Inl InvalidDerivationDigestHex else Inr (hex_pairs bytes))"

text \<open>\<open>u64::to_string\<close> and \<open>str::parse::<u64>\<close> of the standard library, the latter on a nonempty string of
  digits, which is all that reaches it.\<close>

definition digit_char :: "nat \<Rightarrow> char" where
  "digit_char d = char_of (48 + d)"

fun decimal :: "nat \<Rightarrow> string" where
  "decimal n = (if n < 10 then [digit_char n] else decimal (n div 10) @ [digit_char (n mod 10)])"

declare decimal.simps [simp del]

fun parse_digits :: "nat \<Rightarrow> byte list \<Rightarrow> nat option" where
  "parse_digits acc [] = Some acc"
| "parse_digits acc (b # rest) =
     (let acc' = acc * 10 + unat (b - 48) in if u64_max < acc' then None else parse_digits acc' rest)"

definition parse_block_decimal :: "string \<Rightarrow> rng_error + 64 word" where
  "parse_block_decimal value =
     (let bytes = as_bytes value;
          canonical = bytes \<noteq> [] \<and> (length bytes = 1 \<or> hd bytes \<noteq> 48) \<and> list_all ascii_digit bytes in
      if \<not> canonical then Inl (InvalidBlockDecimal value)
      else case parse_digits 0 bytes of
             None \<Rightarrow> Inl (InvalidBlockDecimal value)
           | Some n \<Rightarrow> Inr (of_nat n))"

definition snapshot :: "philox_rng \<Rightarrow> rng_snapshot" where
  "snapshot rng =
     \<lparr>sn_algorithm_id = PHILOX4X32_10_ALGORITHM_ID,
      sn_derivation_digest_hex = digest_hex (rg_derivation_digest rng),
      sn_block = decimal (unat (rg_block rng)),
      sn_word_offset = rg_word_offset rng,
      sn_exhausted = rg_exhausted rng\<rparr>"

definition from_snapshot :: "rng_snapshot \<Rightarrow> rng_error + philox_rng" where
  "from_snapshot sn =
     bindE (failE (sn_algorithm_id sn \<noteq> PHILOX4X32_10_ALGORITHM_ID) (UnsupportedAlgorithmId (sn_algorithm_id sn))) (\<lambda>_.
     bindE (parse_digest_hex (sn_derivation_digest_hex sn)) (\<lambda>derivation_digest.
     bindE (parse_block_decimal (sn_block sn)) (\<lambda>block.
     bindE (failE (sn_word_offset sn > 3) (WordOffsetOutOfRange (sn_word_offset sn))) (\<lambda>_.
     bindE (failE (sn_exhausted sn \<and> (block \<noteq> - 1 \<or> sn_word_offset sn \<noteq> 3))
       (InconsistentExhaustedState block (sn_word_offset sn))) (\<lambda>_.
     Inr (from_validated_state derivation_digest block (sn_word_offset sn) (sn_exhausted sn)))))))"

definition restore :: "rng_snapshot \<Rightarrow> unit rng_cmd" where
  "restore sn = bindM (tryM (from_snapshot sn)) (\<lambda>restored. modM (\<lambda>_. restored))"

end
