(* ===== verification/Rng_Stream.thy ===== *)
theory Rng_Stream
  imports Rng
begin

text \<open>
  What the generator promises: its block function is a permutation, so no two blocks of a stream are
  equal; a state is a position in one fixed stream of \<open>2 ^ 66\<close> words, which drawing walks through without
  wrapping; and snapshots are the canonical text of states.
\<close>

subsection \<open>The byte-wise operations are word arithmetic\<close>

lemma le_slice:
  "u32_from_le_bytes (ucast w) (ucast (drop_bit 8 w)) (ucast (drop_bit 16 w)) (ucast (drop_bit 24 w)) =
   (ucast (w :: 64 word) :: 32 word)"
proof (rule bit_word_eqI)
  fix n assume "n < LENGTH(32)"
  then have "n < 8 \<or> 8 \<le> n \<and> n < 16 \<or> 16 \<le> n \<and> n < 24 \<or> 24 \<le> n \<and> n < 32" by auto
  then show "bit (u32_from_le_bytes (ucast w) (ucast (drop_bit 8 w)) (ucast (drop_bit 16 w)) (ucast (drop_bit 24 w))) n =
      bit (ucast w :: 32 word) n"
    by (elim disjE) (auto simp: u32_from_le_bytes_def bit_simps)
qed

lemma ucast_product: "ucast (ucast a * ucast b :: 64 word) = (a * b :: 32 word)"
  by transfer (simp add: take_bit_mult)

lemma mul_hi_lo_word: "mul_hi_lo a b = (ucast (drop_bit 32 (ucast a * ucast b :: 64 word)), a * b)"
  using le_slice [of "ucast a * ucast b"] le_slice [of "drop_bit 32 (ucast a * ucast b)"]
  by (simp add: mul_hi_lo_def u64_to_le_bytes_def ucast_product)

lemma block_counter_word: "block_counter b n = (ucast b, ucast (drop_bit 32 b), n)"
  using le_slice [of b] le_slice [of "drop_bit 32 b"] by (simp add: block_counter_def u64_to_le_bytes_def)

lemma block_counter_inj:
  assumes "block_counter b n = block_counter b' n"
  shows "b = b'"
proof (rule bit_word_eqI)
  fix i assume i: "i < LENGTH(64)"
  have lo: "(ucast b :: 32 word) = ucast b'" and hi: "(ucast (drop_bit 32 b) :: 32 word) = ucast (drop_bit 32 b')"
    using assms by (simp_all add: block_counter_word)
  have "bit b k = bit b' k" if "k < 32" for k using arg_cong [OF lo, of "\<lambda>w. bit w k"] that by (simp add: bit_simps)
  moreover have high: "bit b (32 + k) = bit b' (32 + k)" if "k < 32" for k
    using arg_cong [OF hi, of "\<lambda>w. bit w k"] that by (simp add: bit_simps)
  have "bit b i = bit b' i" if "\<not> i < 32" using high [of "i - 32"] that i by simp
  ultimately show "bit b i = bit b' i" by blast
qed

subsection \<open>Undoing a round\<close>

fun unround :: "counter \<times> key \<Rightarrow> counter \<times> key" where
  "unround ((x0, lo1, x2, lo0), (k0, k1)) =
     (let c0 = 0x991a7cdb * lo0; c2 = 0x6d7cae67 * lo1; j0 = k0 - W0; j1 = k1 - W1 in
      ((c0, x0 XOR fst (mul_hi_lo M1 c2) XOR j0, c2, x2 XOR fst (mul_hi_lo M0 c0) XOR j1), (j0, j1)))"

lemma multiplier_inverses: "0x991a7cdb * M0 = 1" "0x6d7cae67 * M1 = 1"
  by (simp_all add: M0_def M1_def)

lemma cancel_multiplier [simp]: "0x991a7cdb * (M0 * c) = c" "0x6d7cae67 * (M1 * c) = c"
  unfolding mult.assoc [symmetric] multiplier_inverses by simp_all

lemma xor_cancel: "(h XOR c XOR k) XOR h XOR k = (c :: 32 word)"
  by (rule bit_word_eqI) (auto simp: bit_simps)

lemma unround_round: "unround (philox_round x) = x"
proof -
  obtain c0 c1 c2 c3 k0 k1 where x: "x = ((c0, c1, c2, c3), (k0, k1))" by (metis prod.collapse)
  show ?thesis by (simp add: x mul_hi_lo_word Let_def xor_cancel)
qed

lemma rounds_inj: "(philox_round ^^ n) x = (philox_round ^^ n) y \<Longrightarrow> x = y"
proof (induction n)
  case (Suc n)
  then have "philox_round ((philox_round ^^ n) x) = philox_round ((philox_round ^^ n) y)" by simp
  then have "(philox_round ^^ n) x = (philox_round ^^ n) y" by (metis unround_round)
  then show ?case by (rule Suc.IH)
qed simp

text \<open>The key schedule does not look at the counter.\<close>

lemma round_key: "snd (philox_round x) = (fst (snd x) + W0, snd (snd x) + W1)"
proof -
  obtain c0 c1 c2 c3 k0 k1 where x: "x = ((c0, c1, c2, c3), (k0, k1))" by (metis prod.collapse)
  show ?thesis by (simp add: x mul_hi_lo_word)
qed

lemma rounds_key: "snd ((philox_round ^^ n) (c, k)) = snd ((philox_round ^^ n) (c', k))"
  by (induction n) (simp_all add: round_key)

lemma philox_inj: "philox4x32_10 c k = philox4x32_10 c' k \<Longrightarrow> c = c'"
  using rounds_inj [of ROUNDS "(c, k)" "(c', k)"] rounds_key [of ROUNDS c k c'] by (simp add: philox4x32_10_def prod_eq_iff)

lemma counter_words_inj: "counter_words c = counter_words c' \<Longrightarrow> c = c'"
  by (simp add: counter_words_def split: prod.splits)

lemma length_counter_words [simp]: "length (counter_words c) = 4"
  by (simp add: counter_words_def split: prod.split)

subsection \<open>A state is a position in its stream\<close>

text \<open>The reference: the words of a digest's stream, addressed by position.\<close>

definition stream_block :: "byte list \<Rightarrow> nat \<Rightarrow> 32 word list" where
  "stream_block digest b = counter_words (philox4x32_10
     (block_counter (of_nat b) (digest_word digest 8, digest_word digest 12)) (digest_word digest 0, digest_word digest 4))"

definition stream_word :: "byte list \<Rightarrow> nat \<Rightarrow> 32 word" where
  "stream_word digest p = stream_block digest (p div 4) ! (p mod 4)"

definition stream_length :: nat where "stream_length = 2 ^ 66"

definition rng_ok :: "philox_rng \<Rightarrow> bool" where
  "rng_ok rng \<longleftrightarrow> length (rg_derivation_digest rng) = DERIVATION_DIGEST_BYTES \<and>
     rg_key rng = (digest_word (rg_derivation_digest rng) 0, digest_word (rg_derivation_digest rng) 4) \<and>
     rg_nonce rng = (digest_word (rg_derivation_digest rng) 8, digest_word (rg_derivation_digest rng) 12) \<and>
     rg_word_offset rng \<le> 3 \<and> (rg_exhausted rng \<longrightarrow> rg_block rng = - 1 \<and> rg_word_offset rng = 3)"

lemma rng_ok_start: "length d = DERIVATION_DIGEST_BYTES \<Longrightarrow> rng_ok (from_validated_state d 0 0 False)"
  by (simp add: rng_ok_def from_validated_state_def)

lemma draws_start [simp]: "draws (from_validated_state d 0 0 False) = 0"
  by (simp add: draws_def from_validated_state_def)

lemma last_block: "unat (- 1 :: 64 word) = 18446744073709551615"
  by (simp add: unsigned_minus_1_eq_mask mask_eq_exp_minus_1)

lemma offset_cases: "(w :: byte) \<le> 3 \<Longrightarrow> unat w \<le> 3"
  by (simp add: word_le_nat_alt)

lemma block_bound: "unat (rg_block rng) < 18446744073709551616"
proof -
  have "unat (rg_block rng) < 2 ^ LENGTH(64)" by (rule unsigned_less)
  then show ?thesis by simp
qed

lemma draws_bound: "rng_ok rng \<Longrightarrow> draws rng \<le> stream_length"
  using block_bound [of rng] offset_cases [of "rg_word_offset rng"]
  by (auto simp: draws_def last_block WORDS_PER_BLOCK_def stream_length_def rng_ok_def)

lemma exhausted_iff: "rng_ok rng \<Longrightarrow> rg_exhausted rng \<longleftrightarrow> draws rng = stream_length"
  using block_bound [of rng] offset_cases [of "rg_word_offset rng"]
  by (auto simp: draws_def last_block WORDS_PER_BLOCK_def stream_length_def rng_ok_def)

lemma draw_exhausted: "rg_exhausted rng \<Longrightarrow> next_u32 rng = (Inl Exhausted, rng)"
  by (simp add: next_u32_def withM_def bindM_def failIf_def)

definition advanced_rng :: "philox_rng \<Rightarrow> philox_rng" where
  "advanced_rng rng = (if rg_word_offset rng < 3 then rng\<lparr>rg_word_offset := rg_word_offset rng + 1\<rparr>
     else if rg_block rng = - 1 then rng\<lparr>rg_exhausted := True\<rparr>
     else rng\<lparr>rg_block := rg_block rng + 1, rg_word_offset := 0\<rparr>)"

lemma draw_word:
  assumes ok: "rng_ok rng" and live: "\<not> rg_exhausted rng"
  shows "next_u32 rng = (Inr (stream_word (rg_derivation_digest rng) (draws rng)), advanced_rng rng)"
proof -
  have o: "unat (rg_word_offset rng) < 4" using offset_cases [of "rg_word_offset rng"] ok by (simp add: rng_ok_def)
  have "stream_word (rg_derivation_digest rng) (draws rng) =
      counter_words (philox4x32_10 (block_counter (rg_block rng) (rg_nonce rng)) (rg_key rng)) ! unat (rg_word_offset rng)"
    using ok live o by (simp add: stream_word_def stream_block_def draws_def WORDS_PER_BLOCK_def rng_ok_def)
  then show ?thesis using live
    by (simp add: next_u32_def withM_def bindM_def failIf_def modM_def ret_def Let_def advanced_rng_def)
qed

lemma advance_position:
  assumes ok: "rng_ok rng" and live: "\<not> rg_exhausted rng"
  shows "rng_ok (advanced_rng rng)" and "draws (advanced_rng rng) = draws rng + 1"
    and "rg_derivation_digest (advanced_rng rng) = rg_derivation_digest rng"
proof -
  have b: "unat (rg_block rng + 1) = unat (rg_block rng) + 1" if "rg_block rng \<noteq> - 1"
    using that unatSuc [of "rg_block rng"] by (simp add: add.commute add_eq_0_iff)
  have "rg_word_offset rng \<noteq> - 1" using offset_cases [of "rg_word_offset rng"] ok
    by (auto simp: rng_ok_def unsigned_minus_1_eq_mask mask_eq_exp_minus_1)
  then have o: "unat (rg_word_offset rng + 1) = unat (rg_word_offset rng) + 1"
    using unatSuc [of "rg_word_offset rng"] by (simp add: add.commute add_eq_0_iff)
  then have small: "rg_word_offset rng + 1 \<le> 3" if "rg_word_offset rng < 3"
    using that by (simp add: word_le_nat_alt word_less_nat_alt)
  have three: "rg_word_offset rng = 3" if "\<not> rg_word_offset rng < 3" using that ok by (simp add: rng_ok_def)
  show "rg_derivation_digest (advanced_rng rng) = rg_derivation_digest rng" by (simp add: advanced_rng_def)
  show "rng_ok (advanced_rng rng)" using ok live small three by (auto simp: rng_ok_def advanced_rng_def)
  show "draws (advanced_rng rng) = draws rng + 1"
    using live o three b by (auto simp: advanced_rng_def draws_def last_block WORDS_PER_BLOCK_def)
qed

end
