(* ===== verification/Rng_Snapshot.thy ===== *)
theory Rng_Snapshot
  imports Rng_Stream
begin

text \<open>
  The canonical text of a generator: digests in lower-case hexadecimal, blocks in decimal, and the proof
  that a valid snapshot and a well-formed state determine each other.
\<close>

subsection \<open>Characters and bytes\<close>

lemma char_byte [simp]: "char_of (unat (of_char c :: byte)) = c"
proof -
  have "(of_char c :: nat) < 256" by simp
  then have "unat (of_nat (of_char c) :: byte) = of_char c" by (simp add: unat_of_nat)
  then show ?thesis by (simp add: of_nat_of_char)
qed

lemma byte_char [simp]: "of_char (char_of (unat (b :: byte)) :: char) = b"
proof -
  have "unat b < 2 ^ LENGTH(8)" by (rule unsigned_less)
  then have "(of_char (char_of (unat b) :: char) :: nat) = unat b" by simp
  then have "(of_nat (of_char (char_of (unat b) :: char) :: nat) :: byte) = of_nat (unat b)" by (rule arg_cong)
  then show ?thesis unfolding of_nat_of_char by simp
qed

lemma as_bytes_simps [simp]:
  "as_bytes [] = []" "as_bytes (c # s) = of_char c # as_bytes s" "as_bytes (s @ u) = as_bytes s @ as_bytes u"
  "length (as_bytes s) = length s" "as_bytes s = [] \<longleftrightarrow> s = []"
  by (simp_all add: as_bytes_def)

lemma bytes_text: "map (\<lambda>b. char_of (unat b)) (as_bytes s) = s"
  by (induction s) simp_all

lemma as_bytes_text: "as_bytes (map (\<lambda>b. char_of (unat b)) bs) = bs"
  by (induction bs) simp_all

subsection \<open>Hexadecimal\<close>

lemma all_nibbles:
  "\<forall>n\<in>set [0..<16]. hex_nibble (of_char (LOWER_HEX ! n)) = of_nat n \<and> lower_hex_byte (of_char (LOWER_HEX ! n))"
  by code_simp

lemma all_hex_bytes:
  "\<forall>n\<in>set ([48..<58] @ [97..<103]). unat (hex_nibble (of_nat n)) < 16 \<and> LOWER_HEX ! unat (hex_nibble (of_nat n)) = char_of n"
  by code_simp

lemma nibble:
  assumes "unat (x :: byte) < 16"
  shows "hex_nibble (of_char (LOWER_HEX ! unat x)) = x" and "lower_hex_byte (of_char (LOWER_HEX ! unat x))"
  using bspec [OF all_nibbles, of "unat x"] assms by simp_all

lemma hex_byte:
  assumes "lower_hex_byte b"
  shows "unat (hex_nibble b) < 16" and "LOWER_HEX ! unat (hex_nibble b) = char_of (unat b)"
proof -
  have "unat b \<in> set ([48..<58] @ [97..<103])"
    unfolding set_append set_upt Un_iff atLeastLessThan_iff
    using assms by (auto simp: lower_hex_byte_def ascii_digit_def word_le_nat_alt)
  from bspec [OF all_hex_bytes this]
  show "unat (hex_nibble b) < 16" and "LOWER_HEX ! unat (hex_nibble b) = char_of (unat b)" by simp_all
qed

lemma byte_halves: "push_bit 4 (drop_bit 4 b) OR (b AND 0x0f) = (b :: byte)"
proof -
  have m: "(0x0f :: byte) = mask 4" by (simp add: mask_eq_exp_minus_1)
  show ?thesis unfolding m by (rule bit_word_eqI) (auto simp: bit_simps)
qed

lemma halves_small: "unat (drop_bit 4 b :: byte) < 16" "unat (b AND 0x0f :: byte) < 16"
proof -
  have "unat b < 2 ^ LENGTH(8)" by (rule unsigned_less)
  then show "unat (drop_bit 4 b :: byte) < 16" by (simp add: drop_bit_eq_div unat_div_distrib)
  have "b AND 0x0f \<le> (0x0f :: byte)" by (rule word_and_le1)
  then show "unat (b AND 0x0f :: byte) < 16" by (simp add: word_le_nat_alt)
qed

lemma halves_byte:
  assumes "unat (x :: byte) < 16" and "unat (y :: byte) < 16"
  shows "drop_bit 4 (push_bit 4 x OR y) = x" and "(push_bit 4 x OR y) AND 0x0f = y"
proof -
  have small: "w = take_bit 4 w" if "unat w < 16" for w :: byte
    using that by (simp add: word_unat_eq_iff take_bit_eq_mod unat_mod_distrib)
  have hi: "\<not> bit w n" if "unat w < 16" "4 \<le> n" for w :: byte and n
    using that(2) by (subst small [OF that(1)]) (simp add: bit_simps)
  have m: "(0x0f :: byte) = mask 4" by (simp add: mask_eq_exp_minus_1)
  show "drop_bit 4 (push_bit 4 x OR y) = x"
    by (rule bit_word_eqI) (use hi [OF assms(2)] hi [OF assms(1)] in \<open>auto simp: bit_simps\<close>, meson not_le)
  show "(push_bit 4 x OR y) AND 0x0f = y" unfolding m
    by (rule bit_word_eqI) (use hi [OF assms(2)] in \<open>auto simp: bit_simps\<close>, meson not_le)
qed

lemma parse_hex: "hex_pairs (as_bytes (digest_hex d)) = d \<and> list_all lower_hex_byte (as_bytes (digest_hex d))"
proof (induction d)
  case (Cons b d)
  then show ?case using nibble [OF halves_small(1) [of b]] nibble [OF halves_small(2) [of b]] byte_halves [of b]
    by (simp add: digest_hex_def)
qed (simp add: digest_hex_def)

lemma length_digest_hex: "length (digest_hex d) = 2 * length d"
  by (induction d) (simp_all add: digest_hex_def)

lemma print_hex:
  "list_all lower_hex_byte bs \<Longrightarrow> even (length bs) \<Longrightarrow>
     as_bytes (digest_hex (hex_pairs bs)) = bs \<and> 2 * length (hex_pairs bs) = length bs"
proof (induction bs rule: hex_pairs.induct)
  case (1 a b rest)
  then show ?case using hex_byte [of a] hex_byte [of b]
      halves_byte [OF hex_byte(1) [of a] hex_byte(1) [of b]] by (simp add: digest_hex_def)
qed (simp_all add: digest_hex_def)

lemma digest_text: "parse_digest_hex v = Inr d \<longleftrightarrow> length d = DERIVATION_DIGEST_BYTES \<and> v = digest_hex d"
proof
  assume "parse_digest_hex v = Inr d"
  then have v: "length v = 64" "list_all lower_hex_byte (as_bytes v)" "d = hex_pairs (as_bytes v)"
    by (auto simp: parse_digest_hex_def Let_def DERIVATION_DIGEST_HEX_BYTES_def DERIVATION_DIGEST_BYTES_def split: if_splits)
  then have p: "as_bytes (digest_hex d) = as_bytes v \<and> 2 * length d = 64" using print_hex [of "as_bytes v"] by simp
  then have "digest_hex d = v" using bytes_text [of v] bytes_text [of "digest_hex d"] by simp
  then show "length d = DERIVATION_DIGEST_BYTES \<and> v = digest_hex d" using p by (simp add: DERIVATION_DIGEST_BYTES_def)
next
  assume "length d = DERIVATION_DIGEST_BYTES \<and> v = digest_hex d"
  then show "parse_digest_hex v = Inr d" using parse_hex [of d] length_digest_hex [of d]
    by (simp add: parse_digest_hex_def Let_def DERIVATION_DIGEST_HEX_BYTES_def)
qed

subsection \<open>Decimal\<close>

lemma all_digits:
  "\<forall>d\<in>set [0..<10]. unat (of_char (digit_char d) - 48 :: byte) = d \<and> ascii_digit (of_char (digit_char d)) \<and>
     (of_char (digit_char d) = (48 :: byte) \<longleftrightarrow> d = 0)"
  by code_simp

lemma all_digit_bytes: "\<forall>n\<in>set [48..<58]. digit_char (unat ((of_nat n :: byte) - 48)) = char_of n \<and> unat ((of_nat n :: byte) - 48) < 10 \<and>
    (unat ((of_nat n :: byte) - 48) = 0 \<longleftrightarrow> n = 48)"
  by code_simp

lemma digit [simp]:
  assumes "d < 10"
  shows "unat (of_char (digit_char d) - 48 :: byte) = d" "ascii_digit (of_char (digit_char d))"
    "of_char (digit_char d) = (48 :: byte) \<longleftrightarrow> d = 0"
  using bspec [OF all_digits, of d] assms by simp_all

lemma digit_byte:
  assumes "ascii_digit b"
  shows "digit_char (unat (b - 48)) = char_of (unat b)" and "unat (b - 48) < 10" and "unat (b - 48) = 0 \<longleftrightarrow> b = 48"
proof -
  have "unat b \<in> set [48..<58]" unfolding set_upt atLeastLessThan_iff
    using assms by (auto simp: ascii_digit_def word_le_nat_alt)
  from bspec [OF all_digit_bytes this]
  show "digit_char (unat (b - 48)) = char_of (unat b)" and "unat (b - 48) < 10" and "unat (b - 48) = 0 \<longleftrightarrow> b = 48"
    by (simp_all add: word_unat_eq_iff)
qed

lemma parse_digits_append:
  "parse_digits acc (xs @ ys) = (case parse_digits acc xs of None \<Rightarrow> None | Some a \<Rightarrow> parse_digits a ys)"
  by (induction acc xs rule: parse_digits.induct) (simp_all add: Let_def)

lemma parse_decimal: "n \<le> u64_max \<Longrightarrow> parse_digits 0 (as_bytes (decimal n)) = Some n"
proof (induction n rule: decimal.induct)
  case (1 n)
  show ?case
  proof (cases "n < 10")
    case True
    then show ?thesis using 1(2) by (simp add: decimal.simps [of n])
  next
    case False
    have "parse_digits 0 (as_bytes (decimal (n div 10))) = Some (n div 10)" using 1 False by simp
    moreover have "n div 10 * 10 + n mod 10 = n" by simp
    ultimately show ?thesis using False 1(2) by (simp add: decimal.simps [of n] parse_digits_append Let_def)
  qed
qed

lemma decimal_canonical:
  "decimal n \<noteq> [] \<and> list_all ascii_digit (as_bytes (decimal n)) \<and> (0 < n \<longrightarrow> hd (as_bytes (decimal n)) \<noteq> 48)"
proof (induction n rule: decimal.induct)
  case (1 n)
  show ?case
  proof (cases "n < 10")
    case True
    then show ?thesis by (simp add: decimal.simps [of n])
  next
    case False
    then have "decimal (n div 10) \<noteq> [] \<and> list_all ascii_digit (as_bytes (decimal (n div 10))) \<and> hd (as_bytes (decimal (n div 10))) \<noteq> 48"
      using 1 by simp
    then show ?thesis using False by (simp add: decimal.simps [of n])
  qed
qed

lemma print_digits:
  "parse_digits acc bs = Some n \<Longrightarrow> 0 < acc \<Longrightarrow> list_all ascii_digit bs \<Longrightarrow>
     decimal n = decimal acc @ map (\<lambda>b. char_of (unat b)) bs \<and> (acc \<le> u64_max \<longrightarrow> n \<le> u64_max)"
proof (induction bs arbitrary: acc)
  case (Cons b bs)
  let ?d = "unat (b - 48)"
  have d: "?d < 10" "digit_char ?d = char_of (unat b)" using digit_byte Cons.prems(3) by simp_all
  have "decimal (acc * 10 + ?d) = decimal acc @ [char_of (unat b)]"
    using d Cons.prems(2) by (simp add: decimal.simps [of "acc * 10 + ?d"])
  then show ?case using Cons.IH [of "acc * 10 + ?d"] Cons.prems by (auto simp: Let_def split: if_splits)
qed simp

lemma block_text: "parse_block_decimal v = Inr w \<longleftrightarrow> v = decimal (unat w)"
proof
  assume p: "parse_block_decimal v = Inr w"
  then obtain n where c: "v \<noteq> []" "length v = 1 \<or> hd (as_bytes v) \<noteq> 48" "list_all ascii_digit (as_bytes v)"
    and n: "parse_digits 0 (as_bytes v) = Some n" "w = of_nat n"
    by (auto simp: parse_block_decimal_def Let_def split: if_splits option.splits)
  obtain x rest where v: "v = x # rest" using c(1) by (cases v) auto
  let ?b = "of_char x :: byte" and ?d = "unat (of_char x - 48 :: byte)"
  have d: "?d < 10" "digit_char ?d = x" "?d = 0 \<longleftrightarrow> ?b = 48" using digit_byte [of ?b] c(3) v by simp_all
  have r: "parse_digits ?d (as_bytes rest) = Some n" using n(1) v d(1) by (auto simp: Let_def split: if_splits)
  have "decimal n = v \<and> n \<le> u64_max"
  proof (cases "rest = []")
    case True
    then show ?thesis using r d v by (simp add: decimal.simps [of n])
  next
    case False
    then have "0 < ?d" using c(2) v d(3) by simp
    then show ?thesis using print_digits [OF r] c(3) v d by (simp add: decimal.simps [of ?d] bytes_text)
  qed
  then show "v = decimal (unat w)" using n(2) by (simp add: unat_of_nat)
next
  assume v: "v = decimal (unat w)"
  have "unat w < 2 ^ LENGTH(64)" by (rule unsigned_less)
  then have "parse_digits 0 (as_bytes v) = Some (unat w)" using parse_decimal [of "unat w"] v by simp
  moreover have "length v = 1 \<or> hd (as_bytes v) \<noteq> 48"
    using decimal_canonical [of "unat w"] v by (cases "unat w = 0") (simp_all add: decimal.simps [of 0])
  ultimately show "parse_block_decimal v = Inr w" using decimal_canonical [of "unat w"] v
    by (simp add: parse_block_decimal_def Let_def)
qed

subsection \<open>Snapshots\<close>

lemma from_snapshot_iff: "from_snapshot sn = Inr rng \<longleftrightarrow> rng_ok rng \<and> sn = snapshot rng"
proof
  assume "from_snapshot sn = Inr rng"
  then have a: "sn_algorithm_id sn = PHILOX4X32_10_ALGORITHM_ID" and d: "parse_digest_hex (sn_derivation_digest_hex sn) = Inr (rg_derivation_digest rng)"
    and b: "parse_block_decimal (sn_block sn) = Inr (rg_block rng)" and o: "\<not> sn_word_offset sn > 3"
    and e: "\<not> (sn_exhausted sn \<and> (rg_block rng \<noteq> - 1 \<or> sn_word_offset sn \<noteq> 3))"
    and r: "rng = from_validated_state (rg_derivation_digest rng) (rg_block rng) (sn_word_offset sn) (sn_exhausted sn)"
    by (auto simp: from_snapshot_def failE_def from_validated_state_def split: if_splits)
  have f: "rg_word_offset rng = sn_word_offset sn" "rg_exhausted rng = sn_exhausted sn" by (subst r, simp add: from_validated_state_def)+
  have "rng_ok rng" unfolding rng_ok_def using d e o f digest_text
    by (subst (2 3 4 5) r) (auto simp: from_validated_state_def)
  moreover have "sn = snapshot rng" using a d b f by (simp add: snapshot_def digest_text block_text)
  ultimately show "rng_ok rng \<and> sn = snapshot rng" ..
next
  assume "rng_ok rng \<and> sn = snapshot rng"
  then show "from_snapshot sn = Inr rng"
    by (auto simp: from_snapshot_def snapshot_def rng_ok_def failE_def digest_text [THEN iffD2] block_text [THEN iffD2] from_validated_state_def not_less)
qed

subsection \<open>What the generator promises\<close>

text \<open>Every way to come by a generator.\<close>

inductive rng_state :: "hash \<Rightarrow> philox_rng \<Rightarrow> bool" for sha where
  fresh: "rng_new sha master_seed stream domain = Inr rng \<Longrightarrow> rng_state sha rng"
| forked: "rng_state sha rng \<Longrightarrow> fork sha rng label = Inr child \<Longrightarrow> rng_state sha child"
| drawn: "rng_state sha rng \<Longrightarrow> next_u32 rng = (r, rng') \<Longrightarrow> rng_state sha rng'"
| restored: "rng_state sha rng \<Longrightarrow> restore sn rng = (r, rng') \<Longrightarrow> rng_state sha rng'"

lemma restore_cases:
  assumes "restore sn rng = (r, rng')"
  shows "from_snapshot sn = Inr rng' \<and> r = Inr () \<or> (\<exists>e. from_snapshot sn = Inl e \<and> r = Inl e) \<and> rng' = rng"
  using assms by (cases "from_snapshot sn") (auto simp: restore_def bindM_def tryM_def modM_def)

lemma next_u32_ok:
  assumes ok: "rng_ok rng" and n: "next_u32 rng = (r, rng')"
  shows "rng_ok rng'" and "rg_derivation_digest rng' = rg_derivation_digest rng"
proof -
  have "rng' = rng \<or> \<not> rg_exhausted rng \<and> rng' = advanced_rng rng"
    using n draw_exhausted [of rng] draw_word [OF ok] by (cases "rg_exhausted rng") simp_all
  then show "rng_ok rng'" and "rg_derivation_digest rng' = rg_derivation_digest rng"
    using ok advance_position [OF ok] by blast+
qed

lemma fork_any_position: "rng_ok rng \<Longrightarrow> next_u32 rng = (r, rng') \<Longrightarrow> fork sha rng' label = fork sha rng label"
  by (drule (1) next_u32_ok(2)) (simp add: fork_def)

fun take_words :: "nat \<Rightarrow> 32 word list rng_cmd" where
  "take_words 0 = ret []"
| "take_words (Suc n) = bindM next_u32 (\<lambda>w. bindM (take_words n) (\<lambda>ws. ret (w # ws)))"

definition demo_sha :: hash where
  "demo_sha x = map (\<lambda>i. of_nat (i + length x)) [0..<32]"

definition demo_rng :: philox_rng where
  "demo_rng = projr (rng_new demo_sha 42 (as_bytes ''request-0001'') (as_bytes ''token-sampling''))"

lemma length_demo_sha: "length (demo_sha x) = DERIVATION_DIGEST_BYTES"
  by (simp add: demo_sha_def DERIVATION_DIGEST_BYTES_def)

lemma rng_new_short:
  assumes "length stream < 2 ^ 32" and "length domain < 2 ^ 32"
  shows "\<exists>x. rng_new sha seed stream domain = Inr (from_validated_state (sha x) 0 0 False)"
  using assms by (simp add: rng_new_def derive_child_def) blast

lemma demo_rng_new:
  "rng_new demo_sha 42 (as_bytes ''request-0001'') (as_bytes ''token-sampling'') = Inr demo_rng"
  "\<exists>x. demo_rng = from_validated_state (demo_sha x) 0 0 False"
proof -
  obtain x where x: "rng_new demo_sha 42 (as_bytes ''request-0001'') (as_bytes ''token-sampling'') = Inr (from_validated_state (demo_sha x) 0 0 False)"
    using rng_new_short [of "as_bytes ''request-0001''" "as_bytes ''token-sampling''" demo_sha 42] by auto
  show "rng_new demo_sha 42 (as_bytes ''request-0001'') (as_bytes ''token-sampling'') = Inr demo_rng"
    "\<exists>x. demo_rng = from_validated_state (demo_sha x) 0 0 False" unfolding demo_rng_def x by auto
qed

lemma demo_rng_ok: "rng_ok demo_rng" "draws demo_rng = 0"
proof -
  obtain x where x: "demo_rng = from_validated_state (demo_sha x) 0 0 False" using demo_rng_new(2) by blast
  show "rng_ok demo_rng" "draws demo_rng = 0" unfolding x by (rule rng_ok_start [OF length_demo_sha], simp)
qed

text \<open>C33. Every generator, however it was obtained by seeding, forking, drawing and restoring (also
  from refused snapshots), is well formed: its key and nonce are those of its digest, its offset is at most
  three, and it is exhausted only at the last word.\<close>

theorem generators_well_formed:
  assumes "\<And>x. length (sha x) = DERIVATION_DIGEST_BYTES" and "rng_state sha rng"
  shows "rng_ok rng"
  using assms(2)
proof (induction rule: rng_state.induct)
  case (fresh master_seed stream domain rng)
  then show ?case using assms(1) rng_ok_start by (auto simp: rng_new_def derive_child_def split: if_splits)
next
  case (forked rng label child)
  then show ?case using assms(1) rng_ok_start by (auto simp: fork_def derive_child_def split: if_splits)
next
  case (drawn rng r rng')
  then show ?case by (simp add: next_u32_ok(1))
next
  case (restored rng sn r rng')
  then show ?case using restore_cases [OF restored(2)] from_snapshot_iff by blast
qed

theorem generators_well_formed_witness: "rng_ok (snd (take_words 1 demo_rng))"
proof -
  have "rng_state demo_sha demo_rng" by (rule rng_state.fresh [OF demo_rng_new(1)])
  then have "rng_state demo_sha (snd (next_u32 demo_rng))" by (rule rng_state.drawn) (rule prod.collapse [symmetric])
  from generators_well_formed [OF length_demo_sha this] show ?thesis
    by (cases "next_u32 demo_rng") (auto simp: bindM_def ret_def split: sum.splits)
qed

text \<open>C31. Drawing \<open>n\<close> words reads the next \<open>n\<close> words of the one stream its digest names, and refuses when
  fewer than \<open>n\<close> of its \<open>2 ^ 66\<close> words are left; it never wraps around.\<close>

theorem drawing_reads_the_stream:
  assumes "rng_ok rng"
  shows "fst (take_words n rng) =
    (if draws rng + n \<le> stream_length
     then Inr (map (stream_word (rg_derivation_digest rng)) [draws rng..<draws rng + n]) else Inl Exhausted)"
  using assms
proof (induction n arbitrary: rng)
  case 0
  then show ?case using draws_bound [of rng] by (simp add: ret_def)
next
  case (Suc n)
  show ?case
  proof (cases "rg_exhausted rng")
    case True
    then show ?thesis using exhausted_iff [OF Suc.prems] draw_exhausted [OF True] by (simp add: bindM_def)
  next
    case False
    note a = advance_position [OF Suc.prems False]
    have u: "[draws rng..<draws rng + Suc n] = draws rng # [Suc (draws rng)..<Suc (draws rng) + n]"
      by (simp add: upt_conv_Cons del: upt_Suc)
    show ?thesis unfolding u using draw_word [OF Suc.prems False] Suc.IH [OF a(1)] a(2,3)
      by (cases "take_words n (advanced_rng rng)") (auto simp: bindM_def ret_def simp del: upt_Suc split: if_splits sum.splits)
  qed
qed

theorem drawing_reads_the_stream_witness:
  "fst (take_words 5 demo_rng) = Inr (map (stream_word (rg_derivation_digest demo_rng)) [0, 1, 2, 3, 4])"
proof -
  have u: "[0..<5] = [0, 1, 2, 3, 4::nat]" by (simp add: upt_rec)
  show ?thesis using drawing_reads_the_stream [OF demo_rng_ok(1), of 5] by (simp add: demo_rng_ok(2) stream_length_def u)
qed

text \<open>C32. Snapshots are canonical: a text restores to a generator exactly if it is the snapshot of that
  well-formed generator, so restoring a snapshot gives back the state and no other text does.\<close>

theorem snapshot_canonical: "from_snapshot sn = Inr rng \<longleftrightarrow> rng_ok rng \<and> sn = snapshot rng"
  by (rule from_snapshot_iff)

text \<open>C30. The block function is a permutation under every key: two blocks of one stream are equal only
  if they are the same block, so no output repeats within the \<open>2 ^ 64\<close> blocks of a request.\<close>

theorem blocks_never_repeat:
  "counter_words (philox4x32_10 (block_counter b nonce) key) = counter_words (philox4x32_10 (block_counter b' nonce) key) \<longleftrightarrow> b = b'"
  using counter_words_inj philox_inj block_counter_inj by blast

text \<open>The uniform value is an odd multiple of \<open>2 ^ - 33\<close> strictly between zero and one, and tells words apart.\<close>

lemma uniform_open: "0 < uniform_f64_open01 w \<and> uniform_f64_open01 w < 1"
proof -
  have "unat w < 2 ^ LENGTH(32)" by (rule unsigned_less)
  then have "(of_nat (unat w) :: rat) \<le> of_nat 4294967295" by (intro of_nat_mono) simp
  moreover have "0 \<le> (of_nat (unat w) :: rat)" by (rule of_nat_0_le_iff)
  ultimately show ?thesis by (simp add: uniform_f64_open01_def TWO_NEGATIVE_32_def)
qed

end
