(* ===== verification/Riley_Returns.thy ===== *)
theory Riley_Returns
  imports Riley_Prelude "HOL-Library.Monad_Syntax"
begin

text \<open>
  Code whose termination is a claim of its own. A function that may recurse without end, or index a
  vector out of range, has the result type \<open>'a option\<close>: \<open>None\<close> is "does not return a value" (an
  endless recursion, or the panic of a bad index), so a theorem that it is \<open>Some\<close> says that the code
  terminates and does not panic. \<open>get\<close> is the index operator; \<open>foldO\<close> is a \<open>for\<close> loop over a
  mutated state, and \<open>scanO\<close> one whose body may also fail (\<open>Inl\<close>, the \<open>?\<close> operator) or \<open>break\<close>
  (the flag \<open>False\<close>).
\<close>

definition get :: "'a list \<Rightarrow> nat \<Rightarrow> 'a option" where
  "get xs i = (if i < length xs then Some (xs ! i) else None)"

text \<open>A sub-slice \<open>&xs[lo..hi]\<close>, and \<open>u32::try_from(n).unwrap_or(u32::MAX)\<close>.\<close>

definition get_range :: "'a list \<Rightarrow> nat \<Rightarrow> nat \<Rightarrow> 'a list option" where
  "get_range xs lo hi = (if lo \<le> hi \<and> hi \<le> length xs then Some (take (hi - lo) (drop lo xs)) else None)"

definition to_u32 :: "nat \<Rightarrow> u32" where
  "to_u32 n = (case u32_try_from n of None \<Rightarrow> u32_max | Some v \<Rightarrow> v)"

primrec foldO :: "('a \<Rightarrow> 's \<Rightarrow> 's option) \<Rightarrow> 'a list \<Rightarrow> 's \<Rightarrow> 's option" where
  "foldO f [] s = Some s"
| "foldO f (x # xs) s = do { t \<leftarrow> f x s; foldO f xs t }"

primrec scanO ::
  "('a \<Rightarrow> 's \<Rightarrow> ('e + bool \<times> 's) option) \<Rightarrow> 'a list \<Rightarrow> 's \<Rightarrow> ('e + 's) option" where
  "scanO f [] s = Some (Inr s)"
| "scanO f (x # xs) s = do {
     r \<leftarrow> f x s;
     (case r of
        Inl e \<Rightarrow> Some (Inl e)
      | Inr (go, t) \<Rightarrow> if go then scanO f xs t else Some (Inr t)) }"

lemma get_eq_Some [simp]: "get xs i = Some x \<longleftrightarrow> i < length xs \<and> x = xs ! i"
  by (auto simp: get_def)

lemma get_eq_None [simp]: "get xs i = None \<longleftrightarrow> length xs \<le> i"
  by (auto simp: get_def)

lemma get_nth [simp]: "i < length xs \<Longrightarrow> get xs i = Some (xs ! i)"
  by simp

lemma get_beyond [simp]: "length xs \<le> i \<Longrightarrow> get xs i = None"
  by simp

lemma to_u32_exact [simp]: "n \<le> u32_max \<Longrightarrow> to_u32 n = n"
  by (simp add: to_u32_def u32_try_from_def)

lemma foldO_append:
  "foldO f (xs @ ys) s = do { t \<leftarrow> foldO f xs s; foldO f ys t }"
  by (induction xs arbitrary: s) (simp_all add: Option.bind_assoc)

text \<open>The loop rule: an invariant over the elements done so far, for a loop that returns.\<close>

lemma foldO_invariant:
  assumes "I [] s"
    and "\<And>done x t rest. xs = done @ x # rest \<Longrightarrow> I done t \<Longrightarrow> \<exists>u. f x t = Some u \<and> I (done @ [x]) u"
  shows "\<exists>t. foldO f xs s = Some t \<and> I xs t"
proof -
  have "\<exists>t. foldO f ys s = Some t \<and> I ys t" if "\<exists>zs. xs = ys @ zs" for ys
    using that
  proof (induction ys rule: rev_induct)
    case Nil
    then show ?case using assms(1) by simp
  next
    case (snoc y ys)
    then obtain zs where xs: "xs = ys @ y # zs" by auto
    with snoc.IH obtain t where t: "foldO f ys s = Some t" "I ys t" by auto
    with assms(2) [OF xs] obtain u where "f y t = Some u" "I (ys @ [y]) u" by auto
    with t show ?case by (simp add: foldO_append)
  qed
  then show ?thesis by simp
qed

text \<open>A loop whose body appends to the output.\<close>

lemma foldO_concat:
  assumes "\<And>x out. x \<in> set xs \<Longrightarrow> f x out = Some (out @ h x)"
  shows "foldO f xs out = Some (out @ concat (map h xs))"
  using assms by (induction xs arbitrary: out) simp_all

lemma foldO_cong [cong]:
  "xs = ys \<Longrightarrow> s = t \<Longrightarrow> (\<And>x u. x \<in> set ys \<Longrightarrow> f x u = g x u) \<Longrightarrow> foldO f xs s = foldO g ys t"
  by (induction ys arbitrary: xs s t) (auto intro!: Option.bind_cong)

text \<open>A loop over a range of indices is a loop over the elements.\<close>

lemma foldO_get:
  assumes "hi \<le> length xs"
  shows "foldO (\<lambda>i s. do { x \<leftarrow> get xs i; f x s }) [lo..<hi] s = foldO f (take (hi - lo) (drop lo xs)) s"
proof -
  have "foldO (\<lambda>i s. do { x \<leftarrow> get xs i; f x s }) is s = foldO f (map ((!) xs) is) s"
    if "\<forall>i\<in>set is. i < length xs" for "is"
    using that by (induction "is" arbitrary: s) (simp_all cong: option.case_cong)
  moreover have "map ((!) xs) [lo..<hi] = take (hi - lo) (drop lo xs)"
    using assms by (intro nth_equalityI) auto
  moreover have "\<forall>i\<in>set [lo..<hi]. i < length xs" using assms by simp
  ultimately show ?thesis by metis
qed

subsection \<open>Recursion through the loops\<close>

lemma option_ord_bind:
  assumes "option_ord a b" and "\<And>x. option_ord (f x) (g x)"
  shows "option_ord (Option.bind a f) (Option.bind b g)"
proof (cases a)
  case None
  then show ?thesis by (simp add: flat_ord_def)
next
  case (Some x)
  with assms(1) have "b = Some x" by (simp add: flat_ord_def)
  with Some assms(2) [of x] show ?thesis by simp
qed

lemma foldO_mono [partial_function_mono]:
  fixes B :: "'a \<Rightarrow> 's \<Rightarrow> ('x \<Rightarrow> 'y option) \<Rightarrow> 's option"
  assumes "\<And>x s. mono_option (\<lambda>f. B x s f)"
  shows "mono_option (\<lambda>f. foldO (\<lambda>x s. B x s f) xs s)"
proof (rule monotoneI)
  fix f g :: "'x \<Rightarrow> 'y option"
  assume fg: "fun_ord option_ord f g"
  have le: "option_ord (B x s f) (B x s g)" for x s
    using assms [of x s] fg by (simp add: monotone_on_def)
  show "option_ord (foldO (\<lambda>x s. B x s f) xs s) (foldO (\<lambda>x s. B x s g) xs s)"
    by (induction xs arbitrary: s) (simp_all add: option.leq_refl option_ord_bind le)
qed

lemma scanO_mono [partial_function_mono]:
  fixes B :: "'a \<Rightarrow> 's \<Rightarrow> ('x \<Rightarrow> 'y option) \<Rightarrow> ('e + bool \<times> 's) option"
  assumes "\<And>x s. mono_option (\<lambda>f. B x s f)"
  shows "mono_option (\<lambda>f. scanO (\<lambda>x s. B x s f) xs s)"
proof (rule monotoneI)
  fix f g :: "'x \<Rightarrow> 'y option"
  assume fg: "fun_ord option_ord f g"
  have le: "option_ord (B x s f) (B x s g)" for x s
    using assms [of x s] fg by (simp add: monotone_on_def)
  show "option_ord (scanO (\<lambda>x s. B x s f) xs s) (scanO (\<lambda>x s. B x s g) xs s)"
    by (induction xs arbitrary: s)
      (auto intro!: option_ord_bind le simp: option.leq_refl split: sum.splits prod.splits)
qed

subsection \<open>Evaluation\<close>

text \<open>The body of a loop or of a continuation is not simplified before its argument is known, so a
  recursive function is unfolded only where it is called.\<close>

lemma foldO_eval: "xs = ys \<Longrightarrow> s = t \<Longrightarrow> foldO f xs s = foldO f ys t"
  by simp

lemma scanO_eval: "xs = ys \<Longrightarrow> s = t \<Longrightarrow> scanO f xs s = scanO f ys t"
  by simp

lemma bind_eval: "m = m' \<Longrightarrow> Option.bind m f = Option.bind m' f"
  by simp

lemmas returns_eval = foldO_eval scanO_eval bind_eval let_weak_cong

end
