(* ===== verification/Grammar.thy ===== *)
theory Grammar
  imports Riley_Returns "HOL-Library.Word"
begin

unbundle bit_operations_syntax

text \<open>
  The grammars of \<open>riley-runtime/src/grammar.rs\<close>: byte classes, the elements of a rule alternative,
  the builder, and the two checks of \<open>build\<close>, that every rule is well formed and that no rule reaches
  itself without consuming a byte.
\<close>

type_synonym octet = "8 word"

subsection \<open>Byte classes\<close>

type_synonym byte_class = "64 word list"

definition add_byte :: "byte_class \<Rightarrow> nat \<Rightarrow> byte_class" where
  "add_byte words v = words[v div 64 := words ! (v div 64) OR push_bit (v mod 64) 1]"

text \<open>The \<open>while value <= last\<close> loop of \<open>range\<close>.\<close>

function range_loop :: "nat \<Rightarrow> nat \<Rightarrow> byte_class \<Rightarrow> byte_class" where
  "range_loop v hi words =
     (if v \<le> hi then range_loop (v + 1) hi (add_byte words v) else words)"
  by auto
termination by (relation "measure (\<lambda>(v, hi, words). Suc hi - v)") auto

declare range_loop.simps [simp del]

definition class_range :: "octet \<Rightarrow> octet \<Rightarrow> byte_class" where
  "class_range lo hi = range_loop (unat lo) (unat hi) [0, 0, 0, 0]"

definition class_byte :: "octet \<Rightarrow> byte_class" where
  "class_byte v = class_range v v"

definition class_union :: "byte_class \<Rightarrow> byte_class \<Rightarrow> byte_class" where
  "class_union c d = [c ! 0 OR d ! 0, c ! 1 OR d ! 1, c ! 2 OR d ! 2, c ! 3 OR d ! 3]"

definition class_contains :: "byte_class \<Rightarrow> octet \<Rightarrow> bool" where
  "class_contains c v = (c ! (unat v div 64) AND push_bit (unat v mod 64) 1 \<noteq> 0)"

subsection \<open>Rules and the builder\<close>

datatype grammar_element = Bytes byte_class | Rule u32

datatype grammar_error = MalformedRule | LeftRecursion

type_synonym rules = "grammar_element list list list"

record grammar =
  rules :: rules
  start :: u32

definition rule :: "rules \<Rightarrow> u32 \<times> rules" where
  "rule rs = (let rs' = rs @ [[]] in (to_u32 (length rs' - 1), rs'))"

definition alternative :: "u32 \<Rightarrow> grammar_element list \<Rightarrow> rules \<Rightarrow> rules" where
  "alternative r elements rs = (if r < length rs then rs[r := rs ! r @ [elements]] else rs)"

definition rule_count :: "rules \<Rightarrow> usize" where
  "rule_count rs = length rs"

subsection \<open>Nullable rules\<close>

primrec all_nullable :: "bool list \<Rightarrow> grammar_element list \<Rightarrow> bool option" where
  "all_nullable nullable [] = Some True"
| "all_nullable nullable (e # es) =
     (case e of
        Bytes c \<Rightarrow> Some False
      | Rule r \<Rightarrow> do { n \<leftarrow> get nullable r; if n then all_nullable nullable es else Some False })"

primrec any_nullable :: "bool list \<Rightarrow> grammar_element list list \<Rightarrow> bool option" where
  "any_nullable nullable [] = Some False"
| "any_nullable nullable (a # as) =
     do { n \<leftarrow> all_nullable nullable a; if n then Some True else any_nullable nullable as }"

text \<open>One pass over the rules, which updates the table in place and reports a change.\<close>

definition nullable_pass :: "rules \<Rightarrow> bool list \<Rightarrow> (bool list \<times> bool) option" where
  "nullable_pass rs nullable =
     foldO (\<lambda>(index, alternatives) (nullable, changed). do {
         now \<leftarrow> any_nullable nullable alternatives;
         old \<leftarrow> get nullable index;
         Some (if now \<and> \<not> old then (nullable[index := True], True) else (nullable, changed)) })
       (enumerate 0 rs) (nullable, False)"

partial_function (option) nullable_loop :: "rules \<Rightarrow> bool list \<Rightarrow> bool list option" where
  "nullable_loop rs nullable = do {
     p \<leftarrow> nullable_pass rs nullable;
     (case p of (nullable', changed) \<Rightarrow>
        if \<not> changed then Some nullable' else nullable_loop rs nullable') }"

definition nullable_rules :: "rules \<Rightarrow> bool list option" where
  "nullable_rules rs = nullable_loop rs (replicate (length rs) False)"

subsection \<open>Left recursion\<close>

text \<open>The depth-first search: mark 0 is unvisited, 1 on the current path, 2 finished.\<close>

partial_function (option) visit ::
  "nat \<Rightarrow> rules \<Rightarrow> bool list \<Rightarrow> nat list \<Rightarrow> (grammar_error + nat list) option" where
  "visit r rs nullable marks = do {
     mark \<leftarrow> get marks r;
     if mark = 1 then Some (Inl LeftRecursion)
     else if mark = 2 then Some (Inr marks)
     else do {
       alternatives \<leftarrow> get rs r;
       result \<leftarrow> scanO (\<lambda>alternative marks. do {
           result \<leftarrow> scanO (\<lambda>element marks.
               (case element of
                  Bytes c \<Rightarrow> Some (Inr (False, marks))
                | Rule target \<Rightarrow> do {
                    result \<leftarrow> visit target rs nullable marks;
                    (case result of
                       Inl e \<Rightarrow> Some (Inl e)
                     | Inr marks \<Rightarrow> do { n \<leftarrow> get nullable target; Some (Inr (n, marks)) }) }))
             alternative marks;
           Some (case result of Inl e \<Rightarrow> Inl e | Inr marks \<Rightarrow> Inr (True, marks)) })
         alternatives (marks[r := 1]);
       Some (case result of Inl e \<Rightarrow> Inl e | Inr marks \<Rightarrow> Inr (marks[r := 2])) } }"

definition reject_left_recursion :: "rules \<Rightarrow> (grammar_error + unit) option" where
  "reject_left_recursion rs = do {
     nullable \<leftarrow> nullable_rules rs;
     result \<leftarrow> scanO (\<lambda>r marks. do {
         result \<leftarrow> visit r rs nullable marks;
         Some (case result of Inl e \<Rightarrow> Inl e | Inr marks \<Rightarrow> Inr (True, marks)) })
       [0..<length rs] (replicate (length rs) 0);
     Some (case result of Inl e \<Rightarrow> Inl e | Inr marks \<Rightarrow> Inr ()) }"

subsection \<open>Building a grammar\<close>

fun dangling :: "nat \<Rightarrow> grammar_element \<Rightarrow> bool" where
  "dangling n (Rule r) = (n \<le> r)"
| "dangling n (Bytes c) = False"

definition check_rules :: "rules \<Rightarrow> grammar_error + unit" where
  "check_rules rs =
     forE rs (\<lambda>alternatives. bindE (failE (alternatives = []) MalformedRule)
       (\<lambda>_. forE (concat alternatives) (\<lambda>element. failE (dangling (length rs) element) MalformedRule)))"

definition build :: "rules \<Rightarrow> u32 \<Rightarrow> (grammar_error + grammar) option" where
  "build rs s =
     (if length rs \<le> s then Some (Inl MalformedRule)
      else case check_rules rs of
        Inl e \<Rightarrow> Some (Inl e)
      | Inr _ \<Rightarrow> do {
          result \<leftarrow> reject_left_recursion rs;
          Some (case result of Inl e \<Rightarrow> Inl e | Inr _ \<Rightarrow> Inr \<lparr>rules = rs, start = s\<rparr>) })"

end
