(* ===== verification/Grammar_Build.thy ===== *)
theory Grammar_Build
  imports Grammar
begin

text \<open>
  What \<open>build\<close> checks: a byte class holds the bytes of its range, \<open>nullable_rules\<close> computes exactly the
  rules that derive the empty string, and the depth-first search of \<open>reject_left_recursion\<close> returns for
  every well-formed rule table and fails exactly when some rule reaches itself without consuming a byte.
\<close>

subsection \<open>Byte classes\<close>

lemma bit_add_byte:
  assumes "v div 64 < length ws" and "u div 64 < length ws"
  shows "bit (add_byte ws v ! (u div 64)) (u mod 64) \<longleftrightarrow> u = v \<or> bit (ws ! (u div 64)) (u mod 64)"
proof (cases "u div 64 = v div 64")
  case True
  then have "u = v \<longleftrightarrow> u mod 64 = v mod 64" by (metis div_mult_mod_eq)
  with True assms show ?thesis
    by (auto simp: add_byte_def bit_simps)
next
  case False
  then show ?thesis using assms by (auto simp: add_byte_def)
qed

lemma bit_range_loop:
  "hi < 64 * length ws \<Longrightarrow> u < 64 * length ws \<Longrightarrow>
     bit (range_loop v hi ws ! (u div 64)) (u mod 64) \<longleftrightarrow>
       v \<le> u \<and> u \<le> hi \<or> bit (ws ! (u div 64)) (u mod 64)"
proof (induction v hi ws rule: range_loop.induct)
  case (1 v hi ws)
  show ?case
  proof (cases "v \<le> hi")
    case True
    have len: "length (add_byte ws v) = length ws" by (simp add: add_byte_def)
    have "bit (add_byte ws v ! (u div 64)) (u mod 64) \<longleftrightarrow> u = v \<or> bit (ws ! (u div 64)) (u mod 64)"
      by (rule bit_add_byte) (use True 1 in auto)
    with True 1 len show ?thesis by (subst range_loop.simps) (auto simp del: One_nat_def)
  next
    case False
    then show ?thesis by (subst range_loop.simps) auto
  qed
qed

lemma and_bit_nonzero:
  fixes w :: "64 word"
  shows "n < 64 \<Longrightarrow> w AND push_bit n 1 \<noteq> 0 \<longleftrightarrow> bit w n"
  by (simp add: bit_iff_and_push_bit_not_eq_0)

lemma class_contains_bit: "class_contains c v \<longleftrightarrow> bit (c ! (unat v div 64)) (unat v mod 64)"
  unfolding class_contains_def by (rule and_bit_nonzero) simp

lemma octet_less: "unat (v :: octet) < 256"
  using unsigned_less [of v] by simp

lemma class_contains_range: "class_contains (class_range lo hi) v \<longleftrightarrow> lo \<le> v \<and> v \<le> hi"
proof -
  have "bit ([0, 0, 0, 0 :: 64 word] ! (unat v div 64)) (unat v mod 64) = False"
    using octet_less [of v] by (auto simp: nth_Cons' )
  then show ?thesis
    using bit_range_loop [of "unat hi" "[0, 0, 0, 0]" "unat v" "unat lo"] octet_less [of v] octet_less [of hi]
    by (simp add: class_contains_bit class_range_def word_le_nat_alt)
qed

lemma class_contains_byte: "class_contains (class_byte b) v \<longleftrightarrow> v = b"
  by (auto simp: class_byte_def class_contains_range)

lemma class_contains_union:
  "class_contains (class_union c d) v \<longleftrightarrow> class_contains c v \<or> class_contains d v"
proof -
  have "unat v div 64 \<in> {0, 1, 2, 3}" using octet_less [of v] by auto
  then show ?thesis by (auto simp: class_contains_bit class_union_def bit_or_iff)
qed

subsection \<open>Well-formed rules\<close>

definition alternative_ok :: "nat \<Rightarrow> grammar_element list \<Rightarrow> bool" where
  "alternative_ok n a = (\<forall>e\<in>set a. \<not> dangling n e)"

definition rules_ok :: "rules \<Rightarrow> bool" where
  "rules_ok rs = (\<forall>as\<in>set rs. as \<noteq> [] \<and> (\<forall>a\<in>set as. alternative_ok (length rs) a))"

lemma alternative_ok_simps [simp]:
  "alternative_ok n []"
  "alternative_ok n (e # es) \<longleftrightarrow> \<not> dangling n e \<and> alternative_ok n es"
  by (auto simp: alternative_ok_def)

lemma check_rules_iff: "check_rules rs = Inr u \<longleftrightarrow> rules_ok rs"
  by (auto simp: check_rules_def forE_Inr rules_ok_def alternative_ok_def)

lemma check_rules_error: "check_rules rs = Inl e \<Longrightarrow> e = MalformedRule"
  unfolding check_rules_def by (drule forE_Inl) (auto simp: bindE_eq_Inl dest!: forE_Inl)

lemma rules_okD: "rules_ok rs \<Longrightarrow> r < length rs \<Longrightarrow> a \<in> set (rs ! r) \<Longrightarrow> alternative_ok (length rs) a"
  by (auto simp: rules_ok_def)

subsection \<open>Nullable rules\<close>

inductive derives_empty :: "rules \<Rightarrow> nat \<Rightarrow> bool" for rs where
  "r < length rs \<Longrightarrow> a \<in> set (rs ! r) \<Longrightarrow> (\<forall>e\<in>set a. \<exists>q. e = Rule q \<and> derives_empty rs q) \<Longrightarrow>
     derives_empty rs r"

definition holds_for :: "bool list \<Rightarrow> grammar_element list \<Rightarrow> bool" where
  "holds_for nullable a = (\<forall>e\<in>set a. \<exists>q. e = Rule q \<and> nullable ! q)"

lemma holds_for_simps [simp]:
  "holds_for nb []"
  "holds_for nb (Bytes c # es) \<longleftrightarrow> False"
  "holds_for nb (Rule q # es) \<longleftrightarrow> nb ! q \<and> holds_for nb es"
  by (auto simp: holds_for_def)

lemma all_nullable_eq:
  "alternative_ok (length nb) es \<Longrightarrow> all_nullable nb es = Some (holds_for nb es)"
  by (induction es) (auto split: grammar_element.splits simp: get_nth)

lemma any_nullable_eq:
  "\<forall>a\<in>set as. alternative_ok (length nb) a \<Longrightarrow>
     any_nullable nb as = Some (\<exists>a\<in>set as. holds_for nb a)"
  by (induction as) (auto simp: all_nullable_eq)

text \<open>A sound table marks only rules that derive the empty string; a closed one marks all of them.\<close>

definition sound_table :: "rules \<Rightarrow> bool list \<Rightarrow> bool" where
  "sound_table rs nb = (length nb = length rs \<and> (\<forall>r<length rs. nb ! r \<longrightarrow> derives_empty rs r))"

definition closed_table :: "rules \<Rightarrow> bool list \<Rightarrow> bool" where
  "closed_table rs nb = (\<forall>r<length rs. (\<exists>a\<in>set (rs ! r). holds_for nb a) \<longrightarrow> nb ! r)"

definition table_below :: "bool list \<Rightarrow> bool list \<Rightarrow> bool" where
  "table_below nb nb' = (length nb = length nb' \<and> (\<forall>i<length nb. nb ! i \<longrightarrow> nb' ! i))"

definition unmarked :: "bool list \<Rightarrow> nat" where
  "unmarked nb = card {i. i < length nb \<and> \<not> nb ! i}"

lemma derives_empty_holds:
  assumes "rules_ok rs" and "sound_table rs nb" and "r < length rs" and "a \<in> set (rs ! r)"
    and "holds_for nb a"
  shows "derives_empty rs r"
proof (rule derives_empty.intros [OF assms(3,4)])
  have "alternative_ok (length rs) a" using assms by (blast intro: rules_okD)
  then show "\<forall>e\<in>set a. \<exists>q. e = Rule q \<and> derives_empty rs q"
    using assms(2,5) by (fastforce simp: alternative_ok_def holds_for_def sound_table_def)
qed

lemma closed_table_complete:
  assumes "rules_ok rs" and "closed_table rs nb"
  shows "derives_empty rs r \<Longrightarrow> r < length rs \<and> nb ! r"
proof (induction rule: derives_empty.induct)
  case (1 r a)
  then have "holds_for nb a" by (auto simp: holds_for_def)
  with 1 assms(2) show ?case by (auto simp: closed_table_def)
qed

lemma unmarked_less: "table_below nb nb' \<Longrightarrow> nb \<noteq> nb' \<Longrightarrow> unmarked nb' < unmarked nb"
proof -
  assume below: "table_below nb nb'" and "nb \<noteq> nb'"
  then obtain i where "i < length nb" "nb ! i \<noteq> nb' ! i"
    by (auto simp: table_below_def list_eq_iff_nth_eq)
  with below have "{i. i < length nb' \<and> \<not> nb' ! i} \<subset> {i. i < length nb \<and> \<not> nb ! i}"
    by (auto simp: table_below_def)
  then show ?thesis unfolding unmarked_def by (rule psubset_card_mono [rotated]) simp
qed

lemma nullable_pass_returns:
  assumes ok: "rules_ok rs" and sound: "sound_table rs nb"
  shows "\<exists>nb' changed. nullable_pass rs nb = Some (nb', changed) \<and> sound_table rs nb' \<and>
    table_below nb nb' \<and> (changed \<longrightarrow> nb \<noteq> nb') \<and> (\<not> changed \<longrightarrow> nb' = nb \<and> closed_table rs nb)"
proof -
  let ?f = "\<lambda>(index, alternatives) (nullable, changed). do {
         now \<leftarrow> any_nullable nullable alternatives;
         old \<leftarrow> get nullable index;
         Some (if now \<and> \<not> old then (nullable[index := True], True) else (nullable, changed)) }"
  let ?I = "\<lambda>xs (nb', changed). sound_table rs nb' \<and> table_below nb nb' \<and> (changed \<longrightarrow> nb \<noteq> nb') \<and>
    (\<not> changed \<longrightarrow> nb' = nb \<and> (\<forall>(r, as)\<in>set xs. (\<exists>a\<in>set as. holds_for nb a) \<longrightarrow> nb ! r))"
  have "\<exists>t. foldO ?f (enumerate 0 rs) (nb, False) = Some t \<and> ?I (enumerate 0 rs) t"
  proof (rule foldO_invariant)
    show "?I [] (nb, False)" using sound by (simp add: table_below_def)
  next
    fix before x t rest
    assume split: "enumerate 0 rs = before @ x # rest" and inv: "?I before t"
    obtain i as where x: "x = (i, as)" by (cases x)
    obtain nb' changed where t: "t = (nb', changed)" by (cases t)
    have "(i, as) \<in> set (enumerate 0 rs)" using split x by simp
    then have i: "i < length rs" "as = rs ! i" by (auto simp: in_set_enumerate_eq)
    have len: "length nb' = length rs" using inv t by (simp add: sound_table_def)
    have any: "any_nullable nb' as = Some (\<exists>a\<in>set as. holds_for nb' a)"
      using ok i len by (intro any_nullable_eq) (auto dest: rules_okD)
    have old: "get nb' i = Some (nb' ! i)" using i len by simp
    show "\<exists>u. ?f x t = Some u \<and> ?I (before @ [x]) u"
    proof (cases "(\<exists>a\<in>set as. holds_for nb' a) \<and> \<not> nb' ! i")
      case True
      then have "derives_empty rs i" using derives_empty_holds ok inv t i by blast
      then have "sound_table rs (nb'[i := True])"
        using inv t i by (auto simp: sound_table_def nth_list_update split: if_splits)
      moreover have "table_below nb (nb'[i := True])"
        using inv t i len by (auto simp: table_below_def nth_list_update)
      moreover have "nb \<noteq> nb'[i := True]"
      proof
        assume eq: "nb = nb'[i := True]"
        then have "nb ! i" using i len by simp
        with inv t True i len show False by (auto simp: table_below_def)
      qed
      ultimately show ?thesis using True x t any old by simp
    next
      case False
      then have "?f x t = Some (nb', changed)" using x t any old by auto
      moreover have "?I (before @ [x]) (nb', changed)" using inv t False x by auto
      ultimately show ?thesis by blast
    qed
  qed
  then obtain nb' changed where "nullable_pass rs nb = Some (nb', changed)"
    and "?I (enumerate 0 rs) (nb', changed)" unfolding nullable_pass_def by auto
  moreover have "closed_table rs nb"
    if "\<forall>(r, as)\<in>set (enumerate 0 rs). (\<exists>a\<in>set as. holds_for nb a) \<longrightarrow> nb ! r"
    unfolding closed_table_def
  proof (intro allI impI)
    fix r assume r: "r < length rs" and "\<exists>a\<in>set (rs ! r). holds_for nb a"
    moreover have "(r, rs ! r) \<in> set (enumerate 0 rs)" using r by (simp add: in_set_enumerate_eq)
    ultimately show "nb ! r" using that by blast
  qed
  ultimately show ?thesis by auto
qed

lemma nullable_loop_returns:
  assumes "rules_ok rs"
  shows "sound_table rs nb \<Longrightarrow> \<exists>nb'. nullable_loop rs nb = Some nb' \<and> sound_table rs nb' \<and> closed_table rs nb'"
proof (induction "unmarked nb" arbitrary: nb rule: less_induct)
  case less
  from nullable_pass_returns [OF assms less.prems] obtain nb' changed
    where pass: "nullable_pass rs nb = Some (nb', changed)" and ok: "sound_table rs nb'"
      and below: "table_below nb nb'" and ch: "changed \<longrightarrow> nb \<noteq> nb'"
      and fin: "\<not> changed \<longrightarrow> nb' = nb \<and> closed_table rs nb" by blast
  show ?case
  proof (cases changed)
    case True
    then have "unmarked nb' < unmarked nb" using below ch by (auto intro: unmarked_less)
    from less.hyps [OF this ok] True show ?thesis
      by (subst nullable_loop.simps) (simp add: pass)
  next
    case False
    with fin ok show ?thesis by (subst nullable_loop.simps) (simp add: pass)
  qed
qed

lemma nullable_rules_exact:
  assumes "rules_ok rs"
  shows "\<exists>nb. nullable_rules rs = Some nb \<and> length nb = length rs \<and>
    (\<forall>r<length rs. nb ! r \<longleftrightarrow> derives_empty rs r)"
proof -
  have "sound_table rs (replicate (length rs) False)" by (simp add: sound_table_def)
  from nullable_loop_returns [OF assms this] closed_table_complete [OF assms] show ?thesis
    unfolding nullable_rules_def by (fastforce simp: sound_table_def)
qed

subsection \<open>Left recursion\<close>

text \<open>The rules an alternative can start with: those before its first byte or non-nullable rule.\<close>

primrec heads :: "bool list \<Rightarrow> grammar_element list \<Rightarrow> nat list" where
  "heads nb [] = []"
| "heads nb (e # es) = (case e of Bytes c \<Rightarrow> [] | Rule q \<Rightarrow> q # (if nb ! q then heads nb es else []))"

definition starts :: "rules \<Rightarrow> bool list \<Rightarrow> nat \<Rightarrow> nat list" where
  "starts rs nb r = concat (map (heads nb) (rs ! r))"

definition left_corner :: "rules \<Rightarrow> bool list \<Rightarrow> (nat \<times> nat) set" where
  "left_corner rs nb = {(r, q). r < length rs \<and> q \<in> set (starts rs nb r)}"

text \<open>Independently of the code: a rule that can begin with itself after nullable rules only.\<close>

definition begins_with :: "rules \<Rightarrow> (nat \<times> nat) set" where
  "begins_with rs = {(r, q). r < length rs \<and> (\<exists>a\<in>set (rs ! r). \<exists>before after.
     a = before @ Rule q # after \<and> (\<forall>e\<in>set before. \<exists>p. e = Rule p \<and> derives_empty rs p))}"

definition left_recursive :: "rules \<Rightarrow> bool" where
  "left_recursive rs = (\<exists>r. (r, r) \<in> (begins_with rs)\<^sup>+)"

lemma heads_iff:
  "q \<in> set (heads nb a) \<longleftrightarrow> (\<exists>before after. a = before @ Rule q # after \<and> holds_for nb before)"
proof (induction a)
  case Nil
  then show ?case by simp
next
  case (Cons e es)
  show ?case
  proof (cases e)
    case (Bytes c)
    then show ?thesis by (auto simp: Cons_eq_append_conv)
  next
    case (Rule p)
    have "(\<exists>before after. e # es = before @ Rule q # after \<and> holds_for nb before) \<longleftrightarrow>
      p = q \<or> nb ! p \<and> (\<exists>before after. es = before @ Rule q # after \<and> holds_for nb before)"
      using Rule by (auto simp: Cons_eq_append_conv)
        (metis append_Cons append_Nil holds_for_simps(1,3))+
    with Rule Cons.IH show ?thesis by auto
  qed
qed

lemma heads_less: "alternative_ok n a \<Longrightarrow> q \<in> set (heads nb a) \<Longrightarrow> q < n"
  by (induction a) (auto split: grammar_element.splits if_splits)

lemma starts_less: "rules_ok rs \<Longrightarrow> r < length rs \<Longrightarrow> q \<in> set (starts rs nb r) \<Longrightarrow> q < length rs"
  unfolding starts_def by (auto dest: rules_okD heads_less)

lemma left_corner_exact:
  assumes "rules_ok rs" and "\<forall>r<length rs. nb ! r \<longleftrightarrow> derives_empty rs r"
  shows "left_corner rs nb = begins_with rs"
proof -
  have eq: "holds_for nb before \<longleftrightarrow> (\<forall>e\<in>set before. \<exists>p. e = Rule p \<and> derives_empty rs p)"
    if "alternative_ok (length rs) (before @ rest)" for before rest
    using that assms(2) by (induction before) (auto simp: holds_for_def alternative_ok_def)
  have "q \<in> set (starts rs nb r) \<longleftrightarrow> (\<exists>a\<in>set (rs ! r). \<exists>before after.
     a = before @ Rule q # after \<and> (\<forall>e\<in>set before. \<exists>p. e = Rule p \<and> derives_empty rs p))"
    if r: "r < length rs" for r q
    using rules_okD [OF assms(1) r] eq by (auto simp: starts_def heads_iff) blast+
  then show ?thesis unfolding left_corner_def begins_with_def by blast
qed

text \<open>The two nested loops of \<open>visit\<close> are one loop over the rules that can come first.\<close>

definition visits :: "rules \<Rightarrow> bool list \<Rightarrow> nat list \<Rightarrow> nat list \<Rightarrow> (grammar_error + nat list) option" where
  "visits rs nb = scanO (\<lambda>q marks. do {
     result \<leftarrow> visit q rs nb marks;
     Some (case result of Inl e \<Rightarrow> Inl e | Inr marks \<Rightarrow> Inr (True, marks)) })"

lemma visits_simps [simp]:
  "visits rs nb [] marks = Some (Inr marks)"
  "visits rs nb (q # qs) marks = do {
     result \<leftarrow> visit q rs nb marks;
     (case result of Inl e \<Rightarrow> Some (Inl e) | Inr marks \<Rightarrow> visits rs nb qs marks) }"
  by (auto simp: visits_def Option.bind_assoc split: sum.splits intro!: Option.bind_cong)

lemma visits_append:
  "visits rs nb (ps @ qs) marks = do {
     result \<leftarrow> visits rs nb ps marks;
     (case result of Inl e \<Rightarrow> Some (Inl e) | Inr marks \<Rightarrow> visits rs nb qs marks) }"
  by (induction ps arbitrary: marks) (auto simp: Option.bind_assoc split: sum.splits intro!: Option.bind_cong)

lemma scan_elements:
  "alternative_ok (length nb) a \<Longrightarrow>
   scanO (\<lambda>element marks.
     (case element of
        Bytes c \<Rightarrow> Some (Inr (False, marks))
      | Rule target \<Rightarrow> do {
          result \<leftarrow> visit target rs nb marks;
          (case result of
             Inl e \<Rightarrow> Some (Inl e)
           | Inr marks \<Rightarrow> do { n \<leftarrow> get nb target; Some (Inr (n, marks)) }) }))
     a marks = visits rs nb (heads nb a) marks"
  by (induction a arbitrary: marks)
    (auto simp: Option.bind_assoc split: sum.splits grammar_element.splits intro!: Option.bind_cong)

lemma visit_eq:
  assumes "rules_ok rs" and "length nb = length rs" and "r < length rs" and "length marks = length rs"
  shows "visit r rs nb marks =
    (if marks ! r = 1 then Some (Inl LeftRecursion)
     else if marks ! r = 2 then Some (Inr marks)
     else do {
       result \<leftarrow> visits rs nb (starts rs nb r) (marks[r := 1]);
       Some (case result of Inl e \<Rightarrow> Inl e | Inr marks \<Rightarrow> Inr (marks[r := 2])) })"
proof -
  let ?elements = "\<lambda>alternative marks. scanO (\<lambda>element marks.
     (case element of
        Bytes c \<Rightarrow> Some (Inr (False, marks))
      | Rule target \<Rightarrow> do {
          result \<leftarrow> visit target rs nb marks;
          (case result of
             Inl e \<Rightarrow> Some (Inl e)
           | Inr marks \<Rightarrow> do { n \<leftarrow> get nb target; Some (Inr (n, marks)) }) }))
     alternative marks"
  have "scanO (\<lambda>alternative marks. do {
       result \<leftarrow> ?elements alternative marks;
       Some (case result of Inl e \<Rightarrow> Inl e | Inr marks \<Rightarrow> Inr (True, marks)) }) as marks =
     visits rs nb (concat (map (heads nb) as)) marks"
    if "\<forall>a\<in>set as. alternative_ok (length nb) a" for as marks
    using that
    by (induction as arbitrary: marks)
      (auto simp: scan_elements visits_append Option.bind_assoc split: sum.splits intro!: Option.bind_cong)
  moreover have "\<forall>a\<in>set (rs ! r). alternative_ok (length nb) a"
    using assms by (auto dest: rules_okD)
  ultimately show ?thesis
    using assms by (subst visit.simps) (simp add: starts_def)
qed

text \<open>
  The marks of a search: finished rules (2) are closed under the edges and lie on no cycle, and every
  rule on the current path (1) leads to the rule visited next.
\<close>

definition marks_ok :: "rules \<Rightarrow> bool list \<Rightarrow> nat list \<Rightarrow> bool" where
  "marks_ok rs nb marks = (length marks = length rs \<and>
     (\<forall>r<length rs. marks ! r \<le> 2 \<and> (marks ! r = 2 \<longrightarrow>
        (\<forall>q. (r, q) \<in> left_corner rs nb \<longrightarrow> marks ! q = 2) \<and> (r, r) \<notin> (left_corner rs nb)\<^sup>+)))"

definition path_to :: "rules \<Rightarrow> bool list \<Rightarrow> nat list \<Rightarrow> nat \<Rightarrow> bool" where
  "path_to rs nb marks r =
     (\<forall>g<length rs. marks ! g = 1 \<longrightarrow> (g, r) \<in> (left_corner rs nb)\<^sup>+)"

definition finishes :: "rules \<Rightarrow> nat list \<Rightarrow> nat list \<Rightarrow> bool" where
  "finishes rs marks marks' = (\<forall>r<length rs.
     marks' ! r = marks ! r \<or> marks ! r = 0 \<and> marks' ! r = 2)"

definition unvisited :: "rules \<Rightarrow> nat list \<Rightarrow> nat" where
  "unvisited rs marks = card {r. r < length rs \<and> marks ! r = 0}"

definition search_result ::
  "rules \<Rightarrow> bool list \<Rightarrow> nat list \<Rightarrow> nat set \<Rightarrow> (grammar_error + nat list) option \<Rightarrow> bool" where
  "search_result rs nb marks qs result =
     (result = Some (Inl LeftRecursion) \<and> (\<exists>r. (r, r) \<in> (left_corner rs nb)\<^sup>+) \<or>
      (\<exists>marks'. result = Some (Inr marks') \<and> marks_ok rs nb marks' \<and> finishes rs marks marks' \<and>
         (\<forall>q\<in>qs. marks' ! q = 2)))"

lemma finishes_refl: "finishes rs marks marks"
  by (simp add: finishes_def)

lemma finishes_trans:
  "finishes rs marks marks' \<Longrightarrow> finishes rs marks' marks'' \<Longrightarrow> finishes rs marks marks''"
  by (auto simp: finishes_def) (metis zero_neq_numeral)+

lemma finishes_keeps: "finishes rs marks marks' \<Longrightarrow> q < length rs \<Longrightarrow> marks ! q \<noteq> 0 \<Longrightarrow> marks' ! q = marks ! q"
  by (auto simp: finishes_def)

lemma finishes_path: "finishes rs marks marks' \<Longrightarrow> path_to rs nb marks r \<Longrightarrow> path_to rs nb marks' r"
  by (auto simp: finishes_def path_to_def)

lemma finishes_unvisited: "finishes rs marks marks' \<Longrightarrow> unvisited rs marks' \<le> unvisited rs marks"
  unfolding unvisited_def by (rule card_mono) (auto simp: finishes_def)

lemma visits_search:
  assumes ok: "rules_ok rs" and len: "length nb = length rs"
    and visit: "\<And>q marks. unvisited rs marks \<le> bound \<Longrightarrow> marks_ok rs nb marks \<Longrightarrow> q < length rs \<Longrightarrow>
      path_to rs nb marks q \<Longrightarrow> search_result rs nb marks {q} (visit q rs nb marks)"
  shows "unvisited rs marks \<le> bound \<Longrightarrow> marks_ok rs nb marks \<Longrightarrow>
    \<forall>q\<in>set qs. q < length rs \<and> path_to rs nb marks q \<Longrightarrow>
    search_result rs nb marks (set qs) (visits rs nb qs marks)"
proof (induction qs arbitrary: marks)
  case Nil
  then show ?case by (simp add: search_result_def finishes_refl)
next
  case (Cons q qs)
  then have first: "search_result rs nb marks {q} (visit q rs nb marks)" by (simp add: visit)
  show ?case
  proof (cases "visit q rs nb marks = Some (Inl LeftRecursion)")
    case True
    with first show ?thesis by (simp add: search_result_def)
  next
    case False
    with first obtain marks' where marks': "visit q rs nb marks = Some (Inr marks')"
      "marks_ok rs nb marks'" "finishes rs marks marks'" "marks' ! q = 2"
      by (auto simp: search_result_def)
    have "search_result rs nb marks' (set qs) (visits rs nb qs marks')"
    proof (rule Cons.IH [OF _ marks'(2)])
      show "unvisited rs marks' \<le> bound"
        using finishes_unvisited [OF marks'(3)] Cons.prems(1) by simp
      show "\<forall>q\<in>set qs. q < length rs \<and> path_to rs nb marks' q"
        using Cons.prems(3) finishes_path [OF marks'(3)] by auto
    qed
    moreover have "q < length rs" using Cons.prems(3) by simp
    ultimately show ?thesis using marks' finishes_trans [OF marks'(3)]
      by (auto simp: search_result_def finishes_keeps)
  qed
qed

lemma closed_reaches:
  assumes "marks_ok rs nb marks" and "(r, q) \<in> (left_corner rs nb)\<^sup>*" and "marks ! r = 2" and "r < length rs"
    and "rules_ok rs"
  shows "marks ! q = 2 \<and> q < length rs"
  using assms(2,3,4)
proof (induction rule: rtrancl_induct)
  case base
  then show ?case by simp
next
  case (step p q)
  with assms(1,5) show ?case
    by (auto simp: marks_ok_def left_corner_def intro: starts_less)
qed

lemma marks_ok_update:
  assumes ok: "marks_ok rs nb marks" and r: "r < length rs" and "v \<le> 2" and open_r: "marks ! r \<noteq> 2"
    and closing: "v = 2 \<Longrightarrow> (\<forall>q. (r, q) \<in> left_corner rs nb \<longrightarrow> marks ! q = 2) \<and> (r, r) \<notin> (left_corner rs nb)\<^sup>+"
  shows "marks_ok rs nb (marks[r := v])"
proof -
  have len: "length marks = length rs" using ok by (simp add: marks_ok_def)
  have fact: "marks ! p \<le> 2"
    and black: "marks ! p = 2 \<Longrightarrow> (p, q) \<in> left_corner rs nb \<Longrightarrow> marks ! q = 2"
    and acyclic: "marks ! p = 2 \<Longrightarrow> (p, p) \<notin> (left_corner rs nb)\<^sup>+" if "p < length rs" for p q
    using ok that unfolding marks_ok_def by blast+
  have keep: "marks[r := v] ! q = 2" if "marks ! q = 2" for q
    using that open_r by (cases "q = r") auto
  show ?thesis
    unfolding marks_ok_def
  proof (intro conjI allI impI)
    show "length (marks[r := v]) = length rs" using len by simp
  next
    fix p assume "p < length rs"
    with fact [OF this] \<open>v \<le> 2\<close> len show "marks[r := v] ! p \<le> 2" by (cases "p = r") simp_all
  next
    fix p q assume p: "p < length rs" "marks[r := v] ! p = 2" and edge: "(p, q) \<in> left_corner rs nb"
    have "marks ! q = 2"
    proof (cases "p = r")
      case True
      with p len have "v = 2" by simp
      with closing edge True show ?thesis by blast
    next
      case False
      with p have "marks ! p = 2" by simp
      with black [OF p(1)] edge show ?thesis by blast
    qed
    then show "marks[r := v] ! q = 2" by (rule keep)
  next
    fix p assume p: "p < length rs" "marks[r := v] ! p = 2"
    show "(p, p) \<notin> (left_corner rs nb)\<^sup>+"
    proof (cases "p = r")
      case True
      with p len have "v = 2" by simp
      with closing True show ?thesis by blast
    next
      case False
      with p have "marks ! p = 2" by simp
      with acyclic [OF p(1)] show ?thesis by blast
    qed
  qed
qed

lemma visit_search:
  assumes ok: "rules_ok rs" and len: "length nb = length rs"
  shows "marks_ok rs nb marks \<Longrightarrow> r < length rs \<Longrightarrow> path_to rs nb marks r \<Longrightarrow>
    search_result rs nb marks {r} (visit r rs nb marks)"
proof (induction "unvisited rs marks" arbitrary: marks r rule: less_induct)
  case less
  have lm: "length marks = length rs" using less.prems(1) by (simp add: marks_ok_def)
  note eq = visit_eq [OF ok len less.prems(2) lm]
  consider "marks ! r = 1" | "marks ! r = 2" | "marks ! r \<noteq> 1" "marks ! r \<noteq> 2" by blast
  then show ?case
  proof cases
    case 1
    then have "(r, r) \<in> (left_corner rs nb)\<^sup>+" using less.prems by (simp add: path_to_def)
    with 1 eq show ?thesis by (auto simp: search_result_def)
  next
    case 2
    with eq less.prems show ?thesis by (simp add: search_result_def finishes_refl)
  next
    case 3
    with less.prems have white: "marks ! r = 0"
      by (auto simp: marks_ok_def numeral_2_eq_2 le_Suc_eq)
    let ?marks = "marks[r := 1]"
    have "{q. q < length rs \<and> ?marks ! q = 0} \<subset> {q. q < length rs \<and> marks ! q = 0}"
      using less.prems(2) lm white by (auto simp: nth_list_update)
    then have fewer: "unvisited rs ?marks < unvisited rs marks"
      unfolding unvisited_def by (rule psubset_card_mono [rotated]) simp
    have ok1: "marks_ok rs nb ?marks"
      by (rule marks_ok_update [OF less.prems(1,2)]) (use white in auto)
    have paths: "\<forall>q\<in>set (starts rs nb r). q < length rs \<and> path_to rs nb ?marks q"
    proof
      fix q assume q: "q \<in> set (starts rs nb r)"
      then have edge: "(r, q) \<in> left_corner rs nb" using less.prems(2) by (simp add: left_corner_def)
      have "(g, q) \<in> (left_corner rs nb)\<^sup>+" if "g < length rs" "?marks ! g = 1" for g
      proof (cases "g = r")
        case True
        with edge show ?thesis by blast
      next
        case False
        with that less.prems(3) have "(g, r) \<in> (left_corner rs nb)\<^sup>+" by (simp add: path_to_def)
        then show ?thesis using edge by (rule trancl_into_trancl)
      qed
      then show "q < length rs \<and> path_to rs nb ?marks q"
        using starts_less [OF ok less.prems(2) q] by (simp add: path_to_def)
    qed
    have result: "search_result rs nb ?marks (set (starts rs nb r)) (visits rs nb (starts rs nb r) ?marks)"
      by (rule visits_search [OF ok len less.hyps order_refl ok1 paths]) (use fewer in auto)
    show ?thesis
      using result
      unfolding search_result_def [of _ _ ?marks]
    proof (elim disjE exE conjE)
      fix p assume "visits rs nb (starts rs nb r) ?marks = Some (Inl LeftRecursion)"
        and "(p, p) \<in> (left_corner rs nb)\<^sup>+"
      then show ?thesis using 3 eq by (auto simp: search_result_def)
    next
      fix marks' assume visits: "visits rs nb (starts rs nb r) ?marks = Some (Inr marks')"
        and ok': "marks_ok rs nb marks'" and fin: "finishes rs ?marks marks'"
        and black: "\<forall>q\<in>set (starts rs nb r). marks' ! q = 2"
      have grey: "marks' ! r = 1"
        using finishes_keeps [OF fin less.prems(2)] less.prems(2) lm by simp
      have acyclic: "(r, r) \<notin> (left_corner rs nb)\<^sup>+"
      proof
        assume "(r, r) \<in> (left_corner rs nb)\<^sup>+"
        then obtain q where "(r, q) \<in> left_corner rs nb" "(q, r) \<in> (left_corner rs nb)\<^sup>*"
          by (meson tranclD)
        moreover from this(1) have "marks' ! q = 2" "q < length rs"
          using black starts_less [OF ok] by (auto simp: left_corner_def)
        ultimately have "marks' ! r = 2" using closed_reaches [OF ok'] ok by blast
        with grey show False by simp
      qed
      have "marks_ok rs nb (marks'[r := 2])"
        by (rule marks_ok_update [OF ok' less.prems(2)])
          (use grey acyclic black in \<open>auto simp: left_corner_def\<close>)
      moreover have "finishes rs marks (marks'[r := 2])"
        unfolding finishes_def
      proof (intro allI impI)
        fix p assume p: "p < length rs"
        with fin have "marks' ! p = ?marks ! p \<or> ?marks ! p = 0 \<and> marks' ! p = 2"
          by (simp add: finishes_def)
        moreover have "length marks' = length rs" using ok' by (simp add: marks_ok_def)
        ultimately show "marks'[r := 2] ! p = marks ! p \<or> marks ! p = 0 \<and> marks'[r := 2] ! p = 2"
          using white p by (cases "p = r") auto
      qed
      ultimately show ?thesis
        using 3 eq visits less.prems(2) ok' unfolding search_result_def
        by (intro disjI2 exI [of _ "marks'[r := 2]"]) (simp add: marks_ok_def [of _ _ marks'])
    qed
  qed
qed

lemma reject_left_recursion_exact:
  assumes ok: "rules_ok rs"
  shows "reject_left_recursion rs = Some (if left_recursive rs then Inl LeftRecursion else Inr ())"
proof -
  from nullable_rules_exact [OF ok] obtain nb where nb: "nullable_rules rs = Some nb"
    and len: "length nb = length rs" and exact: "\<forall>r<length rs. nb ! r \<longleftrightarrow> derives_empty rs r" by blast
  note corner = left_corner_exact [OF ok exact]
  let ?marks = "replicate (length rs) (0 :: nat)"
  have "marks_ok rs nb ?marks" by (simp add: marks_ok_def)
  moreover have "\<forall>q\<in>set [0..<length rs]. q < length rs \<and> path_to rs nb ?marks q"
    by (simp add: path_to_def)
  ultimately have "search_result rs nb ?marks (set [0..<length rs]) (visits rs nb [0..<length rs] ?marks)"
    by (intro visits_search [OF ok len _ order_refl] visit_search [OF ok len])
  moreover have "\<not> left_recursive rs" if "marks_ok rs nb marks'" "\<forall>q\<in>{0..<length rs}. marks' ! q = 2" for marks'
  proof
    assume "left_recursive rs"
    then obtain r where r: "(r, r) \<in> (left_corner rs nb)\<^sup>+"
      unfolding left_recursive_def corner by blast
    then have "r < length rs" by (auto simp: left_corner_def dest: tranclD)
    with that r show False by (auto simp: marks_ok_def)
  qed
  ultimately show ?thesis
    using nb unfolding reject_left_recursion_def visits_def [symmetric]
    by (auto simp: search_result_def left_recursive_def corner)
qed

theorem build_returns:
  "build rs s = Some (
     if length rs \<le> s \<or> \<not> rules_ok rs then Inl MalformedRule
     else if left_recursive rs then Inl LeftRecursion
     else Inr \<lparr>rules = rs, start = s\<rparr>)"
  using check_rules_iff [of rs] check_rules_error [of rs]
  by (auto simp: build_def reject_left_recursion_exact split: sum.splits)

end
