(* ===== verification/Grammar_Expand.thy ===== *)
theory Grammar_Expand
  imports Grammar_Build "HOL-Library.List_Lexorder"
begin

text \<open>
  The parse stacks of \<open>grammar.rs\<close>. A stack is a \<open>Vec\<close> of frames with its top at the end; \<open>expand\<close>
  resolves rule references until a byte class is on top. Its recursion is on the grammar, not on data
  that shrinks, so the function has an option result, and the theorem here is that it returns for every
  grammar that \<open>build\<close> accepts.
\<close>

datatype frame = Frame (frame_rule: u32) (frame_alternative: u32) (frame_position: u32)

type_synonym stack = "frame list"

text \<open>The derived \<open>Ord\<close> of \<open>Frame\<close>, which sorts the stacks of a state.\<close>

instantiation frame :: linorder
begin

definition less_eq_frame :: "frame \<Rightarrow> frame \<Rightarrow> bool" where
  "less_eq_frame f h \<longleftrightarrow> frame_rule f < frame_rule h \<or> frame_rule f = frame_rule h \<and>
     (frame_alternative f < frame_alternative h \<or> frame_alternative f = frame_alternative h \<and>
        frame_position f \<le> frame_position h)"

definition less_frame :: "frame \<Rightarrow> frame \<Rightarrow> bool" where
  "less_frame f h \<longleftrightarrow> f \<le> h \<and> \<not> h \<le> (f :: frame)"

instance
  by standard (auto simp: less_eq_frame_def less_frame_def intro: frame.expand)

end

abbreviation (input) MAX_STACK_DEPTH :: nat where "MAX_STACK_DEPTH \<equiv> 128"
abbreviation (input) MAX_STACKS_PER_STATE :: nat where "MAX_STACKS_PER_STATE \<equiv> 1024"

subsection \<open>The operations\<close>

definition pop :: "'a list \<Rightarrow> ('a \<times> 'a list) option" where
  "pop xs = (if xs = [] then None else Some (last xs, butlast xs))"

definition element :: "grammar \<Rightarrow> frame \<Rightarrow> grammar_element option option" where
  "element g f = do {
     alternatives \<leftarrow> get (rules g) (frame_rule f);
     a \<leftarrow> get alternatives (frame_alternative f);
     Some (get a (frame_position f)) }"

definition next_frame :: "frame \<Rightarrow> frame" where
  "next_frame f = Frame (frame_rule f) (frame_alternative f) (wrapping_add32 (frame_position f) 1)"

definition first_frame :: "u32 \<Rightarrow> nat \<Rightarrow> frame" where
  "first_frame r k = Frame r (to_u32 k) 0"

partial_function (option) expand :: "grammar \<Rightarrow> stack \<Rightarrow> stack list \<Rightarrow> stack list option" where
  "expand g stack output =
     (case pop stack of
        None \<Rightarrow> Some (output @ [stack])
      | Some (frame, stack) \<Rightarrow> do {
          e \<leftarrow> element g frame;
          (case e of
             None \<Rightarrow> expand g stack output
           | Some (Bytes c) \<Rightarrow> Some (output @ [stack @ [frame]])
           | Some (Rule r) \<Rightarrow> do {
               after \<leftarrow> element g (next_frame frame);
               let stack = (if after \<noteq> None then stack @ [next_frame frame] else stack) in
               if MAX_STACK_DEPTH \<le> length stack then Some output
               else do {
                 alternatives \<leftarrow> get (rules g) r;
                 foldO (\<lambda>k output. expand g (stack @ [first_frame r k]) output)
                   [0..<length alternatives] output } }) })"

definition canonical :: "stack list \<Rightarrow> stack list" where
  "canonical stacks = take MAX_STACKS_PER_STATE (remdups_adj (sort stacks))"

definition start_stacks :: "grammar \<Rightarrow> stack list option" where
  "start_stacks g = do {
     alternatives \<leftarrow> get (rules g) (start g);
     output \<leftarrow> foldO (\<lambda>k output. expand g [first_frame (start g) k] output)
       [0..<length alternatives] [];
     Some (canonical output) }"

definition advance_stacks :: "grammar \<Rightarrow> stack list \<Rightarrow> octet \<Rightarrow> stack list option" where
  "advance_stacks g stacks byte = do {
     output \<leftarrow> foldO (\<lambda>stack output.
         (case pop stack of
            None \<Rightarrow> Some output
          | Some (frame, rest) \<Rightarrow> do {
              e \<leftarrow> element g frame;
              (case e of
                 Some (Bytes c) \<Rightarrow>
                   if class_contains c byte then expand g (rest @ [next_frame frame]) output
                   else Some output
               | _ \<Rightarrow> Some output) }))
       stacks [];
     Some (canonical output) }"

subsection \<open>Well-formed grammars and stacks\<close>

text \<open>What \<open>build\<close> guarantees, and that rule and position numbers fit the \<open>u32\<close> of a frame.\<close>

definition sized :: "rules \<Rightarrow> bool" where
  "sized rs = (\<forall>as\<in>set rs. length as \<le> u32_max \<and> (\<forall>a\<in>set as. length a \<le> u32_max))"

definition grammar_ok :: "grammar \<Rightarrow> bool" where
  "grammar_ok g = (rules_ok (rules g) \<and> \<not> left_recursive (rules g) \<and> start g < length (rules g) \<and>
     sized (rules g))"

lemma build_grammar_ok: "build rs s = Some (Inr g) \<Longrightarrow> sized rs \<Longrightarrow> grammar_ok g"
  by (auto simp: build_returns grammar_ok_def split: if_splits)

definition alternative_of :: "grammar \<Rightarrow> frame \<Rightarrow> grammar_element list" where
  "alternative_of g f = rules g ! frame_rule f ! frame_alternative f"

definition frame_ok :: "grammar \<Rightarrow> frame \<Rightarrow> bool" where
  "frame_ok g f = (frame_rule f < length (rules g) \<and>
     frame_alternative f < length (rules g ! frame_rule f) \<and>
     frame_position f \<le> length (alternative_of g f))"

definition stack_ok :: "grammar \<Rightarrow> stack \<Rightarrow> bool" where
  "stack_ok g s = (\<forall>f\<in>set s. frame_ok g f)"

lemma stack_ok_simps [simp]:
  "stack_ok g []"
  "stack_ok g (s @ t) \<longleftrightarrow> stack_ok g s \<and> stack_ok g t"
  "stack_ok g (f # s) \<longleftrightarrow> frame_ok g f \<and> stack_ok g s"
  by (auto simp: stack_ok_def)

lemma pop_simps [simp]:
  "pop [] = None"
  "pop (xs @ [x]) = Some (x, xs)"
  "pop [x] = Some (x, [])"
  by (simp_all add: pop_def)

text \<open>The symbols a frame still has to match.\<close>

definition remaining :: "grammar \<Rightarrow> frame \<Rightarrow> grammar_element list" where
  "remaining g f = drop (frame_position f) (alternative_of g f)"

lemma element_ok:
  "frame_ok g f \<Longrightarrow> element g f =
     Some (case remaining g f of [] \<Rightarrow> None | e # es \<Rightarrow> Some e)"
  by (auto simp: frame_ok_def element_def alternative_of_def remaining_def get_def
      Cons_nth_drop_Suc [symmetric] split: list.splits)

lemma alternative_in:
  "frame_ok g f \<Longrightarrow> alternative_of g f \<in> set (rules g ! frame_rule f)"
  by (auto simp: frame_ok_def alternative_of_def)

lemma sizedD:
  "sized rs \<Longrightarrow> r < length rs \<Longrightarrow> length (rs ! r) \<le> u32_max"
  "sized rs \<Longrightarrow> r < length rs \<Longrightarrow> a \<in> set (rs ! r) \<Longrightarrow> length a \<le> u32_max"
  by (auto simp: sized_def)

lemma next_frame_ok:
  assumes g: "grammar_ok g" and f: "frame_ok g f" and rem: "remaining g f = e # es"
  shows "frame_ok g (next_frame f)" and "remaining g (next_frame f) = es"
    and "next_frame f = Frame (frame_rule f) (frame_alternative f) (Suc (frame_position f))"
proof -
  have p: "frame_position f < length (alternative_of g f)"
    using rem unfolding remaining_def by (metis drop_eq_Nil leI list.distinct(1))
  moreover have "length (alternative_of g f) \<le> u32_max"
    using sizedD(2) alternative_in [OF f] g f by (auto simp: grammar_ok_def frame_ok_def)
  ultimately show eq: "next_frame f = Frame (frame_rule f) (frame_alternative f) (Suc (frame_position f))"
    by (simp add: next_frame_def)
  with p f show "frame_ok g (next_frame f)" by (simp add: frame_ok_def alternative_of_def)
  show "remaining g (next_frame f) = es"
    using rem eq p by (simp add: remaining_def alternative_of_def flip: Cons_nth_drop_Suc)
qed

lemma first_frame_ok:
  assumes "grammar_ok g" and "r < length (rules g)" and "k < length (rules g ! r)"
  shows "frame_ok g (first_frame r k)" and "remaining g (first_frame r k) = rules g ! r ! k"
    and "first_frame r k = Frame r k 0"
proof -
  have "k \<le> u32_max" using assms sizedD(1) [of "rules g" r] by (auto simp: grammar_ok_def)
  then show eq: "first_frame r k = Frame r k 0" by (simp add: first_frame_def)
  show "frame_ok g (first_frame r k)" "remaining g (first_frame r k) = rules g ! r ! k"
    using assms eq by (auto simp: frame_ok_def remaining_def alternative_of_def)
qed

lemma remaining_rule_less:
  assumes "grammar_ok g" and "frame_ok g f" and "remaining g f = Rule r # es"
  shows "r < length (rules g)"
proof -
  have "Rule r \<in> set (alternative_of g f)"
    using assms(3) by (metis in_set_dropD list.set_intros(1) remaining_def)
  moreover have "alternative_ok (length (rules g)) (alternative_of g f)"
    using assms alternative_in [OF assms(2)] rules_okD [of "rules g"] by (auto simp: grammar_ok_def frame_ok_def)
  ultimately show ?thesis by (fastforce simp: alternative_ok_def)
qed

subsection \<open>Expansion returns\<close>

text \<open>
  \<open>under g s f\<close> is the stack below the called rule: a rule in tail position leaves no frame. A stack
  settles if its expansion is a finite tree; the rule induction of \<open>settles\<close> is the induction principle
  of \<open>expand\<close>.
\<close>

definition under :: "grammar \<Rightarrow> stack \<Rightarrow> frame \<Rightarrow> stack" where
  "under g s f = (if length (remaining g f) = 1 then s else s @ [next_frame f])"

inductive settling :: "grammar \<Rightarrow> stack \<Rightarrow> bool" for g where
  settling_empty: "settling g []"
| settling_pop: "remaining g f = [] \<Longrightarrow> settling g s \<Longrightarrow> settling g (s @ [f])"
| settling_bytes: "remaining g f = Bytes c # es \<Longrightarrow> settling g (s @ [f])"
| settling_call: "remaining g f = Rule r # es \<Longrightarrow>
    (\<And>k. length (under g s f) < MAX_STACK_DEPTH \<Longrightarrow> k < length (rules g ! r) \<Longrightarrow>
       settling g (under g s f @ [first_frame r k])) \<Longrightarrow> settling g (s @ [f])"

lemma under_ok:
  assumes "grammar_ok g" and "stack_ok g s" and "frame_ok g f" and "remaining g f = e # es"
  shows "stack_ok g (under g s f)"
  using assms next_frame_ok [OF assms(1,3,4)] by (simp add: under_def)

text \<open>The rules that can begin with one another have no infinite descent.\<close>

lemma begins_with_wf:
  assumes "grammar_ok g"
  shows "wf ((begins_with (rules g))\<inverse>)"
proof -
  have ok: "rules_ok (rules g)" using assms by (simp add: grammar_ok_def)
  have "q < length (rules g)" if "(r, q) \<in> begins_with (rules g)" for r q
    using that rules_okD [OF ok] by (fastforce simp: begins_with_def alternative_ok_def)
  moreover have "r < length (rules g)" if "(r, q) \<in> begins_with (rules g)" for r q
    using that by (simp add: begins_with_def)
  ultimately have "begins_with (rules g) \<subseteq> {..<length (rules g)} \<times> {..<length (rules g)}"
    by (auto simp del: split_paired_All)
  then have "finite (begins_with (rules g))" by (rule finite_subset) simp
  moreover have "acyclic (begins_with (rules g))"
    using assms by (auto simp: grammar_ok_def left_recursive_def acyclic_def)
  ultimately show ?thesis by (rule finite_acyclic_wf_converse)
qed

definition all_empty :: "grammar \<Rightarrow> grammar_element list \<Rightarrow> bool" where
  "all_empty g es = (\<forall>e\<in>set es. \<exists>q. e = Rule q \<and> derives_empty (rules g) q)"

lemma all_empty_simps [simp]:
  "all_empty g []"
  "all_empty g (e # es) \<longleftrightarrow> (\<exists>q. e = Rule q \<and> derives_empty (rules g) q) \<and> all_empty g es"
  "all_empty g (es @ es') \<longleftrightarrow> all_empty g es \<and> all_empty g es'"
  by (auto simp: all_empty_def)

definition consumed :: "grammar \<Rightarrow> frame \<Rightarrow> grammar_element list" where
  "consumed g f = take (frame_position f) (alternative_of g f)"

lemma consumed_remaining: "consumed g f @ remaining g f = alternative_of g f"
  by (simp add: consumed_def remaining_def)

lemma consumed_next:
  assumes "grammar_ok g" and "frame_ok g f" and "remaining g f = e # es"
  shows "consumed g (next_frame f) = consumed g f @ [e]"
proof -
  have "consumed g (next_frame f) @ es = (consumed g f @ [e]) @ es"
    using consumed_remaining [of g "next_frame f"] consumed_remaining [of g f] assms
      next_frame_ok [OF assms]
    by (simp add: alternative_of_def)
  then show ?thesis by simp
qed

text \<open>A frame whose consumed part is empty: it settles if the rest of the stack does, or if what it
  still has to match is not empty.\<close>

lemma left_corner_settling:
  assumes g: "grammar_ok g"
  shows "frame_ok g f \<Longrightarrow> frame_rule f = r \<Longrightarrow> all_empty g (consumed g f) \<Longrightarrow>
    (all_empty g (remaining g f) \<Longrightarrow> settling g s) \<Longrightarrow> settling g (s @ [f])"
proof (induction r arbitrary: f s rule: wf_induct_rule [OF begins_with_wf [OF g]])
  case (1 r)
  from "1.prems" show ?case
  proof (induction "length (remaining g f)" arbitrary: f)
    case 0
    then show ?case by (simp add: settling_pop)
  next
    case (Suc n)
    then obtain e es where rem: "remaining g f = e # es" by (cases "remaining g f") auto
    note ok = next_frame_ok [OF g Suc.prems(1) rem]
    show ?case
    proof (cases e)
      case (Bytes c)
      with rem show ?thesis by (auto intro: settling_bytes)
    next
      case (Rule q)
      have q: "q < length (rules g)" using remaining_rule_less g Suc.prems(1) rem Rule by blast
      have "(r, q) \<in> begins_with (rules g)"
        unfolding begins_with_def
        using Suc.prems rem Rule consumed_remaining [of g f, symmetric] alternative_in [OF Suc.prems(1)]
        by (fastforce simp: all_empty_def frame_ok_def)
      then have edge: "(q, r) \<in> (begins_with (rules g))\<inverse>" by simp
      have below: "settling g (under g s f)" if empty: "derives_empty (rules g) q"
      proof (cases "es = []")
        case True
        then show ?thesis using Suc.prems(4) rem Rule empty by (simp add: under_def)
      next
        case False
        have "settling g (s @ [next_frame f])"
        proof (rule Suc.hyps(1))
          show "n = length (remaining g (next_frame f))" using ok Suc.hyps(2) rem by simp
          show "frame_ok g (next_frame f)" "frame_rule (next_frame f) = r"
            using ok Suc.prems(2) by simp_all
          show "all_empty g (consumed g (next_frame f))"
            using consumed_next [OF g Suc.prems(1) rem] Suc.prems(3) Rule empty by simp
          show "settling g s" if "all_empty g (remaining g (next_frame f))"
            using that ok rem Rule empty Suc.prems(4) by simp
        qed
        with False rem show ?thesis by (simp add: under_def)
      qed
      show ?thesis
      proof (rule settling_call)
        show "remaining g f = Rule q # es" using rem Rule by simp
      next
        fix k assume k: "k < length (rules g ! q)"
        note first = first_frame_ok [OF g q k]
        show "settling g (under g s f @ [first_frame q k])"
        proof (rule "1.IH" [OF edge first(1)])
          show "frame_rule (first_frame q k) = q" "all_empty g (consumed g (first_frame q k))"
            using first by (simp_all add: consumed_def)
          assume "all_empty g (remaining g (first_frame q k))"
          then have "derives_empty (rules g) q"
            using derives_empty.intros [OF q, of "rules g ! q ! k"] first k by (simp add: all_empty_def)
          then show "settling g (under g s f)" by (rule below)
        qed
      qed
    qed
  qed
qed

lemma frame_settling:
  assumes g: "grammar_ok g"
  shows "frame_ok g f \<Longrightarrow> settling g s \<Longrightarrow> settling g (s @ [f])"
proof (induction "length (remaining g f)" arbitrary: f)
  case 0
  then show ?case by (simp add: settling_pop)
next
  case (Suc n)
  then obtain e es where rem: "remaining g f = e # es" by (cases "remaining g f") auto
  note ok = next_frame_ok [OF g Suc.prems(1) rem]
  show ?case
  proof (cases e)
    case (Bytes c)
    with rem show ?thesis by (auto intro: settling_bytes)
  next
    case (Rule q)
    have q: "q < length (rules g)" using remaining_rule_less g Suc.prems(1) rem Rule by blast
    have below: "settling g (under g s f)"
      using Suc ok rem by (simp add: under_def)
    show ?thesis
    proof (rule settling_call)
      show "remaining g f = Rule q # es" using rem Rule by simp
    next
      fix k assume k: "k < length (rules g ! q)"
      show "settling g (under g s f @ [first_frame q k])"
        by (rule left_corner_settling [OF g first_frame_ok(1) [OF g q k] refl _ below])
          (simp add: consumed_def first_frame_ok(3) [OF g q k])
    qed
  qed
qed

lemma stack_settling: "grammar_ok g \<Longrightarrow> stack_ok g s \<Longrightarrow> settling g s"
  by (induction s rule: rev_induct) (auto intro: settling_empty frame_settling)

text \<open>What \<open>expand\<close> appends to its output.\<close>

definition expanded :: "grammar \<Rightarrow> stack \<Rightarrow> stack list" where
  "expanded g s = the (expand g s [])"

lemma expand_eq:
  assumes g: "grammar_ok g" and f: "frame_ok g f"
  shows "expand g (s @ [f]) out =
    (case remaining g f of
       [] \<Rightarrow> expand g s out
     | Bytes c # es \<Rightarrow> Some (out @ [s @ [f]])
     | Rule r # es \<Rightarrow>
         if MAX_STACK_DEPTH \<le> length (under g s f) then Some out
         else foldO (\<lambda>k out. expand g (under g s f @ [first_frame r k]) out)
           [0..<length (rules g ! r)] out)"
proof (cases "remaining g f")
  case Nil
  then show ?thesis by (subst expand.simps) (simp add: element_ok [OF f])
next
  case (Cons e es)
  note ok = next_frame_ok [OF g f Cons]
  show ?thesis
  proof (cases e)
    case (Bytes c)
    with Cons show ?thesis by (subst expand.simps) (simp add: element_ok [OF f])
  next
    case (Rule r)
    have "r < length (rules g)" using remaining_rule_less g f Cons Rule by blast
    with Cons Rule ok(1,2) show ?thesis
      by (subst expand.simps)
        (auto simp: element_ok [OF f] element_ok [OF ok(1)] under_def Let_def split: list.splits)
  qed
qed

lemma settling_expand:
  assumes g: "grammar_ok g"
  shows "settling g s \<Longrightarrow> stack_ok g s \<Longrightarrow> expand g s out = Some (out @ expanded g s)"
proof (induction arbitrary: out rule: settling.induct)
  case settling_empty
  then show ?case by (simp add: expanded_def expand.simps)
next
  case (settling_pop f s)
  then have eq: "expand g (s @ [f]) out = expand g s out" for out
    by (simp add: expand_eq [OF g])
  with settling_pop show ?case by (simp add: expanded_def [of g "s @ [f]"] expanded_def [of g s, symmetric])
next
  case (settling_bytes f c es s)
  then show ?case by (simp add: expanded_def expand_eq [OF g])
next
  case (settling_call f r es s)
  have f: "frame_ok g f" using settling_call.prems by simp
  note eq = expand_eq [OF g f, of s, unfolded settling_call.hyps(1), simplified]
  show ?case
  proof (cases "MAX_STACK_DEPTH \<le> length (under g s f)")
    case True
    then show ?thesis by (simp add: expanded_def eq)
  next
    case False
    have r: "r < length (rules g)" using remaining_rule_less g f settling_call.hyps(1) by blast
    have "stack_ok g (under g s f @ [first_frame r k])" if "k < length (rules g ! r)" for k
      using under_ok [OF g _ f settling_call.hyps(1)] first_frame_ok(1) [OF g r that] settling_call.prems by simp
    then have "foldO (\<lambda>k out. expand g (under g s f @ [first_frame r k]) out)
        [0..<length (rules g ! r)] out =
      Some (out @ concat (map (\<lambda>k. expanded g (under g s f @ [first_frame r k])) [0..<length (rules g ! r)]))"
      for out
      using settling_call.IH False by (intro foldO_concat) auto
    with False show ?thesis by (simp add: expanded_def [of g "s @ [f]"] eq)
  qed
qed

lemma expand_returns:
  "grammar_ok g \<Longrightarrow> stack_ok g s \<Longrightarrow> expand g s out = Some (out @ expanded g s)"
  by (blast intro: settling_expand stack_settling)

lemma expanded_empty: "expanded g [] = [[]]"
  by (simp add: expanded_def expand.simps)

lemma expanded_eq:
  assumes g: "grammar_ok g" and s: "stack_ok g s" and f: "frame_ok g f"
  shows "expanded g (s @ [f]) =
    (case remaining g f of
       [] \<Rightarrow> expanded g s
     | Bytes c # es \<Rightarrow> [s @ [f]]
     | Rule r # es \<Rightarrow>
         if MAX_STACK_DEPTH \<le> length (under g s f) then []
         else concat (map (\<lambda>k. expanded g (under g s f @ [first_frame r k])) [0..<length (rules g ! r)]))"
proof (cases "remaining g f")
  case Nil
  then show ?thesis by (simp add: expanded_def expand_eq [OF g f])
next
  case (Cons e es)
  show ?thesis
  proof (cases e)
    case (Bytes c)
    with Cons show ?thesis by (simp add: expanded_def expand_eq [OF g f])
  next
    case (Rule r)
    have r: "r < length (rules g)" using remaining_rule_less g f Cons Rule by blast
    have "stack_ok g (under g s f @ [first_frame r k])" if "k < length (rules g ! r)" for k
      using under_ok [OF g s f Cons] first_frame_ok(1) [OF g r that] by simp
    then have "foldO (\<lambda>k out. expand g (under g s f @ [first_frame r k]) out)
        [0..<length (rules g ! r)] [] =
      Some ([] @ concat (map (\<lambda>k. expanded g (under g s f @ [first_frame r k])) [0..<length (rules g ! r)]))"
      by (intro foldO_concat expand_returns [OF g]) auto
    with Cons Rule show ?thesis
      by (simp add: expanded_def [of g "s @ [f]"] expand_eq [OF g f])
  qed
qed

subsection \<open>Settled stacks\<close>

text \<open>The stacks of a state are empty or have a byte class on top, and are at most as deep as the bound.\<close>

definition at_rest :: "grammar \<Rightarrow> stack \<Rightarrow> bool" where
  "at_rest g s = (stack_ok g s \<and> (s = [] \<or> (\<exists>c es. remaining g (last s) = Bytes c # es)))"

lemma expanded_at_rest:
  assumes g: "grammar_ok g"
  shows "settling g s \<Longrightarrow> stack_ok g s \<Longrightarrow> t \<in> set (expanded g s) \<Longrightarrow>
    at_rest g t \<and> length t \<le> max (length s) MAX_STACK_DEPTH"
proof (induction rule: settling.induct)
  case settling_empty
  then show ?case by (simp add: expanded_empty at_rest_def)
next
  case (settling_pop f s)
  then show ?case by (auto simp: expanded_eq [OF g])
next
  case (settling_bytes f c es s)
  then show ?case by (auto simp: expanded_eq [OF g] at_rest_def)
next
  case (settling_call f r es s)
  have s: "stack_ok g s" and f: "frame_ok g f" using settling_call.prems by simp_all
  have r: "r < length (rules g)" using remaining_rule_less g f settling_call.hyps(1) by blast
  have deep: "length (under g s f) < MAX_STACK_DEPTH"
    using settling_call.prems(2) settling_call.hyps(1) by (auto simp: expanded_eq [OF g s f] split: if_splits)
  then obtain k where k: "k < length (rules g ! r)"
    and t: "t \<in> set (expanded g (under g s f @ [first_frame r k]))"
    using settling_call.prems(2) settling_call.hyps(1) by (auto simp: expanded_eq [OF g s f])
  have "stack_ok g (under g s f @ [first_frame r k])"
    using under_ok [OF g s f settling_call.hyps(1)] first_frame_ok(1) [OF g r k] by simp
  from settling_call.IH [OF deep k this t] deep show ?case by auto
qed

end
