(* ===== verification/Grammar_Language.thy ===== *)
theory Grammar_Language
  imports Grammar_Expand
begin

text \<open>
  What the stacks mean. \<open>derives\<close> is the language of the grammar by leftmost derivations, independent of
  the code; \<open>parses g d s w\<close> says that the stack \<open>s\<close> can consume exactly \<open>w\<close> with at most \<open>d\<close>
  frames. \<open>expand\<close> and \<open>advance_stacks\<close> are proved exact for \<open>parses\<close> with the bound of the code, up to
  the truncation of a state, and \<open>parses\<close> is exact for \<open>derives\<close> up to the depth bound.
\<close>

inductive derives :: "grammar \<Rightarrow> grammar_element list \<Rightarrow> octet list \<Rightarrow> bool" for g where
  derives_nil: "derives g [] []"
| derives_byte: "class_contains c b \<Longrightarrow> derives g es w \<Longrightarrow> derives g (Bytes c # es) (b # w)"
| derives_rule: "r < length (rules g) \<Longrightarrow> a \<in> set (rules g ! r) \<Longrightarrow> derives g (a @ es) w \<Longrightarrow>
    derives g (Rule r # es) w"

definition language :: "grammar \<Rightarrow> octet list set" where
  "language g = {w. derives g [Rule (start g)] w}"

inductive parses :: "grammar \<Rightarrow> nat \<Rightarrow> stack \<Rightarrow> octet list \<Rightarrow> bool" for g d where
  parses_empty: "parses g d [] []"
| parses_pop: "remaining g f = [] \<Longrightarrow> parses g d s w \<Longrightarrow> parses g d (s @ [f]) w"
| parses_byte: "remaining g f = Bytes c # es \<Longrightarrow> class_contains c b \<Longrightarrow>
    parses g d (s @ [next_frame f]) w \<Longrightarrow> parses g d (s @ [f]) (b # w)"
| parses_call: "remaining g f = Rule r # es \<Longrightarrow> length (under g s f) < d \<Longrightarrow>
    k < length (rules g ! r) \<Longrightarrow> parses g d (under g s f @ [first_frame r k]) w \<Longrightarrow>
    parses g d (s @ [f]) w"

inductive_simps parses_Nil [simp]: "parses g d [] w"
inductive_cases parses_snocE: "parses g d (s @ [f]) w"

lemma parses_pop_iff:
  "remaining g f = [] \<Longrightarrow> parses g d (s @ [f]) w \<longleftrightarrow> parses g d s w"
  by (auto intro: parses_pop elim: parses_snocE)

lemma parses_byte_iff:
  "remaining g f = Bytes c # es \<Longrightarrow> parses g d (s @ [f]) w \<longleftrightarrow>
     (\<exists>b v. w = b # v \<and> class_contains c b \<and> parses g d (s @ [next_frame f]) v)"
  by (auto intro: parses_byte elim: parses_snocE)

lemma parses_call_iff:
  "remaining g f = Rule r # es \<Longrightarrow> parses g d (s @ [f]) w \<longleftrightarrow>
     (\<exists>k<length (rules g ! r). length (under g s f) < d \<and> parses g d (under g s f @ [first_frame r k]) w)"
proof
  assume rem: "remaining g f = Rule r # es" and "parses g d (s @ [f]) w"
  from this(2) show "\<exists>k<length (rules g ! r).
      length (under g s f) < d \<and> parses g d (under g s f @ [first_frame r k]) w"
    by (cases rule: parses_snocE) (use rem in auto)
qed (blast intro: parses_call)

text \<open>A state is a list of stacks; it parses what one of them does.\<close>

definition state_parses :: "grammar \<Rightarrow> stack list \<Rightarrow> octet list \<Rightarrow> bool" where
  "state_parses g S w = (\<exists>s\<in>set S. parses g MAX_STACK_DEPTH s w)"

definition state_ok :: "grammar \<Rightarrow> stack list \<Rightarrow> bool" where
  "state_ok g S = (\<forall>s\<in>set S. at_rest g s \<and> length s \<le> MAX_STACK_DEPTH)"

subsection \<open>Expansion keeps the meaning\<close>

lemma expanded_parses:
  assumes g: "grammar_ok g"
  shows "settling g s \<Longrightarrow> stack_ok g s \<Longrightarrow>
    parses g MAX_STACK_DEPTH s w \<longleftrightarrow> state_parses g (expanded g s) w"
proof (induction rule: settling.induct)
  case settling_empty
  then show ?case by (simp add: expanded_empty state_parses_def)
next
  case (settling_pop f s)
  then show ?case by (simp add: expanded_eq [OF g] parses_pop_iff)
next
  case (settling_bytes f c es s)
  then show ?case by (simp add: expanded_eq [OF g] state_parses_def)
next
  case (settling_call f r es s)
  have s: "stack_ok g s" and f: "frame_ok g f" using settling_call.prems by simp_all
  have r: "r < length (rules g)" using remaining_rule_less g f settling_call.hyps(1) by blast
  have ok: "stack_ok g (under g s f @ [first_frame r k])" if "k < length (rules g ! r)" for k
    using under_ok [OF g s f settling_call.hyps(1)] first_frame_ok(1) [OF g r that] by simp
  have "parses g MAX_STACK_DEPTH (s @ [f]) w \<longleftrightarrow> length (under g s f) < MAX_STACK_DEPTH \<and>
      (\<exists>k<length (rules g ! r). parses g MAX_STACK_DEPTH (under g s f @ [first_frame r k]) w)"
    unfolding parses_call_iff [OF settling_call.hyps(1)] by blast
  also have "\<dots> \<longleftrightarrow> length (under g s f) < MAX_STACK_DEPTH \<and>
      (\<exists>k<length (rules g ! r). state_parses g (expanded g (under g s f @ [first_frame r k])) w)"
    using settling_call.IH ok by blast
  also have "\<dots> \<longleftrightarrow> state_parses g (expanded g (s @ [f])) w"
    using settling_call.hyps(1) by (auto simp: expanded_eq [OF g s f] state_parses_def)
  finally show ?case .
qed

lemma expanded_state_ok:
  "grammar_ok g \<Longrightarrow> stack_ok g s \<Longrightarrow> length s \<le> MAX_STACK_DEPTH \<Longrightarrow> state_ok g (expanded g s)"
  using expanded_at_rest [OF _ stack_settling] by (fastforce simp: state_ok_def)

subsection \<open>Canonical states\<close>

lemma canonical_subset: "set (canonical S) \<subseteq> set S"
  unfolding canonical_def by (rule subset_trans [OF set_take_subset]) simp

lemma canonical_full:
  "length (canonical S) < MAX_STACKS_PER_STATE \<Longrightarrow> set (canonical S) = set S"
  by (simp add: canonical_def)

lemma canonical_length: "length (canonical S) \<le> MAX_STACKS_PER_STATE"
  by (simp add: canonical_def)

subsection \<open>Consuming a byte\<close>

definition successors :: "grammar \<Rightarrow> octet \<Rightarrow> stack \<Rightarrow> stack list" where
  "successors g b s =
     (if s = [] then []
      else case remaining g (last s) of
        Bytes c # es \<Rightarrow> if class_contains c b then expanded g (butlast s @ [next_frame (last s)]) else []
      | _ \<Rightarrow> [])"

lemma at_rest_cases:
  assumes "at_rest g s"
  obtains "s = []" | t f c es where "s = t @ [f]" "stack_ok g t" "frame_ok g f" "remaining g f = Bytes c # es"
  using assms by (cases s rule: rev_cases) (auto simp: at_rest_def)

lemma successors_parses:
  assumes g: "grammar_ok g" and s: "at_rest g s"
  shows "parses g MAX_STACK_DEPTH s (b # w) \<longleftrightarrow> state_parses g (successors g b s) w"
  using s
proof (cases rule: at_rest_cases)
  case 1
  then show ?thesis by (simp add: successors_def state_parses_def)
next
  case (2 t f c es)
  have "stack_ok g (t @ [next_frame f])" using 2 next_frame_ok [OF g 2(3,4)] by simp
  from expanded_parses [OF g stack_settling [OF g this] this] 2 show ?thesis
    by (auto simp: parses_byte_iff [OF 2(4)] successors_def state_parses_def)
qed

lemma successors_state_ok:
  assumes g: "grammar_ok g" and "at_rest g s" and len: "length s \<le> MAX_STACK_DEPTH"
  shows "state_ok g (successors g b s)"
  using assms(2)
proof (cases rule: at_rest_cases)
  case 1
  then show ?thesis by (simp add: successors_def state_ok_def)
next
  case (2 t f c es)
  have "stack_ok g (t @ [next_frame f])" using 2 next_frame_ok [OF g 2(3,4)] by simp
  from expanded_state_ok [OF g this] 2 len show ?thesis
    by (auto simp: successors_def state_ok_def)
qed

lemma at_rest_empty_input: "at_rest g s \<Longrightarrow> parses g d s [] \<longleftrightarrow> s = []"
  by (erule at_rest_cases) (simp_all add: parses_byte_iff)

lemma advance_returns:
  assumes g: "grammar_ok g" and S: "state_ok g S"
  shows "advance_stacks g S b = Some (canonical (concat (map (successors g b) S)))"
proof -
  have "foldO (\<lambda>stack output.
         (case pop stack of
            None \<Rightarrow> Some output
          | Some (frame, rest) \<Rightarrow> do {
              e \<leftarrow> element g frame;
              (case e of
                 Some (Bytes c) \<Rightarrow>
                   if class_contains c b then expand g (rest @ [next_frame frame]) output
                   else Some output
               | _ \<Rightarrow> Some output) })) S [] = Some ([] @ concat (map (successors g b) S))"
  proof (rule foldO_concat)
    fix s out assume "s \<in> set S"
    with S have "at_rest g s" by (simp add: state_ok_def)
    then show "(case pop s of
            None \<Rightarrow> Some out
          | Some (frame, rest) \<Rightarrow> do {
              e \<leftarrow> element g frame;
              (case e of
                 Some (Bytes c) \<Rightarrow>
                   if class_contains c b then expand g (rest @ [next_frame frame]) out
                   else Some out
               | _ \<Rightarrow> Some out) }) = Some (out @ successors g b s)"
    proof (cases rule: at_rest_cases)
      case 1
      then show ?thesis by (simp add: successors_def)
    next
      case (2 t f c es)
      have "stack_ok g (t @ [next_frame f])" using 2 next_frame_ok [OF g 2(3,4)] by simp
      from expand_returns [OF g this] 2 show ?thesis
        by (simp add: element_ok successors_def)
    qed
  qed
  then show ?thesis by (simp add: advance_stacks_def)
qed

definition stepped :: "grammar \<Rightarrow> stack list \<Rightarrow> octet \<Rightarrow> stack list" where
  "stepped g S b = canonical (concat (map (successors g b) S))"

lemma stepped_state_ok:
  assumes "grammar_ok g" and "state_ok g S"
  shows "state_ok g (stepped g S b)"
proof -
  have "state_ok g (successors g b s)" if "s \<in> set S" for s
    using assms that by (intro successors_state_ok) (auto simp: state_ok_def)
  then have "state_ok g (concat (map (successors g b) S))" by (auto simp: state_ok_def)
  then show ?thesis using canonical_subset unfolding stepped_def state_ok_def by blast
qed

lemma state_parses_successors:
  "grammar_ok g \<Longrightarrow> state_ok g S \<Longrightarrow>
     state_parses g (concat (map (successors g b) S)) w \<longleftrightarrow> state_parses g S (b # w)"
  using successors_parses [of g _ b w] by (auto simp: state_parses_def state_ok_def)

lemma stepped_sound:
  "grammar_ok g \<Longrightarrow> state_ok g S \<Longrightarrow> state_parses g (stepped g S b) w \<Longrightarrow> state_parses g S (b # w)"
  using canonical_subset state_parses_successors [of g S b w]
  unfolding stepped_def state_parses_def [of _ "canonical _"] by (meson state_parses_def subsetD)

lemma stepped_complete:
  assumes "grammar_ok g" and "state_ok g S" and "length (stepped g S b) < MAX_STACKS_PER_STATE"
    and "state_parses g S (b # w)"
  shows "state_parses g (stepped g S b) w"
  using assms canonical_full [of "concat (map (successors g b) S)"] state_parses_successors [of g S b w]
  by (simp add: stepped_def state_parses_def)

lemma stepped_empty [simp]: "stepped g [] b = []"
  by (simp add: stepped_def canonical_def)

subsection \<open>The first state\<close>

definition initial :: "grammar \<Rightarrow> stack list" where
  "initial g = canonical (concat (map (\<lambda>k. expanded g [first_frame (start g) k])
     [0..<length (rules g ! start g)]))"

lemma start_returns:
  assumes g: "grammar_ok g"
  shows "start_stacks g = Some (initial g)"
proof -
  have r: "start g < length (rules g)" using g by (simp add: grammar_ok_def)
  have "foldO (\<lambda>k out. expand g [first_frame (start g) k] out) [0..<length (rules g ! start g)] [] =
    Some ([] @ concat (map (\<lambda>k. expanded g [first_frame (start g) k]) [0..<length (rules g ! start g)]))"
    using first_frame_ok(1) [OF g r] by (intro foldO_concat expand_returns [OF g]) auto
  with r show ?thesis by (simp add: start_stacks_def initial_def)
qed

definition start_parses :: "grammar \<Rightarrow> nat \<Rightarrow> octet list \<Rightarrow> bool" where
  "start_parses g d w = (\<exists>k<length (rules g ! start g). parses g d [first_frame (start g) k] w)"

lemma initial_exact:
  assumes g: "grammar_ok g"
  shows "state_ok g (initial g)"
    and "state_parses g (initial g) w \<Longrightarrow> start_parses g MAX_STACK_DEPTH w"
    and "length (initial g) < MAX_STACKS_PER_STATE \<Longrightarrow> start_parses g MAX_STACK_DEPTH w \<Longrightarrow>
      state_parses g (initial g) w"
proof -
  let ?S = "concat (map (\<lambda>k. expanded g [first_frame (start g) k]) [0..<length (rules g ! start g)])"
  have r: "start g < length (rules g)" using g by (simp add: grammar_ok_def)
  have ok: "stack_ok g [first_frame (start g) k]" if "k < length (rules g ! start g)" for k
    using first_frame_ok(1) [OF g r that] by simp
  then have "state_ok g (expanded g [first_frame (start g) k])" if "k < length (rules g ! start g)" for k
    using that by (intro expanded_state_ok [OF g]) simp_all
  then have "state_ok g ?S" by (auto simp: state_ok_def)
  then show "state_ok g (initial g)"
    using canonical_subset [of ?S] by (auto simp: initial_def state_ok_def)
  have "state_parses g ?S w \<longleftrightarrow>
      (\<exists>k<length (rules g ! start g). state_parses g (expanded g [first_frame (start g) k]) w)"
    by (auto simp: state_parses_def)
  also have "\<dots> \<longleftrightarrow> start_parses g MAX_STACK_DEPTH w"
    unfolding start_parses_def using expanded_parses [OF g stack_settling [OF g ok] ok] by blast
  finally have eq: "state_parses g ?S w \<longleftrightarrow> start_parses g MAX_STACK_DEPTH w" .
  then show "state_parses g (initial g) w \<Longrightarrow> start_parses g MAX_STACK_DEPTH w"
    using canonical_subset [of ?S] by (auto simp: initial_def state_parses_def)
  show "state_parses g (initial g) w"
    if "length (initial g) < MAX_STACKS_PER_STATE" "start_parses g MAX_STACK_DEPTH w"
    using that eq canonical_full [of ?S] by (simp add: initial_def state_parses_def)
qed

subsection \<open>Runs of the stack machine\<close>

text \<open>The specification of the automaton: the stacks after a byte string, with nothing cached.\<close>

primrec run :: "grammar \<Rightarrow> stack list \<Rightarrow> octet list \<Rightarrow> stack list" where
  "run g S [] = S"
| "run g S (b # w) = run g (stepped g S b) w"

definition accepting_state :: "stack list \<Rightarrow> bool" where
  "accepting_state S = ([] \<in> set S)"

text \<open>No state on the way is so ambiguous that the truncation could drop a stack.\<close>

primrec untruncated :: "grammar \<Rightarrow> stack list \<Rightarrow> octet list \<Rightarrow> bool" where
  "untruncated g S [] = (length S < MAX_STACKS_PER_STATE)"
| "untruncated g S (b # w) = (length S < MAX_STACKS_PER_STATE \<and> untruncated g (stepped g S b) w)"

lemma run_append: "run g S (v @ w) = run g (run g S v) w"
  by (induction v arbitrary: S) simp_all

lemma run_empty [simp]: "run g [] w = []"
  by (induction w) simp_all

lemma run_state_ok: "grammar_ok g \<Longrightarrow> state_ok g S \<Longrightarrow> state_ok g (run g S w)"
  by (induction w arbitrary: S) (simp_all add: stepped_state_ok)

lemma accepting_parses: "state_ok g S \<Longrightarrow> accepting_state S \<longleftrightarrow> state_parses g S []"
  by (auto simp: state_ok_def state_parses_def accepting_state_def at_rest_empty_input)

lemma run_sound:
  "grammar_ok g \<Longrightarrow> state_ok g S \<Longrightarrow> accepting_state (run g S w) \<Longrightarrow> state_parses g S w"
  by (induction w arbitrary: S) (auto simp: accepting_parses stepped_state_ok intro: stepped_sound)

lemma untruncated_first: "untruncated g S w \<Longrightarrow> length S < MAX_STACKS_PER_STATE"
  by (cases w) simp_all

lemma run_complete:
  "grammar_ok g \<Longrightarrow> state_ok g S \<Longrightarrow> untruncated g S w \<Longrightarrow> state_parses g S w \<Longrightarrow>
     accepting_state (run g S w)"
proof (induction w arbitrary: S)
  case Nil
  then show ?case by (simp add: accepting_parses)
next
  case (Cons b w)
  then have "untruncated g (stepped g S b) w" by simp
  moreover from untruncated_first [OF this] have "state_parses g (stepped g S b) w"
    using Cons.prems by (intro stepped_complete)
  ultimately show ?case using Cons by (simp add: stepped_state_ok)
qed

subsection \<open>Stacks and derivations\<close>

definition form :: "grammar \<Rightarrow> stack \<Rightarrow> grammar_element list" where
  "form g s = concat (map (remaining g) (rev s))"

lemma form_simps [simp]:
  "form g [] = []"
  "form g (s @ t) = form g t @ form g s"
  "form g (f # s) = form g s @ remaining g f"
  by (simp_all add: form_def)

lemma form_under:
  assumes "grammar_ok g" and "frame_ok g f" and "remaining g f = e # es"
  shows "form g (under g s f) = es @ form g s"
  using assms next_frame_ok(2) [OF assms] by (cases es) (auto simp: under_def)

lemma parses_derives:
  assumes g: "grammar_ok g"
  shows "parses g d s w \<Longrightarrow> stack_ok g s \<Longrightarrow> derives g (form g s) w"
proof (induction rule: parses.induct)
  case parses_empty
  then show ?case by (simp add: derives_nil)
next
  case (parses_pop f s w)
  then show ?case by simp
next
  case (parses_byte f c es b s w)
  have f: "frame_ok g f" using parses_byte.prems by simp
  note ok = next_frame_ok [OF g f parses_byte.hyps(1)]
  show ?case using parses_byte ok by (auto intro: derives_byte)
next
  case (parses_call f r es s k w)
  have f: "frame_ok g f" and s: "stack_ok g s" using parses_call.prems by simp_all
  have r: "r < length (rules g)" using remaining_rule_less g f parses_call.hyps(1) by blast
  note first = first_frame_ok [OF g r parses_call.hyps(3)]
  have "derives g (rules g ! r ! k @ es @ form g s) w"
    using parses_call.IH under_ok [OF g s f parses_call.hyps(1)] first
      form_under [OF g f parses_call.hyps(1)] by simp
  then show ?case
    using parses_call.hyps(1,3) r by (auto intro!: derives_rule nth_mem)
qed

lemma parses_mono: "parses g d s w \<Longrightarrow> d \<le> d' \<Longrightarrow> parses g d' s w"
  by (induction rule: parses.induct) (auto intro: parses.intros)

lemma parses_pops: "form g t = [] \<Longrightarrow> parses g d s w \<Longrightarrow> parses g d (s @ t) w"
proof (induction t rule: rev_induct)
  case Nil
  then show ?case by simp
next
  case (snoc f t)
  then have "parses g d (s @ t) w" and "remaining g f = []" by simp_all
  then have "parses g d ((s @ t) @ [f]) w" by (intro parses_pop)
  then show ?case by simp
qed

lemma form_Cons:
  "form g s = e # es \<Longrightarrow> \<exists>t f u rest. s = t @ [f] @ u \<and> form g u = [] \<and> remaining g f = e # rest \<and>
     es = rest @ form g t"
proof (induction s rule: rev_induct)
  case Nil
  then show ?case by simp
next
  case (snoc f s)
  show ?case
  proof (cases "remaining g f")
    case Nil
    with snoc obtain t h u rest where "s = t @ [h] @ u" "form g u = []" "remaining g h = e # rest"
      "es = rest @ form g t" by auto
    with Nil show ?thesis
      by (intro exI [of _ t] exI [of _ h] exI [of _ "u @ [f]"] exI [of _ rest]) simp
  next
    case (Cons e' rest)
    with snoc.prems show ?thesis
      by (intro exI [of _ s] exI [of _ f] exI [of _ "[]"] exI [of _ rest]) simp
  qed
qed

lemma derives_parses:
  assumes g: "grammar_ok g"
  shows "derives g es w \<Longrightarrow> stack_ok g s \<Longrightarrow> form g s = es \<Longrightarrow> \<exists>d. parses g d s w"
proof (induction arbitrary: s rule: derives.induct)
  case derives_nil
  have "parses g 0 ([] @ s) []" by (rule parses_pops [OF derives_nil.prems(2)]) simp
  then show ?case by auto
next
  case (derives_byte c b es w)
  from form_Cons [OF derives_byte.prems(2)] obtain t f u rest
    where s: "s = t @ [f] @ u" "form g u = []" "remaining g f = Bytes c # rest" "es = rest @ form g t"
    by blast
  have f: "frame_ok g f" using derives_byte.prems(1) s by simp
  note ok = next_frame_ok [OF g f s(3)]
  obtain d where "parses g d (t @ [next_frame f]) w"
    using derives_byte.IH [of "t @ [next_frame f]"] ok s derives_byte.prems(1) by auto
  then have "parses g d (t @ [f]) (b # w)" using s derives_byte.hyps by (auto intro: parses_byte)
  from parses_pops [OF s(2) this] s(1) show ?case by auto
next
  case (derives_rule r a es w)
  from form_Cons [OF derives_rule.prems(2)] obtain t f u rest
    where s: "s = t @ [f] @ u" "form g u = []" "remaining g f = Rule r # rest" "es = rest @ form g t"
    by blast
  have f: "frame_ok g f" and t: "stack_ok g t" using derives_rule.prems(1) s by simp_all
  from derives_rule.hyps(2) obtain k where k: "k < length (rules g ! r)" "a = rules g ! r ! k"
    by (auto simp: in_set_conv_nth)
  note first = first_frame_ok [OF g derives_rule.hyps(1) k(1)]
  obtain d where d: "parses g d (under g t f @ [first_frame r k]) w"
    using derives_rule.IH [of "under g t f @ [first_frame r k]"] under_ok [OF g t f s(3)] first
      form_under [OF g f s(3)] s(4) k(2) by auto
  let ?d = "max d (Suc (length (under g t f)))"
  have "parses g ?d (under g t f @ [first_frame r k]) w" using d by (rule parses_mono) simp
  moreover have "length (under g t f) < ?d" by simp
  ultimately have "parses g ?d (t @ [f]) w" using parses_call [OF s(3) _ k(1)] by blast
  from parses_pops [OF s(2) this] s(1) show ?case by auto
qed

lemma derives_startE:
  assumes "derives g (Rule r # es) w"
  obtains a where "r < length (rules g)" "a \<in> set (rules g ! r)" "derives g (a @ es) w"
  using assms by (cases rule: derives.cases) auto

text \<open>A sentence is a word that the start rule parses with some number of frames.\<close>

lemma language_parses:
  assumes g: "grammar_ok g"
  shows "w \<in> language g \<longleftrightarrow> (\<exists>d. start_parses g d w)"
proof -
  have r: "start g < length (rules g)" using g by (simp add: grammar_ok_def)
  show ?thesis
  proof
    assume "w \<in> language g"
    then obtain a where a: "a \<in> set (rules g ! start g)" "derives g a w"
      by (auto simp: language_def elim: derives_startE)
    then obtain k where k: "k < length (rules g ! start g)" "a = rules g ! start g ! k"
      by (auto simp: in_set_conv_nth)
    then have "\<exists>d. parses g d [first_frame (start g) k] w"
      using a first_frame_ok [OF g r k(1)] by (intro derives_parses [OF g a(2)]) simp_all
    with k show "\<exists>d. start_parses g d w" by (auto simp: start_parses_def)
  next
    assume "\<exists>d. start_parses g d w"
    then obtain d k where k: "k < length (rules g ! start g)" "parses g d [first_frame (start g) k] w"
      by (auto simp: start_parses_def)
    from parses_derives [OF g k(2)] first_frame_ok [OF g r k(1)]
    have "derives g (rules g ! start g ! k @ []) w" by simp
    with k(1) r show "w \<in> language g" by (auto simp: language_def intro!: derives_rule)
  qed
qed

end
