(* ===== verification/Token_Index.thy ===== *)
theory Token_Index
  imports Grammar "HOL-Library.List_Lexorder" "HOL-Library.Multiset"
begin

text \<open>
  The token trie of \<open>grammar.rs\<close>: the bytes of every token in one vector, and the trie as two flattened
  vectors of edges and of tokens per node. The theorems: the flattened vectors give back the rows they
  were built from, \<open>token_bytes\<close> gives back the bytes of a token, and every path of the trie from the
  root to a node of a token spells that token.
\<close>

record token_index =
  vocabulary_size :: usize
  offsets :: "u32 list"
  index_bytes :: "octet list"
  edge_starts :: "u32 list"
  edges :: "(octet \<times> u32) list"
  token_starts :: "u32 list"
  tokens :: "u32 list"

subsection \<open>Building the index\<close>

text \<open>The ids of the tokens that decode to something, and their order: the unstable sort may order
  equal tokens otherwise, and the theorems hold for every permutation.\<close>

definition usable_ids :: "octet list list \<Rightarrow> u32 list" where
  "usable_ids token_bytes =
     map to_u32 (filter (\<lambda>id. token_bytes ! id \<noteq> []) [0..<length token_bytes])"

definition sorted_ids :: "octet list list \<Rightarrow> u32 list" where
  "sorted_ids token_bytes = sort_key (\<lambda>id. token_bytes ! id) (usable_ids token_bytes)"

type_synonym trie = "(octet \<times> u32) list list \<times> u32 list list"

text \<open>The walk of one token: the last child is followed if its byte agrees, otherwise a child is added.\<close>

fun walk :: "octet list \<Rightarrow> nat \<Rightarrow> trie \<Rightarrow> nat \<times> trie" where
  "walk [] node t = (node, t)"
| "walk (b # bs) node (children, terminals) =
     (if children ! node \<noteq> [] \<and> fst (last (children ! node)) = b
      then walk bs (snd (last (children ! node))) (children, terminals)
      else
        let child = length children in
        walk bs child
          ((children[node := children ! node @ [(b, to_u32 child)]]) @ [[]], terminals @ [[]]))"

definition insert_token :: "octet list list \<Rightarrow> u32 \<Rightarrow> trie \<Rightarrow> trie" where
  "insert_token token_bytes token t =
     (case walk (token_bytes ! token) 0 t of
        (node, children, terminals) \<Rightarrow> (children, terminals[node := terminals ! node @ [token]]))"

definition build_trie :: "octet list list \<Rightarrow> u32 list \<Rightarrow> trie" where
  "build_trie token_bytes order = fold (insert_token token_bytes) order ([[]], [[]])"

text \<open>Rows are concatenated; the start of every row is recorded before it, and the end after the last.\<close>

definition flatten :: "'a list list \<Rightarrow> u32 list \<times> 'a list" where
  "flatten rows =
     (case fold (\<lambda>row (starts, items). (starts @ [to_u32 (length items)], items @ row)) rows ([], [])
      of (starts, items) \<Rightarrow> (starts @ [to_u32 (length items)], items))"

definition token_offsets :: "octet list list \<Rightarrow> u32 list \<times> octet list" where
  "token_offsets token_bytes =
     fold (\<lambda>token (offsets, bytes). (offsets @ [to_u32 (length (bytes @ token))], bytes @ token))
       token_bytes ([0], [])"

definition index_from :: "octet list list \<Rightarrow> u32 list \<Rightarrow> token_index" where
  "index_from token_bytes order =
     (let (offsets, bytes) = token_offsets token_bytes;
          (children, terminals) = build_trie token_bytes order;
          (edge_starts, edges) = flatten children;
          (token_starts, tokens) = flatten terminals
      in \<lparr>vocabulary_size = length token_bytes, offsets = offsets, index_bytes = bytes,
          edge_starts = edge_starts, edges = edges, token_starts = token_starts, tokens = tokens\<rparr>)"

definition token_index_new :: "octet list list \<Rightarrow> token_index" where
  "token_index_new token_bytes = index_from token_bytes (sorted_ids token_bytes)"

definition token_bytes :: "token_index \<Rightarrow> u32 \<Rightarrow> octet list option" where
  "token_bytes index token =
     (if length (offsets index) \<le> token + 1 then Some []
      else do {
        lo \<leftarrow> get (offsets index) token;
        hi \<leftarrow> get (offsets index) (token + 1);
        get_range (index_bytes index) lo hi })"

subsection \<open>Flattened rows\<close>

definition row_start :: "'a list list \<Rightarrow> nat \<Rightarrow> nat" where
  "row_start rows n = length (concat (take n rows))"

lemma row_start_Suc: "n < length rows \<Longrightarrow> row_start rows (Suc n) = row_start rows n + length (rows ! n)"
  by (simp add: row_start_def take_Suc_conv_app_nth)

lemma row_start_le: "row_start rows n \<le> length (concat rows)"
proof -
  have "concat rows = concat (take n rows) @ concat (drop n rows)"
    by (metis append_take_drop_id concat_append)
  then show ?thesis by (simp add: row_start_def)
qed

lemma row_slice:
  "n < length rows \<Longrightarrow> get_range (concat rows) (row_start rows n) (row_start rows (Suc n)) = Some (rows ! n)"
proof -
  assume n: "n < length rows"
  have "concat rows = concat (take n rows) @ rows ! n @ concat (drop (Suc n) rows)"
    by (metis concat.simps(2) concat_append id_take_nth_drop n)
  then have "drop (row_start rows n) (concat rows) = rows ! n @ concat (drop (Suc n) rows)"
    by (simp add: row_start_def)
  then show ?thesis
    using row_start_le [of rows "Suc n"] row_start_Suc [OF n] by (simp add: get_range_def)
qed

lemma flatten_eq:
  assumes "length (concat rows) \<le> u32_max"
  shows "flatten rows = (map (row_start rows) [0..<Suc (length rows)], concat rows)"
proof -
  have "fold (\<lambda>row (starts, items). (starts @ [to_u32 (length items)], items @ row)) (take n rows) ([], []) =
    (map (row_start rows) [0..<n], concat (take n rows))" if "n \<le> length rows" for n
    using that
  proof (induction n)
    case 0
    then show ?case by simp
  next
    case (Suc n)
    have "row_start rows n \<le> u32_max" using row_start_le [of rows n] assms by simp
    with Suc show ?case by (simp add: take_Suc_conv_app_nth row_start_def)
  qed
  from this [of "length rows"] assms show ?thesis
    by (simp add: flatten_def row_start_def)
qed

lemma token_offsets_eq:
  assumes "length (concat tb) \<le> u32_max"
  shows "token_offsets tb = (map (row_start tb) [0..<Suc (length tb)], concat tb)"
proof -
  have "fold (\<lambda>token (offsets, bytes). (offsets @ [to_u32 (length (bytes @ token))], bytes @ token))
      (take n tb) ([0], []) = (map (row_start tb) [0..<Suc n], concat (take n tb))" if "n \<le> length tb" for n
    using that
  proof (induction n)
    case 0
    then show ?case by (simp add: row_start_def)
  next
    case (Suc n)
    then have n: "n < length tb" by simp
    have "row_start tb (Suc n) \<le> u32_max" using row_start_le [of tb "Suc n"] assms by simp
    moreover have "length (concat (take n tb) @ tb ! n) = row_start tb (Suc n)"
      using n by (simp add: take_Suc_conv_app_nth row_start_def)
    ultimately have "to_u32 (length (concat (take n tb) @ tb ! n)) = row_start tb (Suc n)" by simp
    with Suc n show ?case by (simp add: take_Suc_conv_app_nth)
  qed
  from this [of "length tb"] show ?thesis by (simp add: token_offsets_def)
qed

text \<open>The bytes of a token are read back; any other id has none.\<close>

lemma token_bytes_read:
  assumes "length (concat tb) \<le> u32_max"
  shows "token_bytes (index_from tb order) token = Some (if token < length tb then tb ! token else [])"
proof -
  have "offsets (index_from tb order) = map (row_start tb) [0..<Suc (length tb)]"
    and "index_bytes (index_from tb order) = concat tb"
    by (simp_all add: index_from_def token_offsets_eq [OF assms] split: prod.splits)
  then show ?thesis
    by (auto simp: token_bytes_def row_slice nth_append simp del: upt_Suc)
qed

subsection \<open>The trie\<close>

text \<open>
  The invariant, with the label of every node (the bytes on the way to it) as ghost state: a child is
  numbered after its parent, has one parent and extends its label, and a token stands at the node of its
  bytes.
\<close>

definition trie_ok :: "octet list list \<Rightarrow> octet list list \<Rightarrow> trie \<Rightarrow> bool" where
  "trie_ok tb lab t = (case t of (children, terminals) \<Rightarrow>
     length children = length lab \<and> length terminals = length lab \<and> lab \<noteq> [] \<and> lab ! 0 = [] \<and>
     (\<forall>n<length lab. \<forall>(b, c)\<in>set (children ! n). n < c \<and> c < length lab \<and> lab ! c = lab ! n @ [b]) \<and>
     (\<forall>c<length lab. 0 < c \<longrightarrow> (\<exists>n<c. \<exists>b. (b, c) \<in> set (children ! n))) \<and>
     distinct (map snd (concat children)) \<and>
     (\<forall>n<length lab. \<forall>id\<in>set (terminals ! n). tb ! id = lab ! n))"

lemma trie_ok_init: "trie_ok tb [[]] ([[]], [[]])"
  by (simp add: trie_ok_def)

lemma trie_child_less:
  "trie_ok tb lab (children, terminals) \<Longrightarrow> n < length lab \<Longrightarrow> (b, c) \<in> set (children ! n) \<Longrightarrow>
     n < c \<and> c < length lab \<and> lab ! c = lab ! n @ [b]"
  by (fastforce simp: trie_ok_def)

lemma trie_token:
  "trie_ok tb lab (children, terminals) \<Longrightarrow> n < length lab \<Longrightarrow> i \<in> set (terminals ! n) \<Longrightarrow> tb ! i = lab ! n"
  unfolding trie_ok_def by simp

lemma concat_update_snoc:
  "n < length xs \<Longrightarrow> mset (concat (xs[n := xs ! n @ [x]])) = add_mset x (mset (concat xs))"
proof (induction xs arbitrary: n)
  case Nil
  then show ?case by simp
next
  case (Cons y xs)
  then show ?case by (cases n) simp_all
qed

lemma trie_add_child:
  assumes ok: "trie_ok tb lab (children, terminals)" and n: "n < length lab"
  shows "trie_ok tb (lab @ [lab ! n @ [b]])
    ((children[n := children ! n @ [(b, length lab)]]) @ [[]], terminals @ [[]])"
proof -
  let ?ch = "children[n := children ! n @ [(b, length lab)]]"
  have len: "length children = length lab" "length terminals = length lab" "lab \<noteq> []" "lab ! 0 = []"
    using ok by (auto simp: trie_ok_def)
  have child: "m < c \<and> c < length lab \<and> lab ! c = lab ! m @ [a]"
    if "m < length lab" "(a, c) \<in> set (children ! m)" for m a c
    using trie_child_less [OF ok that] .
  have in_ch: "(a, c) \<in> set (?ch ! m) \<longleftrightarrow> (a, c) \<in> set (children ! m) \<or> m = n \<and> a = b \<and> c = length lab"
    if "m < length lab" for m a c
    using that n len by (auto simp: nth_list_update)
  have "distinct (map snd (concat ?ch))"
  proof -
    have "mset (map snd (concat ?ch)) = add_mset (length lab) (mset (map snd (concat children)))"
      using concat_update_snoc [of n children "(b, length lab)"] n len
      by (metis image_mset_add_mset mset_map snd_conv)
    moreover have "length lab \<notin> set (map snd (concat children))"
    proof
      assume "length lab \<in> set (map snd (concat children))"
      then obtain a row where "row \<in> set children" "(a, length lab) \<in> set row" by auto
      then obtain m where "m < length lab" "(a, length lab) \<in> set (children ! m)"
        using len by (auto simp: in_set_conv_nth [of row])
      from child [OF this] show False by simp
    qed
    moreover have "distinct (map snd (concat children))" using ok by (simp add: trie_ok_def)
    ultimately show ?thesis
      by (metis distinct.simps(2) mset.simps(2) mset_eq_imp_distinct_iff)
  qed
  moreover have "\<forall>m<Suc (length lab). \<forall>(a, c)\<in>set ((?ch @ [[]]) ! m).
      m < c \<and> c < Suc (length lab) \<and> (lab @ [lab ! n @ [b]]) ! c = (lab @ [lab ! n @ [b]]) ! m @ [a]"
  proof (intro allI impI ballI)
    fix m x assume m: "m < Suc (length lab)" and x: "x \<in> set ((?ch @ [[]]) ! m)"
    obtain a c where x_eq: "x = (a, c)" by (cases x)
    have m': "m < length lab" using m x len by (cases "m = length lab") (simp_all add: nth_append)
    then have "(a, c) \<in> set (?ch ! m)" using x x_eq len by (simp add: nth_append)
    with in_ch [OF m'] child [OF m'] m' n
    have "m < c \<and> c < Suc (length lab) \<and> (lab @ [lab ! n @ [b]]) ! c = lab ! m @ [a]"
      by (auto simp: nth_append less_SucI)
    with x_eq m' show "case x of (a, c) \<Rightarrow> m < c \<and> c < Suc (length lab) \<and>
        (lab @ [lab ! n @ [b]]) ! c = (lab @ [lab ! n @ [b]]) ! m @ [a]"
      by (simp add: nth_append)
  qed
  moreover have "\<forall>c<Suc (length lab). 0 < c \<longrightarrow> (\<exists>m<c. \<exists>a. (a, c) \<in> set ((?ch @ [[]]) ! m))"
  proof (intro allI impI)
    fix c assume c: "c < Suc (length lab)" "0 < c"
    show "\<exists>m<c. \<exists>a. (a, c) \<in> set ((?ch @ [[]]) ! m)"
    proof (cases "c = length lab")
      case True
      with n len in_ch [OF n] show ?thesis by (auto simp: nth_append intro!: exI [of _ n])
    next
      case False
      with c have "c < length lab" by simp
      with ok c obtain m a where "m < c" "(a, c) \<in> set (children ! m)" by (auto simp: trie_ok_def)
      with in_ch [of m] \<open>c < length lab\<close> len show ?thesis
        by (auto simp: nth_append intro!: exI [of _ m])
    qed
  qed
  moreover have "\<forall>m<Suc (length lab). \<forall>id\<in>set ((terminals @ [[]]) ! m). tb ! id = (lab @ [lab ! n @ [b]]) ! m"
    using ok len by (auto simp: trie_ok_def nth_append less_Suc_eq)
  ultimately show ?thesis using len by (simp add: trie_ok_def nth_append)
qed

lemma walk_ok:
  assumes "trie_ok tb lab (children, terminals)" and "n < length lab"
    and "length lab + length w \<le> u32_max"
  shows "\<exists>m children' ext k. walk w n (children, terminals) = (m, children', terminals @ replicate k []) \<and>
    trie_ok tb (lab @ ext) (children', terminals @ replicate k []) \<and> m < length (lab @ ext) \<and>
    (lab @ ext) ! m = lab ! n @ w \<and> length ext \<le> length w"
  using assms
proof (induction w arbitrary: n lab children terminals)
  case Nil
  then show ?case
    by (intro exI [of _ n] exI [of _ children] exI [of _ "[]"] exI [of _ "0 :: nat"]) simp
next
  case (Cons b w)
  have len: "length children = length lab" using Cons.prems(1) by (simp add: trie_ok_def)
  show ?case
  proof (cases "children ! n \<noteq> [] \<and> fst (last (children ! n)) = b")
    case True
    then obtain c where c: "last (children ! n) = (b, c)" "(b, c) \<in> set (children ! n)"
      by (metis last_in_set prod.collapse)
    note less = trie_child_less [OF Cons.prems(1,2) c(2)]
    from Cons.IH [OF Cons.prems(1), of c] less Cons.prems(3) obtain m children' ext k where
      "walk w c (children, terminals) = (m, children', terminals @ replicate k [])"
      "trie_ok tb (lab @ ext) (children', terminals @ replicate k [])" "m < length (lab @ ext)"
      "(lab @ ext) ! m = lab ! c @ w" "length ext \<le> length w" by auto
    then show ?thesis using True c less
      by (intro exI [of _ m] exI [of _ children'] exI [of _ ext] exI [of _ k]) simp
  next
    case False
    let ?lab = "lab @ [lab ! n @ [b]]"
    let ?ch = "(children[n := children ! n @ [(b, length lab)]]) @ [[]]"
    have "trie_ok tb ?lab (?ch, terminals @ [[]])" using trie_add_child Cons.prems(1,2) by blast
    from Cons.IH [OF this, of "length lab"] Cons.prems(3) obtain m children' ext k where
      "walk w (length lab) (?ch, terminals @ [[]]) = (m, children', (terminals @ [[]]) @ replicate k [])"
      "trie_ok tb (?lab @ ext) (children', (terminals @ [[]]) @ replicate k [])" "m < length (?lab @ ext)"
      "(?lab @ ext) ! m = ?lab ! length lab @ w" "length ext \<le> length w" by auto
    moreover from this(1) have "walk (b # w) n (children, terminals) =
        (m, children', terminals @ replicate (Suc k) [])"
      using False len Cons.prems(3) by (auto simp: Let_def)
    ultimately show ?thesis
      by (intro exI [of _ m], intro exI [of _ children'] exI [of _ "[lab ! n @ [b]] @ ext"], intro exI [of _ "Suc k"])
        simp
  qed
qed

lemma insert_token_ok:
  assumes ok: "trie_ok tb lab (children, terminals)"
    and room: "length lab + length (tb ! token) \<le> u32_max"
  shows "\<exists>children' terminals' lab'. insert_token tb token (children, terminals) = (children', terminals') \<and>
    trie_ok tb lab' (children', terminals') \<and> length lab' \<le> length lab + length (tb ! token) \<and>
    mset (concat terminals') = add_mset token (mset (concat terminals))"
proof -
  have "0 < length lab" and "lab ! 0 = []" using ok by (auto simp: trie_ok_def)
  with walk_ok [OF ok this(1) room] obtain m children' ext k where
    walk: "walk (tb ! token) 0 (children, terminals) = (m, children', terminals @ replicate k [])"
    and ok': "trie_ok tb (lab @ ext) (children', terminals @ replicate k [])"
    and m: "m < length (lab @ ext)" "(lab @ ext) ! m = tb ! token" "length ext \<le> length (tb ! token)" by auto
  let ?te = "terminals @ replicate k []"
  have len: "length ?te = length (lab @ ext)" using ok' by (simp add: trie_ok_def)
  have "trie_ok tb (lab @ ext) (children', ?te[m := ?te ! m @ [token]])"
    using ok' m len by (auto simp: trie_ok_def nth_list_update)
  moreover have "mset (concat (?te[m := ?te ! m @ [token]])) = add_mset token (mset (concat terminals))"
    using concat_update_snoc [of m ?te token] m(1) len by simp
  ultimately show ?thesis using walk m(3)
    by (intro exI [of _ children'] exI [of _ "?te[m := ?te ! m @ [token]]"] exI [of _ "lab @ ext"])
      (simp add: insert_token_def)
qed

definition total_bytes :: "octet list list \<Rightarrow> u32 list \<Rightarrow> nat" where
  "total_bytes tb ids = sum_list (map (\<lambda>id. length (tb ! id)) ids)"

lemma build_trie_ok:
  assumes "total_bytes tb order < u32_max"
  shows "\<exists>children terminals lab. build_trie tb order = (children, terminals) \<and>
    trie_ok tb lab (children, terminals) \<and> length lab \<le> 1 + total_bytes tb order \<and>
    mset (concat terminals) = mset order"
  using assms
proof (induction order rule: rev_induct)
  case Nil
  then show ?case
    by (intro exI [of _ "[[]]"] exI [of _ "[[]]"]) (auto simp: build_trie_def trie_ok_init total_bytes_def)
next
  case (snoc token order)
  from snoc obtain children terminals lab where IH: "build_trie tb order = (children, terminals)"
    "trie_ok tb lab (children, terminals)" "length lab \<le> 1 + total_bytes tb order"
    "mset (concat terminals) = mset order" by (auto simp: total_bytes_def)
  have "length lab + length (tb ! token) \<le> u32_max" using snoc.prems IH(3) by (simp add: total_bytes_def)
  from insert_token_ok [OF IH(2) this] IH(3,4) obtain children' terminals' lab'
    where "insert_token tb token (children, terminals) = (children', terminals')"
      "trie_ok tb lab' (children', terminals')"
      "length lab' \<le> length lab + length (tb ! token)"
      "mset (concat terminals') = add_mset token (mset order)" by auto
  with IH(1,3) show ?case
    by (intro exI [of _ children'] exI [of _ terminals'] exI [of _ lab'])
      (simp add: build_trie_def total_bytes_def)
qed

subsection \<open>Paths\<close>

inductive path :: "(octet \<times> u32) list list \<Rightarrow> nat \<Rightarrow> octet list \<Rightarrow> nat \<Rightarrow> bool" for children where
  path_here: "path children n [] n"
| path_child: "(b, c) \<in> set (children ! n) \<Longrightarrow> path children c w m \<Longrightarrow> path children n (b # w) m"

inductive_simps path_Nil: "path children n [] m"
inductive_simps path_Cons: "path children n (b # w) m"

lemma path_snoc: "path children n w m \<Longrightarrow> (b, c) \<in> set (children ! m) \<Longrightarrow> path children n (w @ [b]) c"
  by (induction rule: path.induct) (auto intro: path.intros)

lemma path_label:
  assumes "trie_ok tb lab (children, terminals)"
  shows "path children n w m \<Longrightarrow> n < length lab \<Longrightarrow> m < length lab \<and> lab ! m = lab ! n @ w"
proof (induction rule: path.induct)
  case (path_here n)
  then show ?case by simp
next
  case (path_child b c n w m)
  with trie_child_less [OF assms path_child.prems path_child.hyps(1)] show ?case by simp
qed

lemma path_from_root:
  assumes ok: "trie_ok tb lab (children, terminals)"
  shows "m < length lab \<Longrightarrow> path children 0 (lab ! m) m"
proof (induction m rule: less_induct)
  case (less m)
  show ?case
  proof (cases "m = 0")
    case True
    then show ?thesis using ok by (simp add: trie_ok_def path_here)
  next
    case False
    have "\<forall>c<length lab. 0 < c \<longrightarrow> (\<exists>n<c. \<exists>b. (b, c) \<in> set (children ! n))"
      using ok by (simp add: trie_ok_def)
    with False less.prems obtain n b where n: "n < m" "(b, m) \<in> set (children ! n)" by blast
    have "n < length lab" using n(1) less.prems by simp
    from path_snoc [OF less.IH [OF n(1) this] n(2)] trie_child_less [OF ok this n(2)]
    show ?thesis by simp
  qed
qed

subsection \<open>The nodes below a node\<close>

definition edge :: "(octet \<times> u32) list list \<Rightarrow> (nat \<times> nat) set" where
  "edge children = {(n, c). n < length children \<and> c \<in> snd ` set (children ! n)}"

definition nodes_below :: "(octet \<times> u32) list list \<Rightarrow> nat \<Rightarrow> nat set" where
  "nodes_below children n = {m. (n, m) \<in> (edge children)\<^sup>+}"

lemma distinct_concat_nth:
  "distinct (concat xss) \<Longrightarrow> i < length xss \<Longrightarrow> j < length xss \<Longrightarrow> x \<in> set (xss ! i) \<Longrightarrow>
     x \<in> set (xss ! j) \<Longrightarrow> i = j"
proof (induction xss arbitrary: i j)
  case Nil
  then show ?case by simp
next
  case (Cons xs xss)
  then show ?case
    by (cases i; cases j) (fastforce dest: nth_mem)+
qed

lemma edge_single_parent:
  assumes "trie_ok tb lab (children, terminals)"
  shows "single_valued ((edge children)\<inverse>)"
proof (rule single_valuedI)
  fix c n n' assume "(c, n) \<in> (edge children)\<inverse>" "(c, n') \<in> (edge children)\<inverse>"
  moreover have "distinct (concat (map (map snd) children))"
    using assms by (simp add: trie_ok_def map_concat)
  ultimately show "n = n'"
    using distinct_concat_nth [of "map (map snd) children" n n' c] by (auto simp: edge_def)
qed

lemma edge_less:
  assumes "trie_ok tb lab (children, terminals)" and "(n, c) \<in> edge children"
  shows "n < c \<and> c < length lab"
proof -
  from assms(2) obtain b where "n < length children" "(b, c) \<in> set (children ! n)"
    by (auto simp: edge_def)
  moreover have "length children = length lab" using assms(1) by (simp add: trie_ok_def)
  ultimately show ?thesis using trie_child_less [OF assms(1), of n b c] by simp
qed

lemma edges_less:
  assumes "trie_ok tb lab (children, terminals)"
  shows "(n, m) \<in> (edge children)\<^sup>+ \<Longrightarrow> n < m \<and> m < length lab"
  by (induction rule: trancl_induct) (use edge_less [OF assms] in fastforce)+

lemma siblings_disjoint:
  assumes ok: "trie_ok tb lab (children, terminals)"
    and c: "(n, c) \<in> edge children" and c': "(n, c') \<in> edge children"
    and m: "(c, m) \<in> (edge children)\<^sup>*" and m': "(c', m) \<in> (edge children)\<^sup>*"
  shows "c = c'"
proof -
  have cycle: False if "(x, y) \<in> (edge children)\<^sup>+" "(n, x) \<in> edge children" "(n, y) \<in> edge children" for x y
  proof -
    from that(1) obtain z where z: "(x, z) \<in> (edge children)\<^sup>*" "(z, y) \<in> edge children"
      by (meson tranclD2)
    then have "z = n" using edge_single_parent [OF ok] that(3) by (auto simp: single_valued_def)
    with z(1) that(2) have "(n, n) \<in> (edge children)\<^sup>+" by (meson rtrancl_into_trancl2)
    with edges_less [OF ok] show False by blast
  qed
  have "(m, c) \<in> ((edge children)\<inverse>)\<^sup>*" "(m, c') \<in> ((edge children)\<inverse>)\<^sup>*"
    using m m' by (simp_all add: rtrancl_converse)
  from single_valued_confluent [OF edge_single_parent [OF ok] this]
  have "(c', c) \<in> (edge children)\<^sup>* \<or> (c, c') \<in> (edge children)\<^sup>*"
    by (auto simp: rtrancl_converse)
  with cycle c c' show ?thesis by (metis rtranclD)
qed

text \<open>The subtrees of the children of a node are disjoint.\<close>

lemma card_nodes_below:
  assumes ok: "trie_ok tb lab (children, terminals)" and n: "n < length lab"
  shows "card (nodes_below children n) =
    sum_list (map (\<lambda>(b, c). 1 + card (nodes_below children c)) (children ! n))"
proof -
  let ?kids = "map snd (children ! n)"
  have n': "n < length children" using ok n by (simp add: trie_ok_def)
  have kid: "(n, c) \<in> edge children" if "c \<in> set ?kids" for c
    using that n' by (auto simp: edge_def)
  have fin: "finite (nodes_below children c)" for c
    by (rule finite_subset [of _ "{..<length lab}"]) (use edges_less [OF ok] in \<open>auto simp: nodes_below_def\<close>)
  have star: "insert c (nodes_below children c) = {m. (c, m) \<in> (edge children)\<^sup>*}" for c
    by (auto simp: nodes_below_def dest: rtranclD)
  have "nodes_below children n = (\<Union>c\<in>set ?kids. insert c (nodes_below children c))"
    unfolding star using n' by (auto simp: nodes_below_def edge_def dest!: tranclD intro: rtrancl_into_trancl2)
  also have "card \<dots> = (\<Sum>c\<in>set ?kids. card (insert c (nodes_below children c)))"
  proof (rule card_UN_disjoint)
    show "\<forall>c\<in>set ?kids. \<forall>c'\<in>set ?kids. c \<noteq> c' \<longrightarrow>
        insert c (nodes_below children c) \<inter> insert c' (nodes_below children c') = {}"
      unfolding star using siblings_disjoint [OF ok] kid by blast
  qed (use fin in auto)
  also have "\<dots> = (\<Sum>c\<in>set ?kids. 1 + card (nodes_below children c))"
  proof (rule sum.cong)
    fix c
    have "c \<notin> nodes_below children c" using edges_less [OF ok, of c c] by (auto simp: nodes_below_def)
    then show "card (insert c (nodes_below children c)) = 1 + card (nodes_below children c)"
      using fin by simp
  qed simp
  also have "\<dots> = sum_list (map (\<lambda>c. 1 + card (nodes_below children c)) ?kids)"
  proof (rule sum_list_distinct_conv_sum_set [symmetric])
    have "distinct (concat (map (map snd) children))" using ok by (simp add: trie_ok_def map_concat)
    then show "distinct ?kids" using n' by (auto simp: distinct_concat_iff)
  qed
  finally show ?thesis by (simp add: comp_def case_prod_unfold)
qed

lemma card_below_root:
  assumes "trie_ok tb lab (children, terminals)"
  shows "card (nodes_below children 0) < length lab"
proof -
  have "nodes_below children 0 \<subseteq> {0<..<length lab}"
    using edges_less [OF assms, of 0] unfolding nodes_below_def by auto
  then have "card (nodes_below children 0) \<le> length lab - 1"
    using card_mono [of "{0<..<length lab}" "nodes_below children 0"] by simp
  moreover have "lab \<noteq> []" using assms by (simp add: trie_ok_def)
  ultimately show ?thesis by (cases lab) auto
qed

subsection \<open>The index of a vocabulary\<close>

definition index_ok :: "octet list list \<Rightarrow> token_index \<Rightarrow> trie \<Rightarrow> octet list list \<Rightarrow> bool" where
  "index_ok tb index t lab = (case t of (children, terminals) \<Rightarrow>
     trie_ok tb lab t \<and> vocabulary_size index = length tb \<and>
     edge_starts index = map (row_start children) [0..<Suc (length lab)] \<and> edges index = concat children \<and>
     token_starts index = map (row_start terminals) [0..<Suc (length lab)] \<and> tokens index = concat terminals \<and>
     set (concat terminals) = {i. i < length tb \<and> tb ! i \<noteq> []})"

lemma usable_ids_eq:
  "length tb \<le> u32_max \<Longrightarrow> usable_ids tb = filter (\<lambda>i. tb ! i \<noteq> []) [0..<length tb]"
  unfolding usable_ids_def by (rule map_idI) simp

lemma total_bytes_usable:
  assumes "length tb \<le> u32_max"
  shows "total_bytes tb (usable_ids tb) = length (concat tb)"
proof -
  have "sum_list (map f (filter (\<lambda>i. tb ! i \<noteq> []) xs)) = sum_list (map f xs)"
    if "\<forall>i\<in>set xs. tb ! i = [] \<longrightarrow> f i = 0" for f :: "nat \<Rightarrow> nat" and xs
    using that by (induction xs) auto
  from this [of "[0..<length tb]" "\<lambda>i. length (tb ! i)"]
  have "total_bytes tb (usable_ids tb) = sum_list (map (\<lambda>i. length (tb ! i)) [0..<length tb])"
    using assms by (simp add: total_bytes_def usable_ids_eq)
  also have "map (\<lambda>i. length (tb ! i)) [0..<length tb] = map length tb"
    by (intro nth_equalityI) simp_all
  finally show ?thesis by (simp add: length_concat)
qed

lemma index_from_ok:
  assumes bytes: "length (concat tb) < u32_max" and size: "length tb \<le> u32_max"
    and order: "mset order = mset (usable_ids tb)"
  shows "\<exists>t lab. index_ok tb (index_from tb order) t lab \<and> length lab \<le> 1 + length (concat tb)"
proof -
  have total: "total_bytes tb order = length (concat tb)"
    using total_bytes_usable [OF size] order unfolding total_bytes_def
    by (metis mset_map sum_mset_sum_list)
  with build_trie_ok [of tb order] bytes obtain children terminals lab
    where t: "build_trie tb order = (children, terminals)" "trie_ok tb lab (children, terminals)"
      and lab: "length lab \<le> 1 + length (concat tb)" and toks: "mset (concat terminals) = mset order" by auto
  have len: "length children = length lab" "length terminals = length lab" using t(2) by (simp_all add: trie_ok_def)
  have "set (map snd (concat children)) \<subseteq> {..<length lab}"
  proof
    fix c assume "c \<in> set (map snd (concat children))"
    then obtain b row where "row \<in> set children" "(b, c) \<in> set row" by auto
    then obtain n where "n < length lab" "(b, c) \<in> set (children ! n)"
      using len by (auto simp: in_set_conv_nth [of row])
    from trie_child_less [OF t(2) this] show "c \<in> {..<length lab}" by simp
  qed
  moreover have "distinct (map snd (concat children))" using t(2) by (simp add: trie_ok_def)
  ultimately have "length (concat children) \<le> length lab"
    using distinct_card_le [of "map snd (concat children)" "length lab"] by auto
  then have few_edges: "length (concat children) \<le> u32_max" using lab bytes by simp
  have "length (concat terminals) = length (usable_ids tb)"
    using toks order by (metis size_mset)
  also have "\<dots> \<le> length tb" by (simp add: usable_ids_def length_filter_le [THEN le_trans])
  finally have few_tokens: "length (concat terminals) \<le> u32_max" using size by simp
  have "set (concat terminals) = set (usable_ids tb)"
    using toks order by (metis set_mset_mset)
  then have "set (concat terminals) = {i. i < length tb \<and> tb ! i \<noteq> []}"
    by (simp add: usable_ids_eq [OF size])
  then have "index_ok tb (index_from tb order) (children, terminals) lab"
    using t len few_edges few_tokens
    by (simp add: index_ok_def index_from_def flatten_eq split: prod.splits)
  with lab show ?thesis by blast
qed

lemma sorted_ids_perm: "mset (sorted_ids tb) = mset (usable_ids tb)"
  by (simp add: sorted_ids_def)

lemma index_rows:
  assumes ok: "index_ok tb index (children, terminals) lab" and n: "n < length lab"
  shows "get (token_starts index) n = Some (row_start terminals n)"
    and "get (token_starts index) (n + 1) = Some (row_start terminals (Suc n))"
    and "get_range (tokens index) (row_start terminals n) (row_start terminals (Suc n)) = Some (terminals ! n)"
    and "get (edge_starts index) n = Some (row_start children n)"
    and "get (edge_starts index) (n + 1) = Some (row_start children (Suc n))"
    and "get_range (edges index) (row_start children n) (row_start children (Suc n)) = Some (children ! n)"
proof -
  have len: "length children = length lab" "length terminals = length lab"
    using ok by (simp_all add: index_ok_def trie_ok_def)
  have starts: "get (map f [0..<Suc (length lab)]) i = Some (f i)" if "i < Suc (length lab)" for f :: "nat \<Rightarrow> nat" and i
    using that by (simp del: upt_Suc)
  show "get (token_starts index) n = Some (row_start terminals n)"
    "get (token_starts index) (n + 1) = Some (row_start terminals (Suc n))"
    "get (edge_starts index) n = Some (row_start children n)"
    "get (edge_starts index) (n + 1) = Some (row_start children (Suc n))"
    using ok n starts [of n] starts [of "Suc n"] by (simp_all add: index_ok_def del: upt_Suc)
  show "get_range (tokens index) (row_start terminals n) (row_start terminals (Suc n)) = Some (terminals ! n)"
    "get_range (edges index) (row_start children n) (row_start children (Suc n)) = Some (children ! n)"
    using ok n len by (simp_all add: index_ok_def row_slice)
qed

end
