(* ===== verification/Grammar_Automaton.thy ===== *)
theory Grammar_Automaton
  imports Grammar_Language Token_Index
begin

text \<open>
  The lazily determinised automaton of \<open>grammar.rs\<close>. A state is an interned list of stacks; the
  transition table, the id map and the vocabulary masks are caches that a reset may drop. The invariant
  \<open>automaton_ok\<close> says what the caches hold, and every operation is proved to return what the stack
  machine of \<open>Grammar_Language\<close> says, whatever was cached before.
\<close>

abbreviation (input) UNKNOWN :: nat where "UNKNOWN \<equiv> 4294967295"
abbreviation (input) DEAD :: nat where "DEAD \<equiv> 4294967294"
abbreviation (input) MAX_STATES :: nat where "MAX_STATES \<equiv> 4096"

record dfa_state =
  state_stacks :: "stack list"
  accepting :: bool
  mask :: "64 word list option"

record automaton =
  grammar_of :: grammar
  states :: "dfa_state list"
  transitions :: "u32 list list"
  ids :: "stack list \<Rightarrow> u32 option"
  generation :: u64

record cursor =
  cursor_stacks :: "stack list"
  cursor_state :: u32
  cursor_generation :: u64

subsection \<open>The operations\<close>

definition automaton_new :: "grammar \<Rightarrow> automaton" where
  "automaton_new g =
     \<lparr>grammar_of = g, states = [], transitions = [], ids = (\<lambda>_. None), generation = 0\<rparr>"

definition intern :: "stack list \<Rightarrow> automaton \<Rightarrow> u32 \<times> automaton" where
  "intern stacks a =
     (case ids a stacks of
        Some i \<Rightarrow> (i, a)
      | None \<Rightarrow>
          let i = (case u32_try_from (length (states a)) of None \<Rightarrow> DEAD - 1 | Some i \<Rightarrow> i) in
          (i, a\<lparr>states := states a @ [\<lparr>state_stacks = stacks, accepting = ([] \<in> set stacks), mask = None\<rparr>],
                transitions := transitions a @ [replicate 256 UNKNOWN],
                ids := (ids a)(stacks \<mapsto> i)\<rparr>))"

definition start_cursor :: "automaton \<Rightarrow> (cursor \<times> automaton) option" where
  "start_cursor a = do {
     stacks \<leftarrow> start_stacks (grammar_of a);
     let (st, a) = intern stacks a in
     Some (\<lparr>cursor_stacks = stacks, cursor_state = st, cursor_generation = generation a\<rparr>, a) }"

definition step :: "u32 \<Rightarrow> octet \<Rightarrow> automaton \<Rightarrow> (u32 \<times> automaton) option" where
  "step st byte a = do {
     row \<leftarrow> get (transitions a) st;
     cached \<leftarrow> get row (unat byte);
     if cached \<noteq> UNKNOWN then Some (cached, a)
     else do {
       ds \<leftarrow> get (states a) st;
       next_stacks \<leftarrow> advance_stacks (grammar_of a) (state_stacks ds) byte;
       let (target, a) = (if next_stacks = [] then (DEAD, a) else intern next_stacks a) in
       do {
         row \<leftarrow> get (transitions a) st;
         Some (target, a\<lparr>transitions := (transitions a)[st := row[unat byte := target]]\<rparr>) } } }"

definition trim :: "automaton \<Rightarrow> automaton" where
  "trim a =
     (if MAX_STATES < length (states a)
      then a\<lparr>states := [], transitions := [], ids := (\<lambda>_. None),
             generation := wrapping_add (generation a) 1\<rparr>
      else a)"

definition resolve :: "cursor \<Rightarrow> automaton \<Rightarrow> cursor \<times> automaton" where
  "resolve c a =
     (if cursor_generation c \<noteq> generation a
      then let (st, a) = intern (cursor_stacks c) a in
        (c\<lparr>cursor_state := st, cursor_generation := generation a\<rparr>, a)
      else (c, a))"

definition is_accepting :: "cursor \<Rightarrow> automaton \<Rightarrow> (bool \<times> cursor \<times> automaton) option" where
  "is_accepting c a =
     (let (c, a) = resolve c a in do {
        ds \<leftarrow> get (states a) (cursor_state c);
        Some (accepting ds, c, a) })"

text \<open>The loop of \<open>advance\<close>; \<open>None\<close> inside the result is its \<open>return false\<close>.\<close>

primrec step_bytes :: "octet list \<Rightarrow> u32 \<Rightarrow> automaton \<Rightarrow> (u32 option \<times> automaton) option" where
  "step_bytes [] st a = Some (Some st, a)"
| "step_bytes (b # bs) st a = do {
     (st, a) \<leftarrow> step st b a;
     if st = DEAD then Some (None, a) else step_bytes bs st a }"

definition advance :: "cursor \<Rightarrow> octet list \<Rightarrow> automaton \<Rightarrow> (bool \<times> cursor \<times> automaton) option" where
  "advance c bytes a =
     (let (c, a) = resolve c (trim a) in do {
        (final, a) \<leftarrow> step_bytes bytes (cursor_state c) a;
        (case final of
           None \<Rightarrow> Some (False, c, a)
         | Some st \<Rightarrow> do {
             ds \<leftarrow> get (states a) st;
             Some (True, c\<lparr>cursor_state := st, cursor_stacks := state_stacks ds\<rparr>, a) }) })"

subsection \<open>Vocabulary masks\<close>

definition set_token :: "u32 \<Rightarrow> 64 word list \<Rightarrow> 64 word list option" where
  "set_token token m = do {
     w \<leftarrow> get m (token div 64);
     Some (m[token div 64 := w OR push_bit (token mod 64) 1]) }"

text \<open>The work list of \<open>compute_mask\<close>, top first.\<close>

partial_function (option) mask_loop ::
  "token_index \<Rightarrow> (nat \<times> u32) list \<Rightarrow> 64 word list \<Rightarrow> automaton \<Rightarrow>
     (64 word list \<times> automaton) option" where
  "mask_loop index pending m a =
     (case pending of
        [] \<Rightarrow> Some (m, a)
      | (node, st) # pending \<Rightarrow> do {
          lo \<leftarrow> get (token_starts index) node;
          hi \<leftarrow> get (token_starts index) (node + 1);
          ended \<leftarrow> get_range (tokens index) lo hi;
          m \<leftarrow> foldO set_token ended m;
          lo \<leftarrow> get (edge_starts index) node;
          hi \<leftarrow> get (edge_starts index) (node + 1);
          (pending, a) \<leftarrow> foldO (\<lambda>e (pending, a). do {
              (byte, child) \<leftarrow> get (edges index) e;
              (target, a) \<leftarrow> step st byte a;
              Some (if target \<noteq> DEAD then (child, target) # pending else pending, a) })
            [lo..<hi] (pending, a);
          mask_loop index pending m a })"

definition compute_mask :: "u32 \<Rightarrow> token_index \<Rightarrow> automaton \<Rightarrow> (64 word list \<times> automaton) option" where
  "compute_mask st index a =
     mask_loop index [(0, st)] (replicate (div_ceil (vocabulary_size index) 64) 0) a"

text \<open>The mask of a state, computed on first use.\<close>

definition cached_mask :: "u32 \<Rightarrow> token_index \<Rightarrow> automaton \<Rightarrow> (64 word list \<times> automaton) option" where
  "cached_mask st index a = do {
     ds \<leftarrow> get (states a) st;
     a \<leftarrow> (case mask ds of
         Some _ \<Rightarrow> Some a
       | None \<Rightarrow> do {
           (m, a) \<leftarrow> compute_mask st index a;
           ds \<leftarrow> get (states a) st;
           Some (a\<lparr>states := (states a)[st := ds\<lparr>mask := Some m\<rparr>]\<rparr>) });
     ds \<leftarrow> get (states a) st;
     Some (case mask ds of None \<Rightarrow> [] | Some m \<Rightarrow> m, a) }"

definition mask_bit :: "64 word list \<Rightarrow> nat \<Rightarrow> bool option" where
  "mask_bit m i = do {
     w \<leftarrow> get m (i div 64);
     Some (w AND push_bit (i mod 64) 1 \<noteq> 0) }"

definition apply_mask ::
  "cursor \<Rightarrow> token_index \<Rightarrow> bool list \<Rightarrow> automaton \<Rightarrow>
     (bool \<times> bool list \<times> cursor \<times> automaton) option" where
  "apply_mask c index allowed a =
     (let (c, a) = resolve c (trim a) in do {
        (m, a) \<leftarrow> cached_mask (cursor_state c) index a;
        if length allowed < vocabulary_size index then None
        else do {
          (any, allowed) \<leftarrow> foldO (\<lambda>i (any, allowed). do {
              entry \<leftarrow> (if allowed ! i then mask_bit m i else Some False);
              Some (any \<or> entry, allowed[i := entry]) })
            [0..<vocabulary_size index] (False, allowed);
          Some (any, allowed, c, a) } })"

definition allows ::
  "cursor \<Rightarrow> token_index \<Rightarrow> u32 \<Rightarrow> automaton \<Rightarrow> (bool \<times> cursor \<times> automaton) option" where
  "allows c index token a =
     (let (c, a) = resolve c (trim a) in do {
        (m, a) \<leftarrow> cached_mask (cursor_state c) index a;
        Some (case get m (token div 64) of
                None \<Rightarrow> False
              | Some w \<Rightarrow> w AND push_bit (token mod 64) 1 \<noteq> 0, c, a) })"

subsection \<open>The invariant\<close>

text \<open>The mask of the state with the given stacks: the tokens after which some stack is left.\<close>

definition fits :: "octet list list \<Rightarrow> grammar \<Rightarrow> stack list \<Rightarrow> nat \<Rightarrow> bool" where
  "fits tb g S i = (i < length tb \<and> tb ! i \<noteq> [] \<and> run g S (tb ! i) \<noteq> [])"

definition mask_exact :: "octet list list \<Rightarrow> grammar \<Rightarrow> stack list \<Rightarrow> 64 word list \<Rightarrow> bool" where
  "mask_exact tb g S m = (length m = div_ceil (length tb) 64 \<and>
     (\<forall>i<64 * length m. bit (m ! (i div 64)) (i mod 64) \<longleftrightarrow> fits tb g S i))"

definition stacks_at :: "automaton \<Rightarrow> nat \<Rightarrow> stack list" where
  "stacks_at a i = state_stacks (states a ! i)"

definition transition_ok :: "automaton \<Rightarrow> nat \<Rightarrow> octet \<Rightarrow> bool" where
  "transition_ok a i b =
     (let t = transitions a ! i ! unat b; S = stepped (grammar_of a) (stacks_at a i) b in
      t = UNKNOWN \<or> t = DEAD \<and> S = [] \<or> t < length (states a) \<and> S \<noteq> [] \<and> stacks_at a t = S)"

definition automaton_ok :: "octet list list \<Rightarrow> automaton \<Rightarrow> bool" where
  "automaton_ok tb a = (grammar_ok (grammar_of a) \<and>
     length (transitions a) = length (states a) \<and> length (states a) \<le> DEAD \<and>
     (\<forall>i<length (states a).
        state_ok (grammar_of a) (stacks_at a i) \<and> ids a (stacks_at a i) = Some i \<and>
        accepting (states a ! i) = accepting_state (stacks_at a i) \<and>
        length (transitions a ! i) = 256 \<and> (\<forall>b. transition_ok a i b) \<and>
        (\<forall>m. mask (states a ! i) = Some m \<longrightarrow> mask_exact tb (grammar_of a) (stacks_at a i) m)) \<and>
     (\<forall>S i. ids a S = Some i \<longrightarrow> i < length (states a) \<and> stacks_at a i = S))"

text \<open>A state number stands for a list of stacks; later automata keep what a number stands for.\<close>

definition denotes :: "automaton \<Rightarrow> nat \<Rightarrow> stack list \<Rightarrow> bool" where
  "denotes a st S = (st < length (states a) \<and> stacks_at a st = S)"

definition grows :: "automaton \<Rightarrow> automaton \<Rightarrow> bool" where
  "grows a a' = (grammar_of a' = grammar_of a \<and> generation a' = generation a \<and>
     length (states a) \<le> length (states a') \<and>
     (\<forall>i<length (states a). stacks_at a' i = stacks_at a i))"

definition cursor_ok :: "automaton \<Rightarrow> cursor \<Rightarrow> bool" where
  "cursor_ok a c = (state_ok (grammar_of a) (cursor_stacks c) \<and>
     cursor_generation c \<le> generation a \<and>
     (cursor_generation c = generation a \<longrightarrow> denotes a (cursor_state c) (cursor_stacks c)))"

lemma grows_refl: "grows a a"
  by (simp add: grows_def)

lemma grows_trans: "grows a b \<Longrightarrow> grows b c \<Longrightarrow> grows a c"
  by (simp add: grows_def)

lemma grows_denotes: "grows a a' \<Longrightarrow> denotes a st S \<Longrightarrow> denotes a' st S"
  by (simp add: grows_def denotes_def)

lemma automaton_okD:
  assumes "automaton_ok tb a" and "i < length (states a)"
  shows "state_ok (grammar_of a) (stacks_at a i)" and "ids a (stacks_at a i) = Some i"
    and "accepting (states a ! i) = accepting_state (stacks_at a i)"
    and "length (transitions a ! i) = 256" and "transition_ok a i b"
    and "mask (states a ! i) = Some m \<Longrightarrow> mask_exact tb (grammar_of a) (stacks_at a i) m"
  using assms unfolding automaton_ok_def by blast+

lemma automaton_ok_parts:
  assumes "automaton_ok tb a"
  shows "grammar_ok (grammar_of a)" and "length (transitions a) = length (states a)"
    and "length (states a) \<le> DEAD"
    and "ids a S = Some i \<Longrightarrow> i < length (states a) \<and> stacks_at a i = S"
  using assms unfolding automaton_ok_def by blast+

lemma automaton_ok_new: "grammar_ok g \<Longrightarrow> automaton_ok tb (automaton_new g)"
  by (simp add: automaton_ok_def automaton_new_def)

subsection \<open>Interning and stepping\<close>

text \<open>The contract of an operation that may add \<open>n\<close> states.\<close>

definition extends :: "octet list list \<Rightarrow> nat \<Rightarrow> automaton \<Rightarrow> automaton \<Rightarrow> bool" where
  "extends tb n a a' = (automaton_ok tb a' \<and> grows a a' \<and> length (states a') \<le> length (states a) + n)"

lemma extends_refl: "automaton_ok tb a \<Longrightarrow> extends tb 0 a a"
  by (simp add: extends_def grows_refl)

lemma extends_trans: "extends tb n a b \<Longrightarrow> extends tb m b c \<Longrightarrow> extends tb (n + m) a c"
  by (auto simp: extends_def intro: grows_trans)

lemma extends_mono: "extends tb n a b \<Longrightarrow> n \<le> m \<Longrightarrow> extends tb m a b"
  by (simp add: extends_def)

lemma stacks_at_append:
  "stacks_at (a\<lparr>states := states a @ [d], transitions := t, ids := f\<rparr>) i =
     (if i < length (states a) then stacks_at a i
      else if i = length (states a) then state_stacks d else state_stacks ([d] ! (i - length (states a))))"
  by (simp add: stacks_at_def nth_append)

lemma intern_ok:
  assumes ok: "automaton_ok tb a" and S: "state_ok (grammar_of a) S" and room: "length (states a) < DEAD"
  shows "\<exists>i a'. intern S a = (i, a') \<and> extends tb 1 a a' \<and> denotes a' i S"
proof (cases "ids a S")
  case (Some i)
  then show ?thesis
    using automaton_ok_parts(4) [OF ok] extends_mono [OF extends_refl [OF ok], of 1]
    by (auto simp: intern_def denotes_def)
next
  case None
  let ?i = "length (states a)"
  let ?d = "\<lparr>state_stacks = S, accepting = ([] \<in> set S), mask = None\<rparr>"
  let ?a = "a\<lparr>states := states a @ [?d], transitions := transitions a @ [replicate 256 UNKNOWN],
    ids := (ids a)(S \<mapsto> ?i)\<rparr>"
  have len: "length (transitions a) = ?i" by (rule automaton_ok_parts(2) [OF ok])
  have old: "stacks_at ?a i = stacks_at a i" if "i < ?i" for i
    using that by (simp add: stacks_at_def nth_append)
  have new: "stacks_at ?a ?i = S" by (simp add: stacks_at_def)
  have differ: "stacks_at a i \<noteq> S" if "i < ?i" for i
    using automaton_okD(2) [OF ok that] None by auto
  have "automaton_ok tb ?a"
    unfolding automaton_ok_def
  proof (intro conjI allI impI)
    show "grammar_ok (grammar_of ?a)" using automaton_ok_parts(1) [OF ok] by simp
    show "length (transitions ?a) = length (states ?a)" using len by simp
    show "length (states ?a) \<le> DEAD" using room by simp
  next
    fix i assume "i < length (states ?a)"
    then have i: "i < ?i \<or> i = ?i" by auto
    show "state_ok (grammar_of ?a) (stacks_at ?a i)"
      using i S old new automaton_okD(1) [OF ok] by auto
    show "ids ?a (stacks_at ?a i) = Some i"
      using i old new differ automaton_okD(2) [OF ok] by auto
    show "accepting (states ?a ! i) = accepting_state (stacks_at ?a i)"
      using i old new automaton_okD(3) [OF ok] by (auto simp: nth_append accepting_state_def)
    show "length (transitions ?a ! i) = 256"
      using i len automaton_okD(4) [OF ok] by (auto simp: nth_append)
    show "transition_ok ?a i b" for b
    proof (cases "i = ?i")
      case True
      have "unat b < 256" by (rule octet_less)
      with True len show ?thesis by (simp add: transition_ok_def nth_append)
    next
      case False
      with i have i: "i < ?i" by simp
      then have "transitions ?a ! i = transitions a ! i" using len by (simp add: nth_append)
      with automaton_okD(5) [OF ok i, of b] old [OF i] old show ?thesis
        by (auto simp: transition_ok_def Let_def)
    qed
    show "mask_exact tb (grammar_of ?a) (stacks_at ?a i) m" if "mask (states ?a ! i) = Some m" for m
      using i that old automaton_okD(6) [OF ok] by (auto simp: nth_append)
  next
    fix S' i assume "ids ?a S' = Some i"
    then show "i < length (states ?a)" "stacks_at ?a i = S'"
      using automaton_ok_parts(4) [OF ok, of S' i] old new by (auto split: if_splits)
  qed
  moreover have "grows a ?a" using old by (simp add: grows_def)
  moreover have "intern S a = (?i, ?a)" using None room by (simp add: intern_def u32_try_from_def Let_def)
  ultimately show ?thesis using new by (auto simp: extends_def denotes_def)
qed

lemma set_transition_ok:
  assumes ok: "automaton_ok tb a" and i: "i < length (states a)"
    and t: "t = DEAD \<and> stepped (grammar_of a) (stacks_at a i) b = [] \<or>
      denotes a t (stepped (grammar_of a) (stacks_at a i) b) \<and> stepped (grammar_of a) (stacks_at a i) b \<noteq> []"
  shows "automaton_ok tb (a\<lparr>transitions := (transitions a)[i := (transitions a ! i)[unat b := t]]\<rparr>)"
proof -
  let ?a = "a\<lparr>transitions := (transitions a)[i := (transitions a ! i)[unat b := t]]\<rparr>"
  have same: "stacks_at ?a j = stacks_at a j" for j by (simp add: stacks_at_def)
  have len: "length (transitions a) = length (states a)" by (rule automaton_ok_parts(2) [OF ok])
  have "\<forall>c. transition_ok ?a j c" if j: "j < length (states a)" for j
  proof
    fix c show "transition_ok ?a j c"
  proof (cases "j = i \<and> c = b")
    case True
    with t i len automaton_okD(4) [OF ok i] octet_less [of b] show ?thesis
      by (auto simp: transition_ok_def Let_def same denotes_def)
  next
    case False
    moreover have "unat b \<noteq> unat c" if "c \<noteq> b" using that by (auto dest: unsigned_word_eqI)
    ultimately have "transitions ?a ! j ! unat c = transitions a ! j ! unat c"
      using i len by (cases "j = i") auto
    with automaton_okD(5) [OF ok j, of c] show ?thesis by (simp add: transition_ok_def same)
  qed
  qed
  moreover have "length (transitions ?a ! j) = 256" if "j < length (states a)" for j
    using automaton_okD(4) [OF ok] that i len by (cases "j = i") auto
  ultimately show ?thesis
    using ok unfolding automaton_ok_def same
    by (intro conjI allI impI) simp_all
qed

lemma step_ok:
  assumes ok: "automaton_ok tb a" and st: "denotes a st S" and room: "length (states a) < DEAD"
  shows "\<exists>t a'. step st b a = Some (t, a') \<and> extends tb 1 a a' \<and>
    (if stepped (grammar_of a) S b = [] then t = DEAD
     else t \<noteq> DEAD \<and> denotes a' t (stepped (grammar_of a) S b))"
proof -
  let ?S = "stepped (grammar_of a) S b"
  have st': "st < length (states a)" "stacks_at a st = S" using st by (simp_all add: denotes_def)
  note g = automaton_ok_parts(1) [OF ok] and len = automaton_ok_parts(2) [OF ok]
  have row: "get (transitions a) st = Some (transitions a ! st)" using st' len by simp
  have cell: "get (transitions a ! st) (unat b) = Some (transitions a ! st ! unat b)"
    using automaton_okD(4) [OF ok st'(1)] octet_less [of b] by simp
  show ?thesis
  proof (cases "transitions a ! st ! unat b = UNKNOWN")
    case False
    then have "step st b a = Some (transitions a ! st ! unat b, a)"
      using row cell by (simp add: step_def)
    moreover have "transition_ok a st b" by (rule automaton_okD(5) [OF ok st'(1)])
    moreover have "extends tb 1 a a" using extends_mono [OF extends_refl [OF ok]] by simp
    moreover have "t \<noteq> DEAD" if "t < length (states a)" for t using that room by simp
    ultimately show ?thesis using False st'(2)
      by (auto simp: transition_ok_def Let_def denotes_def)
  next
    case True
    have S: "state_ok (grammar_of a) S" using automaton_okD(1) [OF ok st'(1)] st'(2) by simp
    have adv: "advance_stacks (grammar_of a) (state_stacks (states a ! st)) b = Some ?S"
      using advance_returns [OF g S] st'(2) by (simp add: stepped_def stacks_at_def)
    obtain t a' where t: "(if ?S = [] then (DEAD, a) else intern ?S a) = (t, a')"
      and ext: "extends tb 1 a a'" and den: "if ?S = [] then t = DEAD else denotes a' t ?S"
      using intern_ok [OF ok stepped_state_ok [OF g S, of b] room]
        extends_mono [OF extends_refl [OF ok], of 1] by (cases "?S = []") auto
    have ok': "automaton_ok tb a'" and gr: "grows a a'"
      and few: "length (states a') \<le> length (states a) + 1" using ext by (simp_all add: extends_def)
    have st'': "st < length (states a')" "stacks_at a' st = S" "grammar_of a' = grammar_of a"
      using gr st' by (auto simp: grows_def)
    have row': "get (transitions a') st = Some (transitions a' ! st)"
      using st'' automaton_ok_parts(2) [OF ok'] by simp
    let ?a = "a'\<lparr>transitions := (transitions a')[st := (transitions a' ! st)[unat b := t]]\<rparr>"
    have "step st b a = Some (t, ?a)"
      using True row cell st'(1) adv t row' by (simp add: step_def)
    moreover have "automaton_ok tb ?a"
      by (rule set_transition_ok [OF ok' st''(1)]) (use den st'' in \<open>auto split: if_splits\<close>)
    moreover have "grows a ?a" using gr by (simp add: grows_def stacks_at_def)
    moreover have "denotes ?a t ?S" if "?S \<noteq> []" using den that by (simp add: denotes_def stacks_at_def)
    moreover have "t \<noteq> DEAD" if "?S \<noteq> []"
      using den that few room by (auto simp: denotes_def)
    ultimately show ?thesis using den few by (auto simp: extends_def split: if_splits)
  qed
qed

text \<open>Bytes that leave the grammar leave no stack.\<close>

definition survives :: "grammar \<Rightarrow> stack list \<Rightarrow> octet list \<Rightarrow> bool" where
  "survives g S w = (w = [] \<or> run g S w \<noteq> [])"

lemma step_bytes_ok:
  assumes "automaton_ok tb a" and "denotes a st S" and "length (states a) + length w \<le> DEAD"
  shows "\<exists>r a'. step_bytes w st a = Some (r, a') \<and> extends tb (length w) a a' \<and>
    (if survives (grammar_of a) S w then \<exists>t. r = Some t \<and> denotes a' t (run (grammar_of a) S w)
     else r = None)"
  using assms
proof (induction w arbitrary: st S a)
  case Nil
  then show ?case by (simp add: extends_refl survives_def)
next
  case (Cons b w)
  let ?S = "stepped (grammar_of a) S b"
  from step_ok [OF Cons.prems(1,2), of b] Cons.prems(3) obtain t a1 where t: "step st b a = Some (t, a1)"
    and ext: "extends tb 1 a a1" and den: "if ?S = [] then t = DEAD else t \<noteq> DEAD \<and> denotes a1 t ?S"
    by auto
  have a1: "automaton_ok tb a1" "grammar_of a1 = grammar_of a" "length (states a1) \<le> length (states a) + 1"
    using ext by (simp_all add: extends_def grows_def)
  show ?case
  proof (cases "?S = []")
    case True
    with t den ext show ?thesis by (auto simp: survives_def intro: extends_mono)
  next
    case False
    with den have "denotes a1 t ?S" "t \<noteq> DEAD" by simp_all
    with Cons.IH [OF a1(1) this(1), unfolded a1(2)] Cons.prems(3) a1(3) obtain r a2
      where "step_bytes w t a1 = Some (r, a2)" "extends tb (length w) a1 a2"
        "if survives (grammar_of a) ?S w then \<exists>t. r = Some t \<and> denotes a2 t (run (grammar_of a) ?S w) else r = None"
      by auto
    moreover have "survives (grammar_of a) ?S w \<longleftrightarrow> survives (grammar_of a) S (b # w)"
      using False by (auto simp: survives_def)
    ultimately show ?thesis using t \<open>t \<noteq> DEAD\<close> extends_trans [OF ext] by auto
  qed
qed

subsection \<open>Cursors and resets\<close>

lemma trim_ok:
  assumes ok: "automaton_ok tb a" and gen: "generation a < u64_max"
  shows "automaton_ok tb (trim a)" and "length (states (trim a)) \<le> MAX_STATES"
    and "grammar_of (trim a) = grammar_of a" and "generation a \<le> generation (trim a)"
    and "generation (trim a) \<le> generation a + 1"
    and "cursor_ok a c \<Longrightarrow> cursor_ok (trim a) c"
  using ok gen by (auto simp: trim_def automaton_ok_def cursor_ok_def)

text \<open>A resolved cursor has a current state number.\<close>

definition resolved :: "automaton \<Rightarrow> cursor \<Rightarrow> bool" where
  "resolved a c = (cursor_ok a c \<and> cursor_generation c = generation a)"

lemma resolvedD: "resolved a c \<Longrightarrow> denotes a (cursor_state c) (cursor_stacks c)"
  by (simp add: resolved_def cursor_ok_def)

lemma grows_cursor: "grows a a' \<Longrightarrow> cursor_ok a c \<Longrightarrow> cursor_ok a' c"
  by (auto simp: cursor_ok_def grows_def denotes_def)

lemma grows_resolved: "grows a a' \<Longrightarrow> resolved a c \<Longrightarrow> resolved a' c"
  by (auto simp: resolved_def grows_cursor) (simp add: grows_def)

lemma resolve_ok:
  assumes ok: "automaton_ok tb a" and c: "cursor_ok a c" and room: "length (states a) < DEAD"
  shows "\<exists>c' a'. resolve c a = (c', a') \<and> extends tb 1 a a' \<and> resolved a' c' \<and>
    cursor_stacks c' = cursor_stacks c"
proof (cases "cursor_generation c = generation a")
  case True
  then show ?thesis using c extends_mono [OF extends_refl [OF ok], of 1]
    by (auto simp: resolve_def resolved_def)
next
  case False
  have S: "state_ok (grammar_of a) (cursor_stacks c)" using c by (simp add: cursor_ok_def)
  from intern_ok [OF ok S room] obtain i a' where i: "intern (cursor_stacks c) a = (i, a')"
    "extends tb 1 a a'" "denotes a' i (cursor_stacks c)" by blast
  then have "grammar_of a' = grammar_of a" by (simp add: extends_def grows_def)
  with False i S show ?thesis
    by (auto simp: resolve_def resolved_def cursor_ok_def denotes_def)
qed

lemma start_cursor_ok:
  assumes ok: "automaton_ok tb a" and room: "length (states a) < DEAD"
  shows "\<exists>c a'. start_cursor a = Some (c, a') \<and> extends tb 1 a a' \<and> resolved a' c \<and>
    cursor_stacks c = initial (grammar_of a)"
proof -
  note g = automaton_ok_parts(1) [OF ok]
  from intern_ok [OF ok initial_exact(1) [OF g] room] obtain i a' where
    i: "intern (initial (grammar_of a)) a = (i, a')" "extends tb 1 a a'" "denotes a' i (initial (grammar_of a))"
    by blast
  then have "grammar_of a' = grammar_of a" by (simp add: extends_def grows_def)
  with i initial_exact(1) [OF g] start_returns [OF g] show ?thesis
    by (auto simp: start_cursor_def resolved_def cursor_ok_def denotes_def)
qed

lemma is_accepting_ok:
  assumes ok: "automaton_ok tb a" and c: "cursor_ok a c" and room: "length (states a) < DEAD"
  shows "\<exists>c' a'. is_accepting c a = Some (accepting_state (cursor_stacks c), c', a') \<and> extends tb 1 a a' \<and>
    resolved a' c' \<and> cursor_stacks c' = cursor_stacks c"
proof -
  from resolve_ok [OF ok c room] obtain c' a' where r: "resolve c a = (c', a')" "extends tb 1 a a'"
    "resolved a' c'" "cursor_stacks c' = cursor_stacks c" by blast
  have "cursor_state c' < length (states a')" "stacks_at a' (cursor_state c') = cursor_stacks c'"
    using resolvedD [OF r(3)] by (simp_all add: denotes_def)
  moreover from this automaton_okD(3) [of tb a' "cursor_state c'"] r(2)
  have "accepting (states a' ! cursor_state c') = accepting_state (cursor_stacks c')"
    by (simp add: extends_def)
  ultimately show ?thesis using r by (simp add: is_accepting_def)
qed

text \<open>What a call that first trims may rely on and leaves behind.\<close>

definition ready :: "octet list list \<Rightarrow> nat \<Rightarrow> automaton \<Rightarrow> cursor \<Rightarrow> bool" where
  "ready tb n a c = (automaton_ok tb a \<and> cursor_ok a c \<and> generation a < u64_max \<and> MAX_STATES + n < DEAD)"

definition retains :: "octet list list \<Rightarrow> automaton \<Rightarrow> automaton \<Rightarrow> bool" where
  "retains tb a a' = (automaton_ok tb a' \<and> grammar_of a' = grammar_of a \<and> generation a \<le> generation a' \<and>
     generation a' \<le> generation a + 1 \<and> (\<forall>c. cursor_ok a c \<longrightarrow> cursor_ok a' c))"

lemma retains_extends: "retains tb a a1 \<Longrightarrow> extends tb n a1 a2 \<Longrightarrow> retains tb a a2"
proof -
  assume k: "retains tb a a1" and e: "extends tb n a1 a2"
  then have "automaton_ok tb a2" "grows a1 a2" by (simp_all add: extends_def)
  with k grows_cursor [OF this(2)] show "retains tb a a2" by (simp add: retains_def grows_def)
qed

lemma trim_resolve_ok:
  assumes "ready tb n a c"
  shows "\<exists>c1 a1. resolve c (trim a) = (c1, a1) \<and> automaton_ok tb a1 \<and> retains tb a a1 \<and> resolved a1 c1 \<and>
    cursor_stacks c1 = cursor_stacks c \<and> length (states a1) \<le> MAX_STATES + 1"
proof -
  have ok: "automaton_ok tb a" and c: "cursor_ok a c" and gen: "generation a < u64_max"
    using assms by (simp_all add: ready_def)
  note t = trim_ok(1-3) [OF ok gen] trim_ok(6) [OF ok gen] trim_ok(4,5) [OF ok gen]
  have k: "retains tb a (trim a)" using t by (simp add: retains_def)
  from resolve_ok [OF t(1) t(4) [OF c]] t(2) obtain c1 a1 where r: "resolve c (trim a) = (c1, a1)"
    "extends tb 1 (trim a) a1" "resolved a1 c1" "cursor_stacks c1 = cursor_stacks c" by auto
  then have "automaton_ok tb a1" "length (states a1) \<le> MAX_STATES + 1"
    using t(2) by (simp_all add: extends_def)
  with r retains_extends [OF k r(2)] show ?thesis by blast
qed

lemma resolved_denotes:
  assumes "automaton_ok tb a" and "denotes a st S" and "cursor_generation c = generation a"
  shows "resolved a (c\<lparr>cursor_state := st, cursor_stacks := S\<rparr>)"
  using assms automaton_okD(1) [OF assms(1), of st]
  by (auto simp: resolved_def cursor_ok_def denotes_def)

lemma advance_ok:
  assumes ready: "ready tb (length w + 1) a c"
  shows "\<exists>c' a'. advance c w a = Some (survives (grammar_of a) (cursor_stacks c) w, c', a') \<and>
    retains tb a a' \<and> resolved a' c' \<and> length (states a') \<le> MAX_STATES + 1 + length w \<and>
    cursor_stacks c' = (if survives (grammar_of a) (cursor_stacks c) w
                        then run (grammar_of a) (cursor_stacks c) w else cursor_stacks c)"
proof -
  from trim_resolve_ok [OF ready] obtain c1 a1 where r: "resolve c (trim a) = (c1, a1)"
    "automaton_ok tb a1" "retains tb a a1" "resolved a1 c1" "cursor_stacks c1 = cursor_stacks c"
    "length (states a1) \<le> MAX_STATES + 1" by blast
  have g: "grammar_of a1 = grammar_of a" using r(3) by (simp add: retains_def)
  have "length (states a1) + length w \<le> DEAD" using r(6) ready by (simp add: ready_def)
  from step_bytes_ok [OF r(2) resolvedD [OF r(4)] this, unfolded g r(5)] obtain t a2
    where t: "step_bytes w (cursor_state c1) a1 = Some (t, a2)" "extends tb (length w) a1 a2"
      "if survives (grammar_of a) (cursor_stacks c) w
       then \<exists>st. t = Some st \<and> denotes a2 st (run (grammar_of a) (cursor_stacks c) w) else t = None" by blast
  have a2: "automaton_ok tb a2" "grows a1 a2" "length (states a2) \<le> MAX_STATES + 1 + length w"
    using t(2) r(6) by (simp_all add: extends_def)
  have c1: "resolved a2 c1" by (rule grows_resolved [OF a2(2) r(4)])
  show ?thesis
  proof (cases "survives (grammar_of a) (cursor_stacks c) w")
    case False
    with t r c1 a2(3) retains_extends [OF r(3) t(2)] show ?thesis by (simp add: advance_def)
  next
    case True
    with t(3) obtain st where st: "t = Some st" "denotes a2 st (run (grammar_of a) (cursor_stacks c) w)" by auto
    moreover have "state_stacks (states a2 ! st) = run (grammar_of a) (cursor_stacks c) w" "st < length (states a2)"
      using st(2) by (simp_all add: denotes_def stacks_at_def)
    moreover have "resolved a2 (c1\<lparr>cursor_state := st, cursor_stacks := run (grammar_of a) (cursor_stacks c) w\<rparr>)"
      using resolved_denotes [OF a2(1) st(2)] c1 by (simp add: resolved_def)
    ultimately show ?thesis using True t(1) r(1) a2(3) retains_extends [OF r(3) t(2)] by (simp add: advance_def)
  qed
qed

end
