(* ===== verification/Grammar_Mask.thy ===== *)
theory Grammar_Mask
  imports Grammar_Automaton
begin

text \<open>
  The vocabulary mask. \<open>compute_mask\<close> walks the trie from its root together with the automaton; the
  theorems say that the walk ends, adds at most one state per node of the trie, and sets exactly the bits
  of the tokens whose bytes leave some parse stack.
\<close>

subsection \<open>Bits\<close>

definition bits :: "64 word list \<Rightarrow> nat set" where
  "bits m = {i. i < 64 * length m \<and> bit (m ! (i div 64)) (i mod 64)}"

lemma bits_replicate: "bits (replicate n 0) = {}"
  by (auto simp: bits_def)

lemma set_token_ok:
  assumes "i < 64 * length m"
  shows "\<exists>m'. set_token i m = Some m' \<and> length m' = length m \<and> bits m' = insert i (bits m)"
proof -
  let ?m = "add_byte m i"
  have i: "i div 64 < length m" using assms by auto
  have "set_token i m = Some ?m" using i by (simp add: set_token_def add_byte_def)
  moreover have len: "length ?m = length m" by (simp add: add_byte_def)
  moreover have "bit (?m ! (u div 64)) (u mod 64) \<longleftrightarrow> u = i \<or> bit (m ! (u div 64)) (u mod 64)"
    if "u < 64 * length m" for u by (rule bit_add_byte [OF i]) (use that in auto)
  then have "bits ?m = insert i (bits m)" using assms by (auto simp: bits_def len)
  ultimately show ?thesis by blast
qed

lemma set_tokens_ok:
  "\<forall>i\<in>set is. i < 64 * length m \<Longrightarrow>
     \<exists>m'. foldO set_token is m = Some m' \<and> length m' = length m \<and> bits m' = set is \<union> bits m"
proof (induction "is" arbitrary: m)
  case Nil
  then show ?case by simp
next
  case (Cons i "is")
  then obtain m1 where m1: "set_token i m = Some m1" "length m1 = length m" "bits m1 = insert i (bits m)"
    using set_token_ok [of i m] by auto
  with Cons.IH [of m1] Cons.prems obtain m2
    where "foldO set_token is m1 = Some m2" "length m2 = length m" "bits m2 = set is \<union> bits m1" by auto
  with m1 show ?case by auto
qed

lemma mask_exact_bits:
  "mask_exact tb g S m \<longleftrightarrow> length m = div_ceil (length tb) 64 \<and> bits m = {i. fits tb g S i}"
proof -
  have "i < 64 * length m" if "length m = div_ceil (length tb) 64" "fits tb g S i" for i
    using that div_ceil_le_iff [of 64 "length tb" "div_ceil (length tb) 64"] by (simp add: fits_def)
  then show ?thesis unfolding mask_exact_def bits_def by blast
qed

subsection \<open>The tokens below a node\<close>

type_synonym task = "nat \<times> stack list"

definition tokens_from :: "trie \<Rightarrow> grammar \<Rightarrow> task \<Rightarrow> nat set" where
  "tokens_from t g task = (case (t, task) of ((children, terminals), (n, S)) \<Rightarrow>
     {i. \<exists>w m. path children n w m \<and> i \<in> set (terminals ! m) \<and> run g S w \<noteq> []})"

text \<open>The tasks the loop pushes for the children of a node.\<close>

definition child_tasks :: "grammar \<Rightarrow> stack list \<Rightarrow> (octet \<times> u32) list \<Rightarrow> task list" where
  "child_tasks g S kids = map (\<lambda>(b, c). (c, stepped g S b)) (filter (\<lambda>(b, c). stepped g S b \<noteq> []) kids)"

lemma tokens_from_unfold:
  assumes "S \<noteq> [] \<or> terminals ! n = []"
  shows "tokens_from (children, terminals) g (n, S) =
    set (terminals ! n) \<union> (\<Union>t\<in>set (child_tasks g S (children ! n)). tokens_from (children, terminals) g t)"
  (is "?L = ?R")
proof
  show "?L \<subseteq> ?R"
  proof
    fix i assume "i \<in> ?L"
    then obtain w m where w: "path children n w m" "i \<in> set (terminals ! m)" "run g S w \<noteq> []"
      by (auto simp: tokens_from_def)
    show "i \<in> ?R"
    proof (cases w)
      case Nil
      with w show ?thesis by (simp add: path_Nil)
    next
      case (Cons b v)
      with w(1) obtain c where c: "(b, c) \<in> set (children ! n)" "path children c v m"
        by (auto simp: path_Cons)
      have "stepped g S b \<noteq> []" using w(3) Cons by auto
      with c(1) have "(c, stepped g S b) \<in> set (child_tasks g S (children ! n))"
        by (force simp: child_tasks_def)
      with c(2) w(2,3) Cons show ?thesis by (fastforce simp: tokens_from_def)
    qed
  qed
  show "?R \<subseteq> ?L"
  proof
    fix i assume "i \<in> ?R"
    then consider "i \<in> set (terminals ! n)"
      | b c where "(b, c) \<in> set (children ! n)" "i \<in> tokens_from (children, terminals) g (c, stepped g S b)"
      by (auto simp: child_tasks_def)
    then show "i \<in> ?L"
    proof cases
      case 1
      with assms show ?thesis
        by (auto simp: tokens_from_def intro!: exI [of _ "[]"] exI [of _ n] path_here)
    next
      case 2
      then obtain w m where "path children c w m" "i \<in> set (terminals ! m)" "run g (stepped g S b) w \<noteq> []"
        by (auto simp: tokens_from_def)
      with 2(1) show ?thesis
        by (auto simp: tokens_from_def intro!: exI [of _ "b # w"] exI [of _ m] path_child)
    qed
  qed
qed

lemma tokens_from_root:
  assumes "index_ok tb index (children, terminals) lab"
  shows "tokens_from (children, terminals) g (0, S) = {i. fits tb g S i}"
proof -
  have ok: "trie_ok tb lab (children, terminals)"
    and all: "set (concat terminals) = {i. i < length tb \<and> tb ! i \<noteq> []}"
    using assms by (simp_all add: index_ok_def)
  have len: "length terminals = length lab" and root: "lab ! 0 = []" "0 < length lab"
    using ok by (auto simp: trie_ok_def)
  note spell = trie_token [OF ok]
  show ?thesis
  proof (intro set_eqI iffI)
    fix i assume "i \<in> tokens_from (children, terminals) g (0, S)"
    then obtain w m where w: "path children 0 w m" "i \<in> set (terminals ! m)" "run g S w \<noteq> []"
      by (auto simp: tokens_from_def)
    have m: "m < length lab" "lab ! m = w" using path_label [OF ok w(1) root(2)] root(1) by simp_all
    have "i \<in> set (concat terminals)" using m(1) w(2) len by auto
    with all spell [OF m(1) w(2)] m(2) w(3) show "i \<in> {i. fits tb g S i}" by (auto simp: fits_def)
  next
    fix i assume i: "i \<in> {i. fits tb g S i}"
    then have "i \<in> set (concat terminals)" using all by (simp add: fits_def)
    then obtain m where m: "m < length lab" "i \<in> set (terminals ! m)"
      using len by (auto simp: in_set_conv_nth [of _ terminals])
    with path_from_root [OF ok m(1)] spell [OF m] i
    show "i \<in> tokens_from (children, terminals) g (0, S)" by (auto simp: tokens_from_def fits_def)
  qed
qed

subsection \<open>The loop\<close>

text \<open>The work list against the tasks it stands for, and the number of steps those tasks can take.\<close>

definition stands_for :: "automaton \<Rightarrow> nat \<Rightarrow> (nat \<times> u32) list \<Rightarrow> task list \<Rightarrow> bool" where
  "stands_for a n pending tasks =
     list_all2 (\<lambda>(node, st) (node', S). node = node' \<and> node < n \<and> denotes a st S \<and> (S = [] \<longrightarrow> node = 0)) pending tasks"

definition cost :: "(octet \<times> u32) list list \<Rightarrow> task list \<Rightarrow> nat" where
  "cost children tasks = sum_list (map (\<lambda>(n, S). card (nodes_below children n)) tasks)"

lemma cost_simps [simp]:
  "cost children [] = 0"
  "cost children (t # ts) = card (nodes_below children (fst t)) + cost children ts"
  "cost children (ts @ us) = cost children ts + cost children us"
  by (simp_all add: cost_def case_prod_unfold)

lemma grows_stands_for: "grows a a' \<Longrightarrow> stands_for a n pending tasks \<Longrightarrow> stands_for a' n pending tasks"
  unfolding stands_for_def by (erule list_all2_mono) (auto dest: grows_denotes)

lemma child_tasks_Cons:
  "child_tasks g S ((b, c) # kids) =
     (if stepped g S b \<noteq> [] then [(c, stepped g S b)] else []) @ child_tasks g S kids"
  by (simp add: child_tasks_def)

text \<open>The inner loop: every edge takes one step; the children that stay alive are pushed.\<close>

definition push_child :: "u32 \<Rightarrow> octet \<times> u32 \<Rightarrow> (nat \<times> u32) list \<times> automaton \<Rightarrow>
    ((nat \<times> u32) list \<times> automaton) option" where
  "push_child st e s = (case e of (byte, child) \<Rightarrow> case s of (pending, a) \<Rightarrow> do {
     (target, a) \<leftarrow> step st byte a;
     Some (if target \<noteq> DEAD then (child, target) # pending else pending, a) })"

lemma push_children_ok:
  assumes "automaton_ok tb a" and "denotes a st S" and "stands_for a n pending tasks"
    and "length (states a) + length kids \<le> DEAD" and "\<forall>(b, c)\<in>set kids. c < n"
  shows "\<exists>pending' a'. foldO (push_child st) kids (pending, a) = Some (pending', a') \<and>
    extends tb (length kids) a a' \<and> stands_for a' n pending' (rev (child_tasks (grammar_of a) S kids) @ tasks)"
  using assms
proof (induction kids arbitrary: pending tasks a)
  case Nil
  then show ?case by (simp add: extends_refl child_tasks_def)
next
  case (Cons e kids)
  obtain b c where e: "e = (b, c)" by (cases e)
  let ?S = "stepped (grammar_of a) S b"
  from step_ok [OF Cons.prems(1,2), of b] Cons.prems(4) obtain t a1 where t: "step st b a = Some (t, a1)"
    and ext: "extends tb 1 a a1" and den: "if ?S = [] then t = DEAD else t \<noteq> DEAD \<and> denotes a1 t ?S"
    by auto
  have a1: "automaton_ok tb a1" "grammar_of a1 = grammar_of a" "length (states a1) \<le> length (states a) + 1"
    "grows a a1" using ext by (simp_all add: extends_def grows_def)
  let ?pending = "if t \<noteq> DEAD then (c, t) # pending else pending"
  let ?tasks = "(if ?S \<noteq> [] then [(c, ?S)] else []) @ tasks"
  have "stands_for a1 n ?pending ?tasks"
    using grows_stands_for [OF a1(4) Cons.prems(3)] den Cons.prems(5) e
    by (auto simp: stands_for_def split: if_splits)
  from Cons.IH [OF a1(1) grows_denotes [OF a1(4) Cons.prems(2)] this, unfolded a1(2)] Cons.prems(4,5) a1(3)
  obtain pending' a2 where "foldO (push_child st) kids (?pending, a1) = Some (pending', a2)"
    "extends tb (length kids) a1 a2"
    "stands_for a2 n pending' (rev (child_tasks (grammar_of a) S kids) @ ?tasks)" by auto
  with t e extends_trans [OF ext] show ?case
    by (auto simp: push_child_def child_tasks_Cons)
qed

lemma edge_loop_eq:
  assumes "index_ok tb index (children, terminals) lab" and "n < length lab"
  shows "foldO (\<lambda>e (pending, a). do {
       (byte, child) \<leftarrow> get (edges index) e;
       (target, a) \<leftarrow> step st byte a;
       Some (if target \<noteq> DEAD then (child, target) # pending else pending, a) })
     [row_start children n..<row_start children (Suc n)] s =
   foldO (push_child st) (children ! n) s"
proof -
  have body: "(\<lambda>e (pending, a). do {
       (byte, child) \<leftarrow> get (edges index) e;
       (target, a) \<leftarrow> step st byte a;
       Some (if target \<noteq> DEAD then (child, target) # pending else pending, a) }) =
     (\<lambda>e s. do { x \<leftarrow> get (edges index) e; push_child st x s })"
    by (auto simp: push_child_def fun_eq_iff case_prod_unfold intro!: Option.bind_cong)
  have "get_range (edges index) (row_start children n) (row_start children (Suc n)) = Some (children ! n)"
    by (rule index_rows(6) [OF assms])
  then show ?thesis unfolding body
    by (subst foldO_get) (auto simp: get_range_def split: if_splits)
qed

lemma child_cost:
  assumes ok: "trie_ok tb lab (children, terminals)" and n: "n < length lab"
  shows "length (children ! n) + cost children (child_tasks g S (children ! n)) \<le> card (nodes_below children n)"
    and "length (child_tasks g S (children ! n)) \<le> length (children ! n)"
proof -
  have "length kids + cost children (child_tasks g S kids) \<le>
      sum_list (map (\<lambda>(b, c). 1 + card (nodes_below children c)) kids)" for kids
    by (induction kids) (auto simp: child_tasks_Cons child_tasks_def)
  then show "length (children ! n) + cost children (child_tasks g S (children ! n)) \<le> card (nodes_below children n)"
    using card_nodes_below [OF ok n] by simp
  show "length (child_tasks g S (children ! n)) \<le> length (children ! n)"
    by (simp add: child_tasks_def)
qed

lemma root_has_no_token:
  assumes "index_ok tb index (children, terminals) lab"
  shows "terminals ! 0 = []"
proof (rule ccontr)
  assume "terminals ! 0 \<noteq> []"
  then obtain i where i: "i \<in> set (terminals ! 0)" by (meson list.set_sel(1))
  have ok: "trie_ok tb lab (children, terminals)" and all: "set (concat terminals) = {i. i < length tb \<and> tb ! i \<noteq> []}"
    using assms by (simp_all add: index_ok_def)
  have len: "0 < length lab" "length terminals = length lab" "lab ! 0 = []" using ok by (auto simp: trie_ok_def)
  then have "tb ! i = []" using trie_token [OF ok _ i] by simp
  moreover have "i \<in> set (concat terminals)" using i len by auto
  ultimately show False using all by blast
qed

lemma mask_loop_ok:
  assumes index: "index_ok tb index (children, terminals) lab"
  shows "automaton_ok tb a \<Longrightarrow> stands_for a (length lab) pending tasks \<Longrightarrow>
    length (states a) + cost children tasks \<le> DEAD \<Longrightarrow> length m = div_ceil (length tb) 64 \<Longrightarrow>
    \<exists>m' a'. mask_loop index pending m a = Some (m', a') \<and> extends tb (cost children tasks) a a' \<and>
      length m' = length m \<and>
      bits m' = bits m \<union> (\<Union>t\<in>set tasks. tokens_from (children, terminals) (grammar_of a) t)"
proof (induction "length tasks + cost children tasks" arbitrary: tasks pending m a rule: less_induct)
  case less
  have trie: "trie_ok tb lab (children, terminals)" using index by (simp add: index_ok_def)
  show ?case
  proof (cases tasks)
    case Nil
    with less.prems have "pending = []" by (simp add: stands_for_def)
    with Nil less.prems show ?thesis by (subst mask_loop.simps) (simp add: extends_refl)
  next
    case (Cons task rest)
    obtain n S where task: "task = (n, S)" by (cases task)
    with Cons less.prems(2) obtain st pending1 where pending: "pending = (n, st) # pending1"
      and n: "n < length lab" and st: "denotes a st S" "S = [] \<longrightarrow> n = 0"
      and rest: "stands_for a (length lab) pending1 rest"
      by (auto simp: stands_for_def list_all2_Cons2)
    note rows = index_rows [OF index n]
    have "\<forall>i\<in>set (terminals ! n). i < 64 * length m"
    proof
      fix i assume "i \<in> set (terminals ! n)"
      then have "i \<in> set (concat terminals)" using n trie by (auto simp: trie_ok_def)
      moreover have "set (concat terminals) = {i. i < length tb \<and> tb ! i \<noteq> []}"
        using index by (simp add: index_ok_def)
      ultimately have "i < length tb" by blast
      then show "i < 64 * length m"
        using less.prems(4) div_ceil_le_iff [of 64 "length tb" "length m"] by simp
    qed
    from set_tokens_ok [OF this] obtain m1 where m1: "foldO set_token (terminals ! n) m = Some m1"
      "length m1 = length m" "bits m1 = set (terminals ! n) \<union> bits m" by blast
    let ?kids = "child_tasks (grammar_of a) S (children ! n)"
    note few = child_cost [OF trie n, of "grammar_of a" S]
    have "\<forall>(b, c)\<in>set (children ! n). c < length lab" using trie_child_less [OF trie n] by auto
    moreover have "length (states a) + length (children ! n) \<le> DEAD"
      using less.prems(3) few(1) Cons task by simp
    ultimately obtain pending2 a2
      where kids: "foldO (push_child st) (children ! n) (pending1, a) = Some (pending2, a2)"
        and ext: "extends tb (length (children ! n)) a a2"
        and stands: "stands_for a2 (length lab) pending2 (rev ?kids @ rest)"
      using push_children_ok [OF less.prems(1) st(1) rest] by blast
    have a2: "automaton_ok tb a2" "grammar_of a2 = grammar_of a"
      "length (states a2) \<le> length (states a) + length (children ! n)"
      using ext by (simp_all add: extends_def grows_def)
    have cost_rev: "cost children (rev ?kids) = cost children ?kids"
      by (simp add: cost_def rev_map [symmetric])
    have fewer: "length (rev ?kids @ rest) + cost children (rev ?kids @ rest) < length tasks + cost children tasks"
      using few Cons task by (simp add: cost_rev)
    have room: "length (states a2) + cost children (rev ?kids @ rest) \<le> DEAD"
      using less.prems(3) few(1) Cons task a2(3) by (simp add: cost_rev)
    have "length m1 = div_ceil (length tb) 64" using less.prems(4) m1(2) by simp
    from less.hyps [OF fewer a2(1) stands room this, unfolded a2(2)] obtain m3 a3 where loop: "mask_loop index pending2 m1 a2 = Some (m3, a3)"
      "extends tb (cost children (rev ?kids @ rest)) a2 a3" "length m3 = length m1"
      "bits m3 = bits m1 \<union> (\<Union>t\<in>set (rev ?kids @ rest). tokens_from (children, terminals) (grammar_of a) t)"
      by blast
    have "mask_loop index pending m a = Some (m3, a3)"
      using rows m1(1) kids loop(1) edge_loop_eq [OF index n, of st "(pending1, a)"]
      by (subst mask_loop.simps) (simp add: pending)
    moreover have "extends tb (cost children tasks) a a3"
      using extends_trans [OF ext loop(2)] few(1) Cons task
      by (auto simp: cost_rev intro: extends_mono)
    moreover have "bits m3 = bits m \<union> (\<Union>t\<in>set tasks. tokens_from (children, terminals) (grammar_of a) t)"
      using loop(4) m1(3) Cons task tokens_from_unfold [of S terminals n children "grammar_of a"]
        st(2) root_has_no_token [OF index] by auto
    ultimately show ?thesis using loop(3) m1(2) by auto
  qed
qed

subsection \<open>The operations on masks\<close>

lemma compute_mask_ok:
  assumes ok: "automaton_ok tb a" and index: "index_ok tb index t lab" and st: "denotes a st S"
    and room: "length (states a) + length lab \<le> DEAD"
  shows "\<exists>m a'. compute_mask st index a = Some (m, a') \<and> extends tb (length lab) a a' \<and>
    mask_exact tb (grammar_of a) S m"
proof -
  obtain children terminals where t: "t = (children, terminals)" by (cases t)
  note index' = index [unfolded t]
  have trie: "trie_ok tb lab (children, terminals)" using index' by (simp add: index_ok_def)
  then have root: "0 < length lab" by (auto simp: trie_ok_def)
  have few: "card (nodes_below children 0) \<le> length lab" using card_below_root [OF trie] by simp
  have "vocabulary_size index = length tb" using index' by (simp add: index_ok_def)
  moreover have "stands_for a (length lab) [(0, st)] [(0, S)]" using st root by (simp add: stands_for_def)
  ultimately obtain m a' where "compute_mask st index a = Some (m, a')"
    and ext: "extends tb (card (nodes_below children 0)) a a'"
    and m: "length m = div_ceil (length tb) 64" "bits m = tokens_from (children, terminals) (grammar_of a) (0, S)"
    using mask_loop_ok [OF index' ok, of "[(0, st)]" "[(0, S)]" "replicate (div_ceil (length tb) 64) 0"]
      few room by (auto simp: compute_mask_def bits_replicate)
  moreover have "mask_exact tb (grammar_of a) S m"
    using m tokens_from_root [OF index'] by (simp add: mask_exact_bits)
  ultimately show ?thesis using extends_mono [OF ext few] by blast
qed

lemma set_mask_ok:
  assumes ok: "automaton_ok tb a" and i: "i < length (states a)"
    and m: "mask_exact tb (grammar_of a) (stacks_at a i) m"
  shows "extends tb 0 a (a\<lparr>states := (states a)[i := (states a ! i)\<lparr>mask := Some m\<rparr>]\<rparr>)"
proof -
  let ?a = "a\<lparr>states := (states a)[i := (states a ! i)\<lparr>mask := Some m\<rparr>]\<rparr>"
  have same: "stacks_at ?a j = stacks_at a j" for j
    using i by (cases "j = i") (simp_all add: stacks_at_def)
  have acc: "accepting (states ?a ! j) = accepting (states a ! j)" if "j < length (states a)" for j
    using that by (cases "j = i") simp_all
  have "transition_ok ?a j = transition_ok a j" for j
    by (rule ext) (simp add: transition_ok_def same)
  moreover have "\<forall>m'. mask (states ?a ! j) = Some m' \<longrightarrow> mask_exact tb (grammar_of a) (stacks_at a j) m'"
    if "j < length (states a)" for j
    using that m automaton_okD(6) [OF ok that] by (cases "j = i") auto
  ultimately have "automaton_ok tb ?a"
    using ok acc unfolding automaton_ok_def same by (intro conjI allI impI) simp_all
  then show ?thesis by (simp add: extends_def grows_def same)
qed

lemma cached_mask_ok:
  assumes ok: "automaton_ok tb a" and index: "index_ok tb index t lab" and st: "denotes a st S"
    and room: "length (states a) + length lab \<le> DEAD"
  shows "\<exists>m a'. cached_mask st index a = Some (m, a') \<and> extends tb (length lab) a a' \<and>
    mask_exact tb (grammar_of a) S m"
proof -
  have st': "st < length (states a)" "stacks_at a st = S" using st by (simp_all add: denotes_def)
  show ?thesis
  proof (cases "mask (states a ! st)")
    case (Some m)
    with st' automaton_okD(6) [OF ok st'(1)] extends_mono [OF extends_refl [OF ok]] show ?thesis
      by (simp add: cached_mask_def)
  next
    case None
    from compute_mask_ok [OF ok index st room] obtain m a1 where c: "compute_mask st index a = Some (m, a1)"
      "extends tb (length lab) a a1" "mask_exact tb (grammar_of a) S m" by blast
    have a1: "automaton_ok tb a1" "grammar_of a1 = grammar_of a" "st < length (states a1)" "stacks_at a1 st = S"
      using c(2) st' by (auto simp: extends_def grows_def)
    let ?a = "a1\<lparr>states := (states a1)[st := (states a1 ! st)\<lparr>mask := Some m\<rparr>]\<rparr>"
    have "extends tb 0 a1 ?a" by (rule set_mask_ok [OF a1(1,3)]) (use c(3) a1 in simp)
    from extends_trans [OF c(2) this] have "extends tb (length lab) a ?a" by simp
    moreover have "cached_mask st index a = Some (m, ?a)"
      using None c(1) st'(1) a1(3) by (simp add: cached_mask_def)
    ultimately show ?thesis using c(3) by blast
  qed
qed

lemma mask_bit_ok:
  assumes "mask_exact tb g S m" and "i < length tb"
  shows "mask_bit m i = Some (fits tb g S i)"
proof -
  have "i < 64 * length m"
    using assms div_ceil_le_iff [of 64 "length tb" "length m"] by (simp add: mask_exact_def)
  with assms(1) show ?thesis
    by (auto simp: mask_bit_def and_bit_nonzero mask_exact_def simp del: push_bit_of_1)
qed

text \<open>The loop of \<open>apply_mask\<close>.\<close>

lemma narrow_ok:
  assumes m: "mask_exact tb g S m" and n: "n \<le> length tb" "n \<le> length allowed"
  shows "foldO (\<lambda>i (any, allowed). do {
       entry \<leftarrow> (if allowed ! i then mask_bit m i else Some False);
       Some (any \<or> entry, allowed[i := entry]) }) [0..<n] (False, allowed) =
     Some (\<exists>i<n. allowed ! i \<and> fits tb g S i,
           map (\<lambda>i. allowed ! i \<and> (i < n \<longrightarrow> fits tb g S i)) [0..<length allowed])"
  using n
proof (induction n)
  case 0
  then show ?case by (simp add: map_nth)
next
  case (Suc n)
  let ?al = "map (\<lambda>i. allowed ! i \<and> (i < n \<longrightarrow> fits tb g S i)) [0..<length allowed]"
  have n: "n < length tb" "n < length allowed" using Suc.prems by simp_all
  have "?al ! n = allowed ! n" using n by simp
  moreover have "?al[n := allowed ! n \<and> fits tb g S n] =
      map (\<lambda>i. allowed ! i \<and> (i < Suc n \<longrightarrow> fits tb g S i)) [0..<length allowed]"
  proof (rule nth_equalityI)
    fix i assume "i < length (?al[n := allowed ! n \<and> fits tb g S n])"
    then show "?al[n := allowed ! n \<and> fits tb g S n] ! i =
        map (\<lambda>i. allowed ! i \<and> (i < Suc n \<longrightarrow> fits tb g S i)) [0..<length allowed] ! i"
      using n by (cases "i = n") (auto simp: less_Suc_eq)
  qed simp
  moreover have "(\<exists>i<Suc n. allowed ! i \<and> fits tb g S i) \<longleftrightarrow>
      (\<exists>i<n. allowed ! i \<and> fits tb g S i) \<or> allowed ! n \<and> fits tb g S n"
    by (auto simp: less_Suc_eq)
  ultimately show ?case
    using Suc mask_bit_ok [OF m n(1)] by (cases "allowed ! n") (simp_all add: foldO_append)
qed

lemma apply_mask_ok:
  assumes index: "index_ok tb index t lab" and ready: "ready tb (length lab + 1) a c"
    and allowed: "length tb \<le> length allowed"
  shows "\<exists>c' a'. apply_mask c index allowed a =
      Some (\<exists>i<length tb. allowed ! i \<and> fits tb (grammar_of a) (cursor_stacks c) i,
        map (\<lambda>i. allowed ! i \<and> (i < length tb \<longrightarrow> fits tb (grammar_of a) (cursor_stacks c) i))
          [0..<length allowed], c', a') \<and>
    retains tb a a' \<and> resolved a' c' \<and> cursor_stacks c' = cursor_stacks c"
proof -
  from trim_resolve_ok [OF ready] obtain c1 a1 where r: "resolve c (trim a) = (c1, a1)"
    "automaton_ok tb a1" "retains tb a a1" "resolved a1 c1" "cursor_stacks c1 = cursor_stacks c"
    "length (states a1) \<le> MAX_STATES + 1" by blast
  have g: "grammar_of a1 = grammar_of a" using r(3) by (simp add: retains_def)
  have "length (states a1) + length lab \<le> DEAD" using r(6) ready by (simp add: ready_def)
  from cached_mask_ok [OF r(2) index resolvedD [OF r(4)] this, unfolded g r(5)] obtain m a2
    where m: "cached_mask (cursor_state c1) index a1 = Some (m, a2)" "extends tb (length lab) a1 a2"
      "mask_exact tb (grammar_of a) (cursor_stacks c) m" by blast
  have "resolved a2 c1" using m(2) grows_resolved [OF _ r(4)] by (simp add: extends_def)
  moreover have "vocabulary_size index = length tb" using index by (simp add: index_ok_def split: prod.splits)
  ultimately show ?thesis
    using r m(1) retains_extends [OF r(3) m(2)] narrow_ok [OF m(3) order_refl allowed] allowed
    by (simp add: apply_mask_def)
qed

lemma allows_ok:
  assumes index: "index_ok tb index t lab" and ready: "ready tb (length lab + 1) a c"
  shows "\<exists>c' a'. allows c index token a = Some (fits tb (grammar_of a) (cursor_stacks c) token, c', a') \<and>
    retains tb a a' \<and> resolved a' c' \<and> cursor_stacks c' = cursor_stacks c"
proof -
  from trim_resolve_ok [OF ready] obtain c1 a1 where r: "resolve c (trim a) = (c1, a1)"
    "automaton_ok tb a1" "retains tb a a1" "resolved a1 c1" "cursor_stacks c1 = cursor_stacks c"
    "length (states a1) \<le> MAX_STATES + 1" by blast
  have g: "grammar_of a1 = grammar_of a" using r(3) by (simp add: retains_def)
  have "length (states a1) + length lab \<le> DEAD" using r(6) ready by (simp add: ready_def)
  from cached_mask_ok [OF r(2) index resolvedD [OF r(4)] this, unfolded g r(5)] obtain m a2
    where m: "cached_mask (cursor_state c1) index a1 = Some (m, a2)" "extends tb (length lab) a1 a2"
      "mask_exact tb (grammar_of a) (cursor_stacks c) m" by blast
  have "resolved a2 c1" using m(2) grows_resolved [OF _ r(4)] by (simp add: extends_def)
  moreover have "(case get m (token div 64) of None \<Rightarrow> False
      | Some w \<Rightarrow> w AND push_bit (token mod 64) 1 \<noteq> 0) = fits tb (grammar_of a) (cursor_stacks c) token"
  proof (cases "token div 64 < length m")
    case True
    then have "token < 64 * length m" by simp
    with m(3) True show ?thesis
      by (auto simp: and_bit_nonzero mask_exact_def simp del: push_bit_of_1)
  next
    case False
    then have "get m (token div 64) = None" by simp
    moreover have "length tb \<le> token"
      using False m(3) div_ceil_le_iff [of 64 "length tb" "length m"] by (simp add: mask_exact_def)
    ultimately show ?thesis by (simp add: fits_def)
  qed
  ultimately show ?thesis
    using r m(1) retains_extends [OF r(3) m(2)] by (simp add: allows_def)
qed

end
