(* ===== verification/Grammar_Session.thy ===== *)
theory Grammar_Session
  imports Grammar_Mask
begin

text \<open>
  A session: one automaton shared by any number of cursors, as the engine shares it between requests.
  Every step is one call of the public interface; the ghost part of a cursor is the bytes it has
  consumed. The invariant says that a cursor is always where the stack machine is after those bytes,
  however the calls on the shared caches interleave.
\<close>

subsection \<open>Sessions\<close>

type_synonym session = "automaton \<times> (cursor \<times> octet list) list"

text \<open>Room for the states one call can add, and fewer than \<open>2 ^ 64\<close> resets.\<close>

definition state_room :: "nat \<Rightarrow> automaton \<Rightarrow> bool" where
  "state_room n a = (generation a < u64_max \<and> MAX_STATES + n < DEAD \<and> length (states a) < DEAD)"

inductive session_step :: "octet list list \<Rightarrow> u32 list \<Rightarrow> session \<Rightarrow> session \<Rightarrow> bool" for tb order where
  session_open: "state_room 1 a \<Longrightarrow> start_cursor a = Some (c, a') \<Longrightarrow>
    session_step tb order (a, cs) (a', (c, []) # cs)"
| session_advance: "i < length cs \<Longrightarrow> cs ! i = (c, w) \<Longrightarrow> state_room (length v + 1) a \<Longrightarrow>
    advance c v a = Some (went, c', a') \<Longrightarrow>
    session_step tb order (a, cs) (a', cs[i := (c', if went then w @ v else w)])"
| session_accepting: "i < length cs \<Longrightarrow> cs ! i = (c, w) \<Longrightarrow> state_room 1 a \<Longrightarrow>
    is_accepting c a = Some (yes, c', a') \<Longrightarrow> session_step tb order (a, cs) (a', cs[i := (c', w)])"
| session_mask: "i < length cs \<Longrightarrow> cs ! i = (c, w) \<Longrightarrow> state_room (length (concat tb) + 2) a \<Longrightarrow>
    apply_mask c (index_from tb order) allowed a = Some (left, allowed', c', a') \<Longrightarrow>
    session_step tb order (a, cs) (a', cs[i := (c', w)])"
| session_allows: "i < length cs \<Longrightarrow> cs ! i = (c, w) \<Longrightarrow> state_room (length (concat tb) + 2) a \<Longrightarrow>
    allows c (index_from tb order) token a = Some (yes, c', a') \<Longrightarrow>
    session_step tb order (a, cs) (a', cs[i := (c', w)])"

definition session_init :: "grammar \<Rightarrow> session \<Rightarrow> bool" where
  "session_init g s = (grammar_ok g \<and> s = (automaton_new g, []))"

definition vocabulary_ok :: "octet list list \<Rightarrow> u32 list \<Rightarrow> bool" where
  "vocabulary_ok tb order = (length (concat tb) < u32_max \<and> length tb \<le> u32_max \<and>
     mset order = mset (usable_ids tb))"

definition consumed_ok :: "automaton \<Rightarrow> cursor \<times> octet list \<Rightarrow> bool" where
  "consumed_ok a cw = (cursor_ok a (fst cw) \<and>
     cursor_stacks (fst cw) = run (grammar_of a) (initial (grammar_of a)) (snd cw))"

definition session_inv :: "octet list list \<Rightarrow> grammar \<Rightarrow> session \<Rightarrow> bool" where
  "session_inv tb g s = (case s of (a, cs) \<Rightarrow>
     automaton_ok tb a \<and> grammar_of a = g \<and> (\<forall>cw\<in>set cs. consumed_ok a cw))"

definition session_le :: "session \<Rightarrow> session \<Rightarrow> bool" where
  "session_le s t = (grammar_of (fst s) = grammar_of (fst t) \<and> generation (fst s) \<le> generation (fst t) \<and>
     length (snd s) \<le> length (snd t))"

lemma index_from_index:
  "vocabulary_ok tb order \<Longrightarrow> \<exists>t lab. index_ok tb (index_from tb order) t lab \<and> length lab \<le> 1 + length (concat tb)"
  unfolding vocabulary_ok_def by (rule index_from_ok) simp_all

lemma state_room_ready: "state_room n a \<Longrightarrow> automaton_ok tb a \<Longrightarrow> cursor_ok a c \<Longrightarrow> m \<le> n \<Longrightarrow> ready tb m a c"
  by (simp add: state_room_def ready_def)

lemma consumed_okD:
  "session_inv tb g (a, cs) \<Longrightarrow> cw \<in> set cs \<Longrightarrow>
     cursor_ok a (fst cw) \<and> cursor_stacks (fst cw) = run g (initial g) (snd cw)"
  by (auto simp: session_inv_def consumed_ok_def)

lemma session_nth:
  assumes "session_inv tb g (a, cs)" and "i < length cs" and "cs ! i = (c, w)"
  shows "cursor_ok a c" and "cursor_stacks c = run g (initial g) w" and "automaton_ok tb a" and "grammar_of a = g"
  using consumed_okD [OF assms(1), of "(c, w)"] assms nth_mem [of i cs] by (auto simp: session_inv_def)

text \<open>One call on one cursor keeps every other cursor of the session.\<close>

lemma session_update:
  assumes inv: "session_inv tb g (a, cs)" and retains: "retains tb a a'" and c: "resolved a' c'"
    and w: "cursor_stacks c' = run g (initial g) w'"
  shows "session_inv tb g (a', cs[i := (c', w')])" and "session_le (a, cs) (a', cs[i := (c', w')])"
proof -
  have g: "grammar_of a' = g" "automaton_ok tb a'" using inv retains by (simp_all add: session_inv_def retains_def)
  have "consumed_ok a' (c', w')" using c w g by (simp add: consumed_ok_def resolved_def)
  moreover have "consumed_ok a' cw" if "cw \<in> set cs" for cw
    using consumed_okD [OF inv that] retains g by (auto simp: consumed_ok_def retains_def)
  ultimately show "session_inv tb g (a', cs[i := (c', w')])"
    using g set_update_subset_insert [of cs i "(c', w')"] by (auto simp: session_inv_def)
  show "session_le (a, cs) (a', cs[i := (c', w')])" using retains by (simp add: session_le_def retains_def)
qed

lemma session_call:
  assumes inv: "session_inv tb g (a, cs)" and i: "i < length cs" "cs ! i = (c, w)"
    and retains: "retains tb a a'" and c: "resolved a' c'" and v: "cursor_stacks c' = run g (cursor_stacks c) v"
  shows "session_inv tb g (a', cs[i := (c', w @ v)]) \<and> session_le (a, cs) (a', cs[i := (c', w @ v)])"
proof -
  have "cursor_stacks c' = run g (initial g) (w @ v)"
    unfolding run_append using v session_nth(2) [OF inv i] by simp
  then show ?thesis using session_update [OF inv retains c] by blast
qed

lemma extends_retains: "automaton_ok tb a \<Longrightarrow> extends tb n a a' \<Longrightarrow> retains tb a a'"
  by (rule retains_extends [of tb a a]) (simp_all add: retains_def)

lemma apply_mask_long:
  "apply_mask c index allowed a = Some r \<Longrightarrow> vocabulary_size index \<le> length allowed"
  by (auto simp: apply_mask_def Option.bind_eq_Some_conv split: prod.splits if_splits)

lemma session_step_inv:
  assumes vocabulary: "vocabulary_ok tb order"
  shows "session_step tb order s s' \<Longrightarrow> session_inv tb g s \<Longrightarrow> session_inv tb g s' \<and> session_le s s'"
proof (induction rule: session_step.induct)
  case (session_open a c a' cs)
  have ok: "automaton_ok tb a" "grammar_of a = g" using session_open.prems by (simp_all add: session_inv_def)
  from start_cursor_ok [OF ok(1)] session_open.hyps obtain
    ext: "extends tb 1 a a'" and c: "resolved a' c" "cursor_stacks c = initial g"
    using ok(2) by (auto simp: state_room_def)
  have k: "retains tb a a'" by (rule extends_retains [OF ok(1) ext])
  from session_update [OF session_open.prems k c(1), of "[]" "length cs"] c(2)
  have inv: "session_inv tb g (a', cs)" "session_le (a, cs) (a', cs)" by (simp_all add: list_update_beyond)
  have "consumed_ok a' (c, [])" using c k ok(2) by (simp add: consumed_ok_def resolved_def retains_def)
  with inv show ?case by (auto simp: session_inv_def session_le_def)
next
  case (session_advance i cs c w v a went c' a')
  note at = session_nth [OF session_advance.prems session_advance.hyps(1,2)]
  from advance_ok [OF state_room_ready [OF session_advance.hyps(3) at(3,1) order_refl]] session_advance.hyps(4) at(4)
  have "retains tb a a'" "resolved a' c'" "cursor_stacks c' = run g (cursor_stacks c) (if went then v else [])"
    by auto
  from session_call [OF session_advance.prems session_advance.hyps(1,2) this] show ?case
    by (cases went) simp_all
next
  case (session_accepting i cs c w a yes c' a')
  note at = session_nth [OF session_accepting.prems session_accepting.hyps(1,2)]
  from is_accepting_ok [OF at(3,1)] session_accepting.hyps(3,4)
  have "extends tb 1 a a'" and c: "resolved a' c'" "cursor_stacks c' = cursor_stacks c"
    by (auto simp: state_room_def)
  from session_call [OF session_accepting.prems session_accepting.hyps(1,2) extends_retains [OF at(3) this(1)] c(1), of "[]"]
    c(2) show ?case by simp
next
  case (session_mask i cs c w a allowed left allowed' c' a')
  note at = session_nth [OF session_mask.prems session_mask.hyps(1,2)]
  from index_from_index [OF vocabulary] obtain t lab where index: "index_ok tb (index_from tb order) t lab"
    and lab: "length lab + 1 \<le> length (concat tb) + 2" by auto
  have "length tb \<le> length allowed"
    using apply_mask_long [OF session_mask.hyps(4)] index by (simp add: index_ok_def split: prod.splits)
  from apply_mask_ok [OF index state_room_ready [OF session_mask.hyps(3) at(3,1) lab] this] session_mask.hyps(4)
  have c: "retains tb a a'" "resolved a' c'" "cursor_stacks c' = cursor_stacks c" by auto
  from session_call [OF session_mask.prems session_mask.hyps(1,2) c(1,2), of "[]"] c(3) show ?case by simp
next
  case (session_allows i cs c w a token yes c' a')
  note at = session_nth [OF session_allows.prems session_allows.hyps(1,2)]
  from index_from_index [OF vocabulary] obtain t lab where index: "index_ok tb (index_from tb order) t lab"
    and lab: "length lab + 1 \<le> length (concat tb) + 2" by auto
  from allows_ok [OF index state_room_ready [OF session_allows.hyps(3) at(3,1) lab], of token] session_allows.hyps(4)
  have c: "retains tb a a'" "resolved a' c'" "cursor_stacks c' = cursor_stacks c" by auto
  from session_call [OF session_allows.prems session_allows.hyps(1,2) c(1,2), of "[]"] c(3) show ?case by simp
qed

lemma session_init_inv: "session_init g s \<Longrightarrow> session_inv tb g s"
  by (auto simp: session_init_def session_inv_def automaton_ok_new) (simp add: automaton_new_def)

text \<open>The vocabulary of a session is fixed, so the contract holds for well-formed vocabularies.\<close>

definition vocabulary_step :: "octet list list \<Rightarrow> u32 list \<Rightarrow> session \<Rightarrow> session \<Rightarrow> bool" where
  "vocabulary_step tb order s t = (vocabulary_ok tb order \<and> session_step tb order s t)"

interpretation session: invariant_system "session_init g" "vocabulary_step tb order" "session_inv tb g" session_le
  for g tb order
  by unfold_locales
    (auto simp: session_init_inv vocabulary_step_def dest: session_step_inv, auto simp: session_le_def)

lemma session_cursor:
  assumes "reachable (session_init g) (vocabulary_step tb order) (a, cs)" and "(c, w) \<in> set cs"
  shows "automaton_ok tb a" and "grammar_of a = g" and "cursor_ok a c" and "cursor_stacks c = run g (initial g) w"
    and "grammar_ok g"
proof -
  have inv: "session_inv tb g (a, cs)" by (rule session.reachable_inv [OF assms(1)])
  then show "automaton_ok tb a" "grammar_of a = g" by (simp_all add: session_inv_def)
  then show "grammar_ok g" using automaton_ok_parts(1) by blast
  show "cursor_ok a c" "cursor_stacks c = run g (initial g) w"
    using consumed_okD [OF inv assms(2)] by simp_all
qed

lemma acceptance:
  assumes "reachable (session_init g) (vocabulary_step tb order) (a, cs)" and "(c, w) \<in> set cs" and "state_room 1 a"
  shows "\<exists>c' a'. is_accepting c a = Some (accepting_state (run g (initial g) w), c', a')"
  using is_accepting_ok [of tb a c] session_cursor [OF assms(1,2)] assms(3) by (auto simp: state_room_def)

lemma advancing:
  assumes "reachable (session_init g) (vocabulary_step tb order) (a, cs)" and "(c, w) \<in> set cs"
    and "state_room n a" and "length v + 1 \<le> n"
  shows "\<exists>c' a'. advance c v a = Some (survives g (run g (initial g) w) v, c', a') \<and>
    cursor_stacks c' = run g (initial g) (if survives g (run g (initial g) w) v then w @ v else w)"
proof -
  note at = session_cursor [OF assms(1,2)]
  from advance_ok [OF state_room_ready [OF assms(3) at(1,3) assms(4)]] at show ?thesis
    by (auto simp: run_append)
qed

end
