(* ===== verification/Grammar_Props.thy ===== *)
theory Grammar_Props
  imports Grammar_Session
begin

text \<open>
  The properties of the grammar component, over all sessions, with a session that runs as their witness.
\<close>

subsection \<open>A session that runs\<close>

text \<open>The grammar of \<open>a(b|c)*d\<close> and the vocabulary of the unit tests of \<open>grammar.rs\<close>.\<close>

definition demo_rules :: rules where
  "demo_rules =
     [[[Bytes (class_byte 97), Rule 1]],
      [[Bytes (class_range 98 99), Rule 1], [Bytes (class_byte 100)]]]"

definition demo_grammar :: grammar where
  "demo_grammar = \<lparr>rules = demo_rules, start = 0\<rparr>"

definition demo_vocab :: "octet list list" where
  "demo_vocab = [[97], [97, 98], [97, 98, 100], [98, 100], [120], [], [97, 120]]"

definition demo_order :: "u32 list" where
  "demo_order = sorted_ids demo_vocab"

lemmas build_eval = build_def check_rules_def failE_def rules_ok_def alternative_ok_def nullable_rules_def
  nullable_loop.simps nullable_pass_def enumerate_eq_zip visit.simps reject_left_recursion_def get_def upt_rec

lemmas stack_eval = start_stacks_def advance_stacks_def expand.simps pop_def element_def first_frame_def
  next_frame_def canonical_def wrapping_add32_def get_def upt_rec to_u32_def u32_try_from_def
  class_contains_byte class_contains_range less_frame_def less_eq_frame_def

lemma demo_build: "build demo_rules 0 = Some (Inr demo_grammar)"
  by (simp add: demo_grammar_def demo_rules_def build_eval cong: returns_eval)

lemma demo_grammar_ok: "sized demo_rules" "grammar_ok demo_grammar"
proof -
  show "sized demo_rules" by (simp add: sized_def demo_rules_def)
  with demo_build show "grammar_ok demo_grammar" by (rule build_grammar_ok)
qed

text \<open>The states of the grammar: before \<open>a\<close>, inside, and after \<open>d\<close>.\<close>

lemma demo_initial: "initial demo_grammar = [[Frame 0 0 0]]"
proof -
  have "start_stacks demo_grammar = Some [[Frame 0 0 0]]"
    by (simp add: demo_grammar_def demo_rules_def stack_eval cong: returns_eval)
  with start_returns [OF demo_grammar_ok(2)] show ?thesis by simp
qed

lemma demo_state_ok: "state_ok demo_grammar [[Frame 0 0 0]]" "state_ok demo_grammar [[Frame 1 0 0], [Frame 1 1 0]]"
  by (simp_all add: state_ok_def at_rest_def stack_ok_def frame_ok_def alternative_of_def remaining_def
      demo_grammar_def demo_rules_def)

lemma stepped_eqI:
  "grammar_ok g \<Longrightarrow> state_ok g S \<Longrightarrow> advance_stacks g S b = Some T \<Longrightarrow> stepped g S b = T"
  using advance_returns [of g S b] by (simp add: stepped_def)

lemma demo_stepped:
  "stepped demo_grammar [[Frame 0 0 0]] 97 = [[Frame 1 0 0], [Frame 1 1 0]]"
  "stepped demo_grammar [[Frame 1 0 0], [Frame 1 1 0]] 98 = [[Frame 1 0 0], [Frame 1 1 0]]"
  "stepped demo_grammar [[Frame 1 0 0], [Frame 1 1 0]] 100 = [[]]"
proof -
  have "advance_stacks demo_grammar [[Frame 0 0 0]] 97 = Some [[Frame 1 0 0], [Frame 1 1 0]]"
    by (simp add: demo_grammar_def demo_rules_def stack_eval cong: returns_eval)
  then show "stepped demo_grammar [[Frame 0 0 0]] 97 = [[Frame 1 0 0], [Frame 1 1 0]]"
    by (rule stepped_eqI [OF demo_grammar_ok(2) demo_state_ok(1)])
  have "advance_stacks demo_grammar [[Frame 1 0 0], [Frame 1 1 0]] 98 = Some [[Frame 1 0 0], [Frame 1 1 0]]"
    by (simp add: demo_grammar_def demo_rules_def stack_eval cong: returns_eval)
  then show "stepped demo_grammar [[Frame 1 0 0], [Frame 1 1 0]] 98 = [[Frame 1 0 0], [Frame 1 1 0]]"
    by (rule stepped_eqI [OF demo_grammar_ok(2) demo_state_ok(2)])
  have "advance_stacks demo_grammar [[Frame 1 0 0], [Frame 1 1 0]] 100 = Some [[]]"
    by (simp add: demo_grammar_def demo_rules_def stack_eval cong: returns_eval)
  then show "stepped demo_grammar [[Frame 1 0 0], [Frame 1 1 0]] 100 = [[]]"
    by (rule stepped_eqI [OF demo_grammar_ok(2) demo_state_ok(2)])
qed

abbreviation (input) "abd \<equiv> [97, 98, 100] :: octet list"

lemma demo_run: "run demo_grammar (initial demo_grammar) abd = [[]]"
  by (simp add: demo_initial demo_stepped del: One_nat_def)

lemma demo_untruncated: "untruncated demo_grammar (initial demo_grammar) abd"
  by (simp add: demo_initial demo_stepped del: One_nat_def)

lemma demo_vocabulary: "vocabulary_ok demo_vocab demo_order"
  by (simp add: vocabulary_ok_def demo_order_def sorted_ids_perm demo_vocab_def)

text \<open>One cursor is opened and consumes the sentence \<open>abd\<close>.\<close>

definition demo_open :: "cursor \<times> automaton" where
  "demo_open = the (start_cursor (automaton_new demo_grammar))"

definition demo_done :: "bool \<times> cursor \<times> automaton" where
  "demo_done = the (advance (fst demo_open) abd (snd demo_open))"

definition opened :: session where
  "opened = (snd demo_open, [(fst demo_open, [])])"

definition finished :: session where
  "finished = (snd (snd demo_done), [(fst (snd demo_done), abd)])"

lemma new_room: "n \<le> 100 \<Longrightarrow> state_room n (automaton_new g)"
  by (simp add: state_room_def automaton_new_def)

lemma demo_opened:
  "start_cursor (automaton_new demo_grammar) = Some demo_open"
  "extends demo_vocab 1 (automaton_new demo_grammar) (snd demo_open)"
  using start_cursor_ok [OF automaton_ok_new [OF demo_grammar_ok(2)], of demo_vocab]
  by (auto simp: demo_open_def automaton_new_def)

lemma opened_room: "n \<le> 100 \<Longrightarrow> state_room n (snd demo_open)"
  using demo_opened(2) by (auto simp: extends_def grows_def state_room_def automaton_new_def)

lemma opened_reachable:
  "reachable (session_init demo_grammar) (vocabulary_step demo_vocab demo_order) opened"
proof (rule reachable.move)
  show "reachable (session_init demo_grammar) (vocabulary_step demo_vocab demo_order)
      (automaton_new demo_grammar, [])"
    by (rule reachable.start) (simp add: session_init_def demo_grammar_ok)
  show "vocabulary_step demo_vocab demo_order (automaton_new demo_grammar, []) opened"
    using demo_vocabulary new_room demo_opened(1) session_open [of "automaton_new demo_grammar" "fst demo_open"]
    by (simp add: vocabulary_step_def opened_def)
qed

lemma demo_finished:
  "advance (fst demo_open) abd (snd demo_open) = Some demo_done" "fst demo_done"
proof -
  have "\<exists>c a. advance (fst demo_open) abd (snd demo_open) = Some (True, c, a)"
    using advancing [OF opened_reachable [unfolded opened_def], of "fst demo_open" "[]" 4 abd] opened_room [of 4] demo_run
    by (auto simp: survives_def)
  then show "advance (fst demo_open) abd (snd demo_open) = Some demo_done" "fst demo_done"
    by (auto simp: demo_done_def)
qed

lemma finished_reachable:
  "reachable (session_init demo_grammar) (vocabulary_step demo_vocab demo_order) finished"
proof (rule reachable.move [OF opened_reachable])
  have "session_step demo_vocab demo_order opened
      (snd (snd demo_done), [(fst demo_open, [])][0 := (fst (snd demo_done), if fst demo_done then [] @ abd else [])])"
    unfolding opened_def
    by (rule session_advance [where c = "fst demo_open"]) (use opened_room demo_finished(1) in simp_all)
  then show "vocabulary_step demo_vocab demo_order opened finished"
    using demo_vocabulary demo_finished(2) by (simp add: vocabulary_step_def finished_def)
qed

lemma finished_room: "n \<le> 100 \<Longrightarrow> state_room n (snd (snd demo_done))"
proof -
  assume n: "n \<le> 100"
  note at = session_cursor [OF opened_reachable [unfolded opened_def], of "fst demo_open" "[]"]
  have "ready demo_vocab (length abd + 1) (snd demo_open) (fst demo_open)"
    using state_room_ready [OF opened_room [of 4] at(1,3)] by simp
  from advance_ok [OF this] demo_finished(1) obtain r c a where eq: "demo_done = (r, c, a)"
    and k: "retains demo_vocab (snd demo_open) a" "length (states a) \<le> MAX_STATES + 1 + length abd" by auto
  have "snd (snd demo_done) = a" unfolding eq by simp
  then have "generation (snd (snd demo_done)) \<le> generation (snd demo_open) + 1"
    "length (states (snd (snd demo_done))) \<le> MAX_STATES + 4" using k by (simp_all add: retains_def)
  moreover have "generation (snd demo_open) = 0"
    using demo_opened(2) by (simp add: extends_def grows_def automaton_new_def)
  ultimately show "state_room n (snd (snd demo_done))" using n by (simp add: state_room_def)
qed

subsection \<open>The properties\<close>

text \<open>C39. \<open>build\<close> always returns. It rejects a rule table as malformed exactly if the start rule is
  missing, a rule has no alternative or an element refers to a missing rule; it rejects the remaining
  ones as left-recursive exactly if some rule reaches itself through a prefix of rules that derive the
  empty string; and it returns the grammar otherwise.
\<close>

theorem build_exact:
  "build rs s = Some (
     if s < length rs \<and> rules_ok rs
     then if left_recursive rs then Inl LeftRecursion else Inr \<lparr>rules = rs, start = s\<rparr>
     else Inl MalformedRule)"
  by (auto simp: build_returns)

text \<open>C40. For a grammar that \<open>build\<close> accepted, the recursion of \<open>expand\<close> ends on every well-formed
  stack within the depth bound, without an index out of range; every stack it appends is empty or has a
  byte class on top, and is within the depth bound.
\<close>

theorem expansion_terminates:
  assumes "build rs s = Some (Inr g)" and "sized rs" and "stack_ok g stack" and "length stack \<le> MAX_STACK_DEPTH"
  shows "\<exists>new. expand g stack out = Some (out @ new) \<and>
    (\<forall>t\<in>set new. at_rest g t \<and> length t \<le> MAX_STACK_DEPTH)"
proof -
  have g: "grammar_ok g" by (rule build_grammar_ok [OF assms(1,2)])
  from expand_returns [OF g assms(3)] expanded_state_ok [OF g assms(3,4)] show ?thesis
    by (auto simp: state_ok_def)
qed

theorem expansion_terminates_witness:
  "\<exists>new. expand demo_grammar [Frame 0 0 1] [] = Some ([] @ new) \<and>
    (\<forall>t\<in>set new. at_rest demo_grammar t \<and> length t \<le> MAX_STACK_DEPTH)"
  by (rule expansion_terminates [OF demo_build demo_grammar_ok(1)])
    (simp_all add: stack_ok_def frame_ok_def alternative_of_def demo_grammar_def demo_rules_def)


text \<open>C34. In every session, a cursor that has consumed the bytes \<open>w\<close> answers \<open>is_accepting\<close>; the
  answer is yes only if \<open>w\<close> is a sentence of the grammar, and, unless a state on the way reached the
  ambiguity bound, it is yes exactly if \<open>w\<close> has a derivation whose stack stays within the depth bound.
\<close>

theorem acceptance_exact:
  assumes "reachable (session_init g) (vocabulary_step tb order) (a, cs)" and "(c, w) \<in> set cs"
    and "state_room 1 a"
  shows "\<exists>yes c' a'. is_accepting c a = Some (yes, c', a') \<and> (yes \<longrightarrow> w \<in> language g) \<and>
    (untruncated g (initial g) w \<longrightarrow> (yes \<longleftrightarrow> start_parses g MAX_STACK_DEPTH w))"
proof -
  note g = session_cursor(5) [OF assms(1,2)] and answer = acceptance [OF assms]
  let ?yes = "accepting_state (run g (initial g) w)"
  have sound: "start_parses g MAX_STACK_DEPTH w" if ?yes
    using initial_exact(2) [OF g] run_sound [OF g initial_exact(1) [OF g] that] by blast
  moreover have "w \<in> language g" if ?yes
    using language_parses [OF g] sound [OF that] by blast
  moreover have ?yes if "untruncated g (initial g) w" "start_parses g MAX_STACK_DEPTH w"
    using run_complete [OF g initial_exact(1) [OF g] that(1)]
      initial_exact(3) [OF g untruncated_first [OF that(1)] that(2)] by blast
  ultimately show ?thesis using answer by blast
qed

theorem acceptance_exact_witness:
  "\<exists>c' a'. is_accepting (fst (snd demo_done)) (snd (snd demo_done)) = Some (True, c', a') \<and>
    abd \<in> language demo_grammar \<and> start_parses demo_grammar MAX_STACK_DEPTH abd"
  using acceptance_exact [OF finished_reachable [unfolded finished_def], of "fst (snd demo_done)" abd]
    acceptance [OF finished_reachable [unfolded finished_def], of "fst (snd demo_done)" abd]
    finished_room [of 1] demo_run demo_untruncated
  by (auto simp: accepting_state_def)


text \<open>C36. The caches are invisible. Two cursors of any two sessions on the same grammar that have
  consumed the same bytes give the same answer to \<open>advance\<close> and end on the same parse stacks, whatever
  other cursors did to the interned states, transitions and masks, and however often they were reset.
\<close>

theorem caching_is_invisible:
  assumes "reachable (session_init g) (vocabulary_step tb order) (a, cs)" and "(c, w) \<in> set cs"
    and "reachable (session_init g) (vocabulary_step tb' order') (b, ds)" and "(d, w) \<in> set ds"
    and "state_room (length v + 1) a" and "state_room (length v + 1) b"
  shows "\<exists>went c' a' d' b'. advance c v a = Some (went, c', a') \<and> advance d v b = Some (went, d', b') \<and>
    cursor_stacks c' = cursor_stacks d' \<and> (\<not> went \<longrightarrow> cursor_stacks c' = cursor_stacks c)"
  using advancing [OF assms(1,2,5) order_refl] advancing [OF assms(3,4,6) order_refl]
    session_cursor(4) [OF assms(1,2)] by auto

theorem caching_is_invisible_witness:
  "\<exists>went c' a' d' b'. advance (fst demo_open) abd (snd demo_open) = Some (went, c', a') \<and>
    advance (fst demo_open) abd (snd demo_open) = Some (went, d', b') \<and>
    cursor_stacks c' = cursor_stacks d' \<and> (\<not> went \<longrightarrow> cursor_stacks c' = cursor_stacks (fst demo_open))"
  by (rule caching_is_invisible [OF opened_reachable [unfolded opened_def] _ opened_reachable [unfolded opened_def],
        of _ "[]"]) (simp_all add: opened_room)


text \<open>C35. \<open>apply_mask\<close> clears exactly the entries of the tokens that \<open>advance\<close> would refuse (or that
  decode to nothing), leaves every entry beyond the vocabulary, and returns whether an entry of the
  vocabulary is left; \<open>allows\<close> is the answer of the mask for one token.
\<close>

theorem mask_equals_advance:
  assumes "reachable (session_init g) (vocabulary_step tb order) (a, cs)" and "(c, w) \<in> set cs"
    and "vocabulary_ok tb order" and "state_room (length (concat tb) + 2) a" and "length tb \<le> length allowed"
  shows "\<exists>left allowed' c' a'. apply_mask c (index_from tb order) allowed a = Some (left, allowed', c', a') \<and>
    length allowed' = length allowed \<and> left = (\<exists>i<length tb. allowed' ! i) \<and>
    (\<forall>i<length allowed. allowed' ! i \<longleftrightarrow> allowed ! i \<and>
       (i < length tb \<longrightarrow> tb ! i \<noteq> [] \<and> (\<exists>d b. advance c (tb ! i) a = Some (True, d, b)) \<and>
          (\<exists>d b. allows c (index_from tb order) i a = Some (True, d, b))))"
proof -
  note at = session_cursor [OF assms(1,2)]
  from index_from_index [OF assms(3)] obtain t lab where index: "index_ok tb (index_from tb order) t lab"
    and lab: "length lab + 1 \<le> length (concat tb) + 2" by auto
  note ready = state_room_ready [OF assms(4) at(1,3) lab]
  let ?fits = "fits tb g (run g (initial g) w)"
  have fits: "?fits i \<longleftrightarrow> tb ! i \<noteq> [] \<and> (\<exists>d b. advance c (tb ! i) a = Some (True, d, b)) \<and>
      (\<exists>d b. allows c (index_from tb order) i a = Some (True, d, b))" if i: "i < length tb" for i
  proof -
    have "length (tb ! i) \<le> length (concat tb)" using i by (simp add: length_concat member_le_sum_list)
    then show ?thesis
      using advancing [OF assms(1,2,4), of "tb ! i"] allows_ok [OF index ready, of i] at i
      by (auto simp: fits_def survives_def)
  qed
  from apply_mask_ok [OF index ready assms(5)] at obtain c' a' where
    "apply_mask c (index_from tb order) allowed a =
      Some (\<exists>i<length tb. allowed ! i \<and> ?fits i,
        map (\<lambda>i. allowed ! i \<and> (i < length tb \<longrightarrow> ?fits i)) [0..<length allowed], c', a')" by auto
  with assms(5) fits show ?thesis by auto
qed

theorem mask_equals_advance_witness:
  "\<exists>left allowed' c' a'. apply_mask (fst demo_open) (index_from demo_vocab demo_order) (replicate 7 True)
      (snd demo_open) = Some (left, allowed', c', a') \<and> left \<and> \<not> allowed' ! 5"
proof -
  have d: "(fst demo_open, []) \<in> set [(fst demo_open, [])]" by simp
  have room: "state_room (length (concat demo_vocab) + 2) (snd demo_open)"
    by (rule opened_room) (simp add: demo_vocab_def)
  have len: "length demo_vocab \<le> length (replicate 7 True)" by (simp add: demo_vocab_def)
  note fact = mask_equals_advance [OF opened_reachable [unfolded opened_def] d demo_vocabulary room len]
  from index_from_index [OF demo_vocabulary] obtain t lab
    where index: "index_ok demo_vocab (index_from demo_vocab demo_order) t lab"
      and lab: "length lab + 1 \<le> length (concat demo_vocab) + 2" by auto
  note at = session_cursor [OF opened_reachable [unfolded opened_def] d]
  have "fits demo_vocab demo_grammar (initial demo_grammar) 0"
    by (simp add: fits_def demo_vocab_def demo_initial demo_stepped)
  then have "\<exists>d b. allows (fst demo_open) (index_from demo_vocab demo_order) 0 (snd demo_open) = Some (True, d, b)"
    using allows_ok [OF index state_room_ready [OF room at(1,3) lab], of 0] at by auto
  moreover have "\<exists>d b. advance (fst demo_open) (demo_vocab ! 0) (snd demo_open) = Some (True, d, b)"
    using advancing [OF opened_reachable [unfolded opened_def] d opened_room [of 2], of "demo_vocab ! 0"]
    by (auto simp: survives_def demo_vocab_def demo_initial demo_stepped)
  ultimately show ?thesis using fact by (fastforce simp: demo_vocab_def)
qed


text \<open>The index gives back the bytes of every token of the vocabulary, and none for any other
  id, whatever order the unstable sort gave to equal tokens.
\<close>

theorem token_bytes_roundtrip:
  assumes "vocabulary_ok tb order"
  shows "token_bytes (index_from tb order) i = Some (if i < length tb then tb ! i else [])"
  using assms by (intro token_bytes_read) (simp add: vocabulary_ok_def)

theorem token_bytes_roundtrip_witness:
  "token_bytes (index_from demo_vocab demo_order) 3 = Some [98, 100] \<and>
   token_bytes (index_from demo_vocab demo_order) 5 = Some [] \<and>
   token_bytes (index_from demo_vocab demo_order) 7 = Some []"
  using token_bytes_roundtrip [OF demo_vocabulary] by (simp add: demo_vocab_def)


end
