(* ===== verification/Batch_Metadata.thy ===== *)
theory Batch_Metadata
  imports Iteration_Plan Riley_Returns
begin

unbundle bit_operations_syntax

text \<open>
  \<open>riley-runtime/src/llama/batch.rs\<close>: the host metadata of one mixed prefill/decode iteration. The rows
  of an iteration are validated and packed into preallocated arrays: flattened tokens, positions and
  block tables with an offset per row, and for every output slot the row and the token whose logits
  are sampled. Duplicate blocks and slots are found with epoch marks that are never cleared between
  iterations: a mark counts only if it carries the epoch of the running validation.
\<close>

abbreviation (input) LLAMA_BATCH_METADATA_V1_VERSION :: nat where
  "LLAMA_BATCH_METADATA_V1_VERSION \<equiv> 1"

definition LLAMA_BATCH_NO_OUTPUT_SLOT :: u32 where
  "LLAMA_BATCH_NO_OUTPUT_SLOT = u32_max"

datatype llama_batch_error =
    BatchInvalidConfiguration string string
  | BatchCapacityExceeded string usize usize
  | BatchArithmeticOverflow string
  | BatchHostAllocation string usize
  | BatchUnsupportedSchemaVersion string u16 u16
  | InvalidBatch string string

type_synonym 'a batch_result = "llama_batch_error + 'a"

subsection \<open>Rows\<close>

datatype llama_batch_row_kind = RowPrefill | RowDecode

primrec row_kind_code :: "llama_batch_row_kind \<Rightarrow> nat" where
  "row_kind_code RowPrefill = 0"
| "row_kind_code RowDecode = 1"

record llama_batch_block_table =
  lbt_schema_version :: u16
  lbt_physical_block_ids :: "u32 list"
  lbt_valid_tokens :: "u16 list"
  lbt_logical_length :: u32

record llama_batch_row =
  lbr_sequence_tag :: u64
  lbr_kind :: llama_batch_row_kind
  lbr_input_token_ids :: "u32 list"
  lbr_target_logical_length :: u32
  lbr_block_table :: llama_batch_block_table
  lbr_output_slot :: "u32 option"

definition from_v1 :: "block_table_v1 \<Rightarrow> llama_batch_block_table" where
  "from_v1 table =
     \<lparr>lbt_schema_version = BLOCK_TABLE_V1_VERSION, lbt_physical_block_ids = bt_physical_block_ids table,
      lbt_valid_tokens = bt_valid_tokens table, lbt_logical_length = bt_logical_length table\<rparr>"

subsection \<open>Configuration\<close>

record llama_batch_metadata_config =
  lmc_max_rows :: usize
  lmc_max_input_tokens :: usize
  lmc_max_block_entries :: usize
  lmc_max_output_slots :: usize
  lmc_physical_block_count :: usize

definition validate_positive :: "string \<Rightarrow> usize \<Rightarrow> unit batch_result" where
  "validate_positive field v = failE (v = 0) (BatchInvalidConfiguration field ''must be greater than zero'')"

definition validate_u32_bound :: "string \<Rightarrow> usize \<Rightarrow> unit batch_result" where
  "validate_u32_bound field v = failE (u32_try_from v = None)
     (BatchInvalidConfiguration field ''must fit the V1 u32 transport representation'')"

definition ensure_batch_capacity :: "string \<Rightarrow> usize \<Rightarrow> usize \<Rightarrow> unit batch_result" where
  "ensure_batch_capacity resource requested capacity =
     failE (\<not> requested \<le> capacity) (BatchCapacityExceeded resource requested capacity)"

definition checked_u32 :: "usize \<Rightarrow> string \<Rightarrow> u32 batch_result" where
  "checked_u32 v field = ok_or (u32_try_from v) (BatchArithmeticOverflow field)"

definition checked_usize :: "u32 \<Rightarrow> string \<Rightarrow> usize batch_result" where
  "checked_usize v field = ok_or (u64_try_from v) (BatchArithmeticOverflow field)"

definition reserve_batch_vec :: "host_env \<Rightarrow> usize \<Rightarrow> string \<Rightarrow> 'a list batch_result" where
  "reserve_batch_vec env capacity resource =
     (if he_alloc env resource capacity then Inr [] else Inl (BatchHostAllocation resource capacity))"

definition zeroed_batch_vec :: "host_env \<Rightarrow> usize \<Rightarrow> string \<Rightarrow> u64 list batch_result" where
  "zeroed_batch_vec env capacity resource =
     bindE (reserve_batch_vec env capacity resource) (\<lambda>v :: u64 list. Inr (v @ replicate capacity 0))"

definition metadata_config_new ::
  "usize \<Rightarrow> usize \<Rightarrow> usize \<Rightarrow> usize \<Rightarrow> usize \<Rightarrow> llama_batch_metadata_config batch_result" where
  "metadata_config_new max_rows max_input_tokens max_block_entries max_output_slots physical_block_count =
     bindE (validate_positive ''max_rows'' max_rows) (\<lambda>_.
     bindE (validate_positive ''max_input_tokens'' max_input_tokens) (\<lambda>_.
     bindE (validate_positive ''max_block_entries'' max_block_entries) (\<lambda>_.
     bindE (validate_positive ''physical_block_count'' physical_block_count) (\<lambda>_.
     bindE (validate_u32_bound ''max_rows'' max_rows) (\<lambda>_.
     bindE (validate_u32_bound ''max_input_tokens'' max_input_tokens) (\<lambda>_.
     bindE (validate_u32_bound ''max_block_entries'' max_block_entries) (\<lambda>_.
     bindE (validate_u32_bound ''max_output_slots'' max_output_slots) (\<lambda>_.
     bindE (validate_u32_bound ''physical_block_count'' physical_block_count) (\<lambda>_.
     bindE (failE (max_input_tokens < max_rows) (BatchInvalidConfiguration ''max_input_tokens''
       ''must permit at least one input token per row'')) (\<lambda>_.
     bindE (failE (max_block_entries < max_rows) (BatchInvalidConfiguration ''max_block_entries''
       ''must permit at least one physical block per row'')) (\<lambda>_.
     bindE (failE (max_rows < max_output_slots) (BatchInvalidConfiguration ''max_output_slots''
       ''cannot exceed max_rows'')) (\<lambda>_.
     bindE (failE (physical_block_count < max_block_entries) (BatchInvalidConfiguration
       ''max_block_entries'' ''cannot exceed the exclusive physical block pool'')) (\<lambda>_.
     bindE (ok_or (checked_add max_rows 1) (BatchArithmeticOverflow ''row offset capacity'')) (\<lambda>_.
     Inr \<lparr>lmc_max_rows = max_rows, lmc_max_input_tokens = max_input_tokens,
          lmc_max_block_entries = max_block_entries, lmc_max_output_slots = max_output_slots,
          lmc_physical_block_count = physical_block_count\<rparr>))))))))))))))"

subsection \<open>The reusable buffers\<close>

record prepared_llama_batch_metadata =
  pbm_config :: llama_batch_metadata_config
  pbm_sequence_tags :: "u64 list"
  pbm_row_kind_codes :: "nat list"
  pbm_input_row_offsets :: "u32 list"
  pbm_input_token_ids :: "u32 list"
  pbm_position_ids :: "u32 list"
  pbm_row_sequence_slots :: "u32 list"
  pbm_block_row_offsets :: "u32 list"
  pbm_physical_block_ids :: "u32 list"
  pbm_valid_tokens :: "u16 list"
  pbm_logical_lengths :: "u32 list"
  pbm_output_slots_by_row :: "u32 list"
  pbm_output_row_indices :: "u32 list"
  pbm_output_token_indices :: "u32 list"
  pbm_prefill_row_indices :: "u32 list"
  pbm_decode_row_indices :: "u32 list"
  pbm_validation_sequence_tags :: "u64 list"
  pbm_output_slot_marks :: "u64 list"
  pbm_physical_block_marks :: "u64 list"
  pbm_validation_epoch :: u64

type_synonym 'a batch_cmd = "(prepared_llama_batch_metadata, llama_batch_error, 'a) cmd"

definition batch_metadata_prepare ::
  "host_env \<Rightarrow> llama_batch_metadata_config \<Rightarrow> prepared_llama_batch_metadata batch_result" where
  "batch_metadata_prepare env c =
     bindE (ok_or (checked_add (lmc_max_rows c) 1) (BatchArithmeticOverflow ''row offset capacity'')) (\<lambda>row_offsets.
     bindE (reserve_batch_vec env (lmc_max_rows c) ''sequence tags'') (\<lambda>sequence_tags.
     bindE (reserve_batch_vec env (lmc_max_rows c) ''row kind codes'') (\<lambda>row_kind_codes.
     bindE (reserve_batch_vec env row_offsets ''input row offsets'') (\<lambda>input_row_offsets.
     bindE (reserve_batch_vec env (lmc_max_input_tokens c) ''input token IDs'') (\<lambda>input_token_ids.
     bindE (reserve_batch_vec env (lmc_max_input_tokens c) ''position IDs'') (\<lambda>position_ids.
     bindE (reserve_batch_vec env (lmc_max_input_tokens c) ''token row sequence slots'') (\<lambda>row_sequence_slots.
     bindE (reserve_batch_vec env row_offsets ''block row offsets'') (\<lambda>block_row_offsets.
     bindE (reserve_batch_vec env (lmc_max_block_entries c) ''physical block IDs'') (\<lambda>physical_block_ids.
     bindE (reserve_batch_vec env (lmc_max_block_entries c) ''block valid tokens'') (\<lambda>valid_tokens.
     bindE (reserve_batch_vec env (lmc_max_rows c) ''logical lengths'') (\<lambda>logical_lengths.
     bindE (reserve_batch_vec env (lmc_max_rows c) ''per-row output slots'') (\<lambda>output_slots_by_row.
     bindE (reserve_batch_vec env (lmc_max_output_slots c) ''output row indices'') (\<lambda>output_row_indices.
     bindE (reserve_batch_vec env (lmc_max_output_slots c) ''output token indices'') (\<lambda>output_token_indices.
     bindE (reserve_batch_vec env (lmc_max_rows c) ''prefill row indices'') (\<lambda>prefill_row_indices.
     bindE (reserve_batch_vec env (lmc_max_rows c) ''decode row indices'') (\<lambda>decode_row_indices.
     bindE (reserve_batch_vec env (lmc_max_rows c) ''validation sequence tags'') (\<lambda>validation_sequence_tags.
     bindE (zeroed_batch_vec env (lmc_max_output_slots c) ''output slot marks'') (\<lambda>output_slot_marks.
     bindE (zeroed_batch_vec env (lmc_physical_block_count c) ''physical block marks'') (\<lambda>physical_block_marks.
     Inr \<lparr>pbm_config = c, pbm_sequence_tags = sequence_tags, pbm_row_kind_codes = row_kind_codes,
          pbm_input_row_offsets = input_row_offsets, pbm_input_token_ids = input_token_ids,
          pbm_position_ids = position_ids, pbm_row_sequence_slots = row_sequence_slots,
          pbm_block_row_offsets = block_row_offsets, pbm_physical_block_ids = physical_block_ids,
          pbm_valid_tokens = valid_tokens, pbm_logical_lengths = logical_lengths,
          pbm_output_slots_by_row = output_slots_by_row, pbm_output_row_indices = output_row_indices,
          pbm_output_token_indices = output_token_indices, pbm_prefill_row_indices = prefill_row_indices,
          pbm_decode_row_indices = decode_row_indices,
          pbm_validation_sequence_tags = validation_sequence_tags,
          pbm_output_slot_marks = output_slot_marks, pbm_physical_block_marks = physical_block_marks,
          pbm_validation_epoch = 0\<rparr>)))))))))))))))))))"

subsection \<open>Validation\<close>

record validated_batch =
  vb_total_input_tokens :: usize
  vb_total_block_entries :: usize
  vb_output_count :: usize
  vb_prefill_rows :: usize
  vb_decode_rows :: usize
  vb_prefill_tokens :: usize
  vb_decode_tokens :: usize

definition advance_validation_epoch :: "prepared_llama_batch_metadata \<Rightarrow> prepared_llama_batch_metadata" where
  "advance_validation_epoch m =
     (case checked_add (pbm_validation_epoch m) 1 of
        Some next_epoch \<Rightarrow> m\<lparr>pbm_validation_epoch := next_epoch\<rparr>
      | None \<Rightarrow> m\<lparr>pbm_output_slot_marks := map (\<lambda>_. 0) (pbm_output_slot_marks m),
                   pbm_physical_block_marks := map (\<lambda>_. 0) (pbm_physical_block_marks m),
                   pbm_validation_epoch := 1\<rparr>)"

text \<open>The mark \<open>epoch << 1 | write\<close> of a \<open>u64\<close>: the shift drops the top bit of the epoch.\<close>

definition block_mark :: "u64 \<Rightarrow> bool \<Rightarrow> u64" where
  "block_mark epoch write = (take_bit 64 (push_bit 1 epoch) OR of_bool write)"

fun validate_entries ::
  "usize \<Rightarrow> usize \<Rightarrow> usize \<Rightarrow> u64 \<Rightarrow> usize \<Rightarrow> usize \<Rightarrow> (u32 \<times> u16) list \<Rightarrow> usize batch_cmd" where
  "validate_entries target_length required_blocks written_from epoch block_index token_sum [] = ret token_sum"
| "validate_entries target_length required_blocks written_from epoch block_index token_sum
     ((physical_id, valid_tokens) # rest) =
     bindM (tryM (checked_usize physical_id ''physical block index'')) (\<lambda>physical_index.
     withM (\<lambda>m.
     bindM (failIf (lmc_physical_block_count (pbm_config m) \<le> physical_index)
       (InvalidBatch ''block_table.physical_block_ids'' ''physical block ID is outside the prepared pool'')) (\<lambda>_.
     let write = written_from \<le> block_index;
         mark = pbm_physical_block_marks m ! physical_index in
     bindM (failIf (drop_bit 1 mark = epoch \<and> (write \<or> mark AND 1 = 1))
       (InvalidBatch ''block_table.physical_block_ids''
         ''physical blocks written by a row must not alias another row'')) (\<lambda>_.
     bindM (modM (\<lambda>m. m\<lparr>pbm_physical_block_marks :=
         (pbm_physical_block_marks m)[physical_index := block_mark epoch write]\<rparr>)) (\<lambda>_.
     let expected_valid = (if block_index + 1 = required_blocks
           then (let tail = target_length mod KV_BLOCK_SIZE in if tail = 0 then KV_BLOCK_SIZE else tail)
           else KV_BLOCK_SIZE) in
     bindM (failIf (valid_tokens \<noteq> expected_valid) (InvalidBatch ''block_table.valid_tokens''
       ''must contain full blocks followed by one canonical tail'')) (\<lambda>_.
     bindM (tryM (ok_or (checked_add token_sum valid_tokens)
       (BatchArithmeticOverflow ''block table valid-token sum''))) (\<lambda>token_sum.
     validate_entries target_length required_blocks written_from epoch (block_index + 1) token_sum rest)))))))"

definition validate_block_table :: "llama_batch_row \<Rightarrow> usize \<Rightarrow> u64 \<Rightarrow> unit batch_cmd" where
  "validate_block_table row target_length epoch =
     (let table = lbr_block_table row in
      bindM (failIf (lbt_schema_version table \<noteq> BLOCK_TABLE_V1_VERSION)
        (BatchUnsupportedSchemaVersion ''Llama batch block table'' BLOCK_TABLE_V1_VERSION
          (lbt_schema_version table))) (\<lambda>_.
      bindM (failIf (lbt_logical_length table \<noteq> lbr_target_logical_length row)
        (InvalidBatch ''block_table.logical_length'' ''must equal the row target logical length'')) (\<lambda>_.
      bindM (failIf (length (lbt_physical_block_ids table) \<noteq> length (lbt_valid_tokens table))
        (InvalidBatch ''block_table'' ''physical IDs and valid-token vectors must have equal length'')) (\<lambda>_.
      let required_blocks = div_ceil target_length KV_BLOCK_SIZE in
      bindM (failIf (length (lbt_physical_block_ids table) \<noteq> required_blocks)
        (InvalidBatch ''block_table'' ''block count must exactly address the target logical length'')) (\<lambda>_.
      let written_from = (target_length - length (lbr_input_token_ids row)) div KV_BLOCK_SIZE in
      bindM (validate_entries target_length required_blocks written_from epoch 0 0
        (zip (lbt_physical_block_ids table) (lbt_valid_tokens table))) (\<lambda>valid_token_sum.
      failIf (valid_token_sum \<noteq> target_length)
        (InvalidBatch ''block_table.valid_tokens'' ''valid-token sum must equal the target logical length'')))))))"

definition count_row :: "llama_batch_row \<Rightarrow> usize \<Rightarrow> validated_batch \<Rightarrow> validated_batch batch_result" where
  "count_row row input_count v =
     (case lbr_kind row of
        RowPrefill \<Rightarrow>
          bindE (ok_or (checked_add (vb_prefill_rows v) 1) (BatchArithmeticOverflow ''prefill row count'')) (\<lambda>n.
          bindE (ok_or (checked_add (vb_prefill_tokens v) input_count)
            (BatchArithmeticOverflow ''prefill token count'')) (\<lambda>k.
          Inr (v\<lparr>vb_prefill_rows := n, vb_prefill_tokens := k\<rparr>)))
      | RowDecode \<Rightarrow>
          bindE (ok_or (checked_add (vb_decode_rows v) 1) (BatchArithmeticOverflow ''decode row count'')) (\<lambda>n.
          bindE (ok_or (checked_add (vb_decode_tokens v) input_count)
            (BatchArithmeticOverflow ''decode token count'')) (\<lambda>k.
          Inr (v\<lparr>vb_decode_rows := n, vb_decode_tokens := k\<rparr>))))"

definition validate_output_slot :: "llama_batch_row \<Rightarrow> u64 \<Rightarrow> validated_batch \<Rightarrow> validated_batch batch_cmd" where
  "validate_output_slot row epoch v =
     (case lbr_output_slot row of
        None \<Rightarrow> ret v
      | Some slot \<Rightarrow>
          bindM (tryM (checked_usize slot ''output slot index'')) (\<lambda>slot_index.
          bindM (tryM (ok_or (checked_add slot_index 1) (BatchArithmeticOverflow ''output slot extent''))) (\<lambda>requested.
          withM (\<lambda>m.
          bindM (tryM (ensure_batch_capacity ''output slot index'' requested
            (lmc_max_output_slots (pbm_config m)))) (\<lambda>_.
          bindM (failIf (pbm_output_slot_marks m ! slot_index = epoch)
            (InvalidBatch ''output_slot'' ''output slots must be unique within an iteration'')) (\<lambda>_.
          bindM (modM (\<lambda>m. m\<lparr>pbm_output_slot_marks := (pbm_output_slot_marks m)[slot_index := epoch]\<rparr>)) (\<lambda>_.
          bindM (tryM (ok_or (checked_add (vb_output_count v) 1)
            (BatchArithmeticOverflow ''output slot count''))) (\<lambda>n.
          ret (v\<lparr>vb_output_count := n\<rparr>)))))))))"

text \<open>The checks of one row before its block table.\<close>

definition row_shape :: "llama_batch_row \<Rightarrow> unit batch_result" where
  "row_shape row =
     bindE (failE (lbr_input_token_ids row = [])
       (InvalidBatch ''input_token_ids'' ''every row must contain at least one input token'')) (\<lambda>_.
     bindE (failE (lbr_kind row = RowDecode \<and> length (lbr_input_token_ids row) \<noteq> 1)
       (InvalidBatch ''input_token_ids'' ''decode rows must contain exactly one input token'')) (\<lambda>_.
     failE (lbr_kind row = RowDecode \<and> lbr_output_slot row = None)
       (InvalidBatch ''output_slot'' ''decode rows must request one sampled output'')))"

definition validate_row :: "llama_batch_row \<Rightarrow> u64 \<Rightarrow> validated_batch \<Rightarrow> validated_batch batch_cmd" where
  "validate_row row epoch v =
     withM (\<lambda>m.
     bindM (failIf (lbr_sequence_tag row \<in> set (pbm_validation_sequence_tags m))
       (InvalidBatch ''sequence_tag'' ''a sequence may appear at most once per iteration'')) (\<lambda>_.
     bindM (modM (\<lambda>m. m\<lparr>pbm_validation_sequence_tags :=
         pbm_validation_sequence_tags m @ [lbr_sequence_tag row]\<rparr>)) (\<lambda>_.
     bindM (tryM (row_shape row)) (\<lambda>_.
     let input_count = length (lbr_input_token_ids row) in
     bindM (tryM (checked_usize (lbr_target_logical_length row) ''target logical length'')) (\<lambda>target_length.
     bindM (failIf (target_length < input_count)
       (InvalidBatch ''target_logical_length'' ''cannot be shorter than the row input slice'')) (\<lambda>_.
     bindM (tryM (ok_or (checked_add (vb_total_input_tokens v) input_count)
       (BatchArithmeticOverflow ''total input tokens''))) (\<lambda>total_input_tokens.
     bindM (tryM (ensure_batch_capacity ''input tokens'' total_input_tokens
       (lmc_max_input_tokens (pbm_config m)))) (\<lambda>_.
     bindM (tryM (count_row row input_count (v\<lparr>vb_total_input_tokens := total_input_tokens\<rparr>))) (\<lambda>v.
     bindM (validate_block_table row target_length epoch) (\<lambda>_.
     bindM (tryM (ok_or (checked_add (vb_total_block_entries v)
         (length (lbt_physical_block_ids (lbr_block_table row))))
       (BatchArithmeticOverflow ''total block entries''))) (\<lambda>total_block_entries.
     bindM (tryM (ensure_batch_capacity ''block entries'' total_block_entries
       (lmc_max_block_entries (pbm_config m)))) (\<lambda>_.
     validate_output_slot row epoch (v\<lparr>vb_total_block_entries := total_block_entries\<rparr>)))))))))))))"

fun validate_rows :: "llama_batch_row list \<Rightarrow> u64 \<Rightarrow> validated_batch \<Rightarrow> validated_batch batch_cmd" where
  "validate_rows [] epoch v = ret v"
| "validate_rows (row # rows) epoch v =
     bindM (validate_row row epoch v) (\<lambda>v. validate_rows rows epoch v)"

definition validate_batch :: "llama_batch_row list \<Rightarrow> validated_batch batch_cmd" where
  "validate_batch rows =
     bindM (failIf (rows = []) (InvalidBatch ''rows'' ''an iteration must contain at least one row'')) (\<lambda>_.
     withM (\<lambda>m.
     bindM (tryM (ensure_batch_capacity ''rows'' (length rows) (lmc_max_rows (pbm_config m)))) (\<lambda>_.
     bindM (modM advance_validation_epoch) (\<lambda>_.
     withM (\<lambda>m. let epoch = pbm_validation_epoch m in
     bindM (modM (\<lambda>m. m\<lparr>pbm_validation_sequence_tags := []\<rparr>)) (\<lambda>_.
     bindM (validate_rows rows epoch
       \<lparr>vb_total_input_tokens = 0, vb_total_block_entries = 0, vb_output_count = 0, vb_prefill_rows = 0,
        vb_decode_rows = 0, vb_prefill_tokens = 0, vb_decode_tokens = 0\<rparr>) (\<lambda>v.
     withM (\<lambda>m.
     bindM (tryM (ensure_batch_capacity ''output slots'' (vb_output_count v)
       (lmc_max_output_slots (pbm_config m)))) (\<lambda>_.
     bindM (failIf (list_ex (\<lambda>mark. mark \<noteq> epoch) (take (vb_output_count v) (pbm_output_slot_marks m)))
       (InvalidBatch ''output_slot'' ''output slots must be dense and zero-based'')) (\<lambda>_.
     ret v))))))))))"

subsection \<open>Packing\<close>

definition clear_packed :: "prepared_llama_batch_metadata \<Rightarrow> prepared_llama_batch_metadata" where
  "clear_packed m = m\<lparr>pbm_sequence_tags := [], pbm_row_kind_codes := [], pbm_input_row_offsets := [],
     pbm_input_token_ids := [], pbm_position_ids := [], pbm_row_sequence_slots := [],
     pbm_block_row_offsets := [], pbm_physical_block_ids := [], pbm_valid_tokens := [],
     pbm_logical_lengths := [], pbm_output_slots_by_row := [], pbm_output_row_indices := [],
     pbm_output_token_indices := [], pbm_prefill_row_indices := [], pbm_decode_row_indices := []\<rparr>"

text \<open>The borrowed view that the kernels read.\<close>

record llama_packed_batch_metadata =
  pkd_schema_version :: u16
  pkd_block_table_schema_version :: u16
  pkd_sequence_tags :: "u64 list"
  pkd_row_kind_codes :: "nat list"
  pkd_input_row_offsets :: "u32 list"
  pkd_input_token_ids :: "u32 list"
  pkd_position_ids :: "u32 list"
  pkd_row_sequence_slots :: "u32 list"
  pkd_block_row_offsets :: "u32 list"
  pkd_physical_block_ids :: "u32 list"
  pkd_valid_tokens :: "u16 list"
  pkd_logical_lengths :: "u32 list"
  pkd_output_slots_by_row :: "u32 list"
  pkd_output_row_indices :: "u32 list"
  pkd_output_token_indices :: "u32 list"
  pkd_prefill_row_indices :: "u32 list"
  pkd_decode_row_indices :: "u32 list"
  pkd_prefill_token_count :: usize
  pkd_decode_token_count :: usize

definition batch_view :: "validated_batch \<Rightarrow> prepared_llama_batch_metadata \<Rightarrow> llama_packed_batch_metadata" where
  "batch_view v m =
     \<lparr>pkd_schema_version = LLAMA_BATCH_METADATA_V1_VERSION,
      pkd_block_table_schema_version = BLOCK_TABLE_V1_VERSION,
      pkd_sequence_tags = pbm_sequence_tags m, pkd_row_kind_codes = pbm_row_kind_codes m,
      pkd_input_row_offsets = pbm_input_row_offsets m, pkd_input_token_ids = pbm_input_token_ids m,
      pkd_position_ids = pbm_position_ids m, pkd_row_sequence_slots = pbm_row_sequence_slots m,
      pkd_block_row_offsets = pbm_block_row_offsets m, pkd_physical_block_ids = pbm_physical_block_ids m,
      pkd_valid_tokens = pbm_valid_tokens m, pkd_logical_lengths = pbm_logical_lengths m,
      pkd_output_slots_by_row = pbm_output_slots_by_row m,
      pkd_output_row_indices = pbm_output_row_indices m,
      pkd_output_token_indices = pbm_output_token_indices m,
      pkd_prefill_row_indices = pbm_prefill_row_indices m,
      pkd_decode_row_indices = pbm_decode_row_indices m,
      pkd_prefill_token_count = vb_prefill_tokens v, pkd_decode_token_count = vb_decode_tokens v\<rparr>"

definition checked_add32 :: "u32 \<Rightarrow> u32 \<Rightarrow> u32 option" where
  "checked_add32 a b = (if a + b \<le> u32_max then Some (a + b) else None)"

definition push_row ::
  "llama_batch_row \<Rightarrow> u32 \<Rightarrow> u32 \<Rightarrow> u32 \<Rightarrow> u32 \<Rightarrow> prepared_llama_batch_metadata \<Rightarrow> prepared_llama_batch_metadata" where
  "push_row row row_index start_position token_offset block_offset m =
     m\<lparr>pbm_sequence_tags := pbm_sequence_tags m @ [lbr_sequence_tag row],
       pbm_row_kind_codes := pbm_row_kind_codes m @ [row_kind_code (lbr_kind row)],
       pbm_input_token_ids := pbm_input_token_ids m @ lbr_input_token_ids row,
       pbm_position_ids := pbm_position_ids m @ [start_position..<lbr_target_logical_length row],
       pbm_row_sequence_slots := pbm_row_sequence_slots m @ map (\<lambda>_. row_index) (lbr_input_token_ids row),
       pbm_input_row_offsets := pbm_input_row_offsets m @ [token_offset],
       pbm_physical_block_ids := pbm_physical_block_ids m @ lbt_physical_block_ids (lbr_block_table row),
       pbm_valid_tokens := pbm_valid_tokens m @ lbt_valid_tokens (lbr_block_table row),
       pbm_block_row_offsets := pbm_block_row_offsets m @ [block_offset],
       pbm_logical_lengths := pbm_logical_lengths m @ [lbr_target_logical_length row]\<rparr>"

definition push_kind :: "llama_batch_row \<Rightarrow> u32 \<Rightarrow> prepared_llama_batch_metadata \<Rightarrow> prepared_llama_batch_metadata" where
  "push_kind row row_index m =
     (case lbr_kind row of
        RowPrefill \<Rightarrow> m\<lparr>pbm_prefill_row_indices := pbm_prefill_row_indices m @ [row_index]\<rparr>
      | RowDecode \<Rightarrow> m\<lparr>pbm_decode_row_indices := pbm_decode_row_indices m @ [row_index]\<rparr>)"

definition route_output :: "llama_batch_row \<Rightarrow> u32 \<Rightarrow> u32 \<Rightarrow> unit batch_cmd" where
  "route_output row row_index token_offset =
     (case lbr_output_slot row of
        None \<Rightarrow> modM (\<lambda>m. m\<lparr>pbm_output_slots_by_row := pbm_output_slots_by_row m @ [LLAMA_BATCH_NO_OUTPUT_SLOT]\<rparr>)
      | Some slot \<Rightarrow>
          bindM (tryM (checked_usize slot ''output slot index'')) (\<lambda>slot_index.
          bindM (modM (\<lambda>m. m\<lparr>pbm_output_slots_by_row := pbm_output_slots_by_row m @ [slot],
              pbm_output_row_indices := (pbm_output_row_indices m)[slot_index := row_index]\<rparr>)) (\<lambda>_.
          bindM (tryM (ok_or (checked_sub token_offset 1) (BatchArithmeticOverflow ''output token index''))) (\<lambda>last_token.
          modM (\<lambda>m. m\<lparr>pbm_output_token_indices := (pbm_output_token_indices m)[slot_index := last_token]\<rparr>)))))"

fun pack_rows :: "nat \<Rightarrow> u32 \<Rightarrow> u32 \<Rightarrow> llama_batch_row list \<Rightarrow> unit batch_cmd" where
  "pack_rows row_index token_offset block_offset [] = ret ()"
| "pack_rows row_index token_offset block_offset (row # rows) =
     bindM (tryM (checked_u32 row_index ''row index'')) (\<lambda>row_index_u32.
     bindM (tryM (checked_u32 (length (lbr_input_token_ids row)) ''row input token count'')) (\<lambda>input_count.
     bindM (tryM (checked_u32 (length (lbt_physical_block_ids (lbr_block_table row))) ''row block count'')) (\<lambda>block_count.
     bindM (tryM (ok_or (checked_sub (lbr_target_logical_length row) input_count)
       (BatchArithmeticOverflow ''row start position''))) (\<lambda>start_position.
     bindM (tryM (ok_or (checked_add32 token_offset input_count)
       (BatchArithmeticOverflow ''input CSR offset''))) (\<lambda>token_offset.
     bindM (tryM (ok_or (checked_add32 block_offset block_count)
       (BatchArithmeticOverflow ''block CSR offset''))) (\<lambda>block_offset.
     bindM (modM (push_row row row_index_u32 start_position token_offset block_offset)) (\<lambda>_.
     bindM (modM (push_kind row row_index_u32)) (\<lambda>_.
     bindM (route_output row row_index_u32 token_offset) (\<lambda>_.
     pack_rows (row_index + 1) token_offset block_offset rows)))))))))"

definition ordered_rows :: "bool \<Rightarrow> llama_batch_row list \<Rightarrow> llama_batch_row list" where
  "ordered_rows decode_first rows =
     filter (\<lambda>r. \<not> decode_first \<or> lbr_kind r = RowDecode) rows @
     filter (\<lambda>r. decode_first \<and> lbr_kind r \<noteq> RowDecode) rows"

definition pack_ordered :: "llama_batch_row list \<Rightarrow> bool \<Rightarrow> llama_packed_batch_metadata batch_cmd" where
  "pack_ordered rows decode_first =
     bindM (validate_batch rows) (\<lambda>v.
     bindM (modM clear_packed) (\<lambda>_.
     bindM (modM (\<lambda>m. m\<lparr>
         pbm_output_row_indices := replicate (vb_output_count v) LLAMA_BATCH_NO_OUTPUT_SLOT,
         pbm_output_token_indices := replicate (vb_output_count v) LLAMA_BATCH_NO_OUTPUT_SLOT,
         pbm_input_row_offsets := pbm_input_row_offsets m @ [0],
         pbm_block_row_offsets := pbm_block_row_offsets m @ [0]\<rparr>)) (\<lambda>_.
     bindM (pack_rows 0 0 0 (ordered_rows decode_first rows)) (\<lambda>_.
     withM (\<lambda>m. ret (batch_view v m))))))"

definition pack :: "llama_batch_row list \<Rightarrow> llama_packed_batch_metadata batch_cmd" where
  "pack rows = pack_ordered rows False"

definition pack_decode_first :: "llama_batch_row list \<Rightarrow> llama_packed_batch_metadata batch_cmd" where
  "pack_decode_first rows = pack_ordered rows True"

subsection \<open>Reading the view\<close>

definition csr_row :: "u32 list \<Rightarrow> 'a list \<Rightarrow> usize \<Rightarrow> 'a list option" where
  "csr_row offsets values row_index = do {
     lo \<leftarrow> get offsets row_index;
     end_index \<leftarrow> checked_add row_index 1;
     hi \<leftarrow> get offsets end_index;
     get_range values lo hi }"

definition input_tokens_for_row :: "llama_packed_batch_metadata \<Rightarrow> usize \<Rightarrow> u32 list option" where
  "input_tokens_for_row p i = csr_row (pkd_input_row_offsets p) (pkd_input_token_ids p) i"

definition positions_for_row :: "llama_packed_batch_metadata \<Rightarrow> usize \<Rightarrow> u32 list option" where
  "positions_for_row p i = csr_row (pkd_input_row_offsets p) (pkd_position_ids p) i"

definition physical_blocks_for_row :: "llama_packed_batch_metadata \<Rightarrow> usize \<Rightarrow> u32 list option" where
  "physical_blocks_for_row p i = csr_row (pkd_block_row_offsets p) (pkd_physical_block_ids p) i"

definition valid_tokens_for_row :: "llama_packed_batch_metadata \<Rightarrow> usize \<Rightarrow> u16 list option" where
  "valid_tokens_for_row p i = csr_row (pkd_block_row_offsets p) (pkd_valid_tokens p) i"

definition output_slot_for_row :: "llama_packed_batch_metadata \<Rightarrow> usize \<Rightarrow> u32 option" where
  "output_slot_for_row p i =
     (case get (pkd_output_slots_by_row p) i of
        None \<Rightarrow> None
      | Some slot \<Rightarrow> if slot \<noteq> LLAMA_BATCH_NO_OUTPUT_SLOT then Some slot else None)"

end
