(* ===== verification/Batch_Validate.thy ===== *)
theory Batch_Validate
  imports Batch_Metadata
begin

text \<open>
  What \<open>validate\<close> of \<open>batch.rs\<close> decides. \<open>batch_ok\<close> says it without epochs and marks; the lemmas
  show that the marked scan decides exactly that, whatever earlier calls left in the marks, as long as
  the epoch fits the 63 bits that \<open>epoch << 1\<close> leaves of it.
\<close>

subsection \<open>The specification\<close>

definition row_tokens :: "llama_batch_row \<Rightarrow> nat" where
  "row_tokens row = length (lbr_input_token_ids row)"

definition row_blocks :: "llama_batch_row \<Rightarrow> nat" where
  "row_blocks row = length (lbt_physical_block_ids (lbr_block_table row))"

text \<open>The accesses of a row to physical blocks, and whether the row writes the block.\<close>

definition accesses :: "llama_batch_row \<Rightarrow> (nat \<times> bool) list" where
  "accesses row =
     map (\<lambda>(i, b). (b, (lbr_target_logical_length row - row_tokens row) div KV_BLOCK_SIZE \<le> i))
       (enumerate 0 (lbt_physical_block_ids (lbr_block_table row)))"

definition alias_free :: "(nat \<times> bool) list \<Rightarrow> bool" where
  "alias_free = sorted_wrt (\<lambda>a b. fst a = fst b \<longrightarrow> \<not> snd a \<and> \<not> snd b)"

definition canonical_counts :: "nat \<Rightarrow> nat list" where
  "canonical_counts len = map (\<lambda>j. min (len - j * KV_BLOCK_SIZE) KV_BLOCK_SIZE) [0..<blocks_for_length len]"

definition table_fits :: "llama_batch_metadata_config \<Rightarrow> llama_batch_row \<Rightarrow> bool" where
  "table_fits c row =
     (let t = lbr_block_table row; len = lbr_target_logical_length row in
      lbt_schema_version t = BLOCK_TABLE_V1_VERSION \<and> lbt_logical_length t = len \<and>
      length (lbt_physical_block_ids t) = blocks_for_length len \<and>
      lbt_valid_tokens t = canonical_counts len \<and>
      (\<forall>i\<in>set (lbt_physical_block_ids t). i < lmc_physical_block_count c))"

definition row_fits :: "llama_batch_metadata_config \<Rightarrow> llama_batch_row \<Rightarrow> bool" where
  "row_fits c row =
     (lbr_input_token_ids row \<noteq> [] \<and>
      (lbr_kind row = RowDecode \<longrightarrow> row_tokens row = 1 \<and> lbr_output_slot row \<noteq> None) \<and>
      row_tokens row \<le> lbr_target_logical_length row \<and> table_fits c row \<and>
      (\<forall>s. lbr_output_slot row = Some s \<longrightarrow> s < lmc_max_output_slots c))"

definition slots_of :: "llama_batch_row list \<Rightarrow> nat list" where
  "slots_of rows = concat (map (\<lambda>r. case lbr_output_slot r of None \<Rightarrow> [] | Some s \<Rightarrow> [s]) rows)"

definition rows_fit :: "llama_batch_metadata_config \<Rightarrow> llama_batch_row list \<Rightarrow> bool" where
  "rows_fit c rows =
     (distinct (map lbr_sequence_tag rows) \<and> (\<forall>row\<in>set rows. row_fits c row) \<and>
      sum_list (map row_tokens rows) \<le> lmc_max_input_tokens c \<and>
      sum_list (map row_blocks rows) \<le> lmc_max_block_entries c \<and>
      alias_free (concat (map accesses rows)) \<and> distinct (slots_of rows))"

definition batch_ok :: "llama_batch_metadata_config \<Rightarrow> llama_batch_row list \<Rightarrow> bool" where
  "batch_ok c rows =
     (rows \<noteq> [] \<and> length rows \<le> lmc_max_rows c \<and> rows_fit c rows \<and>
      set (slots_of rows) = {..<length (slots_of rows)})"

definition batch_totals :: "llama_batch_row list \<Rightarrow> validated_batch" where
  "batch_totals rows =
     (let pre = filter (\<lambda>r. lbr_kind r = RowPrefill) rows; dec = filter (\<lambda>r. lbr_kind r = RowDecode) rows in
      \<lparr>vb_total_input_tokens = sum_list (map row_tokens rows),
       vb_total_block_entries = sum_list (map row_blocks rows),
       vb_output_count = length (slots_of rows), vb_prefill_rows = length pre, vb_decode_rows = length dec,
       vb_prefill_tokens = sum_list (map row_tokens pre), vb_decode_tokens = sum_list (map row_tokens dec)\<rparr>)"

text \<open>What \<open>LlamaBatchMetadataConfig::new\<close> guarantees.\<close>

definition config_fits :: "llama_batch_metadata_config \<Rightarrow> bool" where
  "config_fits c =
     (0 < lmc_max_rows c \<and> lmc_max_rows c \<le> lmc_max_input_tokens c \<and>
      lmc_max_rows c \<le> lmc_max_block_entries c \<and> lmc_max_output_slots c \<le> lmc_max_rows c \<and>
      lmc_max_block_entries c \<le> lmc_physical_block_count c \<and>
      lmc_max_input_tokens c \<le> u32_max \<and> lmc_physical_block_count c \<le> u32_max)"

lemma metadata_config_new_exact:
  "metadata_config_new rows tokens entries slots blocks = Inr c \<longleftrightarrow>
     c = \<lparr>lmc_max_rows = rows, lmc_max_input_tokens = tokens, lmc_max_block_entries = entries,
          lmc_max_output_slots = slots, lmc_physical_block_count = blocks\<rparr> \<and> config_fits c"
  by (auto simp: metadata_config_new_def validate_positive_def validate_u32_bound_def config_fits_def)

subsection \<open>The marks\<close>

lemma block_mark_eq: "e < 2 ^ 63 \<Longrightarrow> block_mark e w = 2 * e + of_bool w"
proof -
  assume e: "e < 2 ^ 63"
  have "take_bit 64 (push_bit 1 e) = 2 * e"
    using e by (simp add: take_bit_eq_mod push_bit_eq_mult)
  moreover have "(2 * e) OR 1 = 2 * e + 1"
    by (simp add: or_Suc_0_eq)
  then have "(2 * e) OR of_bool w = 2 * e + of_bool w"
    by (cases w) simp_all
  ultimately show ?thesis by (simp add: block_mark_def)
qed

lemma mark_bits: "drop_bit 1 (x :: nat) = x div 2" "(x :: nat) AND 1 = x mod 2"
  by (simp_all add: drop_bit_eq_div and_one_eq)

lemma mark_parts [simp]: "(2 * e + of_bool w) div 2 = (e :: nat)" "(2 * e + of_bool w) mod 2 = (of_bool w :: nat)"
  by (cases w; simp)+

text \<open>The block marks after the accesses \<open>A\<close> of the current epoch.\<close>

definition marks_show :: "nat \<Rightarrow> nat \<Rightarrow> (nat \<times> bool) list \<Rightarrow> nat list \<Rightarrow> bool" where
  "marks_show count e A ms =
     (length ms = count \<and>
      (\<forall>p<count. if (p, True) \<in> set A then ms ! p = 2 * e + 1
         else if (p, False) \<in> set A then ms ! p = 2 * e else ms ! p div 2 < e))"

definition marks_below :: "nat \<Rightarrow> nat \<Rightarrow> nat list \<Rightarrow> bool" where
  "marks_below count e ms = (length ms = count \<and> (\<forall>p<count. ms ! p div 2 \<le> e))"

lemma marks_show_below: "marks_show count e A ms \<Longrightarrow> marks_below count e ms"
  unfolding marks_below_def
proof (intro conjI allI impI)
  assume m: "marks_show count e A ms"
  then show "length ms = count" by (simp add: marks_show_def)
  fix p
  assume "p < count"
  with m have "ms ! p = 2 * e + of_bool True \<or> ms ! p = 2 * e + of_bool False \<or> ms ! p div 2 < e"
    by (auto simp: marks_show_def split: if_splits)
  then show "ms ! p div 2 \<le> e"
    by (metis mark_parts(1) less_or_eq_imp_le)
qed

lemma marks_show_hit:
  assumes "marks_show count e A ms" and "p < count"
  shows "ms ! p div 2 = e \<and> (w \<or> ms ! p mod 2 = 1) \<longleftrightarrow>
    (\<exists>b\<in>set A. fst b = p \<and> (w \<or> snd b))"
proof -
  consider "(p, True) \<in> set A" "ms ! p = 2 * e + of_bool True"
    | "(p, True) \<notin> set A" "(p, False) \<in> set A" "ms ! p = 2 * e + of_bool False"
    | "\<And>b. (p, b) \<notin> set A" "ms ! p div 2 < e"
    using assms by (auto simp: marks_show_def split: if_splits) (metis (full_types))+
  then show ?thesis
  proof cases
    case 1
    then show ?thesis unfolding 1(2) mark_parts by force
  next
    case 2
    then show ?thesis unfolding 2(3) mark_parts by force
  next
    case 3
    then show ?thesis by auto
  qed
qed

lemma marks_show_update:
  assumes "marks_show count e A ms" and "p < count" and "alias_free (A @ [(p, w)])"
  shows "marks_show count e (A @ [(p, w)]) (ms[p := 2 * e + of_bool w])"
  using assms by (auto simp: marks_show_def alias_free_def sorted_wrt_append nth_list_update)

lemma marks_below_update:
  "marks_below count e ms \<Longrightarrow> marks_below count e (ms[p := 2 * e + of_bool w])"
  by (cases "p < length ms"; cases w) (auto simp: marks_below_def nth_list_update)

lemma alias_free_snoc:
  "alias_free (A @ [(p, w)]) \<longleftrightarrow> alias_free A \<and> \<not> (\<exists>b\<in>set A. fst b = p \<and> (w \<or> snd b))"
  by (auto simp: alias_free_def sorted_wrt_append)

lemma alias_free_prefix: "alias_free (A @ B) \<Longrightarrow> alias_free A"
  by (simp add: alias_free_def sorted_wrt_append)

subsection \<open>The entries of a block table\<close>

definition entry_accesses :: "nat \<Rightarrow> nat \<Rightarrow> (nat \<times> nat) list \<Rightarrow> (nat \<times> bool) list" where
  "entry_accesses from i zs = map (\<lambda>(k, b, v). (b, from \<le> k)) (enumerate i zs)"

lemma entry_accesses_simps [simp]:
  "entry_accesses from i [] = []"
  "entry_accesses from i ((b, v) # zs) = (b, from \<le> i) # entry_accesses from (i + 1) zs"
  by (simp_all add: entry_accesses_def)

definition entries_fit :: "nat \<Rightarrow> nat \<Rightarrow> nat \<Rightarrow> nat \<Rightarrow> nat \<Rightarrow> (nat \<times> bool) list \<Rightarrow> (nat \<times> nat) list \<Rightarrow> bool" where
  "entries_fit count len required from i A zs =
     ((\<forall>b\<in>set (map fst zs). b < count) \<and> alias_free (A @ entry_accesses from i zs) \<and>
      map snd zs = map (expected_tokens required len) [i..<i + length zs])"

lemma entries_fit_Cons:
  "entries_fit count len required from i A ((b, v) # zs) \<longleftrightarrow>
     b < count \<and> \<not> (\<exists>a\<in>set A. fst a = b \<and> (from \<le> i \<or> snd a)) \<and> v = expected_tokens required len i \<and>
     entries_fit count len required from (i + 1) (A @ [(b, from \<le> i)]) zs \<and> alias_free A"
proof -
  have "map (expected_tokens required len) [i..<i + length ((b, v) # zs)] =
      expected_tokens required len i # map (expected_tokens required len) [i + 1..<i + 1 + length zs]"
    by (simp add: upt_conv_Cons del: upt_Suc)
  moreover have "alias_free (A @ entry_accesses from i ((b, v) # zs)) \<longleftrightarrow>
      alias_free ((A @ [(b, from \<le> i)]) @ entry_accesses from (i + 1) zs)" by simp
  moreover have "alias_free ((A @ [(b, from \<le> i)]) @ entry_accesses from (i + 1) zs) \<Longrightarrow>
      alias_free A \<and> \<not> (\<exists>a\<in>set A. fst a = b \<and> (from \<le> i \<or> snd a))"
    using alias_free_prefix alias_free_snoc by blast
  ultimately show ?thesis unfolding entries_fit_def by auto
qed

abbreviation (input) with_marks :: "prepared_llama_batch_metadata \<Rightarrow> nat list \<Rightarrow> prepared_llama_batch_metadata" where
  "with_marks m ms \<equiv> m\<lparr>pbm_physical_block_marks := ms\<rparr>"

lemma wp_entry:
  "wp (validate_entries len required from e i s ((b, v) # zs)) Q (\<lambda>_. E) m \<longleftrightarrow>
    (if u64_max < b \<or> lmc_physical_block_count (pbm_config m) \<le> b \<or>
        (pbm_physical_block_marks m ! b div 2 = e \<and> (from \<le> i \<or> pbm_physical_block_marks m ! b mod 2 = 1))
     then E m
     else let m' = with_marks m ((pbm_physical_block_marks m)[b := block_mark e (from \<le> i)]) in
       if v \<noteq> expected_tokens required len i \<or> u64_max < s + v then E m'
       else wp (validate_entries len required from e (i + 1) (s + v) zs) Q (\<lambda>_. E) m')"
proof -
  have ex: "(if i + 1 = required then if len mod KV_BLOCK_SIZE = 0 then KV_BLOCK_SIZE else len mod KV_BLOCK_SIZE
      else KV_BLOCK_SIZE) = expected_tokens required len i"
    by (simp add: expected_tokens_def Let_def)
  have split1: "(case ok_or (u64_try_from b) x of Inl err \<Rightarrow> E m | Inr y \<Rightarrow> F y) = (if u64_max < b then E m else F b)"
    for F and x :: llama_batch_error
    by (simp add: ok_or_def u64_try_from_def)
  have split2: "(case ok_or (checked_add s v) x of Inl err \<Rightarrow> E m' | Inr y \<Rightarrow> F y) = (if u64_max < s + v then E m' else F (s + v))"
    for F m' and x :: llama_batch_error
    by (simp add: ok_or_def checked_add_def)
  define hit where "hit = (pbm_physical_block_marks m ! b div 2 = e \<and>
    (from \<le> i \<or> pbm_physical_block_marks m ! b mod 2 = 1))"
  show ?thesis
    unfolding validate_entries.simps wp_simps Let_def ex checked_usize_def mark_bits split1 split2 hit_def [symmetric]
    by (cases hit; cases "v = expected_tokens required len i"; cases "u64_max < s + v") simp_all
qed

lemma wp_entries:
  assumes "marks_show (lmc_physical_block_count (pbm_config m)) e A (pbm_physical_block_marks m)"
    and "alias_free A" and "e < 2 ^ 63" and "lmc_physical_block_count (pbm_config m) \<le> u32_max"
    and "s + length zs * KV_BLOCK_SIZE \<le> u64_max"
  shows "wp (validate_entries len required from e i s zs)
    (\<lambda>s' m'. entries_fit (lmc_physical_block_count (pbm_config m)) len required from i A zs \<and>
       s' = s + sum_list (map snd zs) \<and>
       (\<exists>ms. m' = with_marks m ms \<and>
          marks_show (lmc_physical_block_count (pbm_config m)) e (A @ entry_accesses from i zs) ms))
    (\<lambda>_ m'. \<not> entries_fit (lmc_physical_block_count (pbm_config m)) len required from i A zs \<and>
       (\<exists>ms. m' = with_marks m ms \<and> marks_below (lmc_physical_block_count (pbm_config m)) e ms)) m"
  using assms
proof (induction zs arbitrary: i s A m)
  case Nil
  then show ?case by (auto simp: wp_simps entries_fit_def intro!: exI [of _ "pbm_physical_block_marks m"])
next
  case (Cons z zs)
  obtain b v where z: "z = (b, v)" by (cases z)
  let ?count = "lmc_physical_block_count (pbm_config m)"
  let ?ms = "pbm_physical_block_marks m"
  have below: "\<exists>ms. m = with_marks m ms \<and> marks_below ?count e ms"
    using marks_show_below [OF Cons.prems(1)] by (intro exI [of _ ?ms]) simp
  have le: "expected_tokens required len i \<le> KV_BLOCK_SIZE"
    by (auto simp: expected_tokens_def Let_def intro: less_imp_le)
  show ?case
  proof (cases "b < ?count \<and> \<not> (\<exists>a\<in>set A. fst a = b \<and> (from \<le> i \<or> snd a))")
    case False
    then have no: "\<not> entries_fit ?count len required from i A (z # zs)"
      unfolding z entries_fit_Cons by blast
    have "?count \<le> b \<or> ?ms ! b div 2 = e \<and> (from \<le> i \<or> ?ms ! b mod 2 = 1)"
      using False marks_show_hit [OF Cons.prems(1), of b "from \<le> i"] by (cases "b < ?count") auto
    then show ?thesis using no below unfolding z wp_entry by simp
  next
    case True
    then have b: "b < ?count" and clean: "\<not> (?ms ! b div 2 = e \<and> (from \<le> i \<or> ?ms ! b mod 2 = 1))"
      using marks_show_hit [OF Cons.prems(1)] by blast+
    have free: "alias_free (A @ [(b, from \<le> i)])"
      using True Cons.prems(2) alias_free_snoc by blast
    let ?m = "with_marks m (?ms[b := block_mark e (from \<le> i)])"
    have shown: "marks_show ?count e (A @ [(b, from \<le> i)]) (?ms[b := block_mark e (from \<le> i)])"
      unfolding block_mark_eq [OF Cons.prems(3)] by (rule marks_show_update [OF Cons.prems(1) b free])
    have go: "\<not> (u64_max < b \<or> ?count \<le> b \<or> (?ms ! b div 2 = e \<and> (from \<le> i \<or> ?ms ! b mod 2 = 1)))"
      using b clean Cons.prems(4) by auto
    show ?thesis
    proof (cases "v = expected_tokens required len i")
      case False
      then have no: "\<not> entries_fit ?count len required from i A (z # zs)"
        unfolding z entries_fit_Cons by blast
      have "\<exists>ms. ?m = with_marks m ms \<and> marks_below ?count e ms"
        using marks_show_below [OF shown] by blast
      then show ?thesis using no False unfolding z wp_entry if_not_P [OF go] Let_def by simp
    next
      case v: True
      have sum: "s + v \<le> u64_max" "s + v + length zs * KV_BLOCK_SIZE \<le> u64_max"
        using Cons.prems(5) le v by simp_all
      have fit: "entries_fit ?count len required from i A (z # zs) =
          entries_fit ?count len required from (i + 1) (A @ [(b, from \<le> i)]) zs"
        unfolding z entries_fit_Cons using True v Cons.prems(2) by blast
      have acc: "(A @ [(b, from \<le> i)]) @ entry_accesses from (i + 1) zs = A @ entry_accesses from i (z # zs)"
        unfolding z by simp
      have "wp (validate_entries len required from e (i + 1) (s + v) zs)
        (\<lambda>s' m'. entries_fit ?count len required from i A (z # zs) \<and> s' = s + sum_list (map snd (z # zs)) \<and>
           (\<exists>ms. m' = with_marks m ms \<and> marks_show ?count e (A @ entry_accesses from i (z # zs)) ms))
        (\<lambda>_ m'. \<not> entries_fit ?count len required from i A (z # zs) \<and>
           (\<exists>ms. m' = with_marks m ms \<and> marks_below ?count e ms)) ?m"
        by (rule wp_weaken [OF Cons.IH [of ?m "A @ [(b, from \<le> i)]" "s + v" "i + 1"]])
          (use shown free Cons.prems(3,4) sum fit acc z in auto)
      then show ?thesis using v sum(1) unfolding z wp_entry if_not_P [OF go] Let_def by simp
    qed
  qed
qed

subsection \<open>One row\<close>

definition written_from :: "llama_batch_row \<Rightarrow> nat" where
  "written_from row = (lbr_target_logical_length row - row_tokens row) div KV_BLOCK_SIZE"

lemma entry_accesses_zip:
  "length ids = length vs \<Longrightarrow> entry_accesses from i (zip ids vs) = map (\<lambda>(k, b). (b, from \<le> k)) (enumerate i ids)"
proof (induction ids arbitrary: i vs)
  case Nil
  then show ?case by simp
next
  case (Cons b ids)
  then show ?case by (cases vs) auto
qed

lemma canonical_expected:
  "map (expected_tokens (blocks_for_length len) len) [0..<blocks_for_length len] = canonical_counts len"
  unfolding canonical_counts_def blocks_for_length_def using expected_tokens_eq by simp

lemma sum_canonical_counts: "sum_list (canonical_counts len) = len"
proof -
  have "len \<le> blocks_for_length len * KV_BLOCK_SIZE"
    using div_ceil_le_iff [of KV_BLOCK_SIZE len "blocks_for_length len"] by (simp add: blocks_for_length_def)
  then show ?thesis unfolding canonical_counts_def sum_token_counts by simp
qed

lemma length_canonical_counts [simp]: "length (canonical_counts len) = blocks_for_length len"
  by (simp add: canonical_counts_def)

lemma entries_fit_table:
  fixes row :: llama_batch_row
  defines "t \<equiv> lbr_block_table row" and "len \<equiv> lbr_target_logical_length row"
  assumes "lbt_schema_version t = BLOCK_TABLE_V1_VERSION" and "lbt_logical_length t = len"
    and "length (lbt_physical_block_ids t) = length (lbt_valid_tokens t)"
    and "length (lbt_physical_block_ids t) = blocks_for_length len"
  shows "entries_fit (lmc_physical_block_count c) len (blocks_for_length len) (written_from row) 0 A
      (zip (lbt_physical_block_ids t) (lbt_valid_tokens t)) \<longleftrightarrow>
    table_fits c row \<and> alias_free (A @ accesses row)"
proof -
  have "entry_accesses (written_from row) 0 (zip (lbt_physical_block_ids t) (lbt_valid_tokens t)) = accesses row"
    using entry_accesses_zip [OF assms(5)] by (simp add: accesses_def written_from_def t_def)
  moreover have "map (expected_tokens (blocks_for_length len) len)
      [0..<0 + length (zip (lbt_physical_block_ids t) (lbt_valid_tokens t))] = canonical_counts len"
  proof -
    have "0 + length (zip (lbt_physical_block_ids t) (lbt_valid_tokens t)) = blocks_for_length len"
      using assms(5,6) by simp
    then show ?thesis using canonical_expected by metis
  qed
  ultimately show ?thesis
    using assms by (auto simp: entries_fit_def table_fits_def Let_def)
qed

lemma wp_block_table:
  assumes "marks_show (lmc_physical_block_count (pbm_config m)) e A (pbm_physical_block_marks m)"
    and "alias_free A" and "e < 2 ^ 63" and "config_fits (pbm_config m)"
    and "lbr_target_logical_length row \<le> u32_max"
  shows "wp (validate_block_table row (lbr_target_logical_length row) e)
    (\<lambda>_ m'. (table_fits (pbm_config m) row \<and> alias_free (A @ accesses row)) \<and>
       (\<exists>ms. m' = with_marks m ms \<and>
          marks_show (lmc_physical_block_count (pbm_config m)) e (A @ accesses row) ms))
    (\<lambda>_ m'. \<not> (table_fits (pbm_config m) row \<and> alias_free (A @ accesses row)) \<and>
       (\<exists>ms. m' = with_marks m ms \<and> marks_below (lmc_physical_block_count (pbm_config m)) e ms)) m"
    (is "wp _ ?Q ?E m")
proof -
  let ?t = "lbr_block_table row" and ?len = "lbr_target_logical_length row"
  let ?zs = "zip (lbt_physical_block_ids ?t) (lbt_valid_tokens ?t)"
  have below: "\<exists>ms. m = with_marks m ms \<and> marks_below (lmc_physical_block_count (pbm_config m)) e ms"
    using marks_show_below [OF assms(1)] by (intro exI [of _ "pbm_physical_block_marks m"]) simp
  have bad: "?E err m" if "\<not> table_fits (pbm_config m) row" for err using that below by blast
  show ?thesis
    unfolding validate_block_table_def Let_def
  proof (intro wp_failI)
    show "?E b m" if "lbt_schema_version ?t \<noteq> BLOCK_TABLE_V1_VERSION" for b
      using that by (intro bad) (simp add: table_fits_def Let_def)
    show "?E b m" if "lbt_logical_length ?t \<noteq> ?len" for b
      using that by (intro bad) (simp add: table_fits_def Let_def)
    show "?E b m" if "length (lbt_physical_block_ids ?t) \<noteq> length (lbt_valid_tokens ?t)" for b
      using that by (intro bad) (auto simp: table_fits_def Let_def)
    show "?E b m" if "length (lbt_physical_block_ids ?t) \<noteq> div_ceil ?len KV_BLOCK_SIZE" for b
      using that by (intro bad) (simp add: table_fits_def Let_def blocks_for_length_def)
    assume h: "\<not> lbt_schema_version ?t \<noteq> BLOCK_TABLE_V1_VERSION" "\<not> lbt_logical_length ?t \<noteq> ?len"
      "\<not> length (lbt_physical_block_ids ?t) \<noteq> length (lbt_valid_tokens ?t)"
      "\<not> length (lbt_physical_block_ids ?t) \<noteq> div_ceil ?len KV_BLOCK_SIZE"
    then have fit: "entries_fit (lmc_physical_block_count (pbm_config m)) ?len (div_ceil ?len KV_BLOCK_SIZE)
        (written_from row) 0 A ?zs \<longleftrightarrow> table_fits (pbm_config m) row \<and> alias_free (A @ accesses row)"
      using entries_fit_table [of row] by (simp add: blocks_for_length_def)
    have acc: "entry_accesses (written_from row) 0 ?zs = accesses row"
      using h entry_accesses_zip [of "lbt_physical_block_ids ?t" "lbt_valid_tokens ?t"]
      by (simp add: accesses_def written_from_def)
    have sum: "table_fits (pbm_config m) row \<Longrightarrow> sum_list (map snd ?zs) = ?len"
      using h by (simp add: table_fits_def Let_def sum_canonical_counts)
    have "?len div KV_BLOCK_SIZE * KV_BLOCK_SIZE \<le> ?len" by simp
    then have small: "0 + length ?zs * KV_BLOCK_SIZE \<le> u64_max"
      using h assms(5) by (simp add: div_ceil_def split: if_splits)
    have phys: "lmc_physical_block_count (pbm_config m) \<le> u32_max"
      using assms(4) by (simp add: config_fits_def)
    note entries = wp_entries [OF assms(1-3) phys small, of ?len "div_ceil ?len KV_BLOCK_SIZE" "written_from row" 0,
        unfolded acc fit]
    have "wp (bindM (validate_entries ?len (div_ceil ?len KV_BLOCK_SIZE) (written_from row) e 0 0 ?zs)
        (\<lambda>s. failIf (s \<noteq> ?len) (InvalidBatch ''block_table.valid_tokens''
           ''valid-token sum must equal the target logical length''))) ?Q ?E m"
      by (rule wp_callI [OF entries]) (use sum in \<open>auto simp: wp_failIf\<close>)
    then show "wp (bindM (validate_entries ?len (div_ceil ?len KV_BLOCK_SIZE)
        ((?len - length (lbr_input_token_ids row)) div KV_BLOCK_SIZE) e 0 0 ?zs)
        (\<lambda>s. failIf (s \<noteq> ?len) (InvalidBatch ''block_table.valid_tokens''
           ''valid-token sum must equal the target logical length''))) ?Q ?E m"
      by (simp only: written_from_def row_tokens_def)
  qed
qed

subsection \<open>All rows\<close>

definition slots_show :: "nat \<Rightarrow> nat \<Rightarrow> nat list \<Rightarrow> nat list \<Rightarrow> bool" where
  "slots_show n e S ms =
     (length ms = n \<and> (\<forall>s<n. if s \<in> set S then ms ! s = e else ms ! s < e))"

definition slots_below :: "nat \<Rightarrow> nat \<Rightarrow> nat list \<Rightarrow> bool" where
  "slots_below n e ms = (length ms = n \<and> (\<forall>s<n. ms ! s \<le> e))"

lemma slots_show_below: "slots_show n e S ms \<Longrightarrow> slots_below n e ms"
  by (auto simp: slots_show_def slots_below_def) (metis nat_le_linear order.strict_implies_order)

text \<open>A state between calls, and one in which the rows \<open>done\<close> of the current epoch were scanned.\<close>

definition metadata_ok :: "llama_batch_metadata_config \<Rightarrow> nat \<Rightarrow> prepared_llama_batch_metadata \<Rightarrow> bool" where
  "metadata_ok c e m =
     (pbm_config m = c \<and> pbm_validation_epoch m = e \<and>
      marks_below (lmc_physical_block_count c) e (pbm_physical_block_marks m) \<and>
      slots_below (lmc_max_output_slots c) e (pbm_output_slot_marks m))"

definition scanned ::
  "llama_batch_metadata_config \<Rightarrow> nat \<Rightarrow> llama_batch_row list \<Rightarrow> prepared_llama_batch_metadata \<Rightarrow> bool" where
  "scanned c e seen m =
     (pbm_config m = c \<and> pbm_validation_epoch m = e \<and>
      pbm_validation_sequence_tags m = map lbr_sequence_tag seen \<and>
      marks_show (lmc_physical_block_count c) e (concat (map accesses seen)) (pbm_physical_block_marks m) \<and>
      slots_show (lmc_max_output_slots c) e (slots_of seen) (pbm_output_slot_marks m))"

lemma scanned_ok: "scanned c e seen m \<Longrightarrow> metadata_ok c e m"
  by (auto simp: scanned_def metadata_ok_def intro: marks_show_below slots_show_below)

definition row_sized :: "llama_batch_row \<Rightarrow> bool" where
  "row_sized row = (lbr_target_logical_length row \<le> u32_max)"

lemma slots_of_simps [simp]:
  "slots_of [] = []"
  "slots_of (xs @ ys) = slots_of xs @ slots_of ys"
  by (simp_all add: slots_of_def)

lemma slots_of_one: "slots_of [row] = (case lbr_output_slot row of None \<Rightarrow> [] | Some s \<Rightarrow> [s])"
  by (simp add: slots_of_def)

lemma rows_fit_prefix: "rows_fit c (xs @ ys) \<Longrightarrow> rows_fit c xs"
  by (auto simp: rows_fit_def dest: alias_free_prefix)

lemma rows_fit_snoc:
  "rows_fit c (seen @ [row]) \<longleftrightarrow>
     rows_fit c seen \<and> lbr_sequence_tag row \<notin> set (map lbr_sequence_tag seen) \<and> row_fits c row \<and>
     sum_list (map row_tokens seen) + row_tokens row \<le> lmc_max_input_tokens c \<and>
     sum_list (map row_blocks seen) + row_blocks row \<le> lmc_max_block_entries c \<and>
     alias_free (concat (map accesses seen) @ accesses row) \<and>
     (\<forall>s. lbr_output_slot row = Some s \<longrightarrow> s \<notin> set (slots_of seen))"
  by (auto simp: rows_fit_def slots_of_one split: option.splits dest: alias_free_prefix)

lemma slots_within:
  assumes "rows_fit c rows"
  shows "length (slots_of rows) \<le> lmc_max_output_slots c"
proof -
  have inside: "set (slots_of rows) \<subseteq> {..<lmc_max_output_slots c}"
    using assms by (auto simp: rows_fit_def row_fits_def slots_of_def split: option.splits)
  from assms have "distinct (slots_of rows)" by (simp add: rows_fit_def)
  with card_mono [OF _ inside] show ?thesis by (simp add: distinct_card)
qed

lemma rows_le_tokens: "\<forall>row\<in>set rows. row_fits c row \<Longrightarrow> length rows \<le> sum_list (map row_tokens rows)"
proof (induction rows)
  case Nil
  then show ?case by simp
next
  case (Cons row rows)
  then have "0 < row_tokens row" by (simp add: row_fits_def row_tokens_def)
  with Cons show ?case by simp
qed

lemma sum_filter_le: "sum_list (map f (filter p xs)) \<le> sum_list (map (f :: _ \<Rightarrow> nat) xs)"
  by (induction xs) auto

lemma length_slots_le: "length (slots_of rows) \<le> length rows"
  by (induction rows) (auto simp: slots_of_def split: option.splits)

lemma count_row_totals:
  assumes "rows_fit c seen" and "config_fits c" and "row_tokens row \<le> u32_max"
  shows "count_row row (row_tokens row)
      ((batch_totals seen)\<lparr>vb_total_input_tokens := n\<rparr>) =
    Inr ((batch_totals (seen @ [row]))\<lparr>vb_total_input_tokens := n,
       vb_total_block_entries := sum_list (map row_blocks seen),
       vb_output_count := length (slots_of seen)\<rparr>)"
proof -
  have tokens: "sum_list (map row_tokens seen) \<le> u32_max"
    using assms(1,2) by (simp add: rows_fit_def config_fits_def)
  have rows: "length seen \<le> u32_max"
    using rows_le_tokens [of seen c] assms(1) tokens by (simp add: rows_fit_def)
  have "length (filter p seen) + 1 \<le> u64_max" for p
    using le_trans [OF length_filter_le rows, of p] by simp
  moreover have "sum_list (map row_tokens (filter p seen)) + row_tokens row \<le> u64_max" for p
    using add_mono [OF le_trans [OF sum_filter_le tokens, of p] assms(3)] by simp
  ultimately show ?thesis
    by (cases "lbr_kind row") (simp_all add: count_row_def batch_totals_def Let_def ok_or_def checked_add_def)
qed

lemma row_shape_ok:
  "row_shape row = Inr u \<longleftrightarrow> lbr_input_token_ids row \<noteq> [] \<and>
     (lbr_kind row = RowDecode \<longrightarrow> row_tokens row = 1 \<and> lbr_output_slot row \<noteq> None)"
  by (auto simp: row_shape_def row_tokens_def)

lemma wp_modI: "wp (f ()) Q E (g s) \<Longrightarrow> wp (bindM (modM g) f) Q E s"
  by (simp add: wp_bindM wp_modM)

lemma wp_output_slot:
  assumes slots: "slots_show (lmc_max_output_slots (pbm_config m)) e S (pbm_output_slot_marks m)"
    and fits: "lmc_max_output_slots (pbm_config m) \<le> u32_max" and count: "vb_output_count v < u64_max"
  shows "wp (validate_output_slot row e v)
    (\<lambda>v' m'. (\<forall>s. lbr_output_slot row = Some s \<longrightarrow> s < lmc_max_output_slots (pbm_config m) \<and> s \<notin> set S) \<and>
       v' = v\<lparr>vb_output_count := vb_output_count v + length (slots_of [row])\<rparr> \<and>
       (\<exists>ms. m' = m\<lparr>pbm_output_slot_marks := ms\<rparr> \<and>
          slots_show (lmc_max_output_slots (pbm_config m)) e (S @ slots_of [row]) ms))
    (\<lambda>_ m'. m' = m \<and>
       \<not> (\<forall>s. lbr_output_slot row = Some s \<longrightarrow> s < lmc_max_output_slots (pbm_config m) \<and> s \<notin> set S)) m"
proof (cases "lbr_output_slot row")
  case None
  then show ?thesis using slots
    by (auto simp: validate_output_slot_def wp_simps slots_of_one intro!: exI [of _ "pbm_output_slot_marks m"])
next
  case (Some s)
  have hit: "pbm_output_slot_marks m ! s = e \<longleftrightarrow> s \<in> set S" if "s < lmc_max_output_slots (pbm_config m)"
  proof -
    have "if s \<in> set S then pbm_output_slot_marks m ! s = e else pbm_output_slot_marks m ! s < e"
      using slots that by (simp add: slots_show_def)
    then show ?thesis by (simp split: if_splits)
  qed
  have marked: "slots_show (lmc_max_output_slots (pbm_config m)) e (S @ [s]) ((pbm_output_slot_marks m)[s := e])"
    if "s < lmc_max_output_slots (pbm_config m)"
    using slots that by (auto simp: slots_show_def nth_list_update)
  show ?thesis
    unfolding validate_output_slot_def Some option.case
    by (intro wp_tryI wp_withI wp_failI wp_modI)
      (use hit marked fits count Some in \<open>auto simp: checked_usize_def ensure_batch_capacity_def wp_ret slots_of_one\<close>)
qed

lemma wp_row:
  assumes scan: "scanned c e seen m" and fit: "rows_fit c seen" and conf: "config_fits c" and e: "e < 2 ^ 63"
    and sized: "row_sized row"
  shows "wp (validate_row row e (batch_totals seen))
    (\<lambda>v m'. rows_fit c (seen @ [row]) \<and> v = batch_totals (seen @ [row]) \<and> scanned c e (seen @ [row]) m')
    (\<lambda>_ m'. \<not> rows_fit c (seen @ [row]) \<and> metadata_ok c e m') m"
    (is "wp _ ?Q ?E m")
proof -
  let ?A = "concat (map accesses seen)" and ?S = "slots_of seen"
  let ?m = "m\<lparr>pbm_validation_sequence_tags := pbm_validation_sequence_tags m @ [lbr_sequence_tag row]\<rparr>"
  from scan have m: "pbm_config m = c" "pbm_validation_epoch m = e"
    "pbm_validation_sequence_tags m = map lbr_sequence_tag seen"
    "marks_show (lmc_physical_block_count c) e ?A (pbm_physical_block_marks m)"
    "slots_show (lmc_max_output_slots c) e ?S (pbm_output_slot_marks m)"
    by (simp_all add: scanned_def)
  have ok: "metadata_ok c e m" "metadata_ok c e ?m" using scanned_ok [OF scan] by (simp_all add: metadata_ok_def)
  have bounds: "sum_list (map row_tokens seen) \<le> u32_max" "sum_list (map row_blocks seen) \<le> u32_max"
    "lmc_max_input_tokens c \<le> u32_max" "lmc_max_block_entries c \<le> u32_max" "lmc_max_output_slots c \<le> u32_max"
    using fit conf by (simp_all add: rows_fit_def config_fits_def)
  have slots: "length ?S < u64_max"
    using length_slots_le [of seen] rows_le_tokens [of seen c] fit bounds(1) by (simp add: rows_fit_def)
  have free: "alias_free ?A" using fit by (simp add: rows_fit_def)
  have totals: "vb_total_input_tokens (batch_totals seen) = sum_list (map row_tokens seen)"
    by (simp add: batch_totals_def Let_def)
  show ?thesis
    unfolding validate_row_def Let_def
  proof (intro wp_withI wp_failI wp_modI wp_tryI, goal_cases)
    case 1
    then show ?case using ok m by (simp add: rows_fit_snoc)
  next
    case (2 err)
    then have "\<not> row_fits c row" using row_shape_ok [of row "()"] by (auto simp: row_fits_def)
    then show ?case using ok by (simp add: rows_fit_snoc)
  next
    case (3 u err)
    then show ?case using sized by (simp add: checked_usize_def row_sized_def)
  next
    case (4 u target)
    then have "\<not> row_fits c row" by (auto simp: row_fits_def row_tokens_def checked_usize_def)
    then show ?case using ok by (simp add: rows_fit_snoc)
  next
    case (5 u target err)
    then show ?case using ok bounds by (auto simp: totals rows_fit_snoc row_tokens_def)
  next
    case (6 u target total err)
    then show ?case using ok m by (auto simp: totals rows_fit_snoc row_tokens_def ensure_batch_capacity_def)
  next
    case (7 u target total u' err)
    then have "row_tokens row \<le> u32_max" using sized by (simp add: row_sized_def checked_usize_def row_tokens_def)
    from 7 count_row_totals [OF fit conf this] show ?case by (simp add: row_tokens_def)
  next
    case (8 u target total u' v)
    then have target: "target = lbr_target_logical_length row" and tokens: "row_tokens row \<le> target"
      and total: "total = sum_list (map row_tokens seen) + row_tokens row" "total \<le> lmc_max_input_tokens c"
      using m by (simp_all add: checked_usize_def row_tokens_def totals ensure_batch_capacity_def)
    have small: "row_tokens row \<le> u32_max" using sized tokens target by (simp add: row_sized_def)
    from 8 have v: "v = (batch_totals (seen @ [row]))\<lparr>vb_total_input_tokens := total,
        vb_total_block_entries := sum_list (map row_blocks seen), vb_output_count := length ?S\<rparr>"
      using count_row_totals [OF fit conf small, of total] by (simp add: row_tokens_def)
    have shape: "row_shape row = Inr ()" using 8 by simp
    have table: "wp (validate_block_table row target e)
        (\<lambda>_ m'. (table_fits c row \<and> alias_free (?A @ accesses row)) \<and>
           (\<exists>ms. m' = with_marks ?m ms \<and> marks_show (lmc_physical_block_count c) e (?A @ accesses row) ms))
        (\<lambda>_ m'. \<not> (table_fits c row \<and> alias_free (?A @ accesses row)) \<and>
           (\<exists>ms. m' = with_marks ?m ms \<and> marks_below (lmc_physical_block_count c) e ms)) ?m"
      using wp_block_table [of ?m e ?A row] m free e conf sized by (simp add: target row_sized_def)
    show ?case
    proof (rule wp_callI [OF table])
      fix err m'
      assume "\<not> (table_fits c row \<and> alias_free (?A @ accesses row)) \<and>
        (\<exists>ms. m' = with_marks ?m ms \<and> marks_below (lmc_physical_block_count c) e ms)"
      then show "?E err m'" using ok by (auto simp: rows_fit_snoc row_fits_def metadata_ok_def)
    next
      fix u'' m'
      assume tab: "(table_fits c row \<and> alias_free (?A @ accesses row)) \<and>
        (\<exists>ms. m' = with_marks ?m ms \<and> marks_show (lmc_physical_block_count c) e (?A @ accesses row) ms)"
      then obtain ms where m': "m' = with_marks ?m ms"
        and ms: "marks_show (lmc_physical_block_count c) e (?A @ accesses row) ms" by blast
      have ok': "metadata_ok c e m'" using ok(2) marks_show_below [OF ms] m' by (simp add: metadata_ok_def)
      have blocks: "row_blocks row \<le> u32_max"
        using tab sized
        by (simp add: table_fits_def Let_def row_blocks_def row_sized_def blocks_for_length_def div_ceil_le_iff)
      show "wp (bindM (tryM (ok_or (checked_add (vb_total_block_entries v)
            (length (lbt_physical_block_ids (lbr_block_table row)))) (BatchArithmeticOverflow ''total block entries'')))
          (\<lambda>entries. bindM (tryM (ensure_batch_capacity ''block entries'' entries (lmc_max_block_entries (pbm_config m))))
             (\<lambda>_. validate_output_slot row e (v\<lparr>vb_total_block_entries := entries\<rparr>)))) ?Q ?E m'"
      proof (intro wp_tryI, goal_cases)
        case (1 err)
        then show ?case using blocks bounds by (simp add: v row_blocks_def)
      next
        case (2 entries err)
        then show ?case using ok' m by (auto simp: v rows_fit_snoc row_blocks_def ensure_batch_capacity_def)
      next
        case (3 entries u3)
        then have entries: "entries = sum_list (map row_blocks seen) + row_blocks row" "entries \<le> lmc_max_block_entries c"
          using m by (simp_all add: v row_blocks_def ensure_batch_capacity_def)
        have base: "rows_fit c (seen @ [row]) \<longleftrightarrow>
            (\<forall>s. lbr_output_slot row = Some s \<longrightarrow> s < lmc_max_output_slots c \<and> s \<notin> set ?S)"
          using fit tab entries total shape 8(1) m(3) tokens target row_shape_ok [of row "()"]
          by (auto simp: rows_fit_snoc row_fits_def)
        have "pbm_config m' = c" "pbm_output_slot_marks m' = pbm_output_slot_marks m" using m' m by simp_all
        then have "wp (validate_output_slot row e (v\<lparr>vb_total_block_entries := entries\<rparr>))
          (\<lambda>v' m''. rows_fit c (seen @ [row]) \<and>
             v' = (v\<lparr>vb_total_block_entries := entries\<rparr>)\<lparr>vb_output_count := length ?S + length (slots_of [row])\<rparr> \<and>
             (\<exists>ms. m'' = m'\<lparr>pbm_output_slot_marks := ms\<rparr> \<and> slots_show (lmc_max_output_slots c) e (?S @ slots_of [row]) ms))
          (\<lambda>_ m''. m'' = m' \<and> \<not> rows_fit c (seen @ [row])) m'"
          using wp_output_slot [of m' e ?S "v\<lparr>vb_total_block_entries := entries\<rparr>" row] m(5) bounds(5) slots
          by (simp add: v base)
        then show ?case
        proof (rule wp_weaken)
          fix v' m''
          assume h: "rows_fit c (seen @ [row]) \<and>
             v' = (v\<lparr>vb_total_block_entries := entries\<rparr>)\<lparr>vb_output_count := length ?S + length (slots_of [row])\<rparr> \<and>
             (\<exists>ms. m'' = m'\<lparr>pbm_output_slot_marks := ms\<rparr> \<and> slots_show (lmc_max_output_slots c) e (?S @ slots_of [row]) ms)"
          then have "v' = batch_totals (seen @ [row])"
            by (simp add: v entries total batch_totals_def Let_def)
          moreover have "scanned c e (seen @ [row]) m''"
            using h m m' ms by (auto simp: scanned_def)
          ultimately show "?Q v' m''" using h by blast
        next
          fix err m''
          assume "m'' = m' \<and> \<not> rows_fit c (seen @ [row])"
          then show "?E err m''" using ok' by simp
        qed
      qed
    qed
  qed
qed

lemma wp_rows:
  assumes "scanned c e seen m" and "rows_fit c seen" and "config_fits c" and "e < 2 ^ 63"
    and "\<forall>row\<in>set rows. row_sized row"
  shows "wp (validate_rows rows e (batch_totals seen))
    (\<lambda>v m'. rows_fit c (seen @ rows) \<and> v = batch_totals (seen @ rows) \<and> scanned c e (seen @ rows) m')
    (\<lambda>_ m'. \<not> rows_fit c (seen @ rows) \<and> metadata_ok c e m') m"
  using assms
proof (induction rows arbitrary: seen m)
  case Nil
  then show ?case by (simp add: wp_ret)
next
  case (Cons row rows)
  have eq: "seen @ row # rows = (seen @ [row]) @ rows" by simp
  show ?case
    unfolding validate_rows.simps
  proof (rule wp_callI [OF wp_row [OF Cons.prems(1-4)]])
    show "row_sized row" using Cons.prems(5) by simp
    show "\<not> rows_fit c (seen @ row # rows) \<and> metadata_ok c e m'"
      if "\<not> rows_fit c (seen @ [row]) \<and> metadata_ok c e m'" for m'
      using that rows_fit_prefix unfolding eq by blast
    fix v m'
    assume "rows_fit c (seen @ [row]) \<and> v = batch_totals (seen @ [row]) \<and> scanned c e (seen @ [row]) m'"
    with Cons.IH [of "seen @ [row]" m'] Cons.prems(3-5)
    show "wp (validate_rows rows e v)
      (\<lambda>v m'. rows_fit c (seen @ row # rows) \<and> v = batch_totals (seen @ row # rows) \<and> scanned c e (seen @ row # rows) m')
      (\<lambda>_ m'. \<not> rows_fit c (seen @ row # rows) \<and> metadata_ok c e m') m'"
      unfolding eq by auto
  qed
qed

lemma fresh_epoch:
  assumes "metadata_ok c e m" and "e < u64_max"
  shows "scanned c (e + 1) [] ((advance_validation_epoch m)\<lparr>pbm_validation_sequence_tags := []\<rparr>)"
    and "metadata_ok c (e + 1) (advance_validation_epoch m)"
  using assms by (auto simp: scanned_def metadata_ok_def advance_validation_epoch_def checked_add_def
      marks_below_def marks_show_def slots_below_def slots_show_def less_Suc_eq_le le_SucI)

lemma dense_slot_marks:
  assumes "slots_show n e S ms" and "distinct S" and "length S \<le> n"
  shows "list_ex (\<lambda>mark. mark \<noteq> e) (take (length S) ms) \<longleftrightarrow> set S \<noteq> {..<length S}"
proof -
  have card: "card (set S) = length S" using assms(2) by (rule distinct_card)
  have mark: "ms ! s = e \<longleftrightarrow> s \<in> set S" if "s < length S" for s
  proof -
    have "if s \<in> set S then ms ! s = e else ms ! s < e" using assms(1,3) that by (simp add: slots_show_def)
    then show ?thesis by (simp split: if_splits)
  qed
  have "\<not> list_ex (\<lambda>mark. mark \<noteq> e) (take (length S) ms) \<longleftrightarrow> {..<length S} \<subseteq> set S"
    using mark assms(1,3) by (auto simp: list_ex_length slots_show_def)
  moreover have "{..<length S} \<subseteq> set S \<longleftrightarrow> set S = {..<length S}"
    using card_subset_eq [of "set S" "{..<length S}"] card by auto
  ultimately show ?thesis by blast
qed

text \<open>Validation decides \<open>batch_ok\<close>, and leaves usable marks whatever it decides.\<close>

lemma wp_validate_batch:
  assumes ok: "metadata_ok c e m" and conf: "config_fits c" and e: "e + 1 < 2 ^ 63"
    and sized: "\<forall>row\<in>set rows. row_sized row"
  shows "wp (validate_batch rows)
    (\<lambda>v m'. batch_ok c rows \<and> v = batch_totals rows \<and> metadata_ok c (e + 1) m')
    (\<lambda>_ m'. \<not> batch_ok c rows \<and> (metadata_ok c e m' \<or> metadata_ok c (e + 1) m')) m"
proof -
  have c: "pbm_config m = c" using ok by (simp add: metadata_ok_def)
  have small: "e < u64_max" using e by simp
  note fresh = fresh_epoch [OF ok small]
  have epoch: "pbm_validation_epoch (advance_validation_epoch m) = e + 1"
    using fresh(2) by (simp add: metadata_ok_def)
  have empty: "rows_fit c []" by (simp add: rows_fit_def alias_free_def)
  have start: "\<lparr>vb_total_input_tokens = 0, vb_total_block_entries = 0, vb_output_count = 0, vb_prefill_rows = 0,
      vb_decode_rows = 0, vb_prefill_tokens = 0, vb_decode_tokens = 0\<rparr> = batch_totals []"
    by (simp add: batch_totals_def Let_def)
  note rows = wp_rows [OF fresh(1) empty conf e sized, unfolded append_Nil]
  show ?thesis
    unfolding validate_batch_def Let_def start
  proof (intro wp_failI wp_withI wp_tryI wp_modI, goal_cases)
    case 1
    then show ?case using ok by (simp add: batch_ok_def)
  next
    case (2 err)
    then show ?case using ok c by (auto simp: batch_ok_def ensure_batch_capacity_def)
  next
    case (3 u)
    then have cap: "rows \<noteq> []" "length rows \<le> lmc_max_rows c" using c by (simp_all add: ensure_batch_capacity_def)
    show ?case unfolding epoch
    proof (rule wp_callI [OF rows])
      fix err m'
      assume "\<not> rows_fit c rows \<and> metadata_ok c (e + 1) m'"
      then show "\<not> batch_ok c rows \<and> (metadata_ok c e m' \<or> metadata_ok c (e + 1) m')"
        by (simp add: batch_ok_def)
    next
      fix v m'
      assume h: "rows_fit c rows \<and> v = batch_totals rows \<and> scanned c (e + 1) rows m'"
      have n: "vb_output_count v = length (slots_of rows)" using h by (simp add: batch_totals_def Let_def)
      have conf': "pbm_config m' = c" using h by (simp add: scanned_def)
      have dist: "distinct (slots_of rows)" using h by (simp add: rows_fit_def)
      have cap_slots: "length (slots_of rows) \<le> lmc_max_output_slots c" using h slots_within by blast
      have dense: "list_ex (\<lambda>mark. mark \<noteq> e + 1) (take (vb_output_count v) (pbm_output_slot_marks m')) \<longleftrightarrow>
          \<not> batch_ok c rows"
        using dense_slot_marks [OF _ dist cap_slots, of "e + 1" "pbm_output_slot_marks m'"] h n cap
        by (simp add: scanned_def batch_ok_def)
      show "wp (withM (\<lambda>m. bindM (tryM (ensure_batch_capacity ''output slots'' (vb_output_count v)
            (lmc_max_output_slots (pbm_config m)))) (\<lambda>_.
          bindM (failIf (list_ex (\<lambda>mark. mark \<noteq> e + 1) (take (vb_output_count v) (pbm_output_slot_marks m)))
            (InvalidBatch ''output_slot'' ''output slots must be dense and zero-based'')) (\<lambda>_. ret v))))
        (\<lambda>v m'. batch_ok c rows \<and> v = batch_totals rows \<and> metadata_ok c (e + 1) m')
        (\<lambda>_ m'. \<not> batch_ok c rows \<and> (metadata_ok c e m' \<or> metadata_ok c (e + 1) m')) m'"
        using h dense cap_slots n conf' scanned_ok
        by (auto simp: wp_simps ensure_batch_capacity_def failE_def)
    qed
  qed
qed

end
