(* ===== verification/Batch_Pack.thy ===== *)
theory Batch_Pack
  imports Batch_Validate "HOL-Library.Multiset"
begin

text \<open>
  What \<open>pack\<close> of \<open>batch.rs\<close> leaves in its buffers. \<open>packed_view\<close> gives every array as a function of the
  rows; the packing loop produces exactly that from an accepted batch, and the accessors of the view
  read every row back.
\<close>

subsection \<open>The arrays as functions of the rows\<close>

definition row_offsets :: "(llama_batch_row \<Rightarrow> nat) \<Rightarrow> llama_batch_row list \<Rightarrow> nat list" where
  "row_offsets f rows = map (\<lambda>i. sum_list (map f (take i rows))) [0..<length rows + 1]"

definition row_positions :: "llama_batch_row \<Rightarrow> nat list" where
  "row_positions row = [lbr_target_logical_length row - row_tokens row..<lbr_target_logical_length row]"

definition slot_or_none :: "llama_batch_row \<Rightarrow> nat" where
  "slot_or_none row = (case lbr_output_slot row of None \<Rightarrow> LLAMA_BATCH_NO_OUTPUT_SLOT | Some s \<Rightarrow> s)"

definition rows_of_kind :: "llama_batch_row_kind \<Rightarrow> llama_batch_row list \<Rightarrow> nat list" where
  "rows_of_kind k rows = map fst (filter (\<lambda>(i, r). lbr_kind r = k) (enumerate 0 rows))"

definition slot_routes :: "(nat \<Rightarrow> nat) \<Rightarrow> nat \<Rightarrow> llama_batch_row list \<Rightarrow> nat list" where
  "slot_routes f n rows =
     fold (\<lambda>(i, r) xs. case lbr_output_slot r of None \<Rightarrow> xs | Some s \<Rightarrow> xs[s := f i])
       (enumerate 0 rows) (replicate n LLAMA_BATCH_NO_OUTPUT_SLOT)"

text \<open>The index of the last token of a row in the flattened tokens.\<close>

definition last_token :: "llama_batch_row list \<Rightarrow> nat \<Rightarrow> nat" where
  "last_token rows i = sum_list (map row_tokens (take (i + 1) rows)) - 1"

text \<open>The buffers after the first \<open>k\<close> rows of \<open>rows\<close>, for \<open>n\<close> output slots.\<close>

definition packed_state ::
  "llama_batch_row list \<Rightarrow> nat \<Rightarrow> prepared_llama_batch_metadata \<Rightarrow> nat \<Rightarrow> prepared_llama_batch_metadata" where
  "packed_state rows n m k =
     m\<lparr>pbm_sequence_tags := map lbr_sequence_tag (take k rows),
       pbm_row_kind_codes := map (row_kind_code \<circ> lbr_kind) (take k rows),
       pbm_input_row_offsets := row_offsets row_tokens (take k rows),
       pbm_input_token_ids := concat (map lbr_input_token_ids (take k rows)),
       pbm_position_ids := concat (map row_positions (take k rows)),
       pbm_row_sequence_slots := concat (map (\<lambda>(i, r). replicate (row_tokens r) i) (enumerate 0 (take k rows))),
       pbm_block_row_offsets := row_offsets row_blocks (take k rows),
       pbm_physical_block_ids := concat (map (lbt_physical_block_ids \<circ> lbr_block_table) (take k rows)),
       pbm_valid_tokens := concat (map (lbt_valid_tokens \<circ> lbr_block_table) (take k rows)),
       pbm_logical_lengths := map lbr_target_logical_length (take k rows),
       pbm_output_slots_by_row := map slot_or_none (take k rows),
       pbm_output_row_indices := slot_routes (\<lambda>i. i) n (take k rows),
       pbm_output_token_indices := slot_routes (last_token rows) n (take k rows),
       pbm_prefill_row_indices := rows_of_kind RowPrefill (take k rows),
       pbm_decode_row_indices := rows_of_kind RowDecode (take k rows)\<rparr>"

definition packed_view :: "llama_batch_row list \<Rightarrow> llama_packed_batch_metadata" where
  "packed_view rows =
     \<lparr>pkd_schema_version = LLAMA_BATCH_METADATA_V1_VERSION,
      pkd_block_table_schema_version = BLOCK_TABLE_V1_VERSION,
      pkd_sequence_tags = map lbr_sequence_tag rows,
      pkd_row_kind_codes = map (row_kind_code \<circ> lbr_kind) rows,
      pkd_input_row_offsets = row_offsets row_tokens rows,
      pkd_input_token_ids = concat (map lbr_input_token_ids rows),
      pkd_position_ids = concat (map row_positions rows),
      pkd_row_sequence_slots = concat (map (\<lambda>(i, r). replicate (row_tokens r) i) (enumerate 0 rows)),
      pkd_block_row_offsets = row_offsets row_blocks rows,
      pkd_physical_block_ids = concat (map (lbt_physical_block_ids \<circ> lbr_block_table) rows),
      pkd_valid_tokens = concat (map (lbt_valid_tokens \<circ> lbr_block_table) rows),
      pkd_logical_lengths = map lbr_target_logical_length rows,
      pkd_output_slots_by_row = map slot_or_none rows,
      pkd_output_row_indices = slot_routes (\<lambda>i. i) (length (slots_of rows)) rows,
      pkd_output_token_indices = slot_routes (last_token rows) (length (slots_of rows)) rows,
      pkd_prefill_row_indices = rows_of_kind RowPrefill rows,
      pkd_decode_row_indices = rows_of_kind RowDecode rows,
      pkd_prefill_token_count = vb_prefill_tokens (batch_totals rows),
      pkd_decode_token_count = vb_decode_tokens (batch_totals rows)\<rparr>"

subsection \<open>The packing loop\<close>

lemma row_offsets_snoc:
  "row_offsets f (rows @ [r]) = row_offsets f rows @ [sum_list (map f rows) + f r]"
proof -
  have "map (\<lambda>i. sum_list (map f (take i (rows @ [r])))) [0..<length rows + 1] = row_offsets f rows"
    by (simp add: row_offsets_def del: upt_Suc)
  then show ?thesis by (simp add: row_offsets_def)
qed

lemma enumerate_snoc: "enumerate 0 (xs @ [x]) = enumerate 0 xs @ [(length xs, x)]"
  by (simp add: enumerate_append_eq)

definition packable :: "llama_batch_row list \<Rightarrow> bool" where
  "packable rows =
     ((\<forall>r\<in>set rows. lbr_input_token_ids r \<noteq> [] \<and> row_tokens r \<le> lbr_target_logical_length r \<and>
        (\<forall>s. lbr_output_slot r = Some s \<longrightarrow> s \<le> u32_max)) \<and>
      sum_list (map row_tokens rows) \<le> u32_max \<and> sum_list (map row_blocks rows) \<le> u32_max)"

lemma packable_step:
  assumes "packable rows" and "k < length rows"
  shows "row_tokens (rows ! k) \<noteq> 0" and "row_tokens (rows ! k) \<le> lbr_target_logical_length (rows ! k)"
    and "lbr_output_slot (rows ! k) = Some s \<Longrightarrow> s \<le> u32_max"
    and "sum_list (map row_tokens (take k rows)) + row_tokens (rows ! k) \<le> u32_max"
    and "sum_list (map row_blocks (take k rows)) + row_blocks (rows ! k) \<le> u32_max"
    and "k \<le> u32_max"
proof -
  have r: "rows ! k \<in> set rows" using assms(2) by simp
  show "row_tokens (rows ! k) \<noteq> 0" "row_tokens (rows ! k) \<le> lbr_target_logical_length (rows ! k)"
    "lbr_output_slot (rows ! k) = Some s \<Longrightarrow> s \<le> u32_max"
    using assms(1) r by (auto simp: packable_def row_tokens_def)
  have split: "sum_list (map f rows) = sum_list (map f (take k rows)) + f (rows ! k) + sum_list (map f (drop (Suc k) rows))"
    for f :: "llama_batch_row \<Rightarrow> nat"
    using id_take_nth_drop [OF assms(2)] by (metis add.assoc list.simps(9) map_append sum_list.Cons sum_list_append)
  show "sum_list (map row_tokens (take k rows)) + row_tokens (rows ! k) \<le> u32_max"
    "sum_list (map row_blocks (take k rows)) + row_blocks (rows ! k) \<le> u32_max"
    using assms(1) split [of row_tokens] split [of row_blocks] by (simp_all add: packable_def)
  have "length xs \<le> sum_list (map row_tokens xs)" if "set xs \<subseteq> set rows" for xs
    using that
  proof (induction xs)
    case Nil
    then show ?case by simp
  next
    case (Cons x xs)
    then have "0 < row_tokens x" using assms(1) by (auto simp: packable_def row_tokens_def)
    with Cons show ?case by simp
  qed
  from this [of rows] assms show "k \<le> u32_max" by (simp add: packable_def)
qed

lemma pack_rows_step:
  assumes "packable rows" and "k < length rows"
  shows "pack_rows k (sum_list (map row_tokens (take k rows))) (sum_list (map row_blocks (take k rows)))
      (rows ! k # rest) (packed_state rows n m k) =
    pack_rows (k + 1) (sum_list (map row_tokens (take (k + 1) rows))) (sum_list (map row_blocks (take (k + 1) rows)))
      rest (packed_state rows n m (k + 1))"
proof -
  note s = packable_step [OF assms]
  let ?r = "rows ! k"
  have tok: "length (lbr_input_token_ids ?r) = row_tokens ?r" and blk:
    "length (lbt_physical_block_ids (lbr_block_table ?r)) = row_blocks ?r"
    by (simp_all add: row_tokens_def row_blocks_def)
  have take: "take (k + 1) rows = take k rows @ [?r]" using assms(2) by (simp add: take_Suc_conv_app_nth)
  have len: "length (take k rows) = k" "min (length rows) k = k" using assms(2) by simp_all
  have rep: "map (\<lambda>_. k) (lbr_input_token_ids ?r) = replicate (row_tokens ?r) k"
    by (simp add: row_tokens_def map_replicate_const)
  have last: "sum_list (map row_tokens (take k rows)) + row_tokens ?r - 1 = last_token rows k"
    unfolding last_token_def take by simp
  have sums: "sum_list (map f (take (k + 1) rows)) = sum_list (map f (take k rows)) + f ?r"
    for f :: "llama_batch_row \<Rightarrow> nat"
    unfolding take by simp
  have pushed: "push_kind ?r k (push_row ?r k (lbr_target_logical_length ?r - row_tokens ?r)
      (sum_list (map row_tokens (take k rows)) + row_tokens ?r)
      (sum_list (map row_blocks (take k rows)) + row_blocks ?r) (packed_state rows n m k)) =
    (packed_state rows n m (k + 1))\<lparr>pbm_output_slots_by_row := map slot_or_none (take k rows),
       pbm_output_row_indices := slot_routes (\<lambda>i. i) n (take k rows),
       pbm_output_token_indices := slot_routes (last_token rows) n (take k rows)\<rparr>"
    unfolding packed_state_def take
    by (cases m; cases "lbr_kind ?r") (simp_all add: push_kind_def push_row_def rep row_offsets_snoc enumerate_snoc len
        row_positions_def rows_of_kind_def)
  have route: "route_output ?r k (sum_list (map row_tokens (take k rows)) + row_tokens ?r)
      ((packed_state rows n m (k + 1))\<lparr>pbm_output_slots_by_row := map slot_or_none (take k rows),
         pbm_output_row_indices := slot_routes (\<lambda>i. i) n (take k rows),
         pbm_output_token_indices := slot_routes (last_token rows) n (take k rows)\<rparr>) =
    (Inr (), packed_state rows n m (k + 1))"
  proof (cases "lbr_output_slot ?r")
    case None
    then show ?thesis unfolding packed_state_def take
      by (cases m) (simp add: route_output_def modM_def slot_or_none_def slot_routes_def enumerate_snoc len)
  next
    case (Some slot)
    then have "slot \<le> u64_max" using s(3) by fastforce
    then show ?thesis using Some s(1) unfolding packed_state_def take
      by (cases m) (simp add: route_output_def cmd_defs checked_usize_def ok_or_def u64_try_from_def checked_sub_def
          slot_or_none_def slot_routes_def enumerate_snoc len last [symmetric])
  qed
  show ?thesis
    unfolding pack_rows.simps tok blk checked_u32_def checked_add32_def
    using s(2,4-6) by (simp add: bindM_def tryM_def modM_def ok_or_def u32_try_from_def checked_sub_def pushed [simplified]
        route [simplified] sums [simplified])
qed

lemma pack_rows_all:
  assumes "packable rows" and "k \<le> length rows"
  shows "pack_rows k (sum_list (map row_tokens (take k rows))) (sum_list (map row_blocks (take k rows)))
      (drop k rows) (packed_state rows n m k) = (Inr (), packed_state rows n m (length rows))"
  using assms(2)
proof (induction "length rows - k" arbitrary: k)
  case 0
  then show ?case by (simp add: ret_def)
next
  case (Suc d)
  then have k: "k < length rows" by simp
  have "drop k rows = rows ! k # drop (k + 1) rows" using k by (simp add: Cons_nth_drop_Suc)
  then show ?case using pack_rows_step [OF assms(1) k] Suc(1) [of "k + 1"] Suc(2) k by simp
qed

subsection \<open>The outcome of \<open>pack\<close>\<close>

lemma mset_ordered_rows: "mset (ordered_rows d rows) = mset rows"
  using multiset_partition [of "mset rows" "\<lambda>r. lbr_kind r = RowDecode"]
  by (cases d) (simp_all add: ordered_rows_def flip: mset_filter)

lemma mset_slots_of: "mset rows = mset rows' \<Longrightarrow> mset (slots_of rows) = mset (slots_of rows')"
proof -
  have "mset (slots_of xs) = \<Sum>\<^sub># (image_mset (\<lambda>r. case lbr_output_slot r of None \<Rightarrow> {#} | Some s \<Rightarrow> {#s#}) (mset xs))"
    for xs by (induction xs) (auto simp: slots_of_def split: option.splits)
  then show "mset rows = mset rows' \<Longrightarrow> mset (slots_of rows) = mset (slots_of rows')" by metis
qed

lemma sum_list_mset_eq:
  "mset rows = mset rows' \<Longrightarrow> sum_list (map (f :: _ \<Rightarrow> nat) rows) = sum_list (map f rows')"
  by (metis mset_map sum_mset_sum_list)

lemma packable_ordered:
  assumes "batch_ok c rows" and "config_fits c"
  shows "packable (ordered_rows d rows)"
proof -
  have m: "mset (ordered_rows d rows) = mset rows" by (rule mset_ordered_rows)
  have "set (ordered_rows d rows) = set rows" using m by (rule mset_eq_setD)
  moreover have "lmc_max_output_slots c \<le> u32_max" "lmc_max_input_tokens c \<le> u32_max" "lmc_max_block_entries c \<le> u32_max"
    using assms(2) by (simp_all add: config_fits_def)
  ultimately show ?thesis
    using assms(1) sum_list_mset_eq [OF m, of row_tokens] sum_list_mset_eq [OF m, of row_blocks]
    by (fastforce simp: packable_def batch_ok_def rows_fit_def row_fits_def)
qed

lemma view_ordered:
  assumes "mset rows' = mset rows"
  shows "batch_view (batch_totals rows) (packed_state rows' (length (slots_of rows)) m (length rows')) = packed_view rows'"
proof -
  have "length (slots_of rows) = length (slots_of rows')"
    using mset_slots_of [OF assms] by (metis size_mset)
  moreover have "sum_list (map row_tokens (filter p rows)) = sum_list (map row_tokens (filter p rows'))" for p
    using assms by (intro sum_list_mset_eq) (simp add: mset_filter)
  ultimately show ?thesis
    by (simp add: batch_view_def packed_state_def packed_view_def batch_totals_def Let_def)
qed

lemma packed_state_start:
  "packed_state rows n m 0 = (clear_packed m)\<lparr>
     pbm_output_row_indices := replicate n LLAMA_BATCH_NO_OUTPUT_SLOT,
     pbm_output_token_indices := replicate n LLAMA_BATCH_NO_OUTPUT_SLOT,
     pbm_input_row_offsets := [0], pbm_block_row_offsets := [0]\<rparr>"
  by (cases m) (simp add: packed_state_def clear_packed_def row_offsets_def slot_routes_def rows_of_kind_def)

lemma metadata_ok_packed [simp]: "metadata_ok c e (packed_state rows n m k) = metadata_ok c e m"
  by (simp add: metadata_ok_def packed_state_def)

lemma pack_validated:
  assumes "validate_batch rows m = (Inr (batch_totals rows), m1)" and "packable (ordered_rows d rows)"
  shows "pack_ordered rows d m = (Inr (packed_view (ordered_rows d rows)),
    packed_state (ordered_rows d rows) (length (slots_of rows)) m1 (length (ordered_rows d rows)))"
proof -
  let ?R = "ordered_rows d rows" and ?n = "length (slots_of rows)"
  have n: "vb_output_count (batch_totals rows) = ?n" by (simp add: batch_totals_def Let_def)
  from pack_rows_all [OF assms(2), of 0 ?n m1]
  have run: "pack_rows 0 0 0 ?R (packed_state ?R ?n m1 0) = (Inr (), packed_state ?R ?n m1 (length ?R))" by simp
  have start: "(clear_packed m1)\<lparr>pbm_output_row_indices := replicate ?n LLAMA_BATCH_NO_OUTPUT_SLOT,
      pbm_output_token_indices := replicate ?n LLAMA_BATCH_NO_OUTPUT_SLOT,
      pbm_input_row_offsets := pbm_input_row_offsets (clear_packed m1) @ [0],
      pbm_block_row_offsets := pbm_block_row_offsets (clear_packed m1) @ [0]\<rparr> = packed_state ?R ?n m1 0"
    by (cases m1) (simp add: packed_state_start clear_packed_def)
  have view: "batch_view (batch_totals rows) (packed_state ?R ?n m1 (length ?R)) = packed_view ?R"
    by (rule view_ordered [OF mset_ordered_rows])
  show ?thesis
    unfolding pack_ordered_def bindM_def modM_def withM_def ret_def assms(1)
    by (simp add: n start run view del: One_nat_def)
qed

lemma wp_pack:
  assumes ok: "metadata_ok c e m" and conf: "config_fits c" and e: "e + 1 < 2 ^ 63"
    and sized: "\<forall>row\<in>set rows. row_sized row"
  shows "wp (pack_ordered rows d)
    (\<lambda>p m'. batch_ok c rows \<and> p = packed_view (ordered_rows d rows) \<and> metadata_ok c (e + 1) m' \<and>
       (\<exists>m1. m' = packed_state (ordered_rows d rows) (length (slots_of rows)) m1 (length (ordered_rows d rows)) \<and>
          (\<exists>v. validate_batch rows m = (Inr v, m1))))
    (\<lambda>err m'. \<not> batch_ok c rows \<and> (metadata_ok c e m' \<or> metadata_ok c (e + 1) m') \<and>
       validate_batch rows m = (Inl err, m')) m"
proof -
  note val = wp_validate_batch [OF ok conf e sized]
  obtain r m1 where run: "validate_batch rows m = (r, m1)" by (cases "validate_batch rows m")
  show ?thesis
  proof (cases r)
    case (Inl err)
    then have "pack_ordered rows d m = (Inl err, m1)" using run by (simp add: pack_ordered_def bindM_def)
    with wpD_Inl [OF val run [unfolded Inl]] run Inl show ?thesis by (simp add: wp_def)
  next
    case (Inr v)
    from wpD_Inr [OF val run [unfolded Inr]] have h: "batch_ok c rows" "v = batch_totals rows" "metadata_ok c (e + 1) m1"
      by simp_all
    from pack_validated [OF run [unfolded Inr h(2)] packable_ordered [OF h(1) conf]] h run Inr show ?thesis
      by (auto simp: wp_def)
  qed
qed

end
