(* ===== verification/Batch_Session.thy ===== *)
theory Batch_Session
  imports Batch_Pack
begin

text \<open>
  The packer of \<open>batch.rs\<close> over its lifetime: prepared once, then packing one iteration after the other,
  accepted or rejected. The invariant keeps the epoch marks usable and every buffer within the capacity
  that \<open>prepare\<close> reserved, so no call allocates.
\<close>

subsection \<open>What validation may touch\<close>

definition touched :: "nat \<Rightarrow> prepared_llama_batch_metadata \<Rightarrow> prepared_llama_batch_metadata \<Rightarrow> bool" where
  "touched k m m' =
     (\<exists>tags oms pms e. m' = m\<lparr>pbm_validation_sequence_tags := tags, pbm_output_slot_marks := oms,
        pbm_physical_block_marks := pms, pbm_validation_epoch := e\<rparr> \<and> length tags \<le> k)"

lemma touched_refl: "length (pbm_validation_sequence_tags m) \<le> k \<Longrightarrow> touched k m m"
  unfolding touched_def
  by (rule exI [of _ "pbm_validation_sequence_tags m"], rule exI [of _ "pbm_output_slot_marks m"],
      rule exI [of _ "pbm_physical_block_marks m"], rule exI [of _ "pbm_validation_epoch m"]) simp

lemma touched_trans: "touched k m m' \<Longrightarrow> touched l m' m'' \<Longrightarrow> touched l m m''"
  by (cases m) (auto simp: touched_def)

lemma touched_mono: "touched k m m' \<Longrightarrow> k \<le> l \<Longrightarrow> touched l m m'"
  by (force simp: touched_def)

lemma touched_updates:
  "touched k m m' \<Longrightarrow> touched k m (m'\<lparr>pbm_physical_block_marks := ms\<rparr>)"
  "touched k m m' \<Longrightarrow> touched k m (m'\<lparr>pbm_output_slot_marks := ms\<rparr>)"
  "touched k m m' \<Longrightarrow> length tags \<le> l \<Longrightarrow> touched l m (m'\<lparr>pbm_validation_sequence_tags := tags\<rparr>)"
  "touched k m m' \<Longrightarrow> touched k m (advance_validation_epoch m')"
  by (cases m; auto simp: touched_def advance_validation_epoch_def split: option.splits)+

lemma touched_tags: "touched k m m' \<Longrightarrow> length (pbm_validation_sequence_tags m') \<le> k"
  by (auto simp: touched_def)

lemma touched_entries:
  "touched k m0 m \<Longrightarrow>
    wp (validate_entries len required from e i s zs) (\<lambda>_. touched k m0) (\<lambda>_. touched k m0) m"
proof (induction zs arbitrary: i s m)
  case Nil
  then show ?case by (simp add: wp_ret)
next
  case (Cons z zs)
  obtain b v where z: "z = (b, v)" by (cases z)
  show ?case
    unfolding z wp_entry Let_def using Cons touched_updates(1) [OF Cons.prems]
    by (simp split: if_split)
qed

lemma touched_table:
  "touched k m0 m \<Longrightarrow> wp (validate_block_table row len e) (\<lambda>_. touched k m0) (\<lambda>_. touched k m0) m"
  unfolding validate_block_table_def Let_def
  by (intro wp_guards wp_callI [OF touched_entries]) (auto simp: wp_failIf)

lemma touched_slot:
  "touched k m0 m \<Longrightarrow> wp (validate_output_slot row e v) (\<lambda>_. touched k m0) (\<lambda>_. touched k m0) m"
  unfolding validate_output_slot_def
  by (cases "lbr_output_slot row")
    (auto simp: wp_ret intro!: wp_guards wp_withI wp_modI touched_updates)

lemma touched_row:
  assumes "touched k m0 m"
  shows "wp (validate_row row e v) (\<lambda>_. touched (k + 1) m0) (\<lambda>_. touched (k + 1) m0) m"
proof -
  have more: "touched (k + 1) m0 m" using assms by (rule touched_mono) simp
  have tags: "touched (k + 1) m0 (m\<lparr>pbm_validation_sequence_tags :=
      pbm_validation_sequence_tags m @ [lbr_sequence_tag row]\<rparr>)"
    using touched_updates(3) [OF assms] touched_tags [OF assms] by simp
  show ?thesis
    unfolding validate_row_def Let_def
    by (intro wp_guards wp_withI wp_modI wp_callI [OF touched_table [OF tags]] touched_slot more tags) simp_all
qed

lemma touched_rows:
  "touched k m0 m \<Longrightarrow>
    wp (validate_rows rows e v) (\<lambda>_. touched (k + length rows) m0) (\<lambda>_. touched (k + length rows) m0) m"
proof (induction rows arbitrary: k m v)
  case Nil
  then show ?case by (simp add: wp_ret)
next
  case (Cons row rows)
  have "wp (validate_rows rows e v') (\<lambda>_. touched (k + length (row # rows)) m0)
      (\<lambda>_. touched (k + length (row # rows)) m0) m'" if "touched (k + 1) m0 m'" for v' m'
    using Cons.IH [OF that] by (simp add: add.commute add.left_commute)
  then show ?case
    unfolding validate_rows.simps
    by (intro wp_callI [OF touched_row [OF Cons.prems]]) (auto elim: touched_mono)
qed

lemma touched_validate:
  assumes "length (pbm_validation_sequence_tags m) \<le> lmc_max_rows (pbm_config m)"
  shows "wp (validate_batch rows) (\<lambda>_. touched (lmc_max_rows (pbm_config m)) m)
    (\<lambda>_. touched (lmc_max_rows (pbm_config m)) m) m"
proof -
  let ?k = "lmc_max_rows (pbm_config m)"
  have refl: "touched ?k m m" using assms by (rule touched_refl)
  have start: "touched 0 m ((advance_validation_epoch m)\<lparr>pbm_validation_sequence_tags := []\<rparr>)"
    using touched_updates(3) [OF touched_updates(4) [OF refl], of "[]" 0] by simp
  show ?thesis
    unfolding validate_batch_def Let_def
    by (intro wp_guards wp_withI wp_modI wp_callI [OF touched_rows [OF start]] refl)
      (auto simp: ensure_batch_capacity_def wp_ret elim: touched_mono)
qed

subsection \<open>Capacities\<close>

text \<open>\<open>Vec::resize\<close>, \<open>push\<close> and \<open>extend\<close> stay within what \<open>prepare\<close> reserved.\<close>

definition within_capacity :: "prepared_llama_batch_metadata \<Rightarrow> bool" where
  "within_capacity m =
     (let c = pbm_config m; rows = lmc_max_rows c; tokens = lmc_max_input_tokens c;
          entries = lmc_max_block_entries c; slots = lmc_max_output_slots c in
      length (pbm_sequence_tags m) \<le> rows \<and> length (pbm_row_kind_codes m) \<le> rows \<and>
      length (pbm_input_row_offsets m) \<le> rows + 1 \<and> length (pbm_input_token_ids m) \<le> tokens \<and>
      length (pbm_position_ids m) \<le> tokens \<and> length (pbm_row_sequence_slots m) \<le> tokens \<and>
      length (pbm_block_row_offsets m) \<le> rows + 1 \<and> length (pbm_physical_block_ids m) \<le> entries \<and>
      length (pbm_valid_tokens m) \<le> entries \<and> length (pbm_logical_lengths m) \<le> rows \<and>
      length (pbm_output_slots_by_row m) \<le> rows \<and> length (pbm_output_row_indices m) \<le> slots \<and>
      length (pbm_output_token_indices m) \<le> slots \<and> length (pbm_prefill_row_indices m) \<le> rows \<and>
      length (pbm_decode_row_indices m) \<le> rows \<and> length (pbm_validation_sequence_tags m) \<le> rows)"

lemma within_touched:
  "touched (lmc_max_rows (pbm_config m)) m m' \<Longrightarrow> within_capacity m \<Longrightarrow> within_capacity m'"
  by (auto simp: touched_def within_capacity_def Let_def)

lemma length_slot_routes [simp]: "length (slot_routes f n rows) = n"
proof -
  have "length (fold (\<lambda>(i, r) xs. case lbr_output_slot r of None \<Rightarrow> xs | Some s \<Rightarrow> xs[s := f i]) ys xs) = length xs"
    for ys :: "(nat \<times> llama_batch_row) list" and xs :: "nat list"
    by (induction ys arbitrary: xs) (auto split: option.splits)
  then show ?thesis by (simp add: slot_routes_def)
qed

lemma length_rows_of_kind: "length (rows_of_kind k rows) \<le> length rows"
  using length_filter_le [of "\<lambda>(i, r). lbr_kind r = k" "enumerate 0 rows"] by (simp add: rows_of_kind_def)

lemma within_packed:
  assumes "batch_ok (pbm_config m) rows" and "mset rows' = mset rows"
    and "length (pbm_validation_sequence_tags m) \<le> lmc_max_rows (pbm_config m)"
  shows "within_capacity (packed_state rows' (length (slots_of rows)) m (length rows'))"
proof -
  let ?c = "pbm_config m"
  have set: "set rows' = set rows" using assms(2) by (rule mset_eq_setD)
  have sums: "sum_list (map f rows') = sum_list (map f rows)" for f :: "llama_batch_row \<Rightarrow> nat"
    using assms(2) by (rule sum_list_mset_eq)
  have rows: "length rows' = length rows" using assms(2) by (rule mset_eq_length)
  have fits: "\<forall>r\<in>set rows'. row_fits ?c r" using assms(1) set by (simp add: batch_ok_def rows_fit_def)
  have "length (row_positions r) = row_tokens r" "length (lbt_valid_tokens (lbr_block_table r)) = row_blocks r"
    if "r \<in> set rows'" for r
    using fits that by (auto simp: row_positions_def row_fits_def table_fits_def Let_def row_blocks_def)
  then have lens: "sum_list (map (length \<circ> row_positions) rows') = sum_list (map row_tokens rows)"
    "sum_list (map (length \<circ> (lbt_valid_tokens \<circ> lbr_block_table)) rows') = sum_list (map row_blocks rows)"
    using sums by (auto simp flip: sums intro!: arg_cong [of _ _ sum_list])
  have eta: "row_tokens = length \<circ> lbr_input_token_ids" "row_blocks = length \<circ> (lbt_physical_block_ids \<circ> lbr_block_table)"
    by (simp_all add: fun_eq_iff row_tokens_def row_blocks_def)
  have ids: "sum_list (map (length \<circ> lbr_input_token_ids) rows') = sum_list (map row_tokens rows)"
    "sum_list (map (length \<circ> (lbt_physical_block_ids \<circ> lbr_block_table)) rows') = sum_list (map row_blocks rows)"
    using sums [of row_tokens] sums [of row_blocks] by (simp_all only: eta)
  have enum: "sum_list (map (length \<circ> (\<lambda>(i, r). replicate (row_tokens r) i)) (enumerate j xs)) =
      sum_list (map row_tokens xs)" for j xs
    by (induction xs arbitrary: j) simp_all
  have slots: "length (slots_of rows) \<le> lmc_max_output_slots ?c"
    using assms(1) slots_within by (simp add: batch_ok_def)
  show ?thesis
    using assms(1,3) slots length_rows_of_kind [of _ rows'] sums [of row_tokens]
    by (auto simp: within_capacity_def Let_def packed_state_def length_concat rows lens ids enum
        row_offsets_def batch_ok_def rows_fit_def intro: le_trans)
qed

subsection \<open>Sessions\<close>

definition batch_init :: "prepared_llama_batch_metadata \<Rightarrow> bool" where
  "batch_init m = (\<exists>env rows tokens entries slots blocks c.
     metadata_config_new rows tokens entries slots blocks = Inr c \<and> batch_metadata_prepare env c = Inr m)"

text \<open>One call of \<open>pack\<close> or \<open>pack_decode_first\<close>. The fields of a row that are \<open>u32\<close> in the source are
  bounded; fewer than $2^{63}$ calls were made before.\<close>

definition batch_step :: "prepared_llama_batch_metadata \<Rightarrow> prepared_llama_batch_metadata \<Rightarrow> bool" where
  "batch_step m m' = (pbm_validation_epoch m + 1 < 2 ^ 63 \<and>
     (\<exists>rows d r. (\<forall>row\<in>set rows. row_sized row) \<and> pack_ordered rows d m = (r, m')))"

definition batch_inv :: "prepared_llama_batch_metadata \<Rightarrow> bool" where
  "batch_inv m = (metadata_ok (pbm_config m) (pbm_validation_epoch m) m \<and> config_fits (pbm_config m) \<and>
     within_capacity m)"

definition batch_le :: "prepared_llama_batch_metadata \<Rightarrow> prepared_llama_batch_metadata \<Rightarrow> bool" where
  "batch_le m m' = (pbm_config m' = pbm_config m \<and> pbm_validation_epoch m \<le> pbm_validation_epoch m')"

lemma batch_init_inv: "batch_init m \<Longrightarrow> batch_inv m"
  by (auto simp: batch_init_def batch_inv_def metadata_config_new_exact batch_metadata_prepare_def
      reserve_batch_vec_def zeroed_batch_vec_def metadata_ok_def marks_below_def slots_below_def within_capacity_def
      split: if_splits)

lemma pack_inv:
  assumes "batch_inv m" and "pbm_validation_epoch m + 1 < 2 ^ 63" and "\<forall>row\<in>set rows. row_sized row"
    and "pack_ordered rows d m = (r, m')"
  shows "batch_inv m' \<and> batch_le m m'"
proof -
  let ?c = "pbm_config m" and ?e = "pbm_validation_epoch m"
  have ok: "metadata_ok ?c ?e m" "config_fits ?c" "within_capacity m" using assms(1) by (simp_all add: batch_inv_def)
  have tags: "length (pbm_validation_sequence_tags m) \<le> lmc_max_rows ?c"
    using ok(3) by (simp add: within_capacity_def Let_def)
  note run = wp_pack [OF ok(1,2) assms(2,3), of d] and val = touched_validate [OF tags, of rows]
  have "(metadata_ok ?c ?e m' \<or> metadata_ok ?c (?e + 1) m') \<and> within_capacity m'"
  proof (cases r)
    case (Inl err)
    from wpD_Inl [OF run assms(4) [unfolded Inl]] wpD_Inl [OF val] ok(3) within_touched show ?thesis by blast
  next
    case (Inr p)
    from wpD_Inr [OF run assms(4) [unfolded Inr]] obtain m1 v where p: "batch_ok ?c rows" "metadata_ok ?c (?e + 1) m'"
      "m' = packed_state (ordered_rows d rows) (length (slots_of rows)) m1 (length (ordered_rows d rows))"
      "validate_batch rows m = (Inr v, m1)" by blast
    have t: "touched (lmc_max_rows ?c) m m1" by (rule wpD_Inr [OF val p(4)])
    then have c1: "pbm_config m1 = ?c" by (auto simp: touched_def)
    have "within_capacity m'"
      unfolding p(3) by (rule within_packed) (use p(1) c1 mset_ordered_rows touched_tags [OF t] in auto)
    with p(2) show ?thesis by blast
  qed
  then show ?thesis using ok(2) by (auto simp: batch_inv_def batch_le_def metadata_ok_def)
qed

lemma batch_step_inv: "batch_inv m \<Longrightarrow> batch_step m m' \<Longrightarrow> batch_inv m' \<and> batch_le m m'"
  unfolding batch_step_def using pack_inv by blast

interpretation packer: invariant_system batch_init batch_step batch_inv batch_le
  by unfold_locales (auto simp: batch_init_inv batch_step_inv batch_le_def dest: batch_step_inv)

end
