(* ===== verification/Batch_Props.thy ===== *)
theory Batch_Props
  imports Batch_Session
begin

text \<open>
  The properties of the batch packer: it accepts exactly the batches of the specification, its arrays
  read back every row, and it never outgrows its buffers; and what happens when the validation epoch
  outgrows the marks.
\<close>

subsection \<open>Reading the arrays back\<close>

lemma take_drop_concat:
  "i < length xss \<Longrightarrow> take (length (xss ! i)) (drop (sum_list (map length (take i xss))) (concat xss)) = xss ! i"
proof (induction xss arbitrary: i)
  case Nil
  then show ?case by simp
next
  case (Cons xs xss)
  then show ?case by (cases i) simp_all
qed

lemma csr_row_read:
  assumes "i < length rows" and "\<forall>r\<in>set rows. length (g r) = f r" and "length rows < u64_max"
  shows "csr_row (row_offsets f rows) (concat (map g rows)) i = Some (g (rows ! i))"
proof -
  have len: "map length (map g xs) = map f xs" if "set xs \<subseteq> set rows" for xs
    using assms(2) that by auto
  have off: "row_offsets f rows ! j = sum_list (map f (take j rows))" if "j \<le> length rows" for j
    using that by (simp add: row_offsets_def del: upt_Suc)
  have upper: "row_offsets f rows ! (i + 1) = row_offsets f rows ! i + f (rows ! i)"
    using off [of i] off [of "i + 1"] assms(1) by (simp add: take_Suc_conv_app_nth)
  have total: "length (concat (map g rows)) = sum_list (map f rows)"
    unfolding length_concat len [OF subset_refl] ..
  have "rows = take (i + 1) rows @ drop (i + 1) rows" by simp
  then have le: "row_offsets f rows ! (i + 1) \<le> length (concat (map g rows))"
    unfolding total using off [of "i + 1"] assms(1) by (metis Suc_eq_plus1 Suc_leI le_add1 map_append sum_list_append)
  have "take (f (rows ! i)) (drop (row_offsets f rows ! i) (concat (map g rows))) = g (rows ! i)"
  proof -
    have "map length (take i (map g rows)) = map f (take i rows)"
      using len [OF set_take_subset, of i] by (simp add: take_map)
    then show ?thesis
      using take_drop_concat [of i "map g rows"] off [of i] assms(1,2) by simp
  qed
  then show ?thesis
    using assms(1,3) upper le
    by (simp add: csr_row_def get_def checked_add_def get_range_def row_offsets_def del: upt_Suc)
qed

lemma slot_routes_read:
  assumes "distinct (slots_of rows)" and "i < length rows" and "lbr_output_slot (rows ! i) = Some s" and "s < n"
  shows "slot_routes f n rows ! s = f i"
proof -
  have "fold (\<lambda>(i, r) xs. case lbr_output_slot r of None \<Rightarrow> xs | Some s \<Rightarrow> xs[s := f i]) (enumerate j rows) xs ! s =
      f (j + i)" if "s < length xs" for j and xs :: "nat list"
    using assms(1-3) that
  proof (induction rows arbitrary: i j xs)
    case Nil
    then show ?case by simp
  next
    case (Cons r rows)
    let ?step = "\<lambda>(i, r :: llama_batch_row) xs. case lbr_output_slot r of None \<Rightarrow> xs | Some s \<Rightarrow> xs[s := f i]"
    have tail: "distinct (slots_of rows)" using Cons.prems(1) by (simp add: slots_of_def)
    show ?case
    proof (cases i)
      case 0
      then have r: "lbr_output_slot r = Some s" using Cons.prems(3) by simp
      then have "s \<notin> set (slots_of rows)" using Cons.prems(1) by (simp add: slots_of_def)
      then have "fold ?step (enumerate k rows) ys ! s = ys ! s" for k ys
      proof (induction rows arbitrary: k ys)
        case Nil
        then show ?case by simp
      next
        case (Cons q rows)
        then show ?case by (cases "lbr_output_slot q") (simp_all add: slots_of_def)
      qed
      then show ?thesis using 0 r Cons.prems(4) by simp
    next
      case (Suc i')
      then show ?thesis using Cons.IH [OF tail, of i' "?step (j, r) xs" "j + 1"] Cons.prems
        by (cases "lbr_output_slot r") simp_all
    qed
  qed
  from this [of "replicate n LLAMA_BATCH_NO_OUTPUT_SLOT" 0] assms(4) show ?thesis
    by (simp add: slot_routes_def)
qed

lemma last_token_read:
  assumes "i < length rows" and "\<forall>r\<in>set rows. lbr_input_token_ids r \<noteq> []"
  shows "concat (map lbr_input_token_ids rows) ! last_token rows i = last (lbr_input_token_ids (rows ! i))"
proof -
  let ?pre = "concat (map lbr_input_token_ids (take i rows))" and ?r = "lbr_input_token_ids (rows ! i)"
  have len: "length ?pre = sum_list (map row_tokens (take i rows))"
    by (simp add: length_concat comp_def row_tokens_def [abs_def])
  have ne: "?r \<noteq> []" using assms by simp
  have "rows = take i rows @ rows ! i # drop (Suc i) rows" using assms(1) by (rule id_take_nth_drop)
  then have "concat (map lbr_input_token_ids rows) = ?pre @ ?r @ concat (map lbr_input_token_ids (drop (Suc i) rows))"
    by (metis concat.simps(2) concat_append list.simps(9) map_append)
  moreover have "last_token rows i = length ?pre + (length ?r - 1)"
    using ne assms(1) len by (cases ?r) (simp_all add: last_token_def take_Suc_conv_app_nth row_tokens_def)
  ultimately show ?thesis using ne by (simp add: nth_append last_conv_nth)
qed

subsection \<open>A packer and a batch\<close>

text \<open>A prompt chunk and a decode row that read the same block and write different ones.\<close>

definition batch_config :: llama_batch_metadata_config where
  "batch_config = \<lparr>lmc_max_rows = 3, lmc_max_input_tokens = 8, lmc_max_block_entries = 8,
     lmc_max_output_slots = 2, lmc_physical_block_count = 8\<rparr>"

definition demo_packer :: prepared_llama_batch_metadata where
  "demo_packer = projr (batch_metadata_prepare
     \<lparr>he_alloc = \<lambda>_ _. True, he_alloc_elapsed_ns = \<lambda>_. 0, he_cpu_elapsed_ns = 0, he_block_slot_bytes = 64\<rparr>
     batch_config)"

definition demo_rows :: "llama_batch_row list" where
  "demo_rows =
     [\<lparr>lbr_sequence_tag = 1, lbr_kind = RowPrefill, lbr_input_token_ids = [5, 6], lbr_target_logical_length = 18,
       lbr_block_table = \<lparr>lbt_schema_version = 1, lbt_physical_block_ids = [3, 4], lbt_valid_tokens = [16, 2],
         lbt_logical_length = 18\<rparr>, lbr_output_slot = None\<rparr>,
      \<lparr>lbr_sequence_tag = 2, lbr_kind = RowDecode, lbr_input_token_ids = [7], lbr_target_logical_length = 17,
       lbr_block_table = \<lparr>lbt_schema_version = 1, lbt_physical_block_ids = [3, 5], lbt_valid_tokens = [16, 1],
         lbt_logical_length = 17\<rparr>, lbr_output_slot = Some 0\<rparr>]"

lemma demo_packer_init: "batch_init demo_packer" "pbm_config demo_packer = batch_config"
    "pbm_validation_epoch demo_packer = 0"
proof -
  have "metadata_config_new 3 8 8 2 8 = Inr batch_config"
    by (simp add: metadata_config_new_exact batch_config_def config_fits_def)
  moreover have eq: "batch_metadata_prepare \<lparr>he_alloc = \<lambda>_ _. True, he_alloc_elapsed_ns = \<lambda>_. 0,
      he_cpu_elapsed_ns = 0, he_block_slot_bytes = 64\<rparr> batch_config = Inr demo_packer"
    by (simp add: demo_packer_def batch_metadata_prepare_def reserve_batch_vec_def zeroed_batch_vec_def
        batch_config_def ok_or_def checked_add_def)
  ultimately show "batch_init demo_packer" unfolding batch_init_def by blast
  from eq show "pbm_config demo_packer = batch_config" "pbm_validation_epoch demo_packer = 0"
    by (simp_all add: demo_packer_def batch_metadata_prepare_def reserve_batch_vec_def zeroed_batch_vec_def
        batch_config_def ok_or_def checked_add_def)
qed

lemma demo_packer_reachable: "reachable batch_init batch_step demo_packer"
  using demo_packer_init(1) by (rule reachable.start)

lemma demo_rows_sized: "\<forall>row\<in>set demo_rows. row_sized row"
  by (simp add: demo_rows_def row_sized_def)

lemma demo_batch_ok: "batch_ok batch_config demo_rows"
proof -
  have acc: "concat (map accesses demo_rows) = [(3, False), (4, True), (3, False), (5, True)]"
    by (simp add: demo_rows_def accesses_def row_tokens_def)
  have slots: "slots_of demo_rows = [0]" by (simp add: demo_rows_def slots_of_def)
  have "\<forall>row\<in>set demo_rows. row_fits batch_config row"
    by (simp add: demo_rows_def row_fits_def table_fits_def batch_config_def row_tokens_def
        canonical_counts_def blocks_for_length_def div_ceil_def numeral_2_eq_2 Let_def)
  then show ?thesis
    unfolding batch_ok_def rows_fit_def acc slots
    by (simp add: demo_rows_def batch_config_def row_tokens_def row_blocks_def alias_free_def lessThan_Suc)
qed

subsection \<open>The properties\<close>

text \<open>C10. A packer that was prepared once and packed any number of iterations decides a new iteration by its
  rows alone: it accepts exactly the batches of the specification, whatever earlier calls left in the
  duplicate marks, and the arrays it returns are the specified functions of the rows.\<close>

theorem packer_decides_exactly:
  assumes "reachable batch_init batch_step m" and "pbm_validation_epoch m + 1 < 2 ^ 63"
    and "\<forall>row\<in>set rows. row_sized row"
  shows "fst (pack_ordered rows d m) = Inr p \<longleftrightarrow>
    batch_ok (pbm_config m) rows \<and> p = packed_view (ordered_rows d rows)"
proof -
  have inv: "batch_inv m" by (rule packer.reachable_inv [OF assms(1)])
  then have ok: "metadata_ok (pbm_config m) (pbm_validation_epoch m) m" "config_fits (pbm_config m)"
    by (simp_all add: batch_inv_def)
  show ?thesis
    using wp_pack [OF ok assms(2,3), of d] by (auto simp: wp_def split: prod.splits sum.splits)
qed

theorem packer_decides_exactly_witness:
  "fst (pack_ordered demo_rows True demo_packer) = Inr (packed_view (rev demo_rows))"
proof -
  have "ordered_rows True demo_rows = rev demo_rows" by (simp add: ordered_rows_def demo_rows_def)
  then show ?thesis
    using packer_decides_exactly [OF demo_packer_reachable _ demo_rows_sized, of True "packed_view (rev demo_rows)"]
      demo_batch_ok by (simp add: demo_packer_init)
qed

lemma ordered_accepted:
  assumes "batch_ok c rows"
  shows "length (ordered_rows d rows) = length rows" and "\<forall>r\<in>set (ordered_rows d rows). row_fits c r"
    and "distinct (slots_of (ordered_rows d rows))"
    and "r \<in> set (ordered_rows d rows) \<Longrightarrow> lbr_output_slot r = Some s \<Longrightarrow> s < length (slots_of (ordered_rows d rows))"
proof -
  let ?R = "ordered_rows d rows"
  have m: "mset ?R = mset rows" by (rule mset_ordered_rows)
  show "length ?R = length rows" using m by (rule mset_eq_length)
  have "set ?R = set rows" using m by (rule mset_eq_setD)
  with assms show "\<forall>r\<in>set ?R. row_fits c r" by (simp add: batch_ok_def rows_fit_def)
  show "distinct (slots_of ?R)"
    using assms mset_slots_of [OF m] by (metis batch_ok_def mset_eq_imp_distinct_iff rows_fit_def)
  assume "r \<in> set ?R" "lbr_output_slot r = Some s"
  then have "s \<in> set (slots_of ?R)" by (force simp: slots_of_def)
  moreover have "set (slots_of ?R) = set (slots_of rows)" "length (slots_of ?R) = length (slots_of rows)"
    using mset_slots_of [OF m] by (metis mset_eq_setD, metis mset_eq_length)
  ultimately show "s < length (slots_of ?R)" using assms by (simp add: batch_ok_def)
qed

lemma fitting_row_shape:
  assumes "row_fits c r"
  shows "length (lbr_input_token_ids r) = row_tokens r" and "length (row_positions r) = row_tokens r"
    and "length ((lbt_physical_block_ids \<circ> lbr_block_table) r) = row_blocks r"
    and "length ((lbt_valid_tokens \<circ> lbr_block_table) r) = row_blocks r" and "lbr_input_token_ids r \<noteq> []"
  using assms by (auto simp: row_positions_def row_fits_def table_fits_def Let_def row_blocks_def row_tokens_def)

text \<open>C11. The accessors of a packed batch read every row back: its tokens, their absolute positions, its block
  table and its output slot; and the routes of an output slot lead to the row that asked for it and to
  the last input token of that row.\<close>

theorem packed_rows_read_back:
  assumes "reachable batch_init batch_step m" and "pbm_validation_epoch m + 1 < 2 ^ 63"
    and "\<forall>row\<in>set rows. row_sized row" and "fst (pack_ordered rows d m) = Inr p" and "i < length rows"
    and "r = ordered_rows d rows ! i"
  shows "input_tokens_for_row p i = Some (lbr_input_token_ids r) \<and>
    positions_for_row p i =
      Some [lbr_target_logical_length r - length (lbr_input_token_ids r)..<lbr_target_logical_length r] \<and>
    physical_blocks_for_row p i = Some (lbt_physical_block_ids (lbr_block_table r)) \<and>
    valid_tokens_for_row p i = Some (lbt_valid_tokens (lbr_block_table r)) \<and>
    output_slot_for_row p i = lbr_output_slot r \<and>
    (\<forall>s. lbr_output_slot r = Some s \<longrightarrow> pkd_output_row_indices p ! s = i \<and>
       pkd_input_token_ids p ! (pkd_output_token_indices p ! s) = last (lbr_input_token_ids r))"
proof -
  let ?c = "pbm_config m" and ?R = "ordered_rows d rows"
  have "batch_inv m" by (rule packer.reachable_inv [OF assms(1)])
  then have conf: "config_fits ?c" and ok: "metadata_ok ?c (pbm_validation_epoch m) m" by (simp_all add: batch_inv_def)
  have p: "batch_ok ?c rows" "p = packed_view ?R"
    using wp_pack [OF ok conf assms(2,3), of d] assms(4) by (auto simp: wp_def split: prod.splits)
  note R = ordered_accepted [OF p(1), where d = d]
  have i: "i < length ?R" "length ?R < u64_max" "?R ! i \<in> set ?R"
    using assms(5) R(1) p(1) conf by (simp_all add: batch_ok_def config_fits_def)
  have shape: "\<forall>r\<in>set ?R. length (lbr_input_token_ids r) = row_tokens r"
    "\<forall>r\<in>set ?R. length (row_positions r) = row_tokens r"
    "\<forall>r\<in>set ?R. length ((lbt_physical_block_ids \<circ> lbr_block_table) r) = row_blocks r"
    "\<forall>r\<in>set ?R. length ((lbt_valid_tokens \<circ> lbr_block_table) r) = row_blocks r"
    "\<forall>r\<in>set ?R. lbr_input_token_ids r \<noteq> []"
    using R(2) fitting_row_shape by blast+
  have bound: "s < lmc_max_output_slots ?c" if "lbr_output_slot r = Some s" for s
    using R(2) i(3) that assms(6) by (simp add: row_fits_def)
  have "lmc_max_output_slots ?c \<le> u32_max" using conf by (simp add: config_fits_def)
  then have "output_slot_for_row p i = lbr_output_slot r"
    using i(1) bound assms(6)
    by (cases "lbr_output_slot r")
      (auto simp: output_slot_for_row_def p(2) packed_view_def get_def slot_or_none_def LLAMA_BATCH_NO_OUTPUT_SLOT_def)
  moreover have "pkd_output_row_indices p ! s = i \<and>
      pkd_input_token_ids p ! (pkd_output_token_indices p ! s) = last (lbr_input_token_ids r)"
    if "lbr_output_slot r = Some s" for s
    using slot_routes_read [OF R(3) i(1) that [unfolded assms(6)] R(4) [OF i(3) that [unfolded assms(6)]]] last_token_read [OF i(1) shape(5)] assms(6)
    by (simp add: p(2) packed_view_def)
  moreover have "input_tokens_for_row p i = Some (lbr_input_token_ids r)"
    "positions_for_row p i = Some (row_positions r)"
    "physical_blocks_for_row p i = Some (lbt_physical_block_ids (lbr_block_table r))"
    "valid_tokens_for_row p i = Some (lbt_valid_tokens (lbr_block_table r))"
    using csr_row_read [OF i(1) shape(1) i(2)] csr_row_read [OF i(1) shape(2) i(2)]
      csr_row_read [OF i(1) shape(3) i(2)] csr_row_read [OF i(1) shape(4) i(2)] assms(6)
    by (simp_all add: input_tokens_for_row_def positions_for_row_def physical_blocks_for_row_def
        valid_tokens_for_row_def p(2) packed_view_def comp_def)
  moreover have "row_positions r =
      [lbr_target_logical_length r - length (lbr_input_token_ids r)..<lbr_target_logical_length r]"
    by (simp add: row_positions_def row_tokens_def)
  ultimately show ?thesis by simp
qed

theorem packed_rows_read_back_witness:
  "input_tokens_for_row (packed_view (rev demo_rows)) 1 = Some [5, 6] \<and>
   positions_for_row (packed_view (rev demo_rows)) 1 = Some [16, 17] \<and>
   physical_blocks_for_row (packed_view (rev demo_rows)) 1 = Some [3, 4] \<and>
   output_slot_for_row (packed_view (rev demo_rows)) 1 = None"
proof -
  have rev: "ordered_rows True demo_rows = rev demo_rows" by (simp add: ordered_rows_def demo_rows_def)
  have ok: "fst (pack_ordered demo_rows True demo_packer) = Inr (packed_view (rev demo_rows))"
    using wp_pack [of batch_config 0 demo_packer demo_rows True] batch_init_inv [OF demo_packer_init(1)]
      demo_packer_init demo_rows_sized demo_batch_ok rev
    by (auto simp: wp_def batch_inv_def split: prod.splits sum.splits)
  have row: "lbr_input_token_ids (rev demo_rows ! 1) = [5, 6]"
    "lbr_target_logical_length (rev demo_rows ! 1) = 18"
    "lbt_physical_block_ids (lbr_block_table (rev demo_rows ! 1)) = [3, 4]"
    "lbr_output_slot (rev demo_rows ! 1) = None" "1 < length demo_rows"
    by (simp_all add: demo_rows_def)
  have "pbm_validation_epoch demo_packer + 1 < 2 ^ 63" by (simp add: demo_packer_init)
  from packed_rows_read_back [OF demo_packer_reachable this demo_rows_sized ok row(5) refl]
  have "input_tokens_for_row (packed_view (rev demo_rows)) 1 = Some [5, 6] \<and>
     positions_for_row (packed_view (rev demo_rows)) 1 = Some [18 - length [5, 6 :: nat]..<18] \<and>
     physical_blocks_for_row (packed_view (rev demo_rows)) 1 = Some [3, 4] \<and>
     output_slot_for_row (packed_view (rev demo_rows)) 1 = None"
    unfolding rev row by blast
  moreover have "[18 - length [5, 6 :: nat]..<18] = [16, 17]" by (simp add: upt_rec)
  ultimately show ?thesis by simp
qed

text \<open>C37. No call of the packer, accepted or rejected, grows a buffer beyond the capacity reserved when it was
  prepared, so packing never allocates.\<close>

theorem packing_never_allocates:
  assumes "reachable batch_init batch_step m" and "pbm_validation_epoch m + 1 < 2 ^ 63"
    and "\<forall>row\<in>set rows. row_sized row" and "pack_ordered rows d m = (r, m')"
  shows "within_capacity m' \<and> pbm_config m' = pbm_config m"
  using pack_inv [OF packer.reachable_inv [OF assms(1)] assms(2-4)] by (simp add: batch_inv_def batch_le_def)

theorem packing_never_allocates_witness:
  "within_capacity (snd (pack_ordered demo_rows False demo_packer))"
  using packing_never_allocates [OF demo_packer_reachable _ demo_rows_sized, of False]
  by (metis demo_packer_init(3) prod.collapse semiring_norm(50) one_less_power add_0
      one_less_numeral_iff semiring_norm(76) zero_less_numeral)

subsection \<open>When the epoch outgrows the marks\<close>

text \<open>
  The block mark keeps 63 bits of the epoch, but the marks are only cleared when the epoch reaches
  $2^{64} - 1$. From epoch $2^{63}$ on no block mark ever carries the running epoch, and two rows of one
  iteration that write the same block are accepted.
\<close>

definition writer :: "u64 \<Rightarrow> llama_batch_row" where
  "writer tag = \<lparr>lbr_sequence_tag = tag, lbr_kind = RowPrefill, lbr_input_token_ids = [5],
     lbr_target_logical_length = 1, lbr_block_table = \<lparr>lbt_schema_version = 1, lbt_physical_block_ids = [0],
     lbt_valid_tokens = [1], lbt_logical_length = 1\<rparr>, lbr_output_slot = None\<rparr>"

lemma pack_accepts:
  assumes "metadata_ok c e m" and "config_fits c" and "e + 1 < 2 ^ 63"
    and "\<forall>row\<in>set rows. row_sized row" and "batch_ok c rows"
  shows "fst (pack_ordered rows d m) = Inr (packed_view (ordered_rows d rows))"
    and "metadata_ok c (e + 1) (snd (pack_ordered rows d m))"
proof -
  note run = wp_pack [OF assms(1-4), of d]
  obtain p m' where eq: "pack_ordered rows d m = (Inr p, m')"
  proof (cases "pack_ordered rows d m")
    case (Pair r m')
    with wpD_Inl [OF run] assms(5) that show ?thesis by (cases r) auto
  qed
  from wpD_Inr [OF run eq] eq show "fst (pack_ordered rows d m) = Inr (packed_view (ordered_rows d rows))"
    "metadata_ok c (e + 1) (snd (pack_ordered rows d m))" by simp_all
qed

lemma epoch_reachable:
  "n < 2 ^ 63 \<Longrightarrow> \<exists>m. reachable batch_init batch_step m \<and> pbm_config m = batch_config \<and> pbm_validation_epoch m = n"
proof (induction n)
  case 0
  then show ?case using demo_packer_reachable demo_packer_init by blast
next
  case (Suc n)
  then obtain m where m: "reachable batch_init batch_step m" "pbm_config m = batch_config" "pbm_validation_epoch m = n"
    by auto
  have "batch_inv m" by (rule packer.reachable_inv [OF m(1)])
  then have ok: "metadata_ok batch_config n m" "config_fits batch_config" using m by (simp_all add: batch_inv_def)
  have small: "n + 1 < 2 ^ 63" using Suc.prems by simp
  have ok': "metadata_ok batch_config (n + 1) (snd (pack_ordered demo_rows False m))"
    by (rule pack_accepts(2) [OF ok small demo_rows_sized demo_batch_ok])
  have "batch_step m (snd (pack_ordered demo_rows False m))"
    unfolding batch_step_def
    by (intro conjI exI [of _ demo_rows] exI [of _ False] exI [of _ "fst (pack_ordered demo_rows False m)"])
      (use small m(3) demo_rows_sized in simp_all)
  with m(1) have "reachable batch_init batch_step (snd (pack_ordered demo_rows False m))" by (rule reachable.move)
  with ok' show ?case by (auto simp: metadata_ok_def)
qed

lemma stale_marks_accept_aliases:
  "\<exists>m. reachable batch_init batch_step m \<and> \<not> batch_ok (pbm_config m) [writer 1, writer 2] \<and>
     (\<exists>p. fst (pack [writer 1, writer 2] m) = Inr p)"
proof -
  obtain m where m: "reachable batch_init batch_step m" "pbm_config m = batch_config"
    "pbm_validation_epoch m = 2 ^ 63 - 1" using epoch_reachable [of "2 ^ 63 - 1"] by auto
  have "batch_inv m" by (rule packer.reachable_inv [OF m(1)])
  then have mark: "pbm_physical_block_marks m ! 0 div 2 < 2 ^ 63" "pbm_physical_block_marks m \<noteq> []"
    using m by (auto simp: batch_inv_def metadata_ok_def marks_below_def batch_config_def dest!: spec [of _ 0])
  have "\<not> batch_ok batch_config [writer 1, writer 2]"
    by (simp add: batch_ok_def rows_fit_def writer_def accesses_def row_tokens_def alias_free_def)
  moreover have "\<exists>p. fst (pack [writer 1, writer 2] m) = Inr p"
  proof -
    have epoch: "pbm_validation_epoch (advance_validation_epoch m) = 2 ^ 63"
      "pbm_config (advance_validation_epoch m) = batch_config"
      "pbm_physical_block_marks (advance_validation_epoch m) = pbm_physical_block_marks m"
      using m by (simp_all add: advance_validation_epoch_def checked_add_def)
    have blind: "block_mark 9223372036854775808 True div 2 = 0"
      by (simp add: block_mark_def take_bit_eq_mod push_bit_eq_mult drop_bit_eq_div)
    have shift: "drop_bit (Suc 0) x = x div 2" for x :: nat by (simp add: drop_bit_eq_div)
    have "wp (validate_batch [writer 1, writer 2]) (\<lambda>v m'. v = batch_totals [writer 1, writer 2]) (\<lambda>_ _. False) m"
      using mark m
      by (simp add: validate_batch_def wp_simps wp_entry Let_def writer_def batch_config_def ensure_batch_capacity_def
          row_shape_def checked_usize_def ok_or_def checked_add_def u64_try_from_def epoch blind shift failE_def
          validate_row_def count_row_def validate_block_table_def validate_output_slot_def div_ceil_def expected_tokens_def
          batch_totals_def row_tokens_def row_blocks_def slots_of_def)
    then obtain m1 where "validate_batch [writer 1, writer 2] m = (Inr (batch_totals [writer 1, writer 2]), m1)"
      by (auto simp: wp_def split: prod.splits sum.splits)
    moreover have "packable (ordered_rows False [writer 1, writer 2])"
      by (simp add: packable_def ordered_rows_def writer_def row_tokens_def row_blocks_def)
    ultimately show ?thesis using pack_validated by (auto simp: pack_def)
  qed
  ultimately show ?thesis using m by auto
qed

end
