(* ===== verification/Execution_Prepare.thy ===== *)
theory Execution_Prepare
  imports Scheduler_Iteration Batch_Metadata
begin

text \<open>
  The host half of \<open>riley-scheduler/src/execution.rs\<close>: an immutable plan is adapted to runtime rows and
  checked against the bounds of the prepared executor before anything reaches the device, and the
  downloaded output is routed to its slots and turned into the result the scheduler commits. Failures of
  the runtime (type \<open>'x\<close>) and of the CUDA driver (type \<open>'c\<close>) are carried, not interpreted.
\<close>

datatype ('x, 'c) iteration_adapter_error =
    AdapterInvalidPlan string string
  | AdapterCapacityExceeded string usize usize
  | AdapterArithmeticOverflow string
  | AdapterHostAllocation string usize
  | TokenOutOfRange usize u32 usize
  | PositionOutOfRange u64 u32 usize
  | InvalidRuntimeOutput string string
  | InvalidSampleCount usize usize
  | SampleTokenOutOfRange output_slot u32 usize
  | RuntimeFailure 'x
  | CudaTiming string 'c
  | Synchronization "('x, 'c) iteration_adapter_error option" 'c

type_synonym ('x, 'c, 'a) adapter_result = "('x, 'c) iteration_adapter_error + 'a"

subsection \<open>Adapting a plan\<close>

record prepared_llama_iteration =
  pli_iteration_id :: iteration_id
  pli_rows :: "llama_batch_row list"
  pli_total_input_tokens :: usize
  pli_total_block_entries :: usize
  pli_output_count :: usize
  pli_commit_outputs :: "iteration_output list"

definition reserve_adapter_vec :: "host_env \<Rightarrow> usize \<Rightarrow> string \<Rightarrow> ('x, 'c, 'a list) adapter_result" where
  "reserve_adapter_vec env capacity resource =
     (if he_alloc env resource capacity then Inr [] else Inl (AdapterHostAllocation resource capacity))"

definition adapt_item ::
  "iteration_plan \<Rightarrow> work_item \<Rightarrow> work_kind \<Rightarrow> ('x, 'c, llama_batch_row) adapter_result" where
  "adapt_item plan item expected_kind =
     bindE (failE (wi_kind item \<noteq> expected_kind)
       (AdapterInvalidPlan ''work kind'' ''item is stored in the wrong stage vector'')) (\<lambda>_.
     bindE (failE (wi_input_tokens item = [])
       (AdapterInvalidPlan ''input_tokens'' ''every runtime row must contain at least one input token'')) (\<lambda>_.
     bindE (failE (expected_kind = Decode \<and> (length (wi_input_tokens item) \<noteq> 1 \<or> wi_output_slot item = None))
       (AdapterInvalidPlan ''decode item'' ''decode rows require exactly one input token and one output slot'')) (\<lambda>_.
     bindE (ok_or (u32_try_from (wi_target_logical_length item))
       (AdapterArithmeticOverflow ''target logical length'')) (\<lambda>target_logical_length.
     bindE (ok_or (get (ip_block_tables plan) (wi_block_table_index item))
       (AdapterInvalidPlan ''block_table_index'' ''work item references a missing block table'')) (\<lambda>table.
     bindE (failE (obt_request_id table \<noteq> wi_request_id item)
       (AdapterInvalidPlan ''block_table_index'' ''work item references another request's block table'')) (\<lambda>_.
     bindE (failE (obt_logical_length table \<noteq> target_logical_length)
       (AdapterInvalidPlan ''block table logical length'' ''block table length differs from the work target'')) (\<lambda>_.
     Inr \<lparr>lbr_sequence_tag = request_value (wi_request_id item),
          lbr_kind = (case expected_kind of Prefill \<Rightarrow> RowPrefill | Decode \<Rightarrow> RowDecode),
          lbr_input_token_ids = wi_input_tokens item, lbr_target_logical_length = target_logical_length,
          lbr_block_table = \<lparr>lbt_schema_version = obt_schema_version table,
            lbt_physical_block_ids = obt_physical_block_ids table,
            lbt_valid_tokens = obt_valid_tokens table, lbt_logical_length = obt_logical_length table\<rparr>,
          lbr_output_slot = map_option slot_value (wi_output_slot item)\<rparr>)))))))"

text \<open>The loop over the items of one stage; it carries the rows and the two totals.\<close>

fun adapt_items ::
  "iteration_plan \<Rightarrow> work_kind \<Rightarrow> work_item list \<Rightarrow> llama_batch_row list \<times> usize \<times> usize \<Rightarrow>
     ('x, 'c, llama_batch_row list \<times> usize \<times> usize) adapter_result" where
  "adapt_items plan kind [] st = Inr st"
| "adapt_items plan kind (item # items) (rows, tokens, entries) =
     bindE (adapt_item plan item kind) (\<lambda>row.
     bindE (ok_or (checked_add tokens (length (wi_input_tokens item)))
       (AdapterArithmeticOverflow ''total input tokens'')) (\<lambda>tokens.
     bindE (ok_or (checked_add entries (length (lbt_physical_block_ids (lbr_block_table row))))
       (AdapterArithmeticOverflow ''total block entries'')) (\<lambda>entries.
     adapt_items plan kind items (rows @ [row], tokens, entries))))"

definition prepare_iteration ::
  "host_env \<Rightarrow> iteration_plan \<Rightarrow> ('x, 'c, prepared_llama_iteration) adapter_result" where
  "prepare_iteration env plan =
     bindE (failE (ip_schema_version plan \<noteq> ITERATION_SCHEMA_VERSION)
       (AdapterInvalidPlan ''schema_version'' ''plan version differs from the scheduler runtime bridge'')) (\<lambda>_.
     bindE (failE (batch_size plan = 0)
       (AdapterInvalidPlan ''items'' ''an executable iteration must contain at least one row'')) (\<lambda>_.
     bindE (reserve_adapter_vec env (batch_size plan) ''runtime rows'') (\<lambda>rows.
     bindE (reserve_adapter_vec env (length (ip_output_slots plan)) ''commit outputs'') (\<lambda>commit_outputs.
     bindE (adapt_items plan Prefill (ip_prefill_items plan) (rows, 0, 0)) (\<lambda>st.
     bindE (adapt_items plan Decode (ip_decode_items plan) st) (\<lambda>(rows, total_input_tokens, total_block_entries).
     bindE (failE (total_input_tokens \<noteq> ip_total_tokens plan)
       (AdapterInvalidPlan ''total_tokens'' ''stored total differs from the adapted row token count'')) (\<lambda>_.
     bindE (failE (length rows \<noteq> batch_size plan)
       (AdapterInvalidPlan ''batch_size'' ''stored batch size differs from the adapted row count'')) (\<lambda>_.
     Inr \<lparr>pli_iteration_id = ip_iteration_id plan, pli_rows = rows,
          pli_total_input_tokens = total_input_tokens, pli_total_block_entries = total_block_entries,
          pli_output_count = length (ip_output_slots plan), pli_commit_outputs = commit_outputs\<rparr>))))))))"

subsection \<open>The bounds of the executor\<close>

definition ensure_adapter_capacity :: "string \<Rightarrow> usize \<Rightarrow> usize \<Rightarrow> ('x, 'c, unit) adapter_result" where
  "ensure_adapter_capacity resource requested capacity =
     failE (\<not> requested \<le> capacity) (AdapterCapacityExceeded resource requested capacity)"

text \<open>\<open>usize::try_from(v).ok().is_none_or(|v| v >= bound)\<close>.\<close>

definition beyond :: "u32 \<Rightarrow> usize \<Rightarrow> bool" where
  "beyond v bound = (case u64_try_from v of None \<Rightarrow> True | Some v \<Rightarrow> bound \<le> v)"

fun check_tokens :: "usize \<Rightarrow> u32 list \<Rightarrow> usize \<Rightarrow> ('x, 'c, usize) adapter_result" where
  "check_tokens vocabulary_size [] pos = Inr pos"
| "check_tokens vocabulary_size (token_id # token_ids) pos =
     bindE (failE (beyond token_id vocabulary_size) (TokenOutOfRange pos token_id vocabulary_size)) (\<lambda>_.
     bindE (ok_or (checked_add pos 1) (AdapterArithmeticOverflow ''flattened token position'')) (\<lambda>pos.
     check_tokens vocabulary_size token_ids pos))"

fun check_rows ::
  "llama_batch_metadata_config \<Rightarrow> usize \<Rightarrow> usize \<Rightarrow> llama_batch_row list \<Rightarrow> usize \<Rightarrow> ('x, 'c, unit) adapter_result" where
  "check_rows metadata vocabulary_size maximum_position_count [] pos = Inr ()"
| "check_rows metadata vocabulary_size maximum_position_count (row # rows) pos =
     bindE (check_tokens vocabulary_size (lbr_input_token_ids row) pos) (\<lambda>pos.
     bindE (failE (case u64_try_from (lbr_target_logical_length row) of
           None \<Rightarrow> True | Some target \<Rightarrow> maximum_position_count < target)
       (PositionOutOfRange (lbr_sequence_tag row) (lbr_target_logical_length row) maximum_position_count)) (\<lambda>_.
     bindE (forE (lbt_physical_block_ids (lbr_block_table row)) (\<lambda>physical_id.
       failE (beyond physical_id (lmc_physical_block_count metadata))
         (AdapterCapacityExceeded ''physical block index''
           (saturating_add (case u64_try_from physical_id of None \<Rightarrow> u64_max | Some v \<Rightarrow> v) 1)
           (lmc_physical_block_count metadata)))) (\<lambda>_.
     check_rows metadata vocabulary_size maximum_position_count rows pos)))"

definition validate_executor_bounds ::
  "prepared_llama_iteration \<Rightarrow> llama_batch_metadata_config \<Rightarrow> usize \<Rightarrow> usize \<Rightarrow> ('x, 'c, unit) adapter_result" where
  "validate_executor_bounds prepared metadata vocabulary_size maximum_position_count =
     bindE (ensure_adapter_capacity ''rows'' (length (pli_rows prepared)) (lmc_max_rows metadata)) (\<lambda>_.
     bindE (ensure_adapter_capacity ''input tokens'' (pli_total_input_tokens prepared)
       (lmc_max_input_tokens metadata)) (\<lambda>_.
     bindE (ensure_adapter_capacity ''block entries'' (pli_total_block_entries prepared)
       (lmc_max_block_entries metadata)) (\<lambda>_.
     bindE (ensure_adapter_capacity ''output slots'' (pli_output_count prepared)
       (lmc_max_output_slots metadata)) (\<lambda>_.
     check_rows metadata vocabulary_size maximum_position_count (pli_rows prepared) 0))))"

subsection \<open>The downloaded output\<close>

record sampled_iteration_token =
  sit_token_id :: u32
  sit_stop :: bool

record iteration_timing =
  it_gpu_execution_ns :: u64
  it_gpu_idle_gap_ns :: u64

text \<open>A token vector whose allocation matters: its capacity and its contents.\<close>

record workspace =
  ws_capacity :: usize
  ws_tokens :: "u32 list"

datatype downloaded_output = Logits "nat list" | GreedyTokens workspace

record downloaded_llama_iteration =
  dli_iteration_id :: iteration_id
  dli_vocabulary_size :: usize
  dli_output_count :: usize
  dli_output :: downloaded_output
  dli_commit_outputs :: "iteration_output list"

abbreviation (input) BF16_BYTES :: nat where "BF16_BYTES \<equiv> 2"

fun logits_bf16_native :: "downloaded_output \<Rightarrow> nat list" where
  "logits_bf16_native (Logits logits) = logits"
| "logits_bf16_native (GreedyTokens tokens) = []"

fun greedy_token_ids :: "downloaded_output \<Rightarrow> u32 list" where
  "greedy_token_ids (Logits logits) = []"
| "greedy_token_ids (GreedyTokens tokens) = ws_tokens tokens"

definition restore_greedy_token_workspace ::
  "(downloaded_llama_iteration \<times> workspace, ('x, 'c) iteration_adapter_error, unit) cmd" where
  "restore_greedy_token_workspace = withM (\<lambda>(d, w).
     case dli_output d of
       Logits _ \<Rightarrow> throwM (InvalidRuntimeOutput ''greedy token IDs''
         ''download does not own one greedy token per output row'')
     | GreedyTokens token_ids \<Rightarrow>
         bindM (failIf (length (ws_tokens token_ids) \<noteq> dli_output_count d) (InvalidRuntimeOutput ''greedy token IDs''
           ''download does not own one greedy token per output row'')) (\<lambda>_.
         bindM (failIf (ws_tokens w \<noteq> [] \<or> ws_capacity w \<noteq> 0) (InvalidRuntimeOutput ''greedy token workspace''
           ''workspace is not the empty execution placeholder'')) (\<lambda>_.
         modM (\<lambda>(d, w). (d\<lparr>dli_output := GreedyTokens w\<rparr>, token_ids\<lparr>ws_tokens := []\<rparr>)))))"

definition logits_for_slot ::
  "downloaded_llama_iteration \<Rightarrow> output_slot \<Rightarrow> ('x, 'c, nat list) adapter_result" where
  "logits_for_slot d slot =
     bindE (ok_or (u64_try_from (slot_value slot)) (AdapterArithmeticOverflow ''output slot index'')) (\<lambda>index.
     bindE (failE (dli_output_count d \<le> index) (InvalidRuntimeOutput ''output slot''
       ''requested slot is outside the downloaded dense output range'')) (\<lambda>_.
     bindE (ok_or (checked_mul (dli_vocabulary_size d) BF16_BYTES)
       (AdapterArithmeticOverflow ''logit row byte length'')) (\<lambda>row_bytes.
     bindE (ok_or (checked_mul index row_bytes) (AdapterArithmeticOverflow ''logit row byte offset'')) (\<lambda>lo.
     bindE (ok_or (checked_add lo row_bytes) (AdapterArithmeticOverflow ''logit row byte range'')) (\<lambda>hi.
     ok_or (get_range (logits_bf16_native (dli_output d)) lo hi)
       (InvalidRuntimeOutput ''logits'' ''downloaded storage is shorter than its declared shape''))))))"

definition greedy_token_for_slot ::
  "downloaded_llama_iteration \<Rightarrow> output_slot \<Rightarrow> ('x, 'c, u32) adapter_result" where
  "greedy_token_for_slot d slot =
     bindE (ok_or (u64_try_from (slot_value slot)) (AdapterArithmeticOverflow ''output slot index'')) (\<lambda>index.
     bindE (failE (dli_output_count d \<le> index) (InvalidRuntimeOutput ''output slot''
       ''requested slot is outside the downloaded dense output range'')) (\<lambda>_.
     ok_or (get (greedy_token_ids (dli_output d)) index) (InvalidRuntimeOutput ''greedy token IDs''
       ''iteration downloaded logits instead of greedy token IDs'')))"

definition download_abort_data :: "downloaded_llama_iteration \<Rightarrow> iteration_id \<times> execution_abort" where
  "download_abort_data d = (dli_iteration_id d, DeviceQuiescedMutationUnknown)"

text \<open>\<open>into_result\<close>: a failure hands the download back with the error.\<close>

definition into_result ::
  "downloaded_llama_iteration \<Rightarrow> sampled_iteration_token list \<Rightarrow> iteration_timing \<Rightarrow>
     (downloaded_llama_iteration \<times> ('x, 'c) iteration_adapter_error) + iteration_result" where
  "into_result d samples timing =
     (let output_count = dli_output_count d in
      bindE (failE (length samples \<noteq> output_count) (d, InvalidSampleCount output_count (length samples))) (\<lambda>_.
      bindE (ok_or (u32_try_from output_count) (d, AdapterArithmeticOverflow ''commit output count'')) (\<lambda>n.
      bindE (forE (zip [0..<n] samples) (\<lambda>(raw_slot, sample).
        failE (beyond (sit_token_id sample) (dli_vocabulary_size d))
          (d, SampleTokenOutOfRange (OutputSlot raw_slot) (sit_token_id sample) (dli_vocabulary_size d)))) (\<lambda>_.
      Inr (from_dense_outputs (dli_iteration_id d)
        (dli_commit_outputs d @ map (\<lambda>(raw_slot, sample).
           \<lparr>io_slot = OutputSlot raw_slot, io_token_id = sit_token_id sample, io_stop = sit_stop sample\<rparr>)
           (zip [0..<n] samples))
        (it_gpu_execution_ns timing) (it_gpu_idle_gap_ns timing))))))"

end
