(* ===== verification/Execution_Accepts.thy ===== *)
theory Execution_Accepts
  imports Execution_Prepare Batch_Props
begin

text \<open>
  The contract between scheduler and runtime: an iteration plan that the scheduler built is adapted
  without an error of its own, its rows are its items in order, and a batch packer whose bounds the plan
  respects accepts the rows.
\<close>

subsection \<open>Adapted rows\<close>

definition item_table :: "iteration_plan \<Rightarrow> work_item \<Rightarrow> owned_block_table" where
  "item_table plan item = ip_block_tables plan ! wi_block_table_index item"

definition row_of :: "iteration_plan \<Rightarrow> work_item \<Rightarrow> llama_batch_row" where
  "row_of plan item =
     (let table = item_table plan item in
      \<lparr>lbr_sequence_tag = request_value (wi_request_id item),
       lbr_kind = (case wi_kind item of Prefill \<Rightarrow> RowPrefill | Decode \<Rightarrow> RowDecode),
       lbr_input_token_ids = wi_input_tokens item, lbr_target_logical_length = wi_target_logical_length item,
       lbr_block_table = \<lparr>lbt_schema_version = obt_schema_version table,
         lbt_physical_block_ids = obt_physical_block_ids table,
         lbt_valid_tokens = obt_valid_tokens table, lbt_logical_length = obt_logical_length table\<rparr>,
       lbr_output_slot = map_option slot_value (wi_output_slot item)\<rparr>)"

definition item_adaptable :: "iteration_plan \<Rightarrow> work_kind \<Rightarrow> work_item \<Rightarrow> bool" where
  "item_adaptable plan kind item =
     (item_ok kind (ip_block_tables plan) item \<and> wi_input_tokens item \<noteq> [] \<and>
      (kind = Decode \<longrightarrow> length (wi_input_tokens item) = 1) \<and> wi_target_logical_length item \<le> u32_max)"

lemma adapt_item_exact: "adapt_item plan item kind = Inr row \<longleftrightarrow> item_adaptable plan kind item \<and> row = row_of plan item"
  by (cases kind) (auto simp: adapt_item_def item_adaptable_def item_ok_def row_of_def item_table_def Let_def)

lemma adapt_item_Inr: "item_adaptable plan kind item \<Longrightarrow> adapt_item plan item kind = Inr (row_of plan item)"
  by (simp add: adapt_item_exact)

definition item_entries :: "iteration_plan \<Rightarrow> work_item \<Rightarrow> nat" where
  "item_entries plan item = length (obt_physical_block_ids (item_table plan item))"

lemma row_of_simps [simp]:
  "lbr_input_token_ids (row_of plan item) = wi_input_tokens item"
  "lbr_target_logical_length (row_of plan item) = wi_target_logical_length item"
  "lbt_physical_block_ids (lbr_block_table (row_of plan item)) = obt_physical_block_ids (item_table plan item)"
  "lbr_output_slot (row_of plan item) = map_option slot_value (wi_output_slot item)"
  "lbr_sequence_tag (row_of plan item) = request_value (wi_request_id item)"
  "row_tokens (row_of plan item) = length (wi_input_tokens item)"
  "row_blocks (row_of plan item) = item_entries plan item"
  by (simp_all add: row_of_def Let_def row_tokens_def row_blocks_def item_entries_def)

lemma adapt_items_exact:
  "adapt_items plan kind items (rows, t, e) = Inr st \<longleftrightarrow>
     (\<forall>item\<in>set items. item_adaptable plan kind item) \<and>
     t + item_tokens items \<le> u64_max \<and> e + sum_list (map (item_entries plan) items) \<le> u64_max \<and>
     st = (rows @ map (row_of plan) items, t + item_tokens items, e + sum_list (map (item_entries plan) items))"
  if "t \<le> u64_max" and "e \<le> u64_max"
  using that
proof (induction items arbitrary: rows t e)
  case Nil
  then show ?case by (auto simp: item_tokens_def)
next
  case (Cons item items)
  show ?case
  proof (cases "item_adaptable plan kind item \<and> t + length (wi_input_tokens item) \<le> u64_max \<and>
      e + item_entries plan item \<le> u64_max")
    case True
    then have eq: "adapt_items plan kind (item # items) (rows, t, e) =
        adapt_items plan kind items (rows @ [row_of plan item], t + length (wi_input_tokens item), e + item_entries plan item)"
      by (simp add: adapt_item_Inr ok_or_def checked_add_def item_entries_def)
    show ?thesis
      unfolding eq using True Cons.IH [of "t + length (wi_input_tokens item)" "e + item_entries plan item"]
      by (simp add: item_tokens_def add.assoc)
  next
    case False
    then have "adapt_items plan kind (item # items) (rows, t, e) \<noteq> Inr st"
      by (auto simp: adapt_item_exact item_entries_def)
    with False show ?thesis by (auto simp: item_tokens_def)
  qed
qed

subsection \<open>Plans of the scheduler\<close>

text \<open>Work items and block tables only come from their constructors.\<close>

definition item_built :: "work_item \<Rightarrow> bool" where
  "item_built item = (\<exists>rid kind toks target index slot. work_item_new rid kind toks target index slot = Inr item)"

definition table_built :: "owned_block_table \<Rightarrow> bool" where
  "table_built t = (\<exists>env rid v ids valid len. len \<le> u32_max \<and> owned_block_table_new env rid v ids valid len = Inr t)"

lemma item_builtD:
  "item_built item \<Longrightarrow> wi_input_tokens item \<noteq> [] \<and> length (wi_input_tokens item) \<le> wi_target_logical_length item \<and>
     (wi_kind item = Decode \<longrightarrow> length (wi_input_tokens item) = 1)"
  by (auto simp: item_built_def work_item_new_def)

lemma table_builtD:
  assumes "table_built t"
  shows "obt_schema_version t = BLOCK_TABLE_V1_VERSION \<and> obt_logical_length t \<le> u32_max \<and>
    distinct (obt_physical_block_ids t) \<and>
    length (obt_physical_block_ids t) = blocks_for_length (obt_logical_length t) \<and>
    obt_valid_tokens t = canonical_counts (obt_logical_length t)"
proof -
  from assms obtain env rid v ids valid len where len: "len \<le> u32_max"
    and new: "owned_block_table_new env rid v ids valid len = Inr t" by (auto simp: table_built_def)
  from new have v: "v = BLOCK_TABLE_V1_VERSION" and alloc: "he_alloc env ''block table physical ID set'' (length ids)"
    by (auto simp: owned_block_table_new_def Let_def reserve_host_def)
  from new [unfolded v] len show ?thesis
    unfolding owned_block_table_canonical [OF alloc len] by (auto simp: canonical_counts_def)
qed

lemma scan_tokens_bounded:
  "plan_scan_items kind tables items st = Inr st' \<Longrightarrow> psc_total_tokens st \<le> u64_max \<Longrightarrow> psc_total_tokens st' \<le> u64_max"
proof (induction items arbitrary: st)
  case Nil
  then show ?case by simp
next
  case (Cons item items)
  then obtain st1 where st1: "plan_scan_item kind tables item st = Inr st1" "plan_scan_items kind tables items st1 = Inr st'"
    by auto
  from st1(1) have "psc_total_tokens st1 \<le> u64_max"
    by (auto simp: plan_scan_item_def Let_def)
  from Cons.IH [OF st1(2) this] show ?case .
qed

lemma count_entries_sum:
  "count_entries tables n = Some k \<Longrightarrow> n \<le> u64_max \<Longrightarrow>
     k = n + sum_list (map (\<lambda>t. length (obt_physical_block_ids t)) tables) \<and> k \<le> u64_max"
  by (induction tables arbitrary: n) (fastforce simp: bind_eq_Some_conv add.assoc)+

text \<open>What the plan's fields are, and the bounds its checks left behind.\<close>

lemma plan_fields:
  assumes "plan_from_version env v iid pre dec tables = Inr plan"
  shows "ip_schema_version plan = ITERATION_SCHEMA_VERSION" and "ip_iteration_id plan = iid"
    and "ip_prefill_items plan = pre" and "ip_decode_items plan = dec" and "ip_block_tables plan = tables"
    and "mset (ip_output_slots plan) = mset (item_slots (pre @ dec))"
    and "item_tokens (pre @ dec) \<le> u64_max"
    and "sum_list (map (\<lambda>t. length (obt_physical_block_ids t)) tables) \<le> u64_max"
proof -
  let ?st0 = "\<lparr>psc_referenced = replicate (length tables) False, psc_request_ids = [], psc_output_slots = [],
    psc_total_tokens = 0\<rparr>"
  obtain st1 st where g: "plan_scan_items Prefill tables pre ?st0 = Inr st1" "plan_scan_items Decode tables dec st1 = Inr st"
    "validate_physical_block_aliases env (pre @ dec) tables = Inr ()" "v = ITERATION_SCHEMA_VERSION"
    and plan: "plan = \<lparr>ip_schema_version = v, ip_iteration_id = iid, ip_prefill_items = pre, ip_decode_items = dec,
      ip_total_tokens = psc_total_tokens st, ip_block_tables = tables, ip_output_slots = sort (psc_output_slots st)\<rparr>"
    using assms unfolding plan_from_version_def validate_iteration_block_tables_def validate_schema_def
    by (auto simp: reserve_host_def)
  note s1 = plan_scan_items_Inr [OF g(1), simplified]
  have mid: "length (psc_referenced st1) = length tables" "distinct (psc_request_ids st1)"
    "distinct (psc_output_slots st1)" using s1 by blast+
  note s2 = plan_scan_items_Inr [OF g(2) mid]
  have cat: "item_slots (pre @ dec) = item_slots pre @ item_slots dec" "item_tokens (pre @ dec) = item_tokens pre + item_tokens dec"
    by (simp_all add: item_slots_def item_tokens_def List.map_filter_def)
  show "ip_schema_version plan = ITERATION_SCHEMA_VERSION" "ip_iteration_id plan = iid"
    "ip_prefill_items plan = pre" "ip_decode_items plan = dec" "ip_block_tables plan = tables"
    using plan g(4) by simp_all
  have "psc_output_slots st = item_slots (pre @ dec)" using s1 s2 cat by simp
  then show "mset (ip_output_slots plan) = mset (item_slots (pre @ dec))" by (simp add: plan)
  have "psc_total_tokens st \<le> u64_max"
    using scan_tokens_bounded [OF g(2)] scan_tokens_bounded [OF g(1)] by simp
  moreover have "psc_total_tokens st = item_tokens (pre @ dec)" using s1 s2 cat by simp
  ultimately show "item_tokens (pre @ dec) \<le> u64_max" by simp
  from g(3) obtain k where "count_entries tables 0 = Some k"
    by (auto simp: validate_physical_block_aliases_def)
  from count_entries_sum [OF this] show "sum_list (map (\<lambda>t. length (obt_physical_block_ids t)) tables) \<le> u64_max" by simp
qed

text \<open>A plan of the scheduler: accepted by \<open>from_version\<close>, from built items and tables.\<close>

definition scheduled_plan :: "work_item list \<Rightarrow> work_item list \<Rightarrow> owned_block_table list \<Rightarrow> iteration_plan \<Rightarrow> bool" where
  "scheduled_plan pre dec tables plan =
     ((\<exists>env v iid. plan_from_version env v iid pre dec tables = Inr plan) \<and>
      (\<forall>item\<in>set (pre @ dec). item_built item) \<and> (\<forall>t\<in>set tables. table_built t))"

definition plan_items :: "iteration_plan \<Rightarrow> work_item list" where
  "plan_items plan = ip_prefill_items plan @ ip_decode_items plan"

lemma scheduled_planD:
  assumes "scheduled_plan pre dec tables plan"
  defines "items \<equiv> pre @ dec"
  shows "plan_items plan = items" and "items \<noteq> []" and "distinct (map wi_request_id items)"
    and "\<forall>item\<in>set pre. item_adaptable plan Prefill item" and "\<forall>item\<in>set dec. item_adaptable plan Decode item"
    and "\<forall>item\<in>set items. item_built item \<and> table_built (item_table plan item)"
    and "ip_total_tokens plan = item_tokens items" and "item_tokens items \<le> u64_max"
    and "sum_list (map (item_entries plan) items) \<le> u64_max"
    and "length (ip_output_slots plan) = length (item_slots items)" and "distinct (item_slots items)"
    and "set (item_slots items) = OutputSlot ` {..<length (item_slots items)}"
    and "\<forall>a\<in>set items. \<forall>b\<in>set items. a \<noteq> b \<longrightarrow>
      set (written_blocks tables a) \<inter> set (obt_physical_block_ids (item_table plan b)) = {}"
    and "ip_block_tables plan = tables" and "ip_schema_version plan = ITERATION_SCHEMA_VERSION"
proof -
  from assms(1) obtain env v iid where plan: "plan_from_version env v iid pre dec tables = Inr plan"
    and items: "\<forall>item\<in>set items. item_built item" and tables: "\<forall>t\<in>set tables. table_built t"
    by (auto simp: scheduled_plan_def items_def)
  note f = plan_fields [OF plan, folded items_def] and p = plan_facts [OF plan, folded items_def]
  from f p show "plan_items plan = items" "items \<noteq> []" "distinct (map wi_request_id items)"
    "ip_total_tokens plan = item_tokens items" "item_tokens items \<le> u64_max" "ip_block_tables plan = tables"
    "ip_schema_version plan = ITERATION_SCHEMA_VERSION"
    by (auto simp: plan_items_def items_def)
  have inside: "wi_block_table_index item < length tables" if "item \<in> set items" for item
    using p that by (auto simp: items_def item_ok_def)
  have in_tables: "item_table plan item \<in> set tables" if "item \<in> set items" for item
    using inside [OF that] f(5) by (simp add: item_table_def)
  then show built: "\<forall>item\<in>set items. item_built item \<and> table_built (item_table plan item)"
    using items tables by blast
  have adaptable: "item_adaptable plan kind item" if "item \<in> set items" "item_ok kind tables item" for kind item
    using that built f(5) item_builtD [of item] table_builtD [of "item_table plan item"]
    by (auto simp: item_adaptable_def item_ok_def item_table_def)
  then show "\<forall>item\<in>set pre. item_adaptable plan Prefill item" "\<forall>item\<in>set dec. item_adaptable plan Decode item"
    using p by (auto simp: items_def)
  have "distinct (map wi_block_table_index items)" "set (map wi_block_table_index items) = set [0..<length tables]"
    using p by auto
  then have "mset (map wi_block_table_index items) = mset [0..<length tables]"
    by (metis distinct_upt set_eq_iff_mset_eq_distinct)
  then have "mset (map (\<lambda>j. length (obt_physical_block_ids (tables ! j))) (map wi_block_table_index items)) =
      mset (map (\<lambda>j. length (obt_physical_block_ids (tables ! j))) [0..<length tables])"
    by (simp only: mset_map)
  then have "sum_list (map (\<lambda>j. length (obt_physical_block_ids (tables ! j))) (map wi_block_table_index items)) =
      sum_list (map (\<lambda>j. length (obt_physical_block_ids (tables ! j))) [0..<length tables])"
    by (metis sum_mset_sum_list)
  moreover have "map (\<lambda>j. length (obt_physical_block_ids (tables ! j))) [0..<length tables] =
      map (\<lambda>t. length (obt_physical_block_ids t)) tables"
    by (intro nth_equalityI) simp_all
  moreover have item_entries_eq: "item_entries plan = (\<lambda>x. length (obt_physical_block_ids (tables ! wi_block_table_index x)))"
    using f(5) by (simp add: fun_eq_iff item_entries_def item_table_def)
  ultimately show "sum_list (map (item_entries plan) items) \<le> u64_max"
    using f(5,8) by (simp add: item_entries_eq comp_def)
  show slots: "length (ip_output_slots plan) = length (item_slots items)"
    using f(6) by (metis size_mset)
  have list: "ip_output_slots plan = map OutputSlot [0..<length (item_slots items)]" using p by blast
  have "distinct (ip_output_slots plan)" unfolding list by (simp add: distinct_map inj_on_def)
  then show "distinct (item_slots items)" using f(6) by (metis mset_eq_imp_distinct_iff)
  have "set (item_slots items) = set (ip_output_slots plan)" using f(6) by (metis mset_eq_setD)
  then show "set (item_slots items) = OutputSlot ` {..<length (item_slots items)}"
    unfolding list by (simp add: atLeast0LessThan)
  show "\<forall>a\<in>set items. \<forall>b\<in>set items. a \<noteq> b \<longrightarrow>
      set (written_blocks tables a) \<inter> set (obt_physical_block_ids (item_table plan b)) = {}"
    using p f(5) by (simp add: item_table_def)
qed

definition prepared_of :: "iteration_plan \<Rightarrow> prepared_llama_iteration" where
  "prepared_of plan =
     \<lparr>pli_iteration_id = ip_iteration_id plan, pli_rows = map (row_of plan) (plan_items plan),
      pli_total_input_tokens = ip_total_tokens plan,
      pli_total_block_entries = sum_list (map (item_entries plan) (plan_items plan)),
      pli_output_count = length (ip_output_slots plan), pli_commit_outputs = []\<rparr>"

lemma prepare_scheduled:
  assumes "scheduled_plan pre dec tables plan"
  shows "prepare_iteration env plan =
    (if \<not> he_alloc env ''runtime rows'' (batch_size plan)
     then Inl (AdapterHostAllocation ''runtime rows'' (batch_size plan))
     else if \<not> he_alloc env ''commit outputs'' (length (ip_output_slots plan))
     then Inl (AdapterHostAllocation ''commit outputs'' (length (ip_output_slots plan)))
     else Inr (prepared_of plan))"
proof -
  note s = scheduled_planD [OF assms]
  have parts: "ip_prefill_items plan = pre" "ip_decode_items plan = dec"
    using assms plan_fields(3,4) by (auto simp: scheduled_plan_def)
  have tokens: "item_tokens (pre @ dec) = item_tokens pre + item_tokens dec" by (simp add: item_tokens_def)
  have t: "item_tokens pre \<le> u64_max" "item_tokens pre + item_tokens dec \<le> u64_max"
    using s(8) by (simp_all add: item_tokens_def)
  have e: "sum_list (map (item_entries plan) pre) \<le> u64_max"
    "sum_list (map (item_entries plan) pre) + sum_list (map (item_entries plan) dec) \<le> u64_max"
    using s(9) by simp_all
  have size: "batch_size plan = length (pre @ dec)" using parts by (simp add: batch_size_def)
  have first: "adapt_items plan Prefill pre ([], 0, 0) =
      Inr (map (row_of plan) pre, item_tokens pre, sum_list (map (item_entries plan) pre))"
    using s(4) t e by (subst adapt_items_exact) simp_all
  have second: "adapt_items plan Decode dec (map (row_of plan) pre, item_tokens pre, sum_list (map (item_entries plan) pre)) =
      Inr (map (row_of plan) (pre @ dec), item_tokens (pre @ dec), sum_list (map (item_entries plan) (pre @ dec)))"
    using s(5) t e tokens by (subst adapt_items_exact) simp_all
  have "pre @ dec \<noteq> []" using s(2) by simp
  then show ?thesis
    using s(1,7,15) by (simp add: prepare_iteration_def parts first second size reserve_adapter_vec_def failE_def
        prepared_of_def)
qed

subsection \<open>The bounds that were checked\<close>

lemma check_tokens_Inr:
  "check_tokens vocabulary ids pos = (Inr pos' :: ('x, 'c, usize) adapter_result) \<Longrightarrow>
     \<forall>t\<in>set ids. t < vocabulary"
  by (induction ids arbitrary: pos) (auto simp: beyond_def split: option.splits)

lemma check_rows_Inr:
  "check_rows metadata vocabulary maxpos rows pos = (Inr () :: ('x, 'c, unit) adapter_result) \<Longrightarrow> row \<in> set rows \<Longrightarrow>
     (\<forall>t\<in>set (lbr_input_token_ids row). t < vocabulary) \<and> lbr_target_logical_length row \<le> maxpos \<and>
     (\<forall>i\<in>set (lbt_physical_block_ids (lbr_block_table row)). i < lmc_physical_block_count metadata)"
proof (induction rows arbitrary: pos)
  case Nil
  then show ?case by simp
next
  case (Cons r rows)
  then obtain pos' where c: "check_tokens vocabulary (lbr_input_token_ids r) pos = (Inr pos' :: ('x, 'c, usize) adapter_result)"
    "lbr_target_logical_length r \<le> maxpos"
    "\<forall>i\<in>set (lbt_physical_block_ids (lbr_block_table r)). \<not> beyond i (lmc_physical_block_count metadata)"
    "check_rows metadata vocabulary maxpos rows pos' = (Inr () :: ('x, 'c, unit) adapter_result)"
    by (auto simp: forE_Inr split: option.splits)
  from c(3) have "\<forall>i\<in>set (lbt_physical_block_ids (lbr_block_table r)). i < lmc_physical_block_count metadata"
    by (auto simp: beyond_def split: option.splits)
  with check_tokens_Inr [OF c(1)] c(2) Cons.IH [OF c(4)] Cons.prems(2) show ?case by auto
qed

lemma executor_boundsD:
  assumes "validate_executor_bounds prepared metadata vocabulary maxpos = (Inr () :: ('x, 'c, unit) adapter_result)"
  shows "length (pli_rows prepared) \<le> lmc_max_rows metadata"
    and "pli_total_input_tokens prepared \<le> lmc_max_input_tokens metadata"
    and "pli_total_block_entries prepared \<le> lmc_max_block_entries metadata"
    and "pli_output_count prepared \<le> lmc_max_output_slots metadata"
    and "\<forall>row\<in>set (pli_rows prepared). (\<forall>t\<in>set (lbr_input_token_ids row). t < vocabulary) \<and>
      lbr_target_logical_length row \<le> maxpos \<and>
      (\<forall>i\<in>set (lbt_physical_block_ids (lbr_block_table row)). i < lmc_physical_block_count metadata)"
proof -
  from assms have c: "check_rows metadata vocabulary maxpos (pli_rows prepared) 0 = (Inr () :: ('x, 'c, unit) adapter_result)"
    and "length (pli_rows prepared) \<le> lmc_max_rows metadata \<and>
      pli_total_input_tokens prepared \<le> lmc_max_input_tokens metadata \<and>
      pli_total_block_entries prepared \<le> lmc_max_block_entries metadata \<and>
      pli_output_count prepared \<le> lmc_max_output_slots metadata"
    by (auto simp: validate_executor_bounds_def ensure_adapter_capacity_def)
  then show "length (pli_rows prepared) \<le> lmc_max_rows metadata"
    "pli_total_input_tokens prepared \<le> lmc_max_input_tokens metadata"
    "pli_total_block_entries prepared \<le> lmc_max_block_entries metadata"
    "pli_output_count prepared \<le> lmc_max_output_slots metadata" by blast+
  show "\<forall>row\<in>set (pli_rows prepared). (\<forall>t\<in>set (lbr_input_token_ids row). t < vocabulary) \<and>
      lbr_target_logical_length row \<le> maxpos \<and>
      (\<forall>i\<in>set (lbt_physical_block_ids (lbr_block_table row)). i < lmc_physical_block_count metadata)"
    using check_rows_Inr [OF c] by blast
qed

subsection \<open>The packer accepts the plan\<close>

lemma sorted_wrt_concat:
  assumes "\<forall>xs\<in>set xss. sorted_wrt P xs" and "sorted_wrt (\<lambda>xs ys. \<forall>x\<in>set xs. \<forall>y\<in>set ys. P x y) xss"
  shows "sorted_wrt P (concat xss)"
  using assms by (induction xss) (auto simp: sorted_wrt_append)

lemma slots_of_plan: "slots_of (map (row_of plan) items) = map slot_value (item_slots items)"
  by (induction items) (auto simp: slots_of_def item_slots_def split: option.splits)

text \<open>An access that writes is a written block of the item; all accesses lie in its table.\<close>

lemma accesses_plan:
  assumes "(b, w) \<in> set (accesses (row_of plan item))"
  shows "b \<in> set (obt_physical_block_ids (item_table plan item)) \<and>
    (w \<longrightarrow> b \<in> set (written_blocks (ip_block_tables plan) item))"
proof -
  let ?ids = "obt_physical_block_ids (item_table plan item)"
  let ?k = "(wi_target_logical_length item - length (wi_input_tokens item)) div KV_BLOCK_SIZE"
  from assms obtain i where i: "i < length ?ids" "b = ?ids ! i" "w = (?k \<le> i)"
    by (auto simp: accesses_def in_set_enumerate_eq)
  moreover have "?ids ! i \<in> set (drop ?k ?ids)" if "?k \<le> i"
    using that i(1) by (auto simp: in_set_conv_nth intro!: exI [of _ "i - ?k"])
  ultimately show ?thesis
    by (auto simp: written_blocks_def first_written_def item_table_def min_def)
qed

lemma accesses_own_distinct:
  "distinct (lbt_physical_block_ids (lbr_block_table row)) \<Longrightarrow> alias_free (accesses row)"
  by (auto simp: alias_free_def accesses_def sorted_wrt_iff_nth_less nth_enumerate_eq nth_eq_iff_index_eq)

lemma accesses_alias_free:
  assumes "distinct items" and "\<forall>item\<in>set items. distinct (obt_physical_block_ids (item_table plan item))"
    and "\<forall>a\<in>set items. \<forall>b\<in>set items. a \<noteq> b \<longrightarrow>
      set (written_blocks (ip_block_tables plan) a) \<inter> set (obt_physical_block_ids (item_table plan b)) = {}"
  shows "alias_free (concat (map accesses (map (row_of plan) items)))"
  unfolding alias_free_def
proof (rule sorted_wrt_concat)
  show "\<forall>xs\<in>set (map accesses (map (row_of plan) items)).
      sorted_wrt (\<lambda>a b. fst a = fst b \<longrightarrow> \<not> snd a \<and> \<not> snd b) xs"
    using assms(2) accesses_own_distinct [unfolded alias_free_def] by auto
  have apart: "\<forall>x\<in>set (accesses (row_of plan a)). \<forall>y\<in>set (accesses (row_of plan b)).
      fst x = fst y \<longrightarrow> \<not> snd x \<and> \<not> snd y" if ab: "a \<in> set items" "b \<in> set items" "a \<noteq> b" for a b
  proof (intro ballI impI)
    fix x y
    assume xy: "x \<in> set (accesses (row_of plan a))" "y \<in> set (accesses (row_of plan b))" "fst x = fst y"
    have x: "(fst x, snd x) \<in> set (accesses (row_of plan a))" and y: "(fst y, snd y) \<in> set (accesses (row_of plan b))"
      unfolding prod.collapse by (rule xy)+
    note x = accesses_plan [OF x] and y = accesses_plan [OF y]
    have "set (written_blocks (ip_block_tables plan) a) \<inter> set (obt_physical_block_ids (item_table plan b)) = {}"
      "set (written_blocks (ip_block_tables plan) b) \<inter> set (obt_physical_block_ids (item_table plan a)) = {}"
      using assms(3) ab by auto
    with x y xy show "\<not> snd x \<and> \<not> snd y" by auto
  qed
  have "sorted_wrt (\<lambda>a b. \<forall>x\<in>set (accesses (row_of plan a)). \<forall>y\<in>set (accesses (row_of plan b)).
      fst x = fst y \<longrightarrow> \<not> snd x \<and> \<not> snd y) items"
    unfolding sorted_wrt_iff_nth_less
  proof (intro allI impI)
    fix i j
    assume "i < j" "j < length items"
    then have "items ! i \<in> set items" "items ! j \<in> set items" "items ! i \<noteq> items ! j"
      using assms(1) by (auto simp: nth_eq_iff_index_eq)
    then show "\<forall>x\<in>set (accesses (row_of plan (items ! i))). \<forall>y\<in>set (accesses (row_of plan (items ! j))).
        fst x = fst y \<longrightarrow> \<not> snd x \<and> \<not> snd y" by (rule apart)
  qed
  then show "sorted_wrt (\<lambda>xs ys. \<forall>x\<in>set xs. \<forall>y\<in>set ys. fst x = fst y \<longrightarrow> \<not> snd x \<and> \<not> snd y)
      (map accesses (map (row_of plan) items))"
    by (simp add: sorted_wrt_map)
qed

lemma scheduled_rows_ok:
  assumes "scheduled_plan pre dec tables plan"
    and "validate_executor_bounds (prepared_of plan) c vocabulary maxpos = (Inr () :: ('x, 'c, unit) adapter_result)"
  shows "batch_ok c (map (row_of plan) (plan_items plan))" and "\<forall>row\<in>set (map (row_of plan) (plan_items plan)). row_sized row"
proof -
  let ?items = "plan_items plan" and ?rows = "map (row_of plan) (plan_items plan)"
  note s = scheduled_planD [OF assms(1), folded scheduled_planD(1) [OF assms(1)]]
  note b = executor_boundsD [OF assms(2), unfolded prepared_of_def, simplified]
  have adapt: "item_adaptable plan (wi_kind item) item" if "item \<in> set ?items" for item
    using s(4,5) that s(1) scheduled_planD(1) [OF assms(1)] by (auto simp: item_adaptable_def item_ok_def)
  show sized: "\<forall>row\<in>set ?rows. row_sized row" using adapt by (auto simp: row_sized_def item_adaptable_def)
  have built: "item_built item" "table_built (item_table plan item)" if "item \<in> set ?items" for item
    using s(6) that by auto
  have slots: "slots_of ?rows = map slot_value (item_slots ?items)" by (rule slots_of_plan)
  have dist: "distinct (slots_of ?rows)"
    unfolding slots using s(11) by (simp add: distinct_map inj_on_def output_slot.expand)
  have dense: "set (slots_of ?rows) = {..<length (slots_of ?rows)}"
    unfolding slots using s(12) by (simp add: image_image)
  have few: "length (slots_of ?rows) \<le> lmc_max_output_slots c"
    unfolding slots using s(10) b(4) by simp
  have fits: "row_fits c (row_of plan item)" if i: "item \<in> set ?items" for item
  proof -
    note a = adapt [OF i] and t = table_builtD [OF built(2) [OF i]] and j = item_builtD [OF built(1) [OF i]]
    have len: "obt_logical_length (item_table plan item) = wi_target_logical_length item"
      using a by (simp add: item_adaptable_def item_ok_def item_table_def)
    have phys: "\<forall>i\<in>set (obt_physical_block_ids (item_table plan item)). i < lmc_physical_block_count c"
      using b(5) i by auto
    have "slot_value slot < lmc_max_output_slots c" if "wi_output_slot item = Some slot" for slot
    proof -
      have "slot_value slot \<in> set (slots_of ?rows)" using that i by (force simp: slots_of_def)
      then show ?thesis using dense few by auto
    qed
    moreover have "table_fits c (row_of plan item)"
      using t len phys by (simp add: table_fits_def row_of_def Let_def)
    moreover have "wi_kind item = Decode \<Longrightarrow> wi_output_slot item \<noteq> None"
      using a by (simp add: item_adaptable_def item_ok_def)
    ultimately show ?thesis
      using j by (auto simp: row_fits_def row_of_def Let_def row_tokens_def split: work_kind.splits)
  qed
  have "distinct ?items" using s(3) by (simp add: distinct_map)
  then have apart: "alias_free (concat (map accesses ?rows))"
    using s(13,14) built(2) table_builtD by (intro accesses_alias_free) auto
  have tags: "distinct (map lbr_sequence_tag ?rows)"
  proof -
    have "map lbr_sequence_tag ?rows = map request_value (map wi_request_id ?items)" by (simp add: comp_def)
    moreover have "distinct (map request_value (map wi_request_id ?items))"
      using s(3) by (subst distinct_map) (simp add: inj_on_def request_id.expand)
    ultimately show ?thesis by argo
  qed
  have tokens: "sum_list (map row_tokens ?rows) \<le> lmc_max_input_tokens c"
    using b(2) s(7) by (simp add: comp_def item_tokens_def)
  have blocks: "sum_list (map row_blocks ?rows) \<le> lmc_max_block_entries c"
    using b(3) by (simp add: comp_def)
  show "batch_ok c ?rows"
    unfolding batch_ok_def rows_fit_def
    using s(2) b(1) tags fits tokens blocks apart dist dense by auto
qed

end
