(* ===== verification/Execution_Link.thy ===== *)
theory Execution_Link
  imports Scheduler_Props Execution_Accepts
begin

text \<open>
  The plans of the scheduler are scheduled plans: \<open>plan_iteration\<close> builds its work items and block tables
  with their constructors and its plan with \<open>IterationPlan::new\<close>, and the iteration it puts in flight
  expects the output slots of the plan. These facts follow from the shape of the code alone.
\<close>

subsection \<open>Successful runs\<close>

lemma runs_Inr:
  "bindM m f s = (Inr y, t) \<longleftrightarrow> (\<exists>x u. m s = (Inr x, u) \<and> f x u = (Inr y, t))"
  "catchM n g s = (Inr z, t) \<longleftrightarrow>
     (\<exists>e u. n s = (Inl e, u) \<and> g (Inl e) u = (Inr z, t)) \<or> (\<exists>x u. n s = (Inr x, u) \<and> g (Inr x) u = (Inr z, t))"
  "withM h s = h s s" "tryM r s = (Inr x', t) \<longleftrightarrow> r = Inr x' \<and> t = s"
  "failIf b e s = (Inr u', t) \<longleftrightarrow> \<not> b \<and> t = s" "modM k s = (Inr u', t) \<longleftrightarrow> t = k s"
  "ret x' s = (Inr x'', t) \<longleftrightarrow> x'' = x' \<and> t = s" "throwM e s = (Inr x', t) \<longleftrightarrow> False"
  "zoomM rd wr conv l s = (Inr x', t) \<longleftrightarrow> (\<exists>v. l (rd s) = (Inr x', v) \<and> t = wr v s)"
proof -
  show "catchM n g s = (Inr z, t) \<longleftrightarrow>
     (\<exists>e u. n s = (Inl e, u) \<and> g (Inl e) u = (Inr z, t)) \<or> (\<exists>x u. n s = (Inr x, u) \<and> g (Inr x) u = (Inr z, t))"
    by (cases "n s"; cases "fst (n s)") (auto simp: catchM_def)
qed (auto simp: bindM_def withM_def tryM_def failIf_def modM_def ret_def throwM_def zoomM_def
    split: prod.splits sum.splits)

lemma runs_case:
  "(case r of Inl e \<Rightarrow> f e | Inr x \<Rightarrow> g x) s = (Inr y, t) \<longleftrightarrow>
     (\<exists>e. r = Inl e \<and> f e s = (Inr y, t)) \<or> (\<exists>x. r = Inr x \<and> g x s = (Inr y, t))"
  "(case p of (a, b) \<Rightarrow> h a b) s' = (Inr y', t) \<longleftrightarrow> (\<exists>a b. p = (a, b) \<and> h a b s' = (Inr y', t))"
  "(case z of None \<Rightarrow> k | Some v \<Rightarrow> l v) s'' = (Inr y'', t) \<longleftrightarrow>
     (z = None \<and> k s'' = (Inr y'', t)) \<or> (\<exists>v. z = Some v \<and> l v s'' = (Inr y'', t))"
  by (auto split: sum.splits prod.splits option.splits)

lemma rollback_never_succeeds: "rollback_prepared_plan items e s = (Inr x, t) \<longleftrightarrow> False"
  by (simp add: rollback_prepared_plan_def runs_Inr)

lemma reserve_to_target:
  "reserve_to env target qp = (Inr res, t) \<Longrightarrow> sr_target_logical_length res = target \<and> target \<le> u32_max"
  by (cases qp) (auto simp: reserve_to_def runs_Inr Let_def)

subsection \<open>Built work\<close>

definition work_built :: "prepared_work \<Rightarrow> bool" where
  "work_built w = ((\<forall>item\<in>set (pw_prefill w @ pw_decode w). item_built item) \<and> (\<forall>t\<in>set (pw_tables w). table_built t))"

definition work_slots :: "prepared_work \<Rightarrow> output_slot multiset" where
  "work_slots w = mset (item_slots (pw_prefill w @ pw_decode w))"

lemma reserved_work_built:
  assumes "reserved_work env p q res k = Inr (table, item)" and "sr_target_logical_length res \<le> u32_max"
  shows "table_built table \<and> item_built item \<and> wi_output_slot item = cp_output_slot p"
proof -
  from assms(1) obtain q' view where q: "reserved_block_table q' res = Inr view"
    and t: "copy_from_v1 env (cd_request_id (cp_candidate p)) view = Inr table"
    and i: "work_item_new (cd_request_id (cp_candidate p)) (cd_kind (cp_candidate p)) (cp_input_tokens p)
      (cp_target_logical_length p) k (cp_output_slot p) = Inr item"
    by (auto simp: reserved_work_def split: option.splits)
  have "bt_logical_length view \<le> u32_max" using q assms(2) by (auto simp: reserved_block_table_def table_view_def)
  moreover have "owned_block_table_new env (cd_request_id (cp_candidate p)) BLOCK_TABLE_V1_VERSION
      (bt_physical_block_ids view) (bt_valid_tokens view) (bt_logical_length view) = Inr table"
    using t by (auto simp: copy_from_v1_def Let_def)
  ultimately have "table_built table" unfolding table_built_def by blast
  moreover have "item_built item" using i unfolding item_built_def by blast
  moreover have "wi_output_slot item = cp_output_slot p" using i by (auto simp: work_item_new_def)
  ultimately show ?thesis by blast
qed

lemma item_slots_simps:
  "item_slots [] = []" "item_slots (xs @ ys) = item_slots xs @ item_slots ys"
  "item_slots (x # xs) = (case wi_output_slot x of None \<Rightarrow> item_slots xs | Some s \<Rightarrow> s # item_slots xs)"
  by (simp_all add: item_slots_def List.map_filter_def split: option.splits)

lemma reserve_payload_built:
  assumes "reserve_payload env p w s = (Inr w', t)" and "work_built w"
  shows "work_built w' \<and> work_slots w' = work_slots w + mset (List.map_filter cp_output_slot [p])"
proof -
  obtain index q res u v u' table item where
    r: "on_sequence index q (reserve_to env (cp_target_logical_length p)) u = (Inr res, v)"
    and work: "reserved_work env p (rq_sequence (s_requests v ! index)) res
      (length (pw_tables w)) = Inr (table, item)"
    and w': "w' = add_work (cd_kind (cp_candidate p)) table item (w\<lparr>pw_items := u'\<rparr>)"
    using assms(1)
    by (auto simp: reserve_payload_def runs_Inr runs_case Let_def rollback_never_succeeds)
  from r have "sr_target_logical_length res \<le> u32_max"
    by (auto simp: on_sequence_def runs_Inr dest: reserve_to_target)
  from reserved_work_built [OF work this] assms(2) show ?thesis
    unfolding w' by (cases "cd_kind (cp_candidate p)")
      (auto simp: add_work_def work_built_def work_slots_def item_slots_simps List.map_filter_def split: option.splits)
qed

lemma reserve_payloads_built:
  "reserve_payloads env ps w s = (Inr w', t) \<Longrightarrow> work_built w \<Longrightarrow>
     work_built w' \<and> work_slots w' = work_slots w + mset (List.map_filter cp_output_slot ps)"
proof (induction ps arbitrary: w s)
  case Nil
  then show ?case by (simp add: runs_Inr List.map_filter_def)
next
  case (Cons p ps)
  then obtain w1 u where w1: "reserve_payload env p w s = (Inr w1, u)" "reserve_payloads env ps w1 u = (Inr w', t)"
    by (auto simp: runs_Inr)
  from reserve_payload_built [OF w1(1) Cons.prems(2)] Cons.IH [OF w1(2)] show ?case
    by (auto simp: List.map_filter_def)
qed

lemma build_payloads_slots:
  "build_payloads env s cs slots ps = Inr (ps', slots') \<Longrightarrow>
     \<exists>new. ps' = ps @ new \<and> slots' = slots @ List.map_filter cp_output_slot new"
proof (induction cs arbitrary: slots ps)
  case Nil
  then show ?case by (simp add: List.map_filter_def)
next
  case (Cons c cs)
  then obtain tokens target out slot where "build_payloads env s cs (case slot of None \<Rightarrow> slots | Some v \<Rightarrow> slots @ [v])
      (ps @ [\<lparr>cp_candidate = c, cp_input_tokens = tokens, cp_target_logical_length = target, cp_output_slot = slot\<rparr>]) =
      Inr (ps', slots')"
    by auto
  from Cons.IH [OF this] show ?case by (auto simp: List.map_filter_def split: option.splits)
qed

subsection \<open>The plan in flight\<close>

definition expects :: "inflight_plan option \<Rightarrow> iteration_plan \<Rightarrow> bool" where
  "expects fl plan = (\<exists>ip. fl = Some ip \<and> fp_iteration_id ip = ip_iteration_id plan \<and>
     mset (fp_expected_output_slots ip) = mset (ip_output_slots plan))"

definition scheduled :: "iteration_plan \<Rightarrow> bool" where
  "scheduled plan = (\<exists>pre dec tables. scheduled_plan pre dec tables plan)"

lemma prepare_plan_scheduled:
  assumes "prepare_plan env iid cs now_ns s = (Inr plan, t)"
  shows "scheduled plan" and "expects (s_inflight t) plan"
proof -
  let ?w0 = "\<lparr>pw_items = [], pw_tables = [], pw_prefill = [], pw_decode = []\<rparr>"
  obtain ps slots w u pt dt indices ip v where
    b: "build_payloads env s cs [] [] = Inr (ps, slots)" and r: "reserve_payloads env ps ?w0 s = (Inr w, u)"
    and a: "assemble_plan env u iid w = Inr (plan, pt, dt, indices)"
    and t: "s_inflight t = Some ip" "fp_iteration_id ip = iid" "fp_expected_output_slots ip = slots"
    using assms by (auto simp: prepare_plan_def runs_Inr runs_case rollback_never_succeeds)
  have "work_built ?w0" by (simp add: work_built_def)
  from reserve_payloads_built [OF r this] build_payloads_slots [OF b]
  have w: "work_built w" "work_slots w = mset slots" by (simp_all add: work_slots_def item_slots_simps)
  from a have new: "plan_from_version env ITERATION_SCHEMA_VERSION iid (pw_prefill w) (pw_decode w) (pw_tables w) = Inr plan"
    by (auto simp: assemble_plan_def iteration_plan_new_def)
  then have "scheduled_plan (pw_prefill w) (pw_decode w) (pw_tables w) plan"
    unfolding scheduled_plan_def using w(1) by (auto simp: work_built_def)
  then show "scheduled plan" unfolding scheduled_def by blast
  show "expects (s_inflight t) plan"
    using t plan_fields(2,6) [OF new] w(2) by (simp add: expects_def work_slots_def)
qed

lemma refresh_keeps_inflight: "refresh_metric_gauges env s = (Inr x, t) \<Longrightarrow> s_inflight t = s_inflight s"
  by (rule wpD_Inr [where Q = "\<lambda>_ t. s_inflight t = s_inflight s" and E = "\<lambda>_ _. True"])
    (rule wp_refresh_metric_gauges, auto simp: metric_only_def)

text \<open>A plan that \<open>plan_iteration\<close> returns was built by the constructors, and it is the one in flight.\<close>

lemma plan_iteration_scheduled:
  assumes "plan_iteration env now_ns s = (Inr out, t)" and "po_plan out = Some plan"
  shows "scheduled plan \<and> expects (s_inflight t) plan"
proof -
  obtain u v iid cs where p: "prepare_plan env iid cs now_ns u = (Inr plan, v)"
    and t: "s_inflight t = map_option (\<lambda>i. i\<lparr>fp_scheduler_cpu_ns := elapsed_ns env\<rparr>) (s_inflight v)"
    using assms
    by (auto simp: plan_iteration_def runs_Inr runs_case advance_iteration_id_def drain_completion_outbox_def
        split: if_splits dest!: refresh_keeps_inflight)
  from prepare_plan_scheduled [OF p] t show ?thesis by (auto simp: expects_def)
qed

end
