(* ===== verification/Execution.thy ===== *)
theory Execution
  imports Execution_Prepare Complex_Main
begin

text \<open>
  The device half of \<open>riley-scheduler/src/execution.rs\<close>: the order in which one iteration is dispatched,
  downloaded, timed and synchronized, and the disposition that every failure gives the scheduler. The
  prepared executor, the CUDA stream and its events are a parameter, a record of functions on a device
  state; the theorems hold for all of them.
\<close>

datatype float32 = NonFinite | Finite (sign_negative: bool) (float_value: rat)

record ('d, 'x, 'c, 'ev) device_runtime =
  rt_vocabulary_size :: "'d \<Rightarrow> usize"
  rt_metadata :: "'d \<Rightarrow> llama_batch_metadata_config"
  rt_maximum_position_count :: "'d \<Rightarrow> 'x + usize"
  rt_output_byte_len_for :: "usize \<Rightarrow> 'd \<Rightarrow> 'x + usize"
  rt_greedy_result_byte_len_for :: "usize \<Rightarrow> 'd \<Rightarrow> 'x + usize"
  rt_output_count :: "'d \<Rightarrow> usize"
  rt_execute :: "llama_batch_row list \<Rightarrow> ('d, 'x, unit) cmd"
  rt_execute_greedy :: "llama_batch_row list \<Rightarrow> ('d, 'x, unit) cmd"
  rt_download_logits :: "nat list \<Rightarrow> 'd \<Rightarrow> ('x + unit) \<times> nat list \<times> 'd"
  rt_download_greedy_tokens :: "u32 list \<Rightarrow> 'd \<Rightarrow> ('x + unit) \<times> u32 list \<times> 'd"
  rt_synchronize :: "('d, 'c, unit) cmd"
  rt_record :: "'ev \<Rightarrow> ('d, 'c, unit) cmd"
  rt_event_synchronize :: "'ev \<Rightarrow> ('d, 'c, unit) cmd"
  rt_elapsed_ms :: "'ev \<Rightarrow> 'ev \<Rightarrow> 'd \<Rightarrow> 'c + float32"

record 'ev iteration_cuda_timer =
  ct_start :: 'ev
  ct_end :: 'ev
  ct_previous_end :: 'ev
  ct_has_previous_end :: bool

text \<open>What one call may change: the device, the optional timer, the optional workspace of the caller.\<close>

record ('d, 'ev) lane =
  ln_device :: 'd
  ln_timer :: "'ev iteration_cuda_timer option"
  ln_workspace :: "workspace option"

datatype iteration_output_mode = LogitsMode | GreedyTokensMode

record ('x, 'c) iteration_execution_failure =
  ief_iteration_id :: iteration_id
  ief_abort :: "execution_abort option"
  ief_error :: "('x, 'c) iteration_adapter_error"

type_synonym ('d, 'ev, 'x, 'c, 'a) lane_cmd =
  "(('d, 'ev) lane, ('x, 'c) iteration_execution_failure, 'a) cmd"

definition failure_abort_data ::
  "('x, 'c) iteration_execution_failure \<Rightarrow> (iteration_id \<times> execution_abort) option" where
  "failure_abort_data f = map_option (\<lambda>abort. (ief_iteration_id f, abort)) (ief_abort f)"

definition on_device :: "('e \<Rightarrow> 'f) \<Rightarrow> ('d, 'e, 'a) cmd \<Rightarrow> (('d, 'ev) lane, 'f, 'a) cmd" where
  "on_device conv m = zoomM ln_device (\<lambda>d ch. ch\<lparr>ln_device := d\<rparr>) conv m"

text \<open>Everything before the dispatch fails as \<open>NotDispatched\<close>.\<close>

definition before_dispatch :: "iteration_id \<Rightarrow> ('x, 'c, 'a) adapter_result \<Rightarrow> ('d, 'ev, 'x, 'c, 'a) lane_cmd" where
  "before_dispatch iid r = tryM (map_err (\<lambda>error.
     \<lparr>ief_iteration_id = iid, ief_abort = Some NotDispatched, ief_error = error\<rparr>) r)"

subsection \<open>The event timer\<close>

definition elapsed_event_ns ::
  "('d, 'x, 'c, 'ev) device_runtime \<Rightarrow> 'ev \<Rightarrow> 'ev \<Rightarrow> string \<Rightarrow> 'd \<Rightarrow> ('x, 'c, u64) adapter_result" where
  "elapsed_event_ns rt a b operation d =
     bindE (map_err (CudaTiming operation) (rt_elapsed_ms rt a b d)) (\<lambda>device_milliseconds.
     case device_milliseconds of
       NonFinite \<Rightarrow> Inl (InvalidRuntimeOutput ''CUDA event elapsed milliseconds''
         ''timing result must be finite and non-negative'')
     | Finite negative ms \<Rightarrow>
         if negative then Inl (InvalidRuntimeOutput ''CUDA event elapsed milliseconds''
           ''timing result must be finite and non-negative'')
         else if 18446744073709551616 \<le> ms * 1000000
         then Inl (AdapterArithmeticOverflow ''CUDA event elapsed nanoseconds'')
         else Inr (min (nat \<lfloor>ms * 1000000 + 1 / 2\<rfloor>) u64_max))"

definition record_end_and_measure ::
  "('d, 'x, 'c, 'ev) device_runtime \<Rightarrow> 'ev iteration_cuda_timer \<Rightarrow>
     (('d, 'ev) lane, ('x, 'c) iteration_adapter_error, iteration_timing) cmd" where
  "record_end_and_measure rt t =
     bindM (on_device (CudaTiming ''end record'') (rt_record rt (ct_end t))) (\<lambda>_.
     bindM (on_device (CudaTiming ''end synchronize'') (rt_event_synchronize rt (ct_end t))) (\<lambda>_.
     withM (\<lambda>ch.
     bindM (tryM (elapsed_event_ns rt (ct_start t) (ct_end t) ''execution elapsed'' (ln_device ch))) (\<lambda>gpu_execution_ns.
     bindM (if ct_has_previous_end t
            then tryM (elapsed_event_ns rt (ct_previous_end t) (ct_start t) ''idle elapsed'' (ln_device ch))
            else ret 0) (\<lambda>gpu_idle_gap_ns.
     bindM (modM (\<lambda>ch. ch\<lparr>ln_timer := Some (t\<lparr>ct_end := ct_previous_end t, ct_previous_end := ct_end t,
         ct_has_previous_end := True\<rparr>)\<rparr>)) (\<lambda>_.
     ret \<lparr>it_gpu_execution_ns = gpu_execution_ns, it_gpu_idle_gap_ns = gpu_idle_gap_ns\<rparr>))))))"

definition invalidate_timer :: "('d, 'ev) lane \<Rightarrow> ('d, 'ev) lane" where
  "invalidate_timer ch = ch\<lparr>ln_timer := map_option (\<lambda>t. t\<lparr>ct_has_previous_end := False\<rparr>) (ln_timer ch)\<rparr>"

text \<open>Creating and destroying the events of a timer, with \<open>create_event\<close> of the context and \<open>close\<close> of an
  event as parameters. A failed constructor closes what it created and drops the errors of closing.\<close>

definition timer_prepare ::
  "('d, 'c, 'ev) cmd \<Rightarrow> ('ev \<Rightarrow> ('d, 'c, unit) cmd) \<Rightarrow> ('d, 'c, 'ev iteration_cuda_timer) cmd" where
  "timer_prepare create_event close_event =
     bindM create_event (\<lambda>start_event.
     catchM create_event (\<lambda>r. case r of
       Inl error \<Rightarrow> catchM (close_event start_event) (\<lambda>_. throwM error)
     | Inr end_event \<Rightarrow>
         catchM create_event (\<lambda>r. case r of
           Inl error \<Rightarrow> catchM (close_event end_event) (\<lambda>_. catchM (close_event start_event) (\<lambda>_. throwM error))
         | Inr previous_end \<Rightarrow>
             ret \<lparr>ct_start = start_event, ct_end = end_event, ct_previous_end = previous_end,
                  ct_has_previous_end = False\<rparr>)))"

definition reset_window :: "'ev iteration_cuda_timer \<Rightarrow> 'ev iteration_cuda_timer" where
  "reset_window t = t\<lparr>ct_has_previous_end := False\<rparr>"

fun close_events :: "('ev \<Rightarrow> ('d, 'c, unit) cmd) \<Rightarrow> 'ev list \<Rightarrow> 'c option \<Rightarrow> ('d, 'c, unit) cmd" where
  "close_events close_event [] first_error = (case first_error of Some error \<Rightarrow> throwM error | None \<Rightarrow> ret ())"
| "close_events close_event (event # events) first_error =
     catchM (close_event event) (\<lambda>r. close_events close_event events
       (case first_error of Some error \<Rightarrow> Some error
        | None \<Rightarrow> (case r of Inl error \<Rightarrow> Some error | Inr _ \<Rightarrow> None)))"

definition timer_close :: "('ev \<Rightarrow> ('d, 'c, unit) cmd) \<Rightarrow> 'ev iteration_cuda_timer \<Rightarrow> ('d, 'c, unit) cmd" where
  "timer_close close_event t = close_events close_event [ct_start t, ct_end t, ct_previous_end t] None"

subsection \<open>Failures after the dispatch\<close>

definition classify_runtime_failure ::
  "('d, 'x, 'c, 'ev) device_runtime \<Rightarrow> iteration_id \<Rightarrow> ('x, 'c) iteration_adapter_error \<Rightarrow>
     ('d, 'ev, 'x, 'c, 'a) lane_cmd" where
  "classify_runtime_failure rt iid error =
     catchM (on_device id (rt_synchronize rt)) (\<lambda>r. case r of
       Inr _ \<Rightarrow> throwM \<lparr>ief_iteration_id = iid, ief_abort = Some DeviceQuiescedMutationUnknown, ief_error = error\<rparr>
     | Inl source \<Rightarrow> throwM \<lparr>ief_iteration_id = iid, ief_abort = None,
         ief_error = Synchronization (Some error) source\<rparr>)"

definition dispatched_failure ::
  "('d, 'x, 'c, 'ev) device_runtime \<Rightarrow> iteration_id \<Rightarrow> ('x, 'c) iteration_adapter_error \<Rightarrow>
     ('d, 'ev, 'x, 'c, 'a) lane_cmd" where
  "dispatched_failure rt iid error = bindM (modM invalidate_timer) (\<lambda>_. classify_runtime_failure rt iid error)"

subsection \<open>The steps of one iteration\<close>

definition prepare_greedy_token_workspace ::
  "workspace \<Rightarrow> usize \<Rightarrow> ('x, 'c, workspace) adapter_result" where
  "prepare_greedy_token_workspace w output_count =
     bindE (failE (ws_capacity w < output_count)
       (AdapterCapacityExceeded ''greedy token workspace'' output_count (ws_capacity w))) (\<lambda>_.
     Inr (w\<lparr>ws_tokens := replicate output_count 0\<rparr>))"

definition zeroed_adapter_vec :: "host_env \<Rightarrow> usize \<Rightarrow> string \<Rightarrow> ('x, 'c, nat list) adapter_result" where
  "zeroed_adapter_vec env len resource =
     bindE (reserve_adapter_vec env len resource) (\<lambda>values. Inr (values @ replicate len 0))"

abbreviation (input) empty_vec :: workspace where
  "empty_vec \<equiv> \<lparr>ws_capacity = 0, ws_tokens = []\<rparr>"

text \<open>The host buffers of the download: logit bytes and greedy tokens.\<close>

definition output_buffers ::
  "('d, 'x, 'c, 'ev) device_runtime \<Rightarrow> host_env \<Rightarrow> iteration_output_mode \<Rightarrow> iteration_id \<Rightarrow> usize \<Rightarrow>
     ('d, 'ev, 'x, 'c, nat list \<times> workspace) lane_cmd" where
  "output_buffers rt env mode iid output_count = withM (\<lambda>ch. case mode of
       LogitsMode \<Rightarrow>
         bindM (before_dispatch iid (map_err RuntimeFailure
           (rt_output_byte_len_for rt output_count (ln_device ch)))) (\<lambda>output_bytes.
         bindM (before_dispatch iid (zeroed_adapter_vec env output_bytes ''downloaded BF16 logits'')) (\<lambda>logits.
         ret (logits, empty_vec)))
     | GreedyTokensMode \<Rightarrow>
         bindM (before_dispatch iid (map_err RuntimeFailure
           (rt_greedy_result_byte_len_for rt output_count (ln_device ch)))) (\<lambda>_.
         case ln_workspace ch of
           Some w \<Rightarrow>
             bindM (before_dispatch iid (prepare_greedy_token_workspace w output_count)) (\<lambda>w.
             bindM (modM (\<lambda>ch. ch\<lparr>ln_workspace := Some w\<rparr>)) (\<lambda>_.
             ret ([], empty_vec)))
         | None \<Rightarrow>
             bindM (before_dispatch iid (reserve_adapter_vec env output_count ''downloaded greedy tokens''))
               (\<lambda>tokens :: u32 list.
             ret ([], \<lparr>ws_capacity = output_count, ws_tokens = replicate output_count 0\<rparr>))))"

definition start_timer ::
  "('d, 'x, 'c, 'ev) device_runtime \<Rightarrow> iteration_id \<Rightarrow> ('d, 'ev, 'x, 'c, unit) lane_cmd" where
  "start_timer rt iid = withM (\<lambda>ch. case ln_timer ch of
       None \<Rightarrow> ret ()
     | Some t \<Rightarrow> on_device (\<lambda>source. \<lparr>ief_iteration_id = iid, ief_abort = Some NotDispatched,
         ief_error = CudaTiming ''start record'' source\<rparr>) (rt_record rt (ct_start t)))"

definition dispatch ::
  "('d, 'x, 'c, 'ev) device_runtime \<Rightarrow> iteration_output_mode \<Rightarrow> iteration_id \<Rightarrow> prepared_llama_iteration \<Rightarrow>
     ('d, 'ev, 'x, 'c, unit) lane_cmd" where
  "dispatch rt mode iid prepared =
     bindM (catchM (on_device RuntimeFailure (case mode of
           LogitsMode \<Rightarrow> rt_execute rt (pli_rows prepared)
         | GreedyTokensMode \<Rightarrow> rt_execute_greedy rt (pli_rows prepared)))
       (\<lambda>r. case r of Inl error \<Rightarrow> dispatched_failure rt iid error | Inr _ \<Rightarrow> ret ())) (\<lambda>_.
     withM (\<lambda>ch. if rt_output_count rt (ln_device ch) \<noteq> pli_output_count prepared
       then dispatched_failure rt iid (InvalidRuntimeOutput ''output_count''
         ''executor output count differs from the immutable plan'')
       else ret ()))"

text \<open>A download writes the buffer it is given even when it fails; a workspace keeps what was written.\<close>

definition download ::
  "('d, 'x, 'c, 'ev) device_runtime \<Rightarrow> iteration_output_mode \<Rightarrow> iteration_id \<Rightarrow> nat list \<times> workspace \<Rightarrow>
     ('d, 'ev, 'x, 'c, nat list \<times> workspace) lane_cmd" where
  "download rt mode iid buffers = (\<lambda>ch. case buffers of (logits, tokens) \<Rightarrow>
     case mode of
       LogitsMode \<Rightarrow>
         (case rt_download_logits rt logits (ln_device ch) of (r, logits, d) \<Rightarrow>
            (case r of
               Inl source \<Rightarrow> dispatched_failure rt iid (RuntimeFailure source)
             | Inr _ \<Rightarrow> ret (logits, tokens)) (ch\<lparr>ln_device := d\<rparr>))
     | GreedyTokensMode \<Rightarrow>
         (case ln_workspace ch of
            Some w \<Rightarrow>
              (case rt_download_greedy_tokens rt (ws_tokens w) (ln_device ch) of (r, ids, d) \<Rightarrow>
                 (case r of
                    Inl source \<Rightarrow> dispatched_failure rt iid (RuntimeFailure source)
                  | Inr _ \<Rightarrow> ret (logits, tokens))
                   (ch\<lparr>ln_device := d, ln_workspace := Some (w\<lparr>ws_tokens := ids\<rparr>)\<rparr>))
          | None \<Rightarrow>
              (case rt_download_greedy_tokens rt (ws_tokens tokens) (ln_device ch) of (r, ids, d) \<Rightarrow>
                 (case r of
                    Inl source \<Rightarrow> dispatched_failure rt iid (RuntimeFailure source)
                  | Inr _ \<Rightarrow> ret (logits, tokens\<lparr>ws_tokens := ids\<rparr>)) (ch\<lparr>ln_device := d\<rparr>))))"

definition measure_iteration ::
  "('d, 'x, 'c, 'ev) device_runtime \<Rightarrow> iteration_id \<Rightarrow> ('d, 'ev, 'x, 'c, iteration_timing) lane_cmd" where
  "measure_iteration rt iid = withM (\<lambda>ch. case ln_timer ch of
       None \<Rightarrow> ret \<lparr>it_gpu_execution_ns = 0, it_gpu_idle_gap_ns = 0\<rparr>
     | Some t \<Rightarrow> catchM (record_end_and_measure rt t) (\<lambda>r. case r of
           Inr timing \<Rightarrow> ret timing
         | Inl error \<Rightarrow> dispatched_failure rt iid error))"

definition final_synchronize ::
  "('d, 'x, 'c, 'ev) device_runtime \<Rightarrow> iteration_id \<Rightarrow> ('d, 'ev, 'x, 'c, unit) lane_cmd" where
  "final_synchronize rt iid =
     catchM (on_device id (rt_synchronize rt)) (\<lambda>r. case r of
       Inr _ \<Rightarrow> ret ()
     | Inl source \<Rightarrow> bindM (modM invalidate_timer) (\<lambda>_.
         throwM \<lparr>ief_iteration_id = iid, ief_abort = None, ief_error = Synchronization None source\<rparr>))"

definition take_workspace :: "workspace \<Rightarrow> ('d, 'ev, 'x, 'c, workspace) lane_cmd" where
  "take_workspace tokens = withM (\<lambda>ch. case ln_workspace ch of
       None \<Rightarrow> ret tokens
     | Some w \<Rightarrow> bindM (modM (\<lambda>ch. ch\<lparr>ln_workspace := Some empty_vec\<rparr>)) (\<lambda>_. ret w))"

definition execute_llama_iteration_inner ::
  "('d, 'x, 'c, 'ev) device_runtime \<Rightarrow> host_env \<Rightarrow> iteration_plan \<Rightarrow> iteration_output_mode \<Rightarrow>
     ('d, 'ev, 'x, 'c, downloaded_llama_iteration \<times> iteration_timing) lane_cmd" where
  "execute_llama_iteration_inner rt env plan mode =
     (let iid = ip_iteration_id plan in
      bindM (before_dispatch iid (prepare_iteration env plan)) (\<lambda>prepared.
      withM (\<lambda>ch. let d = ln_device ch; vocabulary_size = rt_vocabulary_size rt d in
      bindM (before_dispatch iid (map_err RuntimeFailure (rt_maximum_position_count rt d))) (\<lambda>maximum_position_count.
      bindM (before_dispatch iid (validate_executor_bounds prepared (rt_metadata rt d) vocabulary_size
        maximum_position_count)) (\<lambda>_.
      bindM (output_buffers rt env mode iid (pli_output_count prepared)) (\<lambda>buffers.
      bindM (start_timer rt iid) (\<lambda>_.
      bindM (dispatch rt mode iid prepared) (\<lambda>_.
      bindM (download rt mode iid buffers) (\<lambda>(logits, tokens).
      bindM (measure_iteration rt iid) (\<lambda>timing.
      bindM (final_synchronize rt iid) (\<lambda>_.
      bindM (take_workspace tokens) (\<lambda>tokens.
      ret (\<lparr>dli_iteration_id = iid, dli_vocabulary_size = vocabulary_size,
            dli_output_count = pli_output_count prepared,
            dli_output = (case mode of LogitsMode \<Rightarrow> Logits logits | GreedyTokensMode \<Rightarrow> GreedyTokens tokens),
            dli_commit_outputs = pli_commit_outputs prepared\<rparr>, timing)))))))))))))"

subsection \<open>The entry points\<close>

text \<open>The six public functions: with and without timer, and with a workspace of the caller.\<close>

definition untimed ::
  "('d, 'x, 'c, 'ev) device_runtime \<Rightarrow> host_env \<Rightarrow> iteration_plan \<Rightarrow> iteration_output_mode \<Rightarrow>
     workspace option \<Rightarrow> 'd \<Rightarrow>
     (('x, 'c) iteration_execution_failure + downloaded_llama_iteration) \<times> workspace option \<times> 'd" where
  "untimed rt env plan mode w d =
     (case execute_llama_iteration_inner rt env plan mode
         \<lparr>ln_device = d, ln_timer = None, ln_workspace = w\<rparr> of
        (r, ch) \<Rightarrow> (map_sum id fst r, ln_workspace ch, ln_device ch))"

definition execute_llama_iteration ::
  "('d, 'x, 'c, 'ev) device_runtime \<Rightarrow> host_env \<Rightarrow> iteration_plan \<Rightarrow> 'd \<Rightarrow>
     (('x, 'c) iteration_execution_failure + downloaded_llama_iteration) \<times> 'd" where
  "execute_llama_iteration rt env plan d =
     (case untimed rt env plan LogitsMode None d of (r, _, d) \<Rightarrow> (r, d))"

definition execute_llama_iteration_greedy ::
  "('d, 'x, 'c, 'ev) device_runtime \<Rightarrow> host_env \<Rightarrow> iteration_plan \<Rightarrow> 'd \<Rightarrow>
     (('x, 'c) iteration_execution_failure + downloaded_llama_iteration) \<times> 'd" where
  "execute_llama_iteration_greedy rt env plan d =
     (case untimed rt env plan GreedyTokensMode None d of (r, _, d) \<Rightarrow> (r, d))"

definition execute_llama_iteration_greedy_with_workspace ::
  "('d, 'x, 'c, 'ev) device_runtime \<Rightarrow> host_env \<Rightarrow> iteration_plan \<Rightarrow> workspace \<Rightarrow> 'd \<Rightarrow>
     (('x, 'c) iteration_execution_failure + downloaded_llama_iteration) \<times> workspace option \<times> 'd" where
  "execute_llama_iteration_greedy_with_workspace rt env plan w d =
     untimed rt env plan GreedyTokensMode (Some w) d"

definition timed ::
  "('d, 'x, 'c, 'ev) device_runtime \<Rightarrow> host_env \<Rightarrow> iteration_plan \<Rightarrow> iteration_output_mode \<Rightarrow>
     'ev iteration_cuda_timer \<Rightarrow> workspace option \<Rightarrow> 'd \<Rightarrow>
     (('x, 'c) iteration_execution_failure + downloaded_llama_iteration \<times> iteration_timing) \<times> ('d, 'ev) lane" where
  "timed rt env plan mode t w d =
     execute_llama_iteration_inner rt env plan mode \<lparr>ln_device = d, ln_timer = Some t, ln_workspace = w\<rparr>"

definition execute_llama_iteration_timed ::
  "('d, 'x, 'c, 'ev) device_runtime \<Rightarrow> host_env \<Rightarrow> iteration_plan \<Rightarrow> 'ev iteration_cuda_timer \<Rightarrow> 'd \<Rightarrow>
     (('x, 'c) iteration_execution_failure + downloaded_llama_iteration \<times> iteration_timing) \<times> ('d, 'ev) lane" where
  "execute_llama_iteration_timed rt env plan t d = timed rt env plan LogitsMode t None d"

definition execute_llama_iteration_greedy_timed ::
  "('d, 'x, 'c, 'ev) device_runtime \<Rightarrow> host_env \<Rightarrow> iteration_plan \<Rightarrow> 'ev iteration_cuda_timer \<Rightarrow> 'd \<Rightarrow>
     (('x, 'c) iteration_execution_failure + downloaded_llama_iteration \<times> iteration_timing) \<times> ('d, 'ev) lane" where
  "execute_llama_iteration_greedy_timed rt env plan t d = timed rt env plan GreedyTokensMode t None d"

definition execute_llama_iteration_greedy_timed_with_workspace ::
  "('d, 'x, 'c, 'ev) device_runtime \<Rightarrow> host_env \<Rightarrow> iteration_plan \<Rightarrow> 'ev iteration_cuda_timer \<Rightarrow> workspace \<Rightarrow> 'd \<Rightarrow>
     (('x, 'c) iteration_execution_failure + downloaded_llama_iteration \<times> iteration_timing) \<times> ('d, 'ev) lane" where
  "execute_llama_iteration_greedy_timed_with_workspace rt env plan t w d =
     timed rt env plan GreedyTokensMode t (Some w) d"

subsection \<open>The retained graph\<close>

text \<open>
  The single-token path over a retained CUDA graph. The error type is an option: \<open>None\<close> is the panic of
  \<open>copy_from_slice\<close> on slices of different lengths. The byte count is an unchecked product, which wraps.
\<close>

record ('g, 'x) graph_runtime =
  gr_vocabulary_size :: "'g \<Rightarrow> usize"
  gr_metadata_config :: "'g \<Rightarrow> llama_batch_metadata_config"
  gr_maximum_position_count :: "'g \<Rightarrow> usize"
  gr_execute :: "llama_batch_row list \<Rightarrow> ('g, 'x, nat list) cmd"
  gr_greedy_token :: "('g, 'x, u32) cmd"

definition wrapping_mul :: "nat \<Rightarrow> nat \<Rightarrow> nat" where
  "wrapping_mul a b = (a * b) mod (u64_max + 1)"

definition graph_failure ::
  "iteration_id \<Rightarrow> execution_abort option \<Rightarrow> ('x, 'c) iteration_adapter_error \<Rightarrow>
     ('x, 'c) iteration_execution_failure option" where
  "graph_failure iid abort error =
     Some \<lparr>ief_iteration_id = iid, ief_abort = abort, ief_error = error\<rparr>"

definition on_graph :: "('e \<Rightarrow> 'f) \<Rightarrow> ('g, 'e, 'a) cmd \<Rightarrow> ('g \<times> workspace option, 'f, 'a) cmd" where
  "on_graph conv m = zoomM fst (\<lambda>g (_, w). (g, w)) conv m"

definition execute_llama_iteration_graph ::
  "('g, 'x) graph_runtime \<Rightarrow> host_env \<Rightarrow> iteration_plan \<Rightarrow>
     ('g \<times> workspace option, ('x, 'c) iteration_execution_failure option, downloaded_llama_iteration) cmd" where
  "execute_llama_iteration_graph gr env plan =
     (let iid = ip_iteration_id plan in
      bindM (tryM (map_err (graph_failure iid (Some NotDispatched)) (prepare_iteration env plan))) (\<lambda>prepared.
      withM (\<lambda>(g, w). let vocabulary_size = gr_vocabulary_size gr g; n = pli_output_count prepared in
      bindM (tryM (map_err (graph_failure iid (Some NotDispatched))
        (validate_executor_bounds prepared (gr_metadata_config gr g) vocabulary_size
          (gr_maximum_position_count gr g)))) (\<lambda>_.
      bindM (failIf (case w of None \<Rightarrow> False | Some w \<Rightarrow> ws_capacity w < n)
        (graph_failure iid (Some NotDispatched) (InvalidRuntimeOutput ''graph greedy workspace''
          ''insufficient preallocated capacity''))) (\<lambda>_.
      bindM (case w of
          None \<Rightarrow> tryM (map_err (graph_failure iid (Some NotDispatched))
            (zeroed_adapter_vec env (wrapping_mul (wrapping_mul n vocabulary_size) 2) ''graph logits''))
        | Some _ \<Rightarrow> ret []) (\<lambda>logits.
      bindM (on_graph (\<lambda>source. graph_failure iid None (RuntimeFailure source))
        (gr_execute gr (pli_rows prepared))) (\<lambda>downloaded.
      bindM (if logits = [] then ret logits
             else if length downloaded \<noteq> length logits then throwM None else ret downloaded) (\<lambda>logits.
      bindM (case w of
          None \<Rightarrow> ret (Logits logits)
        | Some w \<Rightarrow>
            bindM (modM (\<lambda>(g, _). (g, Some (w\<lparr>ws_tokens := []\<rparr>)))) (\<lambda>_.
            bindM (if n \<noteq> 0
                   then bindM (on_graph (\<lambda>source. graph_failure iid None (RuntimeFailure source))
                          (gr_greedy_token gr)) (\<lambda>token. ret [token])
                   else ret []) (\<lambda>tokens.
            bindM (modM (\<lambda>(g, _). (g, Some empty_vec))) (\<lambda>_.
            ret (GreedyTokens (w\<lparr>ws_tokens := tokens\<rparr>)))))) (\<lambda>output.
      ret \<lparr>dli_iteration_id = iid, dli_vocabulary_size = vocabulary_size, dli_output_count = n,
           dli_output = output, dli_commit_outputs = pli_commit_outputs prepared\<rparr>)))))))))"

end
