(* ===== verification/Execution_Props.thy ===== *)
theory Execution_Props
  imports Execution_Link Execution
begin

text \<open>
  What holds between the scheduler, the executor and the device: a planned iteration is adapted and packed
  without an error of its own, an executed one yields a result the scheduler accepts, and a failed one
  tells the scheduler the truth about the device.
\<close>

subsection \<open>Failures and the device\<close>

text \<open>What a failure after the dispatch says: the device was synchronized last, successfully or not, and the
  timer has forgotten the previous iteration.\<close>

definition settled_failure ::
  "('d, 'x, 'c, 'ev) device_runtime \<Rightarrow> iteration_id \<Rightarrow> ('x, 'c) iteration_execution_failure \<Rightarrow> ('d, 'ev) lane \<Rightarrow> bool" where
  "settled_failure rt iid f ch =
     (ief_iteration_id f = iid \<and> (case ln_timer ch of None \<Rightarrow> True | Some t \<Rightarrow> \<not> ct_has_previous_end t) \<and>
      (case ief_abort f of
         Some DeviceQuiescedMutationUnknown \<Rightarrow> \<exists>d. rt_synchronize rt d = (Inr (), ln_device ch)
       | Some NotDispatched \<Rightarrow> False
       | None \<Rightarrow> \<exists>d e. rt_synchronize rt d = (Inl e, ln_device ch)))"

text \<open>A failure before the dispatch left device and timer alone, but for a start event that was refused.\<close>

definition early_failure ::
  "('d, 'x, 'c, 'ev) device_runtime \<Rightarrow> iteration_id \<Rightarrow> ('d, 'ev) lane \<Rightarrow> ('x, 'c) iteration_execution_failure \<Rightarrow>
     ('d, 'ev) lane \<Rightarrow> bool" where
  "early_failure rt iid ch0 f ch =
     (ief_iteration_id f = iid \<and> ief_abort f = Some NotDispatched \<and> ln_timer ch = ln_timer ch0 \<and>
      (ln_device ch = ln_device ch0 \<or>
       (\<exists>t e. ln_timer ch0 = Some t \<and> rt_record rt (ct_start t) (ln_device ch0) = (Inl e, ln_device ch))))"

definition untouched :: "('d, 'ev) lane \<Rightarrow> ('d, 'ev) lane \<Rightarrow> bool" where
  "untouched ch0 ch = (ln_device ch = ln_device ch0 \<and> ln_timer ch = ln_timer ch0)"

lemma wp_on_device [wp_simps]:
  "wp (on_device conv m) Q E ch =
     wp m (\<lambda>x d. Q x (ch\<lparr>ln_device := d\<rparr>)) (\<lambda>e d. E (conv e) (ch\<lparr>ln_device := d\<rparr>)) (ln_device ch)"
  by (simp add: on_device_def wp_zoomM)

lemma wp_before_dispatch [wp_simps]:
  "wp (before_dispatch iid r) Q E ch =
     (case r of Inl error \<Rightarrow> E \<lparr>ief_iteration_id = iid, ief_abort = Some NotDispatched, ief_error = error\<rparr> ch
      | Inr x \<Rightarrow> Q x ch)"
  by (simp add: before_dispatch_def wp_simps split: sum.splits)

lemma early_failureI:
  "untouched ch0 ch \<Longrightarrow>
     early_failure rt iid ch0 \<lparr>ief_iteration_id = iid, ief_abort = Some NotDispatched, ief_error = error\<rparr> ch"
  by (simp add: untouched_def early_failure_def)

lemma wp_dispatched_failure:
  "wp (dispatched_failure rt iid error) Q (settled_failure rt iid) ch"
proof -
  obtain r d where "rt_synchronize rt (ln_device ch) = (r, d)" by (cases "rt_synchronize rt (ln_device ch)")
  then show ?thesis
    by (cases r; cases "ln_timer ch")
      (auto simp: dispatched_failure_def classify_runtime_failure_def wp_simps wp_def [of "rt_synchronize rt"]
        settled_failure_def invalidate_timer_def)
qed

lemma wp_output_buffers:
  "untouched ch0 ch \<Longrightarrow>
     wp (output_buffers rt env mode iid n) (\<lambda>_ ch. untouched ch0 ch) (early_failure rt iid ch0) ch"
  unfolding output_buffers_def wp_withM
  by (cases mode; cases "ln_workspace ch")
    (auto simp: wp_simps untouched_def intro: early_failureI split: sum.splits)

lemma wp_start_timer:
  "untouched ch0 ch \<Longrightarrow> wp (start_timer rt iid) (\<lambda>_ _. True) (early_failure rt iid ch0) ch"
  by (auto simp: start_timer_def wp_simps untouched_def early_failure_def wp_def [of "rt_record rt _"]
      split: option.splits prod.splits sum.splits)

lemma wp_trivial: "(\<And>e t. E e t) \<Longrightarrow> wp m (\<lambda>_ _. True) E s"
  by (auto simp: wp_def split: prod.splits sum.splits)

lemma wp_catch_failure:
  assumes "\<And>e ch. wp (g (Inl e)) Q (settled_failure rt iid) ch" and "\<And>x ch. wp (g (Inr x)) Q (settled_failure rt iid) ch"
  shows "wp (catchM m g) Q (settled_failure rt iid) ch"
  unfolding wp_catchM by (rule wp_weaken [of _ "\<lambda>_ _. True" "\<lambda>_ _. True"]) (use assms in \<open>auto intro: wp_trivial\<close>)

lemma wp_dispatch: "wp (dispatch rt mode iid prepared) (\<lambda>_ _. True) (settled_failure rt iid) ch"
  unfolding dispatch_def
proof (rule wp_callI [of _ "\<lambda>_ _. True" "settled_failure rt iid"])
  show "wp (catchM (on_device RuntimeFailure (case mode of LogitsMode \<Rightarrow> rt_execute rt (pli_rows prepared)
        | GreedyTokensMode \<Rightarrow> rt_execute_greedy rt (pli_rows prepared)))
      (\<lambda>r. case r of Inl error \<Rightarrow> dispatched_failure rt iid error | Inr _ \<Rightarrow> ret ()))
      (\<lambda>_ _. True) (settled_failure rt iid) ch"
    by (rule wp_catch_failure) (simp_all add: wp_dispatched_failure wp_ret)
qed (simp_all add: wp_withM wp_if wp_dispatched_failure wp_ret)

lemma dispatched_failureD: "dispatched_failure rt iid error ch = (Inl f, ch') \<Longrightarrow> settled_failure rt iid f ch'"
  by (rule wpD_Inl [OF wp_dispatched_failure])

lemma wp_download: "wp (download rt mode iid buffers) (\<lambda>_ _. True) (settled_failure rt iid) ch"
  unfolding wp_def
  by (cases mode; cases "ln_workspace ch"; cases buffers)
    (auto simp: download_def ret_def dest: dispatched_failureD split: prod.split sum.split)

lemma wp_measure: "wp (measure_iteration rt iid) (\<lambda>_ _. True) (settled_failure rt iid) ch"
  unfolding measure_iteration_def wp_withM
  by (cases "ln_timer ch")
    (auto intro: wp_catch_failure simp: wp_ret wp_dispatched_failure)

lemma wp_final_synchronize:
  "wp (final_synchronize rt iid) (\<lambda>_ ch. \<exists>d. rt_synchronize rt d = (Inr (), ln_device ch)) (settled_failure rt iid) ch"
proof -
  obtain r d where "rt_synchronize rt (ln_device ch) = (r, d)" by (cases "rt_synchronize rt (ln_device ch)")
  then show ?thesis
    by (cases r; cases "ln_timer ch")
      (auto simp: final_synchronize_def wp_simps wp_def [of "rt_synchronize rt"] settled_failure_def invalidate_timer_def)
qed

lemma wp_take_workspace: "wp (take_workspace tokens) (\<lambda>_ ch'. ln_device ch' = ln_device ch) E ch"
  by (auto simp: take_workspace_def wp_simps split: option.splits)

lemma wp_execute_inner:
  fixes rt :: "('d, 'x, 'c, 'ev) device_runtime" and plan :: iteration_plan
  defines "iid \<equiv> ip_iteration_id plan"
  shows "wp (execute_llama_iteration_inner rt env plan mode)
     (\<lambda>_ ch'. \<exists>d. rt_synchronize rt d = (Inr (), ln_device ch'))
     (\<lambda>f ch'. early_failure rt iid ch f ch' \<or> settled_failure rt iid f ch') ch"
proof -
  let ?Q = "\<lambda>_ ch'. \<exists>d. rt_synchronize rt d = (Inr (), ln_device ch')"
  let ?E = "\<lambda>f ch'. early_failure rt iid ch f ch' \<or> settled_failure rt iid f ch'"
  have same: "untouched ch ch" by (simp add: untouched_def)
  have before: "wp (bindM (before_dispatch iid r) f) ?Q ?E ch" if "\<And>x. wp (f x) ?Q ?E ch"
    for r :: "('x, 'c, 'a) adapter_result" and f :: "'a \<Rightarrow> ('d, 'ev, 'x, 'c, 'b) lane_cmd"
    using that by (simp add: wp_simps early_failureI [OF same] split: sum.splits)
  have late: "wp (bindM m f) ?Q ?E u" if "wp m Q' (settled_failure rt iid) u" "\<And>x u. wp (f x) ?Q ?E u"
    for m :: "('d, 'ev, 'x, 'c, 'a) lane_cmd" and Q' u and f :: "'a \<Rightarrow> ('d, 'ev, 'x, 'c, 'b) lane_cmd"
    by (rule wp_callI [OF that(1)]) (use that(2) in auto)
  show ?thesis
    unfolding execute_llama_iteration_inner_def Let_def iid_def [symmetric]
  proof (rule before, rule wp_withI, rule before, rule before, goal_cases)
    case (1 prepared maxpos _)
    show ?case
    proof (rule wp_callI [OF wp_output_buffers [OF same]], simp, rule wp_callI [OF wp_start_timer], assumption, simp,
        rule late [OF wp_dispatch], rule late [OF wp_download], goal_cases)
      case (1 _ _ _ _ _ _ pair u)
      obtain logits tokens where pair: "pair = (logits, tokens)" by (cases pair)
      show ?case unfolding pair prod.case
      proof (rule late [OF wp_measure], rule wp_callI [OF wp_final_synchronize], simp, goal_cases)
        case (1 timing u _ v)
        then show ?case by - (rule wp_callI [OF wp_take_workspace], simp, simp add: wp_ret)
      qed
    qed
  qed
qed

subsection \<open>What an execution returns\<close>

lemma prepare_output:
  "prepare_iteration env plan = (Inr prepared :: ('x, 'c, prepared_llama_iteration) adapter_result) \<Longrightarrow>
     pli_output_count prepared = length (ip_output_slots plan) \<and> pli_commit_outputs prepared = [] \<and>
     pli_iteration_id prepared = ip_iteration_id plan"
  by (auto simp: prepare_iteration_def reserve_adapter_vec_def split: if_splits)

lemma execute_inner_output:
  fixes rt :: "('a, 'b, 'd, 'e) device_runtime"
  assumes "execute_llama_iteration_inner rt env plan mode ch = (Inr (d, timing), ch')"
  shows "dli_iteration_id d = ip_iteration_id plan" and "dli_output_count d = length (ip_output_slots plan)"
    and "dli_commit_outputs d = []"
proof -
  have "\<exists>prepared. prepare_iteration env plan = (Inr prepared :: ('b, 'd, prepared_llama_iteration) adapter_result) \<and>
      dli_iteration_id d = ip_iteration_id plan \<and>
      dli_output_count d = pli_output_count prepared \<and> dli_commit_outputs d = pli_commit_outputs prepared"
    using assms by (auto simp: execute_llama_iteration_inner_def Let_def runs_Inr runs_case before_dispatch_def)
  then show "dli_iteration_id d = ip_iteration_id plan"
    "dli_output_count d = length (ip_output_slots plan)" "dli_commit_outputs d = []" by (auto dest: prepare_output)
qed

lemma map_zip_fst: "length xs = length ys \<Longrightarrow> map (\<lambda>(a, b). f a) (zip xs ys) = map f xs"
  by (induction xs ys rule: list_induct2) simp_all

lemma map_zip_snd: "length xs = length ys \<Longrightarrow> map (\<lambda>(a, b). g b) (zip xs ys) = map g ys"
  by (induction xs ys rule: list_induct2) simp_all

lemma into_result_outputs:
  assumes "into_result d samples timing = Inr result" and "dli_commit_outputs d = []"
  shows "map io_slot (ir_outputs result) = map OutputSlot [0..<dli_output_count d]"
    and "map io_token_id (ir_outputs result) = map sit_token_id samples"
    and "map io_stop (ir_outputs result) = map sit_stop samples"
    and "ir_iteration_id result = dli_iteration_id d" and "length samples = dli_output_count d"
    and "\<forall>sample\<in>set samples. sit_token_id sample < dli_vocabulary_size d"
proof -
  let ?n = "dli_output_count d"
  let ?out = "\<lambda>(raw_slot, sample). \<lparr>io_slot = OutputSlot raw_slot, io_token_id = sit_token_id sample, io_stop = sit_stop sample\<rparr>"
  have n: "length samples = ?n"
    and r: "ir_outputs result = map ?out (zip [0..<?n] samples)" "ir_iteration_id result = dli_iteration_id d"
    and all: "\<forall>(raw_slot, sample)\<in>set (zip [0..<?n] samples). \<not> beyond (sit_token_id sample) (dli_vocabulary_size d)"
    using assms by (auto simp: into_result_def Let_def forE_Inr from_dense_outputs_def)
  have len: "length [0..<?n] = length samples" using n by simp
  show "length samples = ?n" "ir_iteration_id result = dli_iteration_id d" by (fact n, fact r)
  show "map io_slot (ir_outputs result) = map OutputSlot [0..<?n]"
    using map_zip_fst [OF len, of OutputSlot] by (simp add: r comp_def split_def)
  show "map io_token_id (ir_outputs result) = map sit_token_id samples"
    using map_zip_snd [OF len, of sit_token_id] by (simp add: r comp_def split_def)
  show "map io_stop (ir_outputs result) = map sit_stop samples"
    using map_zip_snd [OF len, of sit_stop] by (simp add: r comp_def split_def)
  show "\<forall>sample\<in>set samples. sit_token_id sample < dli_vocabulary_size d"
  proof
    fix sample
    assume "sample \<in> set samples"
    then obtain i where "i < length samples" "sample = samples ! i" by (auto simp: in_set_conv_nth)
    then have "(i, sample) \<in> set (zip [0..<?n] samples)" using n by (force simp: set_zip)
    with all show "sit_token_id sample < dli_vocabulary_size d" by (auto simp: beyond_def split: option.splits)
  qed
qed

lemma expected_outputs_valid:
  assumes "expects (s_inflight t) plan" and "ir_iteration_id result = ip_iteration_id plan"
    and "map io_slot (ir_outputs result) = ip_output_slots plan"
  shows "validate_iteration_result t result = Inr ()"
proof -
  obtain ip where ip: "s_inflight t = Some ip" "fp_iteration_id ip = ip_iteration_id plan"
    "mset (fp_expected_output_slots ip) = mset (map io_slot (ir_outputs result))"
    using assms by (auto simp: expects_def)
  have "length (fp_expected_output_slots ip) = length (ir_outputs result)"
    using arg_cong [OF ip(3), of size] by simp
  moreover have "set (fp_expected_output_slots ip) = io_slot ` set (ir_outputs result)"
    using mset_eq_setD [OF ip(3)] by simp
  ultimately show ?thesis
    using ip assms(2) by (auto simp: validate_iteration_result_def forE_Inr list_ex_iff)
qed

lemma scheduled_slots: "scheduled plan \<Longrightarrow> ip_output_slots plan = map OutputSlot [0..<length (ip_output_slots plan)]"
proof -
  assume "scheduled plan"
  then obtain env v iid pre dec tables where "plan_from_version env v iid pre dec tables = Inr plan"
    by (auto simp: scheduled_def scheduled_plan_def)
  from plan_facts [OF this] show ?thesis by simp
qed

subsection \<open>An iteration on a device that keeps a log\<close>

definition iteration_config :: llama_batch_metadata_config where
  "iteration_config = \<lparr>lmc_max_rows = 2, lmc_max_input_tokens = 32, lmc_max_block_entries = 8,
     lmc_max_output_slots = 2, lmc_physical_block_count = 8\<rparr>"

definition iteration_packer :: prepared_llama_batch_metadata where
  "iteration_packer = projr (batch_metadata_prepare demo_env iteration_config)"

definition log_device :: "(string list, string, string, string) device_runtime" where
  "log_device =
     \<lparr>rt_vocabulary_size = \<lambda>_. 100, rt_metadata = \<lambda>_. iteration_config, rt_maximum_position_count = \<lambda>_. Inr 64,
      rt_output_byte_len_for = \<lambda>n _. Inr (n * 200), rt_greedy_result_byte_len_for = \<lambda>n _. Inr (n * 4),
      rt_output_count = \<lambda>_. 1,
      rt_execute = \<lambda>_ d. (Inr (), ''execute'' # d), rt_execute_greedy = \<lambda>_ d. (Inr (), ''execute'' # d),
      rt_download_logits = \<lambda>bytes d. (Inr (), bytes, ''download'' # d),
      rt_download_greedy_tokens = \<lambda>_ d. (Inr (), [9], ''download'' # d),
      rt_synchronize = \<lambda>d. (Inr (), ''synchronize'' # d), rt_record = \<lambda>ev d. (Inr (), (''record '' @ ev) # d),
      rt_event_synchronize = \<lambda>ev d. (Inr (), (''wait '' @ ev) # d), rt_elapsed_ms = \<lambda>_ _ _. Inr (Finite False 2)\<rparr>"

definition demo_timer :: "string iteration_cuda_timer" where
  "demo_timer = \<lparr>ct_start = ''a'', ct_end = ''b'', ct_previous_end = ''c'', ct_has_previous_end = True\<rparr>"

definition demo_lane :: "(string list, string) lane" where
  "demo_lane = \<lparr>ln_device = [], ln_timer = Some demo_timer, ln_workspace = None\<rparr>"

definition demo_planned :: iteration_plan where
  "demo_planned = the (po_plan (projr (fst (plan_iteration demo_env 11 run_submitted))))"

definition demo_download :: "downloaded_llama_iteration \<times> iteration_timing" where
  "demo_download = projr (fst (execute_llama_iteration_inner log_device demo_env demo_planned GreedyTokensMode demo_lane))"

lemma demo_planned_run:
  "\<exists>out. plan_iteration demo_env 11 run_submitted = (Inr out, run_planned) \<and> po_plan out = Some demo_planned"
proof -
  have "case fst (plan_iteration demo_env 11 run_submitted) of Inl _ \<Rightarrow> False | Inr out \<Rightarrow> po_plan out \<noteq> None"
    by code_simp
  then obtain out where "fst (plan_iteration demo_env 11 run_submitted) = Inr out" "po_plan out \<noteq> None"
    by (auto split: sum.splits)
  then show ?thesis by (intro exI [of _ out]) (auto simp: demo_planned_def run_planned_def prod_eq_iff)
qed

lemma iteration_packer_ready:
  "reachable batch_init batch_step iteration_packer" "pbm_config iteration_packer = iteration_config"
  "pbm_validation_epoch iteration_packer = 0"
proof -
  have "metadata_config_new 2 32 8 2 8 = Inr iteration_config"
    by (simp add: metadata_config_new_exact iteration_config_def config_fits_def)
  moreover have eq: "batch_metadata_prepare demo_env iteration_config = Inr iteration_packer"
    by (simp add: iteration_packer_def batch_metadata_prepare_def reserve_batch_vec_def zeroed_batch_vec_def
        iteration_config_def demo_env_def ok_or_def checked_add_def)
  ultimately have "batch_init iteration_packer" unfolding batch_init_def by blast
  then show "reachable batch_init batch_step iteration_packer" by (rule reachable.start)
  show "pbm_config iteration_packer = iteration_config" "pbm_validation_epoch iteration_packer = 0"
    by (simp_all add: iteration_packer_def batch_metadata_prepare_def reserve_batch_vec_def zeroed_batch_vec_def
        iteration_config_def demo_env_def ok_or_def checked_add_def)
qed

lemma demo_download_run:
  "fst (execute_llama_iteration_inner log_device demo_env demo_planned GreedyTokensMode demo_lane) = Inr demo_download"
proof -
  have "\<not> isl (fst (execute_llama_iteration_inner log_device demo_env demo_planned GreedyTokensMode demo_lane))"
    by code_simp
  then show ?thesis by (simp add: demo_download_def)
qed

subsection \<open>The properties\<close>

text \<open>The plan of \<open>plan_iteration\<close> is adapted to runtime rows without an error of the adapter's own: only a
  failed host allocation stops it. The rows are the work items in order, prompts first, each with its block
  table, and the totals are exact.\<close>

theorem planned_iteration_prepares:
  assumes "plan_iteration env now_ns s = (Inr out, t)" and "po_plan out = Some plan"
  shows "prepare_iteration env' plan =
    (if \<not> he_alloc env' ''runtime rows'' (batch_size plan)
     then Inl (AdapterHostAllocation ''runtime rows'' (batch_size plan))
     else if \<not> he_alloc env' ''commit outputs'' (length (ip_output_slots plan))
     then Inl (AdapterHostAllocation ''commit outputs'' (length (ip_output_slots plan)))
     else Inr (prepared_of plan))"
  using plan_iteration_scheduled [OF assms] unfolding scheduled_def by (elim conjE exE) (rule prepare_scheduled)

theorem planned_iteration_prepares_witness:
  "prepare_iteration demo_env demo_planned = (Inr (prepared_of demo_planned) :: (unit, unit, _) adapter_result)"
  using demo_planned_run planned_iteration_prepares [of demo_env 11 run_submitted _ run_planned demo_planned demo_env]
  by (auto simp: demo_env_def)

text \<open>C7. The contract between scheduler and runtime: when the rows of a planned iteration pass the bounds check of
  the executor, the batch packer behind it, whatever it packed before, accepts them in either order; no
  check of the packer repeats or contradicts one of the scheduler.\<close>

theorem planned_iteration_packs:
  assumes "plan_iteration env now_ns s = (Inr out, t)" and "po_plan out = Some plan"
    and "prepare_iteration env' plan = (Inr prepared :: ('x, 'c, prepared_llama_iteration) adapter_result)"
    and "reachable batch_init batch_step m" and "pbm_validation_epoch m + 1 < 2 ^ 63"
    and "validate_executor_bounds prepared (pbm_config m) vocabulary_size maximum_position_count =
      (Inr () :: ('x, 'c, unit) adapter_result)"
  shows "fst (pack_ordered (pli_rows prepared) d m) = Inr (packed_view (ordered_rows d (pli_rows prepared)))"
proof -
  obtain pre dec tables where plan: "scheduled_plan pre dec tables plan"
    using plan_iteration_scheduled [OF assms(1,2)] by (auto simp: scheduled_def)
  have prepared: "prepared = prepared_of plan"
    using assms(3) unfolding prepare_scheduled [OF plan] by (simp split: if_splits)
  then have rows: "pli_rows prepared = map (row_of plan) (plan_items plan)" by (simp add: prepared_of_def)
  have "batch_inv m" by (rule packer.reachable_inv [OF assms(4)])
  then have m: "metadata_ok (pbm_config m) (pbm_validation_epoch m) m" "config_fits (pbm_config m)"
    by (simp_all add: batch_inv_def)
  note ok = scheduled_rows_ok [OF plan assms(6) [unfolded prepared]]
  from pack_accepts(1) [OF m assms(5) ok(2,1)] show ?thesis unfolding rows .
qed

theorem planned_iteration_packs_witness:
  "\<exists>p. fst (pack (pli_rows (prepared_of demo_planned)) iteration_packer) = Inr p \<and> pkd_input_token_ids p = replicate 17 7"
proof -
  have b: "validate_executor_bounds (prepared_of demo_planned) iteration_config 100 64 = (Inr () :: (unit, unit, unit) adapter_result)"
    by code_simp
  have p: "prepare_iteration demo_env demo_planned = (Inr (prepared_of demo_planned) :: (unit, unit, _) adapter_result)"
    by code_simp
  have "fst (pack_ordered (pli_rows (prepared_of demo_planned)) False iteration_packer) =
      Inr (packed_view (ordered_rows False (pli_rows (prepared_of demo_planned))))"
    using demo_planned_run planned_iteration_packs [OF _ _ p iteration_packer_ready(1), where vocabulary_size = 100
      and maximum_position_count = 64] b by (auto simp: iteration_packer_ready(2,3))
  moreover have "pkd_input_token_ids (packed_view (ordered_rows False (pli_rows (prepared_of demo_planned)))) = replicate 17 7"
    by code_simp
  ultimately show ?thesis by (simp add: pack_def)
qed

text \<open>C9. The way back: the result built from the output of an executed plan, with one sample per output row, is
  one that \<open>validate_iteration_result\<close> accepts for the iteration in flight; its slots are the planned slots
  in order, and its tokens and stop flags are the samples.\<close>

theorem executed_plan_commits:
  assumes "plan_iteration env now_ns s = (Inr out, t)" and "po_plan out = Some plan"
    and "execute_llama_iteration_inner rt env' plan mode ch = (Inr (d, timing), ch')"
    and "into_result d samples timing' = Inr result"
  shows "validate_iteration_result t result = Inr () \<and> map io_slot (ir_outputs result) = ip_output_slots plan \<and>
    map io_token_id (ir_outputs result) = map sit_token_id samples \<and>
    map io_stop (ir_outputs result) = map sit_stop samples"
proof -
  note plan = plan_iteration_scheduled [OF assms(1,2)] and d = execute_inner_output [OF assms(3)]
  note r = into_result_outputs [OF assms(4) d(3)]
  have slots: "map io_slot (ir_outputs result) = ip_output_slots plan"
    using r(1) scheduled_slots [of plan] plan d(2) by simp
  with expected_outputs_valid [of t plan result] plan r d(1) show ?thesis by simp
qed

definition demo_into_result ::
  "(downloaded_llama_iteration \<times> (string, string) iteration_adapter_error) + iteration_result" where
  "demo_into_result = into_result (fst demo_download) [\<lparr>sit_token_id = 9, sit_stop = False\<rparr>]
     \<lparr>it_gpu_execution_ns = 3, it_gpu_idle_gap_ns = 1\<rparr>"

theorem executed_plan_commits_witness:
  "\<exists>result. demo_into_result = Inr result \<and> validate_iteration_result run_planned result = Inr () \<and>
     map io_token_id (ir_outputs result) = [9]"
proof -
  have "\<not> isl demo_into_result" by code_simp
  then obtain result where r: "demo_into_result = Inr result" by (metis sum.collapse(2))
  obtain ch' where run: "execute_llama_iteration_inner log_device demo_env demo_planned GreedyTokensMode demo_lane =
      (Inr (fst demo_download, snd demo_download), ch')"
    using demo_download_run by (metis prod.collapse)
  from demo_planned_run obtain out where out: "plan_iteration demo_env 11 run_submitted = (Inr out, run_planned)"
    "po_plan out = Some demo_planned" by blast
  have "validate_iteration_result run_planned result = Inr () \<and> map io_token_id (ir_outputs result) = [9]"
    using executed_plan_commits [OF out run r [unfolded demo_into_result_def]] by simp
  with r show ?thesis by (intro exI [of _ result] conjI) auto
qed

text \<open>C8. What a failed execution tells the scheduler is true of the device. \<open>NotDispatched\<close>: nothing was called on
  the device but, possibly, the start event of the timer, which was refused. \<open>DeviceQuiescedMutationUnknown\<close>:
  the last call was a synchronization that succeeded. No disposition at all: it failed. In the last two cases
  the timer has forgotten the previous iteration. A successful execution ends in a successful synchronization,
  and every failure carries the identifier of the plan.\<close>

theorem failure_disposition_true:
  "case execute_llama_iteration_inner rt env plan mode ch of
     (Inr _, ch') \<Rightarrow> \<exists>d. rt_synchronize rt d = (Inr (), ln_device ch')
   | (Inl f, ch') \<Rightarrow> ief_iteration_id f = ip_iteration_id plan \<and>
       (case ief_abort f of
          Some NotDispatched \<Rightarrow> ln_timer ch' = ln_timer ch \<and> (ln_device ch' = ln_device ch \<or>
            (\<exists>t e. ln_timer ch = Some t \<and> rt_record rt (ct_start t) (ln_device ch) = (Inl e, ln_device ch')))
        | Some DeviceQuiescedMutationUnknown \<Rightarrow>
            (case ln_timer ch' of None \<Rightarrow> True | Some t \<Rightarrow> \<not> ct_has_previous_end t) \<and>
            (\<exists>d. rt_synchronize rt d = (Inr (), ln_device ch'))
        | None \<Rightarrow> (case ln_timer ch' of None \<Rightarrow> True | Some t \<Rightarrow> \<not> ct_has_previous_end t) \<and>
            (\<exists>d e. rt_synchronize rt d = (Inl e, ln_device ch')))"
  using wp_execute_inner [of rt env plan mode ch]
  by (auto simp: wp_def early_failure_def settled_failure_def split: prod.splits sum.splits option.splits execution_abort.splits)

end
