(* ===== verification/Tensor_Layout.thy ===== *)
theory Tensor_Layout
  imports Riley_Returns "HOL-Library.Product_Lexorder"
begin

text \<open>
  The crate \<open>riley-tensor\<close>: element types, shapes and strides, checked strided layouts with their zero-copy
  transformations, and the immutable and exclusive views of a backing store. A store is a value of any type
  \<open>'b\<close> with its length in bytes as a parameter (the trait \<open>TensorStorage\<close>); a borrow of it is the value
  itself.
\<close>

subsection \<open>\<open>dtype.rs\<close>, \<open>error.rs\<close>\<close>

datatype dtype = U8 | I8 | I16 | I32 | I64 | F16 | BF16 | F32 | F64

fun size_bytes :: "dtype \<Rightarrow> usize" where
  "size_bytes U8 = 1" | "size_bytes I8 = 1"
| "size_bytes I16 = 2" | "size_bytes F16 = 2" | "size_bytes BF16 = 2"
| "size_bytes I32 = 4" | "size_bytes F32 = 4"
| "size_bytes I64 = 8" | "size_bytes F64 = 8"

datatype tensor_error =
    ElementCountOverflow
  | ByteLengthOverflow usize usize
  | RankMismatch usize usize
  | LayoutSpanOverflow
  | AxisOutOfBounds usize usize
  | SliceOutOfBounds usize usize usize usize
  | ElementCountMismatch usize usize
  | NonContiguousReshape
  | NonContiguousLayout
  | MutableLayoutMayAlias
  | BufferTooSmall u64 u64
  | DTypeMismatch dtype dtype

type_synonym 'a tensor_result = "tensor_error + 'a"

subsection \<open>\<open>shape.rs\<close>\<close>

record tensor_shape =
  sh_dimensions :: "usize list"
  sh_element_count :: usize

fun checked_product :: "usize list \<Rightarrow> usize \<Rightarrow> usize option" where
  "checked_product [] n = Some n"
| "checked_product (dimension # rest) n = Option.bind (checked_mul n dimension) (checked_product rest)"

definition shape_new :: "usize list \<Rightarrow> tensor_shape tensor_result" where
  "shape_new dimensions =
     bindE (if 0 \<in> set dimensions then Inr 0 else ok_or (checked_product dimensions 1) ElementCountOverflow)
       (\<lambda>element_count. Inr \<lparr>sh_dimensions = dimensions, sh_element_count = element_count\<rparr>)"

definition shape_scalar :: tensor_shape where
  "shape_scalar = \<lparr>sh_dimensions = [], sh_element_count = 1\<rparr>"

definition shape_rank :: "tensor_shape \<Rightarrow> usize" where
  "shape_rank s = length (sh_dimensions s)"

definition shape_is_empty :: "tensor_shape \<Rightarrow> bool" where
  "shape_is_empty s = (sh_element_count s = 0)"

record tensor_strides =
  st_elements :: "usize list"

text \<open>The loop of \<open>Strides::contiguous\<close> runs over the extents from the innermost axis outwards; every
  stride lands in front of the ones found so far.\<close>

fun contiguous_loop :: "usize list \<Rightarrow> usize \<Rightarrow> usize list \<Rightarrow> usize list tensor_result" where
  "contiguous_loop [] stride elements = Inr elements"
| "contiguous_loop (extent # rest) stride elements =
     bindE (ok_or (checked_mul stride extent) ElementCountOverflow) (\<lambda>stride'.
     contiguous_loop rest stride' (stride # elements))"

definition strides_contiguous :: "tensor_shape \<Rightarrow> tensor_strides tensor_result" where
  "strides_contiguous s =
     (if shape_is_empty s then Inr \<lparr>st_elements = replicate (shape_rank s) 0\<rparr>
      else bindE (contiguous_loop (rev (sh_dimensions s)) 1 []) (\<lambda>elements. Inr \<lparr>st_elements = elements\<rparr>))"

definition strides_rank :: "tensor_strides \<Rightarrow> usize" where
  "strides_rank s = length (st_elements s)"

subsection \<open>\<open>layout.rs\<close>\<close>

record tensor_layout =
  ly_shape :: tensor_shape
  ly_strides :: tensor_strides
  ly_offset_elements :: usize
  ly_span_end_elements :: usize

fun span_fold :: "(usize \<times> usize) list \<Rightarrow> usize \<Rightarrow> usize tensor_result" where
  "span_fold [] offset = Inr offset"
| "span_fold ((extent, stride) # rest) offset =
     bindE (ok_or (checked_mul (extent - 1) stride) LayoutSpanOverflow) (\<lambda>axis_offset.
     bindE (ok_or (checked_add offset axis_offset) LayoutSpanOverflow) (span_fold rest))"

definition storage_span_end :: "tensor_shape \<Rightarrow> tensor_strides \<Rightarrow> usize \<Rightarrow> usize tensor_result" where
  "storage_span_end s strides offset_elements =
     (if shape_is_empty s then Inr offset_elements
      else bindE (span_fold (zip (sh_dimensions s) (st_elements strides)) offset_elements) (\<lambda>last_offset.
        ok_or (checked_add last_offset 1) LayoutSpanOverflow))"

definition layout_new :: "tensor_shape \<Rightarrow> tensor_strides \<Rightarrow> usize \<Rightarrow> tensor_layout tensor_result" where
  "layout_new s strides offset_elements =
     bindE (failE (shape_rank s \<noteq> strides_rank strides) (RankMismatch (shape_rank s) (strides_rank strides))) (\<lambda>_.
     bindE (storage_span_end s strides offset_elements) (\<lambda>span_end_elements.
     Inr \<lparr>ly_shape = s, ly_strides = strides, ly_offset_elements = offset_elements,
          ly_span_end_elements = span_end_elements\<rparr>))"

definition layout_contiguous :: "tensor_shape \<Rightarrow> tensor_layout tensor_result" where
  "layout_contiguous s = bindE (strides_contiguous s) (\<lambda>strides. layout_new s strides 0)"

definition logical_byte_len :: "tensor_layout \<Rightarrow> dtype \<Rightarrow> u64 tensor_result" where
  "logical_byte_len l dt =
     (let n = sh_element_count (ly_shape l); err = ByteLengthOverflow n (size_bytes dt) in
      bindE (ok_or (u64_try_from n) err) (\<lambda>elements.
      bindE (ok_or (u64_try_from (size_bytes dt)) err) (\<lambda>element_size.
      ok_or (checked_mul elements element_size) err)))"

definition storage_byte_range :: "tensor_layout \<Rightarrow> dtype \<Rightarrow> (u64 \<times> u64) tensor_result" where
  "storage_byte_range l dt =
     (let a = ly_offset_elements l; b = ly_span_end_elements l; w = size_bytes dt in
      bindE (ok_or (u64_try_from w) (ByteLengthOverflow a w)) (\<lambda>element_size.
      bindE (ok_or (u64_try_from a) (ByteLengthOverflow a w)) (\<lambda>offset_elements.
      bindE (ok_or (u64_try_from b) (ByteLengthOverflow b w)) (\<lambda>span_end_elements.
      bindE (ok_or (checked_mul offset_elements element_size) (ByteLengthOverflow a w)) (\<lambda>range_start.
      bindE (ok_or (checked_mul span_end_elements element_size) (ByteLengthOverflow b w)) (\<lambda>range_end.
      Inr (range_start, range_end)))))))"

text \<open>The loop of \<open>is_contiguous\<close>, over the reversed pairs of extent and stride.\<close>

fun contiguous_from :: "(usize \<times> usize) list \<Rightarrow> usize \<Rightarrow> bool" where
  "contiguous_from [] expected = True"
| "contiguous_from ((extent, stride) # rest) expected =
     (if 1 < extent \<and> stride \<noteq> expected then False
      else (case checked_mul expected extent of Some v \<Rightarrow> contiguous_from rest v | None \<Rightarrow> False))"

definition is_contiguous :: "tensor_layout \<Rightarrow> bool" where
  "is_contiguous l =
     (shape_is_empty (ly_shape l) \<or>
      contiguous_from (rev (zip (sh_dimensions (ly_shape l)) (st_elements (ly_strides l)))) 1)"

text \<open>The loop of \<open>is_non_overlapping\<close>, over the sorted pairs of stride and extent.\<close>

fun spaced_from :: "(usize \<times> usize) list \<Rightarrow> usize \<Rightarrow> bool" where
  "spaced_from [] required_stride = True"
| "spaced_from ((stride, extent) # rest) required_stride =
     (if stride < required_stride then False
      else (case checked_mul stride extent of Some v \<Rightarrow> spaced_from rest v | None \<Rightarrow> False))"

definition is_non_overlapping :: "tensor_layout \<Rightarrow> bool" where
  "is_non_overlapping l =
     (sh_element_count (ly_shape l) \<le> 1 \<or>
      spaced_from (sort (map (\<lambda>(extent, stride). (stride, extent)) (filter (\<lambda>(extent, _). 1 < extent)
        (zip (sh_dimensions (ly_shape l)) (st_elements (ly_strides l)))))) 1)"

definition layout_require_contiguous :: "tensor_layout \<Rightarrow> unit tensor_result" where
  "layout_require_contiguous l = failE (\<not> is_contiguous l) NonContiguousLayout"

definition layout_slice :: "tensor_layout \<Rightarrow> usize \<Rightarrow> usize \<times> usize \<Rightarrow> tensor_layout tensor_result" where
  "layout_slice l axis bounds = (case bounds of (range_start, range_end) \<Rightarrow>
     bindE (ok_or (get (sh_dimensions (ly_shape l)) axis) (AxisOutOfBounds axis (shape_rank (ly_shape l)))) (\<lambda>extent.
     bindE (failE (range_end < range_start \<or> extent < range_end)
       (SliceOutOfBounds axis range_start range_end extent)) (\<lambda>_.
     bindE (ok_or (checked_mul range_start (st_elements (ly_strides l) ! axis)) LayoutSpanOverflow) (\<lambda>offset_delta.
     bindE (ok_or (checked_add (ly_offset_elements l) offset_delta) LayoutSpanOverflow) (\<lambda>offset_elements.
     bindE (shape_new ((sh_dimensions (ly_shape l))[axis := range_end - range_start])) (\<lambda>s.
     layout_new s (ly_strides l) offset_elements))))))"

definition layout_reshape :: "tensor_layout \<Rightarrow> tensor_shape \<Rightarrow> tensor_layout tensor_result" where
  "layout_reshape l requested =
     bindE (failE (sh_element_count requested \<noteq> sh_element_count (ly_shape l))
       (ElementCountMismatch (sh_element_count (ly_shape l)) (sh_element_count requested))) (\<lambda>_.
     if requested = ly_shape l then Inr l
     else
       bindE (failE (\<not> is_contiguous l) NonContiguousReshape) (\<lambda>_.
       bindE (strides_contiguous requested) (\<lambda>strides.
       layout_new requested strides (ly_offset_elements l))))"

definition list_swap :: "nat \<Rightarrow> nat \<Rightarrow> 'a list \<Rightarrow> 'a list" where
  "list_swap i j xs = xs[i := xs ! j, j := xs ! i]"

definition layout_transpose :: "tensor_layout \<Rightarrow> usize \<Rightarrow> usize \<Rightarrow> tensor_layout tensor_result" where
  "layout_transpose l first_axis second_axis =
     (let rank = shape_rank (ly_shape l) in
      bindE (failE (rank \<le> first_axis) (AxisOutOfBounds first_axis rank)) (\<lambda>_.
      bindE (failE (rank \<le> second_axis) (AxisOutOfBounds second_axis rank)) (\<lambda>_.
      bindE (shape_new (list_swap first_axis second_axis (sh_dimensions (ly_shape l)))) (\<lambda>s.
      layout_new s \<lparr>st_elements = list_swap first_axis second_axis (st_elements (ly_strides l))\<rparr>
        (ly_offset_elements l)))))"

subsection \<open>\<open>view.rs\<close>, \<open>workspace.rs\<close>\<close>

record 'b tensor_view =
  tv_storage :: 'b
  tv_dtype :: dtype
  tv_layout :: tensor_layout

definition validate_storage :: "('b \<Rightarrow> u64) \<Rightarrow> 'b \<Rightarrow> dtype \<Rightarrow> tensor_layout \<Rightarrow> unit tensor_result" where
  "validate_storage byte_len storage dt l =
     bindE (storage_byte_range l dt) (\<lambda>(_, required).
     bindE (failE (byte_len storage < required) (BufferTooSmall required (byte_len storage))) (\<lambda>_.
     bindE (logical_byte_len l dt) (\<lambda>_. Inr ())))"

definition view_new :: "('b \<Rightarrow> u64) \<Rightarrow> 'b \<Rightarrow> dtype \<Rightarrow> tensor_layout \<Rightarrow> 'b tensor_view tensor_result" where
  "view_new byte_len storage dt l =
     bindE (validate_storage byte_len storage dt l) (\<lambda>_.
     Inr \<lparr>tv_storage = storage, tv_dtype = dt, tv_layout = l\<rparr>)"

definition view_from_contiguous ::
  "('b \<Rightarrow> u64) \<Rightarrow> 'b \<Rightarrow> dtype \<Rightarrow> tensor_shape \<Rightarrow> 'b tensor_view tensor_result" where
  "view_from_contiguous byte_len storage dt s = bindE (layout_contiguous s) (view_new byte_len storage dt)"

definition view_slice ::
  "('b \<Rightarrow> u64) \<Rightarrow> 'b tensor_view \<Rightarrow> usize \<Rightarrow> usize \<times> usize \<Rightarrow> 'b tensor_view tensor_result" where
  "view_slice byte_len v axis bounds =
     bindE (layout_slice (tv_layout v) axis bounds) (view_new byte_len (tv_storage v) (tv_dtype v))"

definition view_reshape ::
  "('b \<Rightarrow> u64) \<Rightarrow> 'b tensor_view \<Rightarrow> tensor_shape \<Rightarrow> 'b tensor_view tensor_result" where
  "view_reshape byte_len v requested =
     bindE (layout_reshape (tv_layout v) requested) (view_new byte_len (tv_storage v) (tv_dtype v))"

definition view_transpose ::
  "('b \<Rightarrow> u64) \<Rightarrow> 'b tensor_view \<Rightarrow> usize \<Rightarrow> usize \<Rightarrow> 'b tensor_view tensor_result" where
  "view_transpose byte_len v first_axis second_axis =
     bindE (layout_transpose (tv_layout v) first_axis second_axis) (view_new byte_len (tv_storage v) (tv_dtype v))"

definition require_dtype :: "dtype \<Rightarrow> dtype \<Rightarrow> unit tensor_result" where
  "require_dtype actual expected = failE (actual \<noteq> expected) (DTypeMismatch expected actual)"

text \<open>The exclusive view: the same fields, one more check. Its transformations consume the handle.\<close>

definition view_mut_new :: "('b \<Rightarrow> u64) \<Rightarrow> 'b \<Rightarrow> dtype \<Rightarrow> tensor_layout \<Rightarrow> 'b tensor_view tensor_result" where
  "view_mut_new byte_len storage dt l =
     bindE (validate_storage byte_len storage dt l) (\<lambda>_.
     bindE (failE (\<not> is_non_overlapping l) MutableLayoutMayAlias) (\<lambda>_.
     Inr \<lparr>tv_storage = storage, tv_dtype = dt, tv_layout = l\<rparr>))"

definition view_mut_from_contiguous ::
  "('b \<Rightarrow> u64) \<Rightarrow> 'b \<Rightarrow> dtype \<Rightarrow> tensor_shape \<Rightarrow> 'b tensor_view tensor_result" where
  "view_mut_from_contiguous byte_len storage dt s =
     bindE (layout_contiguous s) (view_mut_new byte_len storage dt)"

definition view_mut_slice ::
  "('b \<Rightarrow> u64) \<Rightarrow> 'b tensor_view \<Rightarrow> usize \<Rightarrow> usize \<times> usize \<Rightarrow> 'b tensor_view tensor_result" where
  "view_mut_slice byte_len v axis bounds =
     bindE (layout_slice (tv_layout v) axis bounds) (view_mut_new byte_len (tv_storage v) (tv_dtype v))"

definition view_mut_reshape ::
  "('b \<Rightarrow> u64) \<Rightarrow> 'b tensor_view \<Rightarrow> tensor_shape \<Rightarrow> 'b tensor_view tensor_result" where
  "view_mut_reshape byte_len v requested =
     bindE (layout_reshape (tv_layout v) requested) (view_mut_new byte_len (tv_storage v) (tv_dtype v))"

definition view_mut_transpose ::
  "('b \<Rightarrow> u64) \<Rightarrow> 'b tensor_view \<Rightarrow> usize \<Rightarrow> usize \<Rightarrow> 'b tensor_view tensor_result" where
  "view_mut_transpose byte_len v first_axis second_axis =
     bindE (layout_transpose (tv_layout v) first_axis second_axis) (view_mut_new byte_len (tv_storage v) (tv_dtype v))"

text \<open>A workspace owns a store and hands out views of it. \<open>[u8]\<close> and \<open>Vec<u8>\<close> are lists of bytes.\<close>

record 'b tensor_workspace =
  tw_storage :: 'b

definition workspace_view :: "('b \<Rightarrow> u64) \<Rightarrow> 'b tensor_workspace \<Rightarrow> dtype \<Rightarrow> tensor_layout \<Rightarrow> 'b tensor_view tensor_result" where
  "workspace_view byte_len w = view_new byte_len (tw_storage w)"

definition workspace_view_mut ::
  "('b \<Rightarrow> u64) \<Rightarrow> 'b tensor_workspace \<Rightarrow> dtype \<Rightarrow> tensor_layout \<Rightarrow> 'b tensor_view tensor_result" where
  "workspace_view_mut byte_len w = view_mut_new byte_len (tw_storage w)"

definition byte_slice_len :: "nat list \<Rightarrow> u64" where
  "byte_slice_len bytes = (case u64_try_from (length bytes) of Some n \<Rightarrow> n | None \<Rightarrow> u64_max)"

end
