(* ===== verification/Tensor_Offsets.thy ===== *)
theory Tensor_Offsets
  imports Tensor_Layout "HOL-Library.Multiset"
begin

text \<open>
  Where the elements of a strided layout lie. A multi-index in range addresses the offset plus the product of
  index and strides; \<open>row_major\<close> is the position of an index in the canonical order. The lemmas relate the
  checked loops of \<open>riley-tensor\<close> to these two functions.
\<close>

subsection \<open>Indices and offsets\<close>

definition in_extents :: "nat list \<Rightarrow> nat list \<Rightarrow> bool" where
  "in_extents idx dims = list_all2 (<) idx dims"

fun dot :: "nat list \<Rightarrow> nat list \<Rightarrow> nat" where
  "dot (i # idx) (s # strides) = i * s + dot idx strides"
| "dot _ _ = 0"

definition element_offset :: "tensor_layout \<Rightarrow> nat list \<Rightarrow> nat" where
  "element_offset l idx = ly_offset_elements l + dot idx (st_elements (ly_strides l))"

abbreviation in_layout :: "tensor_layout \<Rightarrow> nat list \<Rightarrow> bool" where
  "in_layout l idx \<equiv> in_extents idx (sh_dimensions (ly_shape l))"

fun row_major :: "nat list \<Rightarrow> nat list \<Rightarrow> nat" where
  "row_major (d # dims) (i # idx) = i * prod_list dims + row_major dims idx"
| "row_major _ _ = 0"

lemma in_extents_simps [simp]:
  "in_extents [] [] " "in_extents (i # idx) (d # dims) \<longleftrightarrow> i < d \<and> in_extents idx dims"
  "\<not> in_extents [] (d # dims)" "\<not> in_extents (i # idx) []"
  by (simp_all add: in_extents_def)

lemma in_extents_length: "in_extents idx dims \<Longrightarrow> length idx = length dims"
  by (simp add: in_extents_def list_all2_lengthD)

lemma in_extents_nth: "in_extents idx dims \<longleftrightarrow> length idx = length dims \<and> (\<forall>k<length dims. idx ! k < dims ! k)"
  by (auto simp: in_extents_def list_all2_conv_all_nth)

lemma dot_nth: "length idx = length strides \<Longrightarrow> dot idx strides = (\<Sum>k<length strides. idx ! k * strides ! k)"
proof (induction idx strides rule: list_induct2)
  case (Cons i idx s strides)
  then show ?case by (simp add: sum.lessThan_Suc_shift del: sum.lessThan_Suc)
qed simp

lemma prod_list_0: "prod_list dims = 0 \<longleftrightarrow> (0 :: nat) \<in> set dims"
  by (induction dims) auto

lemma prod_list_pos: "0 < prod_list dims \<longleftrightarrow> (0 :: nat) \<notin> set dims"
  using prod_list_0 [of dims] by auto

lemma row_major_less: "in_extents idx dims \<Longrightarrow> row_major dims idx < prod_list dims"
  unfolding in_extents_def
proof (induction rule: list_all2_induct)
  case Nil
  then show ?case by simp
next
  case (Cons i idx d dims)
  then have "i * prod_list dims + row_major dims idx < (i + 1) * prod_list dims" by simp
  also have "\<dots> \<le> d * prod_list dims" using Cons by (intro mult_le_mono1) simp
  finally show ?case by simp
qed

lemma row_major_inj:
  "in_extents idx dims \<Longrightarrow> in_extents idx' dims \<Longrightarrow> row_major dims idx = row_major dims idx' \<Longrightarrow> idx = idx'"
proof (induction dims arbitrary: idx idx')
  case Nil
  then show ?case by (cases idx; cases idx') simp_all
next
  case (Cons d dims)
  then obtain i xs j ys where idx: "idx = i # xs" "idx' = j # ys" by (cases idx; cases idx') simp_all
  have lt: "row_major dims xs < prod_list dims" "row_major dims ys < prod_list dims"
    using Cons.prems idx by (simp_all add: row_major_less)
  have "i * prod_list dims + row_major dims xs = j * prod_list dims + row_major dims ys"
    using Cons.prems idx by simp
  from radix_inj [OF this lt] Cons.IH [of xs ys] Cons.prems idx show ?case by simp
qed

lemma row_major_snoc:
  "length idx = length dims \<Longrightarrow> row_major (dims @ [d]) (idx @ [i]) = row_major dims idx * d + i"
  by (induction idx dims rule: list_induct2) (simp_all add: algebra_simps)

lemma dot_snoc: "length idx = length strides \<Longrightarrow> dot (idx @ [i]) (strides @ [s]) = dot idx strides + i * s"
  by (induction idx strides rule: list_induct2) simp_all

lemma in_extents_snoc: "length idx = length dims \<Longrightarrow> in_extents (idx @ [i]) (dims @ [d]) \<longleftrightarrow> in_extents idx dims \<and> i < d"
  by (simp add: in_extents_def list_all2_append)

subsection \<open>Shapes\<close>

lemma checked_product_Some:
  "0 \<notin> set dims \<Longrightarrow> checked_product dims n = Some m \<longleftrightarrow> m = n * prod_list dims \<and> (dims = [] \<or> n * prod_list dims \<le> u64_max)"
proof (induction dims arbitrary: n)
  case Nil
  then show ?case by auto
next
  case (Cons d dims)
  have pos: "0 < prod_list dims" using Cons.prems by (simp add: prod_list_pos prod_list_0)
  have le: "n * d \<le> u64_max" if "n * d * prod_list dims \<le> u64_max"
    using that pos by (metis One_nat_def Suc_leI le_trans mult.right_neutral mult_le_mono2)
  show ?case
    using Cons.IH [of "n * d"] Cons.prems le by (cases "n * d \<le> u64_max") (auto simp: checked_mul_def mult.assoc)
qed

lemma shape_new_exact:
  "shape_new dims = Inr s \<longleftrightarrow> s = \<lparr>sh_dimensions = dims, sh_element_count = prod_list dims\<rparr> \<and>
     (0 \<in> set dims \<or> prod_list dims \<le> u64_max)"
proof (cases "0 \<in> set dims")
  case True
  then have "prod_list dims = 0" by (simp add: prod_list_pos prod_list_0)
  with True show ?thesis by (auto simp: shape_new_def)
next
  case False
  then show ?thesis by (auto simp: shape_new_def checked_product_Some)
qed

definition shape_ok :: "tensor_shape \<Rightarrow> bool" where
  "shape_ok s = (shape_new (sh_dimensions s) = Inr s)"

lemma shape_okD:
  assumes "shape_ok s"
  shows "sh_element_count s = prod_list (sh_dimensions s)" and "prod_list (sh_dimensions s) \<le> u64_max"
    and "shape_is_empty s \<longleftrightarrow> 0 \<in> set (sh_dimensions s)"
proof -
  have s: "s = \<lparr>sh_dimensions = sh_dimensions s, sh_element_count = prod_list (sh_dimensions s)\<rparr>"
    and b: "0 \<in> set (sh_dimensions s) \<or> prod_list (sh_dimensions s) \<le> u64_max"
    using assms unfolding shape_ok_def shape_new_exact by blast+
  show n: "sh_element_count s = prod_list (sh_dimensions s)" by (subst s) simp
  show "prod_list (sh_dimensions s) \<le> u64_max" using b prod_list_0 [of "sh_dimensions s"] by auto
  show "shape_is_empty s \<longleftrightarrow> 0 \<in> set (sh_dimensions s)" by (simp add: shape_is_empty_def n prod_list_pos prod_list_0)
qed

lemma shape_new_ok: "shape_new dims = Inr s \<Longrightarrow> shape_ok s \<and> sh_dimensions s = dims"
  by (auto simp: shape_ok_def shape_new_exact)

text \<open>The canonical strides: the stride of an axis is the product of the extents inside it.\<close>

fun suffix_products :: "nat list \<Rightarrow> nat list" where
  "suffix_products [] = []"
| "suffix_products (d # dims) = prod_list dims # suffix_products dims"

lemma length_suffix_products [simp]: "length (suffix_products dims) = length dims"
  by (induction dims) simp_all

lemma dot_suffix_products: "length idx = length dims \<Longrightarrow> dot idx (suffix_products dims) = row_major dims idx"
  by (induction idx dims rule: list_induct2) simp_all

lemma contiguous_loop_exact:
  "0 \<notin> set (dims @ inner) \<Longrightarrow> prod_list (dims @ inner) \<le> u64_max \<Longrightarrow>
     contiguous_loop (rev dims) (prod_list inner) (suffix_products inner) = Inr (suffix_products (dims @ inner))"
proof (induction dims arbitrary: inner rule: rev_induct)
  case Nil
  then show ?case by simp
next
  case (snoc d dims)
  have pos: "0 < prod_list dims" using snoc.prems(1) by (simp add: prod_list_pos prod_list_0)
  have "prod_list inner * d \<le> prod_list dims * (prod_list inner * d)" using pos by (cases "prod_list dims") simp_all
  also have "\<dots> \<le> u64_max" using snoc.prems(2) by (simp add: ac_simps)
  finally have "prod_list inner * d \<le> u64_max" .
  then show ?case
    using snoc.IH [of "d # inner"] snoc.prems by (simp add: mult.commute checked_mul_def ok_or_def)
qed

lemma strides_contiguous_exact:
  assumes "shape_ok s"
  shows "strides_contiguous s =
    Inr \<lparr>st_elements = (if shape_is_empty s then replicate (shape_rank s) 0 else suffix_products (sh_dimensions s))\<rparr>"
proof (cases "shape_is_empty s")
  case True
  then show ?thesis by (simp add: strides_contiguous_def)
next
  case False
  then show ?thesis
    using contiguous_loop_exact [of "sh_dimensions s" "[]"] shape_okD [OF assms]
    by (simp add: strides_contiguous_def)
qed

subsection \<open>The span\<close>

fun last_offsets :: "(nat \<times> nat) list \<Rightarrow> nat" where
  "last_offsets [] = 0"
| "last_offsets ((extent, stride) # rest) = (extent - 1) * stride + last_offsets rest"

lemma span_fold_exact:
  "n \<le> u64_max \<Longrightarrow> span_fold ps n = Inr m \<longleftrightarrow> m = n + last_offsets ps \<and> n + last_offsets ps \<le> u64_max"
proof (induction ps n rule: span_fold.induct)
  case (1 offset)
  then show ?case by auto
next
  case (2 extent stride rest offset)
  show ?case
  proof (cases "offset + (extent - 1) * stride \<le> u64_max")
    case True
    then show ?thesis using 2 by (simp add: checked_mul_def checked_add_def ok_or_def add.assoc)
  next
    case False
    then show ?thesis by (auto simp: checked_mul_def checked_add_def ok_or_def split: if_splits)
  qed
qed

text \<open>The last element of a non-empty layout has the largest offset of all.\<close>

lemma dot_le_last:
  "in_extents idx dims \<Longrightarrow> length strides = length dims \<Longrightarrow> dot idx strides \<le> last_offsets (zip dims strides)"
  unfolding in_extents_def
proof (induction arbitrary: strides rule: list_all2_induct)
  case Nil
  then show ?case by simp
next
  case (Cons i idx d dims)
  then obtain s ss where s: "strides = s # ss" by (cases strides) simp_all
  have "i * s \<le> (d - 1) * s" using Cons.hyps by (intro mult_le_mono1) simp
  moreover have "dot idx ss \<le> last_offsets (zip dims ss)" using Cons.IH [of ss] Cons.prems s by simp
  ultimately have "i * s + dot idx ss \<le> (d - 1) * s + last_offsets (zip dims ss)" by (rule add_mono)
  then show ?case using s by simp
qed

lemma dot_last: "length strides = length dims \<Longrightarrow> dot (map (\<lambda>d. d - 1) dims) strides = last_offsets (zip dims strides)"
  by (induction strides dims rule: list_induct2) simp_all

lemma last_in_extents: "0 \<notin> set dims \<Longrightarrow> in_extents (map (\<lambda>d. d - 1) dims) dims"
  by (induction dims) auto

lemma no_extents: "0 \<in> set dims \<Longrightarrow> \<not> in_extents idx dims"
  by (induction dims arbitrary: idx) (auto simp: in_extents_def list_all2_Cons2)

text \<open>A layout comes from \<open>Layout::new\<close> with a shape from \<open>Shape::new\<close>.\<close>

definition layout_ok :: "tensor_layout \<Rightarrow> bool" where
  "layout_ok l = (shape_ok (ly_shape l) \<and> ly_offset_elements l \<le> u64_max \<and>
     layout_new (ly_shape l) (ly_strides l) (ly_offset_elements l) = Inr l)"

lemma layout_new_exact:
  assumes "shape_ok s" and "off \<le> u64_max"
  shows "layout_new s strides off = Inr l \<longleftrightarrow>
    shape_rank s = strides_rank strides \<and>
    (let m = last_offsets (zip (sh_dimensions s) (st_elements strides)) in
     (shape_is_empty s \<or> off + m + 1 \<le> u64_max) \<and>
     l = \<lparr>ly_shape = s, ly_strides = strides, ly_offset_elements = off,
          ly_span_end_elements = (if shape_is_empty s then off else off + m + 1)\<rparr>)"
  by (cases "shape_is_empty s")
    (auto simp: layout_new_def storage_span_end_def span_fold_exact [OF assms(2)] Let_def)

lemma layout_newD:
  "layout_new s strides off = Inr l \<Longrightarrow> shape_ok s \<Longrightarrow> off \<le> u64_max \<Longrightarrow>
     layout_ok l \<and> ly_shape l = s \<and> ly_strides l = strides \<and> ly_offset_elements l = off"
  unfolding layout_ok_def by (auto simp: layout_new_exact Let_def)

lemma layout_okD:
  assumes "layout_ok l"
  shows "length (st_elements (ly_strides l)) = length (sh_dimensions (ly_shape l))"
    and "\<not> shape_is_empty (ly_shape l) \<Longrightarrow> ly_span_end_elements l =
      ly_offset_elements l + last_offsets (zip (sh_dimensions (ly_shape l)) (st_elements (ly_strides l))) + 1"
    and "shape_is_empty (ly_shape l) \<Longrightarrow> ly_span_end_elements l = ly_offset_elements l"
    and "ly_span_end_elements l \<le> u64_max"
proof -
  have s: "shape_ok (ly_shape l)" "ly_offset_elements l \<le> u64_max" using assms by (simp_all add: layout_ok_def)
  note e = layout_new_exact [OF s, THEN iffD1, of "ly_strides l" l]
  have "layout_new (ly_shape l) (ly_strides l) (ly_offset_elements l) = Inr l" using assms by (simp add: layout_ok_def)
  note e = e [OF this]
  show "length (st_elements (ly_strides l)) = length (sh_dimensions (ly_shape l))"
    using e by (simp add: shape_rank_def strides_rank_def)
  define m where "m = last_offsets (zip (sh_dimensions (ly_shape l)) (st_elements (ly_strides l)))"
  from e have "ly_span_end_elements l = (if shape_is_empty (ly_shape l) then ly_offset_elements l else ly_offset_elements l + m + 1)"
    unfolding Let_def m_def by (metis tensor_layout.select_convs(4))
  moreover from e have "shape_is_empty (ly_shape l) \<or> ly_offset_elements l + m + 1 \<le> u64_max"
    unfolding Let_def m_def by blast
  ultimately show "\<not> shape_is_empty (ly_shape l) \<Longrightarrow> ly_span_end_elements l =
      ly_offset_elements l + last_offsets (zip (sh_dimensions (ly_shape l)) (st_elements (ly_strides l))) + 1"
    "shape_is_empty (ly_shape l) \<Longrightarrow> ly_span_end_elements l = ly_offset_elements l"
    "ly_span_end_elements l \<le> u64_max" using s(2) by (auto simp: m_def)
qed

lemma in_layout_nonempty: "layout_ok l \<Longrightarrow> in_layout l idx \<Longrightarrow> \<not> shape_is_empty (ly_shape l)"
  using no_extents shape_okD(3) by (auto simp: layout_ok_def)

lemma element_in_span:
  assumes "layout_ok l" and "in_layout l idx"
  shows "ly_offset_elements l \<le> element_offset l idx \<and> element_offset l idx < ly_span_end_elements l"
  using dot_le_last [OF assms(2) layout_okD(1) [OF assms(1)]]
    layout_okD(2) [OF assms(1) in_layout_nonempty [OF assms]]
  by (simp add: element_offset_def)

lemma span_attained:
  assumes "layout_ok l" and "\<not> shape_is_empty (ly_shape l)"
  shows "\<exists>idx. in_layout l idx \<and> element_offset l idx + 1 = ly_span_end_elements l"
proof -
  have "0 \<notin> set (sh_dimensions (ly_shape l))" using assms shape_okD(3) by (simp add: layout_ok_def)
  from last_in_extents [OF this] show ?thesis
    using dot_last [OF layout_okD(1) [OF assms(1)]] layout_okD(2) [OF assms]
    by (intro exI [of _ "map (\<lambda>d. d - 1) (sh_dimensions (ly_shape l))"]) (simp add: element_offset_def)
qed

subsection \<open>Layouts whose elements are distinct\<close>

text \<open>Two indices side by side: for every axis the stride, the extent and the two index values.\<close>

type_synonym axis_pair = "(nat \<times> nat) \<times> (nat \<times> nat)"

definition pair_sum :: "(nat \<times> nat \<Rightarrow> nat) \<Rightarrow> axis_pair list \<Rightarrow> nat" where
  "pair_sum f zs = sum_list (map (\<lambda>((s, d), ab). f ab * s) zs)"

lemma pair_sum_simps [simp]:
  "pair_sum f [] = 0" "pair_sum f (((s, d), ab) # zs) = f ab * s + pair_sum f zs"
  by (simp_all add: pair_sum_def)

lemma spaced_inj:
  "spaced_from (map fst zs) req \<Longrightarrow> \<forall>((s, d), (a, b))\<in>set zs. a < d \<and> b < d \<Longrightarrow> x < req \<Longrightarrow> y < req \<Longrightarrow>
     x + pair_sum fst zs = y + pair_sum snd zs \<Longrightarrow> x = y \<and> (\<forall>(_, (a, b))\<in>set zs. a = b)"
proof (induction zs arbitrary: req x y)
  case Nil
  then show ?case by simp
next
  case (Cons z zs)
  obtain s d a b where z: "z = ((s, d), (a, b))" by (metis prod.collapse)
  have req: "req \<le> s" "spaced_from (map fst zs) (s * d)" using Cons.prems(1) z by (auto split: if_splits option.splits)
  have lt: "x < s" "y < s" using req(1) Cons.prems(3,4) by simp_all
  have inside: "u + c * s < s * d" if "u < s" "c < d" for u c
  proof -
    have "u + c * s < (c + 1) * s" using that(1) by simp
    also have "\<dots> \<le> d * s" using that(2) by (intro mult_le_mono1) simp
    finally show ?thesis by (simp add: mult.commute)
  qed
  have below: "x + a * s < s * d" "y + b * s < s * d" using inside lt Cons.prems(2) z by auto
  have sums: "(x + a * s) + pair_sum fst zs = (y + b * s) + pair_sum snd zs"
    using Cons.prems(5) by (simp add: z)
  have rest: "\<forall>((s, d), (a, b))\<in>set zs. a < d \<and> b < d" using Cons.prems(2) by simp
  have IH: "x + a * s = y + b * s \<and> (\<forall>(_, (a, b))\<in>set zs. a = b)"
    by (rule Cons.IH [OF req(2) rest below sums])
  then have "a * s + x = b * s + y" by simp
  from radix_inj [OF this lt] have "a = b" "x = y" by blast+
  with IH show ?case unfolding z by simp
qed

lemma map_sort_key: "map f (sort_key f xs) = sort (map f xs)"
  by (rule properties_for_sort [symmetric]) simp_all

lemma dot_pair_sum:
  "length dims = length strides \<Longrightarrow> length idx = length strides \<Longrightarrow> length idx' = length strides \<Longrightarrow>
     dot idx strides = pair_sum fst (zip (zip strides dims) (zip idx idx'))"
  "length dims = length strides \<Longrightarrow> length idx = length strides \<Longrightarrow> length idx' = length strides \<Longrightarrow>
     dot idx' strides = pair_sum snd (zip (zip strides dims) (zip idx idx'))"
proof (induction strides arbitrary: dims idx idx')
  case (Cons s strides)
  {
    case 1
    then obtain d ds i xs j ys where "dims = d # ds" "idx = i # xs" "idx' = j # ys"
      by (cases dims; cases idx; cases idx') simp_all
    with Cons.IH(1) [of ds xs ys] 1 show ?case by simp
  next
    case 2
    then obtain d ds i xs j ys where "dims = d # ds" "idx = i # xs" "idx' = j # ys"
      by (cases dims; cases idx; cases idx') simp_all
    with Cons.IH(2) [of ds xs ys] 2 show ?case by simp
  }
qed simp_all

text \<open>Axes of extent one do not count: their index is zero.\<close>

lemma pair_sum_filter:
  "\<forall>((s, d), (a, b))\<in>set zs. a < d \<and> b < d \<Longrightarrow>
     pair_sum fst (filter (\<lambda>((s, d), _). 1 < d) zs) = pair_sum fst zs \<and>
     pair_sum snd (filter (\<lambda>((s, d), _). 1 < d) zs) = pair_sum snd zs"
  by (induction zs) auto

lemma pair_sum_mset: "mset zs = mset zs' \<Longrightarrow> pair_sum f zs = pair_sum f zs'"
  unfolding pair_sum_def by (simp add: sum_mset_sum_list [symmetric] del: sum_mset_sum_list)

lemma map_fst_filter:
  "length dims = length strides \<Longrightarrow> length ab = length strides \<Longrightarrow>
     map fst (filter (\<lambda>((s, d), _). 1 < d) (zip (zip strides dims) ab)) =
     map (\<lambda>(extent, stride). (stride, extent)) (filter (\<lambda>(extent, _). 1 < extent) (zip dims strides))"
proof (induction strides arbitrary: dims ab)
  case Nil
  then show ?case by simp
next
  case (Cons s strides)
  then obtain d ds c cs where "dims = d # ds" "ab = c # cs" by (cases dims; cases ab) simp_all
  with Cons.IH [of ds cs] Cons.prems show ?case by simp
qed

lemma zipped_equal:
  "length dims = length strides \<Longrightarrow> length idx = length strides \<Longrightarrow> length idx' = length strides \<Longrightarrow>
     \<forall>(_, (a, b))\<in>set (zip (zip strides dims) (zip idx idx')). a = b \<Longrightarrow> idx = idx'"
proof (induction strides arbitrary: dims idx idx')
  case Nil
  then show ?case by simp
next
  case (Cons s strides)
  then obtain d ds i xs j ys where "dims = d # ds" "idx = i # xs" "idx' = j # ys"
    by (cases dims; cases idx; cases idx') simp_all
  with Cons.IH [of ds xs ys] Cons.prems show ?case by simp
qed

lemma zipped_in_extents:
  "in_extents idx dims \<Longrightarrow> in_extents idx' dims \<Longrightarrow> length strides = length dims \<Longrightarrow>
     \<forall>((s, d), (a, b))\<in>set (zip (zip strides dims) (zip idx idx')). a < d \<and> b < d"
  by (auto simp: in_extents_nth set_zip)

lemma single_index: "in_extents idx dims \<Longrightarrow> in_extents idx' dims \<Longrightarrow> prod_list dims \<le> 1 \<Longrightarrow> idx = idx'"
  using row_major_less [of idx dims] row_major_less [of idx' dims] by (intro row_major_inj) auto

lemma non_overlapping_distinct:
  assumes ok: "layout_ok l" and no: "is_non_overlapping l" and i: "in_layout l idx" "in_layout l idx'"
    and eq: "element_offset l idx = element_offset l idx'"
  shows "idx = idx'"
proof -
  let ?dims = "sh_dimensions (ly_shape l)" and ?strides = "st_elements (ly_strides l)"
  let ?Z = "zip (zip ?strides ?dims) (zip idx idx')"
  let ?F = "filter (\<lambda>((s, d), _). 1 < d) ?Z"
  have len: "length ?dims = length ?strides" "length idx = length ?strides" "length idx' = length ?strides"
    using layout_okD(1) [OF ok] in_extents_length [OF i(1)] in_extents_length [OF i(2)] by simp_all
  note rng = zipped_in_extents [OF i len(1) [symmetric]]
  show ?thesis
  proof (cases "sh_element_count (ly_shape l) \<le> 1")
    case True
    then show ?thesis using single_index [OF i] shape_okD(1) ok by (simp add: layout_ok_def)
  next
    case False
    define S where "S = sort_key fst ?F"
    have "map fst S = sort (map (\<lambda>(extent, stride). (stride, extent)) (filter (\<lambda>(extent, _). 1 < extent) (zip ?dims ?strides)))"
      unfolding S_def map_sort_key using map_fst_filter [OF len(1), of "zip idx idx'"] len by simp
    then have spaced: "spaced_from (map fst S) 1" using no False by (simp add: is_non_overlapping_def)
    have S: "mset S = mset ?F" "set S = set ?F" by (simp_all add: S_def)
    have rS: "\<forall>((s, d), (a, b))\<in>set S. a < d \<and> b < d" using rng S(2) by auto
    have "dot idx ?strides = dot idx' ?strides" using eq by (simp add: element_offset_def)
    then have "pair_sum fst ?F = pair_sum snd ?F"
      using dot_pair_sum [OF len] pair_sum_filter [OF rng] by simp
    then have "pair_sum fst S = pair_sum snd S" using pair_sum_mset [OF S(1)] by metis
    then have same: "\<forall>(_, (a, b))\<in>set ?F. a = b"
      using spaced_inj [OF spaced rS, of 0 0] S(2) by simp
    have "\<forall>(_, (a, b))\<in>set ?Z. a = b"
    proof (clarify)
      fix s d a b
      assume z: "((s, d), a, b) \<in> set ?Z"
      show "a = b"
      proof (cases "1 < d")
        case True
        then show ?thesis using same z by auto
      next
        case False
        then show ?thesis using rng z by auto
      qed
    qed
    then show ?thesis by (rule zipped_equal [OF len])
  qed
qed

end
