(* ===== verification/Tensor_Props.thy ===== *)
theory Tensor_Props
  imports Tensor_Offsets
begin

text \<open>
  What tensor layouts and views promise: contiguity is decided exactly, the zero-copy transformations address
  the elements they say, every element of a view lies in its store, and no two elements of an exclusive view
  share a byte.
\<close>

subsection \<open>Contiguity\<close>

lemma dot_zeros: "dot (replicate n 0) strides = 0"
  by (induction n arbitrary: strides) (auto split: list.split intro: dot.simps(2), metis dot.simps list.exhaust mult_0 add_0)

lemma row_major_zeros: "row_major dims (replicate n 0) = 0"
  by (induction n arbitrary: dims) (metis replicate_0 row_major.simps(2,3) list.exhaust,
    metis add_0 list.exhaust mult_0 replicate_Suc row_major.simps(1) row_major.simps(2))

lemma contiguous_from_exact:
  "length strides = length dims \<Longrightarrow> 0 \<notin> set dims \<Longrightarrow> 0 < e \<Longrightarrow> e * prod_list dims \<le> u64_max \<Longrightarrow>
     contiguous_from (rev (zip dims strides)) e \<longleftrightarrow>
     (\<forall>idx. in_extents idx dims \<longrightarrow> dot idx strides = e * row_major dims idx)"
proof (induction dims arbitrary: strides e rule: rev_induct)
  case Nil
  then show ?case by (auto simp: in_extents_def)
next
  case (snoc d dims)
  then obtain s ss where s: "strides = ss @ [s]" "length ss = length dims"
    by (cases strides rule: rev_cases) auto
  have pos: "0 < d" "0 \<notin> set dims" using snoc.prems(2) by auto
  have small: "(e * d) * prod_list dims \<le> u64_max" using snoc.prems(4) by (simp add: ac_simps)
  have "1 \<le> prod_list dims" using pos prod_list_pos [of dims] by simp
  then have "e * d * 1 \<le> e * d * prod_list dims" by (rule mult_le_mono2)
  from this small have "e * d * 1 \<le> u64_max" by (rule le_trans)
  then have fits: "checked_mul e d = Some (e * d)" by (simp add: checked_mul_def)
  have IH: "contiguous_from (rev (zip dims ss)) (e * d) \<longleftrightarrow>
      (\<forall>idx. in_extents idx dims \<longrightarrow> dot idx ss = e * d * row_major dims idx)"
    by (rule snoc.IH) (use s pos snoc.prems(3) small in simp_all)
  have lhs: "contiguous_from (rev (zip (dims @ [d]) strides)) e \<longleftrightarrow>
      (1 < d \<longrightarrow> s = e) \<and> (\<forall>idx. in_extents idx dims \<longrightarrow> dot idx ss = e * d * row_major dims idx)"
    unfolding IH [symmetric] using s fits by (simp add: checked_mul_def)
  have each: "dot (idx @ [i]) strides = e * row_major (dims @ [d]) (idx @ [i]) \<longleftrightarrow>
      dot idx ss + i * s = e * d * row_major dims idx + e * i" if "length idx = length dims" for idx i
    using that s by (simp add: dot_snoc row_major_snoc algebra_simps)
  show ?case unfolding lhs
  proof
    assume l: "(1 < d \<longrightarrow> s = e) \<and> (\<forall>idx. in_extents idx dims \<longrightarrow> dot idx ss = e * d * row_major dims idx)"
    show "\<forall>idx. in_extents idx (dims @ [d]) \<longrightarrow> dot idx strides = e * row_major (dims @ [d]) idx"
    proof (intro allI impI)
      fix idx
      assume idx: "in_extents idx (dims @ [d])"
      then obtain xs i where x: "idx = xs @ [i]" "length xs = length dims"
        using in_extents_length [OF idx] by (cases idx rule: rev_cases) auto
      with idx have i: "in_extents xs dims" "i < d" by (simp_all add: in_extents_snoc)
      have "i * s = e * i" using l i(2) by (cases "1 < d") auto
      then show "dot idx strides = e * row_major (dims @ [d]) idx" unfolding x(1) each [OF x(2)] using l i(1) by simp
    qed
  next
    assume r: "\<forall>idx. in_extents idx (dims @ [d]) \<longrightarrow> dot idx strides = e * row_major (dims @ [d]) idx"
    have all: "dot idx ss + i * s = e * d * row_major dims idx + e * i" if "in_extents idx dims" "i < d" for idx i
      using r that each [of idx i] in_extents_length [OF that(1)] by (simp add: in_extents_snoc)
    have "s = e" if "1 < d"
    proof -
      have "in_extents (replicate (length dims) 0) dims" using pos(2) by (auto simp: in_extents_nth intro: Suc_leI) (metis gr0I nth_mem)
      from all [OF this that] show ?thesis by (simp add: dot_zeros row_major_zeros)
    qed
    moreover have "dot idx ss = e * d * row_major dims idx" if "in_extents idx dims" for idx
      using all [OF that pos(1)] by simp
    ultimately show "(1 < d \<longrightarrow> s = e) \<and> (\<forall>idx. in_extents idx dims \<longrightarrow> dot idx ss = e * d * row_major dims idx)"
      by blast
  qed
qed

lemma is_contiguous_exact:
  assumes "layout_ok l"
  shows "is_contiguous l \<longleftrightarrow>
    (\<forall>idx. in_layout l idx \<longrightarrow> element_offset l idx = ly_offset_elements l + row_major (sh_dimensions (ly_shape l)) idx)"
proof (cases "shape_is_empty (ly_shape l)")
  case True
  then show ?thesis using in_layout_nonempty [OF assms] by (auto simp: is_contiguous_def)
next
  case False
  have s: "shape_ok (ly_shape l)" using assms by (simp add: layout_ok_def)
  show ?thesis
    using contiguous_from_exact [OF layout_okD(1) [OF assms], of 1] shape_okD [OF s] False
    by (simp add: is_contiguous_def element_offset_def)
qed

subsection \<open>Transformations\<close>

lemma dot_update:
  "k < length idx \<Longrightarrow> length idx = length strides \<Longrightarrow> dot (idx[k := idx ! k + a]) strides = dot idx strides + a * strides ! k"
proof (induction idx strides arbitrary: k rule: dot.induct)
  case (1 i idx s strides)
  then show ?case by (cases k) (simp_all add: algebra_simps)
qed auto

lemma slice_reads:
  assumes "layout_ok l" and "layout_slice l axis (a, b) = Inr l'"
  shows "layout_ok l'" and "sh_dimensions (ly_shape l') = (sh_dimensions (ly_shape l))[axis := b - a]"
    and "in_layout l' idx \<Longrightarrow> in_layout l (idx[axis := idx ! axis + a]) \<and>
      element_offset l' idx = element_offset l (idx[axis := idx ! axis + a])"
proof -
  let ?dims = "sh_dimensions (ly_shape l)" and ?st = "st_elements (ly_strides l)"
  obtain s off where axis: "axis < length ?dims" "a \<le> b" "b \<le> ?dims ! axis"
    and off: "off = ly_offset_elements l + a * ?st ! axis" "off \<le> u64_max"
    and s: "shape_new (?dims[axis := b - a]) = Inr s" and new: "layout_new s (ly_strides l) off = Inr l'"
    using assms(2) by (auto simp: layout_slice_def get_def split: if_splits)
  note shape = shape_new_ok [OF s]
  note l' = layout_newD [OF new _ off(2)]
  show "layout_ok l'" "sh_dimensions (ly_shape l') = ?dims[axis := b - a]" using l' shape by simp_all
  assume idx: "in_layout l' idx"
  then have i: "length idx = length ?dims" "\<forall>k<length ?dims. idx ! k < ?dims[axis := b - a] ! k"
    using l' shape by (simp_all add: in_extents_nth)
  have "idx ! axis < b - a" using i(2) axis(1) by auto
  then have "in_layout l (idx[axis := idx ! axis + a])"
    using i axis by (auto simp: in_extents_nth nth_list_update split: if_splits)
  moreover have "dot (idx[axis := idx ! axis + a]) ?st = dot idx ?st + a * ?st ! axis"
    by (rule dot_update) (use i axis layout_okD(1) [OF assms(1)] in simp_all)
  ultimately show "in_layout l (idx[axis := idx ! axis + a]) \<and>
      element_offset l' idx = element_offset l (idx[axis := idx ! axis + a])"
    using l' shape by (simp add: element_offset_def off(1))
qed

definition swapped :: "nat \<Rightarrow> nat \<Rightarrow> nat \<Rightarrow> nat" where
  "swapped i j k = (if k = i then j else if k = j then i else k)"

lemma list_swap_nth:
  "i < length xs \<Longrightarrow> j < length xs \<Longrightarrow> k < length xs \<Longrightarrow> list_swap i j xs ! k = xs ! swapped i j k"
  by (auto simp: list_swap_def swapped_def nth_list_update)

lemma length_list_swap [simp]: "length (list_swap i j xs) = length xs"
  by (simp add: list_swap_def)

lemma dot_swap:
  assumes "length idx = length strides" and "i < length idx" "j < length idx"
  shows "dot idx (list_swap i j strides) = dot (list_swap i j idx) strides"
proof -
  have "(\<Sum>k<length strides. idx ! k * strides ! swapped i j k) = (\<Sum>k<length strides. idx ! swapped i j k * strides ! k)"
    by (rule sum.reindex_bij_witness [of _ "swapped i j" "swapped i j"]) (use assms in \<open>auto simp: swapped_def\<close>)
  then show ?thesis using assms by (simp add: dot_nth list_swap_nth)
qed

lemma transpose_reads:
  assumes "layout_ok l" and "layout_transpose l i j = Inr l'"
  shows "layout_ok l'" and "sh_dimensions (ly_shape l') = list_swap i j (sh_dimensions (ly_shape l))"
    and "in_layout l' idx \<Longrightarrow> in_layout l (list_swap i j idx) \<and> element_offset l' idx = element_offset l (list_swap i j idx)"
proof -
  let ?dims = "sh_dimensions (ly_shape l)" and ?st = "st_elements (ly_strides l)"
  obtain s where ij: "i < length ?dims" "j < length ?dims" and s: "shape_new (list_swap i j ?dims) = Inr s"
    and new: "layout_new s \<lparr>st_elements = list_swap i j ?st\<rparr> (ly_offset_elements l) = Inr l'"
    using assms(2) by (auto simp: layout_transpose_def Let_def shape_rank_def not_le)
  have off: "ly_offset_elements l \<le> u64_max" using assms(1) by (simp add: layout_ok_def)
  note shape = shape_new_ok [OF s] and l' = layout_newD [OF new _ off]
  show "layout_ok l'" "sh_dimensions (ly_shape l') = list_swap i j ?dims" using l' shape by simp_all
  assume "in_layout l' idx"
  then have idx: "length idx = length ?dims" "\<forall>k<length ?dims. idx ! k < ?dims ! swapped i j k"
    using l' shape ij by (simp_all add: in_extents_nth list_swap_nth)
  have sw: "swapped i j k < length ?dims" "swapped i j (swapped i j k) = k" if "k < length ?dims" for k
    using that ij by (auto simp: swapped_def)
  have "in_layout l (list_swap i j idx)"
    unfolding in_extents_nth length_list_swap
  proof (intro conjI allI impI)
    fix k
    assume k: "k < length ?dims"
    then have "idx ! swapped i j k < ?dims ! swapped i j (swapped i j k)" using idx(2) sw(1) by simp
    then show "list_swap i j idx ! k < ?dims ! k" using idx(1) ij k sw(2) by (simp add: list_swap_nth)
  qed (rule idx(1))
  moreover have "dot idx (list_swap i j ?st) = dot (list_swap i j idx) ?st"
    by (rule dot_swap) (use idx(1) ij layout_okD(1) [OF assms(1)] in simp_all)
  ultimately show "in_layout l (list_swap i j idx) \<and> element_offset l' idx = element_offset l (list_swap i j idx)"
    using l' shape by (simp add: element_offset_def)
qed

lemma contiguous_strides_offset:
  assumes "shape_ok s" and "strides_contiguous s = Inr strides" and "in_extents idx (sh_dimensions s)"
  shows "dot idx (st_elements strides) = row_major (sh_dimensions s) idx"
proof -
  have "\<not> shape_is_empty s" using assms(1,3) no_extents shape_okD(3) by blast
  then show ?thesis
    using assms(2) dot_suffix_products [OF in_extents_length [OF assms(3)]] strides_contiguous_exact [OF assms(1)] by auto
qed

lemma reshape_reads:
  assumes "layout_ok l" and "shape_ok s" and "layout_reshape l s = Inr l'"
  shows "layout_ok l'" and "ly_shape l' = s"
    and "in_layout l idx \<Longrightarrow> in_layout l' idx' \<Longrightarrow>
      row_major (sh_dimensions s) idx' = row_major (sh_dimensions (ly_shape l)) idx \<Longrightarrow>
      element_offset l' idx' = element_offset l idx"
proof -
  have off: "ly_offset_elements l \<le> u64_max" using assms(1) by (simp add: layout_ok_def)
  have both: "layout_ok l' \<and> ly_shape l' = s"
  proof (cases "s = ly_shape l")
    case True
    then show ?thesis using assms by (simp add: layout_reshape_def)
  next
    case False
    then obtain strides where "layout_new s strides (ly_offset_elements l) = Inr l'"
      using assms(3) by (auto simp: layout_reshape_def)
    from layout_newD [OF this assms(2) off] show ?thesis by simp
  qed
  then show "layout_ok l'" and shape: "ly_shape l' = s" by simp_all
  assume i: "in_layout l idx" "in_layout l' idx'"
    "row_major (sh_dimensions s) idx' = row_major (sh_dimensions (ly_shape l)) idx"
  show "element_offset l' idx' = element_offset l idx"
  proof (cases "s = ly_shape l")
    case True
    then have "l' = l" using assms(3) by (auto simp: layout_reshape_def)
    then show ?thesis using row_major_inj [OF i(2)] i(1,3) True by auto
  next
    case False
    then obtain strides where c: "is_contiguous l" and strides: "strides_contiguous s = Inr strides"
      and new: "layout_new s strides (ly_offset_elements l) = Inr l'"
      using assms(3) by (auto simp: layout_reshape_def)
    have "element_offset l' idx' = ly_offset_elements l + row_major (sh_dimensions s) idx'"
      using layout_newD [OF new assms(2) off] contiguous_strides_offset [OF assms(2) strides] i(2) shape
      by (simp add: element_offset_def)
    then show ?thesis using i(1,3) c is_contiguous_exact [OF assms(1)] by simp
  qed
qed

subsection \<open>Every layout the transformations make\<close>

datatype zero_copy = SliceAxis nat nat nat | SwapAxes nat nat | Reshape "nat list"

fun transform :: "tensor_layout \<Rightarrow> zero_copy \<Rightarrow> tensor_layout tensor_result" where
  "transform l (SliceAxis axis a b) = layout_slice l axis (a, b)"
| "transform l (SwapAxes i j) = layout_transpose l i j"
| "transform l (Reshape dims) = bindE (shape_new dims) (layout_reshape l)"

text \<open>The element of the source that an index of the result stands for.\<close>

fun stands_for :: "zero_copy \<Rightarrow> nat list \<Rightarrow> nat list \<Rightarrow> nat list \<Rightarrow> nat list \<Rightarrow> bool" where
  "stands_for (SliceAxis axis a b) dims dims' idx' idx \<longleftrightarrow> idx = idx'[axis := idx' ! axis + a]"
| "stands_for (SwapAxes i j) dims dims' idx' idx \<longleftrightarrow> idx = list_swap i j idx'"
| "stands_for (Reshape _) dims dims' idx' idx \<longleftrightarrow> row_major dims idx = row_major dims' idx'"

lemma row_major_surj: "n < prod_list dims \<Longrightarrow> \<exists>idx. in_extents idx dims \<and> row_major dims idx = n"
proof (induction dims arbitrary: n)
  case Nil
  then show ?case by (intro exI [of _ "[]"]) simp
next
  case (Cons d dims)
  let ?p = "prod_list dims"
  have p: "0 < ?p" using Cons.prems by (cases ?p) simp_all
  from Cons.IH [of "n mod ?p"] p obtain idx where idx: "in_extents idx dims" "row_major dims idx = n mod ?p" by auto
  have "n div ?p < d" using Cons.prems p by (simp add: less_mult_imp_div_less)
  with idx show ?case by (intro exI [of _ "(n div ?p) # idx"]) simp
qed

lemma reshape_counts:
  assumes "layout_ok l" and "shape_ok s" and "layout_reshape l s = Inr l'"
  shows "prod_list (sh_dimensions s) = prod_list (sh_dimensions (ly_shape l))"
proof -
  have "shape_ok (ly_shape l)" using assms(1) by (simp add: layout_ok_def)
  from shape_okD(1) [OF this] shape_okD(1) [OF assms(2)] assms(3) show ?thesis
    by (simp add: layout_reshape_def split: if_splits)
qed

lemma prod_list_mono: "list_all2 (\<le>) xs (ys :: nat list) \<Longrightarrow> prod_list xs \<le> prod_list ys"
  by (induction rule: list_all2_induct) (auto intro: mult_le_mono)

lemma layout_count: "layout_ok l \<Longrightarrow> sh_element_count (ly_shape l) = prod_list (sh_dimensions (ly_shape l))"
  by (rule shape_okD(1)) (simp add: layout_ok_def)

lemma slice_counts:
  assumes "layout_ok l" and "layout_slice l axis (a, b) = Inr l'"
  shows "sh_element_count (ly_shape l') \<le> sh_element_count (ly_shape l)"
proof -
  have "axis < length (sh_dimensions (ly_shape l))" "b \<le> sh_dimensions (ly_shape l) ! axis"
    using assms(2) by (auto simp: layout_slice_def get_def split: if_splits)
  then have "list_all2 (\<le>) ((sh_dimensions (ly_shape l))[axis := b - a]) (sh_dimensions (ly_shape l))"
    by (auto simp: list_all2_conv_all_nth nth_list_update)
  from prod_list_mono [OF this] show ?thesis
    by (simp add: layout_count assms(1) slice_reads(1) [OF assms] slice_reads(2) [OF assms])
qed

lemma transpose_counts:
  assumes "layout_ok l" and "layout_transpose l i j = Inr l'"
  shows "sh_element_count (ly_shape l') = sh_element_count (ly_shape l)"
proof -
  have ij: "i < length (sh_dimensions (ly_shape l))" "j < length (sh_dimensions (ly_shape l))"
    using assms(2) by (auto simp: layout_transpose_def Let_def shape_rank_def not_le)
  have "mset (list_swap i j (sh_dimensions (ly_shape l))) = mset (sh_dimensions (ly_shape l))"
    unfolding list_swap_def using ij(2,1) by (rule mset_swap)
  then have "prod_list (list_swap i j (sh_dimensions (ly_shape l))) = prod_list (sh_dimensions (ly_shape l))"
    by (metis prod_mset_prod_list)
  then show ?thesis
    by (simp add: layout_count assms(1) transpose_reads(1) [OF assms] transpose_reads(2) [OF assms])
qed

lemma reshape_source:
  assumes "layout_ok l" and "shape_ok s" and "layout_reshape l s = Inr l'" and "in_layout l' idx'"
  shows "\<exists>!idx. in_layout l idx \<and> row_major (sh_dimensions (ly_shape l)) idx = row_major (sh_dimensions (ly_shape l')) idx'"
proof -
  have "row_major (sh_dimensions (ly_shape l')) idx' < prod_list (sh_dimensions (ly_shape l))"
    using row_major_less [OF assms(4)] reshape_counts [OF assms(1-3)] reshape_reads(2) [OF assms(1-3)] by simp
  from row_major_surj [OF this] obtain idx where "in_layout l idx"
    "row_major (sh_dimensions (ly_shape l)) idx = row_major (sh_dimensions (ly_shape l')) idx'" by blast
  then show ?thesis using row_major_inj by (intro ex1I [of _ idx]) auto
qed

text \<open>
  The contract of a zero-copy operation: the result is a checked layout with no more elements, and every index
  of it stands for one index of the source that addresses the same element.
\<close>

locale zero_copy_operation =
  fixes run :: "tensor_layout \<Rightarrow> tensor_layout tensor_result"
    and origin :: "nat list \<Rightarrow> nat list \<Rightarrow> nat list \<Rightarrow> nat list \<Rightarrow> bool"
  assumes keeps_ok: "layout_ok l \<Longrightarrow> run l = Inr l' \<Longrightarrow> layout_ok l'"
    and no_more: "layout_ok l \<Longrightarrow> run l = Inr l' \<Longrightarrow> sh_element_count (ly_shape l') \<le> sh_element_count (ly_shape l)"
    and has_origin: "layout_ok l \<Longrightarrow> run l = Inr l' \<Longrightarrow> in_layout l' idx' \<Longrightarrow>
      \<exists>!idx. in_layout l idx \<and> origin (sh_dimensions (ly_shape l)) (sh_dimensions (ly_shape l')) idx' idx"
    and same_element: "layout_ok l \<Longrightarrow> run l = Inr l' \<Longrightarrow> in_layout l idx \<Longrightarrow> in_layout l' idx' \<Longrightarrow>
      origin (sh_dimensions (ly_shape l)) (sh_dimensions (ly_shape l')) idx' idx \<Longrightarrow>
      element_offset l' idx' = element_offset l idx"
begin

lemma span_within:
  assumes "layout_ok l" and "run l = Inr l'" and "\<not> shape_is_empty (ly_shape l')"
  shows "ly_span_end_elements l' \<le> ly_span_end_elements l"
proof -
  from span_attained [OF keeps_ok [OF assms(1,2)] assms(3)] obtain idx'
    where idx': "in_layout l' idx'" "element_offset l' idx' + 1 = ly_span_end_elements l'" by blast
  from has_origin [OF assms(1,2) idx'(1)] obtain idx where idx: "in_layout l idx"
    "origin (sh_dimensions (ly_shape l)) (sh_dimensions (ly_shape l')) idx' idx" by blast
  from same_element [OF assms(1,2) idx(1) idx'(1) idx(2)] element_in_span [OF assms(1) idx(1)] idx'(2)
  show ?thesis by simp
qed

lemma storage_fits:
  assumes "layout_ok l" and "run l = Inr l'" and "\<not> shape_is_empty (ly_shape l')"
    and "validate_storage byte_len storage dt l = Inr ()"
  shows "validate_storage byte_len storage dt l' = Inr ()"
proof -
  have ends: "ly_span_end_elements l * size_bytes dt \<le> byte_len storage"
    "ly_span_end_elements l * size_bytes dt \<le> u64_max" "sh_element_count (ly_shape l) * size_bytes dt \<le> u64_max"
    using assms(4) by (auto simp: validate_storage_def storage_byte_range_def logical_byte_len_def Let_def
        checked_mul_def ok_or_def split: if_splits option.splits)
  have ok: "layout_ok l'" by (rule keeps_ok [OF assms(1,2)])
  note le = mult_le_mono1 [OF span_within [OF assms(1-3)], of "size_bytes dt"]
    mult_le_mono1 [OF no_more [OF assms(1,2)], of "size_bytes dt"]
  have le0: "ly_offset_elements l' * size_bytes dt \<le> ly_span_end_elements l' * size_bytes dt"
    using layout_okD(2) [OF ok assms(3)] by (intro mult_le_mono1) simp
  have words: "ly_offset_elements l' \<le> u64_max" "ly_span_end_elements l' \<le> u64_max"
    "sh_element_count (ly_shape l') \<le> u64_max" "size_bytes dt \<le> u64_max"
    using ok layout_okD(4) [OF ok] layout_count [OF ok] shape_okD(2) [of "ly_shape l'"]
    by (simp_all add: layout_ok_def) (cases dt; simp)
  note b0 = le_trans [OF le(1) ends(1)] and b1 = le_trans [OF le(1) ends(2)] and b2 = le_trans [OF le(2) ends(3)]
  note b3 = le_trans [OF le0 b1]
  show ?thesis
    using words b0 b1 b2 b3 by (simp add: validate_storage_def storage_byte_range_def logical_byte_len_def Let_def
        u64_try_from_def checked_mul_def ok_or_def failE_def)
qed

end

interpretation slicing: zero_copy_operation "\<lambda>l. layout_slice l axis (a, b)" "stands_for (SliceAxis axis a b)"
proof
  fix l l' idx'
  assume l: "layout_ok l" "layout_slice l axis (a, b) = Inr l'" and i: "in_layout l' idx'"
  from slice_reads(3) [OF l i] show "\<exists>!idx. in_layout l idx \<and>
      stands_for (SliceAxis axis a b) (sh_dimensions (ly_shape l)) (sh_dimensions (ly_shape l')) idx' idx" by auto
qed (simp_all add: slice_reads slice_counts)

interpretation swapping: zero_copy_operation "\<lambda>l. layout_transpose l i j" "stands_for (SwapAxes i j)"
proof
  fix l l' idx'
  assume l: "layout_ok l" "layout_transpose l i j = Inr l'" and i: "in_layout l' idx'"
  from transpose_reads(3) [OF l i] show "\<exists>!idx. in_layout l idx \<and>
      stands_for (SwapAxes i j) (sh_dimensions (ly_shape l)) (sh_dimensions (ly_shape l')) idx' idx" by auto
qed (simp_all add: transpose_reads transpose_counts)

lemma reshape_runs:
  "bindE (shape_new dims) (layout_reshape l) = Inr l' \<Longrightarrow>
     \<exists>s. shape_ok s \<and> layout_reshape l s = Inr l' \<and> sh_element_count s = sh_element_count (ly_shape l)"
  using shape_new_ok by (auto simp: layout_reshape_def split: if_splits)

interpretation reshaping: zero_copy_operation "\<lambda>l. bindE (shape_new dims) (layout_reshape l)" "stands_for (Reshape dims)"
proof
  fix l l' idx idx'
  assume l: "layout_ok l" "bindE (shape_new dims) (layout_reshape l) = Inr l'"
  from reshape_runs [OF l(2)] obtain s where s: "shape_ok s" "layout_reshape l s = Inr l'"
    "sh_element_count s = sh_element_count (ly_shape l)" by blast
  note r = reshape_reads [OF l(1) s(1,2)]
  show "layout_ok l'" by (rule r(1))
  show "sh_element_count (ly_shape l') \<le> sh_element_count (ly_shape l)" using r(2) s(3) by simp
  assume i: "in_layout l' idx'"
  show "\<exists>!idx. in_layout l idx \<and>
      stands_for (Reshape dims) (sh_dimensions (ly_shape l)) (sh_dimensions (ly_shape l')) idx' idx"
    using reshape_source [OF l(1) s(1,2) i] by simp
  assume "in_layout l idx" "stands_for (Reshape dims) (sh_dimensions (ly_shape l)) (sh_dimensions (ly_shape l')) idx' idx"
  with r(2) r(3) [OF _ i] show "element_offset l' idx' = element_offset l idx" by simp
qed

lemma transform_contract: "zero_copy_operation (\<lambda>l. transform l t) (stands_for t)"
  by (cases t) (simp_all add: slicing.zero_copy_operation_axioms swapping.zero_copy_operation_axioms
      reshaping.zero_copy_operation_axioms)

lemmas transform_laws = zero_copy_operation.keeps_ok [OF transform_contract] zero_copy_operation.has_origin [OF transform_contract]
  zero_copy_operation.same_element [OF transform_contract] zero_copy_operation.storage_fits [OF transform_contract]

text \<open>C13. Slicing, transposing and reshaping never copy and never move: whenever they succeed, every index of the
  result stands for exactly one index of the source, in range, both address the same element of the store, and a
  result with elements is a valid view of every store that the source was a valid view of.\<close>

theorem zero_copy_reads_source:
  assumes "layout_ok l" and "transform l t = Inr l'" and "in_layout l' idx'"
  shows "layout_ok l' \<and> (\<exists>!idx. in_layout l idx \<and>
      stands_for t (sh_dimensions (ly_shape l)) (sh_dimensions (ly_shape l')) idx' idx) \<and>
    (\<forall>idx. in_layout l idx \<and> stands_for t (sh_dimensions (ly_shape l)) (sh_dimensions (ly_shape l')) idx' idx \<longrightarrow>
      element_offset l idx = element_offset l' idx') \<and>
    (validate_storage byte_len storage dt l = Inr () \<longrightarrow> validate_storage byte_len storage dt l' = Inr ())"
proof (intro conjI allI impI)
  show ok: "layout_ok l'" by (rule transform_laws(1) [OF assms(1,2)])
  show "\<exists>!idx. in_layout l idx \<and> stands_for t (sh_dimensions (ly_shape l)) (sh_dimensions (ly_shape l')) idx' idx"
    by (rule transform_laws(2) [OF assms])
  show "element_offset l idx = element_offset l' idx'"
    if "in_layout l idx \<and> stands_for t (sh_dimensions (ly_shape l)) (sh_dimensions (ly_shape l')) idx' idx" for idx
    using that by (intro transform_laws(3) [OF assms(1,2) _ assms(3), symmetric]) blast+
  show "validate_storage byte_len storage dt l' = Inr ()" if "validate_storage byte_len storage dt l = Inr ()"
    using transform_laws(4) [OF assms(1,2) in_layout_nonempty [OF ok assms(3)] that] .
qed

text \<open>A 2 by 3 matrix and its column 1 to 3.\<close>

definition example_shape :: tensor_shape where
  "example_shape = \<lparr>sh_dimensions = [2, 3], sh_element_count = 6\<rparr>"

definition example_layout :: tensor_layout where
  "example_layout = \<lparr>ly_shape = example_shape, ly_strides = \<lparr>st_elements = [3, 1]\<rparr>, ly_offset_elements = 0,
     ly_span_end_elements = 6\<rparr>"

definition example_slice :: tensor_layout where
  "example_slice = \<lparr>ly_shape = \<lparr>sh_dimensions = [2, 2], sh_element_count = 4\<rparr>, ly_strides = \<lparr>st_elements = [3, 1]\<rparr>,
     ly_offset_elements = 1, ly_span_end_elements = 6\<rparr>"

lemmas layout_eval = shape_new_def layout_new_def storage_span_end_def shape_rank_def strides_rank_def
  shape_is_empty_def checked_mul_def checked_add_def ok_or_def get_def

lemma example_ok: "layout_ok example_layout" "layout_ok example_slice"
  by (simp_all add: layout_ok_def shape_ok_def example_layout_def example_slice_def example_shape_def layout_eval)

lemma example_slices: "transform example_layout (SliceAxis 1 1 3) = Inr example_slice"
  by (simp add: layout_slice_def example_layout_def example_slice_def example_shape_def layout_eval)

lemma example_stored: "validate_storage byte_slice_len (replicate 24 0) F32 example_layout = Inr ()"
  by (simp add: validate_storage_def storage_byte_range_def logical_byte_len_def byte_slice_len_def
      example_layout_def example_shape_def u64_try_from_def layout_eval)

theorem zero_copy_reads_source_witness:
  "(\<exists>!idx. in_layout example_layout idx \<and>
     stands_for (SliceAxis 1 1 3) (sh_dimensions (ly_shape example_layout)) (sh_dimensions (ly_shape example_slice)) [1, 1] idx) \<and>
   validate_storage byte_slice_len (replicate 24 0) F32 example_slice = Inr ()"
proof -
  have "in_layout example_slice [1, 1]" by (simp add: example_slice_def)
  note reads = zero_copy_reads_source [OF example_ok(1) example_slices this, of byte_slice_len "replicate 24 0" F32]
  show ?thesis
    by (intro conjI conjunct1 [OF conjunct2 [OF reads]] mp [OF conjunct2 [OF conjunct2 [OF conjunct2 [OF reads]]] example_stored])
qed

text \<open>Without elements it may not be: the empty tail of a padded layout starts behind its last element, and a
  store that holds every element of the source is refused although no byte of the slice is reachable.\<close>

definition padded_layout :: tensor_layout where
  "padded_layout = \<lparr>ly_shape = example_shape, ly_strides = \<lparr>st_elements = [4, 1]\<rparr>, ly_offset_elements = 0,
     ly_span_end_elements = 7\<rparr>"

definition empty_tail :: tensor_layout where
  "empty_tail = \<lparr>ly_shape = \<lparr>sh_dimensions = [0, 3], sh_element_count = 0\<rparr>, ly_strides = \<lparr>st_elements = [4, 1]\<rparr>,
     ly_offset_elements = 8, ly_span_end_elements = 8\<rparr>"

lemma padded_ok: "layout_ok padded_layout"
  by (simp add: layout_ok_def shape_ok_def padded_layout_def example_shape_def layout_eval)

lemma padded_slice: "transform padded_layout (SliceAxis 0 2 2) = Inr empty_tail"
  by (simp add: layout_slice_def padded_layout_def empty_tail_def example_shape_def layout_eval)

lemmas store_eval = validate_storage_def storage_byte_range_def logical_byte_len_def byte_slice_len_def u64_try_from_def

lemma padded_stored: "validate_storage byte_slice_len (replicate 7 0) U8 padded_layout = Inr ()"
  by (simp add: store_eval padded_layout_def example_shape_def layout_eval)

lemma empty_tail_stored: "validate_storage byte_slice_len (replicate 7 0) U8 empty_tail = Inl (BufferTooSmall 8 7)"
  by (simp add: store_eval empty_tail_def layout_eval failE_def)

theorem empty_tail_slice_refused:
  "layout_ok padded_layout \<and> validate_storage byte_slice_len (replicate 7 0) U8 padded_layout = Inr () \<and>
   transform padded_layout (SliceAxis 0 2 2) = Inr empty_tail \<and> shape_is_empty (ly_shape empty_tail) \<and>
   validate_storage byte_slice_len (replicate 7 0) U8 empty_tail = Inl (BufferTooSmall 8 7)"
proof (intro conjI)
  show "shape_is_empty (ly_shape empty_tail)" by (simp add: empty_tail_def shape_is_empty_def)
qed (rule padded_ok padded_stored padded_slice empty_tail_stored)+

subsection \<open>Exclusive views\<close>

text \<open>The exclusive views of one store: built on a checked layout, or derived from another by a
  transformation that consumes it.\<close>

inductive exclusive_view :: "('b \<Rightarrow> u64) \<Rightarrow> 'b \<Rightarrow> 'b tensor_view \<Rightarrow> bool"
  for byte_len :: "'b \<Rightarrow> u64" and storage :: 'b where
  fresh: "shape_new dims = Inr s \<Longrightarrow> off \<le> u64_max \<Longrightarrow> layout_new s strides off = Inr l \<Longrightarrow>
    view_mut_new byte_len storage dt l = Inr v \<Longrightarrow> exclusive_view byte_len storage v"
| whole: "shape_new dims = Inr s \<Longrightarrow> view_mut_from_contiguous byte_len storage dt s = Inr v \<Longrightarrow>
    exclusive_view byte_len storage v"
| sliced: "exclusive_view byte_len storage v \<Longrightarrow> view_mut_slice byte_len v axis (a, b) = Inr v' \<Longrightarrow>
    exclusive_view byte_len storage v'"
| reshaped: "exclusive_view byte_len storage v \<Longrightarrow> shape_new dims = Inr s \<Longrightarrow>
    view_mut_reshape byte_len v s = Inr v' \<Longrightarrow> exclusive_view byte_len storage v'"
| transposed: "exclusive_view byte_len storage v \<Longrightarrow> view_mut_transpose byte_len v i j = Inr v' \<Longrightarrow>
    exclusive_view byte_len storage v'"

lemma view_mut_newD:
  assumes "view_mut_new byte_len storage dt l = Inr v"
  shows "v = \<lparr>tv_storage = storage, tv_dtype = dt, tv_layout = l\<rparr>" and "is_non_overlapping l"
    and "ly_span_end_elements l * size_bytes dt \<le> byte_len storage"
  using assms by (auto simp: view_mut_new_def validate_storage_def storage_byte_range_def Let_def checked_mul_def
      ok_or_def split: if_splits option.splits)

lemma view_mut_new_storage: "view_mut_new byte_len storage dt l = Inr v \<Longrightarrow> tv_storage v = storage"
  using view_mut_newD(1) [of byte_len storage dt l v] by simp

lemma exclusive_view_checked:
  "exclusive_view byte_len storage v \<Longrightarrow>
     layout_ok (tv_layout v) \<and> view_mut_new byte_len storage (tv_dtype v) (tv_layout v) = Inr v"
proof (induction rule: exclusive_view.induct)
  case (fresh dims s off strides l dt v)
  then show ?case using view_mut_newD(1) [OF fresh(4)] layout_newD [OF fresh(3)] shape_new_ok [OF fresh(1)] by simp
next
  case (whole dims s dt v)
  then obtain strides l where new: "layout_new s strides 0 = Inr l" "view_mut_new byte_len storage dt l = Inr v"
    by (auto simp: view_mut_from_contiguous_def layout_contiguous_def)
  show ?case using new view_mut_newD(1) [OF new(2)] layout_newD [OF new(1)] shape_new_ok [OF whole(1)] by simp
next
  case (sliced v axis a b v')
  then have st: "tv_storage v = storage" by (blast intro: view_mut_new_storage)
  from sliced obtain l where l: "layout_slice (tv_layout v) axis (a, b) = Inr l"
    "view_mut_new byte_len storage (tv_dtype v) l = Inr v'" by (auto simp: view_mut_slice_def st)
  show ?case using l view_mut_newD(1) [OF l(2)] slice_reads(1) [OF _ l(1)] sliced by simp
next
  case (reshaped v dims s v')
  then have st: "tv_storage v = storage" by (blast intro: view_mut_new_storage)
  from reshaped obtain l where l: "layout_reshape (tv_layout v) s = Inr l"
    "view_mut_new byte_len storage (tv_dtype v) l = Inr v'" by (auto simp: view_mut_reshape_def st)
  show ?case using l view_mut_newD(1) [OF l(2)] reshape_reads(1) [OF _ _ l(1)] shape_new_ok [OF reshaped(2)] reshaped by simp
next
  case (transposed v i j v')
  then have st: "tv_storage v = storage" by (blast intro: view_mut_new_storage)
  from transposed obtain l where l: "layout_transpose (tv_layout v) i j = Inr l"
    "view_mut_new byte_len storage (tv_dtype v) l = Inr v'" by (auto simp: view_mut_transpose_def st)
  show ?case using l view_mut_newD(1) [OF l(2)] transpose_reads(1) [OF _ l(1)] transposed by simp
qed

text \<open>The bytes of one element of a view.\<close>

definition element_bytes :: "'b tensor_view \<Rightarrow> nat list \<Rightarrow> nat set" where
  "element_bytes v idx =
     {element_offset (tv_layout v) idx * size_bytes (tv_dtype v) ..<
      (element_offset (tv_layout v) idx + 1) * size_bytes (tv_dtype v)}"

lemma blocks_disjoint: "(a :: nat) \<noteq> b \<Longrightarrow> {a * w ..< (a + 1) * w} \<inter> {b * w ..< (b + 1) * w} = {}"
proof (induction a b rule: linorder_wlog)
  case (le a b)
  then have "(a + 1) * w \<le> b * w" by (intro mult_le_mono1) simp
  then show ?case by auto
next
  case (sym a b)
  then show ?case by blast
qed

text \<open>C12. The elements of an exclusive view never share a byte and never leave the store: for every exclusive view
  that construction, slicing, reshaping and transposing can produce, different indices in range own disjoint
  byte ranges inside the first \<open>byte_len\<close> bytes.
\<close>

theorem exclusive_views_never_alias:
  assumes "exclusive_view byte_len storage v" and "in_layout (tv_layout v) idx"
  shows "element_bytes v idx \<subseteq> {..< byte_len storage} \<and>
    (\<forall>idx'. in_layout (tv_layout v) idx' \<and> idx' \<noteq> idx \<longrightarrow> element_bytes v idx \<inter> element_bytes v idx' = {})"
proof (intro conjI allI impI)
  note v = exclusive_view_checked [OF assms(1)]
  note new = view_mut_newD(2,3) [OF conjunct2 [OF v]]
  note l = conjunct1 [OF v]
  have "(element_offset (tv_layout v) idx + 1) * size_bytes (tv_dtype v) \<le>
      ly_span_end_elements (tv_layout v) * size_bytes (tv_dtype v)"
    using element_in_span [OF l assms(2)] by (intro mult_le_mono1) simp
  then show "element_bytes v idx \<subseteq> {..< byte_len storage}" using new(2) by (auto simp: element_bytes_def)
  fix idx'
  assume "in_layout (tv_layout v) idx' \<and> idx' \<noteq> idx"
  then have "element_offset (tv_layout v) idx \<noteq> element_offset (tv_layout v) idx'"
    using non_overlapping_distinct [OF l new(1) assms(2)] by auto
  then show "element_bytes v idx \<inter> element_bytes v idx' = {}"
    unfolding element_bytes_def by (rule blocks_disjoint)
qed

definition example_view :: "nat list tensor_view" where
  "example_view = \<lparr>tv_storage = replicate 24 0, tv_dtype = F32, tv_layout = example_layout\<rparr>"

lemma example_exclusive: "exclusive_view byte_slice_len (replicate 24 0) example_view"
proof (rule exclusive_view.fresh)
  show "shape_new [2, 3] = Inr example_shape" by (simp add: layout_eval example_shape_def)
  show "layout_new example_shape \<lparr>st_elements = [3, 1]\<rparr> 0 = Inr example_layout"
    by (simp add: layout_eval example_layout_def example_shape_def)
  show "view_mut_new byte_slice_len (replicate 24 0) F32 example_layout = Inr example_view"
    by (simp add: view_mut_new_def validate_storage_def storage_byte_range_def logical_byte_len_def is_non_overlapping_def
        byte_slice_len_def example_layout_def example_shape_def example_view_def u64_try_from_def layout_eval)
qed simp

theorem exclusive_views_never_alias_witness:
  "element_bytes example_view [1, 2] \<subseteq> {..< byte_slice_len (replicate 24 0)} \<and>
   element_bytes example_view [1, 2] \<inter> element_bytes example_view [0, 2] = {}"
proof -
  have "in_layout (tv_layout example_view) [1, 2]" "in_layout (tv_layout example_view) [0, 2]"
    by (simp_all add: example_view_def example_layout_def example_shape_def)
  from exclusive_views_never_alias [OF example_exclusive this(1)] this(2) show ?thesis by simp
qed

text \<open>C38. Contiguity is decided exactly: \<open>is_contiguous\<close> holds of a layout if and only if every element lies at its
  row-major position after the offset, whatever strides the axes of extent one carry.
\<close>

theorem contiguity_decided_exactly:
  assumes "layout_ok l"
  shows "is_contiguous l \<longleftrightarrow>
    (\<forall>idx. in_layout l idx \<longrightarrow> element_offset l idx = ly_offset_elements l + row_major (sh_dimensions (ly_shape l)) idx)"
  by (rule is_contiguous_exact [OF assms])

theorem contiguity_decided_exactly_witness:
  "is_contiguous example_layout \<and> element_offset example_layout [1, 2] = 5 \<and>
   \<not> (\<forall>idx. in_layout example_slice idx \<longrightarrow> element_offset example_slice idx =
       ly_offset_elements example_slice + row_major (sh_dimensions (ly_shape example_slice)) idx)"
proof -
  have "is_contiguous example_layout" "\<not> is_contiguous example_slice" "element_offset example_layout [1, 2] = 5"
    by (simp_all add: is_contiguous_def example_layout_def example_slice_def example_shape_def element_offset_def layout_eval)
  with contiguity_decided_exactly [OF example_ok(2)] show ?thesis by simp
qed

end
