(* ===== verification/Spec2Isabelle.thy ===== *)
theory Spec2Isabelle
  imports Scheduler_Props Rng_Snapshot Grammar_Props Batch_Props Execution_Props Tensor_Props
begin

text \<open>
  The host-side core of the Riley inference server: the paged key/value cache, the continuous-batching
  scheduler, what it hands to the device and takes back, grammar-constrained decoding, the request-local
  random numbers and the tensor layouts. All paths are under \<open>src/crates/\<close>.

  \<^bold>\<open>How the program works.\<close> A scheduler (\<open>riley-scheduler\<close>) owns a pool of physical blocks
  (\<open>riley-runtime/src/paged_kv.rs\<close>), one sequence per active request and, optionally, a prefix cache of
  blocks that hold the start of earlier prompts. \<open>plan_iteration\<close> admits waiting requests, selects the work
  of one iteration, reserves its blocks and publishes an immutable plan. \<open>execution.rs\<close> adapts the plan to
  rows, packs them (\<open>llama/batch.rs\<close>), runs them on a device and downloads the result; every failure names a
  disposition. \<open>complete_iteration\<close> or \<open>abort_iteration\<close> settles every reservation, publishes tokens and
  full prompt blocks, and retires finished requests. Token choice may be constrained by a grammar
  (\<open>grammar.rs\<close>) and draws from a generator of its own per request (\<open>rng.rs\<close>); device tensors are views of
  stores (\<open>riley-tensor\<close>).

  \<^bold>\<open>Shared theories.\<close>
  \<^item> \<open>Riley_Prelude\<close>: machine integers as natural numbers with the source's checked, saturating and
    wrapping operations written out (\<open>usize\<close> has 64 bits); errors as \<open>'e + 'a\<close>; operations with a state as
    \<open>'s => ('e + 'a) * 's\<close> with weakest-precondition rules; the locale \<open>invariant_system\<close> (an operation
    keeps an invariant and only moves forward) with its reachability lemma; \<open>host_env\<close>, the clocks and the
    answers of the host allocator, which every theorem quantifies over.
  \<^item> \<open>Riley_Returns\<close>: code that may not return has an \<open>option\<close> result, where \<open>None\<close> is an endless recursion
    or an index panic; that it is \<open>Some\<close> is a theorem.

  \<^bold>\<open>The paged cache\<close> (\<open>paged_kv.rs\<close>).
  \<^item> \<open>Kv_Layout\<close>: \<open>KvLayout::checked\<close> and the byte offsets. Different elements have disjoint bytes.
  \<^item> \<open>Kv_Pool\<close>, \<open>Kv_Sequence\<close>: \<open>KvBlockPool\<close> and \<open>SequenceState\<close>, one record each and one definition per
    method. \<open>Kv_Ownership\<close> says who owns which block, \<open>Kv_Operations\<close> gives every method's contract on success and
    on error, \<open>Kv_System\<close> composes many sequences and outside holders over one pool.
  \<^item> \<open>Kv_Machine\<close>: any interleaving of the operations. Two sequences share a block only inside both shared
    prefixes, the books are exact, nothing leaks, a failed reservation undoes itself.

  \<^bold>\<open>The scheduler\<close> (\<open>riley-scheduler\<close>).
  \<^item> \<open>Scheduler_Config\<close> (\<open>config.rs\<close>, \<open>error.rs\<close>), \<open>Iteration_Plan\<close> (\<open>plan.rs\<close>: what an accepted plan or
    result guarantees, block aliasing included), \<open>Scheduler_Metrics\<close> (\<open>metrics.rs\<close>: a rolling window is the recent
    past, by the locale \<open>bounded_history\<close>).
  \<^item> \<open>Prefix_Cache\<close>, \<open>Prefix_Cache_Inv\<close>, \<open>Prefix_Cache_Props\<close> (\<open>prefix_cache.rs\<close>): an array of entries with a
    linked recency list, abstracted to a list; lookup, touch, eviction and clearing against that list.
  \<^item> \<open>Scheduler_State\<close>, \<open>Scheduler_Select\<close>, \<open>Scheduler_Lifecycle\<close>, \<open>Scheduler_Iteration\<close> (\<open>scheduler.rs\<close>): the
    record \<open>scheduler\<close> has the fields of \<open>ContinuousBatchScheduler\<close>; selection, admission and ending of
    requests, planning, completing, aborting, shutdown.
  \<^item> \<open>Scheduler_Inv\<close> (the books), \<open>Scheduler_Flight\<close> (the progress of each request and the reservations in
    flight; \<open>sched_inv\<close>), and the contract of every operation over it: \<open>Scheduler_Life\<close>, \<open>Scheduler_Publish\<close>,
    \<open>Scheduler_Plan\<close>, \<open>Scheduler_Prepare\<close>, \<open>Scheduler_Settle\<close>, \<open>Scheduler_End\<close>, \<open>Scheduler_Close\<close>.
  \<^item> \<open>Scheduler_Machine\<close>: every public operation with any arguments, clock and allocator is a step, successful or
    not; all reachable schedulers satisfy the invariant. \<open>Scheduler_Outcomes\<close>: what a cancellation and a completed
    iteration make of each request, record for record, and when they are refused. \<open>Scheduler_Props\<close>: what follows for
    limits, FCFS order, sharing of blocks between equal prompt prefixes, settling all or nothing, and closing without a loss.

  \<^bold>\<open>Between scheduler and device.\<close>
  \<^item> \<open>Batch_Metadata\<close> (\<open>llama/batch.rs\<close>) packs rows with epoch marks instead of clearing arrays.
    \<open>Batch_Validate\<close> proves that the marked scan decides a specification without marks, \<open>Batch_Pack\<close> that the loops fill
    the specified arrays, \<open>Batch_Session\<close> that this holds for every reachable packer, \<open>Batch_Props\<close> states it. The bound is
    an epoch below \<open>2 ^ 63\<close>: from there on the block mark no longer holds the epoch, and
    \<open>Batch_Props\<close> shows that two rows that write one block are then accepted.
  \<^item> \<open>Execution_Prepare\<close>, \<open>Execution\<close> (\<open>execution.rs\<close>): adaptation, bounds, the order of dispatch, download, timing and
    synchronization, the disposition of every failure, the retained graph path. The prepared executor, the stream
    and the events are a parameter, the record \<open>device_runtime\<close>.
  \<^item> \<open>Execution_Accepts\<close>, \<open>Execution_Link\<close>, \<open>Execution_Props\<close>: a plan of \<open>plan_iteration\<close> is adapted without an
    error of its own and packed by any packer whose bounds it passes; the result of an executed plan is accepted for the
    iteration in flight; what a failure tells the scheduler is true of the device.

  \<^bold>\<open>Grammars\<close> (\<open>grammar.rs\<close>). \<open>Grammar\<close> and \<open>Grammar_Build\<close>: building and its checks, decided exactly.
  \<open>Grammar_Expand\<close>: parse stacks, whose expansion terminates for every built grammar. \<open>Grammar_Language\<close>: the
  language by leftmost derivations, and what a set of stacks accepts. \<open>Token_Index\<close>: the token trie.
  \<open>Grammar_Automaton\<close>, \<open>Grammar_Mask\<close>: the automaton that is built while it runs, with resets, and the vocabulary masks.
  \<open>Grammar_Session\<close>, \<open>Grammar_Props\<close>: any number of cursors on one automaton; acceptance, masks and invisibility of the
  caches hold in every session.

  \<^bold>\<open>Random numbers\<close> (\<open>rng.rs\<close>). \<open>Rng\<close>: Philox4x32-10 on 32-bit words, seeding, forking, drawing, snapshots.
  \<open>Rng_Stream\<close>: the block function is a permutation and drawing reads one fixed stream. \<open>Rng_Snapshot\<close>: the canonical text.
  SHA-256 (crate \<open>sha2\<close>) is a parameter; the binary64 value of a draw is an exact rational.

  \<^bold>\<open>Tensors\<close> (\<open>riley-tensor\<close>). \<open>Tensor_Layout\<close>: shapes, strides, layouts, views. \<open>Tensor_Offsets\<close>: the offset of an
  index, the span, and why a layout passed by \<open>is_non_overlapping\<close> has distinct elements. \<open>Tensor_Props\<close>: slice, transpose and
  reshape share the contract \<open>zero_copy_operation\<close>; elements of exclusive views own disjoint bytes. The length of
  a store is a parameter.

  \<^bold>\<open>Recursion and fuel.\<close> Most loops are structural over the list they scan. The fuel of \<open>touch_loop\<close> and \<open>evict_loop\<close> is
  the number of cache entries, and the invariant shows that it never runs out; that of \<open>release_tail\<close> is the number of blocks.
  \<open>nullable_loop\<close>, \<open>visit\<close>, \<open>expand\<close> and \<open>mask_loop\<close> are partial functions without fuel; each has a theorem that it returns.

  \<^bold>\<open>Abstractions.\<close> Hash maps are association lists or partial functions, \<open>Vec\<close> capacities appear where the code relies on
  them (the packer), the host allocator may refuse any fallible reservation, and durations are nanosecond counts. Device
  milliseconds are exact rationals or not finite.

  \<^bold>\<open>Not modelled.\<close> Formatting of errors and debug output and fault injection for tests; the HTTP server and engine
  thread (\<open>riley-server\<close>: network input and output around the scheduler); the CUDA bindings and kernels
  (\<open>riley-cuda\<close>: foreign code); the numerical runtime, sampling and generation (binary32 arithmetic); tokenizer,
  configuration and weight files (\<open>riley-model\<close>: third-party parsers and file access); the build tool
  \<open>riley-native\<close> and the error type of \<open>riley-core\<close>.
\<close>

end
